(* ===== verification/TdaPrelude.thy ===== *)
theory TdaPrelude
  imports Main "HOL-Library.Monad_Syntax" "HOL-Library.Multiset" "HOL-Library.Word"
begin

text \<open>
  Shared vocabulary of the development.

  \<^item> A failing \<open>TDA_EXPECT\<close> or \<open>assert\<close> of the code stops the program; the model's value for
    it is \<^term>\<open>None\<close>, so an operation that may stop has an option result and its checks are
    calls of \<open>chk\<close>.
  \<^item> \<open>size_t\<close> and \<open>uintptr_t\<close> are 64 bits wide and read as naturals; where the code computes
    with wrap-around or checks for overflow, the wrap-around is written out with the functions
    of the section on \<open>size_t\<close>.
  \<^item> The generic lemmas on lists, options and arithmetic that the components share.
\<close>

section \<open>Checks\<close>

definition chk :: "bool \<Rightarrow> unit option" where
  "chk b = (if b then Some () else None)"

lemma chk_True [simp]: "chk True = Some ()"
  by (simp add: chk_def)

lemma chk_False [simp]: "chk False = None"
  by (simp add: chk_def)

lemma chk_bind [simp]: "(Option.bind (chk b) f = Some y) \<longleftrightarrow> b \<and> f () = Some y"
  by (simp add: chk_def)

lemma chk_Some_iff [simp]: "chk b = Some u \<longleftrightarrow> b"
  by (simp add: chk_def)

lemma chk_hold: "b \<Longrightarrow> chk b = Some ()"
  by simp

lemma bind_Some_iff: "(Option.bind x f = Some z) \<longleftrightarrow> (\<exists>y. x = Some y \<and> f y = Some z)"
  by (cases x) auto

section \<open>size_t\<close>

definition SIZE_MAX :: nat where
  "SIZE_MAX = 2 ^ 64 - 1"

text \<open>\<open>ckd_add\<close> and \<open>ckd_mul\<close> of \<open><stdckdint.h>\<close>: \<^term>\<open>None\<close> when the result does not fit.\<close>

definition ckd_add :: "nat \<Rightarrow> nat \<Rightarrow> nat option" where
  "ckd_add a b = (if a + b \<le> SIZE_MAX then Some (a + b) else None)"

definition ckd_mul :: "nat \<Rightarrow> nat \<Rightarrow> nat option" where
  "ckd_mul a b = (if a * b \<le> SIZE_MAX then Some (a * b) else None)"

text \<open>Unsigned negation, complement, addition and subtraction modulo \<open>2 ^ 64\<close>.\<close>

definition wneg :: "nat \<Rightarrow> nat" where
  "wneg a = (2 ^ 64 - a mod 2 ^ 64) mod 2 ^ 64"

definition wnot :: "nat \<Rightarrow> nat" where
  "wnot a = SIZE_MAX - a mod 2 ^ 64"

definition wadd :: "nat \<Rightarrow> nat \<Rightarrow> nat" where
  "wadd a b = (a + b) mod 2 ^ 64"

definition wsub :: "nat \<Rightarrow> nat \<Rightarrow> nat" where
  "wsub a b = (a + wneg b) mod 2 ^ 64"

definition wmul :: "nat \<Rightarrow> nat \<Rightarrow> nat" where
  "wmul a b = (a * b) mod 2 ^ 64"

lemma ckd_add_Some_iff: "ckd_add a b = Some c \<longleftrightarrow> c = a + b \<and> a + b \<le> SIZE_MAX"
  by (auto simp: ckd_add_def)

lemma ckd_add_None_iff: "ckd_add a b = None \<longleftrightarrow> SIZE_MAX < a + b"
  by (auto simp: ckd_add_def)

lemma ckd_mul_Some_iff: "ckd_mul a b = Some c \<longleftrightarrow> c = a * b \<and> a * b \<le> SIZE_MAX"
  by (auto simp: ckd_mul_def)

lemma ckd_mul_None_iff: "ckd_mul a b = None \<longleftrightarrow> SIZE_MAX < a * b"
  by (auto simp: ckd_mul_def)

lemma le_SIZE_MAX_iff: "n \<le> SIZE_MAX \<longleftrightarrow> n < 2 ^ 64"
  by (auto simp: SIZE_MAX_def)

lemma wadd_small [simp]: "a + b \<le> SIZE_MAX \<Longrightarrow> wadd a b = a + b"
  by (simp add: wadd_def le_SIZE_MAX_iff)

lemma wmul_small [simp]: "a * b \<le> SIZE_MAX \<Longrightarrow> wmul a b = a * b"
  by (simp add: wmul_def le_SIZE_MAX_iff)

lemma wsub_small:
  assumes "b \<le> a" "a \<le> SIZE_MAX"
  shows "wsub a b = a - b"
proof (cases "b = 0")
  case True
  then show ?thesis using assms by (simp add: wsub_def wneg_def le_SIZE_MAX_iff)
next
  case False
  have b: "b < 2 ^ 64" using assms by (simp add: SIZE_MAX_def)
  then have "wneg b = 2 ^ 64 - b" using False by (simp add: wneg_def)
  then have "a + wneg b = (a - b) + 2 ^ 64" using b assms by simp
  moreover have "a - b < 2 ^ 64" using assms by (simp add: SIZE_MAX_def)
  ultimately show ?thesis by (simp add: wsub_def del: Num.numeral_eq_Suc)
qed

text \<open>A sum that wraps and is brought back.\<close>

lemma wsub_wadd:
  assumes "c \<le> a + b" "a + b - c \<le> SIZE_MAX" "c \<le> SIZE_MAX"
  shows "wsub (wadd a b) c = a + b - c"
proof (cases "c = 0")
  case True
  then show ?thesis using assms by (simp add: wsub_def wneg_def wadd_def le_SIZE_MAX_iff)
next
  case False
  have c: "c < 2 ^ 64" using assms(3) by (simp add: SIZE_MAX_def)
  then have "wneg c = 2 ^ 64 - c" using False by (simp add: wneg_def)
  then have "wsub (wadd a b) c = ((a + b) mod 2 ^ 64 + (2 ^ 64 - c)) mod 2 ^ 64"
    by (simp add: wsub_def wadd_def del: Num.numeral_eq_Suc)
  also have "\<dots> = (a + b + (2 ^ 64 - c)) mod 2 ^ 64" by (rule mod_add_left_eq)
  also have "a + b + (2 ^ 64 - c) = a + b - c + 2 ^ 64" using assms(1) c by linarith
  also have "(a + b - c + 2 ^ 64) mod 2 ^ 64 = a + b - c"
    using assms(2) by (simp add: SIZE_MAX_def)
  finally show ?thesis .
qed

section \<open>Steps of a mixer\<close>

text \<open>Folding a word onto its own high bits, and multiplying by an odd constant, lose nothing.\<close>

unbundle bit_operations_syntax

lemma xor_shift_inj:
  fixes x y :: "64 word"
  assumes "0 < k" "x XOR drop_bit k x = y XOR drop_bit k y"
  shows "x = y"
proof (rule bit_word_eqI)
  fix n assume "n < LENGTH(64)"
  have eq: "(bit x n \<noteq> bit x (n + k)) = (bit y n \<noteq> bit y (n + k))" for n
    using arg_cong [OF assms(2), of "\<lambda>w. bit w n"] by (simp add: bit_xor_iff bit_drop_bit_eq add.commute)
  have "bit x (64 - m) = bit y (64 - m)" if "m \<le> 64" for m
    using that
  proof (induction m rule: less_induct)
    case (less m)
    have "bit x (64 - m + k) = bit y (64 - m + k)"
    proof (cases "64 - m + k \<ge> 64")
      case True
      then show ?thesis by (simp add: bit_word.rep_eq word_size)
    next
      case False
      then have "m - k < m" "m - k \<le> 64" "64 - (m - k) = 64 - m + k"
        using assms(1) less.prems by auto
      then show ?thesis using less.IH [of "m - k"] by metis
    qed
    then show ?case using eq [of "64 - m"] by blast
  qed
  from this [of "64 - n"] show "bit x n = bit y n" using \<open>n < LENGTH(64)\<close> by simp
qed

lemma odd_mult_inj:
  fixes x y c d :: "64 word"
  assumes "c * d = 1" "x * c = y * c"
  shows "x = y"
proof -
  have "x = x * c * d" using assms(1) by (simp add: mult.assoc)
  also have "\<dots> = y * c * d" by (simp add: assms(2))
  also have "\<dots> = y" using assms(1) by (simp add: mult.assoc)
  finally show ?thesis .
qed

end
