(* ===== verification/Layout.thy ===== *)
theory Layout
  imports TdaPrelude
begin

text \<open>
  \<open>core/layout.h\<close>, \<open>core/align.h\<close> and the shift-free queries of \<open>internal/bits.h\<close>: the size and
  alignment of a block, the checked layout arithmetic, and rounding up to an alignment. The bit
  tricks (\<open>-size & (align - 1)\<close>, \<open>(val + (align - 1)) & ~(align - 1)\<close>) are modelled as written and
  shown equal to the arithmetic they stand for.
\<close>

unbundle bit_operations_syntax

section \<open>core/layout.h\<close>

record layout =
  lsize :: nat
  lalign :: nat

definition tda_layout_is_align :: "nat \<Rightarrow> bool" where
  "tda_layout_is_align a \<longleftrightarrow> a > 0 \<and> (a AND (a - 1)) = 0"

definition tda_layout_is_type :: "layout \<Rightarrow> bool" where
  "tda_layout_is_type l \<longleftrightarrow>
     tda_layout_is_align (lalign l) \<and> lsize l > 0 \<and> lsize l mod lalign l = 0"

definition tda_layout_eq :: "layout \<Rightarrow> layout \<Rightarrow> bool" where
  "tda_layout_eq a b \<longleftrightarrow> lsize a = lsize b \<and> lalign a = lalign b"

text \<open>
  The checked builders. The outer option is the asserts; the inner one is \<^term>\<open>None\<close> where the C
  function returns true for an overflow.
\<close>

definition tda_layout_ckd_array :: "layout \<Rightarrow> nat \<Rightarrow> layout option option" where
  "tda_layout_ckd_array elem cnt = do {
     chk (tda_layout_is_type elem);
     Some (case ckd_mul (lsize elem) cnt of
             None \<Rightarrow> None
           | Some n \<Rightarrow> Some \<lparr>lsize = n, lalign = lalign elem\<rparr>)
   }"

definition tda_layout_ckd_extend :: "layout \<Rightarrow> layout \<Rightarrow> (layout \<times> nat) option option" where
  "tda_layout_ckd_extend self field = do {
     chk (tda_layout_is_align (lalign self));
     chk (tda_layout_is_align (lalign field));
     let pad = (wneg (lsize self) AND (lalign field - 1));
     Some (case ckd_add (lsize self) pad of
             None \<Rightarrow> None
           | Some offset \<Rightarrow>
               (case ckd_add offset (lsize field) of
                  None \<Rightarrow> None
                | Some n \<Rightarrow>
                    Some (\<lparr>lsize = n,
                           lalign = (if lalign field > lalign self then lalign field
                                     else lalign self)\<rparr>, offset)))
   }"

definition tda_layout_ckd_pad :: "layout \<Rightarrow> layout option option" where
  "tda_layout_ckd_pad self = do {
     chk (tda_layout_is_align (lalign self));
     Some (case ckd_add (lsize self) (wneg (lsize self) AND (lalign self - 1)) of
             None \<Rightarrow> None
           | Some n \<Rightarrow> Some (self\<lparr>lsize := n\<rparr>))
   }"

section \<open>core/align.h\<close>

definition tda_align_up :: "nat \<Rightarrow> nat \<Rightarrow> nat option" where
  "tda_align_up val align = do {
     chk (tda_layout_is_align align);
     chk (val \<le> SIZE_MAX - (align - 1));
     Some ((val + (align - 1)) AND wnot (align - 1))
   }"

definition tda_align_ckd_up :: "nat \<Rightarrow> nat \<Rightarrow> nat option option" where
  "tda_align_ckd_up val align = do {
     chk (tda_layout_is_align align);
     if val > SIZE_MAX - (align - 1) then Some None
     else map_option Some (tda_align_up val align)
   }"

definition tda_align_pad :: "nat \<Rightarrow> nat \<Rightarrow> nat option" where
  "tda_align_pad ptr align = do {
     chk (ptr \<noteq> 0);
     chk (tda_layout_is_align align);
     Some (wneg ptr AND (align - 1))
   }"

definition tda_align_meets :: "nat \<Rightarrow> nat \<Rightarrow> bool option" where
  "tda_align_meets ptr align = do {
     chk (ptr \<noteq> 0);
     chk (tda_layout_is_align align);
     Some ((ptr AND (align - 1)) = 0)
   }"

section \<open>Powers of two\<close>

lemma and_pred_double:
  fixes b :: nat
  assumes "b > 0"
  shows "((2 * b) AND (2 * b - 1)) = 2 * (b AND (b - 1))"
proof -
  have "(2 * b - 1) div 2 = b - 1" using assms by arith
  then show ?thesis
    by (subst and_rec) simp
qed

lemma and_pred_odd: "((2 * b + 1) AND (2 * b + 1 - 1)) = 2 * b" for b :: nat
  by (subst and_rec) simp

lemma is_align_iff: "tda_layout_is_align a \<longleftrightarrow> (\<exists>k. a = 2 ^ k)"
proof (induction a rule: less_induct)
  case (less a)
  show ?case
  proof (cases "a = 0")
    case True
    then show ?thesis by (simp add: tda_layout_is_align_def)
  next
    case False
    show ?thesis
    proof (cases "even a")
      case True
      then obtain b where b: "a = 2 * b" by blast
      with False have "b > 0" "b < a" by auto
      then have "tda_layout_is_align a \<longleftrightarrow> tda_layout_is_align b"
        unfolding tda_layout_is_align_def b using and_pred_double [of b] by simp
      also have "\<dots> \<longleftrightarrow> (\<exists>k. b = 2 ^ k)" using less \<open>b < a\<close> by blast
      also have "\<dots> \<longleftrightarrow> (\<exists>k. a = 2 ^ k)"
      proof
        assume "\<exists>k. b = 2 ^ k"
        then obtain k where "b = 2 ^ k" by blast
        then have "a = 2 ^ Suc k" using b by simp
        then show "\<exists>k. a = 2 ^ k" by blast
      next
        assume "\<exists>k. a = 2 ^ k"
        then obtain k where k: "a = 2 ^ k" by blast
        with b have "k \<noteq> 0" by (cases k) auto
        then obtain j where "k = Suc j" by (cases k) auto
        with k b show "\<exists>k. b = 2 ^ k" by auto
      qed
      finally show ?thesis .
    next
      case False
      then obtain b where b: "a = 2 * b + 1" using oddE by blast
      have "(a AND (a - 1)) = 2 * b" unfolding b by (rule and_pred_odd)
      then have "tda_layout_is_align a \<longleftrightarrow> b = 0"
        unfolding tda_layout_is_align_def using b by simp
      also have "\<dots> \<longleftrightarrow> (\<exists>k. a = 2 ^ k)"
      proof
        assume "b = 0"
        then have "a = 2 ^ 0" using b by simp
        then show "\<exists>k. a = 2 ^ k" by blast
      next
        assume "\<exists>k. a = 2 ^ k"
        then obtain k where "a = 2 ^ k" by blast
        with False have "k = 0" by (cases k) auto
        with \<open>a = 2 ^ k\<close> b show "b = 0" by simp
      qed
      finally show ?thesis .
    qed
  qed
qed

lemma is_align_gt0: "tda_layout_is_align a \<Longrightarrow> a > 0"
  by (simp add: tda_layout_is_align_def)

lemma is_align_8 [simp]: "tda_layout_is_align 8"
  unfolding is_align_iff by (rule exI [of _ 3]) simp

lemma is_align_1 [simp]: "tda_layout_is_align (Suc 0)" "tda_layout_is_align 1"
  by (simp_all add: tda_layout_is_align_def)


section \<open>The bit tricks as arithmetic\<close>

lemma and_pow2_pred: "(x AND (2 ^ k - 1)) = x mod 2 ^ k" for x :: nat
  by (metis mask_eq_exp_minus_1 take_bit_eq_mask take_bit_eq_mod)

lemma and_align_pred:
  assumes "tda_layout_is_align a"
  shows "(x AND (a - 1)) = x mod a"
  using assms and_pow2_pred by (auto simp: is_align_iff)

lemma pow2_lt_64: "(2::nat) ^ k < 2 ^ 64 \<Longrightarrow> k < 64"
  by (rule power_less_imp_less_exp [of 2]) simp_all

lemma align_dvd_2_64:
  assumes "tda_layout_is_align a" "a \<le> SIZE_MAX"
  shows "a dvd 2 ^ 64"
proof -
  obtain k where k: "a = 2 ^ k" using assms(1) by (auto simp: is_align_iff)
  have "(2::nat) ^ k < 2 ^ 64" using assms(2) k by (simp add: SIZE_MAX_def)
  then have "k < 64" by (rule pow2_lt_64)
  then show ?thesis unfolding k by (intro le_imp_power_dvd) simp
qed

lemma add_wneg_dvd: "a dvd 2 ^ 64 \<Longrightarrow> a dvd s + wneg s"
proof -
  assume a: "a dvd 2 ^ 64"
  have "(s + wneg s) mod 2 ^ 64 = (s mod 2 ^ 64 + (2 ^ 64 - s mod 2 ^ 64)) mod 2 ^ 64"
    unfolding wneg_def by (metis mod_add_eq mod_mod_trivial)
  also have "\<dots> = 0"
    using mod_less_divisor [of "2 ^ 64" s] by (simp del: mod_less_divisor)
  finally have "2 ^ 64 dvd s + wneg s" by (simp add: mod_eq_0_iff_dvd)
  with a show ?thesis by (rule dvd_trans)
qed

lemma pad_spec:
  assumes "tda_layout_is_align a" "a \<le> SIZE_MAX"
  shows pad_lt: "(wneg s AND (a - 1)) < a"
    and pad_dvd: "a dvd s + (wneg s AND (a - 1))"
proof -
  have a0: "a > 0" using assms(1) by (rule is_align_gt0)
  have eq: "(wneg s AND (a - 1)) = wneg s mod a" by (rule and_align_pred [OF assms(1)])
  show "(wneg s AND (a - 1)) < a" using a0 eq by simp
  have "(s + wneg s mod a) mod a = (s + wneg s) mod a" by (simp add: mod_add_right_eq)
  also have "\<dots> = 0" using add_wneg_dvd [OF align_dvd_2_64 [OF assms]] by simp
  finally show "a dvd s + (wneg s AND (a - 1))" using eq by (simp add: mod_eq_0_iff_dvd)
qed

lemma pad_zero_iff:
  assumes "tda_layout_is_align a" "a \<le> SIZE_MAX"
  shows "(wneg s AND (a - 1)) = 0 \<longleftrightarrow> a dvd s"
proof
  assume "(wneg s AND (a - 1)) = 0"
  then show "a dvd s" using pad_dvd [OF assms, of s] by simp
next
  assume "a dvd s"
  then have "a dvd (wneg s AND (a - 1))"
    using pad_dvd [OF assms, of s] by (simp add: dvd_add_right_iff)
  then show "(wneg s AND (a - 1)) = 0"
    using pad_lt [OF assms, of s] by (auto dest: dvd_imp_le)
qed

lemma and_wnot_mask:
  assumes "x \<le> SIZE_MAX" "k \<le> 64"
  shows "(x AND wnot (2 ^ k - 1)) = x - x mod 2 ^ k"
proof -
  have x: "x < 2 ^ 64" using assms(1) by (simp add: le_SIZE_MAX_iff)
  have le: "(2::nat) ^ k \<le> 2 ^ 64" using assms(2) by (intro power_increasing) auto
  have "(2::nat) ^ k - 1 < 2 ^ 64" using le by (simp add: less_le_trans)
  then have "wnot (2 ^ k - 1) = 2 ^ 64 - 2 ^ k"
    using le by (simp add: wnot_def SIZE_MAX_def)
  also have "\<dots> = 2 ^ k * (2 ^ (64 - k) - 1)"
    using assms(2) by (simp add: diff_mult_distrib2 power_add [symmetric])
  also have "\<dots> = push_bit k (mask (64 - k))"
    by (simp add: push_bit_eq_mult mask_eq_exp_minus_1 mult.commute)
  finally have "(x AND wnot (2 ^ k - 1)) = (x AND push_bit k (mask (64 - k)))" by simp
  also have "\<dots> = push_bit k (drop_bit k x AND mask (64 - k))"
    by (rule bit_eqI) (auto simp: bit_simps)
  also have "drop_bit k x AND mask (64 - k) = take_bit (64 - k) (drop_bit k x)"
    by (simp add: take_bit_eq_mask)
  also have "\<dots> = drop_bit k (take_bit 64 x)"
    using assms(2) by (simp add: take_bit_drop_bit)
  also have "take_bit 64 x = x" using x by (simp add: take_bit_nat_eq_self)
  also have "push_bit k (drop_bit k x) = x - x mod 2 ^ k"
    by (simp add: push_bit_eq_mult drop_bit_eq_div minus_mod_eq_div_mult)
  finally show ?thesis .
qed

lemma align_up_eq:
  assumes "tda_layout_is_align a" "a \<le> SIZE_MAX" "val \<le> SIZE_MAX - (a - 1)"
  shows "tda_align_up val a = Some ((val + (a - 1)) div a * a)"
proof -
  obtain k where k: "a = 2 ^ k" using assms(1) by (auto simp: is_align_iff)
  have "(2::nat) ^ k < 2 ^ 64" using assms(2) k by (simp add: SIZE_MAX_def)
  then have "k < 64" by (rule pow2_lt_64)
  have "val + (a - 1) \<le> SIZE_MAX" using assms(2,3) by arith
  then show ?thesis
    using and_wnot_mask [of "val + (a - 1)" k] \<open>k < 64\<close> assms
    by (simp add: tda_align_up_def k minus_mod_eq_div_mult)
qed

lemma div_up_bounds:
  fixes a val :: nat
  assumes "a > 0"
  shows "val \<le> (val + (a - 1)) div a * a" and "(val + (a - 1)) div a * a < val + a"
proof -
  have "(val + (a - 1)) div a * a + (val + (a - 1)) mod a = val + (a - 1)" by simp
  moreover have "(val + (a - 1)) mod a < a" using assms by simp
  ultimately show "val \<le> (val + (a - 1)) div a * a" "(val + (a - 1)) div a * a < val + a"
    using assms by arith+
qed

definition round_up :: "nat \<Rightarrow> nat \<Rightarrow> nat" where
  "round_up val a = (val + (a - 1)) div a * a"

lemma round_up_bounds:
  assumes "a > 0"
  shows "val \<le> round_up val a" and "round_up val a < val + a" and "a dvd round_up val a"
  using div_up_bounds [OF assms] by (simp_all add: round_up_def)

lemma round_up_unique:
  assumes "p < a" "a dvd s + p"
  shows "s + p = round_up s a"
proof -
  from assms(2) obtain q where q: "s + p = a * q" by blast
  have "s + (a - 1) = a * q + (a - 1 - p)" using q assms(1) by simp
  also have "\<dots> div a = q" using assms(1) by (subst div_mult_self4) auto
  finally have "(s + (a - 1)) div a = q" .
  then show ?thesis using q by (simp add: round_up_def mult.commute)
qed

lemma add_pad_eq:
  assumes "tda_layout_is_align a" "a \<le> SIZE_MAX"
  shows "s + (wneg s AND (a - 1)) = round_up s a"
  using assms by (intro round_up_unique pad_lt pad_dvd)

lemmas add_pad_simp = add_pad_eq [unfolded One_nat_def]
lemmas and_align_simp = and_align_pred [unfolded One_nat_def]

lemma ckd_extend_eq:
  assumes "tda_layout_is_align (lalign self)" "tda_layout_is_align (lalign field)"
    and "lalign field \<le> SIZE_MAX"
  shows "tda_layout_ckd_extend self field =
    Some (if round_up (lsize self) (lalign field) + lsize field \<le> SIZE_MAX
          then Some (\<lparr>lsize = round_up (lsize self) (lalign field) + lsize field,
                      lalign = max (lalign self) (lalign field)\<rparr>,
                     round_up (lsize self) (lalign field))
          else None)"
  using assms
  by (auto simp: tda_layout_ckd_extend_def ckd_add_def add_pad_simp Let_def max_def)

lemma ckd_pad_eq:
  assumes "tda_layout_is_align (lalign self)" "lalign self \<le> SIZE_MAX"
  shows "tda_layout_ckd_pad self =
    Some (if round_up (lsize self) (lalign self) \<le> SIZE_MAX
          then Some (self\<lparr>lsize := round_up (lsize self) (lalign self)\<rparr>) else None)"
  using assms by (auto simp: tda_layout_ckd_pad_def ckd_add_def add_pad_simp)

lemma is_align_max:
  "tda_layout_is_align a \<Longrightarrow> tda_layout_is_align b \<Longrightarrow> tda_layout_is_align (max a b)"
  by (simp add: max_def)

lemma is_align_dvd_max:
  "tda_layout_is_align a \<Longrightarrow> tda_layout_is_align b \<Longrightarrow> a dvd max a b"
  by (auto simp: is_align_iff max_def intro: le_imp_power_dvd)

lemma is_type_gt0: "tda_layout_is_type l \<Longrightarrow> lsize l > 0 \<and> lalign l > 0 \<and> lalign l dvd lsize l"
  by (auto simp: tda_layout_is_type_def is_align_gt0)

lemma is_type_align_le: "tda_layout_is_type l \<Longrightarrow> lalign l \<le> lsize l"
  using is_type_gt0 [of l] by (auto dest: dvd_imp_le)

lemma align_meets_iff:
  "ptr \<noteq> 0 \<Longrightarrow> tda_layout_is_align a \<Longrightarrow> tda_align_meets ptr a = Some (a dvd ptr)"
  by (auto simp: tda_align_meets_def and_align_simp mod_eq_0_iff_dvd)

lemma align_pad_eq:
  assumes "ptr \<noteq> 0" "tda_layout_is_align a" "a \<le> SIZE_MAX"
  shows "tda_align_pad ptr a = Some (round_up ptr a - ptr)"
  using assms add_pad_eq [of a ptr] by (auto simp: tda_align_pad_def)

end
