(* ===== verification/Memory.thy ===== *)
theory Memory
  imports Layout
begin

text \<open>
  Byte-addressed memory and the byte-level helpers of \<open>internal/ptr.h\<close>. An address is a natural
  number, 0 is the null pointer, and a memory gives every address a byte; which addresses a block
  owns is the allocator's business (theory Alloc). Pointers stored in memory are eight
  bytes, least significant first: the free lists of the pool live in the blocks themselves.
\<close>

type_synonym addr = nat
type_synonym byte = "8 word"
type_synonym mem = "addr \<Rightarrow> byte"

section \<open>Regions\<close>

definition region :: "addr \<Rightarrow> nat \<Rightarrow> addr set" where
  "region a n = {a..<a + n}"

definition apart :: "addr \<Rightarrow> nat \<Rightarrow> addr \<Rightarrow> nat \<Rightarrow> bool" where
  "apart a n b k \<longleftrightarrow> n = 0 \<or> k = 0 \<or> a + n \<le> b \<or> b + k \<le> a"

lemma apart_iff: "apart a n b k \<longleftrightarrow> region a n \<inter> region b k = {}"
  by (auto simp: apart_def region_def)

lemma apart_sym: "apart a n b k \<longleftrightarrow> apart b k a n"
  by (auto simp: apart_def)

lemma in_region [simp]: "x \<in> region a n \<longleftrightarrow> a \<le> x \<and> x < a + n"
  by (simp add: region_def)

lemma region_mono: "n \<le> k \<Longrightarrow> region a n \<subseteq> region a k"
  by (auto simp: region_def)

lemma region_Int_empty_mono:
  "region a n \<inter> region b k = {} \<Longrightarrow> i \<le> n \<Longrightarrow> region a i \<inter> region b k = {}"
  using region_mono [of i n a] by blast

definition agree :: "mem \<Rightarrow> mem \<Rightarrow> addr set \<Rightarrow> bool" where
  "agree m m' S \<longleftrightarrow> (\<forall>x \<in> S. m' x = m x)"

lemma agree_refl [simp]: "agree m m S"
  by (simp add: agree_def)

lemma agree_trans: "agree m m' S \<Longrightarrow> agree m' m'' S \<Longrightarrow> agree m m'' S"
  by (simp add: agree_def)

lemma agree_subset: "agree m m' S \<Longrightarrow> T \<subseteq> S \<Longrightarrow> agree m m' T"
  by (auto simp: agree_def)

lemma agree_sym: "agree m m' S \<Longrightarrow> agree m' m S"
  by (simp add: agree_def)

section \<open>memcpy, memmove, memset\<close>

text \<open>
  \<open>memcpy\<close> is undefined for null pointers and for overlapping ranges, so the model stops there;
  \<open>memmove\<close> copies as if through a buffer.
\<close>

definition memmove :: "mem \<Rightarrow> addr \<Rightarrow> addr \<Rightarrow> nat \<Rightarrow> mem" where
  "memmove m dst src n = (\<lambda>x. if x \<in> region dst n then m (src + (x - dst)) else m x)"

definition memcpy :: "mem \<Rightarrow> addr \<Rightarrow> addr \<Rightarrow> nat \<Rightarrow> mem option" where
  "memcpy m dst src n = do {
     chk (dst \<noteq> 0 \<and> src \<noteq> 0);
     chk (apart dst n src n);
     Some (memmove m dst src n)
   }"

definition memset :: "mem \<Rightarrow> addr \<Rightarrow> byte \<Rightarrow> nat \<Rightarrow> mem" where
  "memset m dst b n = (\<lambda>x. if x \<in> region dst n then b else m x)"

definition bytes :: "mem \<Rightarrow> addr \<Rightarrow> nat \<Rightarrow> byte list" where
  "bytes m a n = map m [a..<a + n]"

lemma length_bytes [simp]: "length (bytes m a n) = n"
  by (simp add: bytes_def)

lemma nth_bytes [simp]: "i < n \<Longrightarrow> bytes m a n ! i = m (a + i)"
  by (simp add: bytes_def)

lemma bytes_eq_iff: "bytes m a n = bytes m' b n \<longleftrightarrow> (\<forall>i < n. m (a + i) = m' (b + i))"
  by (simp add: list_eq_iff_nth_eq)

lemma bytes_agree: "agree m m' (region a n) \<Longrightarrow> bytes m' a n = bytes m a n"
  by (simp add: bytes_eq_iff agree_def)

lemma agree_memmove: "S \<inter> region dst n = {} \<Longrightarrow> agree m (memmove m dst src n) S"
  by (auto simp: agree_def memmove_def)

lemma agree_memset: "S \<inter> region dst n = {} \<Longrightarrow> agree m (memset m dst b n) S"
  by (auto simp: agree_def memset_def)

lemma bytes_memmove: "bytes (memmove m dst src n) dst n = bytes m src n"
  by (simp add: bytes_eq_iff memmove_def)

lemma bytes_memset: "bytes (memset m dst b n) dst n = replicate n b"
  by (simp add: list_eq_iff_nth_eq memset_def)

lemma memcpy_Some:
  "dst \<noteq> 0 \<Longrightarrow> src \<noteq> 0 \<Longrightarrow> apart dst n src n \<Longrightarrow> memcpy m dst src n = Some (memmove m dst src n)"
  by (simp add: memcpy_def)

section \<open>Pointers in memory\<close>

definition load_ptr :: "mem \<Rightarrow> addr \<Rightarrow> addr" where
  "load_ptr m a = horner_sum unat 256 (bytes m a 8)"

definition store_ptr :: "mem \<Rightarrow> addr \<Rightarrow> addr \<Rightarrow> mem" where
  "store_ptr m a v = (\<lambda>x. if x \<in> region a 8 then word_of_nat (v div 256 ^ (x - a)) else m x)"

lemma horner_digits:
  "horner_sum (unat :: byte \<Rightarrow> nat) 256 (map (\<lambda>i. word_of_nat (v div 256 ^ i)) [0..<n]) = v mod 256 ^ n"
proof (induction n arbitrary: v)
  case 0
  then show ?case by simp
next
  case (Suc n)
  have shift: "map (\<lambda>i. word_of_nat (v div 256 ^ i) :: byte) [0..<Suc n] =
      word_of_nat v # map (\<lambda>i. word_of_nat ((v div 256) div 256 ^ i)) [0..<n]"
    by (simp add: upt_conv_Cons map_Suc_upt [symmetric] div_mult2_eq del: upt_Suc)
  have "horner_sum (unat :: byte \<Rightarrow> nat) 256 (map (\<lambda>i. word_of_nat (v div 256 ^ i)) [0..<Suc n])
      = v mod 256 + 256 * ((v div 256) mod 256 ^ n)"
    unfolding shift by (simp add: Suc.IH unat_of_nat)
  also have "\<dots> = v mod 256 ^ Suc n"
    by (simp add: mod_mult2_eq)
  finally show ?case .
qed

lemma load_store_ptr [simp]:
  assumes "v \<le> SIZE_MAX"
  shows "load_ptr (store_ptr m a v) a = v"
proof -
  have "bytes (store_ptr m a v) a 8 = map (\<lambda>i. word_of_nat (v div 256 ^ i)) [0..<8]"
    by (simp add: list_eq_iff_nth_eq store_ptr_def)
  then have "load_ptr (store_ptr m a v) a = v mod 256 ^ 8"
    unfolding load_ptr_def by (simp only: horner_digits)
  with assms show ?thesis by (simp add: SIZE_MAX_def)
qed

lemma load_ptr_agree: "agree m m' (region a 8) \<Longrightarrow> load_ptr m' a = load_ptr m a"
  by (simp add: load_ptr_def bytes_agree)

lemma agree_store_ptr: "S \<inter> region a 8 = {} \<Longrightarrow> agree m (store_ptr m a v) S"
  by (auto simp: agree_def store_ptr_def)

lemma load_store_ptr_other:
  "apart a 8 b 8 \<Longrightarrow> load_ptr (store_ptr m a v) b = load_ptr m b"
  by (intro load_ptr_agree agree_store_ptr) (auto simp: apart_iff)

section \<open>internal/ptr.h\<close>

definition tda_byte_offset :: "addr \<Rightarrow> nat \<Rightarrow> nat \<Rightarrow> addr option" where
  "tda_byte_offset base stride n = do {
     chk (base \<noteq> 0 \<or> n = 0);
     chk (stride > 0);
     Some (base + stride * n)
   }"

definition tda_byte_offset_mut :: "addr \<Rightarrow> nat \<Rightarrow> nat \<Rightarrow> addr option" where
  "tda_byte_offset_mut base stride n = do {
     chk (base \<noteq> 0 \<or> n = 0);
     chk (stride > 0);
     Some (base + stride * n)
   }"

definition tda_byte_diff :: "addr \<Rightarrow> addr \<Rightarrow> int option" where
  "tda_byte_diff a b = do {
     chk (a \<noteq> 0);
     chk (b \<noteq> 0);
     Some (int a - int b)
   }"

definition tda_addr_in :: "addr \<Rightarrow> nat \<Rightarrow> addr \<Rightarrow> bool" where
  "tda_addr_in base n ptr \<longleftrightarrow> (if base = 0 then False else ptr \<ge> base \<and> ptr - base < n)"

definition tda_elems_layout :: "layout \<Rightarrow> nat \<Rightarrow> layout option" where
  "tda_elems_layout elem len = do {
     chk (tda_layout_is_type elem);
     Some \<lparr>lsize = wmul (lsize elem) len, lalign = lalign elem\<rparr>
   }"

fun bytes_swap_from :: "mem \<Rightarrow> addr \<Rightarrow> addr \<Rightarrow> nat \<Rightarrow> nat \<Rightarrow> mem" where
  "bytes_swap_from m a b i 0 = m"
| "bytes_swap_from m a b i (Suc k) =
     (let t = m (a + i); m1 = m(a + i := m (b + i)); m2 = m1(b + i := t)
      in bytes_swap_from m2 a b (Suc i) k)"

definition tda_bytes_swap :: "mem \<Rightarrow> addr \<Rightarrow> addr \<Rightarrow> nat \<Rightarrow> mem option" where
  "tda_bytes_swap m a b n = do {
     chk (a \<noteq> 0);
     chk (b \<noteq> 0);
     Some (bytes_swap_from m a b 0 n)
   }"

lemma addr_in_iff: "base \<noteq> 0 \<Longrightarrow> tda_addr_in base n ptr \<longleftrightarrow> ptr \<in> region base n"
  by (auto simp: tda_addr_in_def)

lemma bytes_swap_from_spec:
  assumes "apart a (i + k) b (i + k)"
  shows "bytes_swap_from m a b i k =
    (\<lambda>x. if a + i \<le> x \<and> x < a + i + k then m (b + (x - a))
         else if b + i \<le> x \<and> x < b + i + k then m (a + (x - b)) else m x)"
  using assms
proof (induction k arbitrary: m i)
  case 0
  then show ?case by (auto intro!: ext)
next
  case (Suc k)
  let ?m = "(m(a + i := m (b + i)))(b + i := m (a + i))"
  have ap: "apart a (Suc i + k) b (Suc i + k)" using Suc.prems by simp
  have dis: "a + i + Suc k \<le> b \<or> b + i + Suc k \<le> a" using Suc.prems by (auto simp: apart_def)
  have *: "bytes_swap_from m a b i (Suc k) = bytes_swap_from ?m a b (Suc i) k"
    by (simp add: Let_def)
  show ?case
    unfolding * Suc.IH [OF ap]
  proof (rule ext, goal_cases)
    case (1 x)
    consider (a) "a + i < x" "x < a + i + Suc k" | (b) "b + i < x" "x < b + i + Suc k"
      | (a0) "x = a + i" | (b0) "x = b + i"
      | (out) "x < a + i \<or> a + i + Suc k \<le> x" "x < b + i \<or> b + i + Suc k \<le> x"
      by linarith
    then show ?case
    proof cases
      case a
      then have "b + (x - a) \<noteq> a + i" "b + (x - a) \<noteq> b + i" using dis by linarith+
      with a show ?thesis by simp
    next
      case b
      then have "a + (x - b) \<noteq> a + i" "a + (x - b) \<noteq> b + i" "x \<noteq> a + i"
        "x < a + i \<or> a + i + Suc k \<le> x"
        using dis by linarith+
      with b show ?thesis by auto
    next
      case a0
      then have "x < b + i \<or> b + i + Suc k \<le> x" "a \<noteq> b" using dis by linarith+
      with a0 show ?thesis by auto
    next
      case b0
      then have "x < a + i \<or> a + i + Suc k \<le> x" "a \<noteq> b" using dis by linarith+
      with b0 show ?thesis by auto
    next
      case out
      then have n: "\<not> (a + i \<le> x \<and> x < a + i + Suc k)" "\<not> (b + i \<le> x \<and> x < b + i + Suc k)"
        "\<not> (a + Suc i \<le> x \<and> x < a + Suc i + k)" "\<not> (b + Suc i \<le> x \<and> x < b + Suc i + k)"
        "x \<noteq> a + i" "x \<noteq> b + i" by linarith+
      show ?thesis by (simp only: n if_False fun_upd_apply)
    qed
  qed
qed

lemma tda_bytes_swap_eq:
  assumes "a \<noteq> 0" "b \<noteq> 0" "apart a n b n"
  shows "\<exists>m'. tda_bytes_swap m a b n = Some m' \<and>
    bytes m' a n = bytes m b n \<and> bytes m' b n = bytes m a n \<and>
    agree m m' (- (region a n \<union> region b n))"
proof -
  have ap: "n = 0 \<or> a + n \<le> b \<or> b + n \<le> a" using assms(3) by (auto simp: apart_def)
  show ?thesis
    using assms ap bytes_swap_from_spec [of a 0 n b m]
    by (auto simp: tda_bytes_swap_def bytes_eq_iff agree_def)
qed

end
