(* ===== verification/Alloc.thy ===== *)
theory Alloc
  imports Memory
begin

text \<open>
  \<open>alloc/alloc.h\<close> and \<open>alloc/alloc.c\<close>: the hook table and the wrappers every allocation passes
  through, and the contract between an allocator and its clients as a locale.

  A \<open>tda_Al\<close> is a hook table and the state its \<open>ctx\<close> points at. The model passes that state
  explicitly: a hook maps a world, the memory and the allocator's state, to its answer and the
  next world, or stops. An optional hook that is null in the C table is \<^term>\<open>None\<close>.
\<close>

section \<open>The hook table\<close>

type_synonym 'c world = "mem \<times> 'c"

record 'c vtable =
  vt_alloc :: "layout \<Rightarrow> 'c world \<Rightarrow> (addr \<times> 'c world) option"
  vt_alloc_zeroed :: "(layout \<Rightarrow> 'c world \<Rightarrow> (addr \<times> 'c world) option) option"
  vt_resize :: "(addr \<Rightarrow> layout \<Rightarrow> nat \<Rightarrow> 'c world \<Rightarrow> (bool \<times> 'c world) option) option"
  vt_remap :: "(addr \<Rightarrow> layout \<Rightarrow> nat \<Rightarrow> 'c world \<Rightarrow> (addr \<times> 'c world) option) option"
  vt_dealloc :: "addr \<Rightarrow> layout \<Rightarrow> 'c world \<Rightarrow> 'c world option"

section \<open>Wrappers\<close>

definition expect_aligned :: "addr \<Rightarrow> nat \<Rightarrow> unit option" where
  "expect_aligned ptr align =
     (if ptr = 0 then Some () else do { b \<leftarrow> tda_align_meets ptr align; chk b })"

definition tda_alloc :: "'c vtable \<Rightarrow> layout \<Rightarrow> 'c world \<Rightarrow> (addr \<times> 'c world) option" where
  "tda_alloc vt layout w = do {
     chk (tda_layout_is_align (lalign layout));
     if lsize layout = 0 then Some (0, w)
     else do {
       (ptr, w) \<leftarrow> vt_alloc vt layout w;
       expect_aligned ptr (lalign layout);
       Some (ptr, w)
     }
   }"

definition tda_alloc_zeroed :: "'c vtable \<Rightarrow> layout \<Rightarrow> 'c world \<Rightarrow> (addr \<times> 'c world) option" where
  "tda_alloc_zeroed vt layout w = do {
     chk (tda_layout_is_align (lalign layout));
     if lsize layout = 0 then Some (0, w)
     else (case vt_alloc_zeroed vt of
         Some hook \<Rightarrow> do {
           (ptr, w) \<leftarrow> hook layout w;
           expect_aligned ptr (lalign layout);
           Some (ptr, w)
         }
       | None \<Rightarrow> do {
           (ptr, w) \<leftarrow> tda_alloc vt layout w;
           if ptr \<noteq> 0 then Some (ptr, (memset (fst w) ptr 0 (lsize layout), snd w))
           else Some (ptr, w)
         })
   }"

definition tda_resize :: "'c vtable \<Rightarrow> addr \<Rightarrow> layout \<Rightarrow> nat \<Rightarrow> 'c world \<Rightarrow> (bool \<times> 'c world) option" where
  "tda_resize vt ptr old new_size w = do {
     chk (ptr \<noteq> 0);
     chk (lsize old > 0 \<and> new_size > 0);
     chk (tda_layout_is_align (lalign old));
     case vt_resize vt of
       None \<Rightarrow> Some (False, w)
     | Some hook \<Rightarrow> hook ptr old new_size w
   }"

definition tda_remap :: "'c vtable \<Rightarrow> addr \<Rightarrow> layout \<Rightarrow> nat \<Rightarrow> 'c world \<Rightarrow> (addr \<times> 'c world) option" where
  "tda_remap vt ptr old new_size w = do {
     chk (ptr \<noteq> 0);
     chk (lsize old > 0 \<and> new_size > 0);
     chk (tda_layout_is_align (lalign old));
     case vt_remap vt of
       None \<Rightarrow> Some (0, w)
     | Some hook \<Rightarrow> do {
         (moved, w) \<leftarrow> hook ptr old new_size w;
         expect_aligned moved (lalign old);
         Some (moved, w)
       }
   }"

definition tda_dealloc :: "'c vtable \<Rightarrow> addr \<Rightarrow> layout \<Rightarrow> 'c world \<Rightarrow> 'c world option" where
  "tda_dealloc vt ptr layout w = do {
     chk (ptr = 0 \<or> lsize layout > 0);
     chk (tda_layout_is_align (lalign layout));
     if ptr = 0 then Some w else vt_dealloc vt ptr layout w
   }"

definition tda_realloc :: "'c vtable \<Rightarrow> addr \<Rightarrow> layout \<Rightarrow> nat \<Rightarrow> 'c world \<Rightarrow> (addr \<times> 'c world) option" where
  "tda_realloc vt ptr old new_size w = do {
     chk ((ptr = 0) = (lsize old = 0));
     chk (tda_layout_is_align (lalign old));
     if new_size = 0 then do { w \<leftarrow> tda_dealloc vt ptr old w; Some (0, w) }
     else if ptr = 0 then tda_alloc vt \<lparr>lsize = new_size, lalign = lalign old\<rparr> w
     else do {
       (resized, w) \<leftarrow> tda_resize vt ptr old new_size w;
       if resized then Some (ptr, w)
       else do {
         (moved, w) \<leftarrow> tda_remap vt ptr old new_size w;
         if moved \<noteq> 0 then Some (moved, w)
         else do {
           (new_ptr, w) \<leftarrow> tda_alloc vt \<lparr>lsize = new_size, lalign = lalign old\<rparr> w;
           if new_ptr = 0 then Some (0, w)
           else do {
             m \<leftarrow> memcpy (fst w) new_ptr ptr (if lsize old < new_size then lsize old else new_size);
             w \<leftarrow> tda_dealloc vt ptr old (m, snd w);
             Some (new_ptr, w)
           }
         }
       }
     }
   }"

section \<open>Outstanding blocks\<close>

text \<open>
  What the client holds: a set of blocks, each an address and the layout it was asked for with.
  \<open>request amax l\<close> is a request an allocator has to take: a size that is not 0, and an alignment
  that is a power of two no greater than the allocator's limit \<open>amax\<close>.
\<close>

type_synonym block = "addr \<times> layout"

definition request :: "nat \<Rightarrow> layout \<Rightarrow> bool" where
  "request amax l \<longleftrightarrow> 0 < lsize l \<and> lsize l \<le> SIZE_MAX \<and>
     tda_layout_is_align (lalign l) \<and> lalign l \<le> amax \<and> lalign l \<le> SIZE_MAX"

definition block_region :: "block \<Rightarrow> addr set" where
  "block_region b = region (fst b) (lsize (snd b))"

definition blocks :: "block set \<Rightarrow> addr set" where
  "blocks L = (\<Union>b \<in> L. block_region b)"

definition wf_blocks :: "addr set \<Rightarrow> nat \<Rightarrow> block set \<Rightarrow> bool" where
  "wf_blocks own amax L \<longleftrightarrow>
     (\<forall>b \<in> L. fst b \<noteq> 0 \<and> request amax (snd b) \<and> lalign (snd b) dvd fst b \<and>
        block_region b \<subseteq> own \<and> fst b + lsize (snd b) \<le> SIZE_MAX) \<and>
     (\<forall>b \<in> L. \<forall>b' \<in> L. b \<noteq> b' \<longrightarrow> block_region b \<inter> block_region b' = {})"

lemma block_region_pair [simp]: "block_region (p, l) = region p (lsize l)"
  by (simp add: block_region_def)

lemma blocks_insert [simp]: "blocks (insert b L) = block_region b \<union> blocks L"
  by (simp add: blocks_def)

lemma blocks_empty [simp]: "blocks {} = {}"
  by (simp add: blocks_def)

lemma blocks_mono: "L \<subseteq> L' \<Longrightarrow> blocks L \<subseteq> blocks L'"
  by (auto simp: blocks_def)

lemma block_in_blocks: "b \<in> L \<Longrightarrow> block_region b \<subseteq> blocks L"
  by (auto simp: blocks_def)

lemma wf_blocks_other:
  assumes "wf_blocks own amax L" "b \<in> L"
  shows "block_region b \<inter> blocks (L - {b}) = {}"
  using assms unfolding wf_blocks_def blocks_def by blast

lemma wf_blocks_own: "wf_blocks own amax L \<Longrightarrow> blocks L \<subseteq> own"
  by (auto simp: wf_blocks_def blocks_def)

lemma wf_blocks_subset: "wf_blocks own amax L \<Longrightarrow> L' \<subseteq> L \<Longrightarrow> wf_blocks own amax L'"
  unfolding wf_blocks_def by blast

lemma wf_blocks_insert:
  assumes "wf_blocks own amax L" "p \<noteq> 0" "request amax l" "lalign l dvd p"
    and "region p (lsize l) \<subseteq> own" "p + lsize l \<le> SIZE_MAX" "region p (lsize l) \<inter> blocks L = {}"
  shows "wf_blocks own amax (insert (p, l) L)"
proof -
  have "block_region b \<inter> region p (lsize l) = {}" if "b \<in> L" for b
    using assms(7) block_in_blocks [OF that] by blast
  then show ?thesis using assms unfolding wf_blocks_def by auto
qed

lemma wf_blockD:
  assumes "wf_blocks own amax L" "(p, l) \<in> L"
  shows "p \<noteq> 0" "request amax l" "lalign l dvd p" "region p (lsize l) \<subseteq> own"
    "p + lsize l \<le> SIZE_MAX"
  using assms unfolding wf_blocks_def by (force dest!: bspec [where x = "(p, l)"])+

lemma wf_blocks_same_addr:
  assumes "wf_blocks own amax L" "(p, l) \<in> L" "(p, l') \<in> L"
  shows "l' = l"
proof (rule ccontr)
  assume "l' \<noteq> l"
  then have "block_region (p, l) \<inter> block_region (p, l') = {}"
    using assms unfolding wf_blocks_def by (metis Pair_inject)
  moreover have "0 < lsize l" "0 < lsize l'"
    using wf_blockD(2) [OF assms(1,2)] wf_blockD(2) [OF assms(1,3)] by (simp_all add: request_def)
  ultimately show False by (auto simp: region_def)
qed

lemma requestD:
  assumes "request amax l"
  shows "0 < lsize l" "lsize l \<le> SIZE_MAX" "tda_layout_is_align (lalign l)" "lalign l \<le> amax"
  using assms by (simp_all add: request_def)

lemma expect_aligned_ok:
  "p = 0 \<or> (tda_layout_is_align a \<and> a dvd p) \<Longrightarrow> expect_aligned p a = Some ()"
  by (auto simp: expect_aligned_def align_meets_iff)

section \<open>Histories of a client\<close>

text \<open>
  One step of a client against an allocator with the limit \<open>amax\<close>: it asks for a block, has one
  resized, gives one back, or writes into the blocks it holds. The state is the world and the
  blocks that are out.
\<close>

inductive client_step ::
  "'c vtable \<Rightarrow> nat \<Rightarrow> 'c world \<times> block set \<Rightarrow> 'c world \<times> block set \<Rightarrow> bool"
  for vt amax where
  client_alloc:
    "request amax l \<Longrightarrow> tda_alloc vt l w = Some (p, w') \<Longrightarrow>
     client_step vt amax (w, L) (w', if p = 0 then L else insert (p, l) L)"
| client_zeroed:
    "request amax l \<Longrightarrow> tda_alloc_zeroed vt l w = Some (p, w') \<Longrightarrow>
     client_step vt amax (w, L) (w', if p = 0 then L else insert (p, l) L)"
| client_realloc:
    "(p, old) \<in> L \<Longrightarrow> request amax (old\<lparr>lsize := n\<rparr>) \<Longrightarrow>
     tda_realloc vt p old n w = Some (q, w') \<Longrightarrow>
     client_step vt amax (w, L)
       (w', if q = 0 then L else insert (q, old\<lparr>lsize := n\<rparr>) (L - {(p, old)}))"
| client_dealloc:
    "(p, l) \<in> L \<Longrightarrow> tda_dealloc vt p l w = Some w' \<Longrightarrow>
     client_step vt amax (w, L) (w', L - {(p, l)})"
| client_write:
    "agree (fst w) m' (- blocks L) \<Longrightarrow> client_step vt amax (w, L) ((m', snd w), L)"

section \<open>The contract\<close>

text \<open>
  An allocator manages the memory \<open>own\<close>; \<open>ok w L\<close> says that its state in world \<open>w\<close> is consistent
  with exactly the blocks \<open>L\<close> being out. The laws, hook by hook:
  \<^item> the blocks out are aligned, in its memory and apart from each other;
  \<^item> \<open>alloc\<close> answers null and changes nothing that is out, or hands out one more such block;
  \<^item> \<open>resize\<close> and \<open>remap\<close> keep the bytes both sizes have and touch no other block, and on a
    refusal touch none at all;
  \<^item> \<open>dealloc\<close> takes back a block that is out and touches no other;
  \<^item> no hook writes outside \<open>own\<close>, and what a client writes into its own blocks or outside \<open>own\<close>
    is no concern of the allocator.
\<close>

locale allocator =
  fixes vt :: "'c vtable"
    and ok :: "'c world \<Rightarrow> block set \<Rightarrow> bool"
    and own :: "addr set"
    and amax :: nat
  assumes ok_wf: "ok w L \<Longrightarrow> wf_blocks own amax L"
    and alloc_law: "ok w L \<Longrightarrow> request amax l \<Longrightarrow>
      \<exists>p w'. vt_alloc vt l w = Some (p, w') \<and> agree (fst w) (fst w') (blocks L \<union> - own) \<and>
        (if p = 0 then ok w' L
         else (p, l) \<notin> L \<and> region p (lsize l) \<inter> blocks L = {} \<and> ok w' (insert (p, l) L))"
    and alloc_zeroed_law: "vt_alloc_zeroed vt = Some z \<Longrightarrow> ok w L \<Longrightarrow> request amax l \<Longrightarrow>
      \<exists>p w'. z l w = Some (p, w') \<and> agree (fst w) (fst w') (blocks L \<union> - own) \<and>
        (if p = 0 then ok w' L
         else (p, l) \<notin> L \<and> region p (lsize l) \<inter> blocks L = {} \<and> ok w' (insert (p, l) L) \<and>
           bytes (fst w') p (lsize l) = replicate (lsize l) 0)"
    and resize_law: "vt_resize vt = Some r \<Longrightarrow> ok w L \<Longrightarrow> (p, old) \<in> L \<Longrightarrow>
      request amax (old\<lparr>lsize := n\<rparr>) \<Longrightarrow>
      \<exists>b w'. r p old n w = Some (b, w') \<and>
        (if b then agree (fst w) (fst w') (blocks (L - {(p, old)}) \<union> - own) \<and>
           bytes (fst w') p (min (lsize old) n) = bytes (fst w) p (min (lsize old) n) \<and>
           ok w' (insert (p, old\<lparr>lsize := n\<rparr>) (L - {(p, old)}))
         else agree (fst w) (fst w') (blocks L \<union> - own) \<and> ok w' L)"
    and remap_law: "vt_remap vt = Some r' \<Longrightarrow> ok w L \<Longrightarrow> (p, old) \<in> L \<Longrightarrow>
      request amax (old\<lparr>lsize := n\<rparr>) \<Longrightarrow>
      \<exists>q w'. r' p old n w = Some (q, w') \<and>
        (if q \<noteq> 0 then (q, old\<lparr>lsize := n\<rparr>) \<notin> L - {(p, old)} \<and>
           agree (fst w) (fst w') (blocks (L - {(p, old)}) \<union> - own) \<and>
           bytes (fst w') q (min (lsize old) n) = bytes (fst w) p (min (lsize old) n) \<and>
           ok w' (insert (q, old\<lparr>lsize := n\<rparr>) (L - {(p, old)}))
         else agree (fst w) (fst w') (blocks L \<union> - own) \<and> ok w' L)"
    and dealloc_law: "ok w L \<Longrightarrow> (p, l) \<in> L \<Longrightarrow>
      \<exists>w'. vt_dealloc vt p l w = Some w' \<and>
        agree (fst w) (fst w') (blocks (L - {(p, l)}) \<union> - own) \<and> ok w' (L - {(p, l)})"
    and frame_law: "ok w L \<Longrightarrow> agree (fst w) m' (own - blocks L) \<Longrightarrow> ok (m', snd w) L"


context allocator begin

lemma ok_own: "ok w L \<Longrightarrow> blocks L \<subseteq> own"
  by (rule wf_blocks_own [OF ok_wf])

lemma ok_disjoint: "ok w L \<Longrightarrow> b \<in> L \<Longrightarrow> block_region b \<inter> blocks (L - {b}) = {}"
  by (rule wf_blocks_other [OF ok_wf])

lemma write_block:
  assumes "ok w L" "agree (fst w) m' (- blocks L)"
  shows "ok (m', snd w) L"
  using assms by (intro frame_law) (auto intro: agree_subset)

lemma tda_alloc_spec:
  assumes "ok w L" "request amax l"
  shows "\<exists>p w'. tda_alloc vt l w = Some (p, w') \<and> agree (fst w) (fst w') (blocks L \<union> - own) \<and>
    (if p = 0 then ok w' L
     else (p, l) \<notin> L \<and> region p (lsize l) \<inter> blocks L = {} \<and> ok w' (insert (p, l) L))"
proof -
  obtain p w' where a: "vt_alloc vt l w = Some (p, w')"
    and ag: "agree (fst w) (fst w') (blocks L \<union> - own)"
    and r: "if p = 0 then ok w' L
      else (p, l) \<notin> L \<and> region p (lsize l) \<inter> blocks L = {} \<and> ok w' (insert (p, l) L)"
    using alloc_law [OF assms] by blast
  have "lalign l dvd p" if "p \<noteq> 0"
    using r that wf_blockD(3) [OF ok_wf, of w' "insert (p, l) L" p l] by simp
  then have "expect_aligned p (lalign l) = Some ()"
    using requestD [OF assms(2)] by (intro expect_aligned_ok) auto
  then show ?thesis
    using a ag r requestD [OF assms(2)] by (simp add: tda_alloc_def)
qed

lemma tda_alloc_zeroed_spec:
  assumes "ok w L" "request amax l"
  shows "\<exists>p w'. tda_alloc_zeroed vt l w = Some (p, w') \<and>
    agree (fst w) (fst w') (blocks L \<union> - own) \<and>
    (if p = 0 then ok w' L
     else (p, l) \<notin> L \<and> region p (lsize l) \<inter> blocks L = {} \<and> ok w' (insert (p, l) L) \<and>
       bytes (fst w') p (lsize l) = replicate (lsize l) 0)"
proof (cases "vt_alloc_zeroed vt")
  case (Some z)
  obtain p w' where a: "z l w = Some (p, w')"
    and ag: "agree (fst w) (fst w') (blocks L \<union> - own)"
    and r: "if p = 0 then ok w' L
      else (p, l) \<notin> L \<and> region p (lsize l) \<inter> blocks L = {} \<and> ok w' (insert (p, l) L) \<and>
        bytes (fst w') p (lsize l) = replicate (lsize l) 0"
    using alloc_zeroed_law [OF Some assms] by blast
  have "lalign l dvd p" if "p \<noteq> 0"
    using r that wf_blockD(3) [OF ok_wf, of w' "insert (p, l) L" p l] by simp
  then have "expect_aligned p (lalign l) = Some ()"
    using requestD [OF assms(2)] by (intro expect_aligned_ok) auto
  then show ?thesis
    using a ag r requestD [OF assms(2)] Some by (simp add: tda_alloc_zeroed_def)
next
  case None
  obtain p w' where a: "tda_alloc vt l w = Some (p, w')"
    and ag: "agree (fst w) (fst w') (blocks L \<union> - own)"
    and r: "if p = 0 then ok w' L
      else (p, l) \<notin> L \<and> region p (lsize l) \<inter> blocks L = {} \<and> ok w' (insert (p, l) L)"
    using tda_alloc_spec [OF assms] by blast
  show ?thesis
  proof (cases "p = 0")
    case True
    then show ?thesis
      using a ag r None requestD [OF assms(2)] by (simp add: tda_alloc_zeroed_def)
  next
    case False
    let ?m = "memset (fst w') p 0 (lsize l)"
    have ok': "ok w' (insert (p, l) L)" and dis: "region p (lsize l) \<inter> blocks L = {}"
      using r False by simp_all
    have "region p (lsize l) \<subseteq> own"
      using wf_blockD(4) [OF ok_wf [OF ok'], of p l] by simp
    with dis have "agree (fst w') ?m (blocks L \<union> - own)"
      by (intro agree_memset) blast
    then have "agree (fst w) ?m (blocks L \<union> - own)"
      using ag by (blast intro: agree_trans)
    moreover have "ok (?m, snd w') (insert (p, l) L)"
      using ok' by (intro write_block agree_memset) auto
    ultimately show ?thesis
      using a r False None requestD [OF assms(2)]
      by (simp add: tda_alloc_zeroed_def bytes_memset)
  qed
qed

lemma tda_dealloc_spec:
  assumes "ok w L" "(p, l) \<in> L"
  shows "\<exists>w'. tda_dealloc vt p l w = Some w' \<and>
    agree (fst w) (fst w') (blocks (L - {(p, l)}) \<union> - own) \<and> ok w' (L - {(p, l)})"
proof -
  note wf = wf_blockD [OF ok_wf [OF assms(1)] assms(2)]
  show ?thesis
    using dealloc_law [OF assms] wf(1) requestD [OF wf(2)] by (simp add: tda_dealloc_def)
qed

lemma tda_resize_spec:
  assumes "ok w L" "(p, old) \<in> L" "request amax (old\<lparr>lsize := n\<rparr>)"
  shows "\<exists>b w'. tda_resize vt p old n w = Some (b, w') \<and>
    (if b then agree (fst w) (fst w') (blocks (L - {(p, old)}) \<union> - own) \<and>
       bytes (fst w') p (min (lsize old) n) = bytes (fst w) p (min (lsize old) n) \<and>
       ok w' (insert (p, old\<lparr>lsize := n\<rparr>) (L - {(p, old)}))
     else agree (fst w) (fst w') (blocks L \<union> - own) \<and> ok w' L)"
proof -
  note wf = wf_blockD [OF ok_wf [OF assms(1)] assms(2)]
  show ?thesis
    using resize_law [OF _ assms] assms(1) wf(1) requestD [OF wf(2)] requestD [OF assms(3)]
    by (cases "vt_resize vt") (auto simp: tda_resize_def)
qed

lemma tda_remap_spec:
  assumes "ok w L" "(p, old) \<in> L" "request amax (old\<lparr>lsize := n\<rparr>)"
  shows "\<exists>q w'. tda_remap vt p old n w = Some (q, w') \<and>
    (if q \<noteq> 0 then (q, old\<lparr>lsize := n\<rparr>) \<notin> L - {(p, old)} \<and>
       agree (fst w) (fst w') (blocks (L - {(p, old)}) \<union> - own) \<and>
       bytes (fst w') q (min (lsize old) n) = bytes (fst w) p (min (lsize old) n) \<and>
       ok w' (insert (q, old\<lparr>lsize := n\<rparr>) (L - {(p, old)}))
     else agree (fst w) (fst w') (blocks L \<union> - own) \<and> ok w' L)"
proof (cases "vt_remap vt")
  case None
  note wf = wf_blockD [OF ok_wf [OF assms(1)] assms(2)]
  show ?thesis
    using None assms(1) wf(1) requestD [OF wf(2)] requestD [OF assms(3)]
    by (simp add: tda_remap_def)
next
  case (Some h)
  note wf = wf_blockD [OF ok_wf [OF assms(1)] assms(2)]
  obtain q w' where h: "h p old n w = Some (q, w')"
    and r: "if q \<noteq> 0 then (q, old\<lparr>lsize := n\<rparr>) \<notin> L - {(p, old)} \<and> agree (fst w) (fst w') (blocks (L - {(p, old)}) \<union> - own) \<and>
       bytes (fst w') q (min (lsize old) n) = bytes (fst w) p (min (lsize old) n) \<and>
       ok w' (insert (q, old\<lparr>lsize := n\<rparr>) (L - {(p, old)}))
     else agree (fst w) (fst w') (blocks L \<union> - own) \<and> ok w' L"
    using remap_law [OF Some assms] by blast
  have "lalign old dvd q" if "q \<noteq> 0"
    using r that wf_blockD(3) [OF ok_wf, of w' "insert (q, old\<lparr>lsize := n\<rparr>) (L - {(p, old)})" q
        "old\<lparr>lsize := n\<rparr>"] by simp
  then have "expect_aligned q (lalign old) = Some ()"
    using requestD [OF wf(2)] by (intro expect_aligned_ok) auto
  then show ?thesis
    using Some h r wf(1) requestD [OF wf(2)] requestD [OF assms(3)] by (simp add: tda_remap_def)
qed

lemma realloc_copy_step:
  assumes "ok w L" "(p, old) \<in> L" "request amax (old\<lparr>lsize := n\<rparr>)"
    and al: "tda_alloc vt (old\<lparr>lsize := n\<rparr>) w = Some (q, w1)" "q \<noteq> 0"
    and ok1: "ok w1 (insert (q, old\<lparr>lsize := n\<rparr>) L)"
    and dis: "region q n \<inter> blocks L = {}"
    and ag1: "agree (fst w) (fst w1) (blocks L \<union> - own)"
  shows "\<exists>m w2. memcpy (fst w1) q p (min (lsize old) n) = Some m \<and>
    tda_dealloc vt p old (m, snd w1) = Some w2 \<and>
    (q, old\<lparr>lsize := n\<rparr>) \<notin> L \<and>
    agree (fst w) (fst w2) (blocks (L - {(p, old)}) \<union> - own) \<and>
    bytes (fst w2) q (min (lsize old) n) = bytes (fst w) p (min (lsize old) n) \<and>
    ok w2 (insert (q, old\<lparr>lsize := n\<rparr>) (L - {(p, old)}))"
proof -
  let ?k = "min (lsize old) n" and ?new = "(q, old\<lparr>lsize := n\<rparr>)"
  let ?m = "memmove (fst w1) q p ?k"
  have n0: "0 < n" using assms(3) by (simp add: request_def)
  have p: "p \<noteq> 0" "region p (lsize old) \<subseteq> blocks L" "region p (lsize old) \<subseteq> own"
    using wf_blockD [OF ok_wf [OF assms(1)] assms(2)] block_in_blocks [OF assms(2)] by simp_all
  have qown: "region q n \<subseteq> own"
    using wf_blockD(4) [OF ok_wf [OF ok1], of q "old\<lparr>lsize := n\<rparr>"] by simp
  have "region q ?k \<inter> region p ?k = {}"
    using dis p(2) region_mono [of ?k n q] region_mono [of ?k "lsize old" p] by force
  then have cpy: "memcpy (fst w1) q p ?k = Some ?m"
    using al(2) p(1) by (intro memcpy_Some) (simp_all add: apart_iff)
  have okm: "ok (?m, snd w1) (insert ?new L)"
    using ok1 region_mono [of ?k n q] by (intro write_block agree_memmove) auto
  have "q \<in> region q n" using n0 by simp
  with dis have "q \<notin> blocks L" by blast
  then have "?new \<notin> L" using block_in_blocks [of ?new L] \<open>q \<in> region q n\<close> by fastforce
  then have notin: "?new \<notin> L" "?new \<noteq> (p, old)" using assms(2) by auto
  obtain w2 where d: "tda_dealloc vt p old (?m, snd w1) = Some w2"
    and ag2: "agree ?m (fst w2) (blocks (insert ?new L - {(p, old)}) \<union> - own)"
    and ok2: "ok w2 (insert ?new L - {(p, old)})"
    using tda_dealloc_spec [OF okm, of p old] assms(2) by auto
  have eq: "insert ?new L - {(p, old)} = insert ?new (L - {(p, old)})" using notin by auto
  have kq: "region q ?k \<subseteq> region q n" by (rule region_mono) simp
  have "region p ?k \<subseteq> region p (lsize old)" by (rule region_mono) simp
  then have kp: "region p ?k \<subseteq> blocks L \<union> - own" using p(2) by blast
  let ?S = "blocks (L - {(p, old)}) \<union> - own"
  have sub: "?S \<subseteq> blocks L \<union> - own" using blocks_mono [of "L - {(p, old)}" L] by blast
  have "(blocks L \<union> - own) \<inter> region q ?k = {}" using dis qown kq by blast
  then have "agree (fst w1) ?m ?S" using sub by (intro agree_memmove) blast
  moreover have "agree ?m (fst w2) ?S"
    using ag2 unfolding eq by (rule agree_subset) auto
  ultimately have ag: "agree (fst w) (fst w2) ?S"
    using agree_subset [OF ag1 sub] by (blast intro: agree_trans)
  have kq': "region q ?k \<subseteq> blocks (insert ?new (L - {(p, old)})) \<union> - own" using kq by auto
  have "bytes (fst w2) q ?k = bytes ?m q ?k"
    using agree_subset [OF ag2 [unfolded eq] kq'] by (rule bytes_agree)
  also have "\<dots> = bytes (fst w1) p ?k" by (rule bytes_memmove)
  also have "\<dots> = bytes (fst w) p ?k"
    using agree_subset [OF ag1 kp] by (rule bytes_agree)
  finally show ?thesis
    using cpy d ag ok2 notin unfolding eq by blast
qed

lemma tda_realloc_spec:
  assumes "ok w L" "(p, old) \<in> L" "request amax (old\<lparr>lsize := n\<rparr>)"
  shows "\<exists>q w'. tda_realloc vt p old n w = Some (q, w') \<and>
    (if q \<noteq> 0 then (q, old\<lparr>lsize := n\<rparr>) \<notin> L - {(p, old)} \<and>
       agree (fst w) (fst w') (blocks (L - {(p, old)}) \<union> - own) \<and>
       bytes (fst w') q (min (lsize old) n) = bytes (fst w) p (min (lsize old) n) \<and>
       ok w' (insert (q, old\<lparr>lsize := n\<rparr>) (L - {(p, old)}))
     else agree (fst w) (fst w') (blocks L \<union> - own) \<and> ok w' L)"
proof -
  note wf = wf_blockD [OF ok_wf [OF assms(1)] assms(2)]
  have lay: "\<lparr>lsize = n, lalign = lalign old\<rparr> = old\<lparr>lsize := n\<rparr>" by simp
  have n0: "n \<noteq> 0" using assms(3) by (simp add: request_def)
  have mn: "(if lsize old < n then lsize old else n) = min (lsize old) n" by simp
  have keep: "bytes m' p k = bytes m p k"
    if "agree m m' (blocks L \<union> - own)" "k \<le> lsize old" for m m' k
    using that block_in_blocks [OF assms(2)] region_mono [of k "lsize old" p]
    by (intro bytes_agree) (auto intro: agree_subset)
  have sub: "agree m m' (blocks L \<union> - own) \<Longrightarrow> agree m m' (blocks (L - {(p, old)}) \<union> - own)"
    for m m' using blocks_mono [of "L - {(p, old)}" L] by (blast intro: agree_subset)
  obtain b w1 where r1: "tda_resize vt p old n w = Some (b, w1)"
    and s1: "if b then agree (fst w) (fst w1) (blocks (L - {(p, old)}) \<union> - own) \<and>
         bytes (fst w1) p (min (lsize old) n) = bytes (fst w) p (min (lsize old) n) \<and>
         ok w1 (insert (p, old\<lparr>lsize := n\<rparr>) (L - {(p, old)}))
       else agree (fst w) (fst w1) (blocks L \<union> - own) \<and> ok w1 L"
    using tda_resize_spec [OF assms] by blast
  have start: "tda_realloc vt p old n w = (if b then Some (p, w1) else do {
      (moved, w) \<leftarrow> tda_remap vt p old n w1;
      if moved \<noteq> 0 then Some (moved, w)
      else do {
        (new_ptr, w) \<leftarrow> tda_alloc vt (old\<lparr>lsize := n\<rparr>) w;
        if new_ptr = 0 then Some (0, w)
        else do {
          m \<leftarrow> memcpy (fst w) new_ptr p (if lsize old < n then lsize old else n);
          w \<leftarrow> tda_dealloc vt p old (m, snd w);
          Some (new_ptr, w)
        }
      }
    })"
    using r1 wf(1) requestD [OF wf(2)] n0
    by (simp add: tda_realloc_def lay cong: if_cong)
  show ?thesis
  proof (cases b)
    case True
    then show ?thesis
      using start s1 wf(1) wf_blocks_same_addr [OF ok_wf [OF assms(1)] assms(2), of "old\<lparr>lsize := n\<rparr>"] by auto
  next
    case False
    with s1 have ag1: "agree (fst w) (fst w1) (blocks L \<union> - own)" and ok1: "ok w1 L" by simp_all
    obtain q w2 where r2: "tda_remap vt p old n w1 = Some (q, w2)"
      and s2: "if q \<noteq> 0 then (q, old\<lparr>lsize := n\<rparr>) \<notin> L - {(p, old)} \<and> agree (fst w1) (fst w2) (blocks (L - {(p, old)}) \<union> - own) \<and>
           bytes (fst w2) q (min (lsize old) n) = bytes (fst w1) p (min (lsize old) n) \<and>
           ok w2 (insert (q, old\<lparr>lsize := n\<rparr>) (L - {(p, old)}))
         else agree (fst w1) (fst w2) (blocks L \<union> - own) \<and> ok w2 L"
      using tda_remap_spec [OF ok1 assms(2,3)] by blast
    show ?thesis
    proof (cases "q \<noteq> 0")
      case True
      then show ?thesis
        using start False r2 s2 keep [OF ag1] agree_trans [OF sub [OF ag1]] by simp
    next
      case q: False
      with s2 have ag2: "agree (fst w1) (fst w2) (blocks L \<union> - own)" and ok2: "ok w2 L"
        by simp_all
      note ag12 = agree_trans [OF ag1 ag2]
      obtain r w3 where r3: "tda_alloc vt (old\<lparr>lsize := n\<rparr>) w2 = Some (r, w3)"
        and ag3: "agree (fst w2) (fst w3) (blocks L \<union> - own)"
        and s3: "if r = 0 then ok w3 L
          else (r, old\<lparr>lsize := n\<rparr>) \<notin> L \<and> region r (lsize (old\<lparr>lsize := n\<rparr>)) \<inter> blocks L = {} \<and>
            ok w3 (insert (r, old\<lparr>lsize := n\<rparr>) L)"
        using tda_alloc_spec [OF ok2 assms(3)] by blast
      show ?thesis
      proof (cases "r = 0")
        case True
        then show ?thesis using start False r2 q r3 s3 agree_trans [OF ag12 ag3] by simp
      next
        case r: False
        with s3 have "ok w3 (insert (r, old\<lparr>lsize := n\<rparr>) L)" "region r n \<inter> blocks L = {}"
          by simp_all
        from realloc_copy_step [OF ok2 assms(2,3) r3 r this ag3]
        show ?thesis
          using start False r2 q r3 r keep [OF ag12] agree_trans [OF sub [OF ag12]] assms(2)
          unfolding mn by auto
      qed
    qed
  qed
qed

text \<open>Any history keeps the allocator consistent, and leaves memory it does not manage alone.\<close>

lemma client_step_ok:
  "client_step vt amax s t \<Longrightarrow> ok (fst s) (snd s) \<Longrightarrow>
   ok (fst t) (snd t) \<and> agree (fst (fst s)) (fst (fst t)) (- own)"
proof (induction rule: client_step.induct)
  case (client_alloc l w p w' L)
  then show ?case using tda_alloc_spec [of w L l] by (auto simp: agree_def)
next
  case (client_zeroed l w p w' L)
  then show ?case using tda_alloc_zeroed_spec [of w L l] by (auto simp: agree_def)
next
  case (client_realloc p old L n w q w')
  then show ?case
    using tda_realloc_spec [of w L p old n] by (auto simp: agree_def split: if_splits)
next
  case (client_dealloc p l L w w')
  then show ?case using tda_dealloc_spec [of w L p l] by (auto simp: agree_def)
next
  case (client_write w m' L)
  then show ?case using write_block [of w L m'] ok_own [of w L] by (auto simp: agree_def)
qed

lemma client_steps_ok:
  assumes "(client_step vt amax)\<^sup>*\<^sup>* s t" "ok (fst s) (snd s)"
  shows "ok (fst t) (snd t) \<and> agree (fst (fst s)) (fst (fst t)) (- own)"
  using assms
proof (induction rule: rtranclp_induct)
  case (step t u)
  then show ?case using client_step_ok [OF step(2)] by (blast intro: agree_trans)
qed simp

end

end
