(* ===== verification/Status.thy ===== *)
theory Status
  imports TdaPrelude
begin

text \<open>
  \<open>core/status.h\<close> and \<open>core/status.c\<close>. An operation that constructs a value answers
  \<open>Inr\<close> of it, or \<open>Inl\<close> of the status it failed with; an operation on an existing
  object answers the status beside the object.
\<close>

datatype tda_status = TDA_STATUS_OK | TDA_STATUS_ERR_NO_MEM

definition status_is_ok :: "tda_status \<Rightarrow> bool" where
  "status_is_ok st \<longleftrightarrow> st = TDA_STATUS_OK"

definition status_is_err :: "tda_status \<Rightarrow> bool" where
  "status_is_err st \<longleftrightarrow> st \<noteq> TDA_STATUS_OK"

text \<open>The enum's values, and \<open>tda_status_to_str\<close> over any \<open>int32_t\<close>, as the switch reads it.\<close>

fun status_code :: "tda_status \<Rightarrow> int" where
  "status_code TDA_STATUS_OK = 0"
| "status_code TDA_STATUS_ERR_NO_MEM = 1"

definition tda_status_to_str :: "int \<Rightarrow> string" where
  "tda_status_to_str st =
     (if st = status_code TDA_STATUS_OK then ''TDA_STATUS_OK''
      else if st = status_code TDA_STATUS_ERR_NO_MEM then ''TDA_STATUS_ERR_NO_MEM''
      else ''UNKNOWN_TDA_STATUS'')"

lemma status_simps [simp]:
  "status_is_ok TDA_STATUS_OK" "\<not> status_is_ok TDA_STATUS_ERR_NO_MEM"
  "\<not> status_is_err TDA_STATUS_OK" "status_is_err TDA_STATUS_ERR_NO_MEM"
  by (simp_all add: status_is_ok_def status_is_err_def)

lemma status_is_err_iff: "status_is_err st \<longleftrightarrow> st \<noteq> TDA_STATUS_OK"
  by (simp add: status_is_err_def)

lemma not_ok_iff: "st \<noteq> TDA_STATUS_OK \<longleftrightarrow> st = TDA_STATUS_ERR_NO_MEM"
  by (cases st) simp_all

end
