(* ===== verification/Pool.thy ===== *)
theory Pool
  imports Alloc Status
begin

text \<open>
  \<open>alloc/pool.h\<close> and \<open>alloc/pool.c\<close>: a pool of equal blocks. The free blocks form a list that is
  threaded through the blocks themselves, so the model keeps it where the code does, in memory:
  \<open>po_free_head\<close> is the address of the first free block and the first eight bytes of each hold the
  address of the next.
\<close>

section \<open>State\<close>

record 'p pool =
  po_parent :: "'p vtable option"
  po_data :: addr
  po_free_head :: addr
  po_block_size :: nat
  po_block_align :: nat
  po_block_count :: nat
  po_used :: nat

record pool_stats =
  ps_block_size :: nat
  ps_block_align :: nat
  ps_blocks :: nat
  ps_used :: nat
  ps_free :: nat

definition pool_null :: "'p pool" where
  "pool_null = \<lparr>po_parent = None, po_data = 0, po_free_head = 0, po_block_size = 0,
     po_block_align = 0, po_block_count = 0, po_used = 0\<rparr>"

definition assert_pool :: "'p pool \<Rightarrow> bool" where
  "assert_pool p \<longleftrightarrow> po_data p \<noteq> 0 \<and> po_block_count p > 0 \<and> po_used p \<le> po_block_count p"

section \<open>Internals\<close>

text \<open>\<open>sizeof\<close> and \<open>alignof\<close> of a free block, which is one pointer.\<close>

definition FREE_SIZE :: nat where "FREE_SIZE = 8"
definition FREE_ALIGN :: nat where "FREE_ALIGN = 8"

definition pool_array_layout :: "'p pool \<Rightarrow> layout" where
  "pool_array_layout self =
     \<lparr>lsize = wmul (po_block_size self) (po_block_count self), lalign = po_block_align self\<rparr>"

definition pool_owns_block :: "'p pool \<Rightarrow> addr \<Rightarrow> bool" where
  "pool_owns_block self ptr \<longleftrightarrow> (let begn = po_data self;
       endp = wadd begn (lsize (pool_array_layout self))
     in ptr \<ge> begn \<and> ptr < endp \<and> (ptr - begn) mod po_block_size self = 0)"

definition ckd_block :: "layout \<Rightarrow> layout option option" where
  "ckd_block block = (let
       align = (if lalign block > FREE_ALIGN then lalign block else FREE_ALIGN);
       size = (if lsize block > FREE_SIZE then lsize block else FREE_SIZE)
     in do {
       r \<leftarrow> tda_align_ckd_up size align;
       Some (map_option (\<lambda>n. \<lparr>lsize = n, lalign = align\<rparr>) r)
     })"

definition push_free :: "addr \<Rightarrow> 'p pool world \<Rightarrow> 'p pool world" where
  "push_free block w = (store_ptr (fst w) block (po_free_head (snd w)),
     (snd w)\<lparr>po_free_head := block\<rparr>)"

text \<open>The loop of \<open>build_free_list\<close>, from block \<open>i - 1\<close> down to the first.\<close>

fun build_from :: "nat \<Rightarrow> 'p pool world \<Rightarrow> 'p pool world option" where
  "build_from 0 w = Some w"
| "build_from (Suc i) w = do {
     block \<leftarrow> tda_byte_offset_mut (po_data (snd w)) (po_block_size (snd w)) i;
     build_from i (push_free block w)
   }"

definition build_free_list :: "'p pool world \<Rightarrow> 'p pool world option" where
  "build_free_list w =
     build_from (po_block_count (snd w)) (fst w, (snd w)\<lparr>po_free_head := 0\<rparr>)"

definition pool_fill ::
  "'p vtable option \<Rightarrow> addr \<Rightarrow> layout \<Rightarrow> nat \<Rightarrow> mem \<Rightarrow> 'p pool world option" where
  "pool_fill parent data block block_count m = do {
     chk (tda_layout_is_type block);
     b \<leftarrow> tda_align_meets data (lalign block);
     chk b;
     build_free_list (m, pool_null\<lparr>po_parent := parent, po_data := data,
       po_block_size := lsize block, po_block_align := lalign block,
       po_block_count := block_count\<rparr>)
   }"

section \<open>Hooks\<close>

definition pool_alloc :: "layout \<Rightarrow> 'p pool world \<Rightarrow> (addr \<times> 'p pool world) option" where
  "pool_alloc layout w = (let m = fst w; self = snd w in do {
     chk (assert_pool self);
     chk (lsize layout > 0);
     chk (lalign layout \<le> po_block_align self);
     if lsize layout > po_block_size self then Some (0, w)
     else (let node = po_free_head self in
       if node = 0 then Some (0, w)
       else Some (node, (m, self\<lparr>po_free_head := load_ptr m node, po_used := po_used self + 1\<rparr>)))
   })"

definition pool_dealloc :: "addr \<Rightarrow> layout \<Rightarrow> 'p pool world \<Rightarrow> 'p pool world option" where
  "pool_dealloc ptr layout w = (let self = snd w in do {
     chk (assert_pool self);
     chk (ptr \<noteq> 0);
     chk (lsize layout \<le> po_block_size self \<and> lalign layout \<le> po_block_align self);
     chk (pool_owns_block self ptr);
     chk (po_used self > 0);
     chk (ptr \<noteq> po_free_head self);
     (let (m, self) = push_free ptr w in Some (m, self\<lparr>po_used := po_used self - 1\<rparr>))
   })"

definition pool_resize ::
  "addr \<Rightarrow> layout \<Rightarrow> nat \<Rightarrow> 'p pool world \<Rightarrow> (bool \<times> 'p pool world) option" where
  "pool_resize ptr old new_size w = (let self = snd w in do {
     chk (assert_pool self);
     chk (ptr \<noteq> 0);
     chk (lsize old > 0);
     chk (new_size > 0);
     chk (lsize old \<le> po_block_size self \<and> lalign old \<le> po_block_align self);
     chk (pool_owns_block self ptr);
     Some (new_size \<le> po_block_size self, w)
   })"

definition pool_vtable :: "'p pool vtable" where
  "pool_vtable = \<lparr>vt_alloc = pool_alloc, vt_alloc_zeroed = None, vt_resize = Some pool_resize,
     vt_remap = None, vt_dealloc = pool_dealloc\<rparr>"

section \<open>Lifetime, view, stats\<close>

definition tda_pool_init_cap ::
  "nat \<Rightarrow> layout \<Rightarrow> 'p vtable \<Rightarrow> 'p world \<Rightarrow> ((tda_status + 'p pool) \<times> 'p world) option" where
  "tda_pool_init_cap block_count block parent w = do {
     chk (block_count > 0);
     chk (lsize block > 0);
     chk (tda_layout_is_align (lalign block));
     b \<leftarrow> ckd_block block;
     case b of
       None \<Rightarrow> Some (Inl TDA_STATUS_ERR_NO_MEM, w)
     | Some block \<Rightarrow> do {
         d \<leftarrow> tda_layout_ckd_array block block_count;
         case d of
           None \<Rightarrow> Some (Inl TDA_STATUS_ERR_NO_MEM, w)
         | Some data_layout \<Rightarrow> do {
             (data, w) \<leftarrow> tda_alloc parent data_layout w;
             if data = 0 then Some (Inl TDA_STATUS_ERR_NO_MEM, w)
             else do {
               (m, pool) \<leftarrow> pool_fill (Some parent) data block block_count (fst w);
               Some (Inr pool, (m, snd w))
             }
           }
       }
   }"

definition tda_pool_init_buf ::
  "addr \<Rightarrow> nat \<Rightarrow> layout \<Rightarrow> mem \<Rightarrow> ((tda_status + 'p pool) \<times> mem) option" where
  "tda_pool_init_buf buf cap block m = do {
     chk (buf \<noteq> 0);
     chk (cap > 0);
     chk (lsize block > 0);
     chk (tda_layout_is_align (lalign block));
     b \<leftarrow> ckd_block block;
     case b of
       None \<Rightarrow> Some (Inl TDA_STATUS_ERR_NO_MEM, m)
     | Some block \<Rightarrow> do {
         pad \<leftarrow> tda_align_pad buf (lalign block);
         if pad > cap \<or> cap - pad < lsize block then Some (Inl TDA_STATUS_ERR_NO_MEM, m)
         else do {
           data \<leftarrow> tda_byte_offset_mut buf 1 pad;
           (m, pool) \<leftarrow> pool_fill None data block ((cap - pad) div lsize block) m;
           Some (Inr pool, m)
         }
       }
   }"

definition tda_pool_deinit :: "'p pool \<Rightarrow> 'p world \<Rightarrow> ('p pool \<times> 'p world) option" where
  "tda_pool_deinit self w =
     (if po_data self = 0 then Some (self, w)
      else do {
        chk (assert_pool self);
        w \<leftarrow> (case po_parent self of
                None \<Rightarrow> Some w
              | Some vt \<Rightarrow> tda_dealloc vt (po_data self) (pool_array_layout self) w);
        Some (pool_null, w)
      })"

definition tda_pool_reset :: "'p pool world \<Rightarrow> 'p pool world option" where
  "tda_pool_reset w = do {
     chk (assert_pool (snd w));
     build_free_list (fst w, (snd w)\<lparr>po_used := 0\<rparr>)
   }"

definition tda_pool_stats :: "'p pool \<Rightarrow> pool_stats option" where
  "tda_pool_stats self = do {
     chk (assert_pool self);
     Some \<lparr>ps_block_size = po_block_size self, ps_block_align = po_block_align self,
       ps_blocks = po_block_count self, ps_used = po_used self,
       ps_free = po_block_count self - po_used self\<rparr>
   }"

section \<open>The invariant\<close>

text \<open>\<open>chain m h xs\<close>: following the links from \<open>h\<close> visits exactly \<open>xs\<close> and ends at null.\<close>

fun chain :: "mem \<Rightarrow> addr \<Rightarrow> addr list \<Rightarrow> bool" where
  "chain m h [] \<longleftrightarrow> h = 0"
| "chain m h (x # xs) \<longleftrightarrow> h = x \<and> x \<noteq> 0 \<and> chain m (load_ptr m x) xs"

definition slot :: "'p pool \<Rightarrow> nat \<Rightarrow> addr" where
  "slot p i = po_data p + po_block_size p * i"

definition slots :: "'p pool \<Rightarrow> addr set" where
  "slots p = slot p ` {..<po_block_count p}"

text \<open>What never changes: the shape of the block array.\<close>

definition pool_shape :: "addr set \<Rightarrow> nat \<Rightarrow> 'p pool \<Rightarrow> bool" where
  "pool_shape own amax p \<longleftrightarrow>
     po_data p \<noteq> 0 \<and> po_block_count p > 0 \<and> po_block_align p = amax \<and>
     tda_layout_is_align amax \<and> amax dvd po_data p \<and> amax dvd po_block_size p \<and>
     8 \<le> po_block_size p \<and>
     po_data p + po_block_size p * po_block_count p \<le> SIZE_MAX \<and>
     own = region (po_data p) (po_block_size p * po_block_count p)"

text \<open>
  Every block is either on the free list, once, or out: the free list and the blocks out together
  are the slots, and they have none in common.
\<close>

definition pool_ok :: "addr set \<Rightarrow> nat \<Rightarrow> 'p pool world \<Rightarrow> block set \<Rightarrow> bool" where
  "pool_ok own amax w L \<longleftrightarrow> (let p = snd w in
     pool_shape own amax p \<and> wf_blocks own amax L \<and>
     (\<forall>b \<in> L. fst b \<in> slots p \<and> lsize (snd b) \<le> po_block_size p) \<and>
     (\<exists>fl. chain (fst w) (po_free_head p) fl \<and> distinct fl \<and> set fl \<inter> fst ` L = {} \<and>
        set fl \<union> fst ` L = slots p \<and> po_used p = card (fst ` L)))"

section \<open>Slots and chains\<close>

lemma pool_shapeD:
  assumes "pool_shape own amax p"
  shows "po_data p \<noteq> 0" "po_block_count p > 0" "po_block_align p = amax"
    "tda_layout_is_align amax" "amax dvd po_data p" "amax dvd po_block_size p"
    "8 \<le> po_block_size p" "po_data p + po_block_size p * po_block_count p \<le> SIZE_MAX"
    "own = region (po_data p) (po_block_size p * po_block_count p)"
  using assms by (simp_all add: pool_shape_def)

lemma slot_end: "i < po_block_count p \<Longrightarrow>
    slot p i + po_block_size p \<le> po_data p + po_block_size p * po_block_count p"
proof -
  assume "i < po_block_count p"
  then have "po_block_size p * Suc i \<le> po_block_size p * po_block_count p" by (intro mult_le_mono2) simp
  then show ?thesis by (simp add: slot_def)
qed

lemma slot_before: "i < j \<Longrightarrow> slot p i + po_block_size p \<le> slot p j"
proof -
  assume "i < j"
  then have "po_block_size p * Suc i \<le> po_block_size p * j" by (intro mult_le_mono2) simp
  then show ?thesis by (simp add: slot_def)
qed

lemma slots_disjoint:
  assumes "x \<in> slots p" "y \<in> slots p" "x \<noteq> y"
  shows "region x (po_block_size p) \<inter> region y (po_block_size p) = {}"
proof -
  obtain i j where ij: "x = slot p i" "y = slot p j" "i \<noteq> j"
    using assms by (auto simp: slots_def)
  then consider "i < j" | "j < i" by linarith
  then show ?thesis
    using ij slot_before [of i j p] slot_before [of j i p] by cases auto
qed

lemma slot_shape:
  assumes "pool_shape own amax p" "x \<in> slots p"
  shows "x \<noteq> 0" "x + po_block_size p \<le> SIZE_MAX" "amax dvd x"
    "region x (po_block_size p) \<subseteq> own" "pool_owns_block p x"
proof -
  note S = pool_shapeD [OF assms(1)]
  obtain i where i: "x = slot p i" "i < po_block_count p" using assms(2) by (auto simp: slots_def)
  note e = slot_end [OF i(2)]
  show "x \<noteq> 0" using S(1) i by (simp add: slot_def)
  show "x + po_block_size p \<le> SIZE_MAX" using e S(8) i by simp
  show "amax dvd x" using S(5,6) i by (simp add: slot_def)
  show "region x (po_block_size p) \<subseteq> own" using e S(9) i by (auto simp: slot_def)
  have "x < po_data p + po_block_size p * po_block_count p" using e S(7) i by simp
  then show "pool_owns_block p x"
    using S(8) i by (simp add: pool_owns_block_def pool_array_layout_def slot_def)
qed

lemma align_dvd: "tda_layout_is_align a \<Longrightarrow> tda_layout_is_align b \<Longrightarrow> a \<le> b \<Longrightarrow> a dvd b"
  using is_align_dvd_max [of a b] by (simp add: max_def)

lemma chain_agree:
  "chain m h xs \<Longrightarrow> (\<And>x. x \<in> set xs \<Longrightarrow> agree m m' (region x 8)) \<Longrightarrow> chain m' h xs"
proof (induction xs arbitrary: h)
  case (Cons x xs)
  have "load_ptr m' x = load_ptr m x" using Cons.prems(2) [of x] by (simp add: load_ptr_agree)
  then show ?case using Cons.IH [of "load_ptr m x"] Cons.prems by simp
qed simp

lemma chain_unique: "chain m h xs \<Longrightarrow> chain m h ys \<Longrightarrow> xs = ys"
proof (induction xs arbitrary: h ys)
  case Nil
  then show ?case by (cases ys) auto
next
  case (Cons x xs)
  then show ?case by (cases ys) auto
qed

lemma chain_push:
  assumes "chain m h fl" "x \<noteq> 0" "h \<le> SIZE_MAX" "\<And>y. y \<in> set fl \<Longrightarrow> region y 8 \<inter> region x 8 = {}"
  shows "chain (store_ptr m x h) x (x # fl)"
  using assms by (auto intro: chain_agree agree_store_ptr)

lemma pool_okE:
  assumes "pool_ok own amax (m, p) L"
  obtains fl where "pool_shape own amax p" "wf_blocks own amax L"
    "\<And>q l. (q, l) \<in> L \<Longrightarrow> q \<in> slots p \<and> lsize l \<le> po_block_size p"
    "chain m (po_free_head p) fl" "distinct fl" "set fl \<inter> fst ` L = {}"
    "set fl \<union> fst ` L = slots p" "po_used p = card (fst ` L)"
  using assms unfolding pool_ok_def Let_def by fastforce

lemma pool_okI:
  assumes "pool_shape own amax p" "wf_blocks own amax L"
    "\<And>q l. (q, l) \<in> L \<Longrightarrow> q \<in> slots p \<and> lsize l \<le> po_block_size p"
    "chain m (po_free_head p) fl" "distinct fl" "set fl \<inter> fst ` L = {}"
    "set fl \<union> fst ` L = slots p" "po_used p = card (fst ` L)"
  shows "pool_ok own amax (m, p) L"
  unfolding pool_ok_def Let_def using assms
  by (intro conjI ballI exI [of _ fl]) (auto simp: split_paired_all)

lemma finite_slots [simp]: "finite (slots p)"
  by (simp add: slots_def)

lemma card_slots: "pool_shape own amax p \<Longrightarrow> card (slots p) = po_block_count p"
proof -
  assume "pool_shape own amax p"
  then have "po_block_size p > 0" using pool_shapeD(7) by fastforce
  then have "inj_on (slot p) {..<po_block_count p}" by (auto simp: inj_on_def slot_def)
  then show ?thesis by (simp add: slots_def card_image)
qed

lemma pool_ok_assert:
  assumes "pool_ok own amax (m, p) L"
  shows "assert_pool p"
proof -
  obtain fl where sh: "pool_shape own amax p" and s: "set fl \<union> fst ` L = slots p"
    and u: "po_used p = card (fst ` L)" using assms by (rule pool_okE)
  have "card (fst ` L) \<le> card (slots p)" using s by (intro card_mono) auto
  then show ?thesis using pool_shapeD(1,2) [OF sh] card_slots [OF sh] u by (simp add: assert_pool_def)
qed

text \<open>A block that is out lies within its slot, so every other slot is clear of it.\<close>

lemma slot_clear:
  assumes sh: "pool_shape own amax p" and x: "x \<in> slots p" "x \<notin> fst ` L"
    and L: "\<And>q l. (q, l) \<in> L \<Longrightarrow> q \<in> slots p \<and> lsize l \<le> po_block_size p"
  shows "region x (po_block_size p) \<inter> blocks L = {}"
proof -
  have "region x (po_block_size p) \<inter> region q (lsize l) = {}" if "(q, l) \<in> L" for q l
  proof -
    have "q \<noteq> x" using x(2) that by force
    then have "region x (po_block_size p) \<inter> region q (po_block_size p) = {}"
      using slots_disjoint [of x p q] x(1) L [OF that] by blast
    moreover have "region q (lsize l) \<subseteq> region q (po_block_size p)"
      using L [OF that] by (intro region_mono) simp
    ultimately show ?thesis by blast
  qed
  then have "region x (po_block_size p) \<inter> block_region b = {}" if "b \<in> L" for b
    using that by (cases b) simp
  then show ?thesis unfolding blocks_def by blast
qed

lemma fst_remove:
  assumes "wf_blocks own amax L" "(q, l) \<in> L"
  shows "fst ` (L - {(q, l)}) = fst ` L - {q}"
proof -
  have "l' = l" if "(q, l') \<in> L" for l'
  proof (rule ccontr)
    assume "l' \<noteq> l"
    then have "block_region (q, l') \<inter> block_region (q, l) = {}"
      using assms that unfolding wf_blocks_def by blast
    moreover have "q \<in> block_region (q, l')" "q \<in> block_region (q, l)"
      using requestD(1) [OF wf_blockD(2) [OF assms(1) that]]
        requestD(1) [OF wf_blockD(2) [OF assms]] by auto
    ultimately show False by blast
  qed
  then show ?thesis by force
qed

section \<open>The pool keeps the allocator's contract\<close>

lemma pool_alloc_contract:
  assumes ok: "pool_ok own amax w L" and l: "request amax l"
  shows "\<exists>p w'. pool_alloc l w = Some (p, w') \<and> agree (fst w) (fst w') (blocks L \<union> - own) \<and>
    (if p = 0 then pool_ok own amax w' L
     else (p, l) \<notin> L \<and> region p (lsize l) \<inter> blocks L = {} \<and> pool_ok own amax w' (insert (p, l) L))"
proof -
  obtain m p where w: "w = (m, p)" by force
  from ok [unfolded w] obtain fl where sh: "pool_shape own amax p" and wf: "wf_blocks own amax L"
    and sl: "\<And>q l. (q, l) \<in> L \<Longrightarrow> q \<in> slots p \<and> lsize l \<le> po_block_size p"
    and ch: "chain m (po_free_head p) fl" "distinct fl" and dis: "set fl \<inter> fst ` L = {}"
    and un: "set fl \<union> fst ` L = slots p" and us: "po_used p = card (fst ` L)"
    by (rule pool_okE) blast
  note S = pool_shapeD [OF sh]
  have a: "assert_pool p" using ok by (simp add: w pool_ok_assert)
  note req = requestD [OF l]
  show ?thesis
  proof (cases "lsize l > po_block_size p \<or> fl = []")
    case True
    then show ?thesis using ok ch a req S(3) by (auto simp: w pool_alloc_def)
  next
    case False
    then obtain x xs where fl: "fl = x # xs" and le: "lsize l \<le> po_block_size p"
      by (cases fl) auto
    have x: "x \<in> slots p" "x \<notin> fst ` L" using un dis fl by auto
    note X = slot_shape [OF sh x(1)]
    let ?p = "p\<lparr>po_free_head := load_ptr m x, po_used := po_used p + 1\<rparr>"
    have call: "pool_alloc l (m, p) = Some (x, (m, ?p))"
      using a req S(3) le ch(1) fl by (simp add: pool_alloc_def)
    have sub: "region x (lsize l) \<subseteq> region x (po_block_size p)" using le by (rule region_mono)
    then have clear: "region x (lsize l) \<inter> blocks L = {}"
      using slot_clear [OF sh x sl] by blast
    have "wf_blocks own amax (insert (x, l) L)"
      using wf X(1,2,4) l le clear sub align_dvd [OF req(3) S(4) req(4)] X(3)
      by (intro wf_blocks_insert) auto
    moreover have "finite (fst ` L)" using un finite_slots [of p] by (metis finite_Un)
    then have "card (fst ` insert (x, l) L) = po_used p + 1" using x(2) us by simp
    moreover have "pool_shape own amax ?p" "slots ?p = slots p"
      using sh by (simp_all add: pool_shape_def slots_def slot_def)
    moreover have "chain m (load_ptr m x) xs" "distinct xs" "set xs \<inter> fst ` insert (x, l) L = {}"
      "set xs \<union> fst ` insert (x, l) L = slots p"
      using ch fl dis un by auto
    ultimately have "pool_ok own amax (m, ?p) (insert (x, l) L)"
      using sl x(1) le by (intro pool_okI [where fl = xs]) auto
    then show ?thesis using call X(1) clear x(2) by (auto simp: w image_iff)
  qed
qed

lemma pool_dealloc_contract:
  assumes ok: "pool_ok own amax w L" and b: "(q, l) \<in> L"
  shows "\<exists>w'. pool_dealloc q l w = Some w' \<and>
    agree (fst w) (fst w') (blocks (L - {(q, l)}) \<union> - own) \<and> pool_ok own amax w' (L - {(q, l)})"
proof -
  obtain m p where w: "w = (m, p)" by force
  from ok [unfolded w] obtain fl where sh: "pool_shape own amax p" and wf: "wf_blocks own amax L"
    and sl: "\<And>q l. (q, l) \<in> L \<Longrightarrow> q \<in> slots p \<and> lsize l \<le> po_block_size p"
    and ch: "chain m (po_free_head p) fl" "distinct fl" and dis: "set fl \<inter> fst ` L = {}"
    and un: "set fl \<union> fst ` L = slots p" and us: "po_used p = card (fst ` L)"
    by (rule pool_okE) blast
  note S = pool_shapeD [OF sh]
  note q = conjunct1 [OF sl [OF b]]
  note Q = slot_shape [OF sh q]
  note W = wf_blockD [OF wf b]
  let ?L = "L - {(q, l)}" and ?m = "store_ptr m q (po_free_head p)"
  let ?p = "p\<lparr>po_free_head := q, po_used := po_used p - 1\<rparr>"
  have fin: "finite (fst ` L)" using un finite_slots [of p] by (metis finite_Un)
  have qL: "q \<in> fst ` L" using b by force
  have used: "po_used p > 0" using us fin qL by (auto simp: card_gt_0_iff)
  have head: "po_free_head p = 0 \<or> po_free_head p \<in> set fl" using ch(1) by (cases fl) auto
  have nh: "q \<noteq> po_free_head p" using head dis qL Q(1) by (metis IntI emptyE)
  have hd: "po_free_head p \<le> SIZE_MAX"
    using head slot_shape(2) [OF sh, of "po_free_head p"] un by fastforce
  have call: "pool_dealloc q l (m, p) = Some (?m, ?p)"
    using pool_ok_assert [OF ok [unfolded w]] Q(1,5) sl [OF b] requestD(4) [OF W(2)] S(3) used nh
    by (simp add: pool_dealloc_def push_free_def)
  have r8: "region y 8 \<subseteq> region y (po_block_size p)" for y using S(7) by (rule region_mono)
  have "region y 8 \<inter> region q 8 = {}" if "y \<in> set fl" for y
    using slots_disjoint [of y p q] that un q dis qL r8 [of y] r8 [of q] by blast
  then have ch': "chain ?m q (q # fl)" using ch(1) Q(1) hd by (intro chain_push)
  have rem: "fst ` ?L = fst ` L - {q}" using wf b by (rule fst_remove)
  have "region q (po_block_size p) \<inter> blocks ?L = {}"
    using rem sl by (intro slot_clear [OF sh q]) blast+
  then have "agree m ?m (blocks ?L \<union> - own)"
    using r8 [of q] Q(4) by (intro agree_store_ptr) blast
  moreover have "card (fst ` ?L) = po_used p - 1" using rem us fin qL by simp
  moreover have "pool_shape own amax ?p" "slots ?p = slots p"
    using sh by (simp_all add: pool_shape_def slots_def slot_def)
  moreover have "distinct (q # fl)" "set (q # fl) \<inter> fst ` ?L = {}"
    "set (q # fl) \<union> fst ` ?L = slots p"
    using ch(2) dis un rem qL q by auto
  moreover have "wf_blocks own amax ?L" using wf by (rule wf_blocks_subset) blast
  moreover have "pool_ok own amax (?m, ?p) ?L"
    using calculation(2-) ch' sl by (intro pool_okI [where fl = "q # fl"]) (simp_all, blast+)
  ultimately show ?thesis using call by (auto simp: w)
qed

lemma pool_resize_contract:
  assumes ok: "pool_ok own amax w L" and b: "(q, old) \<in> L" and r: "request amax (old\<lparr>lsize := n\<rparr>)"
  shows "\<exists>b w'. pool_resize q old n w = Some (b, w') \<and>
    (if b then agree (fst w) (fst w') (blocks (L - {(q, old)}) \<union> - own) \<and>
       bytes (fst w') q (min (lsize old) n) = bytes (fst w) q (min (lsize old) n) \<and>
       pool_ok own amax w' (insert (q, old\<lparr>lsize := n\<rparr>) (L - {(q, old)}))
     else agree (fst w) (fst w') (blocks L \<union> - own) \<and> pool_ok own amax w' L)"
proof -
  obtain m p where w: "w = (m, p)" by force
  from ok [unfolded w] obtain fl where sh: "pool_shape own amax p" and wf: "wf_blocks own amax L"
    and sl: "\<And>q l. (q, l) \<in> L \<Longrightarrow> q \<in> slots p \<and> lsize l \<le> po_block_size p"
    and ch: "chain m (po_free_head p) fl" "distinct fl" and dis: "set fl \<inter> fst ` L = {}"
    and un: "set fl \<union> fst ` L = slots p" and us: "po_used p = card (fst ` L)"
    by (rule pool_okE) blast
  note q = conjunct1 [OF sl [OF b]]
  note Q = slot_shape [OF sh q]
  note W = wf_blockD [OF wf b]
  let ?L = "L - {(q, old)}" and ?new = "(q, old\<lparr>lsize := n\<rparr>)"
  have call: "pool_resize q old n w = Some (n \<le> po_block_size p, w)"
    using pool_ok_assert [OF ok [unfolded w]] Q(1,5) sl [OF b] requestD(1,4) [OF W(2)]
      requestD(1) [OF r] pool_shapeD(3) [OF sh]
    by (simp add: pool_resize_def w)
  show ?thesis
  proof (cases "n \<le> po_block_size p")
    case True
    have rem: "fst ` ?L = fst ` L - {q}" using wf b by (rule fst_remove)
    have "region q (po_block_size p) \<inter> blocks ?L = {}"
      using rem sl by (intro slot_clear [OF sh q]) blast+
    moreover have sub: "region q n \<subseteq> region q (po_block_size p)" using True by (rule region_mono)
    ultimately have "region q n \<inter> blocks ?L = {}" by blast
    then have "wf_blocks own amax (insert ?new ?L)"
      using wf_blocks_subset [OF wf] W(1,3) r Q(2,4) True sub by (intro wf_blocks_insert) auto
    moreover have "fst ` insert ?new ?L = fst ` L" using rem b by force
    ultimately have "pool_ok own amax (m, p) (insert ?new ?L)"
      using sh sl q True ch dis un us by (intro pool_okI [where fl = fl]) auto
    then show ?thesis using call True by (auto simp: w)
  next
    case False
    then show ?thesis using call ok by (intro exI [of _ False] exI [of _ w]) simp
  qed
qed

lemma pool_frame:
  assumes ok: "pool_ok own amax w L" and ag: "agree (fst w) m' (own - blocks L)"
  shows "pool_ok own amax (m', snd w) L"
proof -
  obtain m p where w: "w = (m, p)" by force
  from ok [unfolded w] obtain fl where sh: "pool_shape own amax p" and wf: "wf_blocks own amax L"
    and sl: "\<And>q l. (q, l) \<in> L \<Longrightarrow> q \<in> slots p \<and> lsize l \<le> po_block_size p"
    and ch: "chain m (po_free_head p) fl" "distinct fl" and dis: "set fl \<inter> fst ` L = {}"
    and un: "set fl \<union> fst ` L = slots p" and us: "po_used p = card (fst ` L)"
    by (rule pool_okE) blast
  have "agree m m' (region x 8)" if "x \<in> set fl" for x
  proof -
    have x: "x \<in> slots p" "x \<notin> fst ` L" using that un dis by blast+
    have "region x 8 \<subseteq> region x (po_block_size p)" using pool_shapeD(7) [OF sh] by (rule region_mono)
    then have "region x 8 \<subseteq> own - blocks L"
      using slot_clear [OF sh x sl] slot_shape(4) [OF sh x(1)] by blast
    then show ?thesis using ag by (simp add: w agree_subset)
  qed
  with ch(1) have "chain m' (po_free_head p) fl" by (rule chain_agree)
  then show ?thesis
    using sh wf sl ch(2) dis un us by (auto simp: w intro: pool_okI [where fl = fl])
qed

lemma pool_vtable_sels [simp]:
  "vt_alloc pool_vtable = pool_alloc" "vt_alloc_zeroed pool_vtable = None"
  "vt_resize pool_vtable = Some pool_resize" "vt_remap pool_vtable = None"
  "vt_dealloc pool_vtable = pool_dealloc"
  by (simp_all add: pool_vtable_def)

interpretation pool: allocator pool_vtable "pool_ok own amax" own amax for own amax
proof unfold_locales
  show "wf_blocks own amax L" if "pool_ok own amax w L" for w :: "'a pool world" and L
    using that by (simp add: pool_ok_def Let_def)
qed (simp_all add: pool_alloc_contract pool_resize_contract pool_dealloc_contract pool_frame
    del: split_paired_Ex)

section \<open>Building a pool\<close>

lemma build_from_spec:
  assumes "pool_shape own amax p" "i \<le> po_block_count p"
    and "chain m (po_free_head p) (map (slot p) [i..<po_block_count p])"
  shows "\<exists>m' h. build_from i (m, p) = Some (m', p\<lparr>po_free_head := h\<rparr>) \<and>
    chain m' h (map (slot p) [0..<po_block_count p]) \<and> agree m m' (- own)"
  using assms
proof (induction i arbitrary: m p)
  case 0
  then show ?case by (intro exI [of _ m] exI [of _ "po_free_head p"]) simp
next
  case (Suc i)
  note S = pool_shapeD [OF Suc.prems(1)]
  let ?x = "slot p i"
  let ?rest = "map (slot p) [Suc i..<po_block_count p]"
  let ?m = "store_ptr m ?x (po_free_head p)" and ?p = "p\<lparr>po_free_head := ?x\<rparr>"
  have i: "i < po_block_count p" using Suc.prems(2) by simp
  then have x: "?x \<in> slots p" by (simp add: slots_def)
  note X = slot_shape [OF Suc.prems(1) x]
  have r8: "region y 8 \<subseteq> region y (po_block_size p)" for y using S(7) by (rule region_mono)
  have slot: "slot ?p = slot p" by (rule ext) (simp add: slot_def)
  have "po_free_head p = 0 \<or> po_free_head p \<in> set ?rest"
    using Suc.prems(3) by (cases ?rest) (auto simp del: upt_Suc)
  moreover have "y \<in> slots p" if "y \<in> set ?rest" for y
    using that by (auto simp: slots_def)
  ultimately have h: "po_free_head p \<le> SIZE_MAX"
    using slot_shape(2) [OF Suc.prems(1), of "po_free_head p"] by fastforce
  have "region y 8 \<inter> region ?x 8 = {}" if y: "y \<in> set ?rest" for y
  proof -
    obtain j where j: "y = slot p j" "i < j" using y by auto
    show ?thesis using slot_before [OF j(2), of p] S(7) j(1) by auto
  qed
  then have "chain ?m ?x (?x # ?rest)" using Suc.prems(3) X(1) h by (intro chain_push)
  then have ch: "chain ?m (po_free_head ?p) (map (slot ?p) [i..<po_block_count ?p])"
    using i by (simp add: slot upt_conv_Cons)
  have sh: "pool_shape own amax ?p" using Suc.prems(1) by (simp add: pool_shape_def)
  obtain m' h where r: "build_from i (?m, ?p) = Some (m', ?p\<lparr>po_free_head := h\<rparr>)"
    "chain m' h (map (slot ?p) [0..<po_block_count ?p])" "agree ?m m' (- own)"
    using Suc.IH [OF sh _ ch] i by auto
  have "agree m ?m (- own)" using r8 [of ?x] X(4) by (intro agree_store_ptr) blast
  then have "agree m m' (- own)" using r(3) by (rule agree_trans)
  moreover have "build_from (Suc i) (m, p) = build_from i (?m, ?p)"
    using S(1,7) by (simp add: tda_byte_offset_mut_def push_free_def slot_def)
  ultimately show ?case using r(1,2) by (auto simp: slot)
qed

lemma build_free_list_spec:
  assumes sh: "pool_shape own amax p" and used: "po_used p = 0"
  shows "\<exists>m' h. build_free_list (m, p) = Some (m', p\<lparr>po_free_head := h\<rparr>) \<and>
    chain m' h (map (slot p) [0..<po_block_count p]) \<and>
    pool_ok own amax (m', p\<lparr>po_free_head := h\<rparr>) {} \<and> agree m m' (- own)"
proof -
  let ?p = "p\<lparr>po_free_head := 0\<rparr>"
  have slot: "slot ?p = slot p" "slot (p\<lparr>po_free_head := h\<rparr>) = slot p" for h
    by (auto simp: slot_def)
  have "pool_shape own amax ?p" using sh by (simp add: pool_shape_def)
  from build_from_spec [OF this, of "po_block_count p" m]
  obtain m' h where r: "build_from (po_block_count p) (m, ?p) = Some (m', p\<lparr>po_free_head := h\<rparr>)"
    "chain m' h (map (slot p) [0..<po_block_count p])" "agree m m' (- own)"
    by (auto simp: slot)
  have "inj_on (slot p) {0..<po_block_count p}"
    using pool_shapeD(7) [OF sh] by (auto simp: inj_on_def slot_def)
  then have "distinct (map (slot p) [0..<po_block_count p])" by (simp add: distinct_map)
  moreover have "pool_shape own amax (p\<lparr>po_free_head := h\<rparr>)" using sh by (simp add: pool_shape_def)
  ultimately have "pool_ok own amax (m', p\<lparr>po_free_head := h\<rparr>) {}"
    using r(2) used by (intro pool_okI [where fl = "map (slot p) [0..<po_block_count p]"])
      (auto simp: wf_blocks_def slots_def slot)
  then show ?thesis using r by (auto simp: build_free_list_def)
qed

lemma pool_fill_spec:
  assumes "tda_layout_is_type block" "8 \<le> lsize block" "data \<noteq> 0" "lalign block dvd data"
    "0 < cnt" "data + lsize block * cnt \<le> SIZE_MAX"
  shows "\<exists>m' p. pool_fill parent data block cnt m = Some (m', p) \<and>
    po_data p = data \<and> po_block_size p = lsize block \<and> po_block_count p = cnt \<and>
    po_parent p = parent \<and> po_block_align p = lalign block \<and>
    chain m' (po_free_head p) (map (slot p) [0..<cnt]) \<and>
    pool_ok (region data (lsize block * cnt)) (lalign block) (m', p) {} \<and>
    agree m m' (- region data (lsize block * cnt))"
proof -
  let ?p = "pool_null\<lparr>po_parent := parent, po_data := data,
       po_block_size := lsize block, po_block_align := lalign block, po_block_count := cnt\<rparr>"
  have "lalign block dvd lsize block" "tda_layout_is_align (lalign block)"
    using is_type_gt0 [OF assms(1)] assms(1) by (simp_all add: tda_layout_is_type_def)
  then have sh: "pool_shape (region data (lsize block * cnt)) (lalign block) ?p" and u: "po_used ?p = 0"
    using assms by (simp_all add: pool_shape_def pool_null_def)
  have slot: "slot (q\<lparr>po_free_head := h\<rparr>) = slot q" for q :: "'a pool" and h
    by (rule ext) (simp add: slot_def)
  show ?thesis
    using build_free_list_spec [OF sh u, of m] assms(1-4) \<open>tda_layout_is_align (lalign block)\<close>
    by (auto simp: pool_fill_def align_meets_iff slot)
qed

text \<open>The layout a request is raised to: it holds a link, and the blocks tile.\<close>

definition raised :: "layout \<Rightarrow> layout" where
  "raised b = (let a = max (lalign b) 8
     in \<lparr>lsize = round_up (max (lsize b) 8) a, lalign = a\<rparr>)"

lemma raised_type:
  assumes "tda_layout_is_align (lalign b)"
  shows "tda_layout_is_type (raised b)" "8 \<le> lsize (raised b)" "lsize b \<le> lsize (raised b)"
    "lalign b \<le> lalign (raised b)" "lalign (raised b) \<le> max (lalign b) 8"
proof -
  have a: "tda_layout_is_align (max (lalign b) 8)" using assms is_align_8 by (rule is_align_max)
  then have gt: "max (lalign b) 8 > 0" by simp
  note B = round_up_bounds [OF gt, of "max (lsize b) 8"]
  show "8 \<le> lsize (raised b)" "lsize b \<le> lsize (raised b)"
    using B(1) by (simp_all add: raised_def Let_def)
  then show "tda_layout_is_type (raised b)"
    using a B(3) by (auto simp: tda_layout_is_type_def raised_def Let_def)
qed (simp_all add: raised_def Let_def)

lemma ckd_block_eq:
  assumes "tda_layout_is_align (lalign b)" "lalign b \<le> SIZE_MAX" "lsize b \<le> SIZE_MAX"
  shows "ckd_block b =
    Some (if max (lsize b) 8 \<le> SIZE_MAX - (max (lalign b) 8 - 1) then Some (raised b) else None)"
proof -
  let ?a = "max (lalign b) 8" and ?s = "max (lsize b) 8"
  have a: "tda_layout_is_align ?a" using assms(1) is_align_8 by (rule is_align_max)
  have e: "(if lalign b > FREE_ALIGN then lalign b else FREE_ALIGN) = ?a"
    "(if lsize b > FREE_SIZE then lsize b else FREE_SIZE) = ?s"
    by (simp_all add: FREE_ALIGN_def FREE_SIZE_def max_def)
  have "?a \<le> SIZE_MAX" using assms(2) by (simp add: SIZE_MAX_def)
  then have "tda_align_ckd_up ?s ?a =
      Some (if ?s \<le> SIZE_MAX - (?a - 1) then Some (round_up ?s ?a) else None)"
    using a align_up_eq [OF a, of ?s] by (simp add: tda_align_ckd_up_def round_up_def not_less)
  then show ?thesis unfolding ckd_block_def e by (simp add: Let_def raised_def)
qed

lemma raised_overflow:
  assumes "tda_layout_is_align (lalign b)" "\<not> max (lsize b) 8 \<le> SIZE_MAX - (max (lalign b) 8 - 1)"
    and "0 < buf"
  shows "SIZE_MAX < round_up buf (lalign (raised b)) + lsize (raised b)"
proof -
  define a s where as: "a = max (lalign b) 8" "s = max (lsize b) 8"
  have a: "a > 0" by (simp add: as)
  note R = round_up_bounds [OF a]
  have "a \<le> round_up buf a" using R(1) [of buf] R(3) [of buf] assms(3) by (intro dvd_imp_le) auto
  moreover have "s \<le> round_up s a" by (rule R)
  moreover have "SIZE_MAX < s + (a - 1)" using assms(2) unfolding as by linarith
  ultimately have "SIZE_MAX < round_up buf a + round_up s a" by linarith
  then show ?thesis by (simp add: raised_def Let_def as)
qed

lemma pool_init_buf_eq:
  assumes "buf \<noteq> 0" "0 < cap" "buf + cap \<le> SIZE_MAX" "0 < lsize block"
    and al: "tda_layout_is_align (lalign block)" "lalign block \<le> SIZE_MAX" "lsize block \<le> SIZE_MAX"
    and b: "b = raised block" and start: "start = round_up buf (lalign b)"
    and cnt: "cnt = (buf + cap - start) div lsize b"
  shows "if start + lsize b \<le> buf + cap
    then \<exists>(p :: 'a pool) m'. tda_pool_init_buf buf cap block m = Some (Inr p, m') \<and>
      po_parent p = None \<and>
      po_data p = start \<and> po_block_size p = lsize b \<and> po_block_count p = cnt \<and> 0 < cnt \<and>
      chain m' (po_free_head p) (map (slot p) [0..<cnt]) \<and>
      pool_ok (region start (lsize b * cnt)) (lalign b) (m', p) {} \<and>
      agree m m' (- region start (lsize b * cnt))
    else (tda_pool_init_buf buf cap block m :: ((tda_status + 'a pool) \<times> mem) option) =
      Some (Inl TDA_STATUS_ERR_NO_MEM, m)"
proof (cases "max (lsize block) 8 \<le> SIZE_MAX - (max (lalign block) 8 - 1)")
  case False
  then have "ckd_block block = Some None" using ckd_block_eq [OF al] by (simp only: if_False)
  then show ?thesis
    using raised_overflow [OF al(1) False, of buf] assms by (simp add: tda_pool_init_buf_def)
next
  case True
  note T = raised_type [OF al(1), folded b]
  have ba: "tda_layout_is_align (lalign b)" using T(1) by (simp add: tda_layout_is_type_def)
  have bm: "lalign b \<le> SIZE_MAX" using T(5) al(2) by (simp add: SIZE_MAX_def)
  have gt: "0 < lalign b" using ba by (rule is_align_gt0)
  have ge: "buf \<le> start" "lalign b dvd start" using round_up_bounds [OF gt, of buf] by (simp_all add: start)
  have pad: "tda_align_pad buf (lalign b) = Some (start - buf)"
    using align_pad_eq [OF assms(1) ba bm] by (simp add: start)
  have no: "(start - buf > cap \<or> cap - (start - buf) < lsize b) \<longleftrightarrow> \<not> start + lsize b \<le> buf + cap"
    using ge T(2) by auto
  have st: "tda_byte_offset_mut buf 1 (start - buf) = Some start"
    using ge assms(1) by (simp add: tda_byte_offset_mut_def)
  have c: "(cap - (start - buf)) div lsize b = cnt" using ge by (simp add: cnt add.commute)
  have run: "(tda_pool_init_buf buf cap block m :: ((tda_status + 'a pool) \<times> mem) option) =
    (if start + lsize b \<le> buf + cap
     then do { (m, pool) \<leftarrow> pool_fill None start b cnt m; Some (Inr pool, m) }
     else Some (Inl TDA_STATUS_ERR_NO_MEM, m))"
    using assms(1-4) al(1) True pad st unfolding tda_pool_init_buf_def ckd_block_eq [OF al]
    by (auto simp: no c simp flip: b)
  show ?thesis
  proof (cases "start + lsize b \<le> buf + cap")
    case fits: True
    have "lsize b * cnt \<le> buf + cap - start" unfolding cnt by simp
    then have le: "start + lsize b * cnt \<le> SIZE_MAX" using assms(3) fits by linarith
    have "0 < cnt" using fits T(2) by (simp add: cnt div_greater_zero_iff)
    with pool_fill_spec [OF T(1,2) _ ge(2) this le, of "None :: 'a vtable option" m] ge(1) assms(1) run fits
    show ?thesis by auto
  qed (simp add: run)
qed

lemma card_used:
  assumes "pool_ok own amax (m, p) L"
  shows "po_free_head p = 0 \<longleftrightarrow> card (fst ` L) = po_block_count p"
proof -
  obtain fl where sh: "pool_shape own amax p" and ch: "chain m (po_free_head p) fl"
    and dis: "set fl \<inter> fst ` L = {}" and un: "set fl \<union> fst ` L = slots p"
    using assms by (rule pool_okE)
  have fin: "finite (fst ` L)" using un finite_slots [of p] by (metis finite_Un)
  have "card (set fl) + card (fst ` L) = po_block_count p"
    using card_Un_disjoint [OF _ fin dis] un card_slots [OF sh] by simp
  moreover have "po_free_head p = 0 \<longleftrightarrow> fl = []" using ch by (cases fl) auto
  ultimately show ?thesis by (cases fl) (auto simp: card_gt_0_iff)
qed

lemma card_blocks: "wf_blocks own amax L \<Longrightarrow> card (fst ` L) = card L"
proof (rule card_image, rule inj_onI)
  fix b b' assume wf: "wf_blocks own amax L" and b: "b \<in> L" "b' \<in> L" "fst b = fst b'"
  show "b = b'"
  proof (rule ccontr)
    assume "b \<noteq> b'"
    then have "b' \<in> L - {(fst b, snd b)}" using b by (metis Diff_iff empty_iff insert_iff prod.collapse)
    then have "fst b \<in> fst ` (L - {(fst b, snd b)})" using b(3) by (rule rev_image_eqI)
    then show False using fst_remove [OF wf, of "fst b" "snd b"] b(1) by simp
  qed
qed

lemma pool_reset_ok:
  assumes ok: "pool_ok own amax (m, p) L"
  shows "\<exists>m' p'. tda_pool_reset (m, p) = Some (m', p') \<and> po_used p' = 0 \<and>
    pool_ok own amax (m', p') {} \<and> agree m m' (- own) \<and>
    chain m' (po_free_head p') (map (slot p) [0..<po_block_count p])"
proof -
  obtain fl where "pool_shape own amax p" using ok by (rule pool_okE)
  then have sh: "pool_shape own amax (p\<lparr>po_used := 0\<rparr>)" by (simp add: pool_shape_def)
  have "slot (p\<lparr>po_used := 0\<rparr>) = slot p" by (rule ext) (simp add: slot_def)
  then show ?thesis
    using build_free_list_spec [OF sh, of m] pool_ok_assert [OF ok]
    by (auto simp: tda_pool_reset_def)
qed

section \<open>Histories\<close>

text \<open>What is done to a pool: the calls of its clients, and a reset, after which no block is out.\<close>

inductive pool_step :: "nat \<Rightarrow> 'p pool world \<times> block set \<Rightarrow> 'p pool world \<times> block set \<Rightarrow> bool" for amax where
  pool_step_client: "client_step pool_vtable amax (w, L) (w', L') \<Longrightarrow> pool_step amax (w, L) (w', L')"
| pool_step_reset: "tda_pool_reset w = Some w' \<Longrightarrow> pool_step amax (w, L) (w', {})"

lemma pool_step_ok:
  "pool_step amax s t \<Longrightarrow> pool_ok own amax (fst s) (snd s) \<Longrightarrow>
    pool_ok own amax (fst t) (snd t) \<and> agree (fst (fst s)) (fst (fst t)) (- own)"
proof (induction rule: pool_step.induct)
  case (pool_step_client w L w' L')
  then show ?case using pool.client_step_ok [OF pool_step_client(1), of own] by simp
next
  case (pool_step_reset w w' L)
  then show ?case using pool_reset_ok [of own amax "fst w" "snd w" L] by auto
qed

lemma pool_steps_ok:
  assumes "(pool_step amax)\<^sup>*\<^sup>* s t" "pool_ok own amax (fst s) (snd s)"
  shows "pool_ok own amax (fst t) (snd t) \<and> agree (fst (fst s)) (fst (fst t)) (- own)"
  using assms
proof (induction rule: rtranclp_induct)
  case (step t u)
  then show ?case using pool_step_ok [OF step(2), of own] by (blast intro: agree_trans)
qed simp

section \<open>Properties\<close>

lemma pool_serves:
  assumes ok: "pool_ok own amax (m, p) L" and l: "request amax l"
  shows "\<exists>q w'. tda_alloc pool_vtable l (m, p) = Some (q, w') \<and>
    (q \<noteq> 0 \<longleftrightarrow> lsize l \<le> po_block_size p \<and> card L < po_block_count p) \<and>
    (q \<noteq> 0 \<longrightarrow> q \<in> slots p - fst ` L \<and> po_used (snd w') = card L + 1 \<and>
       pool_ok own amax w' (insert (q, l) L))"
proof -
  obtain fl where sh: "pool_shape own amax p" and wf: "wf_blocks own amax L"
    and us: "po_used p = card (fst ` L)" using ok by (rule pool_okE)
  have "card L \<le> po_block_count p"
    using pool_ok_assert [OF ok] us card_blocks [OF wf] by (simp add: assert_pool_def)
  then have full: "po_free_head p \<noteq> 0 \<longleftrightarrow> card L < po_block_count p"
    using card_used [OF ok] card_blocks [OF wf] by auto
  obtain q w' where al: "tda_alloc pool_vtable l (m, p) = Some (q, w')"
    and r: "if q = 0 then pool_ok own amax w' L
      else (q, l) \<notin> L \<and> region q (lsize l) \<inter> blocks L = {} \<and> pool_ok own amax w' (insert (q, l) L)"
    using pool.tda_alloc_spec [OF ok l] by blast
  from al have h: "pool_alloc l (m, p) = Some (q, w')"
    using requestD [OF l] by (auto simp: tda_alloc_def bind_Some_iff)
  then have q: "q \<noteq> 0 \<longleftrightarrow> lsize l \<le> po_block_size p \<and> card L < po_block_count p"
    unfolding full [symmetric] by (auto simp: pool_alloc_def Let_def bind_Some_iff split: if_split_asm)
  have "q \<in> slots p - fst ` L \<and> po_used (snd w') = card L + 1 \<and> pool_ok own amax w' (insert (q, l) L)"
    if nz: "q \<noteq> 0"
  proof -
    have ok': "pool_ok own amax w' (insert (q, l) L)" using r nz by simp
    obtain p' where w': "w' = (m, p')" "slots p' = slots p" "po_used p' = po_used p + 1"
      using h nz by (auto simp: pool_alloc_def Let_def bind_Some_iff slots_def slot_def split: if_split_asm)
    obtain fl' where "\<And>q' l'. (q', l') \<in> insert (q, l) L \<Longrightarrow> q' \<in> slots p' \<and> lsize l' \<le> po_block_size p'"
      and wf': "wf_blocks own amax (insert (q, l) L)" and us': "po_used p' = card (fst ` insert (q, l) L)"
      using ok' [unfolded w'(1)] by (rule pool_okE) blast
    then have "q \<in> slots p" using w'(2) by blast
    moreover have "q \<notin> fst ` L"
    proof
      assume "q \<in> fst ` L"
      then have "insert q (fst ` L) = fst ` L" by (rule insert_absorb)
      then show False using us us' w'(3) by simp
    qed
    ultimately show ?thesis using ok' w' us card_blocks [OF wf] by simp
  qed
  then show ?thesis using al q by blast
qed

text \<open>
  C10: after any history of calls on a pool over a buffer, the blocks outstanding lie in the
  buffer, aligned and apart, their number is the pool's count, no byte outside the buffer has
  changed and each of them can be given back.
\<close>

theorem pool_history_safe:
  assumes "tda_pool_init_buf buf cap block m = Some (Inr p, m0)" "buf + cap \<le> SIZE_MAX"
    and "lalign block \<le> SIZE_MAX" "lsize block \<le> SIZE_MAX"
    and run: "(pool_step (po_block_align p))\<^sup>*\<^sup>* ((m0, p), {}) (w, L)"
  shows "wf_blocks (region buf cap) (po_block_align p) L \<and> card L = po_used (snd w) \<and>
    card L \<le> po_block_count (snd w) \<and> agree m0 (fst w) (- region buf cap) \<and>
    (\<forall>b \<in> L. tda_dealloc pool_vtable (fst b) (snd b) w \<noteq> None) \<and>
    (\<forall>l. request (po_block_align p) l \<longrightarrow> (\<exists>q w'. tda_alloc pool_vtable l w = Some (q, w') \<and>
      (q \<noteq> 0 \<longleftrightarrow> lsize l \<le> po_block_size (snd w) \<and> card L < po_block_count (snd w)))) \<and>
    (\<exists>w'. tda_pool_reset w = Some w' \<and> po_used (snd w') = 0)"
proof -
  let ?b = "raised block" let ?s = "round_up buf (lalign ?b)"
  let ?n = "(buf + cap - ?s) div lsize ?b"
  have pre: "buf \<noteq> 0" "0 < cap" "0 < lsize block" "tda_layout_is_align (lalign block)"
    using assms(1) by (auto simp: tda_pool_init_buf_def)
  note I = pool_init_buf_eq [OF pre(1,2) assms(2) pre(3,4) assms(3,4) refl refl refl, of m,
      where ?'a = 'a]
  have fits: "?s + lsize ?b \<le> buf + cap" using I assms(1) by (auto split: if_split_asm)
  let ?own = "region ?s (lsize ?b * ?n)"
  obtain q m1 where "tda_pool_init_buf buf cap block m = Some (Inr (q :: 'a pool), m1)"
    and "pool_ok ?own (lalign ?b) (m1, q) {}"
    using I fits by auto
  then have p: "pool_ok ?own (lalign ?b) (m0, p) {}" using assms(1) by simp
  then have pa: "po_block_align p = lalign ?b" by (simp add: pool_ok_def pool_shape_def)
  have ge: "buf \<le> ?s" by (rule round_up_bounds) (simp add: raised_def Let_def)
  have "lsize ?b * ?n \<le> buf + cap - ?s" by simp
  then have "?s + lsize ?b * ?n \<le> buf + cap" using fits by linarith
  then have sub: "?own \<subseteq> region buf cap" using ge by auto
  from pool_steps_ok [OF run [unfolded pa], of ?own] p
  have ok: "pool_ok ?own (lalign ?b) w L" and ag: "agree m0 (fst w) (- ?own)" by simp_all
  obtain m' p' where w: "w = (m', p')" by force
  obtain fl where wf: "wf_blocks ?own (lalign ?b) L" and us: "po_used p' = card (fst ` L)"
    using ok [unfolded w] by (rule pool_okE)
  have "card (fst ` L) \<le> po_block_count p'"
    using pool_ok_assert [OF ok [unfolded w]] us by (simp add: assert_pool_def)
  moreover have "wf_blocks (region buf cap) (lalign ?b) L"
    using wf sub unfolding wf_blocks_def by blast
  moreover have "agree m0 (fst w) (- region buf cap)" using ag sub by (auto intro: agree_subset)
  moreover have "tda_dealloc pool_vtable q l w \<noteq> None" if "(q, l) \<in> L" for q l
    using pool.tda_dealloc_spec [OF ok that] by auto
  moreover have "\<exists>q w'. tda_alloc pool_vtable l w = Some (q, w') \<and>
      (q \<noteq> 0 \<longleftrightarrow> lsize l \<le> po_block_size (snd w) \<and> card L < po_block_count (snd w))" if "request (po_block_align p) l" for l
    using pool_serves [OF ok [unfolded w] that [unfolded pa]] by (auto simp: w)
  moreover have "\<exists>w'. tda_pool_reset w = Some w' \<and> po_used (snd w') = 0"
    using pool_reset_ok [OF ok [unfolded w]] by (auto simp: w)
  ultimately show ?thesis using us card_blocks [OF wf] by (simp add: w pa)
qed

theorem pool_history_safe_witness:
  "\<exists>(p :: unit pool) m q w1 w2. tda_pool_init_buf 4096 64 \<lparr>lsize = 16, lalign = 8\<rparr> (\<lambda>_. 0) = Some (Inr p, m) \<and>
    tda_alloc pool_vtable \<lparr>lsize = 16, lalign = 8\<rparr> (m, p) = Some (q, w1) \<and> q \<noteq> 0 \<and> po_used (snd w1) = 1 \<and>
    tda_pool_reset w1 = Some w2 \<and> po_used (snd w2) = 0 \<and> wf_blocks (region 4096 64) 8 {}"
proof -
  let ?l = "\<lparr>lsize = 16, lalign = 8\<rparr>"
  have rl: "raised ?l = ?l" by (simp add: raised_def round_up_def)
  obtain p :: "unit pool" and m where p: "tda_pool_init_buf 4096 64 ?l (\<lambda>_. 0) = Some (Inr p, m)"
    and pc: "po_block_size p = 16" "po_block_count p = 4" "pool_ok (region 4096 64) 8 (m, p) {}"
    using pool_init_buf_eq [of 4096 64 ?l ?l 4096 4 "\<lambda>_. 0", where ?'a = unit] rl
    by (auto simp: SIZE_MAX_def is_align_8 round_up_def)
  have al: "po_block_align p = 8" using pc(3) by (simp add: pool_ok_def pool_shape_def)
  have b: "(4096 :: nat) + 64 \<le> SIZE_MAX" "lalign ?l \<le> SIZE_MAX" "lsize ?l \<le> SIZE_MAX" by (simp_all add: SIZE_MAX_def)
  note P = pool_history_safe [OF p b, unfolded al]
  have rq: "request 8 ?l" by (simp add: request_def SIZE_MAX_def is_align_8)
  obtain q w1 where a: "tda_alloc pool_vtable ?l (m, p) = Some (q, w1)" "q \<noteq> 0"
    using P [OF rtranclp.rtrancl_refl] rq pc by auto
  have "pool_step 8 ((m, p), {}) (w1, {(q, ?l)})"
    using client_alloc [OF rq a(1), of "{}"] a(2) by (intro pool_step_client) simp
  note 1 = r_into_rtranclp [of "pool_step 8", OF this]
  obtain w2 where r: "tda_pool_reset w1 = Some w2" "po_used (snd w2) = 0" using P [OF 1] by auto
  have "po_used (snd w1) = 1" using P [OF 1] by simp
  moreover have "wf_blocks (region 4096 64) 8 {}"
    using P [OF rtranclp.rtrancl_into_rtrancl [OF 1 pool_step_reset [OF r(1)]]] by blast
  ultimately show ?thesis using p a r by blast
qed

end
