(* ===== verification/Arena.thy ===== *)
theory Arena
  imports Alloc Status
begin

text \<open>
  \<open>alloc/arena.h\<close> and \<open>alloc/arena.c\<close>: a bump allocator over one block, freed all at once or back
  to a mark. The state is the \<open>tda_Arena\<close> struct; the allocator view is the hook table
  \<open>arena_vtable\<close> with that struct as its context. A parent is the hook table \<open>init_cap\<close> took, or
  \<^term>\<open>None\<close> for an arena over the caller's buffer.
\<close>

section \<open>State\<close>

record 'p arena =
  ar_parent :: "'p vtable option"
  ar_data :: addr
  ar_cap :: nat
  ar_offset :: nat
  ar_floor :: nat

record arena_mark =
  mk_offset :: nat
  mk_floor :: nat

record arena_stats =
  as_cap :: nat
  as_used :: nat
  as_free :: nat

definition arena_null :: "'p arena" where
  "arena_null = \<lparr>ar_parent = None, ar_data = 0, ar_cap = 0, ar_offset = 0, ar_floor = 0\<rparr>"

definition assert_arena :: "'p arena \<Rightarrow> bool" where
  "assert_arena a \<longleftrightarrow> ar_data a \<noteq> 0 \<and> ar_cap a > 0 \<and> ar_floor a \<le> ar_offset a \<and> ar_offset a \<le> ar_cap a"

section \<open>Internals\<close>

definition arena_block_layout :: "nat \<Rightarrow> layout" where
  "arena_block_layout cap = \<lparr>lsize = cap, lalign = 1\<rparr>"

definition arena_fill :: "'p vtable option \<Rightarrow> addr \<Rightarrow> nat \<Rightarrow> 'p arena option" where
  "arena_fill parent data cap = do {
     chk (data \<noteq> 0);
     chk (cap > 0);
     Some (arena_null\<lparr>ar_parent := parent, ar_data := data, ar_cap := cap\<rparr>)
   }"

definition arena_block_start :: "'p arena \<Rightarrow> addr \<Rightarrow> nat option" where
  "arena_block_start self ptr = do {
     d \<leftarrow> tda_byte_diff ptr (ar_data self);
     Some (nat (d mod 2 ^ 64))
   }"

definition arena_is_last_block :: "'p arena \<Rightarrow> addr \<Rightarrow> nat \<Rightarrow> bool option" where
  "arena_is_last_block self ptr n = do {
     start \<leftarrow> arena_block_start self ptr;
     Some (wadd start n = ar_offset self)
   }"

definition arena_owns_block :: "'p arena \<Rightarrow> addr \<Rightarrow> nat \<Rightarrow> bool" where
  "arena_owns_block self ptr n \<longleftrightarrow>
     ptr \<ge> ar_data self \<and> ptr - ar_data self \<le> ar_offset self \<and>
     n \<le> ar_offset self - (ptr - ar_data self)"

text \<open>\<^term>\<open>None\<close> where the C function answers false: the block would pass the capacity.\<close>

definition arena_block_end :: "'p arena \<Rightarrow> nat \<Rightarrow> nat \<Rightarrow> nat option" where
  "arena_block_end self start n =
     (case ckd_add start n of
        None \<Rightarrow> None
      | Some e \<Rightarrow> if e \<le> ar_cap self then Some e else None)"

section \<open>Hooks\<close>

definition arena_alloc :: "layout \<Rightarrow> 'p arena world \<Rightarrow> (addr \<times> 'p arena world) option" where
  "arena_alloc layout w = (let m = fst w; self = snd w in do {
     chk (assert_arena self);
     chk (lsize layout > 0);
     cursor \<leftarrow> tda_byte_offset (ar_data self) 1 (ar_offset self);
     pad \<leftarrow> tda_align_pad cursor (lalign layout);
     case ckd_add (ar_offset self) pad of
       None \<Rightarrow> Some (0, w)
     | Some start \<Rightarrow>
         (case arena_block_end self start (lsize layout) of
            None \<Rightarrow> Some (0, w)
          | Some e \<Rightarrow> do {
              ptr \<leftarrow> tda_byte_offset_mut (ar_data self) 1 start;
              Some (ptr, (m, self\<lparr>ar_offset := e\<rparr>))
            })
   })"

definition arena_resize ::
  "addr \<Rightarrow> layout \<Rightarrow> nat \<Rightarrow> 'p arena world \<Rightarrow> (bool \<times> 'p arena world) option" where
  "arena_resize ptr old new_size w = (let m = fst w; self = snd w in do {
     chk (assert_arena self);
     chk (ptr \<noteq> 0);
     chk (lsize old > 0);
     chk (new_size > 0);
     chk (arena_owns_block self ptr (lsize old));
     start \<leftarrow> arena_block_start self ptr;
     last \<leftarrow> arena_is_last_block self ptr (lsize old);
     if last \<and> start \<ge> ar_floor self then
       (case arena_block_end self start new_size of
          None \<Rightarrow> Some (False, w)
        | Some e \<Rightarrow> Some (True, (m, self\<lparr>ar_offset := e\<rparr>)))
     else Some (new_size \<le> lsize old, w)
   })"

definition arena_dealloc :: "addr \<Rightarrow> layout \<Rightarrow> 'p arena world \<Rightarrow> 'p arena world option" where
  "arena_dealloc ptr l w = do {
     chk (assert_arena (snd w));
     chk (ptr \<noteq> 0);
     Some w
   }"

definition arena_vtable :: "'p arena vtable" where
  "arena_vtable = \<lparr>vt_alloc = arena_alloc, vt_alloc_zeroed = None, vt_resize = Some arena_resize,
     vt_remap = None, vt_dealloc = arena_dealloc\<rparr>"

section \<open>Lifetime, marks, stats\<close>

definition tda_arena_init_cap ::
  "nat \<Rightarrow> 'p vtable \<Rightarrow> 'p world \<Rightarrow> ((tda_status + 'p arena) \<times> 'p world) option" where
  "tda_arena_init_cap cap parent w = do {
     chk (cap > 0);
     (data, w) \<leftarrow> tda_alloc parent (arena_block_layout cap) w;
     if data = 0 then Some (Inl TDA_STATUS_ERR_NO_MEM, w)
     else do { a \<leftarrow> arena_fill (Some parent) data cap; Some (Inr a, w) }
   }"

definition tda_arena_init_buf :: "addr \<Rightarrow> nat \<Rightarrow> 'p arena option" where
  "tda_arena_init_buf buf cap = do {
     chk (buf \<noteq> 0);
     chk (cap > 0);
     arena_fill None buf cap
   }"

definition tda_arena_deinit :: "'p arena \<Rightarrow> 'p world \<Rightarrow> ('p arena \<times> 'p world) option" where
  "tda_arena_deinit self w =
     (if ar_data self = 0 then Some (self, w)
      else do {
        chk (assert_arena self);
        w \<leftarrow> (case ar_parent self of
                None \<Rightarrow> Some w
              | Some vt \<Rightarrow> tda_dealloc vt (ar_data self) (arena_block_layout (ar_cap self)) w);
        Some (arena_null, w)
      })"

definition tda_arena_reset :: "'p arena \<Rightarrow> 'p arena option" where
  "tda_arena_reset self = do {
     chk (assert_arena self);
     Some (self\<lparr>ar_offset := 0, ar_floor := 0\<rparr>)
   }"

definition tda_arena_mark :: "'p arena \<Rightarrow> (arena_mark \<times> 'p arena) option" where
  "tda_arena_mark self = do {
     chk (assert_arena self);
     Some (\<lparr>mk_offset = ar_offset self, mk_floor = ar_floor self\<rparr>,
           self\<lparr>ar_floor := ar_offset self\<rparr>)
   }"

definition tda_arena_rewind :: "'p arena \<Rightarrow> arena_mark \<Rightarrow> 'p arena option" where
  "tda_arena_rewind self mark = do {
     chk (assert_arena self);
     chk (mk_offset mark \<le> ar_offset self);
     chk (mk_floor mark \<le> mk_offset mark);
     Some (self\<lparr>ar_offset := mk_offset mark, ar_floor := mk_floor mark\<rparr>)
   }"

definition tda_arena_stats :: "'p arena \<Rightarrow> arena_stats option" where
  "tda_arena_stats self = do {
     chk (assert_arena self);
     Some \<lparr>as_cap = ar_cap self, as_used = ar_offset self, as_free = ar_cap self - ar_offset self\<rparr>
   }"

section \<open>The invariant\<close>

text \<open>
  The marks taken and not yet rewound form a stack: the arena's floor is the offset of the last
  one, and each mark remembers the floor before it. Every block that is out lies wholly below or
  wholly above the offset of every mark in the stack, which is what a rewind relies on.
\<close>

fun mark_chain :: "nat \<Rightarrow> arena_mark list \<Rightarrow> bool" where
  "mark_chain f [] \<longleftrightarrow> f = 0"
| "mark_chain f (k # ks) \<longleftrightarrow> mk_offset k = f \<and> mk_floor k \<le> mk_offset k \<and> mark_chain (mk_floor k) ks"

definition splits :: "addr \<Rightarrow> block \<Rightarrow> bool" where
  "splits at b \<longleftrightarrow> fst b + lsize (snd b) \<le> at \<or> at \<le> fst b"

definition arena_ok :: "addr set \<Rightarrow> arena_mark list \<Rightarrow> 'p arena world \<Rightarrow> block set \<Rightarrow> bool" where
  "arena_ok own ks w L \<longleftrightarrow> (let a = snd w in
     assert_arena a \<and> own = region (ar_data a) (ar_cap a) \<and> ar_data a + ar_cap a \<le> SIZE_MAX \<and>
     wf_blocks own SIZE_MAX L \<and> blocks L \<subseteq> region (ar_data a) (ar_offset a) \<and>
     mark_chain (ar_floor a) ks \<and>
     (\<forall>k \<in> set ks. \<forall>b \<in> L. splits (ar_data a + mk_offset k) b))"

section \<open>What the hooks do\<close>

lemma mark_chain_le: "mark_chain f ks \<Longrightarrow> k \<in> set ks \<Longrightarrow> mk_offset k \<le> f"
  by (induction ks arbitrary: f) fastforce+

lemma requestD_align: "request amax l \<Longrightarrow> lalign l \<le> SIZE_MAX"
  by (simp add: request_def)

lemma arena_alloc_eq:
  assumes a: "assert_arena a" "ar_data a + ar_cap a \<le> SIZE_MAX" and l: "request amax l"
  shows "arena_alloc l (m, a) =
    (let p = round_up (ar_data a + ar_offset a) (lalign l)
     in if p + lsize l \<le> ar_data a + ar_cap a
        then Some (p, (m, a\<lparr>ar_offset := p + lsize l - ar_data a\<rparr>))
        else Some (0, (m, a)))"
proof -
  note A = a(1) [unfolded assert_arena_def]
  let ?c = "ar_data a + ar_offset a"
  let ?p = "round_up ?c (lalign l)"
  have "lalign l > 0" using requestD(3) [OF l] by (rule is_align_gt0)
  then have ge: "?c \<le> ?p" by (rule round_up_bounds)
  have cur: "tda_byte_offset (ar_data a) 1 (ar_offset a) = Some ?c"
    using A by (simp add: tda_byte_offset_def)
  have pad: "tda_align_pad ?c (lalign l) = Some (?p - ?c)"
    using A requestD(3) [OF l] requestD_align [OF l] by (intro align_pad_eq) simp_all
  have st: "ar_offset a + (?p - ?c) = ?p - ar_data a" using ge by simp
  have eq: "ar_data a + (?p - ar_data a) = ?p" using ge by simp
  have "?p - ar_data a \<le> SIZE_MAX" if "?p + lsize l \<le> ar_data a + ar_cap a"
    using that a(2) by simp
  moreover have "?p - ar_data a + lsize l \<le> SIZE_MAX" if "?p + lsize l \<le> ar_data a + ar_cap a"
    using that a(2) ge by simp
  moreover have "?p - ar_data a + lsize l \<le> ar_cap a \<longleftrightarrow> ?p + lsize l \<le> ar_data a + ar_cap a"
    using ge by auto
  moreover have "?p - ar_data a + lsize l = ?p + lsize l - ar_data a" using ge by simp
  ultimately show ?thesis
    using a(1) A requestD [OF l] cur pad st eq
    by (auto simp: arena_alloc_def Let_def ckd_add_def arena_block_end_def tda_byte_offset_mut_def)
qed

lemma arena_block_start_eq:
  "ar_data a \<noteq> 0 \<Longrightarrow> p \<noteq> 0 \<Longrightarrow> ar_data a \<le> p \<Longrightarrow> p \<le> SIZE_MAX \<Longrightarrow>
   arena_block_start a p = Some (p - ar_data a)"
proof -
  assume a: "ar_data a \<noteq> 0" "p \<noteq> 0" "ar_data a \<le> p" "p \<le> SIZE_MAX"
  then have "int p - int (ar_data a) = int (p - ar_data a)" by simp
  moreover have "int (p - ar_data a) mod 2 ^ 64 = int (p - ar_data a)"
    using a by (intro mod_pos_pos_trivial) (auto simp: SIZE_MAX_def)
  ultimately show ?thesis using a by (simp add: arena_block_start_def tda_byte_diff_def)
qed

lemma arena_resize_eq:
  assumes a: "assert_arena a" "ar_data a + ar_cap a \<le> SIZE_MAX"
    and p: "ar_data a \<le> p" "p + lsize old \<le> ar_data a + ar_offset a" "lsize old > 0" "n > 0"
  shows "arena_resize p old n (m, a) =
    (if p + lsize old = ar_data a + ar_offset a \<and> ar_data a + ar_floor a \<le> p
     then (if p + n \<le> ar_data a + ar_cap a
           then Some (True, (m, a\<lparr>ar_offset := p + n - ar_data a\<rparr>)) else Some (False, (m, a)))
     else Some (n \<le> lsize old, (m, a)))"
proof -
  note A = a(1) [unfolded assert_arena_def]
  have st: "arena_block_start a p = Some (p - ar_data a)"
    using A a p by (intro arena_block_start_eq) auto
  have owns: "arena_owns_block a p (lsize old)"
    using p by (auto simp: arena_owns_block_def)
  have last: "arena_is_last_block a p (lsize old) = Some (p + lsize old = ar_data a + ar_offset a)"
    using p A a by (auto simp: arena_is_last_block_def st)
  have "ar_floor a \<le> p - ar_data a \<longleftrightarrow> ar_data a + ar_floor a \<le> p" using p(1) by auto
  moreover have "arena_block_end a (p - ar_data a) n =
      (if p + n \<le> ar_data a + ar_cap a then Some (p + n - ar_data a) else None)"
    using p(1) a(2) by (auto simp: arena_block_end_def ckd_add_def)
  ultimately show ?thesis
    using a(1) A p st owns last by (auto simp: arena_resize_def)
qed

section \<open>The arena keeps the allocator's contract\<close>

lemma arena_okD:
  assumes "arena_ok own ks (m, a) L"
  shows "assert_arena a" "own = region (ar_data a) (ar_cap a)" "ar_data a + ar_cap a \<le> SIZE_MAX"
    "wf_blocks own SIZE_MAX L" "blocks L \<subseteq> region (ar_data a) (ar_offset a)"
    "mark_chain (ar_floor a) ks" "\<And>k b. k \<in> set ks \<Longrightarrow> b \<in> L \<Longrightarrow> splits (ar_data a + mk_offset k) b"
  using assms unfolding arena_ok_def Let_def by auto

lemma arena_ok_block:
  assumes "arena_ok own ks (m, a) L" "(p, l) \<in> L"
  shows "ar_data a \<le> p" "p + lsize l \<le> ar_data a + ar_offset a" "lsize l > 0"
proof -
  note ok = arena_okD [OF assms(1)]
  show l: "lsize l > 0" using wf_blockD(2) [OF ok(4) assms(2)] by (rule requestD)
  have sub: "region p (lsize l) \<subseteq> region (ar_data a) (ar_offset a)"
    using block_in_blocks [OF assms(2)] ok(5) by simp
  have "p \<in> region p (lsize l)" "p + (lsize l - 1) \<in> region p (lsize l)" using l by auto
  then have "p \<in> region (ar_data a) (ar_offset a)" "p + (lsize l - 1) \<in> region (ar_data a) (ar_offset a)"
    using sub by blast+
  then show "ar_data a \<le> p" "p + lsize l \<le> ar_data a + ar_offset a" using l by auto
qed

lemma arena_alloc_contract:
  assumes ok: "arena_ok own ks w L" and l: "request SIZE_MAX l"
  shows "\<exists>p w'. arena_alloc l w = Some (p, w') \<and> agree (fst w) (fst w') (blocks L \<union> - own) \<and>
    (if p = 0 then arena_ok own ks w' L
     else (p, l) \<notin> L \<and> region p (lsize l) \<inter> blocks L = {} \<and> arena_ok own ks w' (insert (p, l) L))"
proof -
  obtain m a where w: "w = (m, a)" by force
  note O = arena_okD [OF ok [unfolded w]]
  note A = O(1) [unfolded assert_arena_def]
  let ?c = "ar_data a + ar_offset a"
  let ?p = "round_up ?c (lalign l)"
  have al0: "lalign l > 0" using requestD(3) [OF l] by (rule is_align_gt0)
  have ge: "?c \<le> ?p" and dvd: "lalign l dvd ?p" using round_up_bounds [OF al0] by auto
  show ?thesis
  proof (cases "?p + lsize l \<le> ar_data a + ar_cap a")
    case False
    then show ?thesis
      using ok arena_alloc_eq [OF O(1,3) l, of m] by (simp add: w Let_def)
  next
    case True
    let ?a = "a\<lparr>ar_offset := ?p + lsize l - ar_data a\<rparr>"
    have dis: "region ?p (lsize l) \<inter> blocks L = {}" using O(5) ge by fastforce
    have notin: "(?p, l) \<notin> L"
      using arena_ok_block [OF ok [unfolded w], of ?p l] requestD(1) [OF l] ge by auto
    have "?p \<noteq> 0" using ge A by auto
    have "wf_blocks own SIZE_MAX (insert (?p, l) L)"
      using O(4) \<open>?p \<noteq> 0\<close> l dvd True ge dis O(2,3) by (intro wf_blocks_insert) auto
    moreover have "assert_arena ?a" using A True ge by (auto simp: assert_arena_def)
    moreover have "blocks (insert (?p, l) L) \<subseteq> region (ar_data a) (?p + lsize l - ar_data a)"
      using O(5) ge by fastforce
    moreover have "splits (ar_data a + mk_offset k) (?p, l)" if "k \<in> set ks" for k
      using mark_chain_le [OF O(6) that] A ge by (auto simp: splits_def)
    ultimately have "arena_ok own ks (m, ?a) (insert (?p, l) L)"
      using O by (simp add: arena_ok_def Let_def)
    then show ?thesis
      using True arena_alloc_eq [OF O(1,3) l, of m] \<open>?p \<noteq> 0\<close> dis notin by (simp add: w Let_def)
  qed
qed

lemma arena_resize_contract:
  assumes ok: "arena_ok own ks w L" and b: "(p, old) \<in> L" and r: "request SIZE_MAX (old\<lparr>lsize := n\<rparr>)"
  shows "\<exists>b w'. arena_resize p old n w = Some (b, w') \<and>
    (if b then agree (fst w) (fst w') (blocks (L - {(p, old)}) \<union> - own) \<and>
       bytes (fst w') p (min (lsize old) n) = bytes (fst w) p (min (lsize old) n) \<and>
       arena_ok own ks w' (insert (p, old\<lparr>lsize := n\<rparr>) (L - {(p, old)}))
     else agree (fst w) (fst w') (blocks L \<union> - own) \<and> arena_ok own ks w' L)"
proof -
  obtain m a where w: "w = (m, a)" by force
  note O = arena_okD [OF ok [unfolded w]]
  note A = O(1) [unfolded assert_arena_def]
  note B = arena_ok_block [OF ok [unfolded w] b]
  note W = wf_blockD [OF O(4) b]
  let ?new = "(p, old\<lparr>lsize := n\<rparr>)" and ?L = "L - {(p, old)}"
  have n: "n > 0" using r by (simp add: request_def)
  have dis: "region p (lsize old) \<inter> blocks ?L = {}" using wf_blocks_other [OF O(4) b] by simp
  have wfL: "wf_blocks own SIZE_MAX ?L" using O(4) by (rule wf_blocks_subset) blast
  have sub: "blocks ?L \<subseteq> region (ar_data a) (ar_offset a)"
    using O(5) blocks_mono [of ?L L] by blast
  have ok': "arena_ok own ks (m, a\<lparr>ar_offset := f\<rparr>) (insert ?new ?L)"
    if f: "ar_floor a \<le> f" "f \<le> ar_cap a" "p + n \<le> ar_data a + f"
      and disn: "region p n \<inter> blocks ?L = {}" and subn: "blocks ?L \<subseteq> region (ar_data a) f"
      and sp: "\<And>k. k \<in> set ks \<Longrightarrow> splits (ar_data a + mk_offset k) ?new" for f
  proof -
    have "region p n \<subseteq> region (ar_data a) (ar_cap a)" using f B(1) by auto
    then have "wf_blocks own SIZE_MAX (insert ?new ?L)"
      using wfL W(1,3) r disn f O(2,3) by (intro wf_blocks_insert) auto
    moreover have "blocks (insert ?new ?L) \<subseteq> region (ar_data a) f" using subn f B(1) by auto
    ultimately show ?thesis using O(1-3,6,7) f sp by (auto simp: arena_ok_def Let_def assert_arena_def)
  qed
  note eq = arena_resize_eq [OF O(1,3) B n, of m]
  show ?thesis
  proof (cases "p + lsize old = ar_data a + ar_offset a \<and> ar_data a + ar_floor a \<le> p")
    case True
    show ?thesis
    proof (cases "p + n \<le> ar_data a + ar_cap a")
      case fits: True
      have below: "blocks ?L \<subseteq> region (ar_data a) (p - ar_data a)"
      proof
        fix x assume x: "x \<in> blocks ?L"
        then have "x \<in> region (ar_data a) (ar_offset a)" "x \<notin> region p (lsize old)"
          using sub dis by blast+
        then show "x \<in> region (ar_data a) (p - ar_data a)" using True B(1) by auto
      qed
      have "splits (ar_data a + mk_offset k) ?new" if "k \<in> set ks" for k
        using mark_chain_le [OF O(6) that] True by (auto simp: splits_def)
      moreover have "region p n \<inter> blocks ?L = {}" using below by fastforce
      moreover have "blocks ?L \<subseteq> region (ar_data a) (p + n - ar_data a)" using below by fastforce
      ultimately have "arena_ok own ks (m, a\<lparr>ar_offset := p + n - ar_data a\<rparr>) (insert ?new ?L)"
        using True fits B(1) by (intro ok') auto
      then show ?thesis using eq True fits by (auto simp: w)
    qed (use eq True ok in \<open>auto simp: w ex_bool_eq\<close>)
  next
    case False
    show ?thesis
    proof (cases "n \<le> lsize old")
      case le: True
      have "splits (ar_data a + mk_offset k) ?new" if "k \<in> set ks" for k
        using O(7) [OF that b] le by (auto simp: splits_def)
      moreover have "region p n \<inter> blocks ?L = {}" using dis region_mono [OF le, of p] by blast
      ultimately have "arena_ok own ks (m, a\<lparr>ar_offset := ar_offset a\<rparr>) (insert ?new ?L)"
        using A B le sub by (intro ok') auto
      then show ?thesis using eq False le by (auto simp: w)
    qed (use eq False ok in \<open>auto simp: w ex_bool_eq\<close>)
  qed
qed

lemma arena_ok_subset:
  assumes ok: "arena_ok own ks w L" and sub: "L' \<subseteq> L"
  shows "arena_ok own ks w L'"
  using assms wf_blocks_subset [OF _ sub] blocks_mono [OF sub]
  by (auto simp: arena_ok_def Let_def)

lemma arena_dealloc_contract:
  assumes "arena_ok own ks w L" "(p, l) \<in> L"
  shows "\<exists>w'. arena_dealloc p l w = Some w' \<and>
    agree (fst w) (fst w') (blocks (L - {(p, l)}) \<union> - own) \<and> arena_ok own ks w' (L - {(p, l)})"
proof -
  obtain m a where w: "w = (m, a)" by force
  note O = arena_okD [OF assms(1) [unfolded w]]
  have "arena_ok own ks w (L - {(p, l)})" using assms(1) by (rule arena_ok_subset) blast
  then show ?thesis
    using O(1) wf_blockD(1) [OF O(4) assms(2)] by (simp add: arena_dealloc_def w)
qed

lemma arena_vtable_sels [simp]:
  "vt_alloc arena_vtable = arena_alloc" "vt_alloc_zeroed arena_vtable = None"
  "vt_resize arena_vtable = Some arena_resize" "vt_remap arena_vtable = None"
  "vt_dealloc arena_vtable = arena_dealloc"
  by (simp_all add: arena_vtable_def)

text \<open>The laws of the contract, for any stack of marks.\<close>

interpretation arena: allocator arena_vtable "arena_ok own ks" own SIZE_MAX for own ks
proof unfold_locales
  show "wf_blocks own SIZE_MAX L" if "arena_ok own ks w L" for w :: "'a arena world" and L
    using that by (auto simp: arena_ok_def Let_def)
  show "arena_ok own ks (m', snd w) L" if "arena_ok own ks w L" for w :: "'a arena world" and m' L
    using that by (simp add: arena_ok_def)
qed (simp_all add: arena_alloc_contract arena_resize_contract arena_dealloc_contract del: split_paired_Ex)

section \<open>Lifetime, marks and rewinds\<close>

lemma init_buf_ok:
  assumes "tda_arena_init_buf buf cap = Some a" "buf + cap \<le> SIZE_MAX"
  shows "arena_ok (region buf cap) [] (m, a) {}"
  using assms
  by (auto simp: tda_arena_init_buf_def arena_fill_def arena_ok_def assert_arena_def arena_null_def
      wf_blocks_def bind_Some_iff)

lemma mark_ok:
  assumes "arena_ok own ks (m, a) L"
  shows "\<exists>k a'. tda_arena_mark a = Some (k, a') \<and> arena_ok own (k # ks) (m, a') L"
proof -
  note O = arena_okD [OF assms]
  note A = O(1) [unfolded assert_arena_def]
  have "splits (ar_data a + ar_offset a) b" if "b \<in> L" for b
    using arena_ok_block(2) [OF assms, of "fst b" "snd b"] that by (simp add: splits_def)
  then show ?thesis
    using O A by (auto simp: tda_arena_mark_def arena_ok_def Let_def assert_arena_def)
qed

lemma mark_chain_append:
  "mark_chain f (pre @ k # post) \<Longrightarrow>
   mk_offset k \<le> f \<and> mk_floor k \<le> mk_offset k \<and> mark_chain (mk_floor k) post"
  by (induction pre arbitrary: f) fastforce+

text \<open>A rewind to any mark still in the stack keeps just the blocks that end at or below it.\<close>

definition below :: "addr \<Rightarrow> block set \<Rightarrow> block set" where
  "below at L = {b \<in> L. fst b + lsize (snd b) \<le> at}"

lemma rewind_ok:
  assumes ok: "arena_ok own (pre @ k # post) (m, a) L"
  shows "\<exists>a'. tda_arena_rewind a k = Some a' \<and>
    arena_ok own post (m, a') (below (ar_data a + mk_offset k) L)"
proof -
  note O = arena_okD [OF ok]
  note A = O(1) [unfolded assert_arena_def]
  note K = mark_chain_append [OF O(6)]
  let ?L = "below (ar_data a + mk_offset k) L"
  have sub: "?L \<subseteq> L" by (auto simp: below_def)
  have "block_region b \<subseteq> region (ar_data a) (mk_offset k)" if "b \<in> ?L" for b
    using that arena_ok_block(1) [OF ok, of "fst b" "snd b"]
    by (auto simp: below_def block_region_def)
  then have "blocks ?L \<subseteq> region (ar_data a) (mk_offset k)" by (auto simp: blocks_def)
  then show ?thesis
    using O(1-3,7) A K wf_blocks_subset [OF O(4) sub] sub
    by (auto simp: tda_arena_rewind_def arena_ok_def Let_def assert_arena_def)
qed

lemma reset_ok:
  assumes ok: "arena_ok own ks (m, a) L"
  shows "\<exists>a'. tda_arena_reset a = Some a' \<and> arena_ok own [] (m, a') {}"
  using arena_okD(1-3) [OF ok]
  by (auto simp: tda_arena_reset_def arena_ok_def Let_def assert_arena_def wf_blocks_def)

text \<open>
  A use of the arena as its client sees it: what is out grows with an allocation and shrinks with
  a free, a rewind or a reset, and the client may write into the blocks it holds at any time.
\<close>

type_synonym 'p arena_state = "'p arena world \<times> arena_mark list \<times> block set"

inductive arena_step :: "'p arena_state \<Rightarrow> 'p arena_state \<Rightarrow> bool" where
  arena_step_client:
    "client_step arena_vtable SIZE_MAX (w, L) (w', L') \<Longrightarrow> arena_step (w, ks, L) (w', ks, L')"
| arena_step_mark:
    "tda_arena_mark (snd w) = Some (k, a') \<Longrightarrow>
     arena_step (w, ks, L) ((fst w, a'), k # ks, L)"
| arena_step_rewind:
    "ks = pre @ k # post \<Longrightarrow> tda_arena_rewind (snd w) k = Some a' \<Longrightarrow>
     arena_step (w, ks, L) ((fst w, a'), post, below (ar_data (snd w) + mk_offset k) L)"
| arena_step_reset:
    "tda_arena_reset (snd w) = Some a' \<Longrightarrow> arena_step (w, ks, L) ((fst w, a'), [], {})"

definition arena_inv :: "addr set \<Rightarrow> 'p arena_state \<Rightarrow> bool" where
  "arena_inv own s \<longleftrightarrow> arena_ok own (fst (snd s)) (fst s) (snd (snd s))"

lemma arena_step_inv: "arena_step s t \<Longrightarrow> arena_inv own s \<Longrightarrow> arena_inv own t"
proof (induction rule: arena_step.induct)
  case (arena_step_client w L w' L' ks)
  then show ?case using arena.client_step_ok [OF arena_step_client(1), of own ks] by (simp add: arena_inv_def)
next
  case (arena_step_mark w k a' ks L)
  then show ?case using mark_ok [of own ks "fst w" "snd w" L] by (auto simp: arena_inv_def)
next
  case (arena_step_rewind ks pre k post w a' L)
  then show ?case using rewind_ok [of own pre k post "fst w" "snd w" L] by (auto simp: arena_inv_def)
next
  case (arena_step_reset w a' ks L)
  then show ?case using reset_ok [of own ks "fst w" "snd w" L] by (auto simp: arena_inv_def)
qed

lemma arena_steps_inv: "arena_step\<^sup>*\<^sup>* s t \<Longrightarrow> arena_inv own s \<Longrightarrow> arena_inv own t"
  by (induction rule: rtranclp_induct) (auto intro: arena_step_inv)

section \<open>Properties\<close>

lemma region_inj:
  assumes "region p n = region q k" "n > 0"
  shows "p = q \<and> n = k"
proof -
  have eq: "p \<le> x \<and> x < p + n \<longleftrightarrow> q \<le> x \<and> x < q + k" for x
    using assms(1) by (metis in_region)
  have "p = q" using eq [of p] eq [of q] assms(2) by arith
  then show ?thesis using eq [of "p + n"] eq [of "p + k"] by arith
qed

lemma small_request: "request SIZE_MAX \<lparr>lsize = 16, lalign = 8\<rparr>"
  by (simp add: request_def SIZE_MAX_def tda_layout_is_align_def)

lemma arena_data_eq:
  assumes "arena_ok own ks (m, a) L" "arena_ok own ks' (m', a') L'"
  shows "ar_data a' = ar_data a"
  using region_inj [of "ar_data a'" "ar_cap a'" "ar_data a" "ar_cap a"]
    arena_okD(1,2) [OF assms(1)] arena_okD(1,2) [OF assms(2)]
  by (auto simp: assert_arena_def)

text \<open>No operation changes the parent, and none writes outside the arena's own block.\<close>

lemma arena_hooks_parent:
  "arena_alloc l w = Some (p, w') \<Longrightarrow> ar_parent (snd w') = ar_parent (snd w)"
  "arena_resize p l n w = Some (b, w') \<Longrightarrow> ar_parent (snd w') = ar_parent (snd w)"
  "arena_dealloc p l w = Some w' \<Longrightarrow> w' = w"
  by (auto simp: arena_alloc_def arena_resize_def arena_dealloc_def Let_def
      split: Option.bind_split_asm option.split_asm if_split_asm)

lemma arena_wrappers_parent:
  "tda_alloc arena_vtable l w = Some (p, w') \<Longrightarrow> ar_parent (snd w') = ar_parent (snd w)"
  "tda_alloc_zeroed arena_vtable l w = Some (p, w') \<Longrightarrow> ar_parent (snd w') = ar_parent (snd w)"
  "tda_dealloc arena_vtable p l w = Some w' \<Longrightarrow> w' = w"
  "tda_resize arena_vtable p l n w = Some (b, w') \<Longrightarrow> ar_parent (snd w') = ar_parent (snd w)"
  "tda_remap arena_vtable p l n w = Some (q, w') \<Longrightarrow> w' = w"
  by (auto simp: tda_alloc_def tda_alloc_zeroed_def tda_dealloc_def tda_resize_def tda_remap_def
      bind_Some_iff dest!: arena_hooks_parent split: option.splits if_splits)

lemma arena_realloc_parent:
  "tda_realloc arena_vtable p l n w = Some (q, w') \<Longrightarrow> ar_parent (snd w') = ar_parent (snd w)"
  by (auto simp: tda_realloc_def bind_Some_iff dest!: arena_wrappers_parent split: if_splits)

lemma arena_client_parent:
  "client_step arena_vtable SIZE_MAX s t \<Longrightarrow> ar_parent (snd (fst t)) = ar_parent (snd (fst s))"
  by (induction rule: client_step.induct) (auto dest!: arena_wrappers_parent arena_realloc_parent)

lemma arena_step_parent:
  "arena_step s t \<Longrightarrow> ar_parent (snd (fst t)) = ar_parent (snd (fst s))"
  by (induction rule: arena_step.induct)
    (auto simp: tda_arena_mark_def tda_arena_rewind_def tda_arena_reset_def
      dest!: arena_client_parent)

lemma arena_step_frame:
  "arena_step s t \<Longrightarrow> arena_inv own s \<Longrightarrow> agree (fst (fst s)) (fst (fst t)) (- own)"
proof (induction rule: arena_step.induct)
  case (arena_step_client w L w' L' ks)
  then show ?case using arena.client_step_ok [OF arena_step_client(1), of own ks] by (simp add: arena_inv_def)
qed simp_all

lemma arena_steps_frame:
  assumes "arena_step\<^sup>*\<^sup>* s t" "arena_inv own s"
  shows "arena_inv own t \<and> agree (fst (fst s)) (fst (fst t)) (- own) \<and>
    ar_parent (snd (fst t)) = ar_parent (snd (fst s))"
  using assms
proof (induction rule: rtranclp_induct)
  case (step t u)
  then show ?case
    using arena_step_inv [OF step(2)] arena_step_frame [OF step(2)] arena_step_parent [OF step(2)]
    by (auto intro: agree_trans)
qed simp

text \<open>
  C7: after any history of allocations, resizes, frees, marks, rewinds and resets on an arena over
  a buffer, the blocks outstanding lie in the buffer, aligned and apart, and the next request is
  served inside what is free or answered null.
\<close>

theorem arena_history_safe:
  assumes "tda_arena_init_buf buf cap = Some a" "buf + cap \<le> SIZE_MAX"
    and "arena_step\<^sup>*\<^sup>* ((m, a), [], {}) (w, ks, L)" and "request SIZE_MAX l"
  shows "wf_blocks (region buf cap) SIZE_MAX L \<and>
    (\<exists>p w'. tda_alloc arena_vtable l w = Some (p, w') \<and> fst w' = fst w \<and>
      (p \<noteq> 0 \<longrightarrow> region p (lsize l) \<subseteq> region buf cap - blocks L \<and> lalign l dvd p))"
proof -
  have "arena_ok (region buf cap) [] (m, a) {}" using init_buf_ok [OF assms(1,2)] .
  then have ok: "arena_ok (region buf cap) ks w L"
    using arena_steps_inv [OF assms(3), of "region buf cap"] by (simp add: arena_inv_def)
  then have wf: "wf_blocks (region buf cap) SIZE_MAX L" by (rule arena.ok_wf)
  obtain m' a' where w: "w = (m', a')" by force
  note O = arena_okD [OF ok [unfolded w]]
  obtain p w' where al: "tda_alloc arena_vtable l w = Some (p, w')"
    and r: "if p = 0 then arena_ok (region buf cap) ks w' L
      else (p, l) \<notin> L \<and> region p (lsize l) \<inter> blocks L = {} \<and>
        arena_ok (region buf cap) ks w' (insert (p, l) L)"
    using arena.tda_alloc_spec [OF ok assms(4)] by blast
  from al have "vt_alloc arena_vtable l w = Some (p, w')"
    using requestD [OF assms(4)] by (auto simp: tda_alloc_def bind_Some_iff simp del: arena_vtable_sels)
  then have "fst w' = fst w"
    using arena_alloc_eq [OF O(1,3) assms(4), of m'] by (auto simp: w Let_def split: if_splits)
  moreover have "region p (lsize l) \<subseteq> region buf cap - blocks L \<and> lalign l dvd p" if "p \<noteq> 0"
    using r that wf_blockD(3,4) [OF arena.ok_wf, of "region buf cap" ks w' "insert (p, l) L" p l]
    by auto
  ultimately show ?thesis using al wf by blast
qed

theorem arena_history_safe_witness:
  "\<exists>(a :: unit arena) p w'. tda_arena_init_buf 4096 64 = Some a \<and>
    tda_alloc arena_vtable \<lparr>lsize = 16, lalign = 8\<rparr> (\<lambda>_. 0, a) = Some (p, w') \<and>
    (p \<noteq> 0 \<longrightarrow> region p 16 \<subseteq> region 4096 64 \<and> 8 dvd p)"
proof -
  obtain a :: "unit arena" where a: "tda_arena_init_buf 4096 64 = Some a"
    by (simp add: tda_arena_init_buf_def arena_fill_def)
  have "(4096 :: nat) + 64 \<le> SIZE_MAX" by (simp add: SIZE_MAX_def)
  from arena_history_safe [OF a this rtranclp.rtrancl_refl small_request, of "\<lambda>_. 0"] a
  show ?thesis by auto
qed

text \<open>
  C9: rewinding to a mark, after any history since it was taken, restores the offset and the
  floor, and keeps every block that was outstanding at the mark and still is.
\<close>

theorem arena_mark_rewind:
  assumes ok: "arena_ok own ks (m, a) L" and mk: "tda_arena_mark a = Some (k, a1)"
    and steps: "arena_step\<^sup>*\<^sup>* ((m, a1), k # ks, L) ((m2, a2), pre @ k # ks, L2)"
  shows "\<exists>a3. tda_arena_rewind a2 k = Some a3 \<and> ar_offset a3 = ar_offset a \<and>
    ar_floor a3 = ar_floor a \<and> L \<inter> L2 \<subseteq> below (ar_data a + ar_offset a) L2 \<and>
    arena_ok own ks (m2, a3) (below (ar_data a + ar_offset a) L2)"
proof -
  have k: "mk_offset k = ar_offset a" "mk_floor k = ar_floor a"
    using mk by (auto simp: tda_arena_mark_def)
  have "arena_inv own ((m, a1), k # ks, L)"
    using mark_ok [OF ok] mk by (auto simp: arena_inv_def)
  then have ok2: "arena_ok own (pre @ k # ks) (m2, a2) L2"
    using arena_steps_inv [OF steps] by (simp add: arena_inv_def)
  obtain a3 where r: "tda_arena_rewind a2 k = Some a3"
    and ok3: "arena_ok own ks (m2, a3) (below (ar_data a2 + mk_offset k) L2)"
    using rewind_ok [OF ok2] by blast
  have "ar_offset a3 = mk_offset k" "ar_floor a3 = mk_floor k"
    using r by (auto simp: tda_arena_rewind_def)
  moreover have "L \<inter> L2 \<subseteq> below (ar_data a + ar_offset a) L2"
    using arena_ok_block(2) [OF ok] by (auto simp: below_def)
  ultimately show ?thesis using r ok3 arena_data_eq [OF ok ok2] k by auto
qed

theorem arena_mark_rewind_witness:
  "\<exists>(a :: unit arena) k a1 a3. tda_arena_init_buf 4096 64 = Some a \<and> tda_arena_mark a = Some (k, a1) \<and>
    tda_arena_rewind a1 k = Some a3 \<and> ar_offset a3 = ar_offset a \<and> ar_floor a3 = ar_floor a"
proof -
  obtain a :: "unit arena" where a: "tda_arena_init_buf 4096 64 = Some a"
    by (simp add: tda_arena_init_buf_def arena_fill_def)
  have "(4096 :: nat) + 64 \<le> SIZE_MAX" by (simp add: SIZE_MAX_def)
  from init_buf_ok [OF a this, of "\<lambda>_. 0"] have ok: "arena_ok (region 4096 64) [] ((\<lambda>_. 0), a) {}" .
  obtain k a1 where k: "tda_arena_mark a = Some (k, a1)" using mark_ok [OF ok] by blast
  have "arena_step\<^sup>*\<^sup>* (((\<lambda>_. 0), a1), k # [], {}) (((\<lambda>_. 0), a1), [] @ k # [], {})" by simp
  from arena_mark_rewind [OF ok k this] a k show ?thesis by blast
qed

text \<open>
  C8: an arena built on any allocator that keeps the allocator contract stays inside the one block
  it took, whatever its history, and deinit gives that block back, leaving the parent with what it
  had before.
\<close>

theorem arena_over_parent:
  assumes al: "allocator vt ok pown amax" and ok: "ok w L" and cap: "0 < cap" "cap \<le> SIZE_MAX"
    and am: "0 < amax" and init: "tda_arena_init_cap cap vt w = Some (Inr a, w1)"
    and steps: "arena_step\<^sup>*\<^sup>* ((fst w1, a), [], {}) ((m2, a2), ks, L2)"
  shows "wf_blocks (region (ar_data a) cap) SIZE_MAX L2 \<and>
    region (ar_data a) cap \<subseteq> pown - blocks L \<and>
    (\<exists>w3. tda_arena_deinit a2 (m2, snd w1) = Some (arena_null, w3) \<and> ok w3 L)"
proof -
  note P = allocator.tda_alloc_spec [OF al ok] 
  let ?l = "arena_block_layout cap" let ?R = "region (ar_data a) cap"
  have req: "request amax ?l"
    using cap am exI [of "\<lambda>k. Suc 0 = 2 ^ k" 0]
    by (simp add: request_def arena_block_layout_def is_align_iff SIZE_MAX_def)
  have a: "ar_data a \<noteq> 0" "ar_cap a = cap" "ar_parent a = Some vt" "ar_offset a = 0" "ar_floor a = 0"
    and call: "tda_alloc vt ?l w = Some (ar_data a, w1)"
    using init
    by (auto simp: tda_arena_init_cap_def arena_fill_def arena_null_def bind_Some_iff split: if_splits)
  have ok1: "ok w1 (insert (ar_data a, ?l) L)" and new: "(ar_data a, ?l) \<notin> L" "?R \<inter> blocks L = {}"
    using P [OF req] call a(1) by (auto simp: arena_block_layout_def)
  note wf = wf_blockD [OF allocator.ok_wf [OF al ok1] insertI1]
  have "arena_ok ?R [] (fst w1, a) {}"
    using a cap wf(5) by (simp add: arena_ok_def assert_arena_def arena_null_def wf_blocks_def
        arena_block_layout_def)
  then have F: "arena_ok ?R ks (m2, a2) L2" "agree (fst w1) m2 (- ?R)" "ar_parent a2 = Some vt"
    using arena_steps_frame [OF steps, of ?R] a(3) by (simp_all add: arena_inv_def)
  have okm: "ok (m2, snd w1) (insert (ar_data a, ?l) L)"
    using F(2) by (intro allocator.write_block [OF al ok1]) (auto simp: arena_block_layout_def intro: agree_subset)
  have same: "ar_data a2 = ar_data a \<and> ar_cap a2 = cap"
    using arena_okD(1,2) [OF F(1)] region_inj [of "ar_data a" cap "ar_data a2" "ar_cap a2"] cap by auto
  have "\<exists>w3. tda_dealloc vt (ar_data a) ?l (m2, snd w1) = Some w3 \<and> ok w3 L"
    using allocator.tda_dealloc_spec [OF al okm insertI1] new(1) by auto
  then have "\<exists>w3. tda_arena_deinit a2 (m2, snd w1) = Some (arena_null, w3) \<and> ok w3 L"
    using same a(1) F(3) arena_okD(1) [OF F(1)] by (auto simp: tda_arena_deinit_def)
  then show ?thesis
    using arena_okD(4) [OF F(1)] wf(4) new(2) by (auto simp: arena_block_layout_def)
qed

theorem arena_over_parent_witness:
  "\<exists>(a :: unit arena) b w1 w3. tda_arena_init_buf 4096 64 = Some a \<and>
    tda_arena_init_cap 32 arena_vtable (\<lambda>_. 0, a) = Some (Inr b, w1) \<and>
    tda_arena_deinit b w1 = Some (arena_null, w3) \<and> region (ar_data b) 32 \<subseteq> region 4096 64"
proof -
  obtain a :: "unit arena" where a: "tda_arena_init_buf 4096 64 = Some a"
    by (simp add: tda_arena_init_buf_def arena_fill_def)
  have "(4096 :: nat) + 64 \<le> SIZE_MAX" by (simp add: SIZE_MAX_def)
  from init_buf_ok [OF a this, of "\<lambda>_. 0"] have ok: "arena_ok (region 4096 64) [] ((\<lambda>_. 0), a) {}" .
  have a': "a = \<lparr>ar_parent = None, ar_data = 4096, ar_cap = 64, ar_offset = 0, ar_floor = 0\<rparr>"
    using a by (simp add: tda_arena_init_buf_def arena_fill_def arena_null_def)
  obtain b w1 where b: "tda_arena_init_cap 32 arena_vtable (\<lambda>_. 0, a) = Some (Inr b, w1)"
    unfolding a'
    by (simp add: tda_arena_init_cap_def tda_alloc_def arena_block_layout_def arena_alloc_def assert_arena_def
      tda_byte_offset_def tda_align_pad_def tda_layout_is_align_def arena_fill_def Let_def arena_vtable_def SIZE_MAX_def
      ckd_add_def ckd_mul_def arena_block_end_def expect_aligned_def wneg_def tda_align_meets_def
      tda_byte_offset_mut_def)
  show ?thesis
    using arena_over_parent [OF arena.allocator_axioms ok _ _ _ b rtranclp.rtrancl_refl] a b
    by (cases w1) (fastforce simp: SIZE_MAX_def)
qed

end
