(* ===== verification/Slab.thy ===== *)
theory Slab
  imports Arena Pool
begin

text \<open>
  \<open>alloc/slab.h\<close> and \<open>alloc/slab.c\<close>: an allocator with a pool for each of ten block sizes, which takes
  chunks from a parent allocator as it needs them and passes larger requests on to it. A world of the
  slab is the memory, the slab and the parent's own state. As in theory Pool the free blocks are linked
  through their own first bytes; the chunks are linked through their last eight.
\<close>

section \<open>State\<close>

record size_class =
  sc_free :: addr
  sc_carve :: addr
  sc_end :: addr

record 'p slab =
  sl_parent :: "'p vtable option"
  sl_chunks :: addr
  sl_count :: nat
  sl_small :: nat
  sl_large :: nat
  sl_classes :: "size_class list"

record slab_stats =
  ss_chunks :: nat
  ss_bytes :: nat
  ss_small :: nat
  ss_large :: nat

type_synonym 'p slab_world = "('p slab \<times> 'p) world"

definition CLASS_SIZES :: "nat list" where
  "CLASS_SIZES = [16, 32, 48, 64, 96, 128, 192, 256, 384, 512]"

definition CLASS_COUNT :: nat where "CLASS_COUNT = length CLASS_SIZES"
definition CHUNK_BYTES :: nat where "CHUNK_BYTES = 4096"
definition CHUNK_ALIGN :: nat where "CHUNK_ALIGN = 512"

text \<open>The link at the back of a chunk is one pointer.\<close>

definition CHUNK_ROOM :: nat where "CHUNK_ROOM = CHUNK_BYTES - 8"

definition class_null :: size_class where
  "class_null = \<lparr>sc_free = 0, sc_carve = 0, sc_end = 0\<rparr>"

definition slab_null :: "'p slab" where
  "slab_null = \<lparr>sl_parent = None, sl_chunks = 0, sl_count = 0, sl_small = 0, sl_large = 0,
     sl_classes = replicate CLASS_COUNT class_null\<rparr>"

definition assert_slab :: "'p slab \<Rightarrow> bool" where
  "assert_slab s \<longleftrightarrow> sl_parent s \<noteq> None"

section \<open>Internals\<close>

text \<open>The loop of \<open>class_of\<close>, at index \<open>idx\<close> with the sizes from there on.\<close>

fun class_from :: "layout \<Rightarrow> nat \<Rightarrow> nat list \<Rightarrow> nat" where
  "class_from layout idx [] = idx"
| "class_from layout idx (sz # rest) =
     (if sz \<ge> lsize layout \<and> (sz AND wneg sz) \<ge> lalign layout then idx
      else class_from layout (Suc idx) rest)"

definition class_of :: "layout \<Rightarrow> nat option" where
  "class_of layout = do {
     chk (lsize layout > 0);
     Some (class_from layout 0 CLASS_SIZES)
   }"

definition stays_large :: "layout \<Rightarrow> nat \<Rightarrow> bool option" where
  "stays_large old new_size = do {
     a \<leftarrow> class_of old;
     if a \<noteq> CLASS_COUNT then Some False
     else do {
       b \<leftarrow> class_of \<lparr>lsize = new_size, lalign = lalign old\<rparr>;
       Some (b = CLASS_COUNT)
     }
   }"

definition chunk_start :: "addr \<Rightarrow> addr" where
  "chunk_start chunk = chunk - CHUNK_ROOM"

definition chunk_layout :: layout where
  "chunk_layout = \<lparr>lsize = CHUNK_BYTES, lalign = CHUNK_ALIGN\<rparr>"

definition set_class :: "nat \<Rightarrow> size_class \<Rightarrow> 'p slab \<Rightarrow> 'p slab" where
  "set_class idx cls self = self\<lparr>sl_classes := (sl_classes self)[idx := cls]\<rparr>"

definition add_chunk :: "nat \<Rightarrow> 'p slab_world \<Rightarrow> (bool \<times> 'p slab_world) option" where
  "add_chunk idx w = (let (m, self, p) = w in do {
     vt \<leftarrow> sl_parent self;
     (start, m, p) \<leftarrow> tda_alloc vt chunk_layout (m, p);
     if start = 0 then Some (False, (m, self, p))
     else (let chunk = start + CHUNK_ROOM;
         m = store_ptr m chunk (sl_chunks self);
         self = self\<lparr>sl_chunks := chunk, sl_count := wadd (sl_count self) 1\<rparr>;
         cls = (sl_classes self ! idx)\<lparr>sc_carve := start, sc_end := chunk\<rparr>
       in Some (True, (m, set_class idx cls self, p)))
   })"

definition can_carve :: "size_class \<Rightarrow> nat \<Rightarrow> bool" where
  "can_carve cls sz \<longleftrightarrow> sc_carve cls \<noteq> 0 \<and> wsub (sc_end cls) (sc_carve cls) \<ge> sz"

definition carve :: "nat \<Rightarrow> nat \<Rightarrow> 'p slab_world \<Rightarrow> (addr \<times> 'p slab_world) option" where
  "carve idx sz w = do {
     (room, w) \<leftarrow> (if can_carve (sl_classes (fst (snd w)) ! idx) sz then Some (True, w) else add_chunk idx w);
     if \<not> room then Some (0, w)
     else (let (m, self, p) = w; cls = sl_classes self ! idx; ptr = sc_carve cls
       in Some (ptr, (m, set_class idx (cls\<lparr>sc_carve := sc_carve cls + sz\<rparr>) self, p)))
   }"

section \<open>Hooks\<close>

definition slab_alloc :: "layout \<Rightarrow> 'p slab_world \<Rightarrow> (addr \<times> 'p slab_world) option" where
  "slab_alloc layout w = (let (m, self, p) = w in do {
     chk (assert_slab self);
     chk (lsize layout > 0);
     idx \<leftarrow> class_of layout;
     if idx = CLASS_COUNT then do {
       vt \<leftarrow> sl_parent self;
       (ptr, m, p) \<leftarrow> tda_alloc vt layout (m, p);
       if ptr \<noteq> 0 then Some (ptr, (m, self\<lparr>sl_large := wadd (sl_large self) 1\<rparr>, p))
       else Some (ptr, (m, self, p))
     }
     else do {
       (ptr, m, self, p) \<leftarrow> (let cls = sl_classes self ! idx in
         if sc_free cls \<noteq> 0 then
           Some (sc_free cls, (m, set_class idx (cls\<lparr>sc_free := load_ptr m (sc_free cls)\<rparr>) self, p))
         else carve idx (CLASS_SIZES ! idx) (m, self, p));
       if ptr = 0 then Some (0, (m, self, p))
       else Some (ptr, (m, self\<lparr>sl_small := wadd (sl_small self) 1\<rparr>, p))
     }
   })"

definition slab_resize ::
  "addr \<Rightarrow> layout \<Rightarrow> nat \<Rightarrow> 'p slab_world \<Rightarrow> (bool \<times> 'p slab_world) option" where
  "slab_resize ptr old new_size w = (let (m, self, p) = w in do {
     chk (assert_slab self);
     chk (ptr \<noteq> 0);
     chk (lsize old > 0);
     chk (new_size > 0);
     large \<leftarrow> stays_large old new_size;
     if large then do {
       vt \<leftarrow> sl_parent self;
       (r, m, p) \<leftarrow> tda_resize vt ptr old new_size (m, p);
       Some (r, (m, self, p))
     }
     else do {
       a \<leftarrow> class_of old;
       b \<leftarrow> class_of \<lparr>lsize = new_size, lalign = lalign old\<rparr>;
       Some (a = b, w)
     }
   })"

definition slab_remap ::
  "addr \<Rightarrow> layout \<Rightarrow> nat \<Rightarrow> 'p slab_world \<Rightarrow> (addr \<times> 'p slab_world) option" where
  "slab_remap ptr old new_size w = (let (m, self, p) = w in do {
     chk (assert_slab self);
     chk (ptr \<noteq> 0);
     chk (lsize old > 0);
     chk (new_size > 0);
     large \<leftarrow> stays_large old new_size;
     if large then do {
       vt \<leftarrow> sl_parent self;
       (r, m, p) \<leftarrow> tda_remap vt ptr old new_size (m, p);
       Some (r, (m, self, p))
     }
     else Some (0, w)
   })"

definition slab_dealloc :: "addr \<Rightarrow> layout \<Rightarrow> 'p slab_world \<Rightarrow> 'p slab_world option" where
  "slab_dealloc ptr layout w = (let (m, self, p) = w in do {
     chk (assert_slab self);
     chk (ptr \<noteq> 0);
     idx \<leftarrow> class_of layout;
     if idx = CLASS_COUNT then do {
       chk (sl_large self > 0);
       vt \<leftarrow> sl_parent self;
       (m, p) \<leftarrow> tda_dealloc vt ptr layout (m, p);
       Some (m, self\<lparr>sl_large := sl_large self - 1\<rparr>, p)
     }
     else (let cls = sl_classes self ! idx in do {
       chk (sl_small self > 0);
       chk (ptr \<noteq> sc_free cls);
       (let m = store_ptr m ptr (sc_free cls); self = set_class idx (cls\<lparr>sc_free := ptr\<rparr>) self
        in Some (m, self\<lparr>sl_small := sl_small self - 1\<rparr>, p))
     })
   })"

definition slab_vtable :: "('p slab \<times> 'p) vtable" where
  "slab_vtable = \<lparr>vt_alloc = slab_alloc, vt_alloc_zeroed = None, vt_resize = Some slab_resize,
     vt_remap = Some slab_remap, vt_dealloc = slab_dealloc\<rparr>"

section \<open>Lifetime, view, stats\<close>

definition tda_slab_init :: "'p vtable option \<Rightarrow> 'p slab option" where
  "tda_slab_init parent = do {
     chk (parent \<noteq> None);
     Some (slab_null\<lparr>sl_parent := parent\<rparr>)
   }"

text \<open>The loop of \<open>tda_slab_deinit\<close> reads a chunk's link before it gives the chunk back.\<close>

partial_function (option) give_chunks :: "'p vtable \<Rightarrow> addr \<Rightarrow> 'p world \<Rightarrow> 'p world option" where
  "give_chunks vt chunk w =
     (if chunk = 0 then Some w
      else let next_chunk = load_ptr (fst w) chunk in do {
        w \<leftarrow> tda_dealloc vt (chunk_start chunk) chunk_layout w;
        give_chunks vt next_chunk w
      })"

definition tda_slab_deinit :: "'p slab_world \<Rightarrow> 'p slab_world option" where
  "tda_slab_deinit w = (let (m, self, p) = w in
     case sl_parent self of
       None \<Rightarrow> Some w
     | Some vt \<Rightarrow> do {
         chk (assert_slab self);
         (m, p) \<leftarrow> give_chunks vt (sl_chunks self) (m, p);
         Some (m, slab_null, p)
       })"

definition tda_slab_to_al :: "'p slab \<Rightarrow> ('p slab \<times> 'p) vtable option" where
  "tda_slab_to_al self = do { chk (assert_slab self); Some slab_vtable }"

definition tda_slab_stats :: "'p slab \<Rightarrow> slab_stats option" where
  "tda_slab_stats self = do {
     chk (assert_slab self);
     Some \<lparr>ss_chunks = sl_count self, ss_bytes = wmul (sl_count self) CHUNK_BYTES,
       ss_small = sl_small self, ss_large = sl_large self\<rparr>
   }"

section \<open>The classes\<close>

text \<open>\<open>class_idx\<close> is the answer of \<open>class_of\<close>; \<open>csize i\<close> the block size of class \<open>i\<close>, \<open>low_bit i\<close> its lowest set bit.\<close>

abbreviation class_idx :: "layout \<Rightarrow> nat" where
  "class_idx l \<equiv> class_from l 0 CLASS_SIZES"

abbreviation csize :: "nat \<Rightarrow> nat" where
  "csize i \<equiv> CLASS_SIZES ! i"

definition low_bit :: "nat \<Rightarrow> nat" where
  "low_bit i = (csize i AND wneg (csize i))"

lemma CLASS_COUNT_10: "CLASS_COUNT = 10"
  by (simp add: CLASS_COUNT_def CLASS_SIZES_def)

lemma low_bits:
  "map (\<lambda>s. s AND wneg s) CLASS_SIZES = [16, 32, 16, 64, 32, 128, 64, 256, 128, 512]"
  by (simp add: CLASS_SIZES_def wneg_def)

lemma low_bit_nth: "i < CLASS_COUNT \<Longrightarrow> low_bit i = [16, 32, 16, 64, 32, 128, 64, 256, 128, 512] ! i"
  unfolding low_bits [symmetric] by (simp add: low_bit_def CLASS_COUNT_def)

lemma class_cases:
  assumes "i < CLASS_COUNT"
  obtains "i = 0" | "i = 1" | "i = 2" | "i = 3" | "i = 4" | "i = 5" | "i = 6" | "i = 7" | "i = 8" | "i = 9"
proof -
  have "i = 0 \<or> i = 1 \<or> i = 2 \<or> i = 3 \<or> i = 4 \<or> i = 5 \<or> i = 6 \<or> i = 7 \<or> i = 8 \<or> i = 9"
    using assms unfolding CLASS_COUNT_10 by presburger
  then show thesis using that by blast
qed

lemma is_align_numerals: "tda_layout_is_align (2 ^ k)"
  by (auto simp: is_align_iff)

lemma class_facts:
  assumes "i < CLASS_COUNT"
  shows "tda_layout_is_align (low_bit i)" "low_bit i dvd csize i" "low_bit i dvd CHUNK_ALIGN" "16 \<le> csize i" "csize i \<le> 512"
proof -
  have "\<exists>k. low_bit i = 2 ^ k \<and> k \<le> 9"
    using assms
  proof (cases rule: class_cases)
    case 1 then show ?thesis using assms by (intro exI [of _ 4]) (simp add: low_bit_nth) next
    case 2 then show ?thesis using assms by (intro exI [of _ 5]) (simp add: low_bit_nth) next
    case 3 then show ?thesis using assms by (intro exI [of _ 4]) (simp add: low_bit_nth) next
    case 4 then show ?thesis using assms by (intro exI [of _ 6]) (simp add: low_bit_nth) next
    case 5 then show ?thesis using assms by (intro exI [of _ 5]) (simp add: low_bit_nth) next
    case 6 then show ?thesis using assms by (intro exI [of _ 7]) (simp add: low_bit_nth) next
    case 7 then show ?thesis using assms by (intro exI [of _ 6]) (simp add: low_bit_nth) next
    case 8 then show ?thesis using assms by (intro exI [of _ 8]) (simp add: low_bit_nth) next
    case 9 then show ?thesis using assms by (intro exI [of _ 7]) (simp add: low_bit_nth) next
    case 10 then show ?thesis using assms by (intro exI [of _ 9]) (simp add: low_bit_nth)
  qed
  then obtain k where k: "low_bit i = 2 ^ k" "k \<le> 9" by blast
  show "tda_layout_is_align (low_bit i)" using k(1) by (auto simp: is_align_iff)
  have "(2 :: nat) ^ k dvd 2 ^ 9" using k(2) by (rule le_imp_power_dvd)
  then show "low_bit i dvd CHUNK_ALIGN" by (simp add: k(1) CHUNK_ALIGN_def)
  show "low_bit i dvd csize i" using assms
    by (cases rule: class_cases) (simp_all add: low_bit_nth CLASS_COUNT_10 CLASS_SIZES_def)
  show "16 \<le> csize i" "csize i \<le> 512" using assms
    by (cases rule: class_cases; simp add: CLASS_SIZES_def)+
qed

lemma class_from_bounds: "i \<le> class_from l i ss \<and> class_from l i ss \<le> i + length ss"
  by (induction l i ss rule: class_from.induct) auto

lemma class_from_serves:
  "class_from l i ss < i + length ss \<Longrightarrow> (let s = ss ! (class_from l i ss - i)
     in lsize l \<le> s \<and> lalign l \<le> (s AND wneg s))"
proof (induction l i ss rule: class_from.induct)
  case (2 l i s ss)
  show ?case
  proof (cases "lsize l \<le> s \<and> lalign l \<le> (s AND wneg s)")
    case False
    have "Suc i \<le> class_from l (Suc i) ss" using class_from_bounds [of "Suc i" l ss] by simp
    then have "(s # ss) ! (class_from l (Suc i) ss - i) = ss ! (class_from l (Suc i) ss - Suc i)"
      by (simp add: nth_Cons' Suc_diff_le)
    then show ?thesis using 2 False by simp
  qed simp
qed simp

lemma class_from_least:
  "j < class_from l i ss - i \<Longrightarrow> \<not> (lsize l \<le> ss ! j \<and> lalign l \<le> (ss ! j AND wneg (ss ! j)))"
proof (induction l i ss arbitrary: j rule: class_from.induct)
  case (2 l i s ss)
  then show ?case
    by (cases j) (auto split: if_splits)
qed simp

lemma class_idx_le: "class_idx l \<le> CLASS_COUNT"
  using class_from_bounds [of 0 l CLASS_SIZES] by (simp add: CLASS_COUNT_def)

lemma class_idx_serves:
  assumes "class_idx l < CLASS_COUNT"
  shows "lsize l \<le> csize (class_idx l)" "lalign l \<le> low_bit (class_idx l)"
  using class_from_serves [of l 0 CLASS_SIZES] assms by (simp_all add: CLASS_COUNT_def Let_def low_bit_def)

lemma class_of_eq: "0 < lsize l \<Longrightarrow> class_of l = Some (class_idx l)"
  by (simp add: class_of_def)

end
