(* ===== verification/SlabLaws.thy ===== *)
theory SlabLaws
  imports Slab
begin

text \<open>
  A slab over any parent that keeps the allocator contract keeps the contract itself. The invariant
  has three layers: the parent's blocks, which are the slab's large blocks, its chunks and what other
  clients have (\<open>slab_inv\<close>); the links through the chunks and the free blocks; and the geometry of what
  has been carved from the chunks (\<open>carved\<close>).
\<close>

section \<open>What is carved from the chunks\<close>

text \<open>
  A cell \<open>(i, x)\<close> is a block of class \<open>i\<close> at \<open>x\<close>, free or out; \<open>R i\<close> is the first byte and the end of
  the ground that class \<open>i\<close> carves from. Cells and grounds lie in the chunks and are apart.
\<close>

type_synonym cell = "nat \<times> addr"

definition cell_region :: "cell \<Rightarrow> addr set" where
  "cell_region c = region (snd c) (csize (fst c))"

definition ground :: "(addr \<times> addr) \<Rightarrow> addr set" where
  "ground r = {fst r..<snd r}"

definition cell_ok :: "addr set \<Rightarrow> cell \<Rightarrow> bool" where
  "cell_ok chs c \<longleftrightarrow> fst c < CLASS_COUNT \<and> low_bit (fst c) dvd snd c \<and>
     (\<exists>b \<in> chs. b \<le> snd c \<and> snd c + csize (fst c) \<le> b + CHUNK_ROOM)"

definition ground_ok :: "addr set \<Rightarrow> nat \<Rightarrow> addr \<times> addr \<Rightarrow> bool" where
  "ground_ok chs i r \<longleftrightarrow> r = (0, 0) \<or>
     low_bit i dvd fst r \<and> (\<exists>b \<in> chs. b \<le> fst r \<and> fst r \<le> snd r \<and> snd r = b + CHUNK_ROOM)"

definition carved :: "addr set \<Rightarrow> cell set \<Rightarrow> (nat \<Rightarrow> addr \<times> addr) \<Rightarrow> bool" where
  "carved chs C R \<longleftrightarrow> (\<forall>c \<in> C. cell_ok chs c) \<and> (\<forall>i < CLASS_COUNT. ground_ok chs i (R i)) \<and>
     (\<forall>c \<in> C. \<forall>d \<in> C. c \<noteq> d \<longrightarrow> cell_region c \<inter> cell_region d = {}) \<and>
     (\<forall>i < CLASS_COUNT. \<forall>c \<in> C. ground (R i) \<inter> cell_region c = {}) \<and>
     (\<forall>i < CLASS_COUNT. \<forall>j < CLASS_COUNT. i \<noteq> j \<longrightarrow> ground (R i) \<inter> ground (R j) = {})"

lemma carvedD:
  assumes "carved chs C R"
  shows "c \<in> C \<Longrightarrow> cell_ok chs c" "i < CLASS_COUNT \<Longrightarrow> ground_ok chs i (R i)"
    "c \<in> C \<Longrightarrow> d \<in> C \<Longrightarrow> c \<noteq> d \<Longrightarrow> cell_region c \<inter> cell_region d = {}"
    "i < CLASS_COUNT \<Longrightarrow> c \<in> C \<Longrightarrow> ground (R i) \<inter> cell_region c = {}"
    "i < CLASS_COUNT \<Longrightarrow> j < CLASS_COUNT \<Longrightarrow> i \<noteq> j \<Longrightarrow> ground (R i) \<inter> ground (R j) = {}"
  using assms unfolding carved_def by auto

lemma carvedI:
  assumes "\<And>c. c \<in> C \<Longrightarrow> cell_ok chs c" "\<And>i. i < CLASS_COUNT \<Longrightarrow> ground_ok chs i (R i)"
    "\<And>c d. c \<in> C \<Longrightarrow> d \<in> C \<Longrightarrow> c \<noteq> d \<Longrightarrow> cell_region c \<inter> cell_region d = {}"
    "\<And>i c. i < CLASS_COUNT \<Longrightarrow> c \<in> C \<Longrightarrow> ground (R i) \<inter> cell_region c = {}"
    "\<And>i j. i < CLASS_COUNT \<Longrightarrow> j < CLASS_COUNT \<Longrightarrow> i \<noteq> j \<Longrightarrow> ground (R i) \<inter> ground (R j) = {}"
  shows "carved chs C R"
  using assms unfolding carved_def by blast

lemma carved_empty: "carved {} {} (\<lambda>i. (0, 0))"
  by (simp add: carved_def ground_ok_def ground_def)

lemma cell_in_chunk:
  assumes "cell_ok chs c"
  shows "\<exists>b \<in> chs. cell_region c \<subseteq> region b CHUNK_ROOM"
proof -
  obtain b where "b \<in> chs" "b \<le> snd c" "snd c + csize (fst c) \<le> b + CHUNK_ROOM"
    using assms by (auto simp: cell_ok_def)
  then show ?thesis by (intro bexI [of _ b]) (auto simp: cell_region_def)
qed

lemma ground_in_chunk:
  assumes "ground_ok chs i r" "ground r \<noteq> {}"
  shows "\<exists>b \<in> chs. ground r \<subseteq> region b CHUNK_ROOM"
proof -
  obtain b where "b \<in> chs" "b \<le> fst r" "snd r = b + CHUNK_ROOM"
    using assms by (auto simp: ground_ok_def ground_def)
  then show ?thesis by (intro bexI [of _ b]) (auto simp: ground_def)
qed

text \<open>A block taken from the ground of its class.\<close>

lemma carve_cell:
  assumes car: "carved chs C R" and i: "i < CLASS_COUNT"
    and r: "R i = (x, y)" "x \<noteq> 0" "csize i \<le> y - x"
  shows "carved chs (insert (i, x) C) (R(i := (x + csize i, y)))" "(i, x) \<notin> C" "cell_ok chs (i, x)"
proof -
  note D = carvedD [OF car]
  note F = class_facts [OF i]
  have g: "ground_ok chs i (x, y)" using D(2) [OF i] r(1) by simp
  have c: "cell_region (i, x) \<subseteq> ground (R i)" and n: "ground (x + csize i, y) \<subseteq> ground (R i)"
    and gn: "ground (x + csize i, y) \<inter> cell_region (i, x) = {}"
    using r(1,3) by (auto simp: cell_region_def ground_def)
  show ok: "cell_ok chs (i, x)"
    using g i r(2,3) F(4) unfolding cell_ok_def ground_ok_def by force
  have g': "ground_ok chs i (x + csize i, y)"
    using g r F(2,4) by (auto simp: ground_ok_def)
  have out: "cell_region (i, x) \<inter> cell_region d = {}" if "d \<in> C" for d using D(4) [OF i that] c by blast
  have "cell_region (i, x) \<noteq> {}" using F(4) by (auto simp: cell_region_def region_def)
  then show new: "(i, x) \<notin> C" using out [of "(i, x)"] by auto
  show "carved chs (insert (i, x) C) (R(i := (x + csize i, y)))"
  proof (rule carvedI)
    fix d e assume "d \<in> insert (i, x) C" "e \<in> insert (i, x) C" "d \<noteq> e"
    then show "cell_region d \<inter> cell_region e = {}" using D(3) out by blast
  next
    fix j d assume j: "j < CLASS_COUNT" "d \<in> insert (i, x) C"
    show "ground ((R(i := (x + csize i, y))) j) \<inter> cell_region d = {}"
    proof (cases "j = i"; cases "d = (i, x)")
      assume "j = i" "d \<noteq> (i, x)"
      then show ?thesis using j D(4) [OF i, of d] n by auto
    next
      assume "j \<noteq> i" "d = (i, x)"
      then show ?thesis using D(5) [OF j(1) i] c by auto
    qed (use j D(4) gn in auto)
  next
    fix j k assume j: "j < CLASS_COUNT" "k < CLASS_COUNT" "j \<noteq> k"
    then show "ground ((R(i := (x + csize i, y))) j) \<inter> ground ((R(i := (x + csize i, y))) k) = {}"
      using D(5) [OF j] n by auto
  qed (use D(1,2) ok g' in auto)
qed

text \<open>A new chunk becomes the ground of a class; the rest of the old one is left unused.\<close>

lemma carve_chunk:
  assumes car: "carved chs C R" and i: "i < CLASS_COUNT" and b: "b \<noteq> 0" "CHUNK_ALIGN dvd b"
    and new: "\<And>c. c \<in> chs \<Longrightarrow> region b CHUNK_BYTES \<inter> region c CHUNK_BYTES = {}"
  shows "carved (insert b chs) C (R(i := (b, b + CHUNK_ROOM)))"
proof -
  note D = carvedD [OF car]
  have room: "region c CHUNK_ROOM \<subseteq> region c CHUNK_BYTES" for c by (rule region_mono) (simp add: CHUNK_ROOM_def)
  have g: "ground (b, b + CHUNK_ROOM) = region b CHUNK_ROOM" by (auto simp: ground_def)
  have clear: "S \<inter> region b CHUNK_ROOM = {}" if "S \<subseteq> region c CHUNK_ROOM" "c \<in> chs" for S c
    using new [OF that(2)] room [of b] room [of c] that(1) by blast
  have cells: "cell_region d \<inter> region b CHUNK_ROOM = {}" if "d \<in> C" for d
    using cell_in_chunk [OF D(1) [OF that]] clear by blast
  have grounds: "ground (R j) \<inter> region b CHUNK_ROOM = {}" if "j < CLASS_COUNT" for j
    using ground_in_chunk [OF D(2) [OF that]] clear by blast
  have b0: "ground_ok (insert b chs) i (b, b + CHUNK_ROOM)"
    using class_facts(3) [OF i] b(2) by (auto simp: ground_ok_def)
  show ?thesis
  proof (rule carvedI)
    fix j assume "j < CLASS_COUNT"
    then show "ground_ok (insert b chs) j ((R(i := (b, b + CHUNK_ROOM))) j)"
      using b0 D(2) [of j] by (auto simp: ground_ok_def)
  next
    fix j d assume "j < CLASS_COUNT" "d \<in> C"
    then show "ground ((R(i := (b, b + CHUNK_ROOM))) j) \<inter> cell_region d = {}"
      using D(4) [of j d] cells [of d] g by auto
  next
    fix j k assume "j < CLASS_COUNT" "k < CLASS_COUNT" "j \<noteq> k"
    then show "ground ((R(i := (b, b + CHUNK_ROOM))) j) \<inter> ground ((R(i := (b, b + CHUNK_ROOM))) k) = {}"
      using D(5) [of j k] grounds g by auto
  qed (use D(1,3) in \<open>auto simp: cell_ok_def\<close>)
qed

section \<open>The invariant\<close>

definition large_out :: "block set \<Rightarrow> block set" where
  "large_out L = {b \<in> L. class_idx (snd b) = CLASS_COUNT}"

definition cells_out :: "block set \<Rightarrow> cell set" where
  "cells_out L = (\<lambda>(x, l). (class_idx l, x)) ` (L - large_out L)"

definition cells_free :: "(nat \<Rightarrow> addr list) \<Rightarrow> cell set" where
  "cells_free fls = {c. fst c < CLASS_COUNT \<and> snd c \<in> set (fls (fst c))}"

definition chunk_blocks :: "addr list \<Rightarrow> block set" where
  "chunk_blocks chs = (\<lambda>c. (c, chunk_layout)) ` set chs"

definition grounds :: "'p slab \<Rightarrow> nat \<Rightarrow> addr \<times> addr" where
  "grounds self i = (sc_carve (sl_classes self ! i), sc_end (sl_classes self ! i))"

definition slab_links :: "mem \<Rightarrow> 'p slab \<Rightarrow> addr list \<Rightarrow> (nat \<Rightarrow> addr list) \<Rightarrow> bool" where
  "slab_links m self chs fls \<longleftrightarrow> chain m (sl_chunks self) (map (\<lambda>c. c + CHUNK_ROOM) chs) \<and>
     (\<forall>i < CLASS_COUNT. chain m (sc_free (sl_classes self ! i)) (fls i))"

text \<open>\<open>K\<close> is what other clients of the parent have out.\<close>

definition slab_inv ::
  "'p vtable \<Rightarrow> ('p world \<Rightarrow> block set \<Rightarrow> bool) \<Rightarrow> addr set \<Rightarrow> nat \<Rightarrow> block set \<Rightarrow> 'p slab_world \<Rightarrow> block set \<Rightarrow>
   addr list \<Rightarrow> (nat \<Rightarrow> addr list) \<Rightarrow> bool" where
  "slab_inv pvt pok pown pmax K w L chs fls \<longleftrightarrow> (let (m, self, p) = w in
     sl_parent self = Some pvt \<and> length (sl_classes self) = CLASS_COUNT \<and>
     pok (m, p) (K \<union> large_out L \<union> chunk_blocks chs) \<and> chunk_blocks chs \<inter> (K \<union> L) = {} \<and>
     wf_blocks (pown - blocks K) pmax L \<and> distinct chs \<and> sl_count self = length chs \<and>
     slab_links m self chs fls \<and> (\<forall>i < CLASS_COUNT. distinct (fls i)) \<and> cells_free fls \<inter> cells_out L = {} \<and>
     carved (set chs) (cells_free fls \<union> cells_out L) (grounds self) \<and>
     sl_small self = card (L - large_out L) \<and> sl_large self = card (large_out L))"

definition slab_ok ::
  "'p vtable \<Rightarrow> ('p world \<Rightarrow> block set \<Rightarrow> bool) \<Rightarrow> addr set \<Rightarrow> nat \<Rightarrow> block set \<Rightarrow> 'p slab_world \<Rightarrow> block set \<Rightarrow> bool" where
  "slab_ok pvt pok pown pmax K w L \<longleftrightarrow> (\<exists>chs fls. slab_inv pvt pok pown pmax K w L chs fls)"

lemma slab_invD:
  assumes "slab_inv pvt pok pown pmax K (m, self, p) L chs fls"
  shows "sl_parent self = Some pvt" "length (sl_classes self) = CLASS_COUNT"
    "pok (m, p) (K \<union> large_out L \<union> chunk_blocks chs)" "chunk_blocks chs \<inter> (K \<union> L) = {}"
    "wf_blocks (pown - blocks K) pmax L" "distinct chs" "sl_count self = length chs"
    "slab_links m self chs fls" "i < CLASS_COUNT \<Longrightarrow> distinct (fls i)" "cells_free fls \<inter> cells_out L = {}"
    "carved (set chs) (cells_free fls \<union> cells_out L) (grounds self)"
    "sl_small self = card (L - large_out L)" "sl_large self = card (large_out L)"
  using assms unfolding slab_inv_def by simp_all

lemma slab_invI:
  assumes "sl_parent self = Some pvt" "length (sl_classes self) = CLASS_COUNT"
    "pok (m, p) (K \<union> large_out L \<union> chunk_blocks chs)" "chunk_blocks chs \<inter> (K \<union> L) = {}"
    "wf_blocks (pown - blocks K) pmax L" "distinct chs" "sl_count self = length chs"
    "slab_links m self chs fls" "\<And>i. i < CLASS_COUNT \<Longrightarrow> distinct (fls i)" "cells_free fls \<inter> cells_out L = {}"
    "carved (set chs) (cells_free fls \<union> cells_out L) (grounds self)"
    "sl_small self = card (L - large_out L)" "sl_large self = card (large_out L)"
  shows "slab_inv pvt pok pown pmax K (m, self, p) L chs fls"
  using assms unfolding slab_inv_def by simp

lemma large_out_sub: "large_out L \<subseteq> L"
  by (auto simp: large_out_def)

lemma large_out_insert:
  "large_out (insert (x, l) L) = (if class_idx l = CLASS_COUNT then insert (x, l) (large_out L) else large_out L)"
  by (auto simp: large_out_def)

lemma large_out_remove: "large_out (L - {b}) = large_out L - {b}"
  by (auto simp: large_out_def)

lemma small_insert:
  "insert (x, l) L - large_out (insert (x, l) L) =
     (if class_idx l = CLASS_COUNT then L - large_out L else insert (x, l) (L - large_out L))"
  by (auto simp: large_out_def)

lemma cells_out_insert:
  "cells_out (insert (x, l) L) = (if class_idx l = CLASS_COUNT then cells_out L else insert (class_idx l, x) (cells_out L))"
  unfolding cells_out_def small_insert by simp

lemma cells_out_large: "class_idx l = CLASS_COUNT \<Longrightarrow> cells_out (L - {(x, l)}) = cells_out L"
proof -
  assume "class_idx l = CLASS_COUNT"
  then have "L - {(x, l)} - large_out (L - {(x, l)}) = L - large_out L" by (auto simp: large_out_def)
  then show ?thesis by (simp add: cells_out_def)
qed

lemma cells_out_remove:
  assumes wf: "wf_blocks own amax L" and b: "(x, l) \<in> L"
  shows "cells_out (L - {(x, l)}) = cells_out L - {(class_idx l, x)}"
proof -
  have "y \<noteq> x" if "(y, k) \<in> L" "(y, k) \<noteq> (x, l)" for y k
    using wf_blocks_same_addr [OF wf b, of k] that by auto
  then show ?thesis by (force simp: cells_out_def large_out_def)
qed

lemma small_cell: "(x, l) \<in> L \<Longrightarrow> class_idx l \<noteq> CLASS_COUNT \<Longrightarrow> (class_idx l, x) \<in> cells_out L"
  by (force simp: cells_out_def large_out_def)

lemma wf_card:
  assumes "wf_blocks own amax L"
  shows "finite L" "card L < SIZE_MAX"
proof -
  have inj: "inj_on fst L"
  proof (rule inj_onI)
    fix b c assume "b \<in> L" "c \<in> L" "fst b = fst c"
    then show "b = c" using wf_blocks_same_addr [OF assms, of "fst b" "snd b" "snd c"] by (cases b; cases c) auto
  qed
  have sub: "fst ` L \<subseteq> {1..<SIZE_MAX}"
  proof
    fix x assume "x \<in> fst ` L"
    then obtain l where "(x, l) \<in> L" by force
    from wf_blockD [OF assms this] show "x \<in> {1..<SIZE_MAX}" by (auto dest: requestD(1))
  qed
  show fin: "finite L" using finite_subset [OF sub] inj by (simp add: finite_image_iff)
  have "card L = card (fst ` L)" using inj by (simp add: card_image)
  also have "\<dots> \<le> card {1..<SIZE_MAX}" using sub by (intro card_mono) auto
  finally show "card L < SIZE_MAX" by (simp add: SIZE_MAX_def)
qed

lemma slab_links_agree:
  assumes "slab_links m self chs fls"
    and "\<And>c. c \<in> set chs \<Longrightarrow> agree m m' (region (c + CHUNK_ROOM) 8)"
    and "\<And>d. d \<in> cells_free fls \<Longrightarrow> agree m m' (region (snd d) 8)"
  shows "slab_links m' self chs fls"
proof -
  have "chain m' (sl_chunks self) (map (\<lambda>c. c + CHUNK_ROOM) chs)"
    by (rule chain_agree [of m]) (use assms(1,2) in \<open>auto simp: slab_links_def\<close>)
  moreover have "chain m' (sc_free (sl_classes self ! i)) (fls i)" if "i < CLASS_COUNT" for i
    by (rule chain_agree [of m]) (use assms(1) that assms(3) [of "(i, x)" for x] in \<open>auto simp: slab_links_def cells_free_def\<close>)
  ultimately show ?thesis by (simp add: slab_links_def)
qed

section \<open>Where things lie\<close>

locale slab_parent = parent: allocator pvt pok pown pmax
  for pvt :: "'p vtable" and pok pown pmax +
  assumes chunk_align: "CHUNK_ALIGN \<le> pmax"

context slab_parent begin

lemma chunk_request: "request pmax chunk_layout"
  using chunk_align is_align_numerals [of 9]
  by (simp add: request_def chunk_layout_def CHUNK_ALIGN_def CHUNK_BYTES_def SIZE_MAX_def)

lemma chunk_place:
  assumes "slab_inv pvt pok pown pmax K (m, self, p) L chs fls" "c \<in> set chs"
  shows "c \<noteq> 0" "CHUNK_ALIGN dvd c" "c + CHUNK_BYTES \<le> SIZE_MAX"
    "region c CHUNK_BYTES \<subseteq> pown - blocks K" "b \<in> large_out L \<Longrightarrow> region c CHUNK_BYTES \<inter> block_region b = {}"
    "d \<in> set chs \<Longrightarrow> d \<noteq> c \<Longrightarrow> region c CHUNK_BYTES \<inter> region d CHUNK_BYTES = {}"
    "region c CHUNK_BYTES \<subseteq> blocks (K \<union> large_out L \<union> chunk_blocks chs)"
proof -
  note I = slab_invD [OF assms(1)]
  note wf = parent.ok_wf [OF I(3)]
  have in_c: "(c, chunk_layout) \<in> chunk_blocks chs" using assms(2) by (simp add: chunk_blocks_def)
  then have new: "(c, chunk_layout) \<notin> K \<union> L" using I(4) by auto
  have "(c, chunk_layout) \<in> K \<union> large_out L \<union> chunk_blocks chs" using in_c by simp
  note W = wf_blockD [OF wf this] and apart = wf_blocks_other [OF wf this]
  show "c \<noteq> 0" "CHUNK_ALIGN dvd c" "c + CHUNK_BYTES \<le> SIZE_MAX" using W by (simp_all add: chunk_layout_def)
  have others: "region c CHUNK_BYTES \<inter> block_region b = {}"
    if "b \<in> K \<union> large_out L \<union> chunk_blocks chs" "b \<noteq> (c, chunk_layout)" for b
    using apart block_in_blocks [of b "K \<union> large_out L \<union> chunk_blocks chs - {(c, chunk_layout)}"] that
    by (auto simp: chunk_layout_def)
  have "region c CHUNK_BYTES \<inter> blocks K = {}"
    using others new unfolding blocks_def by blast
  then show "region c CHUNK_BYTES \<subseteq> pown - blocks K" using W(4) by (auto simp: chunk_layout_def)
  show "b \<in> large_out L \<Longrightarrow> region c CHUNK_BYTES \<inter> block_region b = {}"
    using others [of b] new large_out_sub by blast
  show "d \<in> set chs \<Longrightarrow> d \<noteq> c \<Longrightarrow> region c CHUNK_BYTES \<inter> region d CHUNK_BYTES = {}"
    using others [of "(d, chunk_layout)"] by (auto simp: chunk_blocks_def chunk_layout_def)
  show "region c CHUNK_BYTES \<subseteq> blocks (K \<union> large_out L \<union> chunk_blocks chs)"
    using block_in_blocks [of "(c, chunk_layout)" "K \<union> large_out L \<union> chunk_blocks chs"] in_c
    by (simp add: chunk_layout_def)
qed

lemma room_link:
  "region c CHUNK_ROOM \<subseteq> region c CHUNK_BYTES" "region (c + CHUNK_ROOM) 8 \<subseteq> region c CHUNK_BYTES"
  "region c CHUNK_ROOM \<inter> region (c + CHUNK_ROOM) 8 = {}"
  by (auto simp: CHUNK_ROOM_def CHUNK_BYTES_def)

lemma cell_place:
  assumes inv: "slab_inv pvt pok pown pmax K (m, self, p) L chs fls" and d: "d \<in> cells_free fls \<union> cells_out L"
  shows "\<exists>b \<in> set chs. cell_region d \<subseteq> region b CHUNK_ROOM" "fst d < CLASS_COUNT" "snd d \<noteq> 0"
    "snd d + csize (fst d) \<le> SIZE_MAX" "low_bit (fst d) dvd snd d" "region (snd d) 8 \<subseteq> cell_region d"
proof -
  have ok: "cell_ok (set chs) d" using carvedD(1) [OF slab_invD(11) [OF inv] d] .
  then show "\<exists>b \<in> set chs. cell_region d \<subseteq> region b CHUNK_ROOM" by (rule cell_in_chunk)
  show lt: "fst d < CLASS_COUNT" "low_bit (fst d) dvd snd d" using ok by (simp_all add: cell_ok_def)
  obtain b where b: "b \<in> set chs" "b \<le> snd d" "snd d + csize (fst d) \<le> b + CHUNK_ROOM"
    using ok by (auto simp: cell_ok_def)
  note P = chunk_place [OF inv b(1)]
  show "snd d \<noteq> 0" using P(1) b(2) by auto
  show "snd d + csize (fst d) \<le> SIZE_MAX" using P(3) b(3) by (simp add: CHUNK_ROOM_def)
  show "region (snd d) 8 \<subseteq> cell_region d"
    unfolding cell_region_def using class_facts(4) [OF lt(1)] by (intro region_mono) simp
qed

lemma cell_link:
  assumes inv: "slab_inv pvt pok pown pmax K (m, self, p) L chs fls" and d: "d \<in> cells_free fls \<union> cells_out L"
    and c: "c \<in> set chs"
  shows "cell_region d \<inter> region (c + CHUNK_ROOM) 8 = {}"
proof -
  obtain b where b: "b \<in> set chs" "cell_region d \<subseteq> region b CHUNK_ROOM" using cell_place(1) [OF inv d] by blast
  show ?thesis
  proof (cases "b = c")
    case True
    then show ?thesis using b(2) room_link(3) by blast
  next
    case False
    then have "region b CHUNK_BYTES \<inter> region c CHUNK_BYTES = {}" using chunk_place(6) [OF inv c b(1)] by blast
    then show ?thesis using b(2) room_link(1) [of b] room_link(2) [of c] by blast
  qed
qed

lemma small_in_cell:
  assumes "(x, l) \<in> L" "class_idx l \<noteq> CLASS_COUNT"
  shows "region x (lsize l) \<subseteq> cell_region (class_idx l, x)"
  using class_idx_serves(1) [of l] class_idx_le [of l] assms(2)
  by (auto simp: cell_region_def)

lemma out_link:
  assumes inv: "slab_inv pvt pok pown pmax K (m, self, p) L chs fls" and c: "c \<in> set chs"
  shows "region (c + CHUNK_ROOM) 8 \<inter> blocks L = {}"
proof -
  have "region (c + CHUNK_ROOM) 8 \<inter> region x (lsize l) = {}" if b: "(x, l) \<in> L" for x l
  proof (cases "class_idx l = CLASS_COUNT")
    case True
    then have "(x, l) \<in> large_out L" using b by (simp add: large_out_def)
    from chunk_place(5) [OF inv c this] show ?thesis using room_link(2) [of c] by auto
  next
    case False
    then show ?thesis using cell_link [OF inv _ c] small_cell [OF b False] small_in_cell [OF b False] by blast
  qed
  then show ?thesis unfolding blocks_def block_region_def by force
qed

lemma clear_of_out:
  assumes inv: "slab_inv pvt pok pown pmax K (m, self, p) L chs fls" and c: "c \<in> set chs" "S \<subseteq> region c CHUNK_ROOM"
    and sub: "L' \<subseteq> L" and cells: "\<And>d. d \<in> cells_out L' \<Longrightarrow> S \<inter> cell_region d = {}"
  shows "S \<inter> blocks L' = {}"
proof -
  have "S \<inter> region x (lsize l) = {}" if b: "(x, l) \<in> L'" for x l
  proof (cases "class_idx l = CLASS_COUNT")
    case True
    then have l: "(x, l) \<in> large_out L" using b sub by (auto simp: large_out_def)
    then show ?thesis using chunk_place(5) [OF inv c(1) l] c(2) room_link(1) [of c] by auto
  next
    case False
    then show ?thesis using cells [OF small_cell [OF b False]] small_in_cell [OF b False] by blast
  qed
  then show ?thesis unfolding blocks_def block_region_def by force
qed

lemma out_free:
  assumes inv: "slab_inv pvt pok pown pmax K (m, self, p) L chs fls" and d: "d \<in> cells_free fls"
  shows "cell_region d \<inter> blocks L = {}"
proof -
  note D = slab_invD [OF inv]
  obtain c where c: "c \<in> set chs" "cell_region d \<subseteq> region c CHUNK_ROOM"
    using cell_place(1) [OF inv UnI1 [OF d]] by blast
  have "cell_region d \<inter> cell_region e = {}" if "e \<in> cells_out L" for e
    using carvedD(3) [OF D(11), of d e] d that D(10) by auto
  then show ?thesis by (rule clear_of_out [OF inv c subset_refl])
qed

lemma out_not_others:
  assumes inv: "slab_inv pvt pok pown pmax K (m, self, p) L chs fls" and b: "(q, l) \<in> L"
  shows "(q, l) \<notin> K" "(q, l) \<notin> chunk_blocks chs"
proof -
  note W = wf_blockD [OF slab_invD(5) [OF inv] b]
  have "q \<in> region q (lsize l)" using requestD(1) [OF W(2)] by simp
  moreover have "region q (lsize l) \<subseteq> blocks K" if "(q, l) \<in> K" using block_in_blocks [OF that] by simp
  ultimately show "(q, l) \<notin> K" using W(4) by blast
  show "(q, l) \<notin> chunk_blocks chs" using slab_invD(4) [OF inv] b by blast
qed

text \<open>Everything the slab uses lies in blocks of the parent that are out.\<close>

lemma held_from_parent:
  assumes inv: "slab_inv pvt pok pown pmax K (m, self, p) L chs fls"
  shows "blocks L \<subseteq> blocks (K \<union> large_out L \<union> chunk_blocks chs)"
    "d \<in> cells_free fls \<union> cells_out L \<Longrightarrow> cell_region d \<subseteq> blocks (K \<union> large_out L \<union> chunk_blocks chs)"
    "c \<in> set chs \<Longrightarrow> region (c + CHUNK_ROOM) 8 \<subseteq> blocks (K \<union> large_out L \<union> chunk_blocks chs)"
proof -
  show cell: "cell_region d \<subseteq> blocks (K \<union> large_out L \<union> chunk_blocks chs)" if "d \<in> cells_free fls \<union> cells_out L" for d
    using cell_place(1) [OF inv that] chunk_place(7) [OF inv] room_link(1) by blast
  show "c \<in> set chs \<Longrightarrow> region (c + CHUNK_ROOM) 8 \<subseteq> blocks (K \<union> large_out L \<union> chunk_blocks chs)"
    using chunk_place(7) [OF inv] room_link(2) by blast
  have "region x (lsize l) \<subseteq> blocks (K \<union> large_out L \<union> chunk_blocks chs)" if b: "(x, l) \<in> L" for x l
  proof (cases "class_idx l = CLASS_COUNT")
    case True
    then have "(x, l) \<in> K \<union> large_out L \<union> chunk_blocks chs" using b by (simp add: large_out_def)
    from block_in_blocks [OF this] show ?thesis by simp
  next
    case False
    then show ?thesis using cell [of "(class_idx l, x)"] small_cell [OF b False] small_in_cell [OF b False] by blast
  qed
  then show "blocks L \<subseteq> blocks (K \<union> large_out L \<union> chunk_blocks chs)"
    unfolding blocks_def [of L] block_region_def by force
qed

lemma links_kept:
  assumes inv: "slab_inv pvt pok pown pmax K (m, self, p) L chs fls"
    and ag: "agree m m' (blocks (K \<union> large_out L \<union> chunk_blocks chs))"
  shows "slab_links m' self chs fls"
  using slab_invD(8) [OF inv]
proof (rule slab_links_agree)
  show "c \<in> set chs \<Longrightarrow> agree m m' (region (c + CHUNK_ROOM) 8)" for c
    using held_from_parent(3) [OF inv] by (intro agree_subset [OF ag])
  show "d \<in> cells_free fls \<Longrightarrow> agree m m' (region (snd d) 8)" for d
    using held_from_parent(2) [OF inv, of d] cell_place(6) [OF inv, of d] by (intro agree_subset [OF ag]) blast
qed

lemma parent_step:
  assumes inv: "slab_inv pvt pok pown pmax K (m, self, p) L chs fls"
    and pok: "pok (m', p') (K \<union> large_out L \<union> chunk_blocks chs)"
    and ag: "agree m m' (blocks (K \<union> large_out L \<union> chunk_blocks chs))"
  shows "slab_inv pvt pok pown pmax K (m', self, p') L chs fls"
  using slab_invD [OF inv] pok links_kept [OF inv ag] by (intro slab_invI)

lemma agree_client:
  assumes inv: "slab_inv pvt pok pown pmax K (m, self, p) L chs fls"
    and ag: "agree m m' (blocks (K \<union> large_out L \<union> chunk_blocks chs) \<union> - pown)"
  shows "agree m m' (blocks L \<union> - (pown - blocks K))" "agree m m' (blocks (K \<union> large_out L \<union> chunk_blocks chs))"
proof -
  have "blocks K \<subseteq> blocks (K \<union> large_out L \<union> chunk_blocks chs)" by (intro blocks_mono) blast
  then show "agree m m' (blocks L \<union> - (pown - blocks K))"
    using held_from_parent(1) [OF inv] by (intro agree_subset [OF ag]) blast
  show "agree m m' (blocks (K \<union> large_out L \<union> chunk_blocks chs))" by (rule agree_subset [OF ag]) blast
qed

section \<open>Large blocks\<close>

lemma alloc_large:
  assumes inv: "slab_inv pvt pok pown pmax K (m, self, p) L chs fls" and l: "request pmax l"
    and large: "class_idx l = CLASS_COUNT"
  shows "\<exists>q w'. slab_alloc l (m, self, p) = Some (q, w') \<and> agree m (fst w') (blocks L \<union> - (pown - blocks K)) \<and>
    (if q = 0 then slab_ok pvt pok pown pmax K w' L
     else (q, l) \<notin> L \<and> region q (lsize l) \<inter> blocks L = {} \<and> slab_ok pvt pok pown pmax K w' (insert (q, l) L))"
proof -
  let ?P = "K \<union> large_out L \<union> chunk_blocks chs"
  note I = slab_invD [OF inv]
  obtain q m' p' where call: "tda_alloc pvt l (m, p) = Some (q, (m', p'))"
    and ag: "agree m m' (blocks ?P \<union> - pown)"
    and r: "if q = 0 then pok (m', p') ?P
      else (q, l) \<notin> ?P \<and> region q (lsize l) \<inter> blocks ?P = {} \<and> pok (m', p') (insert (q, l) ?P)"
    using parent.tda_alloc_spec [OF I(3) l] by fastforce
  note A = agree_client [OF inv ag]
  let ?self = "self\<lparr>sl_large := wadd (sl_large self) 1\<rparr>"
  have run: "slab_alloc l (m, self, p) = Some (q, (m', if q = 0 then self else ?self, p'))"
    using I(1) call requestD(1) [OF l] large by (simp add: slab_alloc_def assert_slab_def class_of_eq)
  show ?thesis
  proof (cases "q = 0")
    case True
    then have "slab_ok pvt pok pown pmax K (m', self, p') L"
      using parent_step [OF inv _ A(2), of p'] r by (auto simp: slab_ok_def)
    then show ?thesis using run True A(1) by simp
  next
    case False
    then have new: "region q (lsize l) \<inter> blocks ?P = {}" and pok: "pok (m', p') (insert (q, l) ?P)"
      using r by simp_all
    note W = wf_blockD [OF parent.ok_wf [OF pok], of q l]
    have outL: "region q (lsize l) \<inter> blocks L = {}" using new held_from_parent(1) [OF inv] by blast
    have ne: "region q (lsize l) \<noteq> {}" using requestD(1) [OF l] by (auto simp: region_def)
    have notin: "(q, l) \<notin> L" using outL ne block_in_blocks [of "(q, l)" L] by auto
    have notP: "(q, l) \<notin> ?P" using new ne block_in_blocks [of "(q, l)" ?P] by auto
    have "region q (lsize l) \<inter> blocks K = {}" using new blocks_mono [of K ?P] by blast
    then have wf: "wf_blocks (pown - blocks K) pmax (insert (q, l) L)"
      using W l outL by (intro wf_blocks_insert [OF I(5)]) auto
    have P: "K \<union> large_out (insert (q, l) L) \<union> chunk_blocks chs = insert (q, l) ?P"
      using large by (auto simp: large_out_insert)
    have small: "insert (q, l) L - large_out (insert (q, l) L) = L - large_out L"
      using large by (simp add: small_insert)
    have "card (large_out (insert (q, l) L)) = Suc (card (large_out L))"
      using notin wf_card(1) [OF I(5)] large finite_subset [OF large_out_sub]
      by (simp add: large_out_insert) (auto simp: large_out_def)
    moreover have "card (large_out (insert (q, l) L)) < SIZE_MAX"
      using wf_card [OF wf] card_mono [OF _ large_out_sub, of "insert (q, l) L"] by simp
    ultimately have cnt: "sl_large ?self = card (large_out (insert (q, l) L))" using I(13) by simp
    have "slab_inv pvt pok pown pmax K (m', ?self, p') (insert (q, l) L) chs fls"
    proof (rule slab_invI)
      show "pok (m', p') (K \<union> large_out (insert (q, l) L) \<union> chunk_blocks chs)" using pok unfolding P .
      show "chunk_blocks chs \<inter> (K \<union> insert (q, l) L) = {}" using I(4) notP by auto
      show "slab_links m' ?self chs fls" using links_kept [OF inv A(2)] by (simp add: slab_links_def)
      show "sl_small ?self = card (insert (q, l) L - large_out (insert (q, l) L))" using I(12) small by simp
      show "carved (set chs) (cells_free fls \<union> cells_out (insert (q, l) L)) (grounds ?self)"
        using I(11) large by (simp add: cells_out_insert grounds_def [abs_def])
      show "cells_free fls \<inter> cells_out (insert (q, l) L) = {}" using I(10) large by (simp add: cells_out_insert)
    qed (use I(1,2,6,7,9) wf cnt in simp_all)
    then have "slab_ok pvt pok pown pmax K (m', ?self, p') (insert (q, l) L)" by (auto simp: slab_ok_def)
    then show ?thesis using run False A(1) notin outL by simp
  qed
qed

lemma dealloc_large:
  assumes inv: "slab_inv pvt pok pown pmax K (m, self, p) L chs fls" and b: "(q, l) \<in> L"
    and large: "class_idx l = CLASS_COUNT"
  shows "\<exists>w'. slab_dealloc q l (m, self, p) = Some w' \<and> agree m (fst w') (blocks (L - {(q, l)}) \<union> - (pown - blocks K)) \<and>
    slab_ok pvt pok pown pmax K w' (L - {(q, l)})"
proof -
  let ?P = "K \<union> large_out L \<union> chunk_blocks chs" and ?L = "L - {(q, l)}"
  note I = slab_invD [OF inv]
  note W = wf_blockD [OF I(5) b]
  have lo: "(q, l) \<in> large_out L" using b large by (simp add: large_out_def)
  have inP: "(q, l) \<in> ?P" using lo by simp
  obtain m' p' where call: "tda_dealloc pvt q l (m, p) = Some (m', p')"
    and ag: "agree m m' (blocks (?P - {(q, l)}) \<union> - pown)" and pok: "pok (m', p') (?P - {(q, l)})"
    using parent.tda_dealloc_spec [OF I(3) inP] by fastforce
  have fin: "finite (large_out L)" using wf_card(1) [OF I(5)] large_out_sub finite_subset by blast
  then have pos: "0 < sl_large self" using I(13) lo by (auto simp: card_gt_0_iff)
  let ?self = "self\<lparr>sl_large := sl_large self - 1\<rparr>"
  have run: "slab_dealloc q l (m, self, p) = Some (m', ?self, p')"
    using I(1) call W(1) requestD(1) [OF W(2)] large pos by (simp add: slab_dealloc_def assert_slab_def class_of_eq)
  note K = out_not_others [OF inv b]
  have P: "K \<union> large_out ?L \<union> chunk_blocks chs = ?P - {(q, l)}" using K by (auto simp: large_out_remove)
  have small: "?L - large_out ?L = L - large_out L" using large by (auto simp: large_out_def)
  note cells = cells_out_large [OF large]
  have inv0: "slab_links m ?self chs fls" using I(8) by (simp add: slab_links_def)
  have chunk: "region c CHUNK_BYTES \<subseteq> blocks (?P - {(q, l)})" if "c \<in> set chs" for c
    using block_in_blocks [of "(c, chunk_layout)" "?P - {(q, l)}"] that I(4) b
    by (auto simp: chunk_blocks_def chunk_layout_def)
  have links: "slab_links m' ?self chs fls"
    using inv0
  proof (rule slab_links_agree)
    show "agree m m' (region (c + CHUNK_ROOM) 8)" if "c \<in> set chs" for c
      using chunk [OF that] room_link(2) by (intro agree_subset [OF ag]) blast
    show "agree m m' (region (snd d) 8)" if d: "d \<in> cells_free fls" for d
    proof -
      obtain c where "c \<in> set chs" "cell_region d \<subseteq> region c CHUNK_ROOM"
        using cell_place(1) [OF inv UnI1 [OF d]] by blast
      then show ?thesis using chunk cell_place(6) [OF inv, of d] d room_link(1) by (intro agree_subset [OF ag]) blast
    qed
  qed
  have inv': "slab_inv pvt pok pown pmax K (m', ?self, p') ?L chs fls"
  proof (rule slab_invI)
    show "pok (m', p') (K \<union> large_out ?L \<union> chunk_blocks chs)" using pok unfolding P .
    show "chunk_blocks chs \<inter> (K \<union> ?L) = {}" using I(4) by blast
    show "wf_blocks (pown - blocks K) pmax ?L" using wf_blocks_subset [OF I(5)] by blast
    show "carved (set chs) (cells_free fls \<union> cells_out ?L) (grounds ?self)"
      using I(11) by (simp add: cells grounds_def [abs_def])
    show "cells_free fls \<inter> cells_out ?L = {}" using I(10) by (simp add: cells)
    show "sl_small ?self = card (?L - large_out ?L)" using I(12) small by simp
    show "sl_large ?self = card (large_out ?L)" using I(13) lo fin by (simp add: large_out_remove)
  qed (use I(1,2,6,7,9) links in simp_all)
  have bk: "blocks K \<subseteq> blocks (?P - {(q, l)})" using K(1) by (intro blocks_mono) blast
  have "blocks ?L \<subseteq> blocks (?P - {(q, l)})" using held_from_parent(1) [OF inv'] unfolding P .
  then have "agree m m' (blocks ?L \<union> - (pown - blocks K))" using bk by (intro agree_subset [OF ag]) blast
  then show ?thesis using run inv' by (auto simp: slab_ok_def)
qed

end

end
