(* ===== verification/SlabProps.thy ===== *)
theory SlabProps
  imports SlabLaws
begin

text \<open>
  Small blocks of a slab, the contract of its hooks, what any history of its clients keeps, and deinit.
\<close>

lemma sl_classes_set [simp]:
  "sl_parent (set_class i c self) = sl_parent self" "sl_chunks (set_class i c self) = sl_chunks self"
  "sl_count (set_class i c self) = sl_count self" "sl_small (set_class i c self) = sl_small self"
  "sl_large (set_class i c self) = sl_large self" "length (sl_classes (set_class i c self)) = length (sl_classes self)"
  by (simp_all add: set_class_def)

lemma sl_classes_nth:
  "i < length (sl_classes self) \<Longrightarrow> sl_classes (set_class i c self) ! j = (if j = i then c else sl_classes self ! j)"
  by (simp add: set_class_def nth_list_update)

lemma grounds_set:
  "i < length (sl_classes self) \<Longrightarrow> grounds (set_class i c self) = (grounds self)(i := (sc_carve c, sc_end c))"
  by (auto simp: grounds_def fun_eq_iff sl_classes_nth)

context slab_parent begin

section \<open>Small blocks\<close>

lemma small_taken:
  assumes inv: "slab_inv pvt pok pown pmax K (m, self, p) L chs fls" and l: "request pmax l"
    and i: "class_idx l < CLASS_COUNT" and ok: "cell_ok (set chs) (class_idx l, x)"
    and clear: "cell_region (class_idx l, x) \<inter> blocks L = {}"
  shows "x \<noteq> 0" "(x, l) \<notin> L" "region x (lsize l) \<inter> blocks L = {}" "wf_blocks (pown - blocks K) pmax (insert (x, l) L)"
    "wadd (sl_small self) 1 = card (insert (x, l) L - large_out (insert (x, l) L))"
    "large_out (insert (x, l) L) = large_out L" "chunk_blocks chs \<inter> (K \<union> insert (x, l) L) = {}"
proof -
  note I = slab_invD [OF inv]
  have sub: "region x (lsize l) \<subseteq> cell_region (class_idx l, x)"
    using class_idx_serves(1) [OF i] by (auto simp: cell_region_def)
  obtain b where b: "b \<in> set chs" "b \<le> x" "x + csize (class_idx l) \<le> b + CHUNK_ROOM" "low_bit (class_idx l) dvd x"
    using ok by (auto simp: cell_ok_def)
  note P = chunk_place [OF inv b(1)]
  show x0: "x \<noteq> 0" using P(1) b(2) by auto
  show dis: "region x (lsize l) \<inter> blocks L = {}" using clear sub by blast
  have mem: "x \<in> region x (lsize l)" using requestD(1) [OF l] by simp
  then show new: "(x, l) \<notin> L" using dis block_in_blocks [of "(x, l)" L] unfolding block_region_pair by blast
  have "region x (lsize l) \<subseteq> region b CHUNK_BYTES"
    using b class_idx_serves(1) [OF i] by (auto simp: CHUNK_ROOM_def)
  then have own: "region x (lsize l) \<subseteq> pown - blocks K" using P(4) by blast
  have "lalign l dvd low_bit (class_idx l)"
    using align_dvd [OF requestD(3) [OF l] class_facts(1) [OF i] class_idx_serves(2) [OF i]] .
  moreover have "x + lsize l \<le> SIZE_MAX" using b P(3) class_idx_serves(1) [OF i] by (simp add: CHUNK_ROOM_def)
  ultimately show wf: "wf_blocks (pown - blocks K) pmax (insert (x, l) L)"
    using l x0 own dis b(4) by (intro wf_blocks_insert [OF I(5)]) auto
  show lo: "large_out (insert (x, l) L) = large_out L" using i by (simp add: large_out_insert)
  have "card (insert (x, l) L - large_out L) = Suc (card (L - large_out L))"
    using new large_out_sub [of L] wf_card(1) [OF I(5)] by (simp add: insert_Diff_if) blast
  moreover have "card (insert (x, l) L - large_out L) < SIZE_MAX"
    using wf_card [OF wf] card_mono [of "insert (x, l) L" "insert (x, l) L - large_out L"] by fastforce
  ultimately show "wadd (sl_small self) 1 = card (insert (x, l) L - large_out (insert (x, l) L))"
    using I(12) lo by simp
  have "lsize l < CHUNK_BYTES" using class_idx_serves(1) [OF i] class_facts(5) [OF i] by (simp add: CHUNK_BYTES_def)
  then have "(x, l) \<notin> chunk_blocks chs" by (auto simp: chunk_blocks_def chunk_layout_def)
  then show "chunk_blocks chs \<inter> (K \<union> insert (x, l) L) = {}" using I(4) by auto
qed

text \<open>The head of the list of free blocks is handed out.\<close>

lemma take_free:
  assumes inv: "slab_inv pvt pok pown pmax K (m, self, p) L chs fls" and l: "request pmax l"
    and i: "class_idx l = i" "i < CLASS_COUNT" and fl: "fls i = x # xs"
  shows "slab_inv pvt pok pown pmax K
      (m, (set_class i ((sl_classes self ! i)\<lparr>sc_free := load_ptr m x\<rparr>) self)\<lparr>sl_small := wadd (sl_small self) 1\<rparr>, p)
      (insert (x, l) L) chs (fls(i := xs))" "sc_free (sl_classes self ! i) = x"
    "x \<noteq> 0" "(x, l) \<notin> L" "region x (lsize l) \<inter> blocks L = {}"
proof -
  note I = slab_invD [OF inv]
  have free: "(i, x) \<in> cells_free fls" using i fl by (simp add: cells_free_def)
  have ok: "cell_ok (set chs) (class_idx l, x)" using carvedD(1) [OF I(11), of "(i, x)"] free i(1) by simp
  note T = small_taken [OF inv l i(2) [folded i(1)] ok]
  have clear: "cell_region (class_idx l, x) \<inter> blocks L = {}" using out_free [OF inv free] i(1) by simp
  note T = T [OF clear]
  show "x \<noteq> 0" "(x, l) \<notin> L" "region x (lsize l) \<inter> blocks L = {}" by (rule T)+
  have "chain m (sc_free (sl_classes self ! i)) (fls i)" using I(8) i(2) by (simp add: slab_links_def)
  then have ch: "chain m (sc_free (sl_classes self ! i)) (x # xs)" unfolding fl .
  then show "sc_free (sl_classes self ! i) = x" by simp
  let ?c = "(sl_classes self ! i)\<lparr>sc_free := load_ptr m x\<rparr>" and ?fls = "fls(i := xs)"
  let ?self = "(set_class i ?c self)\<lparr>sl_small := wadd (sl_small self) 1\<rparr>"
  have d: "distinct (x # xs)" using I(9) [OF i(2)] fl by simp
  have cf: "cells_free ?fls = cells_free fls - {(i, x)}" using fl d by (auto simp: cells_free_def)
  have co: "cells_out (insert (x, l) L) = insert (i, x) (cells_out L)" using i by (simp add: cells_out_insert)
  have len: "i < length (sl_classes self)" using I(2) i(2) by simp
  show "slab_inv pvt pok pown pmax K (m, ?self, p) (insert (x, l) L) chs ?fls"
  proof (rule slab_invI)
    have "cells_free ?fls \<union> cells_out (insert (x, l) L) = cells_free fls \<union> cells_out L" using free cf co by auto
    moreover have "grounds ?self = grounds self"
      using grounds_set [OF len, of ?c] by (auto simp: grounds_def [abs_def] fun_eq_iff split: if_splits)
    ultimately show "carved (set chs) (cells_free ?fls \<union> cells_out (insert (x, l) L)) (grounds ?self)" using I(11) by simp
    show "cells_free ?fls \<inter> cells_out (insert (x, l) L) = {}" using cf co I(10) by auto
    show "slab_links m ?self chs ?fls" using I(8) ch by (auto simp: slab_links_def sl_classes_nth [OF len])
    show "distinct (?fls j)" if "j < CLASS_COUNT" for j using I(9) [OF that] d by auto
  qed (use I(1,2,3,6,7,13) T(4-7) in simp_all)
qed

text \<open>A chunk from the parent.\<close>

lemma lsize_chunk: "lsize chunk_layout = CHUNK_BYTES"
  by (simp add: chunk_layout_def)

lemma chunk_blocks_card: "distinct chs \<Longrightarrow> card (chunk_blocks chs) = length chs"
  unfolding chunk_blocks_def by (subst card_image) (auto simp: inj_on_def distinct_card)

lemma add_chunk_ok:
  assumes inv: "slab_inv pvt pok pown pmax K (m, self, p) L chs fls" and i: "i < CLASS_COUNT"
  shows "\<exists>b m' self' p'. add_chunk i (m, self, p) = Some (b, (m', self', p')) \<and>
    agree m m' (blocks L \<union> - (pown - blocks K)) \<and>
    (if b then \<exists>chs'. slab_inv pvt pok pown pmax K (m', self', p') L chs' fls \<and> can_carve (sl_classes self' ! i) (csize i)
     else self' = self \<and> slab_inv pvt pok pown pmax K (m', self', p') L chs fls)"
proof -
  let ?P = "K \<union> large_out L \<union> chunk_blocks chs"
  note I = slab_invD [OF inv]
  obtain s m1 p' where call: "tda_alloc pvt chunk_layout (m, p) = Some (s, (m1, p'))"
    and ag: "agree m m1 (blocks ?P \<union> - pown)"
    and r: "if s = 0 then pok (m1, p') ?P
      else (s, chunk_layout) \<notin> ?P \<and> region s CHUNK_BYTES \<inter> blocks ?P = {} \<and> pok (m1, p') (insert (s, chunk_layout) ?P)"
    using parent.tda_alloc_spec [OF I(3) chunk_request] unfolding lsize_chunk by fastforce
  show ?thesis
  proof (cases "s = 0")
    case True
    then show ?thesis
      using call I(1) agree_client [OF inv ag] parent_step [OF inv _ agree_client(2) [OF inv ag], of p'] r
      by (auto simp: add_chunk_def)
  next
    case False
    then have new: "region s CHUNK_BYTES \<inter> blocks ?P = {}" and pok1: "pok (m1, p') (insert (s, chunk_layout) ?P)"
      using r by simp_all
    note W = wf_blockD [OF parent.ok_wf [OF pok1], of s chunk_layout, simplified]
    have Ws: "CHUNK_ALIGN dvd s" "region s CHUNK_BYTES \<subseteq> pown" "s + CHUNK_BYTES \<le> SIZE_MAX"
      using W by (simp_all add: chunk_layout_def)
    let ?link = "s + CHUNK_ROOM"
    let ?m = "store_ptr m1 ?link (sl_chunks self)"
    let ?c = "(sl_classes self ! i)\<lparr>sc_carve := s, sc_end := ?link\<rparr>"
    let ?self = "set_class i ?c (self\<lparr>sl_chunks := ?link, sl_count := wadd (sl_count self) 1\<rparr>)"
    have run: "add_chunk i (m, self, p) = Some (True, (?m, ?self, p'))"
      using call I(1) False by (simp add: add_chunk_def Let_def)
    have lk: "region ?link 8 \<subseteq> region s CHUNK_BYTES" by (rule room_link)
    have ag1: "agree m1 ?m (blocks ?P \<union> - pown)"
      using lk new Ws(2) by (intro agree_store_ptr) blast
    have agm: "agree m ?m (blocks ?P \<union> - pown)" by (rule agree_trans [OF ag ag1])
    note A = agree_client [OF inv agm]
    have pok: "pok (?m, p') (insert (s, chunk_layout) ?P)"
    proof -
      have "agree m1 ?m (- blocks (insert (s, chunk_layout) ?P))"
        using lk by (intro agree_store_ptr) (auto simp: chunk_layout_def)
      then show ?thesis using parent.write_block [OF pok1, of ?m] by simp
    qed
    have ne: "s \<in> region s CHUNK_BYTES" by (simp add: CHUNK_BYTES_def)
    have notin: "(s, chunk_layout) \<notin> K \<union> L"
    proof
      assume "(s, chunk_layout) \<in> K \<union> L"
      then have "region s CHUNK_BYTES \<subseteq> blocks K \<union> blocks L"
        using block_in_blocks [of "(s, chunk_layout)"] by (auto simp: chunk_layout_def)
      then show False using new ne held_from_parent(1) [OF inv] blocks_mono [of K ?P] by blast
    qed
    have apart: "region s CHUNK_BYTES \<inter> region c CHUNK_BYTES = {}" if "c \<in> set chs" for c
      using chunk_place(7) [OF inv that] new by blast
    then have "s \<notin> set chs" using ne by blast
    with I(6) have dist: "distinct (s # chs)" by simp
    have cb: "chunk_blocks (s # chs) = insert (s, chunk_layout) (chunk_blocks chs)" by (simp add: chunk_blocks_def)
    have "card (chunk_blocks (s # chs)) \<le> card (insert (s, chunk_layout) ?P)"
      using wf_card(1) [OF parent.ok_wf [OF pok]] cb by (intro card_mono) auto
    then have "length (s # chs) < SIZE_MAX"
      using wf_card(2) [OF parent.ok_wf [OF pok]] chunk_blocks_card [OF dist] by simp
    then have cnt: "wadd (sl_count self) 1 = length (s # chs)" using I(7) by simp
    have links0: "slab_links ?m self chs fls" using links_kept [OF inv A(2)] .
    have "sl_chunks self \<le> SIZE_MAX"
    proof (cases chs)
      case Nil
      then show ?thesis using I(8) by (simp add: slab_links_def)
    next
      case (Cons c cs)
      then show ?thesis using I(8) chunk_place(3) [OF inv, of c] by (simp add: slab_links_def CHUNK_ROOM_def)
    qed
    then have ld: "load_ptr ?m ?link = sl_chunks self" by simp
    have cl: "sl_classes ?self ! j = (if j = i then ?c else sl_classes self ! j)" for j
      using I(2) i by (simp add: set_class_def nth_list_update)
    have gr: "grounds ?self = (grounds self)(i := (s, ?link))" unfolding grounds_def fun_eq_iff cl by simp
    have "slab_inv pvt pok pown pmax K (?m, ?self, p') L (s # chs) fls"
    proof (rule slab_invI)
      show "pok (?m, p') (K \<union> large_out L \<union> chunk_blocks (s # chs))" using pok by (simp add: cb)
      show "chunk_blocks (s # chs) \<inter> (K \<union> L) = {}" using I(4) notin by (auto simp: cb)
      show "slab_links ?m ?self (s # chs) fls"
        using links0 ld False unfolding slab_links_def cl by auto
      show "carved (set (s # chs)) (cells_free fls \<union> cells_out L) (grounds ?self)"
        using carve_chunk [OF I(11) i False Ws(1) apart]
        unfolding gr by simp
    qed (use I dist cnt in simp_all)
    moreover have "can_carve (sl_classes ?self ! i) (csize i)"
      using False class_facts(5) [OF i] Ws(3) unfolding can_carve_def cl
      by (simp add: wsub_small CHUNK_ROOM_def CHUNK_BYTES_def)
    ultimately show ?thesis using run A(1) by auto
  qed
qed

text \<open>A fresh block from the ground of its class.\<close>

lemma take_ground:
  assumes inv: "slab_inv pvt pok pown pmax K (m, self, p) L chs fls" and l: "request pmax l"
    and i: "class_idx l = i" "i < CLASS_COUNT" and can: "can_carve (sl_classes self ! i) (csize i)"
  defines "x \<equiv> sc_carve (sl_classes self ! i)"
  shows "slab_inv pvt pok pown pmax K
      (m, (set_class i ((sl_classes self ! i)\<lparr>sc_carve := x + csize i\<rparr>) self)\<lparr>sl_small := wadd (sl_small self) 1\<rparr>, p)
      (insert (x, l) L) chs fls"
    "x \<noteq> 0" "(x, l) \<notin> L" "region x (lsize l) \<inter> blocks L = {}"
proof -
  note I = slab_invD [OF inv]
  note C = carvedD [OF I(11)]
  let ?y = "sc_end (sl_classes self ! i)"
  have g: "grounds self i = (x, ?y)" by (simp add: grounds_def x_def)
  have x0: "x \<noteq> 0" using can by (simp add: can_carve_def x_def)
  obtain b where b: "b \<in> set chs" "b \<le> x" "x \<le> ?y" "?y = b + CHUNK_ROOM"
    using C(2) [OF i(2)] x0 by (auto simp: g ground_ok_def)
  have "?y \<le> SIZE_MAX" using chunk_place(3) [OF inv b(1)] b(4) by (simp add: CHUNK_ROOM_def)
  then have room: "csize i \<le> ?y - x" using can b(3) by (simp add: can_carve_def wsub_small flip: x_def)
  note V = carve_cell [OF I(11) i(2) g x0 room]
  have sub: "cell_region (i, x) \<subseteq> ground (grounds self i)" using room by (auto simp: cell_region_def ground_def g)
  have "cell_region (i, x) \<subseteq> region b CHUNK_ROOM" using b room by (auto simp: cell_region_def)
  moreover have "cell_region (i, x) \<inter> cell_region d = {}" if "d \<in> cells_out L" for d
    using C(4) [OF i(2), of d] that sub by blast
  ultimately have clear: "cell_region (i, x) \<inter> blocks L = {}" by (rule clear_of_out [OF inv b(1) _ subset_refl])
  note T = small_taken [OF inv l i(2) [folded i(1)], unfolded i(1), OF V(3) clear]
  show "x \<noteq> 0" "(x, l) \<notin> L" "region x (lsize l) \<inter> blocks L = {}" by (rule T)+
  let ?c = "(sl_classes self ! i)\<lparr>sc_carve := x + csize i\<rparr>"
  let ?self = "(set_class i ?c self)\<lparr>sl_small := wadd (sl_small self) 1\<rparr>"
  have len: "i < length (sl_classes self)" using I(2) i(2) by simp
  have co: "cells_out (insert (x, l) L) = insert (i, x) (cells_out L)" using i by (simp add: cells_out_insert)
  show "slab_inv pvt pok pown pmax K (m, ?self, p) (insert (x, l) L) chs fls"
  proof (rule slab_invI)
    have "grounds ?self = (grounds self)(i := (x + csize i, ?y))"
      using grounds_set [OF len, of ?c] by (simp add: grounds_def [abs_def])
    then show "carved (set chs) (cells_free fls \<union> cells_out (insert (x, l) L)) (grounds ?self)" using V(1) by (simp add: co)
    show "cells_free fls \<inter> cells_out (insert (x, l) L) = {}" using V(2) I(10) by (auto simp: co)
    show "slab_links m ?self chs fls" using I(8) by (auto simp: slab_links_def sl_classes_nth [OF len])
  qed (use I(1,2,3,6,7,9,13) T(4-7) in simp_all)
qed

lemma alloc_small:
  assumes inv: "slab_inv pvt pok pown pmax K (m, self, p) L chs fls" and l: "request pmax l"
    and small: "class_idx l \<noteq> CLASS_COUNT"
  shows "\<exists>q w'. slab_alloc l (m, self, p) = Some (q, w') \<and> agree m (fst w') (blocks L \<union> - (pown - blocks K)) \<and>
    (if q = 0 then slab_ok pvt pok pown pmax K w' L
     else (q, l) \<notin> L \<and> region q (lsize l) \<inter> blocks L = {} \<and> slab_ok pvt pok pown pmax K w' (insert (q, l) L))"
proof -
  note I = slab_invD [OF inv]
  let ?i = "class_idx l" let ?c = "sl_classes self ! ?i"
  have i: "?i < CLASS_COUNT" using small class_idx_le [of l] by simp
  have a: "assert_slab self" "class_of l = Some ?i" "0 < lsize l"
    using I(1) requestD(1) [OF l] by (simp_all add: assert_slab_def class_of_eq)
  show ?thesis
  proof (cases "fls ?i")
    case (Cons x xs)
    note T = take_free [OF inv l refl i Cons]
    then have "slab_alloc l (m, self, p) = Some (x, (m,
        (set_class ?i (?c\<lparr>sc_free := load_ptr m x\<rparr>) self)\<lparr>sl_small := wadd (sl_small self) 1\<rparr>, p))"
      using a small by (simp add: slab_alloc_def)
    then show ?thesis using T by (auto simp: slab_ok_def)
  next
    case Nil
    have "chain m (sc_free ?c) (fls ?i)" using I(8) i by (simp add: slab_links_def)
    then have e: "sc_free ?c = 0" unfolding Nil by simp
    show ?thesis
    proof (cases "can_carve ?c (csize ?i)")
      case True
      note T = take_ground [OF inv l refl i True]
      have "slab_alloc l (m, self, p) = Some (sc_carve ?c, (m, (set_class ?i (?c\<lparr>sc_carve := sc_carve ?c + csize ?i\<rparr>) self)
          \<lparr>sl_small := wadd (sl_small self) 1\<rparr>, p))"
        using a small True e T(2) by (simp add: slab_alloc_def carve_def Let_def)
      then show ?thesis using T by (auto simp: slab_ok_def)
    next
      case False
      obtain b m' self' p' where add: "add_chunk ?i (m, self, p) = Some (b, (m', self', p'))"
        and ag: "agree m m' (blocks L \<union> - (pown - blocks K))"
        and r: "if b then \<exists>chs'. slab_inv pvt pok pown pmax K (m', self', p') L chs' fls \<and> can_carve (sl_classes self' ! ?i) (csize ?i)
          else self' = self \<and> slab_inv pvt pok pown pmax K (m', self', p') L chs fls"
        using add_chunk_ok [OF inv i] by (elim exE conjE)
      show ?thesis
      proof (cases b)
        case b: True
        then obtain chs' where inv': "slab_inv pvt pok pown pmax K (m', self', p') L chs' fls"
          and can: "can_carve (sl_classes self' ! ?i) (csize ?i)" using r by auto
        note T = take_ground [OF inv' l refl i can]
        let ?c' = "sl_classes self' ! ?i"
        have "slab_alloc l (m, self, p) = Some (sc_carve ?c', (m', (set_class ?i (?c'\<lparr>sc_carve := sc_carve ?c' + csize ?i\<rparr>) self')
            \<lparr>sl_small := wadd (sl_small self') 1\<rparr>, p'))"
          using a small False e add b T(2) by (simp add: slab_alloc_def carve_def Let_def)
        then show ?thesis using T ag by (auto simp: slab_ok_def)
      next
        case b: False
        then have "slab_alloc l (m, self, p) = Some (0, (m', self', p'))"
          using a small False e add by (simp add: slab_alloc_def carve_def Let_def)
        then show ?thesis using r b ag by (auto simp: slab_ok_def)
      qed
    qed
  qed
qed

lemma dealloc_small:
  assumes inv: "slab_inv pvt pok pown pmax K (m, self, p) L chs fls" and b: "(q, l) \<in> L"
    and small: "class_idx l \<noteq> CLASS_COUNT"
  shows "\<exists>w'. slab_dealloc q l (m, self, p) = Some w' \<and> agree m (fst w') (blocks (L - {(q, l)}) \<union> - (pown - blocks K)) \<and>
    slab_ok pvt pok pown pmax K w' (L - {(q, l)})"
proof -
  let ?L = "L - {(q, l)}" and ?P = "K \<union> large_out L \<union> chunk_blocks chs"
  note I = slab_invD [OF inv]
  note W = wf_blockD [OF I(5) b]
  let ?i = "class_idx l" let ?c = "sl_classes self ! ?i" let ?d = "(?i, q)"
  let ?h = "sc_free ?c" let ?m = "store_ptr m q ?h"
  let ?self = "(set_class ?i (?c\<lparr>sc_free := q\<rparr>) self)\<lparr>sl_small := sl_small self - 1\<rparr>"
  let ?fls = "fls(?i := q # fls ?i)"
  have i: "?i < CLASS_COUNT" using small class_idx_le [of l] by simp
  have out: "?d \<in> cells_out L" by (rule small_cell [OF b small])
  then have dd: "?d \<in> cells_free fls \<union> cells_out L" by simp
  note D = cell_place [OF inv dd]
  have nf: "?d \<notin> cells_free fls" using out I(10) by auto
  have ch: "chain m ?h (fls ?i)" using I(8) i by (simp add: slab_links_def)
  have head: "?h = 0 \<or> (?i, ?h) \<in> cells_free fls" using ch i by (cases "fls ?i") (auto simp: cells_free_def)
  then have nh: "q \<noteq> ?h" using nf W(1) by auto
  have hmax: "?h \<le> SIZE_MAX" using head cell_place(4) [OF inv, of "(?i, ?h)"] by auto
  have fin: "finite (L - large_out L)" using wf_card(1) [OF I(5)] by simp
  have so: "(q, l) \<in> L - large_out L" using b small by (simp add: large_out_def)
  then have pos: "0 < sl_small self" using I(12) fin by (auto simp: card_gt_0_iff)
  have run: "slab_dealloc q l (m, self, p) = Some (?m, ?self, p)"
    using I(1) W(1) requestD(1) [OF W(2)] small pos nh
    by (simp add: slab_dealloc_def assert_slab_def class_of_eq Let_def)
  have r8: "region q 8 \<subseteq> cell_region ?d" using D(6) by simp
  have cells: "cells_free ?fls = insert ?d (cells_free fls)" "cells_out ?L = cells_out L - {?d}"
  proof -
    show "cells_free ?fls = insert ?d (cells_free fls)" using i by (auto simp: cells_free_def split: if_splits)
  qed (rule cells_out_remove [OF I(5) b])
  have len: "?i < length (sl_classes self)" using I(2) i by simp
  have free: "region (snd d) 8 \<inter> region q 8 = {}" if d: "d \<in> cells_free fls" for d
  proof -
    have "d \<noteq> ?d" using nf d by auto
    then have "cell_region d \<inter> cell_region ?d = {}" using carvedD(3) [OF I(11) UnI1 [OF d] dd] by simp
    then show ?thesis using r8 cell_place(6) [OF inv UnI1 [OF d]] by blast
  qed
  have old: "slab_links ?m self chs fls"
    using I(8)
  proof (rule slab_links_agree)
    show "agree m ?m (region (c + CHUNK_ROOM) 8)" if "c \<in> set chs" for c
      using cell_link [OF inv dd that] r8 by (intro agree_store_ptr) blast
    show "agree m ?m (region (snd d) 8)" if "d \<in> cells_free fls" for d
      by (rule agree_store_ptr [OF free [OF that]])
  qed
  have "region y 8 \<inter> region q 8 = {}" if "y \<in> set (fls ?i)" for y
    using free [of "(?i, y)"] that i by (simp add: cells_free_def)
  then have "chain ?m q (q # fls ?i)" by (rule chain_push [OF ch W(1) hmax])
  then have links: "slab_links ?m ?self chs ?fls"
    using old by (auto simp: slab_links_def sl_classes_nth [OF len])
  have inP: "cell_region ?d \<subseteq> blocks ?P" by (rule held_from_parent(2) [OF inv dd])
  have pok: "pok (?m, p) ?P"
    using parent.write_block [OF I(3), of ?m] agree_store_ptr [of "- blocks ?P" q m ?h] r8 inP by auto
  have lo: "large_out ?L = large_out L" using small by (auto simp: large_out_def)
  have sm: "?L - large_out L = L - large_out L - {(q, l)}" by blast
  have inv': "slab_inv pvt pok pown pmax K (?m, ?self, p) ?L chs ?fls"
  proof (rule slab_invI)
    show "pok (?m, p) (K \<union> large_out ?L \<union> chunk_blocks chs)" using pok by (simp add: lo)
    show "chunk_blocks chs \<inter> (K \<union> ?L) = {}" using I(4) by blast
    show "wf_blocks (pown - blocks K) pmax ?L" using wf_blocks_subset [OF I(5)] by blast
    have "cells_free ?fls \<union> cells_out ?L = cells_free fls \<union> cells_out L" using cells out by auto
    moreover have "grounds ?self = grounds self"
      using grounds_set [OF len, of "?c\<lparr>sc_free := q\<rparr>"] by (auto simp: grounds_def [abs_def] fun_eq_iff split: if_splits)
    ultimately show "carved (set chs) (cells_free ?fls \<union> cells_out ?L) (grounds ?self)" using I(11) by simp
    show "cells_free ?fls \<inter> cells_out ?L = {}" using cells I(10) by auto
    show "distinct (?fls j)" if "j < CLASS_COUNT" for j
      using I(9) [OF that] nf i by (auto simp: cells_free_def)
    show "sl_small ?self = card (?L - large_out ?L)" using I(12) so fin by (simp add: lo sm)
    show "sl_large ?self = card (large_out ?L)" using I(13) by (simp add: lo)
  qed (use I(1,2,6,7) links in simp_all)
  have "cell_region ?d \<inter> blocks ?L = {}" using out_free [OF inv', of ?d] cells(1) by simp
  moreover have "cell_region ?d \<subseteq> pown - blocks K"
    using D(1) chunk_place(4) [OF inv] room_link(1) by blast
  ultimately have "agree m ?m (blocks ?L \<union> - (pown - blocks K))" using r8 by (intro agree_store_ptr) blast
  then show ?thesis using run inv' by (auto simp: slab_ok_def)
qed

section \<open>Resizing\<close>

lemma large_replaced:
  assumes inv: "slab_inv pvt pok pown pmax K (m, self, p) L chs fls" and b: "(q, old) \<in> L"
    and large: "class_idx old = CLASS_COUNT" "class_idx new = CLASS_COUNT" and l: "request pmax new"
    and new: "(r, new) \<notin> K \<union> large_out L \<union> chunk_blocks chs - {(q, old)}"
    and pok: "pok (m', p') (insert (r, new) (K \<union> large_out L \<union> chunk_blocks chs - {(q, old)}))"
    and ag: "agree m m' (blocks (K \<union> large_out L \<union> chunk_blocks chs - {(q, old)}) \<union> - pown)"
  shows "slab_ok pvt pok pown pmax K (m', self, p') (insert (r, new) (L - {(q, old)}))"
    "agree m m' (blocks (L - {(q, old)}) \<union> - (pown - blocks K))" "(r, new) \<notin> L - {(q, old)}"
proof -
  let ?P = "K \<union> large_out L \<union> chunk_blocks chs" and ?L = "L - {(q, old)}"
  note I = slab_invD [OF inv]
  note N = out_not_others [OF inv b]
  have lo: "(q, old) \<in> large_out L" using b large by (simp add: large_out_def)
  have fin: "finite (large_out L)" using wf_card(1) [OF I(5)] large_out_sub finite_subset by blast
  note W = wf_blockD [OF parent.ok_wf [OF pok] insertI1]
  have chunk: "region c CHUNK_BYTES \<subseteq> blocks (?P - {(q, old)})" if "c \<in> set chs" for c
    using block_in_blocks [of "(c, chunk_layout)" "?P - {(q, old)}"] that I(4) b
    by (auto simp: chunk_blocks_def chunk_layout_def)
  have kept: "blocks ?L \<subseteq> blocks (?P - {(q, old)})"
  proof -
    have "region x (lsize l) \<subseteq> blocks (?P - {(q, old)})" if x: "(x, l) \<in> ?L" for x l
    proof (cases "class_idx l = CLASS_COUNT")
      case True
      then have "(x, l) \<in> ?P - {(q, old)}" using x by (simp add: large_out_def)
      from block_in_blocks [OF this] show ?thesis by simp
    next
      case False
      have "(x, l) \<in> L" using x by simp
      note sc = small_cell [OF this False] small_in_cell [OF this False]
      then show ?thesis using cell_place(1) [OF inv UnI2 [OF sc(1)]] chunk room_link(1) by blast
    qed
    then show ?thesis unfolding blocks_def [of ?L] block_region_def by force
  qed
  have bk: "blocks K \<subseteq> blocks (?P - {(q, old)})" using N by (intro blocks_mono) blast
  show "agree m m' (blocks ?L \<union> - (pown - blocks K))" using kept bk by (intro agree_subset [OF ag]) blast
  have "insert (r, new) (?P - {(q, old)}) - {(r, new)} = ?P - {(q, old)}" using new by blast
  then have apart: "region r (lsize new) \<inter> blocks (?P - {(q, old)}) = {}"
    using wf_blocks_other [OF parent.ok_wf [OF pok] insertI1] by simp
  have mem: "r \<in> region r (lsize new)" using requestD(1) [OF l] by simp
  then show notin: "(r, new) \<notin> ?L"
    using apart kept block_in_blocks [of "(r, new)" ?L] unfolding block_region_pair by blast
  have wf: "wf_blocks (pown - blocks K) pmax (insert (r, new) ?L)"
    using W l apart kept bk wf_blocks_subset [OF I(5), of ?L] by (intro wf_blocks_insert) auto
  have P: "K \<union> large_out (insert (r, new) ?L) \<union> chunk_blocks chs = insert (r, new) (?P - {(q, old)})"
    using large N by (auto simp: large_out_insert large_out_remove)
  have notc: "(r, new) \<notin> chunk_blocks chs"
  proof
    assume "(r, new) \<in> chunk_blocks chs"
    then have "r \<in> set chs" "lsize new = CHUNK_BYTES" by (auto simp: chunk_blocks_def chunk_layout_def)
    then show False using apart chunk [of r] mem by (metis IntI empty_iff subsetD)
  qed
  have notk: "(r, new) \<notin> K"
    using apart bk mem block_in_blocks [of "(r, new)" K] unfolding block_region_pair by blast
  have small: "insert (r, new) ?L - large_out (insert (r, new) ?L) = L - large_out L"
    using large by (auto simp: large_out_def)
  have cells: "cells_out (insert (r, new) ?L) = cells_out L"
    using cells_out_large [OF large(1)] large(2) by (simp add: cells_out_insert)
  have links: "slab_links m' self chs fls"
    using I(8)
  proof (rule slab_links_agree)
    show "agree m m' (region (c + CHUNK_ROOM) 8)" if "c \<in> set chs" for c
      using chunk [OF that] room_link(2) by (intro agree_subset [OF ag]) blast
    show "agree m m' (region (snd d) 8)" if d: "d \<in> cells_free fls" for d
      using cell_place(1,6) [OF inv UnI1 [OF d]] chunk room_link(1) by (intro agree_subset [OF ag]) blast
  qed
  have "slab_inv pvt pok pown pmax K (m', self, p') (insert (r, new) ?L) chs fls"
  proof (rule slab_invI)
    show "pok (m', p') (K \<union> large_out (insert (r, new) ?L) \<union> chunk_blocks chs)" using pok unfolding P .
    show "chunk_blocks chs \<inter> (K \<union> insert (r, new) ?L) = {}" using I(4) notc by blast
    show "cells_free fls \<inter> cells_out (insert (r, new) ?L) = {}" using I(10) by (simp add: cells)
    show "carved (set chs) (cells_free fls \<union> cells_out (insert (r, new) ?L)) (grounds self)" using I(11) by (simp add: cells)
    show "sl_small self = card (insert (r, new) ?L - large_out (insert (r, new) ?L))" using I(12) by (simp add: small)
    have "(r, new) \<notin> large_out L - {(q, old)}" using notin large_out_sub by blast
    then have "card (insert (r, new) (large_out L - {(q, old)})) = card (large_out L)"
      using fin lo by (simp add: card_gt_0_iff) (metis Suc_pred card_gt_0_iff empty_iff)
    then show "sl_large self = card (large_out (insert (r, new) ?L))"
      using I(13) large(2) by (simp add: large_out_insert large_out_remove)
  qed (use I(1,2,6,7,9) wf links in simp_all)
  then show "slab_ok pvt pok pown pmax K (m', self, p') (insert (r, new) ?L)" by (auto simp: slab_ok_def)
qed

lemma same_class:
  assumes inv: "slab_inv pvt pok pown pmax K (m, self, p) L chs fls" and b: "(q, old) \<in> L"
    and same: "class_idx new = class_idx old" and small: "class_idx old \<noteq> CLASS_COUNT" and l: "request pmax new"
  shows "slab_ok pvt pok pown pmax K (m, self, p) (insert (q, new) (L - {(q, old)}))"
proof -
  let ?L = "L - {(q, old)}" and ?d = "(class_idx old, q)"
  note I = slab_invD [OF inv]
  have i: "class_idx new < CLASS_COUNT" using same small class_idx_le [of old] by simp
  have out: "?d \<in> cells_out L" by (rule small_cell [OF b small])
  note D = cell_place [OF inv UnI2 [OF out]]
  have wf: "wf_blocks (pown - blocks K) pmax ?L" using wf_blocks_subset [OF I(5)] by blast
  have sub: "region q (lsize new) \<subseteq> cell_region ?d"
    using class_idx_serves(1) [OF i] same by (auto simp: cell_region_def)
  obtain c where c: "c \<in> set chs" "cell_region ?d \<subseteq> region c CHUNK_ROOM" using D(1) by blast
  have co: "cells_out ?L = cells_out L - {?d}" by (rule cells_out_remove [OF I(5) b])
  have lo: "large_out ?L = large_out L" using small by (auto simp: large_out_def)
  have "cell_region ?d \<inter> cell_region e = {}" if "e \<in> cells_out ?L" for e
    using carvedD(3) [OF I(11), of ?d e] that out unfolding co by blast
  then have "cell_region ?d \<inter> blocks ?L = {}" by (intro clear_of_out [OF inv c]) blast+
  then have clear: "region q (lsize new) \<inter> blocks ?L = {}" using sub by blast
  have "region q (lsize new) \<subseteq> pown - blocks K"
    using sub c chunk_place(4) [OF inv c(1)] room_link(1) by blast
  moreover have "lalign new dvd low_bit (class_idx new)"
    using align_dvd [OF requestD(3) [OF l] class_facts(1) [OF i] class_idx_serves(2) [OF i]] .
  then have "lalign new dvd q" using D(5) same by (metis dvd_trans fst_conv snd_conv)
  moreover have "q + lsize new \<le> SIZE_MAX" using D(4) class_idx_serves(1) [OF i] same by simp
  ultimately have wf': "wf_blocks (pown - blocks K) pmax (insert (q, new) ?L)"
    using wf D(3) l clear by (intro wf_blocks_insert) auto
  have cells: "cells_out (insert (q, new) ?L) = cells_out L"
    using out i same unfolding cells_out_insert co by auto
  have lo': "large_out (insert (q, new) ?L) = large_out L" using i by (simp add: large_out_insert lo)
  have mem: "q \<in> region q (lsize new)" using requestD(1) [OF l] by simp
  then have nin: "(q, new) \<notin> ?L" using clear block_in_blocks [of "(q, new)" ?L] unfolding block_region_pair by blast
  have so: "(q, old) \<in> L - large_out L" using b small by (simp add: large_out_def)
  have fin: "finite (L - large_out L)" using wf_card(1) [OF I(5)] by simp
  have "insert (q, new) ?L - large_out L = insert (q, new) (L - large_out L - {(q, old)})"
    using i by (auto simp: large_out_def)
  moreover have "(q, new) \<notin> L - large_out L - {(q, old)}" using nin by blast
  ultimately have cnt: "card (insert (q, new) ?L - large_out L) = card (L - large_out L)"
    using fin so by simp (metis Diff_iff Suc_pred card_gt_0_iff empty_iff)
  have "lsize new < CHUNK_BYTES" using class_idx_serves(1) [OF i] class_facts(5) [OF i] by (simp add: CHUNK_BYTES_def)
  then have nc: "(q, new) \<notin> chunk_blocks chs" by (auto simp: chunk_blocks_def chunk_layout_def)
  have "slab_inv pvt pok pown pmax K (m, self, p) (insert (q, new) ?L) chs fls"
  proof (rule slab_invI)
    show "chunk_blocks chs \<inter> (K \<union> insert (q, new) ?L) = {}" using I(4) nc by blast
    show "cells_free fls \<inter> cells_out (insert (q, new) ?L) = {}" using I(10) by (simp add: cells)
    show "carved (set chs) (cells_free fls \<union> cells_out (insert (q, new) ?L)) (grounds self)" using I(11) by (simp add: cells)
    show "sl_small self = card (insert (q, new) ?L - large_out (insert (q, new) ?L))" using I(12) cnt by (simp add: lo')
  qed (use I wf' in \<open>simp_all add: lo'\<close>)
  then show ?thesis by (auto simp: slab_ok_def)
qed

lemma relayout: "\<lparr>lsize = n, lalign = lalign old\<rparr> = old\<lparr>lsize := n\<rparr>"
  by (cases old) simp

lemma stays_large_eq:
  "0 < lsize old \<Longrightarrow> 0 < n \<Longrightarrow> stays_large old n =
     Some (class_idx old = CLASS_COUNT \<and> class_idx (old\<lparr>lsize := n\<rparr>) = CLASS_COUNT)"
  by (auto simp: stays_large_def class_of_eq relayout)

lemma resize_contract:
  assumes ok: "slab_ok pvt pok pown pmax K w L" and b: "(q, old) \<in> L" and l: "request pmax (old\<lparr>lsize := n\<rparr>)"
  shows "\<exists>r w'. slab_resize q old n w = Some (r, w') \<and>
    (if r then agree (fst w) (fst w') (blocks (L - {(q, old)}) \<union> - (pown - blocks K)) \<and>
       bytes (fst w') q (min (lsize old) n) = bytes (fst w) q (min (lsize old) n) \<and>
       slab_ok pvt pok pown pmax K w' (insert (q, old\<lparr>lsize := n\<rparr>) (L - {(q, old)}))
     else agree (fst w) (fst w') (blocks L \<union> - (pown - blocks K)) \<and> slab_ok pvt pok pown pmax K w' L)"
proof -
  obtain m self p where w: "w = (m, self, p)" by (cases w) auto
  obtain chs fls where inv: "slab_inv pvt pok pown pmax K (m, self, p) L chs fls" using ok by (auto simp: w slab_ok_def)
  let ?P = "K \<union> large_out L \<union> chunk_blocks chs" and ?new = "old\<lparr>lsize := n\<rparr>"
  note I = slab_invD [OF inv]
  note W = wf_blockD [OF I(5) b]
  have n: "0 < lsize old" "0 < n" using requestD(1) [OF W(2)] requestD(1) [OF l] by simp_all
  show ?thesis
  proof (cases "class_idx old = CLASS_COUNT \<and> class_idx ?new = CLASS_COUNT")
    case True
    then have inP: "(q, old) \<in> ?P" using b by (simp add: large_out_def)
    note S = parent.tda_resize_spec [OF I(3) inP l, unfolded fst_conv]
    obtain r w' where call: "tda_resize pvt q old n (m, p) = Some (r, w')"
      and R': "if r then agree m (fst w') (blocks (?P - {(q, old)}) \<union> - pown) \<and>
          bytes (fst w') q (min (lsize old) n) = bytes m q (min (lsize old) n) \<and> pok w' (insert (q, ?new) (?P - {(q, old)}))
        else agree m (fst w') (blocks ?P \<union> - pown) \<and> pok w' ?P"
      using S by (elim exE conjE)
    obtain m' p' where w': "w' = (m', p')" by (cases w')
    note call = call [unfolded w'] and R = R' [unfolded w' fst_conv]
    have run: "slab_resize q old n w = Some (r, (m', self, p'))"
      using I(1) W(1) n True call by (simp add: w slab_resize_def assert_slab_def stays_large_eq)
    show ?thesis
    proof (cases r)
      case r: True
      then have pok: "pok (m', p') (insert (q, ?new) (?P - {(q, old)}))" and ag: "agree m m' (blocks (?P - {(q, old)}) \<union> - pown)"
        and bys: "bytes m' q (min (lsize old) n) = bytes m q (min (lsize old) n)" using R by simp_all
      have "(q, ?new) \<notin> ?P - {(q, old)}"
        using wf_blocks_same_addr [OF parent.ok_wf [OF I(3)] inP, of ?new] by auto
      note N = large_replaced [OF inv b True [THEN conjunct1] True [THEN conjunct2] l this pok ag]
      show ?thesis using run r bys N by (auto simp: w)
    next
      case r: False
      then have ag: "agree m m' (blocks ?P \<union> - pown)" and pok: "pok (m', p') ?P" using R by simp_all
      note A = agree_client [OF inv ag]
      show ?thesis using run r A(1) parent_step [OF inv pok A(2)] by (auto simp: w slab_ok_def)
    qed
  next
    case False
    then have run: "slab_resize q old n w = Some (class_idx old = class_idx ?new, w)"
      using I(1) W(1) n by (auto simp: w slab_resize_def assert_slab_def stays_large_eq class_of_eq relayout)
    show ?thesis
    proof (cases "class_idx old = class_idx ?new")
      case True
      then show ?thesis using run same_class [OF inv b True [symmetric] _ l] False by (auto simp: w)
    qed (use run ok in auto)
  qed
qed

lemma remap_contract:
  assumes ok: "slab_ok pvt pok pown pmax K w L" and b: "(q, old) \<in> L" and l: "request pmax (old\<lparr>lsize := n\<rparr>)"
  shows "\<exists>r w'. slab_remap q old n w = Some (r, w') \<and>
    (if r \<noteq> 0 then (r, old\<lparr>lsize := n\<rparr>) \<notin> L - {(q, old)} \<and>
       agree (fst w) (fst w') (blocks (L - {(q, old)}) \<union> - (pown - blocks K)) \<and>
       bytes (fst w') r (min (lsize old) n) = bytes (fst w) q (min (lsize old) n) \<and>
       slab_ok pvt pok pown pmax K w' (insert (r, old\<lparr>lsize := n\<rparr>) (L - {(q, old)}))
     else agree (fst w) (fst w') (blocks L \<union> - (pown - blocks K)) \<and> slab_ok pvt pok pown pmax K w' L)"
proof -
  obtain m self p where w: "w = (m, self, p)" by (cases w) auto
  obtain chs fls where inv: "slab_inv pvt pok pown pmax K (m, self, p) L chs fls" using ok by (auto simp: w slab_ok_def)
  let ?P = "K \<union> large_out L \<union> chunk_blocks chs" and ?new = "old\<lparr>lsize := n\<rparr>"
  note I = slab_invD [OF inv]
  note W = wf_blockD [OF I(5) b]
  have n: "0 < lsize old" "0 < n" using requestD(1) [OF W(2)] requestD(1) [OF l] by simp_all
  show ?thesis
  proof (cases "class_idx old = CLASS_COUNT \<and> class_idx ?new = CLASS_COUNT")
    case True
    then have "(q, old) \<in> ?P" using b by (simp add: large_out_def)
    note S = parent.tda_remap_spec [OF I(3) this l, unfolded fst_conv]
    obtain r w' where call: "tda_remap pvt q old n (m, p) = Some (r, w')"
      and R': "if r \<noteq> 0 then (r, ?new) \<notin> ?P - {(q, old)} \<and> agree m (fst w') (blocks (?P - {(q, old)}) \<union> - pown) \<and>
          bytes (fst w') r (min (lsize old) n) = bytes m q (min (lsize old) n) \<and> pok w' (insert (r, ?new) (?P - {(q, old)}))
        else agree m (fst w') (blocks ?P \<union> - pown) \<and> pok w' ?P"
      using S by (elim exE conjE)
    obtain m' p' where w': "w' = (m', p')" by (cases w')
    note call = call [unfolded w'] and R = R' [unfolded w' fst_conv]
    have run: "slab_remap q old n w = Some (r, (m', self, p'))"
      using I(1) W(1) n True call by (simp add: w slab_remap_def assert_slab_def stays_large_eq)
    show ?thesis
    proof (cases "r = 0")
      case r: False
      then have pok: "pok (m', p') (insert (r, ?new) (?P - {(q, old)}))" and ag: "agree m m' (blocks (?P - {(q, old)}) \<union> - pown)"
        and bys: "bytes m' r (min (lsize old) n) = bytes m q (min (lsize old) n)" and nin: "(r, ?new) \<notin> ?P - {(q, old)}"
        using R by simp_all
      note N = large_replaced [OF inv b True [THEN conjunct1] True [THEN conjunct2] l nin pok ag]
      show ?thesis using run r bys N by (simp add: w)
    next
      case r: True
      then have ag: "agree m m' (blocks ?P \<union> - pown)" and pok: "pok (m', p') ?P" using R by simp_all
      note A = agree_client [OF inv ag]
      show ?thesis using run r A(1) parent_step [OF inv pok A(2)] by (auto simp: w slab_ok_def)
    qed
  next
    case False
    then have "slab_remap q old n w = Some (0, w)"
      using I(1) W(1) n by (auto simp: w slab_remap_def assert_slab_def stays_large_eq)
    then show ?thesis using ok by simp
  qed
qed

section \<open>The contract\<close>

lemma alloc_contract:
  assumes ok: "slab_ok pvt pok pown pmax K w L" and l: "request pmax l"
  shows "\<exists>q w'. slab_alloc l w = Some (q, w') \<and> agree (fst w) (fst w') (blocks L \<union> - (pown - blocks K)) \<and>
    (if q = 0 then slab_ok pvt pok pown pmax K w' L
     else (q, l) \<notin> L \<and> region q (lsize l) \<inter> blocks L = {} \<and> slab_ok pvt pok pown pmax K w' (insert (q, l) L))"
proof -
  obtain m self p where w: "w = (m, self, p)" by (cases w) auto
  obtain chs fls where inv: "slab_inv pvt pok pown pmax K (m, self, p) L chs fls" using ok by (auto simp: w slab_ok_def)
  show ?thesis using alloc_large [OF inv l] alloc_small [OF inv l] unfolding w fst_conv by blast
qed

lemma dealloc_contract:
  assumes ok: "slab_ok pvt pok pown pmax K w L" and b: "(q, l) \<in> L"
  shows "\<exists>w'. slab_dealloc q l w = Some w' \<and>
    agree (fst w) (fst w') (blocks (L - {(q, l)}) \<union> - (pown - blocks K)) \<and> slab_ok pvt pok pown pmax K w' (L - {(q, l)})"
proof -
  obtain m self p where w: "w = (m, self, p)" by (cases w) auto
  obtain chs fls where inv: "slab_inv pvt pok pown pmax K (m, self, p) L chs fls" using ok by (auto simp: w slab_ok_def)
  show ?thesis using dealloc_large [OF inv b] dealloc_small [OF inv b] unfolding w fst_conv by blast
qed

lemma frame_contract:
  assumes ok: "slab_ok pvt pok pown pmax K w L" and ag: "agree (fst w) m' (pown - blocks K - blocks L)"
  shows "slab_ok pvt pok pown pmax K (m', snd w) L"
proof -
  obtain m self p where w: "w = (m, self, p)" by (cases w) auto
  obtain chs fls where inv: "slab_inv pvt pok pown pmax K (m, self, p) L chs fls" using ok by (auto simp: w slab_ok_def)
  let ?P = "K \<union> large_out L \<union> chunk_blocks chs"
  note I = slab_invD [OF inv]
  have "agree m m' (pown - blocks ?P)"
    using ag held_from_parent(1) [OF inv] blocks_mono [of K ?P] unfolding w by (auto intro: agree_subset)
  then have pok: "pok (m', p) ?P" using parent.frame_law [OF I(3), of m'] by simp
  have in_own: "agree m m' (region x n)" if "c \<in> set chs" "region x n \<subseteq> region c CHUNK_BYTES" "region x n \<inter> blocks L = {}" for x n c
    using ag that chunk_place(4) [OF inv that(1)] unfolding w by (auto intro!: agree_subset [of m m' "pown - blocks K - blocks L"])
  have "slab_links m' self chs fls"
    using I(8)
  proof (rule slab_links_agree)
    show "agree m m' (region (c + CHUNK_ROOM) 8)" if "c \<in> set chs" for c
      using in_own [OF that room_link(2) out_link [OF inv that]] .
    show "agree m m' (region (snd d) 8)" if d: "d \<in> cells_free fls" for d
    proof -
      obtain c where c: "c \<in> set chs" "cell_region d \<subseteq> region c CHUNK_ROOM" using cell_place(1) [OF inv UnI1 [OF d]] by blast
      note e = cell_place(6) [OF inv UnI1 [OF d]] and o = out_free [OF inv d]
      show ?thesis
      proof (rule in_own [OF c(1)])
        show "region (snd d) 8 \<subseteq> region c CHUNK_BYTES" using e c(2) room_link(1) [of c] by blast
        show "region (snd d) 8 \<inter> blocks L = {}" using e o by blast
      qed
    qed
  qed
  then have "slab_inv pvt pok pown pmax K (m', self, p) L chs fls"
    using I pok by (intro slab_invI)
  then show ?thesis by (auto simp: w slab_ok_def)
qed

end

lemma slab_vtable_sels [simp]:
  "vt_alloc slab_vtable = slab_alloc" "vt_alloc_zeroed slab_vtable = None" "vt_resize slab_vtable = Some slab_resize"
  "vt_remap slab_vtable = Some slab_remap" "vt_dealloc slab_vtable = slab_dealloc"
  by (simp_all add: slab_vtable_def)

sublocale slab_parent \<subseteq> slab: allocator slab_vtable "slab_ok pvt pok pown pmax K" "pown - blocks K" pmax for K
proof (rule allocator.intro; (unfold slab_vtable_sels option.inject)?)
  show "slab_ok pvt pok pown pmax K w L \<Longrightarrow> wf_blocks (pown - blocks K) pmax L" for w L
    by (cases w) (auto simp: slab_ok_def dest: slab_invD(5))
qed ((rule alloc_contract dealloc_contract frame_contract; assumption)
    | (erule subst, (rule resize_contract remap_contract; assumption)) | simp)+

section \<open>Init and deinit\<close>

context slab_parent begin

lemma init_ok:
  assumes pok: "pok (m, p) K" and init: "tda_slab_init (Some pvt) = Some s"
  shows "slab_ok pvt pok pown pmax K (m, s, p) {}"
proof -
  have s: "s = slab_null\<lparr>sl_parent := Some pvt\<rparr>" using init by (simp add: tda_slab_init_def)
  have cls: "sl_classes s ! i = class_null" if "i < CLASS_COUNT" for i using that by (simp add: s slab_null_def)
  have "carved {} {} (grounds s)"
    using carved_empty cls by (simp add: carved_def grounds_def class_null_def ground_ok_def ground_def)
  then have "slab_inv pvt pok pown pmax K (m, s, p) {} [] (\<lambda>_. [])"
    using pok cls
    by (intro slab_invI) (auto simp: s slab_null_def large_out_def chunk_blocks_def wf_blocks_def slab_links_def
        cells_free_def cells_out_def class_null_def)
  then show ?thesis by (auto simp: slab_ok_def)
qed

lemma give_chunks_ok:
  assumes "chain m h (map (\<lambda>c. c + CHUNK_ROOM) chs)" "distinct chs" "pok (m, p) (Q \<union> chunk_blocks chs)"
    and "chunk_blocks chs \<inter> Q = {}"
  shows "\<exists>m' p'. give_chunks pvt h (m, p) = Some (m', p') \<and> pok (m', p') Q \<and> agree m m' (blocks Q \<union> - pown)"
  using assms
proof (induction chs arbitrary: m h p)
  case Nil
  then show ?case by (subst give_chunks.simps) (simp add: chunk_blocks_def)
next
  case (Cons c cs)
  let ?B = "Q \<union> chunk_blocks (c # cs)"
  have h: "h = c + CHUNK_ROOM" and ch: "chain m (load_ptr m h) (map (\<lambda>c. c + CHUNK_ROOM) cs)"
    using Cons.prems(1) by simp_all
  have h0: "h \<noteq> 0" by (simp add: h CHUNK_ROOM_def CHUNK_BYTES_def)
  have inB: "(c, chunk_layout) \<in> ?B" by (simp add: chunk_blocks_def)
  have B: "?B - {(c, chunk_layout)} = Q \<union> chunk_blocks cs"
    using Cons.prems(2,4) by (auto simp: chunk_blocks_def)
  obtain w1 where call: "tda_dealloc pvt c chunk_layout (m, p) = Some w1"
    and ag: "agree m (fst w1) (blocks (Q \<union> chunk_blocks cs) \<union> - pown)" and pok: "pok w1 (Q \<union> chunk_blocks cs)"
    using parent.tda_dealloc_spec [OF Cons.prems(3) inB] unfolding B by auto
  obtain m1 p1 where w1: "w1 = (m1, p1)" by (cases w1)
  have "region (d + CHUNK_ROOM) 8 \<subseteq> blocks (Q \<union> chunk_blocks cs)" if "d \<in> set cs" for d
    using block_in_blocks [of "(d, chunk_layout)" "Q \<union> chunk_blocks cs"] that room_link(2) [of d]
    by (auto simp: chunk_blocks_def chunk_layout_def)
  then have "chain m1 (load_ptr m h) (map (\<lambda>c. c + CHUNK_ROOM) cs)"
    using ag w1 by (intro chain_agree [OF ch]) (auto intro: agree_subset)
  then obtain m' p' where IH: "give_chunks pvt (load_ptr m h) (m1, p1) = Some (m', p')" "pok (m', p') Q"
      "agree m1 m' (blocks Q \<union> - pown)"
    using Cons.IH [of m1 "load_ptr m h" p1] Cons.prems(2,4) pok w1 by (auto simp: chunk_blocks_def)
  have "give_chunks pvt h (m, p) = Some (m', p')"
    using h0 call IH(1) w1 by (subst give_chunks.simps) (auto simp: chunk_start_def h)
  moreover have "agree m m1 (blocks Q \<union> - pown)"
    using agree_subset [OF ag, of "blocks Q \<union> - pown"] blocks_mono [of Q "Q \<union> chunk_blocks cs"] w1 by auto
  ultimately show ?case using IH(2,3) by (blast intro: agree_trans)
qed

lemma deinit_ok:
  assumes "slab_ok pvt pok pown pmax K (m, self, p) L"
  shows "\<exists>m' p'. tda_slab_deinit (m, self, p) = Some (m', slab_null, p') \<and> pok (m', p') (K \<union> large_out L) \<and>
    agree m m' (blocks (K \<union> large_out L) \<union> - pown)"
proof -
  obtain chs fls where inv: "slab_inv pvt pok pown pmax K (m, self, p) L chs fls" using assms by (auto simp: slab_ok_def)
  note I = slab_invD [OF inv]
  have "chain m (sl_chunks self) (map (\<lambda>c. c + CHUNK_ROOM) chs)" using I(8) by (simp add: slab_links_def)
  moreover have "chunk_blocks chs \<inter> (K \<union> large_out L) = {}" using I(4) large_out_sub by blast
  ultimately show ?thesis
    using give_chunks_ok [OF _ I(6) I(3)] I(1) by (fastforce simp: tda_slab_deinit_def assert_slab_def)
qed

lemma contract: "allocator slab_vtable (slab_ok pvt pok pown pmax K) (pown - blocks K) pmax"
  by (rule slab.allocator_axioms)

text \<open>A request is refused only where the parent refuses it, or the chunk it needs.\<close>

lemma refused:
  assumes "slab_alloc l (m, self, p) = Some (0, w')" "sl_parent self = Some pvt" "length (sl_classes self) = CLASS_COUNT"
  shows "\<exists>m1 p1. tda_alloc pvt (if class_of l = Some CLASS_COUNT then l else chunk_layout) (m, p) = Some (0, (m1, p1)) \<and>
    w' = (m1, self, p1)"
proof (cases "class_idx l = CLASS_COUNT")
  case True
  then show ?thesis using assms
    by (auto simp: slab_alloc_def class_of_def bind_Some_iff split: if_splits)
next
  case False
  then have i: "class_idx l < length (sl_classes self)" using class_idx_le [of l] assms(3) by simp
  let ?i = "class_idx l" let ?c = "sl_classes self ! ?i"
  have c: "class_of l = Some ?i" "0 < lsize l" using assms(1) by (auto simp: slab_alloc_def class_of_def bind_Some_iff)
  have e: "sc_free ?c = 0"
    using assms(1,2) False c by (auto simp: slab_alloc_def assert_slab_def Let_def split: if_splits)
  obtain w1 where k: "carve ?i (csize ?i) (m, self, p) = Some (0, w1)" and w': "w' = w1"
    using assms(1,2) False c e by (auto simp: slab_alloc_def assert_slab_def Let_def bind_Some_iff split: if_splits)
  have can: "\<not> can_carve ?c (csize ?i)" using k by (auto simp: carve_def Let_def can_carve_def)
  obtain s m1 p1 where t: "tda_alloc pvt chunk_layout (m, p) = Some (s, (m1, p1))"
    using k can assms(2) by (auto simp: carve_def add_chunk_def bind_Some_iff)
  have "s = 0" "w1 = (m1, self, p1)"
    using k can assms(2) t i by (auto simp: carve_def add_chunk_def Let_def set_class_def split: if_splits)
  then show ?thesis using t w' False c by simp
qed

text \<open>A block given back is the next one its class hands out, and the slab is as it was.\<close>

lemma reused:
  assumes inv: "slab_inv pvt pok pown pmax K (m, self, p) L chs fls" and b: "(q, l) \<in> L"
    and small: "class_idx l \<noteq> CLASS_COUNT" and l': "request pmax l'" "class_idx l' = class_idx l"
  shows "\<exists>w1 m2. tda_dealloc slab_vtable q l (m, self, p) = Some w1 \<and> tda_alloc slab_vtable l' w1 = Some (q, (m2, self, p)) \<and>
    agree m m2 (- region q 8)"
proof -
  note I = slab_invD [OF inv]
  note W = wf_blockD [OF I(5) b]
  let ?i = "class_idx l" let ?c = "sl_classes self ! ?i"
  let ?m = "store_ptr m q (sc_free ?c)"
  let ?self = "(set_class ?i (?c\<lparr>sc_free := q\<rparr>) self)\<lparr>sl_small := sl_small self - 1\<rparr>"
  have i: "?i < length (sl_classes self)" using small class_idx_le [of l] I(2) by simp
  obtain w1 where d: "slab_dealloc q l (m, self, p) = Some w1" and ok: "slab_ok pvt pok pown pmax K w1 (L - {(q, l)})"
    using dealloc_small [OF inv b small] by blast
  then have w1: "w1 = (?m, ?self, p)" "0 < sl_small self"
    using I(1) W(1) requestD(1) [OF W(2)] small
    by (auto simp: slab_dealloc_def assert_slab_def class_of_eq Let_def split: if_splits)
  have "chain m (sc_free ?c) (fls ?i)" using I(2,8) i by (simp add: slab_links_def)
  then have "sc_free ?c = 0 \<or> (?i, sc_free ?c) \<in> cells_free fls" using i I(2) by (cases "fls ?i") (auto simp: cells_free_def)
  then have "sc_free ?c \<le> SIZE_MAX" using cell_place(4) [OF inv, of "(?i, sc_free ?c)"] by auto
  then have ld: "load_ptr ?m q = sc_free ?c" by simp
  have "card (L - large_out L) < SIZE_MAX" using wf_card [OF I(5)] card_mono [of L "L - large_out L"] by fastforce
  then have cnt: "wadd (sl_small self - 1) 1 = sl_small self" using w1(2) I(12) by simp
  have "slab_alloc l' w1 = Some (q, (?m, self, p))"
    using W(1) requestD(1) [OF l'(1)] l'(2) small i ld I(1) cnt
    by (simp add: w1 slab_alloc_def assert_slab_def class_of_eq Let_def set_class_def)
  moreover have "tda_dealloc slab_vtable q l (m, self, p) = Some w1"
    using d W(1) requestD [OF W(2)] by (simp add: tda_dealloc_def)
  moreover obtain r where "tda_alloc slab_vtable l' w1 = Some r" using slab.tda_alloc_spec [OF ok l'(1)] by blast
  ultimately show ?thesis
    using requestD(1) [OF l'(1)] agree_store_ptr [of "- region q 8" q m "sc_free ?c"]
    by (auto simp: tda_alloc_def bind_Some_iff)
qed

lemma large_class:
  assumes "wf_blocks own amax L"
  shows "{b \<in> L. class_of (snd b) = Some CLASS_COUNT} = large_out L"
  using wf_blockD(2) [OF assms] requestD(1) by (force simp: large_out_def class_of_eq)

lemma history_ok:
  assumes pok: "pok (m, p) K" and init: "tda_slab_init (Some pvt) = Some s"
    and run: "(client_step slab_vtable pmax)\<^sup>*\<^sup>* ((m, s, p), {}) ((m', s', p'), L)"
  shows "slab_ok pvt pok pown pmax K (m', s', p') L" "agree m m' (- (pown - blocks K))"
  using slab.client_steps_ok [OF run, of K] init_ok [OF pok init] by simp_all

end

interpretation slab_over_arena: slab_parent arena_vtable "arena_ok own ks" own SIZE_MAX for own ks
  by unfold_locales (simp add: CHUNK_ALIGN_def SIZE_MAX_def)

section \<open>Properties\<close>

lemma class_idx_least:
  assumes "tda_layout_is_align (lalign l)" "j < class_idx l"
  shows "\<not> (lsize l \<le> csize j \<and> lalign l dvd low_bit j)"
proof
  have j: "j < CLASS_COUNT" using assms(2) class_idx_le [of l] by simp
  assume s: "lsize l \<le> csize j \<and> lalign l dvd low_bit j"
  then have "lalign l \<le> low_bit j" using is_align_gt0 [OF class_facts(1) [OF j]] by (auto intro: dvd_imp_le)
  then show False using s class_from_least [of j l 0 CLASS_SIZES] assms(2) by (simp add: low_bit_def)
qed

lemma class_idx_small:
  assumes "tda_layout_is_align (lalign l)"
  shows "class_idx l < CLASS_COUNT \<longleftrightarrow> lsize l \<le> 512 \<and> lalign l \<le> 512"
proof
  assume "class_idx l < CLASS_COUNT"
  note i = this
  have "low_bit (class_idx l) dvd 512" using class_facts(3) [OF i] by (simp add: CHUNK_ALIGN_def)
  then have "low_bit (class_idx l) \<le> 512" by (rule dvd_imp_le) simp
  then show "lsize l \<le> 512 \<and> lalign l \<le> 512" using class_idx_serves [OF i] class_facts(5) [OF i] by linarith
next
  assume "lsize l \<le> 512 \<and> lalign l \<le> 512"
  moreover have "lalign l dvd low_bit 9" if "lalign l \<le> 512"
    using that align_dvd [OF assms class_facts(1), of 9] low_bit_nth [of 9] by (simp add: CLASS_COUNT_10)
  moreover have "csize 9 = 512" by (simp add: CLASS_SIZES_def)
  ultimately have "\<not> 9 < class_idx l" using class_idx_least [OF assms, of 9] by metis
  then show "class_idx l < CLASS_COUNT" by (simp add: CLASS_COUNT_10)
qed

lemma class_idx_rounding:
  assumes "tda_layout_is_align (lalign l)" "class_idx l = i" "i < CLASS_COUNT" "lalign l \<le> 16" "16 < lsize l"
  shows "2 * csize i \<le> 3 * lsize l \<longleftrightarrow> 22 \<le> lsize l"
proof -
  have le: "lsize l \<le> csize i" using class_idx_serves(1) [of l] assms(2,3) by simp
  have gt: "csize j < lsize l" if "j < i" for j
  proof -
    have j: "j < CLASS_COUNT" using that assms(3) by simp
    have "16 \<le> low_bit j" using j by (cases rule: class_cases) (simp_all add: low_bit_nth CLASS_COUNT_10)
    then have "lalign l dvd low_bit j" using align_dvd [OF assms(1) class_facts(1) [OF j]] assms(4) by simp
    then show ?thesis using class_idx_least [OF assms(1), of j] that assms(2) by auto
  qed
  from assms(3) show ?thesis
  proof (cases rule: class_cases)
    case 1 then show ?thesis using le assms(5) by (simp add: CLASS_SIZES_def) next
    case 2 then show ?thesis using le gt [of 0] by (simp add: CLASS_SIZES_def, arith) next
    case 3 then show ?thesis using le gt [of 1] by (simp add: CLASS_SIZES_def) next
    case 4 then show ?thesis using le gt [of 2] by (simp add: CLASS_SIZES_def) next
    case 5 then show ?thesis using le gt [of 3] by (simp add: CLASS_SIZES_def) next
    case 6 then show ?thesis using le gt [of 4] by (simp add: CLASS_SIZES_def) next
    case 7 then show ?thesis using le gt [of 5] by (simp add: CLASS_SIZES_def) next
    case 8 then show ?thesis using le gt [of 6] by (simp add: CLASS_SIZES_def) next
    case 9 then show ?thesis using le gt [of 7] by (simp add: CLASS_SIZES_def) next
    case 10 then show ?thesis using le gt [of 8] by (simp add: CLASS_SIZES_def)
  qed
qed

text \<open>
  C13: the class of a request is the first whose blocks are large and aligned enough, and there is
  one exactly up to 512 bytes at up to 512; above 16 bytes at 16 or less the rounding takes at
  most a third of the block exactly from 22 bytes up.
\<close>

theorem slab_classes:
  assumes "0 < lsize l" "tda_layout_is_align (lalign l)"
  shows "\<exists>i. class_of l = Some i \<and> (i < CLASS_COUNT \<longleftrightarrow> lsize l \<le> 512 \<and> lalign l \<le> 512) \<and>
    (i < CLASS_COUNT \<longrightarrow> lsize l \<le> csize i \<and> lalign l dvd low_bit i \<and>
       (\<forall>j < i. \<not> (lsize l \<le> csize j \<and> lalign l dvd low_bit j)) \<and>
       (lalign l \<le> 16 \<and> 16 < lsize l \<longrightarrow> (2 * csize i \<le> 3 * lsize l \<longleftrightarrow> 22 \<le> lsize l)))"
proof -
  have "lalign l dvd low_bit (class_idx l)" if "class_idx l < CLASS_COUNT"
    using align_dvd [OF assms(2) class_facts(1) [OF that] class_idx_serves(2) [OF that]] .
  then show ?thesis
    using class_of_eq [OF assms(1)] class_idx_small [OF assms(2)] class_idx_serves(1) [of l]
      class_idx_least [OF assms(2)] class_idx_rounding [OF assms(2) refl]
    by (intro exI [of _ "class_idx l"]) blast
qed

text \<open>A block of 17 bytes wastes 15 of 32.\<close>

theorem slab_classes_witness:
  "class_of \<lparr>lsize = 17, lalign = 8\<rparr> = Some 1 \<and> \<not> 2 * csize 1 \<le> 3 * (17 :: nat)"
proof -
  have "class_of \<lparr>lsize = 17, lalign = 8\<rparr> = Some 1" by (simp add: class_of_def CLASS_SIZES_def wneg_def)
  with slab_classes [of "\<lparr>lsize = 17, lalign = 8\<rparr>"] show ?thesis by (auto simp: CLASS_COUNT_10)
qed

text \<open>
  C11: after any history of calls on a slab over any allocator that keeps the contract, and beside
  what its other clients have out, the blocks out are aligned, apart and in the parent's memory,
  the counts are theirs and each can be given back; deinit gives every chunk back and leaves the
  parent with the large blocks.
\<close>

theorem slab_history_safe:
  assumes al: "allocator pvt pok pown pmax" "CHUNK_ALIGN \<le> pmax" and pok: "pok (m, p) K"
    and init: "tda_slab_init (Some pvt) = Some s"
    and run: "(client_step slab_vtable pmax)\<^sup>*\<^sup>* ((m, s, p), {}) ((m', s', p'), L)"
  shows "wf_blocks (pown - blocks K) pmax L \<and> agree m m' (- (pown - blocks K)) \<and>
    (\<forall>b \<in> L. tda_dealloc slab_vtable (fst b) (snd b) (m', s', p') \<noteq> None) \<and>
    (\<exists>st. tda_slab_stats s' = Some st \<and> ss_large st = card {b \<in> L. class_of (snd b) = Some CLASS_COUNT} \<and>
       ss_small st + ss_large st = card L) \<and>
    (\<exists>m'' p''. tda_slab_deinit (m', s', p') = Some (m'', slab_null, p'') \<and>
       pok (m'', p'') (K \<union> {b \<in> L. class_of (snd b) = Some CLASS_COUNT}))"
proof -
  note P = slab_parent.intro [OF al(1) slab_parent_axioms.intro [OF al(2)]]
  note H = slab_parent.history_ok [OF P pok init run]
  obtain chs fls where inv: "slab_inv pvt pok pown pmax K (m', s', p') L chs fls" using H(1) by (auto simp: slab_ok_def)
  note I = slab_invD [OF inv]
  note large = slab_parent.large_class [OF P I(5)]
  have "card (L - large_out L) + card (large_out L) = card L"
    using card_Un_disjoint [of "L - large_out L" "large_out L"] wf_card(1) [OF I(5)] large_out_sub [of L]
    by (simp add: Un_absorb2 finite_subset Diff_disjoint inf_commute)
  moreover have "\<forall>b \<in> L. tda_dealloc slab_vtable (fst b) (snd b) (m', s', p') \<noteq> None"
    using allocator.tda_dealloc_spec [OF slab_parent.contract [OF P] H(1)] by force
  ultimately show ?thesis
    using H I(1,5,12,13) slab_parent.deinit_ok [OF P H(1)] unfolding large
    by (auto simp: tda_slab_stats_def assert_slab_def)
qed

text \<open>A slab over an arena that has been used.\<close>

theorem slab_history_safe_witness:
  "\<exists>s q w'. tda_slab_init (Some arena_vtable) = Some s \<and>
    tda_alloc slab_vtable \<lparr>lsize = 24, lalign = 8\<rparr>
      (\<lambda>_. 0, s, \<lparr>ar_parent = (None :: unit vtable option), ar_data = 4096, ar_cap = 8192, ar_offset = 0, ar_floor = 0\<rparr>) = Some (q, w') \<and>
    (q \<noteq> 0 \<longrightarrow> tda_dealloc slab_vtable q \<lparr>lsize = 24, lalign = 8\<rparr> w' \<noteq> None) \<and> tda_slab_deinit w' \<noteq> None"
proof -
  let ?l = "\<lparr>lsize = 24, lalign = 8\<rparr>"
  let ?a = "\<lparr>ar_parent = (None :: unit vtable option), ar_data = 4096, ar_cap = 8192, ar_offset = 0, ar_floor = 0\<rparr>"
  have ok: "arena_ok (region 4096 8192) [] ((\<lambda>_. 0), ?a) {}"
    by (auto simp: arena_ok_def assert_arena_def wf_blocks_def SIZE_MAX_def region_def)
  have r: "request SIZE_MAX ?l" by (simp add: request_def SIZE_MAX_def)
  have al: "CHUNK_ALIGN \<le> SIZE_MAX" by (simp add: CHUNK_ALIGN_def SIZE_MAX_def)
  obtain s :: "unit arena slab" where s: "tda_slab_init (Some arena_vtable) = Some s" by (simp add: tda_slab_init_def)
  note sl = slab_over_arena.init_ok [OF ok s]
  obtain q w' where a: "tda_alloc slab_vtable ?l (\<lambda>_. 0, s, ?a) = Some (q, w')"
    using slab_over_arena.slab.tda_alloc_spec [OF sl r] by blast
  let ?L = "if q = 0 then {} else {(q, ?l)}"
  have run: "(client_step slab_vtable SIZE_MAX)\<^sup>*\<^sup>* (((\<lambda>_. 0), s, ?a), {}) (w', ?L)"
    using client_alloc [OF r a, of "{}"] by (cases "q = 0") auto
  have "q \<noteq> 0 \<longrightarrow> tda_dealloc slab_vtable q ?l w' \<noteq> None" "tda_slab_deinit w' \<noteq> None"
    using slab_history_safe [OF arena.allocator_axioms al ok s, of "fst w'" "fst (snd w')" "snd (snd w')" ?L] run
    by (auto split: if_splits)
  then show ?thesis using s a by blast
qed

text \<open>
  C12: a request is refused only where the parent refuses it, or refuses the chunk it needs, and
  then the slab and the blocks out are as they were; a small block given back is the next one its
  class hands out, and the slab is then as before.
\<close>

theorem slab_serves:
  assumes al: "allocator pvt pok pown pmax" "CHUNK_ALIGN \<le> pmax"
    and ok: "slab_ok pvt pok pown pmax K (m, self, p) L" and l: "request pmax l" and b: "(q, old) \<in> L"
  shows "(\<exists>r w'. tda_alloc slab_vtable l (m, self, p) = Some (r, w') \<and>
      (r = 0 \<longrightarrow> slab_ok pvt pok pown pmax K w' L \<and>
        (\<exists>m1 p1. tda_alloc pvt (if class_of l = Some CLASS_COUNT then l else chunk_layout) (m, p) = Some (0, (m1, p1)) \<and>
           w' = (m1, self, p1)))) \<and>
    (class_of l = class_of old \<and> class_of l \<noteq> Some CLASS_COUNT \<longrightarrow>
      (\<exists>w1 m2. tda_dealloc slab_vtable q old (m, self, p) = Some w1 \<and>
        tda_alloc slab_vtable l w1 = Some (q, (m2, self, p)) \<and> agree m m2 (- region q 8)))"
proof -
  note P = slab_parent.intro [OF al(1) slab_parent_axioms.intro [OF al(2)]]
  obtain chs fls where inv: "slab_inv pvt pok pown pmax K (m, self, p) L chs fls" using ok by (auto simp: slab_ok_def)
  note I = slab_invD [OF inv]
  note W = wf_blockD [OF I(5) b]
  obtain r w' where a: "tda_alloc slab_vtable l (m, self, p) = Some (r, w')" and r: "r = 0 \<longrightarrow> slab_ok pvt pok pown pmax K w' L"
    using allocator.tda_alloc_spec [OF slab_parent.contract [OF P] ok l] by fastforce
  have h: "slab_alloc l (m, self, p) = Some (r, w')"
    using a requestD(1) [OF l] by (auto simp: tda_alloc_def bind_Some_iff)
  have "\<exists>m1 p1. tda_alloc pvt (if class_of l = Some CLASS_COUNT then l else chunk_layout) (m, p) = Some (0, (m1, p1)) \<and>
      w' = (m1, self, p1)" if "r = 0"
    using slab_parent.refused [OF P h [unfolded that] I(1,2)] .
  moreover have "class_of l = class_of old \<and> class_of l \<noteq> Some CLASS_COUNT \<longrightarrow>
      (\<exists>w1 m2. tda_dealloc slab_vtable q old (m, self, p) = Some w1 \<and>
        tda_alloc slab_vtable l w1 = Some (q, (m2, self, p)) \<and> agree m m2 (- region q 8))"
    using slab_parent.reused [OF P inv b _ l] requestD(1) [OF l] requestD(1) [OF W(2)] by (simp add: class_of_eq)
  ultimately show ?thesis using a r by blast
qed

text \<open>A slab with one block out, on an arena.\<close>

theorem slab_serves_witness:
  "\<exists>(w :: unit arena slab_world) q w'. tda_alloc slab_vtable \<lparr>lsize = 24, lalign = 8\<rparr> w = Some (q, w') \<and>
    (q \<noteq> 0 \<longrightarrow> (\<exists>w1 m2. tda_dealloc slab_vtable q \<lparr>lsize = 24, lalign = 8\<rparr> w' = Some w1 \<and>
      tda_alloc slab_vtable \<lparr>lsize = 20, lalign = 4\<rparr> w1 = Some (q, (m2, snd w'))))"
proof -
  let ?l = "\<lparr>lsize = 24, lalign = 8\<rparr>" and ?k = "\<lparr>lsize = 20, lalign = 4\<rparr>"
  let ?a = "\<lparr>ar_parent = (None :: unit vtable option), ar_data = 4096, ar_cap = 8192, ar_offset = 0, ar_floor = 0\<rparr>"
  have ok: "arena_ok (region 4096 8192) [] ((\<lambda>_. 0), ?a) {}"
    by (auto simp: arena_ok_def assert_arena_def wf_blocks_def SIZE_MAX_def region_def)
  have r: "request SIZE_MAX ?l" "request SIZE_MAX ?k"
    using is_align_numerals [of 2] by (simp_all add: request_def SIZE_MAX_def)
  have al: "CHUNK_ALIGN \<le> SIZE_MAX" by (simp add: CHUNK_ALIGN_def SIZE_MAX_def)
  have same: "class_of ?k = class_of ?l" "class_of ?k \<noteq> Some CLASS_COUNT"
    by (simp_all add: class_of_def CLASS_SIZES_def wneg_def CLASS_COUNT_10)
  obtain s :: "unit arena slab" where s: "tda_slab_init (Some arena_vtable) = Some s" by (simp add: tda_slab_init_def)
  note sl = slab_over_arena.init_ok [OF ok s]
  obtain q m1 s1 p1 where a: "tda_alloc slab_vtable ?l (\<lambda>_. 0, s, ?a) = Some (q, (m1, s1, p1))"
    and r1: "q \<noteq> 0 \<longrightarrow> slab_ok arena_vtable (arena_ok (region 4096 8192) []) (region 4096 8192) SIZE_MAX {} (m1, s1, p1) {(q, ?l)}"
    using slab_over_arena.slab.tda_alloc_spec [OF sl r(1)] by fastforce
  have "\<exists>w1 m2. tda_dealloc slab_vtable q ?l (m1, s1, p1) = Some w1 \<and> tda_alloc slab_vtable ?k w1 = Some (q, (m2, s1, p1))" if "q \<noteq> 0"
    using slab_serves [OF arena.allocator_axioms al _ r(2), of "region 4096 8192" "[]" "{}" m1 s1 p1 "{(q, ?l)}" q ?l] r1 that same
    by auto
  then show ?thesis
    using a by (intro exI [of _ "((\<lambda>_. 0), s, ?a)"] exI [of _ q] exI [of _ "(m1, s1, p1)"]) simp
qed

end
