(* ===== verification/Default.thy ===== *)
theory Default
  imports Alloc
begin

text \<open>
  \<open>alloc/default.h\<close> and \<open>alloc/default.c\<close>: the allocator over \<open>malloc\<close>, \<open>calloc\<close>, \<open>realloc\<close>,
  \<open>aligned_alloc\<close> and \<open>free\<close>, in the branch of the code that is not for Windows. The C library's heap is a
  range of addresses, the blocks it has out with their sizes, and the places it would pick next: a pick
  that cannot be, or none, is a request that fails. What it owes is C23's promise, no more: \<open>malloc(n)\<close> is
  aligned for the types of at most \<open>n\<close> bytes. The alignment and the size of \<open>max_align_t\<close> are those of x86-64.
\<close>

section \<open>The C library's heap\<close>

record libc =
  lc_base :: addr
  lc_room :: nat
  lc_live :: "(addr \<times> nat) list"
  lc_picks :: "addr list"

definition libc_owed :: "nat \<Rightarrow> nat" where
  "libc_owed n = (if n \<ge> 16 then 16 else if n \<ge> 8 then 8 else if n \<ge> 4 then 4 else if n \<ge> 2 then 2 else 1)"

definition may_place :: "libc \<Rightarrow> nat \<Rightarrow> nat \<Rightarrow> addr \<Rightarrow> bool" where
  "may_place s align n q \<longleftrightarrow> q \<noteq> 0 \<and> align dvd q \<and> lc_base s \<le> q \<and> q + n \<le> lc_base s + lc_room s \<and>
     (\<forall>(p, k) \<in> set (lc_live s). apart q n p k)"

definition libc_next :: "libc \<Rightarrow> addr \<times> libc" where
  "libc_next s = (case lc_picks s of [] \<Rightarrow> (0, s) | q # qs \<Rightarrow> (q, s\<lparr>lc_picks := qs\<rparr>))"

definition libc_take :: "nat \<Rightarrow> nat \<Rightarrow> libc world \<Rightarrow> addr \<times> libc world" where
  "libc_take align n w = (let (m, s) = w; (q, s) = libc_next s in
     if may_place s align n q then (q, (m, s\<lparr>lc_live := (q, n) # lc_live s\<rparr>)) else (0, (m, s)))"

definition libc_malloc :: "nat \<Rightarrow> libc world \<Rightarrow> addr \<times> libc world" where
  "libc_malloc n w = libc_take (libc_owed n) n w"

definition libc_calloc :: "nat \<Rightarrow> libc world \<Rightarrow> addr \<times> libc world" where
  "libc_calloc n w = (let (q, (m, s)) = libc_take (libc_owed n) n w in
     if q = 0 then (0, (m, s)) else (q, (memset m q 0 n, s)))"

definition libc_aligned_alloc :: "nat \<Rightarrow> nat \<Rightarrow> libc world \<Rightarrow> addr \<times> libc world" where
  "libc_aligned_alloc align n w = libc_take align n w"

text \<open>A pointer that is not out is undefined behaviour, and stops the model.\<close>

definition libc_free :: "addr \<Rightarrow> libc world \<Rightarrow> libc world option" where
  "libc_free p w = (let (m, s) = w in do {
     k \<leftarrow> map_of (lc_live s) p;
     Some (m, s\<lparr>lc_live := remove1 (p, k) (lc_live s)\<rparr>)
   })"

text \<open>The block stays where it is or moves to a place apart from it.\<close>

definition libc_realloc :: "addr \<Rightarrow> nat \<Rightarrow> libc world \<Rightarrow> (addr \<times> libc world) option" where
  "libc_realloc p n w = (let (m, s) = w; (q, s) = libc_next s in do {
     k \<leftarrow> map_of (lc_live s) p;
     let rest = s\<lparr>lc_live := remove1 (p, k) (lc_live s)\<rparr>;
     if may_place (if q = p then rest else s) (libc_owed n) n q
     then Some (q, (memmove m q p (min k n), rest\<lparr>lc_live := (q, n) # lc_live rest\<rparr>))
     else Some (0, (m, s))
   })"

section \<open>The allocator\<close>

definition PLAIN_ALIGN :: nat where "PLAIN_ALIGN = 16"
definition max_align_size :: nat where "max_align_size = 32"

definition is_plain :: "nat \<Rightarrow> bool" where
  "is_plain align \<longleftrightarrow> align \<le> PLAIN_ALIGN"

definition plain_size :: "nat \<Rightarrow> nat \<Rightarrow> nat option" where
  "plain_size sz align = do {
     chk (is_plain align);
     Some (if sz \<ge> align then sz else max_align_size)
   }"

definition default_alloc :: "layout \<Rightarrow> libc world \<Rightarrow> (addr \<times> libc world) option" where
  "default_alloc layout w = do {
     chk (lsize layout > 0);
     if is_plain (lalign layout) then do {
       n \<leftarrow> plain_size (lsize layout) (lalign layout);
       Some (libc_malloc n w)
     }
     else do {
       sz \<leftarrow> tda_align_ckd_up (lsize layout) (lalign layout);
       case sz of None \<Rightarrow> Some (0, w) | Some n \<Rightarrow> Some (libc_aligned_alloc (lalign layout) n w)
     }
   }"

definition default_alloc_zeroed :: "layout \<Rightarrow> libc world \<Rightarrow> (addr \<times> libc world) option" where
  "default_alloc_zeroed layout w = do {
     chk (lsize layout > 0);
     if is_plain (lalign layout) then do {
       n \<leftarrow> plain_size (lsize layout) (lalign layout);
       Some (libc_calloc n w)
     }
     else do {
       (ptr, (m, s)) \<leftarrow> default_alloc layout w;
       Some (ptr, (if ptr \<noteq> 0 then memset m ptr 0 (lsize layout) else m, s))
     }
   }"

definition default_remap :: "addr \<Rightarrow> layout \<Rightarrow> nat \<Rightarrow> libc world \<Rightarrow> (addr \<times> libc world) option" where
  "default_remap ptr old new_size w = do {
     chk (ptr \<noteq> 0);
     chk (lsize old > 0);
     chk (new_size > 0);
     if \<not> is_plain (lalign old) then Some (0, w)
     else do {
       n \<leftarrow> plain_size new_size (lalign old);
       libc_realloc ptr n w
     }
   }"

definition default_dealloc :: "addr \<Rightarrow> layout \<Rightarrow> libc world \<Rightarrow> libc world option" where
  "default_dealloc ptr layout w = do {
     chk (ptr \<noteq> 0);
     libc_free ptr w
   }"

definition default_vtable :: "libc vtable" where
  "default_vtable = \<lparr>vt_alloc = default_alloc, vt_alloc_zeroed = Some default_alloc_zeroed, vt_resize = None,
     vt_remap = Some default_remap, vt_dealloc = default_dealloc\<rparr>"

section \<open>What is asked of the library\<close>

text \<open>The size asked for a block, which \<open>libc_ok\<close> finds in the list of what is out.\<close>

definition asked :: "layout \<Rightarrow> nat" where
  "asked l = (if is_plain (lalign l) then if lsize l \<ge> lalign l then lsize l else max_align_size
     else round_up (lsize l) (lalign l))"

definition libc_ok :: "addr set \<Rightarrow> libc world \<Rightarrow> block set \<Rightarrow> bool" where
  "libc_ok own w L \<longleftrightarrow> (let s = snd w in
     own = region (lc_base s) (lc_room s) \<and> lc_base s + lc_room s \<le> SIZE_MAX \<and>
     distinct (map fst (lc_live s)) \<and> set (lc_live s) = (\<lambda>b. (fst b, asked (snd b))) ` L \<and>
     (\<forall>b \<in> set (lc_live s). \<forall>c \<in> set (lc_live s). b \<noteq> c \<longrightarrow> region (fst b) (snd b) \<inter> region (fst c) (snd c) = {}) \<and>
     wf_blocks own SIZE_MAX L)"

lemma libc_okD:
  assumes "libc_ok own (m, s) L"
  shows "own = region (lc_base s) (lc_room s)" "lc_base s + lc_room s \<le> SIZE_MAX" "distinct (map fst (lc_live s))"
    "set (lc_live s) = (\<lambda>b. (fst b, asked (snd b))) ` L"
    "b \<in> set (lc_live s) \<Longrightarrow> c \<in> set (lc_live s) \<Longrightarrow> b \<noteq> c \<Longrightarrow> region (fst b) (snd b) \<inter> region (fst c) (snd c) = {}"
    "wf_blocks own SIZE_MAX L"
  using assms unfolding libc_ok_def Let_def snd_conv by blast+

lemma plain_cases:
  assumes "tda_layout_is_align a" "is_plain a"
  shows "a \<in> {1, 2, 4, 8, 16}"
proof -
  obtain k where k: "a = 2 ^ k" using assms(1) by (auto simp: is_align_iff)
  have "(2::nat) ^ k < 2 ^ 5" using assms(2) k by (simp add: is_plain_def PLAIN_ALIGN_def)
  then have "k < 5" by (rule power_less_imp_less_exp [rotated]) simp
  then have "k = 0 \<or> k = 1 \<or> k = 2 \<or> k = 3 \<or> k = 4" by linarith
  then show ?thesis using k by auto
qed

lemma plain_owed:
  assumes "tda_layout_is_align a" "is_plain a"
  shows "a dvd libc_owed (if n \<ge> a then n else max_align_size)"
  using plain_cases [OF assms] by (auto simp: libc_owed_def max_align_size_def)

lemma asked_ge: "request SIZE_MAX l \<Longrightarrow> lsize l \<le> asked l"
  using plain_cases [of "lalign l"] round_up_bounds(1) [of "lalign l" "lsize l"] is_align_gt0 [of "lalign l"]
  by (auto simp: asked_def request_def max_align_size_def)

lemma plain_size_eq: "is_plain (lalign l) \<Longrightarrow> plain_size (lsize l) (lalign l) = Some (asked l)"
  by (simp add: plain_size_def asked_def)

text \<open>A block the library gives.\<close>

lemma libc_new:
  assumes ok: "libc_ok own (m, s) L" and req: "request SIZE_MAX l" and q: "may_place s a (asked l) q" "lalign l dvd a"
  shows "(q, l) \<notin> L" "region q (lsize l) \<inter> blocks L = {}" "region q (asked l) \<subseteq> own"
    "libc_ok own (m', s\<lparr>lc_live := (q, asked l) # lc_live s\<rparr>) (insert (q, l) L)"
    "b \<in> L \<Longrightarrow> region q (asked l) \<inter> block_region b = {}"
proof -
  note S = libc_okD [OF ok]
  note ge = asked_ge [OF req]
  have l0: "0 < lsize l" "0 < asked l" using requestD(1) [OF req] ge by simp_all
  have q': "q \<noteq> 0" "lalign l dvd q" "lc_base s \<le> q" "q + asked l \<le> lc_base s + lc_room s"
    using q by (auto simp: may_place_def intro: dvd_trans)
  have apart: "region q (asked l) \<inter> region p k = {}" if "(p, k) \<in> set (lc_live s)" for p k
    using q(1) that by (auto simp: may_place_def apart_iff)
  have other: "region q (asked l) \<inter> region (fst b) (asked (snd b)) = {}" if "b \<in> L" for b
    using apart [of "fst b" "asked (snd b)"] that S(4) by auto
  have small: "block_region b \<subseteq> region (fst b) (asked (snd b))" if "b \<in> L" for b
    using that S(6) asked_ge [of "snd b"] unfolding wf_blocks_def block_region_def by (intro region_mono) auto
  show dis: "region q (asked l) \<inter> block_region b = {}" if "b \<in> L" for b using other [OF that] small [OF that] by blast
  have sub: "region q (lsize l) \<subseteq> region q (asked l)" by (rule region_mono [OF ge])
  show new: "region q (lsize l) \<inter> blocks L = {}" using dis sub unfolding blocks_def by blast
  show qown: "region q (asked l) \<subseteq> own" using q'(3,4) S(1) by (auto simp: region_def)
  have fresh: "q \<notin> fst ` L"
  proof
    assume "q \<in> fst ` L"
    then obtain k where "(q, k) \<in> L" by auto
    then have "region q (asked l) \<inter> region q (lsize k) = {}" "0 < lsize k"
      using dis [of "(q, k)"] S(6) by (auto simp: wf_blocks_def request_def)
    then show False using l0 by (auto simp: region_def)
  qed
  then show "(q, l) \<notin> L" by force
  have wf: "wf_blocks own SIZE_MAX (insert (q, l) L)"
  proof (rule wf_blocks_insert [OF S(6) q'(1) req q'(2) _ _ new])
    show "region q (lsize l) \<subseteq> own" using sub qown by blast
    show "q + lsize l \<le> SIZE_MAX" using q'(4) S(2) ge by linarith
  qed
  have "fst ` set (lc_live s) = fst ` L" unfolding S(4) by (simp add: image_image)
  then have "q \<notin> set (map fst (lc_live s))" using fresh by simp
  then show "libc_ok own (m', s\<lparr>lc_live := (q, asked l) # lc_live s\<rparr>) (insert (q, l) L)"
    unfolding libc_ok_def Let_def snd_conv
  proof (intro conjI ballI impI)
    fix b c assume bc: "b \<in> set (lc_live (s\<lparr>lc_live := (q, asked l) # lc_live s\<rparr>))"
      "c \<in> set (lc_live (s\<lparr>lc_live := (q, asked l) # lc_live s\<rparr>))" "b \<noteq> c"
    consider "b = (q, asked l)" "c \<in> set (lc_live s)" | "c = (q, asked l)" "b \<in> set (lc_live s)" | "b \<in> set (lc_live s)" "c \<in> set (lc_live s)"
      using bc by auto
    then show "region (fst b) (snd b) \<inter> region (fst c) (snd c) = {}"
    proof cases
      case 1
      then show ?thesis using apart [of "fst c" "snd c"] by simp
    next
      case 2
      then show ?thesis using apart [of "fst b" "snd b"] by (simp add: Int_commute)
    next
      case 3
      then show ?thesis using S(5) bc(3) by blast
    qed
  qed (use S(1-4) wf in simp_all)
qed

text \<open>A block it takes back.\<close>

lemma libc_gone:
  assumes ok: "libc_ok own (m, s) L" and p: "(p, l) \<in> L"
  shows "map_of (lc_live s) p = Some (asked l)"
    "libc_ok own (m', s\<lparr>lc_live := remove1 (p, asked l) (lc_live s)\<rparr>) (L - {(p, l)})"
proof -
  note S = libc_okD [OF ok]
  have in_live: "(p, asked l) \<in> set (lc_live s)" using p S(4) by force
  then show "map_of (lc_live s) p = Some (asked l)" using S(3) by simp
  have d: "distinct (lc_live s)" using S(3) by (simp add: distinct_map)
  then have rm: "set (remove1 (p, asked l) (lc_live s)) = set (lc_live s) - {(p, asked l)}" by (rule set_remove1_eq)
  have only: "b = (p, l)" if "b \<in> L" "fst b = p" for b
    using wf_blocks_same_addr [OF S(6) p, of "snd b"] that by (cases b) simp
  have "set (lc_live s) - {(p, asked l)} = (\<lambda>b. (fst b, asked (snd b))) ` (L - {(p, l)})"
  proof (intro equalityI subsetI)
    fix c assume "c \<in> set (lc_live s) - {(p, asked l)}"
    then have c: "c \<in> (\<lambda>b. (fst b, asked (snd b))) ` L" "c \<noteq> (p, asked l)" using S(4) by auto
    then obtain b where b: "b \<in> L" "c = (fst b, asked (snd b))" by blast
    moreover have "b \<noteq> (p, l)" using b c(2) by auto
    ultimately show "c \<in> (\<lambda>b. (fst b, asked (snd b))) ` (L - {(p, l)})" by blast
  next
    fix c assume "c \<in> (\<lambda>b. (fst b, asked (snd b))) ` (L - {(p, l)})"
    then obtain b where b: "b \<in> L" "b \<noteq> (p, l)" "c = (fst b, asked (snd b))" by blast
    then have "fst b \<noteq> p" using only [of b] by blast
    then show "c \<in> set (lc_live s) - {(p, asked l)}" using b S(4) by auto
  qed
  moreover have "distinct (map fst (remove1 (p, asked l) (lc_live s)))"
    using S(3) by (metis distinct_map distinct_remove1 inj_on_subset set_remove1_subset)
  ultimately show "libc_ok own (m', s\<lparr>lc_live := remove1 (p, asked l) (lc_live s)\<rparr>) (L - {(p, l)})"
    unfolding libc_ok_def Let_def snd_conv
  proof (intro conjI ballI impI)
    fix b c assume "b \<in> set (lc_live (s\<lparr>lc_live := remove1 (p, asked l) (lc_live s)\<rparr>))"
      "c \<in> set (lc_live (s\<lparr>lc_live := remove1 (p, asked l) (lc_live s)\<rparr>))" "b \<noteq> c"
    then show "region (fst b) (snd b) \<inter> region (fst c) (snd c) = {}" using S(5) [of b c] rm by simp
  qed (use S(1,2) wf_blocks_subset [OF S(6), of "L - {(p, l)}"] rm in simp_all)
qed

section \<open>The contract\<close>

lemma libc_frame: "libc_ok own (m, s) L \<Longrightarrow> libc_ok own (m', s) L"
  unfolding libc_ok_def snd_conv .

lemma libc_ok_picks: "libc_ok own (m', s\<lparr>lc_picks := qs\<rparr>) L = libc_ok own (m', s) L"
  unfolding libc_ok_def Let_def by simp

lemma libc_next_ok: "libc_ok own (m, s) L \<Longrightarrow> libc_ok own (m', snd (libc_next s)) L"
  by (cases "lc_picks s") (auto simp: libc_next_def libc_ok_picks intro: libc_frame)

lemma take_ok_gen:
  assumes ok: "libc_ok own (m, s) L" and req: "request SIZE_MAX l" and a: "lalign l dvd a"
  obtains q s' where "libc_take a (asked l) (m, s) = (q, (m, s'))"
    "if q = 0 then libc_ok own (m, s') L
     else (q, l) \<notin> L \<and> region q (lsize l) \<inter> blocks L = {} \<and> region q (asked l) \<subseteq> own \<and>
       region q (asked l) \<inter> blocks L = {} \<and> libc_ok own (m, s') (insert (q, l) L)"
proof -
  obtain q s1 where n: "libc_next s = (q, s1)" by (cases "libc_next s")
  have ok1: "libc_ok own (m, s1) L" using libc_next_ok [OF ok, of m] n by simp
  show thesis
  proof (cases "may_place s1 a (asked l) q")
    case True
    note N = libc_new [OF ok1 req True a]
    have "q \<noteq> 0" using True by (simp add: may_place_def)
    moreover have "region q (asked l) \<inter> blocks L = {}" using N(5) unfolding blocks_def by blast
    moreover have "libc_take a (asked l) (m, s) = (q, (m, s1\<lparr>lc_live := (q, asked l) # lc_live s1\<rparr>))"
      using n True by (simp add: libc_take_def)
    ultimately show thesis using that N by simp
  next
    case False
    then have "libc_take a (asked l) (m, s) = (0, (m, s1))" using n by (simp add: libc_take_def)
    then show thesis using that ok1 by simp
  qed
qed

lemma default_alloc_runs:
  assumes ok: "libc_ok own (m, s) L" and req: "request SIZE_MAX l"
  obtains q s' where "default_alloc l (m, s) = Some (q, (m, s'))"
    "if q = 0 then libc_ok own (m, s') L
     else (q, l) \<notin> L \<and> region q (lsize l) \<inter> blocks L = {} \<and> libc_ok own (m, s') (insert (q, l) L)"
proof (cases "is_plain (lalign l)")
  case True
  note R = requestD [OF req]
  have "lalign l dvd libc_owed (asked l)" using plain_owed [OF R(3) True, of "lsize l"] True by (simp add: asked_def)
  from take_ok_gen [OF ok req this] obtain q s' where "libc_take (libc_owed (asked l)) (asked l) (m, s) = (q, (m, s'))"
    "if q = 0 then libc_ok own (m, s') L
     else (q, l) \<notin> L \<and> region q (lsize l) \<inter> blocks L = {} \<and> region q (asked l) \<subseteq> own \<and>
       region q (asked l) \<inter> blocks L = {} \<and> libc_ok own (m, s') (insert (q, l) L)" .
  then show thesis using that True R(1) plain_size_eq [OF True] by (simp add: default_alloc_def libc_malloc_def split: if_splits)
next
  case False
  note R = requestD [OF req]
  have as: "lalign l \<le> SIZE_MAX" using req by (simp add: request_def)
  show thesis
  proof (cases "lsize l > SIZE_MAX - (lalign l - 1)")
    case True
    moreover then have "Suc SIZE_MAX - lalign l < lsize l" using is_align_gt0 [OF R(3)] by arith
    ultimately have "default_alloc l (m, s) = Some (0, (m, s))" using False R by (simp add: default_alloc_def tda_align_ckd_up_def)
    then show thesis using that ok by simp
  next
    case fits: False
    have asked: "asked l = round_up (lsize l) (lalign l)" using False by (simp add: asked_def)
    obtain q s' where t: "libc_take (lalign l) (asked l) (m, s) = (q, (m, s'))"
      "if q = 0 then libc_ok own (m, s') L
       else (q, l) \<notin> L \<and> region q (lsize l) \<inter> blocks L = {} \<and> region q (asked l) \<subseteq> own \<and>
         region q (asked l) \<inter> blocks L = {} \<and> libc_ok own (m, s') (insert (q, l) L)"
      using take_ok_gen [OF ok req dvd_refl] .
    have "default_alloc l (m, s) = Some (q, (m, s'))"
      using False R fits t(1) align_up_eq [OF R(3) as, of "lsize l"] asked
      by (simp add: default_alloc_def tda_align_ckd_up_def libc_aligned_alloc_def round_up_def)
    then show thesis using that t(2) by (simp split: if_splits)
  qed
qed

lemma default_zeroed_runs:
  assumes ok: "libc_ok own (m, s) L" and req: "request SIZE_MAX l"
  shows "\<exists>q m' s'. default_alloc_zeroed l (m, s) = Some (q, (m', s')) \<and> agree m m' (blocks L \<union> - own) \<and>
    (if q = 0 then libc_ok own (m', s') L
     else (q, l) \<notin> L \<and> region q (lsize l) \<inter> blocks L = {} \<and> libc_ok own (m', s') (insert (q, l) L) \<and>
       bytes m' q (lsize l) = replicate (lsize l) 0)"
proof (cases "is_plain (lalign l)")
  case True
  note R = requestD [OF req]
  have "lalign l dvd libc_owed (asked l)" using plain_owed [OF R(3) True, of "lsize l"] True by (simp add: asked_def)
  from take_ok_gen [OF ok req this] obtain q s' where t: "libc_take (libc_owed (asked l)) (asked l) (m, s) = (q, (m, s'))"
    and r: "if q = 0 then libc_ok own (m, s') L
     else (q, l) \<notin> L \<and> region q (lsize l) \<inter> blocks L = {} \<and> region q (asked l) \<subseteq> own \<and>
       region q (asked l) \<inter> blocks L = {} \<and> libc_ok own (m, s') (insert (q, l) L)" .
  have run: "default_alloc_zeroed l (m, s) = Some (if q = 0 then (0, (m, s')) else (q, (memset m q 0 (asked l), s')))"
    using True R(1) plain_size_eq [OF True] t by (simp add: default_alloc_zeroed_def libc_calloc_def)
  show ?thesis
  proof (cases "q = 0")
    case False
    have "agree m (memset m q 0 (asked l)) (blocks L \<union> - own)" using r False by (intro agree_memset) auto
    moreover have "bytes (memset m q 0 (asked l)) q (lsize l) = replicate (lsize l) 0"
      using asked_ge [OF req] by (simp add: list_eq_iff_nth_eq memset_def)
    ultimately show ?thesis using run r False libc_frame [of own m s'] by auto
  qed (use run r in auto)
next
  case False
  note R = requestD [OF req]
  obtain q s' where a: "default_alloc l (m, s) = Some (q, (m, s'))"
    and r: "if q = 0 then libc_ok own (m, s') L
     else (q, l) \<notin> L \<and> region q (lsize l) \<inter> blocks L = {} \<and> libc_ok own (m, s') (insert (q, l) L)"
    by (rule default_alloc_runs [OF ok req])
  have run: "default_alloc_zeroed l (m, s) = Some (q, (if q \<noteq> 0 then memset m q 0 (lsize l) else m, s'))"
    using False R(1) a by (simp add: default_alloc_zeroed_def)
  show ?thesis
  proof (cases "q = 0")
    case q: False
    have "region q (lsize l) \<subseteq> own" using wf_blockD(4) [OF libc_okD(6), of own m s' "insert (q, l) L" q l] r q by simp
    then have "agree m (memset m q 0 (lsize l)) (blocks L \<union> - own)" using r q by (intro agree_memset) auto
    then show ?thesis using run r q libc_frame [of own m s'] by (auto simp: bytes_memset)
  qed (use run r in auto)
qed

lemma default_remap_runs:
  assumes ok: "libc_ok own (m, s) L" and p: "(p, old) \<in> L" and req: "request SIZE_MAX (old\<lparr>lsize := n\<rparr>)"
  shows "\<exists>q m' s'. default_remap p old n (m, s) = Some (q, (m', s')) \<and>
    (if q \<noteq> 0 then (q, old\<lparr>lsize := n\<rparr>) \<notin> L - {(p, old)} \<and> agree m m' (blocks (L - {(p, old)}) \<union> - own) \<and>
       bytes m' q (min (lsize old) n) = bytes m p (min (lsize old) n) \<and>
       libc_ok own (m', s') (insert (q, old\<lparr>lsize := n\<rparr>) (L - {(p, old)}))
     else agree m m' (blocks L \<union> - own) \<and> libc_ok own (m', s') L)"
proof -
  let ?new = "old\<lparr>lsize := n\<rparr>"
  note W = wf_blockD [OF libc_okD(6) [OF ok] p]
  note R = requestD [OF req]
  have n0: "0 < n" using R(1) by simp
  show ?thesis
  proof (cases "is_plain (lalign old)")
    case False
    then have "default_remap p old n (m, s) = Some (0, (m, s))"
      using W(1) requestD(1) [OF W(2)] n0 by (simp add: default_remap_def)
    then show ?thesis using ok by auto
  next
    case True
    obtain q s1 where nx: "libc_next s = (q, s1)" by (cases "libc_next s")
    have ok1: "libc_ok own (m, s1) L" using libc_next_ok [OF ok, of m] nx by simp
    note G = libc_gone [OF ok1 p]
    let ?rest = "s1\<lparr>lc_live := remove1 (p, asked old) (lc_live s1)\<rparr>"
    have size: "plain_size n (lalign old) = Some (asked ?new)" using plain_size_eq [of ?new] True by simp
    have owed: "lalign ?new dvd libc_owed (asked ?new)" using plain_owed [OF R(3), of n] True by (cases "lalign old \<le> n") (simp_all add: asked_def)
    have run: "default_remap p old n (m, s) = (if may_place (if q = p then ?rest else s1) (libc_owed (asked ?new)) (asked ?new) q
       then Some (q, (memmove m q p (min (asked old) (asked ?new)), ?rest\<lparr>lc_live := (q, asked ?new) # lc_live ?rest\<rparr>))
       else Some (0, (m, s1)))"
      using W(1) requestD(1) [OF W(2)] n0 True size nx G(1) by (simp add: default_remap_def libc_realloc_def)
    show ?thesis
    proof (cases "may_place (if q = p then ?rest else s1) (libc_owed (asked ?new)) (asked ?new) q")
      case False
      then show ?thesis using run ok1 by auto
    next
      case place: True
      have "set (lc_live ?rest) \<subseteq> set (lc_live s1)" by (simp add: set_remove1_subset)
      then have "may_place ?rest (libc_owed (asked ?new)) (asked ?new) q"
        using place by (auto simp: may_place_def split: if_splits)
      note N = libc_new [OF G(2) [where m' = m] req this owed]
      let ?k = "min (asked old) (asked ?new)"
      let ?m = "memmove m q p ?k"
      have k: "region q ?k \<subseteq> region q (asked ?new)" by (rule region_mono) simp
      have "agree m ?m (blocks (L - {(p, old)}) \<union> - own)"
        using N(3,5) k unfolding blocks_def by (intro agree_memmove) blast
      moreover have "min (lsize old) n \<le> ?k" using asked_ge [OF W(2)] asked_ge [OF req] by auto
      then have "bytes ?m q (min (lsize old) n) = bytes m p (min (lsize old) n)"
        unfolding bytes_eq_iff by (auto simp: memmove_def)
      moreover have "q \<noteq> 0" using place by (simp add: may_place_def)
      ultimately show ?thesis using run place N(1) N(4) [of ?m] by simp
    qed
  qed
qed

lemma default_dealloc_runs:
  assumes ok: "libc_ok own (m, s) L" and p: "(p, l) \<in> L"
  shows "\<exists>s'. default_dealloc p l (m, s) = Some (m, s') \<and> libc_ok own (m, s') (L - {(p, l)})"
  using libc_gone [OF ok p] wf_blockD(1) [OF libc_okD(6) [OF ok] p]
  by (simp add: default_dealloc_def libc_free_def)

lemma default_vtable_sels [simp]:
  "vt_alloc default_vtable = default_alloc" "vt_alloc_zeroed default_vtable = Some default_alloc_zeroed"
  "vt_resize default_vtable = None" "vt_remap default_vtable = Some default_remap" "vt_dealloc default_vtable = default_dealloc"
  by (simp_all add: default_vtable_def)

interpretation clib: allocator default_vtable "libc_ok own" own SIZE_MAX for own
proof unfold_locales
  fix w L l assume ok: "libc_ok own w L"
  obtain m s where w: "w = (m, s)" by (cases w)
  note ok' = ok [unfolded w]
  show "wf_blocks own SIZE_MAX L" using libc_okD(6) [OF ok'] .
  show "libc_ok own (m', snd w) L" for m' using libc_frame [OF ok'] by (simp add: w)
  show "\<exists>p w'. vt_alloc default_vtable l w = Some (p, w') \<and> agree (fst w) (fst w') (blocks L \<union> - own) \<and>
      (if p = 0 then libc_ok own w' L
       else (p, l) \<notin> L \<and> region p (lsize l) \<inter> blocks L = {} \<and> libc_ok own w' (insert (p, l) L))" if "request SIZE_MAX l"
    by (rule default_alloc_runs [OF ok' that]) (auto simp: w)
  show "\<exists>p w'. z l w = Some (p, w') \<and> agree (fst w) (fst w') (blocks L \<union> - own) \<and>
      (if p = 0 then libc_ok own w' L
       else (p, l) \<notin> L \<and> region p (lsize l) \<inter> blocks L = {} \<and> libc_ok own w' (insert (p, l) L) \<and>
         bytes (fst w') p (lsize l) = replicate (lsize l) 0)" if "request SIZE_MAX l" "vt_alloc_zeroed default_vtable = Some z" for z
    using default_zeroed_runs [OF ok' that(1)] that(2) by (fastforce simp: w)
  show "\<exists>q w'. r p old n w = Some (q, w') \<and>
      (if q \<noteq> 0 then (q, old\<lparr>lsize := n\<rparr>) \<notin> L - {(p, old)} \<and> agree (fst w) (fst w') (blocks (L - {(p, old)}) \<union> - own) \<and>
         bytes (fst w') q (min (lsize old) n) = bytes (fst w) p (min (lsize old) n) \<and>
         libc_ok own w' (insert (q, old\<lparr>lsize := n\<rparr>) (L - {(p, old)}))
       else agree (fst w) (fst w') (blocks L \<union> - own) \<and> libc_ok own w' L)"
    if "(p, old) \<in> L" "request SIZE_MAX (old\<lparr>lsize := n\<rparr>)" "vt_remap default_vtable = Some r" for r p old n
    using default_remap_runs [OF ok' that(1,2)] that(3) by (fastforce simp: w)
  show "\<exists>w'. vt_dealloc default_vtable p l w = Some w' \<and> agree (fst w) (fst w') (blocks (L - {(p, l)}) \<union> - own) \<and>
      libc_ok own w' (L - {(p, l)})" if "(p, l) \<in> L" for p l
    using default_dealloc_runs [OF ok' that] by (auto simp: w)
qed simp_all

section \<open>Property\<close>

text \<open>
  C19: over any choices of the C library, after any history of a client that starts with no block
  out, the blocks of the default allocator are aligned, apart and inside the library's heap, each
  asked for at least the bytes it has, and nothing outside it was written; what the library has
  out is those blocks, each can be given back, and a zeroed request is zeroed whether calloc or
  aligned_alloc serves it.
\<close>

theorem default_history_safe:
  assumes heap: "lc_live s = []" "lc_base s + lc_room s \<le> SIZE_MAX"
    and steps: "(client_step default_vtable SIZE_MAX)\<^sup>*\<^sup>* ((m, s), {}) ((m', s'), L)"
  shows "wf_blocks (region (lc_base s) (lc_room s)) SIZE_MAX L \<and>
    agree m m' (- region (lc_base s) (lc_room s)) \<and>
    set (lc_live s') = (\<lambda>b. (fst b, asked (snd b))) ` L \<and> length (lc_live s') = card L \<and>
    (\<forall>(p, l) \<in> L. lsize l \<le> asked l \<and> tda_dealloc default_vtable p l (m', s') \<noteq> None) \<and>
    (request SIZE_MAX l \<longrightarrow> (\<exists>q w. tda_alloc_zeroed default_vtable l (m', s') = Some (q, w) \<and>
       (q \<noteq> 0 \<longrightarrow> bytes (fst w) q (lsize l) = replicate (lsize l) 0)))"
proof -
  let ?own = "region (lc_base s) (lc_room s)"
  have "libc_ok ?own (m, s) {}" using heap by (simp add: libc_ok_def wf_blocks_def)
  then have ok: "libc_ok ?own (m', s') L" and ag: "agree m m' (- ?own)"
    using clib.client_steps_ok [OF steps, of ?own] by simp_all
  note S = libc_okD [OF ok]
  have inj: "inj_on (\<lambda>b. (fst b, asked (snd b))) L"
    using wf_blocks_same_addr [OF S(6)] by (auto simp: inj_on_def)
  have "length (lc_live s') = card (set (lc_live s'))" using S(3) by (simp add: distinct_card distinct_map)
  then have n: "length (lc_live s') = card L" using S(4) card_image [OF inj] by simp
  have give: "lsize l \<le> asked l \<and> tda_dealloc default_vtable p l (m', s') \<noteq> None" if "(p, l) \<in> L" for p l
    using clib.tda_dealloc_spec [OF ok that] asked_ge [OF wf_blockD(2) [OF S(6) that]] by auto
  have "\<exists>q w. tda_alloc_zeroed default_vtable l (m', s') = Some (q, w) \<and>
      (q \<noteq> 0 \<longrightarrow> bytes (fst w) q (lsize l) = replicate (lsize l) 0)" if "request SIZE_MAX l"
    using clib.tda_alloc_zeroed_spec [OF ok that] by fastforce
  then show ?thesis using S(4,6) ag n give by auto
qed

theorem default_history_safe_witness:
  "\<exists>q m' s'. tda_alloc default_vtable \<lparr>lsize = 3, lalign = 16\<rparr>
      (\<lambda>_. 0, \<lparr>lc_base = 4096, lc_room = 64, lc_live = [], lc_picks = [4112]\<rparr>) = Some (q, (m', s')) \<and>
    q = 4112 \<and> lc_live s' = [(4112, 32)] \<and> wf_blocks (region 4096 64) SIZE_MAX {(4112, \<lparr>lsize = 3, lalign = 16\<rparr>)}"
proof -
  let ?s = "\<lparr>lc_base = 4096, lc_room = 64, lc_live = [], lc_picks = [4112]\<rparr>" let ?l = "\<lparr>lsize = 3, lalign = 16\<rparr>"
  let ?s' = "?s\<lparr>lc_live := [(4112, 32)], lc_picks := []\<rparr>"
  have al: "tda_layout_is_align 16" by code_simp
  have run: "tda_alloc default_vtable ?l (\<lambda>_. 0, ?s) = Some (4112, (\<lambda>_. 0, ?s'))"
    using al by (simp add: tda_alloc_def default_alloc_def is_plain_def PLAIN_ALIGN_def plain_size_def max_align_size_def
      libc_malloc_def libc_take_def libc_next_def libc_owed_def may_place_def expect_aligned_ok)
  have req: "request SIZE_MAX ?l" using al by (simp add: request_def SIZE_MAX_def)
  have "(client_step default_vtable SIZE_MAX)\<^sup>*\<^sup>* ((\<lambda>_. 0, ?s), {}) ((\<lambda>_. 0, ?s'), {(4112, ?l)})"
    using client_alloc [OF req run, of "{}"] by (intro r_into_rtranclp) simp
  from default_history_safe [OF _ _ this, of ?l] have "wf_blocks (region 4096 64) SIZE_MAX {(4112, ?l)}"
    by (simp add: SIZE_MAX_def)
  then show ?thesis using run by (intro exI [where x = 4112]) auto
qed

end
