(* ===== verification/Log.thy ===== *)
theory Log
  imports Arena
begin

text \<open>
  \<open>alloc/log.h\<close> and \<open>alloc/log.c\<close>: an allocator that writes a line for each call and passes the call on to
  its parent. A line is its format and its arguments, a constructor each; the stream is the lines
  written so far. A world is the memory, the log, the lines, and the parent's own state.
\<close>

section \<open>State\<close>

datatype log_line =
    Line_created
  | Line_destroyed
  | Line_alloc nat nat addr
  | Line_alloc_zeroed nat nat addr
  | Line_resize addr nat nat nat bool
  | Line_remap addr nat nat nat addr
  | Line_dealloc addr nat nat

record 'p log =
  lg_parent :: "'p vtable option"
  lg_stream :: bool

type_synonym 'p log_world = "('p log \<times> log_line list \<times> 'p) world"

definition log_null :: "'p log" where
  "log_null = \<lparr>lg_parent = None, lg_stream = False\<rparr>"

definition assert_log :: "'p log \<Rightarrow> bool" where
  "assert_log l \<longleftrightarrow> lg_parent l \<noteq> None \<and> lg_stream l"

section \<open>Hooks\<close>

definition log_alloc :: "layout \<Rightarrow> 'p log_world \<Rightarrow> (addr \<times> 'p log_world) option" where
  "log_alloc layout w = (let (m, self, out, p) = w in do {
     chk (assert_log self);
     chk (lsize layout > 0);
     vt \<leftarrow> lg_parent self;
     (ptr, (m, p)) \<leftarrow> tda_alloc vt layout (m, p);
     Some (ptr, (m, self, out @ [Line_alloc (lsize layout) (lalign layout) ptr], p))
   })"

definition log_alloc_zeroed :: "layout \<Rightarrow> 'p log_world \<Rightarrow> (addr \<times> 'p log_world) option" where
  "log_alloc_zeroed layout w = (let (m, self, out, p) = w in do {
     chk (assert_log self);
     chk (lsize layout > 0);
     vt \<leftarrow> lg_parent self;
     (ptr, (m, p)) \<leftarrow> tda_alloc_zeroed vt layout (m, p);
     Some (ptr, (m, self, out @ [Line_alloc_zeroed (lsize layout) (lalign layout) ptr], p))
   })"

definition log_resize :: "addr \<Rightarrow> layout \<Rightarrow> nat \<Rightarrow> 'p log_world \<Rightarrow> (bool \<times> 'p log_world) option" where
  "log_resize ptr old new_size w = (let (m, self, out, p) = w in do {
     chk (assert_log self);
     chk (ptr \<noteq> 0);
     chk (lsize old > 0);
     chk (new_size > 0);
     vt \<leftarrow> lg_parent self;
     (fits, (m, p)) \<leftarrow> tda_resize vt ptr old new_size (m, p);
     Some (fits, (m, self, out @ [Line_resize ptr (lsize old) new_size (lalign old) fits], p))
   })"

definition log_remap :: "addr \<Rightarrow> layout \<Rightarrow> nat \<Rightarrow> 'p log_world \<Rightarrow> (addr \<times> 'p log_world) option" where
  "log_remap ptr old new_size w = (let (m, self, out, p) = w in do {
     chk (assert_log self);
     chk (ptr \<noteq> 0);
     chk (lsize old > 0);
     chk (new_size > 0);
     vt \<leftarrow> lg_parent self;
     (moved, (m, p)) \<leftarrow> tda_remap vt ptr old new_size (m, p);
     Some (moved, (m, self, out @ [Line_remap ptr (lsize old) new_size (lalign old) moved], p))
   })"

definition log_dealloc :: "addr \<Rightarrow> layout \<Rightarrow> 'p log_world \<Rightarrow> 'p log_world option" where
  "log_dealloc ptr layout w = (let (m, self, out, p) = w in do {
     chk (assert_log self);
     chk (ptr \<noteq> 0);
     let out = out @ [Line_dealloc ptr (lsize layout) (lalign layout)];
     vt \<leftarrow> lg_parent self;
     (m, p) \<leftarrow> tda_dealloc vt ptr layout (m, p);
     Some (m, self, out, p)
   })"

definition log_vtable :: "('p log \<times> log_line list \<times> 'p) vtable" where
  "log_vtable = \<lparr>vt_alloc = log_alloc, vt_alloc_zeroed = Some log_alloc_zeroed, vt_resize = Some log_resize,
     vt_remap = Some log_remap, vt_dealloc = log_dealloc\<rparr>"

section \<open>Lifetime and view\<close>

definition tda_log_init :: "bool \<Rightarrow> 'p vtable option \<Rightarrow> log_line list \<Rightarrow> ('p log \<times> log_line list) option" where
  "tda_log_init stream parent out = do {
     chk stream;
     chk (parent \<noteq> None);
     let obj = \<lparr>lg_parent = parent, lg_stream = stream\<rparr>;
     Some (obj, out @ [Line_created])
   }"

definition tda_log_deinit :: "'p log \<Rightarrow> log_line list \<Rightarrow> ('p log \<times> log_line list) option" where
  "tda_log_deinit self out =
     (if lg_parent self = None then Some (self, out)
      else do {
        chk (assert_log self);
        Some (log_null, out @ [Line_destroyed])
      })"

definition tda_log_to_al :: "'p log \<Rightarrow> ('p log \<times> log_line list \<times> 'p) vtable option" where
  "tda_log_to_al self = do { chk (assert_log self); Some log_vtable }"

section \<open>The log changes nothing\<close>

text \<open>What a call through the log comes to without the line it wrote.\<close>

definition with_line :: "'p log \<Rightarrow> log_line list \<Rightarrow> ('a \<Rightarrow> log_line) \<Rightarrow> ('a \<times> 'p world) option \<Rightarrow> ('a \<times> 'p log_world) option" where
  "with_line self out line r = map_option (\<lambda>(a, (m, p)). (a, (m, self, out @ [line a], p))) r"

lemma with_line_Some [simp]: "with_line self out line (Some (a, (m, p))) = Some (a, (m, self, out @ [line a], p))"
  by (simp add: with_line_def)

lemma with_line_None [simp]: "with_line self out line None = None"
  by (simp add: with_line_def)

lemma log_vtable_sels [simp]:
  "vt_alloc log_vtable = log_alloc" "vt_alloc_zeroed log_vtable = Some log_alloc_zeroed" "vt_resize log_vtable = Some log_resize"
  "vt_remap log_vtable = Some log_remap" "vt_dealloc log_vtable = log_dealloc"
  by (simp_all add: log_vtable_def)

lemma alloc_aligned: "tda_alloc vt l w = Some (q, w') \<Longrightarrow> tda_layout_is_align (lalign l) \<and> expect_aligned q (lalign l) = Some ()"
  by (auto simp: tda_alloc_def bind_Some_iff expect_aligned_def split: if_splits)

lemma zeroed_aligned:
  "tda_alloc_zeroed vt l w = Some (q, w') \<Longrightarrow> tda_layout_is_align (lalign l) \<and> expect_aligned q (lalign l) = Some ()"
  by (auto simp: tda_alloc_zeroed_def bind_Some_iff expect_aligned_def split: if_splits option.splits dest: alloc_aligned)

lemma resize_checked:
  "tda_resize vt p l n w = Some (b, w') \<Longrightarrow> p \<noteq> 0 \<and> 0 < lsize l \<and> 0 < n \<and> tda_layout_is_align (lalign l)"
  by (auto simp: tda_resize_def bind_Some_iff)

lemma remap_checked:
  "tda_remap vt p l n w = Some (q, w') \<Longrightarrow>
   p \<noteq> 0 \<and> 0 < lsize l \<and> 0 < n \<and> tda_layout_is_align (lalign l) \<and> expect_aligned q (lalign l) = Some ()"
  by (auto simp: tda_remap_def bind_Some_iff expect_aligned_def split: if_splits option.splits)

lemma dealloc_checked: "tda_dealloc vt p l w = Some w' \<Longrightarrow> p \<noteq> 0 \<Longrightarrow> 0 < lsize l \<and> tda_layout_is_align (lalign l)"
  by (auto simp: tda_dealloc_def bind_Some_iff)

definition log_live :: "'p log \<Rightarrow> 'p vtable \<Rightarrow> bool" where
  "log_live self vt \<longleftrightarrow> lg_parent self = Some vt \<and> lg_stream self"

lemma log_liveD: "log_live self vt \<Longrightarrow> lg_parent self = Some vt \<and> assert_log self"
  by (simp add: log_live_def assert_log_def)

lemma alloc_logged:
  assumes "log_live self vt" "0 < lsize l"
  shows "tda_alloc log_vtable l (m, self, out, p) = with_line self out (Line_alloc (lsize l) (lalign l)) (tda_alloc vt l (m, p))"
  using log_liveD [OF assms(1)] assms(2) alloc_aligned [of vt l "(m, p)"]
  by (cases "tda_alloc vt l (m, p)") (auto simp: tda_alloc_def [of log_vtable] log_alloc_def chk_def)

lemma zeroed_logged:
  assumes "log_live self vt" "0 < lsize l"
  shows "tda_alloc_zeroed log_vtable l (m, self, out, p) =
    with_line self out (Line_alloc_zeroed (lsize l) (lalign l)) (tda_alloc_zeroed vt l (m, p))"
  using log_liveD [OF assms(1)] assms(2) zeroed_aligned [of vt l "(m, p)"]
  by (cases "tda_alloc_zeroed vt l (m, p)") (auto simp: tda_alloc_zeroed_def [of log_vtable] log_alloc_zeroed_def chk_def)

lemma resize_logged:
  assumes "log_live self vt"
  shows "tda_resize log_vtable q l n (m, self, out, p) = with_line self out (Line_resize q (lsize l) n (lalign l)) (tda_resize vt q l n (m, p))"
  using log_liveD [OF assms] resize_checked [of vt q l n "(m, p)"]
  by (cases "tda_resize vt q l n (m, p)") (auto simp: tda_resize_def [of log_vtable] log_resize_def chk_def)

lemma remap_logged:
  assumes "log_live self vt"
  shows "tda_remap log_vtable q l n (m, self, out, p) = with_line self out (Line_remap q (lsize l) n (lalign l)) (tda_remap vt q l n (m, p))"
  using log_liveD [OF assms] remap_checked [of vt q l n "(m, p)"]
  by (cases "tda_remap vt q l n (m, p)") (auto simp: tda_remap_def [of log_vtable] log_remap_def chk_def)

lemma dealloc_logged:
  assumes "log_live self vt"
  shows "tda_dealloc log_vtable q l (m, self, out, p) = map_option
    (\<lambda>(m, p). (m, self, if q = 0 then out else out @ [Line_dealloc q (lsize l) (lalign l)], p)) (tda_dealloc vt q l (m, p))"
  using log_liveD [OF assms] dealloc_checked [of vt q l "(m, p)"]
proof (cases "q = 0")
  case True
  then show ?thesis by (simp add: tda_dealloc_def chk_def)
next
  case False
  then show ?thesis
    using log_liveD [OF assms] dealloc_checked [of vt q l "(m, p)"]
    by (cases "tda_dealloc vt q l (m, p)") (auto simp: tda_dealloc_def [of log_vtable] log_dealloc_def chk_def)
qed

text \<open>A result without the log.\<close>

definition unlogged :: "('a \<times> 'p log_world) option \<Rightarrow> ('a \<times> 'p world) option" where
  "unlogged r = map_option (\<lambda>(a, (m, self, out, p)). (a, (m, p))) r"

lemma unlogged_simps [simp]:
  "unlogged None = None" "unlogged (Some (a, (m, self, out, p))) = Some (a, (m, p))"
  by (simp_all add: unlogged_def)

lemma unlogged_line: "unlogged (with_line self out line r) = r"
  by (cases r) (auto simp: with_line_def)

text \<open>The log and its parent answer alike, and the log has only added lines.\<close>

definition log_same :: "'p log \<Rightarrow> log_line list \<Rightarrow> ('a \<times> 'p log_world) option \<Rightarrow> ('a \<times> 'p world) option \<Rightarrow> bool" where
  "log_same self out r r' \<longleftrightarrow> unlogged r = r' \<and>
     (\<forall>a m s o' p. r = Some (a, (m, s, o', p)) \<longrightarrow> s = self \<and> (\<exists>ls. o' = out @ ls))"

lemma log_same_None [simp]: "log_same self out None r \<longleftrightarrow> r = None"
  by (auto simp: log_same_def)

lemma log_same_Some [simp]:
  "log_same self out (Some (a, (m, s, o', p))) r \<longleftrightarrow> r = Some (a, (m, p)) \<and> s = self \<and> (\<exists>ls. o' = out @ ls)"
  by (auto simp: log_same_def)

lemma log_same_line: "log_same self out (with_line self out line r) r"
  by (cases r) (auto simp: with_line_def)

lemma realloc_logged:
  assumes live: "log_live self vt"
  shows "log_same self out (tda_realloc log_vtable q l n (m, self, out, p)) (tda_realloc vt q l n (m, p))"
proof (cases "(q = 0) = (lsize l = 0) \<and> tda_layout_is_align (lalign l)")
  case False
  then show ?thesis by (auto simp: tda_realloc_def chk_def)
next
  case ok: True
  consider "n = 0" | "n \<noteq> 0" "q = 0" | "n \<noteq> 0" "q \<noteq> 0" by blast
  then show ?thesis
  proof cases
    case 1
    then show ?thesis using ok dealloc_logged [OF live, of q l m out p]
      by (cases "tda_dealloc vt q l (m, p)") (auto simp: tda_realloc_def)
  next
    case 2
    then show ?thesis using ok alloc_logged [OF live, of "\<lparr>lsize = n, lalign = lalign l\<rparr>" m out p]
      by (simp add: tda_realloc_def log_same_line)
  next
    case 3
    let ?l = "\<lparr>lsize = n, lalign = lalign l\<rparr>"
    note R = resize_logged [OF live, of q l n m out p]
    show ?thesis
    proof (cases "tda_resize vt q l n (m, p)")
      case None
      then show ?thesis using ok 3 R by (simp add: tda_realloc_def)
    next
      case (Some bw)
      obtain b m1 p1 where bw: "bw = (b, (m1, p1))" by (metis prod.exhaust)
      let ?o1 = "out @ [Line_resize q (lsize l) n (lalign l) b]"
      have r1: "tda_resize vt q l n (m, p) = Some (b, (m1, p1))" "tda_resize log_vtable q l n (m, self, out, p) = Some (b, (m1, self, ?o1, p1))"
        using Some bw R by simp_all
      note M = remap_logged [OF live, of q l n m1 ?o1 p1]
      show ?thesis
      proof (cases "b \<or> tda_remap vt q l n (m1, p1) = None")
        case True
        then show ?thesis using ok 3 r1 M by (cases b) (simp_all add: tda_realloc_def)
      next
        case False
        then obtain r m2 p2 where r2: "tda_remap vt q l n (m1, p1) = Some (r, (m2, p2))" by (metis not_None_eq prod.exhaust)
        let ?o2 = "?o1 @ [Line_remap q (lsize l) n (lalign l) r]"
        have r2': "tda_remap log_vtable q l n (m1, self, ?o1, p1) = Some (r, (m2, self, ?o2, p2))" using r2 M by simp
        note A = alloc_logged [OF live, of ?l m2 ?o2 p2]
        show ?thesis
        proof (cases "r \<noteq> 0 \<or> tda_alloc vt ?l (m2, p2) = None")
          case True
          then show ?thesis using ok 3 False r1 r2 r2' A by (cases "r = 0") (simp_all add: tda_realloc_def)
        next
          case r: False
          then obtain u m3 p3 where r3: "tda_alloc vt ?l (m2, p2) = Some (u, (m3, p3))" by (metis not_None_eq prod.exhaust)
          let ?o3 = "?o2 @ [Line_alloc n (lalign l) u]"
          have r3': "tda_alloc log_vtable ?l (m2, self, ?o2, p2) = Some (u, (m3, self, ?o3, p3))" using r3 A 3 by simp
          have start: "tda_realloc log_vtable q l n (m, self, out, p) = (if u = 0 then Some (0, (m3, self, ?o3, p3)) else do {
                m4 \<leftarrow> memcpy m3 u q (if lsize l < n then lsize l else n);
                w \<leftarrow> tda_dealloc log_vtable q l (m4, self, ?o3, p3);
                Some (u, w)
              })"
            "tda_realloc vt q l n (m, p) = (if u = 0 then Some (0, (m3, p3)) else do {
                m4 \<leftarrow> memcpy m3 u q (if lsize l < n then lsize l else n);
                w \<leftarrow> tda_dealloc vt q l (m4, p3);
                Some (u, w)
              })"
            using ok 3 False r r1 r2 r2' r3 r3' by (simp_all add: tda_realloc_def cong: if_cong)
          show ?thesis
          proof (cases "memcpy m3 u q (if lsize l < n then lsize l else n)")
            case None
            then show ?thesis unfolding start by (cases "u = 0") simp_all
          next
            case (Some m4)
            then show ?thesis unfolding start using dealloc_logged [OF live, of q l m4 ?o3 p3]
              by (cases "u = 0"; cases "tda_dealloc vt q l (m4, p3)") (auto simp: 3)
          qed
        qed
      qed
    qed
  qed
qed

section \<open>The contract\<close>

definition log_ok :: "'p vtable \<Rightarrow> ('p world \<Rightarrow> block set \<Rightarrow> bool) \<Rightarrow> 'p log_world \<Rightarrow> block set \<Rightarrow> bool" where
  "log_ok pvt pok w L \<longleftrightarrow> (let (m, self, out, p) = w in log_live self pvt \<and> pok (m, p) L)"

lemma hooks_logged:
  assumes "log_live self vt"
  shows "0 < lsize l \<Longrightarrow> log_alloc l (m, self, out, p) = with_line self out (Line_alloc (lsize l) (lalign l)) (tda_alloc vt l (m, p))"
    "0 < lsize l \<Longrightarrow> log_alloc_zeroed l (m, self, out, p) =
       with_line self out (Line_alloc_zeroed (lsize l) (lalign l)) (tda_alloc_zeroed vt l (m, p))"
    "log_resize q l n (m, self, out, p) = with_line self out (Line_resize q (lsize l) n (lalign l)) (tda_resize vt q l n (m, p))"
    "log_remap q l n (m, self, out, p) = with_line self out (Line_remap q (lsize l) n (lalign l)) (tda_remap vt q l n (m, p))"
    "q \<noteq> 0 \<Longrightarrow> log_dealloc q l (m, self, out, p) =
       map_option (\<lambda>(m, p). (m, self, out @ [Line_dealloc q (lsize l) (lalign l)], p)) (tda_dealloc vt q l (m, p))"
  using log_liveD [OF assms] resize_checked [of vt q l n "(m, p)"] remap_checked [of vt q l n "(m, p)"]
  by (auto simp: log_alloc_def log_alloc_zeroed_def log_resize_def log_remap_def log_dealloc_def with_line_def chk_def
      split: option.splits bind_splits)

context allocator begin

lemma log_contract: "allocator log_vtable (log_ok vt ok) own amax"
proof unfold_locales
  fix w L assume lok: "log_ok vt ok w L"
  obtain m self out p where w: "w = (m, self, out, p)" by (metis prod_cases4)
  have live: "log_live self vt" and k: "ok (m, p) L" using lok by (simp_all add: log_ok_def w)
  note H = hooks_logged [OF live]
  show "wf_blocks own amax L" by (rule ok_wf [OF k])
  show "log_ok vt ok (m', snd w) L" if "agree (fst w) m' (own - blocks L)" for m'
    using frame_law [OF k] that live by (simp add: log_ok_def w)
  show "\<exists>q w'. vt_alloc log_vtable l w = Some (q, w') \<and> agree (fst w) (fst w') (blocks L \<union> - own) \<and>
      (if q = 0 then log_ok vt ok w' L
       else (q, l) \<notin> L \<and> region q (lsize l) \<inter> blocks L = {} \<and> log_ok vt ok w' (insert (q, l) L))" if "request amax l" for l
    using tda_alloc_spec [OF k that] H(1) [OF requestD(1) [OF that]] live by (fastforce simp: w log_ok_def)
  show "\<exists>q w'. z l w = Some (q, w') \<and> agree (fst w) (fst w') (blocks L \<union> - own) \<and>
      (if q = 0 then log_ok vt ok w' L
       else (q, l) \<notin> L \<and> region q (lsize l) \<inter> blocks L = {} \<and> log_ok vt ok w' (insert (q, l) L) \<and>
         bytes (fst w') q (lsize l) = replicate (lsize l) 0)" if "request amax l" "vt_alloc_zeroed log_vtable = Some z" for z l
    using tda_alloc_zeroed_spec [OF k that(1)] H(2) [OF requestD(1) [OF that(1)]] that(2) live by (fastforce simp: w log_ok_def)
  show "\<exists>b w'. r q old n w = Some (b, w') \<and>
      (if b then agree (fst w) (fst w') (blocks (L - {(q, old)}) \<union> - own) \<and>
         bytes (fst w') q (min (lsize old) n) = bytes (fst w) q (min (lsize old) n) \<and>
         log_ok vt ok w' (insert (q, old\<lparr>lsize := n\<rparr>) (L - {(q, old)}))
       else agree (fst w) (fst w') (blocks L \<union> - own) \<and> log_ok vt ok w' L)"
    if "(q, old) \<in> L" "request amax (old\<lparr>lsize := n\<rparr>)" "vt_resize log_vtable = Some r" for r q old n
    using tda_resize_spec [OF k that(1,2)] H(3) that(3) live by (fastforce simp: w log_ok_def)
  show "\<exists>q' w'. r q old n w = Some (q', w') \<and>
      (if q' \<noteq> 0 then (q', old\<lparr>lsize := n\<rparr>) \<notin> L - {(q, old)} \<and> agree (fst w) (fst w') (blocks (L - {(q, old)}) \<union> - own) \<and>
         bytes (fst w') q' (min (lsize old) n) = bytes (fst w) q (min (lsize old) n) \<and>
         log_ok vt ok w' (insert (q', old\<lparr>lsize := n\<rparr>) (L - {(q, old)}))
       else agree (fst w) (fst w') (blocks L \<union> - own) \<and> log_ok vt ok w' L)"
    if "(q, old) \<in> L" "request amax (old\<lparr>lsize := n\<rparr>)" "vt_remap log_vtable = Some r" for r q old n
    using tda_remap_spec [OF k that(1,2)] H(4) that(3) live by (fastforce simp: w log_ok_def)
  show "\<exists>w'. vt_dealloc log_vtable q l w = Some w' \<and> agree (fst w) (fst w') (blocks (L - {(q, l)}) \<union> - own) \<and>
      log_ok vt ok w' (L - {(q, l)})" if "(q, l) \<in> L" for q l
    using tda_dealloc_spec [OF k that] H(5) [OF wf_blockD(1) [OF ok_wf [OF k] that]] live by (fastforce simp: w log_ok_def)
qed

end

interpretation log_over_arena: allocator log_vtable "log_ok arena_vtable (arena_ok own ks)" own SIZE_MAX for own ks
  by (rule arena.log_contract)

section \<open>Property\<close>

text \<open>
  C20: from the moment a log is made, each call through it, the composed realloc included, does to
  the memory and to the parent what the call on the parent does and answers the same, whatever
  hooks the parent has; it only adds a line for the call, and deinit the last.
\<close>

theorem log_transparent:
  assumes init: "tda_log_init stream (Some vt) out0 = Some (self, out)"
  shows "(0 < lsize l \<longrightarrow> tda_alloc log_vtable l (m, self, out, p) =
      with_line self out (Line_alloc (lsize l) (lalign l)) (tda_alloc vt l (m, p))) \<and>
    (0 < lsize l \<longrightarrow> tda_alloc_zeroed log_vtable l (m, self, out, p) =
      with_line self out (Line_alloc_zeroed (lsize l) (lalign l)) (tda_alloc_zeroed vt l (m, p))) \<and>
    tda_resize log_vtable q l n (m, self, out, p) = with_line self out (Line_resize q (lsize l) n (lalign l)) (tda_resize vt q l n (m, p)) \<and>
    tda_remap log_vtable q l n (m, self, out, p) = with_line self out (Line_remap q (lsize l) n (lalign l)) (tda_remap vt q l n (m, p)) \<and>
    tda_dealloc log_vtable q l (m, self, out, p) = map_option
      (\<lambda>(m, p). (m, self, if q = 0 then out else out @ [Line_dealloc q (lsize l) (lalign l)], p)) (tda_dealloc vt q l (m, p)) \<and>
    log_same self out (tda_realloc log_vtable q l n (m, self, out, p)) (tda_realloc vt q l n (m, p)) \<and>
    tda_log_deinit self out = Some (log_null, out @ [Line_destroyed])"
proof -
  have live: "log_live self vt" using init by (auto simp: tda_log_init_def log_live_def)
  note D = log_liveD [OF live]
  show ?thesis
    using alloc_logged [OF live] zeroed_logged [OF live] resize_logged [OF live] remap_logged [OF live]
      dealloc_logged [OF live] realloc_logged [OF live] D
    by (simp add: tda_log_deinit_def)
qed

theorem log_transparent_witness:
  "\<exists>(a :: unit arena) (self :: unit arena log) out. tda_arena_init_buf 4096 64 = Some a \<and> tda_log_init True (Some arena_vtable) [] = Some (self, out) \<and>
    out = [Line_created] \<and> tda_log_deinit self out = Some (log_null, [Line_created, Line_destroyed])"
proof -
  obtain a :: "unit arena" where a: "tda_arena_init_buf 4096 64 = Some a"
    by (simp add: tda_arena_init_buf_def arena_fill_def)
  obtain self :: "unit arena log" and out where i: "tda_log_init True (Some arena_vtable) [] = Some (self, out)" "out = [Line_created]"
    by (simp add: tda_log_init_def)
  have "tda_log_deinit self out = Some (log_null, out @ [Line_destroyed])" using log_transparent [OF i(1)] by blast
  then show ?thesis using a i by auto
qed

end
