(* ===== verification/Cmp.thy ===== *)
theory Cmp
  imports Memory
begin

text \<open>
  \<open>core/cmp.h\<close> and \<open>core/cmp.c\<close>: the comparators, and the contract the ordering algorithms have
  with a comparator as a locale. A \<open>tda_Cmp\<close> with its context is a function from two operands to
  an int; a \<open>tda_Eq\<close> and a \<open>tda_Pred\<close> are boolean functions.

  The integer types of the code are words of their width, read as signed or unsigned. A float is
  its IEEE 754 bit pattern.
\<close>

section \<open>The value forms\<close>

text \<open>\<open>(a > b) - (a < b)\<close>\<close>

definition cmp_int :: "int \<Rightarrow> int \<Rightarrow> int" where
  "cmp_int a b = of_bool (a > b) - of_bool (a < b)"

definition cmp_char :: "byte \<Rightarrow> byte \<Rightarrow> int" where
  "cmp_char a b = (let ua = uint a; ub = uint b in of_bool (ua > ub) - of_bool (ua < ub))"

text \<open>
  The sign, exponent and fraction of a bit pattern with \<open>f\<close> fraction bits. Two patterns that are
  no NaN compare as sign and magnitude: the patterns of one sign are ordered as integers, and the
  two zeros are equal.
\<close>

definition flt_isnan :: "nat \<Rightarrow> 'w::len word \<Rightarrow> bool" where
  "flt_isnan f a \<longleftrightarrow> (let mag = uint a mod 2 ^ (LENGTH('w) - 1)
     in mag > (2 ^ (LENGTH('w) - 1 - f) - 1) * 2 ^ f)"

definition flt_key :: "'w::len word \<Rightarrow> int" where
  "flt_key a = (let mag = uint a mod 2 ^ (LENGTH('w) - 1)
     in if uint a \<ge> 2 ^ (LENGTH('w) - 1) then - mag else mag)"

definition cmp_float :: "nat \<Rightarrow> 'w::len word \<Rightarrow> 'w word \<Rightarrow> int" where
  "cmp_float f a b = (let a_nan = flt_isnan f a; b_nan = flt_isnan f b in
     if a_nan \<or> b_nan then (if a_nan \<and> b_nan then 0 else if a_nan then 1 else - 1)
     else of_bool (flt_key a > flt_key b) - of_bool (flt_key a < flt_key b))"

text \<open>
  \<open>strcmp\<close> of the standard library on the bytes of two strings, up to the terminator: the sign of
  the first difference, the chars read as unsigned.
\<close>

fun strcmp :: "byte list \<Rightarrow> byte list \<Rightarrow> int" where
  "strcmp [] [] = 0"
| "strcmp [] (b # bs) = - 1"
| "strcmp (a # as) [] = 1"
| "strcmp (a # as) (b # bs) = (if a = b then strcmp as bs else uint a - uint b)"

text \<open>\<open>str p\<close> is the string at the address \<open>p\<close>; null is the address 0.\<close>

definition cmp_cstr :: "(addr \<Rightarrow> byte list) \<Rightarrow> addr \<Rightarrow> addr \<Rightarrow> int" where
  "cmp_cstr str lhs rhs =
     (if lhs = rhs then 0
      else if lhs = 0 then - 1
      else if rhs = 0 then 1
      else let c = strcmp (str lhs) (str rhs) in of_bool (c > 0) - of_bool (c < 0))"

section \<open>The comparators\<close>

definition tda_cmp_signed :: "'w::len word \<Rightarrow> 'w word \<Rightarrow> int" where
  "tda_cmp_signed lhs rhs = cmp_int (sint lhs) (sint rhs)"

definition tda_cmp_unsigned :: "'w::len word \<Rightarrow> 'w word \<Rightarrow> int" where
  "tda_cmp_unsigned lhs rhs = cmp_int (uint lhs) (uint rhs)"

definition tda_cmp_i8 :: "8 word \<Rightarrow> 8 word \<Rightarrow> int" where "tda_cmp_i8 = tda_cmp_signed"
definition tda_cmp_i16 :: "16 word \<Rightarrow> 16 word \<Rightarrow> int" where "tda_cmp_i16 = tda_cmp_signed"
definition tda_cmp_i32 :: "32 word \<Rightarrow> 32 word \<Rightarrow> int" where "tda_cmp_i32 = tda_cmp_signed"
definition tda_cmp_i64 :: "64 word \<Rightarrow> 64 word \<Rightarrow> int" where "tda_cmp_i64 = tda_cmp_signed"
definition tda_cmp_u8 :: "8 word \<Rightarrow> 8 word \<Rightarrow> int" where "tda_cmp_u8 = tda_cmp_unsigned"
definition tda_cmp_u16 :: "16 word \<Rightarrow> 16 word \<Rightarrow> int" where "tda_cmp_u16 = tda_cmp_unsigned"
definition tda_cmp_u32 :: "32 word \<Rightarrow> 32 word \<Rightarrow> int" where "tda_cmp_u32 = tda_cmp_unsigned"
definition tda_cmp_u64 :: "64 word \<Rightarrow> 64 word \<Rightarrow> int" where "tda_cmp_u64 = tda_cmp_unsigned"
definition tda_cmp_size :: "64 word \<Rightarrow> 64 word \<Rightarrow> int" where "tda_cmp_size = tda_cmp_unsigned"
definition tda_cmp_ptrdiff :: "64 word \<Rightarrow> 64 word \<Rightarrow> int" where "tda_cmp_ptrdiff = tda_cmp_signed"
definition tda_cmp_char :: "byte \<Rightarrow> byte \<Rightarrow> int" where "tda_cmp_char = cmp_char"
definition tda_cmp_f32 :: "32 word \<Rightarrow> 32 word \<Rightarrow> int" where "tda_cmp_f32 = cmp_float 23"
definition tda_cmp_f64 :: "64 word \<Rightarrow> 64 word \<Rightarrow> int" where "tda_cmp_f64 = cmp_float 52"
definition tda_cmp_cstr :: "(addr \<Rightarrow> byte list) \<Rightarrow> addr \<Rightarrow> addr \<Rightarrow> int" where
  "tda_cmp_cstr = cmp_cstr"

text \<open>The descending form of each swaps its operands; the equality form compares with 0.\<close>

definition tda_cmp_desc :: "('a \<Rightarrow> 'a \<Rightarrow> int) \<Rightarrow> 'a \<Rightarrow> 'a \<Rightarrow> int" where
  "tda_cmp_desc cmp lhs rhs = cmp rhs lhs"

definition tda_eq_form :: "('a \<Rightarrow> 'a \<Rightarrow> int) \<Rightarrow> 'a \<Rightarrow> 'a \<Rightarrow> bool" where
  "tda_eq_form cmp lhs rhs \<longleftrightarrow> cmp lhs rhs = 0"

section \<open>What an ordering algorithm asks of its comparator\<close>

locale total_cmp =
  fixes cmp :: "'a \<Rightarrow> 'a \<Rightarrow> int"
  assumes cmp_swap: "sgn (cmp a b) = - sgn (cmp b a)"
    and cmp_le_trans: "cmp a b \<le> 0 \<Longrightarrow> cmp b c \<le> 0 \<Longrightarrow> cmp a c \<le> 0"

context total_cmp begin

lemma cmp_less_iff: "cmp a b < 0 \<longleftrightarrow> 0 < cmp b a"
  using cmp_swap [of a b] by (auto simp: sgn_if split: if_splits)

lemma cmp_zero_iff: "cmp a b = 0 \<longleftrightarrow> cmp b a = 0"
  using cmp_swap [of a b] by (auto simp: sgn_if split: if_splits)

lemma cmp_le_iff: "cmp a b \<le> 0 \<longleftrightarrow> 0 \<le> cmp b a"
  using cmp_less_iff [of a b] cmp_zero_iff [of a b] by linarith

lemma cmp_ge_iff: "0 \<le> cmp a b \<longleftrightarrow> cmp b a \<le> 0"
  using cmp_le_iff [of b a] by simp

lemma cmp_refl [simp]: "cmp a a = 0"
  using cmp_swap [of a a] by (simp add: sgn_if split: if_splits)

lemma cmp_le_total: "cmp a b \<le> 0 \<or> cmp b a \<le> 0"
  using cmp_le_iff [of a b] by linarith

lemma cmp_less_le: "cmp a b < 0 \<Longrightarrow> cmp a b \<le> 0"
  by simp

lemma not_less_iff: "\<not> cmp a b < 0 \<longleftrightarrow> cmp b a \<le> 0"
  using cmp_le_iff [of b a] by linarith

lemma not_le_iff: "\<not> cmp a b \<le> 0 \<longleftrightarrow> cmp b a < 0"
  using cmp_less_iff [of b a] by linarith

lemma less_le_trans: "cmp a b < 0 \<Longrightarrow> cmp b c \<le> 0 \<Longrightarrow> cmp a c < 0"
  using cmp_le_trans [of c a b] cmp_le_trans [of b c a] not_le_iff [of c a] not_le_iff [of b a]
  by (metis cmp_le_iff cmp_less_iff leD not_le)

lemma le_less_trans: "cmp a b \<le> 0 \<Longrightarrow> cmp b c < 0 \<Longrightarrow> cmp a c < 0"
  by (metis cmp_le_trans not_le_iff)

lemma zero_trans: "cmp a b = 0 \<Longrightarrow> cmp b c = 0 \<Longrightarrow> cmp a c = 0"
  using cmp_le_trans [of a b c] cmp_le_trans [of c b a] cmp_zero_iff [of a b] cmp_zero_iff [of b c]
    cmp_le_iff [of c a] by simp

lemma transp_le: "transp (\<lambda>a b. cmp a b \<le> 0)"
  by (rule transpI) (rule cmp_le_trans)

end

section \<open>The comparators are total orders\<close>

text \<open>A comparator that has the sign of a difference of keys.\<close>

lemma total_cmp_key:
  fixes k :: "'a \<Rightarrow> int"
  assumes "\<And>a b. sgn (cmp a b) = sgn (k a - k b)"
  shows "total_cmp cmp"
proof
  fix a b
  have "sgn (k a - k b) = - sgn (k b - k a)" by (simp add: sgn_if)
  then show "sgn (cmp a b) = - sgn (cmp b a)" by (simp add: assms)
next
  fix a b c assume "cmp a b \<le> 0" "cmp b c \<le> 0"
  then have "sgn (cmp a b) \<le> 0" "sgn (cmp b c) \<le> 0" by (simp_all add: sgn_if)
  then have "sgn (cmp a c) \<le> 0" unfolding assms by (auto simp: sgn_if split: if_splits)
  then show "cmp a c \<le> 0" by (simp add: sgn_if split: if_splits)
qed

lemma sgn_of_bool_diff: "sgn (of_bool (b < a) - of_bool (a < b) :: int) = sgn (a - b)" for a b :: int
  by (auto simp: sgn_if)

lemma total_cmp_signed: "total_cmp tda_cmp_signed"
  by (rule total_cmp_key [of _ sint]) (simp add: tda_cmp_signed_def cmp_int_def sgn_of_bool_diff)

lemma total_cmp_unsigned: "total_cmp tda_cmp_unsigned"
  by (rule total_cmp_key [of _ uint]) (simp add: tda_cmp_unsigned_def cmp_int_def sgn_of_bool_diff)

lemma flt_key_less: "flt_key (a :: 'w::len word) < 2 ^ LENGTH('w)"
proof -
  have "uint a mod 2 ^ (LENGTH('w) - 1) < 2 ^ (LENGTH('w) - 1)" by simp
  also have "(2::int) ^ (LENGTH('w) - 1) \<le> 2 ^ LENGTH('w)" by (rule power_increasing) simp_all
  finally have "uint a mod 2 ^ (LENGTH('w) - 1) < 2 ^ LENGTH('w)" .
  moreover have "0 \<le> uint a mod 2 ^ (LENGTH('w) - 1)" by simp
  moreover have "(0::int) < 2 ^ LENGTH('w)" by simp
  ultimately have "- (uint a mod 2 ^ (LENGTH('w) - 1)) < 2 ^ LENGTH('w)" by linarith
  then show ?thesis
    using \<open>uint a mod 2 ^ (LENGTH('w) - 1) < 2 ^ LENGTH('w)\<close> unfolding flt_key_def Let_def
    by (simp only: split: if_split) simp
qed

definition flt_rank :: "nat \<Rightarrow> 'w::len word \<Rightarrow> int" where
  "flt_rank f a = (if flt_isnan f a then 2 ^ LENGTH('w) else flt_key a)"

lemma cmp_float_rank: "sgn (cmp_float f (a :: 'a::len word) b) = sgn (flt_rank f a - flt_rank f b)"
proof (cases "flt_isnan f a \<or> flt_isnan f b")
  case True
  have "sgn (2 ^ LENGTH('a) - flt_key c) = 1" "sgn (flt_key c - 2 ^ LENGTH('a)) = - 1"
    for c :: "'a::len word"
    using flt_key_less [of c] by (simp_all add: sgn_if)
  then show ?thesis using True by (auto simp: cmp_float_def flt_rank_def Let_def)
next
  case False
  then show ?thesis by (simp add: cmp_float_def flt_rank_def Let_def sgn_of_bool_diff)
qed

lemma total_cmp_float: "total_cmp (cmp_float f)"
  by (rule total_cmp_key [of _ "flt_rank f"]) (rule cmp_float_rank)

lemma total_cmp_desc:
  assumes "total_cmp cmp"
  shows "total_cmp (tda_cmp_desc cmp)"
proof
  show "sgn (tda_cmp_desc cmp a b) = - sgn (tda_cmp_desc cmp b a)" for a b
    unfolding tda_cmp_desc_def by (rule total_cmp.cmp_swap [OF assms])
  show "tda_cmp_desc cmp a b \<le> 0 \<Longrightarrow> tda_cmp_desc cmp b c \<le> 0 \<Longrightarrow> tda_cmp_desc cmp a c \<le> 0" for a b c
    unfolding tda_cmp_desc_def using total_cmp.cmp_le_trans [OF assms, of c b a] by blast
qed

lemma sgn_cmp_char: "cmp_char a b = tda_cmp_unsigned a b"
  by (simp add: cmp_char_def tda_cmp_unsigned_def cmp_int_def Let_def)

interpretation i8: total_cmp tda_cmp_i8 unfolding tda_cmp_i8_def by (rule total_cmp_signed)
interpretation i16: total_cmp tda_cmp_i16 unfolding tda_cmp_i16_def by (rule total_cmp_signed)
interpretation i32: total_cmp tda_cmp_i32 unfolding tda_cmp_i32_def by (rule total_cmp_signed)
interpretation i64: total_cmp tda_cmp_i64 unfolding tda_cmp_i64_def by (rule total_cmp_signed)
interpretation u8: total_cmp tda_cmp_u8 unfolding tda_cmp_u8_def by (rule total_cmp_unsigned)
interpretation u16: total_cmp tda_cmp_u16 unfolding tda_cmp_u16_def by (rule total_cmp_unsigned)
interpretation u32: total_cmp tda_cmp_u32 unfolding tda_cmp_u32_def by (rule total_cmp_unsigned)
interpretation u64: total_cmp tda_cmp_u64 unfolding tda_cmp_u64_def by (rule total_cmp_unsigned)
interpretation size: total_cmp tda_cmp_size unfolding tda_cmp_size_def by (rule total_cmp_unsigned)
interpretation ptrdiff: total_cmp tda_cmp_ptrdiff unfolding tda_cmp_ptrdiff_def by (rule total_cmp_signed)
interpretation f32: total_cmp tda_cmp_f32 unfolding tda_cmp_f32_def by (rule total_cmp_float)
interpretation f64: total_cmp tda_cmp_f64 unfolding tda_cmp_f64_def by (rule total_cmp_float)

interpretation chr: total_cmp tda_cmp_char
proof -
  have "tda_cmp_char = tda_cmp_unsigned"
    by (intro ext) (simp add: tda_cmp_char_def sgn_cmp_char)
  then show "total_cmp tda_cmp_char" using total_cmp_unsigned by simp
qed

interpretation desc_i32: total_cmp "tda_cmp_desc tda_cmp_i32"
  by (rule total_cmp_desc) (rule i32.total_cmp_axioms)

lemma strcmp_swap: "sgn (strcmp a b) = - sgn (strcmp b a)"
proof (induction a b rule: strcmp.induct)
  case (4 a as b bs)
  then show ?case by (cases "a = b") (auto simp: sgn_if)
qed simp_all

lemma strcmp_trans: "strcmp a b \<le> 0 \<Longrightarrow> strcmp b c \<le> 0 \<Longrightarrow> strcmp a c \<le> 0"
proof (induction a b arbitrary: c rule: strcmp.induct)
  case (2 b bs)
  then show ?case by (cases c) auto
next
  case (4 a as b bs)
  then show ?case
    by (cases c) (auto split: if_splits simp: word_uint_eq_iff)
qed auto

lemma strcmp_eq_zero: "strcmp a b = 0 \<longleftrightarrow> a = b"
  by (induction a b rule: strcmp.induct) (auto simp: word_uint_eq_iff)

interpretation strcmp: total_cmp strcmp
  by unfold_locales (rule strcmp_swap, rule strcmp_trans)

interpretation cstr: total_cmp "tda_cmp_cstr str" for str
proof
  show "sgn (tda_cmp_cstr str a b) = - sgn (tda_cmp_cstr str b a)" for a b
    using strcmp_swap [of "str a" "str b"]
    by (auto simp: tda_cmp_cstr_def cmp_cstr_def Let_def sgn_if split: if_splits)
next
  fix a b c
  assume ab: "tda_cmp_cstr str a b \<le> 0" and bc: "tda_cmp_cstr str b c \<le> 0"
  show "tda_cmp_cstr str a c \<le> 0"
    using ab bc strcmp_trans [of "str a" "str b" "str c"]
    by (auto simp: tda_cmp_cstr_def cmp_cstr_def Let_def split: if_splits)
qed

end
