(* ===== verification/Account.thy ===== *)
theory Account
  imports Alloc Status
begin

text \<open>
  An allocator as the containers see it. A container never looks at the address of a block: it
  asks for one, has it resized, gives it back with the layout it has, and reads and writes the
  slots between. So its model holds the slots of a block as a list, and of the allocator the
  account: the answers it is going to give, and the layouts of the blocks that are out.

  A \<open>tda_Al\<close> is a number, 0 for the view with no hook table. The answers are a script, used up
  front to back; when it is used up every request is served. Giving back a block that is not out,
  or with another layout than it was taken with, breaks the contract with every allocator, and the
  model stops there as it does for a failing assert.

  The last section shows that the account is what any allocator of \<open>Alloc\<close> does.
\<close>

type_synonym al = nat

record account =
  answers :: "bool list"
  live :: "layout multiset"

type_synonym heap = "al \<Rightarrow> account"

section \<open>Requests\<close>

definition al_answer :: "al \<Rightarrow> heap \<Rightarrow> bool \<times> heap" where
  "al_answer a h = (case answers (h a) of
       [] \<Rightarrow> (True, h)
     | b # bs \<Rightarrow> (b, h(a := (h a)\<lparr>answers := bs\<rparr>)))"

definition al_take :: "al \<Rightarrow> layout \<Rightarrow> heap \<Rightarrow> heap" where
  "al_take a l h = h(a := (h a)\<lparr>live := add_mset l (live (h a))\<rparr>)"

definition al_give :: "al \<Rightarrow> layout \<Rightarrow> heap \<Rightarrow> heap" where
  "al_give a l h = h(a := (h a)\<lparr>live := live (h a) - {#l#}\<rparr>)"

definition al_alloc :: "al \<Rightarrow> layout \<Rightarrow> heap \<Rightarrow> (bool \<times> heap) option" where
  "al_alloc a l h = do {
     chk (a \<noteq> 0);
     chk (tda_layout_is_align (lalign l));
     if lsize l = 0 then Some (False, h)
     else (let (served, h) = al_answer a h in
       Some (if served then (True, al_take a l h) else (False, h)))
   }"

text \<open>\<open>has\<close> says whether the pointer is one, and not null.\<close>

definition al_dealloc :: "al \<Rightarrow> bool \<Rightarrow> layout \<Rightarrow> heap \<Rightarrow> heap option" where
  "al_dealloc a has l h = do {
     chk (a \<noteq> 0);
     chk (\<not> has \<or> lsize l > 0);
     chk (tda_layout_is_align (lalign l));
     if \<not> has then Some h
     else do { chk (l \<in># live (h a)); Some (al_give a l h) }
   }"

definition al_realloc :: "al \<Rightarrow> bool \<Rightarrow> layout \<Rightarrow> nat \<Rightarrow> heap \<Rightarrow> (bool \<times> heap) option" where
  "al_realloc a has old new_size h = do {
     chk (a \<noteq> 0);
     chk ((\<not> has) = (lsize old = 0));
     chk (tda_layout_is_align (lalign old));
     if new_size = 0 then do { h \<leftarrow> al_dealloc a has old h; Some (False, h) }
     else if \<not> has then al_alloc a (old\<lparr>lsize := new_size\<rparr>) h
     else do {
       chk (old \<in># live (h a));
       let (served, h) = al_answer a h in
         Some (if served then (True, al_take a (old\<lparr>lsize := new_size\<rparr>) (al_give a old h)) else (False, h))
     }
   }"

text \<open>The macros' forms, which count elements of one type.\<close>

definition al_alloc_n :: "al \<Rightarrow> layout \<Rightarrow> nat \<Rightarrow> heap \<Rightarrow> (bool \<times> heap) option" where
  "al_alloc_n a elem cnt h = do {
     r \<leftarrow> tda_layout_ckd_array elem cnt;
     case r of None \<Rightarrow> Some (False, h) | Some l \<Rightarrow> al_alloc a l h
   }"

definition al_realloc_n :: "al \<Rightarrow> bool \<Rightarrow> layout \<Rightarrow> nat \<Rightarrow> nat \<Rightarrow> heap \<Rightarrow> (bool \<times> heap) option" where
  "al_realloc_n a has elem old_count new_count h = do {
     r \<leftarrow> tda_layout_ckd_array elem new_count;
     case r of
       None \<Rightarrow> Some (False, h)
     | Some l \<Rightarrow> al_realloc a has \<lparr>lsize = wmul old_count (lsize elem), lalign = lalign elem\<rparr> (lsize l) h
   }"

definition al_dealloc_n :: "al \<Rightarrow> bool \<Rightarrow> layout \<Rightarrow> nat \<Rightarrow> heap \<Rightarrow> heap option" where
  "al_dealloc_n a has elem cnt h = do {
     r \<leftarrow> tda_layout_ckd_array elem cnt;
     chk (r \<noteq> None);
     al_dealloc a has (the r) h
   }"

section \<open>What a request does to the account\<close>

text \<open>\<open>lives h a\<close> is what is out at \<open>a\<close>; a generous allocator serves every request.\<close>

definition lives :: "heap \<Rightarrow> al \<Rightarrow> layout multiset" where
  "lives h a = live (h a)"

definition generous :: "heap \<Rightarrow> al \<Rightarrow> bool" where
  "generous h a \<longleftrightarrow> answers (h a) = []"

text \<open>The layout of \<open>n\<close> elements: no block when there is none.\<close>

definition held :: "layout \<Rightarrow> nat \<Rightarrow> layout multiset" where
  "held elem n = (if n = 0 then {#} else {#\<lparr>lsize = lsize elem * n, lalign = lalign elem\<rparr>#})"

lemma held_0 [simp]: "held elem 0 = {#}"
  by (simp add: held_def)

lemma lives_take [simp]: "lives (al_take a l h) = (lives h)(a := add_mset l (lives h a))"
  by (simp add: lives_def al_take_def fun_eq_iff)

lemma lives_give [simp]: "lives (al_give a l h) = (lives h)(a := lives h a - {#l#})"
  by (simp add: lives_def al_give_def fun_eq_iff)

lemma generous_take_give [simp]:
  "generous (al_take a l h) b = generous h b" "generous (al_give a l h) b = generous h b"
  by (simp_all add: generous_def al_take_def al_give_def)

lemma al_answer_keeps:
  assumes "al_answer a h = (b, h')"
  shows "lives h' = lives h" "generous h a \<Longrightarrow> b" "generous h c \<Longrightarrow> generous h' c"
  using assms by (auto simp: al_answer_def lives_def generous_def split: list.splits)

text \<open>One request: served, and then the block is out, or refused, and then nothing has changed.\<close>

definition requests :: "heap \<Rightarrow> al \<Rightarrow> layout multiset \<Rightarrow> layout multiset \<Rightarrow> bool \<Rightarrow> heap \<Rightarrow> bool" where
  "requests h a old new served h' \<longleftrightarrow>
     lives h' = (if served then (lives h)(a := lives h a - old + new) else lives h) \<and>
     (\<forall>c. generous h c \<longrightarrow> generous h' c)"

lemma requests_refl: "old \<subseteq># lives h a \<Longrightarrow> requests h a old old True h"
  by (simp add: requests_def fun_eq_iff)

lemma requests_refused:
  "requests h a x y False h' \<Longrightarrow> old \<subseteq># lives h a \<Longrightarrow> requests h a old old True h'"
  by (simp add: requests_def fun_eq_iff)

lemma requests_trans:
  "requests h a x y True h' \<Longrightarrow> requests h' a y z True h'' \<Longrightarrow> requests h a x z True h''"
  by (auto simp: requests_def fun_eq_iff)

lemma requests_lives: "requests h a x y True h' \<Longrightarrow> y \<subseteq># lives h' a"
  by (simp add: requests_def)

lemma requests_generous: "requests h a x y b h' \<Longrightarrow> generous h c \<Longrightarrow> generous h' c"
  by (simp add: requests_def)

text \<open>A block taken before the old one is given back.\<close>

lemma requests_replace:
  assumes "requests h a {#} new True h'" "old \<subseteq># lives h a" "requests h' a old {#} True h''"
  shows "requests h a old new True h''"
proof -
  have "lives h a + new - old = lives h a - old + new" using assms(2) by simp
  then show ?thesis using assms by (auto simp: requests_def fun_eq_iff)
qed

text \<open>A block more, a block less, and blocks that stay out.\<close>

lemma requests_more: "requests h a {#} new True h' \<Longrightarrow> old \<subseteq># lives h a \<Longrightarrow> requests h a old (old + new) True h'"
  by (simp add: requests_def fun_eq_iff)

lemma requests_less:
  assumes "requests h a b {#} True h'" "b \<subseteq># old" "old \<subseteq># lives h a"
  shows "requests h a old (old - b) True h'"
proof -
  have "lives h a - b = lives h a - old + (old - b)"
    using assms(2,3) by (metis add.commute subset_mset.add_diff_assoc2 subset_mset.diff_add_assoc subset_mset.le_add_diff
        subset_mset.add_diff_inverse diff_diff_add_mset subset_mset.add_diff_assoc)
  then show ?thesis using assms(1) by (simp add: requests_def)
qed

lemma requests_frame:
  assumes "requests h a old new True h'" "old + x \<subseteq># lives h a"
  shows "requests h a (old + x) (new + x) True h'"
proof -
  obtain y where "lives h a = old + x + y" using assms(2) by (metis subset_mset.le_iff_add)
  then show ?thesis using assms(1) by (simp add: requests_def ac_simps)
qed

lemma al_alloc_spec:
  assumes "a \<noteq> 0" "tda_layout_is_align (lalign l)" "0 < lsize l"
  obtains b h' where "al_alloc a l h = Some (b, h')" "requests h a {#} {#l#} b h'"
    "generous h a \<Longrightarrow> b"
proof -
  obtain b h' where q: "al_answer a h = (b, h')" by fastforce
  note keep = al_answer_keeps [OF q]
  show ?thesis
    using assms that [of b "if b then al_take a l h' else h'"]
    q keep by (auto simp: al_alloc_def requests_def)
qed

lemma al_realloc_spec:
  assumes "a \<noteq> 0" "tda_layout_is_align (lalign old)" "0 < n" "has = (lsize old \<noteq> 0)"
    and "has \<Longrightarrow> old \<in># lives h a"
  obtains b h' where "al_realloc a has old n h = Some (b, h')"
    "requests h a (if has then {#old#} else {#}) {#old\<lparr>lsize := n\<rparr>#} b h'" "generous h a \<Longrightarrow> b"
proof (cases has)
  case True
  obtain b h' where q: "al_answer a h = (b, h')" by fastforce
  note keep = al_answer_keeps [OF q]
  show ?thesis
    using assms True that [of b "if b then al_take a (old\<lparr>lsize := n\<rparr>) (al_give a old h') else h'"]
    q keep by (auto simp: al_realloc_def requests_def lives_def)
next
  case False
  obtain b h' where "al_alloc a (old\<lparr>lsize := n\<rparr>) h = Some (b, h')"
    "requests h a {#} {#old\<lparr>lsize := n\<rparr>#} b h'" "generous h a \<Longrightarrow> b"
    using al_alloc_spec [of a "old\<lparr>lsize := n\<rparr>" h] assms by auto
  then show ?thesis using assms False that by (auto simp: al_realloc_def)
qed

lemma al_dealloc_block:
  assumes "a \<noteq> 0" "tda_layout_is_align (lalign l)" "0 < lsize l" "l \<in># lives h a"
  shows "al_dealloc a True l h = Some (al_give a l h)"
  using assms by (simp add: al_dealloc_def lives_def)

lemma al_dealloc_null [simp]:
  "a \<noteq> 0 \<Longrightarrow> tda_layout_is_align (lalign l) \<Longrightarrow> al_dealloc a False l h = Some h"
  by (simp add: al_dealloc_def)

section \<open>Blocks of elements\<close>

lemma ckd_array_type:
  "tda_layout_is_type elem \<Longrightarrow> tda_layout_ckd_array elem n =
     Some (if lsize elem * n \<le> SIZE_MAX then Some \<lparr>lsize = lsize elem * n, lalign = lalign elem\<rparr> else None)"
  by (auto simp: tda_layout_ckd_array_def ckd_mul_def)

lemma is_type_align: "tda_layout_is_type elem \<Longrightarrow> tda_layout_is_align (lalign elem)"
  by (simp add: tda_layout_is_type_def)

lemma is_type_size: "tda_layout_is_type elem \<Longrightarrow> 0 < lsize elem"
  by (simp add: tda_layout_is_type_def)

lemma al_alloc_n_spec:
  assumes "a \<noteq> 0" "tda_layout_is_type elem"
  obtains b h' where "al_alloc_n a elem n h = Some (b, h')" "requests h a {#} (held elem n) b h'"
    "b \<Longrightarrow> 0 < n" "generous h a \<Longrightarrow> 0 < n \<Longrightarrow> lsize elem * n \<le> SIZE_MAX \<Longrightarrow> b"
proof (cases "0 < n \<and> lsize elem * n \<le> SIZE_MAX")
  case True
  then have held: "held elem n = {#\<lparr>lsize = lsize elem * n, lalign = lalign elem\<rparr>#}"
    by (simp add: held_def)
  obtain b h' where "al_alloc a \<lparr>lsize = lsize elem * n, lalign = lalign elem\<rparr> h = Some (b, h')"
    "requests h a {#} (held elem n) b h'" "generous h a \<Longrightarrow> b"
    using al_alloc_spec [of a "\<lparr>lsize = lsize elem * n, lalign = lalign elem\<rparr>" h]
      assms True is_type_align is_type_size unfolding held by auto
  then show ?thesis
    using that [of b h'] True assms by (simp add: al_alloc_n_def ckd_array_type)
next
  case False
  then show ?thesis
    using that [of False h] assms is_type_align
    by (auto simp: al_alloc_n_def ckd_array_type al_alloc_def requests_def)
qed

lemma alloc_elems:
  assumes "tda_layout_is_type elem" "a \<noteq> 0" "0 < n"
  shows "\<exists>b h'. al_alloc a \<lparr>lsize = lsize elem * n, lalign = lalign elem\<rparr> h = Some (b, h') \<and>
    requests h a {#} (held elem n) b h' \<and> (generous h a \<longrightarrow> b)"
proof -
  let ?l = "\<lparr>lsize = lsize elem * n, lalign = lalign elem\<rparr>"
  have held: "held elem n = {#?l#}" using assms(3) by (simp add: held_def)
  obtain b h' where "al_alloc a ?l h = Some (b, h')" "requests h a {#} (held elem n) b h'" "generous h a \<Longrightarrow> b"
    using al_alloc_spec [of a ?l h] assms is_type_align is_type_size unfolding held by auto
  then show ?thesis by blast
qed

lemma al_dealloc_held:
  assumes "a \<noteq> 0" "tda_layout_is_type elem" "held elem n \<subseteq># lives h a"
  obtains h' where "al_dealloc a (n \<noteq> 0) \<lparr>lsize = lsize elem * n, lalign = lalign elem\<rparr> h = Some h'"
    "lives h' = (lives h)(a := lives h a - held elem n)" "\<And>c. generous h c \<Longrightarrow> generous h' c"
proof (cases "n = 0")
  case True
  then show ?thesis using that [of h] assms is_type_align by simp
next
  case False
  then have "\<lparr>lsize = lsize elem * n, lalign = lalign elem\<rparr> \<in># lives h a"
    using assms(3) by (simp add: held_def)
  then show ?thesis
    using that [of "al_give a \<lparr>lsize = lsize elem * n, lalign = lalign elem\<rparr> h"] assms False
      is_type_align is_type_size by (simp add: al_dealloc_block held_def)
qed

lemma al_realloc_held:
  assumes "a \<noteq> 0" "tda_layout_is_type elem" "held elem n \<subseteq># lives h a" "0 < k"
  obtains b h' where
    "al_realloc a (n \<noteq> 0) \<lparr>lsize = lsize elem * n, lalign = lalign elem\<rparr> (lsize elem * k) h = Some (b, h')"
    "requests h a (held elem n) (held elem k) b h'" "generous h a \<Longrightarrow> b"
proof -
  let ?l = "\<lparr>lsize = lsize elem * n, lalign = lalign elem\<rparr>"
  have s: "0 < lsize elem" using assms(2) by (rule is_type_size)
  have "n \<noteq> 0 \<Longrightarrow> ?l \<in># lives h a" using assms(3) by (simp add: held_def)
  then obtain b h' where "al_realloc a (n \<noteq> 0) ?l (lsize elem * k) h = Some (b, h')"
    "requests h a (if n \<noteq> 0 then {#?l#} else {#}) {#?l\<lparr>lsize := lsize elem * k\<rparr>#} b h'"
    "generous h a \<Longrightarrow> b"
    using al_realloc_spec [of a ?l "lsize elem * k" "n \<noteq> 0" h] assms s is_type_align by auto
  then show ?thesis using that [of b h'] assms(4) by (cases "n = 0") (simp_all add: held_def)
qed

section \<open>The account is what an allocator does\<close>

text \<open>\<open>accounts h a L\<close>: the blocks \<open>L\<close> that are out have the layouts the account of \<open>a\<close> lists.\<close>

definition accounts :: "heap \<Rightarrow> al \<Rightarrow> block set \<Rightarrow> bool" where
  "accounts h a L \<longleftrightarrow> finite L \<and> lives h a = image_mset snd (mset_set L)"

definition answering :: "heap \<Rightarrow> al \<Rightarrow> bool \<Rightarrow> heap" where
  "answering h a b = h(a := (h a)\<lparr>answers := [b]\<rparr>)"

lemma accounts_answering [simp]: "accounts (answering h a b) a L = accounts h a L"
  by (simp add: accounts_def answering_def lives_def)

lemma accounts_take: "accounts h a L \<Longrightarrow> (p, l) \<notin> L \<Longrightarrow> accounts (al_take a l h) a (insert (p, l) L)"
  by (simp add: accounts_def)

lemma accounts_give: "accounts h a L \<Longrightarrow> (p, l) \<in> L \<Longrightarrow> accounts (al_give a l h) a (L - {(p, l)})"
  by (simp add: accounts_def mset_set_Diff image_mset_Diff)

lemma accounts_in: "accounts h a L \<Longrightarrow> (p, l) \<in> L \<Longrightarrow> l \<in># live (h a)"
  by (force simp: accounts_def lives_def)

context allocator begin

lemma alloc_accounts:
  assumes "ok w L" "request amax l" "accounts h a L" "a \<noteq> 0"
  shows "\<exists>p w' h' L'. tda_alloc vt l w = Some (p, w') \<and> ok w' L' \<and>
    al_alloc a l (answering h a (p \<noteq> 0)) = Some (p \<noteq> 0, h') \<and> accounts h' a L' \<and>
    L' = (if p = 0 then L else insert (p, l) L)"
proof -
  obtain p w' where a: "tda_alloc vt l w = Some (p, w')"
    and r: "if p = 0 then ok w' L else (p, l) \<notin> L \<and> region p (lsize l) \<inter> blocks L = {} \<and> ok w' (insert (p, l) L)"
    using tda_alloc_spec [OF assms(1,2)] by blast
  show ?thesis
  proof (cases "p = 0")
    case True
    then show ?thesis using a r assms requestD [OF assms(2)]
      by (simp add: al_alloc_def al_answer_def answering_def accounts_def lives_def)
  next
    case False
    have "al_alloc a l (answering h a True) = Some (True, al_take a l (h(a := (h a)\<lparr>answers := []\<rparr>)))"
      using requestD [OF assms(2)] assms(4) by (simp add: al_alloc_def al_answer_def answering_def)
    moreover have "accounts (h(a := (h a)\<lparr>answers := []\<rparr>)) a L"
      using assms(3) by (simp add: accounts_def lives_def)
    ultimately show ?thesis using a r False by (auto intro: accounts_take)
  qed
qed

lemma dealloc_accounts:
  assumes "ok w L" "(p, l) \<in> L" "accounts h a L" "a \<noteq> 0"
  shows "\<exists>w' h'. tda_dealloc vt p l w = Some w' \<and> ok w' (L - {(p, l)}) \<and>
    al_dealloc a True l h = Some h' \<and> accounts h' a (L - {(p, l)})"
proof -
  note wf = wf_blockD [OF ok_wf [OF assms(1)] assms(2)]
  have "al_dealloc a True l h = Some (al_give a l h)"
    using requestD [OF wf(2)] accounts_in [OF assms(3,2)] assms(4)
    by (intro al_dealloc_block) (simp_all add: lives_def)
  then show ?thesis
    using tda_dealloc_spec [OF assms(1,2)] accounts_give [OF assms(3,2)] by blast
qed

lemma realloc_accounts:
  assumes "ok w L" "(p, old) \<in> L" "request amax (old\<lparr>lsize := n\<rparr>)" "accounts h a L" "a \<noteq> 0"
  shows "\<exists>q w' h' L'. tda_realloc vt p old n w = Some (q, w') \<and> ok w' L' \<and>
    al_realloc a True old n (answering h a (q \<noteq> 0)) = Some (q \<noteq> 0, h') \<and> accounts h' a L' \<and>
    L' = (if q = 0 then L else insert (q, old\<lparr>lsize := n\<rparr>) (L - {(p, old)})) \<and>
    (q \<noteq> 0 \<longrightarrow> bytes (fst w') q (min (lsize old) n) = bytes (fst w) p (min (lsize old) n))"
proof -
  note wf = wf_blockD [OF ok_wf [OF assms(1)] assms(2)]
  let ?new = "old\<lparr>lsize := n\<rparr>"
  obtain q w' where a: "tda_realloc vt p old n w = Some (q, w')"
    and r: "if q \<noteq> 0 then (q, ?new) \<notin> L - {(p, old)} \<and> agree (fst w) (fst w') (blocks (L - {(p, old)}) \<union> - own) \<and>
         bytes (fst w') q (min (lsize old) n) = bytes (fst w) p (min (lsize old) n) \<and>
         ok w' (insert (q, ?new) (L - {(p, old)}))
       else agree (fst w) (fst w') (blocks L \<union> - own) \<and> ok w' L"
    using tda_realloc_spec [OF assms(1-3)] by blast
  let ?h = "h(a := (h a)\<lparr>answers := []\<rparr>)"
  have "accounts ?h a L" using assms(4) by (simp add: accounts_def lives_def)
  have pre: "al_realloc a True old n (answering h a b) =
      Some (b, if b then al_take a ?new (al_give a old ?h) else ?h)" for b
    using requestD [OF wf(2)] requestD [OF assms(3)] accounts_in [OF assms(4,2)] assms(5)
    by (simp add: al_realloc_def al_answer_def answering_def)
  show ?thesis
  proof (cases "q = 0")
    case True
    then show ?thesis using a r pre [of False] \<open>accounts ?h a L\<close> by simp
  next
    case False
    have "(q, ?new) \<notin> L - {(p, old)}" using r False by simp
    then have "accounts (al_take a ?new (al_give a old ?h)) a (insert (q, ?new) (L - {(p, old)}))"
      by (rule accounts_take [OF accounts_give [OF \<open>accounts ?h a L\<close> assms(2)]])
    then show ?thesis using a r pre [of True] False by auto
  qed
qed

end

end
