(* ===== verification/Slots.thy ===== *)
theory Slots
  imports Account
begin

text \<open>
  The slots of a block, as the containers over one block use them. A slot holds an element or,
  where the code has stored none yet, an unspecified value, \<^term>\<open>None\<close>; copying such a value is
  no error, looking into it is. The element moves of the code are \<open>memcpy\<close> and \<open>memmove\<close> of whole
  elements, with the bounds written out; a null block has no slots.
\<close>

type_synonym 'e slots = "'e option list"

text \<open>
  A pointer to one value is \<open>Apart\<close> from the block, with the cell it points at, or \<open>Within\<close> it, at
  a byte offset.
\<close>

datatype 'e arg = Apart "'e option" | Within nat

definition tda_elems_layout :: "layout \<Rightarrow> nat \<Rightarrow> layout option" where
  "tda_elems_layout elem len = do {
     chk (tda_layout_is_type elem);
     Some \<lparr>lsize = wmul (lsize elem) len, lalign = lalign elem\<rparr>
   }"

section \<open>Access\<close>

definition slot_get :: "'e slots \<Rightarrow> nat \<Rightarrow> 'e option option" where
  "slot_get d i = (if i < length d then Some (d ! i) else None)"

text \<open>\<open>memcpy\<close> of the cells \<open>xs\<close> to slot \<open>i\<close>, and \<open>memmove\<close> of \<open>n\<close> slots.\<close>

definition slots_put :: "'e slots \<Rightarrow> nat \<Rightarrow> 'e slots \<Rightarrow> 'e slots option" where
  "slots_put d i xs =
     (if i + length xs \<le> length d then Some (take i d @ xs @ drop (i + length xs) d) else None)"

definition slots_move :: "'e slots \<Rightarrow> nat \<Rightarrow> nat \<Rightarrow> nat \<Rightarrow> 'e slots option" where
  "slots_move d to from n =
     (if from + n \<le> length d then slots_put d to (take n (drop from d)) else None)"

text \<open>The cells \<open>memcpy\<close> reads from slot \<open>i\<close> on.\<close>

definition slots_read :: "'e slots \<Rightarrow> nat \<Rightarrow> nat \<Rightarrow> 'e slots option" where
  "slots_read d i n = (if i + n \<le> length d then Some (take n (drop i d)) else None)"

text \<open>A fresh block, and a block resized: the slots both sizes have are kept.\<close>

definition slots_new :: "nat \<Rightarrow> 'e slots" where
  "slots_new n = replicate n None"

definition slots_resize :: "'e slots \<Rightarrow> nat \<Rightarrow> 'e slots" where
  "slots_resize d n = take n d @ slots_new (n - length d)"

text \<open>The first \<open>n\<close> slots read as elements; an unspecified value among them stops.\<close>

fun cell_values :: "'e slots \<Rightarrow> 'e list option" where
  "cell_values [] = Some []"
| "cell_values (None # cs) = None"
| "cell_values (Some x # cs) = do { xs \<leftarrow> cell_values cs; Some (x # xs) }"

section \<open>Lemmas\<close>

lemma slot_get_Some [simp]: "i < length d \<Longrightarrow> slot_get d i = Some (d ! i)"
  by (simp add: slot_get_def)

lemma length_slots_new [simp]: "length (slots_new n) = n"
  by (simp add: slots_new_def)

lemma length_slots_resize [simp]: "length (slots_resize d n) = n"
  by (simp add: slots_resize_def min_def)

lemma take_slots_resize [simp]: "k \<le> n \<Longrightarrow> k \<le> length d \<Longrightarrow> take k (slots_resize d n) = take k d"
  by (simp add: slots_resize_def min_def)

lemma nth_slots_resize: "i < n \<Longrightarrow> i < length d \<Longrightarrow> slots_resize d n ! i = d ! i"
  by (simp add: slots_resize_def nth_append)

lemma slots_put_Some:
  "i + length xs \<le> length d \<Longrightarrow> slots_put d i xs = Some (take i d @ xs @ drop (i + length xs) d)"
  by (simp add: slots_put_def)

lemma slots_read_Some [simp]: "i + n \<le> length d \<Longrightarrow> slots_read d i n = Some (take n (drop i d))"
  by (simp add: slots_read_def)

lemma slots_put_one: "i < length d \<Longrightarrow> slots_put d i [x] = Some (d[i := x])"
  by (simp add: slots_put_def upd_conv_take_nth_drop)

lemma slots_move_Some:
  "from + n \<le> length d \<Longrightarrow> to + n \<le> length d \<Longrightarrow>
   slots_move d to from n = Some (take to d @ take n (drop from d) @ drop (to + n) d)"
  by (simp add: slots_move_def slots_put_def min_absorb2)

lemma cell_values_map [simp]: "cell_values (map Some xs) = Some xs"
  by (induction xs) auto

lemma cell_values_Some_iff: "cell_values cs = Some xs \<longleftrightarrow> cs = map Some xs"
  by (induction cs arbitrary: xs rule: cell_values.induct) (auto simp: bind_Some_iff)

end
