(* ===== verification/Print.thy ===== *)
theory Print
  imports Cmp Slots
begin

text \<open>
  \<open>core/print.h\<close> and \<open>core/print.c\<close>: values and spans as text. A \<open>FILE\<close> is what has been written to it
  and which of the next writes fail, and after how many characters; of what \<open>stdio\<close> returns only the
  sign is used, and a write that succeeds answers the number of characters. How the C library formats a
  double with \<open>%g\<close> is a parameter.
\<close>

section \<open>Streams\<close>

record stream =
  fl_text :: string
  fl_faults :: "nat option list"

definition emit_text :: "string \<Rightarrow> stream \<Rightarrow> int \<times> stream" where
  "emit_text s f = (case fl_faults f of
       [] \<Rightarrow> (int (length s), f\<lparr>fl_text := fl_text f @ s\<rparr>)
     | None # fs \<Rightarrow> (int (length s), f\<lparr>fl_text := fl_text f @ s, fl_faults := fs\<rparr>)
     | Some k # fs \<Rightarrow> (- 1, f\<lparr>fl_text := fl_text f @ take k s, fl_faults := fs\<rparr>))"

abbreviation fputc :: "char \<Rightarrow> stream \<Rightarrow> int \<times> stream" where "fputc c \<equiv> emit_text [c]"
abbreviation fputs :: "string \<Rightarrow> stream \<Rightarrow> int \<times> stream" where "fputs \<equiv> emit_text"
abbreviation fprintf :: "string \<Rightarrow> stream \<Rightarrow> int \<times> stream" where "fprintf \<equiv> emit_text"

type_synonym 'e fprint = "'e \<Rightarrow> stream \<Rightarrow> int \<times> stream"

definition tda_fprint_join :: "int \<Rightarrow> int \<Rightarrow> int" where
  "tda_fprint_join acc rc = (if acc < 0 then acc else if rc < 0 then rc else 0)"

text \<open>A write whose result is joined to those before it.\<close>

definition joined :: "(stream \<Rightarrow> int \<times> stream) \<Rightarrow> int \<times> stream \<Rightarrow> int \<times> stream" where
  "joined w r = (let (acc, f) = r; (rc, f) = w f in (tda_fprint_join acc rc, f))"

section \<open>Conversions\<close>

fun dec_nat :: "nat \<Rightarrow> string" where
  "dec_nat n = (if n < 10 then [] else dec_nat (n div 10)) @ [char_of (48 + n mod 10)]"

declare dec_nat.simps [simp del]

definition dec_int :: "int \<Rightarrow> string" where
  "dec_int i = (if i < 0 then CHR ''-'' # dec_nat (nat (- i)) else dec_nat (nat i))"

definition hex_digit :: "nat \<Rightarrow> char" where
  "hex_digit d = char_of (if d < 10 then 48 + d else 87 + d)"

section \<open>The fprints\<close>

definition fprint_signed :: "'a::len word fprint" where
  "fprint_signed val f = fprintf (dec_int (sint val)) f"

definition fprint_unsigned :: "'a::len word fprint" where
  "fprint_unsigned val f = fprintf (dec_nat (unat val)) f"

definition tda_fprint_i8 :: "8 word fprint" where "tda_fprint_i8 = fprint_signed"
definition tda_fprint_i16 :: "16 word fprint" where "tda_fprint_i16 = fprint_signed"
definition tda_fprint_i32 :: "32 word fprint" where "tda_fprint_i32 = fprint_signed"
definition tda_fprint_i64 :: "64 word fprint" where "tda_fprint_i64 = fprint_signed"
definition tda_fprint_u8 :: "8 word fprint" where "tda_fprint_u8 = fprint_unsigned"
definition tda_fprint_u16 :: "16 word fprint" where "tda_fprint_u16 = fprint_unsigned"
definition tda_fprint_u32 :: "32 word fprint" where "tda_fprint_u32 = fprint_unsigned"
definition tda_fprint_u64 :: "64 word fprint" where "tda_fprint_u64 = fprint_unsigned"
definition tda_fprint_size :: "64 word fprint" where "tda_fprint_size = fprint_unsigned"
definition tda_fprint_ptrdiff :: "64 word fprint" where "tda_fprint_ptrdiff = fprint_signed"

text \<open>Doubles by their bits; a float is widened first, which is exact.\<close>

definition dbl_isinf :: "64 word \<Rightarrow> bool" where
  "dbl_isinf a \<longleftrightarrow> uint a mod 2 ^ 63 = 2047 * 2 ^ 52"

definition fprint_double :: "(64 word \<Rightarrow> string) \<Rightarrow> 64 word fprint" where
  "fprint_double fmt_g val f =
     (if flt_isnan 52 val then fputs ''nan'' f
      else if dbl_isinf val then fputs (if uint val \<ge> 2 ^ 63 then ''-inf'' else ''inf'') f
      else fprintf (fmt_g val) f)"

fun top_bit :: "nat \<Rightarrow> nat" where
  "top_bit n = (if n < 2 then 0 else Suc (top_bit (n div 2)))"

declare top_bit.simps [simp del]

definition widen_f32 :: "32 word \<Rightarrow> 64 word" where
  "widen_f32 a = (let u = unat a; e = u div 2 ^ 23 mod 256; k = u mod 2 ^ 23 in
     word_of_nat (u div 2 ^ 31 * 2 ^ 63 +
       (if e = 255 then 2047 * 2 ^ 52 + k * 2 ^ 29
        else if e \<noteq> 0 then (e + 896) * 2 ^ 52 + k * 2 ^ 29
        else if k = 0 then 0
        else (top_bit k + 874) * 2 ^ 52 + (k - 2 ^ top_bit k) * 2 ^ (52 - top_bit k))))"

definition tda_fprint_f32 :: "(64 word \<Rightarrow> string) \<Rightarrow> 32 word fprint" where
  "tda_fprint_f32 fmt_g val f = fprint_double fmt_g (widen_f32 val) f"

definition tda_fprint_f64 :: "(64 word \<Rightarrow> string) \<Rightarrow> 64 word fprint" where
  "tda_fprint_f64 fmt_g val f = fprint_double fmt_g val f"

definition tda_fprint_bool :: "bool fprint" where
  "tda_fprint_bool val f = fputs (if val then ''true'' else ''false'') f"

text \<open>\<open>isprint\<close> in the C locale.\<close>

definition tda_fprint_char :: "byte fprint" where
  "tda_fprint_char c f = (let u = unat c in
     if 32 \<le> u \<and> u < 127 then fputc (char_of u) f
     else fprintf [CHR 0x5C, CHR ''x'', hex_digit (u div 16), hex_digit (u mod 16)] f)"

text \<open>The string at a pointer is a parameter, as it is for \<open>tda_cmp_cstr\<close>.\<close>

definition tda_fprint_cstr :: "(addr \<Rightarrow> byte list) \<Rightarrow> addr fprint" where
  "tda_fprint_cstr str p f =
     (if p = 0 then fputs ''null'' f
      else fprintf ([CHR 0x22] @ map (char_of \<circ> unat) (str p) @ [CHR 0x22]) f)"

section \<open>Spans\<close>

text \<open>A value that was never written stops the model.\<close>

function span_fprint_loop :: "'e slots \<Rightarrow> 'e fprint \<Rightarrow> nat \<Rightarrow> int \<times> stream \<Rightarrow> (int \<times> stream) option" where
  "span_fprint_loop s fprint i r =
     (if i < length s then do {
        let r = (if i > 0 then joined (fputs '', '') r else r);
        x \<leftarrow> slot_get s i;
        val \<leftarrow> x;
        span_fprint_loop s fprint (i + 1) (joined (fprint val) r)
      }
      else Some r)"
  by pat_completeness auto
termination by (relation "measure (\<lambda>(s, fprint, i, r). length s - i)") auto

declare span_fprint_loop.simps [simp del]

definition tda_span_fprint :: "'e slots \<Rightarrow> 'e fprint \<Rightarrow> stream \<Rightarrow> (int \<times> stream) option" where
  "tda_span_fprint s fprint out = do {
     r \<leftarrow> span_fprint_loop s fprint 0 (fputc (CHR ''['') out);
     Some (joined (fputc (CHR '']'')) r)
   }"

definition tda_span_mut_fprint :: "'e slots \<Rightarrow> 'e fprint \<Rightarrow> stream \<Rightarrow> (int \<times> stream) option" where
  "tda_span_mut_fprint s fprint out = tda_span_fprint s fprint out"

definition tda_span_print :: "'e slots \<Rightarrow> 'e fprint \<Rightarrow> stream \<Rightarrow> (int \<times> stream) option" where
  "tda_span_print s fprint stdout = do {
     r \<leftarrow> tda_span_fprint s fprint stdout;
     Some (joined (fputc (CHR 0x0A)) r)
   }"

definition tda_span_mut_print :: "'e slots \<Rightarrow> 'e fprint \<Rightarrow> stream \<Rightarrow> (int \<times> stream) option" where
  "tda_span_mut_print s fprint stdout = tda_span_print s fprint stdout"

section \<open>What a run of writes does\<close>

text \<open>
  The result is negative exactly when one of the writes failed; when it is not, the text is there. A
  write is tried even after one has failed.
\<close>

definition prints :: "string \<Rightarrow> stream \<Rightarrow> int \<times> stream \<Rightarrow> bool" where
  "prints s f r \<longleftrightarrow> (\<exists>used t. fl_faults f = used @ fl_faults (snd r) \<and> fl_text (snd r) = fl_text f @ t \<and>
     (fst r < 0 \<longleftrightarrow> (\<exists>k. Some k \<in> set used)) \<and> (0 \<le> fst r \<longrightarrow> t = s))"

lemma prints_text: "prints s f (emit_text s f)"
proof (cases "fl_faults f")
  case Nil
  then show ?thesis unfolding prints_def by (intro exI [where x = "[]"] exI [where x = s]) (simp add: emit_text_def)
next
  case (Cons a fs)
  then show ?thesis
    unfolding prints_def by (cases a) (auto simp: emit_text_def intro!: exI [where x = "[a]"])
qed

lemma prints_joined:
  assumes r: "prints s f r" and w: "\<And>f. prints t f (w f)"
  shows "prints (s @ t) f (joined w r)"
proof -
  obtain acc f1 where r': "r = (acc, f1)" by (cases r)
  obtain rc f2 where w': "w f1 = (rc, f2)" by (cases "w f1")
  obtain u1 t1 where 1: "fl_faults f = u1 @ fl_faults f1" "fl_text f1 = fl_text f @ t1"
    "acc < 0 \<longleftrightarrow> (\<exists>k. Some k \<in> set u1)" "0 \<le> acc \<longrightarrow> t1 = s" using r by (auto simp: prints_def r')
  obtain u2 t2 where 2: "fl_faults f1 = u2 @ fl_faults f2" "fl_text f2 = fl_text f1 @ t2"
    "rc < 0 \<longleftrightarrow> (\<exists>k. Some k \<in> set u2)" "0 \<le> rc \<longrightarrow> t2 = t" using w [of f1] by (auto simp: prints_def w')
  have "joined w r = (tda_fprint_join acc rc, f2)" by (simp add: joined_def r' w')
  moreover have "fl_faults f = (u1 @ u2) @ fl_faults f2" "fl_text f2 = fl_text f @ (t1 @ t2)" using 1 2 by simp_all
  moreover have "tda_fprint_join acc rc < 0 \<longleftrightarrow> (\<exists>k. Some k \<in> set (u1 @ u2))" using 1(3) 2(3) by (auto simp: tda_fprint_join_def)
  moreover have "0 \<le> tda_fprint_join acc rc \<longrightarrow> t1 @ t2 = s @ t" using 1(4) 2(4) by (auto simp: tda_fprint_join_def split: if_splits)
  ultimately show ?thesis unfolding prints_def by fastforce
qed

lemma prints_no_faults:
  assumes "prints s f r" "fl_faults f = []"
  shows "0 \<le> fst r" "fl_text (snd r) = fl_text f @ s"
  using assms by (auto simp: prints_def)

section \<open>Lists of writes\<close>

text \<open>
  Every write is made, in order, whichever fail; the result is the first that is negative, or 0.
\<close>

type_synonym writes = "(stream \<Rightarrow> int \<times> stream) list"

fun outcomes :: "writes \<Rightarrow> stream \<Rightarrow> int list \<times> stream" where
  "outcomes [] f = ([], f)"
| "outcomes (w # ws) f = (let (rc, f) = w f; (rcs, f) = outcomes ws f in (rc # rcs, f))"

definition first_failure :: "int list \<Rightarrow> int" where
  "first_failure rcs = (case filter (\<lambda>rc. rc < 0) rcs of [] \<Rightarrow> 0 | rc # _ \<Rightarrow> rc)"

definition writes_all :: "writes \<Rightarrow> stream \<Rightarrow> int \<times> stream" where
  "writes_all ws f = (let (rcs, f) = outcomes ws f in (first_failure rcs, f))"

text \<open>The writes of each item, after a comma unless it is the first.\<close>

fun listing :: "bool \<Rightarrow> writes list \<Rightarrow> writes" where
  "listing first [] = []"
| "listing first (it # its) = (if first then [] else [fputs '', '']) @ it @ listing False its"

lemma outcomes_append:
  "outcomes (ws @ vs) f = (let (rcs, f) = outcomes ws f; (rcs', f) = outcomes vs f in (rcs @ rcs', f))"
  by (induction ws arbitrary: f) (simp_all add: case_prod_beta Let_def)

lemma fold_joined:
  "fold joined ws (acc, f) = (let (rcs, f) = outcomes ws f in
     (if acc < 0 \<or> ws = [] then acc else first_failure rcs, f))"
proof (induction ws arbitrary: acc f)
  case (Cons w ws)
  obtain rc g where w: "w f = (rc, g)" by (cases "w f")
  obtain rcs g' where o: "outcomes ws g = (rcs, g')" by (cases "outcomes ws g")
  then have e: "ws = [] \<longleftrightarrow> rcs = []" by (cases ws) (auto simp: case_prod_beta Let_def)
  have hd: "joined w (acc, f) = (tda_fprint_join acc rc, g)" by (simp add: joined_def w)
  have "fold joined (w # ws) (acc, f) = (if tda_fprint_join acc rc < 0 \<or> ws = [] then tda_fprint_join acc rc else first_failure rcs, g')"
    by (simp add: hd Cons.IH o)
  also have "\<dots> = (if acc < 0 then acc else first_failure (rc # rcs), g')"
    using e by (auto simp: tda_fprint_join_def first_failure_def)
  finally show ?case using w o by simp
qed simp

lemma joined_all: "ws \<noteq> [] \<Longrightarrow> fold joined ws (w f) = writes_all (w # ws) f"
  by (cases "w f") (auto simp: fold_joined writes_all_def first_failure_def case_prod_beta Let_def)

lemma joined_line: "joined w (writes_all ws f) = writes_all (ws @ [w]) f"
  by (auto simp: joined_def writes_all_def outcomes_append first_failure_def tda_fprint_join_def case_prod_beta Let_def
      filter_empty_conv split: list.splits) (auto simp: filter_eq_Cons_iff)

section \<open>The text that is written\<close>

text \<open>Texts with commas between them.\<close>

fun commas :: "string list \<Rightarrow> string" where
  "commas [] = []"
| "commas [x] = x"
| "commas (x # y # ys) = x @ '', '' @ commas (y # ys)"

text \<open>Writes that write a text, each whatever was written before.\<close>

definition write_text :: "string \<Rightarrow> writes \<Rightarrow> bool" where
  "write_text t ws \<longleftrightarrow> (\<forall>s f r. prints s f r \<longrightarrow> prints (s @ t) f (fold joined ws r))"

lemma write_text_nil: "write_text [] []"
  by (simp add: write_text_def)

lemma write_text_one: "(\<And>f. prints t f (w f)) \<Longrightarrow> write_text t [w]"
  by (simp add: write_text_def prints_joined)

lemma write_text_append:
  assumes t: "write_text t ws" and u: "write_text u vs"
  shows "write_text (t @ u) (ws @ vs)"
  unfolding write_text_def
proof (intro allI impI)
  fix s f r
  assume "prints s f r"
  then have "prints (s @ t) f (fold joined ws r)" using t unfolding write_text_def by blast
  then have "prints ((s @ t) @ u) f (fold joined vs (fold joined ws r))" using u unfolding write_text_def by blast
  then show "prints (s @ t @ u) f (fold joined (ws @ vs) r)" by simp
qed

lemma write_text_emit: "write_text t [emit_text t]"
  by (intro write_text_one prints_text)

lemma listing_text:
  "list_all2 write_text ts its \<Longrightarrow> write_text ((if first \<or> ts = [] then [] else '', '') @ commas ts) (listing first its)"
proof (induction ts its arbitrary: first rule: list_all2_induct)
  case (Cons t ts it its)
  have "write_text (t @ ((if False \<or> ts = [] then [] else '', '') @ commas ts)) (it @ listing False its)"
    by (intro write_text_append Cons)
  moreover have "t @ ((if False \<or> ts = [] then [] else '', '') @ commas ts) = commas (t # ts)" by (cases ts) simp_all
  ultimately have "write_text (commas (t # ts)) (it @ listing False its)" by simp
  then show ?case using write_text_append [OF write_text_emit [of "'', ''"]] by auto
qed (simp add: write_text_nil)

text \<open>Between two brackets.\<close>

definition bracketed :: "char \<Rightarrow> writes list \<Rightarrow> char \<Rightarrow> writes" where
  "bracketed c its d = fputc c # listing True its @ [fputc d]"

lemma bracketed_all:
  "joined (fputc d) (fold joined (listing True its) (fputc c f)) = writes_all (bracketed c its d) f"
  using joined_all [of "listing True its @ [fputc d]" "fputc c" f] by (simp add: bracketed_def)

lemma bracketed_text:
  assumes "list_all2 write_text ts its"
  shows "prints (c # commas ts @ [d]) f (writes_all (bracketed c its d) f)"
proof -
  have "prints [c] f (fputc c f)" by (rule prints_text)
  then have "prints ([c] @ ((if True \<or> ts = [] then [] else '', '') @ commas ts) @ [d]) f
      (fold joined (listing True its @ [fputc d]) (fputc c f))"
    using write_text_append [OF listing_text [OF assms, of True] write_text_emit [of "[d]"]] unfolding write_text_def by blast
  then show ?thesis using bracketed_all [of d its c f] by simp
qed

lemma prints_line: "prints t f (writes_all ws f) \<Longrightarrow> prints (t @ [d]) f (writes_all (ws @ [fputc d]) f)"
  using prints_joined [OF _ prints_text, of t f "writes_all ws f" "[d]"] by (simp add: joined_line)

text \<open>What a container asks of the printer of its elements, for its text.\<close>

locale printer =
  fixes fprint :: "'e fprint" and fmt :: "'e \<Rightarrow> string"
  assumes fprint_law: "prints (fmt v) f (fprint v f)"

context printer begin

lemma items_text: "list_all2 write_text (map fmt xs) (map (\<lambda>x. [fprint x]) xs)"
  by (simp add: list_all2_conv_all_nth write_text_one fprint_law)

end

text \<open>Spans: the loop makes the writes of the elements that are left.\<close>

lemma span_loop_writes:
  "i \<le> length xs \<Longrightarrow> span_fprint_loop (map Some xs) fprint i r =
     Some (fold joined (listing (i = 0) (map (\<lambda>x. [fprint x]) (drop i xs))) r)"
proof (induction "length xs - i" arbitrary: i r)
  case 0
  then show ?case by (subst span_fprint_loop.simps) simp
next
  case (Suc n)
  then have i: "i < length xs" by simp
  then have "drop i xs = xs ! i # drop (i + 1) xs" by (simp add: Cons_nth_drop_Suc)
  then show ?case using Suc.hyps(1) [of "i + 1"] Suc.hyps(2) i
    by (subst span_fprint_loop.simps) (simp add: slot_get_def)
qed

lemma span_writes:
  "tda_span_fprint (map Some xs) fprint f = Some (writes_all (bracketed (CHR ''['') (map (\<lambda>x. [fprint x]) xs) (CHR '']'')) f)"
  using span_loop_writes [of 0 xs fprint] by (simp add: tda_span_fprint_def bracketed_all)

lemma span_line_writes:
  "tda_span_print (map Some xs) fprint f =
     Some (writes_all (bracketed (CHR ''['') (map (\<lambda>x. [fprint x]) xs) (CHR '']'') @ [fputc (CHR 0x0A)]) f)"
  by (simp add: tda_span_print_def span_writes joined_line)

section \<open>The printers of the library\<close>

lemma printer_signed: "printer fprint_signed (dec_int \<circ> sint)"
  by unfold_locales (simp add: fprint_signed_def prints_text)

lemma printer_unsigned: "printer fprint_unsigned (dec_nat \<circ> unat)"
  by unfold_locales (simp add: fprint_unsigned_def prints_text)

interpretation print_i8: printer tda_fprint_i8 "dec_int \<circ> sint" unfolding tda_fprint_i8_def by (rule printer_signed)
interpretation print_i16: printer tda_fprint_i16 "dec_int \<circ> sint" unfolding tda_fprint_i16_def by (rule printer_signed)
interpretation print_i32: printer tda_fprint_i32 "dec_int \<circ> sint" unfolding tda_fprint_i32_def by (rule printer_signed)
interpretation print_i64: printer tda_fprint_i64 "dec_int \<circ> sint" unfolding tda_fprint_i64_def by (rule printer_signed)
interpretation print_u8: printer tda_fprint_u8 "dec_nat \<circ> unat" unfolding tda_fprint_u8_def by (rule printer_unsigned)
interpretation print_u16: printer tda_fprint_u16 "dec_nat \<circ> unat" unfolding tda_fprint_u16_def by (rule printer_unsigned)
interpretation print_u32: printer tda_fprint_u32 "dec_nat \<circ> unat" unfolding tda_fprint_u32_def by (rule printer_unsigned)
interpretation print_u64: printer tda_fprint_u64 "dec_nat \<circ> unat" unfolding tda_fprint_u64_def by (rule printer_unsigned)
interpretation print_size: printer tda_fprint_size "dec_nat \<circ> unat" unfolding tda_fprint_size_def by (rule printer_unsigned)
interpretation print_ptrdiff: printer tda_fprint_ptrdiff "dec_int \<circ> sint" unfolding tda_fprint_ptrdiff_def by (rule printer_signed)

definition dbl_text :: "(64 word \<Rightarrow> string) \<Rightarrow> 64 word \<Rightarrow> string" where
  "dbl_text fmt_g val = (if flt_isnan 52 val then ''nan'' else if dbl_isinf val then if uint val \<ge> 2 ^ 63 then ''-inf'' else ''inf'' else fmt_g val)"

interpretation print_f64: printer "tda_fprint_f64 fmt_g" "dbl_text fmt_g" for fmt_g
  by unfold_locales (simp add: tda_fprint_f64_def fprint_double_def dbl_text_def prints_text)

interpretation print_f32: printer "tda_fprint_f32 fmt_g" "dbl_text fmt_g \<circ> widen_f32" for fmt_g
  by unfold_locales (simp add: tda_fprint_f32_def fprint_double_def dbl_text_def prints_text)

interpretation print_bool: printer tda_fprint_bool "\<lambda>v. if v then ''true'' else ''false''"
  by unfold_locales (simp add: tda_fprint_bool_def prints_text)

definition char_text :: "byte \<Rightarrow> string" where
  "char_text c = (if 32 \<le> unat c \<and> unat c < 127 then [char_of (unat c)]
     else [CHR 0x5C, CHR ''x'', hex_digit (unat c div 16), hex_digit (unat c mod 16)])"

interpretation print_char: printer tda_fprint_char char_text
  by unfold_locales (simp add: tda_fprint_char_def char_text_def prints_text Let_def)

definition cstr_text :: "(addr \<Rightarrow> byte list) \<Rightarrow> addr \<Rightarrow> string" where
  "cstr_text str p = (if p = 0 then ''null'' else CHR 0x22 # map (char_of \<circ> unat) (str p) @ [CHR 0x22])"

interpretation print_cstr: printer "tda_fprint_cstr str" "cstr_text str" for str
  by unfold_locales (simp add: tda_fprint_cstr_def cstr_text_def prints_text)

end
