(* ===== verification/Holder.thy ===== *)
theory Holder
  imports Slots
begin

text \<open>
  What the containers promise their callers, said once for all of them. A container is seen through
  a view: whether its invariant holds, what never changes in it (the layouts, the functions it was
  made with), its allocator, the blocks it has out there and the value it stands for. The relations
  below say of a call what it does to the view and to the accounts; the locale says what every
  container has then, whatever calls it has been through.
\<close>

record ('k, 'x) holder =
  hgood :: bool
  hkind :: 'k
  hal :: al
  hblocks :: "layout multiset"
  hval :: 'x

section \<open>What a call does\<close>

definition held_by :: "('c \<Rightarrow> ('k, 'x) holder) \<Rightarrow> heap \<Rightarrow> 'c \<Rightarrow> bool" where
  "held_by view h c \<longleftrightarrow> hgood (view c) \<and> hblocks (view c) \<subseteq># lives h (hal (view c))"

text \<open>
  After a call that may take or give back blocks, the account lists the blocks the container has
  now in place of those it had. It fails only when the allocator refuses or what it asks for does
  not fit, and the value is then the one before.
\<close>

definition call_grows ::
  "('c \<Rightarrow> ('k, 'x) holder) \<Rightarrow> heap \<Rightarrow> 'c \<Rightarrow> bool \<Rightarrow> tda_status \<Rightarrow> 'c \<Rightarrow> heap \<Rightarrow> bool" where
  "call_grows view h c fits st c' h' \<longleftrightarrow>
     hgood (view c') \<and> hkind (view c') = hkind (view c) \<and> hal (view c') = hal (view c) \<and>
     requests h (hal (view c)) (hblocks (view c)) (hblocks (view c')) True h' \<and>
     (st \<noteq> TDA_STATUS_OK \<longrightarrow> hval (view c') = hval (view c) \<and> (generous h (hal (view c)) \<longrightarrow> \<not> fits))"

definition call_does ::
  "('c \<Rightarrow> ('k, 'x) holder) \<Rightarrow> heap \<Rightarrow> 'c \<Rightarrow> (tda_status \<times> 'c \<times> heap) option \<Rightarrow> bool \<Rightarrow> 'x \<Rightarrow> bool" where
  "call_does view h c r fits x \<longleftrightarrow> (\<exists>st c' h'. r = Some (st, c', h') \<and> call_grows view h c fits st c' h' \<and>
     (st = TDA_STATUS_OK \<longrightarrow> hval (view c') = x))"

text \<open>A call that leaves the accounts alone.\<close>

definition call_edits :: "('c \<Rightarrow> ('k, 'x) holder) \<Rightarrow> 'c \<Rightarrow> 'c option \<Rightarrow> 'x \<Rightarrow> bool" where
  "call_edits view c r x \<longleftrightarrow> (\<exists>c'. r = Some c' \<and> view c' = (view c)\<lparr>hval := x\<rparr> \<and> hgood (view c))"

text \<open>A call that gives blocks back and cannot fail.\<close>

definition call_drops :: "('c \<Rightarrow> ('k, 'x) holder) \<Rightarrow> heap \<Rightarrow> 'c \<Rightarrow> ('c \<times> heap) option \<Rightarrow> 'x \<Rightarrow> bool" where
  "call_drops view h c r x \<longleftrightarrow> (\<exists>c' h'. r = Some (c', h') \<and>
     hgood (view c') \<and> hkind (view c') = hkind (view c) \<and> hal (view c') = hal (view c) \<and> hval (view c') = x \<and>
     requests h (hal (view c)) (hblocks (view c)) (hblocks (view c')) True h')"

text \<open>A call that makes a container: the account has its blocks besides what was out, or is as it was.\<close>

definition call_makes ::
  "('c \<Rightarrow> ('k, 'x) holder) \<Rightarrow> heap \<Rightarrow> al \<Rightarrow> 'k \<Rightarrow> ((tda_status + 'c) \<times> heap) option \<Rightarrow> bool \<Rightarrow> 'x \<Rightarrow> bool" where
  "call_makes view h a k r fits x \<longleftrightarrow> (\<exists>res h'. r = Some (res, h') \<and> (case res of
       Inr c \<Rightarrow> hgood (view c) \<and> hkind (view c) = k \<and> hal (view c) = a \<and> hval (view c) = x \<and>
         requests h a {#} (hblocks (view c)) True h'
     | Inl st \<Rightarrow> st = TDA_STATUS_ERR_NO_MEM \<and> requests h a {#} {#} True h' \<and> (generous h a \<longrightarrow> \<not> fits)))"

text \<open>Whatever a call does, the invariant and the account of the blocks stay right.\<close>

definition call_keeps :: "('c \<Rightarrow> ('k, 'x) holder) \<Rightarrow> heap \<Rightarrow> 'c \<Rightarrow> 'c \<Rightarrow> heap \<Rightarrow> bool" where
  "call_keeps view h c c' h' \<longleftrightarrow> hgood (view c') \<and> hkind (view c') = hkind (view c) \<and> hal (view c') = hal (view c) \<and>
     requests h (hal (view c)) (hblocks (view c)) (hblocks (view c')) True h'"

text \<open>The end of a container: every block of it is given back.\<close>

definition call_ends :: "('c \<Rightarrow> ('k, 'x) holder) \<Rightarrow> heap \<Rightarrow> 'c \<Rightarrow> ('c \<times> heap) option \<Rightarrow> bool" where
  "call_ends view h c r \<longleftrightarrow> (\<exists>c' h'. r = Some (c', h') \<and>
     requests h (hal (view c)) (hblocks (view c)) {#} True h')"

section \<open>Composing calls\<close>

lemma held_byD: "held_by view h c \<Longrightarrow> hgood (view c)"
  by (simp add: held_by_def)

lemma grows_refl: "held_by view h c \<Longrightarrow> call_grows view h c fits TDA_STATUS_OK c h"
  by (simp add: call_grows_def held_by_def requests_refl)

lemma grows_refused: "held_by view h c \<Longrightarrow> \<not> fits \<Longrightarrow> call_grows view h c fits st c h"
  by (simp add: call_grows_def held_by_def requests_refl)

lemma grows_held: "call_grows view h c fits st c' h' \<Longrightarrow> held_by view h' c'"
  by (auto simp: call_grows_def held_by_def dest: requests_lives)

lemma grows_ok: "call_grows view h c fits TDA_STATUS_OK c' h' \<Longrightarrow> call_grows view h c fits' TDA_STATUS_OK c' h'"
  by (simp add: call_grows_def)

text \<open>A refusal of the allocator.\<close>

lemma refused_grows:
  assumes "held_by view h c" "requests h (hal (view c)) {#} x False h'" "\<not> generous h (hal (view c))"
  shows "call_grows view h c fits TDA_STATUS_ERR_NO_MEM c h'"
  using assms requests_refused [of h "hal (view c)" "{#}" x h' "hblocks (view c)"]
  by (simp add: call_grows_def held_by_def)

lemma grows_trans:
  assumes "call_grows view h c fits st c' h'" "call_grows view h' c' fits' st' c'' h''"
    and "st = TDA_STATUS_OK \<Longrightarrow> hval (view c') = hval (view c)"
  shows "call_grows view h c fits' st' c'' h''"
proof -
  have "hval (view c') = hval (view c)"
    using assms(1,3) by (cases "st = TDA_STATUS_OK") (simp_all add: call_grows_def)
  then show ?thesis
    using assms(1,2) unfolding call_grows_def by (auto intro: requests_trans dest: requests_generous)
qed

lemma grows_edits:
  "call_grows view h c fits TDA_STATUS_OK c' h' \<Longrightarrow> view c'' = (view c')\<lparr>hval := x\<rparr> \<Longrightarrow>
   call_grows view h c fits TDA_STATUS_OK c'' h'"
  by (simp add: call_grows_def)

lemma does_edits:
  "call_grows view h c fits TDA_STATUS_OK c' h' \<Longrightarrow> view c'' = (view c')\<lparr>hval := x\<rparr> \<Longrightarrow>
   call_does view h c (Some (TDA_STATUS_OK, c'', h')) fits x"
  by (simp add: call_does_def call_grows_def)

lemma doesI:
  "call_grows view h c fits st c' h' \<Longrightarrow> (st = TDA_STATUS_OK \<Longrightarrow> hval (view c') = x) \<Longrightarrow>
   call_does view h c (Some (st, c', h')) fits x"
  by (simp add: call_does_def)

lemma does_refused:
  "call_grows view h c fits st c' h' \<Longrightarrow> st \<noteq> TDA_STATUS_OK \<Longrightarrow> call_does view h c (Some (st, c', h')) fits x"
  by (simp add: call_does_def)

lemma editsI: "hgood (view c) \<Longrightarrow> view c' = (view c)\<lparr>hval := x\<rparr> \<Longrightarrow> call_edits view c (Some c') x"
  by (simp add: call_edits_def)

lemma edits_trans:
  "call_edits view c (Some c') x \<Longrightarrow> call_edits view c' r y \<Longrightarrow> call_edits view c r y"
  by (auto simp: call_edits_def)

lemma makes_fails:
  "requests h a {#} {#} True h' \<Longrightarrow> (generous h a \<Longrightarrow> \<not> fits) \<Longrightarrow>
   call_makes view h a k (Some (Inl TDA_STATUS_ERR_NO_MEM, h')) fits x"
  by (simp add: call_makes_def)

lemma makesI:
  "hgood (view c) \<Longrightarrow> hkind (view c) = k \<Longrightarrow> hal (view c) = a \<Longrightarrow> hval (view c) = x \<Longrightarrow>
   requests h a {#} (hblocks (view c)) True h' \<Longrightarrow> call_makes view h a k (Some (Inr c, h')) fits x"
  by (simp add: call_makes_def)

lemma keeps_refl: "held_by view h c \<Longrightarrow> call_keeps view h c c h"
  by (simp add: call_keeps_def held_by_def requests_refl)

lemma keeps_grows: "call_grows view h c fits st c' h' \<Longrightarrow> call_keeps view h c c' h'"
  by (simp add: call_grows_def call_keeps_def)

lemma keeps_trans: "call_keeps view h c c' h' \<Longrightarrow> call_keeps view h' c' c'' h'' \<Longrightarrow> call_keeps view h c c'' h''"
  by (auto simp: call_keeps_def intro: requests_trans)

section \<open>A container inside another\<close>

text \<open>A call on the inner container, passed on by an outer one with the same view.\<close>

lemma wrap_does:
  assumes "call_does view h c r fits x" "view' w = view c"
    and "\<And>st c' h'. r = Some (st, c', h') \<Longrightarrow> hgood (view c') \<Longrightarrow> \<exists>w'. r' = Some (st, w', h') \<and> view' w' = view c'"
  shows "call_does view' h w r' fits x"
proof -
  obtain st c' h' where r: "r = Some (st, c', h')" and g: "call_grows view h c fits st c' h'"
    and x: "st = TDA_STATUS_OK \<longrightarrow> hval (view c') = x"
    using assms(1) unfolding call_does_def by blast
  obtain w' where "r' = Some (st, w', h')" "view' w' = view c'"
    using assms(3) [OF r] g by (auto simp: call_grows_def)
  then show ?thesis using g x assms(2) by (auto simp: call_does_def call_grows_def)
qed

lemma wrap_edits:
  assumes "call_edits view c r x" "view' w = view c"
    and "\<And>c'. r = Some c' \<Longrightarrow> hgood (view c') \<Longrightarrow> \<exists>w'. r' = Some w' \<and> view' w' = view c'"
  shows "call_edits view' w r' x"
proof -
  obtain c' where c: "r = Some c'" "view c' = (view c)\<lparr>hval := x\<rparr>" "hgood (view c)"
    using assms(1) unfolding call_edits_def by blast
  then obtain w' where "r' = Some w'" "view' w' = view c'" using assms(3) [OF c(1)] by auto
  then show ?thesis using c assms(2) by (simp add: call_edits_def)
qed

lemma wrap_makes:
  assumes "call_makes view h a k r fits x"
    and "\<And>c h'. r = Some (Inr c, h') \<Longrightarrow> hgood (view c) \<Longrightarrow> \<exists>w. r' = Some (Inr w, h') \<and> view' w = view c"
    and "\<And>st h'. r = Some (Inl st, h') \<Longrightarrow> r' = Some (Inl st, h')"
  shows "call_makes view' h a k r' fits x"
proof -
  obtain res h' where r: "r = Some (res, h')" using assms(1) by (auto simp: call_makes_def)
  show ?thesis
  proof (cases res)
    case (Inl st)
    then show ?thesis using assms(1,3) r by (simp add: call_makes_def)
  next
    case (Inr c)
    then have "hgood (view c)" using assms(1) r by (simp add: call_makes_def)
    then obtain w where "r' = Some (Inr w, h')" "view' w = view c" using assms(2) [of c h'] r Inr by auto
    then show ?thesis using assms(1) r Inr by (simp add: call_makes_def)
  qed
qed

section \<open>Histories\<close>

text \<open>
  Every account is as it was at \<open>h0\<close>, but for the blocks of the container, which are out besides.
\<close>

definition holds_since :: "('c \<Rightarrow> ('k, 'x) holder) \<Rightarrow> heap \<Rightarrow> heap \<times> 'c \<Rightarrow> bool" where
  "holds_since view h0 s \<longleftrightarrow> hgood (view (snd s)) \<and>
     requests h0 (hal (view (snd s))) {#} (hblocks (view (snd s))) True (fst s)"

lemma holds_held: "holds_since view h0 (h, c) \<Longrightarrow> held_by view h c"
  by (auto simp: holds_since_def held_by_def dest: requests_lives)

lemma holds_grows:
  "holds_since view h0 (h, c) \<Longrightarrow> call_grows view h c fits st c' h' \<Longrightarrow> holds_since view h0 (h', c')"
  by (auto simp: holds_since_def call_grows_def intro: requests_trans)

lemma holds_does:
  "r = Some (st, c', h') \<Longrightarrow> holds_since view h0 (h, c) \<Longrightarrow> call_does view h c r fits x \<Longrightarrow>
   holds_since view h0 (h', c')"
  by (auto simp: call_does_def intro: holds_grows)

lemma holds_keeps:
  "holds_since view h0 (h, c) \<Longrightarrow> call_keeps view h c c' h' \<Longrightarrow> holds_since view h0 (h', c')"
  by (auto simp: holds_since_def call_keeps_def intro: requests_trans)

lemma holds_edits:
  "r = Some c' \<Longrightarrow> holds_since view h0 (h, c) \<Longrightarrow> call_edits view c r x \<Longrightarrow> holds_since view h0 (h, c')"
  by (auto simp: holds_since_def call_edits_def)

lemma holds_drops:
  "r = Some (c', h') \<Longrightarrow> holds_since view h0 (h, c) \<Longrightarrow> call_drops view h c r x \<Longrightarrow> holds_since view h0 (h', c')"
  by (auto simp: holds_since_def call_drops_def intro: requests_trans)

lemma holds_ends:
  assumes "holds_since view h0 (h, c)" "call_ends view h c r"
  shows "\<exists>c' h'. r = Some (c', h') \<and> lives h' = lives h0"
proof -
  obtain c' h' where "r = Some (c', h')" "requests h (hal (view c)) (hblocks (view c)) {#} True h'"
    using assms(2) unfolding call_ends_def by blast
  moreover from this assms(1) have "requests h0 (hal (view c)) {#} {#} True h'"
    unfolding holds_since_def by (auto intro: requests_trans)
  ultimately show ?thesis by (auto simp: requests_def fun_eq_iff)
qed

text \<open>
  A container: its calls as steps on the accounts and the object, and its deinit. Each step keeps
  the account of the container's blocks, and deinit gives them back. Then no history loses a block.
\<close>

locale container =
  fixes view :: "'c \<Rightarrow> ('k, 'x) holder"
    and step :: "heap \<times> 'c \<Rightarrow> heap \<times> 'c \<Rightarrow> bool"
    and deinit :: "'c \<Rightarrow> heap \<Rightarrow> ('c \<times> heap) option"
  assumes step_holds: "step s t \<Longrightarrow> holds_since view h0 s \<Longrightarrow> holds_since view h0 t"
    and deinit_ends: "held_by view h c \<Longrightarrow> call_ends view h c (deinit c h)"
begin

lemma history_holds:
  assumes "step\<^sup>*\<^sup>* s t" "holds_since view h0 s"
  shows "holds_since view h0 t"
  using assms by (induction rule: rtranclp_induct) (blast intro: step_holds)+

lemma history_leaks_nothing:
  assumes "step\<^sup>*\<^sup>* (h1, c0) (h, c)" "holds_since view h0 (h1, c0)"
  shows "held_by view h c \<and> (\<exists>c' h'. deinit c h = Some (c', h') \<and> lives h' = lives h0)"
proof -
  note holds = history_holds [OF assms]
  from holds have "held_by view h c" by (rule holds_held)
  then show ?thesis using holds_ends [OF holds deinit_ends] by blast
qed

end

end
