(* ===== verification/Span.thy ===== *)
theory Span
  imports Memory
begin

text \<open>
  \<open>core/span.h\<close>: a view of a run of elements. A span is modelled twice: here as the run of bytes
  it is, with its operations on memory, and as the list of its elements, on which the algorithms
  of \<open>algo/\<close> are modelled. The last section shows that the byte operations do to the bytes what the
  list operations do to the elements.
\<close>

section \<open>Spans as lists\<close>

text \<open>The operations of an algorithm on the elements; an index out of range stops the program.\<close>

definition span_get :: "'a list \<Rightarrow> nat \<Rightarrow> 'a option" where
  "span_get s idx = do { chk (idx < length s); Some (s ! idx) }"

definition span_set :: "'a list \<Rightarrow> nat \<Rightarrow> 'a \<Rightarrow> 'a list option" where
  "span_set s idx val = do { chk (idx < length s); Some (s[idx := val]) }"

definition span_swap :: "'a list \<Rightarrow> nat \<Rightarrow> nat \<Rightarrow> 'a list option" where
  "span_swap s i j = do {
     chk (i < length s);
     chk (j < length s);
     if i = j then Some s else Some (s[i := s ! j, j := s ! i])
   }"

definition span_sub :: "'a list \<Rightarrow> nat \<Rightarrow> nat \<Rightarrow> 'a list option" where
  "span_sub s idx cnt = do {
     chk (idx \<le> length s);
     chk (cnt \<le> length s - idx);
     Some (take cnt (drop idx s))
   }"

text \<open>
  A call on a mutable subspan: \<open>f\<close> works on the elements of the subspan, which are the span's own,
  so what it leaves there is what the span then holds.
\<close>

definition span_within :: "'a list \<Rightarrow> nat \<Rightarrow> nat \<Rightarrow> ('a list \<Rightarrow> 'a list option) \<Rightarrow> 'a list option" where
  "span_within s idx cnt f = do {
     t \<leftarrow> span_sub s idx cnt;
     t' \<leftarrow> f t;
     Some (take idx s @ t' @ drop (idx + cnt) s)
   }"

lemma span_get_eq [simp]: "i < length s \<Longrightarrow> span_get s i = Some (s ! i)"
  by (simp add: span_get_def)

lemma span_set_eq [simp]: "i < length s \<Longrightarrow> span_set s i v = Some (s[i := v])"
  by (simp add: span_set_def)

lemma span_swap_eq [simp]:
  "i < length s \<Longrightarrow> j < length s \<Longrightarrow> span_swap s i j = Some (s[i := s ! j, j := s ! i])"
  by (simp add: span_swap_def)

lemma span_sub_eq [simp]:
  "idx + cnt \<le> length s \<Longrightarrow> span_sub s idx cnt = Some (take cnt (drop idx s))"
  by (simp add: span_sub_def)

lemma span_within_eq:
  "idx + cnt \<le> length s \<Longrightarrow> f (take cnt (drop idx s)) = Some t \<Longrightarrow>
   span_within s idx cnt f = Some (take idx s @ t @ drop (idx + cnt) s)"
  by (simp add: span_within_def)

lemma mset_span_swap [simp]:
  "i < length s \<Longrightarrow> j < length s \<Longrightarrow> mset (s[i := s ! j, j := s ! i]) = mset s"
  by (rule mset_swap)

lemma list_split3:
  assumes "i + n \<le> length s"
  shows "take i s @ take n (drop i s) @ drop (i + n) s = s"
  by (metis append_take_drop_id drop_drop add.commute)

section \<open>Spans in memory\<close>

record span =
  sp_data :: addr
  sp_len :: nat
  sp_elem :: layout

definition TDA_SPAN_ASSERT :: "span \<Rightarrow> bool" where
  "TDA_SPAN_ASSERT s \<longleftrightarrow> (sp_data s \<noteq> 0 \<or> sp_len s = 0) \<and> tda_layout_is_type (sp_elem s) \<and>
     (sp_data s AND (lalign (sp_elem s) - 1)) = 0"

definition tda_span_from_data :: "addr \<Rightarrow> nat \<Rightarrow> layout \<Rightarrow> span option" where
  "tda_span_from_data data len elem = do {
     chk (data \<noteq> 0 \<or> len = 0);
     chk (tda_layout_is_type elem);
     chk ((data AND (lalign elem - 1)) = 0);
     Some \<lparr>sp_data = data, sp_len = len, sp_elem = elem\<rparr>
   }"

definition tda_span_sub :: "span \<Rightarrow> nat \<Rightarrow> nat \<Rightarrow> span option" where
  "tda_span_sub self idx cnt = do {
     chk (TDA_SPAN_ASSERT self);
     chk (idx \<le> sp_len self);
     chk (cnt \<le> sp_len self - idx);
     Some \<lparr>sp_data = (if sp_data self \<noteq> 0 then sp_data self + idx * lsize (sp_elem self) else 0),
           sp_len = cnt, sp_elem = sp_elem self\<rparr>
   }"

definition tda_span_split_at :: "span \<Rightarrow> nat \<Rightarrow> (span \<times> span) option" where
  "tda_span_split_at self idx = do {
     chk (TDA_SPAN_ASSERT self);
     chk (idx \<le> sp_len self);
     head \<leftarrow> tda_span_sub self 0 idx;
     tail \<leftarrow> tda_span_sub self idx (sp_len self - idx);
     Some (head, tail)
   }"

definition tda_span_bytes :: "span \<Rightarrow> nat option" where
  "tda_span_bytes self = do {
     chk (TDA_SPAN_ASSERT self);
     Some (wmul (sp_len self) (lsize (sp_elem self)))
   }"

definition tda_span_overlap :: "span \<Rightarrow> span \<Rightarrow> bool option" where
  "tda_span_overlap a b = do {
     chk (TDA_SPAN_ASSERT a);
     chk (TDA_SPAN_ASSERT b);
     if sp_len a = 0 \<or> sp_len b = 0 then Some False
     else do {
       nb \<leftarrow> tda_span_bytes b;
       na \<leftarrow> tda_span_bytes a;
       let (pa, pb) = (sp_data a, sp_data b);
       Some (pa < wadd pb nb \<and> pb < wadd pa na)
     }
   }"

definition tda_span_apart_or_same :: "span \<Rightarrow> span \<Rightarrow> bool option" where
  "tda_span_apart_or_same a b = do {
     chk (TDA_SPAN_ASSERT a);
     chk (TDA_SPAN_ASSERT b);
     if sp_data a = sp_data b then Some True
     else do { ov \<leftarrow> tda_span_overlap a b; Some (\<not> ov) }
   }"

text \<open>\<open>internal/overlap.h\<close>\<close>

definition tda_span_may_write_over :: "span \<Rightarrow> span \<Rightarrow> bool option" where
  "tda_span_may_write_over dst src = do {
     ov \<leftarrow> tda_span_overlap dst src;
     if \<not> ov then Some True
     else Some (sp_data dst = sp_data src \<and> lsize (sp_elem dst) \<le> lsize (sp_elem src))
   }"

definition tda_span_get :: "span \<Rightarrow> nat \<Rightarrow> addr option" where
  "tda_span_get self idx = do {
     chk (TDA_SPAN_ASSERT self);
     chk (idx < sp_len self);
     Some (sp_data self + idx * lsize (sp_elem self))
   }"

definition tda_span_set :: "span \<Rightarrow> nat \<Rightarrow> addr \<Rightarrow> mem \<Rightarrow> mem option" where
  "tda_span_set self idx val m = do {
     chk (TDA_SPAN_ASSERT self);
     chk (val \<noteq> 0);
     chk (idx < sp_len self);
     to \<leftarrow> tda_span_get self idx;
     Some (memmove m to val (lsize (sp_elem self)))
   }"

definition tda_span_swap_elems :: "span \<Rightarrow> nat \<Rightarrow> nat \<Rightarrow> mem \<Rightarrow> mem option" where
  "tda_span_swap_elems self i j m = do {
     chk (TDA_SPAN_ASSERT self);
     chk (i < sp_len self);
     chk (j < sp_len self);
     if i = j then Some m
     else do {
       a \<leftarrow> tda_span_get self i;
       b \<leftarrow> tda_span_get self j;
       Some (bytes_swap_from m a b 0 (lsize (sp_elem self)))
     }
   }"

section \<open>The bytes are the elements\<close>

definition elems :: "mem \<Rightarrow> span \<Rightarrow> byte list list" where
  "elems m s = map (\<lambda>i. bytes m (sp_data s + i * lsize (sp_elem s)) (lsize (sp_elem s))) [0..<sp_len s]"

text \<open>A span of live elements: its run of bytes does not wrap around the address space.\<close>

definition span_ok :: "span \<Rightarrow> bool" where
  "span_ok s \<longleftrightarrow> TDA_SPAN_ASSERT s \<and> sp_data s + sp_len s * lsize (sp_elem s) \<le> SIZE_MAX"

definition span_region :: "span \<Rightarrow> addr set" where
  "span_region s = region (sp_data s) (sp_len s * lsize (sp_elem s))"

lemma length_elems [simp]: "length (elems m s) = sp_len s"
  by (simp add: elems_def)

lemma elems_nth [simp]:
  "i < sp_len s \<Longrightarrow> elems m s ! i = bytes m (sp_data s + i * lsize (sp_elem s)) (lsize (sp_elem s))"
  by (simp add: elems_def)

lemma slot_apart:
  fixes sz :: nat
  assumes "i \<noteq> j"
  shows "apart (d + i * sz) sz (d + j * sz) sz"
proof -
  have le: "i * sz + sz \<le> j * sz" if "i < j" for i j :: nat
    using mult_le_mono1 [of "Suc i" j sz] that by simp
  consider "i < j" | "j < i" using assms by linarith
  then have "i * sz + sz \<le> j * sz \<or> j * sz + sz \<le> i * sz" using le by cases auto
  then show ?thesis unfolding apart_def by linarith
qed

lemma slot_region:
  assumes "i < sp_len s"
  shows "region (sp_data s + i * lsize (sp_elem s)) (lsize (sp_elem s)) \<subseteq> span_region s"
proof -
  have "Suc i * lsize (sp_elem s) \<le> sp_len s * lsize (sp_elem s)"
    using assms by (intro mult_le_mono1) simp
  then show ?thesis by (auto simp: span_region_def)
qed

lemma elems_agree: "agree m m' (span_region s) \<Longrightarrow> elems m' s = elems m s"
proof (rule nth_equalityI)
  fix i assume ag: "agree m m' (span_region s)" and i: "i < length (elems m' s)"
  then have "agree m m' (region (sp_data s + i * lsize (sp_elem s)) (lsize (sp_elem s)))"
    using agree_subset [OF ag slot_region] by simp
  then show "elems m' s ! i = elems m s ! i" using i by (simp add: bytes_agree)
qed simp

lemma span_okD:
  assumes "span_ok s"
  shows "TDA_SPAN_ASSERT s" "sp_data s + sp_len s * lsize (sp_elem s) \<le> SIZE_MAX"
    "i < sp_len s \<Longrightarrow> sp_data s \<noteq> 0" "0 < lsize (sp_elem s)"
  using assms is_type_gt0 [of "sp_elem s"] by (auto simp: span_ok_def TDA_SPAN_ASSERT_def)

lemma tda_span_get_elem:
  assumes "span_ok s" "i < sp_len s"
  shows "\<exists>a. tda_span_get s i = Some a \<and> bytes m a (lsize (sp_elem s)) = elems m s ! i"
  using assms span_okD(1) [OF assms(1)] by (simp add: tda_span_get_def)

text \<open>A write of one element's bytes changes that element only.\<close>

lemma elems_update:
  assumes i: "i < sp_len s"
    and ag: "agree m m' (- region (sp_data s + i * lsize (sp_elem s)) (lsize (sp_elem s)))"
  shows "elems m' s = (elems m s)[i := bytes m' (sp_data s + i * lsize (sp_elem s)) (lsize (sp_elem s))]"
proof (rule nth_equalityI)
  let ?sz = "lsize (sp_elem s)"
  fix j assume j: "j < length (elems m' s)"
  show "elems m' s ! j = (elems m s)[i := bytes m' (sp_data s + i * ?sz) ?sz] ! j"
  proof (cases "i = j")
    case False
    then have "region (sp_data s + j * ?sz) ?sz \<subseteq> - region (sp_data s + i * ?sz) ?sz"
      using slot_apart [of j i "sp_data s" ?sz] unfolding apart_iff by blast
    then have "bytes m' (sp_data s + j * ?sz) ?sz = bytes m (sp_data s + j * ?sz) ?sz"
      using ag by (intro bytes_agree) (auto intro: agree_subset)
    then show ?thesis using j False by simp
  qed (use j in simp)
qed simp

lemma tda_span_set_elems:
  assumes ok: "span_ok s" and i: "i < sp_len s" and v: "val \<noteq> 0"
  shows "\<exists>m'. tda_span_set s i val m = Some m' \<and>
    Some (elems m' s) = span_set (elems m s) i (bytes m val (lsize (sp_elem s))) \<and>
    agree m m' (- span_region s)"
proof -
  let ?sz = "lsize (sp_elem s)"
  let ?m = "memmove m (sp_data s + i * ?sz) val ?sz"
  have ag: "agree m ?m (- region (sp_data s + i * ?sz) ?sz)" by (rule agree_memmove) blast
  have "elems ?m s = (elems m s)[i := bytes m val ?sz]"
    using elems_update [OF i ag] by (simp add: bytes_memmove)
  moreover have "agree m ?m (- span_region s)"
    using ag slot_region [OF i] by (auto intro: agree_subset)
  ultimately show ?thesis
    using span_okD(1) [OF ok] i v by (auto simp: tda_span_set_def tda_span_get_def)
qed

lemma tda_span_swap_elems_refines:
  assumes ok: "span_ok s" and i: "i < sp_len s" and j: "j < sp_len s"
  shows "\<exists>m'. tda_span_swap_elems s i j m = Some m' \<and>
    Some (elems m' s) = span_swap (elems m s) i j \<and> agree m m' (- span_region s)"
proof (cases "i = j")
  case True
  then show ?thesis
    using span_okD(1) [OF ok] i j by (auto simp: tda_span_swap_elems_def simp del: elems_nth)
next
  case False
  let ?sz = "lsize (sp_elem s)" and ?a = "sp_data s + i * lsize (sp_elem s)"
    and ?b = "sp_data s + j * lsize (sp_elem s)"
  have d: "sp_data s \<noteq> 0" using span_okD(3) [OF ok i] .
  have ap: "apart ?a ?sz ?b ?sz" using False by (rule slot_apart)
  let ?m = "bytes_swap_from m ?a ?b 0 ?sz"
  have m': "bytes ?m ?a ?sz = bytes m ?b ?sz" "bytes ?m ?b ?sz = bytes m ?a ?sz"
    "agree m ?m (- (region ?a ?sz \<union> region ?b ?sz))"
    using tda_bytes_swap_eq [OF _ _ ap, of m] d by (auto simp: tda_bytes_swap_def)
  have el: "elems ?m s ! k = (elems m s)[i := elems m s ! j, j := elems m s ! i] ! k"
    if k: "k < sp_len s" for k
  proof (cases "k = i \<or> k = j")
    case False
    let ?c = "sp_data s + k * ?sz"
    have "region ?c ?sz \<subseteq> - (region ?a ?sz \<union> region ?b ?sz)"
      using False slot_apart [of k i "sp_data s" ?sz] slot_apart [of k j "sp_data s" ?sz]
      unfolding apart_iff by blast
    then have "bytes ?m ?c ?sz = bytes m ?c ?sz" using m'(3) by (intro bytes_agree) (auto intro: agree_subset)
    then show ?thesis using k False by simp
  qed (use k i j m' \<open>i \<noteq> j\<close> in auto)
  have "elems ?m s = (elems m s)[i := elems m s ! j, j := elems m s ! i]"
    by (rule nth_equalityI) (simp_all add: el del: elems_nth)
  moreover have "agree m ?m (- span_region s)"
    using m'(3) slot_region [OF i] slot_region [OF j] by (rule_tac agree_subset) blast+
  moreover have "tda_span_swap_elems s i j m = Some ?m"
    using span_okD(1) [OF ok] i j False by (simp add: tda_span_swap_elems_def tda_span_get_def)
  ultimately show ?thesis using i j by simp
qed

lemma span_sub_ok:
  assumes ok: "span_ok s" and le: "idx + cnt \<le> sp_len s"
  shows "\<exists>t. tda_span_sub s idx cnt = Some t \<and> span_ok t \<and>
    Some (elems m t) = span_sub (elems m s) idx cnt \<and> span_region t \<subseteq> span_region s"
proof -
  let ?sz = "lsize (sp_elem s)"
  let ?t = "\<lparr>sp_data = (if sp_data s \<noteq> 0 then sp_data s + idx * ?sz else 0), sp_len = cnt,
    sp_elem = sp_elem s\<rparr>"
  have A: "sp_data s \<noteq> 0 \<or> sp_len s = 0" "tda_layout_is_type (sp_elem s)"
    "(sp_data s AND (lalign (sp_elem s) - 1)) = 0"
    using span_okD(1) [OF ok] by (simp_all add: TDA_SPAN_ASSERT_def)
  have al: "tda_layout_is_align (lalign (sp_elem s))" "lalign (sp_elem s) dvd ?sz"
    using A(2) is_type_gt0 [OF A(2)] by (simp_all add: tda_layout_is_type_def)
  have "lalign (sp_elem s) dvd sp_data s"
    using A(3) and_align_pred [OF al(1)] by (simp add: dvd_eq_mod_eq_0)
  then have "lalign (sp_elem s) dvd sp_data ?t" using al(2) by simp
  then have "(sp_data ?t AND (lalign (sp_elem s) - 1)) = 0"
    unfolding and_align_pred [OF al(1)] by (simp only: dvd_eq_mod_eq_0)
  then have asrt: "TDA_SPAN_ASSERT ?t" using A le by (auto simp: TDA_SPAN_ASSERT_def)
  have call: "tda_span_sub s idx cnt = Some ?t"
    using span_okD(1) [OF ok] le by (simp add: tda_span_sub_def)
  have mul: "(idx + cnt) * ?sz \<le> sp_len s * ?sz" using le by (intro mult_le_mono1)
  then have fit: "idx * ?sz + cnt * ?sz \<le> sp_len s * ?sz" by (simp add: add_mult_distrib)
  have "span_ok ?t" using asrt span_okD(2) [OF ok] fit A(1) le by (auto simp: span_ok_def)
  moreover have "elems m ?t = take cnt (drop idx (elems m s))"
    using le A(1) by (intro nth_equalityI) (auto simp: add_mult_distrib add.assoc)
  moreover have "span_region ?t \<subseteq> span_region s"
    using fit A(1) le by (auto simp: span_region_def)
  ultimately show ?thesis using call le by simp
qed

text \<open>Two spans overlap exactly when they have a byte in common.\<close>

lemma tda_span_overlap_iff:
  assumes "span_ok a" "span_ok b"
  shows "tda_span_overlap a b = Some (span_region a \<inter> span_region b \<noteq> {})"
proof -
  note A = span_okD [OF assms(1)] and B = span_okD [OF assms(2)]
  show ?thesis
  proof (cases "sp_len a = 0 \<or> sp_len b = 0")
    case True
    then show ?thesis using A(1) B(1) by (auto simp: tda_span_overlap_def span_region_def region_def)
  next
    case False
    let ?na = "sp_len a * lsize (sp_elem a)" and ?nb = "sp_len b * lsize (sp_elem b)"
    have "0 < ?na" "0 < ?nb" using False A(4) B(4) by simp_all
    then have "region (sp_data a) ?na \<inter> region (sp_data b) ?nb = {} \<longleftrightarrow>
        \<not> (sp_data a < sp_data b + ?nb \<and> sp_data b < sp_data a + ?na)"
      unfolding apart_iff [symmetric] apart_def by linarith
    moreover have "?na \<le> SIZE_MAX" "?nb \<le> SIZE_MAX" using A(2) B(2) by linarith+
    ultimately show ?thesis
      using False A(1,2) B(1,2) by (simp add: tda_span_overlap_def tda_span_bytes_def span_region_def)
  qed
qed

end
