(* ===== verification/Search.thy ===== *)
theory Search
  imports Span Cmp
begin

text \<open>
  \<open>algo/search.h\<close> and \<open>algo/search.c\<close>: linear and binary search, counting, predicates and extremes
  over a span, modelled on the list of its elements. An answer through \<open>out_idx\<close> is an option: the
  index, or \<^term>\<open>None\<close> where the C function returns false.
\<close>

section \<open>find\<close>

text \<open>The loops, from the index they have reached. The walks down count the index plus one.\<close>

function find_loop :: "('a \<Rightarrow> bool) \<Rightarrow> 'a list \<Rightarrow> nat \<Rightarrow> nat option option" where
  "find_loop test s i =
     (if i < length s
      then do { e \<leftarrow> span_get s i; if test e then Some (Some i) else find_loop test s (i + 1) }
      else Some None)"
  by auto
termination by (relation "measure (\<lambda>(test, s, i). length s - i)") auto

fun find_last_loop :: "('a \<Rightarrow> bool) \<Rightarrow> 'a list \<Rightarrow> nat \<Rightarrow> nat option option" where
  "find_last_loop test s 0 = Some None"
| "find_last_loop test s (Suc i) =
     do { e \<leftarrow> span_get s i; if test e then Some (Some i) else find_last_loop test s i }"

definition tda_span_find :: "'a list \<Rightarrow> 'b \<Rightarrow> ('a \<Rightarrow> 'b \<Rightarrow> bool) \<Rightarrow> nat option option" where
  "tda_span_find s key eq = find_loop (\<lambda>e. eq e key) s 0"

definition tda_span_find_if :: "'a list \<Rightarrow> ('a \<Rightarrow> bool) \<Rightarrow> nat option option" where
  "tda_span_find_if s pred = find_loop pred s 0"

definition tda_span_find_last :: "'a list \<Rightarrow> 'b \<Rightarrow> ('a \<Rightarrow> 'b \<Rightarrow> bool) \<Rightarrow> nat option option" where
  "tda_span_find_last s key eq = find_last_loop (\<lambda>e. eq e key) s (length s)"

definition tda_span_find_last_if :: "'a list \<Rightarrow> ('a \<Rightarrow> bool) \<Rightarrow> nat option option" where
  "tda_span_find_last_if s pred = find_last_loop pred s (length s)"

function matches_loop :: "'a list \<Rightarrow> 'b list \<Rightarrow> nat \<Rightarrow> ('a \<Rightarrow> 'b \<Rightarrow> bool) \<Rightarrow> nat \<Rightarrow> bool option" where
  "matches_loop s sub idx eq j =
     (if j < length sub
      then do {
        a \<leftarrow> span_get s (idx + j);
        b \<leftarrow> span_get sub j;
        if \<not> eq a b then Some False else matches_loop s sub idx eq (j + 1)
      }
      else Some True)"
  by auto
termination by (relation "measure (\<lambda>(s, sub, idx, eq, j). length sub - j)") auto

definition matches_at :: "'a list \<Rightarrow> 'b list \<Rightarrow> nat \<Rightarrow> ('a \<Rightarrow> 'b \<Rightarrow> bool) \<Rightarrow> bool option" where
  "matches_at s sub idx eq = do {
     chk (idx + length sub \<le> length s);
     matches_loop s sub idx eq 0
   }"

function find_sub_loop :: "'a list \<Rightarrow> 'b list \<Rightarrow> ('a \<Rightarrow> 'b \<Rightarrow> bool) \<Rightarrow> nat \<Rightarrow> nat option option" where
  "find_sub_loop s sub eq i =
     (if i + length sub \<le> length s
      then do {
        b \<leftarrow> matches_at s sub i eq;
        if b then Some (Some i) else find_sub_loop s sub eq (i + 1)
      }
      else Some None)"
  by auto
termination by (relation "measure (\<lambda>(s, sub, eq, i). Suc (length s) - i)") auto

definition tda_span_find_sub :: "'a list \<Rightarrow> 'b list \<Rightarrow> ('a \<Rightarrow> 'b \<Rightarrow> bool) \<Rightarrow> nat option option" where
  "tda_span_find_sub s sub eq =
     (if length sub = 0 then Some (Some 0)
      else if length sub > length s then Some None
      else find_sub_loop s sub eq 0)"

fun find_last_sub_loop :: "'a list \<Rightarrow> 'b list \<Rightarrow> ('a \<Rightarrow> 'b \<Rightarrow> bool) \<Rightarrow> nat \<Rightarrow> nat option option" where
  "find_last_sub_loop s sub eq 0 = Some None"
| "find_last_sub_loop s sub eq (Suc start) = do {
     b \<leftarrow> matches_at s sub start eq;
     if b then Some (Some start) else find_last_sub_loop s sub eq start
   }"

definition tda_span_find_last_sub :: "'a list \<Rightarrow> 'b list \<Rightarrow> ('a \<Rightarrow> 'b \<Rightarrow> bool) \<Rightarrow> nat option option" where
  "tda_span_find_last_sub s sub eq =
     (if length sub = 0 then Some (Some (length s))
      else if length sub > length s then Some None
      else find_last_sub_loop s sub eq (length s - length sub + 1))"

function find_run_loop ::
  "'a list \<Rightarrow> 'b \<Rightarrow> nat \<Rightarrow> ('a \<Rightarrow> 'b \<Rightarrow> bool) \<Rightarrow> nat \<Rightarrow> nat \<Rightarrow> nat option option" where
  "find_run_loop s key cnt eq run i =
     (if i < length s
      then do {
        e \<leftarrow> span_get s i;
        let run = (if eq e key then run + 1 else 0);
        if run = cnt then Some (Some (i + 1 - cnt)) else find_run_loop s key cnt eq run (i + 1)
      }
      else Some None)"
  by auto
termination by (relation "measure (\<lambda>(s, key, cnt, eq, run, i). length s - i)") auto

definition tda_span_find_run ::
  "'a list \<Rightarrow> 'b \<Rightarrow> nat \<Rightarrow> ('a \<Rightarrow> 'b \<Rightarrow> bool) \<Rightarrow> nat option option" where
  "tda_span_find_run s key cnt eq =
     (if cnt = 0 then Some (Some 0) else find_run_loop s key cnt eq 0 0)"

text \<open>The inner loop of \<open>find_any_of\<close>, over the set, and the outer one.\<close>

function any_of_set_loop :: "'a \<Rightarrow> 'b list \<Rightarrow> ('a \<Rightarrow> 'b \<Rightarrow> bool) \<Rightarrow> nat \<Rightarrow> bool option" where
  "any_of_set_loop elem st eq j =
     (if j < length st
      then do { k \<leftarrow> span_get st j; if eq elem k then Some True else any_of_set_loop elem st eq (j + 1) }
      else Some False)"
  by auto
termination by (relation "measure (\<lambda>(elem, st, eq, j). length st - j)") auto

function find_any_of_loop :: "'a list \<Rightarrow> 'b list \<Rightarrow> ('a \<Rightarrow> 'b \<Rightarrow> bool) \<Rightarrow> nat \<Rightarrow> nat option option" where
  "find_any_of_loop s st eq i =
     (if i < length s
      then do {
        elem \<leftarrow> span_get s i;
        b \<leftarrow> any_of_set_loop elem st eq 0;
        if b then Some (Some i) else find_any_of_loop s st eq (i + 1)
      }
      else Some None)"
  by auto
termination by (relation "measure (\<lambda>(s, st, eq, i). length s - i)") auto

definition tda_span_find_any_of :: "'a list \<Rightarrow> 'b list \<Rightarrow> ('a \<Rightarrow> 'b \<Rightarrow> bool) \<Rightarrow> nat option option" where
  "tda_span_find_any_of s st eq = find_any_of_loop s st eq 0"

function find_adjacent_loop :: "'a list \<Rightarrow> ('a \<Rightarrow> 'a \<Rightarrow> bool) \<Rightarrow> nat \<Rightarrow> nat option option" where
  "find_adjacent_loop s eq i =
     (if i < length s
      then do {
        a \<leftarrow> span_get s (i - 1);
        b \<leftarrow> span_get s i;
        if eq a b then Some (Some (i - 1)) else find_adjacent_loop s eq (i + 1)
      }
      else Some None)"
  by auto
termination by (relation "measure (\<lambda>(s, eq, i). length s - i)") auto

definition tda_span_find_adjacent :: "'a list \<Rightarrow> ('a \<Rightarrow> 'a \<Rightarrow> bool) \<Rightarrow> nat option option" where
  "tda_span_find_adjacent s eq = find_adjacent_loop s eq 1"

definition tda_span_contains :: "'a list \<Rightarrow> 'b \<Rightarrow> ('a \<Rightarrow> 'b \<Rightarrow> bool) \<Rightarrow> bool option" where
  "tda_span_contains s key eq = do { r \<leftarrow> tda_span_find s key eq; Some (r \<noteq> None) }"

section \<open>count\<close>

function count_loop :: "('a \<Rightarrow> bool) \<Rightarrow> 'a list \<Rightarrow> nat \<Rightarrow> nat \<Rightarrow> nat option" where
  "count_loop test s cnt i =
     (if i < length s
      then do { e \<leftarrow> span_get s i; count_loop test s (if test e then cnt + 1 else cnt) (i + 1) }
      else Some cnt)"
  by auto
termination by (relation "measure (\<lambda>(test, s, cnt, i). length s - i)") auto

definition tda_span_count :: "'a list \<Rightarrow> 'b \<Rightarrow> ('a \<Rightarrow> 'b \<Rightarrow> bool) \<Rightarrow> nat option" where
  "tda_span_count s key eq = count_loop (\<lambda>e. eq e key) s 0 0"

definition tda_span_count_if :: "'a list \<Rightarrow> ('a \<Rightarrow> bool) \<Rightarrow> nat option" where
  "tda_span_count_if s pred = count_loop pred s 0 0"

section \<open>Binary search\<close>

function bound_loop :: "'a list \<Rightarrow> 'b \<Rightarrow> ('a \<Rightarrow> 'b \<Rightarrow> int) \<Rightarrow> bool \<Rightarrow> nat \<Rightarrow> nat \<Rightarrow> nat option" where
  "bound_loop s key cmp upper lo hi =
     (if lo < hi
      then do {
        let mid = lo + (hi - lo) div 2;
        elem \<leftarrow> span_get s mid;
        let order = cmp elem key;
        let before = (if upper then order \<le> 0 else order < 0);
        if before then bound_loop s key cmp upper (mid + 1) hi
        else bound_loop s key cmp upper lo mid
      }
      else Some lo)"
  by auto
termination by (relation "measure (\<lambda>(s, key, cmp, upper, lo, hi). hi - lo)") auto

definition bound :: "'a list \<Rightarrow> 'b \<Rightarrow> ('a \<Rightarrow> 'b \<Rightarrow> int) \<Rightarrow> bool \<Rightarrow> nat option" where
  "bound s key cmp upper = bound_loop s key cmp upper 0 (length s)"

definition tda_span_lower_bound :: "'a list \<Rightarrow> 'b \<Rightarrow> ('a \<Rightarrow> 'b \<Rightarrow> int) \<Rightarrow> nat option" where
  "tda_span_lower_bound s key cmp = bound s key cmp False"

definition tda_span_upper_bound :: "'a list \<Rightarrow> 'b \<Rightarrow> ('a \<Rightarrow> 'b \<Rightarrow> int) \<Rightarrow> nat option" where
  "tda_span_upper_bound s key cmp = bound s key cmp True"

definition tda_span_binary_search :: "'a list \<Rightarrow> 'b \<Rightarrow> ('a \<Rightarrow> 'b \<Rightarrow> int) \<Rightarrow> nat option option" where
  "tda_span_binary_search s key cmp = do {
     pos \<leftarrow> tda_span_lower_bound s key cmp;
     if pos \<ge> length s then Some None
     else do {
       elem \<leftarrow> span_get s pos;
       if cmp elem key = 0 then Some (Some pos) else Some None
     }
   }"

text \<open>The answer is the pair of \<open>lo\<close> and \<open>hi\<close>.\<close>

definition tda_span_equal_range :: "'a list \<Rightarrow> 'b \<Rightarrow> ('a \<Rightarrow> 'b \<Rightarrow> int) \<Rightarrow> (nat \<times> nat) option" where
  "tda_span_equal_range s key cmp = do {
     lo \<leftarrow> tda_span_lower_bound s key cmp;
     tail \<leftarrow> span_sub s lo (length s - lo);
     up \<leftarrow> tda_span_upper_bound tail key cmp;
     Some (lo, lo + up)
   }"

function partition_point_loop :: "'a list \<Rightarrow> ('a \<Rightarrow> bool) \<Rightarrow> nat \<Rightarrow> nat \<Rightarrow> nat option" where
  "partition_point_loop s pred lo hi =
     (if lo < hi
      then do {
        let mid = lo + (hi - lo) div 2;
        e \<leftarrow> span_get s mid;
        if pred e then partition_point_loop s pred (mid + 1) hi
        else partition_point_loop s pred lo mid
      }
      else Some lo)"
  by auto
termination by (relation "measure (\<lambda>(s, pred, lo, hi). hi - lo)") auto

definition tda_span_partition_point :: "'a list \<Rightarrow> ('a \<Rightarrow> bool) \<Rightarrow> nat option" where
  "tda_span_partition_point s pred = partition_point_loop s pred 0 (length s)"

section \<open>Predicates\<close>

function all_of_loop :: "'a list \<Rightarrow> ('a \<Rightarrow> bool) \<Rightarrow> nat \<Rightarrow> bool option" where
  "all_of_loop s pred i =
     (if i < length s
      then do { e \<leftarrow> span_get s i; if \<not> pred e then Some False else all_of_loop s pred (i + 1) }
      else Some True)"
  by auto
termination by (relation "measure (\<lambda>(s, pred, i). length s - i)") auto

definition tda_span_all_of :: "'a list \<Rightarrow> ('a \<Rightarrow> bool) \<Rightarrow> bool option" where
  "tda_span_all_of s pred = all_of_loop s pred 0"

definition tda_span_any_of :: "'a list \<Rightarrow> ('a \<Rightarrow> bool) \<Rightarrow> bool option" where
  "tda_span_any_of s pred = do { r \<leftarrow> tda_span_find_if s pred; Some (r \<noteq> None) }"

definition tda_span_none_of :: "'a list \<Rightarrow> ('a \<Rightarrow> bool) \<Rightarrow> bool option" where
  "tda_span_none_of s pred = do { b \<leftarrow> tda_span_any_of s pred; Some (\<not> b) }"

definition tda_span_starts_with :: "'a list \<Rightarrow> 'b list \<Rightarrow> ('a \<Rightarrow> 'b \<Rightarrow> bool) \<Rightarrow> bool option" where
  "tda_span_starts_with s prefix eq =
     (if length prefix \<le> length s then matches_at s prefix 0 eq else Some False)"

definition tda_span_ends_with :: "'a list \<Rightarrow> 'b list \<Rightarrow> ('a \<Rightarrow> 'b \<Rightarrow> bool) \<Rightarrow> bool option" where
  "tda_span_ends_with s suffix eq =
     (if length suffix \<le> length s then matches_at s suffix (length s - length suffix) eq
      else Some False)"

section \<open>Extremes\<close>

definition beats :: "('a \<Rightarrow> 'a \<Rightarrow> int) \<Rightarrow> 'a \<Rightarrow> 'a \<Rightarrow> bool \<Rightarrow> bool" where
  "beats cmp cur best mx \<longleftrightarrow> (if mx then cmp best cur < 0 else cmp cur best < 0)"

function extreme_loop :: "'a list \<Rightarrow> ('a \<Rightarrow> 'a \<Rightarrow> int) \<Rightarrow> bool \<Rightarrow> nat \<Rightarrow> 'a \<Rightarrow> nat \<Rightarrow> nat option" where
  "extreme_loop s cmp mx best best_p i =
     (if i < length s
      then do {
        cur \<leftarrow> span_get s i;
        if beats cmp cur best_p mx then extreme_loop s cmp mx i cur (i + 1)
        else extreme_loop s cmp mx best best_p (i + 1)
      }
      else Some best)"
  by auto
termination by (relation "measure (\<lambda>(s, cmp, mx, best, best_p, i). length s - i)") auto

definition extreme :: "'a list \<Rightarrow> ('a \<Rightarrow> 'a \<Rightarrow> int) \<Rightarrow> bool \<Rightarrow> nat option" where
  "extreme s cmp mx = do { best_p \<leftarrow> span_get s 0; extreme_loop s cmp mx 0 best_p 1 }"

definition tda_span_min_elem :: "'a list \<Rightarrow> ('a \<Rightarrow> 'a \<Rightarrow> int) \<Rightarrow> nat option" where
  "tda_span_min_elem s cmp = do { chk (length s > 0); extreme s cmp False }"

definition tda_span_max_elem :: "'a list \<Rightarrow> ('a \<Rightarrow> 'a \<Rightarrow> int) \<Rightarrow> nat option" where
  "tda_span_max_elem s cmp = do { chk (length s > 0); extreme s cmp True }"

function minmax_loop ::
  "'a list \<Rightarrow> ('a \<Rightarrow> 'a \<Rightarrow> int) \<Rightarrow> nat \<times> nat \<Rightarrow> 'a \<Rightarrow> 'a \<Rightarrow> nat \<Rightarrow> (nat \<times> nat) option" where
  "minmax_loop s cmp out min_p max_p i =
     (if i < length s
      then do {
        cur \<leftarrow> span_get s i;
        let (mn, min_p) = (if beats cmp cur min_p False then (i, cur) else (fst out, min_p));
        let (mx, max_p) = (if beats cmp cur max_p True then (i, cur) else (snd out, max_p));
        minmax_loop s cmp (mn, mx) min_p max_p (i + 1)
      }
      else Some out)"
  by auto
termination by (relation "measure (\<lambda>(s, cmp, out, min_p, max_p, i). length s - i)") auto

definition tda_span_minmax_elem :: "'a list \<Rightarrow> ('a \<Rightarrow> 'a \<Rightarrow> int) \<Rightarrow> (nat \<times> nat) option" where
  "tda_span_minmax_elem s cmp = do {
     chk (length s > 0);
     min_p \<leftarrow> span_get s 0;
     let max_p = min_p;
     minmax_loop s cmp (0, 0) min_p max_p 1
   }"

declare find_loop.simps [simp del] matches_loop.simps [simp del] find_sub_loop.simps [simp del]
  find_run_loop.simps [simp del] any_of_set_loop.simps [simp del] find_any_of_loop.simps [simp del]
  find_adjacent_loop.simps [simp del] count_loop.simps [simp del] bound_loop.simps [simp del]
  partition_point_loop.simps [simp del] all_of_loop.simps [simp del] extreme_loop.simps [simp del]
  minmax_loop.simps [simp del]

section \<open>What the linear searches answer\<close>

text \<open>The first, or the last, index below \<open>n\<close> with a property, if there is one.\<close>

definition is_first :: "(nat \<Rightarrow> bool) \<Rightarrow> nat \<Rightarrow> nat option \<Rightarrow> bool" where
  "is_first P n r \<longleftrightarrow> (case r of None \<Rightarrow> \<forall>j < n. \<not> P j | Some k \<Rightarrow> k < n \<and> P k \<and> (\<forall>j < k. \<not> P j))"

definition is_last :: "(nat \<Rightarrow> bool) \<Rightarrow> nat \<Rightarrow> nat option \<Rightarrow> bool" where
  "is_last P n r \<longleftrightarrow>
     (case r of None \<Rightarrow> \<forall>j < n. \<not> P j | Some k \<Rightarrow> k < n \<and> P k \<and> (\<forall>j. k < j \<and> j < n \<longrightarrow> \<not> P j))"

lemma is_first_simps [simp]:
  "is_first P n None \<longleftrightarrow> (\<forall>j < n. \<not> P j)"
  "is_first P n (Some k) \<longleftrightarrow> k < n \<and> P k \<and> (\<forall>j < k. \<not> P j)"
  by (simp_all add: is_first_def)

lemma is_last_simps [simp]:
  "is_last P n None \<longleftrightarrow> (\<forall>j < n. \<not> P j)"
  "is_last P n (Some k) \<longleftrightarrow> k < n \<and> P k \<and> (\<forall>j. k < j \<and> j < n \<longrightarrow> \<not> P j)"
  by (simp_all add: is_last_def)

lemma find_loop_spec:
  assumes "i \<le> length s" "\<forall>j < i. \<not> test (s ! j)"
  shows "\<exists>r. find_loop test s i = Some r \<and> is_first (\<lambda>j. test (s ! j)) (length s) r"
  using assms
proof (induction test s i rule: find_loop.induct)
  case (1 test s i)
  then show ?case
    by (cases "i < length s \<and> \<not> test (s ! i)") (auto simp: find_loop.simps [of test s i] less_Suc_eq)
qed

lemma find_last_loop_spec:
  assumes "i \<le> length s" "\<forall>j. i \<le> j \<and> j < length s \<longrightarrow> \<not> test (s ! j)"
  shows "\<exists>r. find_last_loop test s i = Some r \<and> is_last (\<lambda>j. test (s ! j)) (length s) r"
  using assms
proof (induction i)
  case (Suc i)
  show ?case
  proof (cases "test (s ! i)")
    case False
    have "\<not> test (s ! j)" if "i \<le> j" "j < length s" for j
      using Suc.prems(2) False that by (cases "i = j") auto
    then show ?thesis using Suc False by simp
  qed (use Suc.prems in auto)
qed simp

definition occurs_at :: "'a list \<Rightarrow> 'b list \<Rightarrow> ('a \<Rightarrow> 'b \<Rightarrow> bool) \<Rightarrow> nat \<Rightarrow> bool" where
  "occurs_at s sub eq i \<longleftrightarrow> (\<forall>j < length sub. eq (s ! (i + j)) (sub ! j))"

lemma matches_loop_eq:
  assumes "idx + length sub \<le> length s" "\<forall>k < j. eq (s ! (idx + k)) (sub ! k)"
  shows "matches_loop s sub idx eq j = Some (occurs_at s sub eq idx)"
  using assms
proof (induction s sub idx eq j rule: matches_loop.induct)
  case (1 s sub idx eq j)
  then show ?case
    by (cases "j < length sub \<and> eq (s ! (idx + j)) (sub ! j)")
      (auto simp: matches_loop.simps [of s sub idx eq j] less_Suc_eq occurs_at_def)
qed

lemma matches_at_eq [simp]:
  "idx + length sub \<le> length s \<Longrightarrow> matches_at s sub idx eq = Some (occurs_at s sub eq idx)"
  by (simp add: matches_at_def matches_loop_eq)

lemma find_sub_loop_spec:
  assumes "length sub \<le> length s" "i \<le> Suc (length s - length sub)"
    "\<forall>j < i. \<not> occurs_at s sub eq j"
  shows "\<exists>r. find_sub_loop s sub eq i = Some r \<and>
    is_first (occurs_at s sub eq) (Suc (length s - length sub)) r"
  using assms
proof (induction s sub eq i rule: find_sub_loop.induct)
  case (1 s sub eq i)
  then show ?case
    by (cases "i + length sub \<le> length s \<and> \<not> occurs_at s sub eq i")
      (auto simp: find_sub_loop.simps [of s sub eq i] less_Suc_eq)
qed

lemma find_last_sub_loop_spec:
  assumes "length sub \<le> length s" "i \<le> Suc (length s - length sub)"
    "\<forall>j. i \<le> j \<and> j \<le> length s - length sub \<longrightarrow> \<not> occurs_at s sub eq j"
  shows "\<exists>r. find_last_sub_loop s sub eq i = Some r \<and>
    is_last (occurs_at s sub eq) (Suc (length s - length sub)) r"
  using assms
proof (induction i)
  case (Suc i)
  show ?case
  proof (cases "occurs_at s sub eq i")
    case False
    have "\<not> occurs_at s sub eq j" if "i \<le> j" "j \<le> length s - length sub" for j
      using Suc.prems(3) False that by (cases "i = j") auto
    then show ?thesis using Suc False by simp
  qed (use Suc.prems in auto)
qed auto

definition run_at :: "'a list \<Rightarrow> 'b \<Rightarrow> nat \<Rightarrow> ('a \<Rightarrow> 'b \<Rightarrow> bool) \<Rightarrow> nat \<Rightarrow> bool" where
  "run_at s key cnt eq i \<longleftrightarrow> (\<forall>j < cnt. eq (s ! (i + j)) key)"

text \<open>\<open>run\<close> is the length of the longest run of matches that ends before \<open>i\<close>.\<close>

lemma find_run_loop_spec:
  assumes "0 < cnt" "i \<le> length s" "run \<le> i" "run < cnt"
    "\<forall>j. i - run \<le> j \<and> j < i \<longrightarrow> eq (s ! j) key" "run < i \<longrightarrow> \<not> eq (s ! (i - run - 1)) key"
    "\<forall>k. k + cnt \<le> i \<longrightarrow> \<not> run_at s key cnt eq k"
  shows "\<exists>r. find_run_loop s key cnt eq run i = Some r \<and>
    is_first (run_at s key cnt eq) (Suc (length s) - cnt) r"
  using assms
proof (induction s key cnt eq run i rule: find_run_loop.induct)
  case (1 s key cnt eq run i)
  note eqn = find_run_loop.simps [of s key cnt eq run i]
  show ?case
  proof (cases "i < length s")
    case False
    then have "find_run_loop s key cnt eq run i = Some None" by (simp add: eqn)
    then show ?thesis using "1.prems"(2,7) False by auto
  next
    case i: True
    let ?run = "if eq (s ! i) key then run + 1 else 0"
    have run: "?run \<le> i + 1" "\<forall>j. i + 1 - ?run \<le> j \<and> j < i + 1 \<longrightarrow> eq (s ! j) key"
      "?run < i + 1 \<longrightarrow> \<not> eq (s ! (i + 1 - ?run - 1)) key"
      using "1.prems"(3,5,6) by (auto simp: less_Suc_eq Suc_diff_le)
    have new: "\<not> run_at s key cnt eq k" if k: "k + cnt \<le> i + 1" and r: "?run \<noteq> cnt" for k
    proof (cases "k + cnt \<le> i")
      case True
      then show ?thesis using "1.prems"(7) by blast
    next
      case False
      with k have k': "k + cnt = i + 1" by simp
      have "?run < cnt" using r "1.prems"(4) by auto
      then have lt: "?run < i + 1" and at: "i + 1 - ?run - 1 = k + (cnt - ?run - 1)" using k' by auto
      have "\<not> eq (s ! (k + (cnt - ?run - 1))) key" using run(3) lt unfolding at by blast
      moreover have "cnt - ?run - 1 < cnt" using "1.prems"(1) by simp
      ultimately show ?thesis unfolding run_at_def by blast
    qed
    show ?thesis
    proof (cases "?run = cnt")
      case True
      have "eq (s ! j) key" if "i + 1 - cnt \<le> j" "j < i + 1" for j
        using run(2) that unfolding True by blast
      then have "run_at s key cnt eq (i + 1 - cnt)"
        using run(1) unfolding True run_at_def by simp
      moreover have "\<forall>k < i + 1 - cnt. \<not> run_at s key cnt eq k"
        using "1.prems"(7) by auto
      ultimately show ?thesis using i True run(1) by (simp add: eqn Let_def)
    next
      case False
      have lt: "?run < cnt" using False "1.prems"(4) by auto
      have le: "i + 1 \<le> length s" using i by simp
      have "\<forall>k. k + cnt \<le> i + 1 \<longrightarrow> \<not> run_at s key cnt eq k" using new False by blast
      note IH = "1.IH" [OF i span_get_eq [OF i] refl False "1.prems"(1) le run(1) lt run(2,3) this]
      have "find_run_loop s key cnt eq run i = find_run_loop s key cnt eq ?run (i + 1)"
        using i False by (simp add: eqn Let_def)
      then show ?thesis using IH by simp
    qed
  qed
qed

lemma any_of_set_loop_eq:
  "\<forall>k < j. \<not> eq elem (st ! k) \<Longrightarrow> any_of_set_loop elem st eq j = Some (\<exists>k \<in> set st. eq elem k)"
proof (induction elem st eq j rule: any_of_set_loop.induct)
  case (1 elem st eq j)
  have "\<exists>k \<in> set st. eq elem k" if "j < length st" "eq elem (st ! j)"
    using that nth_mem by blast
  with 1 show ?case
    by (cases "j < length st \<and> \<not> eq elem (st ! j)")
      (auto simp: any_of_set_loop.simps [of elem st eq j] less_Suc_eq in_set_conv_nth)
qed

lemma find_any_of_loop_eq:
  "find_any_of_loop s st eq i = find_loop (\<lambda>e. \<exists>k \<in> set st. eq e k) s i"
proof (induction s st eq i rule: find_any_of_loop.induct)
  case (1 s st eq i)
  then show ?case
    by (cases "i < length s")
      (simp_all add: find_any_of_loop.simps [of s st eq i] find_loop.simps [of _ s i]
        any_of_set_loop_eq cong: if_cong)
qed

lemma find_adjacent_loop_spec:
  assumes "0 < i" "i \<le> length s \<or> i = 1" "\<forall>j < i - 1. \<not> eq (s ! j) (s ! Suc j)"
  shows "\<exists>r. find_adjacent_loop s eq i = Some r \<and>
    is_first (\<lambda>j. eq (s ! j) (s ! Suc j)) (length s - 1) r"
  using assms
proof (induction s eq i rule: find_adjacent_loop.induct)
  case (1 s eq i)
  obtain k where k: "i = Suc k" using "1.prems"(1) by (cases i) auto
  note eqn = find_adjacent_loop.simps [of s eq i, unfolded k]
  show ?case
  proof (cases "i < length s")
    case False
    then have "find_adjacent_loop s eq i = Some None" by (simp add: eqn k)
    then show ?thesis using "1.prems" k False by auto
  next
    case i: True
    have "\<forall>j < k. \<not> eq (s ! j) (s ! Suc j)" using "1.prems"(3) k by simp
    then show ?thesis
      using i k "1.IH" [OF i, of "s ! k" "s ! i"]
      by (cases "eq (s ! k) (s ! Suc k)") (auto simp: eqn less_Suc_eq)
  qed
qed

lemma count_loop_eq:
  "i \<le> length s \<Longrightarrow> count_loop test s cnt i = Some (cnt + length (filter test (drop i s)))"
proof (induction test s cnt i rule: count_loop.induct)
  case (1 test s cnt i)
  note eqn = count_loop.simps [of test s cnt i]
  show ?case
  proof (cases "i < length s")
    case True
    then have "drop i s = s ! i # drop (Suc i) s" by (rule Cons_nth_drop_Suc [symmetric])
    then show ?thesis using 1 True by (simp add: eqn)
  next
    case False
    then have "count_loop test s cnt i = Some cnt" by (simp add: eqn)
    then show ?thesis using False by simp
  qed
qed

lemma all_of_loop_eq:
  "\<forall>j < i. pred (s ! j) \<Longrightarrow> all_of_loop s pred i = Some (\<forall>x \<in> set s. pred x)"
proof (induction s pred i rule: all_of_loop.induct)
  case (1 s pred i)
  then show ?case
    by (cases "i < length s \<and> pred (s ! i)")
      (auto simp: all_of_loop.simps [of s pred i] less_Suc_eq all_set_conv_all_nth)
qed

section \<open>What the binary searches answer\<close>

text \<open>Both searches are the search for the point at which a property stops holding.\<close>

definition splits_at :: "(nat \<Rightarrow> bool) \<Rightarrow> nat \<Rightarrow> nat \<Rightarrow> bool" where
  "splits_at P n k \<longleftrightarrow> k \<le> n \<and> (\<forall>i < k. P i) \<and> (\<forall>i. k \<le> i \<and> i < n \<longrightarrow> \<not> P i)"

lemma splits_at_unique: "splits_at P n k \<Longrightarrow> splits_at P n k' \<Longrightarrow> k = k'"
  by (cases k k' rule: linorder_cases) (auto simp: splits_at_def)

lemma partition_point_loop_spec:
  assumes "lo \<le> hi" "hi \<le> length s" "\<forall>i j. i \<le> j \<and> j < length s \<and> pred (s ! j) \<longrightarrow> pred (s ! i)"
    "\<forall>i < lo. pred (s ! i)" "\<forall>i. hi \<le> i \<and> i < length s \<longrightarrow> \<not> pred (s ! i)"
  shows "\<exists>k. partition_point_loop s pred lo hi = Some k \<and> splits_at (\<lambda>i. pred (s ! i)) (length s) k"
  using assms
proof (induction s pred lo hi rule: partition_point_loop.induct)
  case (1 s pred lo hi)
  note eqn = partition_point_loop.simps [of s pred lo hi]
  define mid where mid: "mid = lo + (hi - lo) div 2"
  show ?case
  proof (cases "lo < hi")
    case True
    then have le: "lo \<le> mid" "mid < hi" unfolding mid by linarith+
    then have len: "mid < length s" using "1.prems"(2) by linarith
    have step: "partition_point_loop s pred lo hi =
        (if pred (s ! mid) then partition_point_loop s pred (mid + 1) hi
         else partition_point_loop s pred lo mid)"
      unfolding eqn using True len by (simp add: Let_def flip: mid)
    show ?thesis
    proof (cases "pred (s ! mid)")
      case p: True
      have "pred (s ! i)" if "i < mid + 1" for i
        using "1.prems"(3) len p that by (metis Suc_eq_plus1 less_Suc_eq_le)
      then have all: "\<forall>i < mid + 1. pred (s ! i)" by blast
      have hi: "mid + 1 \<le> hi" using le by simp
      show ?thesis
        using "1.IH"(1) [OF True mid span_get_eq [OF len] p hi "1.prems"(2,3) all "1.prems"(5)] p
        by (simp add: step)
    next
      case p: False
      then have all: "\<forall>i. mid \<le> i \<and> i < length s \<longrightarrow> \<not> pred (s ! i)" using "1.prems"(3) by blast
      have hi: "mid \<le> length s" using len by simp
      show ?thesis
        using "1.IH"(2) [OF True mid span_get_eq [OF len] p le(1) hi "1.prems"(3,4) all] p
        by (simp add: step)
    qed
  next
    case False
    then have "partition_point_loop s pred lo hi = Some lo" by (simp add: eqn)
    moreover have "lo = hi" using False "1.prems"(1) by simp
    ultimately show ?thesis using "1.prems" by (auto simp: splits_at_def)
  qed
qed

text \<open>A bound is the partition point of its test, for the elements its key has been compared with.\<close>

definition before_key :: "('a \<Rightarrow> 'b \<Rightarrow> int) \<Rightarrow> 'b \<Rightarrow> bool \<Rightarrow> 'a \<Rightarrow> bool" where
  "before_key cmp key upper e \<longleftrightarrow> (if upper then cmp e key \<le> 0 else cmp e key < 0)"

lemma bound_loop_eq:
  "bound_loop s key cmp upper lo hi = partition_point_loop s (before_key cmp key upper) lo hi"
proof (induction s key cmp upper lo hi rule: bound_loop.induct)
  case (1 s key cmp upper lo hi)
  let ?mid = "lo + (hi - lo) div 2"
  show ?case
  proof (cases "lo < hi \<and> ?mid < length s")
    case True
    then show ?thesis
      using "1.IH"(1) [OF _ refl _ refl refl, of "s ! ?mid"] "1.IH"(2) [OF _ refl _ refl refl, of "s ! ?mid"]
      by (auto simp: bound_loop.simps [of s key cmp upper lo hi]
          partition_point_loop.simps [of s _ lo hi] before_key_def Let_def)
  next
    case False
    then show ?thesis
      by (auto simp: bound_loop.simps [of s key cmp upper lo hi]
          partition_point_loop.simps [of s _ lo hi] span_get_def Let_def)
  qed
qed

section \<open>What the extremes answer\<close>

definition is_min :: "('a \<Rightarrow> 'a \<Rightarrow> int) \<Rightarrow> 'a list \<Rightarrow> nat \<Rightarrow> nat \<Rightarrow> bool" where
  "is_min cmp s n k \<longleftrightarrow> k < n \<and> (\<forall>j < n. cmp (s ! k) (s ! j) \<le> 0) \<and> (\<forall>j < k. cmp (s ! k) (s ! j) < 0)"

definition is_max :: "('a \<Rightarrow> 'a \<Rightarrow> int) \<Rightarrow> 'a list \<Rightarrow> nat \<Rightarrow> nat \<Rightarrow> bool" where
  "is_max cmp s n k \<longleftrightarrow> k < n \<and> (\<forall>j < n. cmp (s ! j) (s ! k) \<le> 0) \<and> (\<forall>j < k. cmp (s ! j) (s ! k) < 0)"

context total_cmp begin

lemma is_min_Suc:
  assumes "is_min cmp s i k"
  shows "is_min cmp s (Suc i) (if beats cmp (s ! i) (s ! k) False then i else k)"
proof (cases "cmp (s ! i) (s ! k) < 0")
  case True
  then have "cmp (s ! i) (s ! j) < 0" if "j < i" for j
    using assms that less_le_trans [of "s ! i" "s ! k" "s ! j"] by (simp add: is_min_def)
  then show ?thesis using True by (auto simp: is_min_def beats_def less_Suc_eq le_less)
next
  case False
  then have "cmp (s ! k) (s ! i) \<le> 0" by (simp add: not_less_iff)
  then show ?thesis using False assms by (auto simp: is_min_def beats_def less_Suc_eq)
qed

lemma is_max_Suc:
  assumes "is_max cmp s i k"
  shows "is_max cmp s (Suc i) (if beats cmp (s ! i) (s ! k) True then i else k)"
proof (cases "cmp (s ! k) (s ! i) < 0")
  case True
  then have "cmp (s ! j) (s ! i) < 0" if "j < i" for j
    using assms that le_less_trans [of "s ! j" "s ! k" "s ! i"] by (simp add: is_max_def)
  then show ?thesis using True by (auto simp: is_max_def beats_def less_Suc_eq le_less)
next
  case False
  then have "cmp (s ! i) (s ! k) \<le> 0" by (simp add: not_less_iff)
  then show ?thesis using False assms by (auto simp: is_max_def beats_def less_Suc_eq)
qed

lemma extreme_loop_spec:
  assumes "0 < i" "i \<le> length s" "if mx then is_max cmp s i k else is_min cmp s i k"
  shows "\<exists>k'. extreme_loop s cmp mx k (s ! k) i = Some k' \<and>
    (if mx then is_max cmp s (length s) k' else is_min cmp s (length s) k')"
  using assms
proof (induction "length s - i" arbitrary: i k)
  case 0
  then have "extreme_loop s cmp mx k (s ! k) i = Some k" "i = length s"
    by (simp_all add: extreme_loop.simps [of s cmp mx k "s ! k" i])
  then show ?case using 0(4) by auto
next
  case (Suc d)
  then have i: "i < length s" by simp
  let ?k = "if beats cmp (s ! i) (s ! k) mx then i else k"
  have step: "extreme_loop s cmp mx k (s ! k) i = extreme_loop s cmp mx ?k (s ! ?k) (Suc i)"
    using i by (simp add: extreme_loop.simps [of s cmp mx k "s ! k" i])
  have inv: "if mx then is_max cmp s (Suc i) ?k else is_min cmp s (Suc i) ?k"
    using Suc.prems(3) is_max_Suc [of s i k] is_min_Suc [of s i k] by (auto split: if_splits)
  have "d = length s - Suc i" using Suc.hyps(2) by simp
  from Suc.hyps(1) [OF this _ _ inv] show ?case using step i by simp
qed

lemma minmax_loop_eq:
  assumes "0 < i" "i \<le> length s" "a < i" "b < i"
  shows "minmax_loop s cmp (a, b) (s ! a) (s ! b) i =
    do { mn \<leftarrow> extreme_loop s cmp False a (s ! a) i; mx \<leftarrow> extreme_loop s cmp True b (s ! b) i;
         Some (mn, mx) }"
  using assms
proof (induction "length s - i" arbitrary: i a b)
  case 0
  then have "\<not> i < length s" by simp
  then show ?case
    by (simp add: minmax_loop.simps [of s cmp _ _ _ i] extreme_loop.simps [of s cmp _ _ _ i])
next
  case (Suc d)
  then have i: "i < length s" and d: "d = length s - Suc i" by simp_all
  let ?a = "if beats cmp (s ! i) (s ! a) False then i else a"
  let ?b = "if beats cmp (s ! i) (s ! b) True then i else b"
  have "minmax_loop s cmp (a, b) (s ! a) (s ! b) i = minmax_loop s cmp (?a, ?b) (s ! ?a) (s ! ?b) (Suc i)"
    using i by (simp add: minmax_loop.simps [of s cmp "(a, b)" "s ! a" "s ! b" i])
  moreover have "extreme_loop s cmp False a (s ! a) i = extreme_loop s cmp False ?a (s ! ?a) (Suc i)"
    "extreme_loop s cmp True b (s ! b) i = extreme_loop s cmp True ?b (s ! ?b) (Suc i)"
    using i by (simp_all add: extreme_loop.simps [of s cmp _ _ _ i])
  ultimately show ?case using Suc.hyps(1) [OF d, of ?a ?b] i Suc.prems(3,4) by simp
qed

lemma min_elem_spec:
  "s \<noteq> [] \<Longrightarrow> \<exists>k. tda_span_min_elem s cmp = Some k \<and> is_min cmp s (length s) k"
  using extreme_loop_spec [of 1 s False 0] by (cases s) (auto simp: tda_span_min_elem_def extreme_def is_min_def)

lemma max_elem_spec:
  "s \<noteq> [] \<Longrightarrow> \<exists>k. tda_span_max_elem s cmp = Some k \<and> is_max cmp s (length s) k"
  using extreme_loop_spec [of 1 s True 0] by (cases s) (auto simp: tda_span_max_elem_def extreme_def is_max_def)

lemma minmax_elem_eq:
  "s \<noteq> [] \<Longrightarrow> tda_span_minmax_elem s cmp =
    do { mn \<leftarrow> tda_span_min_elem s cmp; mx \<leftarrow> tda_span_max_elem s cmp; Some (mn, mx) }"
  using minmax_loop_eq [of 1 s 0 0]
  by (cases s) (simp_all add: tda_span_minmax_elem_def tda_span_min_elem_def tda_span_max_elem_def
      extreme_def Let_def)

end

section \<open>Properties\<close>

lemma find_answers:
  "(\<exists>r. tda_span_find s key eq = Some r \<and> is_first (\<lambda>i. eq (s ! i) key) (length s) r) \<and>
   (\<exists>r. tda_span_find_last s key eq = Some r \<and> is_last (\<lambda>i. eq (s ! i) key) (length s) r) \<and>
   (\<exists>r. tda_span_find_any_of s st eq = Some r \<and>
      is_first (\<lambda>i. \<exists>k \<in> set st. eq (s ! i) k) (length s) r) \<and>
   (\<exists>r. tda_span_find_adjacent s eq' = Some r \<and>
      is_first (\<lambda>i. eq' (s ! i) (s ! Suc i)) (length s - 1) r) \<and>
   tda_span_contains s key eq = Some (\<exists>x \<in> set s. eq x key) \<and>
   tda_span_count s key eq = Some (length (filter (\<lambda>x. eq x key) s))"
proof -
  have f: "\<exists>r. tda_span_find s key eq = Some r \<and> is_first (\<lambda>i. eq (s ! i) key) (length s) r"
    using find_loop_spec [of 0 s "\<lambda>e. eq e key"] by (simp add: tda_span_find_def)
  then obtain r where r: "tda_span_find s key eq = Some r" "is_first (\<lambda>i. eq (s ! i) key) (length s) r"
    by blast
  have "(r \<noteq> None) \<longleftrightarrow> (\<exists>x \<in> set s. eq x key)"
    using r(2) nth_mem [of _ s] by (cases r) (fastforce simp: in_set_conv_nth)+
  then have "tda_span_contains s key eq = Some (\<exists>x \<in> set s. eq x key)"
    by (simp add: tda_span_contains_def r(1))
  moreover have "\<exists>r. find_last_loop (\<lambda>e. eq e key) s (length s) = Some r \<and>
      is_last (\<lambda>i. eq (s ! i) key) (length s) r"
    by (rule find_last_loop_spec) auto
  ultimately show ?thesis
    using f find_loop_spec [of 0 s "\<lambda>e. \<exists>k \<in> set st. eq e k"] find_adjacent_loop_spec [of 1 s eq']
      count_loop_eq [of 0 s "\<lambda>e. eq e key" 0]
    by (simp add: tda_span_find_last_def tda_span_find_any_of_def find_any_of_loop_eq
        tda_span_find_adjacent_def tda_span_count_def)
qed

lemma find_sub_answers:
  "(\<exists>r. tda_span_find_sub s sub eq = Some r \<and>
      is_first (occurs_at s sub eq) (Suc (length s) - length sub) r) \<and>
   (\<exists>r. tda_span_find_last_sub s sub eq = Some r \<and>
      is_last (occurs_at s sub eq) (Suc (length s) - length sub) r) \<and>
   (\<exists>r. tda_span_find_run s key cnt eq' = Some r \<and>
      is_first (run_at s key cnt eq') (Suc (length s) - cnt) r)"
proof (intro conjI)
  show "\<exists>r. tda_span_find_sub s sub eq = Some r \<and>
      is_first (occurs_at s sub eq) (Suc (length s) - length sub) r"
    using find_sub_loop_spec [of sub s 0 eq]
    by (auto simp: tda_span_find_sub_def occurs_at_def Suc_diff_le not_less)
  show "\<exists>r. tda_span_find_last_sub s sub eq = Some r \<and>
      is_last (occurs_at s sub eq) (Suc (length s) - length sub) r"
  proof (cases "sub = [] \<or> length s < length sub")
    case False
    then have "\<exists>r. find_last_sub_loop s sub eq (Suc (length s - length sub)) = Some r \<and>
        is_last (occurs_at s sub eq) (Suc (length s - length sub)) r"
      by (intro find_last_sub_loop_spec) auto
    then show ?thesis
      using False by (simp add: tda_span_find_last_sub_def Suc_diff_le not_less del: find_last_sub_loop.simps)
  qed (auto simp: tda_span_find_last_sub_def occurs_at_def)
  show "\<exists>r. tda_span_find_run s key cnt eq' = Some r \<and>
      is_first (run_at s key cnt eq') (Suc (length s) - cnt) r"
    using find_run_loop_spec [of cnt 0 s 0 eq' key]
    by (cases "cnt = 0") (auto simp: tda_span_find_run_def run_at_def)
qed

text \<open>
  A span ordered for a key: the elements before the key come first, then those equal to it, then
  those after it.
\<close>

definition ordered_for :: "('a \<Rightarrow> 'b \<Rightarrow> int) \<Rightarrow> 'b \<Rightarrow> 'a list \<Rightarrow> bool" where
  "ordered_for cmp key s \<longleftrightarrow> sorted_wrt (\<lambda>x y. (cmp y key < 0 \<longrightarrow> cmp x key < 0) \<and>
     (cmp y key \<le> 0 \<longrightarrow> cmp x key \<le> 0)) s"

context total_cmp begin

lemma sorted_ordered_for: "sorted_wrt (\<lambda>x y. cmp x y \<le> 0) s \<Longrightarrow> ordered_for cmp key s"
  unfolding ordered_for_def
  by (rule sorted_wrt_mono_rel) (auto intro: le_less_trans cmp_le_trans)

end

lemma bound_spec:
  assumes "ordered_for cmp key s"
  shows "\<exists>k. bound s key cmp upper = Some k \<and>
    splits_at (\<lambda>i. before_key cmp key upper (s ! i)) (length s) k"
proof -
  have "before_key cmp key upper (s ! i)" if "i \<le> j" "j < length s" "before_key cmp key upper (s ! j)"
    for i j
    using assms that sorted_wrt_nth_less [OF assms [unfolded ordered_for_def], of i j]
    by (cases "i = j") (auto simp: before_key_def split: if_splits)
  then have mono: "\<forall>i j. i \<le> j \<and> j < length s \<and> before_key cmp key upper (s ! j) \<longrightarrow>
      before_key cmp key upper (s ! i)"
    by blast
  have "\<exists>k. partition_point_loop s (before_key cmp key upper) 0 (length s) = Some k \<and>
      splits_at (\<lambda>i. before_key cmp key upper (s ! i)) (length s) k"
    by (rule partition_point_loop_spec [OF le0 order_refl mono]) auto
  then show ?thesis by (simp add: bound_def bound_loop_eq)
qed

lemma ordered_for_drop: "ordered_for cmp key s \<Longrightarrow> ordered_for cmp key (drop n s)"
  by (simp add: ordered_for_def sorted_wrt_drop)

text \<open>
  C36: on a span ordered for the key, lower_bound, upper_bound and equal_range answer where the
  elements less than, and not greater than, the key end, and binary_search finds an element equal
  to it when there is one.
\<close>

theorem binary_searches:
  assumes "ordered_for cmp key s"
  shows "\<exists>lo hi. tda_span_lower_bound s key cmp = Some lo \<and> tda_span_upper_bound s key cmp = Some hi \<and>
    tda_span_equal_range s key cmp = Some (lo, hi) \<and> lo \<le> hi \<and> hi \<le> length s \<and>
    (\<forall>i < length s. (i < lo \<longleftrightarrow> cmp (s ! i) key < 0) \<and> (i < hi \<longleftrightarrow> cmp (s ! i) key \<le> 0)) \<and>
    tda_span_binary_search s key cmp = Some (if lo < hi then Some lo else None)"
proof -
  obtain lo where lo: "tda_span_lower_bound s key cmp = Some lo"
    and LO: "lo \<le> length s" "\<And>i. i < lo \<Longrightarrow> cmp (s ! i) key < 0"
      "\<And>i. lo \<le> i \<Longrightarrow> i < length s \<Longrightarrow> \<not> cmp (s ! i) key < 0"
    using bound_spec [OF assms, of False]
    by (auto simp: tda_span_lower_bound_def splits_at_def before_key_def)
  obtain hi where hi: "tda_span_upper_bound s key cmp = Some hi"
    and HI: "hi \<le> length s" "\<And>i. i < hi \<Longrightarrow> cmp (s ! i) key \<le> 0"
      "\<And>i. hi \<le> i \<Longrightarrow> i < length s \<Longrightarrow> \<not> cmp (s ! i) key \<le> 0"
    using bound_spec [OF assms, of True]
    by (auto simp: tda_span_upper_bound_def splits_at_def before_key_def)
  have le: "lo \<le> hi"
  proof (rule ccontr)
    assume "\<not> lo \<le> hi"
    then show False using LO(2) [of hi] HI(3) [of hi] LO(1) by auto
  qed
  obtain k where k: "tda_span_upper_bound (drop lo s) key cmp = Some k"
    and K: "splits_at (\<lambda>i. before_key cmp key True (drop lo s ! i)) (length (drop lo s)) k"
    using bound_spec [OF ordered_for_drop [OF assms], of lo True] by (auto simp: tda_span_upper_bound_def)
  have "splits_at (\<lambda>i. before_key cmp key True (drop lo s ! i)) (length (drop lo s)) (hi - lo)"
    using HI LO(1) le by (auto simp: splits_at_def before_key_def)
  then have "k = hi - lo" using K by (rule splits_at_unique [symmetric])
  then have "tda_span_equal_range s key cmp = Some (lo, hi)"
    using lo k LO(1) le by (simp add: tda_span_equal_range_def)
  moreover have "tda_span_binary_search s key cmp = Some (if lo < hi then Some lo else None)"
  proof (cases "lo < length s")
    case True
    then show ?thesis
      using lo LO(3) [of lo] HI(2) [of lo] HI(3) [of lo] by (auto simp: tda_span_binary_search_def)
  qed (use lo LO(1) HI(1) in \<open>simp add: tda_span_binary_search_def\<close>)
  ultimately show ?thesis using lo hi le HI LO by (metis not_le)
qed

theorem binary_searches_witness:
  "\<exists>lo hi. tda_span_equal_range [1, 3, 3, 5] 3 tda_cmp_i32 = Some (lo, hi) \<and> lo \<le> hi"
proof -
  have "ordered_for tda_cmp_i32 3 [1, 3, 3, 5]" by code_simp
  from binary_searches [OF this] show ?thesis by blast
qed

lemma extremes_answer:
  assumes "total_cmp cmp" "s \<noteq> []"
  shows "\<exists>mn mx. tda_span_min_elem s cmp = Some mn \<and> tda_span_max_elem s cmp = Some mx \<and>
    tda_span_minmax_elem s cmp = Some (mn, mx) \<and> is_min cmp s (length s) mn \<and> is_max cmp s (length s) mx"
  using total_cmp.min_elem_spec [OF assms] total_cmp.max_elem_spec [OF assms]
    total_cmp.minmax_elem_eq [OF assms] by auto

end
