(* ===== verification/Emit.thy ===== *)
theory Emit
  imports Span Cmp
begin

text \<open>
  \<open>internal/emit.h\<close>, \<open>internal/order.h\<close>, \<open>algo/copy.c\<close> (but for \<open>tda_span_sample\<close>, which draws) and
  \<open>algo/modify.c\<close>: writing elements out from left to right, and the compactions built on that. An
  operation on a mutable span answers the span's elements after it.
\<close>

section \<open>internal/order.h\<close>

definition tda_right_goes_first :: "('a \<Rightarrow> 'a \<Rightarrow> int) \<Rightarrow> 'a \<Rightarrow> 'a \<Rightarrow> bool" where
  "tda_right_goes_first cmp left right \<longleftrightarrow> cmp right left < 0"

section \<open>internal/emit.h\<close>

definition tda_emit :: "'a list \<Rightarrow> nat \<Rightarrow> 'a \<Rightarrow> ('a list \<times> nat) option" where
  "tda_emit dst wr elem = do { dst \<leftarrow> span_set dst wr elem; Some (dst, wr + 1) }"

text \<open>\<open>elem\<close> is the element of \<open>dst\<close> at \<open>rd\<close>; one still in its slot is not copied.\<close>

definition tda_emit_over :: "'a list \<Rightarrow> nat \<Rightarrow> nat \<Rightarrow> ('a list \<times> nat) option" where
  "tda_emit_over dst wr rd = do {
     chk (wr < length dst);
     dst \<leftarrow> (if wr \<noteq> rd then do { e \<leftarrow> span_get dst rd; span_set dst wr e } else Some dst);
     Some (dst, wr + 1)
   }"

definition tda_emit_rest :: "'a list \<Rightarrow> nat \<Rightarrow> 'a list \<Rightarrow> nat \<Rightarrow> ('a list \<times> nat) option" where
  "tda_emit_rest dst wr src from =
     (if from \<ge> length src then Some (dst, wr)
      else do {
        let n = length src - from;
        chk (wr < length dst);
        chk (n \<le> length dst - wr);
        Some (take wr dst @ drop from src @ drop (wr + n) dst, wr + n)
      })"

section \<open>algo/copy.c\<close>

definition tda_span_copy :: "'a list \<Rightarrow> 'a list \<Rightarrow> 'a list option" where
  "tda_span_copy dst src = do {
     chk (length dst = length src);
     if length dst = 0 then Some dst else Some src
   }"

function copy_if_loop ::
  "'a list \<Rightarrow> 'a list \<Rightarrow> ('a \<Rightarrow> bool) \<Rightarrow> nat \<Rightarrow> nat \<Rightarrow> ('a list \<times> nat) option" where
  "copy_if_loop dst src pred wr rd =
     (if rd < length src
      then do {
        cur \<leftarrow> span_get src rd;
        (dst, wr) \<leftarrow> (if pred cur then tda_emit dst wr cur else Some (dst, wr));
        copy_if_loop dst src pred wr (rd + 1)
      }
      else Some (dst, wr))"
  by auto
termination by (relation "measure (\<lambda>(dst, src, pred, wr, rd). length src - rd)") auto

definition tda_span_copy_if :: "'a list \<Rightarrow> 'a list \<Rightarrow> ('a \<Rightarrow> bool) \<Rightarrow> ('a list \<times> nat) option" where
  "tda_span_copy_if dst src pred = copy_if_loop dst src pred 0 0"

section \<open>algo/modify.c\<close>

text \<open>
  The loops over a span that the body rewrites carry its length \<open>len\<close>, a field of the view that no
  write changes.
\<close>

function unique_loop ::
  "nat \<Rightarrow> ('a \<Rightarrow> 'a \<Rightarrow> bool) \<Rightarrow> 'a list \<Rightarrow> nat \<Rightarrow> nat \<Rightarrow> ('a list \<times> nat) option" where
  "unique_loop len eq s wr rd =
     (if rd < len
      then do {
        cur \<leftarrow> span_get s rd;
        kept \<leftarrow> span_get s (wr - 1);
        (s, wr) \<leftarrow> (if \<not> eq kept cur then tda_emit_over s wr rd else Some (s, wr));
        unique_loop len eq s wr (rd + 1)
      }
      else Some (s, wr))"
  by auto
termination by (relation "measure (\<lambda>(len, eq, s, wr, rd). len - rd)") auto

definition tda_span_unique :: "'a list \<Rightarrow> ('a \<Rightarrow> 'a \<Rightarrow> bool) \<Rightarrow> ('a list \<times> nat) option" where
  "tda_span_unique s eq =
     (if length s < 2 then Some (s, length s) else unique_loop (length s) eq s 1 1)"

function remove_if_loop ::
  "nat \<Rightarrow> ('a \<Rightarrow> bool) \<Rightarrow> 'a list \<Rightarrow> nat \<Rightarrow> nat \<Rightarrow> ('a list \<times> nat) option" where
  "remove_if_loop len pred s wr rd =
     (if rd < len
      then do {
        cur \<leftarrow> span_get s rd;
        (s, wr) \<leftarrow> (if \<not> pred cur then tda_emit_over s wr rd else Some (s, wr));
        remove_if_loop len pred s wr (rd + 1)
      }
      else Some (s, wr))"
  by auto
termination by (relation "measure (\<lambda>(len, pred, s, wr, rd). len - rd)") auto

definition tda_span_remove_if :: "'a list \<Rightarrow> ('a \<Rightarrow> bool) \<Rightarrow> ('a list \<times> nat) option" where
  "tda_span_remove_if s pred = remove_if_loop (length s) pred s 0 0"

text \<open>Whether the key lies in the span's bytes is an argument.\<close>

definition tda_span_remove :: "bool \<Rightarrow> 'a list \<Rightarrow> 'b \<Rightarrow> ('a \<Rightarrow> 'b \<Rightarrow> bool) \<Rightarrow> ('a list \<times> nat) option" where
  "tda_span_remove inside s key eq = do {
     chk (\<not> inside);
     tda_span_remove_if s (\<lambda>elem. eq elem key)
   }"

text \<open>\<open>val\<close> is the value read when it is written; an element of the span keeps its value on a write
  of itself.\<close>

function replace_if_loop ::
  "nat \<Rightarrow> 'a \<Rightarrow> ('a \<Rightarrow> bool) \<Rightarrow> 'a list \<Rightarrow> nat \<Rightarrow> 'a list option" where
  "replace_if_loop len val pred s i =
     (if i < len
      then do {
        e \<leftarrow> span_get s i;
        s \<leftarrow> (if pred e then span_set s i val else Some s);
        replace_if_loop len val pred s (i + 1)
      }
      else Some s)"
  by auto
termination by (relation "measure (\<lambda>(len, val, pred, s, i). len - i)") auto

definition tda_span_replace_if :: "'a list \<Rightarrow> 'a \<Rightarrow> ('a \<Rightarrow> bool) \<Rightarrow> 'a list option" where
  "tda_span_replace_if s val pred = replace_if_loop (length s) val pred s 0"

definition tda_span_replace :: "bool \<Rightarrow> 'a list \<Rightarrow> 'b \<Rightarrow> 'a \<Rightarrow> ('a \<Rightarrow> 'b \<Rightarrow> bool) \<Rightarrow> 'a list option" where
  "tda_span_replace inside s key val eq = do {
     chk (\<not> inside);
     tda_span_replace_if s val (\<lambda>elem. eq elem key)
   }"

declare copy_if_loop.simps [simp del] unique_loop.simps [simp del] remove_if_loop.simps [simp del]
  replace_if_loop.simps [simp del]

section \<open>What they compute\<close>

lemma emit_eq [simp]: "wr < length dst \<Longrightarrow> tda_emit dst wr e = Some (dst[wr := e], wr + 1)"
  by (simp add: tda_emit_def)

lemma emit_over_eq [simp]:
  "wr \<le> rd \<Longrightarrow> rd < length dst \<Longrightarrow> tda_emit_over dst wr rd = Some (dst[wr := dst ! rd], wr + 1)"
  by (simp add: tda_emit_over_def)

lemma emit_rest_eq:
  "wr + (length src - from) \<le> length dst \<Longrightarrow>
   tda_emit_rest dst wr src from =
     Some (take wr dst @ drop from src @ drop (wr + (length src - from)) dst, wr + (length src - from))"
  by (auto simp: tda_emit_rest_def Let_def)

lemma take_update_eq: "n < length xs \<Longrightarrow> take (Suc n) (xs[n := x]) = take n xs @ [x]"
  by (simp add: take_Suc_conv_app_nth)

text \<open>\<open>written dst out\<close>: the elements \<open>out\<close> are at the front of \<open>dst\<close>, and the rest is as it was.\<close>

definition written :: "'a list \<Rightarrow> 'a list \<Rightarrow> 'a list" where
  "written dst out = out @ drop (length out) dst"

lemma written_Nil [simp]: "written dst [] = dst"
  by (simp add: written_def)

lemma length_written [simp]: "length out \<le> length dst \<Longrightarrow> length (written dst out) = length dst"
  by (simp add: written_def)

lemma written_update:
  "length out < length dst \<Longrightarrow> (written dst out)[length out := x] = written dst (out @ [x])"
  by (simp add: written_def list_update_append Cons_nth_drop_Suc [symmetric])

lemma written_nth: "length out \<le> i \<Longrightarrow> i < length dst \<Longrightarrow> written dst out ! i = dst ! i"
  by (simp add: written_def nth_append)

lemma take_written [simp]: "take (length out) (written dst out) = out"
  by (simp add: written_def)

lemma copy_if_loop_eq:
  assumes "length (filter pred (drop rd src)) + length out \<le> length dst"
  shows "copy_if_loop (written dst out) src pred (length out) rd =
    Some (written dst (out @ filter pred (drop rd src)), length (out @ filter pred (drop rd src)))"
  using assms
proof (induction "length src - rd" arbitrary: rd out)
  case 0
  then show ?case by (simp add: copy_if_loop.simps [of _ src pred _ rd])
next
  case (Suc d)
  then have rd: "rd < length src" by simp
  then have dr: "drop rd src = src ! rd # drop (Suc rd) src" by (rule Cons_nth_drop_Suc [symmetric])
  have d: "d = length src - Suc rd" using Suc.hyps(2) by simp
  show ?case
    using Suc.hyps(1) [OF d, of out] Suc.hyps(1) [OF d, of "out @ [src ! rd]"] Suc.prems rd
    by (cases "pred (src ! rd)") (simp_all add: copy_if_loop.simps [of _ src pred _ rd] dr written_update)
qed

lemma remove_if_loop_eq:
  assumes "length out \<le> rd"
  shows "remove_if_loop (length s) pred (written s out) (length out) rd =
    Some (written s (out @ filter (\<lambda>x. \<not> pred x) (drop rd s)),
      length (out @ filter (\<lambda>x. \<not> pred x) (drop rd s)))"
  using assms
proof (induction "length s - rd" arbitrary: rd out)
  case 0
  then show ?case by (simp add: remove_if_loop.simps [of "length s" pred _ _ rd])
next
  case (Suc d)
  then have rd: "rd < length s" by simp
  then have dr: "drop rd s = s ! rd # drop (Suc rd) s" by (rule Cons_nth_drop_Suc [symmetric])
  have d: "d = length s - Suc rd" using Suc.hyps(2) by simp
  show ?case
    using Suc.hyps(1) [OF d, of out] Suc.hyps(1) [OF d, of "out @ [s ! rd]"] Suc.prems rd
    by (simp add: remove_if_loop.simps [of "length s" pred _ _ rd] dr written_update written_nth)
qed

text \<open>Runs of elements that equal the last one kept.\<close>

fun uniq :: "('a \<Rightarrow> 'a \<Rightarrow> bool) \<Rightarrow> 'a \<Rightarrow> 'a list \<Rightarrow> 'a list" where
  "uniq eq k [] = []"
| "uniq eq k (x # xs) = (if eq k x then uniq eq k xs else x # uniq eq x xs)"

lemma unique_loop_eq:
  assumes "length out < rd"
  shows "unique_loop (length s) eq (written s (out @ [k])) (Suc (length out)) rd =
    Some (written s (out @ k # uniq eq k (drop rd s)), length (out @ k # uniq eq k (drop rd s)))"
  using assms
proof (induction "length s - rd" arbitrary: rd out k)
  case 0
  then show ?case by (simp add: unique_loop.simps [of "length s" eq _ _ rd])
next
  case (Suc d)
  then have rd: "rd < length s" by simp
  then have dr: "drop rd s = s ! rd # drop (Suc rd) s" by (rule Cons_nth_drop_Suc [symmetric])
  have d: "d = length s - Suc rd" using Suc.hyps(2) by simp
  have k: "written s (out @ [k]) ! length out = k" by (simp add: written_def nth_append)
  have up: "(written s (out @ [k]))[Suc (length out) := s ! rd] = written s (out @ [k, s ! rd])"
    using written_update [of "out @ [k]" s "s ! rd"] Suc.prems rd by simp
  show ?case
    using Suc.hyps(1) [OF d, of out k] Suc.hyps(1) [OF d, of "out @ [k]" "s ! rd"] Suc.prems rd
    by (simp add: unique_loop.simps [of "length s" eq _ _ rd] dr k up written_nth)
qed

lemma replace_if_loop_eq:
  assumes "length t = length s" "drop i t = drop i s" "i \<le> length s"
  shows "replace_if_loop (length s) val pred t i =
    Some (take i t @ map (\<lambda>x. if pred x then val else x) (drop i s))"
  using assms
proof (induction "length s - i" arbitrary: i t)
  case 0
  then show ?case by (simp add: replace_if_loop.simps [of _ val pred _ i])
next
  case (Suc d)
  then have i: "i < length s" by simp
  then have dr: "drop i s = s ! i # drop (Suc i) s" "t ! i = s ! i" "drop (Suc i) t = drop (Suc i) s"
    using Suc.prems by (simp_all add: Cons_nth_drop_Suc [symmetric])
  have d: "d = length s - Suc i" using Suc.hyps(2) by simp
  show ?case
    using Suc.hyps(1) [OF d, of t] Suc.hyps(1) [OF d, of "t[i := val]"] Suc.prems(1) i
    by (simp add: replace_if_loop.simps [of "length s" val pred t i] dr take_update_eq
        take_Suc_conv_app_nth)
qed

section \<open>Properties\<close>

lemma compactions:
  "tda_span_remove_if s pred =
     Some (written s (filter (\<lambda>x. \<not> pred x) s), length (filter (\<lambda>x. \<not> pred x) s)) \<and>
   tda_span_unique s eq =
     (case s of [] \<Rightarrow> Some ([], 0)
      | k # xs \<Rightarrow> Some (written s (k # uniq eq k xs), length (k # uniq eq k xs))) \<and>
   tda_span_replace_if s val pred = Some (map (\<lambda>x. if pred x then val else x) s)"
proof (intro conjI)
  show "tda_span_remove_if s pred =
     Some (written s (filter (\<lambda>x. \<not> pred x) s), length (filter (\<lambda>x. \<not> pred x) s))"
    using remove_if_loop_eq [of "[]" 0 s pred] by (simp add: tda_span_remove_if_def)
  show "tda_span_replace_if s val pred = Some (map (\<lambda>x. if pred x then val else x) s)"
    using replace_if_loop_eq [of s s 0 val pred] by (simp add: tda_span_replace_if_def)
  show "tda_span_unique s eq =
     (case s of [] \<Rightarrow> Some ([], 0)
      | k # xs \<Rightarrow> Some (written s (k # uniq eq k xs), length (k # uniq eq k xs)))"
  proof (cases s)
    case (Cons k xs)
    have "written s [k] = s" by (simp add: written_def Cons)
    then show ?thesis
      using unique_loop_eq [of "[]" 1 s eq k] Cons
      by (cases xs) (simp_all add: tda_span_unique_def written_def)
  qed (simp add: tda_span_unique_def)
qed

end
