(* ===== verification/Bulk.thy ===== *)
theory Bulk
  imports Search Emit
begin

text \<open>
  \<open>algo/fill.c\<close>, \<open>algo/fold.c\<close>, \<open>algo/transform.c\<close> and \<open>algo/compare.c\<close>: whole spans filled,
  folded, mapped and compared.

  Where the destination may be the source, the loop reads through \<open>rd\<close>: \<open>elsewhere src\<close> reads another
  span, \<open>in_place\<close> the destination as it then is. \<open>same\<close> is the code's test that two views start
  at the same address.
\<close>

type_synonym ('d, 'e) reader = "'d list \<Rightarrow> nat \<Rightarrow> 'e option"

definition elsewhere :: "'e list \<Rightarrow> ('d, 'e) reader" where
  "elsewhere src = (\<lambda>dst i. span_get src i)"

definition in_place :: "('d, 'd) reader" where
  "in_place = span_get"

section \<open>fill\<close>

text \<open>The filled prefix doubles; \<open>filled\<close> starts at 1, so it is never 0.\<close>

function fill_loop :: "nat \<Rightarrow> 'a list \<Rightarrow> nat \<Rightarrow> 'a list option" where
  "fill_loop len s filled =
     (if filled < len \<and> 0 < filled
      then do {
        let n = (if filled < len - filled then filled else len - filled);
        run \<leftarrow> span_sub s 0 n;
        chk (filled + n \<le> length s);
        fill_loop len (take filled s @ run @ drop (filled + n) s) (filled + n)
      }
      else Some s)"
  by auto
termination by (relation "measure (\<lambda>(len, s, filled). len - filled)") auto

definition tda_span_fill :: "'a list \<Rightarrow> 'a \<Rightarrow> 'a list option" where
  "tda_span_fill s val =
     (if length s = 0 then Some s
      else do { s \<leftarrow> span_set s 0 val; fill_loop (length s) s 1 })"

text \<open>\<open>zero\<close> is the element whose bytes are all 0.\<close>

definition tda_span_fill_zero :: "'a \<Rightarrow> 'a list \<Rightarrow> 'a list option" where
  "tda_span_fill_zero zero s = (if length s = 0 then Some s else Some (replicate (length s) zero))"

function generate_loop :: "(nat \<Rightarrow> 'a) \<Rightarrow> nat \<Rightarrow> 'a list \<Rightarrow> nat \<Rightarrow> 'a list option" where
  "generate_loop gen len s i =
     (if i < len then do { s \<leftarrow> span_set s i (gen i); generate_loop gen len s (i + 1) } else Some s)"
  by auto
termination by (relation "measure (\<lambda>(gen, len, s, i). len - i)") auto

definition tda_span_generate :: "'a list \<Rightarrow> (nat \<Rightarrow> 'a) \<Rightarrow> 'a list option" where
  "tda_span_generate s gen = generate_loop gen (length s) s 0"

section \<open>fold\<close>

function fold_loop :: "('b \<Rightarrow> 'a \<Rightarrow> 'b) \<Rightarrow> 'a list \<Rightarrow> 'b \<Rightarrow> nat \<Rightarrow> 'b option" where
  "fold_loop f s acc i =
     (if i < length s then do { e \<leftarrow> span_get s i; fold_loop f s (f acc e) (i + 1) } else Some acc)"
  by auto
termination by (relation "measure (\<lambda>(f, s, acc, i). length s - i)") auto

definition tda_span_fold :: "'a list \<Rightarrow> 'b \<Rightarrow> ('b \<Rightarrow> 'a \<Rightarrow> 'b) \<Rightarrow> 'b option" where
  "tda_span_fold s acc f = fold_loop f s acc 0"

fun fold_back_loop :: "('b \<Rightarrow> 'a \<Rightarrow> 'b) \<Rightarrow> 'a list \<Rightarrow> 'b \<Rightarrow> nat \<Rightarrow> 'b option" where
  "fold_back_loop f s acc 0 = Some acc"
| "fold_back_loop f s acc (Suc i) = do { e \<leftarrow> span_get s i; fold_back_loop f s (f acc e) i }"

definition tda_span_fold_back :: "'a list \<Rightarrow> 'b \<Rightarrow> ('b \<Rightarrow> 'a \<Rightarrow> 'b) \<Rightarrow> 'b option" where
  "tda_span_fold_back s acc f = fold_back_loop f s acc (length s)"

function partial_sum_loop ::
  "('a \<Rightarrow> 'a \<Rightarrow> 'a) \<Rightarrow> ('a, 'a) reader \<Rightarrow> nat \<Rightarrow> 'a list \<Rightarrow> nat \<Rightarrow> 'a list option" where
  "partial_sum_loop f rd len dst i =
     (if i < len
      then do {
        prev \<leftarrow> span_get dst (i - 1);
        cur \<leftarrow> rd dst i;
        dst \<leftarrow> span_set dst i (f prev cur);
        partial_sum_loop f rd len dst (i + 1)
      }
      else Some dst)"
  by auto
termination by (relation "measure (\<lambda>(f, rd, len, dst, i). len - i)") auto

text \<open>\<open>len\<close> is the length of the source.\<close>

definition tda_span_partial_sum ::
  "'a list \<Rightarrow> ('a, 'a) reader \<Rightarrow> nat \<Rightarrow> ('a \<Rightarrow> 'a \<Rightarrow> 'a) \<Rightarrow> 'a list option" where
  "tda_span_partial_sum dst rd len f = do {
     chk (length dst = len);
     if len = 0 then Some dst
     else do {
       e \<leftarrow> rd dst 0;
       dst \<leftarrow> span_set dst 0 e;
       partial_sum_loop f rd len dst 1
     }
   }"

fun difference_back_loop ::
  "('a \<Rightarrow> 'a \<Rightarrow> 'a) \<Rightarrow> ('a, 'a) reader \<Rightarrow> 'a list \<Rightarrow> nat \<Rightarrow> 'a list option" where
  "difference_back_loop f rd dst 0 = Some dst"
| "difference_back_loop f rd dst (Suc i) = do {
     cur \<leftarrow> rd dst (Suc i);
     prev \<leftarrow> rd dst i;
     dst \<leftarrow> span_set dst (Suc i) (f cur prev);
     difference_back_loop f rd dst i
   }"

definition tda_span_adjacent_difference ::
  "'a list \<Rightarrow> ('a, 'a) reader \<Rightarrow> nat \<Rightarrow> ('a \<Rightarrow> 'a \<Rightarrow> 'a) \<Rightarrow> 'a list option" where
  "tda_span_adjacent_difference dst rd len f = do {
     chk (length dst = len);
     if len = 0 then Some dst
     else do {
       dst \<leftarrow> difference_back_loop f rd dst (len - 1);
       e \<leftarrow> rd dst 0;
       span_set dst 0 e
     }
   }"

section \<open>transform\<close>

function transform_loop ::
  "('e \<Rightarrow> 'd) \<Rightarrow> ('d, 'e) reader \<Rightarrow> nat \<Rightarrow> 'd list \<Rightarrow> nat \<Rightarrow> 'd list option" where
  "transform_loop f rd len dst i =
     (if i < len
      then do { e \<leftarrow> rd dst i; dst \<leftarrow> span_set dst i (f e); transform_loop f rd len dst (i + 1) }
      else Some dst)"
  by auto
termination by (relation "measure (\<lambda>(f, rd, len, dst, i). len - i)") auto

definition tda_span_transform ::
  "'d list \<Rightarrow> ('d, 'e) reader \<Rightarrow> nat \<Rightarrow> ('e \<Rightarrow> 'd) \<Rightarrow> 'd list option" where
  "tda_span_transform dst rd len f = do { chk (length dst = len); transform_loop f rd len dst 0 }"

function zip_with_loop ::
  "('e \<Rightarrow> 'f \<Rightarrow> 'd) \<Rightarrow> ('d, 'e) reader \<Rightarrow> ('d, 'f) reader \<Rightarrow> nat \<Rightarrow> 'd list \<Rightarrow> nat \<Rightarrow> 'd list option" where
  "zip_with_loop f ra rb len dst i =
     (if i < len
      then do {
        a \<leftarrow> ra dst i;
        b \<leftarrow> rb dst i;
        dst \<leftarrow> span_set dst i (f a b);
        zip_with_loop f ra rb len dst (i + 1)
      }
      else Some dst)"
  by auto
termination by (relation "measure (\<lambda>(f, ra, rb, len, dst, i). len - i)") auto

definition tda_span_zip_with ::
  "'d list \<Rightarrow> ('d, 'e) reader \<Rightarrow> nat \<Rightarrow> ('d, 'f) reader \<Rightarrow> nat \<Rightarrow> ('e \<Rightarrow> 'f \<Rightarrow> 'd) \<Rightarrow> 'd list option" where
  "tda_span_zip_with dst ra la rb lb f = do {
     chk (length dst = la);
     chk (la = lb);
     zip_with_loop f ra rb la dst 0
   }"

section \<open>compare\<close>

text \<open>\<open>tda_span_eq\<close> compares bytes: an element stands for its bytes.\<close>

definition tda_span_eq :: "bool \<Rightarrow> byte list list \<Rightarrow> byte list list \<Rightarrow> bool" where
  "tda_span_eq same a b \<longleftrightarrow>
     (if length a \<noteq> length b then False
      else if length a = 0 \<or> same then True
      else concat a = concat b)"

function eq_by_loop :: "('a \<Rightarrow> 'b \<Rightarrow> bool) \<Rightarrow> 'a list \<Rightarrow> 'b list \<Rightarrow> nat \<Rightarrow> bool option" where
  "eq_by_loop eq a b i =
     (if i < length a
      then do {
        lhs \<leftarrow> span_get a i;
        rhs \<leftarrow> span_get b i;
        if \<not> eq lhs rhs then Some False else eq_by_loop eq a b (i + 1)
      }
      else Some True)"
  by auto
termination by (relation "measure (\<lambda>(eq, a, b, i). length a - i)") auto

definition tda_span_eq_by :: "bool \<Rightarrow> ('a \<Rightarrow> 'b \<Rightarrow> bool) \<Rightarrow> 'a list \<Rightarrow> 'b list \<Rightarrow> bool option" where
  "tda_span_eq_by same eq a b =
     (if length a \<noteq> length b then Some False
      else if length a = 0 \<or> same then Some True
      else eq_by_loop eq a b 0)"

function mismatch_loop :: "('a \<Rightarrow> 'b \<Rightarrow> bool) \<Rightarrow> 'a list \<Rightarrow> 'b list \<Rightarrow> nat \<Rightarrow> nat \<Rightarrow> nat option option" where
  "mismatch_loop eq a b common i =
     (if i < common
      then do {
        lhs \<leftarrow> span_get a i;
        rhs \<leftarrow> span_get b i;
        if \<not> eq lhs rhs then Some (Some i) else mismatch_loop eq a b common (i + 1)
      }
      else Some None)"
  by auto
termination by (relation "measure (\<lambda>(eq, a, b, common, i). common - i)") auto

definition tda_span_mismatch ::
  "bool \<Rightarrow> ('a \<Rightarrow> 'b \<Rightarrow> bool) \<Rightarrow> 'a list \<Rightarrow> 'b list \<Rightarrow> nat option option" where
  "tda_span_mismatch same eq a b =
     (if same \<and> length a = length b then Some None
      else mismatch_loop eq a b (if length a < length b then length a else length b) 0)"

function is_permutation_loop :: "('a \<Rightarrow> 'a \<Rightarrow> bool) \<Rightarrow> 'a list \<Rightarrow> 'a list \<Rightarrow> nat \<Rightarrow> bool option" where
  "is_permutation_loop eq rest_a rest_b i =
     (if i < length rest_a
      then do {
        elem \<leftarrow> span_get rest_a i;
        before \<leftarrow> span_sub rest_a 0 i;
        seen \<leftarrow> tda_span_contains before elem eq;
        if seen then is_permutation_loop eq rest_a rest_b (i + 1)
        else do {
          in_b \<leftarrow> tda_span_count rest_b elem eq;
          bad \<leftarrow> (if in_b = 0 then Some True
                 else do {
                   from_i \<leftarrow> span_sub rest_a i (length rest_a - i);
                   in_a \<leftarrow> tda_span_count from_i elem eq;
                   Some (in_b \<noteq> in_a)
                 });
          if bad then Some False else is_permutation_loop eq rest_a rest_b (i + 1)
        }
      }
      else Some True)"
  by auto
termination by (relation "measure (\<lambda>(eq, rest_a, rest_b, i). length rest_a - i)") auto

definition tda_span_is_permutation :: "bool \<Rightarrow> ('a \<Rightarrow> 'a \<Rightarrow> bool) \<Rightarrow> 'a list \<Rightarrow> 'a list \<Rightarrow> bool option" where
  "tda_span_is_permutation same eq a b =
     (if length a \<noteq> length b then Some False
      else do {
        r \<leftarrow> tda_span_mismatch same eq a b;
        case r of
          None \<Rightarrow> Some True
        | Some from \<Rightarrow> do {
            rest_a \<leftarrow> span_sub a from (length a - from);
            rest_b \<leftarrow> span_sub b from (length b - from);
            is_permutation_loop eq rest_a rest_b 0
          }
      })"

function span_cmp_loop :: "('a \<Rightarrow> 'a \<Rightarrow> int) \<Rightarrow> 'a list \<Rightarrow> 'a list \<Rightarrow> nat \<Rightarrow> nat \<Rightarrow> int option" where
  "span_cmp_loop cmp a b common i =
     (if i < common
      then do {
        lhs \<leftarrow> span_get a i;
        rhs \<leftarrow> span_get b i;
        let c = cmp lhs rhs;
        if c \<noteq> 0 then Some (if c < 0 then - 1 else 1) else span_cmp_loop cmp a b common (i + 1)
      }
      else Some (of_bool (length a > length b) - of_bool (length a < length b)))"
  by auto
termination by (relation "measure (\<lambda>(cmp, a, b, common, i). common - i)") auto

definition tda_span_cmp :: "bool \<Rightarrow> ('a \<Rightarrow> 'a \<Rightarrow> int) \<Rightarrow> 'a list \<Rightarrow> 'a list \<Rightarrow> int option" where
  "tda_span_cmp same cmp a b =
     (if same \<and> length a = length b then Some 0
      else span_cmp_loop cmp a b (if length a < length b then length a else length b) 0)"

declare fill_loop.simps [simp del] generate_loop.simps [simp del] fold_loop.simps [simp del]
  partial_sum_loop.simps [simp del] transform_loop.simps [simp del] zip_with_loop.simps [simp del]
  eq_by_loop.simps [simp del] mismatch_loop.simps [simp del] is_permutation_loop.simps [simp del]
  span_cmp_loop.simps [simp del]

section \<open>Filling\<close>

lemma fill_loop_eq:
  assumes "0 < k" "k \<le> length s" "take k s = replicate k v"
  shows "fill_loop (length s) s k = Some (replicate (length s) v)"
  using assms
proof (induction "length s - k" arbitrary: s k rule: less_induct)
  case less
  show ?case
  proof (cases "k < length s")
    case False
    then have "fill_loop (length s) s k = Some s" by (simp add: fill_loop.simps [of "length s" s k])
    then show ?thesis using False less.prems by simp
  next
    case True
    define n where "n = (if k < length s - k then k else length s - k)"
    have n: "0 < n" "n \<le> k" "k + n \<le> length s" using True less.prems(1) by (auto simp: n_def)
    let ?t = "take k s @ take n s @ drop (k + n) s"
    have "take n s = replicate n v" using less.prems(3) n(2) by (metis min.absorb1 take_replicate take_take)
    then have tk: "take (k + n) ?t = replicate (k + n) v" using less.prems n by (simp add: replicate_add)
    have len: "length ?t = length s" using n by simp
    have "fill_loop (length s) s k = fill_loop (length ?t) ?t (k + n)"
      unfolding fill_loop.simps [of "length s" s k] len using True less.prems(1) n
      by (simp add: Let_def n_def [symmetric])
    also have "\<dots> = Some (replicate (length ?t) v)"
      by (rule less.hyps) (use n True len tk in simp_all)
    finally show ?thesis unfolding len .
  qed
qed

lemma fill_eq: "tda_span_fill s v = Some (replicate (length s) v)"
proof (cases s)
  case Nil
  then show ?thesis by (simp add: tda_span_fill_def)
next
  case (Cons x xs)
  then show ?thesis using fill_loop_eq [of 1 "v # xs" v] by (simp add: tda_span_fill_def)
qed

lemma generate_loop_eq:
  "i \<le> length s \<Longrightarrow> take i s = map gen [0..<i] \<Longrightarrow>
   generate_loop gen (length s) s i = Some (map gen [0..<length s])"
proof (induction "length s - i" arbitrary: s i)
  case 0
  have a: "generate_loop gen (length s) s i = Some s"
    using 0(1) by (simp add: generate_loop.simps [of gen "length s" s i])
  have "s = map gen [0..<length s]" using 0 by simp
  then show ?case unfolding a by (rule arg_cong)
next
  case (Suc n)
  have i: "i < length s" using Suc.hyps(2) by linarith
  let ?t = "s[i := gen i]"
  have "take (Suc i) ?t = map gen [0..<Suc i]" using i Suc.prems(2) by (simp add: take_update_eq)
  then have "generate_loop gen (length ?t) ?t (Suc i) = Some (map gen [0..<length ?t])"
    using Suc.hyps(2) i by (intro Suc.hyps(1)) simp_all
  then show ?case using i by (simp add: generate_loop.simps [of gen "length s" s i])
qed

section \<open>Reading while writing\<close>

text \<open>
  A reader gives the source's elements while the front of the destination, or its back, has been
  written and the rest has not.
\<close>

definition reads :: "('d, 'e) reader \<Rightarrow> 'd list \<Rightarrow> 'e list \<Rightarrow> bool" where
  "reads rd dst src \<longleftrightarrow> (\<forall>pre i. length pre \<le> i \<and> i < length src \<longrightarrow> rd (written dst pre) i = Some (src ! i))"

definition reads_back :: "('d, 'e) reader \<Rightarrow> 'd list \<Rightarrow> 'e list \<Rightarrow> bool" where
  "reads_back rd dst src \<longleftrightarrow> (\<forall>k i post. i < k \<and> k \<le> length src \<longrightarrow> rd (take k dst @ post) i = Some (src ! i))"

lemma reads_elsewhere [simp]: "reads (elsewhere src) dst src" "reads_back (elsewhere src) dst src"
  by (simp_all add: reads_def reads_back_def elsewhere_def)

lemma reads_in_place [simp]: "reads in_place src src" "reads_back in_place src src"
  by (simp_all add: reads_def reads_back_def in_place_def written_nth nth_append)

lemma readsD: "reads rd dst src \<Longrightarrow> length pre \<le> i \<Longrightarrow> i < length src \<Longrightarrow> rd (written dst pre) i = Some (src ! i)"
  by (simp add: reads_def)

lemma reads_backD:
  "reads_back rd dst src \<Longrightarrow> i < k \<Longrightarrow> k \<le> length src \<Longrightarrow> rd (take k dst @ post) i = Some (src ! i)"
  by (simp add: reads_back_def)

lemma transform_loop_eq:
  assumes "reads rd dst src" "length dst = length src" "i \<le> length src"
  shows "transform_loop f rd (length src) (written dst (map f (take i src))) i = Some (map f src)"
  using assms(3)
proof (induction "length src - i" arbitrary: i)
  case 0
  then show ?case using assms(2) by (simp add: transform_loop.simps written_def)
next
  case (Suc n)
  have i: "i < length src" using Suc.hyps(2) by linarith
  have "rd (written dst (map f (take i src))) i = Some (src ! i)"
    using i by (intro readsD [OF assms(1)]) simp_all
  moreover have "(written dst (map f (take i src)))[i := f (src ! i)] = written dst (map f (take (Suc i) src))"
    using written_update [of "map f (take i src)" dst "f (src ! i)"] i assms(2) by (simp add: take_Suc_conv_app_nth)
  moreover have "transform_loop f rd (length src) (written dst (map f (take (Suc i) src))) (Suc i) = Some (map f src)"
    using Suc.hyps(2) i by (intro Suc.hyps(1)) simp_all
  ultimately show ?case using i assms(2) by (simp add: transform_loop.simps [of f rd _ _ i])
qed

lemma transform_eq:
  "reads rd dst src \<Longrightarrow> length dst = length src \<Longrightarrow> tda_span_transform dst rd (length src) f = Some (map f src)"
  using transform_loop_eq [of rd dst src 0 f] by (simp add: tda_span_transform_def)

lemma zip_with_loop_eq:
  assumes "reads ra dst a" "reads rb dst b" "length dst = length a" "length a = length b" "i \<le> length a"
  shows "zip_with_loop f ra rb (length a) (written dst (take i (map2 f a b))) i = Some (map2 f a b)"
  using assms(5)
proof (induction "length a - i" arbitrary: i)
  case 0
  then show ?case using assms(3,4) by (simp add: zip_with_loop.simps written_def)
next
  case (Suc n)
  have i: "i < length a" using Suc.hyps(2) by linarith
  let ?w = "written dst (take i (map2 f a b))"
  have "ra ?w i = Some (a ! i)" "rb ?w i = Some (b ! i)"
    using i assms(4) by (intro readsD [OF assms(1)] readsD [OF assms(2)]; simp)+
  moreover have "?w[i := f (a ! i) (b ! i)] = written dst (take (Suc i) (map2 f a b))"
    using written_update [of "take i (map2 f a b)" dst "f (a ! i) (b ! i)"] i assms(3,4)
    by (simp add: take_Suc_conv_app_nth)
  moreover have "zip_with_loop f ra rb (length a) (written dst (take (Suc i) (map2 f a b))) (Suc i) = Some (map2 f a b)"
    using Suc.hyps(2) i by (intro Suc.hyps(1)) simp_all
  ultimately show ?case using i assms(3,4) by (simp add: zip_with_loop.simps [of f ra rb _ _ i])
qed

lemma zip_with_eq:
  "reads ra dst a \<Longrightarrow> reads rb dst b \<Longrightarrow> length dst = length a \<Longrightarrow> length a = length b \<Longrightarrow>
   tda_span_zip_with dst ra (length a) rb (length b) f = Some (map2 f a b)"
  using zip_with_loop_eq [of ra dst a rb b 0 f] by (simp add: tda_span_zip_with_def)

section \<open>Folding\<close>

lemma fold_loop_eq: "i \<le> length s \<Longrightarrow> fold_loop f s acc i = Some (foldl f acc (drop i s))"
proof (induction "length s - i" arbitrary: i acc)
  case 0
  then show ?case by (simp add: fold_loop.simps)
next
  case (Suc n)
  have i: "i < length s" using Suc.hyps(2) by linarith
  have "fold_loop f s (f acc (s ! i)) (Suc i) = Some (foldl f (f acc (s ! i)) (drop (Suc i) s))"
    using Suc.hyps(2) i by (intro Suc.hyps(1)) simp_all
  then show ?case using i by (simp add: fold_loop.simps [of f s acc i] Cons_nth_drop_Suc [symmetric])
qed

lemma fold_back_loop_eq:
  "i \<le> length s \<Longrightarrow> fold_back_loop f s acc i = Some (foldr (\<lambda>e a. f a e) (take i s) acc)"
  by (induction i arbitrary: acc) (simp_all add: take_Suc_conv_app_nth)

definition sums :: "('a \<Rightarrow> 'a \<Rightarrow> 'a) \<Rightarrow> 'a list \<Rightarrow> 'a list" where
  "sums f src = map (\<lambda>i. foldl f (src ! 0) (take i (tl src))) [0..<length src]"

lemma sums_nth: "i < length src \<Longrightarrow> sums f src ! i = foldl f (src ! 0) (take i (tl src))"
  by (simp add: sums_def)

lemma sums_Suc:
  assumes "Suc i < length src"
  shows "sums f src ! Suc i = f (sums f src ! i) (src ! Suc i)"
proof -
  have "i < length (tl src)" using assms by simp
  then show ?thesis using assms by (simp add: sums_nth take_Suc_conv_app_nth nth_tl)
qed

lemma partial_sum_loop_eq:
  assumes "reads rd dst src" "length dst = length src" "0 < i" "i \<le> length src"
  shows "partial_sum_loop f rd (length src) (written dst (take i (sums f src))) i = Some (sums f src)"
  using assms(3,4)
proof (induction "length src - i" arbitrary: i)
  case 0
  then show ?case using assms(2) by (simp add: partial_sum_loop.simps written_def sums_def)
next
  case (Suc n)
  have i: "i < length src" using Suc.hyps(2) by linarith
  let ?S = "sums f src" let ?w = "written dst (take i ?S)"
  have S: "length ?S = length src" by (simp add: sums_def)
  have 1: "rd ?w i = Some (src ! i)" using i S by (intro readsD [OF assms(1)]) simp_all
  have 2: "?w ! (i - 1) = ?S ! (i - 1)" "length ?w = length src"
    using i S Suc.prems(1) assms(2) by (simp_all add: written_def nth_append)
  have 3: "f (?S ! (i - 1)) (src ! i) = ?S ! i" using sums_Suc [of "i - 1" src f] Suc.prems(1) i by simp
  have 4: "?w[i := ?S ! i] = written dst (take (Suc i) ?S)"
    using written_update [of "take i ?S" dst "?S ! i"] i S assms(2) by (simp add: take_Suc_conv_app_nth)
  have "partial_sum_loop f rd (length src) (written dst (take (Suc i) ?S)) (Suc i) = Some ?S"
    using Suc.hyps(2) i by (intro Suc.hyps(1)) simp_all
  then show ?case
    using i 1 2 3 4 Suc.prems(1) by (simp add: partial_sum_loop.simps [of f rd _ ?w i])
qed

lemma partial_sum_eq:
  assumes "reads rd dst src" "length dst = length src"
  shows "tda_span_partial_sum dst rd (length src) f = Some (sums f src)"
proof (cases src)
  case Nil
  then show ?thesis using assms by (simp add: tda_span_partial_sum_def sums_def)
next
  case (Cons x xs)
  have r: "rd dst 0 = Some (src ! 0)" using readsD [OF assms(1), of "[]" 0] Cons by simp
  have w: "dst[0 := src ! 0] = written dst (take 1 (sums f src))"
    using written_update [of "[]" dst "src ! 0"] assms(2) Cons by (simp add: sums_def upt_conv_Cons del: upt_Suc)
  have "dst \<noteq> []" using assms(2) Cons by auto
  then show ?thesis
    using partial_sum_loop_eq [OF assms, of 1 f] r w assms(2) Cons by (simp add: tda_span_partial_sum_def)
qed

definition differences :: "('a \<Rightarrow> 'a \<Rightarrow> 'a) \<Rightarrow> 'a list \<Rightarrow> 'a list" where
  "differences f src = (case src of [] \<Rightarrow> [] | x # xs \<Rightarrow> x # map2 f xs src)"

lemma differences_Suc: "Suc i < length src \<Longrightarrow> differences f src ! Suc i = f (src ! Suc i) (src ! i)"
  by (cases src) (simp_all add: differences_def)

lemma length_differences [simp]: "length (differences f src) = length src"
  by (cases src) (simp_all add: differences_def)

lemma difference_back_loop_eq:
  assumes "reads_back rd dst src" "length dst = length src" "i < length src"
  shows "difference_back_loop f rd (take (Suc i) dst @ drop (Suc i) (differences f src)) i =
    Some (take 1 dst @ drop 1 (differences f src))"
  using assms(3)
proof (induction i)
  case (Suc i)
  let ?D = "differences f src" let ?w = "take (Suc (Suc i)) dst @ drop (Suc (Suc i)) ?D"
  have 1: "rd ?w (Suc i) = Some (src ! Suc i)" "rd ?w i = Some (src ! i)"
    using Suc.prems by (intro reads_backD [OF assms(1)]; simp)+
  have "Suc i < length dst" "Suc i < length ?D" using Suc.prems assms(2) by simp_all
  then have 2: "?w[Suc i := ?D ! Suc i] = take (Suc i) dst @ drop (Suc i) ?D"
    by (simp add: list_update_append take_Suc_conv_app_nth Cons_nth_drop_Suc)
  show ?case using 1 2 Suc assms(2) by (simp add: differences_Suc)
qed simp

lemma adjacent_difference_eq:
  assumes "reads_back rd dst src" "length dst = length src"
  shows "tda_span_adjacent_difference dst rd (length src) f = Some (differences f src)"
proof (cases src)
  case Nil
  then show ?thesis using assms by (simp add: tda_span_adjacent_difference_def differences_def)
next
  case (Cons x xs)
  let ?D = "differences f src" let ?w = "take 1 dst @ drop 1 ?D"
  have "rd ?w 0 = Some (src ! 0)" using Cons by (intro reads_backD [OF assms(1)]) simp_all
  moreover have "difference_back_loop f rd dst (length src - 1) = Some ?w"
    using difference_back_loop_eq [OF assms, of "length src - 1" f] Cons assms(2) by simp
  moreover have "?w[0 := src ! 0] = ?D" "0 < length ?w"
    using assms(2) Cons by (cases dst; simp add: differences_def)+
  ultimately show ?thesis using assms(2) Cons by (simp add: tda_span_adjacent_difference_def)
qed

section \<open>Comparing\<close>

lemma eq_by_loop_eq:
  "length a = length b \<Longrightarrow> i \<le> length a \<Longrightarrow> eq_by_loop eq a b i = Some (list_all2 eq (drop i a) (drop i b))"
proof (induction "length a - i" arbitrary: i)
  case 0
  then show ?case by (simp add: eq_by_loop.simps)
next
  case (Suc n)
  have i: "i < length a" using Suc.hyps(2) by linarith
  have "eq_by_loop eq a b (Suc i) = Some (list_all2 eq (drop (Suc i) a) (drop (Suc i) b))"
    using Suc.hyps(2) i Suc.prems(1) by (intro Suc.hyps(1)) simp_all
  then show ?case
    using i Suc.prems(1) by (simp add: eq_by_loop.simps [of eq a b i] Cons_nth_drop_Suc [symmetric])
qed

lemma mismatch_loop_spec:
  assumes "n \<le> length a" "n \<le> length b" "i \<le> n" "\<forall>j < i. eq (a ! j) (b ! j)"
  shows "\<exists>r. mismatch_loop eq a b n i = Some r \<and> is_first (\<lambda>j. \<not> eq (a ! j) (b ! j)) n r"
  using assms(3,4)
proof (induction "n - i" arbitrary: i)
  case 0
  have "mismatch_loop eq a b i i = Some None" by (simp add: mismatch_loop.simps [of eq a b i i])
  moreover have "n = i" using 0 by simp
  ultimately show ?case using 0 by (auto simp: is_first_def)
next
  case (Suc k)
  have i: "i < n" using Suc.hyps(2) by linarith
  show ?case
  proof (cases "eq (a ! i) (b ! i)")
    case True
    have "\<forall>j < Suc i. eq (a ! j) (b ! j)" using Suc.prems True by (auto simp: less_Suc_eq)
    then have "\<exists>r. mismatch_loop eq a b n (Suc i) = Some r \<and> is_first (\<lambda>j. \<not> eq (a ! j) (b ! j)) n r"
      using Suc.hyps(2) i by (intro Suc.hyps(1)) simp_all
    then show ?thesis using i True assms by (simp add: mismatch_loop.simps [of eq a b n i])
  next
    case False
    then show ?thesis using i assms Suc.prems by (auto simp: mismatch_loop.simps [of eq a b n i] is_first_def)
  qed
qed

text \<open>How many elements of \<open>s\<close> are equal to \<open>x\<close>.\<close>

abbreviation occurrences :: "('a \<Rightarrow> 'a \<Rightarrow> bool) \<Rightarrow> 'a \<Rightarrow> 'a list \<Rightarrow> nat" where
  "occurrences eq x s \<equiv> length (filter (\<lambda>e. eq e x) s)"

lemma span_count_eq: "tda_span_count s x eq = Some (occurrences eq x s)"
  by (simp add: tda_span_count_def count_loop_eq)

lemma permutation_classes:
  assumes eq: "equivp eq" and len: "length a = length b"
    and cnt: "\<forall>x \<in> set a. occurrences eq x a = occurrences eq x b"
  shows "occurrences eq y a = occurrences eq y b"
  using len cnt
proof (induction "length a" arbitrary: a b rule: less_induct)
  case less
  show ?case
  proof (cases a)
    case Nil
    then show ?thesis using less.prems(1) by simp
  next
    case (Cons h t)
    have hh: "occurrences eq h a = occurrences eq h b" using less.prems(2) Cons by simp
    let ?a = "filter (\<lambda>e. \<not> eq e h) a" and ?b = "filter (\<lambda>e. \<not> eq e h) b"
    have la: "length ?a = length ?b"
      using hh less.prems(1) sum_length_filter_compl [of "\<lambda>e. eq e h" a] sum_length_filter_compl [of "\<lambda>e. eq e h" b]
      by linarith
    have same: "occurrences eq x (filter (\<lambda>e. \<not> eq e h) s) = occurrences eq x s" if "\<not> eq x h" for x s
    proof -
      have "eq e x \<and> \<not> eq e h \<longleftrightarrow> eq e x" for e using that(1) equivp_transp [OF eq] equivp_symp [OF eq] by blast
      then show ?thesis unfolding filter_filter by (simp add: conj_commute)
    qed
    have "\<forall>x \<in> set ?a. occurrences eq x ?a = occurrences eq x ?b" using less.prems(2) same by auto
    moreover have "length ?a < length a"
      using Cons equivp_reflp [OF eq, of h] by (simp add: le_imp_less_Suc)
    ultimately have IH: "occurrences eq y ?a = occurrences eq y ?b" using less.hyps la by blast
    show ?thesis
    proof (cases "eq y h")
      case True
      then have "eq e y \<longleftrightarrow> eq e h" for e using equivp_transp [OF eq] equivp_symp [OF eq] by blast
      then show ?thesis using hh by simp
    next
      case False
      then show ?thesis using IH same by simp
    qed
  qed
qed

lemma span_contains_eq: "tda_span_contains s key eq = Some (\<exists>x \<in> set s. eq x key)"
proof -
  obtain r where r: "tda_span_find s key eq = Some r" "is_first (\<lambda>i. eq (s ! i) key) (length s) r"
    using find_loop_spec [of 0 s "\<lambda>e. eq e key"] by (auto simp: tda_span_find_def)
  have "(r \<noteq> None) \<longleftrightarrow> (\<exists>x \<in> set s. eq x key)"
    using r(2) nth_mem [of _ s] by (cases r) (fastforce simp: is_first_def in_set_conv_nth)+
  then show ?thesis using r(1) by (simp add: tda_span_contains_def)
qed

lemma occurrences_cong:
  assumes "equivp eq" "eq x y"
  shows "occurrences eq x s = occurrences eq y s"
proof -
  have "eq e x \<longleftrightarrow> eq e y" for e using assms equivp_transp equivp_symp by metis
  then show ?thesis by simp
qed

lemma is_permutation_loop_eq:
  assumes eq: "equivp eq" and "i \<le> length a" "\<forall>j < i. occurrences eq (a ! j) a = occurrences eq (a ! j) b"
  shows "is_permutation_loop eq a b i = Some (\<forall>x \<in> set a. occurrences eq x a = occurrences eq x b)"
  using assms(2,3)
proof (induction "length a - i" arbitrary: i)
  case 0
  then have "\<forall>x \<in> set a. occurrences eq x a = occurrences eq x b" by (auto simp: in_set_conv_nth)
  then show ?case using 0(1) by (simp add: is_permutation_loop.simps [of eq a b i])
next
  case (Suc n)
  have i: "i < length a" using Suc.hyps(2) by linarith
  let ?e = "a ! i" let ?ok = "occurrences eq ?e a = occurrences eq ?e b"
  note eqn = is_permutation_loop.simps [of eq a b i]
  have next_ok: "is_permutation_loop eq a b (i + 1) = Some (\<forall>x \<in> set a. occurrences eq x a = occurrences eq x b)"
    if ?ok
  proof -
    have "\<forall>j < i + 1. occurrences eq (a ! j) a = occurrences eq (a ! j) b"
      using Suc.prems(2) that less_Suc_eq by auto
    then show ?thesis using Suc.hyps(2) i by (intro Suc.hyps(1)) simp_all
  qed
  show ?case
  proof (cases "\<exists>x \<in> set (take i a). eq x ?e")
    case True
    then obtain j where j: "j < i" "eq (a ! j) ?e" using i by (auto simp: in_set_conv_nth)
    have ?ok using occurrences_cong [OF eq j(2)] Suc.prems(2) j(1) by auto
    moreover have "is_permutation_loop eq a b i = is_permutation_loop eq a b (i + 1)"
      using i True by (simp add: eqn span_contains_eq)
    ultimately show ?thesis using next_ok by simp
  next
    case False
    then have none: "filter (\<lambda>e. eq e ?e) (take i a) = []" by (simp add: filter_empty_conv)
    have "occurrences eq ?e (take i a @ drop i a) = occurrences eq ?e (drop i a)"
      unfolding filter_append none by simp
    then have dr: "occurrences eq ?e (drop i a) = occurrences eq ?e a" by simp
    have pos: "occurrences eq ?e a \<noteq> 0"
      using i equivp_reflp [OF eq, of ?e] nth_mem [OF i] by (auto simp: filter_empty_conv)
    have step: "is_permutation_loop eq a b i =
      (if ?ok then is_permutation_loop eq a b (i + 1) else Some False)"
      using i False pos dr by (auto simp: eqn span_contains_eq span_count_eq)
    show ?thesis
    proof (cases ?ok)
      case True
      then show ?thesis using step next_ok by simp
    next
      case bad: False
      then have "\<not> (\<forall>x \<in> set a. occurrences eq x a = occurrences eq x b)" using nth_mem [OF i] by blast
      then show ?thesis using step bad by simp
    qed
  qed
qed

lemma occurrences_prefix:
  assumes "equivp eq" "k \<le> length a" "length a = length b" "\<forall>j < k. eq (a ! j) (b ! j)"
  shows "occurrences eq x (take k a) = occurrences eq x (take k b)"
  using assms(2-4)
proof (induction k)
  case (Suc k)
  have "eq (a ! k) (b ! k)" using Suc.prems by simp
  then have "eq (a ! k) x \<longleftrightarrow> eq (b ! k) x" using assms(1) equivp_transp equivp_symp by metis
  then show ?case using Suc by (simp add: take_Suc_conv_app_nth)
qed simp

lemma is_permutation_eq:
  assumes eq: "equivp eq" and same: "same \<longrightarrow> take (length b) a = take (length a) b"
  shows "tda_span_is_permutation same eq a b =
    Some (length a = length b \<and> (\<forall>x. occurrences eq x a = occurrences eq x b))"
proof (cases "length a = length b")
  case False
  then show ?thesis by (simp add: tda_span_is_permutation_def)
next
  case len: True
  obtain r where r: "tda_span_mismatch same eq a b = Some r" "is_first (\<lambda>j. \<not> eq (a ! j) (b ! j)) (length a) r"
  proof (cases same)
    case True
    then have "is_first (\<lambda>j. \<not> eq (a ! j) (b ! j)) (length a) None"
      using same len equivp_reflp [OF eq] by (simp add: is_first_def)
    then show ?thesis using that True len by (simp add: tda_span_mismatch_def)
  next
    case False
    then show ?thesis
      using mismatch_loop_spec [of "length a" a b 0 eq] len that by (auto simp: tda_span_mismatch_def)
  qed
  show ?thesis
  proof (cases r)
    case None
    then have "\<forall>j < length a. eq (a ! j) (b ! j)" using r(2) by (simp add: is_first_def)
    then have "occurrences eq x a = occurrences eq x b" for x
      using occurrences_prefix [OF eq order_refl len, of x] len by simp
    then show ?thesis using r(1) None len by (simp add: tda_span_is_permutation_def)
  next
    case (Some k)
    then have k: "k < length a" "\<forall>j < k. eq (a ! j) (b ! j)" using r(2) by (auto simp: is_first_def)
    let ?ra = "drop k a" and ?rb = "drop k b"
    have split: "occurrences eq x s = occurrences eq x (take k s) + occurrences eq x (drop k s)" for x s
    proof -
      have "occurrences eq x (take k s @ drop k s) = occurrences eq x (take k s) + occurrences eq x (drop k s)"
        by (simp only: filter_append length_append)
      then show ?thesis by simp
    qed
    have pre: "occurrences eq x (take k a) = occurrences eq x (take k b)" for x
      using occurrences_prefix [OF eq _ len k(2)] k(1) by simp
    have rest: "occurrences eq x a = occurrences eq x b \<longleftrightarrow> occurrences eq x ?ra = occurrences eq x ?rb" for x
      unfolding split [of x a] split [of x b] pre by simp
    have "tda_span_is_permutation same eq a b = is_permutation_loop eq ?ra ?rb 0"
      using r(1) Some len k(1) by (simp add: tda_span_is_permutation_def)
    also have "\<dots> = Some (\<forall>x \<in> set ?ra. occurrences eq x ?ra = occurrences eq x ?rb)"
      by (rule is_permutation_loop_eq [OF eq]) simp_all
    also have "(\<forall>x \<in> set ?ra. occurrences eq x ?ra = occurrences eq x ?rb) \<longleftrightarrow>
        (\<forall>x. occurrences eq x ?ra = occurrences eq x ?rb)"
      using permutation_classes [OF eq, of ?ra ?rb] len by auto
    finally show ?thesis using len rest by simp
  qed
qed

section \<open>The lexicographic order\<close>

fun lexcmp :: "('a \<Rightarrow> 'a \<Rightarrow> int) \<Rightarrow> 'a list \<Rightarrow> 'a list \<Rightarrow> int" where
  "lexcmp cmp [] [] = 0"
| "lexcmp cmp [] (y # ys) = - 1"
| "lexcmp cmp (x # xs) [] = 1"
| "lexcmp cmp (x # xs) (y # ys) =
     (if cmp x y < 0 then - 1 else if cmp x y > 0 then 1 else lexcmp cmp xs ys)"

lemma lexcmp_rest:
  "lexcmp cmp a b = of_bool (length a > length b) - of_bool (length a < length b)" if "a = [] \<or> b = []"
  using that by (cases a; cases b) auto

lemma span_cmp_loop_eq:
  "n = (if length a < length b then length a else length b) \<Longrightarrow> i \<le> n \<Longrightarrow>
   span_cmp_loop cmp a b n i = Some (lexcmp cmp (drop i a) (drop i b))"
proof (induction "n - i" arbitrary: i)
  case 0
  then have i: "i = n" by simp
  have "drop i a = [] \<or> drop i b = []" using 0(2) i by (auto split: if_splits)
  then have "lexcmp cmp (drop i a) (drop i b) =
      of_bool (length (drop i a) > length (drop i b)) - of_bool (length (drop i a) < length (drop i b))"
    by (rule lexcmp_rest)
  also have "\<dots> = of_bool (length a > length b) - of_bool (length a < length b)"
    using 0(2) i by (auto split: if_splits)
  finally show ?case by (simp add: i span_cmp_loop.simps [of cmp a b n n])
next
  case (Suc k)
  have i: "i < length a" "i < length b" "i < n" using Suc.hyps(2) Suc.prems(1) by (auto split: if_splits)
  have "span_cmp_loop cmp a b n (Suc i) = Some (lexcmp cmp (drop (Suc i) a) (drop (Suc i) b))"
    using Suc.hyps(2) i Suc.prems(1) by (intro Suc.hyps(1)) auto
  then show ?case
    using i by (auto simp: span_cmp_loop.simps [of cmp a b n i] Let_def Cons_nth_drop_Suc [symmetric])
qed

lemma span_cmp_eq: "tda_span_cmp False cmp a b = Some (lexcmp cmp a b)"
  using span_cmp_loop_eq [of _ a b 0 cmp] by (simp add: tda_span_cmp_def)

context total_cmp begin

lemma lexcmp_swap: "lexcmp cmp a b = - lexcmp cmp b a"
proof (induction c \<equiv> cmp a b rule: lexcmp.induct)
  case (4 x xs y ys)
  then show ?case using cmp_less_iff [of x y] cmp_less_iff [of y x] by auto
qed simp_all

lemma lexcmp_trans: "lexcmp cmp a b \<le> 0 \<Longrightarrow> lexcmp cmp b c \<le> 0 \<Longrightarrow> lexcmp cmp a c \<le> 0"
proof (induction a arbitrary: b c)
  case Nil
  then show ?case by (cases c) auto
next
  case (Cons x a)
  obtain y b' where b: "b = y # b'" using Cons.prems(1) by (cases b) auto
  obtain z c' where c: "c = z # c'" using Cons.prems(2) unfolding b by (cases c) auto
  have xy: "cmp x y \<le> 0" "cmp x y = 0 \<Longrightarrow> lexcmp cmp a b' \<le> 0"
    using Cons.prems(1) unfolding b by (auto split: if_splits)
  have yz: "cmp y z \<le> 0" "cmp y z = 0 \<Longrightarrow> lexcmp cmp b' c' \<le> 0"
    using Cons.prems(2) unfolding b c by (auto split: if_splits)
  have xz: "cmp x z \<le> 0" using xy(1) yz(1) by (rule cmp_le_trans)
  have "lexcmp cmp a c' \<le> 0" if "cmp x z = 0"
  proof -
    have "cmp x y = 0" "cmp y z = 0"
      using that xy(1) yz(1) le_less_trans [of x y z] less_le_trans [of x y z] by fastforce+
    then show ?thesis using Cons.IH xy(2) yz(2) by blast
  qed
  then show ?case using xz by (auto simp: c)
qed

lemma total_lexcmp: "total_cmp (lexcmp cmp)"
proof
  show "sgn (lexcmp cmp a b) = - sgn (lexcmp cmp b a)" for a b
    using lexcmp_swap [of a b] by (simp add: sgn_if)
qed (rule lexcmp_trans)

lemma lexcmp_refl: "lexcmp cmp a a = 0"
  by (induction a) simp_all

end

lemma bulk_writes:
  fixes dst :: "'d list" and src :: "'e list" and old :: "'e list"
  assumes "length dst = length src" "length old = length src"
  shows "tda_span_fill dst v = Some (replicate (length dst) v) \<and>
    tda_span_generate dst gen = Some (map gen [0..<length dst]) \<and>
    tda_span_transform dst (elsewhere src) (length src) f = Some (map f src) \<and>
    tda_span_transform src in_place (length src) g = Some (map g src) \<and>
    tda_span_partial_sum old (elsewhere src) (length src) h = Some (sums h src) \<and>
    tda_span_partial_sum src in_place (length src) h = Some (sums h src) \<and>
    tda_span_adjacent_difference old (elsewhere src) (length src) h = Some (differences h src) \<and>
    tda_span_adjacent_difference src in_place (length src) h = Some (differences h src)"
  using assms fill_eq [of dst v] generate_loop_eq [of 0 dst gen] transform_eq [of "elsewhere src" dst src f]
    transform_eq [of in_place src src g] partial_sum_eq [of "elsewhere src" old src h] partial_sum_eq [of in_place src src h]
    adjacent_difference_eq [of "elsewhere src" old src h] adjacent_difference_eq [of in_place src src h]
  by (simp add: tda_span_generate_def)

lemma folds_and_zips:
  fixes a :: "'e list" and b :: "'f list" and dst :: "'d list"
  shows "tda_span_fold a acc f = Some (foldl f acc a) \<and>
    tda_span_fold_back a acc f = Some (foldr (\<lambda>e x. f x e) a acc) \<and>
    tda_span_zip_with dst (elsewhere a) (length a) (elsewhere b) (length b) g =
      (if length dst = length a \<and> length a = length b then Some (map2 g a b) else None)"
  using fold_loop_eq [of 0 a f acc] fold_back_loop_eq [of "length a" a f acc]
    zip_with_eq [of "elsewhere a" dst a "elsewhere b" b g]
  by (cases "length dst = length a"; cases "length a = length b")
    (simp_all add: tda_span_fold_def tda_span_fold_back_def tda_span_zip_with_def)

lemma comparisons:
  assumes "equivp eq" "total_cmp cmp" "same \<longrightarrow> (a :: 'a list) = b"
  shows "tda_span_eq_by same eq a b = Some (list_all2 eq a b) \<and>
    tda_span_is_permutation same eq a b =
      Some (length a = length b \<and> (\<forall>x. occurrences eq x a = occurrences eq x b)) \<and>
    tda_span_cmp same cmp a b = Some (lexcmp cmp a b) \<and> total_cmp (lexcmp cmp)"
proof (intro conjI)
  have "list_all2 eq a a" by (rule list_all2_refl) (rule equivp_reflp [OF assms(1)])
  then show "tda_span_eq_by same eq a b = Some (list_all2 eq a b)"
  proof (cases "same \<or> length a \<noteq> length b")
    case True
    then show ?thesis
      using assms(3) \<open>list_all2 eq a a\<close> by (auto simp: tda_span_eq_by_def dest: list_all2_lengthD)
  next
    case False
    then show ?thesis
      using eq_by_loop_eq [of a b 0 eq] by (cases a; cases b) (simp_all add: tda_span_eq_by_def)
  qed
  show "tda_span_is_permutation same eq a b =
      Some (length a = length b \<and> (\<forall>x. occurrences eq x a = occurrences eq x b))"
    using assms(3) by (intro is_permutation_eq [OF assms(1)]) simp
  show "tda_span_cmp same cmp a b = Some (lexcmp cmp a b)"
    using assms(3) total_cmp.lexcmp_refl [OF assms(2)] span_cmp_eq [of cmp a b]
    by (cases same) (simp_all add: tda_span_cmp_def)
  show "total_cmp (lexcmp cmp)" by (rule total_cmp.total_lexcmp [OF assms(2)])
qed

end
