(* ===== verification/Vec.thy ===== *)
theory Vec
  imports Holder Bulk
begin

text \<open>
  \<open>ds/vec.h\<close> and \<open>ds/vec.c\<close>: the growable array. The block is its list of slots, empty when the
  pointer is null; the allocator is the account of \<open>Account\<close>. An operation that can fail answers
  its status beside the vec and the account, which are those before the call when it has changed
  nothing.

  A span argument is the cells it views, apart from the block of the vec (the calls refuse another
  with \<open>TDA_EXPECT\<close>), and its element layout. A pointer to one value is \<open>Apart\<close> from the block, with
  the cell it points at, or \<open>Within\<close> it, at a byte offset.
\<close>

record 'e vec =
  vdata :: "'e slots"
  vlen :: nat
  vcap :: nat
  velem :: layout
  valloc :: al

definition VEC_GROWTH_BASE :: nat where "VEC_GROWTH_BASE = 1"
definition VEC_GROWTH_FACTOR :: nat where "VEC_GROWTH_FACTOR = 2"

definition ASSERT_VEC :: "'e vec \<Rightarrow> unit option" where
  "ASSERT_VEC v = do {
     chk (tda_layout_is_type (velem v));
     chk (vlen v \<le> vcap v);
     chk (vcap v = 0 \<or> vdata v \<noteq> []);
     chk (vdata v = [] \<or> vcap v > 0);
     chk (valloc v \<noteq> 0)
   }"

definition EXPECT_SAME_VEC :: "'e vec \<Rightarrow> 'f vec \<Rightarrow> unit option" where
  "EXPECT_SAME_VEC a b = chk (tda_layout_eq (velem a) (velem b))"

text \<open>The inert vec, \<open>(tda_Vec){}\<close>.\<close>

definition vec_null :: "'e vec" where
  "vec_null = \<lparr>vdata = [], vlen = 0, vcap = 0, velem = \<lparr>lsize = 0, lalign = 0\<rparr>, valloc = 0\<rparr>"

section \<open>Internals\<close>

definition vec_block_layout :: "'e vec \<Rightarrow> layout option" where
  "vec_block_layout v = tda_elems_layout (velem v) (vcap v)"

definition vec_elem_at :: "'e vec \<Rightarrow> nat \<Rightarrow> 'e option option" where
  "vec_elem_at v idx = slot_get (vdata v) idx"

text \<open>\<open>NOT_IN_BLOCK\<close> is the inner \<^term>\<open>None\<close>.\<close>

definition vec_alias_idx :: "'e vec \<Rightarrow> 'e arg \<Rightarrow> nat option option" where
  "vec_alias_idx v val = do {
     block \<leftarrow> vec_block_layout v;
     case val of
       Apart x \<Rightarrow> Some None
     | Within off \<Rightarrow>
         if \<not> (vdata v \<noteq> [] \<and> off < lsize block) then Some None
         else do {
           chk (off mod lsize (velem v) = 0);
           chk (off div lsize (velem v) < vlen v);
           Some (Some (off div lsize (velem v)))
         }
   }"

definition vec_next_cap :: "'e vec \<Rightarrow> nat" where
  "vec_next_cap v =
     (if vcap v = 0 then VEC_GROWTH_BASE
      else case ckd_mul (vcap v) VEC_GROWTH_FACTOR of None \<Rightarrow> SIZE_MAX | Some grown \<Rightarrow> grown)"

definition vec_set_cap :: "'e vec \<Rightarrow> nat \<Rightarrow> heap \<Rightarrow> (tda_status \<times> 'e vec \<times> heap) option" where
  "vec_set_cap v new_cap h = do {
     chk (new_cap \<ge> vlen v);
     chk (new_cap > 0);
     r \<leftarrow> tda_layout_ckd_array (velem v) new_cap;
     case r of
       None \<Rightarrow> Some (TDA_STATUS_ERR_NO_MEM, v, h)
     | Some block \<Rightarrow> do {
         old \<leftarrow> vec_block_layout v;
         (ptr, h) \<leftarrow> al_realloc (valloc v) (vdata v \<noteq> []) old (lsize block) h;
         if \<not> ptr then Some (TDA_STATUS_ERR_NO_MEM, v, h)
         else Some (TDA_STATUS_OK, v\<lparr>vdata := slots_resize (vdata v) new_cap, vcap := new_cap\<rparr>, h)
       }
   }"

definition vec_reserve_for :: "'e vec \<Rightarrow> nat \<Rightarrow> heap \<Rightarrow> (tda_status \<times> 'e vec \<times> heap) option" where
  "vec_reserve_for v new_len h =
     (if new_len \<le> vcap v then Some (TDA_STATUS_OK, v, h)
      else let eager = vec_next_cap v in
        if eager > new_len then do {
          (st, v', h) \<leftarrow> vec_set_cap v eager h;
          if status_is_ok st then Some (st, v', h) else vec_set_cap v' new_len h
        }
        else vec_set_cap v new_len h)"

definition vec_reserve_one :: "'e vec \<Rightarrow> heap \<Rightarrow> (tda_status \<times> 'e vec \<times> heap) option" where
  "vec_reserve_one v h =
     (if vlen v < vcap v then Some (TDA_STATUS_OK, v, h)
      else if vcap v = SIZE_MAX then Some (TDA_STATUS_ERR_NO_MEM, v, h)
      else vec_reserve_for v (vcap v + 1) h)"

definition vec_open_gap :: "'e vec \<Rightarrow> nat \<Rightarrow> nat \<Rightarrow> heap \<Rightarrow> (tda_status \<times> 'e vec \<times> heap) option" where
  "vec_open_gap v idx cnt h = do {
     chk (idx \<le> vlen v);
     case ckd_add (vlen v) cnt of
       None \<Rightarrow> Some (TDA_STATUS_ERR_NO_MEM, v, h)
     | Some new_len \<Rightarrow> do {
         (st, v, h) \<leftarrow> vec_reserve_for v new_len h;
         if status_is_err st then Some (st, v, h)
         else do {
           let tail = vlen v - idx;
           d \<leftarrow> if tail > 0 then slots_move (vdata v) (idx + cnt) idx tail else Some (vdata v);
           Some (TDA_STATUS_OK, v\<lparr>vdata := d, vlen := new_len\<rparr>, h)
         }
       }
   }"

definition vec_insert_raw :: "'e vec \<Rightarrow> nat \<Rightarrow> 'e slots \<Rightarrow> heap \<Rightarrow> (tda_status \<times> 'e vec \<times> heap) option" where
  "vec_insert_raw v idx src h =
     (if length src = 0 then Some (TDA_STATUS_OK, v, h)
      else do {
        (st, v, h) \<leftarrow> vec_open_gap v idx (length src) h;
        if status_is_err st then Some (st, v, h)
        else do {
          d \<leftarrow> slots_put (vdata v) idx src;
          let v = v\<lparr>vdata := d\<rparr>;
          ASSERT_VEC v;
          Some (TDA_STATUS_OK, v, h)
        }
      })"

definition vec_release_data :: "'e vec \<Rightarrow> heap \<Rightarrow> ('e vec \<times> heap) option" where
  "vec_release_data v h = do {
     block \<leftarrow> vec_block_layout v;
     h \<leftarrow> al_dealloc (valloc v) (vdata v \<noteq> []) block h;
     Some (v\<lparr>vdata := [], vlen := 0, vcap := 0\<rparr>, h)
   }"

section \<open>Lifetime\<close>

definition tda_vec_init :: "layout \<Rightarrow> al \<Rightarrow> 'e vec option" where
  "tda_vec_init elem al = do {
     chk (tda_layout_is_type elem);
     chk (al \<noteq> 0);
     Some \<lparr>vdata = [], vlen = 0, vcap = 0, velem = elem, valloc = al\<rparr>
   }"

text \<open>\<open>cell\<close> is what a new slot holds: zero bytes are the element \<open>zero\<close> of its type.\<close>

definition vec_init_impl ::
  "'e option \<Rightarrow> nat \<Rightarrow> nat \<Rightarrow> layout \<Rightarrow> al \<Rightarrow> heap \<Rightarrow> ((tda_status + 'e vec) \<times> heap) option" where
  "vec_init_impl cell len cap elem al h = do {
     chk (len \<le> cap);
     obj \<leftarrow> tda_vec_init elem al;
     if cap > 0 then do {
       r \<leftarrow> tda_layout_ckd_array elem cap;
       case r of
         None \<Rightarrow> Some (Inl TDA_STATUS_ERR_NO_MEM, h)
       | Some block \<Rightarrow> do {
           (ptr, h) \<leftarrow> al_alloc al block h;
           if \<not> ptr then Some (Inl TDA_STATUS_ERR_NO_MEM, h)
           else do {
             let obj = obj\<lparr>vdata := replicate cap cell, vlen := len, vcap := cap\<rparr>;
             ASSERT_VEC obj;
             Some (Inr obj, h)
           }
         }
     }
     else do {
       let obj = obj\<lparr>vlen := len, vcap := cap\<rparr>;
       ASSERT_VEC obj;
       Some (Inr obj, h)
     }
   }"

definition tda_vec_init_len :: "'e \<Rightarrow> nat \<Rightarrow> layout \<Rightarrow> al \<Rightarrow> heap \<Rightarrow> ((tda_status + 'e vec) \<times> heap) option" where
  "tda_vec_init_len zero len elem al h = do {
     chk (tda_layout_is_type elem);
     chk (al \<noteq> 0);
     vec_init_impl (Some zero) len len elem al h
   }"

definition tda_vec_init_cap :: "nat \<Rightarrow> layout \<Rightarrow> al \<Rightarrow> heap \<Rightarrow> ((tda_status + 'e vec) \<times> heap) option" where
  "tda_vec_init_cap cap elem al h = do {
     chk (tda_layout_is_type elem);
     chk (al \<noteq> 0);
     vec_init_impl None 0 cap elem al h
   }"

definition tda_vec_from_data :: "'e slots \<Rightarrow> layout \<Rightarrow> al \<Rightarrow> heap \<Rightarrow> ((tda_status + 'e vec) \<times> heap) option" where
  "tda_vec_from_data data elem al h = do {
     chk (tda_layout_is_type elem);
     chk (al \<noteq> 0);
     (r, h) \<leftarrow> vec_init_impl None (length data) (length data) elem al h;
     case r of
       Inl st \<Rightarrow> Some (Inl st, h)
     | Inr obj \<Rightarrow> do {
         d \<leftarrow> if length data > 0 then slots_put (vdata obj) 0 data else Some (vdata obj);
         Some (Inr (obj\<lparr>vdata := d\<rparr>), h)
       }
   }"

definition tda_vec_from_span :: "'e slots \<Rightarrow> layout \<Rightarrow> al \<Rightarrow> heap \<Rightarrow> ((tda_status + 'e vec) \<times> heap) option" where
  "tda_vec_from_span s elem al h = do {
     chk (tda_layout_is_type elem);
     chk (al \<noteq> 0);
     tda_vec_from_data s elem al h
   }"

text \<open>A block made as \<open>cap\<close> elements, the first \<open>len\<close> of them elements.\<close>

definition tda_vec_init_raw :: "'e slots \<Rightarrow> nat \<Rightarrow> layout \<Rightarrow> nat \<Rightarrow> al \<Rightarrow> 'e vec option" where
  "tda_vec_init_raw data len elem cap al = do {
     chk (tda_layout_is_type elem);
     chk (al \<noteq> 0);
     chk (len \<le> cap);
     chk ((data = []) = (cap = 0));
     r \<leftarrow> tda_layout_ckd_array elem cap;
     chk (r \<noteq> None);
     Some \<lparr>vdata = data, vlen = len, vcap = cap, velem = elem, valloc = al\<rparr>
   }"

definition tda_vec_into_raw :: "'e vec \<Rightarrow> (('e slots \<times> nat \<times> layout) \<times> nat \<times> 'e vec) option" where
  "tda_vec_into_raw v = do {
     ASSERT_VEC v;
     Some ((vdata v, vlen v, velem v), vcap v, vec_null)
   }"

definition tda_vec_deinit :: "'e vec \<Rightarrow> heap \<Rightarrow> ('e vec \<times> heap) option" where
  "tda_vec_deinit v h =
     (if valloc v = 0 then do { chk (vdata v = []); Some (v, h) }
      else do {
        ASSERT_VEC v;
        block \<leftarrow> vec_block_layout v;
        h \<leftarrow> al_dealloc (valloc v) (vdata v \<noteq> []) block h;
        Some (vec_null, h)
      })"

section \<open>Access\<close>

definition tda_vec_len :: "'e vec \<Rightarrow> nat option" where
  "tda_vec_len v = do { chk (valloc v \<noteq> 0); Some (vlen v) }"

definition tda_vec_cap :: "'e vec \<Rightarrow> nat option" where
  "tda_vec_cap v = do { chk (valloc v \<noteq> 0); Some (vcap v) }"

definition tda_vec_elem_layout :: "'e vec \<Rightarrow> layout option" where
  "tda_vec_elem_layout v = do { chk (valloc v \<noteq> 0); Some (velem v) }"

definition tda_vec_bytes :: "'e vec \<Rightarrow> nat option" where
  "tda_vec_bytes v = do { chk (valloc v \<noteq> 0); Some (wmul (vlen v) (lsize (velem v))) }"

definition tda_vec_al :: "'e vec \<Rightarrow> al option" where
  "tda_vec_al v = do { chk (valloc v \<noteq> 0); Some (valloc v) }"

text \<open>A pointer to an element is its index.\<close>

definition tda_vec_front :: "'e vec \<Rightarrow> nat option" where
  "tda_vec_front v = do { chk (valloc v \<noteq> 0); chk (vlen v > 0); Some 0 }"

definition tda_vec_back :: "'e vec \<Rightarrow> nat option" where
  "tda_vec_back v = do { chk (valloc v \<noteq> 0); chk (vlen v > 0); Some (vlen v - 1) }"

definition tda_vec_get :: "'e vec \<Rightarrow> nat \<Rightarrow> nat option" where
  "tda_vec_get v idx = do { chk (valloc v \<noteq> 0); chk (idx < vlen v); Some idx }"

definition tda_vec_to_span :: "'e vec \<Rightarrow> 'e slots option" where
  "tda_vec_to_span v = do { chk (valloc v \<noteq> 0); Some (take (vlen v) (vdata v)) }"

text \<open>
  The cell a value argument points at. \<open>memmove\<close> from within the block is modelled for a pointer
  to a slot.
\<close>

definition vec_arg_cell :: "'e vec \<Rightarrow> 'e arg \<Rightarrow> 'e option option" where
  "vec_arg_cell v val = (case val of
       Apart x \<Rightarrow> Some x
     | Within off \<Rightarrow> do {
         chk (off mod lsize (velem v) = 0);
         vec_elem_at v (off div lsize (velem v))
       })"

definition tda_vec_set :: "'e vec \<Rightarrow> nat \<Rightarrow> 'e arg \<Rightarrow> 'e vec option" where
  "tda_vec_set v idx val = do {
     ASSERT_VEC v;
     chk (idx < vlen v);
     x \<leftarrow> vec_arg_cell v val;
     d \<leftarrow> slots_put (vdata v) idx [x];
     Some (v\<lparr>vdata := d\<rparr>)
   }"

section \<open>Copy and compare\<close>

definition tda_vec_copy_with :: "'e vec \<Rightarrow> al \<Rightarrow> heap \<Rightarrow> ((tda_status + 'e vec) \<times> heap) option" where
  "tda_vec_copy_with v al h = do {
     ASSERT_VEC v;
     chk (al \<noteq> 0);
     s \<leftarrow> tda_vec_to_span v;
     tda_vec_from_span s (velem v) al h
   }"

definition tda_vec_copy :: "'e vec \<Rightarrow> heap \<Rightarrow> ((tda_status + 'e vec) \<times> heap) option" where
  "tda_vec_copy v h = do { ASSERT_VEC v; tda_vec_copy_with v (valloc v) h }"

definition tda_vec_reserve :: "'e vec \<Rightarrow> nat \<Rightarrow> heap \<Rightarrow> (tda_status \<times> 'e vec \<times> heap) option" where
  "tda_vec_reserve v new_cap h = do {
     ASSERT_VEC v;
     if new_cap \<le> vcap v then Some (TDA_STATUS_OK, v, h)
     else do {
       (st, v, h) \<leftarrow> vec_set_cap v new_cap h;
       ASSERT_VEC v;
       Some (st, v, h)
     }
   }"

text \<open>\<open>same\<close> says that both arguments are one object.\<close>

definition tda_vec_copy_assign ::
  "bool \<Rightarrow> 'e vec \<Rightarrow> 'e vec \<Rightarrow> heap \<Rightarrow> (tda_status \<times> 'e vec \<times> heap) option" where
  "tda_vec_copy_assign same v other h = do {
     ASSERT_VEC v;
     ASSERT_VEC other;
     EXPECT_SAME_VEC v other;
     if same then Some (TDA_STATUS_OK, v, h)
     else do {
       (st, v, h) \<leftarrow> tda_vec_reserve v (vlen other) h;
       if status_is_err st then Some (st, v, h)
       else do {
         d \<leftarrow> if vlen other > 0 then slots_put (vdata v) 0 (take (vlen other) (vdata other))
             else Some (vdata v);
         let v = v\<lparr>vdata := d, vlen := vlen other\<rparr>;
         ASSERT_VEC v;
         Some (TDA_STATUS_OK, v, h)
       }
     }
   }"

definition tda_vec_move_assign ::
  "bool \<Rightarrow> 'e vec \<Rightarrow> 'e vec \<Rightarrow> heap \<Rightarrow> ('e vec \<times> 'e vec \<times> heap) option" where
  "tda_vec_move_assign same v other h = do {
     ASSERT_VEC other;
     (if valloc v \<noteq> 0 then do { ASSERT_VEC v; EXPECT_SAME_VEC v other } else Some ());
     if same then Some (v, other, h)
     else do {
       (_, h) \<leftarrow> tda_vec_deinit v h;
       let v = other;
       other \<leftarrow> tda_vec_init (velem v) (valloc v);
       ASSERT_VEC v;
       ASSERT_VEC other;
       Some (v, other, h)
     }
   }"

definition tda_vec_swap :: "bool \<Rightarrow> 'e vec \<Rightarrow> 'e vec \<Rightarrow> ('e vec \<times> 'e vec) option" where
  "tda_vec_swap same v other = do {
     ASSERT_VEC v;
     ASSERT_VEC other;
     EXPECT_SAME_VEC v other;
     if same then Some (v, other) else Some (other, v)
   }"

text \<open>The elements as their bytes for \<open>tda_vec_eq\<close>, as values for \<open>tda_vec_eq_by\<close>.\<close>

definition tda_vec_eq :: "bool \<Rightarrow> byte list vec \<Rightarrow> byte list vec \<Rightarrow> bool option" where
  "tda_vec_eq same a b = do {
     ASSERT_VEC a;
     ASSERT_VEC b;
     EXPECT_SAME_VEC a b;
     as \<leftarrow> cell_values (take (vlen a) (vdata a));
     bs \<leftarrow> cell_values (take (vlen b) (vdata b));
     Some (tda_span_eq same as bs)
   }"

definition tda_vec_eq_by :: "bool \<Rightarrow> ('e \<Rightarrow> 'e \<Rightarrow> bool) \<Rightarrow> 'e vec \<Rightarrow> 'e vec \<Rightarrow> bool option" where
  "tda_vec_eq_by same eq a b = do {
     ASSERT_VEC a;
     ASSERT_VEC b;
     EXPECT_SAME_VEC a b;
     as \<leftarrow> cell_values (take (vlen a) (vdata a));
     bs \<leftarrow> cell_values (take (vlen b) (vdata b));
     tda_span_eq_by same eq as bs
   }"

section \<open>Modifying\<close>

definition tda_vec_push :: "'e vec \<Rightarrow> 'e arg \<Rightarrow> heap \<Rightarrow> (tda_status \<times> 'e vec \<times> heap) option" where
  "tda_vec_push v val h = do {
     ASSERT_VEC v;
     from \<leftarrow> vec_alias_idx v val;
     (st, v, h) \<leftarrow> vec_reserve_one v h;
     if status_is_err st then Some (st, v, h)
     else do {
       x \<leftarrow> (case from of None \<Rightarrow> vec_arg_cell v val | Some i \<Rightarrow> vec_elem_at v i);
       d \<leftarrow> slots_put (vdata v) (vlen v) [x];
       let v = v\<lparr>vdata := d, vlen := vlen v + 1\<rparr>;
       ASSERT_VEC v;
       Some (TDA_STATUS_OK, v, h)
     }
   }"

text \<open>The slot added is left as it was, for the caller to fill; its index is the answer.\<close>

definition tda_vec_add_one :: "'e vec \<Rightarrow> heap \<Rightarrow> (tda_status \<times> 'e vec \<times> heap) option" where
  "tda_vec_add_one v h = do {
     ASSERT_VEC v;
     (st, v, h) \<leftarrow> vec_reserve_one v h;
     if status_is_err st then Some (st, v, h)
     else do {
       _ \<leftarrow> vec_elem_at v (vlen v);
       let v = v\<lparr>vlen := vlen v + 1\<rparr>;
       ASSERT_VEC v;
       Some (TDA_STATUS_OK, v, h)
     }
   }"

definition tda_vec_push_assume_cap :: "'e vec \<Rightarrow> 'e arg \<Rightarrow> 'e vec option" where
  "tda_vec_push_assume_cap v val = do {
     chk (valloc v \<noteq> 0);
     chk (vlen v < vcap v);
     x \<leftarrow> vec_arg_cell v val;
     d \<leftarrow> slots_put (vdata v) (vlen v) [x];
     Some (v\<lparr>vdata := d, vlen := vlen v + 1\<rparr>)
   }"

definition tda_vec_add_one_assume_cap :: "'e vec \<Rightarrow> (nat \<times> 'e vec) option" where
  "tda_vec_add_one_assume_cap v = do {
     chk (valloc v \<noteq> 0);
     chk (vlen v < vcap v);
     Some (vlen v, v\<lparr>vlen := vlen v + 1\<rparr>)
   }"

definition tda_vec_pop :: "'e vec \<Rightarrow> 'e vec option" where
  "tda_vec_pop v = do {
     chk (valloc v \<noteq> 0);
     chk (vlen v > 0);
     Some (v\<lparr>vlen := vlen v - 1\<rparr>)
   }"

text \<open>\<open>out\<close> is the cell answered.\<close>

definition tda_vec_pop_to :: "'e vec \<Rightarrow> ('e option \<times> 'e vec) option" where
  "tda_vec_pop_to v = do {
     ASSERT_VEC v;
     chk (vlen v > 0);
     let v = v\<lparr>vlen := vlen v - 1\<rparr>;
     out \<leftarrow> vec_elem_at v (vlen v);
     ASSERT_VEC v;
     Some (out, v)
   }"

definition tda_vec_clear :: "'e vec \<Rightarrow> 'e vec option" where
  "tda_vec_clear v = do { chk (valloc v \<noteq> 0); Some (v\<lparr>vlen := 0\<rparr>) }"

definition tda_vec_insert :: "'e vec \<Rightarrow> nat \<Rightarrow> 'e arg \<Rightarrow> heap \<Rightarrow> (tda_status \<times> 'e vec \<times> heap) option" where
  "tda_vec_insert v idx val h = do {
     ASSERT_VEC v;
     chk (idx \<le> vlen v);
     from \<leftarrow> vec_alias_idx v val;
     case from of
       None \<Rightarrow> do { x \<leftarrow> vec_arg_cell v val; vec_insert_raw v idx [x] h }
     | Some from \<Rightarrow> do {
         (st, v, h) \<leftarrow> vec_open_gap v idx 1 h;
         if status_is_err st then Some (st, v, h)
         else do {
           x \<leftarrow> vec_elem_at v (if from < idx then from else from + 1);
           d \<leftarrow> slots_put (vdata v) idx [x];
           let v = v\<lparr>vdata := d\<rparr>;
           ASSERT_VEC v;
           Some (TDA_STATUS_OK, v, h)
         }
       }
   }"

definition tda_vec_remove_range :: "'e vec \<Rightarrow> nat \<Rightarrow> nat \<Rightarrow> 'e vec option" where
  "tda_vec_remove_range v idx cnt = do {
     ASSERT_VEC v;
     chk (idx \<le> vlen v);
     chk (cnt \<le> vlen v - idx);
     if cnt = 0 then Some v
     else do {
       let tail = vlen v - idx - cnt;
       d \<leftarrow> if tail > 0 then slots_move (vdata v) idx (idx + cnt) tail else Some (vdata v);
       let v = v\<lparr>vdata := d, vlen := vlen v - cnt\<rparr>;
       ASSERT_VEC v;
       Some v
     }
   }"

definition tda_vec_remove :: "'e vec \<Rightarrow> nat \<Rightarrow> 'e vec option" where
  "tda_vec_remove v idx = do {
     ASSERT_VEC v;
     chk (idx < vlen v);
     tda_vec_remove_range v idx 1
   }"

definition tda_vec_swap_remove :: "'e vec \<Rightarrow> nat \<Rightarrow> 'e vec option" where
  "tda_vec_swap_remove v idx = do {
     ASSERT_VEC v;
     chk (idx < vlen v);
     let v = v\<lparr>vlen := vlen v - 1\<rparr>;
     d \<leftarrow> if idx \<noteq> vlen v then do { x \<leftarrow> vec_elem_at v (vlen v); slots_put (vdata v) idx [x] }
         else Some (vdata v);
     let v = v\<lparr>vdata := d\<rparr>;
     ASSERT_VEC v;
     Some v
   }"

definition tda_vec_shrink_to_fit :: "'e vec \<Rightarrow> heap \<Rightarrow> (tda_status \<times> 'e vec \<times> heap) option" where
  "tda_vec_shrink_to_fit v h = do {
     ASSERT_VEC v;
     if vlen v = vcap v then Some (TDA_STATUS_OK, v, h)
     else if vlen v = 0 then do {
       (v, h) \<leftarrow> vec_release_data v h;
       ASSERT_VEC v;
       Some (TDA_STATUS_OK, v, h)
     }
     else do {
       (st, v, h) \<leftarrow> vec_set_cap v (vlen v) h;
       ASSERT_VEC v;
       Some (st, v, h)
     }
   }"

definition tda_vec_resize :: "'e \<Rightarrow> 'e vec \<Rightarrow> nat \<Rightarrow> heap \<Rightarrow> (tda_status \<times> 'e vec \<times> heap) option" where
  "tda_vec_resize zero v new_len h = do {
     ASSERT_VEC v;
     if new_len \<le> vlen v then do {
       let v = v\<lparr>vlen := new_len\<rparr>;
       ASSERT_VEC v;
       Some (TDA_STATUS_OK, v, h)
     }
     else do {
       (st, v, h) \<leftarrow> vec_reserve_for v new_len h;
       if status_is_err st then Some (st, v, h)
       else do {
         d \<leftarrow> slots_put (vdata v) (vlen v) (replicate (new_len - vlen v) (Some zero));
         let v = v\<lparr>vdata := d, vlen := new_len\<rparr>;
         ASSERT_VEC v;
         Some (TDA_STATUS_OK, v, h)
       }
     }
   }"

definition tda_vec_truncate :: "'e vec \<Rightarrow> nat \<Rightarrow> 'e vec option" where
  "tda_vec_truncate v new_len = do {
     ASSERT_VEC v;
     let v = (if new_len < vlen v then v\<lparr>vlen := new_len\<rparr> else v);
     ASSERT_VEC v;
     Some v
   }"

definition tda_vec_swap_elems :: "'e vec \<Rightarrow> nat \<Rightarrow> nat \<Rightarrow> 'e vec option" where
  "tda_vec_swap_elems v i j = do {
     ASSERT_VEC v;
     chk (i < vlen v);
     chk (j < vlen v);
     s \<leftarrow> tda_vec_to_span v;
     s \<leftarrow> span_swap s i j;
     d \<leftarrow> slots_put (vdata v) 0 s;
     Some (v\<lparr>vdata := d\<rparr>)
   }"

definition tda_vec_insert_span ::
  "'e vec \<Rightarrow> nat \<Rightarrow> 'e slots \<Rightarrow> layout \<Rightarrow> heap \<Rightarrow> (tda_status \<times> 'e vec \<times> heap) option" where
  "tda_vec_insert_span v idx src elem h = do {
     ASSERT_VEC v;
     chk (tda_layout_is_type elem);
     chk (tda_layout_eq (velem v) elem);
     chk (idx \<le> vlen v);
     vec_insert_raw v idx src h
   }"

definition tda_vec_extend ::
  "'e vec \<Rightarrow> 'e slots \<Rightarrow> layout \<Rightarrow> heap \<Rightarrow> (tda_status \<times> 'e vec \<times> heap) option" where
  "tda_vec_extend v src elem h = do {
     ASSERT_VEC v;
     chk (tda_layout_is_type elem);
     chk (tda_layout_eq (velem v) elem);
     tda_vec_insert_span v (vlen v) src elem h
   }"

function vec_retain_loop :: "('e \<Rightarrow> bool) \<Rightarrow> 'e slots \<Rightarrow> nat \<Rightarrow> nat \<Rightarrow> nat \<Rightarrow> ('e slots \<times> nat) option" where
  "vec_retain_loop pred d len i kept =
     (if i < len then do {
        cell \<leftarrow> slot_get d i;
        x \<leftarrow> cell;
        if \<not> pred x then vec_retain_loop pred d len (i + 1) kept
        else do {
          d \<leftarrow> if kept \<noteq> i then slots_put d kept [cell] else Some d;
          vec_retain_loop pred d len (i + 1) (kept + 1)
        }
      }
      else Some (d, kept))"
  by pat_completeness auto
termination by (relation "measure (\<lambda>(pred, d, len, i, kept). len - i)") auto

declare vec_retain_loop.simps [simp del]

definition tda_vec_retain :: "('e \<Rightarrow> bool) \<Rightarrow> 'e vec \<Rightarrow> 'e vec option" where
  "tda_vec_retain pred v = do {
     ASSERT_VEC v;
     (d, kept) \<leftarrow> vec_retain_loop pred (vdata v) (vlen v) 0 0;
     let v = v\<lparr>vdata := d, vlen := kept\<rparr>;
     ASSERT_VEC v;
     Some v
   }"

section \<open>The invariant\<close>

definition vec_ok :: "'e vec \<Rightarrow> bool" where
  "vec_ok v \<longleftrightarrow> tda_layout_is_type (velem v) \<and> vlen v \<le> vcap v \<and> length (vdata v) = vcap v \<and>
     valloc v \<noteq> 0 \<and> lsize (velem v) * vcap v \<le> SIZE_MAX"

text \<open>The block of a vec, as its allocator's account has it.\<close>

definition vec_block :: "'e vec \<Rightarrow> layout multiset" where
  "vec_block v = held (velem v) (vcap v)"

definition vec_owns :: "heap \<Rightarrow> 'e vec \<Rightarrow> bool" where
  "vec_owns h v \<longleftrightarrow> vec_block v \<subseteq># lives h (valloc v)"

text \<open>The cells of the elements: what the vec stands for.\<close>

definition vec_cells :: "'e vec \<Rightarrow> 'e slots" where
  "vec_cells v = take (vlen v) (vdata v)"

lemma length_vec_cells [simp]: "vec_ok v \<Longrightarrow> length (vec_cells v) = vlen v"
  by (simp add: vec_ok_def vec_cells_def)

lemma ASSERT_VEC_ok [simp]: "vec_ok v \<Longrightarrow> ASSERT_VEC v = Some ()"
  by (auto simp: ASSERT_VEC_def vec_ok_def)

lemma vec_okD:
  assumes "vec_ok v"
  shows "tda_layout_is_type (velem v)" "0 < lsize (velem v)" "vlen v \<le> vcap v" "length (vdata v) = vcap v"
    "valloc v \<noteq> 0" "lsize (velem v) * vcap v \<le> SIZE_MAX" "(vdata v \<noteq> []) = (vcap v \<noteq> 0)"
  using assms by (auto simp: vec_ok_def is_type_size simp flip: length_greater_0_conv)

lemma vec_block_layout_ok:
  "vec_ok v \<Longrightarrow> vec_block_layout v = Some \<lparr>lsize = lsize (velem v) * vcap v, lalign = lalign (velem v)\<rparr>"
  by (simp add: vec_block_layout_def tda_elems_layout_def vec_ok_def)

text \<open>
  What a call that may grow the vec leaves behind, when it needs room for \<open>n\<close> elements: a vec on
  the same allocator, whose account has its block in place of the one before. It fails only when
  the allocator refuses or the bytes do not fit, and then the vec is what it was.
\<close>

definition vec_grown :: "heap \<Rightarrow> 'e vec \<Rightarrow> nat \<Rightarrow> tda_status \<Rightarrow> 'e vec \<Rightarrow> heap \<Rightarrow> bool" where
  "vec_grown h v n st v' h' \<longleftrightarrow> vec_ok v' \<and> velem v' = velem v \<and> valloc v' = valloc v \<and>
     requests h (valloc v) (vec_block v) (vec_block v') True h' \<and>
     (if st = TDA_STATUS_OK then n \<le> vcap v'
      else v' = v \<and> (generous h (valloc v) \<longrightarrow> SIZE_MAX < lsize (velem v) * n))"

lemma vec_grown_refl:
  "vec_ok v \<Longrightarrow> vec_owns h v \<Longrightarrow> n \<le> vcap v \<Longrightarrow> vec_grown h v n TDA_STATUS_OK v h"
  by (simp add: vec_grown_def vec_owns_def requests_refl)

lemma vec_grown_refused:
  "vec_ok v \<Longrightarrow> vec_owns h v \<Longrightarrow> SIZE_MAX < lsize (velem v) * n \<Longrightarrow>
   vec_grown h v n TDA_STATUS_ERR_NO_MEM v h"
  by (simp add: vec_grown_def vec_owns_def requests_refl)

text \<open>Changing the cells and the length is no matter of the account.\<close>

lemma vec_grown_edit:
  assumes "vec_grown h v n TDA_STATUS_OK v' h'" "length d = vcap v'" "k \<le> vcap v'"
  shows "vec_grown h v n TDA_STATUS_OK (v'\<lparr>vdata := d, vlen := k\<rparr>) h'"
  using assms by (auto simp: vec_grown_def vec_ok_def vec_block_def)

lemma vec_set_cap_spec:
  assumes "vec_ok v" "vec_owns h v" "vlen v \<le> c" "0 < c"
  shows "\<exists>st v' h'. vec_set_cap v c h = Some (st, v', h') \<and> vec_grown h v c st v' h' \<and>
    vec_cells v' = vec_cells v \<and> vlen v' = vlen v \<and> (st = TDA_STATUS_OK \<longrightarrow> vcap v' = c)"
proof (cases "lsize (velem v) * c \<le> SIZE_MAX")
  case False
  then show ?thesis
    using assms vec_okD [OF assms(1)] vec_grown_refused [OF assms(1,2), of c]
    by (simp add: vec_set_cap_def ckd_array_type)
next
  case True
  note ok = vec_okD [OF assms(1)]
  obtain b h' where r:
    "al_realloc (valloc v) (vcap v \<noteq> 0) \<lparr>lsize = lsize (velem v) * vcap v, lalign = lalign (velem v)\<rparr>
       (lsize (velem v) * c) h = Some (b, h')"
    and req: "requests h (valloc v) (held (velem v) (vcap v)) (held (velem v) c) b h'"
    and gen: "generous h (valloc v) \<Longrightarrow> b"
    using al_realloc_held [OF ok(5) ok(1) _ assms(4), of "vcap v" h] assms(2)
    unfolding vec_owns_def vec_block_def by blast
  show ?thesis
  proof (cases b)
    case True
    let ?v = "v\<lparr>vdata := slots_resize (vdata v) c, vcap := c\<rparr>"
    have "vec_set_cap v c h = Some (TDA_STATUS_OK, ?v, h')"
      using r True \<open>lsize (velem v) * c \<le> SIZE_MAX\<close> assms(3,4) ok(1,7)
      by (simp add: vec_set_cap_def ckd_array_type vec_block_layout_ok [OF assms(1)])
    moreover have "vec_grown h v c TDA_STATUS_OK ?v h'"
      using ok req True \<open>lsize (velem v) * c \<le> SIZE_MAX\<close> assms(3)
      by (simp add: vec_grown_def vec_ok_def vec_block_def)
    moreover have "vec_cells ?v = vec_cells v"
      using assms(3) ok by (simp add: vec_cells_def)
    ultimately show ?thesis by auto
  next
    case False
    have "vec_set_cap v c h = Some (TDA_STATUS_ERR_NO_MEM, v, h')"
      using r False \<open>lsize (velem v) * c \<le> SIZE_MAX\<close> assms(3,4) ok(1,7)
      by (simp add: vec_set_cap_def ckd_array_type vec_block_layout_ok [OF assms(1)])
    moreover have "vec_grown h v c TDA_STATUS_ERR_NO_MEM v h'"
      using assms(1,2) req gen False requests_refused [of h "valloc v" _ _ h' "vec_block v"]
      by (auto simp: vec_grown_def vec_owns_def)
    ultimately show ?thesis by auto
  qed
qed

lemma vec_grown_trans:
  assumes "vec_grown h v n TDA_STATUS_ERR_NO_MEM v h'" "vec_grown h' v k st v' h''"
  shows "vec_grown h v k st v' h''"
  using assms requests_trans [of h "valloc v" "vec_block v" "vec_block v" h' "vec_block v'" h'']
  by (auto simp: vec_grown_def dest: requests_generous)

lemma vec_grown_owns: "vec_grown h v n st v' h' \<Longrightarrow> vec_owns h' v'"
  by (auto simp: vec_grown_def vec_owns_def dest: requests_lives)

lemma vec_grown_le: "vec_grown h v n TDA_STATUS_OK v' h' \<Longrightarrow> k \<le> n \<Longrightarrow> vec_grown h v k TDA_STATUS_OK v' h'"
  by (simp add: vec_grown_def)

lemma vec_reserve_for_spec:
  assumes "vec_ok v" "vec_owns h v"
  shows "\<exists>st v' h'. vec_reserve_for v n h = Some (st, v', h') \<and> vec_grown h v n st v' h' \<and>
    vec_cells v' = vec_cells v \<and> vlen v' = vlen v"
proof (cases "n \<le> vcap v")
  case True
  then show ?thesis using vec_grown_refl [OF assms True] by (simp add: vec_reserve_for_def)
next
  case n: False
  then have n0: "vlen v \<le> n" "0 < n" using vec_okD(3) [OF assms(1)] by simp_all
  show ?thesis
  proof (cases "vec_next_cap v > n")
    case False
    then show ?thesis
      using vec_set_cap_spec [OF assms n0] n by (auto simp: vec_reserve_for_def Let_def)
  next
    case True
    then have e0: "vlen v \<le> vec_next_cap v" "0 < vec_next_cap v" using n0 by simp_all
    obtain st v1 h1 where s1: "vec_set_cap v (vec_next_cap v) h = Some (st, v1, h1)"
      and g1: "vec_grown h v (vec_next_cap v) st v1 h1"
      and c1: "vec_cells v1 = vec_cells v" "vlen v1 = vlen v"
      using vec_set_cap_spec [OF assms e0] by blast
    show ?thesis
    proof (cases "st = TDA_STATUS_OK")
      case ok: True
      have "vec_grown h v n TDA_STATUS_OK v1 h1"
        using g1 True unfolding ok by (auto intro: vec_grown_le)
      then show ?thesis
        using n True s1 c1 ok by (simp add: vec_reserve_for_def status_is_ok_def)
    next
      case False
      then have st: "st = TDA_STATUS_ERR_NO_MEM" by (simp add: not_ok_iff)
      have v1: "v1 = v" using g1 st by (simp add: vec_grown_def)
      have own: "vec_owns h1 v" using vec_grown_owns [OF g1] v1 by simp
      obtain st2 v2 h2 where s2: "vec_set_cap v n h1 = Some (st2, v2, h2)"
        and g2: "vec_grown h1 v n st2 v2 h2"
        and c2: "vec_cells v2 = vec_cells v" "vlen v2 = vlen v"
        using vec_set_cap_spec [OF assms(1) own n0] by blast
      have "vec_grown h v n st2 v2 h2"
        using g1 g2 unfolding st v1 by (rule vec_grown_trans)
      then show ?thesis
        using n True s1 s2 c2 st v1 by (simp add: vec_reserve_for_def)
    qed
  qed
qed

lemma vec_reserve_one_spec:
  assumes "vec_ok v" "vec_owns h v"
  shows "\<exists>st v' h'. vec_reserve_one v h = Some (st, v', h') \<and> vec_grown h v (vlen v + 1) st v' h' \<and>
    vec_cells v' = vec_cells v \<and> vlen v' = vlen v"
proof -
  note ok = vec_okD [OF assms(1)]
  consider "vlen v < vcap v" | "vlen v = vcap v" "vcap v = SIZE_MAX" | "vlen v = vcap v" "vcap v \<noteq> SIZE_MAX"
    using ok(3) by linarith
  then show ?thesis
  proof cases
    case 1
    then show ?thesis using vec_grown_refl [OF assms, of "vlen v + 1"] by (simp add: vec_reserve_one_def)
  next
    case 2
    have "vlen v + 1 \<le> lsize (velem v) * (vlen v + 1)" using ok(2) by (cases "lsize (velem v)") simp_all
    then show ?thesis using 2 vec_grown_refused [OF assms, of "vlen v + 1"] by (simp add: vec_reserve_one_def)
  next
    case 3
    then show ?thesis using vec_reserve_for_spec [OF assms, of "vcap v + 1"] by (simp add: vec_reserve_one_def)
  qed
qed

section \<open>The operations on cells\<close>

text \<open>\<open>vec_does h v r n xs\<close>: the call \<open>r\<close> on \<open>v\<close> needs room for \<open>n\<close> elements, and leaves the cells \<open>xs\<close>.\<close>

definition vec_does :: "heap \<Rightarrow> 'e vec \<Rightarrow> (tda_status \<times> 'e vec \<times> heap) option \<Rightarrow> nat \<Rightarrow> 'e slots \<Rightarrow> bool" where
  "vec_does h v r n xs \<longleftrightarrow> (\<exists>st v' h'. r = Some (st, v', h') \<and> vec_grown h v n st v' h' \<and>
     vec_cells v' = (if st = TDA_STATUS_OK then xs else vec_cells v))"

lemma vec_doesI:
  assumes "r = Some (TDA_STATUS_OK, v', h')" "vec_grown h v n TDA_STATUS_OK v' h'" "vec_cells v' = xs"
  shows "vec_does h v r n xs"
  using assms by (auto simp: vec_does_def)

lemma vec_does_refused:
  assumes "r = Some (st, v', h')" "vec_grown h v n st v' h'" "st \<noteq> TDA_STATUS_OK"
  shows "vec_does h v r n xs"
  using assms by (auto simp: vec_does_def vec_grown_def)

text \<open>A call that does not touch the account: the block stays, the cells become \<open>xs\<close>.\<close>

definition vec_edits :: "'e vec \<Rightarrow> 'e vec option \<Rightarrow> 'e slots \<Rightarrow> bool" where
  "vec_edits v r xs \<longleftrightarrow> (\<exists>v'. r = Some v' \<and> vec_ok v' \<and> velem v' = velem v \<and> valloc v' = valloc v \<and>
     vcap v' = vcap v \<and> vec_cells v' = xs)"

lemma vec_editsI:
  assumes "r = Some (v\<lparr>vdata := d, vlen := k\<rparr>)" "vec_ok v" "length d = vcap v" "k \<le> vcap v" "take k d = xs"
  shows "vec_edits v r xs"
  using assms by (auto simp: vec_edits_def vec_ok_def vec_cells_def)

lemma vec_open_gap_spec:
  assumes "vec_ok v" "vec_owns h v" "idx \<le> vlen v"
  shows "\<exists>st v' h'. vec_open_gap v idx cnt h = Some (st, v', h') \<and> vec_grown h v (vlen v + cnt) st v' h' \<and>
    (st = TDA_STATUS_OK \<longrightarrow> vlen v' = vlen v + cnt \<and> take idx (vdata v') = take idx (vec_cells v) \<and>
       take (vlen v - idx) (drop (idx + cnt) (vdata v')) = drop idx (vec_cells v))"
proof (cases "vlen v + cnt \<le> SIZE_MAX")
  case False
  have "vlen v + cnt \<le> lsize (velem v) * (vlen v + cnt)"
    using vec_okD(2) [OF assms(1)] by (cases "lsize (velem v)") simp_all
  with False have "SIZE_MAX < lsize (velem v) * (vlen v + cnt)" by linarith
  from vec_grown_refused [OF assms(1,2) this] show ?thesis
    using False assms(3) by (simp add: vec_open_gap_def ckd_add_def)
next
  case True
  obtain st v1 h1 where r: "vec_reserve_for v (vlen v + cnt) h = Some (st, v1, h1)"
    and g: "vec_grown h v (vlen v + cnt) st v1 h1" and c: "vec_cells v1 = vec_cells v" "vlen v1 = vlen v"
    using vec_reserve_for_spec [OF assms(1,2)] by blast
  show ?thesis
  proof (cases "st = TDA_STATUS_OK")
    case False
    then show ?thesis
      using r g True assms(3) by (simp add: vec_open_gap_def ckd_add_def status_is_err_iff)
  next
    case ok: True
    have cap: "vlen v + cnt \<le> vcap v1" using g ok by (simp add: vec_grown_def)
    have len1: "length (vdata v1) = vcap v1" using g by (simp add: vec_grown_def vec_ok_def)
    have cells: "take (vlen v) (vdata v1) = vec_cells v" using c by (simp add: vec_cells_def)
    define d where "d = take (idx + cnt) (vdata v1) @ take (vlen v - idx) (drop idx (vdata v1)) @
      drop (vlen v + cnt) (vdata v1)"
    have lend: "length d = vcap v1" using cap assms(3) len1 by (simp add: d_def)
    have d: "(if vlen v - idx > 0 then slots_move (vdata v1) (idx + cnt) idx (vlen v - idx) else Some (vdata v1)) = Some d"
    proof (cases "vlen v - idx > 0")
      case True
      then show ?thesis using cap len1 assms(3) by (simp add: slots_move_Some d_def add.commute)
    next
      case False
      then show ?thesis using assms(3) by (simp add: d_def)
    qed
    have "vec_open_gap v idx cnt h = Some (TDA_STATUS_OK, v1\<lparr>vdata := d, vlen := vlen v + cnt\<rparr>, h1)"
      using r ok True assms(3) d c(2) by (cases "vlen v - idx > 0") (simp_all add: vec_open_gap_def ckd_add_def Let_def)
    moreover have "vec_grown h v (vlen v + cnt) TDA_STATUS_OK (v1\<lparr>vdata := d, vlen := vlen v + cnt\<rparr>) h1"
      using g ok lend cap by (intro vec_grown_edit) simp_all
    moreover have "take idx d = take idx (vec_cells v)"
      using cap len1 assms(3) unfolding cells [symmetric] d_def by simp
    moreover have "take (vlen v - idx) (drop (idx + cnt) d) = drop idx (vec_cells v)"
      using cap len1 assms(3) unfolding cells [symmetric] d_def by (simp add: drop_take)
    ultimately show ?thesis by (intro exI conjI) (assumption | simp)+
  qed
qed

text \<open>The cells after a gap is filled.\<close>

lemma fill_gap:
  assumes "take idx d = take idx xs" "take (n - idx) (drop (idx + length src) d) = drop idx xs"
    and "length xs = n" "idx \<le> n" "n + length src \<le> length d"
  shows "slots_put d idx src = Some (take idx d @ src @ drop (idx + length src) d)"
    and "take (n + length src) (take idx d @ src @ drop (idx + length src) d) = take idx xs @ src @ drop idx xs"
proof -
  show "slots_put d idx src = Some (take idx d @ src @ drop (idx + length src) d)"
    using assms by (simp add: slots_put_Some)
  have "n + length src - idx - length src = n - idx" using assms(4) by simp
  then show "take (n + length src) (take idx d @ src @ drop (idx + length src) d) = take idx xs @ src @ drop idx xs"
    using assms by simp
qed

lemma vec_insert_raw_spec:
  assumes "vec_ok v" "vec_owns h v" "idx \<le> vlen v"
  shows "vec_does h v (vec_insert_raw v idx src h) (vlen v + length src)
    (take idx (vec_cells v) @ src @ drop idx (vec_cells v))"
proof (cases "length src = 0")
  case True
  then show ?thesis
    using vec_grown_refl [OF assms(1,2), of "vlen v"] vec_okD(3) [OF assms(1)]
    by (intro vec_doesI [of _ v h]) (simp_all add: vec_insert_raw_def)
next
  case src: False
  obtain st v1 h1 where r: "vec_open_gap v idx (length src) h = Some (st, v1, h1)"
    and g: "vec_grown h v (vlen v + length src) st v1 h1"
    and c: "st = TDA_STATUS_OK \<Longrightarrow> vlen v1 = vlen v + length src \<and> take idx (vdata v1) = take idx (vec_cells v) \<and>
       take (vlen v - idx) (drop (idx + length src) (vdata v1)) = drop idx (vec_cells v)"
    using vec_open_gap_spec [OF assms] by blast
  show ?thesis
  proof (cases "st = TDA_STATUS_OK")
    case False
    then show ?thesis using r g src
      by (intro vec_does_refused [of _ st v1 h1]) (simp_all add: vec_insert_raw_def status_is_err_iff)
  next
    case ok: True
    have cap: "vlen v + length src \<le> vcap v1" "length (vdata v1) = vcap v1"
      using g ok by (simp_all add: vec_grown_def vec_ok_def)
    let ?d = "take idx (vdata v1) @ src @ drop (idx + length src) (vdata v1)"
    let ?v = "v1\<lparr>vdata := ?d, vlen := vlen v + length src\<rparr>"
    note gap = fill_gap [of idx "vdata v1" "vec_cells v" "vlen v" src]
    have put: "slots_put (vdata v1) idx src = Some ?d"
      using c [OF ok] assms cap by (intro gap(1)) simp_all
    have tk: "take (vlen v + length src) ?d = take idx (vec_cells v) @ src @ drop idx (vec_cells v)"
      using c [OF ok] assms cap by (intro gap(2)) simp_all
    have "vec_grown h v (vlen v + length src) TDA_STATUS_OK ?v h1"
      using g ok cap assms(3) by (intro vec_grown_edit) simp_all
    moreover from this have "vec_ok ?v" by (simp add: vec_grown_def)
    moreover have eq: "v1\<lparr>vdata := ?d\<rparr> = ?v" using c [OF ok] by simp
    moreover have "vec_insert_raw v idx src h = Some (TDA_STATUS_OK, ?v, h1)"
      using r ok src put eq \<open>vec_ok ?v\<close> by (simp add: vec_insert_raw_def Let_def)
    moreover have "vec_cells ?v = take idx (vec_cells v) @ src @ drop idx (vec_cells v)"
      unfolding vec_cells_def [of ?v] using tk by (simp del: take_append)
    ultimately show ?thesis by (blast intro: vec_doesI)
  qed
qed

text \<open>A value argument that is an element: apart from the block, or the address of one of them.\<close>

definition vec_arg_ok :: "'e vec \<Rightarrow> 'e arg \<Rightarrow> bool" where
  "vec_arg_ok v val \<longleftrightarrow> (case val of Apart x \<Rightarrow> True
     | Within off \<Rightarrow> off mod lsize (velem v) = 0 \<and> off div lsize (velem v) < vlen v)"

definition vec_arg_val :: "'e vec \<Rightarrow> 'e arg \<Rightarrow> 'e option" where
  "vec_arg_val v val = (case val of Apart x \<Rightarrow> x | Within off \<Rightarrow> vdata v ! (off div lsize (velem v)))"

lemma vec_arg_cell_ok: "vec_ok v \<Longrightarrow> vec_arg_ok v val \<Longrightarrow> vec_arg_cell v val = Some (vec_arg_val v val)"
  by (auto simp: vec_arg_cell_def vec_arg_ok_def vec_arg_val_def vec_elem_at_def vec_ok_def split: arg.splits)

lemma vec_alias_idx_ok:
  assumes "vec_ok v" "vec_arg_ok v val"
  shows "vec_alias_idx v val = Some (case val of Apart x \<Rightarrow> None | Within off \<Rightarrow> Some (off div lsize (velem v)))"
proof (cases val)
  case (Within off)
  note ok = vec_okD [OF assms(1)]
  have m: "off mod lsize (velem v) = 0" "off div lsize (velem v) < vlen v"
    using assms(2) Within by (simp_all add: vec_arg_ok_def)
  have "off = lsize (velem v) * (off div lsize (velem v))" using m(1) by (metis add.right_neutral mult_div_mod_eq)
  also have "\<dots> < lsize (velem v) * vcap v" using m(2) ok(2,3) by simp
  finally have "off < lsize (velem v) * vcap v" .
  then show ?thesis
    using m ok Within by (simp add: vec_alias_idx_def vec_block_layout_ok [OF assms(1)])
qed (simp add: vec_alias_idx_def vec_block_layout_ok [OF assms(1)])

lemma vec_cells_nth: "i < vlen v \<Longrightarrow> vec_cells v ! i = vdata v ! i"
  by (simp add: vec_cells_def)

lemma append_slot:
  assumes "length d = c" "n < c"
  shows "slots_put d n [x] = Some (d[n := x])" "take (Suc n) (d[n := x]) = take n d @ [x]"
  using assms by (simp_all add: slots_put_one take_Suc_conv_app_nth)

lemma vec_push_spec:
  assumes "vec_ok v" "vec_owns h v" "vec_arg_ok v val"
  shows "vec_does h v (tda_vec_push v val h) (vlen v + 1) (vec_cells v @ [vec_arg_val v val])"
proof -
  obtain st v1 h1 where r: "vec_reserve_one v h = Some (st, v1, h1)"
    and g: "vec_grown h v (vlen v + 1) st v1 h1" and c: "vec_cells v1 = vec_cells v" "vlen v1 = vlen v"
    using vec_reserve_one_spec [OF assms(1,2)] by blast
  note al = vec_alias_idx_ok [OF assms(1,3)]
  show ?thesis
  proof (cases "st = TDA_STATUS_OK")
    case False
    then show ?thesis using r g al assms(1)
      by (intro vec_does_refused [of _ st v1 h1]) (simp_all add: tda_vec_push_def status_is_err_iff)
  next
    case ok: True
    have cap: "vlen v < vcap v1" "length (vdata v1) = vcap v1"
      using g ok by (simp_all add: vec_grown_def vec_ok_def)
    have x: "(case (case val of Apart x \<Rightarrow> None | Within off \<Rightarrow> Some (off div lsize (velem v))) of
        None \<Rightarrow> vec_arg_cell v1 val | Some i \<Rightarrow> vec_elem_at v1 i) = Some (vec_arg_val v val)"
    proof (cases val)
      case (Within off)
      then have "off div lsize (velem v) < vlen v" using assms(3) by (simp add: vec_arg_ok_def)
      then show ?thesis
        using Within cap c vec_cells_nth [of "off div lsize (velem v)" v] vec_cells_nth [of "off div lsize (velem v)" v1]
        by (simp add: vec_elem_at_def vec_arg_val_def)
    qed (simp add: vec_arg_cell_def vec_arg_val_def)
    let ?v = "v1\<lparr>vdata := (vdata v1)[vlen v := vec_arg_val v val], vlen := vlen v + 1\<rparr>"
    have g': "vec_grown h v (vlen v + 1) TDA_STATUS_OK ?v h1"
      using g ok cap by (intro vec_grown_edit) simp_all
    then have "vec_ok ?v" by (simp add: vec_grown_def)
    then have "tda_vec_push v val h = Some (TDA_STATUS_OK, ?v, h1)"
      using r ok al x c cap assms(1) by (simp add: tda_vec_push_def append_slot Let_def)
    moreover have "vec_cells ?v = vec_cells v @ [vec_arg_val v val]"
      using append_slot(2) [OF cap(2,1)] c by (simp add: vec_cells_def)
    ultimately show ?thesis using g' by (blast intro: vec_doesI)
  qed
qed

lemma vec_insert_spec:
  assumes "vec_ok v" "vec_owns h v" "vec_arg_ok v val" "idx \<le> vlen v"
  shows "vec_does h v (tda_vec_insert v idx val h) (vlen v + 1)
    (take idx (vec_cells v) @ [vec_arg_val v val] @ drop idx (vec_cells v))"
proof (cases val)
  case (Apart x)
  then show ?thesis
    using vec_insert_raw_spec [OF assms(1,2,4), of "[x]"] assms(1,4) vec_alias_idx_ok [OF assms(1,3)]
    by (simp add: tda_vec_insert_def vec_arg_cell_def vec_arg_val_def)
next
  case (Within off)
  let ?f = "off div lsize (velem v)" and ?x = "vec_arg_val v val"
  have f: "?f < vlen v" using assms(3) Within by (simp add: vec_arg_ok_def)
  have al: "vec_alias_idx v val = Some (Some ?f)" using vec_alias_idx_ok [OF assms(1,3)] Within by simp
  obtain st v1 h1 where r: "vec_open_gap v idx 1 h = Some (st, v1, h1)"
    and g: "vec_grown h v (vlen v + 1) st v1 h1"
    and c: "st = TDA_STATUS_OK \<Longrightarrow> vlen v1 = vlen v + 1 \<and> take idx (vdata v1) = take idx (vec_cells v) \<and>
       take (vlen v - idx) (drop (idx + 1) (vdata v1)) = drop idx (vec_cells v)"
    using vec_open_gap_spec [OF assms(1,2,4)] by blast
  show ?thesis
  proof (cases "st = TDA_STATUS_OK")
    case False
    then show ?thesis using r g al assms(1,4)
      by (intro vec_does_refused [of _ st v1 h1]) (simp_all add: tda_vec_insert_def status_is_err_iff)
  next
    case ok: True
    have cap: "vlen v + 1 \<le> vcap v1" "length (vdata v1) = vcap v1"
      using g ok by (simp_all add: vec_grown_def vec_ok_def)
    have x: "vdata v1 ! (if ?f < idx then ?f else ?f + 1) = ?x"
    proof (cases "?f < idx")
      case True
      have "take idx (vdata v1) ! ?f = take idx (vec_cells v) ! ?f" using c [OF ok] by simp
      then show ?thesis using True f by (simp add: vec_cells_nth vec_arg_val_def Within)
    next
      case False
      have "take (vlen v - idx) (drop (idx + 1) (vdata v1)) ! (?f - idx) = drop idx (vec_cells v) ! (?f - idx)"
        using c [OF ok] by simp
      then show ?thesis using False f cap assms(1,4) by (simp add: vec_cells_nth vec_arg_val_def Within)
    qed
    let ?d = "take idx (vdata v1) @ [?x] @ drop (idx + length [?x]) (vdata v1)"
    let ?v = "v1\<lparr>vdata := ?d, vlen := vlen v + 1\<rparr>"
    note gap = fill_gap [of idx "vdata v1" "vec_cells v" "vlen v" "[?x]"]
    have put: "slots_put (vdata v1) idx [?x] = Some ?d"
      using c [OF ok] assms cap by (intro gap(1)) simp_all
    have tk: "take (vlen v + length [?x]) ?d = take idx (vec_cells v) @ [?x] @ drop idx (vec_cells v)"
      using c [OF ok] assms cap by (intro gap(2)) simp_all
    have g': "vec_grown h v (vlen v + 1) TDA_STATUS_OK ?v h1"
      using g ok cap assms(4) by (intro vec_grown_edit) simp_all
    then have okv: "vec_ok ?v" by (simp add: vec_grown_def)
    have eq: "v1\<lparr>vdata := ?d\<rparr> = ?v" using c [OF ok] by simp
    have at: "vec_elem_at v1 (if ?f < idx then ?f else ?f + 1) = Some ?x"
      using x f cap by (auto simp: vec_elem_at_def)
    have "tda_vec_insert v idx val h = Some (TDA_STATUS_OK, ?v, h1)"
      using r ok put eq okv al at assms(1,4) by (simp add: tda_vec_insert_def Let_def)
    moreover have "vec_cells ?v = take idx (vec_cells v) @ [?x] @ drop idx (vec_cells v)"
      unfolding vec_cells_def [of ?v] using tk by (simp del: take_append)
    ultimately show ?thesis using g' by (blast intro: vec_doesI)
  qed
qed

lemma vec_edits_len:
  assumes "vec_ok v" "k \<le> vlen v" "r = Some (v\<lparr>vlen := k\<rparr>)"
  shows "vec_edits v r (take k (vec_cells v))"
  using assms by (intro vec_editsI [where d = "vdata v"]) (auto simp: vec_ok_def vec_cells_def min_def)

lemma vec_ok_len: "vec_ok v \<Longrightarrow> k \<le> vcap v \<Longrightarrow> vec_ok (v\<lparr>vlen := k\<rparr>)"
  by (simp add: vec_ok_def)

lemma vec_ok_data: "vec_ok v \<Longrightarrow> length d = vcap v \<Longrightarrow> k \<le> vcap v \<Longrightarrow> vec_ok (v\<lparr>vdata := d, vlen := k\<rparr>)"
  by (simp add: vec_ok_def)

lemma vec_pop_spec:
  assumes "vec_ok v" "0 < vlen v"
  shows "vec_edits v (tda_vec_pop v) (butlast (vec_cells v))"
proof -
  have "butlast (vec_cells v) = take (vlen v - 1) (vec_cells v)" using assms by (simp add: butlast_conv_take)
  then show ?thesis
    using assms vec_okD(5) [OF assms(1)] by (auto simp: tda_vec_pop_def intro: vec_edits_len)
qed

lemma vec_pop_to_spec:
  assumes "vec_ok v" "0 < vlen v"
  shows "\<exists>v'. tda_vec_pop_to v = Some (last (vec_cells v), v') \<and> vec_edits v (Some v') (butlast (vec_cells v))"
proof -
  have b: "butlast (vec_cells v) = take (vlen v - 1) (vec_cells v)" using assms by (simp add: butlast_conv_take)
  note ok = vec_okD [OF assms(1)]
  have l: "last (vec_cells v) = vdata v ! (vlen v - 1)"
  proof -
    have "vec_cells v \<noteq> []" using assms length_vec_cells [OF assms(1)] by fastforce
    then show ?thesis using assms by (simp add: last_conv_nth vec_cells_nth)
  qed
  have "vlen v - 1 \<le> vcap v" using ok(3) by simp
  then have "tda_vec_pop_to v = Some (last (vec_cells v), v\<lparr>vlen := vlen v - 1\<rparr>)"
    using assms ok vec_ok_len [OF assms(1), of "vlen v - 1"] l
    by (simp add: tda_vec_pop_to_def vec_elem_at_def Let_def)
  moreover have "vec_edits v (Some (v\<lparr>vlen := vlen v - 1\<rparr>)) (butlast (vec_cells v))"
    unfolding b using assms(1) by (rule vec_edits_len) simp_all
  ultimately show ?thesis by blast
qed

lemma vec_clear_spec: "vec_ok v \<Longrightarrow> vec_edits v (tda_vec_clear v) []"
  using vec_edits_len [where v = v and k = 0 and r = "tda_vec_clear v"] by (simp add: tda_vec_clear_def vec_ok_def)

lemma vec_truncate_spec:
  assumes "vec_ok v"
  shows "vec_edits v (tda_vec_truncate v k) (take k (vec_cells v))"
proof (cases "k < vlen v")
  case True
  then have "tda_vec_truncate v k = Some (v\<lparr>vlen := k\<rparr>)"
    using assms vec_ok_len [OF assms, of k] vec_okD(3) [OF assms] by (simp add: tda_vec_truncate_def)
  then show ?thesis using assms True by (auto intro: vec_edits_len)
next
  case False
  then have "tda_vec_truncate v k = Some (v\<lparr>vlen := vlen v\<rparr>)"
    using assms by (simp add: tda_vec_truncate_def)
  then have "vec_edits v (tda_vec_truncate v k) (take (vlen v) (vec_cells v))"
    using assms by (intro vec_edits_len) simp_all
  then show ?thesis using False assms by simp
qed

lemma vec_set_spec:
  assumes "vec_ok v" "vec_arg_ok v val" "idx < vlen v"
  shows "vec_edits v (tda_vec_set v idx val) ((vec_cells v)[idx := vec_arg_val v val])"
proof -
  note ok = vec_okD [OF assms(1)]
  have "tda_vec_set v idx val = Some (v\<lparr>vdata := (vdata v)[idx := vec_arg_val v val], vlen := vlen v\<rparr>)"
    using assms ok by (simp add: tda_vec_set_def vec_arg_cell_ok slots_put_one)
  moreover have "take (vlen v) ((vdata v)[idx := vec_arg_val v val]) = (vec_cells v)[idx := vec_arg_val v val]"
    by (simp add: vec_cells_def take_update_swap)
  ultimately show ?thesis
    using assms(1) ok by (intro vec_editsI) (assumption | simp)+
qed

lemma vec_remove_range_spec:
  assumes "vec_ok v" "idx + cnt \<le> vlen v"
  shows "vec_edits v (tda_vec_remove_range v idx cnt) (take idx (vec_cells v) @ drop (idx + cnt) (vec_cells v))"
proof (cases "cnt = 0")
  case True
  then have "tda_vec_remove_range v idx cnt = Some (v\<lparr>vlen := vlen v\<rparr>)"
    using assms by (simp add: tda_vec_remove_range_def)
  then have "vec_edits v (tda_vec_remove_range v idx cnt) (take (vlen v) (vec_cells v))"
    using assms by (intro vec_edits_len) simp_all
  then show ?thesis using True assms by simp
next
  case cnt: False
  note ok = vec_okD [OF assms(1)]
  define k where "k = vlen v - idx - cnt"
  have k: "idx + cnt + k = vlen v" using assms(2) by (simp add: k_def)
  define d where "d = take idx (vdata v) @ take k (drop (idx + cnt) (vdata v)) @ drop (idx + k) (vdata v)"
  have lend: "length d = vcap v" using ok(3,4) k by (simp add: d_def)
  have mv: "k > 0 \<Longrightarrow> slots_move (vdata v) idx (idx + cnt) k = Some d"
    using ok(3,4) k by (simp add: slots_move_Some d_def)
  have nomv: "k = 0 \<Longrightarrow> d = vdata v" by (simp add: d_def)
  have okv: "vec_ok (v\<lparr>vdata := d, vlen := vlen v - cnt\<rparr>)"
    using assms(1) lend ok(3) by (intro vec_ok_data) simp_all
  have "tda_vec_remove_range v idx cnt = (do {
      d \<leftarrow> if k > 0 then slots_move (vdata v) idx (idx + cnt) k else Some (vdata v);
      ASSERT_VEC (v\<lparr>vdata := d, vlen := vlen v - cnt\<rparr>);
      Some (v\<lparr>vdata := d, vlen := vlen v - cnt\<rparr>)
    })"
    using assms cnt k unfolding k_def by (simp add: tda_vec_remove_range_def Let_def le_diff_conv2 add.commute)
  then have "tda_vec_remove_range v idx cnt = Some (v\<lparr>vdata := d, vlen := vlen v - cnt\<rparr>)"
    using mv nomv okv by (cases "k > 0") simp_all
  moreover have "take (vlen v - cnt) d = take idx (vec_cells v) @ drop (idx + cnt) (vec_cells v)"
  proof -
    have "vlen v - cnt = idx + k" "vlen v - (idx + cnt) = k" using k by simp_all
    then show ?thesis using ok(3,4) k by (simp add: d_def vec_cells_def drop_take)
  qed
  ultimately show ?thesis
    using assms(1) lend ok(3) by (intro vec_editsI) simp_all
qed

lemma vec_remove_spec:
  assumes "vec_ok v" "idx < vlen v"
  shows "vec_edits v (tda_vec_remove v idx) (take idx (vec_cells v) @ drop (idx + 1) (vec_cells v))"
  using vec_remove_range_spec [of v idx 1] assms by (simp add: tda_vec_remove_def)

lemma vec_swap_remove_spec:
  assumes "vec_ok v" "idx < vlen v"
  shows "vec_edits v (tda_vec_swap_remove v idx) (butlast ((vec_cells v)[idx := last (vec_cells v)]))"
proof -
  note ok = vec_okD [OF assms(1)]
  let ?n = "vlen v - 1"
  have n: "?n < length (vdata v)" "vlen v = Suc ?n" "?n \<le> vcap v" using ok(3,4) assms(2) by simp_all
  have "vec_cells v \<noteq> []" using assms length_vec_cells [OF assms(1)] by fastforce
  then have l: "last (vec_cells v) = vdata v ! ?n" using assms by (simp add: last_conv_nth vec_cells_nth)
  define d where "d = (if idx \<noteq> ?n then (vdata v)[idx := vdata v ! ?n] else vdata v)"
  have okv: "vec_ok (v\<lparr>vlen := ?n, vdata := d\<rparr>)"
    using assms(1) ok(4) n(3) by (simp add: vec_ok_def d_def)
  have "tda_vec_swap_remove v idx = Some (v\<lparr>vdata := d, vlen := ?n\<rparr>)"
    using assms okv n ok(4)
    by (cases "idx = ?n") (simp_all add: tda_vec_swap_remove_def vec_elem_at_def slots_put_one Let_def d_def)
  moreover have "take ?n d = butlast ((vec_cells v)[idx := last (vec_cells v)])"
  proof -
    have "butlast ((vec_cells v)[idx := last (vec_cells v)]) = take ?n ((vec_cells v)[idx := vdata v ! ?n])"
      using assms l by (simp add: butlast_conv_take)
    also have "\<dots> = take ?n ((vdata v)[idx := vdata v ! ?n])"
      by (simp add: vec_cells_def take_update_swap)
    also have "\<dots> = take ?n d" by (simp add: d_def take_update_swap list_update_beyond)
    finally show ?thesis ..
  qed
  ultimately show ?thesis
    using assms(1) n ok(4) by (intro vec_editsI) (simp_all add: d_def)
qed

lemma vec_swap_elems_spec:
  assumes "vec_ok v" "i < vlen v" "j < vlen v"
  shows "vec_edits v (tda_vec_swap_elems v i j) ((vec_cells v)[i := vec_cells v ! j, j := vec_cells v ! i])"
proof -
  note ok = vec_okD [OF assms(1)]
  let ?xs = "(vec_cells v)[i := vec_cells v ! j, j := vec_cells v ! i]"
  have len: "length ?xs = vlen v" using assms(1) by simp
  have sw: "span_swap (vec_cells v) i j = Some ?xs"
    using assms by (auto simp: span_swap_def)
  have "tda_vec_swap_elems v i j = Some (v\<lparr>vdata := ?xs @ drop (vlen v) (vdata v), vlen := vlen v\<rparr>)"
    using assms ok sw len by (simp add: tda_vec_swap_elems_def tda_vec_to_span_def vec_cells_def [symmetric] slots_put_Some)
  then show ?thesis
    using assms(1) ok len by (intro vec_editsI) (assumption | simp)+
qed

lemma vec_reserve_spec:
  assumes "vec_ok v" "vec_owns h v"
  shows "vec_does h v (tda_vec_reserve v n h) n (vec_cells v)"
proof (cases "n \<le> vcap v")
  case True
  then show ?thesis
    using assms(1) vec_grown_refl [OF assms True] by (simp add: vec_does_def tda_vec_reserve_def)
next
  case False
  then have "vlen v \<le> n" "0 < n" using vec_okD(3) [OF assms(1)] by simp_all
  from vec_set_cap_spec [OF assms this] obtain st v' h' where r: "vec_set_cap v n h = Some (st, v', h')"
    and g: "vec_grown h v n st v' h'" and c: "vec_cells v' = vec_cells v" by blast
  have "vec_ok v'" using g by (simp add: vec_grown_def)
  then show ?thesis
    using False assms(1) r g c by (simp add: vec_does_def tda_vec_reserve_def)
qed

text \<open>A refused \<open>realloc\<close> to fewer elements is reported and harmless.\<close>

lemma vec_shrink_spec:
  assumes "vec_ok v" "vec_owns h v"
  shows "\<exists>st v' h'. tda_vec_shrink_to_fit v h = Some (st, v', h') \<and> vec_grown h v (vlen v) st v' h' \<and>
    vec_cells v' = vec_cells v \<and> (st = TDA_STATUS_OK \<longrightarrow> vcap v' = vlen v)"
proof -
  note ok = vec_okD [OF assms(1)]
  consider "vlen v = vcap v" | "vlen v \<noteq> vcap v" "vlen v = 0" | "vlen v \<noteq> vcap v" "0 < vlen v" by blast
  then show ?thesis
  proof cases
    case 1
    then show ?thesis
      using assms(1) vec_grown_refl [OF assms, of "vlen v"] by (simp add: tda_vec_shrink_to_fit_def)
  next
    case 2
    let ?v = "v\<lparr>vdata := [], vlen := 0, vcap := 0\<rparr>"
    obtain h' where d: "al_dealloc (valloc v) (vcap v \<noteq> 0) \<lparr>lsize = lsize (velem v) * vcap v, lalign = lalign (velem v)\<rparr> h = Some h'"
      and l: "lives h' = (lives h)(valloc v := lives h (valloc v) - held (velem v) (vcap v))"
      and gen: "\<And>c. generous h c \<Longrightarrow> generous h' c"
      using al_dealloc_held [OF ok(5,1), of "vcap v" h] assms(2) unfolding vec_owns_def vec_block_def by blast
    have okv: "vec_ok ?v" using ok by (simp add: vec_ok_def)
    have "tda_vec_shrink_to_fit v h = Some (TDA_STATUS_OK, ?v, h')"
      using assms(1) 2 d okv ok(7)
      by (simp add: tda_vec_shrink_to_fit_def vec_release_data_def vec_block_layout_ok)
    moreover have "vec_grown h v (vlen v) TDA_STATUS_OK ?v h'"
      using okv l gen 2 by (simp add: vec_grown_def vec_block_def requests_def)
    ultimately show ?thesis using 2 by (simp add: vec_cells_def)
  next
    case 3
    from vec_set_cap_spec [OF assms order_refl 3(2)]
    obtain st v' h' where r: "vec_set_cap v (vlen v) h = Some (st, v', h')"
      and g: "vec_grown h v (vlen v) st v' h'" and c: "vec_cells v' = vec_cells v"
        "st = TDA_STATUS_OK \<longrightarrow> vcap v' = vlen v" by blast
    have "vec_ok v'" using g by (simp add: vec_grown_def)
    then show ?thesis
      using 3 assms(1) r g c by (simp add: tda_vec_shrink_to_fit_def)
  qed
qed

lemma vec_resize_spec:
  assumes "vec_ok v" "vec_owns h v"
  shows "vec_does h v (tda_vec_resize zero v n h) n
    (take n (vec_cells v) @ replicate (n - vlen v) (Some zero))"
proof (cases "n \<le> vlen v")
  case True
  let ?v = "v\<lparr>vlen := n\<rparr>"
  have n: "n \<le> vcap v" using True vec_okD(3) [OF assms(1)] by simp
  have okv: "vec_ok ?v" using assms(1) n by (rule vec_ok_len)
  have "vec_grown h v n TDA_STATUS_OK (v\<lparr>vdata := vdata v, vlen := n\<rparr>) h"
    using vec_grown_refl [OF assms n] vec_okD(4) [OF assms(1)] n by (intro vec_grown_edit) simp_all
  then show ?thesis
    using True assms(1) okv
    by (intro vec_doesI [of _ ?v h]) (simp_all add: tda_vec_resize_def vec_cells_def min_def)
next
  case False
  obtain st v1 h1 where r: "vec_reserve_for v n h = Some (st, v1, h1)"
    and g: "vec_grown h v n st v1 h1" and c: "vec_cells v1 = vec_cells v" "vlen v1 = vlen v"
    using vec_reserve_for_spec [OF assms] by blast
  show ?thesis
  proof (cases "st = TDA_STATUS_OK")
    case err: False
    then show ?thesis using r g False assms(1)
      by (intro vec_does_refused [of _ st v1 h1]) (simp_all add: tda_vec_resize_def status_is_err_iff)
  next
    case ok: True
    have cap: "n \<le> vcap v1" "length (vdata v1) = vcap v1"
      using g ok by (simp_all add: vec_grown_def vec_ok_def)
    let ?zs = "replicate (n - vlen v) (Some zero)"
    let ?d = "take (vlen v) (vdata v1) @ ?zs @ drop n (vdata v1)"
    let ?v = "v1\<lparr>vdata := ?d, vlen := n\<rparr>"
    have put: "slots_put (vdata v1) (vlen v) ?zs = Some ?d"
      using cap False by (simp add: slots_put_Some)
    have g': "vec_grown h v n TDA_STATUS_OK ?v h1"
      using g ok cap False by (intro vec_grown_edit) simp_all
    then have "vec_ok ?v" by (simp add: vec_grown_def)
    then have "tda_vec_resize zero v n h = Some (TDA_STATUS_OK, ?v, h1)"
      using r ok put c False assms(1) by (simp add: tda_vec_resize_def Let_def)
    moreover have "vec_cells ?v = take n (vec_cells v) @ ?zs"
      using c cap False vec_okD(3,4) [OF assms(1)] by (simp add: vec_cells_def)
    ultimately show ?thesis using g' by (blast intro: vec_doesI)
  qed
qed

lemma vec_insert_span_spec:
  assumes "vec_ok v" "vec_owns h v" "idx \<le> vlen v"
  shows "vec_does h v (tda_vec_insert_span v idx src (velem v) h) (vlen v + length src)
    (take idx (vec_cells v) @ src @ drop idx (vec_cells v))"
  using vec_insert_raw_spec [OF assms, of src] assms vec_okD(1) [OF assms(1)]
  by (simp add: tda_vec_insert_span_def tda_layout_eq_def)

lemma vec_extend_spec:
  assumes "vec_ok v" "vec_owns h v"
  shows "vec_does h v (tda_vec_extend v src (velem v) h) (vlen v + length src) (vec_cells v @ src)"
  using vec_insert_span_spec [OF assms order_refl, of src] assms vec_okD(1) [OF assms(1)]
  by (simp add: tda_vec_extend_def tda_layout_eq_def)

lemma vec_add_one_spec:
  assumes "vec_ok v" "vec_owns h v"
  shows "\<exists>x. vec_does h v (tda_vec_add_one v h) (vlen v + 1) (vec_cells v @ [x])"
proof -
  obtain st v1 h1 where r: "vec_reserve_one v h = Some (st, v1, h1)"
    and g: "vec_grown h v (vlen v + 1) st v1 h1" and c: "vec_cells v1 = vec_cells v" "vlen v1 = vlen v"
    using vec_reserve_one_spec [OF assms] by blast
  show ?thesis
  proof (cases "st = TDA_STATUS_OK")
    case False
    then have "vec_does h v (tda_vec_add_one v h) (vlen v + 1) (vec_cells v @ [None])" using r g assms(1)
      by (intro vec_does_refused [of _ st v1 h1]) (simp_all add: tda_vec_add_one_def status_is_err_iff)
    then show ?thesis ..
  next
    case ok: True
    have cap: "vlen v < vcap v1" "length (vdata v1) = vcap v1"
      using g ok by (simp_all add: vec_grown_def vec_ok_def)
    let ?v = "v1\<lparr>vdata := vdata v1, vlen := vlen v + 1\<rparr>"
    have g': "vec_grown h v (vlen v + 1) TDA_STATUS_OK ?v h1"
      using g ok cap by (intro vec_grown_edit) simp_all
    then have "vec_ok ?v" by (simp add: vec_grown_def)
    then have "tda_vec_add_one v h = Some (TDA_STATUS_OK, ?v, h1)"
      using r ok c cap assms(1) by (simp add: tda_vec_add_one_def vec_elem_at_def Let_def)
    moreover have "vec_cells ?v = vec_cells v @ [vdata v1 ! vlen v]"
      using c cap by (simp add: vec_cells_def take_Suc_conv_app_nth)
    ultimately show ?thesis using g' by (blast intro: vec_doesI)
  qed
qed

lemma retain_loop_spec:
  assumes "kept \<le> i" "i + length ys = len" "len \<le> length d" "take (length ys) (drop i d) = map Some ys"
  shows "\<exists>d'. vec_retain_loop pred d len i kept = Some (d', kept + length (filter pred ys)) \<and>
    length d' = length d \<and> take (kept + length (filter pred ys)) d' = take kept d @ map Some (filter pred ys)"
  using assms
proof (induction ys arbitrary: d i kept)
  case Nil
  then show ?case by (simp add: vec_retain_loop.simps [of pred d len len kept])
next
  case (Cons y ys)
  have i: "i < len" "i < length d" using Cons.prems by simp_all
  have "d ! i # take (length ys) (drop (Suc i) d) = Some y # map Some ys"
    using Cons.prems(4) i by (simp add: Cons_nth_drop_Suc [symmetric])
  then have di: "d ! i = Some y" and rest: "take (length ys) (drop (Suc i) d) = map Some ys" by simp_all
  show ?case
  proof (cases "pred y")
    case False
    have step: "vec_retain_loop pred d len i kept = vec_retain_loop pred d len (i + 1) kept"
      unfolding vec_retain_loop.simps [of pred d len i kept] using i di False by simp
    show ?thesis
      unfolding step using Cons.IH [of kept "i + 1" d] Cons.prems rest False by simp
  next
    case True
    define d1 where "d1 = (if kept \<noteq> i then d[kept := Some y] else d)"
    have step: "vec_retain_loop pred d len i kept = vec_retain_loop pred d1 len (i + 1) (kept + 1)"
      unfolding vec_retain_loop.simps [of pred d len i kept]
      using i di True Cons.prems(1) by (cases "kept = i") (simp_all add: slots_put_one d1_def)
    have len1: "length d1 = length d" by (simp add: d1_def)
    have tk: "take (kept + 1) d1 = take kept d @ [Some y]"
      using i di Cons.prems(1) by (cases "kept = i") (simp_all add: d1_def take_Suc_conv_app_nth)
    have dr: "take (length ys) (drop (i + 1) d1) = map Some ys"
      using rest Cons.prems(1) by (cases "kept = i") (simp_all add: d1_def)
    obtain d' where "vec_retain_loop pred d1 len (i + 1) (kept + 1) = Some (d', kept + 1 + length (filter pred ys))"
      "length d' = length d1"
      "take (kept + 1 + length (filter pred ys)) d' = take (kept + 1) d1 @ map Some (filter pred ys)"
      using Cons.IH [of "kept + 1" "i + 1" d1] Cons.prems(1-3) len1 dr by auto
    then show ?thesis unfolding step using True len1 tk by simp
  qed
qed

lemma vec_retain_spec:
  assumes "vec_ok v" "vec_cells v = map Some xs"
  shows "vec_edits v (tda_vec_retain pred v) (map Some (filter pred xs))"
proof -
  note ok = vec_okD [OF assms(1)]
  have len: "length xs = vlen v" using length_vec_cells [OF assms(1)] assms(2) by simp
  obtain d' where r: "vec_retain_loop pred (vdata v) (vlen v) 0 0 = Some (d', length (filter pred xs))"
    and d': "length d' = vcap v" "take (length (filter pred xs)) d' = map Some (filter pred xs)"
    using retain_loop_spec [of 0 0 xs "vlen v" "vdata v" pred] len ok(3,4) assms(2) by (auto simp: vec_cells_def)
  have k: "length (filter pred xs) \<le> vcap v"
    using length_filter_le [of pred xs] len ok(3) by linarith
  have "vec_ok (v\<lparr>vdata := d', vlen := length (filter pred xs)\<rparr>)"
    using assms(1) d'(1) k by (rule vec_ok_data)
  then have "tda_vec_retain pred v = Some (v\<lparr>vdata := d', vlen := length (filter pred xs)\<rparr>)"
    using assms(1) r by (simp add: tda_vec_retain_def)
  then show ?thesis using assms(1) d' k by (intro vec_editsI) simp_all
qed

section \<open>Construction, copies and the end\<close>

text \<open>
  \<open>vec_makes h al elem n r xs\<close>: the call \<open>r\<close> makes a vec of the cells \<open>xs\<close> with a block of \<open>n\<close> slots, whose
  allocator has one block more out; or it fails, for want of memory or room, and nothing is out.
\<close>

definition vec_makes ::
  "heap \<Rightarrow> al \<Rightarrow> layout \<Rightarrow> nat \<Rightarrow> ((tda_status + 'e vec) \<times> heap) option \<Rightarrow> 'e slots \<Rightarrow> bool" where
  "vec_makes h al elem n r xs \<longleftrightarrow> (\<exists>res h'. r = Some (res, h') \<and> (case res of
       Inr v \<Rightarrow> vec_ok v \<and> velem v = elem \<and> valloc v = al \<and> vcap v = n \<and> vec_cells v = xs \<and>
         requests h al {#} (vec_block v) True h'
     | Inl st \<Rightarrow> st = TDA_STATUS_ERR_NO_MEM \<and> requests h al {#} {#} False h' \<and>
         (generous h al \<longrightarrow> SIZE_MAX < lsize elem * n)))"

lemma vec_init_impl_spec:
  assumes "tda_layout_is_type elem" "al \<noteq> 0" "len \<le> cap"
  shows "vec_makes h al elem cap (vec_init_impl cell len cap elem al h) (replicate len cell)"
proof -
  let ?v = "\<lparr>vdata = replicate cap cell, vlen = len, vcap = cap, velem = elem, valloc = al\<rparr>"
  have ok: "lsize elem * cap \<le> SIZE_MAX \<Longrightarrow> vec_ok ?v" using assms by (simp add: vec_ok_def)
  have cells: "vec_cells ?v = replicate len cell" using assms(3) by (simp add: vec_cells_def min_def)
  consider "cap = 0" | "0 < cap" "SIZE_MAX < lsize elem * cap" | "0 < cap" "lsize elem * cap \<le> SIZE_MAX"
    by linarith
  then show ?thesis
  proof cases
    case 1
    then have "vec_init_impl cell len cap elem al h = Some (Inr ?v, h)"
      using assms ok by (simp add: vec_init_impl_def tda_vec_init_def)
    then show ?thesis
      using 1 ok cells by (simp add: vec_makes_def vec_block_def requests_def)
  next
    case 2
    then have "vec_init_impl cell len cap elem al h = Some (Inl TDA_STATUS_ERR_NO_MEM, h)"
      using assms by (simp add: vec_init_impl_def tda_vec_init_def ckd_array_type)
    then show ?thesis using 2 by (simp add: vec_makes_def requests_def)
  next
    case 3
    let ?l = "\<lparr>lsize = lsize elem * cap, lalign = lalign elem\<rparr>"
    obtain b h' where a: "al_alloc al ?l h = Some (b, h')" "requests h al {#} {#?l#} b h'" "generous h al \<Longrightarrow> b"
      using al_alloc_spec [of al ?l h] assms 3 is_type_align [OF assms(1)] is_type_size [OF assms(1)] by auto
    have "vec_init_impl cell len cap elem al h = Some (if b then Inr ?v else Inl TDA_STATUS_ERR_NO_MEM, h')"
      using a(1) 3 assms ok by (simp add: vec_init_impl_def tda_vec_init_def ckd_array_type)
    then show ?thesis
      using a 3 ok cells by (cases b) (auto simp: vec_makes_def vec_block_def held_def requests_def)
  qed
qed

lemma vec_from_data_spec:
  fixes data :: "'e slots"
  assumes "tda_layout_is_type elem" "al \<noteq> 0"
  shows "vec_makes h al elem (length data) (tda_vec_from_data data elem al h) data"
proof -
  obtain res h' where r: "vec_init_impl (None :: 'e option) (length data) (length data) elem al h = Some (res, h')"
    and m: "case res of
       Inr v \<Rightarrow> vec_ok v \<and> velem v = elem \<and> valloc v = al \<and> vcap v = length data \<and>
         vec_cells v = replicate (length data) None \<and> requests h al {#} (vec_block v) True h'
     | Inl st \<Rightarrow> st = TDA_STATUS_ERR_NO_MEM \<and> requests h al {#} {#} False h' \<and>
         (generous h al \<longrightarrow> SIZE_MAX < lsize elem * length data)"
    using vec_init_impl_spec [OF assms order_refl, of h "length data" "None :: 'e option"] unfolding vec_makes_def by blast
  show ?thesis
  proof (cases res)
    case (Inl st)
    then show ?thesis using r m assms by (simp add: tda_vec_from_data_def vec_makes_def)
  next
    case (Inr v)
    with m have ok: "vec_ok v" "velem v = elem" "valloc v = al" "vcap v = length data"
      "requests h al {#} (vec_block v) True h'" and c: "vec_cells v = replicate (length data) None" by simp_all
    have len: "vlen v = length data" using length_vec_cells [OF ok(1)] c by simp
    have put: "(if length data > 0 then slots_put (vdata v) 0 data else Some (vdata v)) = Some data"
      using vec_okD(4) [OF ok(1)] ok(4) by (auto simp: slots_put_Some)
    have "tda_vec_from_data data elem al h = (do {
        d \<leftarrow> if length data > 0 then slots_put (vdata v) 0 data else Some (vdata v);
        Some (Inr (v\<lparr>vdata := d\<rparr>), h')
      })"
      using r assms Inr by (simp add: tda_vec_from_data_def)
    also have "\<dots> = Some (Inr (v\<lparr>vdata := data\<rparr>), h')" by (simp only: put Option.bind.bind_lunit)
    finally show ?thesis
      using ok len by (simp add: vec_makes_def vec_ok_def vec_cells_def vec_block_def)
  qed
qed

lemma vec_copy_with_spec:
  assumes "vec_ok v" "al \<noteq> 0"
  shows "vec_makes h al (velem v) (vlen v) (tda_vec_copy_with v al h) (vec_cells v)"
proof -
  have "tda_vec_copy_with v al h = tda_vec_from_data (vec_cells v) (velem v) al h"
    using assms vec_okD(1,5) [OF assms(1)]
    by (simp add: tda_vec_copy_with_def tda_vec_to_span_def tda_vec_from_span_def vec_cells_def)
  then show ?thesis
    using vec_from_data_spec [OF vec_okD(1) [OF assms(1)] assms(2), of h "vec_cells v"] assms(1) by simp
qed

lemma vec_deinit_spec:
  assumes "vec_ok v" "vec_owns h v"
  shows "\<exists>h'. tda_vec_deinit v h = Some (vec_null, h') \<and> requests h (valloc v) (vec_block v) {#} True h'"
proof -
  note ok = vec_okD [OF assms(1)]
  obtain h' where "al_dealloc (valloc v) (vcap v \<noteq> 0) \<lparr>lsize = lsize (velem v) * vcap v, lalign = lalign (velem v)\<rparr> h = Some h'"
    "lives h' = (lives h)(valloc v := lives h (valloc v) - held (velem v) (vcap v))"
    "\<And>c. generous h c \<Longrightarrow> generous h' c"
    using al_dealloc_held [OF ok(5,1), of "vcap v" h] assms(2) unfolding vec_owns_def vec_block_def by blast
  then show ?thesis
    using assms(1) ok(5,7) by (simp add: tda_vec_deinit_def vec_block_layout_ok vec_block_def requests_def)
qed

lemma vec_copy_assign_spec:
  assumes "vec_ok v" "vec_owns h v" "vec_ok w" "velem w = velem v" "same \<Longrightarrow> w = v"
  shows "vec_does h v (tda_vec_copy_assign same v w h) (vlen w) (vec_cells w)"
proof (cases same)
  case True
  then show ?thesis
    using assms vec_grown_refl [OF assms(1,2), of "vlen v"] vec_okD(3) [OF assms(1)]
    by (simp add: vec_does_def tda_vec_copy_assign_def EXPECT_SAME_VEC_def tda_layout_eq_def)
next
  case same: False
  obtain st v1 h1 where r: "tda_vec_reserve v (vlen w) h = Some (st, v1, h1)"
    and g: "vec_grown h v (vlen w) st v1 h1"
    using vec_reserve_spec [OF assms(1,2), of "vlen w"] unfolding vec_does_def by blast
  show ?thesis
  proof (cases "st = TDA_STATUS_OK")
    case False
    then show ?thesis using r g same assms
      by (intro vec_does_refused [of _ st v1 h1])
        (simp_all add: tda_vec_copy_assign_def EXPECT_SAME_VEC_def tda_layout_eq_def status_is_err_iff)
  next
    case ok: True
    have cap: "vlen w \<le> vcap v1" "length (vdata v1) = vcap v1"
      using g ok by (simp_all add: vec_grown_def vec_ok_def)
    let ?d = "vec_cells w @ drop (vlen w) (vdata v1)"
    let ?v = "v1\<lparr>vdata := ?d, vlen := vlen w\<rparr>"
    have len: "length (vec_cells w) = vlen w" using assms(3) by simp
    have put: "(if vlen w > 0 then slots_put (vdata v1) 0 (take (vlen w) (vdata w)) else Some (vdata v1)) = Some ?d"
      using cap len by (auto simp: vec_cells_def [symmetric] slots_put_Some)
    have g': "vec_grown h v (vlen w) TDA_STATUS_OK ?v h1"
      using g ok cap len by (intro vec_grown_edit) simp_all
    then have okv: "vec_ok ?v" by (simp add: vec_grown_def)
    have "tda_vec_copy_assign same v w h = (do {
        d \<leftarrow> if vlen w > 0 then slots_put (vdata v1) 0 (take (vlen w) (vdata w)) else Some (vdata v1);
        ASSERT_VEC (v1\<lparr>vdata := d, vlen := vlen w\<rparr>);
        Some (TDA_STATUS_OK, v1\<lparr>vdata := d, vlen := vlen w\<rparr>, h1)
      })"
      using r ok same assms
      by (simp add: tda_vec_copy_assign_def EXPECT_SAME_VEC_def tda_layout_eq_def Let_def)
    also have "\<dots> = Some (TDA_STATUS_OK, ?v, h1)"
      by (simp only: put Option.bind.bind_lunit ASSERT_VEC_ok [OF okv])
    finally have "tda_vec_copy_assign same v w h = Some (TDA_STATUS_OK, ?v, h1)" .
    moreover have "vec_cells ?v = vec_cells w" unfolding vec_cells_def [of ?v] using len by simp
    ultimately show ?thesis using g' by (blast intro: vec_doesI)
  qed
qed

lemma vec_move_assign_spec:
  fixes v w :: "'e vec"
  assumes "vec_ok v" "vec_owns h v" "vec_ok w" "velem w = velem v"
  shows "\<exists>w' h'. tda_vec_move_assign False v w h = Some (w, w', h') \<and> vec_ok w' \<and> vec_cells w' = [] \<and>
    vec_block w' = {#} \<and> velem w' = velem w \<and> valloc w' = valloc w \<and>
    requests h (valloc v) (vec_block v) {#} True h'"
proof -
  obtain h' where d: "tda_vec_deinit v h = Some (vec_null, h')" "requests h (valloc v) (vec_block v) {#} True h'"
    using vec_deinit_spec [OF assms(1,2)] by blast
  let ?w = "\<lparr>vdata = [], vlen = 0, vcap = 0, velem = velem w, valloc = valloc w\<rparr> :: 'e vec"
  have okw: "vec_ok ?w" using vec_okD [OF assms(3)] by (simp add: vec_ok_def)
  have "tda_vec_init (velem w) (valloc w) = Some ?w"
    using vec_okD [OF assms(3)] by (simp add: tda_vec_init_def)
  then have "tda_vec_move_assign False v w h = Some (w, ?w, h')"
    using assms d(1) okw vec_okD(5) [OF assms(1)]
    by (simp add: tda_vec_move_assign_def EXPECT_SAME_VEC_def tda_layout_eq_def Let_def)
  then show ?thesis using d(2) okw by (simp add: vec_cells_def vec_block_def)
qed

section \<open>Histories\<close>

text \<open>
  One call on a vec, or a write of the program into one of its slots. The state is the account and
  the vec.
\<close>

inductive vec_step :: "heap \<times> 'e vec \<Rightarrow> heap \<times> 'e vec \<Rightarrow> bool" where
  step_push: "vec_arg_ok v val \<Longrightarrow> tda_vec_push v val h = Some (st, v', h') \<Longrightarrow> vec_step (h, v) (h', v')"
| step_add_one: "tda_vec_add_one v h = Some (st, v', h') \<Longrightarrow> vec_step (h, v) (h', v')"
| step_insert: "vec_arg_ok v val \<Longrightarrow> idx \<le> vlen v \<Longrightarrow> tda_vec_insert v idx val h = Some (st, v', h') \<Longrightarrow>
    vec_step (h, v) (h', v')"
| step_insert_span: "idx \<le> vlen v \<Longrightarrow> tda_vec_insert_span v idx src (velem v) h = Some (st, v', h') \<Longrightarrow>
    vec_step (h, v) (h', v')"
| step_extend: "tda_vec_extend v src (velem v) h = Some (st, v', h') \<Longrightarrow> vec_step (h, v) (h', v')"
| step_resize: "tda_vec_resize zero v n h = Some (st, v', h') \<Longrightarrow> vec_step (h, v) (h', v')"
| step_reserve: "tda_vec_reserve v n h = Some (st, v', h') \<Longrightarrow> vec_step (h, v) (h', v')"
| step_shrink: "tda_vec_shrink_to_fit v h = Some (st, v', h') \<Longrightarrow> vec_step (h, v) (h', v')"
| step_assign: "vec_ok w \<Longrightarrow> velem w = velem v \<Longrightarrow> tda_vec_copy_assign False v w h = Some (st, v', h') \<Longrightarrow>
    vec_step (h, v) (h', v')"
| step_pop: "0 < vlen v \<Longrightarrow> tda_vec_pop v = Some v' \<Longrightarrow> vec_step (h, v) (h, v')"
| step_pop_to: "0 < vlen v \<Longrightarrow> tda_vec_pop_to v = Some (out, v') \<Longrightarrow> vec_step (h, v) (h, v')"
| step_push_cap: "vec_arg_ok v val \<Longrightarrow> tda_vec_push_assume_cap v val = Some v' \<Longrightarrow> vec_step (h, v) (h, v')"
| step_add_cap: "tda_vec_add_one_assume_cap v = Some (i, v') \<Longrightarrow> vec_step (h, v) (h, v')"
| step_clear: "tda_vec_clear v = Some v' \<Longrightarrow> vec_step (h, v) (h, v')"
| step_truncate: "tda_vec_truncate v n = Some v' \<Longrightarrow> vec_step (h, v) (h, v')"
| step_remove: "idx < vlen v \<Longrightarrow> tda_vec_remove v idx = Some v' \<Longrightarrow> vec_step (h, v) (h, v')"
| step_remove_range: "idx + cnt \<le> vlen v \<Longrightarrow> tda_vec_remove_range v idx cnt = Some v' \<Longrightarrow> vec_step (h, v) (h, v')"
| step_swap_remove: "idx < vlen v \<Longrightarrow> tda_vec_swap_remove v idx = Some v' \<Longrightarrow> vec_step (h, v) (h, v')"
| step_set: "vec_arg_ok v val \<Longrightarrow> idx < vlen v \<Longrightarrow> tda_vec_set v idx val = Some v' \<Longrightarrow> vec_step (h, v) (h, v')"
| step_swap_elems: "i < vlen v \<Longrightarrow> j < vlen v \<Longrightarrow> tda_vec_swap_elems v i j = Some v' \<Longrightarrow> vec_step (h, v) (h, v')"
| step_retain: "vec_cells v = map Some xs \<Longrightarrow> tda_vec_retain pred v = Some v' \<Longrightarrow> vec_step (h, v) (h, v')"
| step_write: "vec_step (h, v) (h, v\<lparr>vdata := (vdata v)[i := cell]\<rparr>)"

text \<open>What every call keeps: one block is out for the vec, and the rest of every account is as it was.\<close>

definition vec_holds :: "heap \<Rightarrow> heap \<times> 'e vec \<Rightarrow> bool" where
  "vec_holds h0 s \<longleftrightarrow> vec_ok (snd s) \<and>
     requests h0 (valloc (snd s)) {#} (vec_block (snd s)) True (fst s)"

lemma vec_holds_owns: "vec_holds h0 (h, v) \<Longrightarrow> vec_owns h v"
  by (auto simp: vec_holds_def vec_owns_def dest: requests_lives)

lemma vec_holds_grown: "vec_holds h0 (h, v) \<Longrightarrow> vec_grown h v n st v' h' \<Longrightarrow> vec_holds h0 (h', v')"
  by (auto simp: vec_holds_def vec_grown_def intro: requests_trans)

lemma vec_holds_does:
  "r = Some (st, v', h') \<Longrightarrow> vec_holds h0 (h, v) \<Longrightarrow> vec_does h v r n xs \<Longrightarrow> vec_holds h0 (h', v')"
  by (auto simp: vec_does_def intro: vec_holds_grown)

lemma vec_holds_edits:
  "r = Some v' \<Longrightarrow> vec_holds h0 (h, v) \<Longrightarrow> vec_edits v r xs \<Longrightarrow> vec_holds h0 (h, v')"
  by (auto simp: vec_holds_def vec_edits_def vec_block_def)

lemma vec_holds_ok: "vec_holds h0 (h, v) \<Longrightarrow> vec_ok v"
  by (simp add: vec_holds_def)

lemmas vec_call_specs = vec_push_spec vec_insert_spec vec_insert_span_spec vec_extend_spec vec_resize_spec
  vec_reserve_spec vec_copy_assign_spec vec_pop_spec vec_clear_spec vec_truncate_spec vec_remove_spec
  vec_remove_range_spec vec_swap_remove_spec vec_set_spec vec_swap_elems_spec vec_retain_spec

lemma vec_step_holds:
  "vec_step s t \<Longrightarrow> vec_holds h0 s \<Longrightarrow> vec_holds h0 t"
proof (induction rule: vec_step.induct)
  case (step_shrink v h st v' h')
  then show ?case
    using vec_shrink_spec [of v h] vec_holds_owns [OF step_shrink(2)]
    by (auto simp: vec_holds_def [of _ "(h, v)"] intro: vec_holds_grown [OF step_shrink(2)])
next
  case (step_add_one v h st v' h')
  then show ?case
    using vec_add_one_spec [of v h] vec_holds_owns [OF step_add_one(2)] vec_holds_does [OF step_add_one]
    by (auto simp: vec_holds_def [of _ "(h, v)"])
next
  case (step_pop_to v out v' h)
  have "vec_edits v (Some v') (butlast (vec_cells v))"
    using vec_pop_to_spec [OF vec_holds_ok [OF step_pop_to(3)] step_pop_to(1)] step_pop_to(2) by auto
  then show ?case by (rule vec_holds_edits [OF refl step_pop_to(3)])
next
  case (step_push_cap v val v' h)
  then show ?case
    by (auto simp: tda_vec_push_assume_cap_def bind_Some_iff slots_put_def chk_def vec_holds_def vec_ok_def vec_block_def
        split: if_splits)
next
  case (step_add_cap v i v' h)
  then show ?case
    by (auto simp: tda_vec_add_one_assume_cap_def bind_Some_iff chk_def vec_holds_def vec_ok_def vec_block_def split: if_splits)
next
  case (step_write h v i cell)
  then show ?case by (simp add: vec_holds_def vec_ok_def vec_block_def)
qed ((erule (1) vec_holds_does vec_holds_edits, rule vec_call_specs; blast intro: vec_holds_ok vec_holds_owns)+)

section \<open>The contract\<close>

text \<open>The vec as a container, for those built on it.\<close>

definition vec_view :: "'e vec \<Rightarrow> (layout, 'e slots) holder" where
  "vec_view v = \<lparr>hgood = vec_ok v, hkind = velem v, hal = valloc v, hblocks = vec_block v, hval = vec_cells v\<rparr>"

lemma vec_view_simps [simp]:
  "hgood (vec_view v) = vec_ok v" "hkind (vec_view v) = velem v" "hal (vec_view v) = valloc v"
  "hblocks (vec_view v) = vec_block v" "hval (vec_view v) = vec_cells v"
  by (simp_all add: vec_view_def)

lemma held_by_vec: "held_by vec_view h v \<longleftrightarrow> vec_ok v \<and> vec_owns h v"
  by (simp add: held_by_def vec_owns_def)

lemma vec_does_call:
  assumes "vec_does h v r n xs"
  shows "call_does vec_view h v r (lsize (velem v) * n \<le> SIZE_MAX) xs"
proof -
  obtain st v' h' where r: "r = Some (st, v', h')" and g: "vec_grown h v n st v' h'"
    and c: "vec_cells v' = (if st = TDA_STATUS_OK then xs else vec_cells v)"
    using assms unfolding vec_does_def by blast
  show ?thesis
    unfolding r using g c by (intro doesI) (auto simp: call_grows_def vec_grown_def)
qed

lemma vec_edits_call: "vec_ok v \<Longrightarrow> vec_edits v r xs \<Longrightarrow> call_edits vec_view v r xs"
  by (auto simp: vec_edits_def call_edits_def vec_view_def vec_block_def)

lemma vec_makes_call:
  assumes "vec_makes h al elem n r xs"
  shows "call_makes vec_view h al elem r (lsize elem * n \<le> SIZE_MAX) xs"
proof -
  obtain res h' where r: "r = Some (res, h')" and c: "case res of
       Inr v \<Rightarrow> vec_ok v \<and> velem v = elem \<and> valloc v = al \<and> vcap v = n \<and> vec_cells v = xs \<and>
         requests h al {#} (vec_block v) True h'
     | Inl st \<Rightarrow> st = TDA_STATUS_ERR_NO_MEM \<and> requests h al {#} {#} False h' \<and>
         (generous h al \<longrightarrow> SIZE_MAX < lsize elem * n)"
    using assms unfolding vec_makes_def by blast
  show ?thesis
    unfolding r call_makes_def using c requests_refused [of h al "{#}" "{#}" h' "{#}"] by (cases res) auto
qed

lemma holds_since_vec: "holds_since vec_view h0 s = vec_holds h0 s"
  by (simp add: holds_since_def vec_holds_def)

lemma vec_shrink_call:
  assumes "vec_ok v" "vec_owns h v"
  shows "call_does vec_view h v (tda_vec_shrink_to_fit v h) (lsize (velem v) * vlen v \<le> SIZE_MAX) (vec_cells v)"
  using vec_shrink_spec [OF assms] by (intro vec_does_call) (auto simp: vec_does_def)

lemma vec_deinit_call: "held_by vec_view h v \<Longrightarrow> call_ends vec_view h v (tda_vec_deinit v h)"
  using vec_deinit_spec [of v h] by (auto simp: held_by_vec call_ends_def)

interpretation vec: container vec_view vec_step tda_vec_deinit
  by unfold_locales (simp add: holds_since_vec vec_step_holds, rule vec_deinit_call)

section \<open>The properties\<close>

text \<open>The checks of the indices.\<close>

lemmas vec_bounded = tda_vec_insert_def tda_vec_insert_span_def tda_vec_set_def tda_vec_remove_def tda_vec_swap_remove_def
  tda_vec_swap_elems_def tda_vec_pop_def tda_vec_remove_range_def chk_def

text \<open>
  C22: on a vec whose block the allocator has out, every operation is the list operation on its
  elements: push and insert (of a value inside the vec too), insert_span, extend, resize, reserve,
  pop, set, remove, remove_range, swap_remove, swap_elems, truncate and retain; the ones that grow
  it fail only when the allocator refuses or the bytes do not fit, and then change nothing.
\<close>

theorem vec_operations:
  fixes v :: "'e vec"
  assumes "vec_ok v" "vec_owns h v"
  shows "(\<forall>val. vec_arg_ok v val \<longrightarrow>
      vec_does h v (tda_vec_push v val h) (vlen v + 1) (vec_cells v @ [vec_arg_val v val])) \<and>
    (\<forall>val i. vec_arg_ok v val \<and> i \<le> vlen v \<longrightarrow> vec_does h v (tda_vec_insert v i val h) (vlen v + 1)
      (take i (vec_cells v) @ [vec_arg_val v val] @ drop i (vec_cells v))) \<and>
    (\<forall>i src. i \<le> vlen v \<longrightarrow> vec_does h v (tda_vec_insert_span v i src (velem v) h) (vlen v + length src)
      (take i (vec_cells v) @ src @ drop i (vec_cells v))) \<and>
    (\<forall>src. vec_does h v (tda_vec_extend v src (velem v) h) (vlen v + length src) (vec_cells v @ src)) \<and>
    (\<forall>zero m. vec_does h v (tda_vec_resize zero v m h) m (take m (vec_cells v) @ replicate (m - vlen v) (Some zero))) \<and>
    (\<forall>m. vec_does h v (tda_vec_reserve v m h) m (vec_cells v)) \<and>
    (\<exists>st v' h'. tda_vec_shrink_to_fit v h = Some (st, v', h') \<and> vec_grown h v (vlen v) st v' h' \<and>
      vec_cells v' = vec_cells v \<and> (st = TDA_STATUS_OK \<longrightarrow> vcap v' = vlen v)) \<and>
    (0 < vlen v \<longrightarrow> vec_edits v (tda_vec_pop v) (butlast (vec_cells v))) \<and>
    (\<forall>val i. vec_arg_ok v val \<and> i < vlen v \<longrightarrow> vec_edits v (tda_vec_set v i val) ((vec_cells v)[i := vec_arg_val v val])) \<and>
    (\<forall>i < vlen v. vec_edits v (tda_vec_remove v i) (take i (vec_cells v) @ drop (i + 1) (vec_cells v))) \<and>
    (\<forall>k n. k + n \<le> vlen v \<longrightarrow> vec_edits v (tda_vec_remove_range v k n) (take k (vec_cells v) @ drop (k + n) (vec_cells v))) \<and>
    (\<forall>i < vlen v. vec_edits v (tda_vec_swap_remove v i) (butlast ((vec_cells v)[i := last (vec_cells v)]))) \<and>
    (\<forall>i j. i < vlen v \<and> j < vlen v \<longrightarrow>
      vec_edits v (tda_vec_swap_elems v i j) ((vec_cells v)[i := vec_cells v ! j, j := vec_cells v ! i])) \<and>
    (\<forall>m. vec_edits v (tda_vec_truncate v m) (take m (vec_cells v))) \<and>
    (\<forall>pred xs. vec_cells v = map Some xs \<longrightarrow> vec_edits v (tda_vec_retain pred v) (map Some (filter pred xs))) \<and>
    (\<forall>i val src. vlen v < i \<longrightarrow> tda_vec_insert v i val h = None \<and> tda_vec_insert_span v i src (velem v) h = None) \<and>
    (\<forall>i j val. vlen v \<le> i \<longrightarrow> tda_vec_set v i val = None \<and> tda_vec_remove v i = None \<and> tda_vec_swap_remove v i = None \<and>
      tda_vec_swap_elems v i j = None \<and> tda_vec_swap_elems v j i = None) \<and>
    (vlen v = 0 \<longrightarrow> tda_vec_pop v = None) \<and> (\<forall>k n. vlen v < k + n \<longrightarrow> tda_vec_remove_range v k n = None)"
  using assms by (intro conjI allI impI vec_call_specs vec_shrink_spec) (auto simp: vec_bounded)

text \<open>
  An empty vec, to which an element is pushed, and two elements in a block of three; the second is
  inserted again behind the end, by its address.
\<close>

theorem vec_operations_witness:
  "(let v = \<lparr>vdata = [], vlen = 0, vcap = 0, velem = \<lparr>lsize = 4, lalign = 4\<rparr>, valloc = 1\<rparr>;
       h = (\<lambda>_. \<lparr>answers = [], live = {#}\<rparr>)
     in vec_does h v (tda_vec_push v (Apart (Some 7)) h) 1 [Some (7 :: 32 word)] \<and> tda_vec_pop v = None) \<and>
   (let v = \<lparr>vdata = [Some 7, Some 8, None], vlen = 2, vcap = 3, velem = \<lparr>lsize = 4, lalign = 4\<rparr>, valloc = 1\<rparr>;
       h = (\<lambda>_. \<lparr>answers = [], live = {#\<lparr>lsize = 12, lalign = 4\<rparr>#}\<rparr>)
     in vec_does h v (tda_vec_insert v 2 (Within 4) h) 3 [Some 7, Some 8, Some (8 :: 32 word)])"
proof
  let ?v = "\<lparr>vdata = [], vlen = 0, vcap = 0, velem = \<lparr>lsize = 4, lalign = 4\<rparr>, valloc = 1\<rparr> :: 32 word vec"
  let ?h = "(\<lambda>_. \<lparr>answers = [], live = {#}\<rparr>) :: heap"
  have al: "tda_layout_is_align 4" by (simp add: is_align_iff) (rule exI [of _ 2], simp)
  then have v: "vec_ok ?v" "vec_owns ?h ?v" "vec_arg_ok ?v (Apart (Some 7))"
    by (simp_all add: vec_ok_def vec_owns_def vec_block_def held_def lives_def tda_layout_is_type_def vec_arg_ok_def SIZE_MAX_def)
  have "vec_does ?h ?v (tda_vec_push ?v (Apart (Some 7)) ?h) (vlen ?v + 1) (vec_cells ?v @ [vec_arg_val ?v (Apart (Some 7))])"
    by (rule vec_operations [OF v(1,2), THEN conjunct1, THEN spec, THEN mp, OF v(3)])
  moreover have "tda_vec_pop ?v = None" using vec_operations [OF v(1,2)] by simp
  moreover have "vlen ?v + 1 = 1" "vec_cells ?v @ [vec_arg_val ?v (Apart (Some 7))] = [Some 7]"
    by (simp_all add: vec_cells_def vec_arg_val_def)
  ultimately show "let v = ?v; h = ?h in vec_does h v (tda_vec_push v (Apart (Some 7)) h) 1 [Some 7] \<and> tda_vec_pop v = None"
    unfolding Let_def by (simp only: simp_thms)
  let ?w = "\<lparr>vdata = [Some 7, Some 8, None], vlen = 2, vcap = 3, velem = \<lparr>lsize = 4, lalign = 4\<rparr>, valloc = 1\<rparr> :: 32 word vec"
  let ?k = "(\<lambda>_. \<lparr>answers = [], live = {#\<lparr>lsize = 12, lalign = 4\<rparr>#}\<rparr>) :: heap"
  have w: "vec_ok ?w" "vec_owns ?k ?w" "vec_arg_ok ?w (Within 4)" "2 \<le> vlen ?w"
    using al by (simp_all add: vec_ok_def vec_owns_def vec_block_def held_def lives_def tda_layout_is_type_def vec_arg_ok_def
        vec_cells_def SIZE_MAX_def)
  have "vec_does ?k ?w (tda_vec_insert ?w 2 (Within 4) ?k) (vlen ?w + 1)
      (take 2 (vec_cells ?w) @ [vec_arg_val ?w (Within 4)] @ drop 2 (vec_cells ?w))"
    by (rule vec_operations [OF w(1,2), THEN conjunct2, THEN conjunct1, THEN spec, THEN spec, THEN mp, OF conjI [OF w(3,4)]])
  moreover have "vlen ?w + 1 = 3" "take 2 (vec_cells ?w) @ [vec_arg_val ?w (Within 4)] @ drop 2 (vec_cells ?w) = [Some 7, Some 8, Some 8]"
    by (simp_all add: vec_cells_def vec_arg_val_def)
  ultimately show "let v = ?w; h = ?k in vec_does h v (tda_vec_insert v 2 (Within 4) h) 3 [Some 7, Some 8, Some 8]"
    unfolding Let_def by (simp only:)
qed

lemma vec_history:
  assumes "tda_vec_init elem al = Some v0" "vec_step\<^sup>*\<^sup>* (h0, v0) (h, v)"
  shows "vec_ok v \<and> vec_owns h v \<and>
    (\<exists>h'. tda_vec_deinit v h = Some (vec_null, h') \<and> lives h' = lives h0)"
proof -
  have "vec_ok v0" "vec_block v0 = {#}"
    using assms(1) by (auto simp: tda_vec_init_def vec_ok_def vec_block_def)
  then have "holds_since vec_view h0 (h0, v0)" by (simp add: holds_since_def requests_refl)
  note fin = vec.history_leaks_nothing [OF assms(2) this]
  then have v: "vec_ok v" "vec_owns h v" by (simp_all add: held_by_vec)
  then show ?thesis using fin vec_deinit_spec [OF v] by auto
qed

lemma vec_copies:
  fixes v w :: "'e vec"
  assumes "vec_ok v" "vec_owns h v" "vec_ok w" "velem w = velem v" "al \<noteq> 0"
  shows "vec_makes h al (velem v) (vlen v) (tda_vec_copy_with v al h) (vec_cells v) \<and>
    vec_does h v (tda_vec_copy_assign False v w h) (vlen w) (vec_cells w) \<and>
    (\<exists>w' h'. tda_vec_move_assign False v w h = Some (w, w', h') \<and> vec_cells w' = [] \<and> valloc w' = valloc w \<and>
       requests h (valloc v) (vec_block v) {#} True h') \<and>
    (\<exists>data len elem cap. tda_vec_into_raw v = Some ((data, len, elem), cap, vec_null) \<and>
       tda_vec_init_raw data len elem cap (valloc v) = Some v)"
proof (intro conjI)
  show "vec_makes h al (velem v) (vlen v) (tda_vec_copy_with v al h) (vec_cells v)"
    by (rule vec_copy_with_spec [OF assms(1,5)])
  show "vec_does h v (tda_vec_copy_assign False v w h) (vlen w) (vec_cells w)"
    by (rule vec_copy_assign_spec [OF assms(1-4)]) simp
  show "\<exists>w' h'. tda_vec_move_assign False v w h = Some (w, w', h') \<and> vec_cells w' = [] \<and> valloc w' = valloc w \<and>
      requests h (valloc v) (vec_block v) {#} True h'"
    using vec_move_assign_spec [OF assms(1-4)] by blast
  note ok = vec_okD [OF assms(1)]
  show "\<exists>data len elem cap. tda_vec_into_raw v = Some ((data, len, elem), cap, vec_null) \<and>
      tda_vec_init_raw data len elem cap (valloc v) = Some v"
    using assms(1) ok(1-6) vec_okD(7) [OF assms(1)]
    by (cases "vdata v = []") (simp_all add: tda_vec_into_raw_def tda_vec_init_raw_def ckd_array_type)
qed

end
