(* ===== verification/Stack.thy ===== *)
theory Stack
  imports Vec
begin

text \<open>
  \<open>ds/stack.h\<close> and \<open>ds/stack.c\<close>: a vec with fewer operations, whose last element is the top. Growth,
  allocator and copies are the vec's, and the proofs rest on the vec's contract.
\<close>

record 'e stack =
  stvec :: "'e vec"

definition ASSERT_STACK :: "'e stack \<Rightarrow> unit option" where
  "ASSERT_STACK s = chk (valloc (stvec s) \<noteq> 0)"

definition EXPECT_SAME_STACK :: "'e stack \<Rightarrow> 'f stack \<Rightarrow> unit option" where
  "EXPECT_SAME_STACK a b = do {
     la \<leftarrow> tda_vec_elem_layout (stvec a);
     lb \<leftarrow> tda_vec_elem_layout (stvec b);
     chk (tda_layout_eq la lb)
   }"

definition stack_of :: "((tda_status + 'e vec) \<times> heap) option \<Rightarrow> ((tda_status + 'e stack) \<times> heap) option" where
  "stack_of r = do { (res, h) \<leftarrow> r; Some (map_sum id (\<lambda>v. \<lparr>stvec = v\<rparr>) res, h) }"

section \<open>Lifetime\<close>

definition tda_stack_init :: "layout \<Rightarrow> al \<Rightarrow> 'e stack option" where
  "tda_stack_init elem al = do {
     chk (tda_layout_is_type elem);
     chk (al \<noteq> 0);
     v \<leftarrow> tda_vec_init elem al;
     Some \<lparr>stvec = v\<rparr>
   }"

definition tda_stack_init_cap :: "nat \<Rightarrow> layout \<Rightarrow> al \<Rightarrow> heap \<Rightarrow> ((tda_status + 'e stack) \<times> heap) option" where
  "tda_stack_init_cap cap elem al h = do {
     chk (tda_layout_is_type elem);
     chk (al \<noteq> 0);
     stack_of (tda_vec_init_cap cap elem al h)
   }"

definition tda_stack_from_data :: "'e slots \<Rightarrow> layout \<Rightarrow> al \<Rightarrow> heap \<Rightarrow> ((tda_status + 'e stack) \<times> heap) option" where
  "tda_stack_from_data data elem al h = do {
     chk (tda_layout_is_type elem);
     chk (al \<noteq> 0);
     stack_of (tda_vec_from_data data elem al h)
   }"

definition tda_stack_from_span :: "'e slots \<Rightarrow> layout \<Rightarrow> al \<Rightarrow> heap \<Rightarrow> ((tda_status + 'e stack) \<times> heap) option" where
  "tda_stack_from_span s elem al h = do {
     chk (tda_layout_is_type elem);
     chk (al \<noteq> 0);
     tda_stack_from_data s elem al h
   }"

definition tda_stack_deinit :: "'e stack \<Rightarrow> heap \<Rightarrow> ('e stack \<times> heap) option" where
  "tda_stack_deinit s h = do { (v, h) \<leftarrow> tda_vec_deinit (stvec s) h; Some (s\<lparr>stvec := v\<rparr>, h) }"

definition tda_stack_into_vec :: "'e stack \<Rightarrow> ('e vec \<times> 'e stack) option" where
  "tda_stack_into_vec s = do { ASSERT_STACK s; Some (stvec s, s\<lparr>stvec := vec_null\<rparr>) }"

section \<open>Copy and compare\<close>

definition tda_stack_copy_with :: "'e stack \<Rightarrow> al \<Rightarrow> heap \<Rightarrow> ((tda_status + 'e stack) \<times> heap) option" where
  "tda_stack_copy_with s al h = do {
     ASSERT_STACK s;
     chk (al \<noteq> 0);
     stack_of (tda_vec_copy_with (stvec s) al h)
   }"

definition tda_stack_copy :: "'e stack \<Rightarrow> heap \<Rightarrow> ((tda_status + 'e stack) \<times> heap) option" where
  "tda_stack_copy s h = do {
     ASSERT_STACK s;
     al \<leftarrow> tda_vec_al (stvec s);
     tda_stack_copy_with s al h
   }"

definition tda_stack_copy_assign ::
  "bool \<Rightarrow> 'e stack \<Rightarrow> 'e stack \<Rightarrow> heap \<Rightarrow> (tda_status \<times> 'e stack \<times> heap) option" where
  "tda_stack_copy_assign same s other h = do {
     ASSERT_STACK s;
     ASSERT_STACK other;
     EXPECT_SAME_STACK s other;
     (st, v, h) \<leftarrow> tda_vec_copy_assign same (stvec s) (stvec other) h;
     let s = s\<lparr>stvec := v\<rparr>;
     ASSERT_STACK s;
     Some (st, s, h)
   }"

definition tda_stack_move_assign ::
  "bool \<Rightarrow> 'e stack \<Rightarrow> 'e stack \<Rightarrow> heap \<Rightarrow> ('e stack \<times> 'e stack \<times> heap) option" where
  "tda_stack_move_assign same s other h = do {
     ASSERT_STACK other;
     (if valloc (stvec s) \<noteq> 0 then do { ASSERT_STACK s; EXPECT_SAME_STACK s other } else Some ());
     (v, w, h) \<leftarrow> tda_vec_move_assign same (stvec s) (stvec other) h;
     let s = s\<lparr>stvec := v\<rparr>;
     let other = other\<lparr>stvec := w\<rparr>;
     ASSERT_STACK s;
     ASSERT_STACK other;
     Some (s, other, h)
   }"

definition tda_stack_swap :: "bool \<Rightarrow> 'e stack \<Rightarrow> 'e stack \<Rightarrow> ('e stack \<times> 'e stack) option" where
  "tda_stack_swap same s other = do {
     ASSERT_STACK s;
     ASSERT_STACK other;
     EXPECT_SAME_STACK s other;
     (v, w) \<leftarrow> tda_vec_swap same (stvec s) (stvec other);
     let s = s\<lparr>stvec := v\<rparr>;
     let other = other\<lparr>stvec := w\<rparr>;
     ASSERT_STACK s;
     ASSERT_STACK other;
     Some (s, other)
   }"

definition tda_stack_eq :: "bool \<Rightarrow> byte list stack \<Rightarrow> byte list stack \<Rightarrow> bool option" where
  "tda_stack_eq same a b = do {
     ASSERT_STACK a;
     ASSERT_STACK b;
     EXPECT_SAME_STACK a b;
     tda_vec_eq same (stvec a) (stvec b)
   }"

definition tda_stack_eq_by :: "bool \<Rightarrow> ('e \<Rightarrow> 'e \<Rightarrow> bool) \<Rightarrow> 'e stack \<Rightarrow> 'e stack \<Rightarrow> bool option" where
  "tda_stack_eq_by same eq a b = do {
     ASSERT_STACK a;
     ASSERT_STACK b;
     EXPECT_SAME_STACK a b;
     tda_vec_eq_by same eq (stvec a) (stvec b)
   }"

section \<open>Access\<close>

definition tda_stack_len :: "'e stack \<Rightarrow> nat option" where
  "tda_stack_len s = do { chk (valloc (stvec s) \<noteq> 0); tda_vec_len (stvec s) }"

definition tda_stack_cap :: "'e stack \<Rightarrow> nat option" where
  "tda_stack_cap s = do { chk (valloc (stvec s) \<noteq> 0); tda_vec_cap (stvec s) }"

definition tda_stack_elem_layout :: "'e stack \<Rightarrow> layout option" where
  "tda_stack_elem_layout s = do { chk (valloc (stvec s) \<noteq> 0); tda_vec_elem_layout (stvec s) }"

definition tda_stack_al :: "'e stack \<Rightarrow> al option" where
  "tda_stack_al s = do { chk (valloc (stvec s) \<noteq> 0); tda_vec_al (stvec s) }"

definition tda_stack_to_span :: "'e stack \<Rightarrow> 'e slots option" where
  "tda_stack_to_span s = do { chk (valloc (stvec s) \<noteq> 0); tda_vec_to_span (stvec s) }"

text \<open>The index of the top.\<close>

definition tda_stack_top :: "'e stack \<Rightarrow> nat option" where
  "tda_stack_top s = do {
     chk (valloc (stvec s) \<noteq> 0);
     n \<leftarrow> tda_vec_len (stvec s);
     chk (n > 0);
     tda_vec_back (stvec s)
   }"

section \<open>Modifying\<close>

text \<open>A call of the vec's that may fail, and one that does not, on the vec inside.\<close>

definition stack_try :: "'e stack \<Rightarrow> (tda_status \<times> 'e vec \<times> heap) option \<Rightarrow> (tda_status \<times> 'e stack \<times> heap) option" where
  "stack_try s r = do {
     (st, v, h) \<leftarrow> r;
     let s = s\<lparr>stvec := v\<rparr>;
     ASSERT_STACK s;
     Some (st, s, h)
   }"

definition tda_stack_push :: "'e stack \<Rightarrow> 'e arg \<Rightarrow> heap \<Rightarrow> (tda_status \<times> 'e stack \<times> heap) option" where
  "tda_stack_push s val h = do { ASSERT_STACK s; stack_try s (tda_vec_push (stvec s) val h) }"

definition tda_stack_extend ::
  "'e stack \<Rightarrow> 'e slots \<Rightarrow> layout \<Rightarrow> heap \<Rightarrow> (tda_status \<times> 'e stack \<times> heap) option" where
  "tda_stack_extend s src elem h = do {
     ASSERT_STACK s;
     chk (tda_layout_is_type elem);
     l \<leftarrow> tda_vec_elem_layout (stvec s);
     chk (tda_layout_eq l elem);
     stack_try s (tda_vec_extend (stvec s) src elem h)
   }"

definition tda_stack_pop :: "'e stack \<Rightarrow> 'e stack option" where
  "tda_stack_pop s = do {
     chk (valloc (stvec s) \<noteq> 0);
     n \<leftarrow> tda_vec_len (stvec s);
     chk (n > 0);
     v \<leftarrow> tda_vec_pop (stvec s);
     Some (s\<lparr>stvec := v\<rparr>)
   }"

definition tda_stack_pop_to :: "'e stack \<Rightarrow> ('e option \<times> 'e stack) option" where
  "tda_stack_pop_to s = do {
     ASSERT_STACK s;
     n \<leftarrow> tda_vec_len (stvec s);
     chk (n > 0);
     (out, v) \<leftarrow> tda_vec_pop_to (stvec s);
     let s = s\<lparr>stvec := v\<rparr>;
     ASSERT_STACK s;
     Some (out, s)
   }"

definition tda_stack_clear :: "'e stack \<Rightarrow> 'e stack option" where
  "tda_stack_clear s = do {
     chk (valloc (stvec s) \<noteq> 0);
     v \<leftarrow> tda_vec_clear (stvec s);
     Some (s\<lparr>stvec := v\<rparr>)
   }"

definition tda_stack_reserve :: "'e stack \<Rightarrow> nat \<Rightarrow> heap \<Rightarrow> (tda_status \<times> 'e stack \<times> heap) option" where
  "tda_stack_reserve s new_cap h = do { ASSERT_STACK s; stack_try s (tda_vec_reserve (stvec s) new_cap h) }"

definition tda_stack_shrink_to_fit :: "'e stack \<Rightarrow> heap \<Rightarrow> (tda_status \<times> 'e stack \<times> heap) option" where
  "tda_stack_shrink_to_fit s h = do { ASSERT_STACK s; stack_try s (tda_vec_shrink_to_fit (stvec s) h) }"

section \<open>The contract\<close>

definition stack_view :: "'e stack \<Rightarrow> (layout, 'e slots) holder" where
  "stack_view s = vec_view (stvec s)"

text \<open>What the stack holds, bottom first.\<close>

definition stack_cells :: "'e stack \<Rightarrow> 'e slots" where
  "stack_cells s = vec_cells (stvec s)"

lemma held_by_stack: "held_by stack_view h s = held_by vec_view h (stvec s)"
  by (simp add: held_by_def stack_view_def)

lemma stack_vec:
  assumes "held_by stack_view h s"
  shows "vec_ok (stvec s)" "vec_owns h (stvec s)" "ASSERT_STACK s = Some ()"
    "tda_vec_len (stvec s) = Some (vlen (stvec s))" "tda_vec_elem_layout (stvec s) = Some (velem (stvec s))"
    "valloc (stvec s) \<noteq> 0" "length (stack_cells s) = vlen (stvec s)"
  using assms vec_okD(5) [of "stvec s"]
  by (simp_all add: held_by_stack held_by_vec ASSERT_STACK_def tda_vec_len_def tda_vec_elem_layout_def stack_cells_def)

lemma ASSERT_STACK_ok: "vec_ok v \<Longrightarrow> ASSERT_STACK (s\<lparr>stvec := v\<rparr>) = Some ()"
  using vec_okD(5) [of v] by (simp add: ASSERT_STACK_def)

lemma stack_try_does:
  assumes "call_does vec_view h (stvec s) r fits xs"
  shows "call_does stack_view h s (stack_try s r) fits xs"
  using assms by (rule wrap_does) (auto simp: stack_try_def stack_view_def ASSERT_STACK_ok)

lemma stack_edits:
  "call_edits vec_view (stvec s) (Some v) xs \<Longrightarrow> call_edits stack_view s (Some (s\<lparr>stvec := v\<rparr>)) xs"
  by (erule wrap_edits) (auto simp: stack_view_def)

lemma stack_makes:
  assumes "call_makes vec_view h al elem r fits xs"
  shows "call_makes stack_view h al elem (stack_of r) fits xs"
  using assms by (rule wrap_makes) (auto simp: stack_of_def stack_view_def)

lemma stack_push_ok:
  assumes "held_by stack_view h s" "vec_arg_ok (stvec s) val"
  shows "call_does stack_view h s (tda_stack_push s val h) (lsize (velem (stvec s)) * (vlen (stvec s) + 1) \<le> SIZE_MAX)
    (stack_cells s @ [vec_arg_val (stvec s) val])"
  using stack_vec [OF assms(1)] vec_does_call [OF vec_push_spec [of "stvec s" h val]] assms(2)
  by (simp add: tda_stack_push_def stack_try_does stack_cells_def)

lemma stack_extend_ok:
  assumes "held_by stack_view h s"
  shows "call_does stack_view h s (tda_stack_extend s src (velem (stvec s)) h)
    (lsize (velem (stvec s)) * (vlen (stvec s) + length src) \<le> SIZE_MAX) (stack_cells s @ src)"
  using stack_vec [OF assms] vec_does_call [OF vec_extend_spec [of "stvec s" h src]] vec_okD(1) [of "stvec s"]
  by (simp add: tda_stack_extend_def stack_try_does stack_cells_def tda_layout_eq_def)

lemma stack_reserve_ok:
  assumes "held_by stack_view h s"
  shows "call_does stack_view h s (tda_stack_reserve s n h) (lsize (velem (stvec s)) * n \<le> SIZE_MAX) (stack_cells s)"
  using stack_vec [OF assms] vec_does_call [OF vec_reserve_spec [of "stvec s" h n]]
  by (simp add: tda_stack_reserve_def stack_try_does stack_cells_def)

lemma stack_shrink_ok:
  assumes "held_by stack_view h s"
  shows "call_does stack_view h s (tda_stack_shrink_to_fit s h)
    (lsize (velem (stvec s)) * vlen (stvec s) \<le> SIZE_MAX) (stack_cells s)"
  using stack_vec [OF assms] vec_shrink_call [of "stvec s" h]
  by (simp add: tda_stack_shrink_to_fit_def stack_try_does stack_cells_def)

lemma stack_pop_ok:
  assumes "held_by stack_view h s" "stack_cells s \<noteq> []"
  shows "call_edits stack_view s (tda_stack_pop s) (butlast (stack_cells s))"
    "\<exists>s'. tda_stack_pop_to s = Some (last (stack_cells s), s') \<and> call_edits stack_view s (Some s') (butlast (stack_cells s))"
    "\<exists>i. tda_stack_top s = Some i \<and> stack_cells s ! i = last (stack_cells s)"
proof -
  note v = stack_vec [OF assms(1)]
  have n: "0 < vlen (stvec s)" using assms(2) v(7) by (metis length_greater_0_conv)
  obtain v1 where v1: "tda_vec_pop (stvec s) = Some v1" "call_edits vec_view (stvec s) (Some v1) (butlast (vec_cells (stvec s)))"
    using vec_edits_call [OF v(1) vec_pop_spec [OF v(1) n]] by (auto simp: call_edits_def)
  show "call_edits stack_view s (tda_stack_pop s) (butlast (stack_cells s))"
    using v n v1(1) stack_edits [OF v1(2)] by (simp add: tda_stack_pop_def stack_cells_def)
  obtain v2 where v2: "tda_vec_pop_to (stvec s) = Some (last (vec_cells (stvec s)), v2)"
    "call_edits vec_view (stvec s) (Some v2) (butlast (vec_cells (stvec s)))"
    using vec_pop_to_spec [OF v(1) n] vec_edits_call [OF v(1)] by blast
  have "valloc v2 = valloc (stvec s)" using v2(2) by (simp add: call_edits_def vec_view_def)
  then show "\<exists>s'. tda_stack_pop_to s = Some (last (stack_cells s), s') \<and> call_edits stack_view s (Some s') (butlast (stack_cells s))"
    using v n v2(1) stack_edits [OF v2(2)] by (simp add: tda_stack_pop_to_def stack_cells_def ASSERT_STACK_def)
  show "\<exists>i. tda_stack_top s = Some i \<and> stack_cells s ! i = last (stack_cells s)"
    using v n assms(2) by (simp add: tda_stack_top_def tda_vec_back_def last_conv_nth)
qed

lemma stack_clear_ok:
  assumes "held_by stack_view h s"
  shows "call_edits stack_view s (tda_stack_clear s) []"
proof -
  note v = stack_vec [OF assms]
  obtain v1 where "tda_vec_clear (stvec s) = Some v1" "call_edits vec_view (stvec s) (Some v1) []"
    using vec_edits_call [OF v(1) vec_clear_spec [OF v(1)]] by (auto simp: call_edits_def)
  then show ?thesis using v stack_edits by (simp add: tda_stack_clear_def)
qed

lemma stack_deinit_ok: "held_by stack_view h s \<Longrightarrow> call_ends stack_view h s (tda_stack_deinit s h)"
  using vec_deinit_call [of h "stvec s"] by (auto simp: held_by_stack call_ends_def tda_stack_deinit_def stack_view_def)

text \<open>One call on a stack, or a write of the program into its top.\<close>

inductive stack_step :: "heap \<times> 'e stack \<Rightarrow> heap \<times> 'e stack \<Rightarrow> bool" where
  st_push: "vec_arg_ok (stvec s) val \<Longrightarrow> tda_stack_push s val h = Some (st, s', h') \<Longrightarrow> stack_step (h, s) (h', s')"
| st_extend: "tda_stack_extend s src (velem (stvec s)) h = Some (st, s', h') \<Longrightarrow> stack_step (h, s) (h', s')"
| st_reserve: "tda_stack_reserve s n h = Some (st, s', h') \<Longrightarrow> stack_step (h, s) (h', s')"
| st_shrink: "tda_stack_shrink_to_fit s h = Some (st, s', h') \<Longrightarrow> stack_step (h, s) (h', s')"
| st_assign: "vec_ok (stvec r) \<Longrightarrow> velem (stvec r) = velem (stvec s) \<Longrightarrow> tda_stack_copy_assign False s r h = Some (st, s', h') \<Longrightarrow>
    stack_step (h, s) (h', s')"
| st_pop: "stack_cells s \<noteq> [] \<Longrightarrow> tda_stack_pop s = Some s' \<Longrightarrow> stack_step (h, s) (h, s')"
| st_pop_to: "stack_cells s \<noteq> [] \<Longrightarrow> tda_stack_pop_to s = Some (out, s') \<Longrightarrow> stack_step (h, s) (h, s')"
| st_clear: "tda_stack_clear s = Some s' \<Longrightarrow> stack_step (h, s) (h, s')"
| st_write: "stack_step (h, s) (h, s\<lparr>stvec := (stvec s)\<lparr>vdata := (vdata (stvec s))[i := cell]\<rparr>\<rparr>)"

lemma same_stack:
  assumes "vec_ok (stvec s)" "vec_ok (stvec r)" "velem (stvec r) = velem (stvec s)"
  shows "EXPECT_SAME_STACK s r = Some ()"
  using assms vec_okD(1,5) [OF assms(1)] vec_okD(1,5) [OF assms(2)]
  by (simp add: EXPECT_SAME_STACK_def tda_vec_elem_layout_def tda_layout_eq_def)

lemma stack_copy_assign_ok:
  assumes "held_by stack_view h s" "vec_ok (stvec r)" "velem (stvec r) = velem (stvec s)"
  shows "call_does stack_view h s (tda_stack_copy_assign False s r h)
    (lsize (velem (stvec s)) * vlen (stvec r) \<le> SIZE_MAX) (stack_cells r)"
proof -
  note s = stack_vec [OF assms(1)]
  have "tda_stack_copy_assign False s r h = stack_try s (tda_vec_copy_assign False (stvec s) (stvec r) h)"
    using s same_stack [OF s(1) assms(2,3)] ASSERT_STACK_ok [OF assms(2), of r]
    by (simp add: tda_stack_copy_assign_def stack_try_def)
  then show ?thesis
    using stack_try_does [OF vec_does_call [OF vec_copy_assign_spec [OF s(1,2) assms(2,3)]]] by (simp add: stack_cells_def)
qed

lemmas stack_call_specs = stack_copy_assign_ok stack_push_ok stack_extend_ok stack_reserve_ok stack_shrink_ok stack_pop_ok(1) stack_clear_ok

lemma stack_step_holds: "stack_step s t \<Longrightarrow> holds_since stack_view h0 s \<Longrightarrow> holds_since stack_view h0 t"
proof (induction rule: stack_step.induct)
  case (st_pop_to s out s' h)
  then have "call_edits stack_view s (Some s') (butlast (stack_cells s))"
    using stack_pop_ok(2) [OF holds_held [OF st_pop_to(3)] st_pop_to(1)] by auto
  then show ?case by (rule holds_edits [OF refl st_pop_to(3)])
next
  case (st_write h s i cell)
  then show ?case by (simp add: holds_since_def stack_view_def vec_ok_def vec_block_def)
qed ((erule (1) holds_does holds_edits, rule stack_call_specs; blast intro: holds_held)+)

interpretation stack: container stack_view stack_step tda_stack_deinit
  by unfold_locales (fact stack_step_holds, fact stack_deinit_ok)

section \<open>The properties\<close>

lemma stack_operations:
  assumes "held_by stack_view h s"
  shows "(\<forall>val. vec_arg_ok (stvec s) val \<longrightarrow>
      call_does stack_view h s (tda_stack_push s val h) (lsize (velem (stvec s)) * (vlen (stvec s) + 1) \<le> SIZE_MAX)
        (stack_cells s @ [vec_arg_val (stvec s) val])) \<and>
    (\<forall>src. call_does stack_view h s (tda_stack_extend s src (velem (stvec s)) h)
        (lsize (velem (stvec s)) * (vlen (stvec s) + length src) \<le> SIZE_MAX) (stack_cells s @ src)) \<and>
    (\<forall>n. call_does stack_view h s (tda_stack_reserve s n h) (lsize (velem (stvec s)) * n \<le> SIZE_MAX) (stack_cells s)) \<and>
    call_edits stack_view s (tda_stack_clear s) [] \<and>
    (stack_cells s \<noteq> [] \<longrightarrow>
      (\<exists>i. tda_stack_top s = Some i \<and> stack_cells s ! i = last (stack_cells s)) \<and>
      (\<exists>s'. tda_stack_pop_to s = Some (last (stack_cells s), s') \<and>
        call_edits stack_view s (Some s') (butlast (stack_cells s)))) \<and>
    (stack_cells s = [] \<longrightarrow> tda_stack_pop_to s = None \<and> tda_stack_top s = None)"
proof -
  have "stack_cells s = [] \<Longrightarrow> vlen (stvec s) = 0" using stack_vec(7) [OF assms] by simp
  then show ?thesis
    using stack_push_ok [OF assms] stack_extend_ok [OF assms] stack_reserve_ok [OF assms] stack_clear_ok [OF assms]
      stack_pop_ok(2,3) [OF assms] stack_vec [OF assms]
    by (simp add: tda_stack_pop_to_def tda_stack_top_def)
qed

end
