(* ===== verification/Deque.thy ===== *)
theory Deque
  imports Holder Bulk
begin

text \<open>
  \<open>ds/deque.h\<close> and \<open>ds/deque.c\<close>: the double-ended queue, a ring over one block. The record holds
  the slots of the block and where the front is; an index counts from the front and becomes a slot
  through \<open>tda_deque_slot_of\<close> alone. What the deque stands for is the block rotated so that the
  front comes first, cut at the length. Arguments are as in \<open>Vec\<close>.
\<close>

record 'e deque =
  dqdata :: "'e slots"
  dqlen :: nat
  dqcap :: nat
  dqhead :: nat
  dqelem :: layout
  dqal :: al

definition DEQUE_GROWTH_BASE :: nat where "DEQUE_GROWTH_BASE = 1"
definition DEQUE_GROWTH_FACTOR :: nat where "DEQUE_GROWTH_FACTOR = 2"

definition ASSERT_DEQUE :: "'e deque \<Rightarrow> unit option" where
  "ASSERT_DEQUE d = do {
     chk (tda_layout_is_type (dqelem d));
     chk (dqlen d \<le> dqcap d);
     chk (dqcap d = 0 \<or> dqdata d \<noteq> []);
     chk (dqdata d = [] \<or> dqcap d > 0);
     chk (dqcap d = 0 \<or> dqhead d < dqcap d);
     chk (dqcap d > 0 \<or> dqhead d = 0);
     chk (dqal d \<noteq> 0)
   }"

definition EXPECT_SAME_DEQUE :: "'e deque \<Rightarrow> 'f deque \<Rightarrow> unit option" where
  "EXPECT_SAME_DEQUE a b = chk (tda_layout_eq (dqelem a) (dqelem b))"

text \<open>The inert deque, \<open>(tda_Deque){}\<close>.\<close>

definition deque_null :: "'e deque" where
  "deque_null = \<lparr>dqdata = [], dqlen = 0, dqcap = 0, dqhead = 0, dqelem = \<lparr>lsize = 0, lalign = 0\<rparr>, dqal = 0\<rparr>"

section \<open>Slots and indices\<close>

definition tda_deque_slot_of :: "'e deque \<Rightarrow> nat \<Rightarrow> nat" where
  "tda_deque_slot_of d idx =
     (let room = dqcap d - dqhead d in if idx < room then dqhead d + idx else idx - room)"

definition deque_slot_fwd :: "'e deque \<Rightarrow> nat \<Rightarrow> nat \<Rightarrow> nat option" where
  "deque_slot_fwd d slot cnt = do {
     chk (slot < dqcap d);
     chk (cnt \<le> dqcap d);
     Some (if cnt < dqcap d - slot then slot + cnt else cnt - (dqcap d - slot))
   }"

definition deque_slot_back :: "'e deque \<Rightarrow> nat \<Rightarrow> nat \<Rightarrow> nat option" where
  "deque_slot_back d slot cnt = do {
     chk (slot < dqcap d);
     chk (cnt \<le> dqcap d);
     Some (if slot \<ge> cnt then slot - cnt else wsub (wadd slot (dqcap d)) cnt)
   }"

definition deque_slot_of :: "'e deque \<Rightarrow> nat \<Rightarrow> nat option" where
  "deque_slot_of d idx = do { chk (idx < dqcap d); Some (tda_deque_slot_of d idx) }"

text \<open>The cell at an index read, and written.\<close>

definition deque_elem_at :: "'e deque \<Rightarrow> nat \<Rightarrow> 'e option option" where
  "deque_elem_at d idx = do { chk (idx < dqcap d); slot_get (dqdata d) (tda_deque_slot_of d idx) }"

definition deque_elem_put :: "'e deque \<Rightarrow> nat \<Rightarrow> 'e option \<Rightarrow> 'e deque option" where
  "deque_elem_put d idx x = do {
     chk (idx < dqcap d);
     s \<leftarrow> slots_put (dqdata d) (tda_deque_slot_of d idx) [x];
     Some (d\<lparr>dqdata := s\<rparr>)
   }"

definition deque_run_from :: "'e deque \<Rightarrow> nat \<Rightarrow> nat \<Rightarrow> nat option" where
  "deque_run_from d slot cnt = do {
     chk (slot \<le> dqcap d);
     let to_end = dqcap d - slot in Some (if to_end < cnt then to_end else cnt)
   }"

definition deque_first_run :: "'e deque \<Rightarrow> nat option" where
  "deque_first_run d = deque_run_from d (dqhead d) (dqlen d)"

text \<open>The cells \<open>copy_out\<close> writes to its destination, in order.\<close>

definition deque_copy_out :: "'e deque \<Rightarrow> 'e slots option" where
  "deque_copy_out d =
     (if dqlen d = 0 then Some []
      else do {
        run \<leftarrow> deque_first_run d;
        a \<leftarrow> slots_read (dqdata d) (dqhead d) run;
        if run < dqlen d then do {
          b \<leftarrow> slots_read (dqdata d) 0 (dqlen d - run);
          Some (a @ b)
        }
        else Some a
      })"

definition deque_copy_range_in :: "'e deque \<Rightarrow> nat \<Rightarrow> 'e slots \<Rightarrow> 'e deque option" where
  "deque_copy_range_in d idx src = do {
     chk (idx + length src \<le> dqlen d);
     if length src = 0 then Some d
     else do {
       slot \<leftarrow> deque_slot_of d idx;
       run \<leftarrow> deque_run_from d slot (length src);
       s \<leftarrow> slots_put (dqdata d) slot (take run src);
       s \<leftarrow> (if run < length src then slots_put s 0 (drop run src) else Some s);
       Some (d\<lparr>dqdata := s\<rparr>)
     }
   }"

definition deque_move_elem :: "'e deque \<Rightarrow> nat \<Rightarrow> nat \<Rightarrow> 'e deque option" where
  "deque_move_elem d to from = do { x \<leftarrow> deque_elem_at d from; deque_elem_put d to x }"

function deque_move_up :: "'e deque \<Rightarrow> nat \<Rightarrow> nat \<Rightarrow> nat \<Rightarrow> nat \<Rightarrow> 'e deque option" where
  "deque_move_up d to from i cnt =
     (if i < cnt then do {
        d \<leftarrow> deque_move_elem d (to + i) (from + i);
        deque_move_up d to from (i + 1) cnt
      }
      else Some d)"
  by pat_completeness auto
termination by (relation "measure (\<lambda>(d, to, from, i, cnt). cnt - i)") auto

declare deque_move_up.simps [simp del]

fun deque_move_down :: "'e deque \<Rightarrow> nat \<Rightarrow> nat \<Rightarrow> nat \<Rightarrow> 'e deque option" where
  "deque_move_down d to from 0 = Some d"
| "deque_move_down d to from (Suc i) = do {
     d \<leftarrow> deque_move_elem d (to + Suc i - 1) (from + Suc i - 1);
     deque_move_down d to from i
   }"

definition deque_move_elems :: "'e deque \<Rightarrow> nat \<Rightarrow> nat \<Rightarrow> nat \<Rightarrow> 'e deque option" where
  "deque_move_elems d to from cnt =
     (if to < from then deque_move_up d to from 0 cnt else deque_move_down d to from cnt)"

section \<open>The block\<close>

definition deque_block_layout :: "'e deque \<Rightarrow> nat \<Rightarrow> layout option" where
  "deque_block_layout d cap = tda_elems_layout (dqelem d) cap"

definition deque_free_block :: "'e deque \<Rightarrow> heap \<Rightarrow> heap option" where
  "deque_free_block d h = do {
     block \<leftarrow> deque_block_layout d (dqcap d);
     al_dealloc (dqal d) (dqdata d \<noteq> []) block h
   }"

definition deque_adopt_block :: "'e deque \<Rightarrow> 'e slots \<Rightarrow> nat \<Rightarrow> heap \<Rightarrow> ('e deque \<times> heap) option" where
  "deque_adopt_block d ptr cap h = do {
     h \<leftarrow> deque_free_block d h;
     Some (d\<lparr>dqdata := ptr, dqcap := cap, dqhead := 0\<rparr>, h)
   }"

definition deque_release_data :: "'e deque \<Rightarrow> heap \<Rightarrow> ('e deque \<times> heap) option" where
  "deque_release_data d h = do {
     h \<leftarrow> deque_free_block d h;
     Some (d\<lparr>dqdata := [], dqlen := 0, dqcap := 0, dqhead := 0\<rparr>, h)
   }"

definition deque_relocate :: "'e deque \<Rightarrow> nat \<Rightarrow> heap \<Rightarrow> (tda_status \<times> 'e deque \<times> heap) option" where
  "deque_relocate d new_cap h = do {
     chk (new_cap \<ge> dqlen d);
     chk (new_cap > 0);
     block \<leftarrow> deque_block_layout d new_cap;
     (ptr, h) \<leftarrow> al_alloc (dqal d) block h;
     if \<not> ptr then Some (TDA_STATUS_ERR_NO_MEM, d, h)
     else do {
       xs \<leftarrow> deque_copy_out d;
       s \<leftarrow> slots_put (slots_new new_cap) 0 xs;
       (d, h) \<leftarrow> deque_adopt_block d s new_cap h;
       ASSERT_DEQUE d;
       Some (TDA_STATUS_OK, d, h)
     }
   }"

definition tda_deque_reserve :: "'e deque \<Rightarrow> nat \<Rightarrow> heap \<Rightarrow> (tda_status \<times> 'e deque \<times> heap) option" where
  "tda_deque_reserve d new_cap h = do {
     ASSERT_DEQUE d;
     if new_cap \<le> dqcap d then Some (TDA_STATUS_OK, d, h)
     else do {
       r \<leftarrow> tda_layout_ckd_array (dqelem d) new_cap;
       case r of
         None \<Rightarrow> Some (TDA_STATUS_ERR_NO_MEM, d, h)
       | Some block \<Rightarrow> deque_relocate d new_cap h
     }
   }"

definition deque_next_cap :: "'e deque \<Rightarrow> nat" where
  "deque_next_cap d =
     (if dqcap d = 0 then DEQUE_GROWTH_BASE
      else case ckd_mul (dqcap d) DEQUE_GROWTH_FACTOR of None \<Rightarrow> SIZE_MAX | Some grown \<Rightarrow> grown)"

definition deque_reserve_for :: "'e deque \<Rightarrow> nat \<Rightarrow> heap \<Rightarrow> (tda_status \<times> 'e deque \<times> heap) option" where
  "deque_reserve_for d new_len h = do {
     chk (new_len > dqcap d);
     let eager = deque_next_cap d in
       if eager > new_len then do {
         (st, d, h) \<leftarrow> tda_deque_reserve d eager h;
         if status_is_ok st then Some (st, d, h) else tda_deque_reserve d new_len h
       }
       else tda_deque_reserve d new_len h
   }"

definition deque_reserve_one :: "'e deque \<Rightarrow> heap \<Rightarrow> (tda_status \<times> 'e deque \<times> heap) option" where
  "deque_reserve_one d h =
     (if dqlen d < dqcap d then Some (TDA_STATUS_OK, d, h)
      else if dqcap d = SIZE_MAX then Some (TDA_STATUS_ERR_NO_MEM, d, h)
      else deque_reserve_for d (dqcap d + 1) h)"

definition deque_open_gap :: "'e deque \<Rightarrow> nat \<Rightarrow> nat \<Rightarrow> heap \<Rightarrow> (tda_status \<times> 'e deque \<times> heap) option" where
  "deque_open_gap d idx cnt h = do {
     chk (idx \<le> dqlen d);
     case ckd_add (dqlen d) cnt of
       None \<Rightarrow> Some (TDA_STATUS_ERR_NO_MEM, d, h)
     | Some new_len \<Rightarrow> do {
         (st, d, h) \<leftarrow> (if new_len > dqcap d then deque_reserve_for d new_len h else Some (TDA_STATUS_OK, d, h));
         if status_is_err st then Some (st, d, h)
         else let old_len = dqlen d in
           if idx < old_len - idx then do {
             head \<leftarrow> deque_slot_back d (dqhead d) cnt;
             let d = d\<lparr>dqhead := head, dqlen := new_len\<rparr>;
             d \<leftarrow> deque_move_elems d 0 cnt idx;
             Some (TDA_STATUS_OK, d, h)
           }
           else do {
             d \<leftarrow> deque_move_elems (d\<lparr>dqlen := new_len\<rparr>) (idx + cnt) idx (old_len - idx);
             Some (TDA_STATUS_OK, d, h)
           }
       }
   }"

definition deque_insert_raw :: "'e deque \<Rightarrow> nat \<Rightarrow> 'e slots \<Rightarrow> heap \<Rightarrow> (tda_status \<times> 'e deque \<times> heap) option" where
  "deque_insert_raw d idx src h =
     (if length src = 0 then Some (TDA_STATUS_OK, d, h)
      else do {
        (st, d, h) \<leftarrow> deque_open_gap d idx (length src) h;
        if status_is_err st then Some (st, d, h)
        else do {
          d \<leftarrow> deque_copy_range_in d idx src;
          ASSERT_DEQUE d;
          Some (TDA_STATUS_OK, d, h)
        }
      })"

text \<open>\<open>NOT_IN_BLOCK\<close> is the inner \<^term>\<open>None\<close>.\<close>

definition deque_alias_idx :: "'e deque \<Rightarrow> 'e arg \<Rightarrow> nat option option" where
  "deque_alias_idx d val = do {
     block \<leftarrow> deque_block_layout d (dqcap d);
     case val of
       Apart x \<Rightarrow> Some None
     | Within off \<Rightarrow>
         if \<not> (dqdata d \<noteq> [] \<and> off < lsize block) then Some None
         else do {
           chk (off mod lsize (dqelem d) = 0);
           let slot = off div lsize (dqelem d);
           let idx = (if slot \<ge> dqhead d then slot - dqhead d else wsub (wadd slot (dqcap d)) (dqhead d));
           chk (idx < dqlen d);
           Some (Some idx)
         }
   }"

text \<open>The cell a value argument points at, as in \<open>Vec\<close>.\<close>

definition deque_arg_cell :: "'e deque \<Rightarrow> 'e arg \<Rightarrow> 'e option option" where
  "deque_arg_cell d val = (case val of
       Apart x \<Rightarrow> Some x
     | Within off \<Rightarrow> do {
         chk (off mod lsize (dqelem d) = 0);
         slot_get (dqdata d) (off div lsize (dqelem d))
       })"

section \<open>Lifetime\<close>

definition tda_deque_init :: "layout \<Rightarrow> al \<Rightarrow> 'e deque option" where
  "tda_deque_init elem al = do {
     chk (tda_layout_is_type elem);
     chk (al \<noteq> 0);
     Some \<lparr>dqdata = [], dqlen = 0, dqcap = 0, dqhead = 0, dqelem = elem, dqal = al\<rparr>
   }"

text \<open>\<open>cell\<close> is what a new slot holds: zero bytes are the element \<open>zero\<close> of its type.\<close>

definition deque_init_impl ::
  "'e option \<Rightarrow> nat \<Rightarrow> nat \<Rightarrow> layout \<Rightarrow> al \<Rightarrow> heap \<Rightarrow> ((tda_status + 'e deque) \<times> heap) option" where
  "deque_init_impl cell len cap elem al h = do {
     chk (len \<le> cap);
     obj \<leftarrow> tda_deque_init elem al;
     if cap > 0 then do {
       r \<leftarrow> tda_layout_ckd_array elem cap;
       case r of
         None \<Rightarrow> Some (Inl TDA_STATUS_ERR_NO_MEM, h)
       | Some block \<Rightarrow> do {
           (ptr, h) \<leftarrow> al_alloc al block h;
           if \<not> ptr then Some (Inl TDA_STATUS_ERR_NO_MEM, h)
           else do {
             let obj = obj\<lparr>dqdata := replicate cap cell, dqlen := len, dqcap := cap\<rparr>;
             ASSERT_DEQUE obj;
             Some (Inr obj, h)
           }
         }
     }
     else do {
       let obj = obj\<lparr>dqlen := len, dqcap := cap\<rparr>;
       ASSERT_DEQUE obj;
       Some (Inr obj, h)
     }
   }"

definition tda_deque_init_len :: "'e \<Rightarrow> nat \<Rightarrow> layout \<Rightarrow> al \<Rightarrow> heap \<Rightarrow> ((tda_status + 'e deque) \<times> heap) option" where
  "tda_deque_init_len zero len elem al h = do {
     chk (tda_layout_is_type elem);
     chk (al \<noteq> 0);
     deque_init_impl (Some zero) len len elem al h
   }"

definition tda_deque_init_cap :: "nat \<Rightarrow> layout \<Rightarrow> al \<Rightarrow> heap \<Rightarrow> ((tda_status + 'e deque) \<times> heap) option" where
  "tda_deque_init_cap cap elem al h = do {
     chk (tda_layout_is_type elem);
     chk (al \<noteq> 0);
     deque_init_impl None 0 cap elem al h
   }"

definition tda_deque_from_data :: "'e slots \<Rightarrow> layout \<Rightarrow> al \<Rightarrow> heap \<Rightarrow> ((tda_status + 'e deque) \<times> heap) option" where
  "tda_deque_from_data data elem al h = do {
     chk (tda_layout_is_type elem);
     chk (al \<noteq> 0);
     (r, h) \<leftarrow> deque_init_impl None (length data) (length data) elem al h;
     case r of
       Inl st \<Rightarrow> Some (Inl st, h)
     | Inr obj \<Rightarrow> do {
         s \<leftarrow> (if length data > 0 then slots_put (dqdata obj) 0 data else Some (dqdata obj));
         Some (Inr (obj\<lparr>dqdata := s\<rparr>), h)
       }
   }"

definition tda_deque_from_span :: "'e slots \<Rightarrow> layout \<Rightarrow> al \<Rightarrow> heap \<Rightarrow> ((tda_status + 'e deque) \<times> heap) option" where
  "tda_deque_from_span s elem al h = do {
     chk (tda_layout_is_type elem);
     chk (al \<noteq> 0);
     tda_deque_from_data s elem al h
   }"

definition tda_deque_deinit :: "'e deque \<Rightarrow> heap \<Rightarrow> ('e deque \<times> heap) option" where
  "tda_deque_deinit d h =
     (if dqal d = 0 then do { chk (dqdata d = []); Some (d, h) }
      else do {
        ASSERT_DEQUE d;
        h \<leftarrow> deque_free_block d h;
        Some (deque_null, h)
      })"

section \<open>Copy and compare\<close>

definition tda_deque_copy_with :: "'e deque \<Rightarrow> al \<Rightarrow> heap \<Rightarrow> ((tda_status + 'e deque) \<times> heap) option" where
  "tda_deque_copy_with d al h = do {
     ASSERT_DEQUE d;
     chk (al \<noteq> 0);
     (r, h) \<leftarrow> deque_init_impl None (dqlen d) (dqlen d) (dqelem d) al h;
     case r of
       Inl st \<Rightarrow> Some (Inl st, h)
     | Inr copy \<Rightarrow> do {
         xs \<leftarrow> deque_copy_out d;
         s \<leftarrow> slots_put (dqdata copy) 0 xs;
         Some (Inr (copy\<lparr>dqdata := s\<rparr>), h)
       }
   }"

definition tda_deque_copy :: "'e deque \<Rightarrow> heap \<Rightarrow> ((tda_status + 'e deque) \<times> heap) option" where
  "tda_deque_copy d h = do { ASSERT_DEQUE d; tda_deque_copy_with d (dqal d) h }"

text \<open>\<open>same\<close> says that both arguments are one object.\<close>

definition tda_deque_copy_assign ::
  "bool \<Rightarrow> 'e deque \<Rightarrow> 'e deque \<Rightarrow> heap \<Rightarrow> (tda_status \<times> 'e deque \<times> heap) option" where
  "tda_deque_copy_assign same d other h = do {
     ASSERT_DEQUE d;
     ASSERT_DEQUE other;
     EXPECT_SAME_DEQUE d other;
     if same then Some (TDA_STATUS_OK, d, h)
     else do {
       (st, d, h) \<leftarrow> (if dqlen other > dqcap d then do {
           block \<leftarrow> deque_block_layout d (dqlen other);
           (ptr, h) \<leftarrow> al_alloc (dqal d) block h;
           if \<not> ptr then Some (TDA_STATUS_ERR_NO_MEM, d, h)
           else do {
             (d, h) \<leftarrow> deque_adopt_block d (slots_new (dqlen other)) (dqlen other) h;
             Some (TDA_STATUS_OK, d, h)
           }
         }
         else Some (TDA_STATUS_OK, d, h));
       if status_is_err st then Some (st, d, h)
       else do {
         let d = d\<lparr>dqhead := 0, dqlen := dqlen other\<rparr>;
         xs \<leftarrow> deque_copy_out other;
         s \<leftarrow> slots_put (dqdata d) 0 xs;
         let d = d\<lparr>dqdata := s\<rparr>;
         ASSERT_DEQUE d;
         Some (TDA_STATUS_OK, d, h)
       }
     }
   }"

definition tda_deque_move_assign ::
  "bool \<Rightarrow> 'e deque \<Rightarrow> 'e deque \<Rightarrow> heap \<Rightarrow> ('e deque \<times> 'e deque \<times> heap) option" where
  "tda_deque_move_assign same d other h = do {
     ASSERT_DEQUE other;
     (if dqal d \<noteq> 0 then do { ASSERT_DEQUE d; EXPECT_SAME_DEQUE d other } else Some ());
     if same then Some (d, other, h)
     else do {
       (_, h) \<leftarrow> tda_deque_deinit d h;
       let d = other;
       other \<leftarrow> tda_deque_init (dqelem d) (dqal d);
       ASSERT_DEQUE d;
       ASSERT_DEQUE other;
       Some (d, other, h)
     }
   }"

definition tda_deque_swap :: "bool \<Rightarrow> 'e deque \<Rightarrow> 'e deque \<Rightarrow> ('e deque \<times> 'e deque) option" where
  "tda_deque_swap same d other = do {
     ASSERT_DEQUE d;
     ASSERT_DEQUE other;
     EXPECT_SAME_DEQUE d other;
     if same then Some (d, other) else Some (other, d)
   }"

text \<open>The span arguments are apart from the block; \<open>copy_to_span\<close> answers the cells it writes.\<close>

definition tda_deque_copy_to_span :: "'e deque \<Rightarrow> nat \<Rightarrow> layout \<Rightarrow> 'e slots option" where
  "tda_deque_copy_to_span d len elem = do {
     ASSERT_DEQUE d;
     chk (tda_layout_is_type elem);
     chk (tda_layout_eq (dqelem d) elem);
     chk (len = dqlen d);
     deque_copy_out d
   }"

definition tda_deque_copy_from_span :: "'e deque \<Rightarrow> 'e slots \<Rightarrow> layout \<Rightarrow> 'e deque option" where
  "tda_deque_copy_from_span d src elem = do {
     ASSERT_DEQUE d;
     chk (tda_layout_is_type elem);
     chk (tda_layout_eq (dqelem d) elem);
     chk (length src = dqlen d);
     deque_copy_range_in d 0 src
   }"

definition tda_deque_to_spans :: "'e deque \<Rightarrow> ('e slots \<times> 'e slots) option" where
  "tda_deque_to_spans d = do {
     ASSERT_DEQUE d;
     front_len \<leftarrow> deque_first_run d;
     front \<leftarrow> (if front_len \<noteq> 0 then do {
         slot \<leftarrow> deque_slot_of d 0;
         slots_read (dqdata d) slot front_len
       }
       else Some []);
     back \<leftarrow> slots_read (dqdata d) 0 (dqlen d - front_len);
     Some (front, back)
   }"

function deque_eq_loop :: "('e \<Rightarrow> 'e \<Rightarrow> bool) \<Rightarrow> 'e deque \<Rightarrow> 'e deque \<Rightarrow> nat \<Rightarrow> bool option" where
  "deque_eq_loop eq a b i =
     (if i < dqlen a then do {
        lhs \<leftarrow> deque_elem_at a i;
        rhs \<leftarrow> deque_elem_at b i;
        x \<leftarrow> lhs;
        y \<leftarrow> rhs;
        if \<not> eq x y then Some False else deque_eq_loop eq a b (i + 1)
      }
      else Some True)"
  by pat_completeness auto
termination by (relation "measure (\<lambda>(eq, a, b, i). dqlen a - i)") auto

declare deque_eq_loop.simps [simp del]

definition deque_eq_impl :: "bool \<Rightarrow> ('e \<Rightarrow> 'e \<Rightarrow> bool) \<Rightarrow> 'e deque \<Rightarrow> 'e deque \<Rightarrow> bool option" where
  "deque_eq_impl same eq a b =
     (if same then Some True
      else if dqlen a \<noteq> dqlen b then Some False
      else deque_eq_loop eq a b 0)"

text \<open>The elements as their bytes for \<open>tda_deque_eq\<close>, as values for \<open>tda_deque_eq_by\<close>.\<close>

definition tda_deque_eq :: "bool \<Rightarrow> byte list deque \<Rightarrow> byte list deque \<Rightarrow> bool option" where
  "tda_deque_eq same a b = do {
     ASSERT_DEQUE a;
     ASSERT_DEQUE b;
     EXPECT_SAME_DEQUE a b;
     deque_eq_impl same (=) a b
   }"

definition tda_deque_eq_by :: "bool \<Rightarrow> ('e \<Rightarrow> 'e \<Rightarrow> bool) \<Rightarrow> 'e deque \<Rightarrow> 'e deque \<Rightarrow> bool option" where
  "tda_deque_eq_by same eq a b = do {
     ASSERT_DEQUE a;
     ASSERT_DEQUE b;
     EXPECT_SAME_DEQUE a b;
     deque_eq_impl same eq a b
   }"

section \<open>Access\<close>

definition tda_deque_len :: "'e deque \<Rightarrow> nat option" where
  "tda_deque_len d = do { chk (dqal d \<noteq> 0); Some (dqlen d) }"

definition tda_deque_cap :: "'e deque \<Rightarrow> nat option" where
  "tda_deque_cap d = do { chk (dqal d \<noteq> 0); Some (dqcap d) }"

definition tda_deque_elem_layout :: "'e deque \<Rightarrow> layout option" where
  "tda_deque_elem_layout d = do { chk (dqal d \<noteq> 0); Some (dqelem d) }"

definition tda_deque_bytes :: "'e deque \<Rightarrow> nat option" where
  "tda_deque_bytes d = do { chk (dqal d \<noteq> 0); Some (wmul (dqlen d) (lsize (dqelem d))) }"

definition tda_deque_al :: "'e deque \<Rightarrow> al option" where
  "tda_deque_al d = do { chk (dqal d \<noteq> 0); Some (dqal d) }"

text \<open>A pointer to an element is the slot it is in.\<close>

definition tda_deque_front :: "'e deque \<Rightarrow> nat option" where
  "tda_deque_front d = do { chk (dqal d \<noteq> 0); chk (dqlen d > 0); Some (tda_deque_slot_of d 0) }"

definition tda_deque_back :: "'e deque \<Rightarrow> nat option" where
  "tda_deque_back d = do { chk (dqal d \<noteq> 0); chk (dqlen d > 0); Some (tda_deque_slot_of d (dqlen d - 1)) }"

definition tda_deque_get :: "'e deque \<Rightarrow> nat \<Rightarrow> nat option" where
  "tda_deque_get d idx = do { chk (dqal d \<noteq> 0); chk (idx < dqlen d); Some (tda_deque_slot_of d idx) }"

definition tda_deque_set :: "'e deque \<Rightarrow> nat \<Rightarrow> 'e arg \<Rightarrow> 'e deque option" where
  "tda_deque_set d idx val = do {
     ASSERT_DEQUE d;
     chk (idx < dqlen d);
     x \<leftarrow> deque_arg_cell d val;
     deque_elem_put d idx x
   }"

section \<open>Modifying\<close>

definition tda_deque_push_front :: "'e deque \<Rightarrow> 'e arg \<Rightarrow> heap \<Rightarrow> (tda_status \<times> 'e deque \<times> heap) option" where
  "tda_deque_push_front d val h = do {
     ASSERT_DEQUE d;
     from \<leftarrow> deque_alias_idx d val;
     (st, d, h) \<leftarrow> deque_reserve_one d h;
     if status_is_err st then Some (st, d, h)
     else do {
       x \<leftarrow> (case from of None \<Rightarrow> deque_arg_cell d val | Some i \<Rightarrow> deque_elem_at d i);
       head \<leftarrow> deque_slot_back d (dqhead d) 1;
       s \<leftarrow> slots_put (dqdata d) head [x];
       let d = d\<lparr>dqdata := s, dqhead := head, dqlen := dqlen d + 1\<rparr>;
       ASSERT_DEQUE d;
       Some (TDA_STATUS_OK, d, h)
     }
   }"

definition tda_deque_push_back :: "'e deque \<Rightarrow> 'e arg \<Rightarrow> heap \<Rightarrow> (tda_status \<times> 'e deque \<times> heap) option" where
  "tda_deque_push_back d val h = do {
     ASSERT_DEQUE d;
     from \<leftarrow> deque_alias_idx d val;
     (st, d, h) \<leftarrow> deque_reserve_one d h;
     if status_is_err st then Some (st, d, h)
     else do {
       x \<leftarrow> (case from of None \<Rightarrow> deque_arg_cell d val | Some i \<Rightarrow> deque_elem_at d i);
       d \<leftarrow> deque_elem_put d (dqlen d) x;
       let d = d\<lparr>dqlen := dqlen d + 1\<rparr>;
       ASSERT_DEQUE d;
       Some (TDA_STATUS_OK, d, h)
     }
   }"

definition tda_deque_pop_front :: "'e deque \<Rightarrow> 'e deque option" where
  "tda_deque_pop_front d = do {
     ASSERT_DEQUE d;
     chk (dqlen d > 0);
     head \<leftarrow> deque_slot_fwd d (dqhead d) 1;
     let d = d\<lparr>dqhead := head, dqlen := dqlen d - 1\<rparr>;
     ASSERT_DEQUE d;
     Some d
   }"

definition tda_deque_pop_back :: "'e deque \<Rightarrow> 'e deque option" where
  "tda_deque_pop_back d = do {
     ASSERT_DEQUE d;
     chk (dqlen d > 0);
     let d = d\<lparr>dqlen := dqlen d - 1\<rparr>;
     ASSERT_DEQUE d;
     Some d
   }"

text \<open>\<open>out\<close> is the cell answered.\<close>

definition tda_deque_pop_front_to :: "'e deque \<Rightarrow> ('e option \<times> 'e deque) option" where
  "tda_deque_pop_front_to d = do {
     ASSERT_DEQUE d;
     chk (dqlen d > 0);
     out \<leftarrow> deque_elem_at d 0;
     d \<leftarrow> tda_deque_pop_front d;
     Some (out, d)
   }"

definition tda_deque_pop_back_to :: "'e deque \<Rightarrow> ('e option \<times> 'e deque) option" where
  "tda_deque_pop_back_to d = do {
     ASSERT_DEQUE d;
     chk (dqlen d > 0);
     out \<leftarrow> deque_elem_at d (dqlen d - 1);
     d \<leftarrow> tda_deque_pop_back d;
     Some (out, d)
   }"

definition tda_deque_insert :: "'e deque \<Rightarrow> nat \<Rightarrow> 'e arg \<Rightarrow> heap \<Rightarrow> (tda_status \<times> 'e deque \<times> heap) option" where
  "tda_deque_insert d idx val h = do {
     ASSERT_DEQUE d;
     chk (idx \<le> dqlen d);
     from \<leftarrow> deque_alias_idx d val;
     case from of
       None \<Rightarrow> do { x \<leftarrow> deque_arg_cell d val; deque_insert_raw d idx [x] h }
     | Some from \<Rightarrow> do {
         (st, d, h) \<leftarrow> deque_open_gap d idx 1 h;
         if status_is_err st then Some (st, d, h)
         else do {
           d \<leftarrow> deque_move_elem d idx (if from < idx then from else from + 1);
           ASSERT_DEQUE d;
           Some (TDA_STATUS_OK, d, h)
         }
       }
   }"

definition tda_deque_remove_range :: "'e deque \<Rightarrow> nat \<Rightarrow> nat \<Rightarrow> 'e deque option" where
  "tda_deque_remove_range d idx cnt = do {
     ASSERT_DEQUE d;
     chk (idx \<le> dqlen d);
     chk (cnt \<le> dqlen d - idx);
     if cnt = 0 then Some d
     else do {
       d \<leftarrow> (if idx < dqlen d - idx - cnt then do {
           d \<leftarrow> deque_move_elems d cnt 0 idx;
           head \<leftarrow> deque_slot_fwd d (dqhead d) cnt;
           Some (d\<lparr>dqhead := head\<rparr>)
         }
         else deque_move_elems d idx (idx + cnt) (dqlen d - idx - cnt));
       let d = d\<lparr>dqlen := dqlen d - cnt\<rparr>;
       ASSERT_DEQUE d;
       Some d
     }
   }"

definition tda_deque_remove :: "'e deque \<Rightarrow> nat \<Rightarrow> 'e deque option" where
  "tda_deque_remove d idx = do {
     ASSERT_DEQUE d;
     chk (idx < dqlen d);
     tda_deque_remove_range d idx 1
   }"

definition tda_deque_clear :: "'e deque \<Rightarrow> 'e deque option" where
  "tda_deque_clear d = do {
     ASSERT_DEQUE d;
     let d = d\<lparr>dqlen := 0, dqhead := 0\<rparr>;
     ASSERT_DEQUE d;
     Some d
   }"

definition tda_deque_shrink_to_fit :: "'e deque \<Rightarrow> heap \<Rightarrow> (tda_status \<times> 'e deque \<times> heap) option" where
  "tda_deque_shrink_to_fit d h = do {
     ASSERT_DEQUE d;
     if dqlen d = dqcap d then Some (TDA_STATUS_OK, d, h)
     else if dqlen d = 0 then do {
       (d, h) \<leftarrow> deque_release_data d h;
       ASSERT_DEQUE d;
       Some (TDA_STATUS_OK, d, h)
     }
     else deque_relocate d (dqlen d) h
   }"

function deque_zero_loop :: "'e \<Rightarrow> 'e deque \<Rightarrow> nat \<Rightarrow> nat \<Rightarrow> 'e deque option" where
  "deque_zero_loop zero d i new_len =
     (if i < new_len then do {
        d \<leftarrow> deque_elem_put d i (Some zero);
        deque_zero_loop zero d (i + 1) new_len
      }
      else Some d)"
  by pat_completeness auto
termination by (relation "measure (\<lambda>(zero, d, i, new_len). new_len - i)") auto

declare deque_zero_loop.simps [simp del]

definition tda_deque_resize :: "'e \<Rightarrow> 'e deque \<Rightarrow> nat \<Rightarrow> heap \<Rightarrow> (tda_status \<times> 'e deque \<times> heap) option" where
  "tda_deque_resize zero d new_len h = do {
     ASSERT_DEQUE d;
     if new_len \<le> dqlen d then do {
       let d = d\<lparr>dqlen := new_len\<rparr>;
       ASSERT_DEQUE d;
       Some (TDA_STATUS_OK, d, h)
     }
     else do {
       (st, d, h) \<leftarrow> (if new_len > dqcap d then deque_reserve_for d new_len h else Some (TDA_STATUS_OK, d, h));
       if status_is_err st then Some (st, d, h)
       else do {
         d \<leftarrow> deque_zero_loop zero d (dqlen d) new_len;
         let d = d\<lparr>dqlen := new_len\<rparr>;
         ASSERT_DEQUE d;
         Some (TDA_STATUS_OK, d, h)
       }
     }
   }"

definition tda_deque_truncate :: "'e deque \<Rightarrow> nat \<Rightarrow> 'e deque option" where
  "tda_deque_truncate d new_len = do {
     ASSERT_DEQUE d;
     let d = (if new_len < dqlen d then d\<lparr>dqlen := new_len\<rparr> else d);
     ASSERT_DEQUE d;
     Some d
   }"

definition tda_deque_swap_elems :: "'e deque \<Rightarrow> nat \<Rightarrow> nat \<Rightarrow> 'e deque option" where
  "tda_deque_swap_elems d i j = do {
     ASSERT_DEQUE d;
     chk (i < dqlen d);
     chk (j < dqlen d);
     if i = j then Some d
     else do {
       x \<leftarrow> deque_elem_at d i;
       y \<leftarrow> deque_elem_at d j;
       d \<leftarrow> deque_elem_put d i y;
       deque_elem_put d j x
     }
   }"

definition tda_deque_insert_span ::
  "'e deque \<Rightarrow> nat \<Rightarrow> 'e slots \<Rightarrow> layout \<Rightarrow> heap \<Rightarrow> (tda_status \<times> 'e deque \<times> heap) option" where
  "tda_deque_insert_span d idx src elem h = do {
     ASSERT_DEQUE d;
     chk (tda_layout_is_type elem);
     chk (tda_layout_eq (dqelem d) elem);
     chk (idx \<le> dqlen d);
     deque_insert_raw d idx src h
   }"

definition tda_deque_extend ::
  "'e deque \<Rightarrow> 'e slots \<Rightarrow> layout \<Rightarrow> heap \<Rightarrow> (tda_status \<times> 'e deque \<times> heap) option" where
  "tda_deque_extend d src elem h = do {
     ASSERT_DEQUE d;
     chk (tda_layout_is_type elem);
     chk (tda_layout_eq (dqelem d) elem);
     tda_deque_insert_span d (dqlen d) src elem h
   }"

function deque_retain_loop :: "('e \<Rightarrow> bool) \<Rightarrow> 'e deque \<Rightarrow> nat \<Rightarrow> nat \<Rightarrow> nat \<Rightarrow> ('e deque \<times> nat) option" where
  "deque_retain_loop pred d len i kept =
     (if i < len then do {
        cell \<leftarrow> deque_elem_at d i;
        x \<leftarrow> cell;
        if \<not> pred x then deque_retain_loop pred d len (i + 1) kept
        else do {
          d \<leftarrow> (if kept \<noteq> i then deque_move_elem d kept i else Some d);
          deque_retain_loop pred d len (i + 1) (kept + 1)
        }
      }
      else Some (d, kept))"
  by pat_completeness auto
termination by (relation "measure (\<lambda>(pred, d, len, i, kept). len - i)") auto

declare deque_retain_loop.simps [simp del]

definition tda_deque_retain :: "('e \<Rightarrow> bool) \<Rightarrow> 'e deque \<Rightarrow> 'e deque option" where
  "tda_deque_retain pred d = do {
     ASSERT_DEQUE d;
     (d, kept) \<leftarrow> deque_retain_loop pred d (dqlen d) 0 0;
     let d = d\<lparr>dqlen := kept\<rparr>;
     ASSERT_DEQUE d;
     Some d
   }"


section \<open>The ring\<close>

definition deque_ok :: "'e deque \<Rightarrow> bool" where
  "deque_ok d \<longleftrightarrow> tda_layout_is_type (dqelem d) \<and> dqlen d \<le> dqcap d \<and> length (dqdata d) = dqcap d \<and>
     (if dqcap d = 0 then dqhead d = 0 else dqhead d < dqcap d) \<and> dqal d \<noteq> 0 \<and>
     lsize (dqelem d) * dqcap d \<le> SIZE_MAX"

text \<open>The block from the front on, and the cells of the elements: what the deque stands for.\<close>

definition deque_ring :: "'e deque \<Rightarrow> 'e slots" where
  "deque_ring d = rotate (dqhead d) (dqdata d)"

definition deque_cells :: "'e deque \<Rightarrow> 'e slots" where
  "deque_cells d = take (dqlen d) (deque_ring d)"

definition deque_view :: "'e deque \<Rightarrow> (layout, 'e slots) holder" where
  "deque_view d = \<lparr>hgood = deque_ok d, hkind = dqelem d, hal = dqal d, hblocks = held (dqelem d) (dqcap d),
     hval = deque_cells d\<rparr>"

text \<open>The deque with another ring in the same block.\<close>

definition deque_on :: "'e deque \<Rightarrow> 'e slots \<Rightarrow> 'e deque" where
  "deque_on d r = d\<lparr>dqdata := rotate (dqcap d - dqhead d) r\<rparr>"

lemma deque_view_simps [simp]:
  "hgood (deque_view d) = deque_ok d" "hkind (deque_view d) = dqelem d" "hal (deque_view d) = dqal d"
  "hblocks (deque_view d) = held (dqelem d) (dqcap d)" "hval (deque_view d) = deque_cells d"
  by (simp_all add: deque_view_def)

lemma deque_okD:
  assumes "deque_ok d"
  shows "tda_layout_is_type (dqelem d)" "0 < lsize (dqelem d)" "dqlen d \<le> dqcap d" "length (dqdata d) = dqcap d"
    "dqal d \<noteq> 0" "lsize (dqelem d) * dqcap d \<le> SIZE_MAX" "(dqdata d \<noteq> []) = (dqcap d \<noteq> 0)"
    "dqhead d \<le> dqcap d" "0 < dqcap d \<Longrightarrow> dqhead d < dqcap d" "dqcap d \<le> SIZE_MAX"
proof -
  show s: "0 < lsize (dqelem d)" using assms by (simp add: deque_ok_def is_type_size)
  have "dqcap d \<le> lsize (dqelem d) * dqcap d" using s by (cases "lsize (dqelem d)") simp_all
  then show "dqcap d \<le> SIZE_MAX" using assms unfolding deque_ok_def by linarith
  show "dqhead d \<le> dqcap d" using assms by (cases "dqcap d = 0") (simp_all add: deque_ok_def)
qed (use assms in \<open>auto simp: deque_ok_def simp flip: length_greater_0_conv\<close>)

lemma ASSERT_DEQUE_ok [simp]: "deque_ok d \<Longrightarrow> ASSERT_DEQUE d = Some ()"
  by (auto simp: ASSERT_DEQUE_def deque_ok_def split: if_split_asm)

lemma length_deque_ring [simp]: "deque_ok d \<Longrightarrow> length (deque_ring d) = dqcap d"
  by (simp add: deque_ring_def deque_ok_def)

lemma length_deque_cells [simp]: "deque_ok d \<Longrightarrow> length (deque_cells d) = dqlen d"
  by (simp add: deque_cells_def deque_ok_def)

lemma rotate_split: "n \<le> length xs \<Longrightarrow> rotate n xs = drop n xs @ take n xs"
  using rotate_append [of "take n xs" "drop n xs"] by simp

lemma deque_ring_split: "deque_ok d \<Longrightarrow> deque_ring d = drop (dqhead d) (dqdata d) @ take (dqhead d) (dqdata d)"
  using deque_okD(4,8) [of d] by (simp add: deque_ring_def rotate_split)

lemma deque_on_ring [simp]:
  assumes "deque_ok d" "length r = dqcap d"
  shows "deque_ring (deque_on d r) = r"
proof -
  have "dqhead d + (dqcap d - dqhead d) = length r" using deque_okD(8) [OF assms(1)] assms(2) by simp
  then show ?thesis
    using rotate_rotate [of "dqhead d" "dqcap d - dqhead d" r] by (simp add: deque_ring_def deque_on_def)
qed

lemma deque_on_fields [simp]:
  "dqlen (deque_on d r) = dqlen d" "dqcap (deque_on d r) = dqcap d" "dqhead (deque_on d r) = dqhead d"
  "dqelem (deque_on d r) = dqelem d" "dqal (deque_on d r) = dqal d"
  by (simp_all add: deque_on_def)

lemma deque_on_on [simp]: "deque_on (deque_on d r) r' = deque_on d r'"
  by (simp add: deque_on_def)

lemma deque_on_ok: "deque_ok d \<Longrightarrow> length r = dqcap d \<Longrightarrow> deque_ok (deque_on d r)"
  by (simp add: deque_ok_def deque_on_def)

lemma deque_on_cells [simp]:
  "deque_ok d \<Longrightarrow> length r = dqcap d \<Longrightarrow> deque_cells (deque_on d r) = take (dqlen d) r"
  by (simp add: deque_cells_def)

lemma deque_onI:
  assumes "deque_ok d" "length s = dqcap d" "rotate (dqhead d) s = r"
  shows "d\<lparr>dqdata := s\<rparr> = deque_on d r"
proof -
  have "dqcap d - dqhead d + dqhead d = length s" using deque_okD(8) [OF assms(1)] assms(2) by simp
  then have "rotate (dqcap d - dqhead d) (rotate (dqhead d) s) = s" by (simp add: rotate_rotate)
  then show ?thesis using assms(3) by (simp add: deque_on_def)
qed

lemma deque_on_self: "deque_ok d \<Longrightarrow> deque_on d (deque_ring d) = d"
  using deque_onI [of d "dqdata d" "deque_ring d"] deque_okD(4) [of d] by (simp add: deque_ring_def)

section \<open>One slot\<close>

lemma slot_of_mod:
  assumes "deque_ok d" "i < dqcap d"
  shows "tda_deque_slot_of d i = (dqhead d + i) mod dqcap d"
proof -
  have h: "dqhead d < dqcap d" using deque_okD(9) [OF assms(1)] assms(2) by simp
  show ?thesis
  proof (cases "i < dqcap d - dqhead d")
    case False
    then have "dqcap d \<le> dqhead d + i" "dqhead d + i - dqcap d < dqcap d" using h assms(2) by linarith+
    then have "(dqhead d + i) mod dqcap d = dqhead d + i - dqcap d" by (simp add: le_mod_geq)
    then show ?thesis using False h by (simp add: tda_deque_slot_of_def Let_def)
  qed (use h in \<open>simp add: tda_deque_slot_of_def Let_def\<close>)
qed

lemma slot_of_lt: "deque_ok d \<Longrightarrow> i < dqcap d \<Longrightarrow> tda_deque_slot_of d i < dqcap d"
  by (simp add: slot_of_mod)

lemma slot_of_inj:
  assumes "deque_ok d" "i < dqcap d" "k < dqcap d"
  shows "tda_deque_slot_of d i = tda_deque_slot_of d k \<longleftrightarrow> i = k"
  using assms deque_okD(9) [OF assms(1)] by (auto simp: tda_deque_slot_of_def Let_def split: if_split_asm)

lemma deque_ring_nth:
  "deque_ok d \<Longrightarrow> i < dqcap d \<Longrightarrow> deque_ring d ! i = dqdata d ! tda_deque_slot_of d i"
  using deque_okD(4) [of d] by (simp add: deque_ring_def nth_rotate slot_of_mod)

lemma deque_elem_at_ok [simp]:
  "deque_ok d \<Longrightarrow> i < dqcap d \<Longrightarrow> deque_elem_at d i = Some (deque_ring d ! i)"
  using deque_okD(4) [of d] slot_of_lt [of d i] by (simp add: deque_elem_at_def deque_ring_nth)

lemma deque_elem_put_ok [simp]:
  assumes "deque_ok d" "i < dqcap d"
  shows "deque_elem_put d i x = Some (deque_on d ((deque_ring d)[i := x]))"
proof -
  let ?s = "(dqdata d)[tda_deque_slot_of d i := x]"
  note len = deque_okD(4) [OF assms(1)]
  have "rotate (dqhead d) ?s = (deque_ring d)[i := x]"
  proof (rule nth_equalityI)
    fix k assume "k < length (rotate (dqhead d) ?s)"
    then have k: "k < dqcap d" using len by simp
    then show "rotate (dqhead d) ?s ! k = (deque_ring d)[i := x] ! k"
      using len assms slot_of_inj [OF assms k] slot_of_lt [OF assms(1) k]
      by (simp add: nth_rotate nth_list_update deque_ring_nth slot_of_mod [symmetric])
  qed (use len assms(1) in simp)
  then have "d\<lparr>dqdata := ?s\<rparr> = deque_on d ((deque_ring d)[i := x])"
    using assms(1) len by (intro deque_onI) simp_all
  then show ?thesis
    using assms slot_of_lt [OF assms] len by (simp add: deque_elem_put_def slots_put_one)
qed

lemma deque_move_elem_ok [simp]:
  "deque_ok d \<Longrightarrow> i < dqcap d \<Longrightarrow> k < dqcap d \<Longrightarrow>
   deque_move_elem d i k = Some (deque_on d ((deque_ring d)[i := deque_ring d ! k]))"
  by (simp add: deque_move_elem_def)

section \<open>Moving slots\<close>

text \<open>\<open>memmove\<close> on a list.\<close>

definition blit :: "'a list \<Rightarrow> nat \<Rightarrow> nat \<Rightarrow> nat \<Rightarrow> 'a list" where
  "blit r to from n = take to r @ take n (drop from r) @ drop (to + n) r"

lemma length_blit [simp]:
  "to + n \<le> length r \<Longrightarrow> from + n \<le> length r \<Longrightarrow> length (blit r to from n) = length r"
  by (simp add: blit_def)

lemma blit_nth:
  assumes "to + n \<le> length r" "from + n \<le> length r" "k < length r"
  shows "blit r to from n ! k = (if to \<le> k \<and> k < to + n then r ! (from + (k - to)) else r ! k)"
proof -
  consider "k < to" | "to \<le> k" "k < to + n" "k - to < n" | "to \<le> k" "\<not> k < to + n" "\<not> k - to < n" by linarith
  then show ?thesis
    using assms by cases (simp_all add: blit_def nth_append)
qed

lemma blit_none [simp]: "to \<le> length r \<Longrightarrow> blit r to from 0 = r"
  by (simp add: blit_def)

lemma blit_up:
  assumes "to \<le> from" "from + n < length r"
  shows "(blit r to from n)[to + n := blit r to from n ! (from + n)] = blit r to from (Suc n)"
proof (rule nth_equalityI)
  fix k assume "k < length ((blit r to from n)[to + n := blit r to from n ! (from + n)])"
  then have "k < length r" using assms by simp
  then show "(blit r to from n)[to + n := blit r to from n ! (from + n)] ! k = blit r to from (Suc n) ! k"
    using assms by (cases "k = to + n") (auto simp: blit_nth)
qed (use assms in simp)

lemma blit_down:
  assumes "from \<le> to" "i < n" "to + n \<le> length r"
  shows "(blit r (to + Suc i) (from + Suc i) (n - Suc i))[to + i := blit r (to + Suc i) (from + Suc i) (n - Suc i) ! (from + i)] =
    blit r (to + i) (from + i) (n - i)"
proof (rule nth_equalityI)
  let ?b = "blit r (to + Suc i) (from + Suc i) (n - Suc i)"
  fix k assume "k < length (?b[to + i := ?b ! (from + i)])"
  then have k: "k < length r" using assms by simp
  have "?b ! (from + i) = r ! (from + i)" using assms by (simp add: blit_nth)
  then show "?b[to + i := ?b ! (from + i)] ! k = blit r (to + i) (from + i) (n - i) ! k"
    using assms k by (simp add: nth_list_update blit_nth del: add_Suc_right) (auto simp: Suc_diff_le not_less)
qed (use assms in simp)

lemma move_up_ok:
  assumes "deque_ok d" "length r = dqcap d" "to \<le> from" "from + n \<le> dqcap d" "i \<le> n"
  shows "deque_move_up (deque_on d (blit r to from i)) to from i n = Some (deque_on d (blit r to from n))"
  using assms(5)
proof (induction "n - i" arbitrary: i)
  case 0
  then have "i = n" by simp
  then show ?case by (simp add: deque_move_up.simps [of _ _ _ n n])
next
  case (Suc m)
  then have i: "i < n" by simp
  let ?d = "deque_on d (blit r to from i)"
  have ok: "deque_ok ?d" using assms i by (intro deque_on_ok) simp_all
  have "deque_move_elem ?d (to + i) (from + i) = Some (deque_on d (blit r to from (i + 1)))"
    using ok assms i blit_up [of to "from" i r] by simp
  then have "deque_move_up ?d to from i n = deque_move_up (deque_on d (blit r to from (i + 1))) to from (i + 1) n"
    using i by (simp add: deque_move_up.simps [of ?d])
  also have "\<dots> = Some (deque_on d (blit r to from n))" using Suc i by (intro Suc.hyps(1)) simp_all
  finally show ?case .
qed

lemma move_down_ok:
  assumes "deque_ok d" "length r = dqcap d" "from \<le> to" "to + n \<le> dqcap d" "i \<le> n"
  shows "deque_move_down (deque_on d (blit r (to + i) (from + i) (n - i))) to from i = Some (deque_on d (blit r to from n))"
  using assms(5)
proof (induction i)
  case (Suc i)
  let ?d = "deque_on d (blit r (to + Suc i) (from + Suc i) (n - Suc i))"
  have ok: "deque_ok ?d" using assms Suc by (intro deque_on_ok) simp_all
  have len: "length (blit r (to + Suc i) (from + Suc i) (n - Suc i)) = dqcap d"
    using assms Suc by simp
  have "deque_move_elem ?d (to + i) (from + i) = Some (deque_on d (blit r (to + i) (from + i) (n - i)))"
    using ok len assms Suc.prems blit_down [of "from" to i n r] by simp
  then show ?case using Suc by simp
qed simp

lemma move_elems_ok:
  assumes "deque_ok d" "to + n \<le> dqcap d" "from + n \<le> dqcap d"
  shows "deque_move_elems d to from n = Some (deque_on d (blit (deque_ring d) to from n))"
proof (cases "to < from")
  case True
  have "deque_on d (blit (deque_ring d) to from 0) = d"
    using assms by (simp add: deque_on_self)
  then show ?thesis
    using move_up_ok [of d "deque_ring d" to "from" n 0] True assms by (simp add: deque_move_elems_def)
next
  case False
  have "deque_on d (blit (deque_ring d) (to + n) (from + n) (n - n)) = d"
    using assms by (simp add: deque_on_self)
  then show ?thesis
    using move_down_ok [of d "deque_ring d" "from" to n n] False assms by (simp add: deque_move_elems_def)
qed

section \<open>Turning the ring\<close>

lemma slot_back_ok:
  assumes "deque_ok d" "0 < dqcap d" "n \<le> dqcap d"
  shows "\<exists>k. deque_slot_back d (dqhead d) n = Some k \<and> k < dqcap d \<and>
    rotate k (dqdata d) = drop (dqcap d - n) (deque_ring d) @ take (dqcap d - n) (deque_ring d)"
proof -
  note ok = deque_okD [OF assms(1)]
  have h: "dqhead d < dqcap d" using ok(9) assms(2) .
  let ?k = "if dqhead d \<ge> n then dqhead d - n else dqhead d + dqcap d - n"
  have "\<not> dqhead d \<ge> n \<Longrightarrow> wsub (wadd (dqhead d) (dqcap d)) n = dqhead d + dqcap d - n"
    using h assms(3) ok(10) by (intro wsub_wadd) simp_all
  then have "deque_slot_back d (dqhead d) n = Some ?k"
    using h assms(3) by (simp add: deque_slot_back_def)
  moreover have k: "?k < dqcap d" using h assms(3) by auto
  moreover have "?k = (dqhead d + (dqcap d - n)) mod dqcap d"
  proof (cases "dqhead d \<ge> n")
    case True
    then have eq: "dqhead d + (dqcap d - n) = (dqhead d - n) + dqcap d" using assms(3) by simp
    have "(dqhead d - n + dqcap d) mod dqcap d = dqhead d - n" using h by (simp only: mod_add_self2) simp
    then show ?thesis unfolding eq using True by simp
  next
    case False
    then show ?thesis using h assms(3) by simp
  qed
  then have "rotate ?k (dqdata d) = rotate (dqcap d - n) (deque_ring d)"
    using ok(4) rotate_conv_mod [of "dqhead d + (dqcap d - n)" "dqdata d"]
    by (simp add: deque_ring_def rotate_rotate add.commute)
  ultimately show ?thesis using assms(1) by (auto simp: rotate_split)
qed

lemma slot_fwd_ok:
  assumes "deque_ok d" "0 < dqcap d" "n \<le> dqcap d"
  shows "\<exists>k. deque_slot_fwd d (dqhead d) n = Some k \<and> k < dqcap d \<and>
    rotate k (dqdata d) = drop n (deque_ring d) @ take n (deque_ring d)"
proof -
  note ok = deque_okD [OF assms(1)]
  have h: "dqhead d < dqcap d" using ok(9) assms(2) .
  let ?k = "if n < dqcap d - dqhead d then dqhead d + n else n - (dqcap d - dqhead d)"
  have "deque_slot_fwd d (dqhead d) n = Some ?k"
    using h assms(3) by (simp add: deque_slot_fwd_def)
  moreover have "?k < dqcap d" using h assms(3) by auto
  moreover have "?k = (dqhead d + n) mod dqcap d"
    using h assms(3) by (auto simp: mod_if)
  then have "rotate ?k (dqdata d) = rotate n (deque_ring d)"
    using ok(4) rotate_conv_mod [of "dqhead d + n" "dqdata d"]
    by (simp add: deque_ring_def rotate_rotate add.commute)
  ultimately show ?thesis using assms(1,3) by (auto simp: rotate_split)
qed

section \<open>Copying runs\<close>

lemma copy_out_ok [simp]:
  assumes "deque_ok d"
  shows "deque_copy_out d = Some (deque_cells d)"
proof (cases "dqlen d = 0")
  case False
  note ok = deque_okD [OF assms]
  let ?room = "dqcap d - dqhead d"
  have run: "deque_first_run d = Some (if ?room < dqlen d then ?room else dqlen d)"
    using ok(8) by (simp add: deque_first_run_def deque_run_from_def Let_def)
  have ring: "deque_ring d = drop (dqhead d) (dqdata d) @ take (dqhead d) (dqdata d)"
    using assms by (rule deque_ring_split)
  show ?thesis
    using False run ok(3,4,8)
    by (cases "?room < dqlen d") (simp_all add: deque_copy_out_def deque_cells_def ring)
qed (simp add: deque_copy_out_def deque_cells_def)

lemma copy_range_in_ok:
  assumes "deque_ok d" "idx + length src \<le> dqlen d"
  shows "deque_copy_range_in d idx src =
    Some (deque_on d (take idx (deque_ring d) @ src @ drop (idx + length src) (deque_ring d)))"
proof (cases "length src = 0")
  case True
  then show ?thesis using assms by (simp add: deque_copy_range_in_def deque_on_self)
next
  case False
  note ok = deque_okD [OF assms(1)]
  let ?c = "dqcap d" and ?hd = "dqhead d" and ?data = "dqdata d" and ?n = "length src"
  have le: "idx + ?n \<le> ?c" "idx < ?c" using assms(2) ok(3) False by linarith+
  have hd: "?hd < ?c" using ok(9) le(2) by simp
  have ring: "deque_ring d = drop ?hd ?data @ take ?hd ?data" using assms(1) by (rule deque_ring_split)
  let ?r = "take idx (deque_ring d) @ src @ drop (idx + ?n) (deque_ring d)"
  consider "idx + ?n \<le> ?c - ?hd" | "idx < ?c - ?hd" "?c - ?hd < idx + ?n" | "?c - ?hd \<le> idx" by linarith
  then show ?thesis
  proof cases
    case 1
    let ?s = "take (?hd + idx) ?data @ src @ drop (?hd + idx + ?n) ?data"
    have r: "rotate ?hd ?s = ?r" "length ?s = ?c"
      using 1 hd ok(4) False by (simp_all add: rotate_split ring drop_take ac_simps)
    have "idx < ?c - ?hd" "\<not> ?c - (?hd + idx) < ?n" "?hd + idx \<le> ?c" "?hd + idx + ?n \<le> ?c"
      using 1 hd False by (simp_all, linarith+)
    then have "deque_copy_range_in d idx src = Some (d\<lparr>dqdata := ?s\<rparr>)"
      using ok(4) False assms(2) le
      by (simp add: deque_copy_range_in_def deque_slot_of_def tda_deque_slot_of_def deque_run_from_def
          slots_put_Some Let_def)
    then show ?thesis using deque_onI [OF assms(1) r(2,1)] by simp
  next
    case 2
    have "?hd + idx \<le> ?c" using 2 hd by linarith
    then obtain run where run: "?c = ?hd + idx + run" using le_Suc_ex by blast
    have "run \<le> ?n" using 2 run by linarith
    then obtain m where m: "?n = run + m" using le_Suc_ex by blast
    have "m \<le> ?hd" "0 < m" using le run m 2 by linarith+
    then obtain e where e: "?hd = m + e" using le_Suc_ex by blast
    let ?s = "drop run src @ drop m (take (?hd + idx) ?data) @ take run src"
    have len: "length ?s = ?c" using run m e ok(4) by simp
    have "drop ?hd ?s = take idx (drop ?hd ?data) @ take run src" "take ?hd ?s = drop run src @ drop m (take ?hd ?data)"
      using run m e ok(4) by (simp_all add: drop_take add.commute)
    then have r: "rotate ?hd ?s = ?r"
      using len run m e ok(4) by (simp add: rotate_split ring drop_take)
    have "deque_copy_range_in d idx src = Some (d\<lparr>dqdata := ?s\<rparr>)"
      using run m e ok(4) assms(2) le \<open>0 < m\<close>
      by (simp add: deque_copy_range_in_def deque_slot_of_def tda_deque_slot_of_def deque_run_from_def
          slots_put_Some Let_def)
    then show ?thesis using deque_onI [OF assms(1) len r] by simp
  next
    case 3
    obtain room where room: "?c = ?hd + room" using hd le_Suc_ex less_imp_le by blast
    then have "room \<le> idx" using 3 by simp
    then obtain i where i: "idx = room + i" using le_Suc_ex by blast
    have "i + ?n \<le> ?hd" using le room i by linarith
    then obtain e where e: "?hd = i + ?n + e" using le_Suc_ex by blast
    let ?s = "take i ?data @ src @ drop (i + ?n) ?data"
    have len: "length ?s = ?c" using room e ok(4) by simp
    have "drop ?hd ?s = drop ?hd ?data" "take ?hd ?s = take i ?data @ src @ drop (i + ?n) (take ?hd ?data)"
      using room e ok(4) by (simp_all add: drop_take add.commute)
    then have r: "rotate ?hd ?s = ?r"
      using len room i e ok(4) by (simp add: rotate_split ring)
    have "deque_copy_range_in d idx src = Some (d\<lparr>dqdata := ?s\<rparr>)"
      using room i e ok(4) False assms(2) le
      by (simp add: deque_copy_range_in_def deque_slot_of_def tda_deque_slot_of_def deque_run_from_def
          slots_put_Some Let_def)
    then show ?thesis using deque_onI [OF assms(1) len r] by simp
  qed
qed

section \<open>Growing\<close>

lemma held_by_deque: "held_by deque_view h d \<longleftrightarrow> deque_ok d \<and> held (dqelem d) (dqcap d) \<subseteq># lives h (dqal d)"
  by (simp add: held_by_def)

lemma deque_block_layout_ok [simp]:
  "deque_ok d \<Longrightarrow> lsize (dqelem d) * n \<le> SIZE_MAX \<Longrightarrow>
   deque_block_layout d n = Some \<lparr>lsize = lsize (dqelem d) * n, lalign = lalign (dqelem d)\<rparr>"
  by (simp add: deque_block_layout_def tda_elems_layout_def deque_ok_def)

lemma free_block_ok:
  assumes "deque_ok d" "held (dqelem d) (dqcap d) \<subseteq># lives h (dqal d)"
  shows "\<exists>h'. deque_free_block d h = Some h' \<and> requests h (dqal d) (held (dqelem d) (dqcap d)) {#} True h'"
proof -
  note ok = deque_okD [OF assms(1)]
  obtain h' where "al_dealloc (dqal d) (dqcap d \<noteq> 0) \<lparr>lsize = lsize (dqelem d) * dqcap d, lalign = lalign (dqelem d)\<rparr> h = Some h'"
    "lives h' = (lives h)(dqal d := lives h (dqal d) - held (dqelem d) (dqcap d))"
    "\<And>c. generous h c \<Longrightarrow> generous h' c"
    using al_dealloc_held [OF ok(5,1), of "dqcap d" h] assms(2) by blast
  then show ?thesis using assms(1) ok(6,7) by (simp add: deque_free_block_def requests_def)
qed

text \<open>A new block taken and the old one given back, whatever the new one holds.\<close>

lemma adopt_block_ok:
  assumes "held_by deque_view h d" "requests h (dqal d) {#} (held (dqelem d) c) True h1"
    and "length s = c" "0 < c" "lsize (dqelem d) * c \<le> SIZE_MAX" "k \<le> c"
  shows "\<exists>h'. deque_adopt_block d s c h1 = Some (d\<lparr>dqdata := s, dqcap := c, dqhead := 0\<rparr>, h') \<and>
    call_grows deque_view h d fits TDA_STATUS_OK (d\<lparr>dqdata := s, dqcap := c, dqhead := 0, dqlen := k\<rparr>) h'"
proof -
  have d: "deque_ok d" "held (dqelem d) (dqcap d) \<subseteq># lives h (dqal d)"
    using assms(1) by (simp_all add: held_by_deque)
  note ok = deque_okD [OF d(1)]
  have "held (dqelem d) (dqcap d) \<subseteq># lives h1 (dqal d)"
    using assms(2) d(2) by (simp add: requests_def subset_mset.add_increasing2)
  then obtain h' where f: "deque_free_block d h1 = Some h'"
    "requests h1 (dqal d) (held (dqelem d) (dqcap d)) {#} True h'"
    using free_block_ok [OF d(1)] by blast
  have "requests h (dqal d) (held (dqelem d) (dqcap d)) (held (dqelem d) c) True h'"
    using assms(2) d(2) f(2) by (rule requests_replace)
  then show ?thesis
    using f(1) assms ok by (simp add: deque_adopt_block_def call_grows_def deque_ok_def)
qed

lemma relocate_ok:
  assumes "held_by deque_view h d" "dqlen d \<le> c" "0 < c" "lsize (dqelem d) * c \<le> SIZE_MAX"
  shows "\<exists>st d' h'. deque_relocate d c h = Some (st, d', h') \<and> call_grows deque_view h d fits st d' h' \<and>
    deque_cells d' = deque_cells d \<and> dqlen d' = dqlen d \<and> (st = TDA_STATUS_OK \<longrightarrow> dqcap d' = c)"
proof -
  have d: "deque_ok d" using assms(1) by (simp add: held_by_deque)
  note ok = deque_okD [OF d]
  obtain b h1 where a: "al_alloc (dqal d) \<lparr>lsize = lsize (dqelem d) * c, lalign = lalign (dqelem d)\<rparr> h = Some (b, h1)"
    and r: "requests h (dqal d) {#} (held (dqelem d) c) b h1" and g: "generous h (dqal d) \<longrightarrow> b"
    using alloc_elems [OF ok(1,5) assms(3)] by blast
  show ?thesis
  proof (cases b)
    case False
    then have "call_grows deque_view h d fits TDA_STATUS_ERR_NO_MEM d h1"
      using r g assms(1) by (intro refused_grows) auto
    then show ?thesis
      using False a d assms by (simp add: deque_relocate_def)
  next
    case True
    let ?s = "deque_cells d @ drop (dqlen d) (slots_new c)"
    let ?d = "d\<lparr>dqdata := ?s, dqcap := c, dqhead := 0\<rparr>"
    have len: "length ?s = c" using d assms(2) by simp
    have rT: "requests h (dqal d) {#} (held (dqelem d) c) True h1" using r True by simp
    obtain h' where ad: "deque_adopt_block d ?s c h1 = Some (?d, h')"
      and gr: "call_grows deque_view h d fits TDA_STATUS_OK (?d\<lparr>dqlen := dqlen d\<rparr>) h'"
      using adopt_block_ok [OF assms(1) rT len assms(3,4,2)] by blast
    have gr: "call_grows deque_view h d fits TDA_STATUS_OK ?d h'" using gr by simp
    then have "deque_ok ?d" by (simp add: call_grows_def)
    moreover have "slots_put (slots_new c) 0 (deque_cells d) = Some ?s"
      using d assms(2) by (simp add: slots_put_Some)
    ultimately have "deque_relocate d c h = Some (TDA_STATUS_OK, ?d, h')"
      using True a d assms ad by (simp add: deque_relocate_def)
    moreover have "deque_cells ?d = deque_cells d"
      unfolding deque_cells_def [of ?d] using d by (simp add: deque_ring_def)
    ultimately show ?thesis using gr by auto
  qed
qed

lemma reserve_ok:
  assumes "held_by deque_view h d"
  shows "\<exists>st d' h'. tda_deque_reserve d n h = Some (st, d', h') \<and>
    call_grows deque_view h d (lsize (dqelem d) * n \<le> SIZE_MAX) st d' h' \<and>
    deque_cells d' = deque_cells d \<and> dqlen d' = dqlen d \<and> (st = TDA_STATUS_OK \<longrightarrow> n \<le> dqcap d')"
proof -
  have d: "deque_ok d" using assms by (simp add: held_by_deque)
  note ok = deque_okD [OF d]
  consider "n \<le> dqcap d" | "dqcap d < n" "\<not> lsize (dqelem d) * n \<le> SIZE_MAX" | "dqcap d < n" "lsize (dqelem d) * n \<le> SIZE_MAX"
    by linarith
  then show ?thesis
  proof cases
    case 1
    then show ?thesis using d grows_refl [OF assms] by (simp add: tda_deque_reserve_def)
  next
    case 2
    then show ?thesis
      using d grows_refused [OF assms 2(2), of TDA_STATUS_ERR_NO_MEM] ok(1)
      by (simp add: tda_deque_reserve_def ckd_array_type)
  next
    case 3
    have "dqlen d \<le> n" "0 < n" using 3 ok(3) by simp_all
    from relocate_ok [OF assms this 3(2), of "lsize (dqelem d) * n \<le> SIZE_MAX"]
    obtain st d' h' where "deque_relocate d n h = Some (st, d', h')"
      "call_grows deque_view h d (lsize (dqelem d) * n \<le> SIZE_MAX) st d' h'"
      "deque_cells d' = deque_cells d" "dqlen d' = dqlen d" "st = TDA_STATUS_OK \<longrightarrow> dqcap d' = n" by blast
    then show ?thesis using 3 d ok(1) by (simp add: tda_deque_reserve_def ckd_array_type)
  qed
qed

lemma reserve_for_ok:
  assumes "held_by deque_view h d" "dqcap d < n"
  shows "\<exists>st d' h'. deque_reserve_for d n h = Some (st, d', h') \<and>
    call_grows deque_view h d (lsize (dqelem d) * n \<le> SIZE_MAX) st d' h' \<and>
    deque_cells d' = deque_cells d \<and> dqlen d' = dqlen d \<and> (st = TDA_STATUS_OK \<longrightarrow> n \<le> dqcap d')"
proof (cases "deque_next_cap d > n")
  case False
  then show ?thesis using reserve_ok [OF assms(1), of n] assms(2) by (simp add: deque_reserve_for_def)
next
  case True
  let ?fits = "\<lambda>n. lsize (dqelem d) * n \<le> SIZE_MAX"
  obtain st d1 h1 where r: "tda_deque_reserve d (deque_next_cap d) h = Some (st, d1, h1)"
    and g: "call_grows deque_view h d (?fits (deque_next_cap d)) st d1 h1"
    and c: "deque_cells d1 = deque_cells d" "dqlen d1 = dqlen d" "st = TDA_STATUS_OK \<longrightarrow> deque_next_cap d \<le> dqcap d1"
    using reserve_ok [OF assms(1), of "deque_next_cap d"] by blast
  have elem: "dqelem d1 = dqelem d" using g by (simp add: call_grows_def)
  show ?thesis
  proof (cases "st = TDA_STATUS_OK")
    case ok: True
    then have "call_grows deque_view h d (?fits n) TDA_STATUS_OK d1 h1" using g by (blast intro: grows_ok)
    then show ?thesis using True r c ok assms(2) by (simp add: deque_reserve_for_def)
  next
    case False
    obtain st2 d2 h2 where r2: "tda_deque_reserve d1 n h1 = Some (st2, d2, h2)"
      and g2: "call_grows deque_view h1 d1 (?fits n) st2 d2 h2"
      and c2: "deque_cells d2 = deque_cells d1" "dqlen d2 = dqlen d1" "st2 = TDA_STATUS_OK \<longrightarrow> n \<le> dqcap d2"
      using reserve_ok [OF grows_held [OF g], of n] unfolding elem by blast
    have "call_grows deque_view h d (?fits n) st2 d2 h2"
      using g g2 by (rule grows_trans) (simp add: c)
    then show ?thesis using False True r r2 c c2 assms(2) by (simp add: deque_reserve_for_def status_is_ok_def)
  qed
qed

text \<open>Room for \<open>n\<close> elements, as \<open>open_gap\<close> and \<open>resize\<close> ask for it.\<close>

lemma room_ok:
  assumes "held_by deque_view h d"
  shows "\<exists>st d' h'. (if n > dqcap d then deque_reserve_for d n h else Some (TDA_STATUS_OK, d, h)) = Some (st, d', h') \<and>
    call_grows deque_view h d (lsize (dqelem d) * n \<le> SIZE_MAX) st d' h' \<and>
    deque_cells d' = deque_cells d \<and> dqlen d' = dqlen d \<and> (st = TDA_STATUS_OK \<longrightarrow> n \<le> dqcap d')"
  using reserve_for_ok [OF assms, of n] grows_refl [OF assms] by (cases "n > dqcap d") simp_all

lemma elems_le_bytes:
  "deque_ok d \<Longrightarrow> n \<le> lsize (dqelem d) * n"
  using deque_okD(2) [of d] by (cases "lsize (dqelem d)") simp_all

lemma reserve_one_ok:
  assumes "held_by deque_view h d"
  shows "\<exists>st d' h'. deque_reserve_one d h = Some (st, d', h') \<and>
    call_grows deque_view h d (lsize (dqelem d) * (dqlen d + 1) \<le> SIZE_MAX) st d' h' \<and>
    deque_cells d' = deque_cells d \<and> dqlen d' = dqlen d \<and> (st = TDA_STATUS_OK \<longrightarrow> dqlen d < dqcap d')"
proof -
  have d: "deque_ok d" using assms by (simp add: held_by_deque)
  consider "dqlen d < dqcap d" | "dqlen d = dqcap d" "dqcap d = SIZE_MAX" | "dqlen d = dqcap d" "dqcap d \<noteq> SIZE_MAX"
    using deque_okD(3) [OF d] by linarith
  then show ?thesis
  proof cases
    case 1
    then show ?thesis using grows_refl [OF assms] by (simp add: deque_reserve_one_def)
  next
    case 2
    then have "\<not> lsize (dqelem d) * (dqlen d + 1) \<le> SIZE_MAX"
      using elems_le_bytes [OF d, of "dqlen d + 1"] by linarith
    from grows_refused [OF assms this, of TDA_STATUS_ERR_NO_MEM] show ?thesis
      using 2 by (simp add: deque_reserve_one_def)
  next
    case 3
    then show ?thesis using reserve_for_ok [OF assms, of "dqcap d + 1"] by (simp add: deque_reserve_one_def Suc_le_eq)
  qed
qed

section \<open>Opening a gap\<close>

lemma deque_grows_on:
  assumes "call_grows deque_view h d fits TDA_STATUS_OK d1 h1" "deque_ok d'" "dqelem d' = dqelem d1"
    "dqal d' = dqal d1" "dqcap d' = dqcap d1"
  shows "call_grows deque_view h d fits TDA_STATUS_OK d' h1"
  using assms by (auto simp: call_grows_def)

lemma deque_okI_len: "deque_ok d \<Longrightarrow> n \<le> dqcap d \<Longrightarrow> deque_ok (d\<lparr>dqlen := n\<rparr>)"
  by (simp add: deque_ok_def)

lemma deque_okI_head:
  "deque_ok d \<Longrightarrow> k < dqcap d \<Longrightarrow> n \<le> dqcap d \<Longrightarrow> deque_ok (d\<lparr>dqhead := k, dqlen := n\<rparr>)"
  by (simp add: deque_ok_def)

lemma deque_ring_len [simp]: "deque_ring (d\<lparr>dqlen := n\<rparr>) = deque_ring d"
  by (simp add: deque_ring_def)

lemma gap_front:
  assumes "length r = c" "n + k \<le> c" "idx \<le> n" "q = drop (c - k) r @ take (c - k) r"
  shows "take idx (blit q 0 k idx) = take idx r"
    "take (n - idx) (drop (idx + k) (blit q 0 k idx)) = take (n - idx) (drop idx r)"
proof -
  define a where "a = drop (c - k) r"
  define b where "b = take (c - k) r"
  have len: "length a = k" "idx \<le> length b" "n \<le> length b" and r: "r = b @ a"
    using assms(1-3) by (simp_all add: a_def b_def)
  have q: "q = a @ b" using assms(4) by (simp add: a_def b_def)
  have blit: "blit q 0 k idx = take idx b @ drop idx (a @ b)" using len by (simp add: q blit_def)
  have "drop (idx + k) (blit q 0 k idx) = drop (k + idx) (a @ b)"
    unfolding blit drop_append [of "idx + k" "take idx b"] using len by (simp add: min_absorb2 del: drop_append)
  then show "take (n - idx) (drop (idx + k) (blit q 0 k idx)) = take (n - idx) (drop idx r)"
    using len assms(3) by (simp add: r)
  show "take idx (blit q 0 k idx) = take idx r" using len by (simp add: blit r)
qed

lemma gap_back:
  assumes "length r = c" "n + k \<le> c" "idx \<le> n"
  shows "take idx (blit r (idx + k) idx (n - idx)) = take idx r"
    "take (n - idx) (drop (idx + k) (blit r (idx + k) idx (n - idx))) = take (n - idx) (drop idx r)"
proof -
  obtain m where m: "c = n + k + m" using assms(2) le_Suc_ex by blast
  obtain j where j: "n = idx + j" using assms(3) le_Suc_ex by blast
  show "take idx (blit r (idx + k) idx (n - idx)) = take idx r"
    "take (n - idx) (drop (idx + k) (blit r (idx + k) idx (n - idx))) = take (n - idx) (drop idx r)"
    using assms(1) by (simp_all add: m j blit_def)
qed

lemma open_gap_ok:
  assumes "held_by deque_view h d" "idx \<le> dqlen d" "0 < cnt"
  shows "\<exists>st d' h'. deque_open_gap d idx cnt h = Some (st, d', h') \<and>
    call_grows deque_view h d (lsize (dqelem d) * (dqlen d + cnt) \<le> SIZE_MAX) st d' h' \<and>
    (st = TDA_STATUS_OK \<longrightarrow> dqlen d' = dqlen d + cnt \<and> take idx (deque_ring d') = take idx (deque_cells d) \<and>
       take (dqlen d - idx) (drop (idx + cnt) (deque_ring d')) = drop idx (deque_cells d))"
proof (cases "dqlen d + cnt \<le> SIZE_MAX")
  case False
  have d: "deque_ok d" using assms(1) by (simp add: held_by_deque)
  have "\<not> lsize (dqelem d) * (dqlen d + cnt) \<le> SIZE_MAX"
    using False elems_le_bytes [OF d, of "dqlen d + cnt"] by linarith
  from grows_refused [OF assms(1) this, of TDA_STATUS_ERR_NO_MEM] show ?thesis
    using False assms(2) by (simp add: deque_open_gap_def ckd_add_def)
next
  case True
  let ?n = "dqlen d + cnt" and ?fits = "lsize (dqelem d) * (dqlen d + cnt) \<le> SIZE_MAX"
  obtain st d1 h1 where r: "(if ?n > dqcap d then deque_reserve_for d ?n h else Some (TDA_STATUS_OK, d, h)) = Some (st, d1, h1)"
    and g: "call_grows deque_view h d ?fits st d1 h1"
    and c: "deque_cells d1 = deque_cells d" "dqlen d1 = dqlen d" "st = TDA_STATUS_OK \<longrightarrow> ?n \<le> dqcap d1"
    using room_ok [OF assms(1)] by blast
  show ?thesis
  proof (cases "st = TDA_STATUS_OK")
    case False
    then have "deque_open_gap d idx cnt h = Some (st, d1, h1)"
      unfolding deque_open_gap_def using r True assms(2)
      by (simp add: ckd_add_def status_is_err_iff del: if_split_asm split del: if_split)
    then show ?thesis using g False by blast
  next
    case ok: True
    have d1: "deque_ok d1" using g by (simp add: call_grows_def)
    let ?r = "deque_ring d1"
    have cap: "?n \<le> dqcap d1" "0 < dqcap d1" "cnt \<le> dqcap d1" using c(3) ok assms(3) by simp_all
    have len: "length ?r = dqcap d1" using d1 by simp
    have cells: "take idx (deque_cells d) = take idx ?r" "drop idx (deque_cells d) = take (dqlen d - idx) (drop idx ?r)"
      using assms(2) c(1) [symmetric] c(2) by (simp_all add: deque_cells_def drop_take)
    have g: "call_grows deque_view h d ?fits TDA_STATUS_OK d1 h1" using g ok by simp
    show ?thesis
    proof (cases "idx < dqlen d - idx")
      case front: True
      obtain k where k: "deque_slot_back d1 (dqhead d1) cnt = Some k" "k < dqcap d1"
        "rotate k (dqdata d1) = drop (dqcap d1 - cnt) ?r @ take (dqcap d1 - cnt) ?r"
        using slot_back_ok [OF d1 cap(2,3)] by blast
      let ?d2 = "d1\<lparr>dqhead := k, dqlen := ?n\<rparr>"
      have d2: "deque_ok ?d2" using d1 k(2) cap(1) by (rule deque_okI_head)
      have r2: "deque_ring ?d2 = drop (dqcap d1 - cnt) ?r @ take (dqcap d1 - cnt) ?r"
        using k(3) by (simp add: deque_ring_def)
      let ?d3 = "deque_on ?d2 (blit (deque_ring ?d2) 0 cnt idx)"
      have mv: "deque_move_elems ?d2 0 cnt idx = Some ?d3"
        using d2 cap(1) assms(2) by (intro move_elems_ok) simp_all
      have len3: "length (blit (deque_ring ?d2) 0 cnt idx) = dqcap ?d2"
        using length_deque_ring [OF d2] cap(1) assms(2) by simp
      have "deque_open_gap d idx cnt h = Some (TDA_STATUS_OK, ?d3, h1)"
        unfolding deque_open_gap_def using r ok True assms(2) front k(1) mv c(2)
        by (simp add: ckd_add_def Let_def split del: if_split)
      moreover have "call_grows deque_view h d ?fits TDA_STATUS_OK ?d3 h1"
        using g by (rule deque_grows_on) (use deque_on_ok [OF d2 len3] in simp_all)
      moreover have "deque_ring ?d3 = blit (deque_ring ?d2) 0 cnt idx"
        using d2 len3 by (rule deque_on_ring)
      ultimately show ?thesis
        using gap_front [OF len cap(1) assms(2) r2] cells by auto
    next
      case rear: False
      let ?d2 = "d1\<lparr>dqlen := ?n\<rparr>"
      have d2: "deque_ok ?d2" using d1 cap(1) by (rule deque_okI_len)
      let ?d3 = "deque_on ?d2 (blit ?r (idx + cnt) idx (dqlen d - idx))"
      have mv: "deque_move_elems ?d2 (idx + cnt) idx (dqlen d - idx) = Some ?d3"
        using move_elems_ok [OF d2, of "idx + cnt" "dqlen d - idx" idx] cap(1) assms(2) by simp
      have len3: "length (blit ?r (idx + cnt) idx (dqlen d - idx)) = dqcap ?d2"
        using len cap(1) assms(2) by simp
      have "deque_open_gap d idx cnt h = Some (TDA_STATUS_OK, ?d3, h1)"
        unfolding deque_open_gap_def using r ok True assms(2) rear mv c(2)
        by (simp add: ckd_add_def Let_def split del: if_split)
      moreover have "call_grows deque_view h d ?fits TDA_STATUS_OK ?d3 h1"
        using g by (rule deque_grows_on) (use deque_on_ok [OF d2 len3] in simp_all)
      moreover have "deque_ring ?d3 = blit ?r (idx + cnt) idx (dqlen d - idx)"
        using d2 len3 by (rule deque_on_ring)
      ultimately show ?thesis
        using gap_back [OF len cap(1) assms(2)] cells by auto
    qed
  qed
qed

section \<open>The operations on cells\<close>

lemma edits_on:
  assumes "deque_ok d" "length r = dqcap d" "n \<le> dqcap d" "take n r = x"
  shows "deque_ok ((deque_on d r)\<lparr>dqlen := n\<rparr>)"
    "call_edits deque_view d (Some ((deque_on d r)\<lparr>dqlen := n\<rparr>)) x"
proof -
  let ?d = "(deque_on d r)\<lparr>dqlen := n\<rparr>"
  show ok: "deque_ok ?d" using deque_on_ok [OF assms(1,2)] assms(3) by (simp add: deque_okI_len)
  have "deque_cells ?d = x" using assms by (simp add: deque_cells_def)
  then show "call_edits deque_view d (Some ?d) x"
    using assms(1) ok by (intro editsI) (simp_all add: deque_view_def)
qed

lemma edits_len:
  assumes "deque_ok d" "n \<le> dqcap d"
  shows "deque_ok (d\<lparr>dqlen := n\<rparr>)" "call_edits deque_view d (Some (d\<lparr>dqlen := n\<rparr>)) (take n (deque_ring d))"
  using edits_on [of d "deque_ring d" n] assms by (simp_all add: deque_on_self)

lemma edits_head:
  assumes "deque_ok d" "k < dqcap d" "n \<le> dqcap d" "take n (rotate k (dqdata d)) = x"
  shows "deque_ok (d\<lparr>dqhead := k, dqlen := n\<rparr>)" "call_edits deque_view d (Some (d\<lparr>dqhead := k, dqlen := n\<rparr>)) x"
proof -
  show ok: "deque_ok (d\<lparr>dqhead := k, dqlen := n\<rparr>)" using assms(1-3) by (rule deque_okI_head)
  show "call_edits deque_view d (Some (d\<lparr>dqhead := k, dqlen := n\<rparr>)) x"
    using assms ok by (intro editsI) (simp_all add: deque_view_def deque_cells_def deque_ring_def)
qed

lemma deque_cells_nth: "i < dqlen d \<Longrightarrow> deque_cells d ! i = deque_ring d ! i"
  by (simp add: deque_cells_def)

text \<open>A value argument that is an element: apart from the block, or the address of one of them.\<close>

definition deque_idx :: "'e deque \<Rightarrow> nat \<Rightarrow> nat" where
  "deque_idx d slot = (if slot \<ge> dqhead d then slot - dqhead d else slot + dqcap d - dqhead d)"

definition deque_arg_ok :: "'e deque \<Rightarrow> 'e arg \<Rightarrow> bool" where
  "deque_arg_ok d val \<longleftrightarrow> (case val of Apart x \<Rightarrow> True
     | Within off \<Rightarrow> off mod lsize (dqelem d) = 0 \<and> off div lsize (dqelem d) < dqcap d \<and>
         deque_idx d (off div lsize (dqelem d)) < dqlen d)"

definition deque_arg_val :: "'e deque \<Rightarrow> 'e arg \<Rightarrow> 'e option" where
  "deque_arg_val d val = (case val of Apart x \<Rightarrow> x | Within off \<Rightarrow> dqdata d ! (off div lsize (dqelem d)))"

lemma deque_idx_ok:
  assumes "deque_ok d" "slot < dqcap d"
  shows "deque_idx d slot < dqcap d" "tda_deque_slot_of d (deque_idx d slot) = slot"
    "(if slot \<ge> dqhead d then slot - dqhead d else wsub (wadd slot (dqcap d)) (dqhead d)) = deque_idx d slot"
proof -
  note ok = deque_okD [OF assms(1)]
  have h: "dqhead d < dqcap d" using ok(9) assms(2) by simp
  then show "deque_idx d slot < dqcap d" "tda_deque_slot_of d (deque_idx d slot) = slot"
    using assms(2) by (auto simp: deque_idx_def tda_deque_slot_of_def Let_def)
  have "\<not> slot \<ge> dqhead d \<Longrightarrow> wsub (wadd slot (dqcap d)) (dqhead d) = slot + dqcap d - dqhead d"
    using h ok(10) by (intro wsub_wadd) simp_all
  then show "(if slot \<ge> dqhead d then slot - dqhead d else wsub (wadd slot (dqcap d)) (dqhead d)) = deque_idx d slot"
    by (simp add: deque_idx_def)
qed

lemma deque_arg_cell_ok:
  "deque_ok d \<Longrightarrow> deque_arg_ok d val \<Longrightarrow> deque_arg_cell d val = Some (deque_arg_val d val)"
  by (auto simp: deque_arg_cell_def deque_arg_ok_def deque_arg_val_def deque_ok_def split: arg.splits)

text \<open>What \<open>alias_idx\<close> finds, and that the elem is found again by it in any deque of the same cells.\<close>

lemma alias_idx_ok:
  assumes "deque_ok d" "deque_arg_ok d val"
  shows "\<exists>from. deque_alias_idx d val = Some from \<and> (case from of
     None \<Rightarrow> val = Apart (deque_arg_val d val)
   | Some i \<Rightarrow> i < dqlen d \<and> deque_cells d ! i = deque_arg_val d val)"
proof (cases val)
  case (Apart x)
  then show ?thesis using deque_okD(6) [OF assms(1)] assms(1) by (simp add: deque_alias_idx_def deque_arg_val_def)
next
  case (Within off)
  note ok = deque_okD [OF assms(1)]
  let ?slot = "off div lsize (dqelem d)"
  have m: "off mod lsize (dqelem d) = 0" "?slot < dqcap d" "deque_idx d ?slot < dqlen d"
    using assms(2) Within by (simp_all add: deque_arg_ok_def)
  have "off = lsize (dqelem d) * ?slot" using m(1) by (metis add.right_neutral mult_div_mod_eq)
  also have "\<dots> < lsize (dqelem d) * dqcap d" using m(2) ok(2) by simp
  finally have "off < lsize (dqelem d) * dqcap d" .
  then have "deque_alias_idx d val = Some (Some (deque_idx d ?slot))"
    using m ok Within assms(1) deque_idx_ok(3) [OF assms(1) m(2)]
    by (simp add: deque_alias_idx_def Let_def del: if_split)
  moreover have "deque_cells d ! deque_idx d ?slot = deque_arg_val d val"
    using m deque_idx_ok [OF assms(1) m(2)] assms(1) Within
    by (simp add: deque_cells_nth deque_ring_nth deque_arg_val_def)
  ultimately show ?thesis using m(3) by simp
qed

lemma arg_found:
  assumes "deque_ok d1" "dqlen d \<le> dqcap d1" "dqlen d1 = dqlen d" "deque_cells d1 = deque_cells d"
    and "case from of None \<Rightarrow> val = Apart x | Some i \<Rightarrow> i < dqlen d \<and> deque_cells d ! i = x"
  shows "(case from of None \<Rightarrow> deque_arg_cell d1 val | Some i \<Rightarrow> deque_elem_at d1 i) = Some x"
proof (cases "from")
  case (Some i)
  then have "deque_ring d1 ! i = x" using assms deque_cells_nth [of i d1] by simp
  then show ?thesis using Some assms by simp
qed (use assms in \<open>simp add: deque_arg_cell_def\<close>)

text \<open>The cells after a gap is filled.\<close>

lemma gap_filled:
  assumes "take idx r = take idx xs" "take (n - idx) (drop (idx + length src) r) = drop idx xs"
    and "idx \<le> n" "n + length src \<le> length r" "length xs = n"
  shows "take (n + length src) (take idx r @ src @ drop (idx + length src) r) = take idx xs @ src @ drop idx xs"
proof -
  have "n + length src - idx - length src = n - idx" using assms(3) by simp
  then show ?thesis using assms by simp
qed

lemma insert_raw_ok:
  assumes "held_by deque_view h d" "idx \<le> dqlen d"
  shows "call_does deque_view h d (deque_insert_raw d idx src h) (lsize (dqelem d) * (dqlen d + length src) \<le> SIZE_MAX)
    (take idx (deque_cells d) @ src @ drop idx (deque_cells d))"
proof (cases "length src = 0")
  case True
  then show ?thesis using grows_refl [OF assms(1)] by (simp add: deque_insert_raw_def doesI)
next
  case False
  have d: "deque_ok d" using assms(1) by (simp add: held_by_deque)
  let ?fits = "lsize (dqelem d) * (dqlen d + length src) \<le> SIZE_MAX"
  obtain st d1 h1 where r: "deque_open_gap d idx (length src) h = Some (st, d1, h1)"
    and g: "call_grows deque_view h d ?fits st d1 h1"
    and gap: "st = TDA_STATUS_OK \<longrightarrow> dqlen d1 = dqlen d + length src \<and> take idx (deque_ring d1) = take idx (deque_cells d) \<and>
       take (dqlen d - idx) (drop (idx + length src) (deque_ring d1)) = drop idx (deque_cells d)"
    using open_gap_ok [OF assms(1,2), of "length src"] False by auto
  show ?thesis
  proof (cases "st = TDA_STATUS_OK")
    case err: False
    then show ?thesis using r False does_refused [OF g err] by (simp add: deque_insert_raw_def status_is_err_iff)
  next
    case ok: True
    have d1: "deque_ok d1" using g by (simp add: call_grows_def)
    let ?r = "take idx (deque_ring d1) @ src @ drop (idx + length src) (deque_ring d1)"
    have n: "dqlen d1 = dqlen d + length src" "dqlen d1 \<le> dqcap d1" "idx + length src \<le> dqlen d1"
      using gap ok assms(2) deque_okD(3) [OF d1] by simp_all
    have len: "length ?r = dqcap d1" using d1 n by simp
    have cells: "take (dqlen d1) ?r = take idx (deque_cells d) @ src @ drop idx (deque_cells d)"
      unfolding n(1) using gap ok assms(2) d d1 n by (intro gap_filled) simp_all
    have "deque_insert_raw d idx src h = Some (TDA_STATUS_OK, deque_on d1 ?r, h1)"
      using r ok False copy_range_in_ok [OF d1 n(3)] deque_on_ok [OF d1 len] by (simp add: deque_insert_raw_def)
    moreover have "deque_view (deque_on d1 ?r) = (deque_view d1)\<lparr>hval := take idx (deque_cells d) @ src @ drop idx (deque_cells d)\<rparr>"
      unfolding cells [symmetric] using d1 len deque_on_ok [OF d1 len] by (simp add: deque_view_def)
    moreover have "call_grows deque_view h d ?fits TDA_STATUS_OK d1 h1" using g ok by simp
    ultimately show ?thesis using does_edits by metis
  qed
qed

lemma deque_insert_ok:
  assumes "held_by deque_view h d" "deque_arg_ok d val" "idx \<le> dqlen d"
  shows "call_does deque_view h d (tda_deque_insert d idx val h) (lsize (dqelem d) * (dqlen d + 1) \<le> SIZE_MAX)
    (take idx (deque_cells d) @ [deque_arg_val d val] @ drop idx (deque_cells d))"
proof -
  have d: "deque_ok d" using assms(1) by (simp add: held_by_deque)
  let ?x = "deque_arg_val d val" and ?fits = "lsize (dqelem d) * (dqlen d + 1) \<le> SIZE_MAX"
  obtain "from" where f: "deque_alias_idx d val = Some from"
    "case from of None \<Rightarrow> val = Apart ?x | Some i \<Rightarrow> i < dqlen d \<and> deque_cells d ! i = ?x"
    using alias_idx_ok [OF d assms(2)] by blast
  show ?thesis
  proof (cases "from")
    case None
    then show ?thesis
      using insert_raw_ok [OF assms(1,3), of "[?x]"] f d assms(3) deque_arg_cell_ok [OF d assms(2)]
      by (simp add: tda_deque_insert_def)
  next
    case (Some i)
    have i: "i < dqlen d" "deque_cells d ! i = ?x" using f(2) Some by simp_all
    obtain st d1 h1 where r: "deque_open_gap d idx 1 h = Some (st, d1, h1)"
      and g: "call_grows deque_view h d ?fits st d1 h1"
      and gap: "st = TDA_STATUS_OK \<longrightarrow> dqlen d1 = dqlen d + 1 \<and> take idx (deque_ring d1) = take idx (deque_cells d) \<and>
         take (dqlen d - idx) (drop (idx + 1) (deque_ring d1)) = drop idx (deque_cells d)"
      using open_gap_ok [OF assms(1,3), of 1] by auto
    show ?thesis
    proof (cases "st = TDA_STATUS_OK")
      case err: False
      then show ?thesis
        using r f Some d assms(3) does_refused [OF g err] by (simp add: tda_deque_insert_def status_is_err_iff)
    next
      case ok: True
      have d1: "deque_ok d1" using g by (simp add: call_grows_def)
      let ?j = "if i < idx then i else i + 1"
      have n: "dqlen d1 = dqlen d + 1" "dqlen d1 \<le> dqcap d1" "idx < dqcap d1" "?j < dqcap d1"
        using gap ok assms(3) deque_okD(3) [OF d1] i(1) by auto
      have x: "deque_ring d1 ! ?j = ?x"
      proof (cases "i < idx")
        case True
        have "take idx (deque_ring d1) ! i = take idx (deque_cells d) ! i" using gap ok by simp
        then show ?thesis using True i by simp
      next
        case False
        have "take (dqlen d - idx) (drop (idx + 1) (deque_ring d1)) ! (i - idx) = drop idx (deque_cells d) ! (i - idx)"
          using gap ok by simp
        then show ?thesis using False i d d1 n assms(3) by simp
      qed
      let ?r = "(deque_ring d1)[idx := ?x]"
      have len: "length ?r = dqcap d1" using d1 by simp
      have "?r = take idx (deque_ring d1) @ [?x] @ drop (idx + length [?x]) (deque_ring d1)"
        using d1 n(3) by (simp add: upd_conv_take_nth_drop)
      moreover have "take (dqlen d + length [?x]) (take idx (deque_ring d1) @ [?x] @ drop (idx + length [?x]) (deque_ring d1)) =
        take idx (deque_cells d) @ [?x] @ drop idx (deque_cells d)"
        using gap ok assms(3) d d1 n by (intro gap_filled) simp_all
      ultimately have cells: "take (dqlen d1) ?r = take idx (deque_cells d) @ [?x] @ drop idx (deque_cells d)"
        using n(1) by simp
      have "deque_move_elem d1 idx ?j = Some (deque_on d1 ?r)" using d1 n x by simp
      then have "tda_deque_insert d idx val h = Some (TDA_STATUS_OK, deque_on d1 ?r, h1)"
        using r ok f Some d assms(3) deque_on_ok [OF d1 len] by (simp add: tda_deque_insert_def)
      moreover have "deque_view (deque_on d1 ?r) = (deque_view d1)\<lparr>hval := take idx (deque_cells d) @ [?x] @ drop idx (deque_cells d)\<rparr>"
        unfolding cells [symmetric] using d1 len deque_on_ok [OF d1 len] by (simp add: deque_view_def)
      moreover have "call_grows deque_view h d ?fits TDA_STATUS_OK d1 h1" using g ok by simp
      ultimately show ?thesis using does_edits by metis
    qed
  qed
qed

lemma push_back_ok:
  assumes "held_by deque_view h d" "deque_arg_ok d val"
  shows "call_does deque_view h d (tda_deque_push_back d val h) (lsize (dqelem d) * (dqlen d + 1) \<le> SIZE_MAX)
    (deque_cells d @ [deque_arg_val d val])"
proof -
  have d: "deque_ok d" using assms(1) by (simp add: held_by_deque)
  let ?x = "deque_arg_val d val" and ?fits = "lsize (dqelem d) * (dqlen d + 1) \<le> SIZE_MAX"
  obtain "from" where f: "deque_alias_idx d val = Some from"
    "case from of None \<Rightarrow> val = Apart ?x | Some i \<Rightarrow> i < dqlen d \<and> deque_cells d ! i = ?x"
    using alias_idx_ok [OF d assms(2)] by blast
  obtain st d1 h1 where r: "deque_reserve_one d h = Some (st, d1, h1)" and g: "call_grows deque_view h d ?fits st d1 h1"
    and c: "deque_cells d1 = deque_cells d" "dqlen d1 = dqlen d" "st = TDA_STATUS_OK \<longrightarrow> dqlen d < dqcap d1"
    using reserve_one_ok [OF assms(1)] by blast
  show ?thesis
  proof (cases "st = TDA_STATUS_OK")
    case err: False
    then show ?thesis using r f d does_refused [OF g err] by (simp add: tda_deque_push_back_def status_is_err_iff)
  next
    case ok: True
    have d1: "deque_ok d1" using g by (simp add: call_grows_def)
    have n: "dqlen d < dqcap d1" using c(3) ok by simp
    let ?r = "(deque_ring d1)[dqlen d := ?x]" and ?xs = "deque_cells d @ [?x]"
    let ?d = "(deque_on d1 ?r)\<lparr>dqlen := dqlen d + 1\<rparr>"
    have x: "(case from of None \<Rightarrow> deque_arg_cell d1 val | Some i \<Rightarrow> deque_elem_at d1 i) = Some ?x"
      using d1 n c f(2) by (intro arg_found) simp_all
    have cells: "take (dqlen d + 1) ?r = ?xs"
      using d1 n c(1) [symmetric] c(2) by (simp add: take_Suc_conv_app_nth deque_cells_def)
    have e: "deque_ok ?d" "call_edits deque_view d1 (Some ?d) ?xs"
      using d1 n cells by (intro edits_on; simp)+
    have "tda_deque_push_back d val h = Some (TDA_STATUS_OK, ?d, h1)"
      using r ok f(1) x c(2) d d1 n e(1) by (simp add: tda_deque_push_back_def)
    moreover have "call_grows deque_view h d ?fits TDA_STATUS_OK d1 h1" using g ok by simp
    moreover have "deque_view ?d = (deque_view d1)\<lparr>hval := ?xs\<rparr>" using e(2) by (simp add: call_edits_def)
    ultimately show ?thesis using does_edits by metis
  qed
qed

lemma push_front_ok:
  assumes "held_by deque_view h d" "deque_arg_ok d val"
  shows "call_does deque_view h d (tda_deque_push_front d val h) (lsize (dqelem d) * (dqlen d + 1) \<le> SIZE_MAX)
    (deque_arg_val d val # deque_cells d)"
proof -
  have d: "deque_ok d" using assms(1) by (simp add: held_by_deque)
  let ?x = "deque_arg_val d val" and ?fits = "lsize (dqelem d) * (dqlen d + 1) \<le> SIZE_MAX"
  obtain "from" where f: "deque_alias_idx d val = Some from"
    "case from of None \<Rightarrow> val = Apart ?x | Some i \<Rightarrow> i < dqlen d \<and> deque_cells d ! i = ?x"
    using alias_idx_ok [OF d assms(2)] by blast
  obtain st d1 h1 where r: "deque_reserve_one d h = Some (st, d1, h1)" and g: "call_grows deque_view h d ?fits st d1 h1"
    and c: "deque_cells d1 = deque_cells d" "dqlen d1 = dqlen d" "st = TDA_STATUS_OK \<longrightarrow> dqlen d < dqcap d1"
    using reserve_one_ok [OF assms(1)] by blast
  show ?thesis
  proof (cases "st = TDA_STATUS_OK")
    case err: False
    then show ?thesis using r f d does_refused [OF g err] by (simp add: tda_deque_push_front_def status_is_err_iff)
  next
    case ok: True
    have d1: "deque_ok d1" using g by (simp add: call_grows_def)
    have n: "dqlen d < dqcap d1" "0 < dqcap d1" "1 \<le> dqcap d1" using c(3) ok by simp_all
    have x: "(case from of None \<Rightarrow> deque_arg_cell d1 val | Some i \<Rightarrow> deque_elem_at d1 i) = Some ?x"
      using d1 n c f(2) by (intro arg_found) simp_all
    obtain k where k: "deque_slot_back d1 (dqhead d1) 1 = Some k" "k < dqcap d1"
      "rotate k (dqdata d1) = drop (dqcap d1 - 1) (deque_ring d1) @ take (dqcap d1 - 1) (deque_ring d1)"
      using slot_back_ok [OF d1 n(2,3)] by blast
    let ?d2 = "d1\<lparr>dqhead := k, dqlen := dqlen d + 1\<rparr>"
    let ?s = "(dqdata d1)[k := ?x]" and ?xs = "?x # deque_cells d"
    let ?r = "(deque_ring ?d2)[0 := ?x]"
    have d2: "deque_ok ?d2" using d1 k(2) n by (intro deque_okI_head) simp_all
    have put: "slots_put (dqdata d1) k [?x] = Some ?s"
      using k(2) deque_okD(4) [OF d1] by (simp add: slots_put_one)
    have slot: "tda_deque_slot_of ?d2 0 = k" using k(2) by (simp add: tda_deque_slot_of_def Let_def)
    then have on: "?d2\<lparr>dqdata := ?s\<rparr> = deque_on ?d2 ?r"
      using deque_elem_put_ok [OF d2, of 0 ?x] n put by (simp add: deque_elem_put_def)
    have ring: "deque_ring ?d2 = drop (dqcap d1 - 1) (deque_ring d1) @ take (dqcap d1 - 1) (deque_ring d1)"
      using k(3) by (simp add: deque_ring_def)
    have "length (drop (dqcap d1 - 1) (deque_ring d1)) = Suc 0" using d1 n by simp
    then obtain y where y: "drop (dqcap d1 - 1) (deque_ring d1) = [y]" by (auto simp only: length_Suc_conv length_0_conv)
    have "?r = ?x # take (dqcap d1 - 1) (deque_ring d1)" using ring y by simp
    moreover have "dqlen d \<le> dqcap d1 - 1" using n(1) by linarith
    then have "take (dqlen d) (take (dqcap d1 - 1) (deque_ring d1)) = deque_cells d"
      using c(1) [symmetric] c(2) by (simp add: deque_cells_def min_absorb1 del: One_nat_def)
    ultimately have cells: "take (dqlen d + 1) ?r = ?xs" by simp
    have len: "length ?r = dqcap ?d2" using length_deque_ring [OF d2] by simp
    have e: "deque_ok (deque_on ?d2 ?r)" "deque_view (deque_on ?d2 ?r) = (deque_view d1)\<lparr>hval := ?xs\<rparr>"
      using deque_on_ok [OF d2 len] cells d1 deque_on_cells [OF d2 len] by (simp_all add: deque_view_def)
    have "d1\<lparr>dqdata := ?s, dqhead := k, dqlen := dqlen d1 + 1\<rparr> = ?d2\<lparr>dqdata := ?s\<rparr>"
      by (simp add: c(2))
    then have "d1\<lparr>dqdata := ?s, dqhead := k, dqlen := dqlen d1 + 1\<rparr> = deque_on ?d2 ?r"
      by (simp only: on)
    then have "tda_deque_push_front d val h = Some (TDA_STATUS_OK, deque_on ?d2 ?r, h1)"
      using r ok f(1) x d k(1) put e(1) by (simp add: tda_deque_push_front_def)
    moreover have "call_grows deque_view h d ?fits TDA_STATUS_OK d1 h1" using g ok by simp
    ultimately show ?thesis using e(2) does_edits by metis
  qed
qed

lemma pop_front_ok:
  assumes "deque_ok d" "0 < dqlen d"
  shows "call_edits deque_view d (tda_deque_pop_front d) (tl (deque_cells d))"
proof -
  have n: "0 < dqcap d" "1 \<le> dqcap d" "dqlen d - 1 \<le> dqcap d" using assms deque_okD(3) [OF assms(1)] by simp_all
  obtain k where k: "deque_slot_fwd d (dqhead d) 1 = Some k" "k < dqcap d"
    "rotate k (dqdata d) = drop 1 (deque_ring d) @ take 1 (deque_ring d)"
    using slot_fwd_ok [OF assms(1) n(1,2)] by blast
  have "take (dqlen d - 1) (rotate k (dqdata d)) = tl (deque_cells d)"
    unfolding k(3) using assms(1) deque_okD(3) [OF assms(1)] by (simp add: deque_cells_def tl_take drop_Suc)
  note e = edits_head [OF assms(1) k(2) n(3) this]
  have "tda_deque_pop_front d = Some (d\<lparr>dqhead := k, dqlen := dqlen d - 1\<rparr>)"
    using assms k(1) e(1) by (simp add: tda_deque_pop_front_def)
  then show ?thesis using e(2) by simp
qed

lemma pop_back_ok:
  assumes "deque_ok d" "0 < dqlen d"
  shows "call_edits deque_view d (tda_deque_pop_back d) (butlast (deque_cells d))"
proof -
  have n: "dqlen d - 1 \<le> dqcap d" using deque_okD(3) [OF assms(1)] by simp
  have "butlast (deque_cells d) = take (dqlen d - 1) (deque_ring d)"
    using assms deque_okD(3) [OF assms(1)] by (simp add: deque_cells_def butlast_take)
  then show ?thesis
    using edits_len [OF assms(1) n] assms by (simp add: tda_deque_pop_back_def)
qed

lemma pop_to_ok:
  assumes "deque_ok d" "0 < dqlen d"
  shows "\<exists>d'. tda_deque_pop_front_to d = Some (hd (deque_cells d), d') \<and> call_edits deque_view d (Some d') (tl (deque_cells d))"
    "\<exists>d'. tda_deque_pop_back_to d = Some (last (deque_cells d), d') \<and> call_edits deque_view d (Some d') (butlast (deque_cells d))"
proof -
  have ne: "deque_cells d \<noteq> []" using assms length_deque_cells [OF assms(1)] by fastforce
  have n: "0 < dqcap d" "dqlen d - 1 < dqcap d" using assms deque_okD(3) [OF assms(1)] by simp_all
  have "hd (deque_cells d) = deque_ring d ! 0" "last (deque_cells d) = deque_ring d ! (dqlen d - 1)"
    using ne assms by (simp_all add: hd_conv_nth last_conv_nth deque_cells_nth)
  then show "\<exists>d'. tda_deque_pop_front_to d = Some (hd (deque_cells d), d') \<and> call_edits deque_view d (Some d') (tl (deque_cells d))"
    "\<exists>d'. tda_deque_pop_back_to d = Some (last (deque_cells d), d') \<and> call_edits deque_view d (Some d') (butlast (deque_cells d))"
    using assms n pop_front_ok [OF assms] pop_back_ok [OF assms]
    by (auto simp: tda_deque_pop_front_to_def tda_deque_pop_back_to_def call_edits_def)
qed

lemma deque_truncate_ok:
  assumes "deque_ok d"
  shows "call_edits deque_view d (tda_deque_truncate d n) (take n (deque_cells d))"
proof (cases "n < dqlen d")
  case True
  then have "n \<le> dqcap d" using deque_okD(3) [OF assms] by simp
  from edits_len [OF assms this] show ?thesis
    using True assms by (simp add: tda_deque_truncate_def deque_cells_def min_def)
next
  case False
  then show ?thesis using assms edits_len [OF assms deque_okD(3) [OF assms]]
    by (simp add: tda_deque_truncate_def deque_cells_def min_def)
qed

lemma deque_clear_ok:
  assumes "deque_ok d"
  shows "call_edits deque_view d (tda_deque_clear d) []"
proof -
  have ok: "deque_ok (d\<lparr>dqlen := 0, dqhead := 0\<rparr>)" using assms by (simp add: deque_ok_def)
  then have "deque_view (d\<lparr>dqlen := 0, dqhead := 0\<rparr>) = (deque_view d)\<lparr>hval := []\<rparr>"
    using assms by (simp add: deque_view_def deque_cells_def)
  then show ?thesis using assms ok by (simp add: tda_deque_clear_def editsI)
qed

lemma deque_set_ok:
  assumes "deque_ok d" "deque_arg_ok d val" "idx < dqlen d"
  shows "call_edits deque_view d (tda_deque_set d idx val) ((deque_cells d)[idx := deque_arg_val d val])"
proof -
  let ?r = "(deque_ring d)[idx := deque_arg_val d val]"
  have n: "idx < dqcap d" using assms(3) deque_okD(3) [OF assms(1)] by simp
  have "tda_deque_set d idx val = Some ((deque_on d ?r)\<lparr>dqlen := dqlen d\<rparr>)"
    using assms n deque_arg_cell_ok [OF assms(1,2)] by (simp add: tda_deque_set_def deque_on_def)
  then show ?thesis
    using edits_on(2) [of d ?r "dqlen d"] assms deque_okD(3) [OF assms(1)]
    by (simp add: deque_cells_def take_update_swap)
qed

lemma deque_swap_elems_ok:
  assumes "deque_ok d" "i < dqlen d" "j < dqlen d"
  shows "call_edits deque_view d (tda_deque_swap_elems d i j)
    ((deque_cells d)[i := deque_cells d ! j, j := deque_cells d ! i])"
proof -
  have n: "i < dqcap d" "j < dqcap d" "dqlen d \<le> dqcap d" using assms deque_okD(3) [OF assms(1)] by simp_all
  let ?r = "(deque_ring d)[i := deque_ring d ! j, j := deque_ring d ! i]"
  let ?r1 = "(deque_ring d)[i := deque_ring d ! j]"
  have "tda_deque_swap_elems d i j = Some ((deque_on d ?r)\<lparr>dqlen := dqlen d\<rparr>)"
  proof (cases "i = j")
    case True
    then show ?thesis using assms by (simp add: tda_deque_swap_elems_def deque_on_self)
  next
    case False
    have ok: "deque_ok (deque_on d ?r1)" using assms(1) by (intro deque_on_ok) simp_all
    then show ?thesis using assms n False by (simp add: tda_deque_swap_elems_def)
  qed
  moreover have "take (dqlen d) ?r = (deque_cells d)[i := deque_cells d ! j, j := deque_cells d ! i]"
    using assms by (simp add: deque_cells_def take_update_swap)
  ultimately show ?thesis using edits_on(2) [of d ?r "dqlen d"] assms(1) n(3) by simp
qed

lemma deque_remove_range_ok:
  assumes "deque_ok d" "idx + cnt \<le> dqlen d"
  shows "call_edits deque_view d (tda_deque_remove_range d idx cnt)
    (take idx (deque_cells d) @ drop (idx + cnt) (deque_cells d))"
proof (cases "cnt = 0")
  case True
  then show ?thesis using assms edits_len(2) [OF assms(1) deque_okD(3) [OF assms(1)]]
    by (simp add: tda_deque_remove_range_def flip: deque_cells_def)
next
  case cnt: False
  let ?r = "deque_ring d"
  obtain m where m: "dqlen d = idx + cnt + m" using assms(2) le_Suc_ex by blast
  note ok = deque_okD [OF assms(1)]
  have cap: "idx + cnt + m \<le> dqcap d" using ok(3) m by simp
  have len: "length ?r = dqcap d" using assms(1) by simp
  have cells: "take idx (deque_cells d) @ drop (idx + cnt) (deque_cells d) = take idx ?r @ take m (drop (idx + cnt) ?r)"
    using m by (simp add: deque_cells_def drop_take)
  show ?thesis
  proof (cases "idx < m")
    case True
    let ?b = "blit ?r cnt 0 idx"
    have lenb: "length ?b = dqcap d" using len cap by simp
    have b: "deque_ok (deque_on d ?b)" using assms(1) lenb by (rule deque_on_ok)
    have mv: "deque_move_elems d cnt 0 idx = Some (deque_on d ?b)"
      using assms(1) cap by (intro move_elems_ok) simp_all
    obtain k where k: "deque_slot_fwd (deque_on d ?b) (dqhead (deque_on d ?b)) cnt = Some k" "k < dqcap (deque_on d ?b)"
      "rotate k (dqdata (deque_on d ?b)) = drop cnt (deque_ring (deque_on d ?b)) @ take cnt (deque_ring (deque_on d ?b))"
      using slot_fwd_ok [OF b, of cnt] cap cnt by auto
    have n: "idx + m \<le> dqcap (deque_on d ?b)" using cap by simp
    have "drop cnt ?b = take idx ?r @ drop (cnt + idx) ?r"
      using len cap by (simp add: blit_def)
    then have "take (idx + m) (rotate k (dqdata (deque_on d ?b))) = take idx ?r @ take m (drop (idx + cnt) ?r)"
      unfolding k(3) using assms(1) lenb len cap by (simp add: add.commute)
    note e = edits_head [OF b k(2) n this]
    have dr: "dqlen d - idx - cnt = m" "dqlen d - cnt = idx + m" "cnt \<le> dqlen d - idx" using m by simp_all
    have "tda_deque_remove_range d idx cnt = Some ((deque_on d ?b)\<lparr>dqhead := k, dqlen := idx + m\<rparr>)"
      unfolding tda_deque_remove_range_def using assms cnt True mv k(1) e(1) dr by simp
    moreover have "deque_view (deque_on d ?b) = (deque_view d)\<lparr>hval := hval (deque_view (deque_on d ?b))\<rparr>"
      using b assms(1) by (simp add: deque_view_def)
    then have "call_edits deque_view d (Some (deque_on d ?b)) (hval (deque_view (deque_on d ?b)))"
      using assms(1) by (intro editsI) simp_all
    ultimately show ?thesis unfolding cells using e(2) by (auto intro: edits_trans)
  next
    case False
    let ?b = "blit ?r idx (idx + cnt) m"
    have lenb: "length ?b = dqcap d" using len cap by simp
    have mv: "deque_move_elems d idx (idx + cnt) m = Some (deque_on d ?b)"
      using assms(1) cap by (intro move_elems_ok) simp_all
    have "take (idx + m) ?b = take idx ?r @ take m (drop (idx + cnt) ?r)"
      using len cap by (simp add: blit_def)
    note e = edits_on [OF assms(1) lenb _ this]
    have dr: "dqlen d - idx - cnt = m" "dqlen d - cnt = idx + m" "cnt \<le> dqlen d - idx" using m by simp_all
    have "tda_deque_remove_range d idx cnt = Some ((deque_on d ?b)\<lparr>dqlen := idx + m\<rparr>)"
      unfolding tda_deque_remove_range_def using assms cnt False mv e(1) cap dr by simp
    then show ?thesis unfolding cells using e(2) cap by simp
  qed
qed

lemma deque_remove_ok:
  "deque_ok d \<Longrightarrow> idx < dqlen d \<Longrightarrow>
   call_edits deque_view d (tda_deque_remove d idx) (take idx (deque_cells d) @ drop (idx + 1) (deque_cells d))"
  using deque_remove_range_ok [of d idx 1] by (simp add: tda_deque_remove_def)

lemma deque_reserve_ok:
  assumes "held_by deque_view h d"
  shows "call_does deque_view h d (tda_deque_reserve d n h) (lsize (dqelem d) * n \<le> SIZE_MAX) (deque_cells d)"
  using reserve_ok [OF assms, of n] by (auto simp: call_does_def)

lemma deque_shrink_ok:
  assumes "held_by deque_view h d"
  shows "call_does deque_view h d (tda_deque_shrink_to_fit d h) True (deque_cells d)"
proof -
  have d: "deque_ok d" using assms by (simp add: held_by_deque)
  note ok = deque_okD [OF d]
  consider "dqlen d = dqcap d" | "dqlen d \<noteq> dqcap d" "dqlen d = 0" | "dqlen d \<noteq> dqcap d" "0 < dqlen d" by blast
  then show ?thesis
  proof cases
    case 1
    then show ?thesis using d grows_refl [OF assms] by (simp add: tda_deque_shrink_to_fit_def doesI)
  next
    case 2
    let ?d = "d\<lparr>dqdata := [], dqlen := 0, dqcap := 0, dqhead := 0\<rparr>"
    obtain h' where f: "deque_free_block d h = Some h'" "requests h (dqal d) (held (dqelem d) (dqcap d)) {#} True h'"
      using free_block_ok [OF d] assms by (auto simp: held_by_deque)
    have okd: "deque_ok ?d" using ok by (simp add: deque_ok_def)
    have "tda_deque_shrink_to_fit d h = Some (TDA_STATUS_OK, ?d, h')"
      using 2 d f(1) okd by (simp add: tda_deque_shrink_to_fit_def deque_release_data_def)
    moreover have "call_grows deque_view h d True TDA_STATUS_OK ?d h'"
      using f(2) okd by (simp add: call_grows_def)
    ultimately show ?thesis using 2 by (simp add: doesI deque_cells_def)
  next
    case 3
    have "lsize (dqelem d) * dqlen d \<le> lsize (dqelem d) * dqcap d" using ok(3) by (rule mult_le_mono2)
    then have fits: "lsize (dqelem d) * dqlen d \<le> SIZE_MAX" using ok(6) by (rule le_trans)
    have "deque_relocate d (dqlen d) h = tda_deque_shrink_to_fit d h" using 3 d by (simp add: tda_deque_shrink_to_fit_def)
    then show ?thesis using relocate_ok [OF assms order_refl 3(2) fits, of True] by (auto simp: call_does_def)
  qed
qed

lemma zero_loop_ok:
  assumes "deque_ok d" "length r = dqcap d" "i \<le> n" "n \<le> dqcap d"
  shows "deque_zero_loop zero (deque_on d r) i n =
    Some (deque_on d (take i r @ replicate (n - i) (Some zero) @ drop n r))"
  using assms
proof (induction "n - i" arbitrary: i r)
  case 0
  then have "i = n" by simp
  then show ?case by (simp add: deque_zero_loop.simps [of _ _ n n])
next
  case (Suc m)
  then have i: "i < n" by simp
  have ok: "deque_ok (deque_on d r)" using Suc.prems by (intro deque_on_ok)
  have "deque_zero_loop zero (deque_on d r) i n = deque_zero_loop zero (deque_on d (r[i := Some zero])) (i + 1) n"
    using i ok Suc.prems by (simp add: deque_zero_loop.simps [of _ _ i])
  also have "\<dots> = Some (deque_on d (take (i + 1) (r[i := Some zero]) @ replicate (n - (i + 1)) (Some zero) @
      drop n (r[i := Some zero])))"
    using Suc.prems Suc.hyps(2) i by (intro Suc.hyps(1)) simp_all
  also have "take (i + 1) (r[i := Some zero]) = take i r @ [Some zero]"
    using i Suc.prems by (simp add: take_Suc_conv_app_nth)
  also have "(take i r @ [Some zero]) @ replicate (n - (i + 1)) (Some zero) @ drop n (r[i := Some zero]) =
      take i r @ replicate (n - i) (Some zero) @ drop n r"
    using i Suc.hyps(2) by (simp add: Suc_diff_Suc [symmetric])
  finally show ?case .
qed

lemma deque_resize_ok:
  assumes "held_by deque_view h d"
  shows "call_does deque_view h d (tda_deque_resize zero d n h) (lsize (dqelem d) * n \<le> SIZE_MAX)
    (take n (deque_cells d) @ replicate (n - dqlen d) (Some zero))"
proof (cases "n \<le> dqlen d")
  case True
  have d: "deque_ok d" using assms by (simp add: held_by_deque)
  have n: "n \<le> dqcap d" using True deque_okD(3) [OF d] by simp
  note e = edits_len [OF d n]
  have v: "deque_view (d\<lparr>dqlen := n\<rparr>) = (deque_view d)\<lparr>hval := take n (deque_ring d)\<rparr>"
    using e(2) by (simp add: call_edits_def)
  show ?thesis
    using True d e(1) does_edits [OF grows_refl [OF assms] v]
    by (simp add: tda_deque_resize_def deque_cells_def min_def)
next
  case False
  have d: "deque_ok d" using assms by (simp add: held_by_deque)
  let ?fits = "lsize (dqelem d) * n \<le> SIZE_MAX"
  obtain st d1 h1 where r: "(if n > dqcap d then deque_reserve_for d n h else Some (TDA_STATUS_OK, d, h)) = Some (st, d1, h1)"
    and g: "call_grows deque_view h d ?fits st d1 h1"
    and c: "deque_cells d1 = deque_cells d" "dqlen d1 = dqlen d" "st = TDA_STATUS_OK \<longrightarrow> n \<le> dqcap d1"
    using room_ok [OF assms] by blast
  show ?thesis
  proof (cases "st = TDA_STATUS_OK")
    case err: False
    have "tda_deque_resize zero d n h = Some (st, d1, h1)"
      unfolding tda_deque_resize_def using r False d err by (simp add: status_is_err_iff split del: if_split)
    then show ?thesis using does_refused [OF g err] by simp
  next
    case ok: True
    have d1: "deque_ok d1" using g by (simp add: call_grows_def)
    have n: "dqlen d \<le> n" "n \<le> dqcap d1" using False c(3) ok by simp_all
    let ?r = "take (dqlen d) (deque_ring d1) @ replicate (n - dqlen d) (Some zero) @ drop n (deque_ring d1)"
    let ?xs = "take n (deque_cells d) @ replicate (n - dqlen d) (Some zero)"
    have z: "deque_zero_loop zero d1 (dqlen d) n = Some (deque_on d1 ?r)"
      using zero_loop_ok [OF d1 _ n, of "deque_ring d1"] d1 by (simp add: deque_on_self)
    have len: "length ?r = dqcap d1" using d1 n by simp
    have cells: "take n ?r = ?xs"
      using n d c(1) [symmetric] c(2) d1 by (simp add: deque_cells_def)
    note e = edits_on [OF d1 len n(2) cells]
    have "tda_deque_resize zero d n h = Some (TDA_STATUS_OK, (deque_on d1 ?r)\<lparr>dqlen := n\<rparr>, h1)"
      unfolding tda_deque_resize_def using r False ok d z c(2) e(1) by (simp split del: if_split)
    moreover have "deque_view ((deque_on d1 ?r)\<lparr>dqlen := n\<rparr>) = (deque_view d1)\<lparr>hval := ?xs\<rparr>"
      using e(2) by (simp add: call_edits_def)
    moreover have "call_grows deque_view h d ?fits TDA_STATUS_OK d1 h1" using g ok by simp
    ultimately show ?thesis using does_edits by metis
  qed
qed

lemma deque_insert_span_ok:
  assumes "held_by deque_view h d" "idx \<le> dqlen d"
  shows "call_does deque_view h d (tda_deque_insert_span d idx src (dqelem d) h)
    (lsize (dqelem d) * (dqlen d + length src) \<le> SIZE_MAX) (take idx (deque_cells d) @ src @ drop idx (deque_cells d))"
  using insert_raw_ok [OF assms, of src] assms deque_okD(1) [of d]
  by (simp add: tda_deque_insert_span_def tda_layout_eq_def held_by_deque)

lemma deque_extend_ok:
  assumes "held_by deque_view h d"
  shows "call_does deque_view h d (tda_deque_extend d src (dqelem d) h)
    (lsize (dqelem d) * (dqlen d + length src) \<le> SIZE_MAX) (deque_cells d @ src)"
  using deque_insert_span_ok [OF assms order_refl, of src] assms deque_okD(1) [of d]
  by (simp add: tda_deque_extend_def tda_layout_eq_def held_by_deque)

lemma deque_retain_loop_ok:
  assumes "deque_ok d" "length r = dqcap d" "kept \<le> i" "i + length ys = len" "len \<le> dqcap d"
    "take (length ys) (drop i r) = map Some ys"
  shows "\<exists>r'. deque_retain_loop pred (deque_on d r) len i kept = Some (deque_on d r', kept + length (filter pred ys)) \<and>
    length r' = dqcap d \<and> take (kept + length (filter pred ys)) r' = take kept r @ map Some (filter pred ys)"
  using assms(2-6)
proof (induction ys arbitrary: r i kept)
  case Nil
  then show ?case by (auto simp: deque_retain_loop.simps [of pred _ len len kept])
next
  case (Cons y ys)
  have i: "i < len" "i < length r" "i < dqcap d" using Cons.prems by simp_all
  have "r ! i # take (length ys) (drop (Suc i) r) = Some y # map Some ys"
    using Cons.prems(5) i by (simp add: Cons_nth_drop_Suc [symmetric])
  then have ri: "r ! i = Some y" and rest: "take (length ys) (drop (Suc i) r) = map Some ys" by simp_all
  have ok: "deque_ok (deque_on d r)" using assms(1) Cons.prems(1) by (rule deque_on_ok)
  have at: "deque_elem_at (deque_on d r) i = Some (Some y)" using ok i(3) ri assms(1) Cons.prems(1) by simp
  show ?case
  proof (cases "pred y")
    case False
    have "deque_retain_loop pred (deque_on d r) len i kept = deque_retain_loop pred (deque_on d r) len (i + 1) kept"
      unfolding deque_retain_loop.simps [of pred "deque_on d r" len i kept] using i at False by simp
    then show ?thesis
      using Cons.IH [of r kept "i + 1"] Cons.prems rest False by simp
  next
    case True
    define r1 where "r1 = (if kept \<noteq> i then r[kept := Some y] else r)"
    have mv: "(if kept \<noteq> i then deque_move_elem (deque_on d r) kept i else Some (deque_on d r)) = Some (deque_on d r1)"
      using ok i ri assms(1) Cons.prems(1,2) by (simp add: r1_def)
    have step: "deque_retain_loop pred (deque_on d r) len i kept = deque_retain_loop pred (deque_on d r1) len (i + 1) (kept + 1)"
      unfolding deque_retain_loop.simps [of pred "deque_on d r" len i kept]
      using i at True mv by (simp del: if_split split del: if_split)
    have len1: "length r1 = dqcap d" using Cons.prems(1) by (simp add: r1_def)
    have tk: "take (kept + 1) r1 = take kept r @ [Some y]"
      using i ri Cons.prems(2) by (cases "kept = i") (simp_all add: r1_def take_Suc_conv_app_nth)
    have dr: "take (length ys) (drop (i + 1) r1) = map Some ys"
      using rest Cons.prems(2) by (cases "kept = i") (simp_all add: r1_def)
    show ?thesis
      unfolding step using Cons.IH [OF len1, of "kept + 1" "i + 1"] Cons.prems(2-4) dr tk True by simp
  qed
qed

lemma deque_retain_ok:
  assumes "deque_ok d" "deque_cells d = map Some xs"
  shows "call_edits deque_view d (tda_deque_retain pred d) (map Some (filter pred xs))"
proof -
  note ok = deque_okD [OF assms(1)]
  have len: "length xs = dqlen d" using length_deque_cells [OF assms(1)] assms(2) by simp
  let ?k = "length (filter pred xs)"
  obtain r' where r: "deque_retain_loop pred (deque_on d (deque_ring d)) (dqlen d) 0 0 = Some (deque_on d r', ?k)"
    and r': "length r' = dqcap d" "take ?k r' = map Some (filter pred xs)"
    using deque_retain_loop_ok [OF assms(1), of "deque_ring d" 0 0 xs "dqlen d" pred] len ok(3) assms
    by (auto simp: deque_cells_def)
  have "?k \<le> dqcap d" using length_filter_le [of pred xs] len ok(3) by linarith
  note e = edits_on [OF assms(1) r'(1) this r'(2)]
  then show ?thesis using assms(1) r by (simp add: tda_deque_retain_def deque_on_self)
qed

section \<open>Construction, copies and the end\<close>

lemma deque_init_impl_ok:
  assumes "tda_layout_is_type elem" "al \<noteq> 0" "len \<le> cap"
  shows "\<exists>res h'. deque_init_impl cell len cap elem al h = Some (res, h') \<and> (case res of
     Inl st \<Rightarrow> st = TDA_STATUS_ERR_NO_MEM \<and> requests h al {#} {#} True h' \<and> (generous h al \<longrightarrow> \<not> lsize elem * cap \<le> SIZE_MAX)
   | Inr d \<Rightarrow> d = \<lparr>dqdata = replicate cap cell, dqlen = len, dqcap = cap, dqhead = 0, dqelem = elem, dqal = al\<rparr> \<and>
       deque_ok d \<and> requests h al {#} (held elem cap) True h')"
proof -
  let ?d = "\<lparr>dqdata = replicate cap cell, dqlen = len, dqcap = cap, dqhead = 0, dqelem = elem, dqal = al\<rparr>"
  have ok: "lsize elem * cap \<le> SIZE_MAX \<Longrightarrow> deque_ok ?d" using assms by (simp add: deque_ok_def)
  consider "cap = 0" | "0 < cap" "\<not> lsize elem * cap \<le> SIZE_MAX" | "0 < cap" "lsize elem * cap \<le> SIZE_MAX" by blast
  then show ?thesis
  proof cases
    case 1
    then show ?thesis using assms ok by (simp add: deque_init_impl_def tda_deque_init_def requests_refl)
  next
    case 2
    then show ?thesis using assms by (simp add: deque_init_impl_def tda_deque_init_def ckd_array_type requests_refl)
  next
    case 3
    obtain b h' where a: "al_alloc al \<lparr>lsize = lsize elem * cap, lalign = lalign elem\<rparr> h = Some (b, h')"
      "requests h al {#} (held elem cap) b h'" "generous h al \<longrightarrow> b"
      using alloc_elems [OF assms(1,2) 3(1)] by blast
    then have "deque_init_impl cell len cap elem al h = Some (if b then Inr ?d else Inl TDA_STATUS_ERR_NO_MEM, h')"
      using 3 assms ok by (simp add: deque_init_impl_def tda_deque_init_def ckd_array_type)
    then show ?thesis using a 3 ok requests_refused [of h al "{#}" _ h' "{#}"] by (cases b) auto
  qed
qed

lemma init_impl_makes:
  assumes "tda_layout_is_type elem" "al \<noteq> 0" "len \<le> cap"
  shows "call_makes deque_view h al elem (deque_init_impl cell len cap elem al h) (lsize elem * cap \<le> SIZE_MAX)
    (replicate len cell)"
proof -
  obtain res h' where r: "deque_init_impl cell len cap elem al h = Some (res, h')"
    and c: "case res of
     Inl st \<Rightarrow> st = TDA_STATUS_ERR_NO_MEM \<and> requests h al {#} {#} True h' \<and> (generous h al \<longrightarrow> \<not> lsize elem * cap \<le> SIZE_MAX)
   | Inr d \<Rightarrow> d = \<lparr>dqdata = replicate cap cell, dqlen = len, dqcap = cap, dqhead = 0, dqelem = elem, dqal = al\<rparr> \<and>
       deque_ok d \<and> requests h al {#} (held elem cap) True h'"
    using deque_init_impl_ok [OF assms] by blast
  show ?thesis
    unfolding r call_makes_def using c assms(3)
    by (cases res) (auto simp: deque_cells_def deque_ring_def min_def)
qed

text \<open>A block made for the cells \<open>xs\<close>, and those put in.\<close>

lemma makes_filled:
  fixes xs :: "'e slots"
  assumes "tda_layout_is_type elem" "al \<noteq> 0"
    and "\<And>d h'. deque_init_impl (None :: 'e option) (length xs) (length xs) elem al h = Some (Inr d, h') \<Longrightarrow>
      length (dqdata d) = length xs \<Longrightarrow> r = Some (Inr (d\<lparr>dqdata := xs\<rparr>), h')"
    and "\<And>st h'. deque_init_impl (None :: 'e option) (length xs) (length xs) elem al h = Some (Inl st, h') \<Longrightarrow> r = Some (Inl st, h')"
  shows "call_makes deque_view h al elem r (lsize elem * length xs \<le> SIZE_MAX) xs"
proof -
  obtain res h' where i: "deque_init_impl (None :: 'e option) (length xs) (length xs) elem al h = Some (res, h')"
    and c: "case res of
     Inl st \<Rightarrow> st = TDA_STATUS_ERR_NO_MEM \<and> requests h al {#} {#} True h' \<and> (generous h al \<longrightarrow> \<not> lsize elem * length xs \<le> SIZE_MAX)
   | Inr d \<Rightarrow> d = \<lparr>dqdata = replicate (length xs) (None :: 'e option), dqlen = length xs, dqcap = length xs, dqhead = 0, dqelem = elem, dqal = al\<rparr> \<and>
       deque_ok d \<and> requests h al {#} (held elem (length xs)) True h'"
    using deque_init_impl_ok [OF assms(1,2) order_refl, of "None :: 'e option" "length xs" h] by blast
  show ?thesis
  proof (cases res)
    case (Inl st)
    then show ?thesis using assms(4) i c by (simp add: call_makes_def)
  next
    case (Inr d)
    have d: "length (dqdata d) = length xs" "deque_ok d" "requests h al {#} (held elem (length xs)) True h'"
      "dqlen d = length xs" "dqcap d = length xs" "dqhead d = 0" "dqelem d = elem" "dqal d = al"
      using c Inr by auto
    then have "deque_ok (d\<lparr>dqdata := xs\<rparr>)" by (simp add: deque_ok_def)
    then show ?thesis
      using assms(3) [of d h'] i Inr d by (simp add: makesI deque_cells_def deque_ring_def)
  qed
qed

lemma deque_from_data_ok:
  assumes "tda_layout_is_type elem" "al \<noteq> 0"
  shows "call_makes deque_view h al elem (tda_deque_from_data data elem al h) (lsize elem * length data \<le> SIZE_MAX) data"
  by (rule makes_filled) (use assms in \<open>auto simp: tda_deque_from_data_def slots_put_Some\<close>)

lemma deque_copy_with_ok:
  assumes "deque_ok d" "al \<noteq> 0"
  shows "call_makes deque_view h al (dqelem d) (tda_deque_copy_with d al h) (lsize (dqelem d) * dqlen d \<le> SIZE_MAX) (deque_cells d)"
proof -
  have len: "length (deque_cells d) = dqlen d" using assms(1) by simp
  have "call_makes deque_view h al (dqelem d) (tda_deque_copy_with d al h)
      (lsize (dqelem d) * length (deque_cells d) \<le> SIZE_MAX) (deque_cells d)"
    by (rule makes_filled)
      (use assms deque_okD(1) [OF assms(1)] in \<open>auto simp: tda_deque_copy_with_def slots_put_Some len\<close>)
  then show ?thesis by (simp only: len)
qed

lemma deque_deinit_ok:
  assumes "held_by deque_view h d"
  shows "call_ends deque_view h d (tda_deque_deinit d h)"
proof -
  have d: "deque_ok d" "held (dqelem d) (dqcap d) \<subseteq># lives h (dqal d)" using assms by (simp_all add: held_by_deque)
  then show ?thesis
    using free_block_ok [OF d] deque_okD(5) [OF d(1)] by (auto simp: tda_deque_deinit_def call_ends_def)
qed

lemma assign_filled:
  assumes "deque_ok d1" "call_grows deque_view h d True TDA_STATUS_OK d1 h1" "length xs \<le> dqcap d1"
    and "d' = d1\<lparr>dqhead := 0, dqlen := length xs, dqdata := xs @ drop (length xs) (dqdata d1)\<rparr>"
  shows "deque_ok d'" "call_does deque_view h d (Some (TDA_STATUS_OK, d', h1)) True xs"
proof -
  note ok = deque_okD [OF assms(1)]
  show okd: "deque_ok d'" using assms(1,3) ok(4) by (auto simp: assms(4) deque_ok_def)
  have "call_grows deque_view h d True TDA_STATUS_OK d' h1"
    using assms(2) okd by (rule deque_grows_on) (simp_all add: assms(4))
  moreover have "deque_cells d' = xs" by (simp add: assms(4) deque_cells_def deque_ring_def)
  ultimately show "call_does deque_view h d (Some (TDA_STATUS_OK, d', h1)) True xs" by (simp add: doesI)
qed

lemma deque_copy_assign_ok:
  assumes "held_by deque_view h d" "deque_ok w" "dqelem w = dqelem d"
  shows "call_does deque_view h d (tda_deque_copy_assign False d w h) True (deque_cells w)"
proof -
  have d: "deque_ok d" using assms(1) by (simp add: held_by_deque)
  note ok = deque_okD [OF d] and okw = deque_okD [OF assms(2)]
  have len: "length (deque_cells w) = dqlen w" using assms(2) by simp
  show ?thesis
  proof (cases "dqlen w > dqcap d")
    case False
    let ?d = "d\<lparr>dqhead := 0, dqlen := length (deque_cells w), dqdata := deque_cells w @ drop (length (deque_cells w)) (dqdata d)\<rparr>"
    note f = assign_filled [OF d grows_refl [OF assms(1)] _ refl, of "deque_cells w"]
    have "tda_deque_copy_assign False d w h = Some (TDA_STATUS_OK, ?d, h)"
      using False d assms(2,3) f(1) len ok(4)
      by (simp add: tda_deque_copy_assign_def EXPECT_SAME_DEQUE_def tda_layout_eq_def slots_put_Some)
    then show ?thesis using f(2) False len by simp
  next
    case True
    have "lsize (dqelem d) * dqlen w \<le> lsize (dqelem w) * dqcap w" using okw(3) assms(3) by (simp add: mult_le_mono2)
    then have fits: "lsize (dqelem d) * dqlen w \<le> SIZE_MAX" using okw(6) by (rule le_trans)
    have n: "0 < dqlen w" using True by simp
    obtain b h1 where a: "al_alloc (dqal d) \<lparr>lsize = lsize (dqelem d) * dqlen w, lalign = lalign (dqelem d)\<rparr> h = Some (b, h1)"
      and r: "requests h (dqal d) {#} (held (dqelem d) (dqlen w)) b h1" and g: "generous h (dqal d) \<longrightarrow> b"
      using alloc_elems [OF ok(1,5) n] by blast
    show ?thesis
    proof (cases b)
      case False
      then have "tda_deque_copy_assign False d w h = Some (TDA_STATUS_ERR_NO_MEM, d, h1)"
        using True a d assms(2,3) fits by (simp add: tda_deque_copy_assign_def EXPECT_SAME_DEQUE_def tda_layout_eq_def)
      moreover have "call_grows deque_view h d True TDA_STATUS_ERR_NO_MEM d h1"
        using r g False assms(1) by (intro refused_grows) auto
      ultimately show ?thesis by (simp add: does_refused)
    next
      case b: True
      let ?d1 = "d\<lparr>dqdata := slots_new (dqlen w), dqcap := dqlen w, dqhead := 0\<rparr>"
      have rT: "requests h (dqal d) {#} (held (dqelem d) (dqlen w)) True h1" using r b by simp
      obtain h2 where ad: "deque_adopt_block d (slots_new (dqlen w)) (dqlen w) h1 = Some (?d1, h2)"
        and gr: "call_grows deque_view h d True TDA_STATUS_OK (?d1\<lparr>dqlen := dqlen w\<rparr>) h2"
        using adopt_block_ok [OF assms(1) rT _ n fits order_refl, of "slots_new (dqlen w)"] by auto
      have "deque_ok (?d1\<lparr>dqlen := dqlen w\<rparr>)" using gr by (simp add: call_grows_def)
      note f = assign_filled [OF this gr _ refl, of "deque_cells w"]
      have "tda_deque_copy_assign False d w h = Some (TDA_STATUS_OK, ?d1\<lparr>dqhead := 0, dqlen := dqlen w, dqdata := deque_cells w\<rparr>, h2)"
        using True b a ad d assms(2,3) fits f(1) len
        by (simp add: tda_deque_copy_assign_def EXPECT_SAME_DEQUE_def tda_layout_eq_def slots_put_Some)
      then show ?thesis using f(2) len by simp
    qed
  qed
qed

lemma deque_move_assign_ok:
  fixes d w :: "'e deque"
  assumes "held_by deque_view h d" "deque_ok w" "dqelem w = dqelem d"
  shows "\<exists>w' h'. tda_deque_move_assign False d w h = Some (w, w', h') \<and> deque_ok w' \<and> deque_cells w' = [] \<and>
    dqcap w' = 0 \<and> dqal w' = dqal w \<and> requests h (dqal d) (held (dqelem d) (dqcap d)) {#} True h'"
proof -
  have d: "deque_ok d" using assms(1) by (simp add: held_by_deque)
  obtain c' h' where e: "tda_deque_deinit d h = Some (c', h')" "requests h (dqal d) (held (dqelem d) (dqcap d)) {#} True h'"
    using deque_deinit_ok [OF assms(1)] by (auto simp: call_ends_def)
  let ?w = "\<lparr>dqdata = [], dqlen = 0, dqcap = 0, dqhead = 0, dqelem = dqelem w, dqal = dqal w\<rparr> :: 'e deque"
  have okw: "deque_ok ?w" using deque_okD [OF assms(2)] by (simp add: deque_ok_def)
  have "tda_deque_move_assign False d w h = Some (w, ?w, h')"
    using d assms(2,3) e(1) okw deque_okD(5) [OF d] deque_okD(1,5) [OF assms(2)]
    by (simp add: tda_deque_move_assign_def EXPECT_SAME_DEQUE_def tda_layout_eq_def tda_deque_init_def)
  then show ?thesis using e(2) okw by (simp add: deque_cells_def)
qed

lemma deque_to_spans_ok:
  assumes "deque_ok d"
  shows "\<exists>front rest. tda_deque_to_spans d = Some (front, rest) \<and> front @ rest = deque_cells d"
proof -
  note ok = deque_okD [OF assms]
  let ?run = "if dqcap d - dqhead d < dqlen d then dqcap d - dqhead d else dqlen d"
  have run: "deque_first_run d = Some ?run"
    using ok(8) by (simp add: deque_first_run_def deque_run_from_def Let_def)
  have ring: "deque_ring d = drop (dqhead d) (dqdata d) @ take (dqhead d) (dqdata d)"
    using assms by (rule deque_ring_split)
  have le: "dqhead d + ?run \<le> dqcap d" "dqlen d - ?run \<le> dqhead d" "dqlen d - ?run \<le> dqcap d"
    using ok(3,8) by auto
  have cells: "take ?run (drop (dqhead d) (dqdata d)) @ take (dqlen d - ?run) (dqdata d) = deque_cells d"
    using ok(3,4,8) le by (cases "dqcap d - dqhead d < dqlen d") (simp_all add: deque_cells_def ring min_absorb1)
  show ?thesis
  proof (cases "?run = 0")
    case True
    then have "dqlen d = 0" using ok(3,8,9) by (auto split: if_split_asm)
    then show ?thesis
      using assms run True by (simp add: tda_deque_to_spans_def deque_cells_def)
  next
    case False
    have "0 < dqcap d - dqhead d" "0 < dqcap d" using False ok(3) by (auto split: if_split_asm)
    then have "deque_slot_of d 0 = Some (dqhead d)"
      by (simp add: deque_slot_of_def tda_deque_slot_of_def Let_def)
    then have "tda_deque_to_spans d = Some (take ?run (drop (dqhead d) (dqdata d)), take (dqlen d - ?run) (dqdata d))"
      unfolding tda_deque_to_spans_def run using assms False le ok(4) by (simp split del: if_split)
    then show ?thesis using cells by blast
  qed
qed

lemma deque_eq_loop_ok:
  assumes "deque_ok a" "deque_ok b" "deque_cells a = map Some xs" "deque_cells b = map Some ys"
    and "dqlen a = dqlen b" "i \<le> dqlen a"
  shows "deque_eq_loop eq a b i = Some (list_all2 eq (drop i xs) (drop i ys))"
  using assms(6)
proof (induction "dqlen a - i" arbitrary: i)
  case len: 0
  have "length xs = dqlen a" "length ys = dqlen a"
    using length_deque_cells [OF assms(1)] length_deque_cells [OF assms(2)] assms(3-5) by simp_all
  then show ?case using len by (simp add: deque_eq_loop.simps [of _ _ _ i])
next
  case (Suc m)
  have len: "length xs = dqlen a" "length ys = dqlen a"
    using length_deque_cells [OF assms(1)] length_deque_cells [OF assms(2)] assms(3-5) by simp_all
  have i: "i < dqlen a" "i < dqlen b" "i < dqcap a" "i < dqcap b"
    using Suc.hyps(2) deque_okD(3) [OF assms(1)] deque_okD(3) [OF assms(2)] assms(5) by simp_all
  have "deque_ring a ! i = Some (xs ! i)" "deque_ring b ! i = Some (ys ! i)"
    using deque_cells_nth [OF i(1)] deque_cells_nth [OF i(2)] assms(3,4) i len by simp_all
  moreover have "drop i xs = xs ! i # drop (Suc i) xs" "drop i ys = ys ! i # drop (Suc i) ys"
    using i len by (simp_all add: Cons_nth_drop_Suc)
  moreover have "deque_eq_loop eq a b (i + 1) = Some (list_all2 eq (drop (i + 1) xs) (drop (i + 1) ys))"
    using Suc.hyps(2) i by (intro Suc.hyps(1)) simp_all
  ultimately show ?case
    using assms(1,2) i by (simp add: deque_eq_loop.simps [of _ _ _ i])
qed

lemma deque_eq_by_ok:
  assumes "deque_ok a" "deque_ok b" "dqelem a = dqelem b" "deque_cells a = map Some xs" "deque_cells b = map Some ys"
  shows "tda_deque_eq_by False eq a b = Some (list_all2 eq xs ys)"
proof (cases "dqlen a = dqlen b")
  case True
  then show ?thesis using assms deque_eq_loop_ok [OF assms(1,2,4,5) True, of 0]
    by (simp add: tda_deque_eq_by_def deque_eq_impl_def EXPECT_SAME_DEQUE_def tda_layout_eq_def)
next
  case False
  then have "length xs \<noteq> length ys"
    using length_deque_cells [OF assms(1)] length_deque_cells [OF assms(2)] assms(4,5) by auto
  then have "\<not> list_all2 eq xs ys" using list_all2_lengthD by blast
  then show ?thesis using False assms
    by (simp add: tda_deque_eq_by_def deque_eq_impl_def EXPECT_SAME_DEQUE_def tda_layout_eq_def)
qed

lemma deque_copy_to_span_ok:
  "deque_ok d \<Longrightarrow> tda_deque_copy_to_span d (dqlen d) (dqelem d) = Some (deque_cells d)"
  using deque_okD(1) [of d] by (simp add: tda_deque_copy_to_span_def tda_layout_eq_def)

lemma deque_copy_from_span_ok:
  assumes "deque_ok d" "length src = dqlen d"
  shows "call_edits deque_view d (tda_deque_copy_from_span d src (dqelem d)) src"
proof -
  note ok = deque_okD [OF assms(1)]
  let ?r = "src @ drop (length src) (deque_ring d)"
  have "tda_deque_copy_from_span d src (dqelem d) = Some ((deque_on d ?r)\<lparr>dqlen := dqlen d\<rparr>)"
    using assms ok(1) copy_range_in_ok [of d 0 src]
    by (simp add: tda_deque_copy_from_span_def tda_layout_eq_def)
  then show ?thesis using edits_on(2) [of d ?r "dqlen d" src] assms ok(3) by simp
qed

section \<open>Histories\<close>

text \<open>One call on a deque, or a write of the program into one of its slots.\<close>

inductive deque_step :: "heap \<times> 'e deque \<Rightarrow> heap \<times> 'e deque \<Rightarrow> bool" where
  dq_push_front: "deque_arg_ok d val \<Longrightarrow> tda_deque_push_front d val h = Some (st, d', h') \<Longrightarrow> deque_step (h, d) (h', d')"
| dq_push_back: "deque_arg_ok d val \<Longrightarrow> tda_deque_push_back d val h = Some (st, d', h') \<Longrightarrow> deque_step (h, d) (h', d')"
| dq_insert: "deque_arg_ok d val \<Longrightarrow> idx \<le> dqlen d \<Longrightarrow> tda_deque_insert d idx val h = Some (st, d', h') \<Longrightarrow>
    deque_step (h, d) (h', d')"
| dq_insert_span: "idx \<le> dqlen d \<Longrightarrow> tda_deque_insert_span d idx src (dqelem d) h = Some (st, d', h') \<Longrightarrow>
    deque_step (h, d) (h', d')"
| dq_extend: "tda_deque_extend d src (dqelem d) h = Some (st, d', h') \<Longrightarrow> deque_step (h, d) (h', d')"
| dq_resize: "tda_deque_resize zero d n h = Some (st, d', h') \<Longrightarrow> deque_step (h, d) (h', d')"
| dq_reserve: "tda_deque_reserve d n h = Some (st, d', h') \<Longrightarrow> deque_step (h, d) (h', d')"
| dq_shrink: "tda_deque_shrink_to_fit d h = Some (st, d', h') \<Longrightarrow> deque_step (h, d) (h', d')"
| dq_assign: "deque_ok w \<Longrightarrow> dqelem w = dqelem d \<Longrightarrow> tda_deque_copy_assign False d w h = Some (st, d', h') \<Longrightarrow>
    deque_step (h, d) (h', d')"
| dq_pop_front: "0 < dqlen d \<Longrightarrow> tda_deque_pop_front d = Some d' \<Longrightarrow> deque_step (h, d) (h, d')"
| dq_pop_back: "0 < dqlen d \<Longrightarrow> tda_deque_pop_back d = Some d' \<Longrightarrow> deque_step (h, d) (h, d')"
| dq_pop_front_to: "0 < dqlen d \<Longrightarrow> tda_deque_pop_front_to d = Some (out, d') \<Longrightarrow> deque_step (h, d) (h, d')"
| dq_pop_back_to: "0 < dqlen d \<Longrightarrow> tda_deque_pop_back_to d = Some (out, d') \<Longrightarrow> deque_step (h, d) (h, d')"
| dq_clear: "tda_deque_clear d = Some d' \<Longrightarrow> deque_step (h, d) (h, d')"
| dq_truncate: "tda_deque_truncate d n = Some d' \<Longrightarrow> deque_step (h, d) (h, d')"
| dq_remove: "idx < dqlen d \<Longrightarrow> tda_deque_remove d idx = Some d' \<Longrightarrow> deque_step (h, d) (h, d')"
| dq_remove_range: "idx + cnt \<le> dqlen d \<Longrightarrow> tda_deque_remove_range d idx cnt = Some d' \<Longrightarrow> deque_step (h, d) (h, d')"
| dq_set: "deque_arg_ok d val \<Longrightarrow> idx < dqlen d \<Longrightarrow> tda_deque_set d idx val = Some d' \<Longrightarrow> deque_step (h, d) (h, d')"
| dq_swap_elems: "i < dqlen d \<Longrightarrow> j < dqlen d \<Longrightarrow> tda_deque_swap_elems d i j = Some d' \<Longrightarrow> deque_step (h, d) (h, d')"
| dq_retain: "deque_cells d = map Some xs \<Longrightarrow> tda_deque_retain pred d = Some d' \<Longrightarrow> deque_step (h, d) (h, d')"
| dq_copy_from: "length src = dqlen d \<Longrightarrow> tda_deque_copy_from_span d src (dqelem d) = Some d' \<Longrightarrow> deque_step (h, d) (h, d')"
| dq_write: "deque_step (h, d) (h, d\<lparr>dqdata := (dqdata d)[i := cell]\<rparr>)"

lemmas deque_call_specs = push_front_ok push_back_ok deque_insert_ok deque_insert_span_ok deque_extend_ok
  deque_resize_ok deque_reserve_ok deque_shrink_ok deque_copy_assign_ok pop_front_ok pop_back_ok deque_clear_ok
  deque_truncate_ok deque_remove_ok deque_remove_range_ok deque_set_ok deque_swap_elems_ok deque_retain_ok
  deque_copy_from_span_ok

lemma holds_deque_ok: "holds_since deque_view h0 (h, d) \<Longrightarrow> deque_ok d"
  by (simp add: holds_since_def)

lemma deque_step_holds: "deque_step s t \<Longrightarrow> holds_since deque_view h0 s \<Longrightarrow> holds_since deque_view h0 t"
proof (induction rule: deque_step.induct)
  case (dq_pop_front_to d out d' h)
  have "call_edits deque_view d (Some d') (tl (deque_cells d))"
    using pop_to_ok(1) [OF holds_deque_ok [OF dq_pop_front_to(3)] dq_pop_front_to(1)] dq_pop_front_to(2) by auto
  then show ?case by (rule holds_edits [OF refl dq_pop_front_to(3)])
next
  case (dq_pop_back_to d out d' h)
  have "call_edits deque_view d (Some d') (butlast (deque_cells d))"
    using pop_to_ok(2) [OF holds_deque_ok [OF dq_pop_back_to(3)] dq_pop_back_to(1)] dq_pop_back_to(2) by auto
  then show ?case by (rule holds_edits [OF refl dq_pop_back_to(3)])
next
  case (dq_write h d i cell)
  then show ?case by (simp add: holds_since_def deque_ok_def)
qed ((erule (1) holds_does holds_edits, rule deque_call_specs; blast intro: holds_deque_ok holds_held)+)

interpretation deque: container deque_view deque_step tda_deque_deinit
  by unfold_locales (fact deque_step_holds, fact deque_deinit_ok)

section \<open>The properties\<close>

text \<open>The checks of the indices.\<close>

lemmas deque_bounded = tda_deque_insert_def tda_deque_insert_span_def tda_deque_set_def tda_deque_remove_def
  tda_deque_swap_elems_def tda_deque_pop_front_def tda_deque_pop_back_def tda_deque_remove_range_def chk_def

text \<open>
  C23: on a deque whose block the allocator has out, wherever its front is in the ring, every
  operation is the list operation on its elements: push and pop at both ends, insert (of a value
  inside the deque too), insert_span, extend, resize, reserve, shrink_to_fit, set, remove,
  remove_range, swap_elems, truncate and retain; the ones that grow it fail only when the
  allocator refuses or the bytes do not fit, and then change nothing.
\<close>

theorem deque_operations:
  fixes d :: "'e deque"
  assumes "held_by deque_view h d"
  shows "(\<forall>val. deque_arg_ok d val \<longrightarrow>
      call_does deque_view h d (tda_deque_push_front d val h) (lsize (dqelem d) * (dqlen d + 1) \<le> SIZE_MAX)
        (deque_arg_val d val # deque_cells d) \<and>
      call_does deque_view h d (tda_deque_push_back d val h) (lsize (dqelem d) * (dqlen d + 1) \<le> SIZE_MAX)
        (deque_cells d @ [deque_arg_val d val])) \<and>
    (\<forall>val i. deque_arg_ok d val \<and> i \<le> dqlen d \<longrightarrow>
      call_does deque_view h d (tda_deque_insert d i val h) (lsize (dqelem d) * (dqlen d + 1) \<le> SIZE_MAX)
        (take i (deque_cells d) @ [deque_arg_val d val] @ drop i (deque_cells d))) \<and>
    (\<forall>i src. i \<le> dqlen d \<longrightarrow> call_does deque_view h d (tda_deque_insert_span d i src (dqelem d) h)
      (lsize (dqelem d) * (dqlen d + length src) \<le> SIZE_MAX) (take i (deque_cells d) @ src @ drop i (deque_cells d))) \<and>
    (\<forall>src. call_does deque_view h d (tda_deque_extend d src (dqelem d) h)
      (lsize (dqelem d) * (dqlen d + length src) \<le> SIZE_MAX) (deque_cells d @ src)) \<and>
    (\<forall>zero m. call_does deque_view h d (tda_deque_resize zero d m h) (lsize (dqelem d) * m \<le> SIZE_MAX)
      (take m (deque_cells d) @ replicate (m - dqlen d) (Some zero))) \<and>
    (\<forall>m. call_does deque_view h d (tda_deque_reserve d m h) (lsize (dqelem d) * m \<le> SIZE_MAX) (deque_cells d)) \<and>
    call_does deque_view h d (tda_deque_shrink_to_fit d h) True (deque_cells d) \<and>
    (0 < dqlen d \<longrightarrow> call_edits deque_view d (tda_deque_pop_front d) (tl (deque_cells d)) \<and>
      call_edits deque_view d (tda_deque_pop_back d) (butlast (deque_cells d))) \<and>
    (\<forall>val i. deque_arg_ok d val \<and> i < dqlen d \<longrightarrow>
      call_edits deque_view d (tda_deque_set d i val) ((deque_cells d)[i := deque_arg_val d val])) \<and>
    (\<forall>i < dqlen d. call_edits deque_view d (tda_deque_remove d i) (take i (deque_cells d) @ drop (i + 1) (deque_cells d))) \<and>
    (\<forall>k n. k + n \<le> dqlen d \<longrightarrow>
      call_edits deque_view d (tda_deque_remove_range d k n) (take k (deque_cells d) @ drop (k + n) (deque_cells d))) \<and>
    (\<forall>i j. i < dqlen d \<and> j < dqlen d \<longrightarrow> call_edits deque_view d (tda_deque_swap_elems d i j)
      ((deque_cells d)[i := deque_cells d ! j, j := deque_cells d ! i])) \<and>
    (\<forall>m. call_edits deque_view d (tda_deque_truncate d m) (take m (deque_cells d))) \<and>
    (\<forall>pred xs. deque_cells d = map Some xs \<longrightarrow>
      call_edits deque_view d (tda_deque_retain pred d) (map Some (filter pred xs))) \<and>
    (\<forall>i val src. dqlen d < i \<longrightarrow> tda_deque_insert d i val h = None \<and> tda_deque_insert_span d i src (dqelem d) h = None) \<and>
    (\<forall>i j val. dqlen d \<le> i \<longrightarrow> tda_deque_set d i val = None \<and> tda_deque_remove d i = None \<and>
      tda_deque_swap_elems d i j = None \<and> tda_deque_swap_elems d j i = None) \<and>
    (dqlen d = 0 \<longrightarrow> tda_deque_pop_front d = None \<and> tda_deque_pop_back d = None) \<and>
    (\<forall>k n. dqlen d < k + n \<longrightarrow> tda_deque_remove_range d k n = None)"
  using assms held_byD [OF assms] by (intro conjI allI impI deque_call_specs) (auto simp: deque_bounded)

text \<open>
  An empty deque, to which an element is pushed, and a ring of three slots whose two elements straddle
  the seam; the first is inserted again behind the end, by its address.
\<close>

theorem deque_operations_witness:
  "(let d = \<lparr>dqdata = [], dqlen = 0, dqcap = 0, dqhead = 0, dqelem = \<lparr>lsize = 4, lalign = 4\<rparr>, dqal = 1\<rparr>;
       h = (\<lambda>_. \<lparr>answers = [], live = {#}\<rparr>)
     in call_does deque_view h d (tda_deque_push_front d (Apart (Some 7)) h) True [Some (7 :: 32 word)] \<and>
       tda_deque_pop_back d = None) \<and>
   (let d = \<lparr>dqdata = [Some 8, None, Some 7], dqlen = 2, dqcap = 3, dqhead = 2, dqelem = \<lparr>lsize = 4, lalign = 4\<rparr>, dqal = 1\<rparr>;
       h = (\<lambda>_. \<lparr>answers = [], live = {#\<lparr>lsize = 12, lalign = 4\<rparr>#}\<rparr>)
     in call_does deque_view h d (tda_deque_insert d 2 (Within 8) h) True [Some 7, Some 8, Some (7 :: 32 word)])"
proof
  let ?d = "\<lparr>dqdata = [], dqlen = 0, dqcap = 0, dqhead = 0, dqelem = \<lparr>lsize = 4, lalign = 4\<rparr>, dqal = 1\<rparr> :: 32 word deque"
  let ?h = "(\<lambda>_. \<lparr>answers = [], live = {#}\<rparr>) :: heap"
  have al: "tda_layout_is_align 4" by (simp add: is_align_iff) (rule exI [of _ 2], simp)
  then have d: "held_by deque_view ?h ?d" "deque_arg_ok ?d (Apart (Some 7))"
    by (simp_all add: held_by_deque deque_ok_def held_def lives_def tda_layout_is_type_def deque_arg_ok_def SIZE_MAX_def)
  have "call_does deque_view ?h ?d (tda_deque_push_front ?d (Apart (Some 7)) ?h) (lsize (dqelem ?d) * (dqlen ?d + 1) \<le> SIZE_MAX)
      (deque_arg_val ?d (Apart (Some 7)) # deque_cells ?d)"
    by (rule deque_operations [OF d(1), THEN conjunct1, THEN spec, THEN mp, OF d(2), THEN conjunct1])
  moreover have "tda_deque_pop_back ?d = None" using deque_operations [OF d(1)] by simp
  moreover have "(lsize (dqelem ?d) * (dqlen ?d + 1) \<le> SIZE_MAX) = True"
    "deque_arg_val ?d (Apart (Some 7)) # deque_cells ?d = [Some 7]"
    by (simp_all add: deque_arg_val_def deque_cells_def SIZE_MAX_def)
  ultimately show "let d = ?d; h = ?h in call_does deque_view h d (tda_deque_push_front d (Apart (Some 7)) h) True [Some 7] \<and>
      tda_deque_pop_back d = None" unfolding Let_def by (simp only: simp_thms)
  let ?e = "\<lparr>dqdata = [Some 8, None, Some 7], dqlen = 2, dqcap = 3, dqhead = 2, dqelem = \<lparr>lsize = 4, lalign = 4\<rparr>, dqal = 1\<rparr> :: 32 word deque"
  let ?k = "(\<lambda>_. \<lparr>answers = [], live = {#\<lparr>lsize = 12, lalign = 4\<rparr>#}\<rparr>) :: heap"
  have e: "held_by deque_view ?k ?e" "deque_arg_ok ?e (Within 8)" "2 \<le> dqlen ?e"
    using al by (simp_all add: held_by_deque deque_ok_def held_def lives_def tda_layout_is_type_def deque_arg_ok_def deque_idx_def
        SIZE_MAX_def)
  have cells: "deque_cells ?e = [Some 7, Some 8]"
    by (simp add: deque_cells_def deque_ring_def numeral_2_eq_2)
  have "call_does deque_view ?k ?e (tda_deque_insert ?e 2 (Within 8) ?k) (lsize (dqelem ?e) * (dqlen ?e + 1) \<le> SIZE_MAX)
      (take 2 (deque_cells ?e) @ [deque_arg_val ?e (Within 8)] @ drop 2 (deque_cells ?e))"
    by (rule deque_operations [OF e(1), THEN conjunct2, THEN conjunct1, THEN spec, THEN spec, THEN mp, OF conjI [OF e(2,3)]])
  moreover have "(lsize (dqelem ?e) * (dqlen ?e + 1) \<le> SIZE_MAX) = True" "deque_arg_val ?e (Within 8) = Some 7"
    by (simp_all add: deque_arg_val_def SIZE_MAX_def)
  ultimately show "let d = ?e; h = ?k in call_does deque_view h d (tda_deque_insert d 2 (Within 8) h) True [Some 7, Some 8, Some 7]"
    unfolding Let_def cells by (simp add: SIZE_MAX_def)
qed

lemma deque_history:
  assumes "tda_deque_init elem al = Some d0" "deque_step\<^sup>*\<^sup>* (h0, d0) (h, d)"
  shows "held_by deque_view h d \<and> (\<exists>d' h'. tda_deque_deinit d h = Some (d', h') \<and> lives h' = lives h0)"
proof -
  have "holds_since deque_view h0 (h0, d0)"
    using assms(1) by (auto simp: tda_deque_init_def holds_since_def deque_ok_def requests_refl)
  with assms(2) show ?thesis by (rule deque.history_leaks_nothing)
qed

lemma deque_copies:
  fixes d w :: "'e deque"
  assumes "held_by deque_view h d" "deque_ok w" "dqelem w = dqelem d" "al \<noteq> 0"
    and "deque_cells d = map Some xs" "deque_cells w = map Some ys" "length src = dqlen d"
  shows "call_makes deque_view h al (dqelem d) (tda_deque_copy_with d al h) (lsize (dqelem d) * dqlen d \<le> SIZE_MAX) (deque_cells d) \<and>
    call_does deque_view h d (tda_deque_copy_assign False d w h) True (deque_cells w) \<and>
    (\<exists>w' h'. tda_deque_move_assign False d w h = Some (w, w', h') \<and> deque_cells w' = [] \<and> dqal w' = dqal w \<and>
       requests h (dqal d) (held (dqelem d) (dqcap d)) {#} True h') \<and>
    (\<exists>front rest. tda_deque_to_spans d = Some (front, rest) \<and> front @ rest = deque_cells d) \<and>
    tda_deque_copy_to_span d (dqlen d) (dqelem d) = Some (deque_cells d) \<and>
    call_edits deque_view d (tda_deque_copy_from_span d src (dqelem d)) src \<and>
    tda_deque_eq_by False eq w d = Some (list_all2 eq ys xs)"
proof (intro conjI)
  have d: "deque_ok d" using assms(1) by (simp add: held_by_deque)
  show "call_makes deque_view h al (dqelem d) (tda_deque_copy_with d al h) (lsize (dqelem d) * dqlen d \<le> SIZE_MAX) (deque_cells d)"
    using d assms(4) by (rule deque_copy_with_ok)
  show "call_does deque_view h d (tda_deque_copy_assign False d w h) True (deque_cells w)"
    using assms(1-3) by (rule deque_copy_assign_ok)
  show "\<exists>w' h'. tda_deque_move_assign False d w h = Some (w, w', h') \<and> deque_cells w' = [] \<and> dqal w' = dqal w \<and>
      requests h (dqal d) (held (dqelem d) (dqcap d)) {#} True h'"
    using deque_move_assign_ok [OF assms(1-3)] by blast
  show "\<exists>front rest. tda_deque_to_spans d = Some (front, rest) \<and> front @ rest = deque_cells d"
    using d by (rule deque_to_spans_ok)
  show "tda_deque_copy_to_span d (dqlen d) (dqelem d) = Some (deque_cells d)"
    using d by (rule deque_copy_to_span_ok)
  show "call_edits deque_view d (tda_deque_copy_from_span d src (dqelem d)) src"
    using d assms(7) by (rule deque_copy_from_span_ok)
  show "tda_deque_eq_by False eq w d = Some (list_all2 eq ys xs)"
    using assms(2) d assms(3,6,5) by (rule deque_eq_by_ok)
qed

end
