(* ===== verification/Queue.thy ===== *)
theory Queue
  imports Deque
begin

text \<open>
  \<open>ds/queue.h\<close> and \<open>ds/queue.c\<close>: a deque that is pushed at the back and popped at the front. Growth,
  allocator and copies are the deque's, and the proofs rest on the deque's contract.
\<close>

record 'e queue =
  qdeque :: "'e deque"

definition ASSERT_QUEUE :: "'e queue \<Rightarrow> unit option" where
  "ASSERT_QUEUE q = chk (dqal (qdeque q) \<noteq> 0)"

definition EXPECT_SAME_QUEUE :: "'e queue \<Rightarrow> 'f queue \<Rightarrow> unit option" where
  "EXPECT_SAME_QUEUE a b = do {
     la \<leftarrow> tda_deque_elem_layout (qdeque a);
     lb \<leftarrow> tda_deque_elem_layout (qdeque b);
     chk (tda_layout_eq la lb)
   }"

definition queue_of :: "((tda_status + 'e deque) \<times> heap) option \<Rightarrow> ((tda_status + 'e queue) \<times> heap) option" where
  "queue_of r = do { (res, h) \<leftarrow> r; Some (map_sum id (\<lambda>d. \<lparr>qdeque = d\<rparr>) res, h) }"

section \<open>Lifetime\<close>

definition tda_queue_init :: "layout \<Rightarrow> al \<Rightarrow> 'e queue option" where
  "tda_queue_init elem al = do {
     chk (tda_layout_is_type elem);
     chk (al \<noteq> 0);
     d \<leftarrow> tda_deque_init elem al;
     Some \<lparr>qdeque = d\<rparr>
   }"

definition tda_queue_init_cap :: "nat \<Rightarrow> layout \<Rightarrow> al \<Rightarrow> heap \<Rightarrow> ((tda_status + 'e queue) \<times> heap) option" where
  "tda_queue_init_cap cap elem al h = do {
     chk (tda_layout_is_type elem);
     chk (al \<noteq> 0);
     queue_of (tda_deque_init_cap cap elem al h)
   }"

definition tda_queue_from_data :: "'e slots \<Rightarrow> layout \<Rightarrow> al \<Rightarrow> heap \<Rightarrow> ((tda_status + 'e queue) \<times> heap) option" where
  "tda_queue_from_data data elem al h = do {
     chk (tda_layout_is_type elem);
     chk (al \<noteq> 0);
     queue_of (tda_deque_from_data data elem al h)
   }"

definition tda_queue_from_span :: "'e slots \<Rightarrow> layout \<Rightarrow> al \<Rightarrow> heap \<Rightarrow> ((tda_status + 'e queue) \<times> heap) option" where
  "tda_queue_from_span s elem al h = do {
     chk (tda_layout_is_type elem);
     chk (al \<noteq> 0);
     tda_queue_from_data s elem al h
   }"

definition tda_queue_deinit :: "'e queue \<Rightarrow> heap \<Rightarrow> ('e queue \<times> heap) option" where
  "tda_queue_deinit q h = do { (d, h) \<leftarrow> tda_deque_deinit (qdeque q) h; Some (q\<lparr>qdeque := d\<rparr>, h) }"

definition tda_queue_into_deque :: "'e queue \<Rightarrow> ('e deque \<times> 'e queue) option" where
  "tda_queue_into_deque q = do { ASSERT_QUEUE q; Some (qdeque q, q\<lparr>qdeque := deque_null\<rparr>) }"

section \<open>Copy and compare\<close>

definition tda_queue_copy_with :: "'e queue \<Rightarrow> al \<Rightarrow> heap \<Rightarrow> ((tda_status + 'e queue) \<times> heap) option" where
  "tda_queue_copy_with q al h = do {
     ASSERT_QUEUE q;
     chk (al \<noteq> 0);
     queue_of (tda_deque_copy_with (qdeque q) al h)
   }"

definition tda_queue_copy :: "'e queue \<Rightarrow> heap \<Rightarrow> ((tda_status + 'e queue) \<times> heap) option" where
  "tda_queue_copy q h = do {
     ASSERT_QUEUE q;
     al \<leftarrow> tda_deque_al (qdeque q);
     tda_queue_copy_with q al h
   }"

definition tda_queue_copy_assign ::
  "bool \<Rightarrow> 'e queue \<Rightarrow> 'e queue \<Rightarrow> heap \<Rightarrow> (tda_status \<times> 'e queue \<times> heap) option" where
  "tda_queue_copy_assign same q other h = do {
     ASSERT_QUEUE q;
     ASSERT_QUEUE other;
     EXPECT_SAME_QUEUE q other;
     (st, d, h) \<leftarrow> tda_deque_copy_assign same (qdeque q) (qdeque other) h;
     let q = q\<lparr>qdeque := d\<rparr>;
     ASSERT_QUEUE q;
     Some (st, q, h)
   }"

definition tda_queue_move_assign ::
  "bool \<Rightarrow> 'e queue \<Rightarrow> 'e queue \<Rightarrow> heap \<Rightarrow> ('e queue \<times> 'e queue \<times> heap) option" where
  "tda_queue_move_assign same q other h = do {
     ASSERT_QUEUE other;
     (if dqal (qdeque q) \<noteq> 0 then do { ASSERT_QUEUE q; EXPECT_SAME_QUEUE q other } else Some ());
     (d, w, h) \<leftarrow> tda_deque_move_assign same (qdeque q) (qdeque other) h;
     let q = q\<lparr>qdeque := d\<rparr>;
     let other = other\<lparr>qdeque := w\<rparr>;
     ASSERT_QUEUE q;
     ASSERT_QUEUE other;
     Some (q, other, h)
   }"

definition tda_queue_swap :: "bool \<Rightarrow> 'e queue \<Rightarrow> 'e queue \<Rightarrow> ('e queue \<times> 'e queue) option" where
  "tda_queue_swap same q other = do {
     ASSERT_QUEUE q;
     ASSERT_QUEUE other;
     EXPECT_SAME_QUEUE q other;
     (d, w) \<leftarrow> tda_deque_swap same (qdeque q) (qdeque other);
     let q = q\<lparr>qdeque := d\<rparr>;
     let other = other\<lparr>qdeque := w\<rparr>;
     ASSERT_QUEUE q;
     ASSERT_QUEUE other;
     Some (q, other)
   }"

definition tda_queue_copy_to_span :: "'e queue \<Rightarrow> nat \<Rightarrow> layout \<Rightarrow> 'e slots option" where
  "tda_queue_copy_to_span q len elem = do {
     ASSERT_QUEUE q;
     chk (tda_layout_is_type elem);
     l \<leftarrow> tda_deque_elem_layout (qdeque q);
     chk (tda_layout_eq l elem);
     n \<leftarrow> tda_deque_len (qdeque q);
     chk (len = n);
     tda_deque_copy_to_span (qdeque q) len elem
   }"

definition tda_queue_eq :: "bool \<Rightarrow> byte list queue \<Rightarrow> byte list queue \<Rightarrow> bool option" where
  "tda_queue_eq same a b = do {
     ASSERT_QUEUE a;
     ASSERT_QUEUE b;
     EXPECT_SAME_QUEUE a b;
     tda_deque_eq same (qdeque a) (qdeque b)
   }"

definition tda_queue_eq_by :: "bool \<Rightarrow> ('e \<Rightarrow> 'e \<Rightarrow> bool) \<Rightarrow> 'e queue \<Rightarrow> 'e queue \<Rightarrow> bool option" where
  "tda_queue_eq_by same eq a b = do {
     ASSERT_QUEUE a;
     ASSERT_QUEUE b;
     EXPECT_SAME_QUEUE a b;
     tda_deque_eq_by same eq (qdeque a) (qdeque b)
   }"

section \<open>Access\<close>

definition tda_queue_len :: "'e queue \<Rightarrow> nat option" where
  "tda_queue_len q = do { chk (dqal (qdeque q) \<noteq> 0); tda_deque_len (qdeque q) }"

definition tda_queue_cap :: "'e queue \<Rightarrow> nat option" where
  "tda_queue_cap q = do { chk (dqal (qdeque q) \<noteq> 0); tda_deque_cap (qdeque q) }"

definition tda_queue_elem_layout :: "'e queue \<Rightarrow> layout option" where
  "tda_queue_elem_layout q = do { chk (dqal (qdeque q) \<noteq> 0); tda_deque_elem_layout (qdeque q) }"

definition tda_queue_al :: "'e queue \<Rightarrow> al option" where
  "tda_queue_al q = do { chk (dqal (qdeque q) \<noteq> 0); tda_deque_al (qdeque q) }"

text \<open>The slots of the first and of the last element.\<close>

definition tda_queue_front :: "'e queue \<Rightarrow> nat option" where
  "tda_queue_front q = do {
     chk (dqal (qdeque q) \<noteq> 0);
     n \<leftarrow> tda_deque_len (qdeque q);
     chk (n > 0);
     tda_deque_front (qdeque q)
   }"

definition tda_queue_back :: "'e queue \<Rightarrow> nat option" where
  "tda_queue_back q = do {
     chk (dqal (qdeque q) \<noteq> 0);
     n \<leftarrow> tda_deque_len (qdeque q);
     chk (n > 0);
     tda_deque_back (qdeque q)
   }"

section \<open>Modifying\<close>

text \<open>A call of the deque's that may fail, and one that does not, on the deque inside.\<close>

definition queue_try :: "'e queue \<Rightarrow> (tda_status \<times> 'e deque \<times> heap) option \<Rightarrow> (tda_status \<times> 'e queue \<times> heap) option" where
  "queue_try q r = do {
     (st, d, h) \<leftarrow> r;
     let q = q\<lparr>qdeque := d\<rparr>;
     ASSERT_QUEUE q;
     Some (st, q, h)
   }"

definition queue_do :: "'e queue \<Rightarrow> 'e deque option \<Rightarrow> 'e queue option" where
  "queue_do q r = do {
     d \<leftarrow> r;
     let q = q\<lparr>qdeque := d\<rparr>;
     ASSERT_QUEUE q;
     Some q
   }"

definition tda_queue_push :: "'e queue \<Rightarrow> 'e arg \<Rightarrow> heap \<Rightarrow> (tda_status \<times> 'e queue \<times> heap) option" where
  "tda_queue_push q val h = do { ASSERT_QUEUE q; queue_try q (tda_deque_push_back (qdeque q) val h) }"

definition tda_queue_extend ::
  "'e queue \<Rightarrow> 'e slots \<Rightarrow> layout \<Rightarrow> heap \<Rightarrow> (tda_status \<times> 'e queue \<times> heap) option" where
  "tda_queue_extend q src elem h = do {
     ASSERT_QUEUE q;
     chk (tda_layout_is_type elem);
     l \<leftarrow> tda_deque_elem_layout (qdeque q);
     chk (tda_layout_eq l elem);
     queue_try q (tda_deque_extend (qdeque q) src elem h)
   }"

definition tda_queue_pop :: "'e queue \<Rightarrow> 'e queue option" where
  "tda_queue_pop q = do {
     ASSERT_QUEUE q;
     n \<leftarrow> tda_deque_len (qdeque q);
     chk (n > 0);
     queue_do q (tda_deque_pop_front (qdeque q))
   }"

definition tda_queue_pop_to :: "'e queue \<Rightarrow> ('e option \<times> 'e queue) option" where
  "tda_queue_pop_to q = do {
     ASSERT_QUEUE q;
     n \<leftarrow> tda_deque_len (qdeque q);
     chk (n > 0);
     (out, d) \<leftarrow> tda_deque_pop_front_to (qdeque q);
     q \<leftarrow> queue_do q (Some d);
     Some (out, q)
   }"

definition tda_queue_clear :: "'e queue \<Rightarrow> 'e queue option" where
  "tda_queue_clear q = do { ASSERT_QUEUE q; queue_do q (tda_deque_clear (qdeque q)) }"

definition tda_queue_reserve :: "'e queue \<Rightarrow> nat \<Rightarrow> heap \<Rightarrow> (tda_status \<times> 'e queue \<times> heap) option" where
  "tda_queue_reserve q new_cap h = do { ASSERT_QUEUE q; queue_try q (tda_deque_reserve (qdeque q) new_cap h) }"

definition tda_queue_shrink_to_fit :: "'e queue \<Rightarrow> heap \<Rightarrow> (tda_status \<times> 'e queue \<times> heap) option" where
  "tda_queue_shrink_to_fit q h = do { ASSERT_QUEUE q; queue_try q (tda_deque_shrink_to_fit (qdeque q) h) }"

section \<open>The contract\<close>

definition queue_view :: "'e queue \<Rightarrow> (layout, 'e slots) holder" where
  "queue_view q = deque_view (qdeque q)"

text \<open>What the queue holds, front first.\<close>

definition queue_cells :: "'e queue \<Rightarrow> 'e slots" where
  "queue_cells q = deque_cells (qdeque q)"

lemma held_by_queue: "held_by queue_view h q = held_by deque_view h (qdeque q)"
  by (simp add: held_by_def queue_view_def)

lemma queue_deque:
  assumes "held_by queue_view h q"
  shows "held_by deque_view h (qdeque q)" "deque_ok (qdeque q)" "ASSERT_QUEUE q = Some ()"
    "tda_deque_len (qdeque q) = Some (dqlen (qdeque q))" "tda_deque_elem_layout (qdeque q) = Some (dqelem (qdeque q))"
    "dqal (qdeque q) \<noteq> 0" "length (queue_cells q) = dqlen (qdeque q)"
  using assms deque_okD(5) [of "qdeque q"]
  by (simp_all add: held_by_queue held_by_deque ASSERT_QUEUE_def tda_deque_len_def tda_deque_elem_layout_def queue_cells_def)

lemma ASSERT_QUEUE_ok: "deque_ok d \<Longrightarrow> ASSERT_QUEUE (q\<lparr>qdeque := d\<rparr>) = Some ()"
  using deque_okD(5) [of d] by (simp add: ASSERT_QUEUE_def)

lemma queue_try_does:
  assumes "call_does deque_view h (qdeque q) r fits xs"
  shows "call_does queue_view h q (queue_try q r) fits xs"
  using assms by (rule wrap_does) (auto simp: queue_try_def queue_view_def ASSERT_QUEUE_ok)

lemma queue_do_edits:
  assumes "call_edits deque_view (qdeque q) r xs"
  shows "call_edits queue_view q (queue_do q r) xs"
  using assms by (rule wrap_edits) (auto simp: queue_do_def queue_view_def ASSERT_QUEUE_ok)

lemma queue_makes:
  assumes "call_makes deque_view h al elem r fits xs"
  shows "call_makes queue_view h al elem (queue_of r) fits xs"
  using assms by (rule wrap_makes) (auto simp: queue_of_def queue_view_def)

lemma queue_push_ok:
  assumes "held_by queue_view h q" "deque_arg_ok (qdeque q) val"
  shows "call_does queue_view h q (tda_queue_push q val h) (lsize (dqelem (qdeque q)) * (dqlen (qdeque q) + 1) \<le> SIZE_MAX)
    (queue_cells q @ [deque_arg_val (qdeque q) val])"
  using queue_deque [OF assms(1)] push_back_ok [of h "qdeque q" val] assms(2)
  by (simp add: tda_queue_push_def queue_try_does queue_cells_def)

lemma queue_extend_ok:
  assumes "held_by queue_view h q"
  shows "call_does queue_view h q (tda_queue_extend q src (dqelem (qdeque q)) h)
    (lsize (dqelem (qdeque q)) * (dqlen (qdeque q) + length src) \<le> SIZE_MAX) (queue_cells q @ src)"
  using queue_deque [OF assms] deque_extend_ok [of h "qdeque q" src] deque_okD(1) [of "qdeque q"]
  by (simp add: tda_queue_extend_def queue_try_does queue_cells_def tda_layout_eq_def)

lemma queue_reserve_ok:
  assumes "held_by queue_view h q"
  shows "call_does queue_view h q (tda_queue_reserve q n h) (lsize (dqelem (qdeque q)) * n \<le> SIZE_MAX) (queue_cells q)"
  using queue_deque [OF assms] deque_reserve_ok [of h "qdeque q" n]
  by (simp add: tda_queue_reserve_def queue_try_does queue_cells_def)

lemma queue_shrink_ok:
  assumes "held_by queue_view h q"
  shows "call_does queue_view h q (tda_queue_shrink_to_fit q h) True (queue_cells q)"
  using queue_deque [OF assms] deque_shrink_ok [of h "qdeque q"]
  by (simp add: tda_queue_shrink_to_fit_def queue_try_does queue_cells_def)

lemma queue_pop_ok:
  assumes "held_by queue_view h q" "queue_cells q \<noteq> []"
  shows "call_edits queue_view q (tda_queue_pop q) (tl (queue_cells q))"
    "\<exists>q'. tda_queue_pop_to q = Some (hd (queue_cells q), q') \<and> call_edits queue_view q (Some q') (tl (queue_cells q))"
    "\<exists>i. tda_queue_front q = Some i \<and> dqdata (qdeque q) ! i = hd (queue_cells q)"
    "\<exists>i. tda_queue_back q = Some i \<and> dqdata (qdeque q) ! i = last (queue_cells q)"
proof -
  note d = queue_deque [OF assms(1)]
  have n: "0 < dqlen (qdeque q)" using assms(2) d(7) by (metis length_greater_0_conv)
  show "call_edits queue_view q (tda_queue_pop q) (tl (queue_cells q))"
    using d n queue_do_edits [OF pop_front_ok [OF d(2) n]] by (simp add: tda_queue_pop_def queue_cells_def)
  obtain d1 where d1: "tda_deque_pop_front_to (qdeque q) = Some (hd (deque_cells (qdeque q)), d1)"
    "call_edits deque_view (qdeque q) (Some d1) (tl (deque_cells (qdeque q)))"
    using pop_to_ok(1) [OF d(2) n] by blast
  have "call_edits queue_view q (queue_do q (Some d1)) (tl (queue_cells q))"
    using queue_do_edits [OF d1(2)] by (simp add: queue_cells_def)
  then show "\<exists>q'. tda_queue_pop_to q = Some (hd (queue_cells q), q') \<and> call_edits queue_view q (Some q') (tl (queue_cells q))"
    using d n d1(1) by (auto simp: tda_queue_pop_to_def queue_cells_def call_edits_def)
  have c: "0 < dqcap (qdeque q)" "dqlen (qdeque q) - 1 < dqcap (qdeque q)" using n deque_okD(3) [OF d(2)] by simp_all
  show "\<exists>i. tda_queue_front q = Some i \<and> dqdata (qdeque q) ! i = hd (queue_cells q)"
    "\<exists>i. tda_queue_back q = Some i \<and> dqdata (qdeque q) ! i = last (queue_cells q)"
    using d n c assms(2)
    by (simp_all add: tda_queue_front_def tda_deque_front_def tda_queue_back_def tda_deque_back_def
        hd_conv_nth last_conv_nth deque_cells_nth deque_ring_nth queue_cells_def)
qed

lemma queue_clear_ok: "held_by queue_view h q \<Longrightarrow> call_edits queue_view q (tda_queue_clear q) []"
  using queue_deque [of h q] queue_do_edits [OF deque_clear_ok [of "qdeque q"]] by (simp add: tda_queue_clear_def)

lemma queue_deinit_ok: "held_by queue_view h q \<Longrightarrow> call_ends queue_view h q (tda_queue_deinit q h)"
  using deque_deinit_ok [of h "qdeque q"] by (auto simp: held_by_queue call_ends_def tda_queue_deinit_def queue_view_def)

text \<open>One call on a queue, or a write of the program into one of its slots.\<close>

inductive queue_step :: "heap \<times> 'e queue \<Rightarrow> heap \<times> 'e queue \<Rightarrow> bool" where
  qu_push: "deque_arg_ok (qdeque q) val \<Longrightarrow> tda_queue_push q val h = Some (st, q', h') \<Longrightarrow> queue_step (h, q) (h', q')"
| qu_extend: "tda_queue_extend q src (dqelem (qdeque q)) h = Some (st, q', h') \<Longrightarrow> queue_step (h, q) (h', q')"
| qu_reserve: "tda_queue_reserve q n h = Some (st, q', h') \<Longrightarrow> queue_step (h, q) (h', q')"
| qu_shrink: "tda_queue_shrink_to_fit q h = Some (st, q', h') \<Longrightarrow> queue_step (h, q) (h', q')"
| qu_assign: "deque_ok (qdeque r) \<Longrightarrow> dqelem (qdeque r) = dqelem (qdeque q) \<Longrightarrow>
    tda_queue_copy_assign False q r h = Some (st, q', h') \<Longrightarrow> queue_step (h, q) (h', q')"
| qu_pop: "queue_cells q \<noteq> [] \<Longrightarrow> tda_queue_pop q = Some q' \<Longrightarrow> queue_step (h, q) (h, q')"
| qu_pop_to: "queue_cells q \<noteq> [] \<Longrightarrow> tda_queue_pop_to q = Some (out, q') \<Longrightarrow> queue_step (h, q) (h, q')"
| qu_clear: "tda_queue_clear q = Some q' \<Longrightarrow> queue_step (h, q) (h, q')"
| qu_write: "queue_step (h, q) (h, q\<lparr>qdeque := (qdeque q)\<lparr>dqdata := (dqdata (qdeque q))[i := cell]\<rparr>\<rparr>)"

lemma same_queue:
  assumes "deque_ok (qdeque q)" "deque_ok (qdeque r)" "dqelem (qdeque r) = dqelem (qdeque q)"
  shows "EXPECT_SAME_QUEUE q r = Some ()"
  using assms deque_okD(1,5) [OF assms(1)] deque_okD(1,5) [OF assms(2)]
  by (simp add: EXPECT_SAME_QUEUE_def tda_deque_elem_layout_def tda_layout_eq_def)

lemma queue_copy_assign_ok:
  assumes "held_by queue_view h q" "deque_ok (qdeque r)" "dqelem (qdeque r) = dqelem (qdeque q)"
  shows "call_does queue_view h q (tda_queue_copy_assign False q r h) True (queue_cells r)"
proof -
  note q = queue_deque [OF assms(1)]
  have "tda_queue_copy_assign False q r h = queue_try q (tda_deque_copy_assign False (qdeque q) (qdeque r) h)"
    using q same_queue [OF q(2) assms(2,3)] ASSERT_QUEUE_ok [OF assms(2), of r]
    by (simp add: tda_queue_copy_assign_def queue_try_def)
  then show ?thesis
    using queue_try_does [OF deque_copy_assign_ok [OF q(1) assms(2,3)]] by (simp add: queue_cells_def)
qed

lemmas queue_call_specs = queue_copy_assign_ok queue_push_ok queue_extend_ok queue_reserve_ok queue_shrink_ok queue_pop_ok(1) queue_clear_ok

lemma queue_step_holds: "queue_step s t \<Longrightarrow> holds_since queue_view h0 s \<Longrightarrow> holds_since queue_view h0 t"
proof (induction rule: queue_step.induct)
  case (qu_pop_to q out q' h)
  then have "call_edits queue_view q (Some q') (tl (queue_cells q))"
    using queue_pop_ok(2) [OF holds_held [OF qu_pop_to(3)] qu_pop_to(1)] by auto
  then show ?case by (rule holds_edits [OF refl qu_pop_to(3)])
next
  case (qu_write h q i cell)
  then show ?case by (simp add: holds_since_def queue_view_def deque_ok_def)
qed ((erule (1) holds_does holds_edits, rule queue_call_specs; blast intro: holds_held)+)

interpretation queue: container queue_view queue_step tda_queue_deinit
  by unfold_locales (fact queue_step_holds, fact queue_deinit_ok)

section \<open>The properties\<close>

lemma queue_operations:
  assumes "held_by queue_view h q"
  shows "(\<forall>val. deque_arg_ok (qdeque q) val \<longrightarrow>
      call_does queue_view h q (tda_queue_push q val h) (lsize (dqelem (qdeque q)) * (dqlen (qdeque q) + 1) \<le> SIZE_MAX)
        (queue_cells q @ [deque_arg_val (qdeque q) val])) \<and>
    (\<forall>src. call_does queue_view h q (tda_queue_extend q src (dqelem (qdeque q)) h)
        (lsize (dqelem (qdeque q)) * (dqlen (qdeque q) + length src) \<le> SIZE_MAX) (queue_cells q @ src)) \<and>
    (\<forall>n. call_does queue_view h q (tda_queue_reserve q n h) (lsize (dqelem (qdeque q)) * n \<le> SIZE_MAX) (queue_cells q)) \<and>
    call_edits queue_view q (tda_queue_clear q) [] \<and>
    (queue_cells q \<noteq> [] \<longrightarrow>
      (\<exists>i. tda_queue_front q = Some i \<and> dqdata (qdeque q) ! i = hd (queue_cells q)) \<and>
      (\<exists>i. tda_queue_back q = Some i \<and> dqdata (qdeque q) ! i = last (queue_cells q)) \<and>
      (\<exists>q'. tda_queue_pop_to q = Some (hd (queue_cells q), q') \<and>
        call_edits queue_view q (Some q') (tl (queue_cells q)))) \<and>
    (queue_cells q = [] \<longrightarrow> tda_queue_pop_to q = None \<and> tda_queue_front q = None \<and> tda_queue_back q = None)"
proof -
  have "queue_cells q = [] \<Longrightarrow> dqlen (qdeque q) = 0" using queue_deque(7) [OF assms] by simp
  then show ?thesis
    using queue_push_ok [OF assms] queue_extend_ok [OF assms] queue_reserve_ok [OF assms] queue_clear_ok [OF assms]
      queue_pop_ok(2-4) [OF assms] queue_deque [OF assms]
    by (simp add: tda_queue_pop_to_def tda_queue_front_def tda_queue_back_def)
qed

end
