(* ===== verification/Heap.thy ===== *)
theory Heap
  imports Span Cmp
begin

text \<open>
  \<open>internal/heap.h\<close> and \<open>algo/heap.h\<close>, \<open>algo/heap.c\<close>: binary heaps laid out over a span, on the list
  of its elements. The loops are recursive functions on the loop variable; every access is
  checked as \<open>tda_span_get\<close> checks it.
\<close>

section \<open>internal/heap.h\<close>

definition tda_heap_parent :: "nat \<Rightarrow> nat option" where
  "tda_heap_parent idx = do { chk (idx > 0); Some ((idx - 1) div 2) }"

definition tda_heap_left :: "nat \<Rightarrow> nat" where
  "tda_heap_left idx = 2 * idx + 1"

definition tda_heap_above :: "'a list \<Rightarrow> nat \<Rightarrow> nat \<Rightarrow> ('a \<Rightarrow> 'a \<Rightarrow> int) \<Rightarrow> bool option" where
  "tda_heap_above s upper lower cmp = do {
     a \<leftarrow> span_get s upper;
     b \<leftarrow> span_get s lower;
     Some (cmp a b \<ge> 0)
   }"

function sift_down_loop :: "'a list \<Rightarrow> nat \<Rightarrow> nat \<Rightarrow> ('a \<Rightarrow> 'a \<Rightarrow> int) \<Rightarrow> 'a list option" where
  "sift_down_loop s idx len cmp = (let left = tda_heap_left idx in
     if left \<ge> len then Some s
     else do {
       let right = left + 1;
       swap \<leftarrow> (if right < len then do { b \<leftarrow> tda_heap_above s left right cmp; Some (\<not> b) }
               else Some False);
       let best = (if swap then right else left);
       stop \<leftarrow> tda_heap_above s idx best cmp;
       if stop then Some s
       else do {
         s \<leftarrow> span_swap s idx best;
         sift_down_loop s best len cmp
       }
     })"
  by auto
termination
  by (relation "measure (\<lambda>(s, idx, len, cmp). len - idx)") (auto simp: tda_heap_left_def)

definition tda_heap_sift_down :: "'a list \<Rightarrow> nat \<Rightarrow> nat \<Rightarrow> ('a \<Rightarrow> 'a \<Rightarrow> int) \<Rightarrow> 'a list option" where
  "tda_heap_sift_down s idx len cmp = do {
     chk (len \<le> length s);
     sift_down_loop s idx len cmp
   }"

function tda_heap_sift_up :: "'a list \<Rightarrow> nat \<Rightarrow> ('a \<Rightarrow> 'a \<Rightarrow> int) \<Rightarrow> 'a list option" where
  "tda_heap_sift_up s idx cmp =
     (if idx > 0
      then do {
        parent \<leftarrow> tda_heap_parent idx;
        stop \<leftarrow> tda_heap_above s parent idx cmp;
        if stop then Some s
        else do {
          s \<leftarrow> span_swap s parent idx;
          tda_heap_sift_up s parent cmp
        }
      }
      else Some s)"
  by auto
termination
  by (relation "measure (\<lambda>(s, idx, cmp). idx)") (auto simp: tda_heap_parent_def)

declare sift_down_loop.simps [simp del] tda_heap_sift_up.simps [simp del]

section \<open>algo/heap.c\<close>

fun make_heap_loop :: "'a list \<Rightarrow> ('a \<Rightarrow> 'a \<Rightarrow> int) \<Rightarrow> nat \<Rightarrow> 'a list option" where
  "make_heap_loop s cmp 0 = Some s"
| "make_heap_loop s cmp (Suc i) = do {
     s' \<leftarrow> tda_heap_sift_down s i (length s) cmp;
     make_heap_loop s' cmp i
   }"

definition tda_span_make_heap :: "('a \<Rightarrow> 'a \<Rightarrow> int) \<Rightarrow> 'a list \<Rightarrow> 'a list option" where
  "tda_span_make_heap cmp s = make_heap_loop s cmp (length s div 2)"

definition tda_span_push_heap :: "('a \<Rightarrow> 'a \<Rightarrow> int) \<Rightarrow> 'a list \<Rightarrow> 'a list option" where
  "tda_span_push_heap cmp s = do {
     chk (length s > 0);
     tda_heap_sift_up s (length s - 1) cmp
   }"

definition tda_span_pop_heap :: "('a \<Rightarrow> 'a \<Rightarrow> int) \<Rightarrow> 'a list \<Rightarrow> 'a list option" where
  "tda_span_pop_heap cmp s = do {
     chk (length s > 0);
     if length s = 1 then Some s
     else do {
       s \<leftarrow> span_swap s 0 (length s - 1);
       tda_heap_sift_down s 0 (length s - 1) cmp
     }
   }"

text \<open>The loop of \<open>sort_heap\<close>: while more than one element is in the heap.\<close>

fun sort_heap_loop :: "('a \<Rightarrow> 'a \<Rightarrow> int) \<Rightarrow> 'a list \<Rightarrow> nat \<Rightarrow> 'a list option" where
  "sort_heap_loop cmp s 0 = Some s"
| "sort_heap_loop cmp s (Suc n) =
     (if Suc n > 1
      then do {
        s \<leftarrow> span_within s 0 (Suc n) (tda_span_pop_heap cmp);
        sort_heap_loop cmp s n
      }
      else Some s)"

definition tda_span_sort_heap :: "('a \<Rightarrow> 'a \<Rightarrow> int) \<Rightarrow> 'a list \<Rightarrow> 'a list option" where
  "tda_span_sort_heap cmp s = sort_heap_loop cmp s (length s)"

function is_heap_until_loop :: "'a list \<Rightarrow> ('a \<Rightarrow> 'a \<Rightarrow> int) \<Rightarrow> nat \<Rightarrow> nat option" where
  "is_heap_until_loop s cmp child =
     (if child < length s
      then do {
        parent \<leftarrow> tda_heap_parent child;
        b \<leftarrow> tda_heap_above s parent child cmp;
        if \<not> b then Some child else is_heap_until_loop s cmp (child + 1)
      }
      else Some (length s))"
  by auto
termination by (relation "measure (\<lambda>(s, cmp, child). length s - child)") auto

declare is_heap_until_loop.simps [simp del]

definition tda_span_is_heap_until :: "'a list \<Rightarrow> ('a \<Rightarrow> 'a \<Rightarrow> int) \<Rightarrow> nat option" where
  "tda_span_is_heap_until s cmp = is_heap_until_loop s cmp 1"

definition tda_span_is_heap :: "'a list \<Rightarrow> ('a \<Rightarrow> 'a \<Rightarrow> int) \<Rightarrow> bool option" where
  "tda_span_is_heap s cmp = do { n \<leftarrow> tda_span_is_heap_until s cmp; Some (n = length s) }"

section \<open>The shape\<close>

abbreviation (input) hp :: "nat \<Rightarrow> nat" where
  "hp c \<equiv> (c - 1) div 2"

lemma hp_iff: "0 < c \<Longrightarrow> hp c = i \<longleftrightarrow> c = 2 * i + 1 \<or> c = 2 * i + 2"
  by (auto; presburger)

lemma hp_less: "0 < c \<Longrightarrow> hp c < c"
  by auto

lemma heap_parent_eq [simp]: "0 < c \<Longrightarrow> tda_heap_parent c = Some (hp c)"
  by (simp add: tda_heap_parent_def)

lemma heap_above_eq [simp]:
  "i < length s \<Longrightarrow> j < length s \<Longrightarrow> tda_heap_above s i j cmp = Some (cmp (s ! i) (s ! j) \<ge> 0)"
  by (simp add: tda_heap_above_def)

text \<open>
  \<open>heap_on cmp s n k\<close>: among the first \<open>n\<close> elements, every parent from index \<open>k\<close> on is above its
  children. \<open>k = 0\<close> makes it a heap.
\<close>

definition heap_on :: "('a \<Rightarrow> 'a \<Rightarrow> int) \<Rightarrow> 'a list \<Rightarrow> nat \<Rightarrow> nat \<Rightarrow> bool" where
  "heap_on cmp s n k \<longleftrightarrow> (\<forall>c. 0 < c \<and> c < n \<and> k \<le> hp c \<longrightarrow> cmp (s ! hp c) (s ! c) \<ge> 0)"

lemma heap_on_cong:
  assumes "\<And>j. j < n \<Longrightarrow> s ! j = t ! j"
  shows "heap_on cmp s n k \<longleftrightarrow> heap_on cmp t n k"
proof -
  have "s ! hp c = t ! hp c \<and> s ! c = t ! c" if "0 < c" "c < n" for c
    using assms [of c] assms [of "hp c"] hp_less [OF that(1)] that(2) by simp
  then show ?thesis unfolding heap_on_def by metis
qed

text \<open>The same but for the edges below \<open>i\<close>, across which the order still holds.\<close>

definition almost_down :: "('a \<Rightarrow> 'a \<Rightarrow> int) \<Rightarrow> 'a list \<Rightarrow> nat \<Rightarrow> nat \<Rightarrow> nat \<Rightarrow> bool" where
  "almost_down cmp s n k i \<longleftrightarrow>
     (\<forall>c. 0 < c \<and> c < n \<and> k \<le> hp c \<and> hp c \<noteq> i \<longrightarrow> cmp (s ! hp c) (s ! c) \<ge> 0) \<and>
     (0 < i \<and> k \<le> hp i \<longrightarrow> (\<forall>c. 0 < c \<and> c < n \<and> hp c = i \<longrightarrow> cmp (s ! hp i) (s ! c) \<ge> 0))"

text \<open>The same but for the edge above \<open>i\<close>.\<close>

definition almost_up :: "('a \<Rightarrow> 'a \<Rightarrow> int) \<Rightarrow> 'a list \<Rightarrow> nat \<Rightarrow> nat \<Rightarrow> bool" where
  "almost_up cmp s n i \<longleftrightarrow>
     (\<forall>c. 0 < c \<and> c < n \<and> c \<noteq> i \<longrightarrow> cmp (s ! hp c) (s ! c) \<ge> 0) \<and>
     (0 < i \<longrightarrow> (\<forall>c. 0 < c \<and> c < n \<and> hp c = i \<longrightarrow> cmp (s ! hp i) (s ! c) \<ge> 0))"

lemma almost_downI:
  "(\<And>c. 0 < c \<Longrightarrow> c < n \<Longrightarrow> k \<le> hp c \<Longrightarrow> hp c \<noteq> i \<Longrightarrow> cmp (s ! hp c) (s ! c) \<ge> 0) \<Longrightarrow>
   (\<And>c. 0 < i \<Longrightarrow> k \<le> hp i \<Longrightarrow> 0 < c \<Longrightarrow> c < n \<Longrightarrow> hp c = i \<Longrightarrow> cmp (s ! hp i) (s ! c) \<ge> 0) \<Longrightarrow>
   almost_down cmp s n k i"
  unfolding almost_down_def by blast

lemma almost_upI:
  "(\<And>c. 0 < c \<Longrightarrow> c < n \<Longrightarrow> c \<noteq> i \<Longrightarrow> cmp (s ! hp c) (s ! c) \<ge> 0) \<Longrightarrow>
   (\<And>c. 0 < i \<Longrightarrow> 0 < c \<Longrightarrow> c < n \<Longrightarrow> hp c = i \<Longrightarrow> cmp (s ! hp i) (s ! c) \<ge> 0) \<Longrightarrow>
   almost_up cmp s n i"
  unfolding almost_up_def by blast

context total_cmp begin

lemma ge_trans: "cmp a b \<ge> 0 \<Longrightarrow> cmp b c \<ge> 0 \<Longrightarrow> cmp a c \<ge> 0"
  using cmp_le_trans [of c b a] by (simp add: cmp_ge_iff)

lemma not_ge: "\<not> cmp a b \<ge> 0 \<Longrightarrow> cmp b a \<ge> 0"
  using cmp_le_total [of a b] by (auto simp: cmp_ge_iff)

lemma almost_down_swap:
  assumes al: "almost_down cmp s n k i" and b: "0 < b" "hp b = i" "b < n" "n \<le> length s"
    and best: "\<And>c. 0 < c \<Longrightarrow> c < n \<Longrightarrow> hp c = i \<Longrightarrow> cmp (s ! b) (s ! c) \<ge> 0"
    and gt: "cmp (s ! b) (s ! i) \<ge> 0" and k: "k \<le> i"
  shows "almost_down cmp (s[i := s ! b, b := s ! i]) n k b"
proof -
  let ?s = "s[i := s ! b, b := s ! i]"
  have ib: "i < b" using hp_less [OF b(1)] b(2) by simp
  note A = conjunct1 [OF al [unfolded almost_down_def], rule_format]
  note B = conjunct2 [OF al [unfolded almost_down_def], rule_format]
  have at: "?s ! i = s ! b" "?s ! b = s ! i" "\<And>c. c \<noteq> i \<Longrightarrow> c \<noteq> b \<Longrightarrow> ?s ! c = s ! c"
    using ib b(3,4) by auto
  have edge: "cmp (?s ! hp c) (?s ! c) \<ge> 0" if c: "0 < c" "c < n" "k \<le> hp c" "hp c \<noteq> b" for c
  proof -
    consider "hp c = i" "c = b" | "hp c = i" "c \<noteq> b" | "hp c \<noteq> i" "c = i" | "hp c \<noteq> i" "c \<noteq> i" by blast
    then show ?thesis
    proof cases
      case 1
      then show ?thesis using at gt by simp
    next
      case 2
      then have "c \<noteq> i" using hp_less [OF c(1)] by auto
      then show ?thesis using 2 at best [OF c(1,2)] by simp
    next
      case 3
      then have "?s ! hp c = s ! hp i" "?s ! c = s ! b" using at c(4) by metis+
      moreover have "cmp (s ! hp i) (s ! b) \<ge> 0" using B [of b] b(1-3) c 3 by blast
      ultimately show ?thesis by simp
    next
      case 4
      then have "c \<noteq> b" using b(2) by auto
      then show ?thesis using 4 at A [of c] c by simp
    qed
  qed
  moreover have "cmp (?s ! hp b) (?s ! c) \<ge> 0" if "0 < c" "c < n" "hp c = b" for c
  proof -
    have "c \<noteq> i" "c \<noteq> b" "hp c \<noteq> i" using hp_less [OF that(1)] that(3) ib by auto
    then show ?thesis using that at b(2) A [of c] k ib by simp
  qed
  ultimately show ?thesis by (intro almost_downI) blast+
qed

lemma heap_on_almost_down: "heap_on cmp s n (Suc i) \<Longrightarrow> almost_down cmp s n i i"
  by (rule almost_downI) (auto simp: heap_on_def)

lemma almost_down_heap:
  "almost_down cmp s n k i \<Longrightarrow> (\<And>c. 0 < c \<Longrightarrow> c < n \<Longrightarrow> hp c = i \<Longrightarrow> cmp (s ! i) (s ! c) \<ge> 0) \<Longrightarrow>
   heap_on cmp s n k"
  unfolding heap_on_def almost_down_def by blast

lemma sift_down_loop_spec:
  assumes "n \<le> length s" "almost_down cmp s n k i" "k \<le> i"
  shows "\<exists>s'. sift_down_loop s i n cmp = Some s' \<and> heap_on cmp s' n k \<and> mset s' = mset s \<and>
    length s' = length s \<and> (\<forall>j. n \<le> j \<or> j < i \<longrightarrow> s' ! j = s ! j)"
  using assms
proof (induction "n - i" arbitrary: s i rule: less_induct)
  case less
  note le = less.prems(1) and al = less.prems(2) and k = less.prems(3)
  let ?l = "2 * i + 1" and ?r = "2 * i + 2"
  note eqn = sift_down_loop.simps [of s i n cmp]
  show ?case
  proof (cases "n \<le> ?l")
    case True
    have "heap_on cmp s n k"
    proof (rule almost_down_heap [OF al])
      fix c assume "0 < c" "c < n" "hp c = i"
      then have "n > ?l" using hp_iff [of c i] by auto
      then show "cmp (s ! i) (s ! c) \<ge> 0" using True by simp
    qed
    then show ?thesis using True by (simp add: eqn tda_heap_left_def)
  next
    case False
    define b where "b = (if ?r < n \<and> \<not> cmp (s ! ?l) (s ! ?r) \<ge> 0 then ?r else ?l)"
    have b: "0 < b" "hp b = i" "b < n" "i < b" using False by (auto simp: b_def)
    have best: "cmp (s ! b) (s ! c) \<ge> 0" if "0 < c" "c < n" "hp c = i" for c
    proof -
      have "c = ?l \<or> c = ?r" using that hp_iff by blast
      then show ?thesis using that(2) not_ge [of "s ! ?l" "s ! ?r"] by (auto simp: b_def)
    qed
    have step: "sift_down_loop s i n cmp =
      (if cmp (s ! i) (s ! b) \<ge> 0 then Some s
       else sift_down_loop (s[i := s ! b, b := s ! i]) b n cmp)"
      using False le b(3,4) by (auto simp: eqn tda_heap_left_def b_def Let_def)
    show ?thesis
    proof (cases "cmp (s ! i) (s ! b) \<ge> 0")
      case True
      have "heap_on cmp s n k"
      proof (rule almost_down_heap [OF al])
        show "cmp (s ! i) (s ! c) \<ge> 0" if "0 < c" "c < n" "hp c = i" for c
          using ge_trans [OF True best [OF that]] .
      qed
      then show ?thesis using True step by simp
    next
      case gt: False
      let ?s = "s[i := s ! b, b := s ! i]"
      have "almost_down cmp ?s n k b"
        using al b(1-3) le best not_ge [OF gt] k by (rule almost_down_swap)
      moreover have "n - b < n - i" "k \<le> b" using b k by auto
      ultimately obtain s' where s': "sift_down_loop ?s b n cmp = Some s'" "heap_on cmp s' n k"
        "mset s' = mset ?s" "length s' = length ?s" "\<forall>j. n \<le> j \<or> j < b \<longrightarrow> s' ! j = ?s ! j"
        using less.hyps [of b ?s] le by auto
      have "\<forall>j. n \<le> j \<or> j < i \<longrightarrow> s' ! j = s ! j" using s'(5) b(3,4) by auto
      then show ?thesis using s' step gt b le by auto
    qed
  qed
qed

lemma almost_up_swap:
  assumes al: "almost_up cmp s n i" and i: "0 < i" "i < n" "n \<le> length s"
    and gt: "cmp (s ! i) (s ! hp i) \<ge> 0"
  shows "almost_up cmp (s[hp i := s ! i, i := s ! hp i]) n (hp i)"
proof -
  define p where "p = hp i"
  let ?s = "s[p := s ! i, i := s ! p]"
  have pi: "p < i" using hp_less [OF i(1)] by (simp add: p_def)
  note A = conjunct1 [OF al [unfolded almost_up_def], rule_format]
  note B = conjunct2 [OF al [unfolded almost_up_def], rule_format, folded p_def]
  have gt: "cmp (s ! i) (s ! p) \<ge> 0" using gt by (simp add: p_def)
  have at: "?s ! p = s ! i" "?s ! i = s ! p" "\<And>c. c \<noteq> i \<Longrightarrow> c \<noteq> p \<Longrightarrow> ?s ! c = s ! c"
    using pi i by auto
  have edge: "cmp (?s ! hp c) (?s ! c) \<ge> 0" if c: "0 < c" "c < n" "c \<noteq> p" for c
  proof -
    have hc: "hp c < c" using c(1) by (rule hp_less)
    consider "c = i" | "c \<noteq> i" "hp c = i" | "c \<noteq> i" "hp c = p" | "c \<noteq> i" "hp c \<noteq> i" "hp c \<noteq> p" by blast
    then show ?thesis
    proof cases
      case 1
      then have "hp c = p" by (simp add: p_def)
      then show ?thesis using 1 at(1,2) gt by simp
    next
      case 2
      then have "?s ! hp c = s ! p" "?s ! c = s ! c" using at c(3) by metis+
      then show ?thesis using B [of c] i(1) c 2 by simp
    next
      case 3
      then have "?s ! hp c = s ! i" "?s ! c = s ! c" using at c(3) by metis+
      moreover have "cmp (s ! p) (s ! c) \<ge> 0" using A [of c] c 3 by simp
      ultimately show ?thesis using ge_trans [OF gt] by simp
    next
      case 4
      then have "?s ! hp c = s ! hp c" "?s ! c = s ! c" using at c(3) by metis+
      then show ?thesis using A [of c] c 4 by simp
    qed
  qed
  moreover have "cmp (?s ! hp p) (?s ! c) \<ge> 0" if c: "0 < p" "0 < c" "c < n" "hp c = p" for c
  proof -
    have hp: "hp p < p" "c \<noteq> p" using c hp_less by auto
    then have root: "?s ! hp p = s ! hp p" using at(3) pi by auto
    have up: "cmp (s ! hp p) (s ! p) \<ge> 0" using A [of p] c pi i(2) by auto
    show ?thesis
    proof (cases "c = i")
      case True
      then show ?thesis using root up at(2) by simp
    next
      case False
      then have "cmp (s ! p) (s ! c) \<ge> 0" using A [of c] c by simp
      then show ?thesis using root at(3) False hp(2) ge_trans [OF up] by simp
    qed
  qed
  ultimately show ?thesis unfolding p_def [symmetric] by (intro almost_upI) blast+
qed

lemma almost_up_heap:
  "almost_up cmp s n i \<Longrightarrow> (0 < i \<and> i < n \<Longrightarrow> cmp (s ! hp i) (s ! i) \<ge> 0) \<Longrightarrow> heap_on cmp s n 0"
  unfolding heap_on_def almost_up_def by blast

lemma sift_up_spec:
  assumes "almost_up cmp s (length s) i" "i < length s"
  shows "\<exists>s'. tda_heap_sift_up s i cmp = Some s' \<and> heap_on cmp s' (length s) 0 \<and> mset s' = mset s"
  using assms
proof (induction i arbitrary: s rule: less_induct)
  case (less i)
  note eqn = tda_heap_sift_up.simps [of s i cmp]
  show ?case
  proof (cases "0 < i")
    case False
    have "heap_on cmp s (length s) 0" using less.prems(1) by (rule almost_up_heap) (use False in simp)
    moreover have "tda_heap_sift_up s i cmp = Some s" unfolding eqn using False by simp
    ultimately show ?thesis by simp
  next
    case True
    have hp: "hp i < i" using True by (rule hp_less)
    have step: "tda_heap_sift_up s i cmp =
      (if cmp (s ! hp i) (s ! i) \<ge> 0 then Some s
       else tda_heap_sift_up (s[hp i := s ! i, i := s ! hp i]) (hp i) cmp)"
      using True hp less.prems(2) by (simp add: eqn)
    show ?thesis
    proof (cases "cmp (s ! hp i) (s ! i) \<ge> 0")
      case ge: True
      then have "heap_on cmp s (length s) 0" using less.prems(1) by (intro almost_up_heap)
      then show ?thesis using ge step by simp
    next
      case False
      let ?s = "s[hp i := s ! i, i := s ! hp i]"
      have "almost_up cmp ?s (length s) (hp i)"
        using less.prems(1) True less.prems(2) order_refl not_ge [OF False] by (rule almost_up_swap)
      moreover have "mset ?s = mset s" using hp less.prems(2) by (intro mset_span_swap) auto
      ultimately show ?thesis
        using less.IH [OF hp, of ?s] hp less.prems(2) step False by auto
    qed
  qed
qed

lemma sift_down_spec:
  assumes "n \<le> length s" "almost_down cmp s n k i" "k \<le> i"
  shows "\<exists>s'. tda_heap_sift_down s i n cmp = Some s' \<and> heap_on cmp s' n k \<and> mset s' = mset s \<and>
    length s' = length s \<and> (\<forall>j. n \<le> j \<or> j < i \<longrightarrow> s' ! j = s ! j)"
  using sift_down_loop_spec [OF assms] assms(1) by (simp add: tda_heap_sift_down_def)

lemma make_heap_loop_spec:
  "heap_on cmp s (length s) i \<Longrightarrow>
   \<exists>s'. make_heap_loop s cmp i = Some s' \<and> heap_on cmp s' (length s) 0 \<and> mset s' = mset s"
proof (induction i arbitrary: s)
  case (Suc i)
  obtain s1 where s1: "tda_heap_sift_down s i (length s) cmp = Some s1" "heap_on cmp s1 (length s) i"
    "mset s1 = mset s" "length s1 = length s"
    using sift_down_spec [OF order_refl heap_on_almost_down [OF Suc.prems] order_refl] by auto
  then show ?case using Suc.IH [of s1] by auto
qed simp

lemma make_heap_spec:
  "\<exists>s'. tda_span_make_heap cmp s = Some s' \<and> heap_on cmp s' (length s) 0 \<and> mset s' = mset s"
proof -
  have "heap_on cmp s (length s) (length s div 2)" by (auto simp: heap_on_def)
  then show ?thesis unfolding tda_span_make_heap_def by (rule make_heap_loop_spec)
qed

lemma heap_root: "heap_on cmp s n 0 \<Longrightarrow> i < n \<Longrightarrow> cmp (s ! 0) (s ! i) \<ge> 0"
proof (induction i rule: less_induct)
  case (less i)
  show ?case
  proof (cases "i = 0")
    case False
    then have "hp i < i" by (intro hp_less) simp
    then have "cmp (s ! 0) (s ! hp i) \<ge> 0" using less by simp
    moreover have "cmp (s ! hp i) (s ! i) \<ge> 0" using less.prems False by (simp add: heap_on_def)
    ultimately show ?thesis by (rule ge_trans)
  qed simp
qed

lemma push_heap_spec:
  assumes "s \<noteq> []" "heap_on cmp s (length s - 1) 0"
  shows "\<exists>s'. tda_span_push_heap cmp s = Some s' \<and> heap_on cmp s' (length s) 0 \<and> mset s' = mset s"
proof -
  have "almost_up cmp s (length s) (length s - 1)"
  proof (rule almost_upI)
    fix c assume c: "0 < c" "c < length s" "hp c = length s - 1"
    then show "cmp (s ! hp (length s - 1)) (s ! c) \<ge> 0" using hp_less [OF c(1)] by simp
  qed (use assms(2) in \<open>auto simp: heap_on_def\<close>)
  then show ?thesis using sift_up_spec [of s "length s - 1"] assms(1) by (simp add: tda_span_push_heap_def)
qed

lemma pop_heap_spec:
  assumes "s \<noteq> []" "heap_on cmp s (length s) 0"
  shows "\<exists>s'. tda_span_pop_heap cmp s = Some s' \<and> heap_on cmp s' (length s - 1) 0 \<and>
    mset s' = mset s \<and> s' ! (length s - 1) = s ! 0"
proof (cases "length s = 1")
  case True
  then show ?thesis by (simp add: tda_span_pop_heap_def heap_on_def)
next
  case False
  let ?n = "length s - 1" let ?s = "s[0 := s ! ?n, ?n := s ! 0]"
  have n: "0 < ?n" "?n < length s" using assms(1) False by (cases s; force)+
  have "almost_down cmp ?s ?n 0 0"
  proof (rule almost_downI)
    fix c assume c: "0 < c" "c < ?n" "hp c \<noteq> 0"
    then have "?s ! hp c = s ! hp c" "?s ! c = s ! c" using hp_less [OF c(1)] by auto
    then show "cmp (?s ! hp c) (?s ! c) \<ge> 0" using assms(2) c by (auto simp: heap_on_def)
  qed simp
  moreover have "mset ?s = mset s" using n by (intro mset_span_swap) auto
  ultimately show ?thesis
    using sift_down_spec [of ?n ?s 0 0] n assms(1) False
    by (auto simp: tda_span_pop_heap_def)
qed

lemma sort_heap_loop_spec:
  assumes "n \<le> length s" "heap_on cmp s n 0" "sorted_wrt (\<lambda>x y. cmp x y \<le> 0) (drop n s)"
    "\<forall>x \<in> set (take n s). \<forall>y \<in> set (drop n s). cmp x y \<le> 0"
  shows "\<exists>s'. sort_heap_loop cmp s n = Some s' \<and> sorted_wrt (\<lambda>x y. cmp x y \<le> 0) s' \<and> mset s' = mset s"
  using assms
proof (induction n arbitrary: s)
  case (Suc n)
  show ?case
  proof (cases "n = 0")
    case True
    obtain x xs where "s = x # xs" using Suc.prems(1) by (cases s) auto
    then show ?thesis using True Suc.prems(3,4) by simp
  next
    case False
    let ?t = "take (Suc n) s"
    have len: "length ?t = Suc n" using Suc.prems(1) by simp
    have "heap_on cmp ?t (length ?t) 0"
      using Suc.prems(2) heap_on_cong [of "Suc n" ?t s] unfolding len by simp
    then obtain t where t: "tda_span_pop_heap cmp ?t = Some t" "heap_on cmp t n 0" "mset t = mset ?t"
      "t ! n = ?t ! 0"
      using pop_heap_spec [of ?t] len by (cases ?t) auto
    have lt: "length t = Suc n" using t(3) len by (metis size_mset)
    let ?s = "t @ drop (Suc n) s"
    have run: "span_within s 0 (Suc n) (tda_span_pop_heap cmp) = Some ?s"
      using Suc.prems(1) t(1) by (simp add: span_within_def)
    have tk: "take n ?s = take n t" and dr: "drop n ?s = t ! n # drop (Suc n) s"
      using lt by (simp_all add: Cons_nth_drop_Suc [symmetric])
    have hs: "heap_on cmp ?s n 0" using t(2) lt heap_on_cong [of n ?s t] by (simp add: nth_append)
    have mem: "set t = set ?t" using t(3) by (rule mset_eq_setD)
    have top: "cmp x (t ! n) \<le> 0" if x: "x \<in> set t" for x
    proof -
      have "x \<in> set ?t" using x unfolding mem .
      then obtain i where "i < Suc n" "x = ?t ! i" unfolding in_set_conv_nth len by blast
      then show ?thesis using heap_root [OF Suc.prems(2)] Suc.prems(1) t(4) by (simp add: cmp_le_iff)
    qed
    have tn: "t ! n \<in> set ?t" unfolding mem [symmetric] using lt by (intro nth_mem) simp
    then have "sorted_wrt (\<lambda>x y. cmp x y \<le> 0) (drop n ?s)"
      unfolding dr using Suc.prems(3,4) by simp
    moreover have "cmp x y \<le> 0" if "x \<in> set (take n ?s)" "y \<in> set (drop n ?s)" for x y
    proof -
      have "x \<in> set t" using that(1) unfolding tk by (rule in_set_takeD)
      then have "cmp x (t ! n) \<le> 0" "\<forall>y \<in> set (drop (Suc n) s). cmp x y \<le> 0"
        using top mem Suc.prems(4) by blast+
      then show ?thesis using that(2) unfolding dr by auto
    qed
    ultimately obtain s' where "sort_heap_loop cmp ?s n = Some s'" "sorted_wrt (\<lambda>x y. cmp x y \<le> 0) s'"
      "mset s' = mset ?s"
      using Suc.IH [of ?s] hs lt by auto
    moreover have "mset ?s = mset s"
      using t(3) by (metis append_take_drop_id mset_append)
    ultimately show ?thesis using run False by auto
  qed
qed simp

lemma sort_heap_spec:
  assumes "heap_on cmp s (length s) 0"
  shows "\<exists>s'. tda_span_sort_heap cmp s = Some s' \<and> sorted_wrt (\<lambda>x y. cmp x y \<le> 0) s' \<and> mset s' = mset s"
  unfolding tda_span_sort_heap_def using assms by (intro sort_heap_loop_spec) auto

end

text \<open>Whatever the comparator answers, nothing stops and no element is lost.\<close>

lemma sift_down_loop_total:
  "n \<le> length s \<Longrightarrow> \<exists>s'. sift_down_loop s i n cmp = Some s' \<and> mset s' = mset s"
proof (induction "n - i" arbitrary: s i rule: less_induct)
  case less
  let ?l = "2 * i + 1" and ?r = "2 * i + 2"
  show ?case
  proof (cases "n \<le> ?l")
    case True
    then show ?thesis by (simp add: sift_down_loop.simps [of s i n cmp] tda_heap_left_def)
  next
    case False
    define b where "b = (if ?r < n \<and> \<not> cmp (s ! ?l) (s ! ?r) \<ge> 0 then ?r else ?l)"
    have b: "b < n" "i < b" using False by (auto simp: b_def)
    have step: "sift_down_loop s i n cmp =
      (if cmp (s ! i) (s ! b) \<ge> 0 then Some s else sift_down_loop (s[i := s ! b, b := s ! i]) b n cmp)"
      using False less.prems b by (auto simp: sift_down_loop.simps [of s i n cmp] tda_heap_left_def b_def Let_def)
    have "i < length s" "b < length s" using b less.prems by auto
    then show ?thesis
      using less.hyps [of b "s[i := s ! b, b := s ! i]"] b less.prems by (auto simp: step)
  qed
qed

lemma sift_down_total:
  "n \<le> length s \<Longrightarrow> \<exists>s'. tda_heap_sift_down s i n cmp = Some s' \<and> mset s' = mset s"
  by (simp add: tda_heap_sift_down_def sift_down_loop_total)

lemma make_heap_total: "\<exists>s'. tda_span_make_heap cmp s = Some s' \<and> mset s' = mset s"
proof -
  have "\<exists>s'. make_heap_loop s cmp i = Some s' \<and> mset s' = mset s" for i
  proof (induction i arbitrary: s)
    case (Suc i)
    obtain t where t: "tda_heap_sift_down s i (length s) cmp = Some t" "mset t = mset s"
      using sift_down_total [OF order_refl] by blast
    show ?case using Suc.IH [of t] t by simp
  qed simp
  then show ?thesis by (simp add: tda_span_make_heap_def)
qed

lemma pop_heap_total: "s \<noteq> [] \<Longrightarrow> \<exists>s'. tda_span_pop_heap cmp s = Some s' \<and> mset s' = mset s"
proof -
  assume ne: "s \<noteq> []"
  let ?s = "s[0 := s ! (length s - 1), length s - 1 := s ! 0]"
  obtain t where "tda_heap_sift_down ?s 0 (length s - 1) cmp = Some t" "mset t = mset ?s"
    using sift_down_total [of "length s - 1" ?s 0 cmp] by auto
  moreover have "mset ?s = mset s" using ne by simp
  ultimately show ?thesis using ne by (simp add: tda_span_pop_heap_def)
qed

lemma sort_heap_total: "\<exists>s'. tda_span_sort_heap cmp s = Some s' \<and> mset s' = mset s"
proof -
  have "n \<le> length s \<Longrightarrow> \<exists>s'. sort_heap_loop cmp s n = Some s' \<and> mset s' = mset s" for n
  proof (induction n arbitrary: s)
    case (Suc n)
    have "take (Suc n) s \<noteq> []" using Suc.prems by auto
    then obtain t where t: "tda_span_pop_heap cmp (take (Suc n) s) = Some t" "mset t = mset (take (Suc n) s)"
      using pop_heap_total by blast
    have w: "span_within s 0 (Suc n) (tda_span_pop_heap cmp) = Some (t @ drop (Suc n) s)"
      using span_within_eq [of 0 "Suc n" s] t(1) Suc.prems by simp
    have m: "mset (t @ drop (Suc n) s) = mset s"
      using t(2) by (metis append_take_drop_id mset_append)
    then have "n \<le> length (t @ drop (Suc n) s)" using Suc.prems mset_eq_length by fastforce
    then show ?case using Suc.IH [of "t @ drop (Suc n) s"] w m by auto
  qed simp
  then show ?thesis by (simp add: tda_span_sort_heap_def)
qed

lemma is_heap_until_loop_spec:
  assumes "0 < i" "heap_on cmp s (min i (length s)) 0"
  shows "\<exists>n. is_heap_until_loop s cmp i = Some n \<and> n \<le> length s \<and> heap_on cmp s n 0 \<and>
    (\<forall>k \<le> length s. heap_on cmp s k 0 \<longrightarrow> k \<le> n)"
  using assms
proof (induction s cmp i rule: is_heap_until_loop.induct)
  case (1 s cmp i)
  note eqn = is_heap_until_loop.simps [of s cmp i]
  show ?case
  proof (cases "i < length s")
    case True
    have hp: "hp i < length s" using True hp_less [OF "1.prems"(1)] by simp
    show ?thesis
    proof (cases "cmp (s ! hp i) (s ! i) \<ge> 0")
      case ge: True
      have "heap_on cmp s (min (i + 1) (length s)) 0"
        using "1.prems"(2) True ge by (auto simp: heap_on_def less_Suc_eq)
      then show ?thesis using "1.IH" [OF True, of "hp i" True] ge True hp "1.prems"(1) by (simp add: eqn)
    next
      case False
      then have "k \<le> i" if "heap_on cmp s k 0" for k
        using that "1.prems"(1) unfolding heap_on_def by (meson le0 linorder_not_le)
      then show ?thesis using False True hp "1.prems" by (simp add: eqn)
    qed
  next
    case False
    then have "is_heap_until_loop s cmp i = Some (length s)" by (simp add: eqn)
    then show ?thesis using "1.prems"(2) False by simp
  qed
qed

section \<open>Properties\<close>

text \<open>
  C6: make_heap builds a heap; push_heap and pop_heap keep it, and pop_heap moves a greatest
  element to the end. None of them loses an element.
\<close>

theorem heap_operations:
  assumes "total_cmp cmp"
  shows "(\<exists>h. tda_span_make_heap cmp s = Some h \<and> mset h = mset s \<and> heap_on cmp h (length h) 0) \<and>
    (s \<noteq> [] \<and> heap_on cmp s (length s - 1) 0 \<longrightarrow>
       (\<exists>h. tda_span_push_heap cmp s = Some h \<and> mset h = mset s \<and> heap_on cmp h (length h) 0)) \<and>
    (s \<noteq> [] \<and> heap_on cmp s (length s) 0 \<longrightarrow>
       (\<exists>h. tda_span_pop_heap cmp s = Some h \<and> mset h = mset s \<and>
          heap_on cmp h (length h - 1) 0 \<and> last h = s ! 0 \<and> (\<forall>x \<in> set s. cmp x (last h) \<le> 0)))"
proof -
  have len: "length h = length s" if "mset h = mset s" for h using that by (rule mset_eq_length)
  have "\<forall>x \<in> set s. cmp x (s ! 0) \<le> 0" if "heap_on cmp s (length s) 0"
    using total_cmp.heap_root [OF assms that] total_cmp.cmp_le_iff [OF assms]
    by (metis in_set_conv_nth)
  moreover have "last h = h ! (length s - 1)" if "s \<noteq> []" "mset h = mset s" for h
    using that len [of h] by (metis last_conv_nth mset_zero_iff_right)
  ultimately show ?thesis
    using total_cmp.make_heap_spec [OF assms, of s] total_cmp.push_heap_spec [OF assms, of s]
      total_cmp.pop_heap_spec [OF assms, of s] len by metis
qed

theorem heap_operations_witness:
  "\<exists>h. tda_span_pop_heap tda_cmp_i32 [9, 4, 7] = Some h \<and> last h = 9"
proof -
  have "tda_cmp_i32 9 4 \<ge> 0" "tda_cmp_i32 9 7 \<ge> 0" by code_simp+
  then have "heap_on tda_cmp_i32 [9, 4, 7] (length [9, 4, 7 :: 32 word]) 0"
    by (auto simp: heap_on_def less_Suc_eq)
  then show ?thesis using heap_operations [OF i32.total_cmp_axioms, of "[9, 4, 7]"] by auto
qed

lemma heap_sort_sorts:
  assumes "total_cmp cmp"
  shows "\<exists>h s'. tda_span_make_heap cmp s = Some h \<and> tda_span_sort_heap cmp h = Some s' \<and>
    sorted_wrt (\<lambda>x y. cmp x y \<le> 0) s' \<and> mset s' = mset s"
proof -
  obtain h where h: "tda_span_make_heap cmp s = Some h" "heap_on cmp h (length s) 0" "mset h = mset s"
    using total_cmp.make_heap_spec [OF assms, of s] by blast
  then have "heap_on cmp h (length h) 0" using mset_eq_length [OF h(3)] by simp
  then show ?thesis using total_cmp.sort_heap_spec [OF assms, of h] h by auto
qed

lemma is_heap_until_answers:
  "\<exists>n. tda_span_is_heap_until s cmp = Some n \<and> n \<le> length s \<and> heap_on cmp s n 0 \<and>
     (\<forall>k \<le> length s. heap_on cmp s k 0 \<longrightarrow> k \<le> n) \<and>
     tda_span_is_heap s cmp = Some (heap_on cmp s (length s) 0)"
proof -
  have "heap_on cmp s (min 1 (length s)) 0" by (simp add: heap_on_def)
  then obtain n where n: "tda_span_is_heap_until s cmp = Some n" "n \<le> length s" "heap_on cmp s n 0"
    "\<forall>k \<le> length s. heap_on cmp s k 0 \<longrightarrow> k \<le> n"
    using is_heap_until_loop_spec [of 1 cmp s] by (auto simp: tda_span_is_heap_until_def)
  then have "n = length s \<longleftrightarrow> heap_on cmp s (length s) 0" by (meson eq_iff order_refl)
  then show ?thesis using n by (auto simp: tda_span_is_heap_def)
qed

end
