(* ===== verification/Pqueue.thy ===== *)
theory Pqueue
  imports Vec Heap
begin

text \<open>
  \<open>ds/pqueue.h\<close> and \<open>ds/pqueue.c\<close>: a vec whose elements are kept a heap under the queue's comparator. The
  comparator with its context is one function, \<^term>\<open>None\<close> where the pointer is null. What the queue
  stands for is the multiset of its elements; the heap algorithms are those of \<open>Heap\<close>, on the
  elements the vec's span views.
\<close>

record 'e pqueue =
  pqvec :: "'e vec"
  pqcmp :: "('e \<Rightarrow> 'e \<Rightarrow> int) option"

definition ASSERT_PQUEUE :: "'e pqueue \<Rightarrow> unit option" where
  "ASSERT_PQUEUE q = do { chk (valloc (pqvec q) \<noteq> 0); chk (pqcmp q \<noteq> None) }"

definition EXPECT_SAME_PQUEUE :: "'e pqueue \<Rightarrow> 'f pqueue \<Rightarrow> unit option" where
  "EXPECT_SAME_PQUEUE a b = do {
     la \<leftarrow> tda_vec_elem_layout (pqvec a);
     lb \<leftarrow> tda_vec_elem_layout (pqvec b);
     chk (tda_layout_eq la lb)
   }"

definition pqueue_null :: "'e pqueue" where
  "pqueue_null = \<lparr>pqvec = vec_null, pqcmp = None\<rparr>"

text \<open>An algorithm run on the span of a vec, whose elements it reads as values.\<close>

definition vec_span_run :: "('e list \<Rightarrow> 'e list option) \<Rightarrow> 'e vec \<Rightarrow> 'e vec option" where
  "vec_span_run f v = do {
     s \<leftarrow> tda_vec_to_span v;
     xs \<leftarrow> cell_values s;
     ys \<leftarrow> f xs;
     d \<leftarrow> slots_put (vdata v) 0 (map Some ys);
     Some (v\<lparr>vdata := d\<rparr>)
   }"

section \<open>Lifetime\<close>

definition tda_pqueue_init :: "layout \<Rightarrow> ('e \<Rightarrow> 'e \<Rightarrow> int) option \<Rightarrow> al \<Rightarrow> 'e pqueue option" where
  "tda_pqueue_init elem cmp al = do {
     chk (tda_layout_is_type elem);
     chk (cmp \<noteq> None);
     chk (al \<noteq> 0);
     v \<leftarrow> tda_vec_init elem al;
     Some \<lparr>pqvec = v, pqcmp = cmp\<rparr>
   }"

definition tda_pqueue_init_cap ::
  "nat \<Rightarrow> layout \<Rightarrow> ('e \<Rightarrow> 'e \<Rightarrow> int) option \<Rightarrow> al \<Rightarrow> heap \<Rightarrow> ((tda_status + 'e pqueue) \<times> heap) option" where
  "tda_pqueue_init_cap cap elem cmp al h = do {
     chk (tda_layout_is_type elem);
     chk (cmp \<noteq> None);
     chk (al \<noteq> 0);
     (r, h) \<leftarrow> tda_vec_init_cap cap elem al h;
     case r of
       Inl st \<Rightarrow> Some (Inl st, h)
     | Inr v \<Rightarrow> Some (Inr \<lparr>pqvec = v, pqcmp = cmp\<rparr>, h)
   }"

definition tda_pqueue_from_data ::
  "'e slots \<Rightarrow> layout \<Rightarrow> ('e \<Rightarrow> 'e \<Rightarrow> int) option \<Rightarrow> al \<Rightarrow> heap \<Rightarrow> ((tda_status + 'e pqueue) \<times> heap) option" where
  "tda_pqueue_from_data data elem cmp al h = do {
     chk (tda_layout_is_type elem);
     c \<leftarrow> cmp;
     chk (al \<noteq> 0);
     (r, h) \<leftarrow> tda_vec_from_data data elem al h;
     case r of
       Inl st \<Rightarrow> Some (Inl st, h)
     | Inr v \<Rightarrow> do {
         v \<leftarrow> vec_span_run (tda_span_make_heap c) v;
         Some (Inr \<lparr>pqvec = v, pqcmp = cmp\<rparr>, h)
       }
   }"

definition tda_pqueue_from_span ::
  "'e slots \<Rightarrow> layout \<Rightarrow> ('e \<Rightarrow> 'e \<Rightarrow> int) option \<Rightarrow> al \<Rightarrow> heap \<Rightarrow> ((tda_status + 'e pqueue) \<times> heap) option" where
  "tda_pqueue_from_span s elem cmp al h = do {
     chk (tda_layout_is_type elem);
     chk (cmp \<noteq> None);
     chk (al \<noteq> 0);
     tda_pqueue_from_data s elem cmp al h
   }"

definition tda_pqueue_deinit :: "'e pqueue \<Rightarrow> heap \<Rightarrow> ('e pqueue \<times> heap) option" where
  "tda_pqueue_deinit q h = do { (v, h) \<leftarrow> tda_vec_deinit (pqvec q) h; Some (pqueue_null, h) }"

definition tda_pqueue_into_vec :: "'e pqueue \<Rightarrow> ('e vec \<times> 'e pqueue) option" where
  "tda_pqueue_into_vec q = do { ASSERT_PQUEUE q; Some (pqvec q, pqueue_null) }"

section \<open>Copy\<close>

definition tda_pqueue_copy_with :: "'e pqueue \<Rightarrow> al \<Rightarrow> heap \<Rightarrow> ((tda_status + 'e pqueue) \<times> heap) option" where
  "tda_pqueue_copy_with q al h = do {
     ASSERT_PQUEUE q;
     chk (al \<noteq> 0);
     (r, h) \<leftarrow> tda_vec_copy_with (pqvec q) al h;
     case r of
       Inl st \<Rightarrow> Some (Inl st, h)
     | Inr v \<Rightarrow> Some (Inr \<lparr>pqvec = v, pqcmp = pqcmp q\<rparr>, h)
   }"

definition tda_pqueue_copy :: "'e pqueue \<Rightarrow> heap \<Rightarrow> ((tda_status + 'e pqueue) \<times> heap) option" where
  "tda_pqueue_copy q h = do {
     ASSERT_PQUEUE q;
     al \<leftarrow> tda_vec_al (pqvec q);
     tda_pqueue_copy_with q al h
   }"

definition tda_pqueue_copy_assign ::
  "bool \<Rightarrow> 'e pqueue \<Rightarrow> 'e pqueue \<Rightarrow> heap \<Rightarrow> (tda_status \<times> 'e pqueue \<times> heap) option" where
  "tda_pqueue_copy_assign same q other h = do {
     ASSERT_PQUEUE q;
     ASSERT_PQUEUE other;
     EXPECT_SAME_PQUEUE q other;
     if same then Some (TDA_STATUS_OK, q, h)
     else do {
       (st, v, h) \<leftarrow> tda_vec_copy_assign False (pqvec q) (pqvec other) h;
       let q = q\<lparr>pqvec := v\<rparr>;
       if status_is_err st then Some (st, q, h)
       else do {
         let q = q\<lparr>pqcmp := pqcmp other\<rparr>;
         ASSERT_PQUEUE q;
         Some (TDA_STATUS_OK, q, h)
       }
     }
   }"

definition tda_pqueue_move_assign ::
  "bool \<Rightarrow> 'e pqueue \<Rightarrow> 'e pqueue \<Rightarrow> heap \<Rightarrow> ('e pqueue \<times> 'e pqueue \<times> heap) option" where
  "tda_pqueue_move_assign same q other h = do {
     ASSERT_PQUEUE other;
     (if valloc (pqvec q) \<noteq> 0 then do { ASSERT_PQUEUE q; EXPECT_SAME_PQUEUE q other } else Some ());
     if same then Some (q, other, h)
     else do {
       (v, w, h) \<leftarrow> tda_vec_move_assign False (pqvec q) (pqvec other) h;
       let q = q\<lparr>pqvec := v, pqcmp := pqcmp other\<rparr>;
       let other = other\<lparr>pqvec := w\<rparr>;
       ASSERT_PQUEUE q;
       ASSERT_PQUEUE other;
       Some (q, other, h)
     }
   }"

definition tda_pqueue_swap :: "bool \<Rightarrow> 'e pqueue \<Rightarrow> 'e pqueue \<Rightarrow> ('e pqueue \<times> 'e pqueue) option" where
  "tda_pqueue_swap same q other = do {
     ASSERT_PQUEUE q;
     ASSERT_PQUEUE other;
     EXPECT_SAME_PQUEUE q other;
     if same then Some (q, other) else Some (other, q)
   }"

section \<open>Access\<close>

definition tda_pqueue_len :: "'e pqueue \<Rightarrow> nat option" where
  "tda_pqueue_len q = do { chk (valloc (pqvec q) \<noteq> 0); tda_vec_len (pqvec q) }"

definition tda_pqueue_cap :: "'e pqueue \<Rightarrow> nat option" where
  "tda_pqueue_cap q = do { chk (valloc (pqvec q) \<noteq> 0); tda_vec_cap (pqvec q) }"

definition tda_pqueue_elem_layout :: "'e pqueue \<Rightarrow> layout option" where
  "tda_pqueue_elem_layout q = do { chk (valloc (pqvec q) \<noteq> 0); tda_vec_elem_layout (pqvec q) }"

definition tda_pqueue_al :: "'e pqueue \<Rightarrow> al option" where
  "tda_pqueue_al q = do { chk (valloc (pqvec q) \<noteq> 0); tda_vec_al (pqvec q) }"

definition tda_pqueue_cmp :: "'e pqueue \<Rightarrow> ('e \<Rightarrow> 'e \<Rightarrow> int) option option" where
  "tda_pqueue_cmp q = do { chk (valloc (pqvec q) \<noteq> 0); Some (pqcmp q) }"

definition tda_pqueue_to_span :: "'e pqueue \<Rightarrow> 'e slots option" where
  "tda_pqueue_to_span q = do { chk (valloc (pqvec q) \<noteq> 0); tda_vec_to_span (pqvec q) }"

text \<open>The index of the top, the front of the vec.\<close>

definition tda_pqueue_top :: "'e pqueue \<Rightarrow> nat option" where
  "tda_pqueue_top q = do {
     chk (valloc (pqvec q) \<noteq> 0);
     n \<leftarrow> tda_vec_len (pqvec q);
     chk (n > 0);
     tda_vec_front (pqvec q)
   }"

section \<open>Modifying\<close>

definition tda_pqueue_push :: "'e pqueue \<Rightarrow> 'e arg \<Rightarrow> heap \<Rightarrow> (tda_status \<times> 'e pqueue \<times> heap) option" where
  "tda_pqueue_push q val h = do {
     ASSERT_PQUEUE q;
     (st, v, h) \<leftarrow> tda_vec_push (pqvec q) val h;
     let q = q\<lparr>pqvec := v\<rparr>;
     if status_is_err st then Some (st, q, h)
     else do {
       cmp \<leftarrow> pqcmp q;
       v \<leftarrow> vec_span_run (tda_span_push_heap cmp) v;
       let q = q\<lparr>pqvec := v\<rparr>;
       ASSERT_PQUEUE q;
       Some (TDA_STATUS_OK, q, h)
     }
   }"

function push_heap_loop :: "('e \<Rightarrow> 'e \<Rightarrow> int) \<Rightarrow> nat \<Rightarrow> nat \<Rightarrow> 'e list \<Rightarrow> 'e list option" where
  "push_heap_loop cmp len all_len xs =
     (if len \<le> all_len then do {
        xs \<leftarrow> span_within xs 0 len (tda_span_push_heap cmp);
        push_heap_loop cmp (len + 1) all_len xs
      }
      else Some xs)"
  by pat_completeness auto
termination by (relation "measure (\<lambda>(cmp, len, all_len, xs). Suc all_len - len)") auto

declare push_heap_loop.simps [simp del]

definition tda_pqueue_extend ::
  "'e pqueue \<Rightarrow> 'e slots \<Rightarrow> layout \<Rightarrow> heap \<Rightarrow> (tda_status \<times> 'e pqueue \<times> heap) option" where
  "tda_pqueue_extend q src elem h = do {
     ASSERT_PQUEUE q;
     chk (tda_layout_is_type elem);
     l \<leftarrow> tda_vec_elem_layout (pqvec q);
     chk (tda_layout_eq l elem);
     old_len \<leftarrow> tda_vec_len (pqvec q);
     (st, v, h) \<leftarrow> tda_vec_extend (pqvec q) src elem h;
     let q = q\<lparr>pqvec := v\<rparr>;
     if status_is_err st then Some (st, q, h)
     else do {
       cmp \<leftarrow> pqcmp q;
       all_len \<leftarrow> tda_vec_len v;
       v \<leftarrow> vec_span_run (if all_len - old_len \<ge> old_len then tda_span_make_heap cmp
           else push_heap_loop cmp (old_len + 1) all_len) v;
       let q = q\<lparr>pqvec := v\<rparr>;
       ASSERT_PQUEUE q;
       Some (TDA_STATUS_OK, q, h)
     }
   }"

definition tda_pqueue_pop :: "'e pqueue \<Rightarrow> 'e pqueue option" where
  "tda_pqueue_pop q = do {
     ASSERT_PQUEUE q;
     n \<leftarrow> tda_vec_len (pqvec q);
     chk (n > 0);
     cmp \<leftarrow> pqcmp q;
     v \<leftarrow> vec_span_run (tda_span_pop_heap cmp) (pqvec q);
     v \<leftarrow> tda_vec_pop v;
     let q = q\<lparr>pqvec := v\<rparr>;
     ASSERT_PQUEUE q;
     Some q
   }"

definition tda_pqueue_pop_to :: "'e pqueue \<Rightarrow> ('e option \<times> 'e pqueue) option" where
  "tda_pqueue_pop_to q = do {
     ASSERT_PQUEUE q;
     n \<leftarrow> tda_vec_len (pqvec q);
     chk (n > 0);
     cmp \<leftarrow> pqcmp q;
     v \<leftarrow> vec_span_run (tda_span_pop_heap cmp) (pqvec q);
     (out, v) \<leftarrow> tda_vec_pop_to v;
     let q = q\<lparr>pqvec := v\<rparr>;
     ASSERT_PQUEUE q;
     Some (out, q)
   }"

definition tda_pqueue_replace_top :: "'e pqueue \<Rightarrow> 'e arg \<Rightarrow> 'e pqueue option" where
  "tda_pqueue_replace_top q val = do {
     ASSERT_PQUEUE q;
     n \<leftarrow> tda_vec_len (pqvec q);
     chk (n > 0);
     v \<leftarrow> tda_vec_set (pqvec q) 0 val;
     cmp \<leftarrow> pqcmp q;
     v \<leftarrow> vec_span_run (\<lambda>s. tda_heap_sift_down s 0 (length s) cmp) v;
     Some (q\<lparr>pqvec := v\<rparr>)
   }"

definition tda_pqueue_clear :: "'e pqueue \<Rightarrow> 'e pqueue option" where
  "tda_pqueue_clear q = do {
     ASSERT_PQUEUE q;
     v \<leftarrow> tda_vec_clear (pqvec q);
     let q = q\<lparr>pqvec := v\<rparr>;
     ASSERT_PQUEUE q;
     Some q
   }"

definition tda_pqueue_reserve :: "'e pqueue \<Rightarrow> nat \<Rightarrow> heap \<Rightarrow> (tda_status \<times> 'e pqueue \<times> heap) option" where
  "tda_pqueue_reserve q new_cap h = do {
     ASSERT_PQUEUE q;
     (st, v, h) \<leftarrow> tda_vec_reserve (pqvec q) new_cap h;
     let q = q\<lparr>pqvec := v\<rparr>;
     ASSERT_PQUEUE q;
     Some (st, q, h)
   }"

definition tda_pqueue_shrink_to_fit :: "'e pqueue \<Rightarrow> heap \<Rightarrow> (tda_status \<times> 'e pqueue \<times> heap) option" where
  "tda_pqueue_shrink_to_fit q h = do {
     ASSERT_PQUEUE q;
     (st, v, h) \<leftarrow> tda_vec_shrink_to_fit (pqvec q) h;
     let q = q\<lparr>pqvec := v\<rparr>;
     ASSERT_PQUEUE q;
     Some (st, q, h)
   }"

section \<open>The contract\<close>

definition pqueue_ok :: "'e pqueue \<Rightarrow> bool" where
  "pqueue_ok q \<longleftrightarrow> vec_ok (pqvec q) \<and> (\<exists>cmp xs. pqcmp q = Some cmp \<and> total_cmp cmp \<and>
     vec_cells (pqvec q) = map Some xs \<and> heap_on cmp xs (length xs) 0)"

text \<open>What the queue holds.\<close>

definition pqueue_elems :: "'e pqueue \<Rightarrow> 'e multiset" where
  "pqueue_elems q = mset (map the (vec_cells (pqvec q)))"

definition pqueue_view :: "'e pqueue \<Rightarrow> (layout, ('e \<Rightarrow> 'e \<Rightarrow> int) option \<times> 'e multiset) holder" where
  "pqueue_view q = \<lparr>hgood = pqueue_ok q, hkind = velem (pqvec q), hal = valloc (pqvec q),
     hblocks = vec_block (pqvec q), hval = (pqcmp q, pqueue_elems q)\<rparr>"

text \<open>\<open>x\<close> is an element of \<open>M\<close> that none is above.\<close>

definition top_of :: "('e \<Rightarrow> 'e \<Rightarrow> int) \<Rightarrow> 'e multiset \<Rightarrow> 'e \<Rightarrow> bool" where
  "top_of cmp M x \<longleftrightarrow> x \<in># M \<and> (\<forall>y \<in># M. 0 \<le> cmp x y)"

lemma pqueue_view_simps [simp]:
  "hgood (pqueue_view q) = pqueue_ok q" "hkind (pqueue_view q) = velem (pqvec q)"
  "hal (pqueue_view q) = valloc (pqvec q)" "hblocks (pqueue_view q) = vec_block (pqvec q)"
  "hval (pqueue_view q) = (pqcmp q, pqueue_elems q)"
  by (simp_all add: pqueue_view_def)

lemma held_by_pqueue: "held_by pqueue_view h q \<longleftrightarrow> pqueue_ok q \<and> vec_owns h (pqvec q)"
  by (simp add: held_by_def vec_owns_def)

lemma pqueue_okE:
  assumes "pqueue_ok q"
  obtains cmp xs where "pqcmp q = Some cmp" "total_cmp cmp" "vec_cells (pqvec q) = map Some xs"
    "heap_on cmp xs (length xs) 0" "pqueue_elems q = mset xs" "vec_ok (pqvec q)" "length xs = vlen (pqvec q)"
    "ASSERT_PQUEUE q = Some ()"
proof -
  obtain cmp xs where a: "pqcmp q = Some cmp" "total_cmp cmp" "vec_cells (pqvec q) = map Some xs"
    "heap_on cmp xs (length xs) 0" and v: "vec_ok (pqvec q)"
    using assms unfolding pqueue_ok_def by blast
  have "length xs = vlen (pqvec q)" using length_vec_cells [OF v] a(3) by simp
  moreover have "pqueue_elems q = mset xs" using a(3) by (simp add: pqueue_elems_def comp_def)
  moreover have "ASSERT_PQUEUE q = Some ()" using a(1) vec_okD(5) [OF v] by (simp add: ASSERT_PQUEUE_def)
  ultimately show ?thesis using a v that by blast
qed

lemma pqueue_len_pos:
  assumes "pqueue_ok q" "pqueue_elems q \<noteq> {#}"
  shows "0 < vlen (pqvec q)"
proof -
  obtain xs where "pqueue_elems q = mset xs" "length xs = vlen (pqvec q)" using assms(1) by (rule pqueue_okE)
  then show ?thesis using assms(2) by (cases xs) auto
qed

lemma pqueue_okI:
  assumes "vec_ok v" "vec_cells v = map Some xs" "total_cmp cmp" "heap_on cmp xs (length xs) 0"
  shows "pqueue_ok \<lparr>pqvec = v, pqcmp = Some cmp\<rparr>" "pqueue_elems \<lparr>pqvec = v, pqcmp = Some cmp\<rparr> = mset xs"
    "ASSERT_PQUEUE \<lparr>pqvec = v, pqcmp = Some cmp\<rparr> = Some ()"
  using assms vec_okD(5) [OF assms(1)] by (auto simp: pqueue_ok_def pqueue_elems_def comp_def ASSERT_PQUEUE_def)

lemma vec_span_run_ok:
  assumes "vec_ok v" "vec_cells v = map Some xs" "f xs = Some ys" "mset ys = mset xs"
  shows "\<exists>v'. vec_span_run f v = Some v' \<and> vec_ok v' \<and> vec_cells v' = map Some ys \<and> velem v' = velem v \<and>
    valloc v' = valloc v \<and> vcap v' = vcap v \<and> vlen v' = vlen v"
proof -
  note ok = vec_okD [OF assms(1)]
  have len: "length ys = vlen v"
    using length_vec_cells [OF assms(1)] assms(2) mset_eq_length [OF assms(4)] by simp
  let ?v = "v\<lparr>vdata := map Some ys @ drop (vlen v) (vdata v)\<rparr>"
  have "vec_span_run f v = Some ?v"
    using assms(2,3) ok(3-5) len
    by (simp add: vec_span_run_def tda_vec_to_span_def vec_cells_def slots_put_Some)
  moreover have "vec_ok ?v" using assms(1) ok(3,4) len by (simp add: vec_ok_def)
  moreover have "vec_cells ?v = map Some ys" using len by (simp add: vec_cells_def)
  ultimately show ?thesis by auto
qed

lemma vec_grown_same:
  assumes "vec_grown h v n st v1 h1" "vec_ok v2" "velem v2 = velem v1" "valloc v2 = valloc v1" "vcap v2 = vcap v1"
  shows "vec_grown h v n TDA_STATUS_OK v2 h1 \<or> st \<noteq> TDA_STATUS_OK"
  using assms by (auto simp: vec_grown_def vec_block_def)

lemma pqueue_does:
  assumes "vec_grown h (pqvec q) n TDA_STATUS_OK v h'" "pqcmp q = Some cmp" "total_cmp cmp"
    "vec_cells v = map Some xs" "heap_on cmp xs (length xs) 0" "M = mset xs"
  shows "call_does pqueue_view h q (Some (TDA_STATUS_OK, \<lparr>pqvec = v, pqcmp = Some cmp\<rparr>, h')) fits (pqcmp q, M)"
proof -
  have "vec_ok v" using assms(1) by (simp add: vec_grown_def)
  note q = pqueue_okI [OF this assms(4,3,5)]
  show ?thesis using assms(1,2,6) q by (intro doesI) (auto simp: call_grows_def vec_grown_def)
qed

lemma pqueue_refused:
  assumes "vec_grown h (pqvec q) n st v h'" "st \<noteq> TDA_STATUS_OK" "pqueue_ok q"
  shows "call_does pqueue_view h q (Some (st, q\<lparr>pqvec := v\<rparr>, h')) (lsize (velem (pqvec q)) * n \<le> SIZE_MAX) M"
  using assms by (intro does_refused) (auto simp: call_grows_def vec_grown_def)

lemma pqueue_edits:
  assumes "pqueue_ok q" "vec_ok v" "velem v = velem (pqvec q)" "valloc v = valloc (pqvec q)" "vcap v = vcap (pqvec q)"
    and "pqcmp q = Some cmp" "total_cmp cmp" "vec_cells v = map Some xs" "heap_on cmp xs (length xs) 0" "M = mset xs"
  shows "call_edits pqueue_view q (Some (q\<lparr>pqvec := v\<rparr>)) (pqcmp q, M)" "ASSERT_PQUEUE (q\<lparr>pqvec := v\<rparr>) = Some ()"
proof -
  have eq: "q\<lparr>pqvec := v\<rparr> = \<lparr>pqvec = v, pqcmp = Some cmp\<rparr>" using assms(6) by simp
  note q = pqueue_okI [OF assms(2,8,7,9)]
  show "call_edits pqueue_view q (Some (q\<lparr>pqvec := v\<rparr>)) (pqcmp q, M)"
    unfolding eq using assms q by (intro editsI) (simp_all add: pqueue_view_def vec_block_def)
  show "ASSERT_PQUEUE (q\<lparr>pqvec := v\<rparr>) = Some ()" unfolding eq by (rule q(3))
qed

text \<open>An algorithm that makes the elements of the vec a heap, after a call that may have grown it.\<close>

lemma pqueue_reheaps:
  assumes "held_by pqueue_view h q" "pqcmp q = Some cmp" "total_cmp cmp" "vec_grown h (pqvec q) n TDA_STATUS_OK v h'"
    and "vec_cells v = map Some xs" "f xs = Some ys" "heap_on cmp ys (length xs) 0" "mset ys = mset xs" "mset xs = M"
  shows "\<exists>v'. vec_span_run f v = Some v' \<and> ASSERT_PQUEUE (q\<lparr>pqvec := v'\<rparr>) = Some () \<and>
    call_does pqueue_view h q (Some (TDA_STATUS_OK, q\<lparr>pqvec := v'\<rparr>, h')) fits (pqcmp q, M)"
proof -
  have v: "vec_ok v" using assms(4) by (simp add: vec_grown_def)
  obtain v' where v': "vec_span_run f v = Some v'" "vec_ok v'" "vec_cells v' = map Some ys"
    "velem v' = velem v" "valloc v' = valloc v" "vcap v' = vcap v"
    using vec_span_run_ok [of v xs f ys] v assms(5,6,8) by blast
  have g: "vec_grown h (pqvec q) n TDA_STATUS_OK v' h'" using vec_grown_same [OF assms(4) v'(2,4-6)] by simp
  have hy: "heap_on cmp ys (length ys) 0" using assms(7) mset_eq_length [OF assms(8)] by simp
  have eq: "q\<lparr>pqvec := v'\<rparr> = \<lparr>pqvec = v', pqcmp = Some cmp\<rparr>" using assms(2) by simp
  have "M = mset ys" using assms(8,9) by simp
  then have "vec_span_run f v = Some v' \<and> ASSERT_PQUEUE (q\<lparr>pqvec := v'\<rparr>) = Some () \<and>
    call_does pqueue_view h q (Some (TDA_STATUS_OK, q\<lparr>pqvec := v'\<rparr>, h')) fits (pqcmp q, M)"
    unfolding eq using v'(1) pqueue_does [OF g assms(2,3) v'(3) hy] pqueue_okI(3) [OF v'(2,3) assms(3) hy] by simp
  then show ?thesis by blast
qed

lemma pqueue_push_ok:
  assumes "held_by pqueue_view h q" "vec_arg_ok (pqvec q) val" "vec_arg_val (pqvec q) val = Some x"
  shows "call_does pqueue_view h q (tda_pqueue_push q val h)
    (lsize (velem (pqvec q)) * (vlen (pqvec q) + 1) \<le> SIZE_MAX) (pqcmp q, add_mset x (pqueue_elems q))"
proof -
  have q: "pqueue_ok q" "vec_owns h (pqvec q)" using assms(1) by (simp_all add: held_by_pqueue)
  obtain cmp xs where c: "pqcmp q = Some cmp" "total_cmp cmp" and xs: "vec_cells (pqvec q) = map Some xs"
    "heap_on cmp xs (length xs) 0" "pqueue_elems q = mset xs" and v: "vec_ok (pqvec q)" and a: "ASSERT_PQUEUE q = Some ()"
    using q(1) by (rule pqueue_okE) blast
  obtain st v1 h1 where p: "tda_vec_push (pqvec q) val h = Some (st, v1, h1)"
    and g: "vec_grown h (pqvec q) (vlen (pqvec q) + 1) st v1 h1"
    and c1: "vec_cells v1 = (if st = TDA_STATUS_OK then vec_cells (pqvec q) @ [vec_arg_val (pqvec q) val] else vec_cells (pqvec q))"
    using vec_push_spec [OF v q(2) assms(2)] unfolding vec_does_def by blast
  show ?thesis
  proof (cases "st = TDA_STATUS_OK")
    case False
    then have "tda_pqueue_push q val h = Some (st, q\<lparr>pqvec := v1\<rparr>, h1)"
      using a p by (simp add: tda_pqueue_push_def status_is_err_iff)
    then show ?thesis using pqueue_refused [OF g False q(1)] by simp
  next
    case True
    have v1: "vec_ok v1" "vec_cells v1 = map Some (xs @ [x])" using g c1 True xs(1) assms(3) by (simp_all add: vec_grown_def)
    have "heap_on cmp (xs @ [x]) (length (xs @ [x]) - 1) 0"
      using xs(2) heap_on_cong [of "length xs" "xs @ [x]" xs cmp 0] by (simp add: nth_append)
    then obtain ys where ys: "tda_span_push_heap cmp (xs @ [x]) = Some ys" "heap_on cmp ys (length (xs @ [x])) 0"
      "mset ys = mset (xs @ [x])"
      using total_cmp.push_heap_spec [OF c(2), of "xs @ [x]"] by auto
    have m: "mset (xs @ [x]) = add_mset x (pqueue_elems q)" using xs(3) by simp
    obtain v' where r: "vec_span_run (tda_span_push_heap cmp) v1 = Some v'" "ASSERT_PQUEUE (q\<lparr>pqvec := v'\<rparr>) = Some ()"
      and d: "call_does pqueue_view h q (Some (TDA_STATUS_OK, q\<lparr>pqvec := v'\<rparr>, h1))
        (lsize (velem (pqvec q)) * (vlen (pqvec q) + 1) \<le> SIZE_MAX) (pqcmp q, add_mset x (pqueue_elems q))"
      using pqueue_reheaps [where f = "tda_span_push_heap cmp" and xs = "xs @ [x]", OF assms(1) c g [unfolded True] v1(2) ys m] by blast
    have "tda_pqueue_push q val h = Some (TDA_STATUS_OK, q\<lparr>pqvec := v'\<rparr>, h1)"
      using a p True c(1) r by (simp add: tda_pqueue_push_def)
    then show ?thesis using d by simp
  qed
qed

lemma push_heap_loop_ok:
  assumes "total_cmp cmp" "heap_on cmp xs (len - 1) 0" "0 < len" "len \<le> Suc (length xs)"
  shows "\<exists>ys. push_heap_loop cmp len (length xs) xs = Some ys \<and> heap_on cmp ys (length xs) 0 \<and> mset ys = mset xs"
  using assms(2-4)
proof (induction "Suc (length xs) - len" arbitrary: len xs)
  case 0
  then have "len = Suc (length xs)" by simp
  then show ?case using 0 by (simp add: push_heap_loop.simps [of _ "Suc (length xs)"])
next
  case (Suc m)
  then have le: "len \<le> length xs" by simp
  let ?t = "take len xs"
  have "heap_on cmp ?t (length ?t - 1) 0"
    using Suc.prems(1) le heap_on_cong [of "len - 1" ?t xs cmp 0] by simp
  moreover have "?t \<noteq> []" using Suc.prems(2) le by auto
  ultimately obtain zs where zs: "tda_span_push_heap cmp ?t = Some zs" "heap_on cmp zs (length ?t) 0" "mset zs = mset ?t"
    using total_cmp.push_heap_spec [OF assms(1), of ?t] by blast
  have lz: "length zs = len" using mset_eq_length [OF zs(3)] le by simp
  let ?xs = "zs @ drop len xs"
  have ms: "mset ?xs = mset xs" using zs(3) by (metis append_take_drop_id mset_append)
  have lx: "length ?xs = length xs" using mset_eq_length [OF ms] .
  have "heap_on cmp ?xs len 0"
    using zs(2) lz le heap_on_cong [of len ?xs zs cmp 0] by (simp add: nth_append)
  moreover have "m = Suc (length ?xs) - (len + 1)" "len + 1 \<le> Suc (length ?xs)"
    using Suc.hyps(2) lx le by simp_all
  ultimately obtain ys where "push_heap_loop cmp (len + 1) (length ?xs) ?xs = Some ys" "heap_on cmp ys (length ?xs) 0"
    "mset ys = mset ?xs"
    using Suc.hyps(1) [of ?xs "len + 1"] by (metis add_diff_cancel_right' zero_less_Suc Suc_eq_plus1)
  then show ?case
    using zs(1) le ms lx by (simp add: push_heap_loop.simps [of _ len] span_within_def)
qed


lemma pqueue_extend_ok:
  assumes "held_by pqueue_view h q" "src = map Some zs"
  shows "call_does pqueue_view h q (tda_pqueue_extend q src (velem (pqvec q)) h)
    (lsize (velem (pqvec q)) * (vlen (pqvec q) + length src) \<le> SIZE_MAX) (pqcmp q, pqueue_elems q + mset zs)"
proof -
  have q: "pqueue_ok q" "vec_owns h (pqvec q)" using assms(1) by (simp_all add: held_by_pqueue)
  obtain cmp xs where c: "pqcmp q = Some cmp" "total_cmp cmp" and xs: "vec_cells (pqvec q) = map Some xs"
    "heap_on cmp xs (length xs) 0" "pqueue_elems q = mset xs" and v: "vec_ok (pqvec q)"
    and l: "length xs = vlen (pqvec q)" and a: "ASSERT_PQUEUE q = Some ()"
    using q(1) by (rule pqueue_okE) blast
  obtain st v1 h1 where p: "tda_vec_extend (pqvec q) src (velem (pqvec q)) h = Some (st, v1, h1)"
    and g: "vec_grown h (pqvec q) (vlen (pqvec q) + length src) st v1 h1"
    and c1: "vec_cells v1 = (if st = TDA_STATUS_OK then vec_cells (pqvec q) @ src else vec_cells (pqvec q))"
    using vec_extend_spec [OF v q(2), of src] unfolding vec_does_def by blast
  note ok = a p vec_okD(1,5) [OF v]
  note eqs = tda_pqueue_extend_def tda_vec_elem_layout_def tda_layout_eq_def tda_vec_len_def
  show ?thesis
  proof (cases "st = TDA_STATUS_OK")
    case False
    then have "tda_pqueue_extend q src (velem (pqvec q)) h = Some (st, q\<lparr>pqvec := v1\<rparr>, h1)"
      using ok by (simp add: eqs status_is_err_iff)
    then show ?thesis using pqueue_refused [OF g False q(1)] by simp
  next
    case True
    let ?xs = "xs @ zs"
    let ?f = "if vlen v1 - vlen (pqvec q) \<ge> vlen (pqvec q) then tda_span_make_heap cmp
      else push_heap_loop cmp (vlen (pqvec q) + 1) (vlen v1)"
    have v1: "vec_cells v1 = map Some ?xs" "vec_ok v1" "valloc v1 \<noteq> 0"
      using g c1 True xs(1) assms(2) vec_okD(5) [of v1] by (simp_all add: vec_grown_def)
    have l1: "vlen v1 = length ?xs" using length_vec_cells [OF v1(2)] v1(1) by simp
    have "\<exists>ys. ?f ?xs = Some ys \<and> heap_on cmp ys (length ?xs) 0 \<and> mset ys = mset ?xs"
    proof (cases "vlen v1 - vlen (pqvec q) \<ge> vlen (pqvec q)")
      case True
      then show ?thesis using total_cmp.make_heap_spec [OF c(2), of ?xs] by simp
    next
      case False
      have "heap_on cmp ?xs (length xs + 1 - 1) 0"
        using xs(2) heap_on_cong [of "length xs" ?xs xs cmp 0] by (simp add: nth_append)
      moreover have "length xs + 1 \<le> Suc (length ?xs)" by simp
      ultimately show ?thesis using push_heap_loop_ok [OF c(2), of ?xs "length xs + 1"] False l l1 by simp
    qed
    then obtain ys where ys: "?f ?xs = Some ys" "heap_on cmp ys (length ?xs) 0" "mset ys = mset ?xs" by blast
    have m: "mset ?xs = pqueue_elems q + mset zs" using xs(3) by simp
    obtain v' where r: "vec_span_run ?f v1 = Some v'" "ASSERT_PQUEUE (q\<lparr>pqvec := v'\<rparr>) = Some ()"
      and d: "call_does pqueue_view h q (Some (TDA_STATUS_OK, q\<lparr>pqvec := v'\<rparr>, h1))
        (lsize (velem (pqvec q)) * (vlen (pqvec q) + length src) \<le> SIZE_MAX) (pqcmp q, pqueue_elems q + mset zs)"
      using pqueue_reheaps [where f = ?f and xs = ?xs, OF assms(1) c g [unfolded True] v1(1) ys m] by blast
    have "tda_pqueue_extend q src (velem (pqvec q)) h = Some (TDA_STATUS_OK, q\<lparr>pqvec := v'\<rparr>, h1)"
      using ok True c(1) r v1(3) by (simp add: eqs status_is_err_iff split del: if_split)
    then show ?thesis using d by simp
  qed
qed

lemma pqueue_reserve_ok:
  assumes "held_by pqueue_view h q"
  shows "call_does pqueue_view h q (tda_pqueue_reserve q n h) (lsize (velem (pqvec q)) * n \<le> SIZE_MAX) (pqcmp q, pqueue_elems q)"
    "call_does pqueue_view h q (tda_pqueue_shrink_to_fit q h)
      (lsize (velem (pqvec q)) * vlen (pqvec q) \<le> SIZE_MAX) (pqcmp q, pqueue_elems q)"
proof -
  have q: "pqueue_ok q" "vec_owns h (pqvec q)" using assms by (simp_all add: held_by_pqueue)
  obtain cmp xs where c: "pqcmp q = Some cmp" "total_cmp cmp" and xs: "vec_cells (pqvec q) = map Some xs"
    "heap_on cmp xs (length xs) 0" "pqueue_elems q = mset xs" and v: "vec_ok (pqvec q)" and a: "ASSERT_PQUEUE q = Some ()"
    using q(1) by (rule pqueue_okE) blast
  have grown: "call_does pqueue_view h q (do { (st, v, h) \<leftarrow> Some (st, v1, h1); let q = q\<lparr>pqvec := v\<rparr>;
      ASSERT_PQUEUE q; Some (st, q, h) }) (lsize (velem (pqvec q)) * k \<le> SIZE_MAX) (pqcmp q, pqueue_elems q)"
    if g: "vec_grown h (pqvec q) k st v1 h1" and cells: "vec_cells v1 = vec_cells (pqvec q)" for st v1 h1 k
  proof (cases "st = TDA_STATUS_OK")
    case False
    then have "v1 = pqvec q" using g by (simp add: vec_grown_def)
    then show ?thesis using pqueue_refused [OF g False q(1)] a by simp
  next
    case True
    have v1: "vec_ok v1" using g by (simp add: vec_grown_def)
    have eq: "q\<lparr>pqvec := v1\<rparr> = \<lparr>pqvec = v1, pqcmp = Some cmp\<rparr>" using c(1) by simp
    show ?thesis
      using pqueue_does [OF g [unfolded True] c cells [unfolded xs(1)] xs(2,3)]
        pqueue_okI(3) [OF v1 cells [unfolded xs(1)] c(2) xs(2)] True by (simp add: eq)
  qed
  obtain st v1 h1 where "tda_vec_reserve (pqvec q) n h = Some (st, v1, h1)" "vec_grown h (pqvec q) n st v1 h1"
    "vec_cells v1 = vec_cells (pqvec q)"
    using vec_reserve_spec [OF v q(2), of n] by (auto simp: vec_does_def split: if_splits)
  then show "call_does pqueue_view h q (tda_pqueue_reserve q n h) (lsize (velem (pqvec q)) * n \<le> SIZE_MAX) (pqcmp q, pqueue_elems q)"
    using grown a by (simp add: tda_pqueue_reserve_def)
  obtain st v1 h1 where "tda_vec_shrink_to_fit (pqvec q) h = Some (st, v1, h1)"
    "vec_grown h (pqvec q) (vlen (pqvec q)) st v1 h1" "vec_cells v1 = vec_cells (pqvec q)"
    using vec_shrink_spec [OF v q(2)] by blast
  then show "call_does pqueue_view h q (tda_pqueue_shrink_to_fit q h)
      (lsize (velem (pqvec q)) * vlen (pqvec q) \<le> SIZE_MAX) (pqcmp q, pqueue_elems q)"
    using grown a by (simp add: tda_pqueue_shrink_to_fit_def)
qed

lemma top_ofI:
  assumes "total_cmp cmp" "heap_on cmp xs (length xs) 0" "xs \<noteq> []"
  shows "top_of cmp (mset xs) (xs ! 0)"
  unfolding top_of_def
proof (intro conjI ballI)
  show "xs ! 0 \<in># mset xs" using assms(3) by simp
  fix y assume "y \<in># mset xs"
  then obtain i where "i < length xs" "y = xs ! i" by (auto simp: in_set_conv_nth)
  then show "0 \<le> cmp (xs ! 0) y" using total_cmp.heap_root [OF assms(1,2)] by simp
qed

lemma pqueue_top_ok:
  assumes "pqueue_ok q" "pqueue_elems q \<noteq> {#}"
  shows "\<exists>cmp x i. pqcmp q = Some cmp \<and> tda_pqueue_top q = Some i \<and> i < vlen (pqvec q) \<and>
    vec_cells (pqvec q) ! i = Some x \<and> top_of cmp (pqueue_elems q) x"
proof -
  obtain cmp xs where c: "pqcmp q = Some cmp" "total_cmp cmp" and xs: "vec_cells (pqvec q) = map Some xs"
    "heap_on cmp xs (length xs) 0" "pqueue_elems q = mset xs" and v: "vec_ok (pqvec q)" and l: "length xs = vlen (pqvec q)"
    using assms(1) by (rule pqueue_okE) blast
  have ne: "xs \<noteq> []" using assms(2) xs(3) by auto
  then have "tda_pqueue_top q = Some 0"
    using pqueue_len_pos [OF assms] vec_okD(5) [OF v] by (simp add: tda_pqueue_top_def tda_vec_len_def tda_vec_front_def)
  moreover have "vec_cells (pqvec q) ! 0 = Some (xs ! 0)" using xs(1) ne by simp
  ultimately show ?thesis using pqueue_len_pos [OF assms] c(1) top_ofI [OF c(2) xs(2) ne] xs(3) by auto
qed

text \<open>The heap is popped in place, and the vec lets go of its last element, the one that was the top.\<close>

lemma pqueue_popped:
  assumes "pqueue_ok q" "pqueue_elems q \<noteq> {#}"
  shows "\<exists>cmp x v. pqcmp q = Some cmp \<and> top_of cmp (pqueue_elems q) x \<and> vec_ok v \<and> 0 < vlen v \<and>
    vec_span_run (tda_span_pop_heap cmp) (pqvec q) = Some v \<and> last (vec_cells v) = Some x \<and>
    (\<forall>v'. vec_edits v (Some v') (butlast (vec_cells v)) \<longrightarrow>
       call_edits pqueue_view q (Some (q\<lparr>pqvec := v'\<rparr>)) (pqcmp q, pqueue_elems q - {#x#}) \<and>
       ASSERT_PQUEUE (q\<lparr>pqvec := v'\<rparr>) = Some ())"
proof -
  obtain cmp xs where c: "pqcmp q = Some cmp" "total_cmp cmp" and xs: "vec_cells (pqvec q) = map Some xs"
    "heap_on cmp xs (length xs) 0" "pqueue_elems q = mset xs" and v: "vec_ok (pqvec q)" and l: "length xs = vlen (pqvec q)"
    using assms(1) by (rule pqueue_okE) blast
  have ne: "xs \<noteq> []" using assms(2) xs(3) by auto
  obtain ys where ys: "tda_span_pop_heap cmp xs = Some ys" "heap_on cmp ys (length xs - 1) 0" "mset ys = mset xs"
    "ys ! (length xs - 1) = xs ! 0"
    using total_cmp.pop_heap_spec [OF c(2) ne xs(2)] by blast
  have ly: "length ys = length xs" using mset_eq_length [OF ys(3)] .
  obtain v1 where v1: "vec_span_run (tda_span_pop_heap cmp) (pqvec q) = Some v1" "vec_ok v1" "vec_cells v1 = map Some ys"
    "velem v1 = velem (pqvec q)" "valloc v1 = valloc (pqvec q)" "vcap v1 = vcap (pqvec q)" "vlen v1 = vlen (pqvec q)"
    using vec_span_run_ok [where f = "tda_span_pop_heap cmp", OF v xs(1) ys(1,3)] by blast
  have ney: "ys \<noteq> []" using ne ly by auto
  have lasty: "last ys = xs ! 0" using ney ly ys(4) by (simp add: last_conv_nth)
  have my: "mset (butlast ys) = pqueue_elems q - {#xs ! 0#}"
    using ys(3) xs(3) lasty append_butlast_last_id [OF ney] by (metis add_mset_remove_trivial mset.simps mset_append
        union_mset_add_mset_right add.right_neutral)
  have hy: "heap_on cmp (butlast ys) (length (butlast ys)) 0"
    using ys(2) ly heap_on_cong [of "length ys - 1" "butlast ys" ys cmp 0] by (simp add: nth_butlast)
  have "call_edits pqueue_view q (Some (q\<lparr>pqvec := v'\<rparr>)) (pqcmp q, pqueue_elems q - {#xs ! 0#}) \<and>
      ASSERT_PQUEUE (q\<lparr>pqvec := v'\<rparr>) = Some ()" if e: "vec_edits v1 (Some v') (butlast (vec_cells v1))" for v'
  proof -
    have "vec_ok v'" "velem v' = velem (pqvec q)" "valloc v' = valloc (pqvec q)" "vcap v' = vcap (pqvec q)"
      "vec_cells v' = map Some (butlast ys)"
      using e v1(3-6) by (simp_all add: vec_edits_def map_butlast)
    then show ?thesis using pqueue_edits [OF assms(1) _ _ _ _ c _ hy my [symmetric]] by blast
  qed
  moreover have "last (vec_cells v1) = Some (xs ! 0)" using v1(3) ney lasty by (simp add: last_map)
  moreover have "0 < vlen v1" using v1(7) l ne by (metis length_greater_0_conv)
  ultimately show ?thesis using c(1) v1(1,2) top_ofI [OF c(2) xs(2) ne] xs(3) by metis
qed

lemma pqueue_pop_ok:
  assumes "pqueue_ok q" "pqueue_elems q \<noteq> {#}"
  shows "\<exists>cmp x. pqcmp q = Some cmp \<and> top_of cmp (pqueue_elems q) x \<and>
    call_edits pqueue_view q (tda_pqueue_pop q) (pqcmp q, pqueue_elems q - {#x#})"
    "\<exists>cmp x q'. pqcmp q = Some cmp \<and> top_of cmp (pqueue_elems q) x \<and> tda_pqueue_pop_to q = Some (Some x, q') \<and>
       call_edits pqueue_view q (Some q') (pqcmp q, pqueue_elems q - {#x#})"
proof -
  obtain cmp x v where c: "pqcmp q = Some cmp" "top_of cmp (pqueue_elems q) x" and v: "vec_ok v" "0 < vlen v"
    and r: "vec_span_run (tda_span_pop_heap cmp) (pqvec q) = Some v" "last (vec_cells v) = Some x"
    and e: "\<And>v'. vec_edits v (Some v') (butlast (vec_cells v)) \<Longrightarrow>
       call_edits pqueue_view q (Some (q\<lparr>pqvec := v'\<rparr>)) (pqcmp q, pqueue_elems q - {#x#}) \<and>
       ASSERT_PQUEUE (q\<lparr>pqvec := v'\<rparr>) = Some ()"
    using pqueue_popped [OF assms] by blast
  have a: "ASSERT_PQUEUE q = Some ()" and n: "0 < vlen (pqvec q)" "valloc (pqvec q) \<noteq> 0"
    using assms vec_okD(5) [of "pqvec q"] pqueue_len_pos [OF assms] by (auto elim!: pqueue_okE)
  obtain v1 where v1: "tda_vec_pop v = Some v1" "vec_edits v (Some v1) (butlast (vec_cells v))"
    using vec_pop_spec [OF v] by (auto simp: vec_edits_def)
  have "tda_pqueue_pop q = Some (q\<lparr>pqvec := v1\<rparr>)"
    using a n c(1) r(1) v1(1) e [OF v1(2)] by (simp add: tda_pqueue_pop_def tda_vec_len_def)
  then show "\<exists>cmp x. pqcmp q = Some cmp \<and> top_of cmp (pqueue_elems q) x \<and>
    call_edits pqueue_view q (tda_pqueue_pop q) (pqcmp q, pqueue_elems q - {#x#})"
    using c e [OF v1(2)] by auto
  obtain v2 where v2: "tda_vec_pop_to v = Some (last (vec_cells v), v2)" "vec_edits v (Some v2) (butlast (vec_cells v))"
    using vec_pop_to_spec [OF v] by blast
  have "tda_pqueue_pop_to q = Some (Some x, q\<lparr>pqvec := v2\<rparr>)"
    using a n c(1) r v2(1) e [OF v2(2)] by (simp add: tda_pqueue_pop_to_def tda_vec_len_def)
  then show "\<exists>cmp x q'. pqcmp q = Some cmp \<and> top_of cmp (pqueue_elems q) x \<and> tda_pqueue_pop_to q = Some (Some x, q') \<and>
       call_edits pqueue_view q (Some q') (pqcmp q, pqueue_elems q - {#x#})"
    using c e [OF v2(2)] by blast
qed

lemma pqueue_replace_ok:
  assumes "pqueue_ok q" "pqueue_elems q \<noteq> {#}" "vec_arg_ok (pqvec q) val" "vec_arg_val (pqvec q) val = Some y"
  shows "\<exists>cmp x. pqcmp q = Some cmp \<and> top_of cmp (pqueue_elems q) x \<and>
    call_edits pqueue_view q (tda_pqueue_replace_top q val) (pqcmp q, add_mset y (pqueue_elems q - {#x#}))"
proof -
  obtain cmp xs where c: "pqcmp q = Some cmp" "total_cmp cmp" and xs: "vec_cells (pqvec q) = map Some xs"
    "heap_on cmp xs (length xs) 0" "pqueue_elems q = mset xs" and v: "vec_ok (pqvec q)" and l: "length xs = vlen (pqvec q)"
    and a: "ASSERT_PQUEUE q = Some ()"
    using assms(1) by (rule pqueue_okE) blast
  note n = pqueue_len_pos [OF assms(1,2)]
  have ne: "xs \<noteq> []" using n l by auto
  obtain v1 where v1: "tda_vec_set (pqvec q) 0 val = Some v1" "vec_ok v1" "velem v1 = velem (pqvec q)"
    "valloc v1 = valloc (pqvec q)" "vcap v1 = vcap (pqvec q)" "vec_cells v1 = map Some (xs[0 := y])"
    using vec_set_spec [OF v assms(3) n] assms(4) xs(1) by (auto simp: vec_edits_def map_update)
  let ?xs = "xs[0 := y]"
  have "almost_down cmp ?xs (length ?xs) 0 0"
  proof (rule almost_downI)
    fix c assume "0 < c" "c < length ?xs" "0 \<le> hp c" "hp c \<noteq> 0"
    moreover from this have "0 \<le> cmp (xs ! hp c) (xs ! c)" using xs(2) by (simp add: heap_on_def)
    ultimately show "0 \<le> cmp (?xs ! hp c) (?xs ! c)" by simp
  qed simp
  then obtain ys where ys: "tda_heap_sift_down ?xs 0 (length ?xs) cmp = Some ys" "heap_on cmp ys (length ?xs) 0"
    "mset ys = mset ?xs" "length ys = length ?xs"
    using total_cmp.sift_down_spec [OF c(2), of "length ?xs" ?xs 0 0] by auto
  obtain v2 where v2: "vec_span_run (\<lambda>s. tda_heap_sift_down s 0 (length s) cmp) v1 = Some v2" "vec_ok v2"
    "vec_cells v2 = map Some ys" "velem v2 = velem v1" "valloc v2 = valloc v1" "vcap v2 = vcap v1"
    using vec_span_run_ok [where f = "\<lambda>s. tda_heap_sift_down s 0 (length s) cmp", OF v1(2,6) ys(1,3)] by blast
  have m: "mset ys = add_mset y (pqueue_elems q - {#xs ! 0#})"
    using ys(3) ne xs(3) by (simp add: mset_update)
  have "tda_pqueue_replace_top q val = Some (q\<lparr>pqvec := v2\<rparr>)"
    using a n vec_okD(5) [OF v] c(1) v1(1) v2(1) by (simp add: tda_pqueue_replace_top_def tda_vec_len_def)
  moreover have "call_edits pqueue_view q (Some (q\<lparr>pqvec := v2\<rparr>)) (pqcmp q, add_mset y (pqueue_elems q - {#xs ! 0#}))"
    using pqueue_edits(1) [OF assms(1) v2(2) _ _ _ c v2(3)] v2(4-6) v1(3-5) ys(2,4) m by simp
  ultimately show ?thesis using c(1) top_ofI [OF c(2) xs(2) ne] xs(3) by auto
qed

lemma heap_on_Nil [simp]: "heap_on cmp [] 0 0"
  by (simp add: heap_on_def)

lemma pqueue_clear_ok:
  assumes "pqueue_ok q"
  shows "call_edits pqueue_view q (tda_pqueue_clear q) (pqcmp q, {#})"
proof -
  obtain cmp where c: "pqcmp q = Some cmp" "total_cmp cmp" and v: "vec_ok (pqvec q)" and a: "ASSERT_PQUEUE q = Some ()"
    using assms by (rule pqueue_okE) blast
  obtain v1 where v1: "tda_vec_clear (pqvec q) = Some v1" "vec_ok v1" "velem v1 = velem (pqvec q)"
    "valloc v1 = valloc (pqvec q)" "vcap v1 = vcap (pqvec q)" "vec_cells v1 = map Some []"
    using vec_clear_spec [OF v] by (auto simp: vec_edits_def)
  show ?thesis
    using pqueue_edits [OF assms v1(2-5) c v1(6) _ refl] v1(1) a by (simp add: tda_pqueue_clear_def)
qed

lemma pqueue_deinit_ok: "held_by pqueue_view h q \<Longrightarrow> call_ends pqueue_view h q (tda_pqueue_deinit q h)"
  using vec_deinit_spec [of "pqvec q" h]
  by (auto simp: held_by_pqueue call_ends_def tda_pqueue_deinit_def pqueue_ok_def)

text \<open>Made from elements in any order: the vec of them, then made a heap.\<close>

lemma pqueue_made:
  assumes "vec_ok v" "vec_cells v = map Some xs" "total_cmp cmp"
  shows "\<exists>v'. vec_span_run (tda_span_make_heap cmp) v = Some v' \<and> pqueue_ok \<lparr>pqvec = v', pqcmp = Some cmp\<rparr> \<and>
    pqueue_elems \<lparr>pqvec = v', pqcmp = Some cmp\<rparr> = mset xs \<and> velem v' = velem v \<and> valloc v' = valloc v \<and>
    vec_block v' = vec_block v"
proof -
  obtain ys where ys: "tda_span_make_heap cmp xs = Some ys" "heap_on cmp ys (length xs) 0" "mset ys = mset xs"
    using total_cmp.make_heap_spec [OF assms(3)] by blast
  obtain v' where v': "vec_span_run (tda_span_make_heap cmp) v = Some v'" "vec_ok v'" "vec_cells v' = map Some ys"
    "velem v' = velem v" "valloc v' = valloc v" "vcap v' = vcap v"
    using vec_span_run_ok [where f = "tda_span_make_heap cmp", OF assms(1,2) ys(1,3)] by blast
  have "heap_on cmp ys (length ys) 0" using ys(2) mset_eq_length [OF ys(3)] by simp
  then show ?thesis using v' pqueue_okI [OF v'(2,3) assms(3)] ys(3) by (simp add: vec_block_def)
qed

lemma pqueue_from_data_ok:
  assumes "tda_layout_is_type elem" "al \<noteq> 0" "total_cmp cmp" "data = map Some xs"
  shows "call_makes pqueue_view h al elem (tda_pqueue_from_data data elem (Some cmp) al h)
    (lsize elem * length data \<le> SIZE_MAX) (Some cmp, mset xs)"
proof -
  have mk: "call_makes vec_view h al elem (tda_vec_from_data data elem al h) (lsize elem * length data \<le> SIZE_MAX) data"
    using vec_makes_call [OF vec_from_data_spec [OF assms(1,2)]] .
  then obtain res h' where r: "tda_vec_from_data data elem al h = Some (res, h')" by (auto simp: call_makes_def)
  show ?thesis
  proof (cases res)
    case (Inl st)
    then show ?thesis using mk r assms(1,2) by (simp add: tda_pqueue_from_data_def call_makes_def)
  next
    case (Inr v)
    then have v: "vec_ok v" "vec_cells v = map Some xs" "velem v = elem" "valloc v = al"
      "requests h al {#} (vec_block v) True h'"
      using mk r assms(4) by (auto simp: call_makes_def)
    obtain v' where v': "vec_span_run (tda_span_make_heap cmp) v = Some v'" "pqueue_ok \<lparr>pqvec = v', pqcmp = Some cmp\<rparr>"
      "pqueue_elems \<lparr>pqvec = v', pqcmp = Some cmp\<rparr> = mset xs" "velem v' = velem v" "valloc v' = valloc v"
      "vec_block v' = vec_block v"
      using pqueue_made [OF v(1,2) assms(3)] by blast
    have "tda_pqueue_from_data data elem (Some cmp) al h = Some (Inr \<lparr>pqvec = v', pqcmp = Some cmp\<rparr>, h')"
      using r Inr v'(1) assms(1,2) by (simp add: tda_pqueue_from_data_def)
    then show ?thesis using v v' by (auto intro!: makesI)
  qed
qed

lemma pqueue_copy_ok:
  assumes "pqueue_ok q" "al \<noteq> 0"
  shows "call_makes pqueue_view h al (velem (pqvec q)) (tda_pqueue_copy_with q al h)
    (lsize (velem (pqvec q)) * vlen (pqvec q) \<le> SIZE_MAX) (pqcmp q, pqueue_elems q)"
proof -
  obtain cmp xs where c: "pqcmp q = Some cmp" "total_cmp cmp" and xs: "vec_cells (pqvec q) = map Some xs"
    "heap_on cmp xs (length xs) 0" "pqueue_elems q = mset xs" and v: "vec_ok (pqvec q)" and a: "ASSERT_PQUEUE q = Some ()"
    using assms(1) by (rule pqueue_okE) blast
  note mk = vec_makes_call [OF vec_copy_with_spec [OF v assms(2)], of h]
  then obtain res h' where r: "tda_vec_copy_with (pqvec q) al h = Some (res, h')" by (auto simp: call_makes_def)
  show ?thesis
  proof (cases res)
    case (Inl st)
    then show ?thesis using mk r a assms(2) by (simp add: tda_pqueue_copy_with_def call_makes_def)
  next
    case (Inr w)
    then have w: "vec_ok w" "vec_cells w = map Some xs" "velem w = velem (pqvec q)" "valloc w = al"
      "requests h al {#} (vec_block w) True h'"
      using mk r xs(1) by (auto simp: call_makes_def)
    have "tda_pqueue_copy_with q al h = Some (Inr \<lparr>pqvec = w, pqcmp = Some cmp\<rparr>, h')"
      using r Inr a assms(2) c(1) by (simp add: tda_pqueue_copy_with_def)
    then show ?thesis using w pqueue_okI(1,2) [OF w(1,2) c(2) xs(2)] c(1) xs(3) by (auto intro!: makesI)
  qed
qed

lemma pqueue_copy_assign_ok:
  assumes "held_by pqueue_view h q" "pqueue_ok r" "velem (pqvec r) = velem (pqvec q)"
  shows "call_does pqueue_view h q (tda_pqueue_copy_assign False q r h)
    (lsize (velem (pqvec q)) * vlen (pqvec r) \<le> SIZE_MAX) (pqcmp r, pqueue_elems r)"
proof -
  have q: "pqueue_ok q" "vec_owns h (pqvec q)" using assms(1) by (simp_all add: held_by_pqueue)
  have v: "vec_ok (pqvec q)" and a: "ASSERT_PQUEUE q = Some ()" using q(1) by (auto elim: pqueue_okE)
  obtain cmp xs where c: "pqcmp r = Some cmp" "total_cmp cmp" and xs: "vec_cells (pqvec r) = map Some xs"
    "heap_on cmp xs (length xs) 0" "pqueue_elems r = mset xs" and w: "vec_ok (pqvec r)" and ar: "ASSERT_PQUEUE r = Some ()"
    using assms(2) by (rule pqueue_okE) blast
  obtain st v1 h1 where p: "tda_vec_copy_assign False (pqvec q) (pqvec r) h = Some (st, v1, h1)"
    and g: "vec_grown h (pqvec q) (vlen (pqvec r)) st v1 h1"
    and c1: "vec_cells v1 = (if st = TDA_STATUS_OK then vec_cells (pqvec r) else vec_cells (pqvec q))"
    using vec_copy_assign_spec [OF v q(2) w assms(3), where same = False] unfolding vec_does_def by auto
  have same: "EXPECT_SAME_PQUEUE q r = Some ()"
    using assms(3) vec_okD(1,5) [OF v] vec_okD(1,5) [OF w]
    by (simp add: EXPECT_SAME_PQUEUE_def tda_vec_elem_layout_def tda_layout_eq_def)
  show ?thesis
  proof (cases "st = TDA_STATUS_OK")
    case False
    then have "tda_pqueue_copy_assign False q r h = Some (st, q\<lparr>pqvec := v1\<rparr>, h1)"
      using a ar same p by (simp add: tda_pqueue_copy_assign_def status_is_err_iff)
    then show ?thesis using pqueue_refused [OF g False q(1)] by simp
  next
    case True
    have v1: "vec_ok v1" "vec_cells v1 = map Some xs" using g c1 True xs(1) by (simp_all add: vec_grown_def)
    note n = pqueue_okI [OF v1 c(2) xs(2)]
    have eq: "q\<lparr>pqvec := v1, pqcmp := Some cmp\<rparr> = \<lparr>pqvec = v1, pqcmp = Some cmp\<rparr>" by simp
    have "tda_pqueue_copy_assign False q r h = Some (TDA_STATUS_OK, \<lparr>pqvec = v1, pqcmp = Some cmp\<rparr>, h1)"
      using a ar same p True c(1) n(3) by (simp add: tda_pqueue_copy_assign_def eq)
    moreover have "call_grows pqueue_view h q (lsize (velem (pqvec q)) * vlen (pqvec r) \<le> SIZE_MAX) TDA_STATUS_OK
        \<lparr>pqvec = v1, pqcmp = Some cmp\<rparr> h1"
      using g True n(1) by (simp add: call_grows_def vec_grown_def)
    ultimately show ?thesis using n(2) c(1) xs(3) by (simp add: call_does_def)
  qed
qed

text \<open>One call on a queue. The program never writes through \<open>top\<close>: the comparator has to keep its order.\<close>

inductive pqueue_step :: "heap \<times> 'e pqueue \<Rightarrow> heap \<times> 'e pqueue \<Rightarrow> bool" where
  pq_push: "vec_arg_ok (pqvec q) val \<Longrightarrow> vec_arg_val (pqvec q) val = Some x \<Longrightarrow>
    tda_pqueue_push q val h = Some (st, q', h') \<Longrightarrow> pqueue_step (h, q) (h', q')"
| pq_extend: "src = map Some zs \<Longrightarrow> tda_pqueue_extend q src (velem (pqvec q)) h = Some (st, q', h') \<Longrightarrow>
    pqueue_step (h, q) (h', q')"
| pq_reserve: "tda_pqueue_reserve q n h = Some (st, q', h') \<Longrightarrow> pqueue_step (h, q) (h', q')"
| pq_shrink: "tda_pqueue_shrink_to_fit q h = Some (st, q', h') \<Longrightarrow> pqueue_step (h, q) (h', q')"
| pq_assign: "pqueue_ok r \<Longrightarrow> velem (pqvec r) = velem (pqvec q) \<Longrightarrow>
    tda_pqueue_copy_assign False q r h = Some (st, q', h') \<Longrightarrow> pqueue_step (h, q) (h', q')"
| pq_pop: "pqueue_elems q \<noteq> {#} \<Longrightarrow> tda_pqueue_pop q = Some q' \<Longrightarrow> pqueue_step (h, q) (h, q')"
| pq_pop_to: "pqueue_elems q \<noteq> {#} \<Longrightarrow> tda_pqueue_pop_to q = Some (out, q') \<Longrightarrow> pqueue_step (h, q) (h, q')"
| pq_replace: "pqueue_elems q \<noteq> {#} \<Longrightarrow> vec_arg_ok (pqvec q) val \<Longrightarrow> vec_arg_val (pqvec q) val = Some y \<Longrightarrow>
    tda_pqueue_replace_top q val = Some q' \<Longrightarrow> pqueue_step (h, q) (h, q')"
| pq_clear: "tda_pqueue_clear q = Some q' \<Longrightarrow> pqueue_step (h, q) (h, q')"

lemmas pqueue_call_specs = pqueue_push_ok pqueue_extend_ok pqueue_copy_assign_ok

lemma holds_since_pqueue: "holds_since pqueue_view h0 (h, q) \<Longrightarrow> pqueue_ok q"
  by (simp add: holds_since_def)

lemma pqueue_step_holds: "pqueue_step s t \<Longrightarrow> holds_since pqueue_view h0 s \<Longrightarrow> holds_since pqueue_view h0 t"
proof (induction rule: pqueue_step.induct)
  case (pq_pop q q' h)
  then obtain M where "call_edits pqueue_view q (tda_pqueue_pop q) M"
    using pqueue_pop_ok(1) [OF holds_since_pqueue [OF pq_pop(3)] pq_pop(1)] by blast
  then show ?case by (rule holds_edits [OF pq_pop(2,3)])
next
  case (pq_pop_to q out q' h)
  then obtain M where "call_edits pqueue_view q (Some q') M"
    using pqueue_pop_ok(2) [OF holds_since_pqueue [OF pq_pop_to(3)] pq_pop_to(1)] by auto
  then show ?case by (rule holds_edits [OF refl pq_pop_to(3)])
next
  case (pq_replace q val y q' h)
  then obtain M where "call_edits pqueue_view q (tda_pqueue_replace_top q val) M"
    using pqueue_replace_ok [OF holds_since_pqueue [OF pq_replace(5)] pq_replace(1-3)] by blast
  then show ?case by (rule holds_edits [OF pq_replace(4,5)])
next
  case (pq_clear q q' h)
  show ?case by (rule holds_edits [OF pq_clear pqueue_clear_ok [OF holds_since_pqueue [OF pq_clear(2)]]])
next
  case (pq_reserve q n h st q' h')
  show ?case by (rule holds_does [OF pq_reserve pqueue_reserve_ok(1) [OF holds_held [OF pq_reserve(2)]]])
next
  case (pq_shrink q h st q' h')
  show ?case by (rule holds_does [OF pq_shrink pqueue_reserve_ok(2) [OF holds_held [OF pq_shrink(2)]]])
qed ((erule (1) holds_does, rule pqueue_call_specs; blast intro: holds_held)+)

interpretation pqueue: container pqueue_view pqueue_step tda_pqueue_deinit
  by unfold_locales (fact pqueue_step_holds, fact pqueue_deinit_ok)

section \<open>The properties\<close>

text \<open>
  C25: on a priority queue whose block the allocator has out, push and extend add to the multiset
  of its elements, top is an element that none is above, pop takes such an element out and
  replace_top puts another in its place; a queue made from elements in any order, or copied, holds
  just them. All keep the elements a heap.
\<close>

theorem pqueue_operations:
  assumes "held_by pqueue_view h q" "pqcmp q = Some cmp"
  shows "(\<forall>val x. vec_arg_ok (pqvec q) val \<and> vec_arg_val (pqvec q) val = Some x \<longrightarrow>
      call_does pqueue_view h q (tda_pqueue_push q val h)
        (lsize (velem (pqvec q)) * (vlen (pqvec q) + 1) \<le> SIZE_MAX) (Some cmp, add_mset x (pqueue_elems q))) \<and>
    (\<forall>zs. call_does pqueue_view h q (tda_pqueue_extend q (map Some zs) (velem (pqvec q)) h)
        (lsize (velem (pqvec q)) * (vlen (pqvec q) + length zs) \<le> SIZE_MAX) (Some cmp, pqueue_elems q + mset zs)) \<and>
    (pqueue_elems q \<noteq> {#} \<longrightarrow>
      (\<exists>i x. tda_pqueue_top q = Some i \<and> vec_cells (pqvec q) ! i = Some x \<and> top_of cmp (pqueue_elems q) x) \<and>
      (\<exists>x q'. top_of cmp (pqueue_elems q) x \<and> tda_pqueue_pop_to q = Some (Some x, q') \<and>
        call_edits pqueue_view q (Some q') (Some cmp, pqueue_elems q - {#x#})) \<and>
      (\<forall>val y. vec_arg_ok (pqvec q) val \<and> vec_arg_val (pqvec q) val = Some y \<longrightarrow>
        (\<exists>x. top_of cmp (pqueue_elems q) x \<and>
          call_edits pqueue_view q (tda_pqueue_replace_top q val)
            (Some cmp, add_mset y (pqueue_elems q - {#x#}))))) \<and>
    (\<forall>al xs. al \<noteq> 0 \<longrightarrow>
      call_makes pqueue_view h al (velem (pqvec q)) (tda_pqueue_from_data (map Some xs) (velem (pqvec q)) (Some cmp) al h)
        (lsize (velem (pqvec q)) * length xs \<le> SIZE_MAX) (Some cmp, mset xs) \<and>
      call_makes pqueue_view h al (velem (pqvec q)) (tda_pqueue_copy_with q al h)
        (lsize (velem (pqvec q)) * vlen (pqvec q) \<le> SIZE_MAX) (Some cmp, pqueue_elems q))"
proof -
  have ok: "pqueue_ok q" using assms(1) by (simp add: held_by_pqueue)
  have t: "tda_layout_is_type (velem (pqvec q))" "total_cmp cmp"
    using ok assms(2) vec_okD(1) [of "pqvec q"] by (auto elim: pqueue_okE)
  have "\<exists>i x. tda_pqueue_top q = Some i \<and> vec_cells (pqvec q) ! i = Some x \<and> top_of cmp (pqueue_elems q) x"
    if "pqueue_elems q \<noteq> {#}"
    using pqueue_top_ok [OF ok that] assms(2) by fastforce
  moreover have "\<exists>x q'. top_of cmp (pqueue_elems q) x \<and> tda_pqueue_pop_to q = Some (Some x, q') \<and>
      call_edits pqueue_view q (Some q') (Some cmp, pqueue_elems q - {#x#})" if "pqueue_elems q \<noteq> {#}"
    using pqueue_pop_ok(2) [OF ok that] assms(2) by fastforce
  moreover have "\<exists>x. top_of cmp (pqueue_elems q) x \<and>
      call_edits pqueue_view q (tda_pqueue_replace_top q val) (Some cmp, add_mset y (pqueue_elems q - {#x#}))"
    if "pqueue_elems q \<noteq> {#}" "vec_arg_ok (pqvec q) val" "vec_arg_val (pqvec q) val = Some y" for val y
    using pqueue_replace_ok [OF ok that] assms(2) by fastforce
  ultimately show ?thesis
    using pqueue_push_ok [OF assms(1)] pqueue_extend_ok [OF assms(1) refl] pqueue_copy_ok [OF ok]
      pqueue_from_data_ok [OF t(1) _ t(2) refl] assms(2) by simp
qed

text \<open>Two elements in, the larger out first.\<close>

theorem pqueue_operations_witness:
  "\<exists>x q'. top_of tda_cmp_i32 {#7, 3#} x \<and>
     tda_pqueue_pop_to \<lparr>pqvec = \<lparr>vdata = [Some 7, Some 3], vlen = 2, vcap = 2,
       velem = \<lparr>lsize = 4, lalign = 4\<rparr>, valloc = 1\<rparr>, pqcmp = Some tda_cmp_i32\<rparr> = Some (Some x, q')"
proof -
  let ?q = "\<lparr>pqvec = \<lparr>vdata = [Some 7, Some (3 :: 32 word)], vlen = 2, vcap = 2,
       velem = \<lparr>lsize = 4, lalign = 4\<rparr>, valloc = 1\<rparr>, pqcmp = Some tda_cmp_i32\<rparr>"
  let ?h = "(\<lambda>_. \<lparr>answers = [], live = {#\<lparr>lsize = 8, lalign = 4\<rparr>#}\<rparr>) :: heap"
  have "tda_layout_is_align 4" by (simp add: is_align_iff) (rule exI [of _ 2], simp)
  then have v: "vec_ok (pqvec ?q)" "vec_cells (pqvec ?q) = map Some [7, 3]" "vec_owns ?h (pqvec ?q)"
    by (simp_all add: vec_ok_def vec_cells_def vec_owns_def vec_block_def held_def lives_def tda_layout_is_type_def
        SIZE_MAX_def)
  have "0 \<le> tda_cmp_i32 7 3" by code_simp
  then have "heap_on tda_cmp_i32 [7, 3] (length [7, 3 :: 32 word]) 0"
    by (auto simp: heap_on_def less_Suc_eq numeral_2_eq_2)
  note q = pqueue_okI [OF v(1,2) i32.total_cmp_axioms this]
  have "held_by pqueue_view ?h ?q" "pqueue_elems ?q \<noteq> {#}" using q v(3) by (simp_all add: held_by_pqueue)
  then show ?thesis using pqueue_operations [of ?h ?q tda_cmp_i32] q(2) by auto
qed

end
