(* ===== verification/Adaptors.thy ===== *)
theory Adaptors
  imports Stack Queue Pqueue
begin

text \<open>
  What the three adaptors are for: the order in which elements come back. A stack gives the last
  first, a queue the first first, a priority queue always one that none left is above.
\<close>

text \<open>Push each of some values, until one call fails.\<close>

fun stack_pushes :: "'e list \<Rightarrow> 'e stack \<Rightarrow> heap \<Rightarrow> (tda_status \<times> 'e stack \<times> heap) option" where
  "stack_pushes [] s h = Some (TDA_STATUS_OK, s, h)"
| "stack_pushes (x # xs) s h = do {
     (st, s, h) \<leftarrow> tda_stack_push s (Apart (Some x)) h;
     if status_is_err st then Some (st, s, h) else stack_pushes xs s h
   }"

fun queue_pushes :: "'e list \<Rightarrow> 'e queue \<Rightarrow> heap \<Rightarrow> (tda_status \<times> 'e queue \<times> heap) option" where
  "queue_pushes [] q h = Some (TDA_STATUS_OK, q, h)"
| "queue_pushes (x # xs) q h = do {
     (st, q, h) \<leftarrow> tda_queue_push q (Apart (Some x)) h;
     if status_is_err st then Some (st, q, h) else queue_pushes xs q h
   }"

fun pqueue_pushes :: "'e list \<Rightarrow> 'e pqueue \<Rightarrow> heap \<Rightarrow> (tda_status \<times> 'e pqueue \<times> heap) option" where
  "pqueue_pushes [] q h = Some (TDA_STATUS_OK, q, h)"
| "pqueue_pushes (x # xs) q h = do {
     (st, q, h) \<leftarrow> tda_pqueue_push q (Apart (Some x)) h;
     if status_is_err st then Some (st, q, h) else pqueue_pushes xs q h
   }"

text \<open>Pop a number of elements, and list what comes out.\<close>

fun pops :: "('c \<Rightarrow> ('e option \<times> 'c) option) \<Rightarrow> nat \<Rightarrow> 'c \<Rightarrow> ('e slots \<times> 'c) option" where
  "pops pop 0 c = Some ([], c)"
| "pops pop (Suc n) c = do { (x, c) \<leftarrow> pop c; (xs, c) \<leftarrow> pops pop n c; Some (x # xs, c) }"

lemma edits_held: "call_edits view c (Some c') x \<Longrightarrow> held_by view h c \<Longrightarrow> held_by view h c' \<and> hval (view c') = x"
  by (simp add: call_edits_def held_by_def)

lemma does_held: "call_does view h c (Some (TDA_STATUS_OK, c', h')) fits x \<Longrightarrow> held_by view h' c' \<and> hval (view c') = x"
  by (auto simp: call_does_def dest: grows_held)

lemma stack_cells_view: "hval (stack_view s) = stack_cells s"
  by (simp add: stack_view_def stack_cells_def)

lemma queue_cells_view: "hval (queue_view q) = queue_cells q"
  by (simp add: queue_view_def queue_cells_def)

lemma stack_pushes_ok:
  "held_by stack_view h s \<Longrightarrow> stack_pushes xs s h = Some (TDA_STATUS_OK, s', h') \<Longrightarrow>
   held_by stack_view h' s' \<and> stack_cells s' = stack_cells s @ map Some xs"
proof (induction xs arbitrary: s h)
  case (Cons x xs)
  have arg: "vec_arg_ok (stvec s) (Apart (Some x))" by (simp add: vec_arg_ok_def)
  note ok = stack_push_ok [OF Cons.prems(1) arg]
  then obtain st t k where r: "tda_stack_push s (Apart (Some x)) h = Some (st, t, k)" by (auto simp: call_does_def)
  then have st: "st = TDA_STATUS_OK" and rest: "stack_pushes xs t k = Some (TDA_STATUS_OK, s', h')"
    using Cons.prems(2) by (auto simp: status_is_err_iff split: if_splits)
  have "held_by stack_view k t" "stack_cells t = stack_cells s @ [Some x]"
    using does_held [OF ok [unfolded r st]] by (simp_all add: stack_cells_view vec_arg_val_def)
  then show ?case using Cons.IH [OF _ rest] by simp
qed simp

lemma queue_pushes_ok:
  "held_by queue_view h q \<Longrightarrow> queue_pushes xs q h = Some (TDA_STATUS_OK, q', h') \<Longrightarrow>
   held_by queue_view h' q' \<and> queue_cells q' = queue_cells q @ map Some xs"
proof (induction xs arbitrary: q h)
  case (Cons x xs)
  have arg: "deque_arg_ok (qdeque q) (Apart (Some x))" by (simp add: deque_arg_ok_def)
  note ok = queue_push_ok [OF Cons.prems(1) arg]
  then obtain st t k where r: "tda_queue_push q (Apart (Some x)) h = Some (st, t, k)" by (auto simp: call_does_def)
  then have st: "st = TDA_STATUS_OK" and rest: "queue_pushes xs t k = Some (TDA_STATUS_OK, q', h')"
    using Cons.prems(2) by (auto simp: status_is_err_iff split: if_splits)
  have "held_by queue_view k t" "queue_cells t = queue_cells q @ [Some x]"
    using does_held [OF ok [unfolded r st]] by (simp_all add: queue_cells_view deque_arg_val_def)
  then show ?case using Cons.IH [OF _ rest] by simp
qed simp

lemma pqueue_pushes_ok:
  "held_by pqueue_view h q \<Longrightarrow> pqueue_pushes xs q h = Some (TDA_STATUS_OK, q', h') \<Longrightarrow>
   held_by pqueue_view h' q' \<and> pqcmp q' = pqcmp q \<and> pqueue_elems q' = pqueue_elems q + mset xs"
proof (induction xs arbitrary: q h)
  case (Cons x xs)
  have arg: "vec_arg_ok (pqvec q) (Apart (Some x))" "vec_arg_val (pqvec q) (Apart (Some x)) = Some x"
    by (simp_all add: vec_arg_ok_def vec_arg_val_def)
  note ok = pqueue_push_ok [OF Cons.prems(1) arg]
  then obtain st t k where r: "tda_pqueue_push q (Apart (Some x)) h = Some (st, t, k)" by (auto simp: call_does_def)
  then have st: "st = TDA_STATUS_OK" and rest: "pqueue_pushes xs t k = Some (TDA_STATUS_OK, q', h')"
    using Cons.prems(2) by (auto simp: status_is_err_iff split: if_splits)
  have "held_by pqueue_view k t" "pqcmp t = pqcmp q" "pqueue_elems t = add_mset x (pqueue_elems q)"
    using does_held [OF ok [unfolded r st]] by simp_all
  then show ?case using Cons.IH [OF _ rest] by simp
qed simp

lemma stack_pops_ok:
  "held_by stack_view h s \<Longrightarrow> stack_cells s = xs @ ys \<Longrightarrow>
   \<exists>s'. pops tda_stack_pop_to (length ys) s = Some (rev ys, s') \<and> held_by stack_view h s' \<and> stack_cells s' = xs"
proof (induction ys arbitrary: s rule: rev_induct)
  case (snoc y ys)
  have ne: "stack_cells s \<noteq> []" using snoc.prems(2) by simp
  obtain t where t: "tda_stack_pop_to s = Some (y, t)" "call_edits stack_view s (Some t) (xs @ ys)"
    using stack_pop_ok(2) [OF snoc.prems(1) ne] snoc.prems(2) by (auto simp: butlast_append)
  have "held_by stack_view h t" "stack_cells t = xs @ ys"
    using edits_held [OF t(2) snoc.prems(1)] by (simp_all add: stack_cells_view)
  then show ?case using snoc.IH t(1) by fastforce
qed simp

lemma queue_pops_ok:
  "held_by queue_view h q \<Longrightarrow> queue_cells q = xs @ ys \<Longrightarrow>
   \<exists>q'. pops tda_queue_pop_to (length xs) q = Some (xs, q') \<and> held_by queue_view h q' \<and> queue_cells q' = ys"
proof (induction xs arbitrary: q)
  case (Cons x xs)
  have ne: "queue_cells q \<noteq> []" using Cons.prems(2) by simp
  obtain t where t: "tda_queue_pop_to q = Some (x, t)" "call_edits queue_view q (Some t) (xs @ ys)"
    using queue_pop_ok(2) [OF Cons.prems(1) ne] Cons.prems(2) by auto
  have "held_by queue_view h t" "queue_cells t = xs @ ys"
    using edits_held [OF t(2) Cons.prems(1)] by (simp_all add: queue_cells_view)
  then show ?case using Cons.IH t(1) by fastforce
qed simp

lemma pqueue_pops_ok:
  "held_by pqueue_view h q \<Longrightarrow> pqcmp q = Some cmp \<Longrightarrow> n = size (pqueue_elems q) \<Longrightarrow>
   \<exists>xs q'. pops tda_pqueue_pop_to n q = Some (map Some xs, q') \<and> mset xs = pqueue_elems q \<and>
     sorted_wrt (\<lambda>x y. 0 \<le> cmp x y) xs \<and> held_by pqueue_view h q' \<and> pqueue_elems q' = {#}"
proof (induction n arbitrary: q)
  case (Suc n)
  have ne: "pqueue_elems q \<noteq> {#}" using Suc.prems(3) by auto
  obtain x t where x: "top_of cmp (pqueue_elems q) x" and t: "tda_pqueue_pop_to q = Some (Some x, t)"
    "call_edits pqueue_view q (Some t) (pqcmp q, pqueue_elems q - {#x#})"
    using pqueue_pop_ok(2) [OF _ ne] Suc.prems(1,2) by (fastforce simp: held_by_pqueue)
  have "held_by pqueue_view h t" "pqcmp t = Some cmp" "pqueue_elems t = pqueue_elems q - {#x#}"
    using edits_held [OF t(2) Suc.prems(1)] Suc.prems(2) by simp_all
  moreover have "n = size (pqueue_elems t)" using x Suc.prems(3) calculation(3) by (simp add: top_of_def size_Diff_singleton)
  ultimately obtain xs q' where xs: "pops tda_pqueue_pop_to n t = Some (map Some xs, q')" "mset xs = pqueue_elems q - {#x#}"
    "sorted_wrt (\<lambda>x y. 0 \<le> cmp x y) xs" "held_by pqueue_view h q'" "pqueue_elems q' = {#}"
    using Suc.IH by metis
  have "sorted_wrt (\<lambda>x y. 0 \<le> cmp x y) (x # xs)"
    using xs(2,3) x by (auto simp: top_of_def dest: in_diffD simp flip: set_mset_mset)
  moreover have "mset (x # xs) = pqueue_elems q" using xs(2) x by (simp add: top_of_def)
  moreover have "pops tda_pqueue_pop_to (Suc n) q = Some (map Some (x # xs), q')" using t(1) xs(1) by simp
  ultimately show ?case using xs(4,5) by blast
qed simp

text \<open>
  C26: values pushed on a stack come back last first, values pushed on a queue come back after
  what it held, first first, and a priority queue gives what it holds back sorted, greatest first.
\<close>

theorem adaptors_order:
  "(held_by stack_view h s \<and> stack_pushes xs s h = Some (TDA_STATUS_OK, s', h1) \<longrightarrow>
     (\<exists>t. pops tda_stack_pop_to (length xs) s' = Some (rev (map Some xs), t) \<and>
        held_by stack_view h1 t \<and> stack_cells t = stack_cells s)) \<and>
   (held_by queue_view h q \<and> queue_cells q = map Some ys \<and> queue_pushes xs q h = Some (TDA_STATUS_OK, q', h2) \<longrightarrow>
     (\<exists>t. pops tda_queue_pop_to (length ys + length xs) q' = Some (map Some (ys @ xs), t) \<and>
        held_by queue_view h2 t \<and> queue_cells t = [])) \<and>
   (held_by pqueue_view h p \<and> pqcmp p = Some cmp \<and> pqueue_pushes xs p h = Some (TDA_STATUS_OK, p', h3) \<longrightarrow>
     (\<exists>zs t. pops tda_pqueue_pop_to (size (pqueue_elems p) + length xs) p' = Some (map Some zs, t) \<and>
        mset zs = pqueue_elems p + mset xs \<and> sorted_wrt (\<lambda>x y. 0 \<le> cmp x y) zs \<and>
        held_by pqueue_view h3 t \<and> pqueue_elems t = {#}))"
proof (intro conjI impI; elim conjE)
  assume "held_by stack_view h s" "stack_pushes xs s h = Some (TDA_STATUS_OK, s', h1)"
  note s = stack_pushes_ok [OF this]
  show "\<exists>t. pops tda_stack_pop_to (length xs) s' = Some (rev (map Some xs), t) \<and>
        held_by stack_view h1 t \<and> stack_cells t = stack_cells s"
    using stack_pops_ok [of h1 s' "stack_cells s" "map Some xs"] s by simp
next
  assume q: "held_by queue_view h q" "queue_cells q = map Some ys" "queue_pushes xs q h = Some (TDA_STATUS_OK, q', h2)"
  show "\<exists>t. pops tda_queue_pop_to (length ys + length xs) q' = Some (map Some (ys @ xs), t) \<and>
        held_by queue_view h2 t \<and> queue_cells t = []"
    using queue_pops_ok [of h2 q' "map Some (ys @ xs)" "[]"] queue_pushes_ok [OF q(1,3)] q(2) by simp
next
  assume p: "held_by pqueue_view h p" "pqcmp p = Some cmp" "pqueue_pushes xs p h = Some (TDA_STATUS_OK, p', h3)"
  show "\<exists>zs t. pops tda_pqueue_pop_to (size (pqueue_elems p) + length xs) p' = Some (map Some zs, t) \<and>
        mset zs = pqueue_elems p + mset xs \<and> sorted_wrt (\<lambda>x y. 0 \<le> cmp x y) zs \<and>
        held_by pqueue_view h3 t \<and> pqueue_elems t = {#}"
    using pqueue_pops_ok [of h3 p' cmp "size (pqueue_elems p) + length xs"] pqueue_pushes_ok [OF p(1,3)] p(2) by simp
qed

text \<open>A push and a pop on a stack with room for one.\<close>

theorem adaptors_order_witness:
  "\<exists>s' h' t. stack_pushes [True] \<lparr>stvec = \<lparr>vdata = [None], vlen = 0, vcap = 1, velem = \<lparr>lsize = 1, lalign = 1\<rparr>,
       valloc = 1\<rparr>\<rparr> (\<lambda>_. \<lparr>answers = [], live = {#\<lparr>lsize = 1, lalign = 1\<rparr>#}\<rparr>) = Some (TDA_STATUS_OK, s', h') \<and>
     pops tda_stack_pop_to 1 s' = Some ([Some True], t)"
proof -
  let ?s = "\<lparr>stvec = \<lparr>vdata = [None], vlen = 0, vcap = 1, velem = \<lparr>lsize = 1, lalign = 1\<rparr>, valloc = 1\<rparr>\<rparr> :: bool stack"
  let ?h = "(\<lambda>_. \<lparr>answers = [], live = {#\<lparr>lsize = 1, lalign = 1\<rparr>#}\<rparr>) :: heap"
  let ?t = "\<lparr>stvec = \<lparr>vdata = [Some True], vlen = 1, vcap = 1, velem = \<lparr>lsize = 1, lalign = 1\<rparr>, valloc = 1\<rparr>\<rparr>"
  have held: "held_by stack_view ?h ?s"
    by (simp add: held_by_stack held_by_vec vec_ok_def vec_owns_def vec_block_def held_def lives_def
        tda_layout_is_type_def SIZE_MAX_def)
  have "stack_pushes [True] ?s ?h = Some (TDA_STATUS_OK, ?t, ?h)"
    by (simp add: tda_stack_push_def ASSERT_STACK_def stack_try_def tda_vec_push_def ASSERT_VEC_def vec_alias_idx_def
        vec_reserve_one_def tda_layout_is_type_def status_is_err_iff slots_put_def vec_arg_cell_def
        vec_block_layout_def tda_elems_layout_def ckd_array_type SIZE_MAX_def)
  then show ?thesis
    using adaptors_order [of ?h ?s "[True]" ?t ?h undefined undefined undefined undefined undefined undefined undefined undefined] held
    by auto
qed

end
