(* ===== verification/Arr.thy ===== *)
theory Arr
  imports Holder Bulk
begin

text \<open>
  \<open>ds/arr.h\<close> and \<open>ds/arr.c\<close>: an array whose length is set when it is made, in one block of exactly
  its elements. As in \<open>Vec\<close>, the elements are values in slots and the allocator is its account; an
  argument that points into the array is given by its byte offset.
\<close>

record 'e arr =
  adata :: "'e slots"
  alen :: nat
  aelem :: layout
  aal :: al

definition ASSERT_ARR :: "'e arr \<Rightarrow> unit option" where
  "ASSERT_ARR a = do {
     chk (tda_layout_is_type (aelem a));
     chk (alen a = 0 \<or> adata a \<noteq> []);
     chk (adata a = [] \<or> alen a > 0);
     chk (aal a \<noteq> 0)
   }"

definition EXPECT_SAME_ARR :: "'e arr \<Rightarrow> 'f arr \<Rightarrow> unit option" where
  "EXPECT_SAME_ARR a b = chk (tda_layout_eq (aelem a) (aelem b))"

definition arr_null :: "'e arr" where
  "arr_null = \<lparr>adata = [], alen = 0, aelem = \<lparr>lsize = 0, lalign = 0\<rparr>, aal = 0\<rparr>"

section \<open>Internals\<close>

definition arr_block_layout :: "'e arr \<Rightarrow> layout option" where
  "arr_block_layout a = tda_elems_layout (aelem a) (alen a)"

definition arr_len_bytes :: "'e arr \<Rightarrow> nat" where
  "arr_len_bytes a = wmul (alen a) (lsize (aelem a))"

text \<open>\<open>cell\<close> is what a new slot holds: zero bytes are the element \<open>zero\<close> of its type.\<close>

definition arr_init_impl ::
  "'e option \<Rightarrow> nat \<Rightarrow> layout \<Rightarrow> al \<Rightarrow> heap \<Rightarrow> ((tda_status + 'e arr) \<times> heap) option" where
  "arr_init_impl cell len elem al h = do {
     chk (tda_layout_is_type elem);
     chk (al \<noteq> 0);
     let obj = \<lparr>adata = [], alen = len, aelem = elem, aal = al\<rparr>;
     if len > 0 then do {
       r \<leftarrow> tda_layout_ckd_array elem len;
       case r of
         None \<Rightarrow> Some (Inl TDA_STATUS_ERR_NO_MEM, h)
       | Some block \<Rightarrow> do {
           (ptr, h) \<leftarrow> al_alloc al block h;
           if \<not> ptr then Some (Inl TDA_STATUS_ERR_NO_MEM, h)
           else do {
             let obj = obj\<lparr>adata := replicate len cell\<rparr>;
             ASSERT_ARR obj;
             Some (Inr obj, h)
           }
         }
     }
     else do {
       ASSERT_ARR obj;
       Some (Inr obj, h)
     }
   }"

section \<open>Lifetime\<close>

definition tda_arr_init_len :: "'e \<Rightarrow> nat \<Rightarrow> layout \<Rightarrow> al \<Rightarrow> heap \<Rightarrow> ((tda_status + 'e arr) \<times> heap) option" where
  "tda_arr_init_len zero len elem al h = do {
     chk (tda_layout_is_type elem);
     chk (al \<noteq> 0);
     arr_init_impl (Some zero) len elem al h
   }"

definition tda_arr_from_data :: "'e slots \<Rightarrow> layout \<Rightarrow> al \<Rightarrow> heap \<Rightarrow> ((tda_status + 'e arr) \<times> heap) option" where
  "tda_arr_from_data data elem al h = do {
     chk (tda_layout_is_type elem);
     chk (al \<noteq> 0);
     (r, h) \<leftarrow> arr_init_impl None (length data) elem al h;
     case r of
       Inl st \<Rightarrow> Some (Inl st, h)
     | Inr obj \<Rightarrow> do {
         d \<leftarrow> if length data > 0 then slots_put (adata obj) 0 data else Some (adata obj);
         Some (Inr (obj\<lparr>adata := d\<rparr>), h)
       }
   }"

definition tda_arr_from_span :: "'e slots \<Rightarrow> layout \<Rightarrow> al \<Rightarrow> heap \<Rightarrow> ((tda_status + 'e arr) \<times> heap) option" where
  "tda_arr_from_span s elem al h = do {
     chk (tda_layout_is_type elem);
     chk (al \<noteq> 0);
     tda_arr_from_data s elem al h
   }"

definition tda_arr_init_raw :: "'e slots \<Rightarrow> nat \<Rightarrow> layout \<Rightarrow> al \<Rightarrow> 'e arr option" where
  "tda_arr_init_raw data len elem al = do {
     chk (tda_layout_is_type elem);
     chk (al \<noteq> 0);
     chk ((data = []) = (len = 0));
     r \<leftarrow> tda_layout_ckd_array elem len;
     chk (r \<noteq> None);
     Some \<lparr>adata = data, alen = len, aelem = elem, aal = al\<rparr>
   }"

definition tda_arr_into_raw :: "'e arr \<Rightarrow> (('e slots \<times> nat \<times> layout) \<times> 'e arr) option" where
  "tda_arr_into_raw a = do { ASSERT_ARR a; Some ((adata a, alen a, aelem a), arr_null) }"

definition tda_arr_deinit :: "'e arr \<Rightarrow> heap \<Rightarrow> ('e arr \<times> heap) option" where
  "tda_arr_deinit a h =
     (if aal a = 0 then do { chk (adata a = []); Some (a, h) }
      else do {
        ASSERT_ARR a;
        block \<leftarrow> arr_block_layout a;
        h \<leftarrow> al_dealloc (aal a) (adata a \<noteq> []) block h;
        Some (arr_null, h)
      })"

section \<open>Access\<close>

definition tda_arr_len :: "'e arr \<Rightarrow> nat option" where
  "tda_arr_len a = do { chk (aal a \<noteq> 0); Some (alen a) }"

definition tda_arr_elem_layout :: "'e arr \<Rightarrow> layout option" where
  "tda_arr_elem_layout a = do { chk (aal a \<noteq> 0); Some (aelem a) }"

definition tda_arr_bytes :: "'e arr \<Rightarrow> nat option" where
  "tda_arr_bytes a = do { chk (aal a \<noteq> 0); Some (wmul (alen a) (lsize (aelem a))) }"

definition tda_arr_al :: "'e arr \<Rightarrow> al option" where
  "tda_arr_al a = do { chk (aal a \<noteq> 0); Some (aal a) }"

text \<open>A pointer to an element is its index.\<close>

definition tda_arr_front :: "'e arr \<Rightarrow> nat option" where
  "tda_arr_front a = do { chk (aal a \<noteq> 0); chk (alen a > 0); Some 0 }"

definition tda_arr_back :: "'e arr \<Rightarrow> nat option" where
  "tda_arr_back a = do { chk (aal a \<noteq> 0); chk (alen a > 0); Some (alen a - 1) }"

definition tda_arr_get :: "'e arr \<Rightarrow> nat \<Rightarrow> nat option" where
  "tda_arr_get a idx = do { chk (aal a \<noteq> 0); chk (idx < alen a); Some idx }"

definition tda_arr_to_span :: "'e arr \<Rightarrow> 'e slots option" where
  "tda_arr_to_span a = do { chk (aal a \<noteq> 0); Some (take (alen a) (adata a)) }"

definition arr_arg_cell :: "'e arr \<Rightarrow> 'e arg \<Rightarrow> 'e option option" where
  "arr_arg_cell a val = (case val of
       Apart x \<Rightarrow> Some x
     | Within off \<Rightarrow> do {
         chk (off mod lsize (aelem a) = 0);
         slot_get (adata a) (off div lsize (aelem a))
       })"

definition tda_arr_set :: "'e arr \<Rightarrow> nat \<Rightarrow> 'e arg \<Rightarrow> 'e arr option" where
  "tda_arr_set a idx val = do {
     ASSERT_ARR a;
     chk (idx < alen a);
     x \<leftarrow> arr_arg_cell a val;
     d \<leftarrow> slots_put (adata a) idx [x];
     Some (a\<lparr>adata := d\<rparr>)
   }"

definition tda_arr_swap_elems :: "'e arr \<Rightarrow> nat \<Rightarrow> nat \<Rightarrow> 'e arr option" where
  "tda_arr_swap_elems a i j = do {
     ASSERT_ARR a;
     chk (i < alen a);
     chk (j < alen a);
     s \<leftarrow> tda_arr_to_span a;
     s \<leftarrow> span_swap s i j;
     d \<leftarrow> slots_put (adata a) 0 s;
     Some (a\<lparr>adata := d\<rparr>)
   }"

section \<open>Copy and compare\<close>

definition tda_arr_copy_with :: "'e arr \<Rightarrow> al \<Rightarrow> heap \<Rightarrow> ((tda_status + 'e arr) \<times> heap) option" where
  "tda_arr_copy_with a al h = do {
     ASSERT_ARR a;
     chk (al \<noteq> 0);
     s \<leftarrow> tda_arr_to_span a;
     tda_arr_from_span s (aelem a) al h
   }"

definition tda_arr_copy :: "'e arr \<Rightarrow> heap \<Rightarrow> ((tda_status + 'e arr) \<times> heap) option" where
  "tda_arr_copy a h = do { ASSERT_ARR a; tda_arr_copy_with a (aal a) h }"

text \<open>\<open>same\<close> says that both arguments are one object.\<close>

definition tda_arr_copy_assign ::
  "bool \<Rightarrow> 'e arr \<Rightarrow> 'e arr \<Rightarrow> heap \<Rightarrow> (tda_status \<times> 'e arr \<times> heap) option" where
  "tda_arr_copy_assign same a other h = do {
     ASSERT_ARR a;
     ASSERT_ARR other;
     EXPECT_SAME_ARR a other;
     if same then Some (TDA_STATUS_OK, a, h)
     else do {
       let self_bytes = arr_len_bytes a;
       let other_bytes = arr_len_bytes other;
       (st, a, h) \<leftarrow> (if self_bytes \<noteq> other_bytes then do {
           block \<leftarrow> arr_block_layout a;
           (ptr, h) \<leftarrow> al_realloc (aal a) (adata a \<noteq> []) block other_bytes h;
           if other_bytes > 0 \<and> \<not> ptr then Some (TDA_STATUS_ERR_NO_MEM, a, h)
           else Some (TDA_STATUS_OK,
             a\<lparr>adata := if ptr then slots_resize (adata a) (alen other) else [], alen := alen other\<rparr>, h)
         }
         else Some (TDA_STATUS_OK, a, h));
       if status_is_err st then Some (st, a, h)
       else do {
         d \<leftarrow> (if other_bytes > 0 then do {
             s \<leftarrow> slots_read (adata other) 0 (alen other);
             slots_put (adata a) 0 s
           }
           else Some (adata a));
         let a = a\<lparr>adata := d\<rparr>;
         ASSERT_ARR a;
         Some (TDA_STATUS_OK, a, h)
       }
     }
   }"

definition tda_arr_move_assign ::
  "bool \<Rightarrow> 'e arr \<Rightarrow> 'e arr \<Rightarrow> heap \<Rightarrow> ('e arr \<times> 'e arr \<times> heap) option" where
  "tda_arr_move_assign same a other h = do {
     ASSERT_ARR other;
     (if aal a \<noteq> 0 then do { ASSERT_ARR a; EXPECT_SAME_ARR a other } else Some ());
     if same then Some (a, other, h)
     else do {
       (_, h) \<leftarrow> tda_arr_deinit a h;
       let a = other;
       let other = \<lparr>adata = [], alen = 0, aelem = aelem a, aal = aal a\<rparr>;
       ASSERT_ARR a;
       ASSERT_ARR other;
       Some (a, other, h)
     }
   }"

definition tda_arr_swap :: "bool \<Rightarrow> 'e arr \<Rightarrow> 'e arr \<Rightarrow> ('e arr \<times> 'e arr) option" where
  "tda_arr_swap same a other = do {
     ASSERT_ARR a;
     ASSERT_ARR other;
     EXPECT_SAME_ARR a other;
     if same then Some (a, other) else Some (other, a)
   }"

definition tda_arr_eq :: "byte list arr \<Rightarrow> byte list arr \<Rightarrow> bool option" where
  "tda_arr_eq a b = do {
     ASSERT_ARR a;
     ASSERT_ARR b;
     EXPECT_SAME_ARR a b;
     as \<leftarrow> cell_values (take (alen a) (adata a));
     bs \<leftarrow> cell_values (take (alen b) (adata b));
     Some (tda_span_eq False as bs)
   }"

definition tda_arr_eq_by :: "('e \<Rightarrow> 'e \<Rightarrow> bool) \<Rightarrow> 'e arr \<Rightarrow> 'e arr \<Rightarrow> bool option" where
  "tda_arr_eq_by eq a b = do {
     ASSERT_ARR a;
     ASSERT_ARR b;
     EXPECT_SAME_ARR a b;
     as \<leftarrow> cell_values (take (alen a) (adata a));
     bs \<leftarrow> cell_values (take (alen b) (adata b));
     tda_span_eq_by False eq as bs
   }"

section \<open>The contract\<close>

definition arr_ok :: "'e arr \<Rightarrow> bool" where
  "arr_ok a \<longleftrightarrow> tda_layout_is_type (aelem a) \<and> length (adata a) = alen a \<and>
     lsize (aelem a) * alen a \<le> SIZE_MAX \<and> aal a \<noteq> 0"

definition arr_view :: "'e arr \<Rightarrow> (layout, 'e slots) holder" where
  "arr_view a = \<lparr>hgood = arr_ok a, hkind = aelem a, hal = aal a, hblocks = held (aelem a) (alen a), hval = adata a\<rparr>"

definition arr_arg_ok :: "'e arr \<Rightarrow> 'e arg \<Rightarrow> bool" where
  "arr_arg_ok a val \<longleftrightarrow> (case val of Apart x \<Rightarrow> True
     | Within off \<Rightarrow> off mod lsize (aelem a) = 0 \<and> off div lsize (aelem a) < alen a)"

definition arr_arg_val :: "'e arr \<Rightarrow> 'e arg \<Rightarrow> 'e option" where
  "arr_arg_val a val = (case val of Apart x \<Rightarrow> x | Within off \<Rightarrow> adata a ! (off div lsize (aelem a)))"

lemma arr_view_simps [simp]:
  "hgood (arr_view a) = arr_ok a" "hkind (arr_view a) = aelem a" "hal (arr_view a) = aal a"
  "hblocks (arr_view a) = held (aelem a) (alen a)" "hval (arr_view a) = adata a"
  by (simp_all add: arr_view_def)

lemma arr_okD:
  assumes "arr_ok a"
  shows "tda_layout_is_type (aelem a)" "length (adata a) = alen a" "lsize (aelem a) * alen a \<le> SIZE_MAX" "aal a \<noteq> 0"
    "ASSERT_ARR a = Some ()" "adata a = [] \<longleftrightarrow> alen a = 0"
    "arr_block_layout a = Some \<lparr>lsize = lsize (aelem a) * alen a, lalign = lalign (aelem a)\<rparr>"
    "arr_len_bytes a = lsize (aelem a) * alen a" "0 < lsize (aelem a)"
proof -
  have t: "tda_layout_is_type (aelem a)" and l: "length (adata a) = alen a" and s: "lsize (aelem a) * alen a \<le> SIZE_MAX"
    and n: "aal a \<noteq> 0"
    using assms by (simp_all add: arr_ok_def)
  have e: "adata a = [] \<longleftrightarrow> alen a = 0" using l by auto
  have m: "wmul (lsize (aelem a)) (alen a) = lsize (aelem a) * alen a" using s by (simp add: wmul_def SIZE_MAX_def)
  then have m': "wmul (alen a) (lsize (aelem a)) = lsize (aelem a) * alen a" by (simp add: wmul_def mult.commute)
  show "tda_layout_is_type (aelem a)" "length (adata a) = alen a" "lsize (aelem a) * alen a \<le> SIZE_MAX" "aal a \<noteq> 0"
    "adata a = [] \<longleftrightarrow> alen a = 0" "0 < lsize (aelem a)"
    using t l s n e is_type_size [OF t] by simp_all
  show "ASSERT_ARR a = Some ()" using t n e by (cases "alen a") (simp_all add: ASSERT_ARR_def)
  show "arr_block_layout a = Some \<lparr>lsize = lsize (aelem a) * alen a, lalign = lalign (aelem a)\<rparr>"
    using t m by (simp add: arr_block_layout_def tda_elems_layout_def)
  show "arr_len_bytes a = lsize (aelem a) * alen a" using m' by (simp add: arr_len_bytes_def)
qed

lemma held_by_arr: "held_by arr_view h a \<longleftrightarrow> arr_ok a \<and> held (aelem a) (alen a) \<subseteq># lives h (aal a)"
  by (simp add: held_by_def)

lemma arr_edit: "arr_ok a \<Longrightarrow> length d = alen a \<Longrightarrow> call_edits arr_view a (Some (a\<lparr>adata := d\<rparr>)) d"
  by (intro editsI) (simp_all add: arr_view_def arr_ok_def)

lemma arr_arg_cell_ok: "arr_ok a \<Longrightarrow> arr_arg_ok a val \<Longrightarrow> arr_arg_cell a val = Some (arr_arg_val a val)"
  by (auto simp: arr_arg_cell_def arr_arg_ok_def arr_arg_val_def arr_ok_def split: arg.splits)

lemma arr_set_ok:
  assumes "arr_ok a" "arr_arg_ok a val" "idx < alen a"
  shows "call_edits arr_view a (tda_arr_set a idx val) ((adata a)[idx := arr_arg_val a val])"
  using arr_edit [OF assms(1), of "(adata a)[idx := arr_arg_val a val]"] assms arr_okD [OF assms(1)]
  by (simp add: tda_arr_set_def arr_arg_cell_ok slots_put_one)

lemma arr_swap_elems_ok:
  assumes "arr_ok a" "i < alen a" "j < alen a"
  shows "call_edits arr_view a (tda_arr_swap_elems a i j) ((adata a)[i := adata a ! j, j := adata a ! i])"
  using arr_edit [OF assms(1), of "(adata a)[i := adata a ! j, j := adata a ! i]"] assms arr_okD [OF assms(1)]
  by (cases "i = j") (simp_all add: tda_arr_swap_elems_def tda_arr_to_span_def span_swap_def slots_put_Some)

lemma arr_init_impl_ok:
  assumes "tda_layout_is_type elem" "al \<noteq> 0"
  shows "call_makes arr_view h al elem (arr_init_impl cell len elem al h) (lsize elem * len \<le> SIZE_MAX) (replicate len cell)"
proof -
  let ?a = "\<lparr>adata = replicate len cell, alen = len, aelem = elem, aal = al\<rparr>"
  have ok: "lsize elem * len \<le> SIZE_MAX \<Longrightarrow> arr_ok ?a" using assms by (simp add: arr_ok_def)
  consider "len = 0" | "0 < len" "SIZE_MAX < lsize elem * len" | "0 < len" "lsize elem * len \<le> SIZE_MAX"
    by linarith
  then show ?thesis
  proof cases
    case 1
    then have "arr_init_impl cell len elem al h = Some (Inr ?a, h)"
      using assms ok arr_okD(5) [of ?a] by (simp add: arr_init_impl_def)
    then show ?thesis using 1 ok by (auto intro!: makesI simp: requests_refl)
  next
    case 2
    then have "arr_init_impl cell len elem al h = Some (Inl TDA_STATUS_ERR_NO_MEM, h)"
      using assms by (simp add: arr_init_impl_def ckd_array_type)
    then show ?thesis using 2 by (auto intro!: makes_fails simp: requests_refl)
  next
    case 3
    obtain b h' where a: "al_alloc al \<lparr>lsize = lsize elem * len, lalign = lalign elem\<rparr> h = Some (b, h')"
      "requests h al {#} (held elem len) b h'" "generous h al \<longrightarrow> b"
      using alloc_elems [OF assms 3(1), of h] by blast
    have "arr_init_impl cell len elem al h = Some (if b then Inr ?a else Inl TDA_STATUS_ERR_NO_MEM, h')"
      using a(1) 3 assms arr_okD(5) [OF ok [OF 3(2)]] by (simp add: arr_init_impl_def ckd_array_type)
    then show ?thesis
      using a ok [OF 3(2)] requests_refused [of h al "{#}" "held elem len" h' "{#}"]
      by (cases b) (auto intro!: makesI makes_fails)
  qed
qed

lemma arr_from_data_ok:
  fixes data :: "'e slots"
  assumes "tda_layout_is_type elem" "al \<noteq> 0"
  shows "call_makes arr_view h al elem (tda_arr_from_data data elem al h) (lsize elem * length data \<le> SIZE_MAX) data"
proof -
  note mk = arr_init_impl_ok [OF assms, of h "None :: 'e option" "length data"]
  then obtain res h' where r: "arr_init_impl (None :: 'e option) (length data) elem al h = Some (res, h')"
    by (auto simp: call_makes_def)
  show ?thesis
  proof (cases res)
    case (Inl st)
    then show ?thesis using mk r assms by (simp add: tda_arr_from_data_def call_makes_def)
  next
    case (Inr a)
    then have a: "arr_ok a" "aelem a = elem" "aal a = al" "adata a = replicate (length data) None"
      "requests h al {#} (held (aelem a) (alen a)) True h'"
      using mk r by (auto simp: call_makes_def)
    have n: "alen a = length data" using arr_okD(2) [OF a(1)] a(4) by simp
    have put: "(if length data > 0 then slots_put (adata a) 0 data else Some (adata a)) = Some data"
      using a(4) by (auto simp: slots_put_Some)
    have "tda_arr_from_data data elem al h = do {
        d \<leftarrow> if length data > 0 then slots_put (adata a) 0 data else Some (adata a);
        Some (Inr (a\<lparr>adata := d\<rparr>), h')
      }"
      using r assms Inr by (simp add: tda_arr_from_data_def)
    also have "\<dots> = Some (Inr (a\<lparr>adata := data\<rparr>), h')" by (simp only: put Option.bind.bind_lunit)
    finally show ?thesis using a n by (auto intro!: makesI simp: arr_ok_def)
  qed
qed

lemma arr_copy_with_ok:
  assumes "arr_ok a" "al \<noteq> 0"
  shows "call_makes arr_view h al (aelem a) (tda_arr_copy_with a al h) (lsize (aelem a) * alen a \<le> SIZE_MAX) (adata a)"
proof -
  note ok = arr_okD [OF assms(1)]
  have "tda_arr_copy_with a al h = tda_arr_from_data (adata a) (aelem a) al h"
    using assms(2) ok by (simp add: tda_arr_copy_with_def tda_arr_to_span_def tda_arr_from_span_def)
  then show ?thesis using arr_from_data_ok [OF ok(1) assms(2), of h "adata a"] ok(2) by simp
qed

lemma arr_deinit_ok:
  assumes "held_by arr_view h a"
  shows "call_ends arr_view h a (tda_arr_deinit a h)"
proof -
  have a: "arr_ok a" "held (aelem a) (alen a) \<subseteq># lives h (aal a)" using assms by (simp_all add: held_by_arr)
  note ok = arr_okD [OF a(1)]
  obtain h' where "al_dealloc (aal a) (alen a \<noteq> 0) \<lparr>lsize = lsize (aelem a) * alen a, lalign = lalign (aelem a)\<rparr> h = Some h'"
    "lives h' = (lives h)(aal a := lives h (aal a) - held (aelem a) (alen a))" "\<And>c. generous h c \<Longrightarrow> generous h' c"
    using al_dealloc_held [OF ok(4,1) a(2)] by blast
  then show ?thesis using ok by (simp add: call_ends_def tda_arr_deinit_def requests_def)
qed

text \<open>The array with a block of another length, its first slots kept.\<close>

lemma arr_resized:
  assumes "held_by arr_view h a" "lsize (aelem a) * n \<le> SIZE_MAX" "n \<noteq> alen a"
  shows "\<exists>b h'. al_realloc (aal a) (adata a \<noteq> []) \<lparr>lsize = lsize (aelem a) * alen a, lalign = lalign (aelem a)\<rparr>
      (lsize (aelem a) * n) h = Some (b, h') \<and> (n = 0 \<longrightarrow> \<not> b) \<and>
    requests h (aal a) (held (aelem a) (alen a)) (held (aelem a) n) (b \<or> n = 0) h' \<and>
    (generous h (aal a) \<longrightarrow> b \<or> n = 0)"
proof -
  have a: "arr_ok a" "held (aelem a) (alen a) \<subseteq># lives h (aal a)" using assms(1) by (simp_all add: held_by_arr)
  note ok = arr_okD [OF a(1)]
  show ?thesis
  proof (cases "n = 0")
    case True
    obtain h' where "al_dealloc (aal a) (alen a \<noteq> 0) \<lparr>lsize = lsize (aelem a) * alen a, lalign = lalign (aelem a)\<rparr> h = Some h'"
      "lives h' = (lives h)(aal a := lives h (aal a) - held (aelem a) (alen a))" "\<And>c. generous h c \<Longrightarrow> generous h' c"
      using al_dealloc_held [OF ok(4,1) a(2)] by blast
    then show ?thesis
      using True ok is_type_align [OF ok(1)] assms(3) by (auto simp: al_realloc_def requests_def)
  next
    case False
    then obtain b h' where "al_realloc (aal a) (alen a \<noteq> 0) \<lparr>lsize = lsize (aelem a) * alen a, lalign = lalign (aelem a)\<rparr>
        (lsize (aelem a) * n) h = Some (b, h')"
      "requests h (aal a) (held (aelem a) (alen a)) (held (aelem a) n) b h'" "generous h (aal a) \<Longrightarrow> b"
      using al_realloc_held [OF ok(4,1) a(2), of n] by blast
    then show ?thesis using False ok(6) by simp
  qed
qed

lemma arr_copy_assign_ok:
  assumes "held_by arr_view h a" "arr_ok b" "aelem b = aelem a"
  shows "call_does arr_view h a (tda_arr_copy_assign False a b h) True (adata b)"
proof -
  have a: "arr_ok a" using assms(1) by (simp add: held_by_arr)
  note ok = arr_okD [OF a] and okb = arr_okD [OF assms(2)]
  have same: "EXPECT_SAME_ARR a b = Some ()" using assms(3) by (simp add: EXPECT_SAME_ARR_def tda_layout_eq_def)
  have sb: "lsize (aelem a) * alen b \<le> SIZE_MAX" using okb(3) assms(3) by simp
  have neq: "arr_len_bytes a \<noteq> arr_len_bytes b \<longleftrightarrow> alen b \<noteq> alen a" using ok(8,9) okb(8) assms(3) by auto
  have pos: "0 < arr_len_bytes b \<longleftrightarrow> 0 < alen b" using ok(9) okb(8) assms(3) by simp
  have bytes: "arr_len_bytes b = lsize (aelem a) * alen b" using okb(8) assms(3) by simp
  have copy: "(do {
      d \<leftarrow> (if 0 < arr_len_bytes b then do { s \<leftarrow> slots_read (adata b) 0 (alen b); slots_put (adata c) 0 s }
        else Some (adata c));
      ASSERT_ARR (c\<lparr>adata := d\<rparr>); Some (TDA_STATUS_OK, c\<lparr>adata := d\<rparr>, h') })
    = Some (TDA_STATUS_OK, c\<lparr>adata := adata b\<rparr>, h')"
    if "length (adata c) = alen b" "arr_ok (c\<lparr>adata := adata b\<rparr>)" for c h'
  proof -
    have "(if 0 < arr_len_bytes b then do { s \<leftarrow> slots_read (adata b) 0 (alen b); slots_put (adata c) 0 s }
        else Some (adata c)) = Some (adata b)"
      using that(1) okb(2) pos by (auto simp: slots_put_Some)
    then show ?thesis using arr_okD(5) [OF that(2)] by simp
  qed
  let ?a = "a\<lparr>adata := adata b, alen := alen b\<rparr>"
  have oka: "arr_ok ?a" using ok(1,4) sb okb(2) by (simp add: arr_ok_def)
  show ?thesis
  proof (cases "alen b = alen a")
    case True
    have eq: "a\<lparr>adata := adata b\<rparr> = ?a" using True by simp
    have "tda_arr_copy_assign False a b h = Some (TDA_STATUS_OK, a\<lparr>adata := adata b\<rparr>, h)"
      using copy [of a h] True neq ok okb(5) same oka eq by (simp add: tda_arr_copy_assign_def Let_def)
    also have "Some (TDA_STATUS_OK, a\<lparr>adata := adata b\<rparr>, h) = Some (TDA_STATUS_OK, ?a, h)"
      by (rule arg_cong [OF eq, of "\<lambda>x. Some (TDA_STATUS_OK, x, h)"])
    finally have "tda_arr_copy_assign False a b h = Some (TDA_STATUS_OK, ?a, h)" .
    then show ?thesis using oka assms(1) True by (auto intro!: doesI simp: call_grows_def held_by_arr requests_refl)
  next
    case False
    obtain p h' where r: "al_realloc (aal a) (adata a \<noteq> []) \<lparr>lsize = lsize (aelem a) * alen a, lalign = lalign (aelem a)\<rparr>
        (lsize (aelem a) * alen b) h = Some (p, h')" "alen b = 0 \<longrightarrow> \<not> p"
      "requests h (aal a) (held (aelem a) (alen a)) (held (aelem a) (alen b)) (p \<or> alen b = 0) h'"
      "generous h (aal a) \<longrightarrow> p \<or> alen b = 0"
      using arr_resized [OF assms(1) sb False] by (elim exE conjE) (rule that)
    show ?thesis
    proof (cases "p \<or> alen b = 0")
      case no: False
      then have "tda_arr_copy_assign False a b h = Some (TDA_STATUS_ERR_NO_MEM, a, h')"
        using r(1) False neq ok okb(5) same pos bytes
        by (simp add: tda_arr_copy_assign_def Let_def status_is_err_iff)
      moreover have "requests h (aal a) (held (aelem a) (alen a)) (held (aelem a) (alen a)) True h'"
        using requests_refused r(3) no assms(1) by (simp add: held_by_arr)
      ultimately show ?thesis using no r(4) a by (auto intro!: does_refused simp: call_grows_def)
    next
      case yes: True
      let ?d = "if p then slots_resize (adata a) (alen b) else []"
      obtain c where c: "c = a\<lparr>adata := ?d, alen := alen b\<rparr>" by blast
      have served: "(0 < alen b \<and> \<not> p) = False" using yes by auto
      have cc: "length (adata c) = alen b" "c\<lparr>adata := adata b\<rparr> = ?a" using yes c by auto
      have "tda_arr_copy_assign False a b h = Some (TDA_STATUS_OK, c\<lparr>adata := adata b\<rparr>, h')"
        using copy [of c h'] cc oka r(1) False neq ok okb(5) same pos bytes
        by (simp add: tda_arr_copy_assign_def Let_def served c [symmetric] split del: if_split)
      then have "tda_arr_copy_assign False a b h = Some (TDA_STATUS_OK, ?a, h')" unfolding cc(2) .
      moreover have "call_grows arr_view h a True TDA_STATUS_OK ?a h'"
        using r(3) yes oka by (simp add: call_grows_def)
      ultimately show ?thesis by (simp add: call_does_def)
    qed
  qed
qed

text \<open>One call on an array, or a write of the program into one of its slots.\<close>

inductive arr_step :: "heap \<times> 'e arr \<Rightarrow> heap \<times> 'e arr \<Rightarrow> bool" where
  ar_assign: "arr_ok b \<Longrightarrow> aelem b = aelem a \<Longrightarrow> tda_arr_copy_assign False a b h = Some (st, a', h') \<Longrightarrow>
    arr_step (h, a) (h', a')"
| ar_set: "arr_arg_ok a val \<Longrightarrow> idx < alen a \<Longrightarrow> tda_arr_set a idx val = Some a' \<Longrightarrow> arr_step (h, a) (h, a')"
| ar_swap_elems: "i < alen a \<Longrightarrow> j < alen a \<Longrightarrow> tda_arr_swap_elems a i j = Some a' \<Longrightarrow> arr_step (h, a) (h, a')"
| ar_write: "arr_step (h, a) (h, a\<lparr>adata := (adata a)[i := cell]\<rparr>)"

lemma holds_since_arr: "holds_since arr_view h0 (h, a) \<Longrightarrow> arr_ok a"
  by (simp add: holds_since_def)

lemma arr_step_holds: "arr_step s t \<Longrightarrow> holds_since arr_view h0 s \<Longrightarrow> holds_since arr_view h0 t"
proof (induction rule: arr_step.induct)
  case (ar_assign b a h st a' h')
  show ?case
    by (rule holds_does [OF ar_assign(3,4) arr_copy_assign_ok [OF holds_held [OF ar_assign(4)] ar_assign(1,2)]])
next
  case (ar_set a val idx a' h)
  show ?case by (rule holds_edits [OF ar_set(3,4) arr_set_ok [OF holds_since_arr [OF ar_set(4)] ar_set(1,2)]])
next
  case (ar_swap_elems i a j a' h)
  show ?case
    by (rule holds_edits [OF ar_swap_elems(3,4) arr_swap_elems_ok [OF holds_since_arr [OF ar_swap_elems(4)] ar_swap_elems(1,2)]])
next
  case (ar_write h a i cell)
  then show ?case by (simp add: holds_since_def arr_ok_def)
qed

interpretation arr: container arr_view arr_step tda_arr_deinit
  by unfold_locales (fact arr_step_holds, fact arr_deinit_ok)

lemma arr_copy_assign_same_len:
  assumes "arr_ok a" "arr_ok b" "aelem b = aelem a" "alen b = alen a"
  shows "tda_arr_copy_assign False a b h = Some (TDA_STATUS_OK, a\<lparr>adata := adata b\<rparr>, h)"
proof -
  note ok = arr_okD [OF assms(1)] and okb = arr_okD [OF assms(2)]
  have "arr_ok (a\<lparr>adata := adata b\<rparr>)" using ok(1,3,4) okb(2) assms(4) by (simp add: arr_ok_def)
  from arr_okD(5) [OF this] have c: "ASSERT_ARR (a\<lparr>adata := adata b\<rparr>) = Some ()" .
  have e: "EXPECT_SAME_ARR a b = Some ()" "adata b = [] \<longleftrightarrow> adata a = []"
    using assms(3,4) ok(2) okb(2) by (auto simp: EXPECT_SAME_ARR_def tda_layout_eq_def)
  have p: "slots_put (adata a) 0 (adata b) = Some (adata b)" using ok(2) okb(2) assms(4) by (simp add: slots_put_Some)
  show ?thesis
  proof (cases "alen a = 0")
    case True
    then have "adata a = []" "adata b = []" using ok(2) okb(2) assms(4) by simp_all
    moreover from this have "a\<lparr>adata := []\<rparr> = a" by simp
    ultimately show ?thesis using ok okb assms e(1) True by (simp add: tda_arr_copy_assign_def)
  next
    case False
    then show ?thesis using ok okb assms e(1) c p by (simp add: tda_arr_copy_assign_def)
  qed
qed

section \<open>The properties\<close>

text \<open>
  C27: an array made of elements, of zeroed elements or as a copy holds those; copy_assign gives
  it the other's elements and length, through a realloc only when the length differs, and fails
  only when the allocator refuses; set and swap_elems are the list updates and stop outside the
  array; into_raw and init_raw are inverse.
\<close>

theorem arr_operations:
  fixes a b :: "'e arr"
  assumes "held_by arr_view h a" "arr_ok b" "aelem b = aelem a" "al \<noteq> 0"
  shows "(\<forall>xs :: 'e slots. call_makes arr_view h al (aelem a) (tda_arr_from_data xs (aelem a) al h)
      (lsize (aelem a) * length xs \<le> SIZE_MAX) xs) \<and>
    (\<forall>(zero :: 'e) n. call_makes arr_view h al (aelem a) (tda_arr_init_len zero n (aelem a) al h)
      (lsize (aelem a) * n \<le> SIZE_MAX) (replicate n (Some zero))) \<and>
    call_makes arr_view h al (aelem a) (tda_arr_copy_with a al h) (lsize (aelem a) * alen a \<le> SIZE_MAX) (adata a) \<and>
    call_does arr_view h a (tda_arr_copy_assign False a b h) True (adata b) \<and>
    (alen b = alen a \<longrightarrow> tda_arr_copy_assign False a b h = Some (TDA_STATUS_OK, a\<lparr>adata := adata b\<rparr>, h)) \<and>
    (\<forall>val i. arr_arg_ok a val \<and> i < alen a \<longrightarrow>
      call_edits arr_view a (tda_arr_set a i val) ((adata a)[i := arr_arg_val a val])) \<and>
    (\<forall>val i. i \<ge> alen a \<longrightarrow> tda_arr_set a i val = None \<and> tda_arr_get a i = None) \<and>
    (\<forall>i j. i < alen a \<and> j < alen a \<longrightarrow>
      call_edits arr_view a (tda_arr_swap_elems a i j) ((adata a)[i := adata a ! j, j := adata a ! i])) \<and>
    (\<forall>i j. i \<ge> alen a \<or> j \<ge> alen a \<longrightarrow> tda_arr_swap_elems a i j = None) \<and>
    (\<exists>data n elem. tda_arr_into_raw a = Some ((data, n, elem), arr_null) \<and> tda_arr_init_raw data n elem (aal a) = Some a)"
proof -
  have a: "arr_ok a" using assms(1) by (simp add: held_by_arr)
  note ok = arr_okD [OF a]
  have "\<forall>val i. i \<ge> alen a \<longrightarrow> tda_arr_set a i val = None \<and> tda_arr_get a i = None"
    by (simp add: tda_arr_set_def tda_arr_get_def ok)
  moreover have "\<forall>i j. i \<ge> alen a \<or> j \<ge> alen a \<longrightarrow> tda_arr_swap_elems a i j = None"
    by (auto simp: tda_arr_swap_elems_def chk_def)
  moreover have "alen b = alen a \<longrightarrow> tda_arr_copy_assign False a b h = Some (TDA_STATUS_OK, a\<lparr>adata := adata b\<rparr>, h)"
    using arr_copy_assign_same_len [OF a assms(2,3)] by blast
  moreover have "\<exists>data n elem. tda_arr_into_raw a = Some ((data, n, elem), arr_null) \<and>
      tda_arr_init_raw data n elem (aal a) = Some a"
    using ok by (simp add: tda_arr_into_raw_def tda_arr_init_raw_def ckd_array_type)
  ultimately show ?thesis
  proof (intro conjI allI impI; (elim conjE)?)
    fix zero :: 'e and n
    show "call_makes arr_view h al (aelem a) (tda_arr_init_len zero n (aelem a) al h)
        (lsize (aelem a) * n \<le> SIZE_MAX) (replicate n (Some zero))"
      using arr_init_impl_ok [OF ok(1) assms(4), of h "Some zero" n] ok(1) assms(4) by (simp add: tda_arr_init_len_def)
  qed (assumption | blast intro: arr_from_data_ok [OF ok(1) assms(4)] arr_copy_with_ok [OF a assms(4)]
      arr_copy_assign_ok [OF assms(1-3)] arr_set_ok [OF a] arr_swap_elems_ok [OF a])+
qed

text \<open>An array of two assigned an array of none gives its block back; assigned one of two, it asks for nothing.\<close>

theorem arr_operations_witness:
  "let e = \<lparr>lsize = 4, lalign = 4\<rparr>;
       a = \<lparr>adata = [Some 7, Some (8 :: 32 word)], alen = 2, aelem = e, aal = 1\<rparr>;
       b = \<lparr>adata = [], alen = 0, aelem = e, aal = 2\<rparr>;
       c = \<lparr>adata = [Some 5, Some 6], alen = 2, aelem = e, aal = 2\<rparr>;
       h = (\<lambda>_. \<lparr>answers = [False], live = {#\<lparr>lsize = 8, lalign = 4\<rparr>#}\<rparr>)
   in call_does arr_view h a (tda_arr_copy_assign False a b h) True [] \<and>
     tda_arr_copy_assign False a c h = Some (TDA_STATUS_OK, \<lparr>adata = [Some 5, Some 6], alen = 2, aelem = e, aal = 1\<rparr>, h) \<and>
     tda_arr_swap_elems a 1 2 = None"
proof -
  let ?e = "\<lparr>lsize = 4, lalign = 4\<rparr> :: layout"
  let ?a = "\<lparr>adata = [Some 7, Some (8 :: 32 word)], alen = 2, aelem = ?e, aal = 1\<rparr>"
  let ?b = "\<lparr>adata = [], alen = 0, aelem = ?e, aal = 2\<rparr> :: 32 word arr"
  let ?c = "\<lparr>adata = [Some 5, Some 6], alen = 2, aelem = ?e, aal = 2\<rparr> :: 32 word arr"
  let ?h = "(\<lambda>_. \<lparr>answers = [False], live = {#\<lparr>lsize = 8, lalign = 4\<rparr>#}\<rparr>) :: heap"
  have "tda_layout_is_align 4" by (simp add: is_align_iff) (rule exI [of _ 2], simp)
  then have a: "held_by arr_view ?h ?a" "arr_ok ?b" "arr_ok ?c" "aelem ?b = aelem ?a" "aelem ?c = aelem ?a" "aal ?b \<noteq> 0"
    by (simp_all add: held_by_arr arr_ok_def held_def lives_def tda_layout_is_type_def SIZE_MAX_def)
  from arr_operations [OF a(1,2,4,6)] have "call_does arr_view ?h ?a (tda_arr_copy_assign False ?a ?b ?h) True (adata ?b)" by blast
  moreover have "tda_arr_copy_assign False ?a ?c ?h = Some (TDA_STATUS_OK, ?a\<lparr>adata := adata ?c\<rparr>, ?h)"
    using arr_operations [OF a(1,3,5,6)] by simp
  moreover have "tda_arr_swap_elems ?a 1 2 = None" using arr_operations [OF a(1,3,5,6)] by simp
  ultimately show ?thesis by (simp add: Let_def)
qed

end
