(* ===== verification/Bits.thy ===== *)
theory Bits
  imports Layout
begin

text \<open>
  The bit queries of \<open>internal/bits.h\<close>. Those that have no answer for 0 assert that it is not 0.
\<close>

unbundle bit_operations_syntax

definition tda_is_pow2 :: "nat \<Rightarrow> bool" where
  "tda_is_pow2 n \<longleftrightarrow> n > 0 \<and> (n AND (n - 1)) = 0"

definition tda_bit_count :: "64 word \<Rightarrow> nat" where
  "tda_bit_count word = length (filter (bit word) [0..<64])"

definition tda_bit_ctz :: "64 word \<Rightarrow> nat option" where
  "tda_bit_ctz word = do { chk (word \<noteq> 0); Some (length (takeWhile (\<lambda>i. \<not> bit word i) [0..<64])) }"

definition tda_bit_clz :: "64 word \<Rightarrow> nat option" where
  "tda_bit_clz word = do { chk (word \<noteq> 0); Some (length (takeWhile (\<lambda>i. \<not> bit word i) (rev [0..<64]))) }"

lemma is_pow2_iff: "tda_is_pow2 n \<longleftrightarrow> (\<exists>k. n = 2 ^ k)"
  using is_align_iff [of n] by (simp add: tda_is_pow2_def tda_layout_is_align_def)

text \<open>The trailing zeros of a power of two.\<close>

lemma ctz_pow2:
  assumes "k < 64"
  shows "tda_bit_ctz (of_nat (2 ^ k)) = Some k"
proof -
  have bit: "bit (of_nat (2 ^ k) :: 64 word) i \<longleftrightarrow> i = k" for i
    using assms by (auto simp: bit_simps)
  have "(of_nat (2 ^ k) :: 64 word) \<noteq> 0"
  proof
    assume "(of_nat (2 ^ k) :: 64 word) = 0"
    then show False using bit [of k] assms by simp
  qed
  moreover have "takeWhile (\<lambda>i. i \<noteq> k) [0..<64] = [0..<k]"
  proof -
    have "[0..<64] = [0..<k] @ k # [Suc k..<64]"
      using assms upt_add_eq_append [of 0 k "64 - k"] by (simp add: upt_conv_Cons)
    then show ?thesis by (simp add: takeWhile_append takeWhile_eq_all_conv)
  qed
  ultimately show ?thesis unfolding tda_bit_ctz_def bit by (simp del: upt_rec_numeral of_nat_power)
qed

end
