(* ===== verification/Bitset.thy ===== *)
theory Bitset
  imports Account Search Bits
begin

text \<open>
  \<open>ds/bitset.h\<close>, \<open>ds/bitset.c\<close>, over the bit queries of \<open>Bits\<close>: a fixed set of indices,
  one bit each, 64 to a word. The words are a list, empty for the null pointer; the allocator is the
  account of \<open>Account\<close>. An \<open>out_idx\<close> is the answer of a hit. The pairwise operations read a word of the
  other operand before they write that word, so both being one object is no special case.

  The specification is the set of the indices: \<open>members\<close>.
\<close>

unbundle bit_operations_syntax

record bitset =
  bwords :: "64 word list"
  nbits :: nat
  nwords :: nat
  balloc :: al

section \<open>Internals\<close>

definition WORD_BITS :: nat where "WORD_BITS = 64"
definition WORD_ONES :: "64 word" where "WORD_ONES = NOT 0"
definition U64 :: layout where "U64 = \<lparr>lsize = 8, lalign = 8\<rparr>"

definition words_for :: "nat \<Rightarrow> nat" where
  "words_for n = n div WORD_BITS + of_bool (n mod WORD_BITS \<noteq> 0)"

definition word_of :: "nat \<Rightarrow> nat" where
  "word_of idx = idx div WORD_BITS"

definition tail_mask :: "nat \<Rightarrow> 64 word" where
  "tail_mask n = (let rem = n mod WORD_BITS in if rem = 0 then WORD_ONES else push_bit rem 1 - 1)"

definition word_get :: "64 word list \<Rightarrow> nat \<Rightarrow> 64 word option" where
  "word_get ws w = (if w < length ws then Some (ws ! w) else None)"

definition word_put :: "64 word list \<Rightarrow> nat \<Rightarrow> 64 word \<Rightarrow> 64 word list option" where
  "word_put ws w x = (if w < length ws then Some (ws[w := x]) else None)"

definition ASSERT_BITSET :: "bitset \<Rightarrow> unit option" where
  "ASSERT_BITSET b = do {
     chk (nwords b = words_for (nbits b));
     chk (nwords b > 0 \<or> bwords b = []);
     chk (nwords b = 0 \<or> bwords b \<noteq> []);
     (if nwords b = 0 then Some ()
      else do { last \<leftarrow> word_get (bwords b) (nwords b - 1); chk ((last AND NOT (tail_mask (nbits b))) = 0) });
     chk (balloc b \<noteq> 0)
   }"

definition EXPECT_SAME_BITSET :: "bitset \<Rightarrow> bitset \<Rightarrow> unit option" where
  "EXPECT_SAME_BITSET a b = chk (nbits a = nbits b)"

text \<open>\<open>memcpy\<close> of all words and \<open>memset\<close> of all their bytes.\<close>

definition copy_words :: "bitset \<Rightarrow> bitset \<Rightarrow> bitset option" where
  "copy_words dst src = do {
     chk (nwords dst = nwords src);
     if nwords src > 0 then do {
       chk (nwords src \<le> length (bwords src) \<and> nwords src \<le> length (bwords dst));
       Some (dst\<lparr>bwords := take (nwords src) (bwords src) @ drop (nwords src) (bwords dst)\<rparr>)
     }
     else Some dst
   }"

definition fill_words :: "bitset \<Rightarrow> byte \<Rightarrow> bitset option" where
  "fill_words b byte =
     (if nwords b > 0 then do {
        chk (bwords b \<noteq> [] \<and> nwords b \<le> length (bwords b));
        Some (b\<lparr>bwords := replicate (nwords b) (word_rcat (replicate 8 byte)) @ drop (nwords b) (bwords b)\<rparr>)
      }
      else Some b)"

definition clear_tail :: "bitset \<Rightarrow> bitset option" where
  "clear_tail b =
     (if nwords b > 0 then do {
        last \<leftarrow> word_get (bwords b) (nwords b - 1);
        ws \<leftarrow> word_put (bwords b) (nwords b - 1) (last AND tail_mask (nbits b));
        Some (b\<lparr>bwords := ws\<rparr>)
      }
      else Some b)"

definition word_from :: "64 word \<Rightarrow> nat \<Rightarrow> 64 word" where
  "word_from word from = word AND push_bit (from mod WORD_BITS) WORD_ONES"

definition idx_of_first_one :: "nat \<Rightarrow> 64 word \<Rightarrow> nat option" where
  "idx_of_first_one w word = do { z \<leftarrow> tda_bit_ctz word; Some (w * WORD_BITS + z) }"

definition word_upto :: "64 word \<Rightarrow> nat \<Rightarrow> 64 word" where
  "word_upto word upto_ix = word AND drop_bit (WORD_BITS - 1 - upto_ix mod WORD_BITS) WORD_ONES"

definition idx_of_last_one :: "nat \<Rightarrow> 64 word \<Rightarrow> nat option" where
  "idx_of_last_one w word = do { z \<leftarrow> tda_bit_clz word; Some (w * WORD_BITS + (WORD_BITS - 1 - z)) }"

definition word_as_seen :: "bitset \<Rightarrow> nat \<Rightarrow> bool \<Rightarrow> 64 word option" where
  "word_as_seen b w clear = do { x \<leftarrow> word_get (bwords b) w; Some (x XOR (if clear then WORD_ONES else 0)) }"

function find_next_loop :: "bitset \<Rightarrow> bool \<Rightarrow> nat \<Rightarrow> 64 word \<Rightarrow> nat option option" where
  "find_next_loop b clear w word =
     (if word \<noteq> 0 then do {
        idx \<leftarrow> idx_of_first_one w word;
        Some (if idx \<ge> nbits b then None else Some idx)
      }
      else if w + 1 = nwords b then Some None
      else do {
        word \<leftarrow> word_as_seen b (w + 1) clear;
        find_next_loop b clear (w + 1) word
      })"
  by pat_completeness auto
termination
  by (relation "measure (\<lambda>(b, clear, w, word). length (bwords b) - w)")
    (auto simp: word_as_seen_def word_get_def bind_Some_iff split: if_splits)

definition find_next_impl :: "bitset \<Rightarrow> bool \<Rightarrow> nat \<Rightarrow> nat option option" where
  "find_next_impl b clear from =
     (if from \<ge> nbits b then Some None
      else do {
        let w = word_of from;
        word \<leftarrow> word_as_seen b w clear;
        find_next_loop b clear w (word_from word from)
      })"

fun find_prev_loop :: "bitset \<Rightarrow> bool \<Rightarrow> nat \<Rightarrow> 64 word \<Rightarrow> nat option option" where
  "find_prev_loop b clear w word =
     (if word \<noteq> 0 then do { idx \<leftarrow> idx_of_last_one w word; Some (Some idx) }
      else if w = 0 then Some None
      else do {
        word \<leftarrow> word_as_seen b (w - 1) clear;
        find_prev_loop b clear (w - 1) word
      })"

definition find_prev_impl :: "bitset \<Rightarrow> bool \<Rightarrow> nat \<Rightarrow> nat option option" where
  "find_prev_impl b clear from =
     (if nbits b = 0 then Some None
      else do {
        let from = (if from \<ge> nbits b then nbits b - 1 else from);
        let w = word_of from;
        word \<leftarrow> word_as_seen b w clear;
        find_prev_loop b clear w (word_upto word from)
      })"

declare find_next_loop.simps [simp del] find_prev_loop.simps [simp del]

text \<open>The loops over the words: one that writes each from both operands', one that stops early.\<close>

function words_zip_loop ::
  "(64 word \<Rightarrow> 64 word \<Rightarrow> 64 word) \<Rightarrow> nat \<Rightarrow> 64 word list \<Rightarrow> 64 word list \<Rightarrow> nat \<Rightarrow> 64 word list option" where
  "words_zip_loop f n self other w =
     (if w < n then do {
        x \<leftarrow> word_get self w;
        y \<leftarrow> word_get other w;
        self \<leftarrow> word_put self w (f x y);
        words_zip_loop f n self other (w + 1)
      }
      else Some self)"
  by pat_completeness auto
termination by (relation "measure (\<lambda>(f, n, self, other, w). n - w)") auto

function words_all_loop ::
  "(nat \<Rightarrow> 64 word \<Rightarrow> 64 word \<Rightarrow> bool) \<Rightarrow> nat \<Rightarrow> 64 word list \<Rightarrow> 64 word list \<Rightarrow> nat \<Rightarrow> bool option" where
  "words_all_loop p n self other w =
     (if w < n then do {
        x \<leftarrow> word_get self w;
        y \<leftarrow> word_get other w;
        if \<not> p w x y then Some False else words_all_loop p n self other (w + 1)
      }
      else Some True)"
  by pat_completeness auto
termination by (relation "measure (\<lambda>(p, n, self, other, w). n - w)") auto

function count_words_loop :: "nat \<Rightarrow> 64 word list \<Rightarrow> nat \<Rightarrow> nat \<Rightarrow> nat option" where
  "count_words_loop n ws cnt w =
     (if w < n then do {
        x \<leftarrow> word_get ws w;
        count_words_loop n ws (cnt + tda_bit_count x) (w + 1)
      }
      else Some cnt)"
  by pat_completeness auto
termination by (relation "measure (\<lambda>(n, ws, cnt, w). n - w)") auto

declare words_zip_loop.simps [simp del] words_all_loop.simps [simp del] count_words_loop.simps [simp del]

section \<open>Lifetime\<close>

text \<open>The inert bitset, \<open>(tda_BitSet){}\<close>.\<close>

definition bitset_null :: bitset where
  "bitset_null = \<lparr>bwords = [], nbits = 0, nwords = 0, balloc = 0\<rparr>"

definition tda_bitset_init_nbits :: "nat \<Rightarrow> al \<Rightarrow> heap \<Rightarrow> ((tda_status + bitset) \<times> heap) option" where
  "tda_bitset_init_nbits n al h = do {
     chk (al \<noteq> 0);
     let obj = \<lparr>bwords = [], nbits = n, nwords = words_for n, balloc = al\<rparr>;
     if nwords obj > 0 then do {
       (ptr, h) \<leftarrow> al_alloc_n al U64 (nwords obj) h;
       if \<not> ptr then Some (Inl TDA_STATUS_ERR_NO_MEM, h)
       else do {
         let obj = obj\<lparr>bwords := replicate (nwords obj) 0\<rparr>;
         ASSERT_BITSET obj;
         Some (Inr obj, h)
       }
     }
     else do { ASSERT_BITSET obj; Some (Inr obj, h) }
   }"

definition tda_bitset_init_len :: "nat \<Rightarrow> al \<Rightarrow> heap \<Rightarrow> ((tda_status + bitset) \<times> heap) option" where
  "tda_bitset_init_len = tda_bitset_init_nbits"

section \<open>One bit\<close>

definition tda_bitset_test :: "bitset \<Rightarrow> nat \<Rightarrow> bool option" where
  "tda_bitset_test b idx = do {
     chk (balloc b \<noteq> 0);
     chk (idx < nbits b);
     x \<leftarrow> word_get (bwords b) (idx div 64);
     Some ((x AND push_bit (idx mod 64) 1) \<noteq> 0)
   }"

definition tda_bitset_set :: "bitset \<Rightarrow> nat \<Rightarrow> bitset option" where
  "tda_bitset_set b idx = do {
     chk (balloc b \<noteq> 0);
     chk (idx < nbits b);
     x \<leftarrow> word_get (bwords b) (idx div 64);
     ws \<leftarrow> word_put (bwords b) (idx div 64) (x OR push_bit (idx mod 64) 1);
     Some (b\<lparr>bwords := ws\<rparr>)
   }"

definition tda_bitset_reset :: "bitset \<Rightarrow> nat \<Rightarrow> bitset option" where
  "tda_bitset_reset b idx = do {
     chk (balloc b \<noteq> 0);
     chk (idx < nbits b);
     x \<leftarrow> word_get (bwords b) (idx div 64);
     ws \<leftarrow> word_put (bwords b) (idx div 64) (x AND NOT (push_bit (idx mod 64) 1));
     Some (b\<lparr>bwords := ws\<rparr>)
   }"

definition tda_bitset_flip :: "bitset \<Rightarrow> nat \<Rightarrow> bitset option" where
  "tda_bitset_flip b idx = do {
     chk (balloc b \<noteq> 0);
     chk (idx < nbits b);
     x \<leftarrow> word_get (bwords b) (idx div 64);
     ws \<leftarrow> word_put (bwords b) (idx div 64) (x XOR push_bit (idx mod 64) 1);
     Some (b\<lparr>bwords := ws\<rparr>)
   }"

definition tda_bitset_set_to :: "bitset \<Rightarrow> nat \<Rightarrow> bool \<Rightarrow> bitset option" where
  "tda_bitset_set_to b idx val = do {
     ASSERT_BITSET b;
     chk (idx < nbits b);
     if val then tda_bitset_set b idx else tda_bitset_reset b idx
   }"

fun from_span_loop :: "bitset \<Rightarrow> nat list \<Rightarrow> bitset option" where
  "from_span_loop b [] = Some b"
| "from_span_loop b (idx # s) = do { b \<leftarrow> tda_bitset_set b idx; from_span_loop b s }"

definition tda_bitset_from_span ::
  "nat \<Rightarrow> nat list \<Rightarrow> layout \<Rightarrow> al \<Rightarrow> heap \<Rightarrow> ((tda_status + bitset) \<times> heap) option" where
  "tda_bitset_from_span n s elem al h = do {
     chk (tda_layout_is_type elem);
     chk (al \<noteq> 0);
     chk (tda_layout_eq U64 elem);
     (r, h) \<leftarrow> tda_bitset_init_nbits n al h;
     case r of
       Inl st \<Rightarrow> Some (Inl st, h)
     | Inr obj \<Rightarrow> do {
         obj \<leftarrow> from_span_loop obj s;
         ASSERT_BITSET obj;
         Some (Inr obj, h)
       }
   }"

definition tda_bitset_deinit :: "bitset \<Rightarrow> heap \<Rightarrow> (bitset \<times> heap) option" where
  "tda_bitset_deinit b h =
     (if balloc b = 0 then do { chk (bwords b = []); Some (b, h) }
      else do {
        ASSERT_BITSET b;
        h \<leftarrow> al_dealloc_n (balloc b) (bwords b \<noteq> []) U64 (nwords b) h;
        Some (bitset_null, h)
      })"

section \<open>Copy\<close>

definition tda_bitset_copy_with :: "bitset \<Rightarrow> al \<Rightarrow> heap \<Rightarrow> ((tda_status + bitset) \<times> heap) option" where
  "tda_bitset_copy_with b al h = do {
     ASSERT_BITSET b;
     chk (al \<noteq> 0);
     (r, h) \<leftarrow> tda_bitset_init_nbits (nbits b) al h;
     case r of
       Inl st \<Rightarrow> Some (Inl st, h)
     | Inr copy \<Rightarrow> do { copy \<leftarrow> copy_words copy b; Some (Inr copy, h) }
   }"

definition tda_bitset_copy :: "bitset \<Rightarrow> heap \<Rightarrow> ((tda_status + bitset) \<times> heap) option" where
  "tda_bitset_copy b h = do { ASSERT_BITSET b; tda_bitset_copy_with b (balloc b) h }"

text \<open>The words of a \<open>realloc\<close>ed block: those both sizes have, then unspecified ones, here \<open>junk\<close>.\<close>

definition tda_bitset_copy_assign ::
  "(nat \<Rightarrow> 64 word) \<Rightarrow> bool \<Rightarrow> bitset \<Rightarrow> bitset \<Rightarrow> heap \<Rightarrow> (tda_status \<times> bitset \<times> heap) option" where
  "tda_bitset_copy_assign junk same b other h = do {
     ASSERT_BITSET b;
     ASSERT_BITSET other;
     if same then Some (TDA_STATUS_OK, b, h)
     else do {
       (st, b, h) \<leftarrow>
         (if nwords b \<noteq> nwords other then do {
            (ptr, h) \<leftarrow> al_realloc_n (balloc b) (bwords b \<noteq> []) U64 (nwords b) (nwords other) h;
            if nwords other > 0 \<and> \<not> ptr then Some (TDA_STATUS_ERR_NO_MEM, b, h)
            else Some (TDA_STATUS_OK, b\<lparr>bwords := (if ptr
                then take (nwords other) (bwords b) @ map junk [nwords b..<nwords other] else []),
              nwords := nwords other\<rparr>, h)
          }
          else Some (TDA_STATUS_OK, b, h));
       if status_is_err st then Some (st, b, h)
       else do {
         b \<leftarrow> copy_words (b\<lparr>nbits := nbits other\<rparr>) other;
         ASSERT_BITSET b;
         Some (TDA_STATUS_OK, b, h)
       }
     }
   }"

definition tda_bitset_move_assign :: "bool \<Rightarrow> bitset \<Rightarrow> bitset \<Rightarrow> heap \<Rightarrow> (bitset \<times> bitset \<times> heap) option" where
  "tda_bitset_move_assign same b other h = do {
     ASSERT_BITSET other;
     (if balloc b \<noteq> 0 then ASSERT_BITSET b else Some ());
     if same then Some (b, other, h)
     else do {
       (_, h) \<leftarrow> tda_bitset_deinit b h;
       let b = other;
       let other = bitset_null\<lparr>balloc := balloc b\<rparr>;
       ASSERT_BITSET b;
       ASSERT_BITSET other;
       Some (b, other, h)
     }
   }"

definition tda_bitset_swap :: "bool \<Rightarrow> bitset \<Rightarrow> bitset \<Rightarrow> (bitset \<times> bitset) option" where
  "tda_bitset_swap same b other = do {
     ASSERT_BITSET b;
     ASSERT_BITSET other;
     if same then Some (b, other)
     else do {
       let (b, other) = (other, b);
       ASSERT_BITSET b;
       ASSERT_BITSET other;
       Some (b, other)
     }
   }"

section \<open>All bits\<close>

definition tda_bitset_set_all :: "bitset \<Rightarrow> bitset option" where
  "tda_bitset_set_all b = do {
     ASSERT_BITSET b;
     b \<leftarrow> fill_words b 0xFF;
     b \<leftarrow> clear_tail b;
     ASSERT_BITSET b;
     Some b
   }"

definition tda_bitset_reset_all :: "bitset \<Rightarrow> bitset option" where
  "tda_bitset_reset_all b = do {
     ASSERT_BITSET b;
     b \<leftarrow> fill_words b 0;
     ASSERT_BITSET b;
     Some b
   }"

definition tda_bitset_flip_all :: "bitset \<Rightarrow> bitset option" where
  "tda_bitset_flip_all b = do {
     ASSERT_BITSET b;
     ws \<leftarrow> words_zip_loop (\<lambda>x _. NOT x) (nwords b) (bwords b) (bwords b) 0;
     b \<leftarrow> clear_tail (b\<lparr>bwords := ws\<rparr>);
     ASSERT_BITSET b;
     Some b
   }"

section \<open>Info\<close>

definition tda_bitset_count :: "bitset \<Rightarrow> nat option" where
  "tda_bitset_count b = do { ASSERT_BITSET b; count_words_loop (nwords b) (bwords b) 0 0 }"

definition tda_bitset_any :: "bitset \<Rightarrow> bool option" where
  "tda_bitset_any b = do {
     ASSERT_BITSET b;
     clear \<leftarrow> words_all_loop (\<lambda>_ x _. \<not> x \<noteq> 0) (nwords b) (bwords b) (bwords b) 0;
     Some (\<not> clear)
   }"

definition tda_bitset_all :: "bitset \<Rightarrow> bool option" where
  "tda_bitset_all b = do {
     ASSERT_BITSET b;
     words_all_loop (\<lambda>w x _. let want = (if w + 1 = nwords b then tail_mask (nbits b) else WORD_ONES)
       in \<not> x \<noteq> want) (nwords b) (bwords b) (bwords b) 0
   }"

definition tda_bitset_none :: "bitset \<Rightarrow> bool option" where
  "tda_bitset_none b = do { ASSERT_BITSET b; any \<leftarrow> tda_bitset_any b; Some (\<not> any) }"

definition tda_bitset_nbits :: "bitset \<Rightarrow> nat option" where
  "tda_bitset_nbits b = do { chk (balloc b \<noteq> 0); Some (nbits b) }"

definition tda_bitset_al :: "bitset \<Rightarrow> al option" where
  "tda_bitset_al b = do { chk (balloc b \<noteq> 0); Some (balloc b) }"

section \<open>Scan\<close>

definition tda_bitset_find_next :: "bitset \<Rightarrow> nat \<Rightarrow> nat option option" where
  "tda_bitset_find_next b from = do { ASSERT_BITSET b; find_next_impl b False from }"

definition tda_bitset_find_next_clear :: "bitset \<Rightarrow> nat \<Rightarrow> nat option option" where
  "tda_bitset_find_next_clear b from = do { ASSERT_BITSET b; find_next_impl b True from }"

definition tda_bitset_find_prev :: "bitset \<Rightarrow> nat \<Rightarrow> nat option option" where
  "tda_bitset_find_prev b from = do { ASSERT_BITSET b; find_prev_impl b False from }"

definition tda_bitset_find_prev_clear :: "bitset \<Rightarrow> nat \<Rightarrow> nat option option" where
  "tda_bitset_find_prev_clear b from = do { ASSERT_BITSET b; find_prev_impl b True from }"

section \<open>Set operations\<close>

text \<open>\<open>memcmp\<close> of the words: their bytes are equal when they are.\<close>

definition tda_bitset_eq :: "bool \<Rightarrow> bitset \<Rightarrow> bitset \<Rightarrow> bool option" where
  "tda_bitset_eq same a b = do {
     ASSERT_BITSET a;
     ASSERT_BITSET b;
     if same then Some True
     else if nbits a \<noteq> nbits b then Some False
     else if nwords a = 0 then Some True
     else do {
       chk (nwords a \<le> length (bwords a) \<and> nwords a \<le> length (bwords b));
       Some (take (nwords a) (bwords a) = take (nwords a) (bwords b))
     }
   }"

definition bitset_zip :: "(64 word \<Rightarrow> 64 word \<Rightarrow> 64 word) \<Rightarrow> bitset \<Rightarrow> bitset \<Rightarrow> bitset option" where
  "bitset_zip f b other = do {
     ASSERT_BITSET b;
     ASSERT_BITSET other;
     EXPECT_SAME_BITSET b other;
     ws \<leftarrow> words_zip_loop f (nwords b) (bwords b) (bwords other) 0;
     let b = b\<lparr>bwords := ws\<rparr>;
     ASSERT_BITSET b;
     Some b
   }"

definition tda_bitset_union :: "bitset \<Rightarrow> bitset \<Rightarrow> bitset option" where
  "tda_bitset_union = bitset_zip (\<lambda>x y. x OR y)"

definition tda_bitset_intersection :: "bitset \<Rightarrow> bitset \<Rightarrow> bitset option" where
  "tda_bitset_intersection = bitset_zip (\<lambda>x y. x AND y)"

definition tda_bitset_difference :: "bitset \<Rightarrow> bitset \<Rightarrow> bitset option" where
  "tda_bitset_difference = bitset_zip (\<lambda>x y. x AND NOT y)"

definition tda_bitset_symmetric_difference :: "bitset \<Rightarrow> bitset \<Rightarrow> bitset option" where
  "tda_bitset_symmetric_difference = bitset_zip (\<lambda>x y. x XOR y)"

definition tda_bitset_is_subset :: "bitset \<Rightarrow> bitset \<Rightarrow> bool option" where
  "tda_bitset_is_subset b other = do {
     ASSERT_BITSET b;
     ASSERT_BITSET other;
     EXPECT_SAME_BITSET b other;
     words_all_loop (\<lambda>_ x y. \<not> (x AND NOT y) \<noteq> 0) (nwords b) (bwords b) (bwords other) 0
   }"

definition tda_bitset_intersects :: "bitset \<Rightarrow> bitset \<Rightarrow> bool option" where
  "tda_bitset_intersects b other = do {
     ASSERT_BITSET b;
     ASSERT_BITSET other;
     EXPECT_SAME_BITSET b other;
     apart \<leftarrow> words_all_loop (\<lambda>_ x y. \<not> (x AND y) \<noteq> 0) (nwords b) (bwords b) (bwords other) 0;
     Some (\<not> apart)
   }"

section \<open>The set of indices\<close>

definition members :: "bitset \<Rightarrow> nat set" where
  "members b = {i. i div 64 < length (bwords b) \<and> bit (bwords b ! (i div 64)) (i mod 64)}"

definition bitset_ok :: "bitset \<Rightarrow> bool" where
  "bitset_ok b \<longleftrightarrow> nwords b = words_for (nbits b) \<and> length (bwords b) = nwords b \<and> balloc b \<noteq> 0 \<and>
     members b \<subseteq> {..<nbits b} \<and> nbits b \<le> SIZE_MAX"

lemma words_for_lt:
  assumes "j < 64" "w < words_for n"
  shows "w * 64 + j < n \<longleftrightarrow> w + 1 < words_for n \<or> n mod 64 = 0 \<or> j < n mod 64"
proof -
  define q r where qr: "q = n div 64" "r = n mod 64"
  have n: "n = 64 * q + r" "r < 64" by (simp_all add: qr)
  have f: "words_for n = q + of_bool (r \<noteq> 0)" by (simp add: words_for_def WORD_BITS_def qr)
  show ?thesis
    unfolding qr(2) [symmetric] using assms n f by (cases "r = 0"; cases "w < q") (simp_all, linarith+)
qed

lemma word_of_lt: "i < n \<Longrightarrow> i div 64 < words_for n"
proof -
  assume "i < n"
  then have "i div 64 \<le> n div 64" by (simp add: div_le_mono)
  moreover have "i div 64 = n div 64 \<Longrightarrow> n mod 64 \<noteq> 0"
    using \<open>i < n\<close> by (metis add.right_neutral div_mult_mod_eq le_add1 leD)
  ultimately show ?thesis by (cases "i div 64 = n div 64") (auto simp: words_for_def WORD_BITS_def)
qed

lemma words_for_0 [simp]: "words_for 0 = 0"
  by (simp add: words_for_def)

lemma words_for_pos: "0 < n \<Longrightarrow> 0 < words_for n"
  using word_of_lt [of 0 n] by simp

lemma bit_tail_mask: "j < 64 \<Longrightarrow> bit (tail_mask n) j \<longleftrightarrow> n mod 64 = 0 \<or> j < n mod 64"
  by (auto simp: tail_mask_def WORD_ONES_def WORD_BITS_def Let_def bit_not_iff mask_eq_exp_minus_1 [symmetric]
      bit_mask_iff push_bit_of_1)

lemma word_zero_iff: "x = 0 \<longleftrightarrow> (\<forall>j < 64. \<not> bit x j)" for x :: "64 word"
proof -
  have "x = 0 \<longleftrightarrow> (\<forall>j < LENGTH(64). bit x j = bit (0 :: 64 word) j)"
    by (auto intro: bit_word_eqI)
  then show ?thesis by simp
qed

lemma word_eq_bits: "x = y \<longleftrightarrow> (\<forall>j < 64. bit x j \<longleftrightarrow> bit y j)" for x y :: "64 word"
proof -
  have "x = y \<longleftrightarrow> (\<forall>j < LENGTH(64). bit x j = bit y j)"
    by (auto intro: bit_word_eqI)
  then show ?thesis by simp
qed

text \<open>A word and a bit in it, for an index.\<close>

lemma members_at: "w < length (bwords b) \<Longrightarrow> j < 64 \<Longrightarrow> w * 64 + j \<in> members b \<longleftrightarrow> bit (bwords b ! w) j"
  by (simp add: members_def)

lemma all_indices: "(\<forall>i. P i) \<longleftrightarrow> (\<forall>w. \<forall>j < 64. P (w * 64 + j))" for P :: "nat \<Rightarrow> bool"
proof
  assume all: "\<forall>w. \<forall>j < 64. P (w * 64 + j)"
  show "\<forall>i. P i"
  proof
    fix i :: nat
    have "i mod 64 < 64" by simp
    with all have "P (i div 64 * 64 + i mod 64)" by blast
    then show "P i" by (simp only: div_mult_mod_eq)
  qed
qed simp

lemma members_words: "i \<in> members b \<Longrightarrow> i div 64 < length (bwords b)"
  by (simp add: members_def)

lemma ASSERT_BITSET_ok [simp]:
  assumes "bitset_ok b"
  shows "ASSERT_BITSET b = Some ()"
proof (cases "nwords b = 0")
  case True
  then show ?thesis using assms by (simp add: ASSERT_BITSET_def bitset_ok_def)
next
  case False
  let ?w = "nwords b - 1"
  have w: "?w < words_for (nbits b)" "?w < length (bwords b)" "nwords b = words_for (nbits b)"
    using False assms by (simp_all add: bitset_ok_def)
  have "(bwords b ! ?w AND NOT (tail_mask (nbits b))) = 0"
    unfolding word_zero_iff
  proof (intro allI impI)
    fix j :: nat assume j: "j < 64"
    show "\<not> bit (bwords b ! ?w AND NOT (tail_mask (nbits b))) j"
    proof
      assume "bit (bwords b ! ?w AND NOT (tail_mask (nbits b))) j"
      then have "bit (bwords b ! ?w) j" "\<not> bit (tail_mask (nbits b)) j"
        by (simp_all add: bit_and_iff bit_not_iff)
      then have "?w * 64 + j \<in> members b" "\<not> ?w * 64 + j < nbits b"
        using w j by (simp_all add: members_at bit_tail_mask words_for_lt)
      then show False using assms by (auto simp: bitset_ok_def)
    qed
  qed
  then show ?thesis
    using False assms w by (auto simp: ASSERT_BITSET_def bitset_ok_def word_get_def)
qed

lemma bitset_okD:
  assumes "bitset_ok b"
  shows "nwords b = words_for (nbits b)" "length (bwords b) = nwords b" "balloc b \<noteq> 0"
    "members b \<subseteq> {..<nbits b}" "nbits b \<le> SIZE_MAX" "(bwords b \<noteq> []) = (nwords b \<noteq> 0)"
  using assms by (auto simp: bitset_ok_def simp flip: length_greater_0_conv)

text \<open>An operation that leaves the block alone and makes the set \<open>S\<close>.\<close>

definition bitset_edits :: "bitset \<Rightarrow> bitset option \<Rightarrow> nat set \<Rightarrow> bool" where
  "bitset_edits b r S \<longleftrightarrow> (\<exists>b'. r = Some b' \<and> bitset_ok b' \<and> nbits b' = nbits b \<and> nwords b' = nwords b \<and>
     balloc b' = balloc b \<and> members b' = S)"

lemma bitset_editsI:
  assumes "bitset_ok b" "r = Some (b\<lparr>bwords := ws\<rparr>)" "length ws = nwords b"
    and "members (b\<lparr>bwords := ws\<rparr>) = S" "S \<subseteq> {..<nbits b}"
  shows "bitset_edits b r S"
  using assms by (auto simp: bitset_edits_def bitset_ok_def)

lemma bitset_ok_words:
  "bitset_ok b \<Longrightarrow> length ws = nwords b \<Longrightarrow> members (b\<lparr>bwords := ws\<rparr>) \<subseteq> {..<nbits b} \<Longrightarrow> bitset_ok (b\<lparr>bwords := ws\<rparr>)"
  by (simp add: bitset_ok_def)

section \<open>One bit, in the set\<close>

lemma bit_one: "j < 64 \<Longrightarrow> bit (push_bit k 1 :: 64 word) j \<longleftrightarrow> j = k"
  by (auto simp: bit_exp_iff)

lemma members_put:
  assumes "idx div 64 < length (bwords b)"
  shows "members (b\<lparr>bwords := (bwords b)[idx div 64 := x]\<rparr>) =
    {i. if i div 64 = idx div 64 then bit x (i mod 64) else i \<in> members b}"
  using assms by (auto simp: members_def nth_list_update)

lemma same_index: "i = idx \<longleftrightarrow> i div 64 = idx div 64 \<and> i mod 64 = idx mod 64" for i idx :: nat
  by (metis div_mult_mod_eq)

lemma bit_op_spec:
  assumes "bitset_ok b" "idx < nbits b"
  shows "bitset_edits b (tda_bitset_set b idx) (insert idx (members b))"
    and "bitset_edits b (tda_bitset_reset b idx) (members b - {idx})"
    and "bitset_edits b (tda_bitset_flip b idx)
      (if idx \<in> members b then members b - {idx} else insert idx (members b))"
    and "tda_bitset_test b idx = Some (idx \<in> members b)"
proof -
  note ok = bitset_okD [OF assms(1)]
  have w: "idx div 64 < length (bwords b)" using ok(1,2) word_of_lt [OF assms(2)] by simp
  let ?x = "bwords b ! (idx div 64)"
  define m :: "64 word" where "m = push_bit (idx mod 64) 1"
  have bits: "bit (?x OR m) (i mod 64) \<longleftrightarrow> bit ?x (i mod 64) \<or> i mod 64 = idx mod 64"
    "bit (?x AND NOT m) (i mod 64) \<longleftrightarrow> bit ?x (i mod 64) \<and> i mod 64 \<noteq> idx mod 64"
    "bit (?x XOR m) (i mod 64) \<longleftrightarrow> bit ?x (i mod 64) \<noteq> (i mod 64 = idx mod 64)" for i
    unfolding m_def using bit_one [of "i mod 64" "idx mod 64"]
    by (auto simp: bit_or_iff bit_and_iff bit_not_iff bit_xor_iff)
  have mem: "i div 64 = idx div 64 \<Longrightarrow> i \<in> members b \<longleftrightarrow> bit ?x (i mod 64)" for i
    using w by (simp add: members_def)
  have at_word: "members (b\<lparr>bwords := (bwords b)[idx div 64 := x]\<rparr>) = S"
    if "\<And>i. i div 64 = idx div 64 \<Longrightarrow> bit x (i mod 64) \<longleftrightarrow> i \<in> S"
      "\<And>i. i div 64 \<noteq> idx div 64 \<Longrightarrow> i \<in> members b \<longleftrightarrow> i \<in> S" for x S
    using that by (auto simp: members_put [OF w])
  have set: "members (b\<lparr>bwords := (bwords b)[idx div 64 := ?x OR m]\<rparr>) = insert idx (members b)"
    by (rule at_word) (auto simp: bits mem dest: same_index [THEN iffD2, OF conjI])
  have reset: "members (b\<lparr>bwords := (bwords b)[idx div 64 := ?x AND NOT m]\<rparr>) = members b - {idx}"
    by (rule at_word) (auto simp: bits mem dest: same_index [THEN iffD2, OF conjI])
  have flip: "members (b\<lparr>bwords := (bwords b)[idx div 64 := ?x XOR m]\<rparr>) =
      (if idx \<in> members b then members b - {idx} else insert idx (members b))"
    by (rule at_word) (auto simp: bits mem dest: same_index [THEN iffD2, OF conjI])
  show "bitset_edits b (tda_bitset_set b idx) (insert idx (members b))"
    by (rule bitset_editsI [OF assms(1) _ _ set])
      (use assms ok w in \<open>auto simp: tda_bitset_set_def word_get_def word_put_def m_def\<close>)
  show "bitset_edits b (tda_bitset_reset b idx) (members b - {idx})"
    by (rule bitset_editsI [OF assms(1) _ _ reset])
      (use assms ok w in \<open>auto simp: tda_bitset_reset_def word_get_def word_put_def m_def\<close>)
  show "bitset_edits b (tda_bitset_flip b idx)
      (if idx \<in> members b then members b - {idx} else insert idx (members b))"
    by (rule bitset_editsI [OF assms(1) _ _ flip])
      (use assms ok w in \<open>auto simp: tda_bitset_flip_def word_get_def word_put_def m_def\<close>)
  have "(?x AND m) \<noteq> 0 \<longleftrightarrow> bit ?x (idx mod 64)"
    unfolding word_zero_iff by (auto simp: bit_and_iff m_def bit_one simp del: push_bit_of_1)
  then show "tda_bitset_test b idx = Some (idx \<in> members b)"
    using assms ok w mem [of idx] by (simp add: tda_bitset_test_def word_get_def m_def)
qed

section \<open>All words, in the set\<close>

lemma words_zip_loop_spec:
  assumes "w \<le> n" "n \<le> length s" "n \<le> length t"
  shows "\<exists>s'. words_zip_loop f n s t w = Some s' \<and> length s' = length s \<and>
    (\<forall>i < length s. s' ! i = (if w \<le> i \<and> i < n then f (s ! i) (t ! i) else s ! i))"
  using assms
proof (induction "n - w" arbitrary: w s)
  case 0
  then have "w = n" by simp
  then show ?case by (auto simp: words_zip_loop.simps [of f n s t n])
next
  case (Suc k)
  then have w: "w < n" by simp
  let ?s = "s[w := f (s ! w) (t ! w)]"
  have step: "words_zip_loop f n s t w = words_zip_loop f n ?s t (w + 1)"
    unfolding words_zip_loop.simps [of f n s t w] using w Suc.prems by (simp add: word_get_def word_put_def)
  obtain s' where s': "words_zip_loop f n ?s t (w + 1) = Some s'" "length s' = length ?s"
    "\<forall>i < length ?s. s' ! i = (if w + 1 \<le> i \<and> i < n then f (?s ! i) (t ! i) else ?s ! i)"
  proof -
    have "k = n - (w + 1)" "w + 1 \<le> n" "n \<le> length ?s" using Suc.hyps(2) Suc.prems w by simp_all
    from Suc.hyps(1) [OF this Suc.prems(3)] show ?thesis using that by blast
  qed
  have "s' ! i = (if w \<le> i \<and> i < n then f (s ! i) (t ! i) else s ! i)" if "i < length s" for i
    using s'(3) that w by (cases "i = w") (auto simp: nth_list_update)
  then show ?case unfolding step using s'(1,2) by simp
qed

lemma words_all_loop_eq:
  assumes "w \<le> n" "n \<le> length s" "n \<le> length t"
  shows "words_all_loop p n s t w = Some (\<forall>i. w \<le> i \<and> i < n \<longrightarrow> p i (s ! i) (t ! i))"
  using assms
proof (induction "n - w" arbitrary: w)
  case 0
  then have "w = n" by simp
  then show ?case by (auto simp: words_all_loop.simps [of p n s t n])
next
  case (Suc k)
  then have w: "w < n" by simp
  have "(\<forall>i. w \<le> i \<and> i < n \<longrightarrow> p i (s ! i) (t ! i)) \<longleftrightarrow>
      p w (s ! w) (t ! w) \<and> (\<forall>i. w + 1 \<le> i \<and> i < n \<longrightarrow> p i (s ! i) (t ! i))"
    using w by (metis Suc_eq_plus1 le_antisym not_less_eq_eq order_refl Suc_leD)
  then show ?case
    unfolding words_all_loop.simps [of p n s t w]
    using w Suc.prems Suc.hyps(1) [of "w + 1"] Suc.hyps(2) by (auto simp: word_get_def)
qed

lemma count_words_loop_eq:
  assumes "w \<le> n" "n \<le> length ws"
  shows "count_words_loop n ws c w = Some (c + (\<Sum>i \<in> {w..<n}. tda_bit_count (ws ! i)))"
  using assms
proof (induction "n - w" arbitrary: w c)
  case 0
  then have "w = n" by simp
  then show ?case by (simp add: count_words_loop.simps [of n ws c n])
next
  case (Suc k)
  then have w: "w < n" by simp
  then have "(\<Sum>i \<in> {w..<n}. tda_bit_count (ws ! i)) = tda_bit_count (ws ! w) + (\<Sum>i \<in> {w + 1..<n}. tda_bit_count (ws ! i))"
    by (simp add: sum.atLeast_Suc_lessThan)
  then show ?case
    unfolding count_words_loop.simps [of n ws c w]
    using w Suc.prems Suc.hyps(1) [of "w + 1"] Suc.hyps(2) by (simp add: word_get_def)
qed

text \<open>Clearing the tail keeps what is in the universe.\<close>

lemma clear_tail_spec:
  assumes "nwords b = words_for (nbits b)" "length (bwords b) = nwords b"
  shows "\<exists>ws. clear_tail b = Some (b\<lparr>bwords := ws\<rparr>) \<and> length ws = nwords b \<and>
    members (b\<lparr>bwords := ws\<rparr>) = {i \<in> members b. i < nbits b}"
proof (cases "nwords b = 0")
  case True
  then show ?thesis
    using assms by (intro exI [of _ "bwords b"]) (auto simp: clear_tail_def members_def)
next
  case False
  let ?w = "nwords b - 1"
  let ?ws = "(bwords b)[?w := bwords b ! ?w AND tail_mask (nbits b)]"
  have w: "?w < length (bwords b)" "?w + 1 = words_for (nbits b)" using False assms by simp_all
  have eq: "clear_tail b = Some (b\<lparr>bwords := ?ws\<rparr>)"
    using False w by (simp add: clear_tail_def word_get_def word_put_def)
  have "v * 64 + j \<in> members (b\<lparr>bwords := ?ws\<rparr>) \<longleftrightarrow> v * 64 + j \<in> members b \<and> v * 64 + j < nbits b"
    if j: "j < 64" for v j
  proof (cases "v < length (bwords b)")
    case v: True
    then have "v < words_for (nbits b)" using assms by simp
    note lt = words_for_lt [OF j this]
    have "v * 64 + j \<in> members (b\<lparr>bwords := ?ws\<rparr>) \<longleftrightarrow> bit (?ws ! v) j"
      using v j by (simp add: members_def)
    also have "\<dots> \<longleftrightarrow> bit (bwords b ! v) j \<and> v * 64 + j < nbits b"
    proof (cases "v = ?w")
      case False
      then have "v + 1 < words_for (nbits b)" using v assms by simp
      then show ?thesis using lt False by auto
    qed (use lt w j in \<open>auto simp: bit_and_iff bit_tail_mask\<close>)
    finally show ?thesis using v j by (simp add: members_at)
  next
    case False
    then show ?thesis using j by (auto dest: members_words)
  qed
  then have "\<forall>i. i \<in> members (b\<lparr>bwords := ?ws\<rparr>) \<longleftrightarrow> i \<in> members b \<and> i < nbits b"
    unfolding all_indices [of "\<lambda>i. i \<in> members (b\<lparr>bwords := ?ws\<rparr>) \<longleftrightarrow> i \<in> members b \<and> i < nbits b"] by blast
  then have "members (b\<lparr>bwords := ?ws\<rparr>) = {i \<in> members b. i < nbits b}" by blast
  then show ?thesis using eq assms(2) by (intro exI [of _ ?ws]) simp
qed

lemma below_words: "i < nbits b \<Longrightarrow> bitset_ok b \<Longrightarrow> i div 64 < length (bwords b)"
  using word_of_lt [of i "nbits b"] by (simp add: bitset_ok_def)

lemma cleared_spec:
  assumes "bitset_ok b" "length ws = nwords b" "{i \<in> members (b\<lparr>bwords := ws\<rparr>). i < nbits b} = S"
  shows "bitset_edits b (do { b \<leftarrow> clear_tail (b\<lparr>bwords := ws\<rparr>); ASSERT_BITSET b; Some b }) S"
proof -
  note ok = bitset_okD [OF assms(1)]
  obtain vs where vs: "clear_tail (b\<lparr>bwords := ws\<rparr>) = Some (b\<lparr>bwords := vs\<rparr>)" "length vs = nwords b"
    "members (b\<lparr>bwords := vs\<rparr>) = S"
    using clear_tail_spec [of "b\<lparr>bwords := ws\<rparr>"] ok(1) assms(2,3) by auto
  have "S \<subseteq> {..<nbits b}" using assms(3) by auto
  then have "bitset_ok (b\<lparr>bwords := vs\<rparr>)" using assms(1) vs by (intro bitset_ok_words) auto
  then show ?thesis
    using assms(1) vs \<open>S \<subseteq> {..<nbits b}\<close> by (intro bitset_editsI [where ws = vs]) simp_all
qed

lemma fill_words_eq:
  "bitset_ok b \<Longrightarrow> fill_words b byte = Some (b\<lparr>bwords := replicate (nwords b) (word_rcat (replicate 8 byte))\<rparr>)"
  using bitset_okD [of b] by (auto simp: fill_words_def)

lemma rcat_ones: "word_rcat (replicate 8 (0xFF :: byte)) = WORD_ONES"
  "word_rcat (replicate 8 (0 :: byte)) = (0 :: 64 word)"
  unfolding WORD_ONES_def by code_simp+

lemma set_all_spec: "bitset_ok b \<Longrightarrow> bitset_edits b (tda_bitset_set_all b) {..<nbits b}"
proof -
  assume ok: "bitset_ok b"
  have "bit WORD_ONES (i mod 64)" for i by (simp add: WORD_ONES_def bit_not_iff)
  then have "{i \<in> members (b\<lparr>bwords := replicate (nwords b) WORD_ONES\<rparr>). i < nbits b} = {..<nbits b}"
    using below_words [OF _ ok] bitset_okD(2) [OF ok] by (auto simp: members_def)
  from cleared_spec [OF ok _ this] show ?thesis
    using ok by (simp add: tda_bitset_set_all_def fill_words_eq rcat_ones)
qed

lemma reset_all_spec: "bitset_ok b \<Longrightarrow> bitset_edits b (tda_bitset_reset_all b) {}"
proof -
  assume ok: "bitset_ok b"
  have m: "members (b\<lparr>bwords := replicate (nwords b) 0\<rparr>) = {}" by (auto simp: members_def)
  have "bitset_ok (b\<lparr>bwords := replicate (nwords b) 0\<rparr>)" using ok m by (intro bitset_ok_words) simp_all
  then show ?thesis
    using ok m by (intro bitset_editsI) (simp_all add: tda_bitset_reset_all_def fill_words_eq rcat_ones)
qed

lemma flip_all_spec: "bitset_ok b \<Longrightarrow> bitset_edits b (tda_bitset_flip_all b) ({..<nbits b} - members b)"
proof -
  assume ok: "bitset_ok b"
  note o = bitset_okD [OF ok]
  obtain ws where ws: "words_zip_loop (\<lambda>x _. NOT x) (nwords b) (bwords b) (bwords b) 0 = Some ws"
    "length ws = nwords b" "\<forall>i < nwords b. ws ! i = NOT (bwords b ! i)"
    using words_zip_loop_spec [of 0 "nwords b" "bwords b" "bwords b" "\<lambda>x _. NOT x"] o(2) by auto
  have "{i \<in> members (b\<lparr>bwords := ws\<rparr>). i < nbits b} = {..<nbits b} - members b"
    using ws(2,3) o(2) below_words [OF _ ok] by (auto simp: members_def bit_not_iff)
  from cleared_spec [OF ok ws(2) this] show ?thesis
    using ok ws(1) by (simp add: tda_bitset_flip_all_def)
qed

text \<open>The pairwise operations. No bit comes from two that are not set, so a clear tail stays clear.\<close>

lemma bitset_zip_spec:
  assumes "bitset_ok b" "bitset_ok c" "nbits c = nbits b"
    and g: "\<And>x y j. j < 64 \<Longrightarrow> bit (f x y) j \<longleftrightarrow> g (bit x j) (bit y j)" "\<not> g False False"
  shows "bitset_edits b (bitset_zip f b c) {i. g (i \<in> members b) (i \<in> members c)}"
proof -
  note o = bitset_okD [OF assms(1)] and p = bitset_okD [OF assms(2)]
  have len: "length (bwords c) = nwords b" using o(1) p(1,2) assms(3) by simp
  obtain ws where ws: "words_zip_loop f (nwords b) (bwords b) (bwords c) 0 = Some ws" "length ws = nwords b"
    "\<forall>i < nwords b. ws ! i = f (bwords b ! i) (bwords c ! i)"
    using words_zip_loop_spec [of 0 "nwords b" "bwords b" "bwords c" f] o(2) len by auto
  have m: "members (b\<lparr>bwords := ws\<rparr>) = {i. g (i \<in> members b) (i \<in> members c)}"
  proof (rule set_eqI)
    fix i
    show "i \<in> members (b\<lparr>bwords := ws\<rparr>) \<longleftrightarrow> i \<in> {i. g (i \<in> members b) (i \<in> members c)}"
      using ws(2,3) o(2) len g by (cases "i div 64 < nwords b") (simp_all add: members_def)
  qed
  have sub: "{i. g (i \<in> members b) (i \<in> members c)} \<subseteq> {..<nbits b}"
  proof
    fix i assume "i \<in> {i. g (i \<in> members b) (i \<in> members c)}"
    then have "i \<in> members b \<or> i \<in> members c" using g(2) by (cases "i \<in> members b"; cases "i \<in> members c") auto
    then show "i \<in> {..<nbits b}" using o(4) p(4) assms(3) by auto
  qed
  have "bitset_ok (b\<lparr>bwords := ws\<rparr>)" using assms(1) ws(2) m sub by (intro bitset_ok_words) simp_all
  then have "bitset_zip f b c = Some (b\<lparr>bwords := ws\<rparr>)"
    using assms(1-3) ws(1) by (simp add: bitset_zip_def EXPECT_SAME_BITSET_def)
  from bitset_editsI [OF assms(1) this ws(2) m sub] show ?thesis .
qed

lemma union_spec:
  assumes "bitset_ok b" "bitset_ok c" "nbits c = nbits b"
  shows "bitset_edits b (tda_bitset_union b c) (members b \<union> members c)"
    and "bitset_edits b (tda_bitset_intersection b c) (members b \<inter> members c)"
    and "bitset_edits b (tda_bitset_difference b c) (members b - members c)"
    and "bitset_edits b (tda_bitset_symmetric_difference b c) ((members b - members c) \<union> (members c - members b))"
proof -
  have sets: "{i. i \<in> A \<or> i \<in> B} = A \<union> B" "{i. i \<in> A \<and> i \<in> B} = A \<inter> B" "{i. i \<in> A \<and> i \<notin> B} = A - B"
    "{i. (i \<in> A) \<noteq> (i \<in> B)} = (A - B) \<union> (B - A)" for A B :: "nat set" by auto
  note z = bitset_zip_spec [OF assms]
  show "bitset_edits b (tda_bitset_union b c) (members b \<union> members c)"
    unfolding tda_bitset_union_def sets [symmetric] by (rule z) (auto simp: bit_or_iff)
  show "bitset_edits b (tda_bitset_intersection b c) (members b \<inter> members c)"
    unfolding tda_bitset_intersection_def sets [symmetric] by (rule z) (auto simp: bit_and_iff)
  show "bitset_edits b (tda_bitset_difference b c) (members b - members c)"
    unfolding tda_bitset_difference_def sets [symmetric] by (rule z) (auto simp: bit_and_iff bit_not_iff)
  show "bitset_edits b (tda_bitset_symmetric_difference b c) ((members b - members c) \<union> (members c - members b))"
    unfolding tda_bitset_symmetric_difference_def sets(4) [symmetric]
    by (rule z) (auto simp: bit_xor_iff)
qed

section \<open>Queries\<close>

lemma all_members: "bitset_ok b \<Longrightarrow>
   (\<forall>i. P i) \<longleftrightarrow> (\<forall>w < nwords b. \<forall>j < 64. P (w * 64 + j)) \<and> (\<forall>i. i div 64 \<ge> nwords b \<longrightarrow> P i)"
  for P :: "nat \<Rightarrow> bool"
  unfolding all_indices [of P] all_indices [of "\<lambda>i. i div 64 \<ge> nwords b \<longrightarrow> P i"]
  by auto (metis not_less)

lemma words_all_members:
  assumes "bitset_ok b" "bitset_ok c" "nbits c = nbits b"
    and p: "\<And>w. w < nwords b \<Longrightarrow> p w (bwords b ! w) (bwords c ! w) \<longleftrightarrow> (\<forall>j < 64. Q (w * 64 + j))"
    and out: "\<And>i. nwords b \<le> i div 64 \<Longrightarrow> Q i"
  shows "words_all_loop p (nwords b) (bwords b) (bwords c) 0 = Some (\<forall>i. Q i)"
proof -
  have "length (bwords b) = nwords b" "length (bwords c) = nwords b"
    using assms(1-3) by (simp_all add: bitset_ok_def)
  then have "words_all_loop p (nwords b) (bwords b) (bwords c) 0 =
      Some (\<forall>i. 0 \<le> i \<and> i < nwords b \<longrightarrow> p i (bwords b ! i) (bwords c ! i))"
    by (intro words_all_loop_eq) simp_all
  also have "(\<forall>i. 0 \<le> i \<and> i < nwords b \<longrightarrow> p i (bwords b ! i) (bwords c ! i)) = (\<forall>i. Q i)"
    unfolding all_members [OF assms(1), of Q] using p out by auto
  finally show ?thesis .
qed

lemma outside_members: "bitset_ok b \<Longrightarrow> nwords b \<le> i div 64 \<Longrightarrow> i \<notin> members b"
  by (auto simp: members_def bitset_ok_def)

lemma any_spec:
  assumes "bitset_ok b"
  shows "tda_bitset_any b = Some (members b \<noteq> {})"
proof -
  have "words_all_loop (\<lambda>_ x _. \<not> x \<noteq> 0) (nwords b) (bwords b) (bwords b) 0 = Some (\<forall>i. i \<notin> members b)"
    using assms bitset_okD(2) [OF assms] outside_members [OF assms]
    by (intro words_all_members) (simp_all add: word_zero_iff members_at)
  then show ?thesis using assms by (auto simp: tda_bitset_any_def)
qed

lemma all_spec:
  assumes "bitset_ok b"
  shows "tda_bitset_all b = Some (members b = {..<nbits b})"
proof -
  note o = bitset_okD [OF assms]
  let ?want = "\<lambda>w. if w + 1 = nwords b then tail_mask (nbits b) else WORD_ONES"
  have want: "bit (?want w) j \<longleftrightarrow> w * 64 + j < nbits b" if "w < nwords b" "j < 64" for w j
    using words_for_lt [of j w "nbits b"] that o(1) by (auto simp: bit_tail_mask WORD_ONES_def bit_not_iff)
  have "words_all_loop (\<lambda>w x _. let want = ?want w in \<not> x \<noteq> want) (nwords b) (bwords b) (bwords b) 0 =
      Some (\<forall>i. i \<in> members b \<longleftrightarrow> i < nbits b)"
  proof (rule words_all_members [OF assms assms refl])
    fix w assume w: "w < nwords b"
    show "(let want = ?want w in \<not> bwords b ! w \<noteq> want) \<longleftrightarrow>
        (\<forall>j < 64. w * 64 + j \<in> members b \<longleftrightarrow> w * 64 + j < nbits b)"
      unfolding Let_def not_not word_eq_bits using want [OF w] w o(2) by (simp add: members_at)
  next
    fix i assume "nwords b \<le> i div 64"
    then show "i \<in> members b \<longleftrightarrow> i < nbits b"
      using outside_members [OF assms] below_words [OF _ assms] o(2) by fastforce
  qed
  then show ?thesis using assms by (simp add: tda_bitset_all_def set_eq_iff)
qed

lemma subset_spec:
  assumes "bitset_ok b" "bitset_ok c" "nbits c = nbits b"
  shows "tda_bitset_is_subset b c = Some (members b \<subseteq> members c)"
    and "tda_bitset_intersects b c = Some (members b \<inter> members c \<noteq> {})"
proof -
  have len: "length (bwords b) = nwords b" "length (bwords c) = nwords b"
    using assms by (simp_all add: bitset_ok_def)
  have "words_all_loop (\<lambda>_ x y. \<not> (x AND NOT y) \<noteq> 0) (nwords b) (bwords b) (bwords c) 0 =
      Some (\<forall>i. i \<in> members b \<longrightarrow> i \<in> members c)"
    using assms len outside_members [OF assms(1)]
    by (intro words_all_members) (auto simp: word_zero_iff members_at bit_and_iff bit_not_iff)
  then show "tda_bitset_is_subset b c = Some (members b \<subseteq> members c)"
    using assms by (simp add: tda_bitset_is_subset_def EXPECT_SAME_BITSET_def subset_iff)
  have "words_all_loop (\<lambda>_ x y. \<not> (x AND y) \<noteq> 0) (nwords b) (bwords b) (bwords c) 0 =
      Some (\<forall>i. i \<in> members b \<longrightarrow> i \<notin> members c)"
    using assms len outside_members [OF assms(1)]
    by (intro words_all_members) (auto simp: word_zero_iff members_at bit_and_iff)
  then show "tda_bitset_intersects b c = Some (members b \<inter> members c \<noteq> {})"
    using assms by (auto simp: tda_bitset_intersects_def EXPECT_SAME_BITSET_def)
qed

lemma tda_bit_count_eq: "tda_bit_count x = card {j. j < 64 \<and> bit x j}"
proof -
  have "tda_bit_count x = card {j. j < length [0..<64] \<and> bit x ([0..<64] ! j)}"
    unfolding tda_bit_count_def by (rule length_filter_conv_card)
  also have "{j. j < length [0..<64] \<and> bit x ([0..<64] ! j)} = {j. j < 64 \<and> bit x j}" by auto
  finally show ?thesis .
qed

lemma count_spec:
  assumes "bitset_ok b"
  shows "tda_bitset_count b = Some (card (members b))"
proof -
  note o = bitset_okD [OF assms]
  let ?S = "\<lambda>w. (\<lambda>j. w * 64 + j) ` {j. j < 64 \<and> bit (bwords b ! w) j}"
  have "card (?S w) = tda_bit_count (bwords b ! w)" for w
    unfolding tda_bit_count_eq by (rule card_image) (simp add: inj_on_def)
  then have "(\<Sum>w \<in> {0..<nwords b}. tda_bit_count (bwords b ! w)) = (\<Sum>w \<in> {0..<nwords b}. card (?S w))"
    by simp
  also have "\<dots> = card (\<Union>w \<in> {0..<nwords b}. ?S w)"
  proof (rule card_UN_disjoint [symmetric])
    show "\<forall>v \<in> {0..<nwords b}. \<forall>w \<in> {0..<nwords b}. v \<noteq> w \<longrightarrow> ?S v \<inter> ?S w = {}"
    proof (intro ballI impI)
      fix v w :: nat assume "v \<noteq> w"
      have "v * 64 + j \<noteq> w * 64 + k" if "j < 64" "k < 64" for j k
        using that \<open>v \<noteq> w\<close> by (metis add.commute div_mult_self3 div_less add_0 zero_neq_numeral)
      then show "?S v \<inter> ?S w = {}" by auto
    qed
  qed simp_all
  also have "(\<Union>w \<in> {0..<nwords b}. ?S w) = members b"
  proof (rule set_eqI)
    fix i
    have "i \<in> members b \<longleftrightarrow> i div 64 < nwords b \<and> bit (bwords b ! (i div 64)) (i mod 64)"
      using o(2) by (simp add: members_def)
    also have "\<dots> \<longleftrightarrow> i \<in> (\<Union>w \<in> {0..<nwords b}. ?S w)"
    proof
      assume i: "i div 64 < nwords b \<and> bit (bwords b ! (i div 64)) (i mod 64)"
      have "i = i div 64 * 64 + i mod 64" by simp
      then have "i \<in> ?S (i div 64)" by (rule image_eqI) (use i in simp)
      with i show "i \<in> (\<Union>w \<in> {0..<nwords b}. ?S w)" by auto
    next
      assume "i \<in> (\<Union>w \<in> {0..<nwords b}. ?S w)"
      then show "i div 64 < nwords b \<and> bit (bwords b ! (i div 64)) (i mod 64)" by auto
    qed
    finally show "i \<in> (\<Union>w \<in> {0..<nwords b}. ?S w) \<longleftrightarrow> i \<in> members b" ..
  qed
  finally show ?thesis
    using assms o(2) count_words_loop_eq [of 0 "nwords b" "bwords b" 0] by (simp add: tda_bitset_count_def)
qed

lemma eq_spec:
  assumes "bitset_ok b" "bitset_ok c" "same \<longrightarrow> b = c"
  shows "tda_bitset_eq same b c = Some (nbits b = nbits c \<and> members b = members c)"
proof -
  note o = bitset_okD [OF assms(1)] and p = bitset_okD [OF assms(2)]
  have "bwords b = bwords c \<longleftrightarrow> members b = members c" if n: "nbits b = nbits c"
  proof
    assume m: "members b = members c"
    have len: "length (bwords c) = nwords b" using n o(1) p(1,2) by simp
    show "bwords b = bwords c"
    proof (rule nth_equalityI)
      fix w assume "w < length (bwords b)"
      then show "bwords b ! w = bwords c ! w"
        unfolding word_eq_bits using m members_at [of w b] members_at [of w c] len o(2) by auto
    qed (use len o(2) in simp)
  qed (simp add: members_def)
  moreover have "nbits b = nbits c \<Longrightarrow> nwords b = 0 \<Longrightarrow> members b = members c"
    using o p by (simp add: members_def)
  ultimately show ?thesis
    using assms o(1,2) p(1,2) by (auto simp: tda_bitset_eq_def)
qed

section \<open>The scans\<close>

lemma takeWhile_upt: "length (takeWhile P [0..<n]) = k \<Longrightarrow> k \<le> n \<and> (\<forall>j < k. P j) \<and> (k < n \<longrightarrow> \<not> P k)"
proof -
  assume k: "length (takeWhile P [0..<n]) = k"
  have "P j" if "j < k" for j
    using that k nth_mem [of j "takeWhile P [0..<n]"] takeWhile_nth [of j P "[0..<n]"] length_takeWhile_le [of P "[0..<n]"]
    by (auto dest: set_takeWhileD)
  moreover have "k < n \<Longrightarrow> \<not> P k" using nth_length_takeWhile [of P "[0..<n]"] k by simp
  ultimately show ?thesis using length_takeWhile_le [of P "[0..<n]"] k by auto
qed

lemma ctz_spec:
  assumes "x \<noteq> 0"
  shows "\<exists>z. tda_bit_ctz x = Some z \<and> z < 64 \<and> bit x z \<and> (\<forall>j < z. \<not> bit x j)"
proof -
  define z where "z = length (takeWhile (\<lambda>i. \<not> bit x i) [0..<64])"
  note t = takeWhile_upt [OF z_def [symmetric]]
  have "z < 64" using t assms unfolding word_zero_iff by (metis le_neq_implies_less)
  moreover have "tda_bit_ctz x = Some z"
    unfolding tda_bit_ctz_def z_def using assms by (simp del: upt_rec_numeral)
  ultimately show ?thesis using t by blast
qed

lemma clz_spec:
  assumes "x \<noteq> 0"
  shows "\<exists>z. tda_bit_clz x = Some z \<and> z \<le> 63 \<and> bit x (63 - z) \<and> (\<forall>j. 63 - z < j \<longrightarrow> j < 64 \<longrightarrow> \<not> bit x j)"
proof -
  define z where "z = length (takeWhile (\<lambda>i. \<not> bit x i) (rev [0..<64]))"
  have rev: "rev [0..<64] = map (\<lambda>i. 63 - i) [0..<64 :: nat]"
    by (rule nth_equalityI) (simp_all add: rev_nth del: upt_rec_numeral)
  have "z = length (takeWhile (\<lambda>i. \<not> bit x (63 - i)) [0..<64])"
    unfolding z_def rev takeWhile_map by (simp add: o_def del: upt_rec_numeral)
  note t = takeWhile_upt [OF this [symmetric]]
  have below: "\<not> bit x j" if "63 - z < j" "j < 64" for j
  proof -
    have "63 - j < z" using that by simp
    then have "\<not> bit x (63 - (63 - j))" using t by blast
    then show ?thesis using that by simp
  qed
  have "z < 64"
  proof (rule ccontr)
    assume "\<not> z < 64"
    then have no: "\<not> bit x (63 - j)" if "j < 64" for j using t that by simp
    have "\<not> bit x j" if "j < 64" for j using no [of "63 - j"] that by simp
    then show False using assms unfolding word_zero_iff by blast
  qed
  moreover have "tda_bit_clz x = Some z"
    unfolding tda_bit_clz_def z_def using assms by (simp del: upt_rec_numeral)
  ultimately show ?thesis using t below by auto
qed

text \<open>
  What a scan looks for: the indices in the set, or, with \<open>clear\<close>, those that are not. In the words
  the complement also has the bits above the universe.
\<close>

definition seen :: "bitset \<Rightarrow> bool \<Rightarrow> nat \<Rightarrow> bool" where
  "seen b clear i \<longleftrightarrow> (i \<in> members b) \<noteq> clear"

lemma bit_as_seen:
  assumes "bitset_ok b" "w < nwords b"
  shows "\<exists>x. word_as_seen b w clear = Some x \<and> (\<forall>j < 64. bit x j \<longleftrightarrow> seen b clear (w * 64 + j))"
proof -
  have "w < length (bwords b)" using assms by (simp add: bitset_ok_def)
  then show ?thesis
    by (auto simp: word_as_seen_def word_get_def seen_def members_at bit_xor_iff WORD_ONES_def bit_not_iff)
qed

lemma find_next_loop_spec:
  assumes "bitset_ok b" "w < nwords b" "\<And>j. j < 64 \<Longrightarrow> bit x j \<longleftrightarrow> P (w * 64 + j)"
    and "\<And>i. i < w * 64 \<Longrightarrow> \<not> P i" "\<And>i. (w + 1) * 64 \<le> i \<Longrightarrow> P i \<longleftrightarrow> seen b clear i"
  shows "\<exists>r. find_next_loop b clear w x = Some r \<and> is_first P (nbits b) r"
  using assms(2-)
proof (induction "nwords b - w" arbitrary: w x)
  case 0
  then show ?case by simp
next
  case (Suc k)
  note eqn = find_next_loop.simps [of b clear w x]
  show ?case
  proof (cases "x = 0")
    case False
    obtain z where z: "tda_bit_ctz x = Some z" "z < 64" "bit x z" "\<And>j. j < z \<Longrightarrow> \<not> bit x j"
      using ctz_spec [OF False] by blast
    have at: "P (w * 64 + z)" using Suc.prems(2) z by blast
    have before: "\<not> P i" if "i < w * 64 + z" for i
    proof (cases "i < w * 64")
      case False
      then have "\<not> bit x (i - w * 64)" "i - w * 64 < 64" using that z(2,4) by auto
      then have "\<not> P (w * 64 + (i - w * 64))" using Suc.prems(2) by blast
      then show ?thesis using False by simp
    qed (use Suc.prems(3) in blast)
    have "find_next_loop b clear w x = Some (if w * 64 + z \<ge> nbits b then None else Some (w * 64 + z))"
      unfolding eqn using False z(1) by (simp add: idx_of_first_one_def WORD_BITS_def)
    then show ?thesis using at before by (cases "w * 64 + z \<ge> nbits b") auto
  next
    case x: True
    have none: "\<not> P i" if "i < (w + 1) * 64" for i
    proof (cases "i < w * 64")
      case False
      then have "i - w * 64 < 64" using that by simp
      then have "\<not> P (w * 64 + (i - w * 64))" using Suc.prems(2) [of "i - w * 64"] x by simp
      then show ?thesis using False by simp
    qed (use Suc.prems(3) in blast)
    show ?thesis
    proof (cases "w + 1 = nwords b")
      case True
      have "nbits b \<le> (w + 1) * 64"
      proof (rule ccontr)
        assume "\<not> nbits b \<le> (w + 1) * 64"
        then have "(w + 1) * 64 div 64 < words_for (nbits b)" by (intro word_of_lt) simp
        then show False using True assms(1) by (simp add: bitset_ok_def)
      qed
      then have "\<not> P i" if "i < nbits b" for i using none that by simp
      moreover have "find_next_loop b clear w x = Some None" unfolding eqn using x True by simp
      ultimately show ?thesis by simp
    next
      case False
      then have w: "w + 1 < nwords b" using Suc.prems(1) by simp
      obtain y where y: "word_as_seen b (w + 1) clear = Some y"
        "\<And>j. j < 64 \<Longrightarrow> bit y j \<longleftrightarrow> seen b clear ((w + 1) * 64 + j)"
        using bit_as_seen [OF assms(1) w] by blast
      have step: "find_next_loop b clear w x = find_next_loop b clear (w + 1) y"
        unfolding eqn using x False y(1) by simp
      have "k = nwords b - (w + 1)" using Suc.hyps(2) by simp
      moreover have "bit y j \<longleftrightarrow> P ((w + 1) * 64 + j)" if "j < 64" for j
        using y(2) [OF that] Suc.prems(4) [of "(w + 1) * 64 + j"] by simp
      moreover have "P i \<longleftrightarrow> seen b clear i" if "(w + 1 + 1) * 64 \<le> i" for i
        using Suc.prems(4) [of i] that by simp
      ultimately show ?thesis
        unfolding step using Suc.hyps(1) [of "w + 1" y] w none by blast
    qed
  qed
qed

lemma word_above: "(k div 64 + 1) * 64 \<le> i \<Longrightarrow> k < i" for k i :: nat
  using dividend_less_div_times [of 64 k] by (simp add: algebra_simps)

lemma div_word: "from = from div 64 * 64 + from mod 64" for "from" :: nat
  by simp

lemma find_next_impl_spec:
  assumes "bitset_ok b"
  shows "\<exists>r. find_next_impl b clear from = Some r \<and> is_first (\<lambda>i. from \<le> i \<and> seen b clear i) (nbits b) r"
proof (cases "from \<ge> nbits b")
  case True
  then show ?thesis by (simp add: find_next_impl_def)
next
  case False
  let ?w = "from div 64" and ?P = "\<lambda>i. from \<le> i \<and> seen b clear i"
  have w: "?w < nwords b" using False word_of_lt [of "from" "nbits b"] assms by (simp add: bitset_ok_def)
  obtain y where y: "word_as_seen b ?w clear = Some y" "\<And>j. j < 64 \<Longrightarrow> bit y j \<longleftrightarrow> seen b clear (?w * 64 + j)"
    using bit_as_seen [OF assms w] by blast
  have fr: "from = ?w * 64 + from mod 64" by (rule div_word)
  have "bit (word_from y from) j \<longleftrightarrow> ?P (?w * 64 + j)" if "j < 64" for j
  proof -
    have "bit (word_from y from) j \<longleftrightarrow> bit y j \<and> from mod 64 \<le> j"
      using that by (auto simp: word_from_def WORD_ONES_def WORD_BITS_def bit_and_iff bit_push_bit_iff bit_not_iff bit_mask_iff)
    also have "from mod 64 \<le> j \<longleftrightarrow> from \<le> ?w * 64 + j" using fr by linarith
    finally show ?thesis using y(2) [OF that] by auto
  qed
  moreover have "\<not> ?P i" if "i < ?w * 64" for i using that fr by linarith
  moreover have "?P i \<longleftrightarrow> seen b clear i" if "(?w + 1) * 64 \<le> i" for i
  proof -
    have "from \<le> i" using word_above [OF that] by simp
    then show ?thesis by simp
  qed
  ultimately show ?thesis
    using find_next_loop_spec [OF assms w, of "word_from y from" ?P clear] False y(1)
    by (simp add: find_next_impl_def word_of_def WORD_BITS_def Let_def)
qed

lemma find_prev_loop_spec:
  assumes "bitset_ok b" "w < nwords b" "\<And>j. j < 64 \<Longrightarrow> bit x j \<longleftrightarrow> P (w * 64 + j)"
    and "\<And>i. (w + 1) * 64 \<le> i \<Longrightarrow> \<not> P i" "\<And>i. i < w * 64 \<Longrightarrow> P i \<longleftrightarrow> seen b clear i"
    and "\<And>i. P i \<Longrightarrow> i < nbits b"
  shows "\<exists>r. find_prev_loop b clear w x = Some r \<and> is_last P (nbits b) r"
  using assms(2-5)
proof (induction w arbitrary: x)
  case (0 x)
  note eqn = find_prev_loop.simps [of b clear 0 x]
  show ?case
  proof (cases "x = 0")
    case True
    have "\<not> P i" for i
    proof (cases "i < 64")
      case T: True
      then show ?thesis using "0.prems"(2) [OF T] True by simp
    next
      case False
      then show ?thesis using "0.prems"(3) [of i] by simp
    qed
    then show ?thesis unfolding eqn using True by simp
  next
    case False
    obtain z where z: "tda_bit_clz x = Some z" "z \<le> 63" "bit x (63 - z)"
      "\<forall>j. 63 - z < j \<longrightarrow> j < 64 \<longrightarrow> \<not> bit x j" using clz_spec [OF False] by blast
    have at: "P (63 - z)" using "0.prems"(2) [of "63 - z"] z(3) by simp
    have after: "\<not> P i" if "63 - z < i" for i
    proof (cases "i < 64")
      case True
      then show ?thesis using "0.prems"(2) [of i] z(4) that by simp
    next
      case False
      then show ?thesis using "0.prems"(3) [of i] by simp
    qed
    have "find_prev_loop b clear 0 x = Some (Some (63 - z))"
      unfolding eqn using False z(1) by (simp add: idx_of_last_one_def WORD_BITS_def)
    then show ?thesis using at after assms(6) [OF at] by auto
  qed
next
  case (Suc w x)
  note eqn = find_prev_loop.simps [of b clear "Suc w" x]
  show ?case
  proof (cases "x = 0")
    case x: True
    have none: "\<not> P i" if "(w + 1) * 64 \<le> i" for i
    proof (cases "i < (Suc w + 1) * 64")
      case True
      then have "i - Suc w * 64 < 64" "Suc w * 64 + (i - Suc w * 64) = i" using that by simp_all
      then show ?thesis using Suc.prems(2) [of "i - Suc w * 64"] x by simp
    next
      case False
      then show ?thesis using Suc.prems(3) [of i] by simp
    qed
    have w: "w < nwords b" using Suc.prems(1) by simp
    obtain y where y: "word_as_seen b w clear = Some y" "\<forall>j < 64. bit y j \<longleftrightarrow> seen b clear (w * 64 + j)"
      using bit_as_seen [OF assms(1) w] by blast
    have step: "find_prev_loop b clear (Suc w) x = find_prev_loop b clear w y"
      unfolding eqn using x y(1) by simp
    have "bit y j \<longleftrightarrow> P (w * 64 + j)" if "j < 64" for j
      using y(2) that Suc.prems(4) [of "w * 64 + j"] by simp
    moreover have "P i \<longleftrightarrow> seen b clear i" if "i < w * 64" for i using Suc.prems(4) [of i] that by simp
    ultimately show ?thesis unfolding step using Suc.IH [of y] w none by blast
  next
    case False
    obtain z where z: "tda_bit_clz x = Some z" "z \<le> 63" "bit x (63 - z)"
      "\<forall>j. 63 - z < j \<longrightarrow> j < 64 \<longrightarrow> \<not> bit x j" using clz_spec [OF False] by blast
    let ?i = "Suc w * 64 + (63 - z)"
    have at: "P ?i" using Suc.prems(2) [of "63 - z"] z(3) by simp
    have after: "\<not> P i" if "?i < i" for i
    proof (cases "i < (Suc w + 1) * 64")
      case True
      then have "i - Suc w * 64 < 64" "63 - z < i - Suc w * 64" "Suc w * 64 + (i - Suc w * 64) = i"
        using that by simp_all
      then show ?thesis using Suc.prems(2) [of "i - Suc w * 64"] z(4) by simp
    next
      case False
      then show ?thesis using Suc.prems(3) [of i] by simp
    qed
    have "find_prev_loop b clear (Suc w) x = Some (Some ?i)"
      unfolding eqn using False z(1) by (simp add: idx_of_last_one_def WORD_BITS_def)
    then show ?thesis using at after assms(6) [OF at] by auto
  qed
qed

lemma find_prev_impl_spec:
  assumes "bitset_ok b"
  shows "\<exists>r. find_prev_impl b clear from = Some r \<and> is_last (\<lambda>i. i \<le> from \<and> seen b clear i) (nbits b) r"
proof (cases "nbits b = 0")
  case True
  then show ?thesis by (simp add: find_prev_impl_def)
next
  case False
  define f where "f = (if from \<ge> nbits b then nbits b - 1 else from)"
  have f: "f < nbits b" "i < nbits b \<Longrightarrow> i \<le> from \<longleftrightarrow> i \<le> f" for i using False by (auto simp: f_def)
  let ?w = "f div 64" and ?P = "\<lambda>i. i \<le> f \<and> seen b clear i"
  have w: "?w < nwords b" using f(1) word_of_lt [of f "nbits b"] assms by (simp add: bitset_ok_def)
  obtain y where y: "word_as_seen b ?w clear = Some y" "\<forall>j < 64. bit y j \<longleftrightarrow> seen b clear (?w * 64 + j)"
    using bit_as_seen [OF assms w] by blast
  have fr: "f = ?w * 64 + f mod 64" by (rule div_word)
  have m: "f mod 64 < 64" by simp
  have "bit (word_upto y f) j \<longleftrightarrow> ?P (?w * 64 + j)" if j: "j < 64" for j
  proof -
    have "63 - f mod 64 + j < 64 \<longleftrightarrow> j \<le> f mod 64" using m by linarith
    then have "bit (word_upto y f) j \<longleftrightarrow> bit y j \<and> j \<le> f mod 64"
      using j by (auto simp: word_upto_def WORD_ONES_def WORD_BITS_def bit_and_iff bit_drop_bit_eq bit_not_iff bit_mask_iff)
    also have "j \<le> f mod 64 \<longleftrightarrow> ?w * 64 + j \<le> f" using fr by linarith
    finally show ?thesis using y(2) j by auto
  qed
  moreover have "\<not> ?P i" if "(?w + 1) * 64 \<le> i" for i
  proof -
    have "\<not> i \<le> f" using word_above [OF that] by simp
    then show ?thesis by simp
  qed
  moreover have "?P i \<longleftrightarrow> seen b clear i" if "i < ?w * 64" for i
  proof -
    have "i \<le> f" using that fr by linarith
    then show ?thesis by simp
  qed
  moreover have "i < nbits b" if "?P i" for i using that f(1) by simp
  ultimately obtain r where r: "find_prev_loop b clear ?w (word_upto y f) = Some r" "is_last ?P (nbits b) r"
    using find_prev_loop_spec [OF assms w, of "word_upto y f" ?P clear] by blast
  have "find_prev_impl b clear from = find_prev_loop b clear ?w (word_upto y f)"
    using False y(1) by (simp add: find_prev_impl_def word_of_def WORD_BITS_def Let_def f_def)
  moreover have "is_last (\<lambda>i. i \<le> from \<and> seen b clear i) (nbits b) r"
    using r(2) f(2) by (auto simp: is_last_def split: option.splits)
  ultimately show ?thesis using r(1) by auto
qed

section \<open>Lifetime and copies, in the set\<close>

definition bitset_block :: "bitset \<Rightarrow> layout multiset" where
  "bitset_block b = held U64 (nwords b)"

lemma U64_type [simp]: "tda_layout_is_type U64" "lsize U64 = 8" "lalign U64 = 8"
  by (simp_all add: U64_def tda_layout_is_type_def)

text \<open>A universe of \<open>SIZE_MAX\<close> bits has words of fewer bytes than that.\<close>

lemma words_fit: "n \<le> SIZE_MAX \<Longrightarrow> 8 * words_for n \<le> SIZE_MAX"
proof -
  assume n: "n \<le> SIZE_MAX"
  have "words_for n \<le> n div 64 + 1" by (simp add: words_for_def WORD_BITS_def)
  then have "8 * words_for n \<le> 8 * (n div 64 + 1)" by simp
  also have "\<dots> \<le> SIZE_MAX" using n by (simp add: SIZE_MAX_def)
  finally show ?thesis .
qed

definition bitset_makes :: "heap \<Rightarrow> al \<Rightarrow> nat \<Rightarrow> ((tda_status + bitset) \<times> heap) option \<Rightarrow> nat set \<Rightarrow> bool" where
  "bitset_makes h al n r S \<longleftrightarrow> (\<exists>res h'. r = Some (res, h') \<and> (case res of
       Inr b \<Rightarrow> bitset_ok b \<and> nbits b = n \<and> balloc b = al \<and> members b = S \<and>
         requests h al {#} (bitset_block b) True h'
     | Inl st \<Rightarrow> st = TDA_STATUS_ERR_NO_MEM \<and> requests h al {#} {#} False h' \<and> \<not> generous h al))"

lemma init_nbits_spec:
  assumes "al \<noteq> 0" "n \<le> SIZE_MAX"
  shows "bitset_makes h al n (tda_bitset_init_nbits n al h) {}"
proof -
  let ?b = "\<lparr>bwords = replicate (words_for n) 0, nbits = n, nwords = words_for n, balloc = al\<rparr>"
  have m: "members ?b = {}" by (auto simp: members_def)
  then have ok: "bitset_ok ?b" using assms by (simp add: bitset_ok_def)
  show ?thesis
  proof (cases "words_for n = 0")
    case True
    then have "tda_bitset_init_nbits n al h = Some (Inr ?b, h)"
      using assms ok by (simp add: tda_bitset_init_nbits_def Let_def)
    then show ?thesis
      using True ok m by (simp add: bitset_makes_def bitset_block_def requests_def)
  next
    case False
    obtain r h' where a: "al_alloc_n al U64 (words_for n) h = Some (r, h')"
      "requests h al {#} (held U64 (words_for n)) r h'" "generous h al \<Longrightarrow> r"
      using al_alloc_n_spec [OF assms(1) U64_type(1), of "words_for n" h] words_fit [OF assms(2)] False by auto
    have "tda_bitset_init_nbits n al h = Some (if r then Inr ?b else Inl TDA_STATUS_ERR_NO_MEM, h')"
      using assms ok a(1) False by (simp add: tda_bitset_init_nbits_def Let_def)
    then show ?thesis
      using a ok m by (cases r) (auto simp: bitset_makes_def bitset_block_def requests_def)
  qed
qed

lemma from_span_loop_spec:
  assumes "bitset_ok b" "set s \<subseteq> {..<nbits b}"
  shows "bitset_edits b (from_span_loop b s) (members b \<union> set s)"
  using assms
proof (induction s arbitrary: b)
  case Nil
  then show ?case by (simp add: bitset_edits_def)
next
  case (Cons i s)
  obtain b1 where b1: "tda_bitset_set b i = Some b1" "bitset_ok b1" "nbits b1 = nbits b" "nwords b1 = nwords b"
    "balloc b1 = balloc b" "members b1 = insert i (members b)"
    using bit_op_spec(1) [OF Cons.prems(1), of i] Cons.prems(2) by (auto simp: bitset_edits_def)
  then show ?case
    using Cons.IH [of b1] Cons.prems(2) by (auto simp: bitset_edits_def)
qed

lemma from_span_spec:
  assumes "al \<noteq> 0" "n \<le> SIZE_MAX" "set s \<subseteq> {..<n}"
  shows "bitset_makes h al n (tda_bitset_from_span n s U64 al h) (set s)"
proof -
  obtain res h' where r: "tda_bitset_init_nbits n al h = Some (res, h')"
    and m: "case res of
       Inr b \<Rightarrow> bitset_ok b \<and> nbits b = n \<and> balloc b = al \<and> members b = {} \<and> requests h al {#} (bitset_block b) True h'
     | Inl st \<Rightarrow> st = TDA_STATUS_ERR_NO_MEM \<and> requests h al {#} {#} False h' \<and> \<not> generous h al"
    using init_nbits_spec [OF assms(1,2), of h] unfolding bitset_makes_def by blast
  show ?thesis
  proof (cases res)
    case (Inl st)
    then show ?thesis using r m assms(1) by (simp add: tda_bitset_from_span_def bitset_makes_def tda_layout_eq_def)
  next
    case (Inr b)
    with m have b: "bitset_ok b" "nbits b = n" "balloc b = al" "members b = {}"
      "requests h al {#} (bitset_block b) True h'" by simp_all
    obtain b' where b': "from_span_loop b s = Some b'" "bitset_ok b'" "nbits b' = n" "nwords b' = nwords b"
      "balloc b' = al" "members b' = set s"
      using from_span_loop_spec [OF b(1), of s] b assms(3) by (simp add: bitset_edits_def) blast
    have "tda_bitset_from_span n s U64 al h = Some (Inr b', h')"
      using r Inr assms(1) b' by (simp add: tda_bitset_from_span_def tda_layout_eq_def)
    then show ?thesis using b b' by (simp add: bitset_makes_def bitset_block_def)
  qed
qed

lemma bitset_deinit_spec:
  assumes "bitset_ok b" "bitset_block b \<subseteq># lives h (balloc b)"
  shows "\<exists>h'. tda_bitset_deinit b h = Some (bitset_null, h') \<and> requests h (balloc b) (bitset_block b) {#} True h'"
proof -
  note o = bitset_okD [OF assms(1)]
  obtain h' where d: "al_dealloc (balloc b) (nwords b \<noteq> 0) \<lparr>lsize = lsize U64 * nwords b, lalign = lalign U64\<rparr> h = Some h'"
    "lives h' = (lives h)(balloc b := lives h (balloc b) - held U64 (nwords b))" "\<And>c. generous h c \<Longrightarrow> generous h' c"
    using al_dealloc_held [OF o(3) U64_type(1), of "nwords b" h] assms(2) unfolding bitset_block_def by blast
  have "8 * nwords b \<le> SIZE_MAX" using words_fit [OF o(5)] o(1) by simp
  then have "tda_bitset_deinit b h = Some (bitset_null, h')"
    using assms(1) o(3,6) d(1) by (simp add: tda_bitset_deinit_def al_dealloc_n_def ckd_array_type)
  then show ?thesis using d(2,3) by (simp add: requests_def bitset_block_def)
qed

lemma copy_words_same:
  assumes "bitset_ok b" "nbits c = nbits b" "nwords c = nwords b" "length (bwords c) = nwords b"
  shows "copy_words c b = Some (c\<lparr>bwords := bwords b\<rparr>)"
  using assms by (cases "nwords b = 0") (auto simp: copy_words_def bitset_ok_def)

lemma members_same_words: "members (b\<lparr>bwords := bwords c\<rparr>) = members c"
  by (simp add: members_def)

lemma copy_with_spec:
  assumes "bitset_ok b" "al \<noteq> 0"
  shows "bitset_makes h al (nbits b) (tda_bitset_copy_with b al h) (members b)"
proof -
  note o = bitset_okD [OF assms(1)]
  obtain res h' where r: "tda_bitset_init_nbits (nbits b) al h = Some (res, h')"
    and m: "case res of
       Inr c \<Rightarrow> bitset_ok c \<and> nbits c = nbits b \<and> balloc c = al \<and> members c = {} \<and> requests h al {#} (bitset_block c) True h'
     | Inl st \<Rightarrow> st = TDA_STATUS_ERR_NO_MEM \<and> requests h al {#} {#} False h' \<and> \<not> generous h al"
    using init_nbits_spec [OF assms(2) o(5), of h] unfolding bitset_makes_def by blast
  show ?thesis
  proof (cases res)
    case (Inl st)
    then show ?thesis using r m assms by (simp add: tda_bitset_copy_with_def bitset_makes_def)
  next
    case (Inr c)
    with m have c: "bitset_ok c" "nbits c = nbits b" "balloc c = al" "requests h al {#} (bitset_block c) True h'"
      by simp_all
    have w: "nwords c = nwords b" "length (bwords c) = nwords b" using bitset_okD(1,2) [OF c(1)] o(1) c(2) by simp_all
    have "tda_bitset_copy_with b al h = Some (Inr (c\<lparr>bwords := bwords b\<rparr>), h')"
      using r Inr assms copy_words_same [OF assms(1) c(2) w] by (simp add: tda_bitset_copy_with_def)
    moreover have "bitset_ok (c\<lparr>bwords := bwords b\<rparr>)"
      using c(1,2) o(2,4) w by (intro bitset_ok_words) (simp_all add: members_same_words)
    ultimately show ?thesis
      using c by (simp add: bitset_makes_def members_same_words bitset_block_def)
  qed
qed

text \<open>What \<open>copy_assign\<close> leaves: the other set on its own allocator, or, refused, what it had.\<close>

definition bitset_assigned :: "heap \<Rightarrow> bitset \<Rightarrow> bitset \<Rightarrow> (tda_status \<times> bitset \<times> heap) option \<Rightarrow> bool" where
  "bitset_assigned h b c r \<longleftrightarrow> (\<exists>st b' h'. r = Some (st, b', h') \<and> bitset_ok b' \<and> balloc b' = balloc b \<and>
     requests h (balloc b) (bitset_block b) (bitset_block b') True h' \<and>
     (if st = TDA_STATUS_OK then nbits b' = nbits c \<and> members b' = members c else b' = b \<and> \<not> generous h (balloc b)))"

lemma copy_assign_done:
  assumes "bitset_ok b" "bitset_ok c" "length ws = nwords c"
    and r: "tda_bitset_copy_assign junk False b c h = (do {
        b \<leftarrow> copy_words (b\<lparr>bwords := ws, nwords := nwords c, nbits := nbits c\<rparr>) c;
        ASSERT_BITSET b;
        Some (TDA_STATUS_OK, b, h')
      })"
    and req: "requests h (balloc b) (bitset_block b) (held U64 (nwords c)) True h'"
  shows "bitset_assigned h b c (tda_bitset_copy_assign junk False b c h)"
proof -
  note o = bitset_okD [OF assms(1)] and p = bitset_okD [OF assms(2)]
  let ?b = "b\<lparr>bwords := bwords c, nwords := nwords c, nbits := nbits c\<rparr>"
  have "members ?b = members c" by (simp add: members_def)
  then have ok: "bitset_ok ?b" using o(3) p by (simp add: bitset_ok_def)
  have "copy_words (b\<lparr>bwords := ws, nwords := nwords c, nbits := nbits c\<rparr>) c = Some ?b"
    using copy_words_same [OF assms(2), of "b\<lparr>bwords := ws, nwords := nwords c, nbits := nbits c\<rparr>"] assms(3) by simp
  then have "tda_bitset_copy_assign junk False b c h = Some (TDA_STATUS_OK, ?b, h')"
    using r ok by simp
  then show ?thesis
    using ok req \<open>members ?b = members c\<close> by (simp add: bitset_assigned_def bitset_block_def)
qed

lemma copy_assign_spec:
  assumes "bitset_ok b" "bitset_ok c" "bitset_block b \<subseteq># lives h (balloc b)"
  shows "bitset_assigned h b c (tda_bitset_copy_assign junk False b c h)"
proof -
  note o = bitset_okD [OF assms(1)] and p = bitset_okD [OF assms(2)]
  have fits: "8 * nwords b \<le> SIZE_MAX" "8 * nwords c \<le> SIZE_MAX"
    using words_fit [OF o(5)] words_fit [OF p(5)] o(1) p(1) by simp_all
  consider "nwords b = nwords c" | "nwords b \<noteq> nwords c" "nwords c = 0" | "nwords b \<noteq> nwords c" "0 < nwords c"
    by blast
  then show ?thesis
  proof cases
    case 1
    have e: "b\<lparr>bwords := bwords b, nwords := nwords c, nbits := nbits c\<rparr> = b\<lparr>nbits := nbits c\<rparr>"
      using 1 by (cases b) simp
    have "tda_bitset_copy_assign junk False b c h = (do {
        b \<leftarrow> copy_words (b\<lparr>bwords := bwords b, nwords := nwords c, nbits := nbits c\<rparr>) c;
        ASSERT_BITSET b;
        Some (TDA_STATUS_OK, b, h)
      })"
      unfolding e using assms 1 by (simp add: tda_bitset_copy_assign_def)
    moreover have "requests h (balloc b) (bitset_block b) (held U64 (nwords c)) True h"
      using requests_refl [OF assms(3)] 1 by (simp add: bitset_block_def)
    ultimately show ?thesis using assms o(2) 1 by (intro copy_assign_done [where ws = "bwords b"]) simp_all
  next
    case 2
    obtain h' where d: "al_dealloc (balloc b) (nwords b \<noteq> 0) \<lparr>lsize = lsize U64 * nwords b, lalign = lalign U64\<rparr> h = Some h'"
      "lives h' = (lives h)(balloc b := lives h (balloc b) - held U64 (nwords b))" "\<And>c. generous h c \<Longrightarrow> generous h' c"
      using al_dealloc_held [OF o(3) U64_type(1), of "nwords b" h] assms(3) unfolding bitset_block_def by blast
    have "al_realloc_n (balloc b) (bwords b \<noteq> []) U64 (nwords b) (nwords c) h = Some (False, h')"
      using 2 o(3,6) d(1) fits by (simp add: al_realloc_n_def ckd_array_type al_realloc_def mult.commute)
    then show ?thesis
      using assms(1,2) 2 d(2,3)
      by (intro copy_assign_done [where ws = "[]" and h' = h'])
        (simp_all add: tda_bitset_copy_assign_def bitset_block_def requests_def)
  next
    case 3
    obtain r h' where a:
      "al_realloc (balloc b) (nwords b \<noteq> 0) \<lparr>lsize = lsize U64 * nwords b, lalign = lalign U64\<rparr> (lsize U64 * nwords c) h = Some (r, h')"
      and req: "requests h (balloc b) (held U64 (nwords b)) (held U64 (nwords c)) r h'" and gen: "generous h (balloc b) \<Longrightarrow> r"
      using al_realloc_held [OF o(3) U64_type(1) _ 3(2), of "nwords b" h] assms(3) unfolding bitset_block_def by blast
    have n: "al_realloc_n (balloc b) (bwords b \<noteq> []) U64 (nwords b) (nwords c) h = Some (r, h')"
      using 3 o(6) a fits by (simp add: al_realloc_n_def ckd_array_type mult.commute)
    show ?thesis
    proof (cases r)
      case True
      then show ?thesis
        using assms(1,2) 3 n req o(2)
        by (intro copy_assign_done [where ws = "take (nwords c) (bwords b) @ map junk [nwords b..<nwords c]" and h' = h'])
          (simp_all add: tda_bitset_copy_assign_def bitset_block_def)
    next
      case False
      then have "tda_bitset_copy_assign junk False b c h = Some (TDA_STATUS_ERR_NO_MEM, b, h')"
        using assms(1,2) 3 n by (simp add: tda_bitset_copy_assign_def)
      then show ?thesis
        using assms(1,3) req gen False requests_refused [of h "balloc b" _ _ h' "bitset_block b"]
        by (auto simp: bitset_assigned_def)
    qed
  qed
qed

section \<open>The properties\<close>

text \<open>
  C33: on a bitset with a clear tail, every operation is the operation on the set of its members,
  and keeps the tail clear: set, reset, flip, set_to, set_all, reset_all, flip_all, union,
  intersection, difference and symmetric difference.
\<close>

theorem bitset_operations:
  assumes "bitset_ok b"
  shows "(\<forall>i < nbits b. bitset_edits b (tda_bitset_set b i) (insert i (members b)) \<and>
      bitset_edits b (tda_bitset_reset b i) (members b - {i}) \<and>
      bitset_edits b (tda_bitset_flip b i) (if i \<in> members b then members b - {i} else insert i (members b)) \<and>
      (\<forall>val. bitset_edits b (tda_bitset_set_to b i val) (if val then insert i (members b) else members b - {i}))) \<and>
    (\<forall>i val. nbits b \<le> i \<longrightarrow> tda_bitset_set b i = None \<and> tda_bitset_reset b i = None \<and> tda_bitset_flip b i = None \<and>
      tda_bitset_set_to b i val = None) \<and>
    bitset_edits b (tda_bitset_set_all b) {..<nbits b} \<and>
    bitset_edits b (tda_bitset_reset_all b) {} \<and>
    bitset_edits b (tda_bitset_flip_all b) ({..<nbits b} - members b) \<and>
    (\<forall>c. bitset_ok c \<and> nbits c = nbits b \<longrightarrow>
      bitset_edits b (tda_bitset_union b c) (members b \<union> members c) \<and>
      bitset_edits b (tda_bitset_intersection b c) (members b \<inter> members c) \<and>
      bitset_edits b (tda_bitset_difference b c) (members b - members c) \<and>
      bitset_edits b (tda_bitset_symmetric_difference b c) ((members b - members c) \<union> (members c - members b)))"
proof (intro conjI)
  show "\<forall>i < nbits b. bitset_edits b (tda_bitset_set b i) (insert i (members b)) \<and>
      bitset_edits b (tda_bitset_reset b i) (members b - {i}) \<and>
      bitset_edits b (tda_bitset_flip b i) (if i \<in> members b then members b - {i} else insert i (members b)) \<and>
      (\<forall>val. bitset_edits b (tda_bitset_set_to b i val) (if val then insert i (members b) else members b - {i}))"
    using bit_op_spec [OF assms] assms by (simp add: tda_bitset_set_to_def)
  show "\<forall>i val. nbits b \<le> i \<longrightarrow> tda_bitset_set b i = None \<and> tda_bitset_reset b i = None \<and> tda_bitset_flip b i = None \<and>
      tda_bitset_set_to b i val = None"
    by (simp add: tda_bitset_set_def tda_bitset_reset_def tda_bitset_flip_def tda_bitset_set_to_def chk_def)
qed (use set_all_spec [OF assms] reset_all_spec [OF assms] flip_all_spec [OF assms] union_spec [OF assms] in \<open>simp_all\<close>)

text \<open>A universe of none, without a word, and one of 70, in two.\<close>

theorem bitset_operations_witness:
  "(\<exists>b. tda_bitset_set_all \<lparr>bwords = [], nbits = 0, nwords = 0, balloc = 1\<rparr> = Some b \<and> members b = {}) \<and>
   (\<exists>b. tda_bitset_flip_all \<lparr>bwords = [1, 32], nbits = 70, nwords = 2, balloc = 1\<rparr> = Some b \<and>
    members b = {..<70} - members \<lparr>bwords = [1, 32], nbits = 70, nwords = 2, balloc = 1\<rparr>)"
proof
  have "bitset_ok \<lparr>bwords = [], nbits = 0, nwords = 0, balloc = 1\<rparr>" by (simp add: bitset_ok_def words_for_def members_def)
  from bitset_operations [OF this]
  show "\<exists>b. tda_bitset_set_all \<lparr>bwords = [], nbits = 0, nwords = 0, balloc = 1\<rparr> = Some b \<and> members b = {}"
    by (auto simp: bitset_edits_def)
  let ?b = "\<lparr>bwords = [1, 32], nbits = 70, nwords = 2, balloc = 1\<rparr>"
  have "i < 70" if "i \<in> members ?b" for i
  proof (cases "i div 64 = 0")
    case False
    then have i: "i div 64 = 1" "bit (32 :: 64 word) (i mod 64)" using that by (auto simp: members_def nth_Cons' split: if_splits)
    have "(32 :: 64 word) = push_bit 5 1" by simp
    then have "i mod 64 = 5" using i(2) bit_one [of "i mod 64" 5] by (simp only:)
    then show ?thesis using i(1) div_word [of i] by simp
  qed (use that in simp)
  then have "bitset_ok ?b" by (auto simp: bitset_ok_def words_for_def WORD_BITS_def SIZE_MAX_def)
  from bitset_operations [OF this]
  have "bitset_edits ?b (tda_bitset_flip_all ?b) ({..<nbits ?b} - members ?b)" by blast
  then show "\<exists>b. tda_bitset_flip_all ?b = Some b \<and> members b = {..<70} - members ?b" by (auto simp: bitset_edits_def)
qed

lemma bitset_queries:
  assumes "bitset_ok b" "bitset_ok c" "nbits c = nbits b" "i < nbits b"
  shows "tda_bitset_test b i = Some (i \<in> members b) \<and>
    tda_bitset_count b = Some (card (members b)) \<and>
    tda_bitset_any b = Some (members b \<noteq> {}) \<and> tda_bitset_none b = Some (members b = {}) \<and>
    tda_bitset_all b = Some (members b = {..<nbits b}) \<and>
    tda_bitset_eq False b c = Some (members b = members c) \<and>
    tda_bitset_is_subset b c = Some (members b \<subseteq> members c) \<and>
    tda_bitset_intersects b c = Some (members b \<inter> members c \<noteq> {}) \<and>
    (\<exists>n nc p pc. tda_bitset_find_next b k = Some n \<and> is_first (\<lambda>j. k \<le> j \<and> j \<in> members b) (nbits b) n \<and>
       tda_bitset_find_next_clear b k = Some nc \<and> is_first (\<lambda>j. k \<le> j \<and> j \<notin> members b) (nbits b) nc \<and>
       tda_bitset_find_prev b k = Some p \<and> is_last (\<lambda>j. j \<le> k \<and> j \<in> members b) (nbits b) p \<and>
       tda_bitset_find_prev_clear b k = Some pc \<and> is_last (\<lambda>j. j \<le> k \<and> j \<notin> members b) (nbits b) pc)"
proof -
  obtain n nc p pc where "find_next_impl b False k = Some n" "is_first (\<lambda>j. k \<le> j \<and> j \<in> members b) (nbits b) n"
    "find_next_impl b True k = Some nc" "is_first (\<lambda>j. k \<le> j \<and> j \<notin> members b) (nbits b) nc"
    "find_prev_impl b False k = Some p" "is_last (\<lambda>j. j \<le> k \<and> j \<in> members b) (nbits b) p"
    "find_prev_impl b True k = Some pc" "is_last (\<lambda>j. j \<le> k \<and> j \<notin> members b) (nbits b) pc"
    using find_next_impl_spec [OF assms(1), of False k] find_next_impl_spec [OF assms(1), of True k]
      find_prev_impl_spec [OF assms(1), of False k] find_prev_impl_spec [OF assms(1), of True k]
    unfolding seen_def by auto
  then show ?thesis
    using bit_op_spec(4) [OF assms(1,4)] count_spec [OF assms(1)] any_spec [OF assms(1)] all_spec [OF assms(1)]
      eq_spec [OF assms(1,2), of False] subset_spec [OF assms(1-3)] assms(1,3)
    by (simp add: tda_bitset_none_def tda_bitset_find_next_def tda_bitset_find_next_clear_def
        tda_bitset_find_prev_def tda_bitset_find_prev_clear_def)
qed

lemma bitset_lifetimes:
  assumes "bitset_ok b" "bitset_ok c" "bitset_block b \<subseteq># lives h (balloc b)"
    and "al \<noteq> 0" "n \<le> SIZE_MAX" "set s \<subseteq> {..<n}"
  shows "bitset_makes h al n (tda_bitset_from_span n s U64 al h) (set s) \<and>
    bitset_makes h al (nbits b) (tda_bitset_copy_with b al h) (members b) \<and>
    bitset_assigned h b c (tda_bitset_copy_assign junk False b c h) \<and>
    (\<exists>c' h'. tda_bitset_move_assign False b c h = Some (c, c', h') \<and> bitset_ok c' \<and> members c' = {} \<and>
       requests h (balloc b) (bitset_block b) {#} True h') \<and>
    (\<exists>h'. tda_bitset_deinit b h = Some (bitset_null, h') \<and>
       requests h (balloc b) (bitset_block b) {#} True h')"
proof (intro conjI)
  show "bitset_makes h al n (tda_bitset_from_span n s U64 al h) (set s)"
    by (rule from_span_spec [OF assms(4-6)])
  show "bitset_makes h al (nbits b) (tda_bitset_copy_with b al h) (members b)"
    by (rule copy_with_spec [OF assms(1,4)])
  show "bitset_assigned h b c (tda_bitset_copy_assign junk False b c h)"
    by (rule copy_assign_spec [OF assms(1-3)])
  show dead: "\<exists>h'. tda_bitset_deinit b h = Some (bitset_null, h') \<and>
      requests h (balloc b) (bitset_block b) {#} True h'"
    by (rule bitset_deinit_spec [OF assms(1,3)])
  have "bitset_ok (bitset_null\<lparr>balloc := balloc c\<rparr>)" "members (bitset_null\<lparr>balloc := balloc c\<rparr>) = {}"
    using bitset_okD(3) [OF assms(2)] by (simp_all add: bitset_ok_def bitset_null_def members_def)
  then show "\<exists>c' h'. tda_bitset_move_assign False b c h = Some (c, c', h') \<and> bitset_ok c' \<and> members c' = {} \<and>
      requests h (balloc b) (bitset_block b) {#} True h'"
    using dead assms(1,2) by (auto simp: tda_bitset_move_assign_def Let_def)
qed

end
