(* ===== verification/Nodes.thy ===== *)
theory Nodes
  imports Holder
begin

text \<open>
  The memory of the containers made of nodes. A node is a block of its own at an address the
  allocator picks; here an address is a positive number, \<open>places\<close> are those of the nodes that are
  out, of whatever container, and \<open>pick\<close> is the allocator's choice of the next, any function that
  never picks null or a place that is out. Reading or writing a node that is not out stops. Each
  field of a node is a function of its address, in the records that extend this one.
\<close>

record store =
  places :: "nat set"
  pick :: "nat set \<Rightarrow> nat"

definition node_new :: "al \<Rightarrow> layout \<Rightarrow> 's store_scheme \<Rightarrow> heap \<Rightarrow> (nat \<times> 's store_scheme \<times> heap) option" where
  "node_new al block m h = do {
     (ok, h) \<leftarrow> al_alloc al block h;
     let p = pick m (places m);
     Some (if ok then (p, m\<lparr>places := insert p (places m)\<rparr>, h) else (0, m, h))
   }"

definition node_free :: "al \<Rightarrow> layout \<Rightarrow> nat \<Rightarrow> 's store_scheme \<Rightarrow> heap \<Rightarrow> ('s store_scheme \<times> heap) option" where
  "node_free al block p m h = do {
     chk (p \<in> places m);
     h \<leftarrow> al_dealloc al True block h;
     Some (m\<lparr>places := places m - {p}\<rparr>, h)
   }"

definition store_ok :: "'s store_scheme \<Rightarrow> bool" where
  "store_ok m \<longleftrightarrow> finite (places m) \<and> 0 \<notin> places m \<and> (\<forall>S. finite S \<longrightarrow> pick m S \<noteq> 0 \<and> pick m S \<notin> S)"

lemma store_pick: "store_ok m \<Longrightarrow> pick m (places m) \<noteq> 0 \<and> pick m (places m) \<notin> places m"
  by (simp add: store_ok_def)

text \<open>An allocator that picks the address after the last.\<close>

definition next_place :: "nat set \<Rightarrow> nat" where
  "next_place S = Suc (Max (insert 0 S))"

lemma next_place_fresh:
  assumes "finite S"
  shows "next_place S \<noteq> 0" "next_place S \<notin> S"
proof -
  show "next_place S \<noteq> 0" by (simp add: next_place_def)
  show "next_place S \<notin> S"
  proof
    assume "next_place S \<in> S"
    then have "next_place S \<le> Max (insert 0 S)" using assms by (intro Max_ge) auto
    then show False by (simp add: next_place_def)
  qed
qed

definition node_size_ok :: "layout \<Rightarrow> bool" where
  "node_size_ok block \<longleftrightarrow> 0 < lsize block \<and> tda_layout_is_align (lalign block)"

lemma node_new_spec:
  assumes "store_ok m" "node_size_ok block" "al \<noteq> 0"
  obtains b h' where "node_new al block m h = Some (if b then (pick m (places m), m\<lparr>places := insert (pick m (places m)) (places m)\<rparr>, h')
      else (0, m, h'))"
    "requests h al {#} {#block#} b h'" "generous h al \<Longrightarrow> b"
proof -
  obtain b h' where a: "al_alloc al block h = Some (b, h')" "requests h al {#} {#block#} b h'" "generous h al \<Longrightarrow> b"
    using al_alloc_spec [of al block h] assms(2,3) by (auto simp: node_size_ok_def)
  then show ?thesis using that [of b h'] by (simp add: node_new_def Let_def)
qed

lemma node_free_spec:
  assumes "p \<in> places m" "node_size_ok block" "al \<noteq> 0" "block \<in># lives h al"
  obtains h' where "node_free al block p m h = Some (m\<lparr>places := places m - {p}\<rparr>, h')"
    "requests h al {#block#} {#} True h'"
proof -
  have "al_dealloc al True block h = Some (al_give al block h)"
    using al_dealloc_block [OF assms(3) _ _ assms(4)] assms(2) by (simp add: node_size_ok_def)
  then have "node_free al block p m h = Some (m\<lparr>places := places m - {p}\<rparr>, al_give al block h)"
    using assms(1) by (simp add: node_free_def)
  moreover have "requests h al {#block#} {#} True (al_give al block h)" by (simp add: requests_def)
  ultimately show ?thesis by (rule that)
qed

section \<open>Chains\<close>

text \<open>The nodes \<open>ps\<close> are linked through the field \<open>f\<close>, the last one to \<open>b\<close>.\<close>

fun links :: "(nat \<Rightarrow> nat) \<Rightarrow> nat list \<Rightarrow> nat \<Rightarrow> bool" where
  "links f [] b = True"
| "links f (p # ps) b = (f p = hd (ps @ [b]) \<and> links f ps b)"

text \<open>The first \<open>n\<close> nodes reached from \<open>p\<close>.\<close>

fun path :: "(nat \<Rightarrow> nat) \<Rightarrow> nat \<Rightarrow> nat \<Rightarrow> nat list" where
  "path f 0 p = []"
| "path f (Suc n) p = p # path f n (f p)"

lemma links_path: "links f ps b \<Longrightarrow> path f (length ps) (hd (ps @ [b])) = ps"
  by (induction ps) auto

lemma links_append: "links f (ps @ qs) b \<longleftrightarrow> links f ps (hd (qs @ [b])) \<and> links f qs b"
  by (induction ps) (auto simp: hd_append)

lemma links_cong: "(\<And>p. p \<in> set ps \<Longrightarrow> f p = g p) \<Longrightarrow> links f ps b = links g ps b"
  by (induction ps) auto

lemma links_upd [simp]: "p \<notin> set ps \<Longrightarrow> links (f(p := x)) ps b = links f ps b"
  by (rule links_cong) auto

lemma links_last:
  "links f (ps @ [p]) b \<Longrightarrow> p \<notin> set ps \<Longrightarrow> links (f(p := c)) (ps @ [p]) c"
  by (simp add: links_append)

lemma links_relast:
  assumes "links f ps b" "distinct ps" "ps \<noteq> []"
  shows "links (f(last ps := c)) ps c"
proof -
  obtain qs q where "ps = qs @ [q]" using assms(3) by (cases ps rule: rev_cases) auto
  then show ?thesis using assms links_last [of f qs q b c] by simp
qed

text \<open>A node goes out of a chain.\<close>

lemma links_unlink:
  assumes "links f (as @ p # bs) z" "distinct (as @ p # bs)"
  shows "links (if as = [] then f else f(last as := hd (bs @ [z]))) (as @ bs) z"
proof (cases "as = []")
  case False
  then have "last as \<in> set as" by simp
  then have "last as \<notin> set bs" using assms(2) by auto
  then show ?thesis
    using assms False links_relast [of f as "hd (p # bs @ [z])" "hd (bs @ [z])"] by (simp add: links_append)
qed (use assms in \<open>simp add: links_append\<close>)

end
