(* ===== verification/Rng.thy ===== *)
theory Rng
  imports TdaPrelude
begin

text \<open>
  \<open>core/rng.h\<close> and \<open>core/rng.c\<close>: xoshiro256++ seeded by SplitMix64, and the bounded draws by
  Lemire's method, on words of the code's widths; the float draws are in \<open>Floats\<close>.
\<close>

unbundle bit_operations_syntax

section \<open>State and raw draws\<close>

record rng =
  rs0 :: "64 word"
  rs1 :: "64 word"
  rs2 :: "64 word"
  rs3 :: "64 word"

definition SPLITMIX_GAMMA :: "64 word" where "SPLITMIX_GAMMA = 0x9e3779b97f4a7c15"
definition SPLITMIX_C1 :: "64 word" where "SPLITMIX_C1 = 0xbf58476d1ce4e5b9"
definition SPLITMIX_C2 :: "64 word" where "SPLITMIX_C2 = 0x94d049bb133111eb"

text \<open>The answer and the state it leaves.\<close>

definition splitmix64 :: "64 word \<Rightarrow> 64 word \<times> 64 word" where
  "splitmix64 state = (let
       state = state + SPLITMIX_GAMMA;
       val = state;
       val = (val XOR drop_bit 30 val) * SPLITMIX_C1;
       val = (val XOR drop_bit 27 val) * SPLITMIX_C2
     in (val XOR drop_bit 31 val, state))"

definition rotl64 :: "64 word \<Rightarrow> nat \<Rightarrow> 64 word" where
  "rotl64 val cnt = (push_bit cnt val OR drop_bit (64 - cnt) val)"

definition tda_rng_from_seed :: "64 word \<Rightarrow> rng" where
  "tda_rng_from_seed seed = (let
       (w0, state) = splitmix64 seed;
       (w1, state) = splitmix64 state;
       (w2, state) = splitmix64 state;
       (w3, state) = splitmix64 state
     in \<lparr>rs0 = w0, rs1 = w1, rs2 = w2, rs3 = w3\<rparr>)"

definition rng_step :: "rng \<Rightarrow> 64 word \<times> rng" where
  "rng_step self = (let
       result = rotl64 (rs0 self + rs3 self) 23 + rs0 self;
       tmp = push_bit 17 (rs1 self);
       self = self\<lparr>rs2 := rs2 self XOR rs0 self\<rparr>;
       self = self\<lparr>rs3 := rs3 self XOR rs1 self\<rparr>;
       self = self\<lparr>rs1 := rs1 self XOR rs2 self\<rparr>;
       self = self\<lparr>rs0 := rs0 self XOR rs3 self\<rparr>;
       self = self\<lparr>rs2 := rs2 self XOR tmp\<rparr>;
       self = self\<lparr>rs3 := rotl64 (rs3 self) 45\<rparr>
     in (result, self))"

definition next_u64 :: "rng \<Rightarrow> 64 word \<times> rng" where
  "next_u64 self =
     rng_step (if (rs0 self OR rs1 self OR rs2 self OR rs3 self) = 0 then tda_rng_from_seed 0 else self)"

definition next_u32 :: "rng \<Rightarrow> 32 word \<times> rng" where
  "next_u32 self = (let (v, self) = next_u64 self in (ucast (drop_bit 32 v), self))"

definition tda_rng_u32 :: "rng \<Rightarrow> 32 word \<times> rng" where
  "tda_rng_u32 self = next_u32 self"

definition tda_rng_u64 :: "rng \<Rightarrow> 64 word \<times> rng" where
  "tda_rng_u64 self = next_u64 self"

definition tda_rng_bool :: "rng \<Rightarrow> bool \<times> rng" where
  "tda_rng_bool self = (let (v, self) = next_u64 self in (drop_bit 63 v \<noteq> 0, self))"

section \<open>Bounded draws\<close>

text \<open>
  The rejection loops may, for all the types say, run for ever: a draw that never returns is
  \<^term>\<open>None\<close>.
\<close>

partial_function (option) reject32 ::
  "32 word \<Rightarrow> 32 word \<Rightarrow> 64 word \<Rightarrow> rng \<Rightarrow> (64 word \<times> rng) option" where
  "reject32 rg threshold wide self =
     (if (ucast wide :: 32 word) < threshold
      then (let (x, self) = next_u32 self in reject32 rg threshold (ucast x * ucast rg) self)
      else Some (wide, self))"

definition tda_rng_u32_max :: "rng \<Rightarrow> 32 word \<Rightarrow> (32 word \<times> rng) option" where
  "tda_rng_u32_max self mx =
     (if mx = - 1 then Some (next_u32 self)
      else do {
        let rg = mx + 1;
        let (x, self) = next_u32 self;
        let wide = ucast x * ucast rg;
        (wide, self) \<leftarrow>
          (if (ucast wide :: 32 word) < rg
           then reject32 rg ((- rg) mod rg) wide self
           else Some (wide, self));
        Some (ucast (drop_bit 32 wide), self)
      })"

partial_function (option) reject64 ::
  "64 word \<Rightarrow> 64 word \<Rightarrow> 128 word \<Rightarrow> rng \<Rightarrow> (128 word \<times> rng) option" where
  "reject64 rg threshold wide self =
     (if (ucast wide :: 64 word) < threshold
      then (let (x, self) = next_u64 self in reject64 rg threshold (ucast x * ucast rg) self)
      else Some (wide, self))"

definition tda_rng_u64_max :: "rng \<Rightarrow> 64 word \<Rightarrow> (64 word \<times> rng) option" where
  "tda_rng_u64_max self mx =
     (if mx = - 1 then Some (next_u64 self)
      else do {
        let rg = mx + 1;
        let (x, self) = next_u64 self;
        let wide = ucast x * ucast rg;
        (wide, self) \<leftarrow>
          (if (ucast wide :: 64 word) < rg
           then reject64 rg ((- rg) mod rg) wide self
           else Some (wide, self));
        Some (ucast (drop_bit 64 wide), self)
      })"

text \<open>An index below \<open>len\<close>; the lengths of the code are naturals below \<open>2 ^ 64\<close>.\<close>

definition tda_rng_idx :: "rng \<Rightarrow> nat \<Rightarrow> (nat \<times> rng) option" where
  "tda_rng_idx self len = do {
     chk (len > 0);
     (v, self) \<leftarrow> tda_rng_u64_max self (word_of_nat len - 1);
     Some (unat v, self)
   }"

definition tda_rng_i32_range :: "rng \<Rightarrow> 32 word \<Rightarrow> 32 word \<Rightarrow> (32 word \<times> rng) option" where
  "tda_rng_i32_range self lo hi = do {
     chk (sint lo \<le> sint hi);
     let width = hi - lo;
     (v, self) \<leftarrow> tda_rng_u32_max self width;
     Some (lo + v, self)
   }"

definition tda_rng_i64_range :: "rng \<Rightarrow> 64 word \<Rightarrow> 64 word \<Rightarrow> (64 word \<times> rng) option" where
  "tda_rng_i64_range self lo hi = do {
     chk (sint lo \<le> sint hi);
     let width = hi - lo;
     (v, self) \<leftarrow> tda_rng_u64_max self width;
     Some (lo + v, self)
   }"

section \<open>The state is never all zeroes\<close>

definition rng_zero :: "rng \<Rightarrow> bool" where
  "rng_zero r \<longleftrightarrow> rs0 r = 0 \<and> rs1 r = 0 \<and> rs2 r = 0 \<and> rs3 r = 0"

definition splitmix_out :: "64 word \<Rightarrow> 64 word" where
  "splitmix_out state = fst (splitmix64 state)"

lemma splitmix_out_inj: "splitmix_out a = splitmix_out b \<Longrightarrow> a = b"
proof -
  assume eq: "splitmix_out a = splitmix_out b"
  define x y where xy: "x = a + SPLITMIX_GAMMA" "y = b + SPLITMIX_GAMMA"
  define x1 y1 where xy1: "x1 = (x XOR drop_bit 30 x) * SPLITMIX_C1" "y1 = (y XOR drop_bit 30 y) * SPLITMIX_C1"
  define x2 y2 where xy2: "x2 = (x1 XOR drop_bit 27 x1) * SPLITMIX_C2" "y2 = (y1 XOR drop_bit 27 y1) * SPLITMIX_C2"
  have "x2 XOR drop_bit 31 x2 = y2 XOR drop_bit 31 y2"
    using eq by (simp add: splitmix_out_def splitmix64_def Let_def xy xy1 xy2)
  then have "x2 = y2" by (rule xor_shift_inj [rotated]) simp
  then have "x1 XOR drop_bit 27 x1 = y1 XOR drop_bit 27 y1"
    unfolding xy2 by (rule odd_mult_inj [of _ "0x319642b2d24d8ec3", rotated]) (simp add: SPLITMIX_C2_def)
  then have "x1 = y1" by (rule xor_shift_inj [rotated]) simp
  then have "x XOR drop_bit 30 x = y XOR drop_bit 30 y"
    unfolding xy1 by (rule odd_mult_inj [of _ "0x96de1b173f119089", rotated]) (simp add: SPLITMIX_C1_def)
  then have "x = y" by (rule xor_shift_inj [rotated]) simp
  then show "a = b" by (simp add: xy)
qed

lemma splitmix64_eq: "splitmix64 state = (splitmix_out state, state + SPLITMIX_GAMMA)"
  by (simp add: splitmix_out_def splitmix64_def Let_def)

lemma from_seed_words:
  "tda_rng_from_seed seed = \<lparr>rs0 = splitmix_out seed, rs1 = splitmix_out (seed + SPLITMIX_GAMMA),
     rs2 = splitmix_out (seed + SPLITMIX_GAMMA + SPLITMIX_GAMMA),
     rs3 = splitmix_out (seed + SPLITMIX_GAMMA + SPLITMIX_GAMMA + SPLITMIX_GAMMA)\<rparr>"
  by (simp add: tda_rng_from_seed_def splitmix64_eq)

lemma from_seed_not_zero: "\<not> rng_zero (tda_rng_from_seed seed)"
proof
  assume "rng_zero (tda_rng_from_seed seed)"
  then have "splitmix_out seed = splitmix_out (seed + SPLITMIX_GAMMA)"
    by (simp add: rng_zero_def from_seed_words)
  then have "seed = seed + SPLITMIX_GAMMA" by (rule splitmix_out_inj)
  then show False by (simp add: SPLITMIX_GAMMA_def)
qed

lemma or_zero_iff: "(a OR b) = 0 \<longleftrightarrow> a = 0 \<and> b = 0" for a b :: "64 word"
  by (auto simp: bit_eq_iff bit_or_iff)

lemma rotl64_zero:
  assumes "rotl64 v c = 0" "c < 64"
  shows "v = 0"
proof (rule bit_word_eqI)
  fix n assume n: "n < LENGTH(64)"
  have z: "push_bit c v = 0" "drop_bit (64 - c) v = 0"
    using assms(1) by (simp_all add: rotl64_def or_zero_iff)
  show "bit v n = bit (0::64 word) n"
  proof (cases "n + c < 64")
    case True
    have "\<not> bit (push_bit c v) (n + c)" by (simp add: z(1))
    then show ?thesis using True by (simp add: bit_push_bit_iff)
  next
    case False
    have "\<not> bit (drop_bit (64 - c) v) (n - (64 - c))" by (simp add: z(2))
    then show ?thesis using False by (simp add: bit_drop_bit_eq)
  qed
qed

lemma xor_zero_iff: "(a XOR b) = 0 \<longleftrightarrow> a = b" for a b :: "64 word"
  by (auto simp: bit_eq_iff bit_xor_iff)

lemma push_bit_fix:
  fixes x :: "64 word"
  assumes "x = push_bit k x" "0 < k"
  shows "x = 0"
proof (rule bit_word_eqI)
  fix n assume "n < LENGTH(64)"
  have "\<not> bit x n" for n
  proof (induction n rule: less_induct)
    case (less n)
    have "bit x n \<longleftrightarrow> bit (push_bit k x) n" using assms(1) by simp
    then show ?case using less.IH [of "n - k"] assms(2) by (auto simp: bit_push_bit_iff)
  qed
  then show "bit x n = bit (0::64 word) n" by simp
qed

lemma rng_step_not_zero:
  assumes "\<not> rng_zero r"
  shows "\<not> rng_zero (snd (rng_step r))"
proof
  assume z: "rng_zero (snd (rng_step r))"
  then have "rotl64 (rs3 r XOR rs1 r) 45 = 0" by (simp add: rng_zero_def rng_step_def Let_def)
  then have "rs3 r XOR rs1 r = 0" by (rule rotl64_zero) simp
  then have e3: "rs3 r = rs1 r" by (simp add: xor_zero_iff)
  have e0: "rs0 r = 0" using z e3 by (simp add: rng_zero_def rng_step_def Let_def)
  have "rs1 (snd (rng_step r)) = (rs1 r XOR (rs2 r XOR rs0 r))"
    by (simp add: rng_step_def Let_def)
  then have "(rs1 r XOR rs2 r) = 0" using z unfolding rng_zero_def e0 by simp
  then have e1: "rs1 r = rs2 r" unfolding xor_zero_iff .
  have "rs2 (snd (rng_step r)) = ((rs2 r XOR rs0 r) XOR push_bit 17 (rs1 r))"
    by (simp add: rng_step_def Let_def)
  then have "(rs2 r XOR push_bit 17 (rs1 r)) = 0" using z unfolding rng_zero_def e0 by simp
  then have "rs2 r = push_bit 17 (rs1 r)" unfolding xor_zero_iff .
  then have "rs1 r = 0" unfolding e1 by (rule push_bit_fix) simp
  then show False using assms e0 e1 e3 by (simp add: rng_zero_def)
qed

section \<open>Lemire's method\<close>

text \<open>
  A raw draw \<open>x < N\<close> is mapped to the top half of its product with the range, and rejected when
  the bottom half lies below \<open>N mod rg\<close>. Then every answer has the same number of accepted draws.
\<close>

definition lem_out :: "nat \<Rightarrow> nat \<Rightarrow> nat \<Rightarrow> nat" where
  "lem_out N rg x = x * rg div N"

definition lem_acc :: "nat \<Rightarrow> nat \<Rightarrow> nat \<Rightarrow> bool" where
  "lem_acc N rg x \<longleftrightarrow> N mod rg \<le> x * rg mod N"

lemma lem_out_less: "x < N \<Longrightarrow> 0 < rg \<Longrightarrow> lem_out N rg x < rg"
  by (simp add: lem_out_def less_mult_imp_div_less mult.commute)

lemma card_multiples:
  fixes rg :: nat
  assumes "0 < rg"
  shows "card {x. A \<le> x * rg \<and> x * rg < A + q * rg} = q"
proof -
  let ?a = "(A + (rg - 1)) div rg"
  have ge: "A \<le> x * rg \<longleftrightarrow> ?a \<le> x" for x
  proof -
    have "?a \<le> x \<longleftrightarrow> A + (rg - 1) < Suc x * rg"
      using assms by (metis less_Suc_eq_le div_less_iff_less_mult)
    then show ?thesis using assms by auto
  qed
  have "x * rg < A + q * rg \<longleftrightarrow> x < ?a + q" for x
  proof (cases "q \<le> x")
    case True
    then obtain y where y: "x = q + y" using le_Suc_ex by blast
    show ?thesis using ge [of y] unfolding y by (simp add: add_mult_distrib not_le [symmetric])
  next
    case False
    then have "x * rg < q * rg" using assms by simp
    moreover have "q * rg \<le> A + q * rg" by simp
    ultimately have "x * rg < A + q * rg" by (rule less_le_trans)
    then show ?thesis using False by simp
  qed
  then have "{x. A \<le> x * rg \<and> x * rg < A + q * rg} = {?a..<?a + q}" using ge by auto
  then show ?thesis by simp
qed

lemma lem_uniform:
  assumes "0 < rg" "rg \<le> N" "v < rg"
  shows "card {x. x < N \<and> lem_out N rg x = v \<and> lem_acc N rg x} = N div rg"
proof -
  have N: "0 < N" using assms by simp
  let ?A = "v * N + N mod rg"
  have "x < N \<and> lem_out N rg x = v \<and> lem_acc N rg x \<longleftrightarrow>
      ?A \<le> x * rg \<and> x * rg < ?A + N div rg * rg" for x
  proof -
    have e: "?A + N div rg * rg = v * N + N" by simp
    show ?thesis
    proof
      assume a: "x < N \<and> lem_out N rg x = v \<and> lem_acc N rg x"
      then have "x * rg = v * N + x * rg mod N" by (metis div_mult_mod_eq lem_out_def)
      moreover have "x * rg mod N < N" using N by simp
      ultimately show "?A \<le> x * rg \<and> x * rg < ?A + N div rg * rg"
        using a unfolding e lem_acc_def by linarith
    next
      assume a: "?A \<le> x * rg \<and> x * rg < ?A + N div rg * rg"
      then have b: "v * N \<le> x * rg" "x * rg < Suc v * N" unfolding e by simp_all
      then have d: "x * rg div N = v" using N by (intro div_nat_eqI) (simp_all add: mult.commute)
      then have "x * rg = v * N + x * rg mod N" by (metis div_mult_mod_eq)
      then have "N mod rg \<le> x * rg mod N" using a by linarith
      moreover have "Suc v * N \<le> rg * N" using assms(3) by (intro mult_le_mono1) simp
      then have "x * rg < N * rg" using b(2) unfolding mult.commute [of N rg] by (rule less_le_trans [rotated])
      then have "x < N" by simp
      ultimately show "x < N \<and> lem_out N rg x = v \<and> lem_acc N rg x"
        using d by (simp add: lem_out_def lem_acc_def)
    qed
  qed
  then show ?thesis using card_multiples [OF assms(1), of ?A "N div rg"] by simp
qed

section \<open>The draws on words\<close>

lemma unat_wide64: "unat (ucast x * ucast rg :: 128 word) = unat x * unat rg" for x rg :: "64 word"
proof -
  have "unat x < 2 ^ 64" "unat rg < 2 ^ 64" using unsigned_less [of x] unsigned_less [of rg] by simp_all
  then have "unat x * unat rg < 2 ^ 64 * 2 ^ 64" by (intro mult_strict_mono) simp_all
  moreover have "unat x < 2 ^ 128" "unat rg < 2 ^ 128"
    using \<open>unat x < 2 ^ 64\<close> \<open>unat rg < 2 ^ 64\<close> by simp_all
  ultimately show ?thesis by (simp add: unat_word_ariths unsigned_ucast_eq take_bit_eq_mod)
qed

lemma unat_low64: "unat (ucast (w :: 128 word) :: 64 word) = unat w mod 2 ^ 64"
  by (simp add: unsigned_ucast_eq take_bit_eq_mod)

lemma unat_high64:
  "unat (ucast (drop_bit 64 (w :: 128 word)) :: 64 word) = unat w div 2 ^ 64"
proof -
  have "unat w < 2 ^ 128" using unsigned_less [of w] by simp
  then have "unat w div 2 ^ 64 < 2 ^ 64" by (simp add: div_less_iff_less_mult)
  moreover have "unat (drop_bit 64 w) = unat w div 2 ^ 64" by (simp add: drop_bit_eq_div unat_div)
  ultimately show ?thesis by (simp add: unsigned_ucast_eq take_bit_eq_mod)
qed

lemma unat_threshold64: "rg \<noteq> 0 \<Longrightarrow> unat ((- rg) mod rg) = 2 ^ 64 mod unat rg" for rg :: "64 word"
proof -
  assume a: "rg \<noteq> 0"
  have lt: "unat rg < 2 ^ 64" using unsigned_less [of rg] by simp
  have "unat (rg + (- rg)) = 0" by simp
  then have "(unat rg + unat (- rg)) mod 2 ^ 64 = 0" by (simp only: unat_word_ariths) simp
  then obtain k where k: "unat rg + unat (- rg) = 2 ^ 64 * k" by blast
  moreover have "0 < unat rg" "unat (- rg) < 2 ^ 64" using a unsigned_less [of "- rg"] by (simp_all add: unat_gt_0)
  ultimately have "0 < k" "2 ^ 64 * k < 2 ^ 64 * 2" using lt by (cases k; simp)+
  then have "k = 1" by simp
  then have "unat (- rg) = 2 ^ 64 - unat rg" using k by simp
  then have "unat ((- rg) mod rg) = (2 ^ 64 - unat rg) mod unat rg" by (simp add: unat_mod)
  also have "\<dots> = 2 ^ 64 mod unat rg" using lt by (simp add: le_mod_geq)
  finally show ?thesis .
qed

definition rng_after :: "rng \<Rightarrow> nat \<Rightarrow> rng" where
  "rng_after self n = ((\<lambda>r. snd (next_u64 r)) ^^ n) self"

definition rng_draw :: "rng \<Rightarrow> nat \<Rightarrow> nat" where
  "rng_draw self n = unat (fst (next_u64 (rng_after self n)))"

lemma rng_after_0 [simp]: "rng_after self 0 = self"
  by (simp add: rng_after_def)

lemma rng_after_Suc: "rng_after self (Suc n) = rng_after (snd (next_u64 self)) n"
  by (simp add: rng_after_def funpow_swap1 del: funpow.simps) (simp add: funpow_Suc_right del: funpow.simps)

lemma rng_draw_Suc: "rng_draw self (Suc n) = rng_draw (snd (next_u64 self)) n"
  by (simp add: rng_draw_def rng_after_Suc)

text \<open>The loop, on the stream of draws from \<open>self\<close>, entered with the product of an earlier draw.\<close>

lemma reject64_first:
  assumes rg: "rg \<noteq> 0" and acc: "lem_acc (2 ^ 64) (unat rg) (rng_draw self n)"
    and rej: "\<forall>k < n. \<not> lem_acc (2 ^ 64) (unat rg) (rng_draw self k)"
  shows "\<exists>w. reject64 rg ((- rg) mod rg) (ucast (fst (next_u64 self)) * ucast rg) (snd (next_u64 self)) =
      Some (w, rng_after self (Suc n)) \<and> unat w = rng_draw self n * unat rg"
  using acc rej
proof (induction n arbitrary: self)
  case 0
  let ?x = "fst (next_u64 self)"
  have "\<not> (ucast (ucast ?x * ucast rg :: 128 word) :: 64 word) < (- rg) mod rg"
    using 0(1) rg by (simp add: word_less_nat_alt unat_low64 unat_wide64 unat_threshold64 lem_acc_def
        rng_draw_def not_less)
  then show ?case
    by (simp add: reject64.simps rng_after_Suc unat_wide64 rng_draw_def)
next
  case (Suc n)
  let ?x = "fst (next_u64 self)" and ?s = "snd (next_u64 self)"
  have "\<not> lem_acc (2 ^ 64) (unat rg) (rng_draw self 0)" using Suc.prems(2) by blast
  then have low: "(ucast (ucast ?x * ucast rg :: 128 word) :: 64 word) < (- rg) mod rg"
    using rg by (simp add: word_less_nat_alt unat_low64 unat_wide64 unat_threshold64 lem_acc_def
        rng_draw_def not_le)
  have "\<forall>k < n. \<not> lem_acc (2 ^ 64) (unat rg) (rng_draw ?s k)"
    using Suc.prems(2) by (auto simp: rng_draw_Suc [symmetric])
  then show ?case
    using Suc.IH [of ?s] Suc.prems(1) low
    by (simp add: rng_draw_Suc rng_after_Suc [of self] reject64.simps [of rg _ "ucast ?x * ucast rg"]
        case_prod_beta Let_def)
qed

lemma reject64_product:
  assumes "reject64 rg threshold wide self = Some p" "\<exists>x :: 64 word. wide = ucast x * ucast rg"
  shows "\<exists>x :: 64 word. fst p = ucast x * ucast rg"
proof -
  have "(\<exists>x :: 64 word. wide = ucast x * ucast rg) \<longrightarrow> (\<exists>x :: 64 word. fst p = ucast x * ucast rg)"
  proof (rule reject64.raw_induct [where P = "\<lambda>rg t wide s p.
      (\<exists>x :: 64 word. wide = ucast x * ucast rg) \<longrightarrow> (\<exists>x :: 64 word. fst p = ucast x * ucast rg)",
      OF _ assms(1)])
    fix f rg threshold wide self p
    assume IH: "\<And>rg t wide s p. f rg t wide s = Some p \<Longrightarrow>
        (\<exists>x :: 64 word. wide = ucast x * ucast rg) \<longrightarrow> (\<exists>x :: 64 word. fst p = ucast x * ucast rg)"
      and b: "(if (ucast wide :: 64 word) < threshold
        then (let (x, self) = next_u64 self in f rg threshold (ucast x * ucast rg) self)
        else Some (wide, self)) = Some p"
    show "(\<exists>x :: 64 word. wide = ucast x * ucast rg) \<longrightarrow> (\<exists>x :: 64 word. fst p = ucast x * ucast rg)"
    proof (cases "(ucast wide :: 64 word) < threshold")
      case True
      then have "f rg threshold (ucast (fst (next_u64 self)) * ucast rg) (snd (next_u64 self)) = Some p"
        using b by (simp add: case_prod_beta Let_def)
      from IH [OF this] show ?thesis by blast
    qed (use b in auto)
  qed
  then show ?thesis using assms(2) by blast
qed

section \<open>Properties\<close>

lemma rng_never_stuck:
  "\<not> rng_zero (tda_rng_from_seed seed) \<and> \<not> rng_zero (snd (next_u64 self))"
proof -
  have "(rs0 self OR rs1 self OR rs2 self OR rs3 self) = 0 \<longleftrightarrow> rng_zero self"
    by (simp add: rng_zero_def or_zero_iff)
  then show ?thesis
    using rng_step_not_zero [of self] rng_step_not_zero [of "tda_rng_from_seed 0"]
      from_seed_not_zero by (simp add: next_u64_def)
qed

lemma unat_range:
  fixes mx :: "'a::len word"
  assumes "mx \<noteq> - 1"
  shows "mx + 1 \<noteq> 0" "unat (mx + 1) = unat mx + 1"
proof -
  show "mx + 1 \<noteq> 0" using assms by (metis add.commute add_eq_0_iff)
  then show "unat (mx + 1) = unat mx + 1" by (metis Suc_eq_plus1 add.commute unatSuc)
qed

lemma u64_max_start:
  assumes "mx \<noteq> - 1"
  shows "tda_rng_u64_max self mx = do {
    (wide, self) \<leftarrow> reject64 (mx + 1) ((- (mx + 1)) mod (mx + 1))
       (ucast (fst (next_u64 self)) * ucast (mx + 1)) (snd (next_u64 self));
    Some (ucast (drop_bit 64 wide), self) }"
proof -
  let ?rg = "mx + 1"
  let ?wide = "ucast (fst (next_u64 self)) * ucast ?rg :: 128 word"
  have thr: "(- ?rg) mod ?rg < ?rg"
    using unat_range(1) [OF assms] by (simp add: word_less_nat_alt unat_mod unat_gt_0)
  have "reject64 ?rg ((- ?rg) mod ?rg) ?wide (snd (next_u64 self)) = Some (?wide, snd (next_u64 self))"
    if "\<not> (ucast ?wide :: 64 word) < ?rg"
    using that thr by (subst reject64.simps) auto
  then show ?thesis using assms by (auto simp: tda_rng_u64_max_def Let_def case_prod_beta)
qed

lemma u64_max_le:
  assumes "tda_rng_u64_max self mx = Some (v, self')"
  shows "v \<le> mx"
proof (cases "mx = - 1")
  case True
  then show ?thesis by simp
next
  case False
  let ?rg = "mx + 1"
  note rg = unat_range [OF False]
  obtain w where w: "v = ucast (drop_bit 64 (w :: 128 word))"
    "reject64 ?rg ((- ?rg) mod ?rg) (ucast (fst (next_u64 self)) * ucast ?rg) (snd (next_u64 self)) = Some (w, self')"
    using assms unfolding u64_max_start [OF False] by (auto simp: bind_Some_iff)
  obtain x :: "64 word" where x: "w = ucast x * ucast ?rg" using reject64_product [OF w(2)] by auto
  have "unat v = lem_out (2 ^ 64) (unat ?rg) (unat x)"
    unfolding w x unat_high64 unat_wide64 lem_out_def ..
  also have "\<dots> < unat ?rg" using unsigned_less [of x] rg by (intro lem_out_less) simp_all
  finally show ?thesis by (simp add: rg word_le_nat_alt)
qed

text \<open>The full width takes the first raw draw as it is.\<close>

lemma u64_max_full:
  "\<exists>v. tda_rng_u64_max self (- 1) = Some (v, rng_after self 1) \<and> unat v = lem_out (2 ^ 64) (unat (- 1 :: 64 word) + 1) (rng_draw self 0)"
  "lem_acc (2 ^ 64) (unat (- 1 :: 64 word) + 1) x"
proof -
  have one: "unat (- 1 :: 64 word) + 1 = 2 ^ 64" by (simp add: unsigned_minus_1_eq_mask mask_eq_exp_minus_1)
  show "lem_acc (2 ^ 64) (unat (- 1 :: 64 word) + 1) x" unfolding one by (simp add: lem_acc_def)
  show "\<exists>v. tda_rng_u64_max self (- 1) = Some (v, rng_after self 1) \<and> unat v = lem_out (2 ^ 64) (unat (- 1 :: 64 word) + 1) (rng_draw self 0)"
    unfolding one by (cases "next_u64 self") (simp add: tda_rng_u64_max_def lem_out_def rng_draw_def rng_after_def)
qed

lemma u64_max_first:
  assumes mx: "mx \<noteq> - 1" and acc: "lem_acc (2 ^ 64) (unat mx + 1) (rng_draw self n)"
    and rej: "\<forall>k < n. \<not> lem_acc (2 ^ 64) (unat mx + 1) (rng_draw self k)"
  shows "\<exists>v. tda_rng_u64_max self mx = Some (v, rng_after self (Suc n)) \<and>
    unat v = lem_out (2 ^ 64) (unat mx + 1) (rng_draw self n)"
proof -
  note rg = unat_range [OF mx]
  obtain w where "reject64 (mx + 1) ((- (mx + 1)) mod (mx + 1))
      (ucast (fst (next_u64 self)) * ucast (mx + 1)) (snd (next_u64 self)) = Some (w, rng_after self (Suc n))"
    "unat w = rng_draw self n * unat (mx + 1)"
    using reject64_first [OF rg(1)] acc rej unfolding rg(2) by blast
  then show ?thesis by (simp add: u64_max_start [OF mx] unat_high64 lem_out_def rg(2))
qed

text \<open>
  C39: a bounded 64-bit draw never exceeds its bound, the full width included, returns as soon as
  the raw stream has an acceptable draw, and every answer comes from the same number of acceptable
  raw draws, so it is unbiased.
\<close>

theorem bounded_draw:
  "(\<forall>v self'. tda_rng_u64_max self mx = Some (v, self') \<longrightarrow> v \<le> mx) \<and>
    (\<forall>n. lem_acc (2 ^ 64) (unat mx + 1) (rng_draw self n) \<and>
       (\<forall>k < n. \<not> lem_acc (2 ^ 64) (unat mx + 1) (rng_draw self k)) \<longrightarrow>
       (\<exists>v. tda_rng_u64_max self mx = Some (v, rng_after self (Suc n)) \<and>
          unat v = lem_out (2 ^ 64) (unat mx + 1) (rng_draw self n))) \<and>
    (\<forall>v \<le> mx. card {x. x < 2 ^ 64 \<and> lem_out (2 ^ 64) (unat mx + 1) x = unat v \<and>
         lem_acc (2 ^ 64) (unat mx + 1) x} = 2 ^ 64 div (unat mx + 1))"
proof (intro conjI allI impI)
  show "v \<le> mx" if "tda_rng_u64_max self mx = Some (v, self')" for v self'
    using that by (rule u64_max_le)
  show "\<exists>v. tda_rng_u64_max self mx = Some (v, rng_after self (Suc n)) \<and>
      unat v = lem_out (2 ^ 64) (unat mx + 1) (rng_draw self n)"
    if "lem_acc (2 ^ 64) (unat mx + 1) (rng_draw self n) \<and>
      (\<forall>k < n. \<not> lem_acc (2 ^ 64) (unat mx + 1) (rng_draw self k))" for n
  proof (cases "mx = - 1")
    case True
    then have "n = 0" using that u64_max_full(2) by blast
    then show ?thesis using True u64_max_full(1) [of self] by simp
  qed (use that in \<open>blast intro: u64_max_first\<close>)
  fix v :: "64 word" assume "v \<le> mx"
  then have "unat v < unat mx + 1" by (simp add: word_le_nat_alt)
  moreover have "unat mx < 2 ^ 64" using unsigned_less [of mx] by simp
  then have "unat mx + 1 \<le> 2 ^ 64" by simp
  ultimately show "card {x. x < 2 ^ 64 \<and> lem_out (2 ^ 64) (unat mx + 1) x = unat v \<and>
      lem_acc (2 ^ 64) (unat mx + 1) x} = 2 ^ 64 div (unat mx + 1)"
    by (intro lem_uniform) simp_all
qed

theorem bounded_draw_witness:
  "tda_rng_u64_max (tda_rng_from_seed 0) (- 1) =
     Some (fst (next_u64 (tda_rng_from_seed 0)), snd (next_u64 (tda_rng_from_seed 0))) \<and>
   (\<exists>v. tda_rng_u64_max (tda_rng_from_seed 0) 7 = Some (v, snd (next_u64 (tda_rng_from_seed 0))) \<and> v \<le> 7)"
proof -
  let ?r = "tda_rng_from_seed 0"
  have a: "lem_acc (2 ^ 64) (unat (- 1 :: 64 word) + 1) (rng_draw ?r 0)" "lem_acc (2 ^ 64) (unat (7 :: 64 word) + 1) (rng_draw ?r 0)"
    by (simp_all add: lem_acc_def unsigned_minus_1_eq_mask mask_eq_exp_minus_1)
  have s: "rng_after ?r (Suc 0) = snd (next_u64 ?r)" by (simp add: rng_after_def)
  obtain u where u: "tda_rng_u64_max ?r (- 1) = Some (u, snd (next_u64 ?r))"
    "unat u = lem_out (2 ^ 64) (unat (- 1 :: 64 word) + 1) (rng_draw ?r 0)"
    using bounded_draw [of ?r "- 1", THEN conjunct2, THEN conjunct1, rule_format, of 0] a(1) s by auto
  obtain v where v: "tda_rng_u64_max ?r 7 = Some (v, snd (next_u64 ?r))"
    using bounded_draw [of ?r 7, THEN conjunct2, THEN conjunct1, rule_format, of 0] a(2) s by auto
  have "unat u = unat (fst (next_u64 ?r))" using u(2) by (simp add: lem_out_def rng_draw_def unsigned_minus_1_eq_mask mask_eq_exp_minus_1)
  then have "u = fst (next_u64 ?r)" by (rule word_unat_eq_iff [THEN iffD2])
  moreover have "v \<le> 7" using bounded_draw [of ?r 7, THEN conjunct1] v by blast
  ultimately show ?thesis using u(1) v by simp
qed

lemma rng_idx_less: "tda_rng_idx self len = Some (i, self') \<Longrightarrow> len \<le> SIZE_MAX \<Longrightarrow> i < len"
proof -
  assume a: "tda_rng_idx self len = Some (i, self')" and l: "len \<le> SIZE_MAX"
  then obtain v where v: "tda_rng_u64_max self (word_of_nat len - 1) = Some (v, self')" "i = unat v" "0 < len"
    by (auto simp: tda_rng_idx_def bind_Some_iff)
  have "word_of_nat len - 1 = (word_of_nat (len - 1) :: 64 word)" using v(3) by (simp add: of_nat_diff)
  then have "v \<le> word_of_nat (len - 1)" using u64_max_le [OF v(1)] by simp
  then have "unat v \<le> (len - 1) mod 2 ^ 64" by (simp add: word_le_nat_alt unat_of_nat)
  also have "\<dots> = len - 1" using l by (simp add: SIZE_MAX_def)
  finally show "i < len" using v by simp
qed

text \<open>The width of a signed range and the step into it are computed in unsigned, and never wrap.\<close>

lemma signed_offset:
  fixes lo hi v :: "64 word"
  assumes "sint lo \<le> sint hi" "v \<le> hi - lo"
  shows "sint (lo + v) = sint lo + uint v \<and> sint lo + uint v \<le> sint hi"
proof -
  have b: "- (2 ^ 63) \<le> sint lo" "sint hi < 2 ^ 63"
    using sint_greater_eq [of lo] sint_less [of hi] by simp_all
  have "hi - lo = word_of_int (sint hi - sint lo)" by (simp add: of_int_diff)
  then have "uint (hi - lo) = (sint hi - sint lo) mod 2 ^ 64"
    by (simp only: uint_word_of_int_eq take_bit_eq_mod) simp
  also have "\<dots> = sint hi - sint lo" using assms(1) b by (intro mod_pos_pos_trivial) auto
  finally have v: "0 \<le> uint v" "uint v \<le> sint hi - sint lo" using assms(2) by (simp_all add: word_le_def)
  have "lo + v = word_of_int (sint lo + uint v)" by simp
  then have "sint (lo + v) = signed_take_bit 63 (sint lo + uint v)"
    by (simp only: sint_sbintrunc') simp
  also have "\<dots> = sint lo + uint v" using v b by (intro signed_take_bit_int_eq_self) linarith+
  finally show ?thesis using v by simp
qed

lemma i64_range_in_range:
  assumes "tda_rng_i64_range self lo hi = Some (v, self')"
  shows "sint lo \<le> sint v \<and> sint v \<le> sint hi"
proof -
  have le: "sint lo \<le> sint hi" using assms by (simp add: tda_rng_i64_range_def)
  obtain u where u: "tda_rng_u64_max self (hi - lo) = Some (u, self')" "v = lo + u"
    using assms by (auto simp: tda_rng_i64_range_def bind_Some_iff)
  show ?thesis using signed_offset [OF le u64_max_le [OF u(1)]] by (simp add: u(2))
qed

end
