(* ===== verification/Permute.thy ===== *)
theory Permute
  imports Emit Rng Status "HOL-Library.Sublist"
begin

text \<open>
  \<open>algo/permute.h\<close> and \<open>algo/permute.c\<close>, and \<open>tda_span_sample\<close> of \<open>algo/copy.c\<close>: reordering the elements
  of a span. A buffer taken from an allocator is a parameter, \<^term>\<open>None\<close> for the null pointer
  \<open>tda_alloc\<close> answers when it has no memory, and otherwise a list of as many elements as were asked
  for, whatever they hold.
\<close>

section \<open>reverse and rotate\<close>

function reverse_loop :: "'a list \<Rightarrow> nat \<Rightarrow> nat \<Rightarrow> 'a list option" where
  "reverse_loop s left right =
     (if left < right
      then do { s \<leftarrow> span_swap s left right; reverse_loop s (left + 1) (right - 1) }
      else Some s)"
  by auto
termination by (relation "measure (\<lambda>(s, left, right). right - left)") auto

definition tda_span_reverse :: "'a list \<Rightarrow> 'a list option" where
  "tda_span_reverse s = (if length s < 2 then Some s else reverse_loop s 0 (length s - 1))"

definition tda_span_rotate :: "nat \<Rightarrow> 'a list \<Rightarrow> 'a list option" where
  "tda_span_rotate mid s = do {
     chk (mid \<le> length s);
     if mid = 0 \<or> mid = length s then Some s
     else do {
       s \<leftarrow> span_within s 0 mid tda_span_reverse;
       s \<leftarrow> span_within s mid (length s - mid) tda_span_reverse;
       tda_span_reverse s
     }
   }"

text \<open>Two spans that are apart; the same span twice is left as it is.\<close>

function swap_ranges_loop :: "'a list \<Rightarrow> 'a list \<Rightarrow> nat \<Rightarrow> nat \<Rightarrow> ('a list \<times> 'a list) option" where
  "swap_ranges_loop a b len i =
     (if i < len
      then do {
        x \<leftarrow> span_get a i;
        y \<leftarrow> span_get b i;
        a \<leftarrow> span_set a i y;
        b \<leftarrow> span_set b i x;
        swap_ranges_loop a b len (i + 1)
      }
      else Some (a, b))"
  by auto
termination by (relation "measure (\<lambda>(a, b, len, i). len - i)") auto

definition tda_span_swap_ranges :: "'a list \<Rightarrow> 'a list \<Rightarrow> ('a list \<times> 'a list) option" where
  "tda_span_swap_ranges a b = do {
     chk (length a = length b);
     if length a = 0 then Some (a, b) else swap_ranges_loop a b (length a) 0
   }"

section \<open>Permutations in order\<close>

definition goes_before :: "'a list \<Rightarrow> ('a \<Rightarrow> 'a \<Rightarrow> int) \<Rightarrow> bool \<Rightarrow> nat \<Rightarrow> nat \<Rightarrow> bool option" where
  "goes_before s cmp asc i j = do {
     lhs \<leftarrow> span_get s i;
     rhs \<leftarrow> span_get s j;
     Some (if asc then cmp lhs rhs < 0 else cmp rhs lhs < 0)
   }"

fun pivot_loop :: "'a list \<Rightarrow> ('a \<Rightarrow> 'a \<Rightarrow> int) \<Rightarrow> bool \<Rightarrow> nat \<Rightarrow> nat option" where
  "pivot_loop s cmp asc 0 = Some 0"
| "pivot_loop s cmp asc (Suc p) = do {
     b \<leftarrow> goes_before s cmp asc p (Suc p);
     if \<not> b then pivot_loop s cmp asc p else Some (Suc p)
   }"

function mate_loop :: "'a list \<Rightarrow> ('a \<Rightarrow> 'a \<Rightarrow> int) \<Rightarrow> bool \<Rightarrow> nat \<Rightarrow> nat \<Rightarrow> nat option" where
  "mate_loop s cmp asc pivot mate =
     (if mate > pivot + 1
      then do {
        b \<leftarrow> goes_before s cmp asc pivot mate;
        if \<not> b then mate_loop s cmp asc pivot (mate - 1) else Some mate
      }
      else Some mate)"
  by auto
termination by (relation "measure (\<lambda>(s, cmp, asc, pivot, mate). mate)") auto

definition permute_step :: "'a list \<Rightarrow> ('a \<Rightarrow> 'a \<Rightarrow> int) \<Rightarrow> bool \<Rightarrow> (bool \<times> 'a list) option" where
  "permute_step s cmp asc =
     (if length s < 2 then Some (False, s)
      else do {
        pivot \<leftarrow> pivot_loop s cmp asc (length s - 1);
        if pivot = 0 then do { s \<leftarrow> tda_span_reverse s; Some (False, s) }
        else do {
          let pivot = pivot - 1;
          mate \<leftarrow> mate_loop s cmp asc pivot (length s - 1);
          s \<leftarrow> span_swap s pivot mate;
          s \<leftarrow> span_within s (pivot + 1) (length s - pivot - 1) tda_span_reverse;
          Some (True, s)
        }
      })"

definition tda_span_next_permutation :: "'a list \<Rightarrow> ('a \<Rightarrow> 'a \<Rightarrow> int) \<Rightarrow> (bool \<times> 'a list) option" where
  "tda_span_next_permutation s cmp = permute_step s cmp True"

definition tda_span_prev_permutation :: "'a list \<Rightarrow> ('a \<Rightarrow> 'a \<Rightarrow> int) \<Rightarrow> (bool \<times> 'a list) option" where
  "tda_span_prev_permutation s cmp = permute_step s cmp False"

section \<open>Partitions\<close>

function partition_loop :: "nat \<Rightarrow> ('a \<Rightarrow> bool) \<Rightarrow> 'a list \<Rightarrow> nat \<Rightarrow> nat \<Rightarrow> (nat \<times> 'a list) option" where
  "partition_loop len pred s boundary i =
     (if i < len
      then do {
        e \<leftarrow> span_get s i;
        if pred e
        then do {
          s \<leftarrow> (if i \<noteq> boundary then span_swap s i boundary else Some s);
          partition_loop len pred s (boundary + 1) (i + 1)
        }
        else partition_loop len pred s boundary (i + 1)
      }
      else Some (boundary, s))"
  by auto
termination by (relation "measure (\<lambda>(len, pred, s, boundary, i). len - i)") auto

definition tda_span_partition :: "'a list \<Rightarrow> ('a \<Rightarrow> bool) \<Rightarrow> (nat \<times> 'a list) option" where
  "tda_span_partition s pred = partition_loop (length s) pred s 0 0"

function stable_split_loop ::
  "nat \<Rightarrow> ('a \<Rightarrow> bool) \<Rightarrow> 'a list \<Rightarrow> 'a list \<Rightarrow> nat \<Rightarrow> nat \<Rightarrow> nat \<Rightarrow> ('a list \<times> 'a list \<times> nat \<times> nat) option"
  where
  "stable_split_loop len pred s rejected kept dropped i =
     (if i < len
      then do {
        elem \<leftarrow> span_get s i;
        if pred elem
        then do {
          (s, kept) \<leftarrow> tda_emit_over s kept i;
          stable_split_loop len pred s rejected kept dropped (i + 1)
        }
        else do {
          (rejected, dropped) \<leftarrow> tda_emit rejected dropped elem;
          stable_split_loop len pred s rejected kept dropped (i + 1)
        }
      }
      else Some (s, rejected, kept, dropped))"
  by auto
termination
  by (relation "measure (\<lambda>(len, pred, s, rejected, kept, dropped, i). len - i)") auto

text \<open>The status, the boundary where it is written, and the span.\<close>

definition tda_span_partition_stable ::
  "'a list \<Rightarrow> ('a \<Rightarrow> bool) \<Rightarrow> 'a list option \<Rightarrow> (tda_status \<times> nat option \<times> 'a list) option" where
  "tda_span_partition_stable s pred buf =
     (if length s = 0 then Some (TDA_STATUS_OK, Some 0, s)
      else (case buf of
          None \<Rightarrow> Some (TDA_STATUS_ERR_NO_MEM, None, s)
        | Some rejected \<Rightarrow> do {
            (s, rejected, kept, dropped) \<leftarrow> stable_split_loop (length s) pred s rejected 0 0 0;
            r \<leftarrow> span_sub rejected 0 dropped;
            s \<leftarrow> span_within s kept dropped (\<lambda>t. tda_span_copy t r);
            Some (TDA_STATUS_OK, Some kept, s)
          }))"

function skip_while_loop :: "'a list \<Rightarrow> ('a \<Rightarrow> bool) \<Rightarrow> nat \<Rightarrow> nat option" where
  "skip_while_loop s test i =
     (if i < length s
      then do { e \<leftarrow> span_get s i; if test e then skip_while_loop s test (i + 1) else Some i }
      else Some i)"
  by auto
termination by (relation "measure (\<lambda>(s, test, i). length s - i)") auto

definition tda_span_is_partitioned :: "'a list \<Rightarrow> ('a \<Rightarrow> bool) \<Rightarrow> bool option" where
  "tda_span_is_partitioned s pred = do {
     i \<leftarrow> skip_while_loop s pred 0;
     i \<leftarrow> skip_while_loop s (\<lambda>e. \<not> pred e) i;
     Some (i = length s)
   }"

section \<open>Random orders\<close>

fun shuffle_loop :: "'a list \<Rightarrow> rng \<Rightarrow> nat \<Rightarrow> ('a list \<times> rng) option" where
  "shuffle_loop s rng 0 = Some (s, rng)"
| "shuffle_loop s rng (Suc i) =
     (if Suc i > 1
      then do {
        (j, rng) \<leftarrow> tda_rng_idx rng (Suc i);
        s \<leftarrow> span_swap s i j;
        shuffle_loop s rng i
      }
      else Some (s, rng))"

definition tda_span_shuffle :: "'a list \<Rightarrow> rng \<Rightarrow> ('a list \<times> rng) option" where
  "tda_span_shuffle s rng = shuffle_loop s rng (length s)"

function shuffle_prefix_loop :: "nat \<Rightarrow> nat \<Rightarrow> 'a list \<Rightarrow> rng \<Rightarrow> nat \<Rightarrow> ('a list \<times> rng) option" where
  "shuffle_prefix_loop len cnt s rng i =
     (if i < cnt
      then do {
        (d, rng) \<leftarrow> tda_rng_idx rng (len - i);
        s \<leftarrow> span_swap s i (i + d);
        shuffle_prefix_loop len cnt s rng (i + 1)
      }
      else Some (s, rng))"
  by auto
termination by (relation "measure (\<lambda>(len, cnt, s, rng, i). cnt - i)") auto

definition tda_span_shuffle_prefix :: "'a list \<Rightarrow> nat \<Rightarrow> rng \<Rightarrow> ('a list \<times> rng) option" where
  "tda_span_shuffle_prefix s cnt rng = do {
     chk (cnt \<le> length s);
     shuffle_prefix_loop (length s) cnt s rng 0
   }"

text \<open>
  \<open>sample\<close>: \<open>read\<close> is not bounded in the code's loop, whose exit is that enough are written; the
  access is.
\<close>

function sample_loop ::
  "'a list \<Rightarrow> nat \<Rightarrow> 'a list \<Rightarrow> rng \<Rightarrow> nat \<Rightarrow> nat \<Rightarrow> ('a list \<times> nat \<times> rng) option" where
  "sample_loop src want dst rng wr rd =
     (if wr < want
      then do {
        (d, rng) \<leftarrow> tda_rng_idx rng (length src - rd);
        if d < want - wr
        then do {
          e \<leftarrow> span_get src rd;
          (dst, wr) \<leftarrow> tda_emit dst wr e;
          sample_loop src want dst rng wr (rd + 1)
        }
        else sample_loop src want dst rng wr (rd + 1)
      }
      else Some (dst, wr, rng))"
  by auto
termination
proof (relation "measure (\<lambda>(src, want, dst, rng, wr, rd). length src - rd)")
qed (auto simp: tda_rng_idx_def bind_Some_iff)

definition tda_span_sample :: "'a list \<Rightarrow> 'a list \<Rightarrow> rng \<Rightarrow> ('a list \<times> nat \<times> rng) option" where
  "tda_span_sample dst src rng =
     (let want = (if length dst < length src then length dst else length src)
      in sample_loop src want dst rng 0 0)"

declare reverse_loop.simps [simp del] swap_ranges_loop.simps [simp del] mate_loop.simps [simp del]
  partition_loop.simps [simp del] stable_split_loop.simps [simp del] skip_while_loop.simps [simp del]
  shuffle_prefix_loop.simps [simp del] sample_loop.simps [simp del]

section \<open>What they do to the elements\<close>

lemma reverse_loop_spec:
  assumes "l \<le> Suc r" "r < length s"
  shows "\<exists>t. reverse_loop s l r = Some t \<and> length t = length s \<and>
    (\<forall>i < length s. t ! i = (if l \<le> i \<and> i \<le> r then s ! (l + r - i) else s ! i))"
  using assms
proof (induction "r - l" arbitrary: s l r rule: less_induct)
  case less
  note eqn = reverse_loop.simps [of s l r]
  show ?case
  proof (cases "l < r")
    case True
    let ?s = "s[l := s ! r, r := s ! l]"
    have run: "reverse_loop s l r = reverse_loop ?s (l + 1) (r - 1)"
      using True less.prems(2) by (simp add: eqn)
    have "r - 1 - (l + 1) < r - l" "l + 1 \<le> Suc (r - 1)" "r - 1 < length ?s"
      using True less.prems(2) by auto
    then obtain t where t: "reverse_loop ?s (l + 1) (r - 1) = Some t" "length t = length s"
      "\<forall>i < length s. t ! i = (if l + 1 \<le> i \<and> i \<le> r - 1 then ?s ! (l + 1 + (r - 1) - i) else ?s ! i)"
      using less.hyps [of "r - 1" "l + 1" ?s] by auto
    have "t ! i = (if l \<le> i \<and> i \<le> r then s ! (l + r - i) else s ! i)" if i: "i < length s" for i
    proof -
      consider "i = l" | "i = r" | "l < i" "i < r" | "i < l \<or> r < i" by linarith
      then show ?thesis using t(3) i True less.prems(2) by cases auto
    qed
    then show ?thesis using run t(1,2) by simp
  next
    case False
    then have "reverse_loop s l r = Some s" by (simp add: eqn)
    moreover have "s ! (l + r - i) = s ! i" if "l \<le> i" "i \<le> r" for i
      using that False by (cases "l = r") auto
    ultimately show ?thesis by auto
  qed
qed

lemma reverse_eq [simp]: "tda_span_reverse s = Some (rev s)"
proof (cases "length s < 2")
  case True
  then have "rev s = s" by (cases s; cases "tl s") auto
  then show ?thesis using True by (simp add: tda_span_reverse_def)
next
  case False
  then have "0 \<le> Suc (length s - 1)" "length s - 1 < length s" by auto
  then obtain t where t: "reverse_loop s 0 (length s - 1) = Some t" "length t = length s"
    "\<forall>i < length s. t ! i = (if 0 \<le> i \<and> i \<le> length s - 1 then s ! (0 + (length s - 1) - i) else s ! i)"
    using reverse_loop_spec by blast
  have "t = rev s"
  proof (rule nth_equalityI)
    fix i assume i: "i < length t"
    then have "t ! i = s ! (length s - 1 - i)" using t(2,3) by auto
    then show "t ! i = rev s ! i" using i t(2) by (simp add: rev_nth)
  qed (simp add: t(2))
  then show ?thesis using t(1) False by (simp add: tda_span_reverse_def)
qed

lemma rotate_eq: "mid \<le> length s \<Longrightarrow> tda_span_rotate mid s = Some (drop mid s @ take mid s)"
  by (auto simp: tda_span_rotate_def span_within_def span_sub_def)

lemma swap_ranges_loop_eq:
  assumes "length a = n" "length b = n" "i \<le> n"
  shows "swap_ranges_loop (take i b @ drop i a) (take i a @ drop i b) n i = Some (b, a)"
  using assms
proof (induction "n - i" arbitrary: i)
  case 0
  then have "\<not> i < n" "take i b = b" "take i a = a" "drop i b = []" "drop i a = []" by auto
  then show ?case by (simp add: swap_ranges_loop.simps [of _ _ n i])
next
  case (Suc d)
  then have i: "i < n" by simp
  have up: "(take i x @ drop i y)[i := x ! i] = take (Suc i) x @ drop (Suc i) y"
    if "length x = n" "length y = n" for x y :: "'a list"
    using that i by (intro nth_equalityI) (auto simp: nth_append nth_list_update less_Suc_eq min_def)
  have at: "(take i x @ drop i y) ! i = y ! i" if "length x = n" "length y = n" for x y :: "'a list"
    using that i by (simp add: nth_append)
  show ?case
    using Suc.hyps(1) [of "Suc i"] Suc.hyps(2) Suc.prems i
    by (simp add: swap_ranges_loop.simps [of _ _ n i] at up)
qed

lemma partition_loop_spec:
  assumes "i \<le> length s" "b \<le> i" "\<forall>j < b. pred (s ! j)" "\<forall>j. b \<le> j \<and> j < i \<longrightarrow> \<not> pred (s ! j)"
  shows "\<exists>k t. partition_loop (length s) pred s b i = Some (k, t) \<and> mset t = mset s \<and> k \<le> length s \<and>
    (\<forall>j < length s. pred (t ! j) \<longleftrightarrow> j < k)"
  using assms
proof (induction "length s - i" arbitrary: s b i)
  case 0
  then have "partition_loop (length s) pred s b i = Some (b, s)" "i = length s"
    by (simp_all add: partition_loop.simps [of _ pred s b i])
  moreover have "pred (s ! j) \<longleftrightarrow> j < b" if "j < length s" for j
    using 0 that by (cases "j < b") auto
  ultimately show ?case using 0(3) by auto
next
  case (Suc d)
  then have i: "i < length s" and d: "d = length s - Suc i" by simp_all
  note eqn = partition_loop.simps [of "length s" pred s b i]
  show ?case
  proof (cases "pred (s ! i)")
    case True
    let ?s = "s[i := s ! b, b := s ! i]"
    have b: "b < length s" using i Suc.prems(2) by simp
    have "(if i \<noteq> b then span_swap s i b else Some s) = Some ?s"
      using i b by simp
    then have run: "partition_loop (length s) pred s b i = partition_loop (length ?s) pred ?s (b + 1) (i + 1)"
      using True i by (simp add: eqn)
    have "\<forall>j < b + 1. pred (?s ! j)"
      using Suc.prems(2,3) True i b by (auto simp: less_Suc_eq nth_list_update)
    moreover have "\<forall>j. b + 1 \<le> j \<and> j < i + 1 \<longrightarrow> \<not> pred (?s ! j)"
      using Suc.prems(2,4) i b by (auto simp: less_Suc_eq nth_list_update)
    moreover have "mset ?s = mset s" using i b by (rule mset_span_swap)
    ultimately show ?thesis
      using Suc.hyps(1) [of ?s "i + 1" "b + 1"] d i Suc.prems(2) by (auto simp: run)
  next
    case False
    then have run: "partition_loop (length s) pred s b i = partition_loop (length s) pred s b (i + 1)"
      using i by (simp add: eqn)
    show ?thesis
      unfolding run using Suc.hyps(1) [of s "i + 1" b] d i Suc.prems False by (auto simp: less_Suc_eq)
  qed
qed

lemma stable_split_loop_eq:
  assumes "i \<le> length s" "length buf = length s"
    "out = filter pred (take i s)" "rej = filter (\<lambda>x. \<not> pred x) (take i s)"
  shows "stable_split_loop (length s) pred (written s out) (written buf rej) (length out) (length rej) i =
    Some (written s (filter pred s), written buf (filter (\<lambda>x. \<not> pred x) s),
      length (filter pred s), length (filter (\<lambda>x. \<not> pred x) s))"
  using assms
proof (induction "length s - i" arbitrary: i out rej)
  case 0
  then show ?case by (simp add: stable_split_loop.simps [of _ pred _ _ _ _ i])
next
  case (Suc d)
  then have i: "i < length s" and d: "d = length s - Suc i" by simp_all
  have le: "length out \<le> i" "length rej \<le> i"
    using Suc.prems(3,4) length_filter_le [of pred "take i s"]
      length_filter_le [of "\<lambda>x. \<not> pred x" "take i s"] i by auto
  have tk: "take (Suc i) s = take i s @ [s ! i]" using i by (rule take_Suc_conv_app_nth)
  show ?case
    using Suc.hyps(1) [OF d, of out "rej @ [s ! i]"] Suc.hyps(1) [OF d, of "out @ [s ! i]" rej]
      Suc.prems i le
    by (cases "pred (s ! i)")
      (simp_all add: stable_split_loop.simps [of "length s" pred _ _ _ _ i] written_update written_nth tk)
qed

lemma partition_stable_eq:
  assumes "length buf = length s"
  shows "tda_span_partition_stable s pred (Some buf) =
    Some (TDA_STATUS_OK, Some (length (filter pred s)), filter pred s @ filter (\<lambda>x. \<not> pred x) s)"
proof (cases "s = []")
  case False
  let ?y = "filter pred s" and ?n = "filter (\<lambda>x. \<not> pred x) s"
  have len: "length ?y + length ?n = length s" by (rule sum_length_filter_compl)
  have "stable_split_loop (length s) pred s buf 0 0 0 =
      Some (written s ?y, written buf ?n, length ?y, length ?n)"
    using stable_split_loop_eq [of 0 s buf "[]" pred "[]"] assms by simp
  moreover have "span_within (written s ?y) (length ?y) (length ?n) (\<lambda>t. tda_span_copy t ?n) = Some (?y @ ?n)"
    using len
    by (auto simp: span_within_def tda_span_copy_def written_def span_sub_def simp flip: length_0_conv)
  ultimately show ?thesis
    using False len assms by (simp add: tda_span_partition_stable_def)
qed (simp add: tda_span_partition_stable_def)

lemma skip_while_loop_spec:
  assumes "i \<le> length s"
  shows "\<exists>k. skip_while_loop s test i = Some k \<and> i \<le> k \<and> k \<le> length s \<and>
    (\<forall>j. i \<le> j \<and> j < k \<longrightarrow> test (s ! j)) \<and> (k < length s \<longrightarrow> \<not> test (s ! k))"
  using assms
proof (induction s test i rule: skip_while_loop.induct)
  case (1 s test i)
  note eqn = skip_while_loop.simps [of s test i]
  show ?case
  proof (cases "i < length s \<and> test (s ! i)")
    case True
    then obtain k where "skip_while_loop s test (i + 1) = Some k" "i + 1 \<le> k" "k \<le> length s"
      "\<forall>j. i + 1 \<le> j \<and> j < k \<longrightarrow> test (s ! j)" "k < length s \<longrightarrow> \<not> test (s ! k)"
      using "1.IH" [of "s ! i"] by auto
    moreover have "test (s ! j)" if "i \<le> j" "j < k" for j
      using that True calculation(4) by (cases "j = i") auto
    ultimately show ?thesis using True by (intro exI [of _ k]) (auto simp: eqn)
  next
    case False
    then have "skip_while_loop s test i = Some i" using 1 by (auto simp: eqn)
    then show ?thesis using False 1 by auto
  qed
qed

lemma is_partitioned_eq:
  "tda_span_is_partitioned s pred = Some (\<exists>k \<le> length s. \<forall>j < length s. pred (s ! j) \<longleftrightarrow> j < k)"
proof -
  obtain i where i: "skip_while_loop s pred 0 = Some i" "i \<le> length s" "\<forall>j < i. pred (s ! j)"
    "i < length s \<longrightarrow> \<not> pred (s ! i)" using skip_while_loop_spec [of 0 s pred] by auto
  obtain k where k: "skip_while_loop s (\<lambda>e. \<not> pred e) i = Some k" "i \<le> k" "k \<le> length s"
    "\<forall>j. i \<le> j \<and> j < k \<longrightarrow> \<not> pred (s ! j)" "k < length s \<longrightarrow> pred (s ! k)"
    using skip_while_loop_spec [OF i(2), of "\<lambda>e. \<not> pred e"] by auto
  have "k = length s \<longleftrightarrow> (\<exists>n \<le> length s. \<forall>j < length s. pred (s ! j) \<longleftrightarrow> j < n)"
  proof
    assume "k = length s"
    then have "pred (s ! j) \<longleftrightarrow> j < i" if "j < length s" for j
      using i(3) k(4) that by (cases "j < i") auto
    then show "\<exists>n \<le> length s. \<forall>j < length s. pred (s ! j) \<longleftrightarrow> j < n"
      using i(2) by blast
  next
    assume "\<exists>n \<le> length s. \<forall>j < length s. pred (s ! j) \<longleftrightarrow> j < n"
    then obtain n where n: "n \<le> length s" "\<forall>j < length s. pred (s ! j) \<longleftrightarrow> j < n" by blast
    show "k = length s"
    proof (rule ccontr)
      assume "k \<noteq> length s"
      then have "k < length s" using k(3) by simp
      then have "k < n" "i < length s" using k n i by auto
      then show False using n(2) i(4) k(2) by auto
    qed
  qed
  then show ?thesis by (simp add: tda_span_is_partitioned_def i(1) k(1))
qed

lemma mset_span_swap_if:
  "span_swap s i j = Some t \<Longrightarrow> mset t = mset s \<and> length t = length s"
  by (auto simp: span_swap_def split: if_split_asm)

lemma shuffle_loop_mset: "shuffle_loop s rng i = Some (t, rng') \<Longrightarrow> mset t = mset s"
  by (induction i arbitrary: s rng)
    (auto simp: bind_Some_iff dest!: mset_span_swap_if split: if_split_asm)

text \<open>A shuffle only fails to answer when a draw does.\<close>

lemma shuffle_loop_total:
  assumes "i \<le> length s" "length s \<le> SIZE_MAX" "\<And>r n. 0 < n \<Longrightarrow> tda_rng_idx r n \<noteq> None"
  shows "shuffle_loop s rng i \<noteq> None"
  using assms(1,2)
proof (induction i arbitrary: s rng)
  case (Suc i)
  obtain j r where j: "tda_rng_idx rng (Suc i) = Some (j, r)" using assms(3) [of "Suc i" rng] by auto
  have "j < Suc i" using rng_idx_less [OF j] Suc.prems by simp
  then show ?case using Suc j by simp
qed simp

lemma shuffle_prefix_loop_mset:
  "shuffle_prefix_loop len cnt s rng i = Some (t, rng') \<Longrightarrow> mset t = mset s"
proof (induction len cnt s rng i rule: shuffle_prefix_loop.induct)
  case (1 len cnt s rng i)
  show ?case
  proof (cases "i < cnt")
    case True
    then obtain d r u where d: "tda_rng_idx rng (len - i) = Some (d, r)" "span_swap s i (i + d) = Some u"
      "shuffle_prefix_loop len cnt u r (i + 1) = Some (t, rng')"
      using "1.prems" by (auto simp: shuffle_prefix_loop.simps [of len cnt s rng i] bind_Some_iff)
    then show ?thesis using "1.IH" [OF True d(1) refl d(2,3)] mset_span_swap_if [OF d(2)] by simp
  next
    case False
    then show ?thesis using "1.prems" by (simp add: shuffle_prefix_loop.simps [of len cnt s rng i])
  qed
qed

text \<open>
  What \<open>sample\<close> writes: \<open>want - wr\<close> elements from \<open>rd\<close> on, in their order. It never runs past the
  end, since a draw below the elements left is below the elements wanted once these are equal.
\<close>

lemma sample_loop_spec:
  assumes "sample_loop src want (written dst out) rng (length out) rd = Some (t, n, rng')"
    and "length out \<le> want" "want \<le> length dst" "want - length out \<le> length src - rd"
    and "length src \<le> SIZE_MAX"
  shows "\<exists>ys. subseq ys (drop rd src) \<and> length out + length ys = want \<and> n = want \<and>
    t = written dst (out @ ys)"
  using assms
proof (induction "length src - rd" arbitrary: rd out rng)
  case 0
  then have len: "length out = want" by simp
  have "sample_loop src want (written dst out) rng want rd = Some (written dst out, want, rng)"
    by (simp add: sample_loop.simps [of src want "written dst out" rng want rd])
  then show ?case using 0(2) len by simp
next
  case (Suc d)
  note eqn = sample_loop.simps [of src want "written dst out" rng "length out" rd]
  show ?case
  proof (cases "length out < want")
    case False
    then have "sample_loop src want (written dst out) rng (length out) rd =
        Some (written dst out, length out, rng)"
      by (simp add: eqn)
    then show ?thesis using Suc.prems(1,2) False by simp
  next
    case True
    have rd: "rd < length src" and d: "d = length src - (rd + 1)" using Suc.hyps(2) by simp_all
    obtain x r where x: "tda_rng_idx rng (length src - rd) = Some (x, r)"
      using Suc.prems(1) True by (auto simp: eqn bind_Some_iff)
    have xlt: "x < length src - rd" using rng_idx_less [OF x] Suc.prems(5) by simp
    have dr: "drop rd src = src ! rd # drop (rd + 1) src" using rd by (simp add: Cons_nth_drop_Suc)
    show ?thesis
    proof (cases "x < want - length out")
      case take: True
      have lt: "length out < length dst" using True Suc.prems(3) by simp
      have "sample_loop src want (written dst (out @ [src ! rd])) r (length (out @ [src ! rd])) (rd + 1)
          = Some (t, n, rng')"
        using Suc.prems(1) True x take rd lt by (simp add: eqn written_update)
      moreover have "want - length (out @ [src ! rd]) \<le> length src - (rd + 1)"
        "length (out @ [src ! rd]) \<le> want" using Suc.prems(4) True rd unfolding length_append by simp_all
      ultimately obtain ys where "subseq ys (drop (rd + 1) src)"
        "length (out @ [src ! rd]) + length ys = want" "n = want" "t = written dst ((out @ [src ! rd]) @ ys)"
        using Suc.hyps(1) [OF d] Suc.prems(3,5) by blast
      then show ?thesis by (intro exI [of _ "src ! rd # ys"]) (simp add: dr)
    next
      case False
      have "sample_loop src want (written dst out) r (length out) (rd + 1) = Some (t, n, rng')"
        using Suc.prems(1) True x False by (simp add: eqn)
      moreover have "want - length out \<le> length src - (rd + 1)" using False xlt by simp
      ultimately obtain ys where "subseq ys (drop (rd + 1) src)" "length out + length ys = want"
        "n = want" "t = written dst (out @ ys)"
        using Suc.hyps(1) [OF d] Suc.prems(2,3,5) by blast
      then show ?thesis by (intro exI [of _ ys]) (simp add: dr list_emb_Cons)
    qed
  qed
qed

section \<open>Properties\<close>

lemma reverse_rotate:
  fixes s :: "'a list" and a b :: "'b list"
  shows "tda_span_reverse s = Some (rev s) \<and>
   tda_span_rotate mid s = (if mid \<le> length s then Some (drop mid s @ take mid s) else None) \<and>
   (length a = length b \<longrightarrow> tda_span_swap_ranges a b = Some (b, a))"
  using rotate_eq [of mid s] swap_ranges_loop_eq [of a "length a" b 0]
  by (auto simp: tda_span_rotate_def tda_span_swap_ranges_def)

lemma partitions:
  "(\<exists>k t. tda_span_partition s pred = Some (k, t) \<and> mset t = mset s \<and> k \<le> length s \<and>
      (\<forall>j < length s. pred (t ! j) \<longleftrightarrow> j < k)) \<and>
   (length buf = length s \<longrightarrow> tda_span_partition_stable s pred (Some buf) =
      Some (TDA_STATUS_OK, Some (length (filter pred s)), filter pred s @ filter (\<lambda>x. \<not> pred x) s)) \<and>
   tda_span_is_partitioned s pred = Some (\<exists>k \<le> length s. \<forall>j < length s. pred (s ! j) \<longleftrightarrow> j < k)"
  using partition_loop_spec [of 0 s 0 pred] partition_stable_eq [of buf s pred] is_partitioned_eq
  by (simp add: tda_span_partition_def)

lemma random_orders:
  assumes "length s \<le> SIZE_MAX"
  shows "(\<forall>t rng'. tda_span_shuffle s rng = Some (t, rng') \<longrightarrow> mset t = mset s) \<and>
    (\<forall>t rng'. tda_span_shuffle_prefix s cnt rng = Some (t, rng') \<longrightarrow> mset t = mset s) \<and>
    (\<forall>t n rng'. tda_span_sample dst s rng = Some (t, n, rng') \<longrightarrow>
       n = min (length dst) (length s) \<and> (\<exists>ys. subseq ys s \<and> length ys = n \<and> t = written dst ys)) \<and>
    (tda_span_shuffle s rng = None \<longrightarrow> (\<exists>r n. 0 < n \<and> tda_rng_idx r n = None))"
proof (intro conjI allI impI)
  show "\<exists>r n. 0 < n \<and> tda_rng_idx r n = None" if "tda_span_shuffle s rng = None"
  proof (rule ccontr)
    assume "\<not> (\<exists>r n. 0 < n \<and> tda_rng_idx r n = None)"
    then have "\<forall>r n. 0 < n \<longrightarrow> tda_rng_idx r n \<noteq> None" by (simp only: not_ex de_Morgan_conj imp_conv_disj simp_thms)
    note d = this [rule_format]
    have "shuffle_loop s rng (length s) \<noteq> None" by (rule shuffle_loop_total [OF order_refl assms]) (rule d)
    then show False using that by (simp add: tda_span_shuffle_def)
  qed
  show "mset t = mset s" if "tda_span_shuffle s rng = Some (t, rng')" for t rng'
    using that unfolding tda_span_shuffle_def by (rule shuffle_loop_mset)
  show "mset t = mset s" if "tda_span_shuffle_prefix s cnt rng = Some (t, rng')" for t rng'
    using that by (auto simp: tda_span_shuffle_prefix_def dest: shuffle_prefix_loop_mset)
  fix t n rng' assume a: "tda_span_sample dst s rng = Some (t, n, rng')"
  have m: "(if length dst < length s then length dst else length s) = min (length dst) (length s)" by simp
  from a have "sample_loop s (min (length dst) (length s)) (written dst []) rng (length []) 0 = Some (t, n, rng')"
    unfolding tda_span_sample_def m by (simp add: Let_def)
  from sample_loop_spec [OF this] assms
  show "n = min (length dst) (length s)" "\<exists>ys. subseq ys s \<and> length ys = n \<and> t = written dst ys"
    by auto
qed

end
