(* ===== verification/Merge.thy ===== *)
theory Merge
  imports Permute Search
begin

text \<open>
  \<open>algo/merge.h\<close> and \<open>algo/merge.c\<close>: merging two sorted runs, into a third span, or in place with
  and without a buffer. Each is shown to be the one stable merge.
\<close>

section \<open>merge\<close>

function merge_loop ::
  "('a \<Rightarrow> 'a \<Rightarrow> int) \<Rightarrow> 'a list \<Rightarrow> 'a list \<Rightarrow> 'a list \<Rightarrow> nat \<Rightarrow> nat \<Rightarrow> nat \<Rightarrow>
   ('a list \<times> nat \<times> nat \<times> nat) option" where
  "merge_loop cmp a b dst i j wr =
     (if i < length a \<and> j < length b
      then do {
        lhs \<leftarrow> span_get a i;
        rhs \<leftarrow> span_get b j;
        if \<not> tda_right_goes_first cmp lhs rhs
        then do { (dst, wr) \<leftarrow> tda_emit dst wr lhs; merge_loop cmp a b dst (i + 1) j wr }
        else do { (dst, wr) \<leftarrow> tda_emit dst wr rhs; merge_loop cmp a b dst i (j + 1) wr }
      }
      else Some (dst, i, j, wr))"
  by auto
termination
  by (relation "measure (\<lambda>(cmp, a, b, dst, i, j, wr). (length a - i) + (length b - j))") auto

definition tda_span_merge ::
  "('a \<Rightarrow> 'a \<Rightarrow> int) \<Rightarrow> 'a list \<Rightarrow> 'a list \<Rightarrow> 'a list \<Rightarrow> 'a list option" where
  "tda_span_merge cmp dst a b = do {
     chk (length dst = length a + length b);
     (dst, i, j, wr) \<leftarrow> merge_loop cmp a b dst 0 0 0;
     (dst, wr) \<leftarrow> tda_emit_rest dst wr a i;
     (dst, wr) \<leftarrow> tda_emit_rest dst wr b j;
     chk (wr = length dst);
     Some dst
   }"

section \<open>The buffered merges\<close>

text \<open>\<open>len\<close> is the length of the span, which no write changes.\<close>

function forward_loop ::
  "('a \<Rightarrow> 'a \<Rightarrow> int) \<Rightarrow> nat \<Rightarrow> 'a list \<Rightarrow> 'a list \<Rightarrow> nat \<Rightarrow> nat \<Rightarrow> nat \<Rightarrow>
   ('a list \<times> nat \<times> nat \<times> nat) option" where
  "forward_loop cmp len parked s wr p r =
     (if p < length parked \<and> r < len
      then do {
        lhs \<leftarrow> span_get parked p;
        rhs \<leftarrow> span_get s r;
        if tda_right_goes_first cmp lhs rhs
        then do { (s, wr) \<leftarrow> tda_emit s wr rhs; forward_loop cmp len parked s wr p (r + 1) }
        else do { (s, wr) \<leftarrow> tda_emit s wr lhs; forward_loop cmp len parked s wr (p + 1) r }
      }
      else Some (s, wr, p, r))"
  by auto
termination
  by (relation "measure (\<lambda>(cmp, len, parked, s, wr, p, r). (length parked - p) + (len - r))") auto

definition merge_forward ::
  "('a \<Rightarrow> 'a \<Rightarrow> int) \<Rightarrow> 'a list \<Rightarrow> nat \<Rightarrow> 'a list \<Rightarrow> 'a list option" where
  "merge_forward cmp s mid parked = do {
     (s, wr, p, r) \<leftarrow> forward_loop cmp (length s) parked s 0 0 mid;
     (s, en) \<leftarrow> tda_emit_rest s wr parked p;
     chk (r < length s \<or> en = length s);
     Some s
   }"

function backward_loop ::
  "('a \<Rightarrow> 'a \<Rightarrow> int) \<Rightarrow> 'a list \<Rightarrow> 'a list \<Rightarrow> nat \<Rightarrow> nat \<Rightarrow> nat \<Rightarrow>
   ('a list \<times> nat \<times> nat) option" where
  "backward_loop cmp parked s wr left p =
     (if left > 0 \<and> p > 0
      then do {
        lhs \<leftarrow> span_get s (left - 1);
        rhs \<leftarrow> span_get parked (p - 1);
        let take_left = tda_right_goes_first cmp lhs rhs;
        let wr = wr - 1;
        if take_left
        then do {
          let left = left - 1;
          e \<leftarrow> span_get s left;
          s \<leftarrow> span_set s wr e;
          backward_loop cmp parked s wr left p
        }
        else do {
          let p = p - 1;
          e \<leftarrow> span_get parked p;
          s \<leftarrow> span_set s wr e;
          backward_loop cmp parked s wr left p
        }
      }
      else Some (s, wr, p))"
  by auto
termination by (relation "measure (\<lambda>(cmp, parked, s, wr, left, p). left + p)") auto

definition merge_backward ::
  "('a \<Rightarrow> 'a \<Rightarrow> int) \<Rightarrow> 'a list \<Rightarrow> nat \<Rightarrow> 'a list \<Rightarrow> 'a list option" where
  "merge_backward cmp s mid parked = do {
     (s, wr, p) \<leftarrow> backward_loop cmp parked s (length s) mid (length parked);
     chk (p = 0 \<or> wr = p);
     chk (0 < length s);
     chk (0 < length parked);
     Some (take p parked @ drop p s)
   }"

text \<open>The buffer has room for the shorter run, which is copied into it.\<close>

definition merge_buffered :: "('a \<Rightarrow> 'a \<Rightarrow> int) \<Rightarrow> 'a list \<Rightarrow> nat \<Rightarrow> 'a list option" where
  "merge_buffered cmp s mid =
     (if mid \<le> length s - mid
      then do { parked \<leftarrow> span_sub s 0 mid; merge_forward cmp s mid parked }
      else do { parked \<leftarrow> span_sub s mid (length s - mid); merge_backward cmp s mid parked })"

section \<open>The merge without a buffer\<close>

lemma partition_point_loop_range:
  "partition_point_loop s pred lo hi = Some k \<Longrightarrow> lo \<le> hi \<Longrightarrow> lo \<le> k \<and> k \<le> hi"
proof (induction s pred lo hi rule: partition_point_loop.induct)
  case (1 s pred lo hi)
  define mid where mid: "mid = lo + (hi - lo) div 2"
  show ?case
  proof (cases "lo < hi")
    case True
    then have le: "lo \<le> mid" "mid < hi" unfolding mid by linarith+
    obtain e where e: "span_get s mid = Some e" and rest:
      "(if pred e then partition_point_loop s pred (mid + 1) hi
        else partition_point_loop s pred lo mid) = Some k"
      using "1.prems"(1) True
      by (auto simp: partition_point_loop.simps [of s pred lo hi] Let_def bind_Some_iff simp flip: mid)
    show ?thesis
      using "1.IH"(1) [OF True mid e] "1.IH"(2) [OF True mid e] rest le by (auto split: if_split_asm)
  next
    case False
    then have "partition_point_loop s pred lo hi = Some lo"
      by (simp add: partition_point_loop.simps [of s pred lo hi])
    then show ?thesis using "1.prems" by simp
  qed
qed

lemma lower_bound_le: "tda_span_lower_bound s key cmp = Some k \<Longrightarrow> k \<le> length s"
  by (auto simp: tda_span_lower_bound_def bound_def bound_loop_eq dest: partition_point_loop_range)

lemma upper_bound_le: "tda_span_upper_bound s key cmp = Some k \<Longrightarrow> k \<le> length s"
  by (auto simp: tda_span_upper_bound_def bound_def bound_loop_eq dest: partition_point_loop_range)

lemma span_sub_length: "span_sub s i n = Some t \<Longrightarrow> length t = n \<and> i + n \<le> length s"
  by (auto simp: span_sub_def bind_Some_iff)

text \<open>Where the two runs are cut.\<close>

definition merge_cuts :: "('a \<Rightarrow> 'a \<Rightarrow> int) \<Rightarrow> 'a list \<Rightarrow> nat \<Rightarrow> (nat \<times> nat) option" where
  "merge_cuts cmp s mid = (let left_len = mid; right_len = length s - mid in
     if left_len > right_len
     then do {
       let left_cut = left_len div 2;
       right \<leftarrow> span_sub s mid right_len;
       e \<leftarrow> span_get s left_cut;
       k \<leftarrow> tda_span_lower_bound right e cmp;
       Some (left_cut, mid + k)
     }
     else do {
       let right_cut = mid + right_len div 2;
       left \<leftarrow> span_sub s 0 mid;
       e \<leftarrow> span_get s right_cut;
       k \<leftarrow> tda_span_upper_bound left e cmp;
       Some (k, right_cut)
     })"

lemma merge_cuts_range:
  assumes "merge_cuts cmp s mid = Some (left_cut, right_cut)" "0 < mid" "mid < length s" "2 < length s"
  shows "left_cut \<le> mid \<and> mid \<le> right_cut \<and> right_cut \<le> length s \<and>
    0 < left_cut + (right_cut - mid) \<and> left_cut + (right_cut - mid) < length s"
  using assms
  by (auto simp: merge_cuts_def Let_def bind_Some_iff split: if_split_asm
      dest!: lower_bound_le upper_bound_le span_sub_length)

function merge_in_place :: "('a \<Rightarrow> 'a \<Rightarrow> int) \<Rightarrow> 'a list \<Rightarrow> nat \<Rightarrow> 'a list option" where
  "merge_in_place cmp s mid = (let left_len = mid; right_len = length s - mid in
     if left_len = 0 \<or> right_len = 0 then Some s
     else if length s = 2
     then do {
       a \<leftarrow> span_get s 0;
       b \<leftarrow> span_get s 1;
       if tda_right_goes_first cmp a b then span_swap s 0 1 else Some s
     }
     else do {
       (left_cut, right_cut) \<leftarrow> merge_cuts cmp s mid;
       s1 \<leftarrow> span_within s left_cut (right_cut - left_cut) (tda_span_rotate (mid - left_cut));
       let new_mid = left_cut + (right_cut - mid);
       low \<leftarrow> span_sub s1 0 new_mid;
       low' \<leftarrow> merge_in_place cmp low left_cut;
       let s2 = low' @ drop new_mid s1;
       high \<leftarrow> span_sub s2 new_mid (length s - new_mid);
       high' \<leftarrow> merge_in_place cmp high (right_cut - new_mid);
       Some (take new_mid s2 @ high')
     })"
  by auto
termination
  by (relation "measure (\<lambda>(cmp, s, mid). length s)")
    (auto dest!: merge_cuts_range span_sub_length)

text \<open>\<open>has_buf\<close>: an allocator was passed and \<open>tda_alloc\<close> gave the buffer.\<close>

definition tda_span_inplace_merge ::
  "('a \<Rightarrow> 'a \<Rightarrow> int) \<Rightarrow> 'a list \<Rightarrow> nat \<Rightarrow> bool \<Rightarrow> 'a list option" where
  "tda_span_inplace_merge cmp s mid has_buf = do {
     chk (mid \<le> length s);
     let left_len = mid;
     let right_len = length s - mid;
     if left_len = 0 \<or> right_len = 0 then Some s
     else if \<not> has_buf then merge_in_place cmp s mid
     else merge_buffered cmp s mid
   }"

declare merge_loop.simps [simp del] forward_loop.simps [simp del] backward_loop.simps [simp del]
  merge_in_place.simps [simp del]

section \<open>The stable merge\<close>

fun smerge :: "('a \<Rightarrow> 'a \<Rightarrow> int) \<Rightarrow> 'a list \<Rightarrow> 'a list \<Rightarrow> 'a list" where
  "smerge cmp [] bs = bs"
| "smerge cmp (a # as) [] = a # as"
| "smerge cmp (a # as) (b # bs) =
     (if tda_right_goes_first cmp a b then b # smerge cmp (a # as) bs
      else a # smerge cmp as (b # bs))"

lemma smerge_Nil2 [simp]: "smerge cmp as [] = as"
  by (cases as) simp_all

lemma length_smerge [simp]: "length (smerge cmp as bs) = length as + length bs"
  by (induction cmp as bs rule: smerge.induct) simp_all

lemma mset_smerge [simp]: "mset (smerge cmp as bs) = mset as + mset bs"
  by (induction cmp as bs rule: smerge.induct) simp_all

lemma set_smerge [simp]: "set (smerge cmp as bs) = set as \<union> set bs"
  by (metis mset_smerge set_mset_mset set_mset_union)

text \<open>The class of \<open>x\<close> under a comparator, and lists that hold each class in the same order.\<close>

abbreviation alike :: "('a \<Rightarrow> 'a \<Rightarrow> int) \<Rightarrow> 'a \<Rightarrow> 'a list \<Rightarrow> 'a list" where
  "alike cmp x xs \<equiv> filter (\<lambda>y. cmp x y = 0) xs"

definition same_order :: "('a \<Rightarrow> 'a \<Rightarrow> int) \<Rightarrow> 'a list \<Rightarrow> 'a list \<Rightarrow> bool" where
  "same_order cmp xs ys \<longleftrightarrow> mset xs = mset ys \<and> (\<forall>x. alike cmp x xs = alike cmp x ys)"

abbreviation sorted_by :: "('a \<Rightarrow> 'a \<Rightarrow> int) \<Rightarrow> 'a list \<Rightarrow> bool" where
  "sorted_by cmp \<equiv> sorted_wrt (\<lambda>x y. cmp x y \<le> 0)"

lemma same_order_refl [simp]: "same_order cmp xs xs"
  by (simp add: same_order_def)

lemma same_order_trans: "same_order cmp xs ys \<Longrightarrow> same_order cmp ys zs \<Longrightarrow> same_order cmp xs zs"
  by (simp add: same_order_def)

lemma same_order_append:
  "same_order cmp xs xs' \<Longrightarrow> same_order cmp ys ys' \<Longrightarrow> same_order cmp (xs @ ys) (xs' @ ys')"
  by (simp add: same_order_def)

context total_cmp begin

lemma smerge_sorted: "sorted_by cmp as \<Longrightarrow> sorted_by cmp bs \<Longrightarrow> sorted_by cmp (smerge cmp as bs)"
proof (induction c \<equiv> cmp as bs rule: smerge.induct)
  case (3 a as b bs)
  show ?case
  proof (cases "cmp b a < 0")
    case True
    then have "cmp b x \<le> 0" if "x \<in> set as" for x
      using 3(3) that cmp_le_trans [of b a x] by simp
    then show ?thesis using True 3 by (auto simp: tda_right_goes_first_def)
  next
    case False
    then have ab: "cmp a b \<le> 0" by (simp add: not_less_iff)
    then have "cmp a x \<le> 0" if "x \<in> set bs" for x
      using 3(4) that cmp_le_trans [of a b x] by simp
    then show ?thesis using False ab 3 by (auto simp: tda_right_goes_first_def)
  qed
qed simp_all

lemma smerge_same_order: "sorted_by cmp as \<Longrightarrow> same_order cmp (smerge cmp as bs) (as @ bs)"
proof (induction c \<equiv> cmp as bs rule: smerge.induct)
  case (3 a as b bs)
  show ?case
  proof (cases "cmp b a < 0")
    case True
    have no: "alike cmp x (a # as) = []" if "cmp x b = 0" for x
    proof -
      have "cmp b y < 0" if "y \<in> set (a # as)" for y
        using True 3(3) that less_le_trans [of b a y] by auto
      then have "cmp x y < 0" if "y \<in> set (a # as)" for y
        using \<open>cmp x b = 0\<close> that le_less_trans [of x b y] by simp
      then show ?thesis by (force simp: filter_empty_conv)
    qed
    have IH: "same_order cmp (smerge cmp (a # as) bs) ((a # as) @ bs)"
      using 3 True by (simp add: tda_right_goes_first_def)
    have "alike cmp x (b # smerge cmp (a # as) bs) = alike cmp x ((a # as) @ b # bs)" for x
    proof -
      have "alike cmp x (smerge cmp (a # as) bs) = alike cmp x (a # as) @ alike cmp x bs"
        using IH unfolding same_order_def filter_append by blast
      then show ?thesis
        using no [of x] unfolding filter_append by (cases "cmp x b = 0") simp_all
    qed
    moreover have "mset (b # smerge cmp (a # as) bs) = mset ((a # as) @ b # bs)" by simp
    ultimately show ?thesis using True by (simp add: same_order_def tda_right_goes_first_def)
  next
    case False
    then show ?thesis using 3 by (auto simp: same_order_def tda_right_goes_first_def)
  qed
qed simp_all

text \<open>A sorted list with given classes, each in a given order, is unique.\<close>

lemma sorted_same_order_unique:
  "sorted_by cmp xs \<Longrightarrow> sorted_by cmp ys \<Longrightarrow> same_order cmp xs ys \<Longrightarrow> xs = ys"
proof (induction xs arbitrary: ys)
  case Nil
  then show ?case by (simp add: same_order_def)
next
  case (Cons x xs)
  then obtain y ys' where ys: "ys = y # ys'" by (cases ys) (auto simp: same_order_def)
  have set: "set (x # xs) = set (y # ys')"
    using Cons.prems(3) unfolding ys same_order_def by (metis mset_eq_setD)
  have "cmp x y \<le> 0"
    using Cons.prems(1) set by (metis cmp_refl list.set_intros(1) order_refl set_ConsD sorted_wrt.simps(2))
  moreover have "cmp y x \<le> 0"
    using Cons.prems(2) set unfolding ys by (metis cmp_refl list.set_intros(1) order_refl set_ConsD sorted_wrt.simps(2))
  ultimately have xy: "cmp x y = 0" using cmp_le_iff [of y x] by simp
  have "alike cmp x (x # xs) = alike cmp x (y # ys')"
    using Cons.prems(3) unfolding ys same_order_def by blast
  then have eq: "x = y" using xy by simp
  have "same_order cmp xs ys'"
    using Cons.prems(3) unfolding ys eq same_order_def by (auto split: if_splits) 
  then show ?case using Cons.IH Cons.prems(1,2) unfolding ys eq by simp
qed

end

section \<open>The loops are the stable merge\<close>

lemma emit_rest_written:
  "length out + (length src - from) \<le> length dst \<Longrightarrow>
   tda_emit_rest (written dst out) (length out) src from =
     Some (written dst (out @ drop from src), length (out @ drop from src))"
proof -
  assume a: "length out + (length src - from) \<le> length dst"
  then have "tda_emit_rest (written dst out) (length out) src from =
      Some (out @ drop from src @ drop (length out + (length src - from)) (written dst out),
        length out + (length src - from))"
    by (subst emit_rest_eq) simp_all
  moreover have "drop (length out + (length src - from)) (written dst out) =
      drop (length out + (length src - from)) dst"
    by (simp add: written_def add.commute)
  ultimately show ?thesis by (simp add: written_def)
qed

lemma written_all: "length out = length dst \<Longrightarrow> written dst out = out"
  by (simp add: written_def)

lemma smerge_drop:
  assumes "i < length a" "j < length b"
  shows "smerge cmp (drop i a) (drop j b) =
    (if tda_right_goes_first cmp (a ! i) (b ! j) then b ! j # smerge cmp (drop i a) (drop (Suc j) b)
     else a ! i # smerge cmp (drop (Suc i) a) (drop j b))"
  using assms by (simp add: Cons_nth_drop_Suc [symmetric])

lemma merge_loop_spec:
  assumes "length dst = length a + length b" "length out = i + j" "i \<le> length a" "j \<le> length b"
  shows "\<exists>out' i' j'. merge_loop cmp a b (written dst out) i j (length out) =
      Some (written dst out', i', j', length out') \<and> length out' = i' + j' \<and>
    i' \<le> length a \<and> j' \<le> length b \<and> (i' = length a \<or> j' = length b) \<and>
    out' @ drop i' a @ drop j' b = out @ smerge cmp (drop i a) (drop j b)"
  using assms
proof (induction "(length a - i) + (length b - j)" arbitrary: i j out rule: less_induct)
  case less
  note eqn = merge_loop.simps [of cmp a b "written dst out" i j "length out"]
  show ?case
  proof (cases "i < length a \<and> j < length b")
    case False
    then have "merge_loop cmp a b (written dst out) i j (length out) = Some (written dst out, i, j, length out)"
      by (simp only: eqn False if_False)
    then show ?thesis using False less.prems by (cases "i < length a") auto
  next
    case True
    then have ij: "i < length a" "j < length b" by simp_all
    have lt: "length out < length dst" using ij less.prems by simp
    show ?thesis
    proof (cases "tda_right_goes_first cmp (a ! i) (b ! j)")
      case r: True
      have "merge_loop cmp a b (written dst out) i j (length out) =
          merge_loop cmp a b (written dst (out @ [b ! j])) i (j + 1) (length (out @ [b ! j]))"
        using ij r lt by (simp add: eqn written_update)
      then show ?thesis
        using less.hyps [of i "j + 1" "out @ [b ! j]"] less.prems ij r by (simp add: smerge_drop)
    next
      case r: False
      have "merge_loop cmp a b (written dst out) i j (length out) =
          merge_loop cmp a b (written dst (out @ [a ! i])) (i + 1) j (length (out @ [a ! i]))"
        using ij r lt by (simp add: eqn written_update)
      then show ?thesis
        using less.hyps [of "i + 1" j "out @ [a ! i]"] less.prems ij r by (simp add: smerge_drop)
    qed
  qed
qed

lemma span_merge_eq:
  assumes "length dst = length a + length b"
  shows "tda_span_merge cmp dst a b = Some (smerge cmp a b)"
proof -
  obtain out i j where m: "merge_loop cmp a b dst 0 0 0 = Some (written dst out, i, j, length out)"
    and l: "length out = i + j" "i \<le> length a" "j \<le> length b" and e: "i = length a \<or> j = length b"
    and r: "out @ drop i a @ drop j b = smerge cmp a b"
    using merge_loop_spec [of dst a b "[]" 0 0 cmp] assms by auto
  let ?o = "out @ drop i a"
  have 1: "tda_emit_rest (written dst out) (length out) a i = Some (written dst ?o, length ?o)"
    using l assms by (intro emit_rest_written) simp
  have 2: "tda_emit_rest (written dst ?o) (length ?o) b j = Some (written dst (?o @ drop j b), length (?o @ drop j b))"
    using l assms by (intro emit_rest_written) simp
  have "length (?o @ drop j b) = length dst" using l assms by simp
  then have "written dst (?o @ drop j b) = smerge cmp a b" using r by (simp add: written_all)
  then show ?thesis using assms m 1 2 l by (simp add: tda_span_merge_def)
qed

lemma forward_loop_spec:
  assumes "length parked = mid" "mid \<le> length s" "length out = p + (r - mid)" "p \<le> mid" "mid \<le> r"
    "r \<le> length s"
  shows "\<exists>out' p' r'. forward_loop cmp (length s) parked (written s out) (length out) p r =
      Some (written s out', length out', p', r') \<and> length out' = p' + (r' - mid) \<and>
    p' \<le> mid \<and> mid \<le> r' \<and> r' \<le> length s \<and> (p' = mid \<or> r' = length s) \<and>
    out' @ drop p' parked @ drop r' s = out @ smerge cmp (drop p parked) (drop r s)"
  using assms
proof (induction "(length parked - p) + (length s - r)" arbitrary: p r out rule: less_induct)
  case less
  note eqn = forward_loop.simps [of cmp "length s" parked "written s out" "length out" p r]
  show ?case
  proof (cases "p < length parked \<and> r < length s")
    case False
    then have "forward_loop cmp (length s) parked (written s out) (length out) p r =
        Some (written s out, length out, p, r)"
      by (simp only: eqn False if_False)
    then show ?thesis using False less.prems by (cases "p < length parked") auto
  next
    case True
    then have pr: "p < length parked" "r < length s" by simp_all
    have lt: "length out < length s" "length out \<le> r" using pr less.prems by auto
    have rd: "written s out ! r = s ! r" using lt(2) pr(2) by (rule written_nth)
    show ?thesis
    proof (cases "tda_right_goes_first cmp (parked ! p) (s ! r)")
      case g: True
      have "forward_loop cmp (length s) parked (written s out) (length out) p r =
          forward_loop cmp (length s) parked (written s (out @ [s ! r])) (length (out @ [s ! r])) p (r + 1)"
        using pr g lt by (simp add: eqn written_update rd)
      then show ?thesis
        using less.hyps [of p "r + 1" "out @ [s ! r]"] less.prems pr g
        by (simp add: smerge_drop Suc_diff_le trans_le_add2)
    next
      case g: False
      have "forward_loop cmp (length s) parked (written s out) (length out) p r =
          forward_loop cmp (length s) parked (written s (out @ [parked ! p])) (length (out @ [parked ! p])) (p + 1) r"
        using pr g lt by (simp add: eqn written_update rd)
      then show ?thesis
        using less.hyps [of "p + 1" r "out @ [parked ! p]"] less.prems pr g by (simp add: smerge_drop)
    qed
  qed
qed

lemma merge_forward_eq:
  assumes "mid \<le> length s"
  shows "merge_forward cmp s mid (take mid s) = Some (smerge cmp (take mid s) (drop mid s))"
proof -
  let ?k = "take mid s"
  obtain out p r where m: "forward_loop cmp (length s) ?k s 0 0 mid = Some (written s out, length out, p, r)"
    and l: "length out = p + (r - mid)" "p \<le> mid" "mid \<le> r" "r \<le> length s" and e: "p = mid \<or> r = length s"
    and res: "out @ drop p ?k @ drop r s = smerge cmp ?k (drop mid s)"
    using forward_loop_spec [of ?k mid s "[]" 0 mid cmp] assms by auto
  let ?o = "out @ drop p ?k"
  have 1: "tda_emit_rest (written s out) (length out) ?k p = Some (written s ?o, length ?o)"
    using l assms by (intro emit_rest_written) simp
  have "length ?o = r" using l assms by simp
  then have "written s ?o = smerge cmp ?k (drop mid s)" using res by (simp add: written_def)
  moreover have "tda_emit_rest (written s out) (length out) ?k p = Some (written s ?o, r)"
    using 1 \<open>length ?o = r\<close> by simp
  moreover have "r < length s \<or> r = length s" using l(4) by linarith
  ultimately show ?thesis using m assms by (simp add: merge_forward_def)
qed

text \<open>
  Filling from the back is a merge of the reversed runs under the descending order, the right run
  first.
\<close>

lemma rev_take_Suc: "i < length s \<Longrightarrow> rev (take (Suc i) s) = s ! i # rev (take i s)"
  by (simp add: take_Suc_conv_app_nth)

lemma backward_loop_spec:
  assumes "left + p \<le> length s" "p \<le> length parked"
  shows "\<exists>s' wr' p'. backward_loop cmp parked s (left + p) left p = Some (s', wr', p') \<and>
    (p' = 0 \<or> wr' = p') \<and> length s' = length s \<and>
    take p' parked @ drop p' s' =
      rev (smerge (tda_cmp_desc cmp) (rev (take p parked)) (rev (take left s))) @ drop (left + p) s"
  using assms
proof (induction "left + p" arbitrary: left p s rule: less_induct)
  case less
  note eqn = backward_loop.simps [of cmp parked s "left + p" left p]
  show ?case
  proof (cases "left > 0 \<and> p > 0")
    case False
    then have "backward_loop cmp parked s (left + p) left p = Some (s, left + p, p)"
      by (simp only: eqn False if_False)
    then show ?thesis using False less.prems by (cases "left = 0") auto
  next
    case True
    then obtain l q where lq: "left = Suc l" "p = Suc q" by (metis gr0_implies_Suc)
    have lt: "l < length s" "q < length parked" "l + Suc q < length s" using less.prems lq by auto
    let ?x = "s ! l" and ?y = "parked ! q"
    have merge: "smerge (tda_cmp_desc cmp) (rev (take p parked)) (rev (take left s)) =
      (if cmp ?y ?x < 0 then ?x # smerge (tda_cmp_desc cmp) (rev (take p parked)) (rev (take l s))
       else ?y # smerge (tda_cmp_desc cmp) (rev (take q parked)) (rev (take left s)))"
      using lt by (simp add: lq rev_take_Suc tda_right_goes_first_def tda_cmp_desc_def)
    have drop: "drop (l + Suc q) (s[l + Suc q := z]) = z # drop (Suc (l + Suc q)) s" for z
      using lt by (simp add: Cons_nth_drop_Suc [symmetric])
    show ?thesis
    proof (cases "cmp ?y ?x < 0")
      case g: True
      let ?s = "s[l + Suc q := ?x]"
      have "backward_loop cmp parked s (left + p) left p = backward_loop cmp parked ?s (l + p) l p"
        unfolding eqn using lt g by (simp add: lq Let_def tda_right_goes_first_def)
      moreover have "take l ?s = take l s" by simp
      ultimately show ?thesis
        using less.hyps [of l p ?s] less.prems lq g drop [of ?x] unfolding merge by simp
    next
      case g: False
      let ?s = "s[l + Suc q := ?y]"
      have "backward_loop cmp parked s (left + p) left p = backward_loop cmp parked ?s (left + q) left q"
        unfolding eqn using lt g by (simp add: lq Let_def tda_right_goes_first_def)
      moreover have "take left ?s = take left s" by (simp add: lq)
      ultimately show ?thesis
        using less.hyps [of left q ?s] less.prems lq g drop [of ?y] unfolding merge by simp
    qed
  qed
qed

context total_cmp begin

lemma desc_simps: "tda_cmp_desc cmp x y = cmp y x"
  by (simp add: tda_cmp_desc_def)

lemma sorted_by_desc_rev: "sorted_by (tda_cmp_desc cmp) (rev xs) \<longleftrightarrow> sorted_by cmp xs"
  by (simp add: sorted_wrt_rev desc_simps)

lemma same_order_desc: "same_order (tda_cmp_desc cmp) xs ys \<longleftrightarrow> same_order cmp xs ys"
proof -
  have "alike (tda_cmp_desc cmp) x zs = alike cmp x zs" for x zs
    by (rule filter_cong) (auto simp: desc_simps cmp_zero_iff)
  then show ?thesis by (simp add: same_order_def)
qed

lemma same_order_rev: "same_order cmp (rev xs) (rev ys) \<longleftrightarrow> same_order cmp xs ys"
  by (simp add: same_order_def rev_filter [symmetric])

lemma backward_merge:
  assumes "sorted_by cmp as" "sorted_by cmp bs"
  shows "rev (smerge (tda_cmp_desc cmp) (rev bs) (rev as)) = smerge cmp as bs"
proof (rule sorted_same_order_unique)
  have d: "total_cmp (tda_cmp_desc cmp)" by (rule total_cmp_desc) (rule total_cmp_axioms)
  let ?m = "smerge (tda_cmp_desc cmp) (rev bs) (rev as)"
  have "sorted_by (tda_cmp_desc cmp) ?m"
    by (rule total_cmp.smerge_sorted [OF d]) (simp_all only: sorted_by_desc_rev assms)
  then show "sorted_by cmp (rev ?m)" using sorted_by_desc_rev [of "rev ?m"] by simp
  show "sorted_by cmp (smerge cmp as bs)" using assms by (rule smerge_sorted)
  have "same_order (tda_cmp_desc cmp) ?m (rev bs @ rev as)"
    by (rule total_cmp.smerge_same_order [OF d]) (simp only: sorted_by_desc_rev assms)
  then have "same_order cmp (rev (rev ?m)) (rev (as @ bs))"
    unfolding same_order_desc by simp
  then have "same_order cmp (rev ?m) (as @ bs)" unfolding same_order_rev .
  moreover have "same_order cmp (as @ bs) (smerge cmp as bs)"
    using smerge_same_order [of as bs] assms by (simp add: same_order_def)
  ultimately show "same_order cmp (rev ?m) (smerge cmp as bs)" by (rule same_order_trans)
qed

lemma merge_backward_eq:
  assumes "0 < mid" "mid < length s" "sorted_by cmp (take mid s)" "sorted_by cmp (drop mid s)"
  shows "merge_backward cmp s mid (drop mid s) = Some (smerge cmp (take mid s) (drop mid s))"
proof -
  let ?k = "drop mid s"
  obtain s' wr p where m: "backward_loop cmp ?k s (mid + length ?k) mid (length ?k) = Some (s', wr, p)"
    and p: "p = 0 \<or> wr = p" "length s' = length s" and r: "take p ?k @ drop p s' =
      rev (smerge (tda_cmp_desc cmp) (rev (take (length ?k) ?k)) (rev (take mid s))) @ drop (mid + length ?k) s"
    using backward_loop_spec [of mid "length ?k" s ?k cmp] assms by auto
  have "take p ?k @ drop p s' = smerge cmp (take mid s) ?k"
    using r backward_merge [OF assms(3,4)] assms(2) by simp
  moreover have "s \<noteq> []" "s' \<noteq> []" using p(2) assms by auto
  ultimately show ?thesis using m p assms by (simp add: merge_backward_def)
qed

lemma merge_buffered_eq:
  assumes "0 < mid" "mid < length s" "sorted_by cmp (take mid s)" "sorted_by cmp (drop mid s)"
  shows "merge_buffered cmp s mid = Some (smerge cmp (take mid s) (drop mid s))"
proof -
  have "span_sub s 0 mid = Some (take mid s)" "span_sub s mid (length s - mid) = Some (drop mid s)"
    using assms by simp_all
  then show ?thesis
    using assms merge_forward_eq [of mid s cmp] merge_backward_eq by (simp add: merge_buffered_def)
qed

text \<open>The cuts of the merge without a buffer split it in two.\<close>

lemma lower_bound_cut:
  assumes "sorted_by cmp s"
  shows "\<exists>k. tda_span_lower_bound s e cmp = Some k \<and> k \<le> length s \<and>
    (\<forall>x \<in> set (take k s). cmp x e < 0) \<and> (\<forall>x \<in> set (drop k s). cmp e x \<le> 0)"
proof -
  obtain k where k: "tda_span_lower_bound s e cmp = Some k" "k \<le> length s"
    and lo: "\<And>i. i < k \<Longrightarrow> cmp (s ! i) e < 0"
    and hi: "\<And>i. k \<le> i \<Longrightarrow> i < length s \<Longrightarrow> \<not> cmp (s ! i) e < 0"
    using bound_spec [OF sorted_ordered_for [OF assms, of e], of False]
    by (auto simp: tda_span_lower_bound_def splits_at_def before_key_def)
  have "cmp e (s ! i) \<le> 0" if "k \<le> i" "i < length s" for i
    using hi [OF that] not_less_iff by blast
  then show ?thesis using k lo by (auto simp: in_set_conv_nth)
qed

lemma upper_bound_cut:
  assumes "sorted_by cmp s"
  shows "\<exists>k. tda_span_upper_bound s e cmp = Some k \<and> k \<le> length s \<and>
    (\<forall>x \<in> set (take k s). cmp x e \<le> 0) \<and> (\<forall>x \<in> set (drop k s). cmp e x < 0)"
proof -
  obtain k where k: "tda_span_upper_bound s e cmp = Some k" "k \<le> length s"
    and lo: "\<And>i. i < k \<Longrightarrow> cmp (s ! i) e \<le> 0"
    and hi: "\<And>i. k \<le> i \<Longrightarrow> i < length s \<Longrightarrow> \<not> cmp (s ! i) e \<le> 0"
    using bound_spec [OF sorted_ordered_for [OF assms, of e], of True]
    by (auto simp: tda_span_upper_bound_def splits_at_def before_key_def)
  have "cmp e (s ! i) < 0" if "k \<le> i" "i < length s" for i
    using hi [OF that] not_le_iff by blast
  then show ?thesis using k lo by (auto simp: in_set_conv_nth)
qed

lemma same_order_swap:
  assumes "\<And>b c. b \<in> set bs \<Longrightarrow> c \<in> set cs \<Longrightarrow> cmp c b < 0"
  shows "same_order cmp (cs @ bs) (bs @ cs)"
proof -
  have "alike cmp x cs = [] \<or> alike cmp x bs = []" for x
  proof (rule ccontr)
    assume "\<not> ?thesis"
    then obtain b c where bc: "b \<in> set bs" "cmp x b = 0" "c \<in> set cs" "cmp x c = 0"
      by (auto simp: filter_empty_conv)
    then have "cmp c x = 0" using cmp_zero_iff [of c x] by simp
    then have "cmp c b = 0" using bc(2) zero_trans by blast
    then show False using assms [OF bc(1,3)] by simp
  qed
  then have "alike cmp x cs @ alike cmp x bs = alike cmp x bs @ alike cmp x cs" for x
    by (metis append_Nil append_Nil2)
  then show ?thesis by (simp add: same_order_def)
qed

lemma smerge_split:
  assumes L: "sorted_by cmp (as @ bs)" and R: "sorted_by cmp (cs @ ds)"
    and cb: "\<And>b c. b \<in> set bs \<Longrightarrow> c \<in> set cs \<Longrightarrow> cmp c b < 0"
    and ad: "\<And>a d. a \<in> set as \<Longrightarrow> d \<in> set ds \<Longrightarrow> cmp a d \<le> 0"
  shows "smerge cmp as cs @ smerge cmp bs ds = smerge cmp (as @ bs) (cs @ ds)"
proof (rule sorted_same_order_unique)
  have parts: "sorted_by cmp as" "sorted_by cmp bs" "sorted_by cmp cs" "sorted_by cmp ds"
    using L R by (simp_all add: sorted_wrt_append)
  have "cmp x y \<le> 0" if "x \<in> set as \<union> set cs" "y \<in> set bs \<union> set ds" for x y
    using that L R cb [of y x] ad [of x y] by (auto simp: sorted_wrt_append)
  then show "sorted_by cmp (smerge cmp as cs @ smerge cmp bs ds)"
    using parts smerge_sorted by (simp add: sorted_wrt_append)
  show "sorted_by cmp (smerge cmp (as @ bs) (cs @ ds))" by (rule smerge_sorted) (rule L, rule R)
  have "same_order cmp (smerge cmp as cs @ smerge cmp bs ds) ((as @ cs) @ (bs @ ds))"
    by (rule same_order_append) (rule smerge_same_order, rule parts)+
  moreover have "same_order cmp ((as @ cs) @ (bs @ ds)) (as @ (bs @ cs) @ ds)"
    using same_order_append [OF same_order_refl [of cmp as]
        same_order_append [OF same_order_swap [of bs cs, OF cb] same_order_refl [of cmp ds]]] by simp
  moreover have "same_order cmp (as @ (bs @ cs) @ ds) (smerge cmp (as @ bs) (cs @ ds))"
    using smerge_same_order [OF L, of "cs @ ds"] by (simp add: same_order_def)
  ultimately show "same_order cmp (smerge cmp as cs @ smerge cmp bs ds) (smerge cmp (as @ bs) (cs @ ds))"
    using same_order_trans by blast
qed

lemma merge_cuts_spec:
  assumes "0 < mid" "mid < length s" "sorted_by cmp (take mid s)" "sorted_by cmp (drop mid s)"
  shows "\<exists>l k. merge_cuts cmp s mid = Some (l, mid + k) \<and> l \<le> mid \<and> mid + k \<le> length s \<and>
    (\<forall>b \<in> set (drop l (take mid s)). \<forall>c \<in> set (take k (drop mid s)). cmp c b < 0) \<and>
    (\<forall>a \<in> set (take l (take mid s)). \<forall>d \<in> set (drop k (drop mid s)). cmp a d \<le> 0)"
proof (cases "mid > length s - mid")
  case True
  define l where l: "l = mid div 2"
  define e where e: "e = s ! l"
  have lm: "l < mid" using assms(1) by (simp add: l)
  obtain k where k: "tda_span_lower_bound (drop mid s) e cmp = Some k" "k \<le> length (drop mid s)"
    "\<forall>x \<in> set (take k (drop mid s)). cmp x e < 0" "\<forall>x \<in> set (drop k (drop mid s)). cmp e x \<le> 0"
    using lower_bound_cut [OF assms(4)] by blast
  have split: "take mid s = take l (take mid s) @ e # drop (Suc l) (take mid s)"
    using id_take_nth_drop [of l "take mid s"] lm assms(2) by (simp add: e)
  then have dr: "drop l (take mid s) = e # drop (Suc l) (take mid s)"
    using lm assms(2) by (simp add: e Cons_nth_drop_Suc [symmetric])
  have srt: "sorted_by cmp (take l (take mid s) @ e # drop (Suc l) (take mid s))" using assms(3) split by simp
  have 1: "\<forall>b \<in> set (drop l (take mid s)). cmp e b \<le> 0"
    using srt unfolding dr by (simp add: sorted_wrt_append)
  have 2: "\<forall>a \<in> set (take l (take mid s)). cmp a e \<le> 0" using srt by (simp add: sorted_wrt_append)
  have "merge_cuts cmp s mid = Some (l, mid + k)"
    using True k(1) lm assms(2) by (simp add: merge_cuts_def Let_def l [symmetric] e [symmetric])
  moreover have "\<forall>b \<in> set (drop l (take mid s)). \<forall>c \<in> set (take k (drop mid s)). cmp c b < 0"
    using 1 k(3) less_le_trans by blast
  moreover have "\<forall>a \<in> set (take l (take mid s)). \<forall>d \<in> set (drop k (drop mid s)). cmp a d \<le> 0"
    using 2 k(4) cmp_le_trans by blast
  moreover have "mid + k \<le> length s" using k(2) assms(2) by simp
  ultimately show ?thesis using lm less_imp_le by blast
next
  case False
  define k where k: "k = (length s - mid) div 2"
  define e where e: "e = s ! (mid + k)"
  have km: "k < length s - mid" using assms(2) by (simp add: k)
  obtain l where l: "tda_span_upper_bound (take mid s) e cmp = Some l" "l \<le> length (take mid s)"
    "\<forall>x \<in> set (take l (take mid s)). cmp x e \<le> 0" "\<forall>x \<in> set (drop l (take mid s)). cmp e x < 0"
    using upper_bound_cut [OF assms(3)] by blast
  have split: "drop mid s = take k (drop mid s) @ e # drop (Suc k) (drop mid s)"
    using id_take_nth_drop [of k "drop mid s"] km assms(2) by (simp add: e)
  have dr: "drop k (drop mid s) = e # drop (Suc k) (drop mid s)"
    using Cons_nth_drop_Suc [of k "drop mid s"] km assms(2) by (simp add: e)
  have srt: "sorted_by cmp (take k (drop mid s) @ e # drop (Suc k) (drop mid s))" using assms(4) split by simp
  have 1: "\<forall>d \<in> set (drop k (drop mid s)). cmp e d \<le> 0"
    using srt unfolding dr by (simp add: sorted_wrt_append)
  have 2: "\<forall>c \<in> set (take k (drop mid s)). cmp c e \<le> 0" using srt by (simp add: sorted_wrt_append)
  have "merge_cuts cmp s mid = Some (l, mid + k)"
    using False l(1) km assms(2) by (simp add: merge_cuts_def Let_def k [symmetric] e [symmetric])
  moreover have "\<forall>b \<in> set (drop l (take mid s)). \<forall>c \<in> set (take k (drop mid s)). cmp c b < 0"
    using 2 l(4) le_less_trans by blast
  moreover have "\<forall>a \<in> set (take l (take mid s)). \<forall>d \<in> set (drop k (drop mid s)). cmp a d \<le> 0"
    using 1 l(3) cmp_le_trans by blast
  moreover have "l \<le> mid" "mid + k \<le> length s" using l(2) km assms(2) by auto
  ultimately show ?thesis by blast
qed

lemma merge_in_place_eq:
  assumes "mid \<le> length s" "sorted_by cmp (take mid s)" "sorted_by cmp (drop mid s)"
  shows "merge_in_place cmp s mid = Some (smerge cmp (take mid s) (drop mid s))"
  using assms
proof (induction "length s" arbitrary: s mid rule: less_induct)
  case less
  note eqn = merge_in_place.simps [of cmp s mid]
  consider (empty) "mid = 0 \<or> length s - mid = 0" | (two) "0 < mid" "mid < length s" "length s = 2"
    | (more) "0 < mid" "mid < length s" "2 < length s"
    using less.prems(1) by linarith
  then show ?case
  proof cases
    case empty
    then show ?thesis using less.prems(1) by (auto simp: eqn)
  next
    case two
    then obtain x y where s: "s = [x, y]" by (auto simp: numeral_2_eq_2 length_Suc_conv)
    have "mid = 1" using two by simp
    then show ?thesis unfolding eqn by (simp add: s)
  next
    case more
    obtain l k where mc: "merge_cuts cmp s mid = Some (l, mid + k)" and lk: "l \<le> mid" "mid + k \<le> length s"
      and cb: "\<forall>b \<in> set (drop l (take mid s)). \<forall>c \<in> set (take k (drop mid s)). cmp c b < 0"
      and ad: "\<forall>a \<in> set (take l (take mid s)). \<forall>d \<in> set (drop k (drop mid s)). cmp a d \<le> 0"
      using merge_cuts_spec [OF more(1,2) less.prems(2,3)] by blast
    define A where A: "A = take l (take mid s)"
    define B where B: "B = drop l (take mid s)"
    define C where C: "C = take k (drop mid s)"
    define D where D: "D = drop k (drop mid s)"
    have L: "take mid s = A @ B" and R: "drop mid s = C @ D" unfolding A B C D by (simp_all only: append_take_drop_id)
    have s: "s = A @ B @ C @ D" using append_take_drop_id [of mid s] by (simp add: L R)
    have len: "length A = l" "length B = mid - l" "length C = k"
      using lk less.prems(1) by (simp_all add: A B C)
    have nm: "0 < l + k" "l + k < length s" using merge_cuts_range [OF mc more] by simp_all
    have AC: "length A + length C < length s" using nm len by simp
    have BD: "length B + length D < length s" using nm unfolding s by (simp add: len)
    have srt: "sorted_by cmp A" "sorted_by cmp B" "sorted_by cmp C" "sorted_by cmp D"
      using less.prems(2,3) by (simp_all add: L R sorted_wrt_append)
    have low: "merge_in_place cmp (A @ C) l = Some (smerge cmp A C)"
      using less.hyps [of "A @ C" l] AC srt len by simp
    have high: "merge_in_place cmp (B @ D) (mid - l) = Some (smerge cmp B D)"
      using less.hyps [of "B @ D" "mid - l"] BD srt len by simp
    have rot: "span_within s l (mid + k - l) (tda_span_rotate (mid - l)) = Some (A @ C @ B @ D)"
    proof -
      have inner: "take (mid + k - l) (drop l s) = B @ C" using len lk by (simp add: s)
      have "tda_span_rotate (mid - l) (B @ C) = Some (C @ B)"
        using rotate_eq [of "mid - l" "B @ C"] len by simp
      moreover have "take l s = A" "drop (mid + k) s = D" using len lk by (simp_all add: s)
      ultimately show ?thesis
        using span_within_eq [of l "mid + k - l" s "tda_span_rotate (mid - l)" "C @ B"] lk inner by simp
    qed
    have "merge_in_place cmp s mid = Some (smerge cmp A C @ smerge cmp B D)"
    proof -
      have sub1: "span_sub (A @ C @ B @ D) 0 (l + k) = Some (A @ C)" using len by simp
      have sub2: "span_sub (smerge cmp A C @ B @ D) (l + k) (length s - (l + k)) = Some (B @ D)"
        using len lk by (simp add: s)
      show ?thesis
        unfolding eqn using more mc rot low high sub1 sub2 len by (simp add: Let_def)
    qed
    also have "\<dots> = Some (smerge cmp (take mid s) (drop mid s))"
      using smerge_split [of A B C D] less.prems(2,3) cb [folded B C] ad [folded A D]
      unfolding L R by blast
    finally show ?thesis .
  qed
qed

end

section \<open>The merges are the one stable merge\<close>

text \<open>
  C5: merging into a third span, merging in place with a buffer (forward or backward) and merging
  in place without one all return the same sorted list, which keeps equal elements in order, the
  left run first.
\<close>

theorem merges:
  assumes "total_cmp cmp" "sorted_by cmp a" "sorted_by cmp b" "length dst = length a + length b"
  shows "\<exists>r. tda_span_merge cmp dst a b = Some r \<and>
    (\<forall>has_buf. tda_span_inplace_merge cmp (a @ b) (length a) has_buf = Some r) \<and>
    sorted_by cmp r \<and> same_order cmp r (a @ b)"
proof -
  let ?s = "a @ b" and ?m = "length a"
  have p: "sorted_by cmp (take ?m ?s)" "sorted_by cmp (drop ?m ?s)" using assms by simp_all
  have place: "merge_in_place cmp ?s ?m = Some (smerge cmp a b)"
    using total_cmp.merge_in_place_eq [OF assms(1) _ p] by simp
  have "tda_span_inplace_merge cmp ?s ?m has_buf = Some (smerge cmp a b)" for has_buf
  proof (cases "a = [] \<or> b = []")
    case True
    then show ?thesis by (auto simp: tda_span_inplace_merge_def)
  next
    case False
    then have "merge_buffered cmp ?s ?m = Some (smerge cmp a b)"
      using total_cmp.merge_buffered_eq [OF assms(1) _ _ p] by simp
    then show ?thesis using False place by (simp add: tda_span_inplace_merge_def)
  qed
  then show ?thesis
    using span_merge_eq [OF assms(4)] total_cmp.smerge_sorted [OF assms(1-3)]
      total_cmp.smerge_same_order [OF assms(1,2)] by blast
qed

lemma merges_witness:
  "\<exists>r. tda_span_merge tda_cmp_i32 [0, 0, 0] [1, 3] [2] = Some r \<and>
    (\<forall>has_buf. tda_span_inplace_merge tda_cmp_i32 ([1, 3] @ [2]) (length [1 :: 32 word, 3]) has_buf = Some r) \<and>
    sorted_by tda_cmp_i32 r \<and> same_order tda_cmp_i32 r ([1, 3] @ [2])"
  by (rule merges [OF i32.total_cmp_axioms])
    (simp_all add: tda_cmp_i32_def tda_cmp_signed_def cmp_int_def)

end
