(* ===== verification/Linked.thy ===== *)
theory Linked
  imports Nodes Merge
begin

text \<open>
  \<open>ds/list.h\<close> and \<open>ds/list.c\<close>: a doubly linked list of nodes. A node is its address in the memory of
  \<open>Nodes\<close>, null is 0, and its links and its element are the three fields of that memory; the elements
  are cells, as in the other containers. Every operation takes the memory and gives it back, so two
  lists share it as they do in the program. A walk along the links is a loop that does not return if
  it runs in a circle (\<^term>\<open>None\<close>); that it does return is part of what is proved.
\<close>

record 'e nodes = store +
  nx :: "nat \<Rightarrow> nat"
  pv :: "nat \<Rightarrow> nat"
  el :: "nat \<Rightarrow> 'e option"

record lst =
  lhead :: nat
  ltail :: nat
  llen :: nat
  lelem :: layout
  lal :: al

text \<open>A value argument is a cell apart from the nodes, or the element of a node.\<close>

datatype 'e larg = Cell "'e option" | Node nat

section \<open>Reading and writing nodes\<close>

definition nx_of :: "'e nodes \<Rightarrow> nat \<Rightarrow> nat option" where
  "nx_of m p = do { chk (p \<in> places m); Some (nx m p) }"

definition pv_of :: "'e nodes \<Rightarrow> nat \<Rightarrow> nat option" where
  "pv_of m p = do { chk (p \<in> places m); Some (pv m p) }"

definition list_elem_of :: "'e nodes \<Rightarrow> nat \<Rightarrow> 'e option option" where
  "list_elem_of m p = do { chk (p \<in> places m); Some (el m p) }"

text \<open>The element as a value, for a call of the program's that looks into it.\<close>

definition elem_val :: "'e nodes \<Rightarrow> nat \<Rightarrow> 'e option" where
  "elem_val m p = do { x \<leftarrow> list_elem_of m p; x }"

definition set_nx :: "'e nodes \<Rightarrow> nat \<Rightarrow> nat \<Rightarrow> 'e nodes option" where
  "set_nx m p q = do { chk (p \<in> places m); Some (m\<lparr>nx := (nx m)(p := q)\<rparr>) }"

definition set_pv :: "'e nodes \<Rightarrow> nat \<Rightarrow> nat \<Rightarrow> 'e nodes option" where
  "set_pv m p q = do { chk (p \<in> places m); Some (m\<lparr>pv := (pv m)(p := q)\<rparr>) }"

definition set_el :: "'e nodes \<Rightarrow> nat \<Rightarrow> 'e option \<Rightarrow> 'e nodes option" where
  "set_el m p x = do { chk (p \<in> places m); Some (m\<lparr>el := (el m)(p := x)\<rparr>) }"

definition larg_cell :: "'e nodes \<Rightarrow> 'e larg \<Rightarrow> 'e option option" where
  "larg_cell m val = (case val of Cell x \<Rightarrow> Some x | Node p \<Rightarrow> list_elem_of m p)"

section \<open>Checks\<close>

definition ASSERT_LIST :: "lst \<Rightarrow> unit option" where
  "ASSERT_LIST l = do {
     chk (tda_layout_is_type (lelem l));
     chk (lal l \<noteq> 0);
     chk ((llen l > 0) = (lhead l \<noteq> 0));
     chk ((lhead l \<noteq> 0) = (ltail l \<noteq> 0))
   }"

definition EXPECT_SAME_LIST :: "lst \<Rightarrow> lst \<Rightarrow> unit option" where
  "EXPECT_SAME_LIST a b = chk (tda_layout_eq (lelem a) (lelem b))"

definition ASSERT_POS :: "'e nodes \<Rightarrow> nat \<Rightarrow> unit option" where
  "ASSERT_POS m n =
     (if n = 0 then Some ()
      else do {
        prev \<leftarrow> pv_of m n;
        (if prev \<noteq> 0 then do { q \<leftarrow> nx_of m prev; chk (q = n) } else Some ());
        next \<leftarrow> nx_of m n;
        (if next \<noteq> 0 then do { q \<leftarrow> pv_of m next; chk (q = n) } else Some ())
      })"

definition ASSERT_NODE :: "'e nodes \<Rightarrow> nat \<Rightarrow> unit option" where
  "ASSERT_NODE m n = do { chk (n \<noteq> 0); ASSERT_POS m n }"

partial_function (option) owns_loop :: "'e nodes \<Rightarrow> nat \<Rightarrow> nat \<Rightarrow> bool option" where
  "owns_loop m node cur =
     (if cur = 0 then Some False
      else if cur = node then Some True
      else do { cur \<leftarrow> nx_of m cur; owns_loop m node cur })"

definition owns_node :: "'e nodes \<Rightarrow> lst \<Rightarrow> nat \<Rightarrow> bool option" where
  "owns_node m self node = owns_loop m node (lhead self)"

section \<open>Nodes\<close>

definition ListNode_layout :: layout where
  "ListNode_layout = \<lparr>lsize = 16, lalign = 8\<rparr>"

definition list_elem_offset :: "layout \<Rightarrow> nat option" where
  "list_elem_offset elem = tda_align_up (lsize ListNode_layout) (lalign elem)"

text \<open>The inner \<^term>\<open>None\<close> is an overflow.\<close>

definition list_ckd_node_layout :: "layout \<Rightarrow> layout option option" where
  "list_ckd_node_layout elem = do {
     r \<leftarrow> tda_layout_ckd_extend ListNode_layout elem;
     case r of None \<Rightarrow> Some None | Some (out, offset) \<Rightarrow> tda_layout_ckd_pad out
   }"

definition list_node_layout :: "lst \<Rightarrow> layout option" where
  "list_node_layout self = do { r \<leftarrow> list_ckd_node_layout (lelem self); r }"

definition list_alloc_node ::
  "lst \<Rightarrow> 'e larg \<Rightarrow> 'e nodes \<Rightarrow> heap \<Rightarrow> (tda_status \<times> nat \<times> 'e nodes \<times> heap) option" where
  "list_alloc_node self val m h = do {
     block \<leftarrow> list_node_layout self;
     (node, m, h) \<leftarrow> node_new (lal self) block m h;
     if node = 0 then Some (TDA_STATUS_ERR_NO_MEM, 0, m, h)
     else do {
       m \<leftarrow> set_nx m node 0;
       m \<leftarrow> set_pv m node 0;
       x \<leftarrow> larg_cell m val;
       m \<leftarrow> set_el m node x;
       Some (TDA_STATUS_OK, node, m, h)
     }
   }"

definition list_dealloc_node :: "lst \<Rightarrow> nat \<Rightarrow> 'e nodes \<Rightarrow> heap \<Rightarrow> ('e nodes \<times> heap) option" where
  "list_dealloc_node self node m h = do {
     block \<leftarrow> list_node_layout self;
     node_free (lal self) block node m h
   }"

text \<open>\<open>len_\<close> counts nodes that are out, each a block of its own, so it cannot wrap.\<close>

definition link_chain ::
  "lst \<Rightarrow> nat \<Rightarrow> nat \<Rightarrow> nat \<Rightarrow> nat \<Rightarrow> nat \<Rightarrow> 'e nodes \<Rightarrow> (lst \<times> 'e nodes) option" where
  "link_chain self front rear cnt prev next m = do {
     m \<leftarrow> set_pv m front prev;
     m \<leftarrow> set_nx m rear next;
     (self, m) \<leftarrow> (if prev \<noteq> 0 then do { m \<leftarrow> set_nx m prev front; Some (self, m) }
       else Some (self\<lparr>lhead := front\<rparr>, m));
     (self, m) \<leftarrow> (if next \<noteq> 0 then do { m \<leftarrow> set_pv m next rear; Some (self, m) }
       else Some (self\<lparr>ltail := rear\<rparr>, m));
     Some (self\<lparr>llen := llen self + cnt\<rparr>, m)
   }"

definition link_node :: "lst \<Rightarrow> nat \<Rightarrow> nat \<Rightarrow> nat \<Rightarrow> 'e nodes \<Rightarrow> (lst \<times> 'e nodes) option" where
  "link_node self node prev next m = link_chain self node node 1 prev next m"

definition insert_between ::
  "lst \<Rightarrow> nat \<Rightarrow> nat \<Rightarrow> 'e larg \<Rightarrow> 'e nodes \<Rightarrow> heap \<Rightarrow> (tda_status \<times> (lst \<times> 'e nodes) \<times> heap) option" where
  "insert_between self prev next val m h = do {
     (st, node, m, h) \<leftarrow> list_alloc_node self val m h;
     if status_is_err st then Some (st, (self, m), h)
     else do {
       (self, m) \<leftarrow> link_node self node prev next m;
       ASSERT_LIST self;
       ASSERT_NODE m node;
       Some (TDA_STATUS_OK, (self, m), h)
     }
   }"

definition unlink_node :: "lst \<Rightarrow> nat \<Rightarrow> 'e nodes \<Rightarrow> (lst \<times> 'e nodes) option" where
  "unlink_node self node m = do {
     ASSERT_NODE m node;
     chk (llen self > 0);
     prev \<leftarrow> pv_of m node;
     next \<leftarrow> nx_of m node;
     (self, m) \<leftarrow> (if prev \<noteq> 0 then do { m \<leftarrow> set_nx m prev next; Some (self, m) }
       else Some (self\<lparr>lhead := next\<rparr>, m));
     (self, m) \<leftarrow> (if next \<noteq> 0 then do { m \<leftarrow> set_pv m next prev; Some (self, m) }
       else Some (self\<lparr>ltail := prev\<rparr>, m));
     Some (self\<lparr>llen := llen self - 1\<rparr>, m)
   }"

definition list_remove_node :: "lst \<Rightarrow> nat \<Rightarrow> 'e nodes \<Rightarrow> heap \<Rightarrow> ((lst \<times> 'e nodes) \<times> heap) option" where
  "list_remove_node self node m h = do {
     (self, m) \<leftarrow> unlink_node self node m;
     (m, h) \<leftarrow> list_dealloc_node self node m h;
     ASSERT_LIST self;
     Some ((self, m), h)
   }"

definition list_set_empty :: "lst \<Rightarrow> lst" where
  "list_set_empty self = self\<lparr>lhead := 0, ltail := 0, llen := 0\<rparr>"

partial_function (option) clear_loop :: "lst \<Rightarrow> nat \<Rightarrow> 'e nodes \<Rightarrow> heap \<Rightarrow> ('e nodes \<times> heap) option" where
  "clear_loop self node m h =
     (if node = 0 then Some (m, h)
      else do {
        next \<leftarrow> nx_of m node;
        (m, h) \<leftarrow> list_dealloc_node self node m h;
        clear_loop self next m h
      })"

definition list_clear_nodes :: "lst \<Rightarrow> 'e nodes \<Rightarrow> heap \<Rightarrow> ((lst \<times> 'e nodes) \<times> heap) option" where
  "list_clear_nodes self m h = do {
     (m, h) \<leftarrow> clear_loop self (lhead self) m h;
     Some ((list_set_empty self, m), h)
   }"

definition prev_of :: "'e nodes \<Rightarrow> lst \<Rightarrow> nat \<Rightarrow> nat option" where
  "prev_of m self at = (if at \<noteq> 0 then pv_of m at else Some (ltail self))"

fun list_skip :: "'e nodes \<Rightarrow> nat \<Rightarrow> nat \<Rightarrow> nat option" where
  "list_skip m node 0 = Some node"
| "list_skip m node (Suc n) = (if node \<noteq> 0 then do { node \<leftarrow> nx_of m node; list_skip m node n } else Some node)"

section \<open>Lifetime\<close>

definition tda_list_init :: "layout \<Rightarrow> al \<Rightarrow> lst option" where
  "tda_list_init elem al = do {
     chk (tda_layout_is_type elem);
     chk (al \<noteq> 0);
     r \<leftarrow> list_ckd_node_layout elem;
     chk (r \<noteq> None);
     Some \<lparr>lhead = 0, ltail = 0, llen = 0, lelem = elem, lal = al\<rparr>
   }"

text \<open>The inert list, \<open>(tda_List){}\<close>.\<close>

definition list_null :: lst where
  "list_null = \<lparr>lhead = 0, ltail = 0, llen = 0, lelem = \<lparr>lsize = 0, lalign = 0\<rparr>, lal = 0\<rparr>"

definition tda_list_deinit :: "lst \<Rightarrow> 'e nodes \<Rightarrow> heap \<Rightarrow> ((lst \<times> 'e nodes) \<times> heap) option" where
  "tda_list_deinit self m h =
     (if lal self = 0 then do { chk (lhead self = 0); Some ((self, m), h) }
      else do {
        ASSERT_LIST self;
        ((self, m), h) \<leftarrow> list_clear_nodes self m h;
        Some ((list_null, m), h)
      })"

definition tda_list_push_front ::
  "lst \<Rightarrow> 'e larg \<Rightarrow> 'e nodes \<Rightarrow> heap \<Rightarrow> (tda_status \<times> (lst \<times> 'e nodes) \<times> heap) option" where
  "tda_list_push_front self val m h = do { ASSERT_LIST self; insert_between self 0 (lhead self) val m h }"

definition tda_list_push_back ::
  "lst \<Rightarrow> 'e larg \<Rightarrow> 'e nodes \<Rightarrow> heap \<Rightarrow> (tda_status \<times> (lst \<times> 'e nodes) \<times> heap) option" where
  "tda_list_push_back self val m h = do { ASSERT_LIST self; insert_between self (ltail self) 0 val m h }"

fun list_from_data_loop ::
  "lst \<Rightarrow> 'e slots \<Rightarrow> 'e nodes \<Rightarrow> heap \<Rightarrow> (tda_status \<times> (lst \<times> 'e nodes) \<times> heap) option" where
  "list_from_data_loop obj [] m h = Some (TDA_STATUS_OK, (obj, m), h)"
| "list_from_data_loop obj (x # data) m h = do {
     (st, (obj, m), h) \<leftarrow> tda_list_push_back obj (Cell x) m h;
     if status_is_err st then do {
       ((obj, m), h) \<leftarrow> tda_list_deinit obj m h;
       Some (st, (obj, m), h)
     }
     else list_from_data_loop obj data m h
   }"

definition tda_list_from_data ::
  "'e slots \<Rightarrow> layout \<Rightarrow> al \<Rightarrow> 'e nodes \<Rightarrow> heap \<Rightarrow> (tda_status \<times> (lst \<times> 'e nodes) \<times> heap) option" where
  "tda_list_from_data data elem al m h = do {
     chk (tda_layout_is_type elem);
     chk (al \<noteq> 0);
     obj \<leftarrow> tda_list_init elem al;
     list_from_data_loop obj data m h
   }"

definition tda_list_from_span ::
  "'e slots \<Rightarrow> layout \<Rightarrow> al \<Rightarrow> 'e nodes \<Rightarrow> heap \<Rightarrow> (tda_status \<times> (lst \<times> 'e nodes) \<times> heap) option" where
  "tda_list_from_span s elem al m h = do {
     chk (tda_layout_is_type elem);
     chk (al \<noteq> 0);
     tda_list_from_data s elem al m h
   }"

section \<open>Moving nodes between lists\<close>

definition splice_nodes :: "lst \<Rightarrow> lst \<Rightarrow> bool \<Rightarrow> 'e nodes \<Rightarrow> (lst \<times> lst \<times> 'e nodes) option" where
  "splice_nodes self src front m = do {
     chk (lal self = lal src);
     chk (tda_layout_eq (lelem self) (lelem src));
     chk (llen src > 0);
     let prev = (if front then 0 else ltail self);
     let next = (if front then lhead self else 0);
     (self, m) \<leftarrow> link_chain self (lhead src) (ltail src) (llen src) prev next m;
     let src = list_set_empty src;
     ASSERT_LIST self;
     ASSERT_LIST src;
     Some (self, src, m)
   }"

partial_function (option) push_copies ::
  "lst \<Rightarrow> nat \<Rightarrow> 'e nodes \<Rightarrow> heap \<Rightarrow> (tda_status \<times> (lst \<times> 'e nodes) \<times> heap) option" where
  "push_copies dst node m h =
     (if node = 0 then Some (TDA_STATUS_OK, (dst, m), h)
      else do {
        (st, (dst, m), h) \<leftarrow> tda_list_push_back dst (Node node) m h;
        if status_is_err st then do {
          ((dst, m), h) \<leftarrow> list_clear_nodes dst m h;
          Some (st, (dst, m), h)
        }
        else do { node \<leftarrow> nx_of m node; push_copies dst node m h }
      })"

text \<open>On failure \<open>out\<close> is not written; the model then gives back the list without nodes.\<close>

definition tda_list_copy_with ::
  "lst \<Rightarrow> al \<Rightarrow> 'e nodes \<Rightarrow> heap \<Rightarrow> (tda_status \<times> (lst \<times> 'e nodes) \<times> heap) option" where
  "tda_list_copy_with self al m h = do {
     ASSERT_LIST self;
     chk (al \<noteq> 0);
     obj \<leftarrow> tda_list_init (lelem self) al;
     push_copies obj (lhead self) m h
   }"

definition tda_list_copy :: "lst \<Rightarrow> 'e nodes \<Rightarrow> heap \<Rightarrow> (tda_status \<times> (lst \<times> 'e nodes) \<times> heap) option" where
  "tda_list_copy self m h = do { ASSERT_LIST self; tda_list_copy_with self (lal self) m h }"

text \<open>\<^const>\<open>None\<close> is the source itself; otherwise a copy of it.\<close>

definition nodes_for ::
  "lst \<Rightarrow> lst \<Rightarrow> 'e nodes \<Rightarrow> heap \<Rightarrow> (tda_status \<times> lst option \<times> 'e nodes \<times> heap) option" where
  "nodes_for self src m h =
     (if lal self = lal src then Some (TDA_STATUS_OK, None, m, h)
      else do {
        (st, (spare, m), h) \<leftarrow> tda_list_copy_with src (lal self) m h;
        if status_is_err st then Some (st, None, m, h)
        else Some (TDA_STATUS_OK, Some spare, m, h)
      })"

text \<open>\<open>from\<close> as it is after its nodes were taken.\<close>

definition release_source :: "lst \<Rightarrow> lst option \<Rightarrow> lst \<Rightarrow> 'e nodes \<Rightarrow> heap \<Rightarrow> (lst \<times> 'e nodes \<times> heap) option" where
  "release_source src spare from m h =
     (if spare \<noteq> None then do {
        ((_, m), h) \<leftarrow> tda_list_deinit from m h;
        ((src, m), h) \<leftarrow> list_clear_nodes src m h;
        Some (src, m, h)
      }
      else Some (from, m, h))"

definition splice_impl ::
  "lst \<Rightarrow> lst \<Rightarrow> bool \<Rightarrow> 'e nodes \<Rightarrow> heap \<Rightarrow> (tda_status \<times> lst \<times> lst \<times> 'e nodes \<times> heap) option" where
  "splice_impl self src front m h =
     (if llen src = 0 then Some (TDA_STATUS_OK, self, src, m, h)
      else do {
        (st, spare, m, h) \<leftarrow> nodes_for self src m h;
        if status_is_err st then Some (st, self, src, m, h)
        else do {
          (self, from, m) \<leftarrow> splice_nodes self (case spare of None \<Rightarrow> src | Some s \<Rightarrow> s) front m;
          (src, m, h) \<leftarrow> release_source src spare from m h;
          ASSERT_LIST self;
          ASSERT_LIST src;
          Some (TDA_STATUS_OK, self, src, m, h)
        }
      })"

definition tda_list_splice_front ::
  "bool \<Rightarrow> lst \<Rightarrow> lst \<Rightarrow> 'e nodes \<Rightarrow> heap \<Rightarrow> (tda_status \<times> lst \<times> lst \<times> 'e nodes \<times> heap) option" where
  "tda_list_splice_front same self src m h = do {
     ASSERT_LIST self;
     ASSERT_LIST src;
     EXPECT_SAME_LIST self src;
     chk (\<not> same);
     splice_impl self src True m h
   }"

definition tda_list_splice_back ::
  "bool \<Rightarrow> lst \<Rightarrow> lst \<Rightarrow> 'e nodes \<Rightarrow> heap \<Rightarrow> (tda_status \<times> lst \<times> lst \<times> 'e nodes \<times> heap) option" where
  "tda_list_splice_back same self src m h = do {
     ASSERT_LIST self;
     ASSERT_LIST src;
     EXPECT_SAME_LIST self src;
     chk (\<not> same);
     splice_impl self src False m h
   }"

text \<open>\<open>same\<close> says that \<open>self\<close> and \<open>src\<close> are one list, both results then that list.\<close>

definition tda_list_splice_node ::
  "bool \<Rightarrow> lst \<Rightarrow> nat \<Rightarrow> lst \<Rightarrow> nat \<Rightarrow> 'e nodes \<Rightarrow> heap \<Rightarrow> (tda_status \<times> lst \<times> lst \<times> 'e nodes \<times> heap) option" where
  "tda_list_splice_node same self at src node m h = do {
     ASSERT_LIST self;
     ASSERT_LIST src;
     ASSERT_POS m at;
     ASSERT_NODE m node;
     EXPECT_SAME_LIST self src;
     chk (at \<noteq> node);
     (if at = 0 then Some () else do { b \<leftarrow> owns_node m self at; chk b });
     b \<leftarrow> owns_node m src node;
     chk b;
     if lal self \<noteq> lal src then do {
       prev \<leftarrow> prev_of m self at;
       (st, (self, m), h) \<leftarrow> insert_between self prev at (Node node) m h;
       if status_is_err st then Some (st, self, src, m, h)
       else do {
         ((src, m), h) \<leftarrow> list_remove_node src node m h;
         ASSERT_LIST self;
         ASSERT_LIST src;
         Some (TDA_STATUS_OK, self, src, m, h)
       }
     }
     else do {
       (src, m) \<leftarrow> unlink_node src node m;
       let self = (if same then src else self);
       prev \<leftarrow> prev_of m self at;
       (self, m) \<leftarrow> link_node self node prev at m;
       let src = (if same then self else src);
       ASSERT_LIST self;
       ASSERT_LIST src;
       ASSERT_NODE m node;
       Some (TDA_STATUS_OK, self, src, m, h)
     }
   }"

section \<open>Assignment\<close>

partial_function (option) copy_elems_loop :: "nat \<Rightarrow> nat \<Rightarrow> 'e nodes \<Rightarrow> 'e nodes option" where
  "copy_elems_loop to from m =
     (if to \<noteq> 0 \<and> from \<noteq> 0 then do {
        x \<leftarrow> list_elem_of m from;
        m \<leftarrow> set_el m to x;
        to \<leftarrow> nx_of m to;
        from \<leftarrow> nx_of m from;
        copy_elems_loop to from m
      }
      else Some m)"

partial_function (option) drop_tail_loop ::
  "lst \<Rightarrow> nat \<Rightarrow> 'e nodes \<Rightarrow> heap \<Rightarrow> ((lst \<times> 'e nodes) \<times> heap) option" where
  "drop_tail_loop self len m h =
     (if llen self > len then do {
        ((self, m), h) \<leftarrow> list_remove_node self (ltail self) m h;
        drop_tail_loop self len m h
      }
      else Some ((self, m), h))"

definition tda_list_copy_assign ::
  "bool \<Rightarrow> lst \<Rightarrow> lst \<Rightarrow> 'e nodes \<Rightarrow> heap \<Rightarrow> (tda_status \<times> (lst \<times> 'e nodes) \<times> heap) option" where
  "tda_list_copy_assign same self other m h = do {
     ASSERT_LIST self;
     ASSERT_LIST other;
     EXPECT_SAME_LIST self other;
     if same then Some (TDA_STATUS_OK, (self, m), h)
     else do {
       spare \<leftarrow> tda_list_init (lelem self) (lal self);
       from \<leftarrow> list_skip m (lhead other) (llen self);
       (st, (spare, m), h) \<leftarrow> push_copies spare from m h;
       if status_is_err st then Some (st, (self, m), h)
       else do {
         m \<leftarrow> copy_elems_loop (lhead self) (lhead other) m;
         ((self, m), h) \<leftarrow> drop_tail_loop self (llen other) m h;
         (self, m) \<leftarrow> (if llen spare > 0 then do {
             (self, spare, m) \<leftarrow> splice_nodes self spare False m;
             Some (self, m)
           }
           else Some (self, m));
         ASSERT_LIST self;
         Some (TDA_STATUS_OK, (self, m), h)
       }
     }
   }"

definition tda_list_move_assign ::
  "bool \<Rightarrow> lst \<Rightarrow> lst \<Rightarrow> 'e nodes \<Rightarrow> heap \<Rightarrow> (lst \<times> lst \<times> 'e nodes \<times> heap) option" where
  "tda_list_move_assign same self other m h = do {
     ASSERT_LIST other;
     (if lal self \<noteq> 0 then do { ASSERT_LIST self; EXPECT_SAME_LIST self other } else Some ());
     if same then Some (self, other, m, h)
     else do {
       ((_, m), h) \<leftarrow> tda_list_deinit self m h;
       let self = other;
       other \<leftarrow> tda_list_init (lelem self) (lal self);
       ASSERT_LIST self;
       ASSERT_LIST other;
       Some (self, other, m, h)
     }
   }"

definition tda_list_swap :: "bool \<Rightarrow> lst \<Rightarrow> lst \<Rightarrow> (lst \<times> lst) option" where
  "tda_list_swap same self other = do {
     ASSERT_LIST self;
     ASSERT_LIST other;
     EXPECT_SAME_LIST self other;
     if same then Some (self, other)
     else do {
       let (self, other) = (other, self);
       ASSERT_LIST self;
       ASSERT_LIST other;
       Some (self, other)
     }
   }"

section \<open>Compare and access\<close>

partial_function (option) list_eq_loop :: "('e \<Rightarrow> 'e \<Rightarrow> bool) \<Rightarrow> nat \<Rightarrow> nat \<Rightarrow> 'e nodes \<Rightarrow> bool option" where
  "list_eq_loop eq a b m =
     (if a = 0 then Some True
      else do {
        lhs \<leftarrow> elem_val m a;
        rhs \<leftarrow> elem_val m b;
        if \<not> eq lhs rhs then Some False
        else do { a \<leftarrow> nx_of m a; b \<leftarrow> nx_of m b; list_eq_loop eq a b m }
      })"

definition list_eq_impl :: "bool \<Rightarrow> lst \<Rightarrow> lst \<Rightarrow> ('e \<Rightarrow> 'e \<Rightarrow> bool) \<Rightarrow> 'e nodes \<Rightarrow> bool option" where
  "list_eq_impl same a b eq m =
     (if same then Some True
      else if llen a \<noteq> llen b then Some False
      else list_eq_loop eq (lhead a) (lhead b) m)"

text \<open>The elements as their bytes for \<open>tda_list_eq\<close>.\<close>

definition tda_list_eq :: "bool \<Rightarrow> lst \<Rightarrow> lst \<Rightarrow> byte list nodes \<Rightarrow> bool option" where
  "tda_list_eq same a b m = do {
     ASSERT_LIST a;
     ASSERT_LIST b;
     EXPECT_SAME_LIST a b;
     list_eq_impl same a b (=) m
   }"

definition tda_list_eq_by :: "bool \<Rightarrow> ('e \<Rightarrow> 'e \<Rightarrow> bool) \<Rightarrow> lst \<Rightarrow> lst \<Rightarrow> 'e nodes \<Rightarrow> bool option" where
  "tda_list_eq_by same eq a b m = do {
     ASSERT_LIST a;
     ASSERT_LIST b;
     EXPECT_SAME_LIST a b;
     list_eq_impl same a b eq m
   }"

definition tda_list_len :: "lst \<Rightarrow> nat option" where
  "tda_list_len self = do { chk (lal self \<noteq> 0); Some (llen self) }"

definition tda_list_elem_layout :: "lst \<Rightarrow> layout option" where
  "tda_list_elem_layout self = do { chk (lal self \<noteq> 0); Some (lelem self) }"

definition tda_list_al :: "lst \<Rightarrow> al option" where
  "tda_list_al self = do { chk (lal self \<noteq> 0); Some (lal self) }"

definition tda_list_node_layout :: "layout \<Rightarrow> layout option" where
  "tda_list_node_layout elem = do {
     chk (tda_layout_is_type elem);
     r \<leftarrow> list_ckd_node_layout elem;
     r
   }"

text \<open>A pointer to an element is its node.\<close>

definition tda_list_front :: "lst \<Rightarrow> nat option" where
  "tda_list_front self = do { ASSERT_LIST self; chk (llen self > 0); Some (lhead self) }"

definition tda_list_back :: "lst \<Rightarrow> nat option" where
  "tda_list_back self = do { ASSERT_LIST self; chk (llen self > 0); Some (ltail self) }"

definition tda_list_front_node :: "lst \<Rightarrow> nat option" where
  "tda_list_front_node self = do { chk (lal self \<noteq> 0); Some (lhead self) }"

definition tda_list_back_node :: "lst \<Rightarrow> nat option" where
  "tda_list_back_node self = do { chk (lal self \<noteq> 0); Some (ltail self) }"

definition tda_list_node_next :: "'e nodes \<Rightarrow> nat \<Rightarrow> nat option" where
  "tda_list_node_next m node = do { ASSERT_NODE m node; nx_of m node }"

definition tda_list_node_prev :: "'e nodes \<Rightarrow> nat \<Rightarrow> nat option" where
  "tda_list_node_prev m node = do { ASSERT_NODE m node; pv_of m node }"

definition tda_list_node_elem :: "lst \<Rightarrow> 'e nodes \<Rightarrow> nat \<Rightarrow> 'e option option" where
  "tda_list_node_elem self m node = do { ASSERT_LIST self; ASSERT_NODE m node; list_elem_of m node }"

partial_function (option) find_node_loop :: "('e \<Rightarrow> bool) \<Rightarrow> nat \<Rightarrow> 'e nodes \<Rightarrow> nat option" where
  "find_node_loop test node m =
     (if node = 0 then Some 0
      else do {
        x \<leftarrow> elem_val m node;
        if test x then Some node
        else do { node \<leftarrow> nx_of m node; find_node_loop test node m }
      })"

definition list_find_node :: "lst \<Rightarrow> 'k \<Rightarrow> ('e \<Rightarrow> 'k \<Rightarrow> bool) \<Rightarrow> 'e nodes \<Rightarrow> nat option" where
  "list_find_node self key eq m = find_node_loop (\<lambda>e. eq e key) (lhead self) m"

definition tda_list_find :: "lst \<Rightarrow> 'k \<Rightarrow> ('e \<Rightarrow> 'k \<Rightarrow> bool) \<Rightarrow> 'e nodes \<Rightarrow> nat option" where
  "tda_list_find self key eq m = do { ASSERT_LIST self; list_find_node self key eq m }"

section \<open>Modifying\<close>

definition tda_list_extend ::
  "lst \<Rightarrow> 'e slots \<Rightarrow> layout \<Rightarrow> 'e nodes \<Rightarrow> heap \<Rightarrow> (tda_status \<times> (lst \<times> 'e nodes) \<times> heap) option" where
  "tda_list_extend self src elem m h = do {
     ASSERT_LIST self;
     chk (tda_layout_is_type elem);
     chk (tda_layout_eq (lelem self) elem);
     if length src = 0 then Some (TDA_STATUS_OK, (self, m), h)
     else do {
       (st, (chain, m), h) \<leftarrow> tda_list_from_span src elem (lal self) m h;
       if status_is_err st then Some (st, (self, m), h)
       else do {
         (self, chain, m) \<leftarrow> splice_nodes self chain False m;
         ASSERT_LIST self;
         Some (TDA_STATUS_OK, (self, m), h)
       }
     }
   }"

definition tda_list_pop_front :: "lst \<Rightarrow> 'e nodes \<Rightarrow> heap \<Rightarrow> ((lst \<times> 'e nodes) \<times> heap) option" where
  "tda_list_pop_front self m h = do {
     ASSERT_LIST self;
     chk (llen self > 0);
     list_remove_node self (lhead self) m h
   }"

definition tda_list_pop_back :: "lst \<Rightarrow> 'e nodes \<Rightarrow> heap \<Rightarrow> ((lst \<times> 'e nodes) \<times> heap) option" where
  "tda_list_pop_back self m h = do {
     ASSERT_LIST self;
     chk (llen self > 0);
     list_remove_node self (ltail self) m h
   }"

text \<open>\<open>out\<close> apart from the nodes.\<close>

definition tda_list_pop_front_to :: "lst \<Rightarrow> 'e nodes \<Rightarrow> heap \<Rightarrow> ('e option \<times> (lst \<times> 'e nodes) \<times> heap) option" where
  "tda_list_pop_front_to self m h = do {
     ASSERT_LIST self;
     chk (llen self > 0);
     out \<leftarrow> list_elem_of m (lhead self);
     ((self, m), h) \<leftarrow> list_remove_node self (lhead self) m h;
     Some (out, (self, m), h)
   }"

definition tda_list_pop_back_to :: "lst \<Rightarrow> 'e nodes \<Rightarrow> heap \<Rightarrow> ('e option \<times> (lst \<times> 'e nodes) \<times> heap) option" where
  "tda_list_pop_back_to self m h = do {
     ASSERT_LIST self;
     chk (llen self > 0);
     out \<leftarrow> list_elem_of m (ltail self);
     ((self, m), h) \<leftarrow> list_remove_node self (ltail self) m h;
     Some (out, (self, m), h)
   }"

definition tda_list_insert_before ::
  "lst \<Rightarrow> nat \<Rightarrow> 'e larg \<Rightarrow> 'e nodes \<Rightarrow> heap \<Rightarrow> (tda_status \<times> (lst \<times> 'e nodes) \<times> heap) option" where
  "tda_list_insert_before self at val m h = do {
     ASSERT_LIST self;
     ASSERT_NODE m at;
     b \<leftarrow> owns_node m self at;
     chk b;
     prev \<leftarrow> pv_of m at;
     insert_between self prev at val m h
   }"

definition tda_list_insert_after ::
  "lst \<Rightarrow> nat \<Rightarrow> 'e larg \<Rightarrow> 'e nodes \<Rightarrow> heap \<Rightarrow> (tda_status \<times> (lst \<times> 'e nodes) \<times> heap) option" where
  "tda_list_insert_after self at val m h = do {
     ASSERT_LIST self;
     ASSERT_NODE m at;
     b \<leftarrow> owns_node m self at;
     chk b;
     next \<leftarrow> nx_of m at;
     insert_between self at next val m h
   }"

definition tda_list_remove_node :: "lst \<Rightarrow> nat \<Rightarrow> 'e nodes \<Rightarrow> heap \<Rightarrow> ((lst \<times> 'e nodes) \<times> heap) option" where
  "tda_list_remove_node self node m h = do {
     ASSERT_LIST self;
     ASSERT_NODE m node;
     b \<leftarrow> owns_node m self node;
     chk b;
     list_remove_node self node m h
   }"

partial_function (option) list_retain_loop ::
  "('e \<Rightarrow> bool) \<Rightarrow> lst \<Rightarrow> nat \<Rightarrow> 'e nodes \<Rightarrow> heap \<Rightarrow> ((lst \<times> 'e nodes) \<times> heap) option" where
  "list_retain_loop pred self node m h =
     (if node = 0 then Some ((self, m), h)
      else do {
        next \<leftarrow> nx_of m node;
        x \<leftarrow> elem_val m node;
        ((self, m), h) \<leftarrow> (if \<not> pred x then list_remove_node self node m h else Some ((self, m), h));
        list_retain_loop pred self next m h
      })"

definition tda_list_retain :: "('e \<Rightarrow> bool) \<Rightarrow> lst \<Rightarrow> 'e nodes \<Rightarrow> heap \<Rightarrow> ((lst \<times> 'e nodes) \<times> heap) option" where
  "tda_list_retain pred self m h = do {
     ASSERT_LIST self;
     ((self, m), h) \<leftarrow> list_retain_loop pred self (lhead self) m h;
     ASSERT_LIST self;
     Some ((self, m), h)
   }"

definition tda_list_clear :: "lst \<Rightarrow> 'e nodes \<Rightarrow> heap \<Rightarrow> ((lst \<times> 'e nodes) \<times> heap) option" where
  "tda_list_clear self m h = do {
     ASSERT_LIST self;
     ((self, m), h) \<leftarrow> list_clear_nodes self m h;
     ASSERT_LIST self;
     Some ((self, m), h)
   }"

section \<open>Relinking\<close>

partial_function (option) reverse_nodes_loop :: "nat \<Rightarrow> 'e nodes \<Rightarrow> 'e nodes option" where
  "reverse_nodes_loop cur m =
     (if cur = 0 then Some m
      else do {
        next \<leftarrow> nx_of m cur;
        prev \<leftarrow> pv_of m cur;
        m \<leftarrow> set_nx m cur prev;
        m \<leftarrow> set_pv m cur next;
        reverse_nodes_loop next m
      })"

definition tda_list_reverse :: "lst \<Rightarrow> 'e nodes \<Rightarrow> (lst \<times> 'e nodes) option" where
  "tda_list_reverse self m = do {
     ASSERT_LIST self;
     m \<leftarrow> reverse_nodes_loop (lhead self) m;
     let self = self\<lparr>lhead := ltail self, ltail := lhead self\<rparr>;
     ASSERT_LIST self;
     Some (self, m)
   }"

text \<open>
  The pointer \<open>tail\<close> is to the local \<open>head\<close>, here 0, or to the link of a node. Storing through it
  gives the new head and memory.
\<close>

definition store_tail :: "nat \<Rightarrow> nat \<Rightarrow> nat \<Rightarrow> 'e nodes \<Rightarrow> (nat \<times> 'e nodes) option" where
  "store_tail head tail p m =
     (if tail = 0 then Some (p, m) else do { m \<leftarrow> set_nx m tail p; Some (head, m) })"

partial_function (option) merge_chains_loop ::
  "('e \<Rightarrow> 'e \<Rightarrow> int) \<Rightarrow> nat \<Rightarrow> nat \<Rightarrow> nat \<Rightarrow> nat \<Rightarrow> 'e nodes \<Rightarrow> (nat \<times> 'e nodes) option" where
  "merge_chains_loop cmp a b head tail m =
     (if a \<noteq> 0 \<and> b \<noteq> 0 then do {
        x \<leftarrow> elem_val m a;
        y \<leftarrow> elem_val m b;
        if \<not> tda_right_goes_first cmp x y then do {
          (head, m) \<leftarrow> store_tail head tail a m;
          a' \<leftarrow> nx_of m a;
          merge_chains_loop cmp a' b head a m
        }
        else do {
          (head, m) \<leftarrow> store_tail head tail b m;
          b' \<leftarrow> nx_of m b;
          merge_chains_loop cmp a b' head b m
        }
      }
      else store_tail head tail (if a \<noteq> 0 then a else b) m)"

definition merge_chains :: "('e \<Rightarrow> 'e \<Rightarrow> int) \<Rightarrow> nat \<Rightarrow> nat \<Rightarrow> 'e nodes \<Rightarrow> (nat \<times> 'e nodes) option" where
  "merge_chains cmp a b m = merge_chains_loop cmp a b 0 0 m"

function sort_chain :: "('e \<Rightarrow> 'e \<Rightarrow> int) \<Rightarrow> nat \<Rightarrow> nat \<Rightarrow> 'e nodes \<Rightarrow> (nat \<times> 'e nodes) option" where
  "sort_chain cmp head len m =
     (if len < 2 then do { chk (head \<noteq> 0); Some (head, m) }
      else do {
        chk (head \<noteq> 0);
        left_tail \<leftarrow> list_skip m head (len div 2 - 1);
        right \<leftarrow> nx_of m left_tail;
        m \<leftarrow> set_nx m left_tail 0;
        (left_sorted, m) \<leftarrow> sort_chain cmp head (len div 2) m;
        (right_sorted, m) \<leftarrow> sort_chain cmp right (len - len div 2) m;
        merge_chains cmp left_sorted right_sorted m
      })"
  by pat_completeness auto
termination by (relation "measure (\<lambda>(cmp, head, len, m). len)") auto

declare sort_chain.simps [simp del]

text \<open>The new tail and the memory.\<close>

partial_function (option) relink_prev_loop :: "nat \<Rightarrow> nat \<Rightarrow> 'e nodes \<Rightarrow> (nat \<times> 'e nodes) option" where
  "relink_prev_loop prev node m =
     (if node = 0 then Some (prev, m)
      else do {
        m \<leftarrow> set_pv m node prev;
        next \<leftarrow> nx_of m node;
        relink_prev_loop node next m
      })"

definition relink_prev :: "lst \<Rightarrow> 'e nodes \<Rightarrow> (lst \<times> 'e nodes) option" where
  "relink_prev self m = do {
     (prev, m) \<leftarrow> relink_prev_loop 0 (lhead self) m;
     Some (self\<lparr>ltail := prev\<rparr>, m)
   }"

definition tda_list_sort :: "('e \<Rightarrow> 'e \<Rightarrow> int) \<Rightarrow> lst \<Rightarrow> 'e nodes \<Rightarrow> (lst \<times> 'e nodes) option" where
  "tda_list_sort cmp self m = do {
     ASSERT_LIST self;
     if llen self < 2 then Some (self, m)
     else do {
       (head, m) \<leftarrow> sort_chain cmp (lhead self) (llen self) m;
       (self, m) \<leftarrow> relink_prev (self\<lparr>lhead := head\<rparr>) m;
       ASSERT_LIST self;
       Some (self, m)
     }
   }"

definition merge_into :: "('e \<Rightarrow> 'e \<Rightarrow> int) \<Rightarrow> lst \<Rightarrow> lst \<Rightarrow> 'e nodes \<Rightarrow> (lst \<times> lst \<times> 'e nodes) option" where
  "merge_into cmp self src m = do {
     chk (lal self = lal src);
     chk (tda_layout_eq (lelem self) (lelem src));
     chk (llen src > 0);
     (head, m) \<leftarrow> merge_chains cmp (lhead self) (lhead src) m;
     let self = self\<lparr>lhead := head, llen := llen self + llen src\<rparr>;
     (self, m) \<leftarrow> relink_prev self m;
     let src = list_set_empty src;
     ASSERT_LIST self;
     ASSERT_LIST src;
     Some (self, src, m)
   }"

definition tda_list_merge ::
  "('e \<Rightarrow> 'e \<Rightarrow> int) \<Rightarrow> bool \<Rightarrow> lst \<Rightarrow> lst \<Rightarrow> 'e nodes \<Rightarrow> heap \<Rightarrow> (tda_status \<times> lst \<times> lst \<times> 'e nodes \<times> heap) option" where
  "tda_list_merge cmp same self src m h = do {
     ASSERT_LIST self;
     ASSERT_LIST src;
     EXPECT_SAME_LIST self src;
     chk (\<not> same);
     if llen src = 0 then Some (TDA_STATUS_OK, self, src, m, h)
     else do {
       (st, spare, m, h) \<leftarrow> nodes_for self src m h;
       if status_is_err st then Some (st, self, src, m, h)
       else do {
         (self, from, m) \<leftarrow> merge_into cmp self (case spare of None \<Rightarrow> src | Some s \<Rightarrow> s) m;
         (src, m, h) \<leftarrow> release_source src spare from m h;
         ASSERT_LIST self;
         ASSERT_LIST src;
         Some (TDA_STATUS_OK, self, src, m, h)
       }
     }
   }"

section \<open>Spans\<close>

partial_function (option) copy_out_loop :: "nat \<Rightarrow> nat \<Rightarrow> 'e slots \<Rightarrow> 'e nodes \<Rightarrow> 'e slots option" where
  "copy_out_loop i node dst m =
     (if node = 0 then Some dst
      else do {
        x \<leftarrow> list_elem_of m node;
        dst \<leftarrow> slots_put dst i [x];
        node \<leftarrow> nx_of m node;
        copy_out_loop (i + 1) node dst m
      })"

definition tda_list_copy_to_span :: "lst \<Rightarrow> 'e slots \<Rightarrow> layout \<Rightarrow> 'e nodes \<Rightarrow> 'e slots option" where
  "tda_list_copy_to_span self dst elem m = do {
     ASSERT_LIST self;
     chk (tda_layout_is_type elem);
     chk (tda_layout_eq (lelem self) elem);
     chk (length dst = llen self);
     copy_out_loop 0 (lhead self) dst m
   }"

partial_function (option) copy_in_loop :: "nat \<Rightarrow> nat \<Rightarrow> 'e slots \<Rightarrow> 'e nodes \<Rightarrow> 'e nodes option" where
  "copy_in_loop i node src m =
     (if node = 0 then Some m
      else do {
        x \<leftarrow> slot_get src i;
        m \<leftarrow> set_el m node x;
        node \<leftarrow> nx_of m node;
        copy_in_loop (i + 1) node src m
      })"

definition tda_list_copy_from_span :: "lst \<Rightarrow> 'e slots \<Rightarrow> layout \<Rightarrow> 'e nodes \<Rightarrow> (lst \<times> 'e nodes) option" where
  "tda_list_copy_from_span self src elem m = do {
     ASSERT_LIST self;
     chk (tda_layout_is_type elem);
     chk (tda_layout_eq (lelem self) elem);
     chk (length src = llen self);
     m \<leftarrow> copy_in_loop 0 (lhead self) src m;
     Some (self, m)
   }"

end
