(* ===== verification/LinkedLaws.thy ===== *)
theory LinkedLaws
  imports Linked
begin

text \<open>
  What the operations of \<open>Linked\<close> do. A list is related to the nodes it has, in order; each step on
  links is shown on one field of the nodes, and both fields at once by reading the second backwards.
\<close>

section \<open>What a list is\<close>

definition node_lay :: "layout \<Rightarrow> layout" where
  "node_lay elem = (case list_ckd_node_layout elem of Some (Some block) \<Rightarrow> block | _ \<Rightarrow> ListNode_layout)"

definition list_kind_ok :: "layout \<Rightarrow> al \<Rightarrow> bool" where
  "list_kind_ok elem al \<longleftrightarrow> tda_layout_is_type elem \<and> al \<noteq> 0 \<and> list_ckd_node_layout elem = Some (Some (node_lay elem))"

text \<open>The list \<open>l\<close> has the nodes \<open>ps\<close>, in order.\<close>

definition list_at :: "'e nodes \<Rightarrow> lst \<Rightarrow> nat list \<Rightarrow> bool" where
  "list_at m l ps \<longleftrightarrow> links (nx m) ps 0 \<and> links (pv m) (rev ps) 0 \<and> distinct ps \<and> set ps \<subseteq> places m \<and>
     lhead l = hd (ps @ [0]) \<and> ltail l = hd (rev ps @ [0]) \<and> llen l = length ps \<and> list_kind_ok (lelem l) (lal l)"

text \<open>The nodes outside \<open>S\<close>, with their fields.\<close>

definition others :: "'e nodes \<Rightarrow> nat set \<Rightarrow> nat \<rightharpoonup> nat \<times> nat \<times> 'e option" where
  "others m S = (\<lambda>p. if p \<in> places m - S then Some (nx m p, pv m p, el m p) else None)"

definition list_nodes :: "lst \<times> 'e nodes \<Rightarrow> nat list" where
  "list_nodes c = path (nx (snd c)) (llen (fst c)) (lhead (fst c))"

definition list_ok :: "lst \<times> 'e nodes \<Rightarrow> bool" where
  "list_ok c \<longleftrightarrow> store_ok (snd c) \<and> list_at (snd c) (fst c) (list_nodes c)"

definition list_cells :: "lst \<times> 'e nodes \<Rightarrow> 'e slots" where
  "list_cells c = map (el (snd c)) (list_nodes c)"

definition list_rest :: "lst \<times> 'e nodes \<Rightarrow> nat \<rightharpoonup> nat \<times> nat \<times> 'e option" where
  "list_rest c = others (snd c) (set (list_nodes c))"

text \<open>What a list stands for: its elements, and the nodes that are not its own, which no call touches.\<close>

definition list_view ::
  "lst \<times> 'e nodes \<Rightarrow> (layout, 'e slots \<times> (nat \<rightharpoonup> nat \<times> nat \<times> 'e option)) holder" where
  "list_view c = \<lparr>hgood = list_ok c, hkind = lelem (fst c), hal = lal (fst c),
     hblocks = replicate_mset (llen (fst c)) (node_lay (lelem (fst c))),
     hval = (list_cells c, list_rest c)\<rparr>"

lemma list_at_nodes: "list_at m l ps \<Longrightarrow> list_nodes (l, m) = ps"
  using links_path [of "nx m" ps 0] by (simp add: list_at_def list_nodes_def)

lemma list_at_view:
  assumes "list_at m l ps" "store_ok m"
  shows "list_view (l, m) = \<lparr>hgood = True, hkind = lelem l, hal = lal l,
    hblocks = replicate_mset (length ps) (node_lay (lelem l)), hval = (map (el m) ps, others m (set ps))\<rparr>"
  using assms list_at_nodes [OF assms(1)]
  by (simp add: list_view_def list_ok_def list_cells_def list_rest_def) (simp add: list_at_def)

lemma list_okE:
  assumes "list_ok (l, m)"
  obtains ps where "list_at m l ps" "store_ok m" "list_nodes (l, m) = ps" "list_cells (l, m) = map (el m) ps" "llen l = length ps"
  using assms that [of "list_nodes (l, m)"] by (simp add: list_ok_def list_cells_def list_at_def)

lemma ckd_node_size:
  assumes "tda_layout_is_type elem" "list_ckd_node_layout elem = Some (Some block)"
  shows "node_size_ok block"
proof -
  have "0 < lsize elem" "tda_layout_is_align (lalign elem)" using assms(1) by (simp_all add: tda_layout_is_type_def)
  then show ?thesis
    using assms(2)
    by (auto simp: list_ckd_node_layout_def tda_layout_ckd_extend_def tda_layout_ckd_pad_def ckd_add_def Let_def
        bind_Some_iff node_size_ok_def split: option.splits if_splits)
qed

lemma list_kind_layout:
  assumes "list_kind_ok elem al"
  shows "node_size_ok (node_lay elem)" "lelem l = elem \<Longrightarrow> list_node_layout l = Some (node_lay elem)"
    "tda_list_init elem al = Some \<lparr>lhead = 0, ltail = 0, llen = 0, lelem = elem, lal = al\<rparr>"
proof -
  have k: "tda_layout_is_type elem" "al \<noteq> 0" "list_ckd_node_layout elem = Some (Some (node_lay elem))"
    using assms by (simp_all add: list_kind_ok_def)
  show "lelem l = elem \<Longrightarrow> list_node_layout l = Some (node_lay elem)" using k by (simp add: list_node_layout_def)
  show "tda_list_init elem al = Some \<lparr>lhead = 0, ltail = 0, llen = 0, lelem = elem, lal = al\<rparr>"
    using k by (simp add: tda_list_init_def)
  show "node_size_ok (node_lay elem)" by (rule ckd_node_size [OF k(1,3)])
qed

lemma list_at_assert:
  assumes "list_at m l ps" "store_ok m"
  shows "ASSERT_LIST l = Some ()"
proof -
  have z: "0 \<notin> set ps" using assms unfolding list_at_def store_ok_def by blast
  have e: "lhead l = hd (ps @ [0])" "ltail l = hd (rev ps @ [0])" "llen l = length ps"
    using assms(1) by (simp_all add: list_at_def)
  have "lhead l \<noteq> 0 \<longleftrightarrow> ps \<noteq> []" using z unfolding e(1) by (cases ps) auto
  moreover have "ltail l \<noteq> 0 \<longleftrightarrow> ps \<noteq> []" using z unfolding e(2) by (cases ps rule: rev_cases) auto
  moreover have "0 < llen l \<longleftrightarrow> ps \<noteq> []" unfolding e(3) by simp
  moreover have "tda_layout_is_type (lelem l)" "lal l \<noteq> 0" using assms(1) by (simp_all add: list_at_def list_kind_ok_def)
  ultimately show ?thesis unfolding ASSERT_LIST_def chk_def by simp
qed

lemma list_at_others:
  assumes "list_at m l qs" "set qs \<inter> S = {}" "others m' S' = others m S"
  shows "list_at m' l qs" "map (el m') qs = map (el m) qs" "set qs \<inter> S' = {}"
proof -
  have q: "nx m' p = nx m p" "pv m' p = pv m p" "el m' p = el m p" "p \<in> places m'" "p \<notin> S'" if "p \<in> set qs" for p
  proof -
    have "others m S p = Some (nx m p, pv m p, el m p)"
      using assms(1,2) that by (auto simp: others_def list_at_def)
    then have "others m' S' p = Some (nx m p, pv m p, el m p)" using assms(3) by simp
    then show "nx m' p = nx m p" "pv m' p = pv m p" "el m' p = el m p" "p \<in> places m'" "p \<notin> S'"
      by (auto simp: others_def split: if_splits)
  qed
  show "list_at m' l qs"
    using assms(1) links_cong [of qs "nx m'" "nx m" 0] links_cong [of "rev qs" "pv m'" "pv m" 0] q
    by (auto simp: list_at_def)
  show "map (el m') qs = map (el m) qs" "set qs \<inter> S' = {}" using q by auto
qed

section \<open>Linking and unlinking\<close>

text \<open>One field of the nodes, when a chain goes in between two parts of another.\<close>

lemma links_splice:
  assumes "links f (as @ bs) z" "links f cs c" "distinct (as @ cs @ bs)" "cs \<noteq> []"
  shows "links (let f = f(last cs := hd (bs @ [z])) in if as = [] then f else f(last as := hd cs)) (as @ cs @ bs) z"
proof -
  let ?f = "f(last cs := hd (bs @ [z]))"
  have ab: "links f as (hd (bs @ [z]))" "links f bs z" using assms(1) by (simp_all add: links_append)
  have l: "last cs \<in> set cs" "as \<noteq> [] \<Longrightarrow> last as \<in> set as" using assms(4) by simp_all
  have n: "last cs \<notin> set as" "last cs \<notin> set bs" using l(1) assms(3) by auto
  have f: "links ?f cs (hd (bs @ [z]))" "links ?f bs z" "links ?f as (hd (bs @ [z]))"
    using links_relast [OF assms(2) _ assms(4)] ab assms(3) n by simp_all
  have h: "hd (cs @ bs @ [z]) = hd cs" using assms(4) by simp
  show ?thesis
  proof (cases "as = []")
    case True
    then show ?thesis using f by (simp add: links_append)
  next
    case False
    have "last as \<notin> set cs" "last as \<notin> set bs" using l(2) [OF False] assms(3) by auto
    then have "links (?f(last as := hd cs)) cs (hd (bs @ [z]))" "links (?f(last as := hd cs)) bs z"
      "links (?f(last as := hd cs)) as (hd cs)"
      using f links_relast [OF f(3) _ False, of "hd cs"] assms(3) by simp_all
    then show ?thesis using False h by (simp add: links_append Let_def)
  qed
qed

text \<open>The null neighbour, and the end of a list beside it.\<close>

lemma hd_rev_snoc: "hd (rev as @ [0]) = (if as = [] then 0 else last as)"
  by (simp add: hd_rev hd_append)

lemma hd_snoc: "hd (bs @ [0]) = (if bs = [] then 0 else hd bs)"
  by (simp add: hd_append)

lemma places_ends:
  assumes "set ps \<subseteq> places m" "store_ok m" "ps \<noteq> []"
  shows "hd ps \<in> places m" "hd ps \<noteq> 0" "last ps \<in> places m" "last ps \<noteq> 0"
proof -
  show "hd ps \<in> places m" "last ps \<in> places m" using assms(1,3) hd_in_set last_in_set by blast+
  then show "hd ps \<noteq> 0" "last ps \<noteq> 0" using assms(2) unfolding store_ok_def by metis+
qed

lemma link_chain_ok:
  assumes at: "list_at m l (as @ bs)" and ok: "store_ok m"
    and cs: "links (nx m) cs c" "links (pv m) (rev cs) d" "distinct (as @ cs @ bs)" "set cs \<subseteq> places m" "cs \<noteq> []"
  shows "\<exists>l' m'. link_chain l (hd cs) (last cs) (length cs) (hd (rev as @ [0])) (hd (bs @ [0])) m = Some (l', m') \<and>
    list_at m' l' (as @ cs @ bs) \<and> el m' = el m \<and> places m' = places m \<and> pick m' = pick m \<and>
    lelem l' = lelem l \<and> lal l' = lal l \<and>
    (\<forall>p. p \<notin> set (as @ cs @ bs) \<longrightarrow> nx m' p = nx m p \<and> pv m' p = pv m p)"
proof -
  let ?nx = "let f = (nx m)(last cs := hd (bs @ [0])) in if as = [] then f else f(last as := hd cs)"
  let ?pv = "let f = (pv m)(hd cs := hd (rev as @ [0])) in if bs = [] then f else f(hd bs := last cs)"
  let ?m = "m\<lparr>nx := ?nx, pv := ?pv\<rparr>"
  let ?l = "l\<lparr>lhead := if as = [] then hd cs else lhead l, ltail := if bs = [] then last cs else ltail l,
    llen := llen l + length cs\<rparr>"
  have a: "links (nx m) (as @ bs) 0" "links (pv m) (rev bs @ rev as) 0" "set (as @ bs) \<subseteq> places m"
    using at by (simp_all add: list_at_def)
  have pos: "as \<noteq> [] \<Longrightarrow> last as \<in> places m \<and> last as \<noteq> 0" "bs \<noteq> [] \<Longrightarrow> hd bs \<in> places m \<and> hd bs \<noteq> 0"
    "hd cs \<in> places m" "last cs \<in> places m"
    using a(3) places_ends [of as m] places_ends [of bs m] places_ends [OF cs(4) ok cs(5)] ok by simp_all
  have nx: "links ?nx (as @ cs @ bs) 0" by (rule links_splice [OF a(1) cs(1,3,5)])
  have "distinct (rev bs @ rev cs @ rev as)" using cs(3) by auto
  then have "links (let f = (pv m)(last (rev cs) := hd (rev as @ [0])) in if rev bs = [] then f
      else f(last (rev bs) := hd (rev cs))) (rev bs @ rev cs @ rev as) 0"
    using links_splice [OF a(2) cs(2)] cs(5) by simp
  then have pv: "links ?pv (rev (as @ cs @ bs)) 0" using cs(5) by (cases "bs = []") (simp_all add: last_rev hd_rev)
  have run: "link_chain l (hd cs) (last cs) (length cs) (hd (rev as @ [0])) (hd (bs @ [0])) m = Some (?l, ?m)"
    using pos by (cases "as = []"; cases "bs = []") (simp_all add: link_chain_def set_nx_def set_pv_def hd_rev Let_def)
  have ends: "hd ((as @ cs @ bs) @ [0]) = (if as = [] then hd cs else hd (as @ bs @ [0]))"
    "hd (rev (as @ cs @ bs) @ [0]) = (if bs = [] then last cs else hd (rev (as @ bs) @ [0]))"
    using cs(5) by (auto simp: hd_append hd_rev)
  have "list_at ?m ?l (as @ cs @ bs)"
    using at nx pv cs(3,4) ends by (simp add: list_at_def)
  moreover have "nx ?m p = nx m p \<and> pv ?m p = pv m p" if "p \<notin> set (as @ cs @ bs)" for p
  proof -
    have "p \<noteq> last cs" "p \<noteq> hd cs" "as \<noteq> [] \<longrightarrow> p \<noteq> last as" "bs \<noteq> [] \<longrightarrow> p \<noteq> hd bs"
      using that cs(5) last_in_set [of as] hd_in_set [of bs] last_in_set [of cs] hd_in_set [of cs] by auto
    then show ?thesis by (simp add: Let_def)
  qed
  ultimately show ?thesis using run by auto
qed

lemma list_at_links:
  assumes "list_at m l (as @ p # bs)"
  shows "nx m p = hd (bs @ [0])" "pv m p = hd (rev as @ [0])" "p \<in> places m"
  using assms by (auto simp: list_at_def links_append)

lemma list_at_pos:
  assumes "list_at m l (as @ p # bs)" "store_ok m"
  shows "ASSERT_POS m p = Some ()" "ASSERT_NODE m p = Some ()"
proof -
  note p = list_at_links [OF assms(1)]
  have z: "0 \<notin> places m" using assms(2) by (simp add: store_ok_def)
  have "nx m (last as) = p \<and> last as \<in> places m" if ne: "as \<noteq> []"
  proof -
    obtain cs q where "as = cs @ [q]" using ne by (cases as rule: rev_cases) auto
    then show ?thesis using list_at_links [of m l cs q "p # bs"] assms(1) by simp
  qed
  moreover have "pv m (hd bs) = p \<and> hd bs \<in> places m" if ne: "bs \<noteq> []"
  proof -
    obtain q cs where "bs = q # cs" using ne by (cases bs) auto
    then show ?thesis using list_at_links [of m l "as @ [p]" q cs] assms(1) by simp
  qed
  ultimately show "ASSERT_POS m p = Some ()"
    using p by (auto simp: ASSERT_POS_def pv_of_def nx_of_def hd_rev_snoc hd_snoc hd_rev)
  moreover have "p \<noteq> 0" using p(3) z by metis
  ultimately show "ASSERT_NODE m p = Some ()" by (simp add: ASSERT_NODE_def)
qed

lemma unlink_ok:
  assumes at: "list_at m l (as @ p # bs)" and ok: "store_ok m"
  shows "\<exists>l' m'. unlink_node l p m = Some (l', m') \<and> list_at m' l' (as @ bs) \<and> el m' = el m \<and> places m' = places m \<and>
    pick m' = pick m \<and> lelem l' = lelem l \<and> lal l' = lal l \<and>
    (\<forall>q. q \<notin> set (as @ bs) \<longrightarrow> nx m' q = nx m q \<and> pv m' q = pv m q)"
proof -
  let ?nx = "if as = [] then nx m else (nx m)(last as := hd (bs @ [0]))"
  let ?pv = "if bs = [] then pv m else (pv m)(hd bs := hd (rev as @ [0]))"
  let ?m = "m\<lparr>nx := ?nx, pv := ?pv\<rparr>"
  let ?l = "l\<lparr>lhead := if as = [] then hd (bs @ [0]) else lhead l, ltail := if bs = [] then hd (rev as @ [0]) else ltail l,
    llen := llen l - 1\<rparr>"
  note p = list_at_links [OF at]
  have a: "links (nx m) (as @ p # bs) 0" "links (pv m) (rev bs @ p # rev as) 0" "set (as @ bs) \<subseteq> places m"
    "distinct (as @ p # bs)"
    using at by (simp_all add: list_at_def)
  have pos: "as \<noteq> [] \<Longrightarrow> last as \<in> places m \<and> last as \<noteq> 0" "bs \<noteq> [] \<Longrightarrow> hd bs \<in> places m \<and> hd bs \<noteq> 0"
    using a(3) places_ends [of as m] places_ends [of bs m] ok by simp_all
  have nx: "links ?nx (as @ bs) 0" by (rule links_unlink [OF a(1,4)])
  have "distinct (rev bs @ p # rev as)" using a(4) by auto
  then have pv: "links ?pv (rev (as @ bs)) 0" using links_unlink [OF a(2)] by (cases "bs = []") (simp_all add: last_rev)
  have run: "unlink_node l p m = Some (?l, ?m)"
    using list_at_pos(2) [OF at ok] p pos at
    by (cases "as = []"; cases "bs = []")
      (simp_all add: unlink_node_def set_nx_def set_pv_def nx_of_def pv_of_def list_at_def hd_rev)
  have "list_at ?m ?l (as @ bs)"
    using at nx pv a by (auto simp: list_at_def hd_append)
  moreover have "nx ?m q = nx m q \<and> pv ?m q = pv m q" if "q \<notin> set (as @ bs)" for q
  proof -
    have "as \<noteq> [] \<longrightarrow> q \<noteq> last as" "bs \<noteq> [] \<longrightarrow> q \<noteq> hd bs"
      using that last_in_set [of as] hd_in_set [of bs] by auto
    then show ?thesis by simp
  qed
  ultimately show ?thesis using run by auto
qed

section \<open>Inserting and removing\<close>

definition larg_ok :: "'e nodes \<Rightarrow> 'e larg \<Rightarrow> bool" where
  "larg_ok m val \<longleftrightarrow> (case val of Cell x \<Rightarrow> True | Node p \<Rightarrow> p \<in> places m)"

definition larg_val :: "'e nodes \<Rightarrow> 'e larg \<Rightarrow> 'e option" where
  "larg_val m val = (case val of Cell x \<Rightarrow> x | Node p \<Rightarrow> el m p)"

abbreviation node_blocks :: "lst \<Rightarrow> nat list \<Rightarrow> layout multiset" where
  "node_blocks l ps \<equiv> replicate_mset (length ps) (node_lay (lelem l))"

lemma node_blocks_append: "node_blocks l (ps @ qs) = node_blocks l ps + node_blocks l qs"
  by (induction ps) simp_all

lemma held_by_list:
  "list_at m l ps \<Longrightarrow> store_ok m \<Longrightarrow> held_by list_view h (l, m) \<longleftrightarrow> node_blocks l ps \<subseteq># lives h (lal l)"
  by (simp add: held_by_def list_at_view)

lemma held_listE:
  assumes "held_by list_view h (l, m)"
  obtains ps where "list_at m l ps" "store_ok m" "list_nodes (l, m) = ps" "list_cells (l, m) = map (el m) ps"
    "llen l = length ps" "node_blocks l ps \<subseteq># lives h (lal l)" "ASSERT_LIST l = Some ()" "list_kind_ok (lelem l) (lal l)"
    "list_rest (l, m) = others m (set ps)"
proof -
  have "list_ok (l, m)" using assms by (simp add: held_by_def list_view_def)
  then obtain ps where ps: "list_at m l ps" "store_ok m" "list_nodes (l, m) = ps" "list_cells (l, m) = map (el m) ps"
    "llen l = length ps"
    by (rule list_okE)
  then show ?thesis
    using that [of ps] assms held_by_list [OF ps(1,2), of h] list_at_assert [OF ps(1,2)]
    by (simp add: list_at_def list_rest_def)
qed

lemma list_grows:
  assumes "list_at m l ps" "store_ok m" "list_at m' l' ps'" "store_ok m'" "lelem l' = lelem l" "lal l' = lal l"
    and "requests h (lal l) (node_blocks l ps) (node_blocks l ps') True h'"
  shows "call_grows list_view h (l, m) fits TDA_STATUS_OK (l', m') h'"
  using assms by (simp add: call_grows_def list_at_view)

lemma list_does:
  assumes "list_at m l ps" "store_ok m" "list_at m' l' ps'" "store_ok m'" "lelem l' = lelem l" "lal l' = lal l"
    and "requests h (lal l) (node_blocks l ps) (node_blocks l ps') True h'"
    and "map (el m') ps' = xs" "others m' (set ps') = F"
  shows "call_does list_view h (l, m) (Some (TDA_STATUS_OK, (l', m'), h')) fits (xs, F)"
  using list_grows [OF assms(1-7)] assms(3,4,8,9) by (simp add: call_does_def list_at_view)

lemma list_drops:
  assumes "list_at m l ps" "store_ok m" "list_at m' l' ps'" "store_ok m'" "lelem l' = lelem l" "lal l' = lal l"
    and "requests h (lal l) (node_blocks l ps) (node_blocks l ps') True h'"
    and "map (el m') ps' = xs" "others m' (set ps') = F"
  shows "call_drops list_view h (l, m) (Some ((l', m'), h')) (xs, F)"
  using assms by (simp add: call_drops_def list_at_view)

lemma list_edits:
  assumes "list_at m l ps" "store_ok m" "list_at m' l' ps'" "store_ok m'" "lelem l' = lelem l" "lal l' = lal l"
    and "length ps' = length ps" "map (el m') ps' = xs" "others m' (set ps') = F"
  shows "call_edits list_view (l, m) (Some (l', m')) (xs, F)"
  using assms by (intro editsI) (simp_all add: list_at_view)

lemma insert_between_ok:
  assumes at: "list_at m l (as @ bs)" and ok: "store_ok m" and val: "larg_ok m val"
  shows "\<exists>st l' m' h'. insert_between l (hd (rev as @ [0])) (hd (bs @ [0])) val m h = Some (st, (l', m'), h') \<and>
    lelem l' = lelem l \<and> lal l' = lal l \<and> store_ok m' \<and>
    (if st = TDA_STATUS_OK
     then requests h (lal l) {#} {#node_lay (lelem l)#} True h' \<and>
       (\<exists>p. p \<notin> places m \<and> list_at m' l' (as @ p # bs) \<and> el m' = (el m)(p := larg_val m val) \<and>
          others m' (set (as @ p # bs)) = others m (set (as @ bs)))
     else l' = l \<and> m' = m \<and> requests h (lal l) {#} {#node_lay (lelem l)#} False h' \<and> \<not> generous h (lal l))"
proof -
  have k: "list_kind_ok (lelem l) (lal l)" using at by (simp add: list_at_def)
  then have al: "lal l \<noteq> 0" by (simp add: list_kind_ok_def)
  let ?p = "pick m (places m)"
  obtain b h' where n: "node_new (lal l) (node_lay (lelem l)) m h =
      Some (if b then (?p, m\<lparr>places := insert ?p (places m)\<rparr>, h') else (0, m, h'))"
    "requests h (lal l) {#} {#node_lay (lelem l)#} b h'" "generous h (lal l) \<Longrightarrow> b"
    using node_new_spec [OF ok list_kind_layout(1) [OF k] al, of h] by blast
  note lay = list_kind_layout(2) [OF k refl]
  have p: "?p \<noteq> 0" "?p \<notin> places m" using store_pick [OF ok] by simp_all
  show ?thesis
  proof (cases b)
    case False
    then have "insert_between l (hd (rev as @ [0])) (hd (bs @ [0])) val m h = Some (TDA_STATUS_ERR_NO_MEM, (l, m), h')"
      using n(1) lay by (simp add: insert_between_def list_alloc_node_def status_is_err_iff)
    then show ?thesis using False n ok by auto
  next
    case True
    let ?m = "m\<lparr>places := insert ?p (places m), nx := (nx m)(?p := 0), pv := (pv m)(?p := 0),
      el := (el m)(?p := larg_val m val)\<rparr>"
    have set: "set (as @ bs) \<subseteq> places m" "distinct (as @ bs)" using at by (simp_all add: list_at_def)
    then have notin: "?p \<notin> set (as @ bs)" using p(2) by blast
    have "list_alloc_node l val m h = Some (TDA_STATUS_OK, ?p, ?m, h')"
      using n(1) True lay p val
      by (auto simp: list_alloc_node_def set_nx_def set_pv_def set_el_def larg_cell_def larg_ok_def larg_val_def
          list_elem_of_def split: larg.splits)
    note run = this
    have okm: "store_ok ?m" using ok p(1) by (simp add: store_ok_def)
    have atm: "list_at ?m l (as @ bs)" using at notin by (auto simp: list_at_def)
    have link: "links (nx ?m) [?p] 0" "links (pv ?m) (rev [?p]) 0" "distinct (as @ [?p] @ bs)"
      "set [?p] \<subseteq> places ?m" "[?p] \<noteq> []"
      using set(2) notin by auto
    obtain l' m' where r: "link_chain l ?p ?p 1 (hd (rev as @ [0])) (hd (bs @ [0])) ?m = Some (l', m')"
      and at': "list_at m' l' (as @ ?p # bs)" and m': "el m' = el ?m" "places m' = places ?m" "pick m' = pick ?m"
      "lelem l' = lelem l" "lal l' = lal l"
      and rest: "\<forall>q. q \<notin> set (as @ ?p # bs) \<longrightarrow> nx m' q = nx ?m q \<and> pv m' q = pv ?m q"
      using link_chain_ok [OF atm okm link] by auto
    have okm': "store_ok m'" using okm m'(2,3) by (simp add: store_ok_def)
    have "insert_between l (hd (rev as @ [0])) (hd (bs @ [0])) val m h = Some (TDA_STATUS_OK, (l', m'), h')"
      using run r list_at_assert [OF at' okm'] list_at_pos(2) [OF at' okm']
      by (simp add: insert_between_def link_node_def status_is_err_iff)
    moreover have "others m' (set (as @ ?p # bs)) = others m (set (as @ bs))"
      using rest m' notin p(2) by (auto simp: others_def fun_eq_iff)
    ultimately show ?thesis using n(2) True at' m' okm' p(2) by auto
  qed
qed

lemma insert_between_call:
  assumes at: "list_at m l (as @ bs)" and held: "held_by list_view h (l, m)" and val: "larg_ok m val"
  shows "call_does list_view h (l, m) (insert_between l (hd (rev as @ [0])) (hd (bs @ [0])) val m h) True
    (map (el m) as @ larg_val m val # map (el m) bs, others m (set (as @ bs)))"
proof -
  have ok: "store_ok m" using held by (rule held_listE)
  have own: "node_blocks l (as @ bs) \<subseteq># lives h (lal l)" using held held_by_list [OF at ok] by simp
  have set: "set (as @ bs) \<subseteq> places m" using at by (simp add: list_at_def)
  obtain st l' m' h' where r: "insert_between l (hd (rev as @ [0])) (hd (bs @ [0])) val m h = Some (st, (l', m'), h')"
    and k: "lelem l' = lelem l" "lal l' = lal l" "store_ok m'"
    and res: "if st = TDA_STATUS_OK
     then requests h (lal l) {#} {#node_lay (lelem l)#} True h' \<and>
       (\<exists>p. p \<notin> places m \<and> list_at m' l' (as @ p # bs) \<and> el m' = (el m)(p := larg_val m val) \<and>
          others m' (set (as @ p # bs)) = others m (set (as @ bs)))
     else l' = l \<and> m' = m \<and> requests h (lal l) {#} {#node_lay (lelem l)#} False h' \<and> \<not> generous h (lal l)"
    using insert_between_ok [OF at ok val, of h] by (elim exE conjE)
  show ?thesis
  proof (cases "st = TDA_STATUS_OK")
    case False
    then have "l' = l" "m' = m" "requests h (lal l) {#} {#node_lay (lelem l)#} False h'" "\<not> generous h (lal l)"
      using res by simp_all
    then show ?thesis
      unfolding r using False requests_refused [OF _ own] at ok
      by (intro does_refused) (simp_all add: call_grows_def list_at_view)
  next
    case True
    then obtain p where p: "p \<notin> places m" "list_at m' l' (as @ p # bs)" "el m' = (el m)(p := larg_val m val)"
      "others m' (set (as @ p # bs)) = others m (set (as @ bs))" "requests h (lal l) {#} {#node_lay (lelem l)#} True h'"
      using res by auto
    have "p \<notin> set as" "p \<notin> set bs" using p(1) set by auto
    then have cells: "map (el m') (as @ p # bs) = map (el m) as @ larg_val m val # map (el m) bs" using p(3) by simp
    have "requests h (lal l) (node_blocks l (as @ bs)) (node_blocks l (as @ p # bs)) True h'"
      using requests_more [OF p(5) own] by simp
    then show ?thesis unfolding r True using list_does [OF at ok p(2) k(3,1,2) _ cells p(4)] by blast
  qed
qed

lemma remove_node_ok:
  assumes at: "list_at m l (as @ p # bs)" and ok: "store_ok m" and own: "node_blocks l (as @ p # bs) \<subseteq># lives h (lal l)"
  shows "\<exists>l' m' h'. list_remove_node l p m h = Some ((l', m'), h') \<and> list_at m' l' (as @ bs) \<and> store_ok m' \<and>
    lelem l' = lelem l \<and> lal l' = lal l \<and> el m' = el m \<and> others m' (set (as @ bs)) = others m (set (as @ p # bs)) \<and>
    requests h (lal l) {#node_lay (lelem l)#} {#} True h'"
proof -
  have k: "list_kind_ok (lelem l) (lal l)" using at by (simp add: list_at_def)
  then have al: "lal l \<noteq> 0" by (simp add: list_kind_ok_def)
  obtain l1 m1 where u: "unlink_node l p m = Some (l1, m1)" "list_at m1 l1 (as @ bs)" "el m1 = el m" "places m1 = places m"
    "pick m1 = pick m" "lelem l1 = lelem l" "lal l1 = lal l" "\<forall>q. q \<notin> set (as @ bs) \<longrightarrow> nx m1 q = nx m q \<and> pv m1 q = pv m q"
    using unlink_ok [OF at ok] by blast
  have p: "p \<in> places m1" "p \<notin> set (as @ bs)" using at u(4) by (auto simp: list_at_def)
  have "node_lay (lelem l) \<in># lives h (lal l)" using own mset_subset_eqD [OF own] by simp
  then obtain h1 where f: "node_free (lal l) (node_lay (lelem l)) p m1 h = Some (m1\<lparr>places := places m1 - {p}\<rparr>, h1)"
    "requests h (lal l) {#node_lay (lelem l)#} {#} True h1"
    using node_free_spec [OF p(1) list_kind_layout(1) [OF k] al] by blast
  let ?m = "m1\<lparr>places := places m1 - {p}\<rparr>"
  have at': "list_at ?m l1 (as @ bs)" using u(2) p(2) by (auto simp: list_at_def)
  have ok': "store_ok ?m" using ok u(4,5) by (simp add: store_ok_def)
  have "list_remove_node l p m h = Some ((l1, ?m), h1)"
    using u(1,6,7) f(1) list_kind_layout(2) [OF k, of l1] list_at_assert [OF at' ok']
    by (simp add: list_remove_node_def list_dealloc_node_def)
  moreover have "others ?m (set (as @ bs)) = others m (set (as @ p # bs))"
    using u(3,4,8) by (auto simp: others_def fun_eq_iff)
  ultimately show ?thesis using at' ok' u(3,6,7) f(2) by auto
qed

lemma remove_node_call:
  assumes at: "list_at m l (as @ p # bs)" and held: "held_by list_view h (l, m)"
  shows "call_drops list_view h (l, m) (list_remove_node l p m h)
    (map (el m) (as @ bs), others m (set (as @ p # bs)))"
proof -
  have ok: "store_ok m" using held by (rule held_listE)
  have own: "node_blocks l (as @ p # bs) \<subseteq># lives h (lal l)" using held held_by_list [OF at ok] by simp
  obtain l' m' h' where r: "list_remove_node l p m h = Some ((l', m'), h')" "list_at m' l' (as @ bs)" "store_ok m'"
    "lelem l' = lelem l" "lal l' = lal l" "el m' = el m" "others m' (set (as @ bs)) = others m (set (as @ p # bs))"
    "requests h (lal l) {#node_lay (lelem l)#} {#} True h'"
    using remove_node_ok [OF at ok own] by blast
  have "requests h (lal l) (node_blocks l (as @ p # bs)) (node_blocks l (as @ bs)) True h'"
    using requests_less [OF r(8) _ own] by simp
  then show ?thesis unfolding r(1) using list_drops [OF at ok r(2-5) _ _ r(7)] r(6) by simp
qed

lemma list_push_ok:
  assumes held: "held_by list_view h (l, m)" and val: "larg_ok m val"
  shows "call_does list_view h (l, m) (tda_list_push_front l val m h) True
      (larg_val m val # list_cells (l, m), list_rest (l, m))"
    "call_does list_view h (l, m) (tda_list_push_back l val m h) True
      (list_cells (l, m) @ [larg_val m val], list_rest (l, m))"
proof -
  obtain ps where at: "list_at m l ps" and c: "list_cells (l, m) = map (el m) ps" "ASSERT_LIST l = Some ()"
    "list_rest (l, m) = others m (set ps)"
    using held by (rule held_listE)
  have e: "lhead l = hd (ps @ [0])" "ltail l = hd (rev ps @ [0])" using at by (simp_all add: list_at_def)
  show "call_does list_view h (l, m) (tda_list_push_front l val m h) True (larg_val m val # list_cells (l, m), list_rest (l, m))"
    using insert_between_call [of m l "[]" ps h val] at held val c e by (simp add: tda_list_push_front_def)
  show "call_does list_view h (l, m) (tda_list_push_back l val m h) True (list_cells (l, m) @ [larg_val m val], list_rest (l, m))"
    using insert_between_call [of m l ps "[]" h val] at held val c e by (simp add: tda_list_push_back_def)
qed

lemma owns_loop_True:
  "links (nx m) (as @ p # bs) 0 \<Longrightarrow> set (as @ p # bs) \<subseteq> places m \<Longrightarrow> p \<notin> set as \<Longrightarrow> 0 \<notin> places m \<Longrightarrow>
   owns_loop m p (hd (as @ p # bs @ [0])) = Some True"
proof (induction as)
  case Nil
  then have "p \<in> places m" by simp
  then have "p \<noteq> 0" using Nil.prems(4) by metis
  then show ?case by (subst owns_loop.simps) simp
next
  case (Cons a as)
  then have a: "a \<in> places m" "a \<noteq> p" "nx_of m a = Some (hd (as @ p # bs @ [0]))" by (auto simp: nx_of_def)
  have "a \<noteq> 0" using a(1) Cons.prems(4) by metis
  note a = this a
  show ?case using Cons a by (subst owns_loop.simps) simp
qed

lemma owns_node_ok:
  assumes "list_at m l (as @ p # bs)" "store_ok m"
  shows "owns_node m l p = Some True"
proof -
  have "0 \<notin> places m" using assms(2) by (simp add: store_ok_def)
  then show ?thesis
    using owns_loop_True [of m as p bs] assms(1) by (simp add: owns_node_def list_at_def)
qed

text \<open>A node of the list, and the elements before and after it.\<close>

lemma list_split:
  assumes "held_by list_view h (l, m)" "list_nodes (l, m) = as @ p # bs"
  shows "list_at m l (as @ p # bs)" "store_ok m" "list_cells (l, m) = map (el m) as @ el m p # map (el m) bs"
    "ASSERT_LIST l = Some ()" "ASSERT_NODE m p = Some ()" "owns_node m l p = Some True"
    "nx_of m p = Some (hd (bs @ [0]))" "pv_of m p = Some (hd (rev as @ [0]))"
    "list_rest (l, m) = others m (set (as @ p # bs))" "list_elem_of m p = Some (el m p)"
proof -
  obtain ps where at: "list_at m l ps" and ok: "store_ok m" and c: "list_nodes (l, m) = ps" "list_cells (l, m) = map (el m) ps"
    "ASSERT_LIST l = Some ()" "list_rest (l, m) = others m (set ps)"
    using assms(1) by (rule held_listE)
  have ps: "ps = as @ p # bs" using c(1) assms(2) by simp
  note at = at [unfolded ps]
  show "list_at m l (as @ p # bs)" "store_ok m" "list_cells (l, m) = map (el m) as @ el m p # map (el m) bs"
    "ASSERT_LIST l = Some ()" "list_rest (l, m) = others m (set (as @ p # bs))"
    using at ok c ps by simp_all
  show "ASSERT_NODE m p = Some ()" "owns_node m l p = Some True"
    using list_at_pos(2) [OF at ok] owns_node_ok [OF at ok] .
  show "nx_of m p = Some (hd (bs @ [0]))" "pv_of m p = Some (hd (rev as @ [0]))" "list_elem_of m p = Some (el m p)"
    using list_at_links [OF at] by (simp_all add: nx_of_def pv_of_def list_elem_of_def)
qed

lemma list_insert_ok:
  assumes held: "held_by list_view h (l, m)" and val: "larg_ok m val" and p: "list_nodes (l, m) = as @ p # bs"
  shows "call_does list_view h (l, m) (tda_list_insert_before l p val m h) True
      (map (el m) as @ larg_val m val # el m p # map (el m) bs, list_rest (l, m))"
    "call_does list_view h (l, m) (tda_list_insert_after l p val m h) True
      (map (el m) as @ el m p # larg_val m val # map (el m) bs, list_rest (l, m))"
proof -
  note s = list_split [OF held p]
  show "call_does list_view h (l, m) (tda_list_insert_before l p val m h) True
      (map (el m) as @ larg_val m val # el m p # map (el m) bs, list_rest (l, m))"
    using insert_between_call [of m l as "p # bs" h val] s held val by (simp add: tda_list_insert_before_def)
  show "call_does list_view h (l, m) (tda_list_insert_after l p val m h) True
      (map (el m) as @ el m p # larg_val m val # map (el m) bs, list_rest (l, m))"
    using insert_between_call [of m l "as @ [p]" bs h val] s held val by (simp add: tda_list_insert_after_def)
qed

lemma list_remove_ok:
  assumes held: "held_by list_view h (l, m)" and p: "list_nodes (l, m) = as @ p # bs"
  shows "call_drops list_view h (l, m) (tda_list_remove_node l p m h) (map (el m) (as @ bs), list_rest (l, m))"
  using list_split [OF held p] remove_node_call [of m l as p bs h] held by (simp add: tda_list_remove_node_def)

lemma list_nodes_ends:
  assumes held: "held_by list_view h (l, m)" and ne: "list_cells (l, m) \<noteq> []"
  obtains p ps q qs where "list_nodes (l, m) = p # ps" "lhead l = p" "list_nodes (l, m) = qs @ [q]" "ltail l = q" "0 < llen l"
    "list_cells (l, m) = map (el m) (p # ps)"
proof -
  obtain ps where at: "list_at m l ps" and c: "list_nodes (l, m) = ps" "list_cells (l, m) = map (el m) ps" "llen l = length ps"
    using held by (rule held_listE)
  have ne': "ps \<noteq> []" using ne c(2) by simp
  then obtain p ps' where p: "ps = p # ps'" by (cases ps) auto
  obtain q qs where q: "ps = qs @ [q]" using ne' by (cases ps rule: rev_cases) auto
  have "lhead l = p" using at p by (simp add: list_at_def)
  moreover have "ltail l = q" using at unfolding q by (simp add: list_at_def)
  ultimately show ?thesis using that [of p ps' qs q] c p q by simp
qed

lemma list_pop_ok:
  assumes held: "held_by list_view h (l, m)" and ne: "list_cells (l, m) \<noteq> []"
  shows "call_drops list_view h (l, m) (tda_list_pop_front l m h) (tl (list_cells (l, m)), list_rest (l, m))"
    "call_drops list_view h (l, m) (tda_list_pop_back l m h) (butlast (list_cells (l, m)), list_rest (l, m))"
    "\<exists>r. tda_list_pop_front_to l m h = Some (hd (list_cells (l, m)), r) \<and>
      call_drops list_view h (l, m) (Some r) (tl (list_cells (l, m)), list_rest (l, m))"
    "\<exists>r. tda_list_pop_back_to l m h = Some (last (list_cells (l, m)), r) \<and>
      call_drops list_view h (l, m) (Some r) (butlast (list_cells (l, m)), list_rest (l, m))"
    "\<exists>p. tda_list_front l = Some p \<and> tda_list_node_elem l m p = Some (hd (list_cells (l, m)))"
    "\<exists>p. tda_list_back l = Some p \<and> tda_list_node_elem l m p = Some (last (list_cells (l, m)))"
proof -
  obtain p ps q qs where e: "list_nodes (l, m) = p # ps" "lhead l = p" "list_nodes (l, m) = qs @ [q]" "ltail l = q" "0 < llen l"
    using held ne by (rule list_nodes_ends)
  note f = list_split [OF held, of "[]" p ps, simplified, OF e(1)]
  note b = list_split [OF held, of qs q "[]", simplified, OF e(3)]
  have cf: "hd (list_cells (l, m)) = el m p" "tl (list_cells (l, m)) = map (el m) ps" using f(3) by simp_all
  have cb: "last (list_cells (l, m)) = el m q" "butlast (list_cells (l, m)) = map (el m) qs" using b(3) by simp_all
  have front: "call_drops list_view h (l, m) (list_remove_node l p m h) (tl (list_cells (l, m)), list_rest (l, m))"
    using remove_node_call [of m l "[]" p ps h] f held cf(2) by simp
  have rear: "call_drops list_view h (l, m) (list_remove_node l q m h) (butlast (list_cells (l, m)), list_rest (l, m))"
    using remove_node_call [of m l qs q "[]" h] b held cb(2) by simp
  show "call_drops list_view h (l, m) (tda_list_pop_front l m h) (tl (list_cells (l, m)), list_rest (l, m))"
    using front e f(4) by (simp add: tda_list_pop_front_def)
  show "call_drops list_view h (l, m) (tda_list_pop_back l m h) (butlast (list_cells (l, m)), list_rest (l, m))"
    using rear e f(4) by (simp add: tda_list_pop_back_def)
  show "\<exists>r. tda_list_pop_front_to l m h = Some (hd (list_cells (l, m)), r) \<and>
      call_drops list_view h (l, m) (Some r) (tl (list_cells (l, m)), list_rest (l, m))"
    using front e f(4,10) cf(1) by (auto simp: tda_list_pop_front_to_def call_drops_def)
  show "\<exists>r. tda_list_pop_back_to l m h = Some (last (list_cells (l, m)), r) \<and>
      call_drops list_view h (l, m) (Some r) (butlast (list_cells (l, m)), list_rest (l, m))"
    using rear e b(4,10) cb(1) by (auto simp: tda_list_pop_back_to_def call_drops_def)
  show "\<exists>p. tda_list_front l = Some p \<and> tda_list_node_elem l m p = Some (hd (list_cells (l, m)))"
    using e f(4,5,10) cf(1) by (simp add: tda_list_front_def tda_list_node_elem_def)
  show "\<exists>p. tda_list_back l = Some p \<and> tda_list_node_elem l m p = Some (last (list_cells (l, m)))"
    using e b(4,5,10) cb(1) by (simp add: tda_list_back_def tda_list_node_elem_def)
qed

section \<open>Clearing\<close>

lemma clear_loop_ok:
  assumes "list_kind_ok (lelem l) (lal l)"
  shows "links (nx m) ps 0 \<Longrightarrow> distinct ps \<Longrightarrow> set ps \<subseteq> places m \<Longrightarrow> 0 \<notin> places m \<Longrightarrow>
    node_blocks l ps \<subseteq># lives h (lal l) \<Longrightarrow>
    \<exists>h'. clear_loop l (hd (ps @ [0])) m h = Some (m\<lparr>places := places m - set ps\<rparr>, h') \<and>
      requests h (lal l) (node_blocks l ps) {#} True h'"
proof (induction ps arbitrary: m h)
  case Nil
  then show ?case by (subst clear_loop.simps) (simp add: requests_refl)
next
  case (Cons p ps)
  have al: "lal l \<noteq> 0" using assms by (simp add: list_kind_ok_def)
  have p: "p \<in> places m" "nx_of m p = Some (hd (ps @ [0]))" using Cons.prems by (auto simp: nx_of_def)
  have "p \<noteq> 0" using p(1) Cons.prems(4) by metis
  note p = p(1) this p(2)
  have "node_lay (lelem l) \<in># lives h (lal l)" using mset_subset_eqD [OF Cons.prems(5)] by simp
  then obtain h1 where f: "node_free (lal l) (node_lay (lelem l)) p m h = Some (m\<lparr>places := places m - {p}\<rparr>, h1)"
    "requests h (lal l) {#node_lay (lelem l)#} {#} True h1"
    using node_free_spec [OF p(1) list_kind_layout(1) [OF assms] al] by blast
  have req: "requests h (lal l) (node_blocks l (p # ps)) (node_blocks l ps) True h1"
    using requests_less [OF f(2) _ Cons.prems(5)] by simp
  let ?m = "m\<lparr>places := places m - {p}\<rparr>"
  obtain h2 where r: "clear_loop l (hd (ps @ [0])) ?m h1 = Some (?m\<lparr>places := places ?m - set ps\<rparr>, h2)"
    "requests h1 (lal l) (node_blocks l ps) {#} True h2"
    using Cons.IH [of ?m h1] Cons.prems requests_lives [OF req] by auto
  have "places m - {p} - set ps = places m - set (p # ps)" by auto
  then have "clear_loop l (hd ((p # ps) @ [0])) m h = Some (m\<lparr>places := places m - set (p # ps)\<rparr>, h2)"
    using p f(1) r(1) list_kind_layout(2) [OF assms refl]
    by (subst clear_loop.simps) (simp add: list_dealloc_node_def)
  then show ?case using requests_trans [OF req r(2)] by blast
qed

lemma clear_nodes_ok:
  assumes "list_at m l ps" "store_ok m" "node_blocks l ps \<subseteq># lives h (lal l)"
  shows "\<exists>m' h'. list_clear_nodes l m h = Some ((list_set_empty l, m'), h') \<and> list_at m' (list_set_empty l) [] \<and>
    store_ok m' \<and> others m' {} = others m (set ps) \<and> requests h (lal l) (node_blocks l ps) {#} True h'"
proof -
  have k: "list_kind_ok (lelem l) (lal l)" "links (nx m) ps 0" "distinct ps" "set ps \<subseteq> places m" "lhead l = hd (ps @ [0])"
    using assms(1) by (simp_all add: list_at_def)
  have z: "0 \<notin> places m" using assms(2) by (simp add: store_ok_def)
  obtain h' where r: "clear_loop l (hd (ps @ [0])) m h = Some (m\<lparr>places := places m - set ps\<rparr>, h')"
    "requests h (lal l) (node_blocks l ps) {#} True h'"
    using clear_loop_ok [OF k(1-4) z assms(3)] by blast
  let ?m = "m\<lparr>places := places m - set ps\<rparr>"
  have "list_clear_nodes l m h = Some ((list_set_empty l, ?m), h')"
    using r(1) k(5) by (simp add: list_clear_nodes_def)
  moreover have "list_at ?m (list_set_empty l) []" using k(1) by (simp add: list_at_def list_set_empty_def)
  moreover have "store_ok ?m" using assms(2) by (simp add: store_ok_def)
  moreover have "others ?m {} = others m (set ps)" by (auto simp: others_def fun_eq_iff)
  ultimately show ?thesis using r(2) by blast
qed

lemma list_clear_ok:
  assumes "held_by list_view h (l, m)"
  shows "call_drops list_view h (l, m) (tda_list_clear l m h) ([], list_rest (l, m))"
proof -
  obtain ps where ps: "list_at m l ps" "store_ok m" "node_blocks l ps \<subseteq># lives h (lal l)" "ASSERT_LIST l = Some ()"
    "list_rest (l, m) = others m (set ps)"
    using assms by (rule held_listE)
  obtain m' h' where r: "list_clear_nodes l m h = Some ((list_set_empty l, m'), h')" "list_at m' (list_set_empty l) []"
    "store_ok m'" "others m' {} = others m (set ps)" "requests h (lal l) (node_blocks l ps) {#} True h'"
    using clear_nodes_ok [OF ps(1-3)] by blast
  have "tda_list_clear l m h = Some ((list_set_empty l, m'), h')"
    using ps(4) r(1) list_at_assert [OF r(2,3)] by (simp add: tda_list_clear_def)
  moreover have "lelem (list_set_empty l) = lelem l" "lal (list_set_empty l) = lal l" by (simp_all add: list_set_empty_def)
  ultimately show ?thesis using list_drops [OF ps(1,2) r(2,3), of h h' "[]"] r(4,5) ps(5) by simp
qed

lemma list_deinit_at:
  assumes "list_at m l ps" "store_ok m" "node_blocks l ps \<subseteq># lives h (lal l)"
  shows "\<exists>m' h'. tda_list_deinit l m h = Some ((list_null, m'), h') \<and> store_ok m' \<and> others m' {} = others m (set ps) \<and>
    requests h (lal l) (node_blocks l ps) {#} True h'"
proof -
  have "lal l \<noteq> 0" using assms(1) by (simp add: list_at_def list_kind_ok_def)
  then show ?thesis
    using clear_nodes_ok [OF assms] list_at_assert [OF assms(1,2)] by (auto simp: tda_list_deinit_def)
qed

lemma list_deinit_ok:
  assumes "held_by list_view h (l, m)"
  shows "call_ends list_view h (l, m) (tda_list_deinit l m h)"
proof -
  obtain ps where ps: "list_at m l ps" "store_ok m" "node_blocks l ps \<subseteq># lives h (lal l)"
    using assms by (rule held_listE)
  then show ?thesis using list_deinit_at [OF ps] by (auto simp: call_ends_def list_at_view)
qed

section \<open>Building a list at the back\<close>

lemma push_back_step:
  assumes at: "list_at m l ds" and ok: "store_ok m" and val: "larg_ok m val" and own: "node_blocks l ds \<subseteq># lives h (lal l)"
  shows "\<exists>st l' m' h'. tda_list_push_back l val m h = Some (st, (l', m'), h') \<and> lelem l' = lelem l \<and> lal l' = lal l \<and>
    store_ok m' \<and>
    (if st = TDA_STATUS_OK
     then (\<exists>p. list_at m' l' (ds @ [p]) \<and> map (el m') (ds @ [p]) = map (el m) ds @ [larg_val m val] \<and>
       others m' (set (ds @ [p])) = others m (set ds) \<and> requests h (lal l) (node_blocks l ds) (node_blocks l (ds @ [p])) True h')
     else l' = l \<and> m' = m \<and> requests h (lal l) (node_blocks l ds) (node_blocks l ds) True h' \<and> \<not> generous h (lal l))"
proof -
  have e: "ltail l = hd (rev ds @ [0])" and set: "set ds \<subseteq> places m" using at by (simp_all add: list_at_def)
  have at': "list_at m l (ds @ [])" using at by simp
  obtain st l' m' h' where r: "insert_between l (hd (rev ds @ [0])) (hd ([] @ [0])) val m h = Some (st, (l', m'), h')"
    and k: "lelem l' = lelem l" "lal l' = lal l" "store_ok m'"
    and res: "if st = TDA_STATUS_OK
     then requests h (lal l) {#} {#node_lay (lelem l)#} True h' \<and>
       (\<exists>p. p \<notin> places m \<and> list_at m' l' (ds @ p # []) \<and> el m' = (el m)(p := larg_val m val) \<and>
          others m' (set (ds @ p # [])) = others m (set (ds @ [])))
     else l' = l \<and> m' = m \<and> requests h (lal l) {#} {#node_lay (lelem l)#} False h' \<and> \<not> generous h (lal l)"
    using insert_between_ok [OF at' ok val, of h] by (elim exE conjE)
  have run: "tda_list_push_back l val m h = Some (st, (l', m'), h')"
    using r e list_at_assert [OF at ok] by (simp add: tda_list_push_back_def)
  show ?thesis
  proof (cases "st = TDA_STATUS_OK")
    case False
    then show ?thesis using run k res requests_refused [OF _ own] by auto
  next
    case True
    then obtain p where p: "p \<notin> places m" "list_at m' l' (ds @ [p])" "el m' = (el m)(p := larg_val m val)"
      "others m' (set (ds @ [p])) = others m (set ds)" "requests h (lal l) {#} {#node_lay (lelem l)#} True h'"
      using res by auto
    have "p \<notin> set ds" using p(1) set by auto
    then have "map (el m') (ds @ [p]) = map (el m) ds @ [larg_val m val]" using p(3) by simp
    moreover have "requests h (lal l) (node_blocks l ds) (node_blocks l (ds @ [p])) True h'"
      using requests_more [OF p(5) own] by simp
    ultimately show ?thesis using run k True p(2,4) by auto
  qed
qed

text \<open>
  A call that adds \<open>xs\<close> behind the nodes \<open>ds\<close>, or, when it fails, frees all of them.
\<close>

definition list_built ::
  "'e nodes \<Rightarrow> lst \<Rightarrow> nat list \<Rightarrow> heap \<Rightarrow> (tda_status \<times> (lst \<times> 'e nodes) \<times> heap) option \<Rightarrow> 'e slots \<Rightarrow> bool" where
  "list_built m l ds h r xs \<longleftrightarrow> (\<exists>st l' m' h'. r = Some (st, (l', m'), h') \<and> store_ok m' \<and>
     (if st = TDA_STATUS_OK
      then lelem l' = lelem l \<and> lal l' = lal l \<and> (\<exists>ds'. list_at m' l' ds' \<and> map (el m') ds' = map (el m) ds @ xs \<and>
        others m' (set ds') = others m (set ds) \<and> requests h (lal l) (node_blocks l ds) (node_blocks l ds') True h')
      else others m' {} = others m (set ds) \<and> requests h (lal l) (node_blocks l ds) {#} True h' \<and> \<not> generous h (lal l)))"

lemma list_built_Nil:
  "list_at m l ds \<Longrightarrow> store_ok m \<Longrightarrow> node_blocks l ds \<subseteq># lives h (lal l) \<Longrightarrow>
   list_built m l ds h (Some (TDA_STATUS_OK, (l, m), h)) []"
  by (auto simp: list_built_def requests_refl)

lemma list_built_step:
  assumes "list_built m1 l1 ds1 h1 r xs" "lelem l1 = lelem l" "lal l1 = lal l"
    and "map (el m1) ds1 = map (el m) ds @ ys" "others m1 (set ds1) = others m (set ds)"
    and "requests h (lal l) (node_blocks l ds) (node_blocks l ds1) True h1"
  shows "list_built m l ds h r (ys @ xs)"
proof -
  obtain st l' m' h' where r: "r = Some (st, (l', m'), h')" "store_ok m'"
    and res: "if st = TDA_STATUS_OK
      then lelem l' = lelem l1 \<and> lal l' = lal l1 \<and> (\<exists>ds'. list_at m' l' ds' \<and> map (el m') ds' = map (el m1) ds1 @ xs \<and>
        others m' (set ds') = others m1 (set ds1) \<and> requests h1 (lal l1) (node_blocks l1 ds1) (node_blocks l1 ds') True h')
      else others m' {} = others m1 (set ds1) \<and> requests h1 (lal l1) (node_blocks l1 ds1) {#} True h' \<and> \<not> generous h1 (lal l1)"
    using assms(1) unfolding list_built_def by blast
  show ?thesis
  proof (cases "st = TDA_STATUS_OK")
    case True
    then obtain ds' where "lelem l' = lelem l" "lal l' = lal l" "list_at m' l' ds'" "map (el m') ds' = map (el m) ds @ ys @ xs"
      "others m' (set ds') = others m (set ds)" "requests h1 (lal l) (node_blocks l ds1) (node_blocks l ds') True h'"
      using res assms(2-5) by auto
    then show ?thesis using r True requests_trans [OF assms(6)] unfolding list_built_def by auto
  next
    case False
    then have "others m' {} = others m (set ds)" "requests h1 (lal l) (node_blocks l ds1) {#} True h'" "\<not> generous h1 (lal l)"
      using res assms(2,3,5) by simp_all
    then show ?thesis
      using r False requests_trans [OF assms(6)] requests_generous [OF assms(6)] unfolding list_built_def by auto
  qed
qed

lemma from_data_loop_ok:
  "list_at m l ds \<Longrightarrow> store_ok m \<Longrightarrow> node_blocks l ds \<subseteq># lives h (lal l) \<Longrightarrow>
   list_built m l ds h (list_from_data_loop l xs m h) xs"
proof (induction xs arbitrary: l m h ds)
  case Nil
  then show ?case by (simp add: list_built_Nil)
next
  case (Cons x xs)
  have val: "larg_ok m (Cell x)" "larg_val m (Cell x) = x" by (simp_all add: larg_ok_def larg_val_def)
  obtain st l1 m1 h1 where r: "tda_list_push_back l (Cell x) m h = Some (st, (l1, m1), h1)"
    and k: "lelem l1 = lelem l" "lal l1 = lal l" "store_ok m1"
    and res: "if st = TDA_STATUS_OK
     then (\<exists>p. list_at m1 l1 (ds @ [p]) \<and> map (el m1) (ds @ [p]) = map (el m) ds @ [x] \<and>
       others m1 (set (ds @ [p])) = others m (set ds) \<and> requests h (lal l) (node_blocks l ds) (node_blocks l (ds @ [p])) True h1)
     else l1 = l \<and> m1 = m \<and> requests h (lal l) (node_blocks l ds) (node_blocks l ds) True h1 \<and> \<not> generous h (lal l)"
    using push_back_step [OF Cons.prems(1,2) val(1) Cons.prems(3)] unfolding val(2) by (elim exE conjE)
  show ?case
  proof (cases "st = TDA_STATUS_OK")
    case True
    then obtain p where p: "list_at m1 l1 (ds @ [p])" "map (el m1) (ds @ [p]) = map (el m) ds @ [x]"
      "others m1 (set (ds @ [p])) = others m (set ds)" "requests h (lal l) (node_blocks l ds) (node_blocks l (ds @ [p])) True h1"
      using res by auto
    have "node_blocks l1 (ds @ [p]) \<subseteq># lives h1 (lal l1)" using requests_lives [OF p(4)] k by simp
    from list_built_step [OF Cons.IH [OF p(1) k(3) this] k(1,2) p(2-4)]
    show ?thesis using r True by (simp add: status_is_err_iff)
  next
    case False
    then have same: "l1 = l" "m1 = m" "requests h (lal l) (node_blocks l ds) (node_blocks l ds) True h1" "\<not> generous h (lal l)"
      using res by simp_all
    obtain m2 h2 where d: "tda_list_deinit l m h1 = Some ((list_null, m2), h2)" "store_ok m2"
      "others m2 {} = others m (set ds)" "requests h1 (lal l) (node_blocks l ds) {#} True h2"
      using list_deinit_at [OF Cons.prems(1,2) requests_lives [OF same(3)]] by blast
    then show ?thesis
      using r False same requests_trans [OF same(3) d(4)] by (simp add: list_built_def status_is_err_iff)
  qed
qed

lemma push_copies_ok:
  "list_at m l ds \<Longrightarrow> store_ok m \<Longrightarrow> node_blocks l ds \<subseteq># lives h (lal l) \<Longrightarrow>
   links (nx m) qs 0 \<Longrightarrow> set qs \<subseteq> places m - set ds \<Longrightarrow>
   list_built m l ds h (push_copies l (hd (qs @ [0])) m h) (map (el m) qs)"
proof (induction qs arbitrary: l m h ds)
  case Nil
  then show ?case by (subst push_copies.simps) (simp add: list_built_Nil)
next
  case (Cons q qs)
  have q: "q \<in> places m" "q \<notin> set ds" using Cons.prems(5) by auto
  then have nz: "q \<noteq> 0" using Cons.prems(2) unfolding store_ok_def by metis
  have val: "larg_ok m (Node q)" "larg_val m (Node q) = el m q" using q by (simp_all add: larg_ok_def larg_val_def)
  obtain st l1 m1 h1 where r: "tda_list_push_back l (Node q) m h = Some (st, (l1, m1), h1)"
    and k: "lelem l1 = lelem l" "lal l1 = lal l" "store_ok m1"
    and res: "if st = TDA_STATUS_OK
     then (\<exists>p. list_at m1 l1 (ds @ [p]) \<and> map (el m1) (ds @ [p]) = map (el m) ds @ [el m q] \<and>
       others m1 (set (ds @ [p])) = others m (set ds) \<and> requests h (lal l) (node_blocks l ds) (node_blocks l (ds @ [p])) True h1)
     else l1 = l \<and> m1 = m \<and> requests h (lal l) (node_blocks l ds) (node_blocks l ds) True h1 \<and> \<not> generous h (lal l)"
    using push_back_step [OF Cons.prems(1,2) val(1) Cons.prems(3)] unfolding val(2) by (elim exE conjE)
  show ?case
  proof (cases "st = TDA_STATUS_OK")
    case True
    then obtain p where p: "list_at m1 l1 (ds @ [p])" "map (el m1) (ds @ [p]) = map (el m) ds @ [el m q]"
      "others m1 (set (ds @ [p])) = others m (set ds)" "requests h (lal l) (node_blocks l ds) (node_blocks l (ds @ [p])) True h1"
      using res by auto
    have own: "node_blocks l1 (ds @ [p]) \<subseteq># lives h1 (lal l1)" using requests_lives [OF p(4)] k by simp
    have same: "nx m1 x = nx m x" "el m1 x = el m x" "x \<in> places m1 - set (ds @ [p])" if "x \<in> set (q # qs)" for x
    proof -
      have "others m (set ds) x = Some (nx m x, pv m x, el m x)" using Cons.prems(5) that by (auto simp: others_def)
      then have "others m1 (set (ds @ [p])) x = Some (nx m x, pv m x, el m x)" using p(3) by simp
      then show "nx m1 x = nx m x" "el m1 x = el m x" "x \<in> places m1 - set (ds @ [p])"
        by (auto simp: others_def split: if_splits)
    qed
    have lk: "links (nx m1) (q # qs) 0" using Cons.prems(4) links_cong [of "q # qs" "nx m1" "nx m" 0] same(1) by metis
    then have lk': "links (nx m1) qs 0" by simp
    have "set qs \<subseteq> places m1 - set (ds @ [p])" using same(3) by auto
    note IH = Cons.IH [OF p(1) k(3) own lk' this]
    have cells: "map (el m1) qs = map (el m) qs" using same(2) by simp
    have "nx_of m1 q = Some (hd (qs @ [0]))" using lk same(3) [of q] by (simp add: nx_of_def)
    then have "push_copies l (hd ((q # qs) @ [0])) m h = push_copies l1 (hd (qs @ [0])) m1 h1"
      using r True nz by (subst push_copies.simps) (simp add: status_is_err_iff)
    then show ?thesis using list_built_step [OF IH k(1,2) p(2-4)] cells by simp
  next
    case False
    then have same: "l1 = l" "m1 = m" "requests h (lal l) (node_blocks l ds) (node_blocks l ds) True h1" "\<not> generous h (lal l)"
      using res by simp_all
    obtain m2 h2 where d: "list_clear_nodes l m h1 = Some ((list_set_empty l, m2), h2)" "store_ok m2"
      "others m2 {} = others m (set ds)" "requests h1 (lal l) (node_blocks l ds) {#} True h2"
      using clear_nodes_ok [OF Cons.prems(1,2) requests_lives [OF same(3)]] by blast
    have "push_copies l (hd ((q # qs) @ [0])) m h = Some (st, (list_set_empty l, m2), h2)"
      using r False same d(1) nz by (subst push_copies.simps) (simp add: status_is_err_iff)
    then show ?thesis
      using False same(4) d requests_trans [OF same(3) d(4)] by (simp add: list_built_def)
  qed
qed

text \<open>A new list: built from nothing, with every other node as it was.\<close>

definition list_new :: "layout \<Rightarrow> al \<Rightarrow> lst" where
  "list_new elem al = \<lparr>lhead = 0, ltail = 0, llen = 0, lelem = elem, lal = al\<rparr>"

definition list_makes ::
  "'e nodes \<Rightarrow> heap \<Rightarrow> al \<Rightarrow> layout \<Rightarrow> (tda_status \<times> (lst \<times> 'e nodes) \<times> heap) option \<Rightarrow> 'e slots \<Rightarrow> bool" where
  "list_makes m h al elem r xs \<longleftrightarrow> list_built m (list_new elem al) [] h r xs"

lemma list_makesD:
  "list_makes m h al elem r xs \<Longrightarrow> \<exists>st l' m' h'. r = Some (st, (l', m'), h') \<and> store_ok m' \<and>
     (if st = TDA_STATUS_OK
      then lelem l' = elem \<and> lal l' = al \<and> (\<exists>qs. list_at m' l' qs \<and> map (el m') qs = xs \<and>
        others m' (set qs) = others m {} \<and> requests h al {#} (replicate_mset (length qs) (node_lay elem)) True h')
      else others m' {} = others m {} \<and> requests h al {#} {#} True h' \<and> \<not> generous h al)"
  unfolding list_makes_def list_built_def list_new_def by (simp split del: if_split cong: if_cong)

lemma list_new_at:
  assumes "list_kind_ok elem al"
  shows "list_at m (list_new elem al) []" "tda_list_init elem al = Some (list_new elem al)"
    "node_blocks (list_new elem al) [] \<subseteq># lives h (lal (list_new elem al))"
  using assms list_kind_layout(3) [OF assms] by (simp_all add: list_at_def list_new_def)

lemma list_from_data_ok:
  assumes "store_ok m" "list_kind_ok elem al"
  shows "list_makes m h al elem (tda_list_from_data xs elem al m h) xs"
    "list_makes m h al elem (tda_list_from_span xs elem al m h) xs"
proof -
  have k: "tda_layout_is_type elem" "al \<noteq> 0" using assms(2) by (simp_all add: list_kind_ok_def)
  note new = list_new_at [OF assms(2)]
  show "list_makes m h al elem (tda_list_from_data xs elem al m h) xs"
    using from_data_loop_ok [OF new(1) assms(1) new(3)] new(2) k by (simp add: list_makes_def tda_list_from_data_def)
  then show "list_makes m h al elem (tda_list_from_span xs elem al m h) xs"
    using k by (simp add: tda_list_from_span_def)
qed

lemma list_copy_ok:
  assumes at: "list_at m l qs" and ok: "store_ok m" and al: "al \<noteq> 0"
  shows "list_makes m h al (lelem l) (tda_list_copy_with l al m h) (map (el m) qs)"
proof -
  have k: "list_kind_ok (lelem l) al" "links (nx m) qs 0" "set qs \<subseteq> places m - set []" "lhead l = hd (qs @ [0])"
    using at al by (simp_all add: list_at_def list_kind_ok_def)
  note new = list_new_at [OF k(1)]
  show ?thesis
    using push_copies_ok [OF new(1) ok new(3) k(2,3)] new(2) al k(4) list_at_assert [OF at ok]
    by (simp add: list_makes_def tda_list_copy_with_def)
qed

section \<open>Moving the nodes of one list to another\<close>

lemma others_union: "others m' S' = others m S \<Longrightarrow> others m' (S' \<union> T) = others m (S \<union> T)"
proof (rule ext)
  fix p assume "others m' S' = others m S"
  moreover have "others n (R \<union> T) p = (if p \<in> T then None else others n R p)" for n :: "'a nodes" and R
    by (auto simp: others_def)
  ultimately show "others m' (S' \<union> T) p = others m (S \<union> T) p" by simp
qed

lemma list_set_empty_at: "list_kind_ok (lelem l) (lal l) \<Longrightarrow> list_at m (list_set_empty l) []"
  by (simp add: list_at_def list_set_empty_def)

lemma others_same:
  assumes "places m' = places m" "el m' = el m" "\<And>p. p \<notin> S \<Longrightarrow> nx m' p = nx m p \<and> pv m' p = pv m p"
  shows "others m' S = others m S"
  using assms by (auto simp: others_def fun_eq_iff)

lemma splice_nodes_ok:
  assumes at: "list_at m l ps" "list_at m s qs" and apart: "set ps \<inter> set qs = {}" and ok: "store_ok m"
    and kinds: "lelem s = lelem l" "lal s = lal l" and ne: "qs \<noteq> []"
  shows "\<exists>l' m'. splice_nodes l s front m = Some (l', list_set_empty s, m') \<and>
    list_at m' l' (if front then qs @ ps else ps @ qs) \<and> el m' = el m \<and> store_ok m' \<and>
    lelem l' = lelem l \<and> lal l' = lal l \<and> others m' (set ps \<union> set qs) = others m (set ps \<union> set qs)"
proof -
  have s: "links (nx m) qs 0" "links (pv m) (rev qs) 0" "set qs \<subseteq> places m" "distinct qs" "list_kind_ok (lelem s) (lal s)"
    using at(2) by (simp_all add: list_at_def)
  have e: "lhead s = hd qs" "ltail s = last qs" "llen s = length qs"
    using at(2) ne by (simp_all add: list_at_def hd_rev)
  let ?as = "if front then [] else ps" and ?bs = "if front then ps else []"
  have at': "list_at m l (?as @ ?bs)" using at(1) by simp
  have d: "distinct (?as @ qs @ ?bs)" using s(4) at(1) apart by (auto simp: list_at_def)
  obtain l' m' where r: "link_chain l (hd qs) (last qs) (length qs) (hd (rev ?as @ [0])) (hd (?bs @ [0])) m = Some (l', m')"
    "list_at m' l' (?as @ qs @ ?bs)" "el m' = el m" "places m' = places m" "pick m' = pick m" "lelem l' = lelem l"
    "lal l' = lal l" "\<forall>p. p \<notin> set (?as @ qs @ ?bs) \<longrightarrow> nx m' p = nx m p \<and> pv m' p = pv m p"
    using link_chain_ok [OF at' ok s(1,2) d s(3) ne] by blast
  have "lhead l = hd (ps @ [0])" "ltail l = hd (rev ps @ [0])" using at(1) by (simp_all add: list_at_def)
  then have pn: "(if front then 0 else ltail l) = hd (rev ?as @ [0])" "(if front then lhead l else 0) = hd (?bs @ [0])"
    by simp_all
  have ok': "store_ok m'" using ok r(4,5) by (simp add: store_ok_def)
  note fin = list_at_assert [OF r(2) ok'] list_at_assert [OF list_set_empty_at [OF s(5)] ok']
  have "splice_nodes l s front m = Some (l', list_set_empty s, m')"
    using r(1) e kinds ne fin unfolding splice_nodes_def Let_def pn by (simp add: tda_layout_eq_def)
  moreover have "others m' (set ps \<union> set qs) = others m (set ps \<union> set qs)"
    using r(8) by (intro others_same [OF r(4,3)]) auto
  moreover have "list_at m' l' (if front then qs @ ps else ps @ qs)" using r(2) by (cases front) simp_all
  ultimately show ?thesis using r(3,6,7) ok' by blast
qed

lemma list_extend_ok:
  assumes held: "held_by list_view h (l, m)"
  shows "call_does list_view h (l, m) (tda_list_extend l xs (lelem l) m h) True (list_cells (l, m) @ xs, list_rest (l, m))"
proof -
  obtain ps where at: "list_at m l ps" and ok: "store_ok m" and c: "list_cells (l, m) = map (el m) ps" "ASSERT_LIST l = Some ()"
    "list_rest (l, m) = others m (set ps)" and own: "node_blocks l ps \<subseteq># lives h (lal l)" and k: "list_kind_ok (lelem l) (lal l)"
    using held by (rule held_listE)
  have t: "tda_layout_is_type (lelem l)" using k by (simp add: list_kind_ok_def)
  show ?thesis
  proof (cases "xs = []")
    case True
    then have "tda_list_extend l xs (lelem l) m h = Some (TDA_STATUS_OK, (l, m), h)"
      using c t by (simp add: tda_list_extend_def tda_layout_eq_def)
    then show ?thesis using True list_does [OF at ok at ok refl refl requests_refl [OF own]] c by simp
  next
    case False
    obtain st s m1 h1 where r: "tda_list_from_span xs (lelem l) (lal l) m h = Some (st, (s, m1), h1)" and ok1: "store_ok m1"
      and res: "if st = TDA_STATUS_OK
        then lelem s = lelem l \<and> lal s = lal l \<and> (\<exists>qs. list_at m1 s qs \<and> map (el m1) qs = xs \<and>
          others m1 (set qs) = others m {} \<and> requests h (lal l) {#} (node_blocks l qs) True h1)
        else others m1 {} = others m {} \<and> requests h (lal l) {#} {#} True h1 \<and> \<not> generous h (lal l)"
      using list_makesD [OF list_from_data_ok(2) [OF ok k, where h = h and xs = xs]] by (elim exE conjE)
    show ?thesis
    proof (cases "st = TDA_STATUS_OK")
      case no: False
      then have res: "others m1 {} = others m {}" "requests h (lal l) {#} {#} True h1" "\<not> generous h (lal l)"
        using res by simp_all
      have "tda_list_extend l xs (lelem l) m h = Some (st, (l, m1), h1)"
        using c t False r no by (simp add: tda_list_extend_def tda_layout_eq_def status_is_err_iff)
      moreover have at1: "list_at m1 l ps" "map (el m1) ps = map (el m) ps"
        using list_at_others [OF at _ res(1)] by simp_all
      moreover have "others m1 (set ps) = others m (set ps)" using others_union [OF res(1), of "set ps"] by simp
      moreover have "requests h (lal l) (node_blocks l ps) (node_blocks l ps) True h1" using requests_more [OF res(2) own] by simp
      ultimately show ?thesis
        using no res(3) at ok ok1 by (auto intro!: does_refused simp: call_grows_def list_at_view)
    next
      case yes: True
      then obtain qs where s: "lelem s = lelem l" "lal s = lal l" "list_at m1 s qs" "map (el m1) qs = xs"
        "others m1 (set qs) = others m {}" "requests h (lal l) {#} (node_blocks l qs) True h1"
        using res by auto
      have at1: "list_at m1 l ps" "map (el m1) ps = map (el m) ps" "set ps \<inter> set qs = {}"
        using list_at_others [OF at _ s(5)] by simp_all
      have "qs \<noteq> []" using s(4) False by auto
      then obtain l' m' where sp: "splice_nodes l s False m1 = Some (l', list_set_empty s, m')" "list_at m' l' (ps @ qs)"
        "el m' = el m1" "store_ok m'" "lelem l' = lelem l" "lal l' = lal l"
        "others m' (set ps \<union> set qs) = others m1 (set ps \<union> set qs)"
        using splice_nodes_ok [OF at1(1) s(3) at1(3) ok1 s(1,2), of False] by auto
      have "tda_list_extend l xs (lelem l) m h = Some (TDA_STATUS_OK, (l', m'), h1)"
        using c t False r yes sp(1) list_at_assert [OF sp(2,4)]
        by (simp add: tda_list_extend_def tda_layout_eq_def status_is_err_iff)
      moreover have "requests h (lal l) (node_blocks l ps) (node_blocks l (ps @ qs)) True h1"
        using requests_more [OF s(6) own] by (simp only: node_blocks_append)
      moreover have "map (el m') (ps @ qs) = list_cells (l, m) @ xs" using sp(3) s(4) at1(2) c(1) by simp
      moreover have "others m' (set (ps @ qs)) = list_rest (l, m)"
        using sp(7) others_union [OF s(5), of "set ps"] c(3) by (simp add: Un_commute)
      ultimately show ?thesis using list_does [OF at ok sp(2,4-6)] by simp
    qed
  qed
qed

text \<open>
  Two lists in one memory, apart; the account has the nodes of both.
\<close>

definition lists_at :: "'e nodes \<Rightarrow> heap \<Rightarrow> lst \<Rightarrow> nat list \<Rightarrow> lst \<Rightarrow> nat list \<Rightarrow> bool" where
  "lists_at m h l ps s qs \<longleftrightarrow> list_at m l ps \<and> list_at m s qs \<and> set ps \<inter> set qs = {} \<and> store_ok m \<and> lelem s = lelem l \<and>
     node_blocks l ps \<subseteq># lives h (lal l) \<and> node_blocks s qs \<subseteq># lives h (lal s) \<and>
     (lal s = lal l \<longrightarrow> node_blocks l ps + node_blocks s qs \<subseteq># lives h (lal l))"

text \<open>
  A call that moves the elements of \<open>s\<close> into \<open>l\<close>, which then has \<open>xs\<close>. On one allocator no node is
  made; on two, the nodes are copies, and those of \<open>s\<close> are freed. If it fails both lists are as they were.
\<close>

definition list_takes ::
  "'e nodes \<Rightarrow> heap \<Rightarrow> lst \<Rightarrow> nat list \<Rightarrow> lst \<Rightarrow> nat list \<Rightarrow>
   (tda_status \<times> lst \<times> lst \<times> 'e nodes \<times> heap) option \<Rightarrow> 'e slots \<Rightarrow> bool" where
  "list_takes m h l ps s qs r xs \<longleftrightarrow> (\<exists>st l' s' m' h'. r = Some (st, l', s', m', h') \<and> store_ok m' \<and>
     lelem l' = lelem l \<and> lal l' = lal l \<and> lelem s' = lelem s \<and> lal s' = lal s \<and>
     (if st = TDA_STATUS_OK
      then (\<exists>ts. list_at m' l' ts \<and> map (el m') ts = xs \<and> list_at m' s' [] \<and>
          others m' (set ts) = others m (set ps \<union> set qs)) \<and>
        (if lal s = lal l then h' = h
         else \<exists>h1. requests h (lal l) {#} (node_blocks l qs) True h1 \<and> requests h1 (lal s) (node_blocks s qs) {#} True h')
      else l' = l \<and> s' = s \<and> list_at m' l ps \<and> list_at m' s qs \<and> map (el m') (ps @ qs) = map (el m) (ps @ qs) \<and>
        others m' (set ps \<union> set qs) = others m (set ps \<union> set qs) \<and>
        (\<forall>a. lives h' a = lives h a) \<and> lal s \<noteq> lal l \<and> \<not> generous h (lal l)))"

text \<open>What both calls do with a source that is not empty, \<open>f\<close> being what they do with the nodes.\<close>

definition list_transfer ::
  "(lst \<Rightarrow> lst \<Rightarrow> 'e nodes \<Rightarrow> (lst \<times> lst \<times> 'e nodes) option) \<Rightarrow> lst \<Rightarrow> lst \<Rightarrow> 'e nodes \<Rightarrow> heap \<Rightarrow>
   (tda_status \<times> lst \<times> lst \<times> 'e nodes \<times> heap) option" where
  "list_transfer f self src m h = do {
     (st, spare, m, h) \<leftarrow> nodes_for self src m h;
     if status_is_err st then Some (st, self, src, m, h)
     else do {
       (self, from, m) \<leftarrow> f self (case spare of None \<Rightarrow> src | Some s \<Rightarrow> s) m;
       (src, m, h) \<leftarrow> release_source src spare from m h;
       ASSERT_LIST self;
       ASSERT_LIST src;
       Some (TDA_STATUS_OK, self, src, m, h)
     }
   }"

lemma list_transfer_ok:
  assumes L: "lists_at m h l ps s qs" and ne: "qs \<noteq> []"
    and f: "\<And>m1 from rs. list_at m1 l ps \<Longrightarrow> list_at m1 from rs \<Longrightarrow> set ps \<inter> set rs = {} \<Longrightarrow> store_ok m1 \<Longrightarrow>
      lelem from = lelem l \<Longrightarrow> lal from = lal l \<Longrightarrow> rs \<noteq> [] \<Longrightarrow> map (el m1) ps = map (el m) ps \<Longrightarrow>
      map (el m1) rs = map (el m) qs \<Longrightarrow>
      \<exists>l' m' ts. f l from m1 = Some (l', list_set_empty from, m') \<and> list_at m' l' ts \<and> set ts = set ps \<union> set rs \<and>
        map (el m') ts = xs \<and> store_ok m' \<and> lelem l' = lelem l \<and> lal l' = lal l \<and>
        others m' (set ps \<union> set rs) = others m1 (set ps \<union> set rs)"
  shows "list_takes m h l ps s qs (list_transfer f l s m h) xs"
proof -
  have at: "list_at m l ps" "list_at m s qs" and apart: "set ps \<inter> set qs = {}" and ok: "store_ok m"
    and lay: "lelem s = lelem l" and own: "node_blocks l ps \<subseteq># lives h (lal l)" "node_blocks s qs \<subseteq># lives h (lal s)"
    using L unfolding lists_at_def by blast+
  have ks: "list_kind_ok (lelem s) (lal s)" and al: "lal l \<noteq> 0" using at by (simp_all add: list_at_def list_kind_ok_def)
  show ?thesis
  proof (cases "lal l = lal s")
    case True
    obtain l' m' ts where r: "f l s m = Some (l', list_set_empty s, m')" "list_at m' l' ts" "set ts = set ps \<union> set qs"
      "map (el m') ts = xs" "store_ok m'" "lelem l' = lelem l" "lal l' = lal l"
      "others m' (set ps \<union> set qs) = others m (set ps \<union> set qs)"
      using f [OF at apart ok lay True [symmetric] ne refl refl] by blast
    have e: "list_at m' (list_set_empty s) []" by (rule list_set_empty_at [OF ks])
    have "list_transfer f l s m h = Some (TDA_STATUS_OK, l', list_set_empty s, m', h)"
      using True r(1) list_at_assert [OF r(2,5)] list_at_assert [OF e r(5)]
      by (simp add: list_transfer_def nodes_for_def release_source_def status_is_err_iff)
    then show ?thesis
      using r e True by (auto simp: list_takes_def list_set_empty_def)
  next
    case two: False
    obtain st fr m1 h1 where c: "tda_list_copy_with s (lal l) m h = Some (st, (fr, m1), h1)" and ok1: "store_ok m1"
      and res: "if st = TDA_STATUS_OK
        then lelem fr = lelem l \<and> lal fr = lal l \<and> (\<exists>rs. list_at m1 fr rs \<and> map (el m1) rs = map (el m) qs \<and>
          others m1 (set rs) = others m {} \<and> requests h (lal l) {#} (node_blocks l rs) True h1)
        else others m1 {} = others m {} \<and> requests h (lal l) {#} {#} True h1 \<and> \<not> generous h (lal l)"
      using list_makesD [OF list_copy_ok [OF at(2) ok al, where h = h]] unfolding lay by (elim exE conjE)
    show ?thesis
    proof (cases "st = TDA_STATUS_OK")
      case no: False
      then have res: "others m1 {} = others m {}" "requests h (lal l) {#} {#} True h1" "\<not> generous h (lal l)"
        using res by simp_all
      have "list_transfer f l s m h = Some (st, l, s, m1, h1)"
        using two c no by (simp add: list_transfer_def nodes_for_def status_is_err_iff)
      moreover note list_at_others [OF at(1) _ res(1)] list_at_others [OF at(2) _ res(1)]
      moreover have "others m1 (set ps \<union> set qs) = others m (set ps \<union> set qs)"
        using others_union [OF res(1), of "set ps \<union> set qs"] by simp
      moreover have "\<forall>a. lives h1 a = lives h a" using res(2) by (simp add: requests_def)
      ultimately show ?thesis using no res(3) ok1 two by (auto simp: list_takes_def)
    next
      case yes: True
      then obtain rs where fr: "lelem fr = lelem l" "lal fr = lal l" "list_at m1 fr rs" "map (el m1) rs = map (el m) qs"
        "others m1 (set rs) = others m {}" "requests h (lal l) {#} (node_blocks l rs) True h1"
        using res by auto
      have len: "length rs = length qs" using arg_cong [OF fr(4), of length] by simp
      have at1: "list_at m1 l ps" "map (el m1) ps = map (el m) ps" "set ps \<inter> set rs = {}"
        "list_at m1 s qs" "map (el m1) qs = map (el m) qs" "set qs \<inter> set rs = {}"
        using list_at_others [OF at(1) _ fr(5)] list_at_others [OF at(2) _ fr(5)] by simp_all
      have "rs \<noteq> []" using len ne by auto
      then obtain l' m2 ts where r: "f l fr m1 = Some (l', list_set_empty fr, m2)" "list_at m2 l' ts"
        "set ts = set ps \<union> set rs" "map (el m2) ts = xs" "store_ok m2" "lelem l' = lelem l" "lal l' = lal l"
        "others m2 (set ps \<union> set rs) = others m1 (set ps \<union> set rs)"
        using f [OF at1(1) fr(3) at1(3) ok1 fr(1,2) _ at1(2) fr(4)] by blast
      have o2: "others m2 (set ts) = others m (set ps)"
        using r(3,8) others_union [OF fr(5), of "set ps"] by (simp add: Un_commute)
      have s2: "list_at m2 s qs" "set qs \<inter> set ts = {}"
        using list_at_others [OF at(2) _ o2] apart by auto
      have kf: "list_kind_ok (lelem fr) (lal fr)" using fr(3) by (simp add: list_at_def)
      have own0: "node_blocks (list_set_empty fr) [] \<subseteq># lives h1 (lal (list_set_empty fr))" by simp
      obtain m3 h2 where d: "tda_list_deinit (list_set_empty fr) m2 h1 = Some ((list_null, m3), h2)" "store_ok m3"
        "others m3 {} = others m2 {}" "requests h1 (lal fr) {#} {#} True h2"
        using list_deinit_at [OF list_set_empty_at [OF kf] r(5) own0] by (auto simp: list_set_empty_def)
      have s3: "list_at m3 s qs" "list_at m3 l' ts" "map (el m3) ts = xs"
        using list_at_others [OF s2(1) _ d(3)] list_at_others [OF r(2) _ d(3)] r(4) by simp_all
      have live: "lives h2 (lal s) = lives h (lal s)" "lives h2 = lives h1"
        using fr(2,6) d(4) two by (simp_all add: requests_def)
      have own2: "node_blocks s qs \<subseteq># lives h2 (lal s)" unfolding live(1) by (rule own(2))
      obtain m4 h3 where e: "list_clear_nodes s m3 h2 = Some ((list_set_empty s, m4), h3)" "list_at m4 (list_set_empty s) []"
        "store_ok m4" "others m4 {} = others m3 (set qs)" "requests h2 (lal s) (node_blocks s qs) {#} True h3"
        using clear_nodes_ok [OF s3(1) d(2) own2] by blast
      have t4: "list_at m4 l' ts" "map (el m4) ts = xs"
        using list_at_others [OF s3(2) _ e(4)] s2(2) s3(3) by auto
      have "list_transfer f l s m h = Some (TDA_STATUS_OK, l', list_set_empty s, m4, h3)"
        using two c yes r(1) d(1) e(1) list_at_assert [OF t4(1) e(3)] list_at_assert [OF e(2,3)]
        by (simp add: list_transfer_def nodes_for_def release_source_def status_is_err_iff)
      moreover have "others m4 (set ts) = others m (set ps \<union> set qs)"
        using others_union [OF e(4), of "set ts"] others_union [OF d(3), of "set qs \<union> set ts"]
          others_union [OF o2, of "set qs"] by (simp add: Un_commute)
      moreover have "requests h1 (lal s) (node_blocks s qs) {#} True h3"
        using e(5) d(4) live(2) by (simp add: requests_def)
      ultimately show ?thesis
        using t4 e(2,3) r(6,7) fr(6) len two unfolding list_takes_def
        by (intro exI [of _ TDA_STATUS_OK] exI [of _ l'] exI [of _ "list_set_empty s"] exI [of _ m4] exI [of _ h3])
          (auto simp: list_set_empty_def)
    qed
  qed
qed

lemma list_takes_none:
  assumes "lists_at m h l ps s []"
  shows "list_takes m h l ps s [] (Some (TDA_STATUS_OK, l, s, m, h)) (map (el m) ps)"
  using assms by (auto simp: list_takes_def lists_at_def requests_refl intro!: exI [of _ h] exI [of _ ps])

lemma splice_impl_eq:
  "splice_impl l s front m h = (if llen s = 0 then Some (TDA_STATUS_OK, l, s, m, h)
     else list_transfer (\<lambda>l s m. splice_nodes l s front m) l s m h)"
  by (simp add: splice_impl_def list_transfer_def)

lemma splice_impl_ok:
  assumes "lists_at m h l ps s qs"
  shows "list_takes m h l ps s qs (splice_impl l s front m h)
    (if front then map (el m) (qs @ ps) else map (el m) (ps @ qs))"
proof (cases "qs = []")
  case True
  then have "llen s = 0" using assms by (simp add: lists_at_def list_at_def)
  then show ?thesis using list_takes_none assms True by (simp add: splice_impl_eq)
next
  case False
  then have "llen s \<noteq> 0" using assms by (simp add: lists_at_def list_at_def)
  moreover have "list_takes m h l ps s qs (list_transfer (\<lambda>l s m. splice_nodes l s front m) l s m h)
    (if front then map (el m) (qs @ ps) else map (el m) (ps @ qs))"
  proof (rule list_transfer_ok [OF assms False])
    fix m1 "from" rs
    assume a: "list_at m1 l ps" "list_at m1 from rs" "set ps \<inter> set rs = {}" "store_ok m1" "lelem from = lelem l"
      "lal from = lal l" "rs \<noteq> []" and c: "map (el m1) ps = map (el m) ps" "map (el m1) rs = map (el m) qs"
    show "\<exists>l' m' ts. splice_nodes l from front m1 = Some (l', list_set_empty from, m') \<and> list_at m' l' ts \<and>
        set ts = set ps \<union> set rs \<and> map (el m') ts = (if front then map (el m) (qs @ ps) else map (el m) (ps @ qs)) \<and>
        store_ok m' \<and> lelem l' = lelem l \<and> lal l' = lal l \<and>
        others m' (set ps \<union> set rs) = others m1 (set ps \<union> set rs)"
      using splice_nodes_ok [OF a, of front] c by (cases front) fastforce+
  qed
  ultimately show ?thesis by (simp add: splice_impl_eq)
qed

end
