(* ===== verification/LinkedOrder.thy ===== *)
theory LinkedOrder
  imports LinkedLaws
begin

text \<open>
  The calls of \<open>Linked\<close> that put the nodes of a list in another order, drop some of them or read
  them all, and the two assignments. Then the list as a container, and its properties.
\<close>

section \<open>Reversing\<close>

lemma reverse_nodes_loop_ok:
  "links (nx m) qs 0 \<Longrightarrow> distinct qs \<Longrightarrow> set qs \<subseteq> places m \<Longrightarrow> 0 \<notin> places m \<Longrightarrow>
   reverse_nodes_loop (hd (qs @ [0])) m = Some (m\<lparr>nx := (\<lambda>p. if p \<in> set qs then pv m p else nx m p),
     pv := (\<lambda>p. if p \<in> set qs then nx m p else pv m p)\<rparr>)"
proof (induction qs arbitrary: m)
  case Nil
  then show ?case by (subst reverse_nodes_loop.simps) simp
next
  case (Cons q qs)
  have q: "q \<in> places m" "nx m q = hd (qs @ [0])" "q \<notin> set qs" using Cons.prems by auto
  have nz: "q \<noteq> 0" using q(1) Cons.prems(4) by metis
  define m1 where "m1 = m\<lparr>nx := (nx m)(q := pv m q), pv := (pv m)(q := nx m q)\<rparr>"
  have m1: "nx m1 = (nx m)(q := pv m q)" "pv m1 = (pv m)(q := nx m q)" "places m1 = places m" by (simp_all add: m1_def)
  have "reverse_nodes_loop (hd ((q # qs) @ [0])) m = reverse_nodes_loop (hd (qs @ [0])) m1"
    using q nz by (subst reverse_nodes_loop.simps) (simp add: nx_of_def pv_of_def set_nx_def set_pv_def m1_def)
  also have "\<dots> = Some (m1\<lparr>nx := (\<lambda>p. if p \<in> set qs then pv m1 p else nx m1 p),
     pv := (\<lambda>p. if p \<in> set qs then nx m1 p else pv m1 p)\<rparr>)"
  proof (rule Cons.IH)
    show "links (nx m1) qs 0" unfolding m1(1) using Cons.prems(1) links_upd [OF q(3)] by simp
  qed (use Cons.prems in \<open>simp_all add: m1(3)\<close>)
  also have "(\<lambda>p. if p \<in> set qs then pv m1 p else nx m1 p) = (\<lambda>p. if p \<in> set (q # qs) then pv m p else nx m p)"
    using q(3) by (auto simp: fun_eq_iff m1)
  also have "(\<lambda>p. if p \<in> set qs then nx m1 p else pv m1 p) = (\<lambda>p. if p \<in> set (q # qs) then nx m p else pv m p)"
    using q(3) by (auto simp: fun_eq_iff m1)
  finally show ?case by (simp add: m1_def)
qed

lemma list_reverse_ok:
  assumes held: "held_by list_view h (l, m)"
  shows "call_edits list_view (l, m) (tda_list_reverse l m) (rev (list_cells (l, m)), list_rest (l, m))"
proof -
  obtain ps where at: "list_at m l ps" and ok: "store_ok m" and c: "list_cells (l, m) = map (el m) ps" "ASSERT_LIST l = Some ()"
    "list_rest (l, m) = others m (set ps)"
    using held by (rule held_listE)
  have a: "links (nx m) ps 0" "links (pv m) (rev ps) 0" "distinct ps" "set ps \<subseteq> places m" "lhead l = hd (ps @ [0])"
    "ltail l = hd (rev ps @ [0])"
    using at by (simp_all add: list_at_def)
  let ?nx = "\<lambda>p. if p \<in> set ps then pv m p else nx m p" and ?pv = "\<lambda>p. if p \<in> set ps then nx m p else pv m p"
  let ?m = "m\<lparr>nx := ?nx, pv := ?pv\<rparr>" and ?l = "l\<lparr>lhead := ltail l, ltail := lhead l\<rparr>"
  have lk: "links ?nx (rev ps) 0" "links ?pv ps 0"
    using a(1,2) links_cong [of "rev ps" ?nx "pv m" 0] links_cong [of ps ?pv "nx m" 0] by simp_all
  have at': "list_at ?m ?l (rev ps)" using at a lk by (simp add: list_at_def)
  have ok': "store_ok ?m" using ok by (simp add: store_ok_def)
  have "0 \<notin> places m" using ok by (simp add: store_ok_def)
  then have "tda_list_reverse l m = Some (?l, ?m)"
    using reverse_nodes_loop_ok [OF a(1,3,4)] a(5) c(2) list_at_assert [OF at' ok'] by (simp add: tda_list_reverse_def)
  moreover have "others ?m (set (rev ps)) = list_rest (l, m)" unfolding c(3) by (auto simp: others_def fun_eq_iff)
  ultimately show ?thesis using list_edits [OF at ok at' ok'] c(1) by (simp add: rev_map)
qed

section \<open>Merging and sorting\<close>

text \<open>The value of a node's element.\<close>

abbreviation nval :: "'e nodes \<Rightarrow> nat \<Rightarrow> 'e" where
  "nval m p \<equiv> the (el m p)"

lemma elem_val_ok: "p \<in> places m \<Longrightarrow> el m p \<noteq> None \<Longrightarrow> elem_val m p = Some (nval m p)"
  by (auto simp: elem_val_def list_elem_of_def)

lemma map_smerge: "map f (smerge (\<lambda>p q. cmp (f p) (f q)) as bs) = smerge cmp (map f as) (map f bs)"
  by (induction "\<lambda>p q. cmp (f p) (f q)" as bs rule: smerge.induct) (simp_all add: tda_right_goes_first_def)

lemma merge_chains_loop_ok:
  "links (nx m) as 0 \<Longrightarrow> links (nx m) bs 0 \<Longrightarrow> distinct (as @ bs) \<Longrightarrow> set (as @ bs) \<subseteq> places m \<Longrightarrow>
   \<forall>p \<in> set (as @ bs). el m p \<noteq> None \<Longrightarrow> 0 \<notin> places m \<Longrightarrow> tail \<notin> set (as @ bs) \<Longrightarrow> tail = 0 \<or> tail \<in> places m \<Longrightarrow>
   \<exists>f. merge_chains_loop cmp (hd (as @ [0])) (hd (bs @ [0])) head tail m =
       Some (if tail = 0 then hd (smerge (\<lambda>p q. cmp (nval m p) (nval m q)) as bs @ [0]) else head, m\<lparr>nx := f\<rparr>) \<and>
     links f (smerge (\<lambda>p q. cmp (nval m p) (nval m q)) as bs) 0 \<and>
     (tail \<noteq> 0 \<longrightarrow> f tail = hd (smerge (\<lambda>p q. cmp (nval m p) (nval m q)) as bs @ [0])) \<and>
     (\<forall>p. p \<notin> set (as @ bs) \<and> p \<noteq> tail \<longrightarrow> f p = nx m p)"
proof (induction "length as + length bs" arbitrary: as bs head tail m rule: less_induct)
  case less
  let ?c = "\<lambda>p q. cmp (nval m p) (nval m q)"
  have in_places: "tail \<noteq> 0 \<Longrightarrow> tail \<in> places m" using less.prems(8) by simp
  have nz: "p \<noteq> 0" if "p \<in> set (as @ bs)" for p using that less.prems(4,6) by (metis subsetD)
  show ?case
  proof (cases "as = [] \<or> bs = []")
    case True
    then have z: "\<not> (hd (as @ [0]) \<noteq> 0 \<and> hd (bs @ [0]) \<noteq> 0)" by auto
    have ts: "smerge ?c as bs = as @ bs" using True by auto
    have h: "(if hd (as @ [0]) \<noteq> 0 then hd (as @ [0]) else hd (bs @ [0])) = hd ((as @ bs) @ [0])"
      using True nz by (cases as) auto
    have run: "merge_chains_loop cmp (hd (as @ [0])) (hd (bs @ [0])) head tail m =
        store_tail head tail (hd ((as @ bs) @ [0])) m"
      using z h by (subst merge_chains_loop.simps) (simp only: if_False)
    let ?f = "if tail = 0 then nx m else (nx m)(tail := hd ((as @ bs) @ [0]))"
    have "links (nx m) (as @ bs) 0" using True less.prems(1,2) by auto
    then have "links ?f (as @ bs) 0" using less.prems(7) by simp
    moreover have "store_tail head tail (hd ((as @ bs) @ [0])) m =
        Some (if tail = 0 then hd ((as @ bs) @ [0]) else head, m\<lparr>nx := ?f\<rparr>)"
      using in_places by (simp add: store_tail_def set_nx_def)
    ultimately show ?thesis unfolding run ts by (intro exI [of _ ?f]) simp
  next
    case False
    then obtain a as' b bs' where ab: "as = a # as'" "bs = b # bs'" by (cases as; cases bs) auto
    have val: "elem_val m a = Some (nval m a)" "elem_val m b = Some (nval m b)"
      using less.prems(4,5) elem_val_ok [of a m] elem_val_ok [of b m] ab by auto
    have nzab: "a \<noteq> 0" "b \<noteq> 0" "a \<noteq> b" "tail \<noteq> a" "tail \<noteq> b" using nz less.prems(3,7) ab by auto
    txt \<open>One node \<open>t\<close> goes to the tail.\<close>
    have step: "\<exists>f. merge_chains_loop cmp (hd (cs @ [0])) (hd (ds @ [0])) (if tail = 0 then t else head) t
          (if tail = 0 then m else m\<lparr>nx := (nx m)(tail := t)\<rparr>) =
          Some (if tail = 0 then t else head, m\<lparr>nx := f\<rparr>) \<and>
        links f (t # smerge ?c cs ds) 0 \<and> (tail \<noteq> 0 \<longrightarrow> f tail = t) \<and>
        (\<forall>p. p \<notin> set (as @ bs) \<and> p \<noteq> tail \<longrightarrow> f p = nx m p)"
      if t: "set (t # cs @ ds) = set (as @ bs)" "distinct (t # cs @ ds)" "length cs + length ds < length as + length bs"
        "links (nx m) cs 0" "links (nx m) ds 0" for t cs ds
    proof -
      define m1 where "m1 = (if tail = 0 then m else m\<lparr>nx := (nx m)(tail := t)\<rparr>)"
      have m1: "places m1 = places m" "el m1 = el m" "nx m1 = (if tail = 0 then nx m else (nx m)(tail := t))"
        "\<And>f. m1\<lparr>nx := f\<rparr> = m\<lparr>nx := f\<rparr>"
        by (simp_all add: m1_def)
      have tin: "t \<in> set (as @ bs)" "t \<notin> set (cs @ ds)" "tail \<notin> set (cs @ ds)" "tail \<noteq> t"
        using t(1,2) less.prems(7) by auto
      have sub: "set (cs @ ds) \<subseteq> set (as @ bs)" using t(1) by auto
      have lk: "links (nx m1) cs 0" "links (nx m1) ds 0" using t(4,5) tin(3) by (simp_all add: m1)
      have tp: "t \<in> places m" "t \<noteq> 0" using tin(1) less.prems(4) nz by auto
      have di: "distinct (cs @ ds)" using t(2) by simp
      have pl: "set (cs @ ds) \<subseteq> places m1" "\<forall>p \<in> set (cs @ ds). el m1 p \<noteq> None" "0 \<notin> places m1" "t = 0 \<or> t \<in> places m1"
        using sub less.prems(4-6) tp(1) by (auto simp: m1)
      note ih = less.hyps [OF t(3) lk di pl(1-3) tin(2) pl(4), where head = "if tail = 0 then t else head"]
      obtain f where f: "merge_chains_loop cmp (hd (cs @ [0])) (hd (ds @ [0])) (if tail = 0 then t else head) t m1 =
          Some (if tail = 0 then t else head, m\<lparr>nx := f\<rparr>)"
        "links f (smerge ?c cs ds) 0" "f t = hd (smerge ?c cs ds @ [0])"
        "\<forall>p. p \<notin> set (cs @ ds) \<and> p \<noteq> t \<longrightarrow> f p = nx m1 p"
        using ih tp(2) unfolding m1(2,4) by (simp only: if_False if_True simp_thms) blast
      have ft: "f tail = t" if "tail \<noteq> 0" using f(4) tin(3,4) that by (auto simp: m1)
      have fo: "f p = nx m p" if "p \<notin> set (as @ bs)" "p \<noteq> tail" for p
        using f(4) that tin(1) sub by (auto simp: m1 split: if_splits)
      have fl: "links f (t # smerge ?c cs ds) 0" using f(2,3) by simp
      have "(tail \<noteq> 0 \<longrightarrow> f tail = t) \<and> (\<forall>p. p \<notin> set (as @ bs) \<and> p \<noteq> tail \<longrightarrow> f p = nx m p)"
        using ft fo by blast
      then show ?thesis unfolding m1_def [symmetric] by (intro exI [of _ f] conjI f(1) fl; elim conjE)
    qed
    show ?thesis
    proof (cases "tda_right_goes_first cmp (nval m a) (nval m b)")
      case right: True
      let ?m = "if tail = 0 then m else m\<lparr>nx := (nx m)(tail := b)\<rparr>"
      have nb: "nx_of ?m b = Some (hd (bs' @ [0]))" using less.prems(2,4) ab nzab by (simp add: nx_of_def)
      have st: "store_tail head tail b m = Some (if tail = 0 then b else head, ?m)"
        using in_places by (simp add: store_tail_def set_nx_def)
      have run: "merge_chains_loop cmp (hd (as @ [0])) (hd (bs @ [0])) head tail m =
          merge_chains_loop cmp (hd (as @ [0])) (hd (bs' @ [0])) (if tail = 0 then b else head) b ?m"
        using ab val nzab right st nb by (subst merge_chains_loop.simps) simp
      have ts: "smerge ?c as bs = b # smerge ?c as bs'" using ab right by (simp add: tda_right_goes_first_def)
      have e: "set (b # as @ bs') = set (as @ bs)" unfolding ab by auto
      have "distinct (b # as @ bs')" "links (nx m) as 0" "links (nx m) bs' 0" using less.prems(1-3) ab by auto
      then show ?thesis unfolding run ts using step [OF e] ab(2) by (simp split del: if_split cong: if_cong)
    next
      case left: False
      let ?m = "if tail = 0 then m else m\<lparr>nx := (nx m)(tail := a)\<rparr>"
      have na: "nx_of ?m a = Some (hd (as' @ [0]))" using less.prems(1,4) ab nzab by (simp add: nx_of_def)
      have st: "store_tail head tail a m = Some (if tail = 0 then a else head, ?m)"
        using in_places by (simp add: store_tail_def set_nx_def)
      have run: "merge_chains_loop cmp (hd (as @ [0])) (hd (bs @ [0])) head tail m =
          merge_chains_loop cmp (hd (as' @ [0])) (hd (bs @ [0])) (if tail = 0 then a else head) a ?m"
        using ab val nzab left st na by (subst merge_chains_loop.simps) simp
      have ts: "smerge ?c as bs = a # smerge ?c as' bs" using ab left by (simp add: tda_right_goes_first_def)
      have e: "set (a # as' @ bs) = set (as @ bs)" unfolding ab by auto
      have "distinct (a # as' @ bs)" "links (nx m) as' 0" "links (nx m) bs 0" using less.prems(1-3) ab by auto
      then show ?thesis unfolding run ts using step [OF e] ab(1) by (simp split del: if_split cong: if_cong)
    qed
  qed
qed


lemma merge_chains_ok:
  assumes "links (nx m) as 0" "links (nx m) bs 0" "distinct (as @ bs)" "set (as @ bs) \<subseteq> places m"
    "\<forall>p \<in> set (as @ bs). el m p \<noteq> None" "0 \<notin> places m"
  shows "\<exists>f ts. merge_chains cmp (hd (as @ [0])) (hd (bs @ [0])) m = Some (hd (ts @ [0]), m\<lparr>nx := f\<rparr>) \<and>
    links f ts 0 \<and> mset ts = mset as + mset bs \<and> (\<forall>p. p \<notin> set (as @ bs) \<and> p \<noteq> 0 \<longrightarrow> f p = nx m p) \<and>
    map (nval m) ts = smerge cmp (map (nval m) as) (map (nval m) bs)"
proof -
  let ?ts = "smerge (\<lambda>p q. cmp (nval m p) (nval m q)) as bs"
  have z: "0 \<notin> set (as @ bs)" using assms(4,6) by blast
  obtain f where f: "merge_chains_loop cmp (hd (as @ [0])) (hd (bs @ [0])) 0 0 m = Some (hd (?ts @ [0]), m\<lparr>nx := f\<rparr>)"
    "links f ?ts 0" "\<forall>p. p \<notin> set (as @ bs) \<and> p \<noteq> 0 \<longrightarrow> f p = nx m p"
    using merge_chains_loop_ok [OF assms z, of cmp 0] by auto
  show ?thesis unfolding merge_chains_def
    by (intro exI [of _ f] exI [of _ ?ts] conjI f) (simp, rule map_smerge)
qed

lemma list_skip_ok:
  "links (nx m) (as @ bs) 0 \<Longrightarrow> set (as @ bs) \<subseteq> places m \<Longrightarrow> 0 \<notin> places m \<Longrightarrow>
   list_skip m (hd ((as @ bs) @ [0])) (length as) = Some (hd (bs @ [0]))"
proof (induction as)
  case (Cons a as)
  then have "a \<in> places m" "nx_of m a = Some (hd ((as @ bs) @ [0]))" by (auto simp: nx_of_def)
  moreover from this have "a \<noteq> 0" using Cons.prems(3) by metis
  ultimately show ?case using Cons by simp
qed simp

lemma sort_chain_ok:
  "length ps = n \<Longrightarrow> ps \<noteq> [] \<Longrightarrow> links (nx m) ps 0 \<Longrightarrow> distinct ps \<Longrightarrow> set ps \<subseteq> places m \<Longrightarrow>
   \<forall>p \<in> set ps. el m p \<noteq> None \<Longrightarrow> 0 \<notin> places m \<Longrightarrow>
   \<exists>f ts. sort_chain cmp (hd ps) n m = Some (hd ts, m\<lparr>nx := f\<rparr>) \<and> links f ts 0 \<and> mset ts = mset ps \<and>
     (\<forall>p. p \<notin> set ps \<and> p \<noteq> 0 \<longrightarrow> f p = nx m p) \<and>
     (total_cmp cmp \<longrightarrow> sorted_by cmp (map (nval m) ts) \<and> same_order cmp (map (nval m) ts) (map (nval m) ps))"
proof (induction n arbitrary: ps m rule: less_induct)
  case (less n)
  have hd: "hd ps \<noteq> 0" using less.prems(2,5,7) by (metis hd_in_set subsetD)
  show ?case
  proof (cases "n < 2")
    case True
    then obtain p where "ps = [p]" using less.prems(1,2) by (cases ps) auto
    then show ?thesis
      using True less.prems(3) hd by (subst sort_chain.simps) (auto intro!: exI [of _ "nx m"] exI [of _ "[p]"])
  next
    case False
    define as bs where "as = take (n div 2) ps" and "bs = drop (n div 2) ps"
    have ps: "ps = as @ bs" by (simp add: as_def bs_def)
    have len: "length as = n div 2" "length bs = n - n div 2" using less.prems(1) by (simp_all add: as_def bs_def)
    have ne: "as \<noteq> []" "bs \<noteq> []" using len False by auto
    obtain cs t where cs: "as = cs @ [t]" using ne(1) by (cases as rule: rev_cases) auto
    have lt: "length cs = n div 2 - 1" using len(1) cs by simp
    have t: "t \<in> places m" "nx m t = hd bs" "t \<notin> set cs" "t \<notin> set bs"
      using less.prems(3-5) ne(2) by (auto simp: ps cs links_append)
    have "list_skip m (hd ps) (length cs) = Some t"
      using list_skip_ok [of m cs "t # bs"] less.prems(3,5,7) by (cases cs) (simp_all add: ps cs)
    note skip = this [unfolded lt]
    let ?m1 = "m\<lparr>nx := (nx m)(t := 0)\<rparr>"
    have d: "distinct as" "distinct bs" "set as \<inter> set bs = {}" "set as \<subseteq> places m" "set bs \<subseteq> places m"
      "\<forall>p \<in> set as. el m p \<noteq> None" "\<forall>p \<in> set bs. el m p \<noteq> None"
      using less.prems(4-6) by (auto simp: ps)
    have l1: "links (nx ?m1) as 0" "links (nx ?m1) bs 0"
      using links_last [of "nx m" cs t "hd bs" 0] less.prems(3) ne(2) t(3,4) by (simp_all add: ps cs links_append)
    have small: "n div 2 < n" "n - n div 2 < n" using False by auto
    obtain f1 ts1 where s1: "sort_chain cmp (hd as) (n div 2) ?m1 = Some (hd ts1, m\<lparr>nx := f1\<rparr>)" "links f1 ts1 0"
      "mset ts1 = mset as" "\<forall>p. p \<notin> set as \<and> p \<noteq> 0 \<longrightarrow> f1 p = nx ?m1 p"
      "total_cmp cmp \<longrightarrow> sorted_by cmp (map (nval m) ts1) \<and> same_order cmp (map (nval m) ts1) (map (nval m) as)"
      using less.IH [OF small(1) len(1) ne(1) l1(1) d(1)] d(4,6) less.prems(7) by auto
    let ?m2 = "m\<lparr>nx := f1\<rparr>"
    have set1: "set ts1 = set as" using s1(3) by (metis set_mset_mset)
    have apart: "p \<in> set bs \<Longrightarrow> p \<notin> set as \<and> p \<noteq> 0" "p \<in> set as \<Longrightarrow> p \<notin> set bs \<and> p \<noteq> 0" for p
      using d(3-5) less.prems(7) by (metis IntI empty_iff subsetD)+
    have "f1 p = nx ?m1 p" if "p \<in> set bs" for p using apart(1) [OF that] s1(4) by blast
    from links_cong [of bs f1 "nx ?m1" 0, OF this] have "links f1 bs 0" using l1(2) by simp
    then obtain f2 ts2 where s2: "sort_chain cmp (hd bs) (n - n div 2) ?m2 = Some (hd ts2, m\<lparr>nx := f2\<rparr>)" "links f2 ts2 0"
      "mset ts2 = mset bs" "\<forall>p. p \<notin> set bs \<and> p \<noteq> 0 \<longrightarrow> f2 p = f1 p"
      "total_cmp cmp \<longrightarrow> sorted_by cmp (map (nval m) ts2) \<and> same_order cmp (map (nval m) ts2) (map (nval m) bs)"
      using less.IH [OF small(2) len(2) ne(2), of ?m2] d(2,5,7) less.prems(7) by auto
    have set2: "set ts2 = set bs" using s2(3) by (metis set_mset_mset)
    have "f2 p = f1 p" if "p \<in> set ts1" for p using apart(2) [OF that [unfolded set1]] s2(4) by blast
    from links_cong [of ts1 f2 f1 0, OF this] have lk2: "links f2 ts1 0" using s1(2) by simp
    have nets: "ts1 \<noteq> []" "ts2 \<noteq> []" using s1(3) s2(3) ne by auto
    have dts: "distinct (ts1 @ ts2)"
      using d(1-3) s1(3) s2(3) set1 set2 by (metis distinct_append mset_eq_imp_distinct_iff)
    let ?m3 = "m\<lparr>nx := f2\<rparr>"
    have en: "\<forall>p \<in> set (ts1 @ ts2). el ?m3 p \<noteq> None" using d(6,7) by (simp add: set1 set2 ball_Un)
    obtain f ts where r: "merge_chains cmp (hd ts1) (hd ts2) ?m3 = Some (hd (ts @ [0]), m\<lparr>nx := f\<rparr>)" "links f ts 0"
      "mset ts = mset ts1 + mset ts2" "\<forall>p. p \<notin> set (ts1 @ ts2) \<and> p \<noteq> 0 \<longrightarrow> f p = f2 p"
      "map (nval m) ts = smerge cmp (map (nval m) ts1) (map (nval m) ts2)"
      using merge_chains_ok [of ?m3 ts1 ts2 cmp] lk2 s2(2) dts en set1 set2 d(4,5) less.prems(7) nets by auto
    have "ts \<noteq> []" using r(3) nets by auto
    then have run: "sort_chain cmp (hd ps) n m = Some (hd ts, m\<lparr>nx := f\<rparr>)"
      using False hd skip s1(1) s2(1) r(1) t(1,2) ne by (subst sort_chain.simps) (simp add: nx_of_def set_nx_def ps)
    have ms: "mset ts = mset ps" using r(3) s1(3) s2(3) by (simp add: ps)
    have fr: "f p = nx m p" if "p \<notin> set ps" "p \<noteq> 0" for p
      using that r(4) s2(4) s1(4) set1 set2 by (auto simp: ps cs)
    have so: "sorted_by cmp (map (nval m) ts) \<and> same_order cmp (map (nval m) ts) (map (nval m) ps)" if "total_cmp cmp"
      using that s1(5) s2(5) total_cmp.smerge_sorted [OF that] total_cmp.smerge_same_order [OF that]
        same_order_append [of cmp "map (nval m) ts1" "map (nval m) as" "map (nval m) ts2" "map (nval m) bs"]
      unfolding r(5) ps map_append by (blast intro: same_order_trans)
    show ?thesis using run r(2) ms fr so by blast
  qed
qed

lemma relink_prev_loop_ok:
  "links (nx m) ps 0 \<Longrightarrow> distinct ps \<Longrightarrow> set ps \<subseteq> places m \<Longrightarrow> 0 \<notin> places m \<Longrightarrow>
   \<exists>g. relink_prev_loop prev (hd (ps @ [0])) m = Some (hd (rev ps @ [prev]), m\<lparr>pv := g\<rparr>) \<and>
     links g (rev ps) prev \<and> (\<forall>p. p \<notin> set ps \<longrightarrow> g p = pv m p)"
proof (induction ps arbitrary: prev m)
  case Nil
  then show ?case by (subst relink_prev_loop.simps) (auto intro: exI [of _ "pv m"])
next
  case (Cons p ps)
  have p: "p \<in> places m" "nx m p = hd (ps @ [0])" "p \<notin> set ps" using Cons.prems by auto
  have nz: "p \<noteq> 0" using p(1) Cons.prems(4) by metis
  let ?m = "m\<lparr>pv := (pv m)(p := prev)\<rparr>"
  obtain g where g: "relink_prev_loop p (hd (ps @ [0])) ?m = Some (hd (rev ps @ [p]), m\<lparr>pv := g\<rparr>)" "links g (rev ps) p"
    "\<forall>q. q \<notin> set ps \<longrightarrow> g q = pv ?m q"
    using Cons.IH [of ?m p] Cons.prems by auto
  have "relink_prev_loop prev (hd ((p # ps) @ [0])) m = Some (hd (rev (p # ps) @ [prev]), m\<lparr>pv := g\<rparr>)"
    using p nz g(1) by (subst relink_prev_loop.simps) (simp add: set_pv_def nx_of_def hd_append)
  moreover have "links g (rev (p # ps)) prev" using g(2,3) p(3) by (simp add: links_append)
  ultimately show ?case using g(3) by (intro exI [of _ g]) auto
qed

text \<open>The back links of a chain, and with them a list again.\<close>

lemma relink_prev_ok:
  assumes ts: "links f ts 0" "distinct ts" "set ts \<subseteq> places m" and ok: "store_ok m"
    and l: "lhead l = hd (ts @ [0])" "llen l = length ts" "list_kind_ok (lelem l) (lal l)"
    and fr: "\<forall>p. p \<notin> set ts \<and> p \<noteq> 0 \<longrightarrow> f p = nx m p"
  shows "\<exists>l' m'. relink_prev l (m\<lparr>nx := f\<rparr>) = Some (l', m') \<and> list_at m' l' ts \<and> el m' = el m \<and> store_ok m' \<and>
    lelem l' = lelem l \<and> lal l' = lal l \<and> others m' (set ts) = others m (set ts)"
proof -
  have z: "0 \<notin> places m" using ok by (simp add: store_ok_def)
  obtain g where g: "relink_prev_loop 0 (hd (ts @ [0])) (m\<lparr>nx := f\<rparr>) = Some (hd (rev ts @ [0]), m\<lparr>nx := f, pv := g\<rparr>)"
    "links g (rev ts) 0" "\<forall>p. p \<notin> set ts \<longrightarrow> g p = pv m p"
    using relink_prev_loop_ok [of "m\<lparr>nx := f\<rparr>" ts 0] ts z by auto
  let ?l = "l\<lparr>ltail := hd (rev ts @ [0])\<rparr>" and ?m = "m\<lparr>nx := f, pv := g\<rparr>"
  have "relink_prev l (m\<lparr>nx := f\<rparr>) = Some (?l, ?m)" using g(1) l(1) by (simp add: relink_prev_def)
  moreover have "list_at ?m ?l ts" using ts g(2) l by (simp add: list_at_def)
  moreover have "store_ok ?m" using ok by (simp add: store_ok_def)
  moreover have "others ?m (set ts) = others m (set ts)"
  proof
    fix p
    show "others ?m (set ts) p = others m (set ts) p"
    proof (cases "p \<in> places m - set ts")
      case True
      then have "p \<noteq> 0" using z by (metis DiffD1)
      then show ?thesis using True fr g(3) by (simp add: others_def)
    qed (auto simp: others_def)
  qed
  ultimately show ?thesis by (intro exI [of _ ?l] exI [of _ ?m]) simp
qed

lemma map_el_nval: "map (el m) ps = map Some xs \<Longrightarrow> map (nval m) ps = xs \<and> (\<forall>p \<in> set ps. el m p \<noteq> None)"
  by (induction ps arbitrary: xs) (auto simp: Cons_eq_map_conv)

lemma map_nval_el: "\<forall>p \<in> set ps. el m p \<noteq> None \<Longrightarrow> map (el m) ps = map Some (map (nval m) ps)"
  by (induction ps) auto

lemma list_sort_ok:
  assumes held: "held_by list_view h (l, m)" and xs: "list_cells (l, m) = map Some xs"
  shows "\<exists>t. call_edits list_view (l, m) (tda_list_sort cmp l m) (map Some t, list_rest (l, m)) \<and> mset t = mset xs \<and>
    (total_cmp cmp \<longrightarrow> sorted_by cmp t \<and> same_order cmp t xs)"
proof -
  obtain ps where at: "list_at m l ps" and ok: "store_ok m" and c: "list_cells (l, m) = map (el m) ps" "ASSERT_LIST l = Some ()"
    "list_rest (l, m) = others m (set ps)" "llen l = length ps"
    using held by (rule held_listE)
  have v: "map (nval m) ps = xs" "\<forall>p \<in> set ps. el m p \<noteq> None" using map_el_nval [of m ps xs] xs c(1) by simp_all
  have a: "links (nx m) ps 0" "distinct ps" "set ps \<subseteq> places m" "lhead l = hd (ps @ [0])" "list_kind_ok (lelem l) (lal l)"
    using at by (simp_all add: list_at_def)
  have z: "0 \<notin> places m" using ok by (simp add: store_ok_def)
  show ?thesis
  proof (cases "length ps < 2")
    case True
    then have "length xs < 2" using v(1) by auto
    then have "sorted_by cmp xs" by (cases xs; cases "tl xs") auto
    moreover have "call_edits list_view (l, m) (tda_list_sort cmp l m) (map Some xs, list_rest (l, m))"
      using list_edits [OF at ok at ok refl refl refl] c xs True by (simp add: tda_list_sort_def)
    ultimately show ?thesis by (intro exI [of _ xs]) simp
  next
    case False
    then have ne: "ps \<noteq> []" by auto
    obtain f ts where s: "sort_chain cmp (hd ps) (length ps) m = Some (hd ts, m\<lparr>nx := f\<rparr>)" "links f ts 0" "mset ts = mset ps"
      "\<forall>p. p \<notin> set ps \<and> p \<noteq> 0 \<longrightarrow> f p = nx m p"
      "total_cmp cmp \<longrightarrow> sorted_by cmp (map (nval m) ts) \<and> same_order cmp (map (nval m) ts) (map (nval m) ps)"
      using sort_chain_ok [OF refl ne a(1-3) v(2) z] by blast
    have ts: "set ts = set ps" "distinct ts" "length ts = length ps" "ts \<noteq> []"
      using s(3) a(2) ne by (metis set_mset_mset, metis mset_eq_imp_distinct_iff, metis size_mset, auto)
    have l: "lhead (l\<lparr>lhead := hd ts\<rparr>) = hd (ts @ [0])" "llen (l\<lparr>lhead := hd ts\<rparr>) = length ts"
      "list_kind_ok (lelem (l\<lparr>lhead := hd ts\<rparr>)) (lal (l\<lparr>lhead := hd ts\<rparr>))"
      using ts(3,4) c(4) a(5) by simp_all
    have pl: "set ts \<subseteq> places m" "\<forall>p. p \<notin> set ts \<and> p \<noteq> 0 \<longrightarrow> f p = nx m p" using a(3) s(4) ts(1) by simp_all
    obtain l' m' where r: "relink_prev (l\<lparr>lhead := hd ts\<rparr>) (m\<lparr>nx := f\<rparr>) = Some (l', m')" "list_at m' l' ts" "el m' = el m"
      "store_ok m'" "lelem l' = lelem l" "lal l' = lal l" "others m' (set ts) = others m (set ts)"
      using relink_prev_ok [OF s(2) ts(2) pl(1) ok l pl(2)] by auto
    have run: "tda_list_sort cmp l m = Some (l', m')"
      using False c(2,4) a(4) ne s(1) r(1) list_at_assert [OF r(2,4)] by (simp add: tda_list_sort_def)
    have cells: "map (el m') ts = map Some (map (nval m) ts)" using map_nval_el [of ts m] v(2) ts(1) r(3) by simp
    have "call_edits list_view (l, m) (tda_list_sort cmp l m) (map Some (map (nval m) ts), list_rest (l, m))"
      unfolding run using list_edits [OF at ok r(2,4-6) ts(3) cells] r(7) ts(1) c(3) by simp
    moreover have "mset (map (nval m) ts) = mset xs" using s(3) v(1) by (metis mset_map)
    ultimately show ?thesis using s(5) v(1) by blast
  qed
qed

lemma list_merge_ok:
  assumes L: "lists_at m h l ps s qs" and xs: "map (el m) ps = map Some xs" "map (el m) qs = map Some ys"
  shows "list_takes m h l ps s qs (tda_list_merge cmp False l s m h) (map Some (smerge cmp xs ys))"
proof -
  have at: "list_at m l ps" "list_at m s qs" and ok: "store_ok m" and lay: "lelem s = lelem l"
    using L unfolding lists_at_def by blast+
  have as: "ASSERT_LIST l = Some ()" "ASSERT_LIST s = Some ()" "EXPECT_SAME_LIST l s = Some ()" "llen s = length qs"
    using list_at_assert [OF at(1) ok] list_at_assert [OF at(2) ok] lay at(2)
    by (simp_all add: EXPECT_SAME_LIST_def tda_layout_eq_def list_at_def)
  have eq: "tda_list_merge cmp False l s m h = (if llen s = 0 then Some (TDA_STATUS_OK, l, s, m, h)
      else list_transfer (merge_into cmp) l s m h)"
    using as(1-3) by (simp add: tda_list_merge_def list_transfer_def)
  show ?thesis
  proof (cases "qs = []")
    case True
    then have "ys = []" using xs(2) by simp
    then show ?thesis using list_takes_none [of m h l ps s] L True as(4) xs(1) by (simp add: eq)
  next
    case False
    have "list_takes m h l ps s qs (list_transfer (merge_into cmp) l s m h) (map Some (smerge cmp xs ys))"
    proof (rule list_transfer_ok [OF L False])
      fix m1 "from" rs
      assume a: "list_at m1 l ps" "list_at m1 from rs" "set ps \<inter> set rs = {}" "store_ok m1" "lelem from = lelem l"
        "lal from = lal l" "rs \<noteq> []" and c: "map (el m1) ps = map (el m) ps" "map (el m1) rs = map (el m) qs"
      have v: "map (nval m1) ps = xs" "map (nval m1) rs = ys" "\<forall>p \<in> set (ps @ rs). el m1 p \<noteq> None"
        using map_el_nval [of m1 ps xs] map_el_nval [of m1 rs ys] c xs by auto
      have z: "0 \<notin> places m1" using a(4) by (simp add: store_ok_def)
      have d: "links (nx m1) ps 0" "links (nx m1) rs 0" "distinct (ps @ rs)" "set (ps @ rs) \<subseteq> places m1"
        and e: "lhead l = hd (ps @ [0])" "lhead from = hd (rs @ [0])" "llen l = length ps" "llen from = length rs"
        and k: "list_kind_ok (lelem l) (lal l)" "list_kind_ok (lelem from) (lal from)"
        using a(1-3) by (simp_all add: list_at_def)
      obtain f ts where r: "merge_chains cmp (hd (ps @ [0])) (hd (rs @ [0])) m1 = Some (hd (ts @ [0]), m1\<lparr>nx := f\<rparr>)"
        "links f ts 0" "mset ts = mset ps + mset rs" "\<forall>p. p \<notin> set (ps @ rs) \<and> p \<noteq> 0 \<longrightarrow> f p = nx m1 p"
        "map (nval m1) ts = smerge cmp (map (nval m1) ps) (map (nval m1) rs)"
        using merge_chains_ok [OF d v(3) z] by blast
      have mts: "mset ts = mset (ps @ rs)" using r(3) by simp
      have ts: "set ts = set (ps @ rs)" "distinct ts" "length ts = length (ps @ rs)"
        using mts d(3) by (metis set_mset_mset, metis mset_eq_imp_distinct_iff, metis size_mset)
      let ?l = "l\<lparr>lhead := hd (ts @ [0]), llen := llen l + llen from\<rparr>"
      have l: "lhead ?l = hd (ts @ [0])" "llen ?l = length ts" "list_kind_ok (lelem ?l) (lal ?l)"
        using ts(3) e(3,4) k(1) by simp_all
      have pl: "set ts \<subseteq> places m1" "\<forall>p. p \<notin> set ts \<and> p \<noteq> 0 \<longrightarrow> f p = nx m1 p" using d(4) r(4) ts(1) by simp_all
      obtain l' m' where p: "relink_prev ?l (m1\<lparr>nx := f\<rparr>) = Some (l', m')" "list_at m' l' ts" "el m' = el m1" "store_ok m'"
        "lelem l' = lelem l" "lal l' = lal l" "others m' (set ts) = others m1 (set ts)"
        using relink_prev_ok [OF r(2) ts(2) pl(1) a(4) l pl(2)] by auto
      have "merge_into cmp l from m1 = Some (l', list_set_empty from, m')"
        using r(1) e(1,2,4) p(1) a(5-7) list_at_assert [OF p(2,4)] list_at_assert [OF list_set_empty_at [OF k(2)] a(4)]
        by (simp add: merge_into_def tda_layout_eq_def Let_def)
      moreover have "map (el m') ts = map Some (smerge cmp xs ys)"
        using map_nval_el [of ts m1] v ts(1) r(5) p(3) by simp
      ultimately show "\<exists>l' m' ts. merge_into cmp l from m1 = Some (l', list_set_empty from, m') \<and> list_at m' l' ts \<and>
          set ts = set ps \<union> set rs \<and> map (el m') ts = map Some (smerge cmp xs ys) \<and> store_ok m' \<and>
          lelem l' = lelem l \<and> lal l' = lal l \<and> others m' (set ps \<union> set rs) = others m1 (set ps \<union> set rs)"
        using p ts(1) by auto
    qed
    then show ?thesis using False as(4) by (simp add: eq)
  qed
qed

section \<open>Dropping and reading the elements\<close>

lemma retain_loop_ok:
  "list_at m l (as @ bs) \<Longrightarrow> store_ok m \<Longrightarrow> node_blocks l (as @ bs) \<subseteq># lives h (lal l) \<Longrightarrow> \<forall>p \<in> set bs. el m p \<noteq> None \<Longrightarrow>
   \<exists>l' m' h'. list_retain_loop P l (hd (bs @ [0])) m h = Some ((l', m'), h') \<and>
     list_at m' l' (as @ filter (\<lambda>p. P (nval m p)) bs) \<and> store_ok m' \<and> lelem l' = lelem l \<and> lal l' = lal l \<and> el m' = el m \<and>
     others m' (set (as @ filter (\<lambda>p. P (nval m p)) bs)) = others m (set (as @ bs)) \<and>
     requests h (lal l) (node_blocks l (as @ bs)) (node_blocks l (as @ filter (\<lambda>p. P (nval m p)) bs)) True h'"
proof (induction bs arbitrary: as l m h)
  case Nil
  then show ?case by (subst list_retain_loop.simps) (simp add: requests_refl)
next
  case (Cons b bs)
  have b: "nx_of m b = Some (hd (bs @ [0]))" "elem_val m b = Some (nval m b)"
    using list_at_links [OF Cons.prems(1)] Cons.prems(4) elem_val_ok [of b m] by (auto simp: nx_of_def)
  have nz: "b \<noteq> 0" using list_at_links(3) [OF Cons.prems(1)] Cons.prems(2) unfolding store_ok_def by metis
  show ?case
  proof (cases "P (nval m b)")
    case True
    have "list_retain_loop P l (hd ((b # bs) @ [0])) m h = list_retain_loop P l (hd (bs @ [0])) m h"
      using b nz True by (subst list_retain_loop.simps) simp
    then show ?thesis using Cons.IH [of m l "as @ [b]" h] Cons.prems True by simp
  next
    case False
    obtain l1 m1 h1 where r: "list_remove_node l b m h = Some ((l1, m1), h1)" "list_at m1 l1 (as @ bs)" "store_ok m1"
      "lelem l1 = lelem l" "lal l1 = lal l" "el m1 = el m" "others m1 (set (as @ bs)) = others m (set (as @ b # bs))"
      "requests h (lal l) {#node_lay (lelem l)#} {#} True h1"
      using remove_node_ok [OF Cons.prems(1-3)] by blast
    have less: "requests h (lal l) (node_blocks l (as @ b # bs)) (node_blocks l (as @ bs)) True h1"
      using requests_less [OF r(8) _ Cons.prems(3)] by simp
    have own: "node_blocks l1 (as @ bs) \<subseteq># lives h1 (lal l1)" using requests_lives [OF less] r(4,5) by simp
    obtain l' m' h' where i: "list_retain_loop P l1 (hd (bs @ [0])) m1 h1 = Some ((l', m'), h')"
      "list_at m' l' (as @ filter (\<lambda>p. P (nval m p)) bs)" "store_ok m'" "lelem l' = lelem l" "lal l' = lal l" "el m' = el m"
      "others m' (set (as @ filter (\<lambda>p. P (nval m p)) bs)) = others m1 (set (as @ bs))"
      "requests h1 (lal l) (node_blocks l (as @ bs)) (node_blocks l (as @ filter (\<lambda>p. P (nval m p)) bs)) True h'"
      using Cons.IH [OF r(2,3) own] Cons.prems(4) r(4-6) by auto
    have "list_retain_loop P l (hd ((b # bs) @ [0])) m h = Some ((l', m'), h')"
      using b nz False r(1) i(1) by (subst list_retain_loop.simps) simp
    moreover have "requests h (lal l) (node_blocks l (as @ b # bs)) (node_blocks l (as @ filter (\<lambda>p. P (nval m p)) bs)) True h'"
      by (rule requests_trans [OF less i(8)])
    ultimately show ?thesis using i(2-7) r(7) False by simp
  qed
qed

lemma list_retain_ok:
  assumes held: "held_by list_view h (l, m)" and xs: "list_cells (l, m) = map Some xs"
  shows "call_drops list_view h (l, m) (tda_list_retain P l m h) (map Some (filter P xs), list_rest (l, m))"
proof -
  obtain ps where at: "list_at m l ps" and ok: "store_ok m" and c: "list_cells (l, m) = map (el m) ps" "ASSERT_LIST l = Some ()"
    "list_rest (l, m) = others m (set ps)" and own: "node_blocks l ps \<subseteq># lives h (lal l)"
    using held by (rule held_listE)
  have v: "map (nval m) ps = xs" "\<forall>p \<in> set ps. el m p \<noteq> None" using map_el_nval [of m ps xs] xs c(1) by simp_all
  let ?ts = "filter (\<lambda>p. P (nval m p)) ps"
  obtain l' m' h' where r: "list_retain_loop P l (hd (ps @ [0])) m h = Some ((l', m'), h')" "list_at m' l' ?ts" "store_ok m'"
    "lelem l' = lelem l" "lal l' = lal l" "el m' = el m" "others m' (set ?ts) = others m (set ps)"
    "requests h (lal l) (node_blocks l ps) (node_blocks l ?ts) True h'"
    using retain_loop_ok [of m l "[]" ps h P] at ok own v(2) by auto
  have run: "tda_list_retain P l m h = Some ((l', m'), h')"
    using c(2) r(1) at list_at_assert [OF r(2,3)] by (simp add: tda_list_retain_def list_at_def)
  have "map (nval m) ?ts = filter P xs" unfolding v(1) [symmetric] by (simp add: filter_map o_def)
  then have "map (el m') ?ts = map Some (filter P xs)" using map_nval_el [of ?ts m] v(2) r(6) by simp
  then show ?thesis unfolding run using list_drops [OF at ok r(2-5,8)] r(7) c(3) by simp
qed

lemma copy_out_loop_ok:
  "links (nx m) ps 0 \<Longrightarrow> set ps \<subseteq> places m \<Longrightarrow> 0 \<notin> places m \<Longrightarrow> i + length ps = length dst \<Longrightarrow>
   copy_out_loop i (hd (ps @ [0])) dst m = Some (take i dst @ map (el m) ps)"
proof (induction ps arbitrary: i dst)
  case Nil
  then show ?case by (subst copy_out_loop.simps) simp
next
  case (Cons p ps)
  then have p: "p \<in> places m" "nx m p = hd (ps @ [0])" by auto
  have nz: "p \<noteq> 0" using p(1) Cons.prems(3) by metis
  have i: "i < length dst" using Cons.prems(4) by simp
  have put: "slots_put dst i [el m p] = Some (dst[i := el m p])"
    using i by (simp add: slots_put_def upd_conv_take_nth_drop)
  have "copy_out_loop i (hd ((p # ps) @ [0])) dst m = copy_out_loop (i + 1) (hd (ps @ [0])) (dst[i := el m p]) m"
    using p nz put by (subst copy_out_loop.simps) (simp add: list_elem_of_def nx_of_def)
  also have "\<dots> = Some (take (i + 1) (dst[i := el m p]) @ map (el m) ps)"
    using Cons.prems by (intro Cons.IH) simp_all
  also have "take (i + 1) (dst[i := el m p]) = take i dst @ [el m p]"
    using i by (simp add: take_Suc_conv_app_nth)
  finally show ?case by simp
qed

lemma list_copy_to_span_ok:
  assumes held: "held_by list_view h (l, m)" and len: "length dst = llen l"
  shows "tda_list_copy_to_span l dst (lelem l) m = Some (list_cells (l, m))"
proof -
  obtain ps where at: "list_at m l ps" and ok: "store_ok m" and c: "list_cells (l, m) = map (el m) ps" "ASSERT_LIST l = Some ()"
    "llen l = length ps"
    using held by (rule held_listE)
  have "0 \<notin> places m" "tda_layout_is_type (lelem l)" using ok at by (simp_all add: store_ok_def list_at_def list_kind_ok_def)
  then show ?thesis
    using copy_out_loop_ok [of m ps 0 dst] at c len by (simp add: tda_list_copy_to_span_def tda_layout_eq_def list_at_def)
qed

lemma copy_in_loop_ok:
  "links (nx m) ps 0 \<Longrightarrow> set ps \<subseteq> places m \<Longrightarrow> 0 \<notin> places m \<Longrightarrow> distinct ps \<Longrightarrow> i + length ps = length src \<Longrightarrow>
   \<exists>f. copy_in_loop i (hd (ps @ [0])) src m = Some (m\<lparr>el := f\<rparr>) \<and> map f ps = drop i src \<and> (\<forall>p. p \<notin> set ps \<longrightarrow> f p = el m p)"
proof (induction ps arbitrary: i m)
  case Nil
  then show ?case by (subst copy_in_loop.simps) (auto intro: exI [of _ "el m"])
next
  case (Cons p ps)
  then have p: "p \<in> places m" "nx m p = hd (ps @ [0])" "p \<notin> set ps" by auto
  have nz: "p \<noteq> 0" using p(1) Cons.prems(3) by metis
  have i: "i < length src" using Cons.prems(5) by simp
  let ?m = "m\<lparr>el := (el m)(p := src ! i)\<rparr>"
  obtain f where f: "copy_in_loop (i + 1) (hd (ps @ [0])) src ?m = Some (m\<lparr>el := f\<rparr>)" "map f ps = drop (i + 1) src"
    "\<forall>q. q \<notin> set ps \<longrightarrow> f q = el ?m q"
    using Cons.IH [of ?m "i + 1"] Cons.prems by auto
  have "copy_in_loop i (hd ((p # ps) @ [0])) src m = Some (m\<lparr>el := f\<rparr>)"
    using p nz i f(1) by (subst copy_in_loop.simps) (simp add: set_el_def nx_of_def slot_get_def)
  moreover have "map f (p # ps) = drop i src" using f(2,3) p(3) i by (simp add: Cons_nth_drop_Suc)
  ultimately show ?case using f(3) p(3) by (intro exI [of _ f]) auto
qed

lemma list_copy_from_span_ok:
  assumes held: "held_by list_view h (l, m)" and len: "length src = llen l"
  shows "call_edits list_view (l, m) (tda_list_copy_from_span l src (lelem l) m) (src, list_rest (l, m))"
proof -
  obtain ps where at: "list_at m l ps" and ok: "store_ok m" and c: "ASSERT_LIST l = Some ()"
    "llen l = length ps" "list_rest (l, m) = others m (set ps)"
    using held by (rule held_listE)
  have z: "0 \<notin> places m" "tda_layout_is_type (lelem l)" using ok at by (simp_all add: store_ok_def list_at_def list_kind_ok_def)
  have a: "links (nx m) ps 0" "set ps \<subseteq> places m" "distinct ps" "lhead l = hd (ps @ [0])" using at by (simp_all add: list_at_def)
  have l0: "0 + length ps = length src" using len c(2) by simp
  obtain f where f: "copy_in_loop 0 (hd (ps @ [0])) src m = Some (m\<lparr>el := f\<rparr>)" "map f ps = src" "\<forall>p. p \<notin> set ps \<longrightarrow> f p = el m p"
    using copy_in_loop_ok [OF a(1,2) z(1) a(3) l0] by auto
  have at': "list_at (m\<lparr>el := f\<rparr>) l ps" and ok': "store_ok (m\<lparr>el := f\<rparr>)" using at ok by (simp_all add: list_at_def store_ok_def)
  have o: "others (m\<lparr>el := f\<rparr>) (set ps) = list_rest (l, m)" using f(3) by (auto simp: c(3) others_def fun_eq_iff)
  have run: "tda_list_copy_from_span l src (lelem l) m = Some (l, m\<lparr>el := f\<rparr>)"
    using c z(2) len f(1) a(4) by (simp add: tda_list_copy_from_span_def tda_layout_eq_def)
  show ?thesis unfolding run using list_edits [OF at ok at' ok' refl refl refl _ o] f(2) by simp
qed

end
