(* ===== verification/Hash.thy ===== *)
theory Hash
  imports Cmp
begin

text \<open>
  \<open>core/hash.h\<close> and \<open>core/hash.c\<close>: the hashers. Values are words, floats their bit patterns and
  strings the bytes up to the terminator, as in the comparators.
\<close>

unbundle bit_operations_syntax

section \<open>The mixer\<close>

definition FNV_OFFSET_BASIS_64 :: "64 word" where "FNV_OFFSET_BASIS_64 = 14695981039346656037"
definition FNV_PRIME_64 :: "64 word" where "FNV_PRIME_64 = 1099511628211"
definition FMIX64_C1 :: "64 word" where "FMIX64_C1 = 0xff51afd7ed558ccd"
definition FMIX64_C2 :: "64 word" where "FMIX64_C2 = 0xc4ceb9fe1a85ec53"
definition HASH_GOLDEN_64 :: "64 word" where "HASH_GOLDEN_64 = 0x9e3779b97f4a7c15"
definition HASH_SEED_64 :: "64 word" where "HASH_SEED_64 = 0xa0761d6478bd642f"
definition NAN_CANON_32 :: "32 word" where "NAN_CANON_32 = 0x7fc00000"
definition NAN_CANON_64 :: "64 word" where "NAN_CANON_64 = 0x7ff8000000000000"

definition hash_mix_u64 :: "64 word \<Rightarrow> 64 word" where
  "hash_mix_u64 val = (let
     val = val XOR HASH_SEED_64;
     val = val XOR drop_bit 33 val;
     val = val * FMIX64_C1;
     val = val XOR drop_bit 33 val;
     val = val * FMIX64_C2;
     val = val XOR drop_bit 33 val
   in val)"

section \<open>The hashers\<close>

text \<open>Widening a signed type sign-extends, an unsigned one zero-extends.\<close>

definition hash_signed :: "'w::len word \<Rightarrow> 64 word" where
  "hash_signed val = hash_mix_u64 (signed val)"

definition hash_unsigned :: "'w::len word \<Rightarrow> 64 word" where
  "hash_unsigned val = hash_mix_u64 (unsigned val)"

definition tda_hash_i8 :: "8 word \<Rightarrow> 64 word" where "tda_hash_i8 = hash_signed"
definition tda_hash_i16 :: "16 word \<Rightarrow> 64 word" where "tda_hash_i16 = hash_signed"
definition tda_hash_i32 :: "32 word \<Rightarrow> 64 word" where "tda_hash_i32 = hash_signed"
definition tda_hash_i64 :: "64 word \<Rightarrow> 64 word" where "tda_hash_i64 = hash_signed"
definition tda_hash_u8 :: "8 word \<Rightarrow> 64 word" where "tda_hash_u8 = hash_unsigned"
definition tda_hash_u16 :: "16 word \<Rightarrow> 64 word" where "tda_hash_u16 = hash_unsigned"
definition tda_hash_u32 :: "32 word \<Rightarrow> 64 word" where "tda_hash_u32 = hash_unsigned"
definition tda_hash_u64 :: "64 word \<Rightarrow> 64 word" where "tda_hash_u64 = hash_unsigned"
definition tda_hash_size :: "64 word \<Rightarrow> 64 word" where "tda_hash_size = hash_unsigned"
definition tda_hash_ptrdiff :: "64 word \<Rightarrow> 64 word" where "tda_hash_ptrdiff = hash_signed"
definition tda_hash_char :: "byte \<Rightarrow> 64 word" where "tda_hash_char = hash_unsigned"

text \<open>
  A float equal to 0 is one of the two patterns with magnitude 0, and becomes the positive one; a
  NaN becomes the canonical one.
\<close>

definition hash_float_bits :: "nat \<Rightarrow> 'w::len word \<Rightarrow> 'w word \<Rightarrow> 'w word" where
  "hash_float_bits f canon val = (let
     val = (if \<not> flt_isnan f val \<and> flt_key val = 0 then 0 else val)
   in if flt_isnan f val then canon else val)"

definition tda_hash_f32 :: "32 word \<Rightarrow> 64 word" where
  "tda_hash_f32 val = hash_mix_u64 (unsigned (hash_float_bits 23 NAN_CANON_32 val))"

definition tda_hash_f64 :: "64 word \<Rightarrow> 64 word" where
  "tda_hash_f64 val = hash_mix_u64 (hash_float_bits 52 NAN_CANON_64 val)"

fun fnv_loop :: "64 word \<Rightarrow> byte list \<Rightarrow> 64 word" where
  "fnv_loop hash [] = hash"
| "fnv_loop hash (b # bs) = fnv_loop ((hash XOR unsigned b) * FNV_PRIME_64) bs"

definition tda_hash_bytes :: "byte list \<Rightarrow> 64 word" where
  "tda_hash_bytes data = hash_mix_u64 (fnv_loop FNV_OFFSET_BASIS_64 data)"

definition tda_hash_cstr :: "(addr \<Rightarrow> byte list) \<Rightarrow> addr \<Rightarrow> 64 word" where
  "tda_hash_cstr str val = (if val = 0 then hash_mix_u64 0 else tda_hash_bytes (str val))"

definition tda_hash_combine :: "64 word \<Rightarrow> 64 word \<Rightarrow> 64 word" where
  "tda_hash_combine a b = (let
     hash = a;
     hash = hash XOR (b + HASH_GOLDEN_64 + push_bit 6 hash + drop_bit 2 hash)
   in hash_mix_u64 hash)"

section \<open>What a hash table asks of its hasher\<close>

text \<open>Equal keys have equal hashes, and equality is an equivalence.\<close>

locale hasher =
  fixes eq :: "'k \<Rightarrow> 'k \<Rightarrow> bool" and hash :: "'k \<Rightarrow> 64 word"
  assumes eq_equiv: "equivp eq"
    and hash_eq: "eq a b \<Longrightarrow> hash a = hash b"

context hasher begin

lemma eq_refl [simp]: "eq a a"
  using equivp_reflp [OF eq_equiv] .

lemma eq_sym: "eq a b \<Longrightarrow> eq b a"
  using equivp_symp [OF eq_equiv] .

lemma eq_trans: "eq a b \<Longrightarrow> eq b c \<Longrightarrow> eq a c"
  using equivp_transp [OF eq_equiv] .

lemma hash_neq: "hash a \<noteq> hash b \<Longrightarrow> \<not> eq a b"
  using hash_eq by blast

end

text \<open>The equality form of a total comparator is an equivalence.\<close>

context total_cmp begin

lemma equivp_eq_form: "equivp (tda_eq_form cmp)"
  by (rule equivpI)
    (auto simp: reflp_def symp_def transp_def tda_eq_form_def cmp_zero_iff intro: zero_trans)

end

section \<open>The mixer loses nothing\<close>

lemma hash_mix_inj: "hash_mix_u64 a = hash_mix_u64 b \<longleftrightarrow> a = b"
proof
  assume eq: "hash_mix_u64 a = hash_mix_u64 b"
  define x y where xy: "x = a XOR HASH_SEED_64" "y = b XOR HASH_SEED_64"
  define x1 y1 where xy1: "x1 = (x XOR drop_bit 33 x) * FMIX64_C1" "y1 = (y XOR drop_bit 33 y) * FMIX64_C1"
  define x2 y2 where xy2: "x2 = (x1 XOR drop_bit 33 x1) * FMIX64_C2" "y2 = (y1 XOR drop_bit 33 y1) * FMIX64_C2"
  have "x2 XOR drop_bit 33 x2 = y2 XOR drop_bit 33 y2"
    using eq by (simp add: hash_mix_u64_def Let_def xy xy1 xy2)
  then have "x2 = y2" by (rule xor_shift_inj [rotated]) simp
  then have "x1 XOR drop_bit 33 x1 = y1 XOR drop_bit 33 y1"
    unfolding xy2 by (rule odd_mult_inj [of _ "0x9cb4b2f8129337db", rotated]) (simp add: FMIX64_C2_def)
  then have "x1 = y1" by (rule xor_shift_inj [rotated]) simp
  then have "x XOR drop_bit 33 x = y XOR drop_bit 33 y"
    unfolding xy1 by (rule odd_mult_inj [of _ "0x4f74430c22a54005", rotated]) (simp add: FMIX64_C1_def)
  then have "x = y" by (rule xor_shift_inj [rotated]) simp
  then have "(a XOR HASH_SEED_64) XOR HASH_SEED_64 = (b XOR HASH_SEED_64) XOR HASH_SEED_64"
    unfolding xy by (rule arg_cong)
  then show "a = b" by (simp only: xor.assoc xor_self_eq xor.right_neutral)
qed simp

lemma hash_signed_inj:
  assumes "LENGTH('w) \<le> 64"
  shows "hash_signed a = hash_signed b \<longleftrightarrow> a = (b :: 'w::len word)"
proof
  assume "hash_signed a = hash_signed b"
  then have "sint (signed a :: 64 word) = sint (signed b :: 64 word)"
    unfolding hash_signed_def hash_mix_inj by (rule arg_cong)
  moreover have "is_up (scast :: 'w word \<Rightarrow> 64 word)" using assms by (simp add: is_up)
  ultimately have "sint a = sint b" by (simp add: sint_up_scast)
  then show "a = b" by (rule signed_word_eqI)
qed simp

lemma hash_unsigned_inj:
  assumes "LENGTH('w) \<le> 64"
  shows "hash_unsigned a = hash_unsigned b \<longleftrightarrow> a = (b :: 'w::len word)"
proof
  assume "hash_unsigned a = hash_unsigned b"
  then have "uint (unsigned a :: 64 word) = uint (unsigned b :: 64 word)"
    unfolding hash_unsigned_def hash_mix_inj by (rule arg_cong)
  moreover have "is_up (ucast :: 'w word \<Rightarrow> 64 word)" using assms by (simp add: is_up)
  ultimately show "a = b" by (simp add: uint_up_ucast word_uint_eq_iff)
qed simp

text \<open>Two floats the comparator calls equal become one bit pattern, and only those.\<close>

lemma flt_key_inj:
  assumes "flt_key a = flt_key b" "flt_key (a :: 'w::len word) \<noteq> 0"
  shows "a = b"
proof -
  define m where "m = LENGTH('w) - 1"
  have w: "LENGTH('w) = Suc m" by (simp add: m_def)
  have high: "uint c div 2 ^ m = (if uint c \<ge> 2 ^ m then 1 else 0)" for c :: "'w word"
  proof -
    have c: "uint c < 2 ^ m + 2 ^ m" "0 \<le> uint c" using uint_lt2p [of c] by (simp_all add: w)
    show ?thesis
    proof (cases "uint c < 2 ^ m")
      case True
      then show ?thesis using c by (simp add: div_pos_pos_trivial)
    next
      case False
      then have "uint c div 2 ^ m = (uint c - 2 ^ m) div 2 ^ m + 1" by (simp add: div_pos_geq)
      also have "(uint c - 2 ^ m) div 2 ^ m = 0" using False c by (simp add: div_pos_pos_trivial)
      finally show ?thesis using False by simp
    qed
  qed
  have mag: "0 \<le> uint c mod 2 ^ m" for c :: "'w word" by simp
  have key: "flt_key c = (if uint c \<ge> 2 ^ m then - (uint c mod 2 ^ m) else uint c mod 2 ^ m)" for c :: "'w word"
    unfolding flt_key_def Let_def m_def by (rule refl)
  have "uint a mod 2 ^ m = uint b mod 2 ^ m \<and> (uint a \<ge> 2 ^ m \<longleftrightarrow> uint b \<ge> 2 ^ m)"
    using assms [unfolded key] mag [of a] mag [of b] by (simp only: split: if_splits) linarith+
  then have "uint a mod 2 ^ m = uint b mod 2 ^ m" "uint a div 2 ^ m = uint b div 2 ^ m"
    by (simp_all only: high)
  then have "uint a = uint b" by (metis div_mult_mod_eq)
  then show ?thesis by (simp add: word_uint_eq_iff)
qed

lemma hash_float_bits_eq:
  assumes "flt_isnan f canon" "\<not> flt_isnan f (0 :: 'w::len word)"
  shows "hash_float_bits f canon a = hash_float_bits f canon b \<longleftrightarrow> cmp_float f a (b :: 'w word) = 0"
proof -
  have "flt_key (0 :: 'w word) = 0" by (simp add: flt_key_def)
  then have "hash_float_bits f canon a = hash_float_bits f canon b \<longleftrightarrow>
      (if flt_isnan f a \<or> flt_isnan f b then flt_isnan f a \<and> flt_isnan f b else flt_key a = flt_key b)"
    using assms flt_key_inj [of a b]
    by (cases "flt_isnan f a"; cases "flt_isnan f b"; cases "flt_key a = 0"; cases "flt_key b = 0")
      (auto simp: hash_float_bits_def Let_def)
  also have "\<dots> \<longleftrightarrow> cmp_float f a b = 0"
    by (auto simp: cmp_float_def Let_def)
  finally show ?thesis .
qed

lemma hash_f32_iff: "tda_hash_f32 a = tda_hash_f32 b \<longleftrightarrow> tda_cmp_f32 a b = 0"
proof -
  have "flt_isnan 23 NAN_CANON_32" "\<not> flt_isnan 23 (0 :: 32 word)"
    by (simp_all add: flt_isnan_def NAN_CANON_32_def Let_def)
  from hash_float_bits_eq [OF this, of a b] show ?thesis
    using hash_unsigned_inj [of "hash_float_bits 23 NAN_CANON_32 a" "hash_float_bits 23 NAN_CANON_32 b"]
    by (simp add: tda_hash_f32_def tda_cmp_f32_def hash_unsigned_def)
qed

lemma hash_f64_iff: "tda_hash_f64 a = tda_hash_f64 b \<longleftrightarrow> tda_cmp_f64 a b = 0"
proof -
  have "flt_isnan 52 NAN_CANON_64" "\<not> flt_isnan 52 (0 :: 64 word)"
    by (simp_all add: flt_isnan_def NAN_CANON_64_def Let_def)
  from hash_float_bits_eq [OF this, of a b] show ?thesis
    by (simp add: tda_hash_f64_def tda_cmp_f64_def hash_mix_inj)
qed

lemma combine_inj: "tda_hash_combine a b = tda_hash_combine a c \<longleftrightarrow> b = c"
proof
  assume "tda_hash_combine a b = tda_hash_combine a c"
  then have "a XOR (b + HASH_GOLDEN_64 + push_bit 6 a + drop_bit 2 a)
      = a XOR (c + HASH_GOLDEN_64 + push_bit 6 a + drop_bit 2 a)"
    by (simp only: tda_hash_combine_def Let_def hash_mix_inj)
  then have "a XOR (a XOR (b + HASH_GOLDEN_64 + push_bit 6 a + drop_bit 2 a))
      = a XOR (a XOR (c + HASH_GOLDEN_64 + push_bit 6 a + drop_bit 2 a))" by (rule arg_cong)
  then have "b + HASH_GOLDEN_64 + push_bit 6 a + drop_bit 2 a = c + HASH_GOLDEN_64 + push_bit 6 a + drop_bit 2 a"
    by (simp only: xor.assoc [symmetric] xor_self_eq xor.left_neutral)
  then show "b = c" by (simp only: add_right_cancel)
qed simp

section \<open>The hashers keep the contract\<close>

lemma eq_form_signed: "tda_eq_form tda_cmp_signed a b \<longleftrightarrow> a = b"
proof -
  have "tda_eq_form tda_cmp_signed a b \<longleftrightarrow> sint a = sint b"
    by (auto simp: tda_eq_form_def tda_cmp_signed_def cmp_int_def of_bool_def not_less split: if_splits)
  also have "\<dots> \<longleftrightarrow> a = b" using signed_word_eqI [of a b] by blast
  finally show ?thesis .
qed

lemma eq_form_unsigned: "tda_eq_form tda_cmp_unsigned a b \<longleftrightarrow> a = b"
  by (auto simp: tda_eq_form_def tda_cmp_unsigned_def cmp_int_def word_uint_eq_iff of_bool_def split: if_splits)

lemma char_unsigned: "tda_cmp_char = tda_cmp_unsigned"
  by (intro ext) (simp add: tda_cmp_char_def sgn_cmp_char)

lemma hasher_signed: "hasher (tda_eq_form tda_cmp_signed) hash_signed"
  by unfold_locales (simp_all add: eq_form_signed total_cmp.equivp_eq_form total_cmp_signed)

lemma hasher_unsigned: "hasher (tda_eq_form tda_cmp_unsigned) hash_unsigned"
  by unfold_locales (simp_all add: eq_form_unsigned total_cmp.equivp_eq_form total_cmp_unsigned)

interpretation hash_i8: hasher "tda_eq_form tda_cmp_i8" tda_hash_i8
  unfolding tda_cmp_i8_def tda_hash_i8_def by (rule hasher_signed)
interpretation hash_i16: hasher "tda_eq_form tda_cmp_i16" tda_hash_i16
  unfolding tda_cmp_i16_def tda_hash_i16_def by (rule hasher_signed)
interpretation hash_i32: hasher "tda_eq_form tda_cmp_i32" tda_hash_i32
  unfolding tda_cmp_i32_def tda_hash_i32_def by (rule hasher_signed)
interpretation hash_i64: hasher "tda_eq_form tda_cmp_i64" tda_hash_i64
  unfolding tda_cmp_i64_def tda_hash_i64_def by (rule hasher_signed)
interpretation hash_u8: hasher "tda_eq_form tda_cmp_u8" tda_hash_u8
  unfolding tda_cmp_u8_def tda_hash_u8_def by (rule hasher_unsigned)
interpretation hash_u16: hasher "tda_eq_form tda_cmp_u16" tda_hash_u16
  unfolding tda_cmp_u16_def tda_hash_u16_def by (rule hasher_unsigned)
interpretation hash_u32: hasher "tda_eq_form tda_cmp_u32" tda_hash_u32
  unfolding tda_cmp_u32_def tda_hash_u32_def by (rule hasher_unsigned)
interpretation hash_u64: hasher "tda_eq_form tda_cmp_u64" tda_hash_u64
  unfolding tda_cmp_u64_def tda_hash_u64_def by (rule hasher_unsigned)
interpretation hash_size: hasher "tda_eq_form tda_cmp_size" tda_hash_size
  unfolding tda_cmp_size_def tda_hash_size_def by (rule hasher_unsigned)
interpretation hash_ptrdiff: hasher "tda_eq_form tda_cmp_ptrdiff" tda_hash_ptrdiff
  unfolding tda_cmp_ptrdiff_def tda_hash_ptrdiff_def by (rule hasher_signed)
interpretation hash_char: hasher "tda_eq_form tda_cmp_char" tda_hash_char
  unfolding char_unsigned tda_hash_char_def by (rule hasher_unsigned)

interpretation hash_f32: hasher "tda_eq_form tda_cmp_f32" tda_hash_f32
  by unfold_locales (simp_all add: f32.equivp_eq_form hash_f32_iff tda_eq_form_def)

interpretation hash_f64: hasher "tda_eq_form tda_cmp_f64" tda_hash_f64
  by unfold_locales (simp_all add: f64.equivp_eq_form hash_f64_iff tda_eq_form_def)

lemma eq_form_cstr:
  "tda_eq_form (tda_cmp_cstr str) p q \<longleftrightarrow> p = q \<or> p \<noteq> 0 \<and> q \<noteq> 0 \<and> str p = str q"
  using strcmp_eq_zero [of "str p" "str q"]
  by (auto simp: tda_eq_form_def tda_cmp_cstr_def cmp_cstr_def Let_def split: if_splits)

interpretation hash_cstr: hasher "tda_eq_form (tda_cmp_cstr str)" "tda_hash_cstr str" for str
  by unfold_locales (auto simp: cstr.equivp_eq_form eq_form_cstr tda_hash_cstr_def)

text \<open>
  C38: two integers, chars or floats have the same hash exactly when their comparator calls them
  equal (both zeros, and all NaNs, included); equal strings have equal hashes, and combining loses
  nothing of the second hash.
\<close>

theorem hashes_agree:
  fixes str :: "addr \<Rightarrow> byte list"
  assumes "tda_eq_form (tda_cmp_cstr str) p q"
  shows "(tda_hash_i8 a1 = tda_hash_i8 b1) = tda_eq_form tda_cmp_i8 a1 b1 \<and>
    (tda_hash_i16 a4 = tda_hash_i16 b4) = tda_eq_form tda_cmp_i16 a4 b4 \<and>
    (tda_hash_i32 a2 = tda_hash_i32 b2) = tda_eq_form tda_cmp_i32 a2 b2 \<and>
    (tda_hash_i64 a3 = tda_hash_i64 b3) = tda_eq_form tda_cmp_i64 a3 b3 \<and>
    (tda_hash_u8 a1 = tda_hash_u8 b1) = tda_eq_form tda_cmp_u8 a1 b1 \<and>
    (tda_hash_u16 a4 = tda_hash_u16 b4) = tda_eq_form tda_cmp_u16 a4 b4 \<and>
    (tda_hash_u32 a2 = tda_hash_u32 b2) = tda_eq_form tda_cmp_u32 a2 b2 \<and>
    (tda_hash_size a3 = tda_hash_size b3) = tda_eq_form tda_cmp_size a3 b3 \<and>
    (tda_hash_u64 a3 = tda_hash_u64 b3) = tda_eq_form tda_cmp_u64 a3 b3 \<and>
    (tda_hash_ptrdiff a3 = tda_hash_ptrdiff b3) = tda_eq_form tda_cmp_ptrdiff a3 b3 \<and>
    (tda_hash_char a1 = tda_hash_char b1) = tda_eq_form tda_cmp_char a1 b1 \<and>
    (tda_hash_f32 a2 = tda_hash_f32 b2) = tda_eq_form tda_cmp_f32 a2 b2 \<and>
    (tda_hash_f64 a3 = tda_hash_f64 b3) = tda_eq_form tda_cmp_f64 a3 b3 \<and>
    tda_hash_cstr str p = tda_hash_cstr str q \<and>
    (tda_hash_combine a3 b3 = tda_hash_combine a3 c) = (b3 = c)"
  by (intro conjI hash_cstr.hash_eq [OF assms] combine_inj)
    (simp_all add: tda_hash_i8_def tda_hash_i16_def tda_hash_i32_def tda_hash_i64_def tda_hash_u8_def tda_hash_u16_def
      tda_hash_u32_def tda_hash_u64_def tda_hash_size_def tda_hash_ptrdiff_def tda_hash_char_def
      tda_cmp_i8_def tda_cmp_i16_def tda_cmp_i32_def tda_cmp_i64_def tda_cmp_u8_def tda_cmp_u16_def
      tda_cmp_u32_def tda_cmp_u64_def tda_cmp_size_def tda_cmp_ptrdiff_def char_unsigned hash_signed_inj
      hash_unsigned_inj eq_form_signed eq_form_unsigned hash_f32_iff hash_f64_iff
      tda_eq_form_def [of tda_cmp_f32] tda_eq_form_def [of tda_cmp_f64])

text \<open>Two copies of a string, at two addresses, and the two zeros of \<open>float\<close>.\<close>

theorem hashes_agree_witness:
  "tda_hash_cstr (\<lambda>p. if p = 8 \<or> p = 16 then [104, 105] else []) 8 =
     tda_hash_cstr (\<lambda>p. if p = 8 \<or> p = 16 then [104, 105] else []) 16 \<and>
   tda_hash_f32 0 = tda_hash_f32 0x80000000 \<and> tda_hash_i8 1 \<noteq> tda_hash_i8 255"
proof -
  have "tda_eq_form (tda_cmp_cstr (\<lambda>p. if p = 8 \<or> p = 16 then [104, 105] else [])) 8 16"
    by (simp add: eq_form_cstr)
  from hashes_agree [OF this, of 1 255 0 0 0 "0x80000000" 0 0 0]
  show ?thesis
    by (simp add: tda_eq_form_def tda_cmp_f32_def cmp_float_def flt_isnan_def flt_key_def
        tda_cmp_i8_def tda_cmp_signed_def cmp_int_def Let_def)
qed

end
