(* ===== verification/HMap.thy ===== *)
theory HMap
  imports Nodes Hash Bits
begin

text \<open>
  \<open>ds/hmap.h\<close>, \<open>ds/hmap.c\<close> and \<open>internal/hmap_impl.h\<close>: a hash map of chained buckets. An entry is a node
  of the memory of \<open>Nodes\<close>, with its link, its cached hash, its key and its value; the bucket array is
  a list of nodes, 0 the null node and the empty list the null array. Keys are values, since the hasher
  and the equality look into them; values are cells. The hasher and the equality come with their
  \<open>ctx\<close> in them. A key or value argument may point into the map: it is read before any node goes, and
  nodes keep their places, so its value is the same.
\<close>

unbundle bit_operations_syntax

record ('k, 'v) entries = store +
  enx :: "nat \<Rightarrow> nat"
  ehash :: "nat \<Rightarrow> 64 word"
  ekey :: "nat \<Rightarrow> 'k"
  evl :: "nat \<Rightarrow> 'v option"

record 'k hmap =
  mbuckets :: "nat list"
  mcount :: nat
  mlen :: nat
  mkey :: layout
  mval :: layout
  mkoff :: nat
  mvoff :: nat
  mnode :: layout
  mhasher :: "('k \<Rightarrow> 64 word) option"
  meq :: "('k \<Rightarrow> 'k \<Rightarrow> bool) option"
  mal :: al

type_synonym ('k, 'v) hobj = "'k hmap \<times> ('k, 'v) entries"

section \<open>Reading and writing nodes and buckets\<close>

definition enx_of :: "('k, 'v) entries \<Rightarrow> nat \<Rightarrow> nat option" where
  "enx_of m p = do { chk (p \<in> places m); Some (enx m p) }"

definition ehash_of :: "('k, 'v) entries \<Rightarrow> nat \<Rightarrow> 64 word option" where
  "ehash_of m p = do { chk (p \<in> places m); Some (ehash m p) }"

definition hmap_node_key :: "('k, 'v) entries \<Rightarrow> nat \<Rightarrow> 'k option" where
  "hmap_node_key m p = do { chk (p \<in> places m); Some (ekey m p) }"

definition hmap_node_val :: "('k, 'v) entries \<Rightarrow> nat \<Rightarrow> 'v option option" where
  "hmap_node_val m p = do { chk (p \<in> places m); Some (evl m p) }"

definition set_enx :: "('k, 'v) entries \<Rightarrow> nat \<Rightarrow> nat \<Rightarrow> ('k, 'v) entries option" where
  "set_enx m p q = do { chk (p \<in> places m); Some (m\<lparr>enx := (enx m)(p := q)\<rparr>) }"

definition set_ehash :: "('k, 'v) entries \<Rightarrow> nat \<Rightarrow> 64 word \<Rightarrow> ('k, 'v) entries option" where
  "set_ehash m p x = do { chk (p \<in> places m); Some (m\<lparr>ehash := (ehash m)(p := x)\<rparr>) }"

definition set_ekey :: "('k, 'v) entries \<Rightarrow> nat \<Rightarrow> 'k \<Rightarrow> ('k, 'v) entries option" where
  "set_ekey m p x = do { chk (p \<in> places m); Some (m\<lparr>ekey := (ekey m)(p := x)\<rparr>) }"

definition set_evl :: "('k, 'v) entries \<Rightarrow> nat \<Rightarrow> 'v option \<Rightarrow> ('k, 'v) entries option" where
  "set_evl m p x = do { chk (p \<in> places m); Some (m\<lparr>evl := (evl m)(p := x)\<rparr>) }"

definition bucket_get :: "nat list \<Rightarrow> nat \<Rightarrow> nat option" where
  "bucket_get bs i = (if i < length bs then Some (bs ! i) else None)"

definition bucket_set :: "nat list \<Rightarrow> nat \<Rightarrow> nat \<Rightarrow> nat list option" where
  "bucket_set bs i p = (if i < length bs then Some (bs[i := p]) else None)"

text \<open>A pointer to a link: a bucket, or the link of a node.\<close>

datatype link = Slot nat | Next nat

definition link_get :: "'k hmap \<Rightarrow> ('k, 'v) entries \<Rightarrow> link \<Rightarrow> nat option" where
  "link_get self m link = (case link of Slot i \<Rightarrow> bucket_get (mbuckets self) i | Next p \<Rightarrow> enx_of m p)"

definition link_set :: "'k hmap \<Rightarrow> ('k, 'v) entries \<Rightarrow> link \<Rightarrow> nat \<Rightarrow> ('k, 'v) hobj option" where
  "link_set self m link q = (case link of
       Slot i \<Rightarrow> do { bs \<leftarrow> bucket_set (mbuckets self) i q; Some (self\<lparr>mbuckets := bs\<rparr>, m) }
     | Next p \<Rightarrow> do { m \<leftarrow> set_enx m p q; Some (self, m) })"

text \<open>Calls of the hasher and of the equality.\<close>

definition key_hash :: "'k hmap \<Rightarrow> 'k \<Rightarrow> 64 word option" where
  "key_hash self key = do { f \<leftarrow> mhasher self; Some (f key) }"

definition key_eq :: "'k hmap \<Rightarrow> 'k \<Rightarrow> 'k \<Rightarrow> bool option" where
  "key_eq self a b = do { f \<leftarrow> meq self; Some (f a b) }"

section \<open>Internals\<close>

definition ASSERT_HMAP :: "'k hmap \<Rightarrow> unit option" where
  "ASSERT_HMAP self = do {
     chk (tda_layout_is_type (mkey self));
     chk (mhasher self \<noteq> None);
     chk (meq self \<noteq> None);
     chk (mal self \<noteq> 0);
     chk ((mcount self = 0) = (mbuckets self = []));
     chk (mcount self = 0 \<or> tda_is_pow2 (mcount self));
     chk (mlen self = 0 \<or> mcount self > 0)
   }"

definition EXPECT_SAME_HMAP :: "'k hmap \<Rightarrow> 'k hmap \<Rightarrow> unit option" where
  "EXPECT_SAME_HMAP a b = do { chk (tda_layout_eq (mkey a) (mkey b)); chk (tda_layout_eq (mval a) (mval b)) }"

definition HMAP_BUCKETS_BASE :: nat where "HMAP_BUCKETS_BASE = 8"
definition HMAP_GROWTH_FACTOR :: nat where "HMAP_GROWTH_FACTOR = 2"
definition FIB_MULTIPLIER :: "64 word" where "FIB_MULTIPLIER = 0x9e3779b97f4a7c15"

text \<open>The layouts of the struct before a node's key and of a bucket, a pointer.\<close>

definition HMapNode_layout :: layout where
  "HMapNode_layout = \<lparr>lsize = 16, lalign = 8\<rparr>"

definition BUCKET :: layout where
  "BUCKET = \<lparr>lsize = 8, lalign = 8\<rparr>"

text \<open>A null \<open>val\<close> is \<^const>\<open>None\<close>.\<close>

definition hmap_alloc_node ::
  "'k hmap \<Rightarrow> 'k \<Rightarrow> 'v option option \<Rightarrow> 64 word \<Rightarrow> ('k, 'v) entries \<Rightarrow> heap \<Rightarrow>
   (tda_status \<times> nat \<times> ('k, 'v) entries \<times> heap) option" where
  "hmap_alloc_node self key val hash m h = do {
     (node, m, h) \<leftarrow> node_new (mal self) (mnode self) m h;
     if node = 0 then Some (TDA_STATUS_ERR_NO_MEM, 0, m, h)
     else do {
       m \<leftarrow> set_enx m node 0;
       m \<leftarrow> set_ehash m node hash;
       m \<leftarrow> set_ekey m node key;
       m \<leftarrow> (if lsize (mval self) > 0 then do { x \<leftarrow> val; set_evl m node x } else Some m);
       Some (TDA_STATUS_OK, node, m, h)
     }
   }"

definition hmap_dealloc_node :: "'k hmap \<Rightarrow> nat \<Rightarrow> ('k, 'v) entries \<Rightarrow> heap \<Rightarrow> (('k, 'v) entries \<times> heap) option" where
  "hmap_dealloc_node self node m h = node_free (mal self) (mnode self) node m h"

definition bucket_in :: "64 word \<Rightarrow> nat \<Rightarrow> nat option" where
  "bucket_in hash cnt = do {
     chk (tda_is_pow2 cnt \<and> cnt > 1);
     z \<leftarrow> tda_bit_ctz (of_nat cnt);
     Some (unat (drop_bit (64 - z) (hash * FIB_MULTIPLIER)))
   }"

definition bucket_of :: "'k hmap \<Rightarrow> 64 word \<Rightarrow> nat option" where
  "bucket_of self hash = do { chk (mcount self > 0); bucket_in hash (mcount self) }"

definition holds_key :: "'k hmap \<Rightarrow> ('k, 'v) entries \<Rightarrow> nat \<Rightarrow> 'k \<Rightarrow> 64 word \<Rightarrow> bool option" where
  "holds_key self m node key hash = do {
     h \<leftarrow> ehash_of m node;
     if h \<noteq> hash then Some False
     else do { k \<leftarrow> hmap_node_key m node; key_eq self k key }
   }"

partial_function (option) find_link_loop :: "'k hmap \<Rightarrow> ('k, 'v) entries \<Rightarrow> 'k \<Rightarrow> 64 word \<Rightarrow> link \<Rightarrow> link option" where
  "find_link_loop self m key hash link = do {
     node \<leftarrow> link_get self m link;
     if node = 0 then Some link
     else do {
       b \<leftarrow> holds_key self m node key hash;
       if b then Some link else find_link_loop self m key hash (Next node)
     }
   }"

definition find_link :: "'k hmap \<Rightarrow> ('k, 'v) entries \<Rightarrow> 'k \<Rightarrow> 64 word \<Rightarrow> link option" where
  "find_link self m key hash = do {
     b \<leftarrow> bucket_of self hash;
     find_link_loop self m key hash (Slot b)
   }"

partial_function (option) hmap_find_loop :: "'k hmap \<Rightarrow> ('k, 'v) entries \<Rightarrow> 'k \<Rightarrow> 64 word \<Rightarrow> nat \<Rightarrow> nat option" where
  "hmap_find_loop self m key hash node =
     (if node = 0 then Some 0
      else do {
        b \<leftarrow> holds_key self m node key hash;
        if b then Some node
        else do { node \<leftarrow> enx_of m node; hmap_find_loop self m key hash node }
      })"

definition hmap_find_node :: "'k hmap \<Rightarrow> ('k, 'v) entries \<Rightarrow> 'k \<Rightarrow> 64 word \<Rightarrow> nat option" where
  "hmap_find_node self m key hash =
     (if mcount self = 0 then Some 0
      else do {
        b \<leftarrow> bucket_of self hash;
        node \<leftarrow> bucket_get (mbuckets self) b;
        hmap_find_loop self m key hash node
      })"

definition hmap_link_node ::
  "nat list \<Rightarrow> nat \<Rightarrow> nat \<Rightarrow> ('k, 'v) entries \<Rightarrow> (nat list \<times> ('k, 'v) entries) option" where
  "hmap_link_node bs cnt node m = do {
     hash \<leftarrow> ehash_of m node;
     bucket \<leftarrow> bucket_in hash cnt;
     old \<leftarrow> bucket_get bs bucket;
     m \<leftarrow> set_enx m node old;
     bs \<leftarrow> bucket_set bs bucket node;
     Some (bs, m)
   }"

definition remove_at :: "'k hmap \<Rightarrow> link \<Rightarrow> ('k, 'v) entries \<Rightarrow> heap \<Rightarrow> (('k, 'v) hobj \<times> heap) option" where
  "remove_at self link m h = do {
     node \<leftarrow> link_get self m link;
     chk (node \<noteq> 0);
     next \<leftarrow> enx_of m node;
     (self, m) \<leftarrow> link_set self m link next;
     (m, h) \<leftarrow> hmap_dealloc_node self node m h;
     Some ((self\<lparr>mlen := wsub (mlen self) 1\<rparr>, m), h)
   }"

function first_from :: "'k hmap \<Rightarrow> nat \<Rightarrow> nat option" where
  "first_from self i =
     (if i < mcount self then do {
        p \<leftarrow> bucket_get (mbuckets self) i;
        if p \<noteq> 0 then Some p else first_from self (i + 1)
      }
      else Some 0)"
  by pat_completeness auto
termination by (relation "measure (\<lambda>(self, i). mcount self - i)") auto

declare first_from.simps [simp del]

definition next_node :: "'k hmap \<Rightarrow> ('k, 'v) entries \<Rightarrow> nat \<Rightarrow> nat option" where
  "next_node self m node = do {
     next \<leftarrow> enx_of m node;
     if next \<noteq> 0 then Some next
     else do {
       hash \<leftarrow> ehash_of m node;
       b \<leftarrow> bucket_of self hash;
       first_from self (b + 1)
     }
   }"

text \<open>0 on overflow.\<close>

partial_function (option) buckets_for_loop :: "nat \<Rightarrow> nat \<Rightarrow> nat option" where
  "buckets_for_loop cnt len =
     (if cnt < len then
        (case ckd_mul cnt HMAP_GROWTH_FACTOR of None \<Rightarrow> Some 0 | Some grown \<Rightarrow> buckets_for_loop grown len)
      else Some cnt)"

definition buckets_for :: "nat \<Rightarrow> nat option" where
  "buckets_for len = buckets_for_loop HMAP_BUCKETS_BASE len"

partial_function (option) rehash_chain ::
  "nat list \<Rightarrow> nat \<Rightarrow> nat \<Rightarrow> ('k, 'v) entries \<Rightarrow> (nat list \<times> ('k, 'v) entries) option" where
  "rehash_chain bs new_count node m =
     (if node = 0 then Some (bs, m)
      else do {
        next \<leftarrow> enx_of m node;
        (bs, m) \<leftarrow> hmap_link_node bs new_count node m;
        rehash_chain bs new_count next m
      })"

function rehash_loop ::
  "'k hmap \<Rightarrow> nat \<Rightarrow> nat list \<Rightarrow> nat \<Rightarrow> ('k, 'v) entries \<Rightarrow> (nat list \<times> ('k, 'v) entries) option" where
  "rehash_loop self i bs new_count m =
     (if i < mcount self then do {
        node \<leftarrow> bucket_get (mbuckets self) i;
        (bs, m) \<leftarrow> rehash_chain bs new_count node m;
        rehash_loop self (i + 1) bs new_count m
      }
      else Some (bs, m))"
  by pat_completeness auto
termination by (relation "measure (\<lambda>(self, i, _). mcount self - i)") auto

declare rehash_loop.simps [simp del]

definition rehash ::
  "'k hmap \<Rightarrow> nat \<Rightarrow> ('k, 'v) entries \<Rightarrow> heap \<Rightarrow> (tda_status \<times> ('k, 'v) hobj \<times> heap) option" where
  "rehash self new_count m h = do {
     chk (tda_is_pow2 new_count);
     (ok, h) \<leftarrow> al_alloc_n (mal self) BUCKET new_count h;
     if \<not> ok then Some (TDA_STATUS_ERR_NO_MEM, (self, m), h)
     else do {
       (bs, m) \<leftarrow> rehash_loop self 0 (replicate new_count 0) new_count m;
       h \<leftarrow> al_dealloc_n (mal self) (mbuckets self \<noteq> []) BUCKET (mcount self) h;
       let self = self\<lparr>mbuckets := bs, mcount := new_count\<rparr>;
       ASSERT_HMAP self;
       Some (TDA_STATUS_OK, (self, m), h)
     }
   }"

definition reserve_buckets ::
  "'k hmap \<Rightarrow> nat \<Rightarrow> ('k, 'v) entries \<Rightarrow> heap \<Rightarrow> (tda_status \<times> ('k, 'v) hobj \<times> heap) option" where
  "reserve_buckets self cap m h =
     (if cap \<le> mcount self then Some (TDA_STATUS_OK, (self, m), h)
      else do {
        want \<leftarrow> buckets_for cap;
        if want = 0 then Some (TDA_STATUS_ERR_NO_MEM, (self, m), h)
        else rehash self want m h
      })"

definition hmap_reserve_one ::
  "'k hmap \<Rightarrow> ('k, 'v) entries \<Rightarrow> heap \<Rightarrow> (tda_status \<times> ('k, 'v) hobj \<times> heap) option" where
  "hmap_reserve_one self m h = reserve_buckets self (wadd (mlen self) 1) m h"

text \<open>On success also the node, which \<open>*out\<close> gets.\<close>

definition add_node ::
  "'k hmap \<Rightarrow> 'k \<Rightarrow> 'v option option \<Rightarrow> 64 word \<Rightarrow> ('k, 'v) entries \<Rightarrow> heap \<Rightarrow>
   (tda_status \<times> nat \<times> ('k, 'v) hobj \<times> heap) option" where
  "add_node self key val hash m h = do {
     (st, (self, m), h) \<leftarrow> hmap_reserve_one self m h;
     if status_is_err st then Some (st, 0, (self, m), h)
     else do {
       (st, node, m, h) \<leftarrow> hmap_alloc_node self key val hash m h;
       if status_is_err st then Some (st, 0, (self, m), h)
       else do {
         (bs, m) \<leftarrow> hmap_link_node (mbuckets self) (mcount self) node m;
         let self = self\<lparr>mbuckets := bs, mlen := wadd (mlen self) 1\<rparr>;
         ASSERT_HMAP self;
         Some (TDA_STATUS_OK, node, (self, m), h)
       }
     }
   }"

partial_function (option) free_chain ::
  "'k hmap \<Rightarrow> nat \<Rightarrow> ('k, 'v) entries \<Rightarrow> heap \<Rightarrow> (('k, 'v) entries \<times> heap) option" where
  "free_chain self node m h =
     (if node = 0 then Some (m, h)
      else do {
        next \<leftarrow> enx_of m node;
        (m, h) \<leftarrow> hmap_dealloc_node self node m h;
        free_chain self next m h
      })"

function free_loop :: "'k hmap \<Rightarrow> nat \<Rightarrow> ('k, 'v) entries \<Rightarrow> heap \<Rightarrow> (('k, 'v) entries \<times> heap) option" where
  "free_loop self i m h =
     (if i < mcount self then do {
        node \<leftarrow> bucket_get (mbuckets self) i;
        (m, h) \<leftarrow> free_chain self node m h;
        free_loop self (i + 1) m h
      }
      else Some (m, h))"
  by pat_completeness auto
termination by (relation "measure (\<lambda>(self, i, _). mcount self - i)") auto

declare free_loop.simps [simp del]

definition free_nodes :: "'k hmap \<Rightarrow> ('k, 'v) entries \<Rightarrow> heap \<Rightarrow> (('k, 'v) entries \<times> heap) option" where
  "free_nodes self m h = free_loop self 0 m h"

definition forget_buckets :: "'k hmap \<Rightarrow> 'k hmap" where
  "forget_buckets self = self\<lparr>mbuckets := [], mcount := 0, mlen := 0\<rparr>"

definition release_buckets :: "'k hmap \<Rightarrow> ('k, 'v) entries \<Rightarrow> heap \<Rightarrow> (('k, 'v) hobj \<times> heap) option" where
  "release_buckets self m h = do {
     (m, h) \<leftarrow> free_nodes self m h;
     h \<leftarrow> al_dealloc_n (mal self) (mbuckets self \<noteq> []) BUCKET (mcount self) h;
     Some ((forget_buckets self, m), h)
   }"

section \<open>Lifetime\<close>

text \<open>The layout of a node and the offsets of the key and the value; the inner \<^const>\<open>None\<close> is an overflow.\<close>

definition hmap_layouts :: "layout \<Rightarrow> layout \<Rightarrow> (layout \<times> nat \<times> nat) option option" where
  "hmap_layouts key val = do {
     r \<leftarrow> tda_layout_ckd_extend HMapNode_layout key;
     case r of
       None \<Rightarrow> Some None
     | Some (node, key_offset) \<Rightarrow> do {
         r \<leftarrow> (if lsize val > 0 then tda_layout_ckd_extend node val
           else Some (Some (node, wadd key_offset (lsize key))));
         case r of
           None \<Rightarrow> Some None
         | Some (node, val_offset) \<Rightarrow> do {
             r \<leftarrow> tda_layout_ckd_pad node;
             case r of None \<Rightarrow> Some None | Some node \<Rightarrow> Some (Some (node, key_offset, val_offset))
           }
       }
   }"

text \<open>The inert map, \<open>(tda_HMap){}\<close>.\<close>

definition hmap_null :: "'k hmap" where
  "hmap_null = \<lparr>mbuckets = [], mcount = 0, mlen = 0, mkey = \<lparr>lsize = 0, lalign = 0\<rparr>, mval = \<lparr>lsize = 0, lalign = 0\<rparr>,
     mkoff = 0, mvoff = 0, mnode = \<lparr>lsize = 0, lalign = 0\<rparr>, mhasher = None, meq = None, mal = 0\<rparr>"

definition tda_hmap_reserve ::
  "'k hmap \<Rightarrow> nat \<Rightarrow> ('k, 'v) entries \<Rightarrow> heap \<Rightarrow> (tda_status \<times> ('k, 'v) hobj \<times> heap) option" where
  "tda_hmap_reserve self new_cap m h = do {
     ASSERT_HMAP self;
     (st, (self, m), h) \<leftarrow> reserve_buckets self new_cap m h;
     ASSERT_HMAP self;
     Some (st, (self, m), h)
   }"

text \<open>On failure \<open>*out\<close> is not written; the model then gives back the inert map.\<close>

definition tda_hmap_init_raw ::
  "nat \<Rightarrow> layout \<Rightarrow> layout \<Rightarrow> ('k \<Rightarrow> 64 word) option \<Rightarrow> ('k \<Rightarrow> 'k \<Rightarrow> bool) option \<Rightarrow> al \<Rightarrow> ('k, 'v) entries \<Rightarrow> heap \<Rightarrow>
   (tda_status \<times> ('k, 'v) hobj \<times> heap) option" where
  "tda_hmap_init_raw cap key val hash_fn eq al m h = do {
     chk (tda_layout_is_type key);
     chk (tda_layout_is_type val \<or> (lsize val = 0 \<and> tda_layout_is_align (lalign val)));
     chk (hash_fn \<noteq> None);
     chk (eq \<noteq> None);
     chk (al \<noteq> 0);
     r \<leftarrow> hmap_layouts key val;
     (node, key_offset, val_offset) \<leftarrow> r;
     let obj = \<lparr>mbuckets = [], mcount = 0, mlen = 0, mkey = key, mval = val, mkoff = key_offset, mvoff = val_offset,
       mnode = node, mhasher = hash_fn, meq = eq, mal = al\<rparr>;
     (st, (obj, m), h) \<leftarrow> (if cap > 0 then tda_hmap_reserve obj cap m h else Some (TDA_STATUS_OK, (obj, m), h));
     if status_is_err st then Some (st, (hmap_null, m), h)
     else do { ASSERT_HMAP obj; Some (TDA_STATUS_OK, (obj, m), h) }
   }"

definition tda_hmap_init ::
  "layout \<Rightarrow> layout \<Rightarrow> ('k \<Rightarrow> 64 word) option \<Rightarrow> ('k \<Rightarrow> 'k \<Rightarrow> bool) option \<Rightarrow> al \<Rightarrow> ('k, 'v) entries \<Rightarrow> heap \<Rightarrow>
   (('k, 'v) hobj \<times> heap) option" where
  "tda_hmap_init key val hash_fn eq al m h = do {
     chk (tda_layout_is_type key);
     chk (tda_layout_is_type val);
     chk (hash_fn \<noteq> None);
     chk (eq \<noteq> None);
     chk (al \<noteq> 0);
     (st, (obj, m), h) \<leftarrow> tda_hmap_init_raw 0 key val hash_fn eq al m h;
     chk (status_is_ok st);
     Some ((obj, m), h)
   }"

definition tda_hmap_init_cap ::
  "nat \<Rightarrow> layout \<Rightarrow> layout \<Rightarrow> ('k \<Rightarrow> 64 word) option \<Rightarrow> ('k \<Rightarrow> 'k \<Rightarrow> bool) option \<Rightarrow> al \<Rightarrow> ('k, 'v) entries \<Rightarrow> heap \<Rightarrow>
   (tda_status \<times> ('k, 'v) hobj \<times> heap) option" where
  "tda_hmap_init_cap cap key val hash_fn eq al m h = do {
     chk (tda_layout_is_type key);
     chk (tda_layout_is_type val);
     chk (hash_fn \<noteq> None);
     chk (eq \<noteq> None);
     chk (al \<noteq> 0);
     tda_hmap_init_raw cap key val hash_fn eq al m h
   }"

definition tda_hmap_deinit :: "'k hmap \<Rightarrow> ('k, 'v) entries \<Rightarrow> heap \<Rightarrow> (('k, 'v) hobj \<times> heap) option" where
  "tda_hmap_deinit self m h =
     (if mal self = 0 then do { chk (mbuckets self = []); Some ((self, m), h) }
      else do {
        ASSERT_HMAP self;
        ((self, m), h) \<leftarrow> release_buckets self m h;
        Some ((hmap_null, m), h)
      })"

section \<open>Copy and move\<close>

partial_function (option) hmap_copy_loop ::
  "'k hmap \<Rightarrow> 'k hmap \<Rightarrow> nat \<Rightarrow> ('k, 'v) entries \<Rightarrow> heap \<Rightarrow> (tda_status \<times> ('k, 'v) hobj \<times> heap) option" where
  "hmap_copy_loop self obj node m h =
     (if node = 0 then Some (TDA_STATUS_OK, (obj, m), h)
      else do {
        val \<leftarrow> (if lsize (mval self) > 0 then do { x \<leftarrow> hmap_node_val m node; Some (Some x) } else Some None);
        key \<leftarrow> hmap_node_key m node;
        hash \<leftarrow> ehash_of m node;
        (st, added, (obj, m), h) \<leftarrow> add_node obj key val hash m h;
        if status_is_err st then do {
          ((obj, m), h) \<leftarrow> tda_hmap_deinit obj m h;
          Some (st, (obj, m), h)
        }
        else do { node \<leftarrow> next_node self m node; hmap_copy_loop self obj node m h }
      })"

definition tda_hmap_copy_with ::
  "'k hmap \<Rightarrow> al \<Rightarrow> ('k, 'v) entries \<Rightarrow> heap \<Rightarrow> (tda_status \<times> ('k, 'v) hobj \<times> heap) option" where
  "tda_hmap_copy_with self al m h = do {
     ASSERT_HMAP self;
     chk (al \<noteq> 0);
     (st, (obj, m), h) \<leftarrow> tda_hmap_init_raw (mlen self) (mkey self) (mval self) (mhasher self) (meq self) al m h;
     if status_is_err st then Some (st, (obj, m), h)
     else do {
       node \<leftarrow> first_from self 0;
       hmap_copy_loop self obj node m h
     }
   }"

definition tda_hmap_copy :: "'k hmap \<Rightarrow> ('k, 'v) entries \<Rightarrow> heap \<Rightarrow> (tda_status \<times> ('k, 'v) hobj \<times> heap) option" where
  "tda_hmap_copy self m h = do { ASSERT_HMAP self; tda_hmap_copy_with self (mal self) m h }"

definition tda_hmap_copy_assign ::
  "bool \<Rightarrow> 'k hmap \<Rightarrow> 'k hmap \<Rightarrow> ('k, 'v) entries \<Rightarrow> heap \<Rightarrow> (tda_status \<times> ('k, 'v) hobj \<times> heap) option" where
  "tda_hmap_copy_assign same self other m h = do {
     ASSERT_HMAP self;
     ASSERT_HMAP other;
     EXPECT_SAME_HMAP self other;
     if same then Some (TDA_STATUS_OK, (self, m), h)
     else do {
       (st, (clone, m), h) \<leftarrow> tda_hmap_copy_with other (mal self) m h;
       if status_is_err st then Some (st, (self, m), h)
       else do {
         ((_, m), h) \<leftarrow> tda_hmap_deinit self m h;
         let self = clone;
         ASSERT_HMAP self;
         Some (TDA_STATUS_OK, (self, m), h)
       }
     }
   }"

definition tda_hmap_move_assign ::
  "bool \<Rightarrow> 'k hmap \<Rightarrow> 'k hmap \<Rightarrow> ('k, 'v) entries \<Rightarrow> heap \<Rightarrow> ('k hmap \<times> 'k hmap \<times> ('k, 'v) entries \<times> heap) option" where
  "tda_hmap_move_assign same self other m h = do {
     ASSERT_HMAP other;
     (if mal self \<noteq> 0 then do { ASSERT_HMAP self; EXPECT_SAME_HMAP self other } else Some ());
     if same then Some (self, other, m, h)
     else do {
       ((_, m), h) \<leftarrow> tda_hmap_deinit self m h;
       let self = other;
       let other = forget_buckets other;
       ASSERT_HMAP self;
       ASSERT_HMAP other;
       Some (self, other, m, h)
     }
   }"

definition tda_hmap_swap :: "bool \<Rightarrow> 'k hmap \<Rightarrow> 'k hmap \<Rightarrow> ('k hmap \<times> 'k hmap) option" where
  "tda_hmap_swap same self other = do {
     ASSERT_HMAP self;
     ASSERT_HMAP other;
     EXPECT_SAME_HMAP self other;
     if same then Some (self, other)
     else do {
       let (self, other) = (other, self);
       ASSERT_HMAP self;
       ASSERT_HMAP other;
       Some (self, other)
     }
   }"

section \<open>Lookup and walking\<close>

text \<open>A pointer to a value is its node, null being 0.\<close>

definition tda_hmap_get :: "'k hmap \<Rightarrow> ('k, 'v) entries \<Rightarrow> 'k \<Rightarrow> nat option" where
  "tda_hmap_get self m key = do {
     ASSERT_HMAP self;
     hash \<leftarrow> key_hash self key;
     hmap_find_node self m key hash
   }"

definition tda_hmap_contains :: "'k hmap \<Rightarrow> ('k, 'v) entries \<Rightarrow> 'k \<Rightarrow> bool option" where
  "tda_hmap_contains self m key = do {
     ASSERT_HMAP self;
     hash \<leftarrow> key_hash self key;
     node \<leftarrow> hmap_find_node self m key hash;
     Some (node \<noteq> 0)
   }"

definition tda_hmap_find :: "'k hmap \<Rightarrow> ('k, 'v) entries \<Rightarrow> 'k \<Rightarrow> nat option" where
  "tda_hmap_find self m key = do {
     ASSERT_HMAP self;
     hash \<leftarrow> key_hash self key;
     hmap_find_node self m key hash
   }"

definition tda_hmap_first_node :: "'k hmap \<Rightarrow> nat option" where
  "tda_hmap_first_node self = do { ASSERT_HMAP self; first_from self 0 }"

definition tda_hmap_node_next :: "'k hmap \<Rightarrow> ('k, 'v) entries \<Rightarrow> nat \<Rightarrow> nat option" where
  "tda_hmap_node_next self m node = do { ASSERT_HMAP self; chk (node \<noteq> 0); next_node self m node }"

definition tda_hmap_node_key :: "'k hmap \<Rightarrow> ('k, 'v) entries \<Rightarrow> nat \<Rightarrow> 'k option" where
  "tda_hmap_node_key self m node = do { ASSERT_HMAP self; chk (node \<noteq> 0); hmap_node_key m node }"

definition tda_hmap_node_val :: "'k hmap \<Rightarrow> ('k, 'v) entries \<Rightarrow> nat \<Rightarrow> 'v option option" where
  "tda_hmap_node_val self m node = do { ASSERT_HMAP self; chk (node \<noteq> 0); hmap_node_val m node }"

definition tda_hmap_len :: "'k hmap \<Rightarrow> nat option" where
  "tda_hmap_len self = do { chk (mal self \<noteq> 0); Some (mlen self) }"

definition tda_hmap_bucket_count :: "'k hmap \<Rightarrow> nat option" where
  "tda_hmap_bucket_count self = do { chk (mal self \<noteq> 0); Some (mcount self) }"

definition tda_hmap_key_layout :: "'k hmap \<Rightarrow> layout option" where
  "tda_hmap_key_layout self = do { chk (mal self \<noteq> 0); Some (mkey self) }"

definition tda_hmap_val_layout :: "'k hmap \<Rightarrow> layout option" where
  "tda_hmap_val_layout self = do { chk (mal self \<noteq> 0); Some (mval self) }"

definition tda_hmap_al :: "'k hmap \<Rightarrow> al option" where
  "tda_hmap_al self = do { chk (mal self \<noteq> 0); Some (mal self) }"

section \<open>Compare\<close>

partial_function (option) hmap_eq_chain ::
  "('v \<Rightarrow> 'v \<Rightarrow> bool) \<Rightarrow> 'k hmap \<Rightarrow> nat \<Rightarrow> ('k, 'v) entries \<Rightarrow> bool option" where
  "hmap_eq_chain veq b node m =
     (if node = 0 then Some True
      else do {
        key \<leftarrow> hmap_node_key m node;
        hash \<leftarrow> key_hash b key;
        found \<leftarrow> hmap_find_node b m key hash;
        if found = 0 then Some False
        else do {
          x \<leftarrow> hmap_node_val m node;
          lhs \<leftarrow> x;
          y \<leftarrow> hmap_node_val m found;
          rhs \<leftarrow> y;
          if \<not> veq lhs rhs then Some False
          else do { node \<leftarrow> enx_of m node; hmap_eq_chain veq b node m }
        }
      })"

function hmap_eq_loop ::
  "('v \<Rightarrow> 'v \<Rightarrow> bool) \<Rightarrow> 'k hmap \<Rightarrow> 'k hmap \<Rightarrow> nat \<Rightarrow> ('k, 'v) entries \<Rightarrow> bool option" where
  "hmap_eq_loop veq a b i m =
     (if i < mcount a then do {
        node \<leftarrow> bucket_get (mbuckets a) i;
        r \<leftarrow> hmap_eq_chain veq b node m;
        if \<not> r then Some False else hmap_eq_loop veq a b (i + 1) m
      }
      else Some True)"
  by pat_completeness auto
termination by (relation "measure (\<lambda>(_, a, _, i, _). mcount a - i)") auto

declare hmap_eq_loop.simps [simp del]

definition hmap_eq_impl ::
  "bool \<Rightarrow> ('v \<Rightarrow> 'v \<Rightarrow> bool) \<Rightarrow> 'k hmap \<Rightarrow> 'k hmap \<Rightarrow> ('k, 'v) entries \<Rightarrow> bool option" where
  "hmap_eq_impl same veq a b m =
     (if same then Some True
      else if mlen a \<noteq> mlen b then Some False
      else hmap_eq_loop veq a b 0 m)"

text \<open>\<open>one_eq\<close> says whether the two maps have one \<open>eq_\<close>; the values are their bytes for \<open>tda_hmap_eq\<close>.\<close>

definition tda_hmap_eq_by ::
  "bool \<Rightarrow> bool \<Rightarrow> ('v \<Rightarrow> 'v \<Rightarrow> bool) \<Rightarrow> 'k hmap \<Rightarrow> 'k hmap \<Rightarrow> ('k, 'v) entries \<Rightarrow> bool option" where
  "tda_hmap_eq_by same one_eq val_eq a b m = do {
     ASSERT_HMAP a;
     ASSERT_HMAP b;
     EXPECT_SAME_HMAP a b;
     chk one_eq;
     hmap_eq_impl same val_eq a b m
   }"

definition tda_hmap_eq ::
  "bool \<Rightarrow> bool \<Rightarrow> 'k hmap \<Rightarrow> 'k hmap \<Rightarrow> ('k, byte list) entries \<Rightarrow> bool option" where
  "tda_hmap_eq same one_eq a b m = do {
     ASSERT_HMAP a;
     ASSERT_HMAP b;
     EXPECT_SAME_HMAP a b;
     chk one_eq;
     hmap_eq_impl same (=) a b m
   }"

section \<open>Modifying\<close>

text \<open>Besides the status, what \<open>*out_is_new\<close> is set to, if it is.\<close>

definition tda_hmap_insert ::
  "'k hmap \<Rightarrow> 'k \<Rightarrow> 'v option option \<Rightarrow> ('k, 'v) entries \<Rightarrow> heap \<Rightarrow>
   (tda_status \<times> bool option \<times> ('k, 'v) hobj \<times> heap) option" where
  "tda_hmap_insert self key val m h = do {
     ASSERT_HMAP self;
     chk (val \<noteq> None \<or> lsize (mval self) = 0);
     hash \<leftarrow> key_hash self key;
     found \<leftarrow> hmap_find_node self m key hash;
     if found \<noteq> 0 then do {
       m \<leftarrow> (if lsize (mval self) > 0 then do { x \<leftarrow> val; set_evl m found x } else Some m);
       Some (TDA_STATUS_OK, Some False, (self, m), h)
     }
     else do {
       (st, node, (self, m), h) \<leftarrow> add_node self key val hash m h;
       ASSERT_HMAP self;
       if status_is_err st then Some (st, None, (self, m), h)
       else Some (TDA_STATUS_OK, Some True, (self, m), h)
     }
   }"

fun hmap_extend_loop ::
  "'k hmap \<Rightarrow> ('k \<times> 'v option) list \<Rightarrow> ('k, 'v) entries \<Rightarrow> heap \<Rightarrow> (tda_status \<times> ('k, 'v) hobj \<times> heap) option" where
  "hmap_extend_loop self [] m h = Some (TDA_STATUS_OK, (self, m), h)"
| "hmap_extend_loop self ((key, val) # kvs) m h = do {
     (st, new, (self, m), h) \<leftarrow> tda_hmap_insert self key (Some val) m h;
     if status_is_err st then Some (st, (self, m), h)
     else hmap_extend_loop self kvs m h
   }"

definition tda_hmap_extend ::
  "'k hmap \<Rightarrow> 'k list \<Rightarrow> layout \<Rightarrow> 'v slots \<Rightarrow> layout \<Rightarrow> ('k, 'v) entries \<Rightarrow> heap \<Rightarrow>
   (tda_status \<times> ('k, 'v) hobj \<times> heap) option" where
  "tda_hmap_extend self keys key_elem vals val_elem m h = do {
     ASSERT_HMAP self;
     chk (tda_layout_is_type key_elem);
     chk (tda_layout_is_type val_elem);
     chk (tda_layout_eq (mkey self) key_elem);
     chk (tda_layout_eq (mval self) val_elem);
     chk (length keys = length vals);
     (st, (self, m), h) \<leftarrow> hmap_extend_loop self (zip keys vals) m h;
     ASSERT_HMAP self;
     Some (st, (self, m), h)
   }"

definition tda_hmap_from_spans ::
  "'k list \<Rightarrow> layout \<Rightarrow> 'v slots \<Rightarrow> layout \<Rightarrow> ('k \<Rightarrow> 64 word) option \<Rightarrow> ('k \<Rightarrow> 'k \<Rightarrow> bool) option \<Rightarrow> al \<Rightarrow>
   ('k, 'v) entries \<Rightarrow> heap \<Rightarrow> (tda_status \<times> ('k, 'v) hobj \<times> heap) option" where
  "tda_hmap_from_spans keys key_elem vals val_elem hash_fn eq al m h = do {
     chk (tda_layout_is_type key_elem);
     chk (tda_layout_is_type val_elem);
     chk (hash_fn \<noteq> None);
     chk (eq \<noteq> None);
     chk (al \<noteq> 0);
     chk (length keys = length vals);
     (st, (obj, m), h) \<leftarrow> tda_hmap_init_cap (length keys) key_elem val_elem hash_fn eq al m h;
     if status_is_err st then Some (st, (obj, m), h)
     else do {
       (st, (obj, m), h) \<leftarrow> tda_hmap_extend obj keys key_elem vals val_elem m h;
       if status_is_err st then do {
         ((obj, m), h) \<leftarrow> tda_hmap_deinit obj m h;
         Some (st, (obj, m), h)
       }
       else Some (TDA_STATUS_OK, (obj, m), h)
     }
   }"

definition tda_hmap_get_or_insert ::
  "'k hmap \<Rightarrow> 'k \<Rightarrow> 'v option option \<Rightarrow> ('k, 'v) entries \<Rightarrow> heap \<Rightarrow>
   (tda_status \<times> nat \<times> ('k, 'v) hobj \<times> heap) option" where
  "tda_hmap_get_or_insert self key val_if_absent m h = do {
     ASSERT_HMAP self;
     chk (val_if_absent \<noteq> None \<or> lsize (mval self) = 0);
     hash \<leftarrow> key_hash self key;
     found \<leftarrow> hmap_find_node self m key hash;
     if found \<noteq> 0 then Some (TDA_STATUS_OK, found, (self, m), h)
     else do {
       (st, node, (self, m), h) \<leftarrow> add_node self key val_if_absent hash m h;
       ASSERT_HMAP self;
       Some (st, node, (self, m), h)
     }
   }"

text \<open>The key and the value taken out, for the outputs that are asked for; \<^const>\<open>None\<close> is \<open>false\<close>.\<close>

definition tda_hmap_take ::
  "'k hmap \<Rightarrow> 'k \<Rightarrow> ('k, 'v) entries \<Rightarrow> heap \<Rightarrow> (('k \<times> 'v option) option \<times> ('k, 'v) hobj \<times> heap) option" where
  "tda_hmap_take self key m h = do {
     ASSERT_HMAP self;
     if mcount self = 0 then Some (None, (self, m), h)
     else do {
       hash \<leftarrow> key_hash self key;
       link \<leftarrow> find_link self m key hash;
       node \<leftarrow> link_get self m link;
       if node = 0 then Some (None, (self, m), h)
       else do {
         out_key \<leftarrow> hmap_node_key m node;
         out_val \<leftarrow> hmap_node_val m node;
         ((self, m), h) \<leftarrow> remove_at self link m h;
         ASSERT_HMAP self;
         Some (Some (out_key, out_val), (self, m), h)
       }
     }
   }"

definition tda_hmap_remove ::
  "'k hmap \<Rightarrow> 'k \<Rightarrow> ('k, 'v) entries \<Rightarrow> heap \<Rightarrow> (bool \<times> ('k, 'v) hobj \<times> heap) option" where
  "tda_hmap_remove self key m h = do {
     ASSERT_HMAP self;
     (r, (self, m), h) \<leftarrow> tda_hmap_take self key m h;
     ASSERT_HMAP self;
     Some (r \<noteq> None, (self, m), h)
   }"

partial_function (option) link_to_loop :: "'k hmap \<Rightarrow> ('k, 'v) entries \<Rightarrow> nat \<Rightarrow> link \<Rightarrow> link option" where
  "link_to_loop self m node link = do {
     p \<leftarrow> link_get self m link;
     if p \<noteq> 0 \<and> p \<noteq> node then link_to_loop self m node (Next p) else Some link
   }"

definition tda_hmap_remove_node ::
  "'k hmap \<Rightarrow> nat \<Rightarrow> ('k, 'v) entries \<Rightarrow> heap \<Rightarrow> (('k, 'v) hobj \<times> heap) option" where
  "tda_hmap_remove_node self node m h = do {
     ASSERT_HMAP self;
     chk (node \<noteq> 0);
     chk (mlen self > 0);
     hash \<leftarrow> ehash_of m node;
     b \<leftarrow> bucket_of self hash;
     link \<leftarrow> link_to_loop self m node (Slot b);
     p \<leftarrow> link_get self m link;
     chk (p = node);
     ((self, m), h) \<leftarrow> remove_at self link m h;
     ASSERT_HMAP self;
     Some ((self, m), h)
   }"

text \<open>The predicate may read the memory, as the one of a set operation does.\<close>

partial_function (option) retain_chain ::
  "(('k, 'v) entries \<Rightarrow> 'k \<Rightarrow> 'v option \<Rightarrow> bool option) \<Rightarrow> 'k hmap \<Rightarrow> link \<Rightarrow> ('k, 'v) entries \<Rightarrow> heap \<Rightarrow>
   (('k, 'v) hobj \<times> heap) option" where
  "retain_chain pred self link m h = do {
     node \<leftarrow> link_get self m link;
     if node = 0 then Some ((self, m), h)
     else do {
       key \<leftarrow> hmap_node_key m node;
       val \<leftarrow> hmap_node_val m node;
       b \<leftarrow> pred m key val;
       if b then retain_chain pred self (Next node) m h
       else do {
         ((self, m), h) \<leftarrow> remove_at self link m h;
         retain_chain pred self link m h
       }
     }
   }"

text \<open>No step changes the bucket count.\<close>

fun retain_loop ::
  "nat \<Rightarrow> (('k, 'v) entries \<Rightarrow> 'k \<Rightarrow> 'v option \<Rightarrow> bool option) \<Rightarrow> 'k hmap \<Rightarrow> nat \<Rightarrow> ('k, 'v) entries \<Rightarrow> heap \<Rightarrow>
   (('k, 'v) hobj \<times> heap) option" where
  "retain_loop 0 pred self i m h = Some ((self, m), h)"
| "retain_loop (Suc left) pred self i m h = do {
     ((self, m), h) \<leftarrow> retain_chain pred self (Slot i) m h;
     retain_loop left pred self (i + 1) m h
   }"

definition tda_hmap_retain ::
  "(('k, 'v) entries \<Rightarrow> 'k \<Rightarrow> 'v option \<Rightarrow> bool option) \<Rightarrow> 'k hmap \<Rightarrow> ('k, 'v) entries \<Rightarrow> heap \<Rightarrow>
   (('k, 'v) hobj \<times> heap) option" where
  "tda_hmap_retain pred self m h = do {
     ASSERT_HMAP self;
     ((self, m), h) \<leftarrow> retain_loop (mcount self) pred self 0 m h;
     ASSERT_HMAP self;
     Some ((self, m), h)
   }"

definition tda_hmap_clear :: "'k hmap \<Rightarrow> ('k, 'v) entries \<Rightarrow> heap \<Rightarrow> (('k, 'v) hobj \<times> heap) option" where
  "tda_hmap_clear self m h = do {
     ASSERT_HMAP self;
     (m, h) \<leftarrow> free_nodes self m h;
     let self = self\<lparr>mbuckets := replicate (mcount self) 0, mlen := 0\<rparr>;
     ASSERT_HMAP self;
     Some ((self, m), h)
   }"

definition tda_hmap_shrink_to_fit ::
  "'k hmap \<Rightarrow> ('k, 'v) entries \<Rightarrow> heap \<Rightarrow> (tda_status \<times> ('k, 'v) hobj \<times> heap) option" where
  "tda_hmap_shrink_to_fit self m h = do {
     ASSERT_HMAP self;
     if mlen self = 0 then do {
       ((self, m), h) \<leftarrow> release_buckets self m h;
       ASSERT_HMAP self;
       Some (TDA_STATUS_OK, (self, m), h)
     }
     else do {
       want \<leftarrow> buckets_for (mlen self);
       if want = 0 \<or> want \<ge> mcount self then Some (TDA_STATUS_OK, (self, m), h)
       else do {
         (st, (self, m), h) \<leftarrow> rehash self want m h;
         ASSERT_HMAP self;
         Some (st, (self, m), h)
       }
     }
   }"

end
