(* ===== verification/HSet.thy ===== *)
theory HSet
  imports HMap
begin

text \<open>
  \<open>ds/hset.h\<close> and \<open>ds/hset.c\<close>: a hash set is a map of \<open>HMap\<close> whose values take no bytes; a set node is
  a map node's address. Whether two set arguments are one, and whether their equalities are one
  function, are parameters where the code asks.
\<close>

record 'k hset =
  smap :: "'k hmap"

type_synonym 'k sobj = "'k hset \<times> ('k, unit) entries"

section \<open>Internals\<close>

definition ASSERT_HSET :: "'k hset \<Rightarrow> unit option" where
  "ASSERT_HSET s = do {
     chk (mal (smap s) \<noteq> 0);
     val \<leftarrow> tda_hmap_val_layout (smap s);
     chk (lsize val = 0)
   }"

definition EXPECT_SAME_HSET :: "'k hset \<Rightarrow> 'k hset \<Rightarrow> unit option" where
  "EXPECT_SAME_HSET a b = do {
     ka \<leftarrow> tda_hmap_key_layout (smap a);
     kb \<leftarrow> tda_hmap_key_layout (smap b);
     chk (tda_layout_eq ka kb)
   }"

text \<open>The three tests of entries; the context of the last two is a map.\<close>

definition key_passes :: "('k \<Rightarrow> bool) \<Rightarrow> ('k, unit) entries \<Rightarrow> 'k \<Rightarrow> unit option \<Rightarrow> bool option" where
  "key_passes pred m key val = Some (pred key)"

definition hset_held_by :: "'k hmap \<Rightarrow> ('k, unit) entries \<Rightarrow> 'k \<Rightarrow> unit option \<Rightarrow> bool option" where
  "hset_held_by ctx m key val = tda_hmap_contains ctx m key"

definition hset_not_held_by :: "'k hmap \<Rightarrow> ('k, unit) entries \<Rightarrow> 'k \<Rightarrow> unit option \<Rightarrow> bool option" where
  "hset_not_held_by ctx m key val = do { b \<leftarrow> tda_hmap_contains ctx m key; Some (\<not> b) }"

partial_function (option) keys_all_in_loop :: "'k hmap \<Rightarrow> 'k hmap \<Rightarrow> nat \<Rightarrow> ('k, unit) entries \<Rightarrow> bool option" where
  "keys_all_in_loop a b node m =
     (if node = 0 then Some True
      else do {
        key \<leftarrow> tda_hmap_node_key a m node;
        r \<leftarrow> tda_hmap_contains b m key;
        if \<not> r then Some False
        else do { node \<leftarrow> tda_hmap_node_next a m node; keys_all_in_loop a b node m }
      })"

definition keys_all_in :: "'k hmap \<Rightarrow> 'k hmap \<Rightarrow> ('k, unit) entries \<Rightarrow> bool option" where
  "keys_all_in a b m = do { node \<leftarrow> tda_hmap_first_node a; keys_all_in_loop a b node m }"

text \<open>
  \<open>TDA_HMAP_FOR_EACH\<close> over \<open>other\<close>, with a body that changes \<open>self\<close> and may return a failure.
\<close>

partial_function (option) for_each_node ::
  "('k \<Rightarrow> 'k hmap \<Rightarrow> ('k, unit) entries \<Rightarrow> heap \<Rightarrow> (tda_status \<times> ('k, unit) hobj \<times> heap) option) \<Rightarrow>
   'k hmap \<Rightarrow> nat \<Rightarrow> 'k hmap \<Rightarrow> ('k, unit) entries \<Rightarrow> heap \<Rightarrow> (tda_status \<times> ('k, unit) hobj \<times> heap) option" where
  "for_each_node body other node self m h =
     (if node = 0 then Some (TDA_STATUS_OK, (self, m), h)
      else do {
        key \<leftarrow> tda_hmap_node_key other m node;
        (st, (self, m), h) \<leftarrow> body key self m h;
        if status_is_err st then Some (st, (self, m), h)
        else do { node \<leftarrow> tda_hmap_node_next other m node; for_each_node body other node self m h }
      })"

definition for_each ::
  "('k \<Rightarrow> 'k hmap \<Rightarrow> ('k, unit) entries \<Rightarrow> heap \<Rightarrow> (tda_status \<times> ('k, unit) hobj \<times> heap) option) \<Rightarrow>
   'k hmap \<Rightarrow> 'k hmap \<Rightarrow> ('k, unit) entries \<Rightarrow> heap \<Rightarrow> (tda_status \<times> ('k, unit) hobj \<times> heap) option" where
  "for_each body other self m h = do { node \<leftarrow> tda_hmap_first_node other; for_each_node body other node self m h }"

section \<open>Lifetime\<close>

definition tda_hset_init_cap ::
  "nat \<Rightarrow> layout \<Rightarrow> ('k \<Rightarrow> 64 word) option \<Rightarrow> ('k \<Rightarrow> 'k \<Rightarrow> bool) option \<Rightarrow> al \<Rightarrow> ('k, unit) entries \<Rightarrow> heap \<Rightarrow>
   (tda_status \<times> 'k sobj \<times> heap) option" where
  "tda_hset_init_cap cap key hash_fn eq al m h = do {
     chk (tda_layout_is_type key);
     chk (hash_fn \<noteq> None);
     chk (eq \<noteq> None);
     chk (al \<noteq> 0);
     (st, (t, m), h) \<leftarrow> tda_hmap_init_raw cap key \<lparr>lsize = 0, lalign = 1\<rparr> hash_fn eq al m h;
     Some (st, (\<lparr>smap = t\<rparr>, m), h)
   }"

definition tda_hset_init ::
  "layout \<Rightarrow> ('k \<Rightarrow> 64 word) option \<Rightarrow> ('k \<Rightarrow> 'k \<Rightarrow> bool) option \<Rightarrow> al \<Rightarrow> ('k, unit) entries \<Rightarrow> heap \<Rightarrow>
   ('k sobj \<times> heap) option" where
  "tda_hset_init key hash_fn eq al m h = do {
     chk (tda_layout_is_type key);
     chk (hash_fn \<noteq> None);
     chk (eq \<noteq> None);
     chk (al \<noteq> 0);
     (st, (obj, m), h) \<leftarrow> tda_hset_init_cap 0 key hash_fn eq al m h;
     chk (status_is_ok st);
     Some ((obj, m), h)
   }"

definition tda_hset_deinit :: "'k hset \<Rightarrow> ('k, unit) entries \<Rightarrow> heap \<Rightarrow> ('k sobj \<times> heap) option" where
  "tda_hset_deinit self m h = do {
     ((t, m), h) \<leftarrow> tda_hmap_deinit (smap self) m h;
     Some ((\<lparr>smap = t\<rparr>, m), h)
   }"

fun hset_extend_loop ::
  "'k hset \<Rightarrow> 'k list \<Rightarrow> ('k, unit) entries \<Rightarrow> heap \<Rightarrow> (tda_status \<times> 'k sobj \<times> heap) option" where
  "hset_extend_loop self [] m h = Some (TDA_STATUS_OK, (self, m), h)"
| "hset_extend_loop self (key # keys) m h = do {
     (st, new, (t, m), h) \<leftarrow> tda_hmap_insert (smap self) key None m h;
     if status_is_err st then Some (st, (self\<lparr>smap := t\<rparr>, m), h)
     else hset_extend_loop (self\<lparr>smap := t\<rparr>) keys m h
   }"

definition tda_hset_extend ::
  "'k hset \<Rightarrow> 'k list \<Rightarrow> layout \<Rightarrow> ('k, unit) entries \<Rightarrow> heap \<Rightarrow> (tda_status \<times> 'k sobj \<times> heap) option" where
  "tda_hset_extend self src elem m h = do {
     ASSERT_HSET self;
     chk (tda_layout_is_type elem);
     key \<leftarrow> tda_hmap_key_layout (smap self);
     chk (tda_layout_eq key elem);
     (st, (self, m), h) \<leftarrow> hset_extend_loop self src m h;
     ASSERT_HSET self;
     Some (st, (self, m), h)
   }"

definition tda_hset_from_span ::
  "'k list \<Rightarrow> layout \<Rightarrow> ('k \<Rightarrow> 64 word) option \<Rightarrow> ('k \<Rightarrow> 'k \<Rightarrow> bool) option \<Rightarrow> al \<Rightarrow> ('k, unit) entries \<Rightarrow> heap \<Rightarrow>
   (tda_status \<times> 'k sobj \<times> heap) option" where
  "tda_hset_from_span s elem hash_fn eq al m h = do {
     chk (tda_layout_is_type elem);
     chk (hash_fn \<noteq> None);
     chk (eq \<noteq> None);
     chk (al \<noteq> 0);
     (st, (obj, m), h) \<leftarrow> tda_hset_init_cap (length s) elem hash_fn eq al m h;
     if status_is_err st then Some (st, (obj, m), h)
     else do {
       (st, (obj, m), h) \<leftarrow> tda_hset_extend obj s elem m h;
       if status_is_err st then do {
         ((obj, m), h) \<leftarrow> tda_hset_deinit obj m h;
         Some (st, (obj, m), h)
       }
       else Some (TDA_STATUS_OK, (obj, m), h)
     }
   }"

section \<open>Copy, move and compare\<close>

definition tda_hset_copy_with ::
  "'k hset \<Rightarrow> al \<Rightarrow> ('k, unit) entries \<Rightarrow> heap \<Rightarrow> (tda_status \<times> 'k sobj \<times> heap) option" where
  "tda_hset_copy_with self al m h = do {
     ASSERT_HSET self;
     chk (al \<noteq> 0);
     (st, (t, m), h) \<leftarrow> tda_hmap_copy_with (smap self) al m h;
     Some (st, (\<lparr>smap = t\<rparr>, m), h)
   }"

definition tda_hset_copy ::
  "'k hset \<Rightarrow> ('k, unit) entries \<Rightarrow> heap \<Rightarrow> (tda_status \<times> 'k sobj \<times> heap) option" where
  "tda_hset_copy self m h = do {
     ASSERT_HSET self;
     al \<leftarrow> tda_hmap_al (smap self);
     tda_hset_copy_with self al m h
   }"

definition tda_hset_copy_assign ::
  "bool \<Rightarrow> 'k hset \<Rightarrow> 'k hset \<Rightarrow> ('k, unit) entries \<Rightarrow> heap \<Rightarrow> (tda_status \<times> 'k sobj \<times> heap) option" where
  "tda_hset_copy_assign same self other m h = do {
     ASSERT_HSET self;
     ASSERT_HSET other;
     EXPECT_SAME_HSET self other;
     (st, (t, m), h) \<leftarrow> tda_hmap_copy_assign same (smap self) (smap other) m h;
     let self = self\<lparr>smap := t\<rparr>;
     ASSERT_HSET self;
     Some (st, (self, m), h)
   }"

definition tda_hset_move_assign ::
  "bool \<Rightarrow> 'k hset \<Rightarrow> 'k hset \<Rightarrow> ('k, unit) entries \<Rightarrow> heap \<Rightarrow> ('k hset \<times> 'k hset \<times> ('k, unit) entries \<times> heap) option" where
  "tda_hset_move_assign same self other m h = do {
     ASSERT_HSET other;
     (if mal (smap self) \<noteq> 0 then do { ASSERT_HSET self; EXPECT_SAME_HSET self other } else Some ());
     (a, b, m, h) \<leftarrow> tda_hmap_move_assign same (smap self) (smap other) m h;
     let self = self\<lparr>smap := a\<rparr>;
     let other = other\<lparr>smap := b\<rparr>;
     ASSERT_HSET self;
     ASSERT_HSET other;
     Some (self, other, m, h)
   }"

definition tda_hset_swap :: "bool \<Rightarrow> 'k hset \<Rightarrow> 'k hset \<Rightarrow> ('k hset \<times> 'k hset) option" where
  "tda_hset_swap same self other = do {
     ASSERT_HSET self;
     ASSERT_HSET other;
     EXPECT_SAME_HSET self other;
     (a, b) \<leftarrow> tda_hmap_swap same (smap self) (smap other);
     let self = self\<lparr>smap := a\<rparr>;
     let other = other\<lparr>smap := b\<rparr>;
     ASSERT_HSET self;
     ASSERT_HSET other;
     Some (self, other)
   }"

definition tda_hset_eq :: "bool \<Rightarrow> bool \<Rightarrow> 'k hset \<Rightarrow> 'k hset \<Rightarrow> ('k, unit) entries \<Rightarrow> bool option" where
  "tda_hset_eq same one_eq a b m = do {
     ASSERT_HSET a;
     ASSERT_HSET b;
     EXPECT_SAME_HSET a b;
     chk one_eq;
     if same then Some True
     else do {
       la \<leftarrow> tda_hmap_len (smap a);
       lb \<leftarrow> tda_hmap_len (smap b);
       if la \<noteq> lb then Some False else keys_all_in (smap a) (smap b) m
     }
   }"

section \<open>Lookup and walking\<close>

definition tda_hset_contains :: "'k hset \<Rightarrow> ('k, unit) entries \<Rightarrow> 'k \<Rightarrow> bool option" where
  "tda_hset_contains self m key = do { ASSERT_HSET self; tda_hmap_contains (smap self) m key }"

definition tda_hset_find :: "'k hset \<Rightarrow> ('k, unit) entries \<Rightarrow> 'k \<Rightarrow> nat option" where
  "tda_hset_find self m key = do { ASSERT_HSET self; tda_hmap_find (smap self) m key }"

definition tda_hset_first_node :: "'k hset \<Rightarrow> nat option" where
  "tda_hset_first_node self = do { ASSERT_HSET self; tda_hmap_first_node (smap self) }"

definition tda_hset_node_next :: "'k hset \<Rightarrow> ('k, unit) entries \<Rightarrow> nat \<Rightarrow> nat option" where
  "tda_hset_node_next self m node = do { ASSERT_HSET self; chk (node \<noteq> 0); tda_hmap_node_next (smap self) m node }"

definition tda_hset_node_key :: "'k hset \<Rightarrow> ('k, unit) entries \<Rightarrow> nat \<Rightarrow> 'k option" where
  "tda_hset_node_key self m node = do { ASSERT_HSET self; chk (node \<noteq> 0); tda_hmap_node_key (smap self) m node }"

definition tda_hset_len :: "'k hset \<Rightarrow> nat option" where
  "tda_hset_len self = do { chk (mal (smap self) \<noteq> 0); tda_hmap_len (smap self) }"

definition tda_hset_bucket_count :: "'k hset \<Rightarrow> nat option" where
  "tda_hset_bucket_count self = do { chk (mal (smap self) \<noteq> 0); tda_hmap_bucket_count (smap self) }"

definition tda_hset_key_layout :: "'k hset \<Rightarrow> layout option" where
  "tda_hset_key_layout self = do { chk (mal (smap self) \<noteq> 0); tda_hmap_key_layout (smap self) }"

definition tda_hset_al :: "'k hset \<Rightarrow> al option" where
  "tda_hset_al self = do { chk (mal (smap self) \<noteq> 0); tda_hmap_al (smap self) }"

section \<open>Modifying\<close>

definition tda_hset_insert ::
  "'k hset \<Rightarrow> 'k \<Rightarrow> ('k, unit) entries \<Rightarrow> heap \<Rightarrow> (tda_status \<times> bool option \<times> 'k sobj \<times> heap) option" where
  "tda_hset_insert self key m h = do {
     ASSERT_HSET self;
     (st, new, (t, m), h) \<leftarrow> tda_hmap_insert (smap self) key None m h;
     let self = self\<lparr>smap := t\<rparr>;
     ASSERT_HSET self;
     Some (st, new, (self, m), h)
   }"

definition tda_hset_remove ::
  "'k hset \<Rightarrow> 'k \<Rightarrow> ('k, unit) entries \<Rightarrow> heap \<Rightarrow> (bool \<times> 'k sobj \<times> heap) option" where
  "tda_hset_remove self key m h = do {
     ASSERT_HSET self;
     (r, (t, m), h) \<leftarrow> tda_hmap_remove (smap self) key m h;
     let self = self\<lparr>smap := t\<rparr>;
     ASSERT_HSET self;
     Some (r, (self, m), h)
   }"

definition tda_hset_remove_node ::
  "'k hset \<Rightarrow> nat \<Rightarrow> ('k, unit) entries \<Rightarrow> heap \<Rightarrow> ('k sobj \<times> heap) option" where
  "tda_hset_remove_node self node m h = do {
     ASSERT_HSET self;
     chk (node \<noteq> 0);
     ((t, m), h) \<leftarrow> tda_hmap_remove_node (smap self) node m h;
     let self = self\<lparr>smap := t\<rparr>;
     ASSERT_HSET self;
     Some ((self, m), h)
   }"

text \<open>The key taken out, \<^const>\<open>None\<close> being \<open>false\<close>.\<close>

definition tda_hset_take ::
  "'k hset \<Rightarrow> 'k \<Rightarrow> ('k, unit) entries \<Rightarrow> heap \<Rightarrow> ('k option \<times> 'k sobj \<times> heap) option" where
  "tda_hset_take self key m h = do {
     ASSERT_HSET self;
     (r, (t, m), h) \<leftarrow> tda_hmap_take (smap self) key m h;
     let self = self\<lparr>smap := t\<rparr>;
     ASSERT_HSET self;
     Some (map_option fst r, (self, m), h)
   }"

definition tda_hset_retain ::
  "('k \<Rightarrow> bool) \<Rightarrow> 'k hset \<Rightarrow> ('k, unit) entries \<Rightarrow> heap \<Rightarrow> ('k sobj \<times> heap) option" where
  "tda_hset_retain pred self m h = do {
     ASSERT_HSET self;
     ((t, m), h) \<leftarrow> tda_hmap_retain (key_passes pred) (smap self) m h;
     let self = self\<lparr>smap := t\<rparr>;
     ASSERT_HSET self;
     Some ((self, m), h)
   }"

definition tda_hset_clear :: "'k hset \<Rightarrow> ('k, unit) entries \<Rightarrow> heap \<Rightarrow> ('k sobj \<times> heap) option" where
  "tda_hset_clear self m h = do {
     ASSERT_HSET self;
     ((t, m), h) \<leftarrow> tda_hmap_clear (smap self) m h;
     let self = self\<lparr>smap := t\<rparr>;
     ASSERT_HSET self;
     Some ((self, m), h)
   }"

definition tda_hset_reserve ::
  "'k hset \<Rightarrow> nat \<Rightarrow> ('k, unit) entries \<Rightarrow> heap \<Rightarrow> (tda_status \<times> 'k sobj \<times> heap) option" where
  "tda_hset_reserve self new_cap m h = do {
     ASSERT_HSET self;
     (st, (t, m), h) \<leftarrow> tda_hmap_reserve (smap self) new_cap m h;
     let self = self\<lparr>smap := t\<rparr>;
     ASSERT_HSET self;
     Some (st, (self, m), h)
   }"

definition tda_hset_shrink_to_fit ::
  "'k hset \<Rightarrow> ('k, unit) entries \<Rightarrow> heap \<Rightarrow> (tda_status \<times> 'k sobj \<times> heap) option" where
  "tda_hset_shrink_to_fit self m h = do {
     ASSERT_HSET self;
     (st, (t, m), h) \<leftarrow> tda_hmap_shrink_to_fit (smap self) m h;
     let self = self\<lparr>smap := t\<rparr>;
     ASSERT_HSET self;
     Some (st, (self, m), h)
   }"

section \<open>Set operations\<close>

text \<open>The bodies of the three walks over the other set.\<close>

definition union_body :: "'k \<Rightarrow> 'k hmap \<Rightarrow> ('k, unit) entries \<Rightarrow> heap \<Rightarrow> (tda_status \<times> ('k, unit) hobj \<times> heap) option" where
  "union_body key self m h = do { (st, new, c, h) \<leftarrow> tda_hmap_insert self key None m h; Some (st, c, h) }"

definition difference_body :: "'k \<Rightarrow> 'k hmap \<Rightarrow> ('k, unit) entries \<Rightarrow> heap \<Rightarrow> (tda_status \<times> ('k, unit) hobj \<times> heap) option" where
  "difference_body key self m h = do { (r, c, h) \<leftarrow> tda_hmap_remove self key m h; Some (TDA_STATUS_OK, c, h) }"

definition symmetric_body :: "'k \<Rightarrow> 'k hmap \<Rightarrow> ('k, unit) entries \<Rightarrow> heap \<Rightarrow> (tda_status \<times> ('k, unit) hobj \<times> heap) option" where
  "symmetric_body key self m h = do {
     (r, (self, m), h) \<leftarrow> tda_hmap_remove self key m h;
     if r then Some (TDA_STATUS_OK, (self, m), h)
     else do { (st, new, c, h) \<leftarrow> tda_hmap_insert self key None m h; Some (st, c, h) }
   }"

definition tda_hset_union ::
  "bool \<Rightarrow> bool \<Rightarrow> 'k hset \<Rightarrow> 'k hset \<Rightarrow> ('k, unit) entries \<Rightarrow> heap \<Rightarrow> (tda_status \<times> 'k sobj \<times> heap) option" where
  "tda_hset_union same one_eq self other m h = do {
     ASSERT_HSET self;
     ASSERT_HSET other;
     EXPECT_SAME_HSET self other;
     chk one_eq;
     if same then Some (TDA_STATUS_OK, (self, m), h)
     else do {
       (st, (t, m), h) \<leftarrow> for_each union_body (smap other) (smap self) m h;
       let self = self\<lparr>smap := t\<rparr>;
       ASSERT_HSET self;
       Some (st, (self, m), h)
     }
   }"

definition tda_hset_intersection ::
  "bool \<Rightarrow> bool \<Rightarrow> 'k hset \<Rightarrow> 'k hset \<Rightarrow> ('k, unit) entries \<Rightarrow> heap \<Rightarrow> ('k sobj \<times> heap) option" where
  "tda_hset_intersection same one_eq self other m h = do {
     ASSERT_HSET self;
     ASSERT_HSET other;
     EXPECT_SAME_HSET self other;
     chk one_eq;
     if same then Some ((self, m), h)
     else do {
       ((t, m), h) \<leftarrow> tda_hmap_retain (hset_held_by (smap other)) (smap self) m h;
       let self = self\<lparr>smap := t\<rparr>;
       ASSERT_HSET self;
       Some ((self, m), h)
     }
   }"

definition tda_hset_difference ::
  "bool \<Rightarrow> bool \<Rightarrow> 'k hset \<Rightarrow> 'k hset \<Rightarrow> ('k, unit) entries \<Rightarrow> heap \<Rightarrow> ('k sobj \<times> heap) option" where
  "tda_hset_difference same one_eq self other m h = do {
     ASSERT_HSET self;
     ASSERT_HSET other;
     EXPECT_SAME_HSET self other;
     chk one_eq;
     if same then do {
       ((t, m), h) \<leftarrow> tda_hmap_clear (smap self) m h;
       let self = self\<lparr>smap := t\<rparr>;
       ASSERT_HSET self;
       Some ((self, m), h)
     }
     else do {
       lo \<leftarrow> tda_hmap_len (smap other);
       ls \<leftarrow> tda_hmap_len (smap self);
       ((t, m), h) \<leftarrow> (if lo < ls then do {
           (st, c, h) \<leftarrow> for_each difference_body (smap other) (smap self) m h;
           Some (c, h)
         }
         else tda_hmap_retain (hset_not_held_by (smap other)) (smap self) m h);
       let self = self\<lparr>smap := t\<rparr>;
       ASSERT_HSET self;
       Some ((self, m), h)
     }
   }"

definition tda_hset_symmetric_difference ::
  "bool \<Rightarrow> bool \<Rightarrow> 'k hset \<Rightarrow> 'k hset \<Rightarrow> ('k, unit) entries \<Rightarrow> heap \<Rightarrow> (tda_status \<times> 'k sobj \<times> heap) option" where
  "tda_hset_symmetric_difference same one_eq self other m h = do {
     ASSERT_HSET self;
     ASSERT_HSET other;
     EXPECT_SAME_HSET self other;
     chk one_eq;
     if same then do {
       ((t, m), h) \<leftarrow> tda_hmap_clear (smap self) m h;
       let self = self\<lparr>smap := t\<rparr>;
       ASSERT_HSET self;
       Some (TDA_STATUS_OK, (self, m), h)
     }
     else do {
       (st, (t, m), h) \<leftarrow> for_each symmetric_body (smap other) (smap self) m h;
       let self = self\<lparr>smap := t\<rparr>;
       ASSERT_HSET self;
       Some (st, (self, m), h)
     }
   }"

definition tda_hset_is_subset :: "bool \<Rightarrow> bool \<Rightarrow> 'k hset \<Rightarrow> 'k hset \<Rightarrow> ('k, unit) entries \<Rightarrow> bool option" where
  "tda_hset_is_subset same one_eq self other m = do {
     ASSERT_HSET self;
     ASSERT_HSET other;
     EXPECT_SAME_HSET self other;
     chk one_eq;
     if same then Some True
     else do {
       ls \<leftarrow> tda_hmap_len (smap self);
       lo \<leftarrow> tda_hmap_len (smap other);
       if ls > lo then Some False else keys_all_in (smap self) (smap other) m
     }
   }"

partial_function (option) intersects_loop :: "'k hmap \<Rightarrow> 'k hmap \<Rightarrow> nat \<Rightarrow> ('k, unit) entries \<Rightarrow> bool option" where
  "intersects_loop walked asked node m =
     (if node = 0 then Some False
      else do {
        key \<leftarrow> tda_hmap_node_key walked m node;
        r \<leftarrow> tda_hmap_contains asked m key;
        if r then Some True
        else do { node \<leftarrow> tda_hmap_node_next walked m node; intersects_loop walked asked node m }
      })"

definition tda_hset_intersects :: "bool \<Rightarrow> 'k hset \<Rightarrow> 'k hset \<Rightarrow> ('k, unit) entries \<Rightarrow> bool option" where
  "tda_hset_intersects one_eq self other m = do {
     ASSERT_HSET self;
     ASSERT_HSET other;
     EXPECT_SAME_HSET self other;
     chk one_eq;
     lo \<leftarrow> tda_hmap_len (smap other);
     ls \<leftarrow> tda_hmap_len (smap self);
     let (walked, asked) = (if lo < ls then (smap other, smap self) else (smap self, smap other));
     node \<leftarrow> tda_hmap_first_node walked;
     intersects_loop walked asked node m
   }"

end
