(* ===== verification/HMapLaws.thy ===== *)
theory HMapLaws
  imports HMap
begin

text \<open>
  The bucket table of \<open>HMap\<close>: chains of nodes, how the steps on links change them, and the walks over
  them. Every lemma is on the list of the chains; the links are the function that holds them.
\<close>

section \<open>Buckets\<close>

definition count_ok :: "nat \<Rightarrow> bool" where
  "count_ok n \<longleftrightarrow> (\<exists>k. n = 2 ^ k \<and> 0 < k \<and> k < 64)"

lemma count_okD:
  assumes "count_ok n"
  shows "tda_is_pow2 n" "1 < n" "n \<le> SIZE_MAX"
proof -
  obtain k where k: "n = 2 ^ k" "0 < k" "k < 64" using assms by (auto simp: count_ok_def)
  show "tda_is_pow2 n" using k(1) by (auto simp: is_pow2_iff)
  show "1 < n" using k(1) one_less_power [of "2::nat" k] k(2) by simp
  have "(2::nat) ^ k < 2 ^ 64" using k(3) by (intro power_strict_increasing) auto
  then show "n \<le> SIZE_MAX" using k(1) by (simp add: SIZE_MAX_def)
qed

lemma bucket_in_ok:
  assumes "count_ok n"
  obtains b where "bucket_in hash n = Some b" "b < n"
proof -
  obtain k where k: "n = 2 ^ k" "0 < k" "k < 64" using assms by (auto simp: count_ok_def)
  let ?w = "hash * FIB_MULTIPLIER"
  have "unat (drop_bit (64 - k) ?w) = unat ?w div 2 ^ (64 - k)" unfolding unat_drop_bit_eq by (simp add: drop_bit_eq_div)
  moreover have "unat ?w < 2 ^ k * 2 ^ (64 - k)"
    using unsigned_less [of ?w, where 'a = nat] k(3) by (simp flip: power_add)
  ultimately have "unat (drop_bit (64 - k) ?w) < n" using k(1) by (simp add: div_less_iff_less_mult)
  moreover have "bucket_in hash n = Some (unat (drop_bit (64 - k) ?w))"
    using count_okD [OF assms] ctz_pow2 [OF k(3)] k(1) by (simp add: bucket_in_def)
  ultimately show ?thesis by (rule that [rotated])
qed

lemma buckets_for_loop_ok:
  assumes "count_ok c"
  shows "\<exists>r. buckets_for_loop c len = Some r \<and> (r \<noteq> 0 \<longrightarrow> count_ok r \<and> len \<le> r \<and> c \<le> r \<and> (\<forall>x. count_ok x \<and> c \<le> x \<and> len \<le> x \<longrightarrow> r \<le> x)) \<and>
    (r = 0 \<longrightarrow> (\<forall>x. count_ok x \<longrightarrow> x < len))"
  using assms
proof (induction "len - c" arbitrary: c rule: less_induct)
  case less
  obtain k where k: "c = 2 ^ k" "0 < k" "k < 64" using less.prems by (auto simp: count_ok_def)
  show ?case
  proof (cases "c < len")
    case False
    then show ?thesis using less.prems k by (subst buckets_for_loop.simps) (auto simp: count_ok_def)
  next
    case True
    have le: "x \<le> c \<or> 2 * c \<le> x" if x: "count_ok x" for x
    proof -
      obtain j where j: "x = 2 ^ j" using x by (auto simp: count_ok_def)
      show ?thesis
      proof (cases "j \<le> k")
        case False
        then have "(2::nat) ^ Suc k \<le> 2 ^ j" by (intro power_increasing) auto
        then show ?thesis using j k(1) by simp
      qed (simp add: j k(1) power_increasing)
    qed
    show ?thesis
    proof (cases "2 * c \<le> SIZE_MAX")
      case False
      have "k = 63"
      proof (rule ccontr)
        assume "k \<noteq> 63"
        then have "(2::nat) ^ Suc k < 2 ^ 64" using k(3) by (intro power_strict_increasing) auto
        then show False using False k(1) by (simp add: SIZE_MAX_def)
      qed
      then have "x < len" if "count_ok x" for x
        using le [OF that] count_okD(3) [OF that] False True by auto
      then show ?thesis using True False
        by (subst buckets_for_loop.simps) (simp add: ckd_mul_def HMAP_GROWTH_FACTOR_def mult.commute)
    next
      case fits: True
      have "(2::nat) ^ Suc k < 2 ^ 64" using fits k(1) by (simp add: SIZE_MAX_def)
      then have "Suc k < 64" using pow2_lt_64 by blast
      then have c2: "count_ok (2 * c)" using k(1) by (auto simp: count_ok_def intro!: exI [of _ "Suc k"])
      have "0 < c" using k(1) by simp
      then have "len - 2 * c < len - c" using True by linarith
      note ih = less.hyps [OF this c2]
      have step: "buckets_for_loop c len = buckets_for_loop (2 * c) len"
        using True fits by (subst buckets_for_loop.simps) (simp add: ckd_mul_def HMAP_GROWTH_FACTOR_def mult.commute)
      have up: "count_ok x \<and> c \<le> x \<and> len \<le> x \<Longrightarrow> 2 * c \<le> x" for x using le [of x] True by auto
      from ih obtain r where r: "buckets_for_loop (2 * c) len = Some r"
        "r \<noteq> 0 \<longrightarrow> count_ok r \<and> len \<le> r \<and> 2 * c \<le> r \<and> (\<forall>x. count_ok x \<and> 2 * c \<le> x \<and> len \<le> x \<longrightarrow> r \<le> x)"
        "r = 0 \<longrightarrow> (\<forall>x. count_ok x \<longrightarrow> x < len)" by blast
      show ?thesis unfolding step using r up by (intro exI [of _ r]) auto
    qed
  qed
qed

lemma buckets_for_ok:
  obtains r where "buckets_for len = Some r" "r \<noteq> 0 \<Longrightarrow> count_ok r \<and> len \<le> r" "r = 0 \<Longrightarrow> \<forall>x. count_ok x \<longrightarrow> x < len"
    "r \<noteq> 0 \<Longrightarrow> r \<le> 8 \<or> r < 2 * len"
proof -
  have b: "count_ok HMAP_BUCKETS_BASE" by (auto simp: count_ok_def HMAP_BUCKETS_BASE_def intro!: exI [of _ 3])
  obtain r where r: "buckets_for_loop HMAP_BUCKETS_BASE len = Some r" "r \<noteq> 0 \<longrightarrow> count_ok r \<and> len \<le> r \<and> HMAP_BUCKETS_BASE \<le> r \<and>
      (\<forall>x. count_ok x \<and> HMAP_BUCKETS_BASE \<le> x \<and> len \<le> x \<longrightarrow> r \<le> x)" "r = 0 \<longrightarrow> (\<forall>x. count_ok x \<longrightarrow> x < len)"
    using buckets_for_loop_ok [OF b, of len] by blast
  have "r \<le> 8 \<or> r < 2 * len" if nz: "r \<noteq> 0"
  proof (rule ccontr)
    assume "\<not> ?thesis"
    then have n: "8 < r" "2 * len \<le> r" by auto
    obtain k where k: "r = 2 ^ k" "k < 64" using r(2) nz by (auto simp: count_ok_def)
    have "3 < k"
    proof (rule ccontr)
      assume "\<not> 3 < k"
      then have "(2::nat) ^ k \<le> 2 ^ 3" by (intro power_increasing) auto
      then show False using n(1) k(1) by simp
    qed
    then obtain j where j: "k = Suc j" "3 \<le> j" by (cases k) auto
    then have "count_ok (2 ^ j)" using k(2) by (auto simp: count_ok_def)
    moreover have "HMAP_BUCKETS_BASE \<le> 2 ^ j" using power_increasing [OF j(2), of "2::nat"] by (simp add: HMAP_BUCKETS_BASE_def)
    moreover have "len \<le> 2 ^ j" using n(2) k(1) j(1) by simp
    ultimately have "r \<le> 2 ^ j" using r(2) nz by blast
    then show False using k(1) j(1) by simp
  qed
  then show ?thesis using that [of r] r by (simp add: buckets_for_def)
qed

section \<open>Tables\<close>

text \<open>The buckets \<open>bs\<close> hold the chains \<open>ch\<close>, no node in two places.\<close>

definition table :: "('k, 'v) entries \<Rightarrow> nat list \<Rightarrow> nat list list \<Rightarrow> bool" where
  "table m bs ch \<longleftrightarrow> list_all2 (\<lambda>b c. b = hd (c @ [0]) \<and> links (enx m) c 0) bs ch \<and> distinct (concat ch) \<and>
     set (concat ch) \<subseteq> places m"

definition well_placed :: "('k, 'v) entries \<Rightarrow> nat \<Rightarrow> nat list list \<Rightarrow> bool" where
  "well_placed m n ch \<longleftrightarrow> (\<forall>i < length ch. \<forall>p \<in> set (ch ! i). bucket_in (ehash m p) n = Some i)"

lemma tableD:
  assumes "table m bs ch"
  shows "length bs = length ch" "distinct (concat ch)" "set (concat ch) \<subseteq> places m"
    "i < length ch \<Longrightarrow> bs ! i = hd (ch ! i @ [0])" "i < length ch \<Longrightarrow> links (enx m) (ch ! i) 0"
    "i < length ch \<Longrightarrow> set (ch ! i) \<subseteq> set (concat ch)"
  using assms by (auto simp: table_def list_all2_conv_all_nth intro!: bexI [of _ "ch ! i"])

lemma in_concat_nth:
  assumes "p \<in> set (concat ch)"
  obtains i where "i < length ch" "p \<in> set (ch ! i)"
proof -
  obtain c where "c \<in> set ch" "p \<in> set c" using assms by auto
  then show ?thesis using that by (auto simp: in_set_conv_nth [of c])
qed

lemma concat_nth: "i < length ch \<Longrightarrow> concat ch = concat (take i ch) @ ch ! i @ concat (drop (Suc i) ch)"
  by (metis concat.simps(2) concat_append id_take_nth_drop)

lemma concat_update: "i < length ch \<Longrightarrow> concat (ch[i := c]) = concat (take i ch) @ c @ concat (drop (Suc i) ch)"
  by (simp add: upd_conv_take_nth_drop)

lemma distinct_mset_cong: "mset xs = mset ys \<Longrightarrow> distinct xs = distinct ys"
  by (rule mset_eq_imp_distinct_iff)

lemma table_agree:
  "table m bs ch \<Longrightarrow> (\<And>p. p \<in> set (concat ch) \<Longrightarrow> enx m' p = enx m p \<and> p \<in> places m') \<Longrightarrow> table m' bs ch"
  unfolding table_def list_all2_conv_all_nth
  by (intro conjI allI impI) (force intro: links_cong [THEN iffD1, rotated])+

lemma distinct_nth_chain: "distinct (concat ch) \<Longrightarrow> i < length ch \<Longrightarrow> distinct (ch ! i)"
  by (metis concat_nth distinct_append)

lemma nth_other_chain:
  assumes "distinct (concat ch)" "i < length ch" "j < length ch" "i \<noteq> j" "p \<in> set (ch ! i)"
  shows "p \<notin> set (ch ! j)"
proof
  assume "p \<in> set (ch ! j)"
  have "distinct (concat (take i ch) @ ch ! i @ concat (drop (Suc i) ch))"
    using assms(1) concat_nth [OF assms(2)] by simp
  moreover have "ch ! j \<in> set (take i ch) \<or> ch ! j \<in> set (drop (Suc i) ch)"
  proof (cases "j < i")
    case True
    then have "take i ch ! j = ch ! j" "j < length (take i ch)" using assms(2) by simp_all
    then show ?thesis by (metis nth_mem)
  next
    case False
    then have "drop (Suc i) ch ! (j - Suc i) = ch ! j" "j - Suc i < length (drop (Suc i) ch)" using assms(2-4) by simp_all
    then show ?thesis by (metis nth_mem)
  qed
  ultimately show False using assms(5) \<open>p \<in> set (ch ! j)\<close> by auto
qed

text \<open>A node that is in no chain goes to the head of one.\<close>

lemma table_put:
  assumes t: "table m bs ch" and p: "p \<in> places m" "p \<notin> set (concat ch)" and b: "b < length ch"
  shows "table (m\<lparr>enx := (enx m)(p := bs ! b)\<rparr>) (bs[b := p]) (ch[b := p # ch ! b])"
    "mset (concat (ch[b := p # ch ! b])) = add_mset p (mset (concat ch))"
proof -
  note d = tableD [OF t]
  show ms: "mset (concat (ch[b := p # ch ! b])) = add_mset p (mset (concat ch))"
    unfolding concat_update [OF b] using arg_cong [OF concat_nth [OF b], of mset] by simp
  have "distinct (concat (ch[b := p # ch ! b]))"
    using distinct_mset_cong [of "concat (ch[b := p # ch ! b])" "p # concat ch"] ms d(2) p(2) by simp
  moreover have "set (concat (ch[b := p # ch ! b])) = insert p (set (concat ch))"
    using arg_cong [OF ms, of set_mset] by simp
  moreover have "(bs[b := p]) ! i = hd ((ch[b := p # ch ! b]) ! i @ [0]) \<and>
      links ((enx m)(p := bs ! b)) ((ch[b := p # ch ! b]) ! i) 0" if i: "i < length ch" for i
  proof -
    have "p \<notin> set (ch ! i)" using d(6) [OF i] p(2) by blast
    then show ?thesis using d(1) d(4,5) [OF i] b i d(4,5) [OF b] by (cases "i = b") simp_all
  qed
  ultimately show "table (m\<lparr>enx := (enx m)(p := bs ! b)\<rparr>) (bs[b := p]) (ch[b := p # ch ! b])"
    using d(1,3) p(1) by (simp add: table_def list_all2_conv_all_nth)
qed

text \<open>A node goes out of its chain.\<close>

lemma table_cut:
  assumes t: "table m bs ch" and i: "i < length ch" and c: "ch ! i = as @ p # cs"
  shows "table (if as = [] then m else m\<lparr>enx := (enx m)(last as := enx m p)\<rparr>)
      (if as = [] then bs[i := enx m p] else bs) (ch[i := as @ cs])"
    "add_mset p (mset (concat (ch[i := as @ cs]))) = mset (concat ch)" "enx m p = hd (cs @ [0])" "p \<notin> set (as @ cs)"
proof -
  note d = tableD [OF t]
  let ?f = "if as = [] then enx m else (enx m)(last as := enx m p)"
  have lk: "links (enx m) (as @ p # cs) 0" using d(5) [OF i] c by simp
  show nx: "enx m p = hd (cs @ [0])" using lk by (simp add: links_append)
  have dc: "distinct (as @ p # cs)" using distinct_nth_chain [OF d(2) i] unfolding c .
  show "p \<notin> set (as @ cs)" using dc by auto
  show ms: "add_mset p (mset (concat (ch[i := as @ cs]))) = mset (concat ch)"
    unfolding concat_update [OF i] using arg_cong [OF concat_nth [OF i], of mset] by (simp add: c)
  have "distinct (p # concat (ch[i := as @ cs]))"
    using distinct_mset_cong [of "p # concat (ch[i := as @ cs])" "concat ch"] ms d(2) by simp
  then have di: "distinct (concat (ch[i := as @ cs]))" by simp
  have sub: "set (concat (ch[i := as @ cs])) \<subseteq> places m"
    using arg_cong [OF ms, of set_mset] d(3) by auto
  have each: "(if as = [] then bs[i := enx m p] else bs) ! j = hd ((ch[i := as @ cs]) ! j @ [0]) \<and>
      links ?f ((ch[i := as @ cs]) ! j) 0" if j: "j < length ch" for j
  proof (cases "j = i")
    case True
    have "links ?f (as @ cs) 0" using links_unlink [OF lk dc] nx by (cases "as = []") simp_all
    moreover have "bs ! i = hd (as @ p # cs @ [0])" using d(4) [OF i] c by simp
    ultimately show ?thesis using True i d(1) nx by (cases as) simp_all
  next
    case False
    have "as \<noteq> [] \<Longrightarrow> last as \<notin> set (ch ! j)"
      using nth_other_chain [OF d(2) i j] False c last_in_set [of as] by auto
    then show ?thesis using False d(4,5) [OF j] by (cases "as = []") simp_all
  qed
  show "table (if as = [] then m else m\<lparr>enx := (enx m)(last as := enx m p)\<rparr>)
      (if as = [] then bs[i := enx m p] else bs) (ch[i := as @ cs])"
    using each di sub d(1) by (cases "as = []") (simp_all add: table_def list_all2_conv_all_nth)
qed

section \<open>Walks over one chain\<close>

definition link_at :: "nat \<Rightarrow> nat list \<Rightarrow> link" where
  "link_at i as = (if as = [] then Slot i else Next (last as))"

lemma link_at_simps [simp]: "link_at i [] = Slot i" "link_at i (as @ [p]) = Next p"
  by (simp_all add: link_at_def)

lemma link_get_at:
  assumes t: "table m (mbuckets t) ch" and i: "i < length ch" and c: "ch ! i = as @ cs"
  shows "link_get t m (link_at i as) = Some (hd (cs @ [0]))"
proof (cases as rule: rev_cases)
  case Nil
  then show ?thesis using tableD(1,4) [OF t] i c by (simp add: link_get_def bucket_get_def)
next
  case (snoc as' a)
  have "links (enx m) (as' @ a # cs) 0" "a \<in> places m"
    using tableD(5) [OF t i] tableD(3) [OF t] tableD(6) [OF t i] c snoc by auto
  then show ?thesis using snoc by (simp add: link_get_def enx_of_def links_append)
qed

lemma find_loop_ok:
  "links (enx m) ps 0 \<Longrightarrow> set ps \<subseteq> places m \<Longrightarrow> 0 \<notin> places m \<Longrightarrow> meq t = Some eq \<Longrightarrow>
   hmap_find_loop t m key hash (hd (ps @ [0])) = Some (hd (filter (\<lambda>p. ehash m p = hash \<and> eq (ekey m p) key) ps @ [0]))"
proof (induction ps)
  case Nil
  then show ?case by (subst hmap_find_loop.simps) simp
next
  case (Cons p ps)
  then have p: "p \<in> places m" "enx m p = hd (ps @ [0])" by auto
  have "p \<noteq> 0" using p(1) Cons.prems(3) by metis
  then show ?case
    using p Cons by (subst hmap_find_loop.simps)
      (auto simp: holds_key_def ehash_of_def hmap_node_key_def key_eq_def enx_of_def)
qed

lemma find_link_loop_ok:
  assumes t: "table m (mbuckets t) ch" and i: "i < length ch" and z: "0 \<notin> places m" and eq: "meq t = Some eq"
  shows "ch ! i = as @ cs \<Longrightarrow> find_link_loop t m key hash (link_at i as) =
    Some (link_at i (as @ takeWhile (\<lambda>p. \<not> (ehash m p = hash \<and> eq (ekey m p) key)) cs))"
proof (induction cs arbitrary: as)
  case Nil
  then show ?case using link_get_at [OF t i, of as "[]"] by (subst find_link_loop.simps) simp
next
  case (Cons c cs)
  have c: "c \<in> places m" using tableD(3,6) [OF t] i Cons.prems by fastforce
  then have nz: "c \<noteq> 0" using z by metis
  have "ch ! i = (as @ [c]) @ cs" using Cons.prems by simp
  note ih = Cons.IH [OF this]
  show ?case
    using link_get_at [OF t i Cons.prems] c nz ih
    by (subst find_link_loop.simps) (auto simp: holds_key_def ehash_of_def hmap_node_key_def key_eq_def eq)
qed

lemma link_to_loop_ok:
  assumes t: "table m (mbuckets t) ch" and i: "i < length ch" and z: "0 \<notin> places m"
  shows "ch ! i = as @ cs @ p # ds \<Longrightarrow> p \<notin> set cs \<Longrightarrow> link_to_loop t m p (link_at i as) = Some (link_at i (as @ cs))"
proof (induction cs arbitrary: as)
  case Nil
  then show ?case using link_get_at [OF t i, of as "p # ds"] by (subst link_to_loop.simps) simp
next
  case (Cons c cs)
  have c: "c \<in> places m" using tableD(3,6) [OF t] i Cons.prems by fastforce
  then have nz: "c \<noteq> 0" using z by metis
  have "ch ! i = (as @ [c]) @ cs @ p # ds" using Cons.prems by simp
  note ih = Cons.IH [OF this]
  show ?case using link_get_at [OF t i, of as "c # cs @ p # ds"] Cons.prems nz ih by (subst link_to_loop.simps) simp
qed

section \<open>Walks over the table\<close>

lemma first_from_ok:
  assumes t: "table m (mbuckets t) ch" and n: "length ch = mcount t" and z: "0 \<notin> places m"
  shows "first_from t i = Some (hd (concat (drop i ch) @ [0]))"
proof (induction "length ch - i" arbitrary: i)
  case 0
  then show ?case using n by (subst first_from.simps) simp
next
  case (Suc k)
  then have i: "i < length ch" by simp
  have b: "bucket_get (mbuckets t) i = Some (hd (ch ! i @ [0]))" using tableD(1,4) [OF t] i by (simp add: bucket_get_def)
  have dr: "concat (drop i ch) = ch ! i @ concat (drop (i + 1) ch)" using i by (simp flip: Cons_nth_drop_Suc)
  have ih: "first_from t (i + 1) = Some (hd (concat (drop (i + 1) ch) @ [0]))" using Suc by (intro Suc.hyps) simp
  show ?case
  proof (cases "ch ! i")
    case Nil
    then show ?thesis using b ih i n dr by (subst first_from.simps) simp
  next
    case (Cons p ps)
    then have "p \<in> places m" using tableD(3,6) [OF t] i by fastforce
    then have "p \<noteq> 0" using z by metis
    then show ?thesis using b i n dr Cons by (subst first_from.simps) simp
  qed
qed

lemma next_node_ok:
  assumes t: "table m (mbuckets t) ch" and n: "length ch = mcount t" and z: "0 \<notin> places m" and w: "well_placed m (mcount t) ch"
    and c: "concat ch = xs @ p # ys"
  shows "next_node t m p = Some (hd (ys @ [0]))"
proof -
  note d = tableD [OF t]
  have "p \<in> set (concat ch)" using c by simp
  then obtain i where i: "i < length ch" "p \<in> set (ch ! i)" by (rule in_concat_nth)
  then obtain as cs where ac: "ch ! i = as @ p # cs" by (metis split_list)
  have p: "p \<in> places m" "enx m p = hd (cs @ [0])"
    using \<open>p \<in> set (concat ch)\<close> d(3) d(5) [OF i(1)] ac by (auto simp: links_append)
  have whole: "concat ch = (concat (take i ch) @ as) @ p # cs @ concat (drop (Suc i) ch)"
    using concat_nth [OF i(1)] ac by simp
  have "p \<notin> set xs" "p \<notin> set ys" using d(2) c by auto
  moreover have "p \<notin> set (concat (take i ch) @ as)" "p \<notin> set (cs @ concat (drop (Suc i) ch))" using d(2) whole by auto
  ultimately have ys: "ys = cs @ concat (drop (Suc i) ch)"
    using c whole by (metis append_Cons_eq_iff)
  have b: "bucket_of t (ehash m p) = Some i" using w i n by (auto simp: well_placed_def bucket_of_def)
  show ?thesis
  proof (cases cs)
    case Nil
    then show ?thesis
      using p b ys first_from_ok [OF t n z, of "i + 1"] by (simp add: next_node_def enx_of_def ehash_of_def)
  next
    case (Cons q qs)
    have "q \<in> places m" using d(3,6) i(1) ac Cons by fastforce
    then have "q \<noteq> 0" using z by metis
    then show ?thesis using p ys Cons by (simp add: next_node_def enx_of_def)
  qed
qed

section \<open>Rehashing\<close>

lemma link_node_put:
  assumes t: "table m bs ch" and n: "length ch = n" "count_ok n" and p: "p \<in> places m" "p \<notin> set (concat ch)"
    and w: "well_placed m n ch"
  shows "\<exists>bs' ch' q. hmap_link_node bs n p m = Some (bs', m\<lparr>enx := (enx m)(p := q)\<rparr>) \<and>
    table (m\<lparr>enx := (enx m)(p := q)\<rparr>) bs' ch' \<and> length ch' = n \<and> mset (concat ch') = add_mset p (mset (concat ch)) \<and>
    well_placed (m\<lparr>enx := (enx m)(p := q)\<rparr>) n ch'"
proof -
  obtain b where b: "bucket_in (ehash m p) n = Some b" "b < n" using bucket_in_ok [OF n(2)] .
  let ?m = "m\<lparr>enx := (enx m)(p := bs ! b)\<rparr>"
  have bl: "b < length ch" "length bs = length ch" using b(2) n(1) tableD(1) [OF t] by simp_all
  have "hmap_link_node bs n p m = Some (bs[b := p], ?m)"
    using b bl n(1) p(1) by (simp add: hmap_link_node_def ehash_of_def bucket_get_def bucket_set_def set_enx_def)
  moreover note table_put [OF t p bl(1)]
  moreover have "well_placed ?m n (ch[b := p # ch ! b])"
    using w b(1) bl(1) by (auto simp: well_placed_def nth_list_update)
  ultimately show ?thesis using n(1) by (metis length_list_update)
qed

text \<open>The nodes \<open>ps\<close> of one old chain go into the new table.\<close>

lemma rehash_chain_ok:
  "links (enx m) ps 0 \<Longrightarrow> distinct (ps @ concat ch) \<Longrightarrow> set ps \<subseteq> places m \<Longrightarrow> 0 \<notin> places m \<Longrightarrow>
   table m bs ch \<Longrightarrow> length ch = n \<Longrightarrow> count_ok n \<Longrightarrow> well_placed m n ch \<Longrightarrow>
   \<exists>bs' ch' f. rehash_chain bs n (hd (ps @ [0])) m = Some (bs', m\<lparr>enx := f\<rparr>) \<and> table (m\<lparr>enx := f\<rparr>) bs' ch' \<and>
     length ch' = n \<and> mset (concat ch') = mset ps + mset (concat ch) \<and> well_placed (m\<lparr>enx := f\<rparr>) n ch' \<and>
     (\<forall>p. p \<notin> set ps \<longrightarrow> f p = enx m p)"
proof (induction ps arbitrary: m bs ch)
  case Nil
  then show ?case by (subst rehash_chain.simps) (auto intro!: exI [of _ ch] exI [of _ "enx m"])
next
  case (Cons p ps)
  have p: "p \<in> places m" "enx m p = hd (ps @ [0])" "p \<notin> set ps" "p \<notin> set (concat ch)" using Cons.prems by auto
  have nz: "p \<noteq> 0" using p(1) Cons.prems(4) by metis
  obtain bs1 ch1 q where r: "hmap_link_node bs n p m = Some (bs1, m\<lparr>enx := (enx m)(p := q)\<rparr>)"
    "table (m\<lparr>enx := (enx m)(p := q)\<rparr>) bs1 ch1" "length ch1 = n" "mset (concat ch1) = add_mset p (mset (concat ch))"
    "well_placed (m\<lparr>enx := (enx m)(p := q)\<rparr>) n ch1"
    using link_node_put [OF Cons.prems(5-7) p(1,4) Cons.prems(8)] by blast
  let ?m = "m\<lparr>enx := (enx m)(p := q)\<rparr>"
  have lk: "links (enx ?m) ps 0" using Cons.prems(1) links_upd [OF p(3)] by simp
  have "mset (ps @ concat ch1) = mset ((p # ps) @ concat ch)" using r(4) by simp
  then have di: "distinct (ps @ concat ch1)" using Cons.prems(2) distinct_mset_cong by blast
  have pl: "set ps \<subseteq> places ?m" "0 \<notin> places ?m" using Cons.prems(3,4) by simp_all
  obtain bs2 ch2 f where i: "rehash_chain bs1 n (hd (ps @ [0])) ?m = Some (bs2, ?m\<lparr>enx := f\<rparr>)" "table (?m\<lparr>enx := f\<rparr>) bs2 ch2"
    "length ch2 = n" "mset (concat ch2) = mset ps + mset (concat ch1)" "well_placed (?m\<lparr>enx := f\<rparr>) n ch2"
    "\<forall>x. x \<notin> set ps \<longrightarrow> f x = enx ?m x"
    using Cons.IH [OF lk di pl r(2,3) Cons.prems(7) r(5)] by blast
  have e: "?m\<lparr>enx := f\<rparr> = m\<lparr>enx := f\<rparr>" by simp
  have "rehash_chain bs n (hd ((p # ps) @ [0])) m = Some (bs2, m\<lparr>enx := f\<rparr>)"
    using p(1,2) nz r(1) i(1) by (subst rehash_chain.simps) (simp add: enx_of_def)
  moreover have "mset (concat ch2) = mset (p # ps) + mset (concat ch)" using i(4) r(4) by simp
  moreover have "\<forall>x. x \<notin> set (p # ps) \<longrightarrow> f x = enx m x" using i(6) by simp
  ultimately show ?case using i(2,3,5) unfolding e by blast
qed

lemma rehash_loop_ok:
  assumes z: "0 \<notin> places m0" and n: "count_ok n" and old: "length old = mcount t" "length (mbuckets t) = mcount t"
    and ob: "\<And>i. i < length old \<Longrightarrow> mbuckets t ! i = hd (old ! i @ [0])"
  shows "i \<le> length old \<Longrightarrow> (\<forall>j < length old. i \<le> j \<longrightarrow> links (enx m) (old ! j) 0) \<Longrightarrow> places m = places m0 \<Longrightarrow>
    distinct (concat (drop i old) @ concat ch) \<Longrightarrow> set (concat (drop i old)) \<subseteq> places m \<Longrightarrow>
    table m bs ch \<Longrightarrow> length ch = n \<Longrightarrow> well_placed m n ch \<Longrightarrow>
    \<exists>bs' ch' f. rehash_loop t i bs n m = Some (bs', m\<lparr>enx := f\<rparr>) \<and> table (m\<lparr>enx := f\<rparr>) bs' ch' \<and> length ch' = n \<and>
      mset (concat ch') = mset (concat (drop i old)) + mset (concat ch) \<and> well_placed (m\<lparr>enx := f\<rparr>) n ch' \<and>
      (\<forall>p. p \<notin> set (concat (drop i old)) \<longrightarrow> f p = enx m p)"
proof (induction "length old - i" arbitrary: i m bs ch)
  case 0
  then have "drop i old = []" "\<not> i < mcount t" using old(1) by simp_all
  then show ?case using 0 by (subst rehash_loop.simps) (auto intro!: exI [of _ ch] exI [of _ "enx m"])
next
  case (Suc k)
  then have i: "i < length old" by simp
  have dr: "concat (drop i old) = old ! i @ concat (drop (i + 1) old)" using i by (simp flip: Cons_nth_drop_Suc)
  have lk: "links (enx m) (old ! i) 0" using Suc.prems(2) i by simp
  have di: "distinct (old ! i @ concat ch)" "set (old ! i) \<subseteq> places m" "0 \<notin> places m"
    using Suc.prems(3-5) z unfolding dr by auto
  obtain bs1 ch1 f1 where r: "rehash_chain bs n (hd (old ! i @ [0])) m = Some (bs1, m\<lparr>enx := f1\<rparr>)" "table (m\<lparr>enx := f1\<rparr>) bs1 ch1"
    "length ch1 = n" "mset (concat ch1) = mset (old ! i) + mset (concat ch)" "well_placed (m\<lparr>enx := f1\<rparr>) n ch1"
    "\<forall>p. p \<notin> set (old ! i) \<longrightarrow> f1 p = enx m p"
    using rehash_chain_ok [OF lk di Suc.prems(6,7) n Suc.prems(8)] by blast
  let ?m = "m\<lparr>enx := f1\<rparr>"
  have k: "k = length old - (i + 1)" "i + 1 \<le> length old" using Suc.hyps(2) i by simp_all
  have "links f1 (old ! j) 0" if j: "j < length old" "i + 1 \<le> j" for j
  proof -
    have "set (old ! j) \<subseteq> set (concat (drop (i + 1) old))"
    proof -
      have "drop (i + 1) old ! (j - (i + 1)) = old ! j" "j - (i + 1) < length (drop (i + 1) old)" using j by simp_all
      then have "old ! j \<in> set (drop (i + 1) old)" by (metis nth_mem)
      then show ?thesis by auto
    qed
    then have "p \<notin> set (old ! i)" if "p \<in> set (old ! j)" for p using that Suc.prems(4) unfolding dr by auto
    then have "f1 p = enx m p" if "p \<in> set (old ! j)" for p using that r(6) by blast
    from links_cong [of "old ! j" f1 "enx m" 0, OF this] show ?thesis using Suc.prems(2) j by auto
  qed
  then have lk': "\<forall>j < length old. i + 1 \<le> j \<longrightarrow> links (enx ?m) (old ! j) 0" by simp
  have "mset (concat (drop (i + 1) old) @ concat ch1) = mset (concat (drop i old) @ concat ch)" using r(4) unfolding dr by simp
  then have di': "distinct (concat (drop (i + 1) old) @ concat ch1)" using Suc.prems(4) distinct_mset_cong by blast
  have pl: "places ?m = places m0" "set (concat (drop (i + 1) old)) \<subseteq> places ?m" using Suc.prems(3,5) unfolding dr by simp_all
  obtain bs2 ch2 f where ih: "rehash_loop t (i + 1) bs1 n ?m = Some (bs2, ?m\<lparr>enx := f\<rparr>)" "table (?m\<lparr>enx := f\<rparr>) bs2 ch2" "length ch2 = n"
    "mset (concat ch2) = mset (concat (drop (i + 1) old)) + mset (concat ch1)" "well_placed (?m\<lparr>enx := f\<rparr>) n ch2"
    "\<forall>p. p \<notin> set (concat (drop (i + 1) old)) \<longrightarrow> f p = enx ?m p"
    using Suc.hyps(1) [OF k lk' pl(1) di' pl(2) r(2,3,5)] by blast
  have e: "?m\<lparr>enx := f\<rparr> = m\<lparr>enx := f\<rparr>" by simp
  have b: "bucket_get (mbuckets t) i = Some (hd (old ! i @ [0]))" using ob [OF i] i old by (simp add: bucket_get_def)
  have "rehash_loop t i bs n m = Some (bs2, m\<lparr>enx := f\<rparr>)"
    using i old(1) b r(1) ih(1) by (subst rehash_loop.simps) simp
  moreover have "mset (concat ch2) = mset (concat (drop i old)) + mset (concat ch)" using ih(4) r(4) unfolding dr by simp
  moreover have "\<forall>p. p \<notin> set (concat (drop i old)) \<longrightarrow> f p = enx m p" using ih(6) r(6) unfolding dr by simp
  ultimately show ?case using ih(2,3,5) unfolding e by blast
qed

end
