(* ===== verification/HMapOps.thy ===== *)
theory HMapOps
  imports HMapLaws
begin

text \<open>
  What the operations of \<open>HMap\<close> do: the invariant of a map and the chains it has, then each call
  against the multiset of its entries.
\<close>

section \<open>What a map is\<close>

abbreviation hfun :: "'k hmap \<Rightarrow> 'k \<Rightarrow> 64 word" where "hfun t \<equiv> the (mhasher t)"
abbreviation heq :: "'k hmap \<Rightarrow> 'k \<Rightarrow> 'k \<Rightarrow> bool" where "heq t \<equiv> the (meq t)"

definition hmap_kind_ok :: "'k hmap \<Rightarrow> bool" where
  "hmap_kind_ok t \<longleftrightarrow> mhasher t \<noteq> None \<and> meq t \<noteq> None \<and> hasher (heq t) (hfun t) \<and> tda_layout_is_type (mkey t) \<and>
     (tda_layout_is_type (mval t) \<or> (lsize (mval t) = 0 \<and> tda_layout_is_align (lalign (mval t)))) \<and> mal t \<noteq> 0 \<and>
     hmap_layouts (mkey t) (mval t) = Some (Some (mnode t, mkoff t, mvoff t))"

text \<open>What never changes in a map.\<close>

definition hmap_kind ::
  "'k hmap \<Rightarrow> layout \<times> layout \<times> nat \<times> nat \<times> layout \<times> ('k \<Rightarrow> 64 word) option \<times> ('k \<Rightarrow> 'k \<Rightarrow> bool) option" where
  "hmap_kind t = (mkey t, mval t, mkoff t, mvoff t, mnode t, mhasher t, meq t)"

text \<open>The map \<open>t\<close> has the chains \<open>ch\<close>.\<close>

definition hmap_at :: "('k, 'v) entries \<Rightarrow> 'k hmap \<Rightarrow> nat list list \<Rightarrow> bool" where
  "hmap_at m t ch \<longleftrightarrow> hmap_kind_ok t \<and> table m (mbuckets t) ch \<and> length ch = mcount t \<and> well_placed m (mcount t) ch \<and>
     (mcount t = 0 \<or> count_ok (mcount t)) \<and> lsize BUCKET * mcount t \<le> SIZE_MAX \<and>
     mlen t = length (concat ch) \<and> mlen t \<le> mcount t \<and>
     (\<forall>p \<in> set (concat ch). ehash m p = hfun t (ekey m p)) \<and>
     (\<forall>p \<in> set (concat ch). \<forall>q \<in> set (concat ch). p \<noteq> q \<longrightarrow> \<not> heq t (ekey m p) (ekey m q))"

text \<open>A chain, at most \<open>n\<close> nodes long.\<close>

fun chain_from :: "(nat \<Rightarrow> nat) \<Rightarrow> nat \<Rightarrow> nat \<Rightarrow> nat list" where
  "chain_from f 0 p = []"
| "chain_from f (Suc n) p = (if p = 0 then [] else p # chain_from f n (f p))"

definition hmap_chains :: "('k, 'v) hobj \<Rightarrow> nat list list" where
  "hmap_chains c = map (chain_from (enx (snd c)) (mlen (fst c))) (mbuckets (fst c))"

definition hmap_ok :: "('k, 'v) hobj \<Rightarrow> bool" where
  "hmap_ok c \<longleftrightarrow> store_ok (snd c) \<and> hmap_at (snd c) (fst c) (hmap_chains c)"

text \<open>An entry; there is no value where values take no bytes.\<close>

definition entry_at :: "layout \<Rightarrow> ('k, 'v) entries \<Rightarrow> nat \<Rightarrow> 'k \<times> 'v option" where
  "entry_at V m p = (ekey m p, if 0 < lsize V then evl m p else None)"

definition hmap_entries :: "('k, 'v) hobj \<Rightarrow> ('k \<times> 'v option) multiset" where
  "hmap_entries c = image_mset (entry_at (mval (fst c)) (snd c)) (mset (concat (hmap_chains c)))"

definition eothers :: "('k, 'v) entries \<Rightarrow> nat set \<Rightarrow> nat \<rightharpoonup> nat \<times> 64 word \<times> 'k \<times> 'v option" where
  "eothers m S = (\<lambda>p. if p \<in> places m - S then Some (enx m p, ehash m p, ekey m p, evl m p) else None)"

definition hmap_rest :: "('k, 'v) hobj \<Rightarrow> nat \<rightharpoonup> nat \<times> 64 word \<times> 'k \<times> 'v option" where
  "hmap_rest c = eothers (snd c) (set (concat (hmap_chains c)))"

definition hmap_blocks :: "'k hmap \<Rightarrow> layout multiset" where
  "hmap_blocks t = held BUCKET (mcount t) + replicate_mset (mlen t) (mnode t)"

text \<open>A map stands for its entries, and for the nodes that are not its own, which no call touches.\<close>

definition hmap_view :: "('k, 'v) hobj \<Rightarrow> (layout \<times> layout \<times> nat \<times> nat \<times> layout \<times> ('k \<Rightarrow> 64 word) option \<times>
    ('k \<Rightarrow> 'k \<Rightarrow> bool) option, ('k \<times> 'v option) multiset \<times> (nat \<rightharpoonup> nat \<times> 64 word \<times> 'k \<times> 'v option)) holder" where
  "hmap_view c = \<lparr>hgood = hmap_ok c, hkind = hmap_kind (fst c), hal = mal (fst c), hblocks = hmap_blocks (fst c),
     hval = (hmap_entries c, hmap_rest c)\<rparr>"

lemma chain_from_links: "links f ps 0 \<Longrightarrow> 0 \<notin> set ps \<Longrightarrow> length ps \<le> n \<Longrightarrow> chain_from f n (hd (ps @ [0])) = ps"
proof (induction ps arbitrary: n)
  case Nil
  then show ?case by (cases n) simp_all
next
  case (Cons p ps)
  then obtain k where "n = Suc k" by (cases n) auto
  then show ?case using Cons by simp
qed

lemma hmap_atD:
  assumes "hmap_at m t ch"
  shows "hmap_kind_ok t" "table m (mbuckets t) ch" "length ch = mcount t" "well_placed m (mcount t) ch"
    "mcount t = 0 \<or> count_ok (mcount t)" "mlen t = length (concat ch)" "mlen t \<le> mcount t" "length (mbuckets t) = mcount t"
    "distinct (concat ch)" "set (concat ch) \<subseteq> places m" "hasher (heq t) (hfun t)" "mal t \<noteq> 0"
    "meq t = Some (heq t)" "mhasher t = Some (hfun t)"
    "p \<in> set (concat ch) \<Longrightarrow> ehash m p = hfun t (ekey m p)"
    "p \<in> set (concat ch) \<Longrightarrow> q \<in> set (concat ch) \<Longrightarrow> heq t (ekey m p) (ekey m q) \<Longrightarrow> p = q"
    "lsize BUCKET * mcount t \<le> SIZE_MAX"
proof -
  show "hmap_kind_ok t" "table m (mbuckets t) ch" "length ch = mcount t" "well_placed m (mcount t) ch"
    "mcount t = 0 \<or> count_ok (mcount t)" "mlen t = length (concat ch)" "mlen t \<le> mcount t"
    "p \<in> set (concat ch) \<Longrightarrow> ehash m p = hfun t (ekey m p)"
    "p \<in> set (concat ch) \<Longrightarrow> q \<in> set (concat ch) \<Longrightarrow> heq t (ekey m p) (ekey m q) \<Longrightarrow> p = q"
    "lsize BUCKET * mcount t \<le> SIZE_MAX"
    using assms unfolding hmap_at_def by blast+
  then show "length (mbuckets t) = mcount t" "distinct (concat ch)" "set (concat ch) \<subseteq> places m"
    using tableD(1-3) by metis+
  show "hasher (heq t) (hfun t)" "mal t \<noteq> 0" "meq t = Some (heq t)" "mhasher t = Some (hfun t)"
    using \<open>hmap_kind_ok t\<close> by (auto simp: hmap_kind_ok_def)
qed

lemma hmap_at_chains:
  assumes "hmap_at m t ch" "store_ok m"
  shows "hmap_chains (t, m) = ch"
proof (rule nth_equalityI)
  note d = hmap_atD [OF assms(1)]
  show "length (hmap_chains (t, m)) = length ch" using d(3,8) by (simp add: hmap_chains_def)
  fix i assume "i < length (hmap_chains (t, m))"
  then have i: "i < length ch" using d(3,8) by (simp add: hmap_chains_def)
  note tb = tableD [OF d(2)]
  have "0 \<notin> places m" using assms(2) by (simp add: store_ok_def)
  then have "0 \<notin> set (ch ! i)" using tb(3,6) i by blast
  moreover have "length (ch ! i) \<le> mlen t" using concat_nth [OF i] d(6) by simp
  ultimately show "hmap_chains (t, m) ! i = ch ! i"
    using tb(1,4,5) i chain_from_links [of "enx m" "ch ! i" "mlen t"] by (simp add: hmap_chains_def)
qed

lemma hmap_at_view:
  assumes "hmap_at m t ch" "store_ok m"
  shows "hmap_view (t, m) = \<lparr>hgood = True, hkind = hmap_kind t, hal = mal t, hblocks = hmap_blocks t,
    hval = (image_mset (entry_at (mval t) m) (mset (concat ch)), eothers m (set (concat ch)))\<rparr>"
  using assms hmap_at_chains [OF assms] by (simp add: hmap_view_def hmap_ok_def hmap_entries_def hmap_rest_def)

lemma held_by_hmap:
  "hmap_at m t ch \<Longrightarrow> store_ok m \<Longrightarrow> held_by hmap_view h (t, m) \<longleftrightarrow> hmap_blocks t \<subseteq># lives h (mal t)"
  by (simp add: held_by_def hmap_at_view)

lemma hmap_assert:
  assumes "hmap_at m t ch"
  shows "ASSERT_HMAP t = Some ()"
proof -
  note d = hmap_atD [OF assms]
  have "mcount t = 0 \<or> tda_is_pow2 (mcount t)" using d(5) count_okD(1) by blast
  moreover have "mlen t = 0 \<or> mcount t > 0" using d(7) by linarith
  moreover have "(mcount t = 0) = (mbuckets t = [])" using d(8) by auto
  ultimately show ?thesis using d(1) by (simp add: ASSERT_HMAP_def hmap_kind_ok_def)
qed

lemma held_hmapE:
  assumes "held_by hmap_view h (t, m)"
  obtains ch where "hmap_at m t ch" "store_ok m" "hmap_blocks t \<subseteq># lives h (mal t)" "ASSERT_HMAP t = Some ()"
    "hmap_entries (t, m) = image_mset (entry_at (mval t) m) (mset (concat ch))" "hmap_rest (t, m) = eothers m (set (concat ch))"
proof -
  let ?ch = "hmap_chains (t, m)"
  have "hmap_at m t ?ch" "store_ok m" using assms by (auto simp: held_by_def hmap_view_def hmap_ok_def)
  then show ?thesis
    using that [of ?ch] assms held_by_hmap hmap_assert by (force simp: hmap_entries_def hmap_rest_def)
qed

lemma ckd_extend_Some:
  "tda_layout_ckd_extend a b = Some (Some (c, off)) \<Longrightarrow> tda_layout_is_align (lalign c) \<and> lsize a \<le> lsize c"
  by (auto simp: tda_layout_ckd_extend_def ckd_add_def Let_def bind_Some_iff split: option.splits if_splits)

lemma ckd_pad_Some:
  "tda_layout_ckd_pad a = Some (Some c) \<Longrightarrow> lalign c = lalign a \<and> tda_layout_is_align (lalign a) \<and> lsize a \<le> lsize c"
  by (auto simp: tda_layout_ckd_pad_def ckd_add_def bind_Some_iff split: option.splits if_splits)

lemma hmap_layouts_node:
  assumes "hmap_layouts key val = Some (Some (node, koff, voff))"
  shows "node_size_ok node"
proof -
  obtain n1 o1 where 1: "tda_layout_ckd_extend HMapNode_layout key = Some (Some (n1, o1))"
    using assms by (auto simp: hmap_layouts_def bind_Some_iff split: option.splits)
  then obtain n2 o2 where 2: "(if lsize val > 0 then tda_layout_ckd_extend n1 val
           else Some (Some (n1, wadd o1 (lsize key)))) = Some (Some (n2, o2))" "tda_layout_ckd_pad n2 = Some (Some node)"
    using assms by (auto simp: hmap_layouts_def bind_Some_iff split: option.splits)
  have "lsize HMapNode_layout \<le> lsize n1" using ckd_extend_Some [OF 1] by simp
  moreover have "lsize n1 \<le> lsize n2" using 2(1) ckd_extend_Some [of n1 val n2 o2] by (auto split: if_splits)
  ultimately have "0 < lsize node" using ckd_pad_Some [OF 2(2)] by (simp add: HMapNode_layout_def)
  then show ?thesis using ckd_pad_Some [OF 2(2)] by (simp add: node_size_ok_def)
qed

lemma hmap_node_size: "hmap_kind_ok t \<Longrightarrow> node_size_ok (mnode t)"
  using hmap_layouts_node [of "mkey t" "mval t"] by (simp add: hmap_kind_ok_def)

lemma BUCKET_type: "tda_layout_is_type BUCKET" "lsize BUCKET = 8"
  by (simp_all add: BUCKET_def tda_layout_is_type_def)

section \<open>Lookup\<close>

text \<open>The node for a key is in the chain the key's hash picks, and there is at most one.\<close>

lemma in_its_chain:
  assumes at: "hmap_at m t ch" and p: "p \<in> set (concat ch)" "heq t (ekey m p) key"
  obtains i as cs where "bucket_of t (hfun t key) = Some i" "i < length ch" "ch ! i = as @ p # cs"
    "ehash m p = hfun t key" "\<forall>q \<in> set (as @ cs). \<not> heq t (ekey m q) key"
proof -
  note d = hmap_atD [OF at] and h = hasher.eq_trans [OF hmap_atD(11) [OF at]] hasher.eq_sym [OF hmap_atD(11) [OF at]]
  obtain i where i: "i < length ch" "p \<in> set (ch ! i)" using p(1) by (rule in_concat_nth)
  obtain as cs where c: "ch ! i = as @ p # cs" using i(2) by (metis split_list)
  have hash: "ehash m p = hfun t key" using d(15) [OF p(1)] hasher.hash_eq [OF d(11) p(2)] by simp
  have "bucket_in (ehash m p) (mcount t) = Some i" using d(4) i by (simp add: well_placed_def)
  then have b: "bucket_of t (hfun t key) = Some i" using hash i(1) d(3) by (simp add: bucket_of_def)
  have "\<not> heq t (ekey m q) key" if q: "q \<in> set (as @ cs)" for q
  proof
    assume "heq t (ekey m q) key"
    then have "heq t (ekey m p) (ekey m q)" using h p(2) by blast
    moreover have "q \<in> set (concat ch)" using q tableD(6) [OF d(2) i(1)] c by auto
    ultimately have "p = q" using d(16) p(1) by blast
    then show False using distinct_nth_chain [OF d(9) i(1)] c q by auto
  qed
  then show ?thesis using that b i(1) c hash by blast
qed

lemma hmap_find_ok:
  assumes at: "hmap_at m t ch" and ok: "store_ok m"
  shows "(\<exists>p \<in> set (concat ch). heq t (ekey m p) key \<and> p \<noteq> 0 \<and> hmap_find_node t m key (hfun t key) = Some p) \<or>
    (\<forall>p \<in> set (concat ch). \<not> heq t (ekey m p) key) \<and> hmap_find_node t m key (hfun t key) = Some 0"
proof -
  note d = hmap_atD [OF at]
  have z: "0 \<notin> places m" using ok by (simp add: store_ok_def)
  let ?P = "\<lambda>p. ehash m p = hfun t key \<and> heq t (ekey m p) key"
  have find: "hmap_find_node t m key (hfun t key) = Some (hd (filter ?P (ch ! i) @ [0]))"
    if b: "bucket_of t (hfun t key) = Some i" and i: "i < length ch" for i
  proof -
    note tb = tableD [OF d(2)]
    have "set (ch ! i) \<subseteq> places m" using tb(3) tb(6) [OF i] by blast
    from find_loop_ok [OF tb(5) [OF i] this z d(13), of key "hfun t key"] show ?thesis
      using b i d(3,8) tb(1) tb(4) [OF i] by (simp add: hmap_find_node_def bucket_get_def)
  qed
  show ?thesis
  proof (cases "\<exists>p \<in> set (concat ch). heq t (ekey m p) key")
    case True
    then obtain p where p: "p \<in> set (concat ch)" "heq t (ekey m p) key" by blast
    obtain i as cs where c: "bucket_of t (hfun t key) = Some i" "i < length ch" "ch ! i = as @ p # cs"
      "ehash m p = hfun t key" "\<forall>q \<in> set (as @ cs). \<not> heq t (ekey m q) key"
      using in_its_chain [OF at p] .
    have "filter ?P as = []" using c(5) by (simp add: filter_empty_conv)
    then have "filter ?P (ch ! i) = p # filter ?P cs" using c(3,4) p(2) by simp
    moreover have "p \<in> places m" using d(10) p(1) by blast
    moreover from this have "p \<noteq> 0" using z by metis
    ultimately show ?thesis using find [OF c(1,2)] p by auto
  next
    case False
    have "hmap_find_node t m key (hfun t key) = Some 0"
    proof (cases "mcount t = 0")
      case True
      then show ?thesis by (simp add: hmap_find_node_def)
    next
      case some: False
      then have "count_ok (mcount t)" using d(5) by simp
      then obtain i where i: "bucket_in (hfun t key) (mcount t) = Some i" "i < mcount t" by (rule bucket_in_ok)
      then have b: "bucket_of t (hfun t key) = Some i" "i < length ch" using some d(3) by (simp_all add: bucket_of_def)
      have "filter ?P (ch ! i) = []" using False tableD(6) [OF d(2) b(2)] by (auto simp: filter_empty_conv)
      then show ?thesis using find [OF b] by simp
    qed
    then show ?thesis using False by blast
  qed
qed

section \<open>Growing\<close>

text \<open>The same entries in another table, or the same one.\<close>

definition hmap_moved :: "('k, 'v) entries \<Rightarrow> 'k hmap \<Rightarrow> nat list list \<Rightarrow> ('k, 'v) entries \<Rightarrow> 'k hmap \<Rightarrow> nat list list \<Rightarrow> bool" where
  "hmap_moved m t ch m' t' ch' \<longleftrightarrow> hmap_at m' t' ch' \<and> hmap_kind t' = hmap_kind t \<and> mal t' = mal t \<and> mlen t' = mlen t \<and>
     mset (concat ch') = mset (concat ch) \<and> (\<exists>f. m' = m\<lparr>enx := f\<rparr> \<and> (\<forall>p. p \<notin> set (concat ch) \<longrightarrow> f p = enx m p))"

lemma hmap_moved_refl: "hmap_at m t ch \<Longrightarrow> hmap_moved m t ch m t ch"
  by (auto simp: hmap_moved_def intro!: exI [of _ "enx m"])

lemma hmap_movedD:
  assumes "hmap_moved m t ch m' t' ch'"
  shows "hmap_at m' t' ch'" "hmap_kind t' = hmap_kind t" "mal t' = mal t" "mlen t' = mlen t" "set (concat ch') = set (concat ch)"
    "store_ok m \<Longrightarrow> store_ok m'" "places m' = places m" "ehash m' = ehash m" "ekey m' = ekey m" "evl m' = evl m"
    "image_mset (entry_at V m') (mset (concat ch')) = image_mset (entry_at V m) (mset (concat ch))"
    "set (concat ch) \<subseteq> S \<Longrightarrow> eothers m' S = eothers m S" "pick m' = pick m"
proof -
  obtain f where f: "m' = m\<lparr>enx := f\<rparr>" "\<forall>p. p \<notin> set (concat ch) \<longrightarrow> f p = enx m p"
    and ms: "mset (concat ch') = mset (concat ch)"
    using assms unfolding hmap_moved_def by blast
  show "hmap_at m' t' ch'" "hmap_kind t' = hmap_kind t" "mal t' = mal t" "mlen t' = mlen t"
    using assms unfolding hmap_moved_def by blast+
  show "set (concat ch') = set (concat ch)" using ms by (metis set_mset_mset)
  show "places m' = places m" "ehash m' = ehash m" "ekey m' = ekey m" "evl m' = evl m" "store_ok m \<Longrightarrow> store_ok m'" "pick m' = pick m"
    by (simp_all add: f(1) store_ok_def)
  have "entry_at V m' = entry_at V m" by (simp add: f(1) entry_at_def fun_eq_iff)
  then show "image_mset (entry_at V m') (mset (concat ch')) = image_mset (entry_at V m) (mset (concat ch))" using ms by simp
  show "eothers m' S = eothers m S" if "set (concat ch) \<subseteq> S"
  proof -
    have "p \<notin> S \<Longrightarrow> f p = enx m p" for p using that f(2) by blast
    then show ?thesis by (auto simp: f(1) eothers_def fun_eq_iff)
  qed
qed

lemma hmap_moved_view:
  assumes "hmap_moved m t ch m' t' ch'" "hmap_at m t ch" "store_ok m"
  shows "hmap_view (t', m') = (hmap_view (t, m))\<lparr>hblocks := hmap_blocks t'\<rparr>"
proof -
  note d = hmap_movedD [OF assms(1)]
  have "mval t' = mval t" using d(2) by (simp add: hmap_kind_def)
  then show ?thesis using hmap_at_view [OF d(1) d(6) [OF assms(3)]] hmap_at_view [OF assms(2,3)] d by simp
qed

lemma hmap_kind_fields:
  "hmap_kind t' = hmap_kind t \<longleftrightarrow> mkey t' = mkey t \<and> mval t' = mval t \<and> mkoff t' = mkoff t \<and> mvoff t' = mvoff t \<and>
     mnode t' = mnode t \<and> mhasher t' = mhasher t \<and> meq t' = meq t"
  by (auto simp: hmap_kind_def)

lemma rehash_ok:
  assumes at: "hmap_at m t ch" and ok: "store_ok m" and own: "hmap_blocks t \<subseteq># lives h (mal t)"
    and n: "count_ok n" "mlen t \<le> n"
  shows "\<exists>st t' m' h'. rehash t n m h = Some (st, (t', m'), h') \<and>
    (if st = TDA_STATUS_OK
     then (\<exists>ch'. hmap_moved m t ch m' t' ch') \<and> mcount t' = n \<and> requests h (mal t) (hmap_blocks t) (hmap_blocks t') True h'
     else t' = t \<and> m' = m \<and> requests h (mal t) (hmap_blocks t) (hmap_blocks t) True h' \<and>
       \<not> (generous h (mal t) \<and> 8 * n \<le> SIZE_MAX))"
proof -
  note d = hmap_atD [OF at] and c = count_okD [OF n(1)]
  have z: "0 \<notin> places m" using ok by (simp add: store_ok_def)
  obtain b h1 where a: "al_alloc_n (mal t) BUCKET n h = Some (b, h1)" "requests h (mal t) {#} (held BUCKET n) b h1"
    "generous h (mal t) \<Longrightarrow> 0 < n \<Longrightarrow> lsize BUCKET * n \<le> SIZE_MAX \<Longrightarrow> b"
    using al_alloc_n_spec [OF d(12) BUCKET_type(1), of n h] by blast
  show ?thesis
  proof (cases b)
    case False
    then have "rehash t n m h = Some (TDA_STATUS_ERR_NO_MEM, (t, m), h1)" using a(1) c(1) by (simp add: rehash_def)
    moreover have "requests h (mal t) (hmap_blocks t) (hmap_blocks t) True h1" using requests_refused [OF _ own] a(2) False by simp
    ultimately show ?thesis using a(3) False c(2) by (auto simp: BUCKET_type(2))
  next
    case True
    let ?new = "replicate n ([] :: nat list)"
    have tn: "table m (replicate n 0) ?new" by (simp add: table_def list_all2_conv_all_nth)
    have wn: "well_placed m n ?new" by (simp add: well_placed_def)
    note tb = tableD [OF d(2)]
    have lk: "\<forall>j < length ch. 0 \<le> j \<longrightarrow> links (enx m) (ch ! j) 0" using tb(5) by blast
    have di: "distinct (concat (drop 0 ch) @ concat ?new)" "set (concat (drop 0 ch)) \<subseteq> places m" using d(9,10) by simp_all
    obtain bs' ch' f where r: "rehash_loop t 0 (replicate n 0) n m = Some (bs', m\<lparr>enx := f\<rparr>)" "table (m\<lparr>enx := f\<rparr>) bs' ch'"
      "length ch' = n" "mset (concat ch') = mset (concat (drop 0 ch)) + mset (concat ?new)" "well_placed (m\<lparr>enx := f\<rparr>) n ch'"
      "\<forall>p. p \<notin> set (concat (drop 0 ch)) \<longrightarrow> f p = enx m p"
      using rehash_loop_ok [OF z n(1) d(3,8) tb(4) le0 lk refl di tn _ wn] by auto
    let ?t = "t\<lparr>mbuckets := bs', mcount := n\<rparr>" and ?m = "m\<lparr>enx := f\<rparr>"
    have ms: "mset (concat ch') = mset (concat ch)" using r(4) by simp
    have sets: "set (concat ch') = set (concat ch)" using ms by (metis set_mset_mset)
    have len: "length (concat ch') = length (concat ch)" using ms by (metis size_mset)
    have room: "lsize BUCKET * n \<le> SIZE_MAX"
      using a(1) True BUCKET_type(1) by (auto simp: al_alloc_n_def ckd_array_type split: if_splits)
    have at': "hmap_at ?m ?t ch'"
      using at r(2,3,5) n len room unfolding hmap_at_def sets by (simp add: hmap_kind_ok_def)
    have mv: "hmap_moved m t ch ?m ?t ch'"
      using at' ms r(6) by (auto simp: hmap_moved_def hmap_kind_def intro!: exI [of _ f])
    have old: "held BUCKET (mcount t) \<subseteq># lives h (mal t)"
      using subset_mset.order_trans [OF mset_subset_eq_add_left own [unfolded hmap_blocks_def]] .
    then have old1: "held BUCKET (mcount t) \<subseteq># lives h1 (mal t)"
      using a(2) True by (simp add: requests_def subset_mset.add_increasing2)
    obtain h2 where f2: "al_dealloc (mal t) (mcount t \<noteq> 0) \<lparr>lsize = lsize BUCKET * mcount t, lalign = lalign BUCKET\<rparr> h1 = Some h2"
      "lives h2 = (lives h1)(mal t := lives h1 (mal t) - held BUCKET (mcount t))" "\<And>c. generous h1 c \<Longrightarrow> generous h2 c"
      using al_dealloc_held [OF d(12) BUCKET_type(1) old1] by blast
    have "requests h1 (mal t) (held BUCKET (mcount t)) {#} True h2" using f2(2,3) by (simp add: requests_def)
    note req = requests_replace [OF _ old this, of "held BUCKET n"]
    have blocks: "requests h (mal t) (hmap_blocks t) (hmap_blocks ?t) True h2"
      using requests_frame [OF req own [unfolded hmap_blocks_def]] a(2) True by (simp add: hmap_blocks_def)
    have "(mbuckets t \<noteq> []) = (mcount t \<noteq> 0)" using d(8) by (metis length_0_conv)
    then have "al_dealloc_n (mal t) (mbuckets t \<noteq> []) BUCKET (mcount t) h1 = Some h2"
      using f2(1) d(17) BUCKET_type(1) by (simp add: al_dealloc_n_def ckd_array_type)
    then have "rehash t n m h = Some (TDA_STATUS_OK, (?t, ?m), h2)"
      using a(1) True c(1) r(1) hmap_assert [OF at'] by (simp add: rehash_def Let_def)
    then show ?thesis using mv blocks by (intro exI [of _ TDA_STATUS_OK] exI [of _ ?t] exI [of _ ?m] exI [of _ h2]) auto
  qed
qed

lemma reserve_buckets_ok:
  assumes at: "hmap_at m t ch" and ok: "store_ok m" and own: "hmap_blocks t \<subseteq># lives h (mal t)"
  shows "\<exists>st t' m' h' ch'. reserve_buckets t cap m h = Some (st, (t', m'), h') \<and> hmap_moved m t ch m' t' ch' \<and>
    requests h (mal t) (hmap_blocks t) (hmap_blocks t') True h' \<and>
    (if st = TDA_STATUS_OK then cap \<le> mcount t' else t' = t \<and> m' = m \<and> \<not> (generous h (mal t) \<and> 16 * cap \<le> SIZE_MAX))"
proof -
  note d = hmap_atD [OF at]
  have refl: "requests h (mal t) (hmap_blocks t) (hmap_blocks t) True h" using own by (rule requests_refl)
  show ?thesis
  proof (cases "cap \<le> mcount t")
    case True
    then show ?thesis using hmap_moved_refl [OF at] refl by (force simp: reserve_buckets_def)
  next
    case False
    obtain r where r: "buckets_for cap = Some r" "r \<noteq> 0 \<Longrightarrow> count_ok r \<and> cap \<le> r" "r = 0 \<Longrightarrow> \<forall>x. count_ok x \<longrightarrow> x < cap"
      "r \<noteq> 0 \<Longrightarrow> r \<le> 8 \<or> r < 2 * cap"
      using buckets_for_ok [of cap] by blast
    show ?thesis
    proof (cases "r = 0")
      case True
      have "count_ok (2 ^ 63)" by (auto simp: count_ok_def intro!: exI [of _ 63])
      then have "2 ^ 63 < cap" using r(3) [OF True] by blast
      then have "\<not> 16 * cap \<le> SIZE_MAX" by (simp add: SIZE_MAX_def)
      then show ?thesis using hmap_moved_refl [OF at] refl False r(1) True by (auto simp: reserve_buckets_def)
    next
      case nz: False
      then have n: "count_ok r" "mlen t \<le> r" using r(2) d(7) False by auto
      have fits: "16 * cap \<le> SIZE_MAX \<Longrightarrow> 8 * r \<le> SIZE_MAX" using r(4) [OF nz] by (auto simp: SIZE_MAX_def)
      obtain st t' m' h' where q: "rehash t r m h = Some (st, (t', m'), h')"
        and res: "if st = TDA_STATUS_OK
          then (\<exists>ch'. hmap_moved m t ch m' t' ch') \<and> mcount t' = r \<and> requests h (mal t) (hmap_blocks t) (hmap_blocks t') True h'
          else t' = t \<and> m' = m \<and> requests h (mal t) (hmap_blocks t) (hmap_blocks t) True h' \<and>
            \<not> (generous h (mal t) \<and> 8 * r \<le> SIZE_MAX)"
        using rehash_ok [OF at ok own n] by (elim exE conjE)
      have run: "reserve_buckets t cap m h = Some (st, (t', m'), h')"
        using False r(1) nz q by (simp add: reserve_buckets_def)
      show ?thesis
      proof (cases "st = TDA_STATUS_OK")
        case True
        then show ?thesis using run res r(2) [OF nz] by auto
      next
        case no: False
        then show ?thesis unfolding run using res fits hmap_moved_refl [OF at] by auto
      qed
    qed
  qed
qed

lemma hmap_grows:
  assumes at: "hmap_at m t ch" "store_ok m" and to: "hmap_at m' t' ch'" "store_ok m'" "hmap_kind t' = hmap_kind t" "mal t' = mal t"
    and req: "requests h (mal t) (hmap_blocks t) (hmap_blocks t') True h'"
    and val: "st \<noteq> TDA_STATUS_OK \<Longrightarrow> image_mset (entry_at (mval t) m') (mset (concat ch')) = image_mset (entry_at (mval t) m) (mset (concat ch)) \<and>
      eothers m' (set (concat ch')) = eothers m (set (concat ch)) \<and> (generous h (mal t) \<longrightarrow> \<not> fits)"
  shows "call_grows hmap_view h (t, m) fits st (t', m') h'"
proof -
  have "mval t' = mval t" using to(3) by (simp add: hmap_kind_def)
  then show ?thesis using assms by (simp add: call_grows_def hmap_at_view)
qed

lemma hmap_reserve_ok:
  assumes held: "held_by hmap_view h (t, m)"
  shows "call_does hmap_view h (t, m) (tda_hmap_reserve t cap m h) (16 * cap \<le> SIZE_MAX) (hval (hmap_view (t, m)))"
proof -
  obtain ch where at: "hmap_at m t ch" and ok: "store_ok m" and own: "hmap_blocks t \<subseteq># lives h (mal t)"
    using held by (rule held_hmapE)
  obtain st t' m' h' ch' where r: "reserve_buckets t cap m h = Some (st, (t', m'), h')" "hmap_moved m t ch m' t' ch'"
    "requests h (mal t) (hmap_blocks t) (hmap_blocks t') True h'"
    "if st = TDA_STATUS_OK then cap \<le> mcount t' else t' = t \<and> m' = m \<and> \<not> (generous h (mal t) \<and> 16 * cap \<le> SIZE_MAX)"
    using reserve_buckets_ok [OF at ok own, of cap] by (elim exE conjE)
  note d = hmap_movedD [OF r(2)]
  have run: "tda_hmap_reserve t cap m h = Some (st, (t', m'), h')"
    using r(1) hmap_assert [OF at] hmap_assert [OF d(1)] by (simp add: tda_hmap_reserve_def)
  have "call_grows hmap_view h (t, m) (16 * cap \<le> SIZE_MAX) st (t', m') h'"
    using hmap_grows [OF at ok d(1) d(6) [OF ok] d(2,3) r(3), of st "16 * cap \<le> SIZE_MAX"] d(5,11)
      d(12) [of "set (concat ch)"] r(4) by (auto split: if_splits)
  then show ?thesis
    unfolding run using hmap_moved_view [OF r(2) at ok] by (simp add: call_does_def)
qed

section \<open>Adding an entry\<close>

lemma hmap_blocks_more:
  "mcount t' = mcount t \<Longrightarrow> mnode t' = mnode t \<Longrightarrow> mlen t' = mlen t + 1 \<Longrightarrow>
   hmap_blocks t' = hmap_blocks t + {#mnode t#}"
  by (simp add: hmap_blocks_def)

text \<open>Enough room for one more: what the buckets for it take can be asked for.\<close>

abbreviation val_given :: "'k hmap \<Rightarrow> 'v option option \<Rightarrow> 'v option" where
  "val_given t val \<equiv> if 0 < lsize (mval t) then the val else None"

abbreviation one_fits :: "'k hmap \<Rightarrow> bool" where
  "one_fits t \<equiv> 16 * (mlen t + 1) \<le> SIZE_MAX"

lemma hmap_alloc_node_ok:
  assumes k: "hmap_kind_ok t" and ok: "store_ok m" and val: "0 < lsize (mval t) \<longrightarrow> val \<noteq> None"
  shows "\<exists>b h'. requests h (mal t) {#} {#mnode t#} b h' \<and> (generous h (mal t) \<longrightarrow> b) \<and>
    (if b then (\<exists>x. let p = pick m (places m) in hmap_alloc_node t key val hash m h = Some (TDA_STATUS_OK, p,
        m\<lparr>places := insert p (places m), enx := (enx m)(p := 0), ehash := (ehash m)(p := hash), ekey := (ekey m)(p := key),
          evl := (evl m)(p := x)\<rparr>, h') \<and> (0 < lsize (mval t) \<longrightarrow> val = Some x))
     else hmap_alloc_node t key val hash m h = Some (TDA_STATUS_ERR_NO_MEM, 0, m, h'))"
proof -
  let ?p = "pick m (places m)"
  have al: "mal t \<noteq> 0" using k by (simp add: hmap_kind_ok_def)
  obtain b h' where n: "node_new (mal t) (mnode t) m h =
      Some (if b then (?p, m\<lparr>places := insert ?p (places m)\<rparr>, h') else (0, m, h'))"
    "requests h (mal t) {#} {#mnode t#} b h'" "generous h (mal t) \<Longrightarrow> b"
    using node_new_spec [OF ok hmap_node_size [OF k] al, of h] by blast
  have p: "?p \<noteq> 0" using store_pick [OF ok] by simp
  show ?thesis
  proof (cases b)
    case False
    then have "\<not> generous h (mal t)" using n(3) by blast
    then show ?thesis using n(1,2) False by (intro exI [of _ False] exI [of _ h']) (simp add: hmap_alloc_node_def)
  next
    case True
    let ?x = "if 0 < lsize (mval t) then the val else evl m ?p"
    have "hmap_alloc_node t key val hash m h = Some (TDA_STATUS_OK, ?p,
        m\<lparr>places := insert ?p (places m), enx := (enx m)(?p := 0), ehash := (ehash m)(?p := hash), ekey := (ekey m)(?p := key),
          evl := (evl m)(?p := ?x)\<rparr>, h')"
      using n(1) True p val
      by (auto simp: hmap_alloc_node_def set_enx_def set_ehash_def set_ekey_def set_evl_def)
    then show ?thesis
      using n(2,3) True val by (intro exI [of _ True] exI [of _ h']) (auto simp: Let_def intro!: exI [of _ ?x])
  qed
qed

lemma add_node_ok:
  assumes at: "hmap_at m t ch" and ok: "store_ok m" and own: "hmap_blocks t \<subseteq># lives h (mal t)"
    and new: "\<forall>p \<in> set (concat ch). \<not> heq t (ekey m p) key" and val: "0 < lsize (mval t) \<longrightarrow> val \<noteq> None"
  shows "\<exists>st p t' m' h'. add_node t key val (hfun t key) m h = Some (st, p, (t', m'), h') \<and> store_ok m' \<and>
    hmap_kind t' = hmap_kind t \<and> mal t' = mal t \<and> requests h (mal t) (hmap_blocks t) (hmap_blocks t') True h' \<and>
    (if st = TDA_STATUS_OK
     then p \<noteq> 0 \<and> p \<notin> places m \<and> (\<exists>ch'. hmap_at m' t' ch' \<and> mset (concat ch') = add_mset p (mset (concat ch)) \<and>
       image_mset (entry_at (mval t) m') (mset (concat ch')) = add_mset (key, val_given t val) (image_mset (entry_at (mval t) m) (mset (concat ch))) \<and>
       entry_at (mval t) m' p = (key, val_given t val) \<and>
       eothers m' (set (concat ch')) = eothers m (set (concat ch)))
     else p = 0 \<and> (\<exists>ch'. hmap_moved m t ch m' t' ch') \<and> \<not> (generous h (mal t) \<and> one_fits t))"
proof -
  note d = hmap_atD [OF at]
  have small: "mlen t + 1 \<le> SIZE_MAX" using d(7,17) by (simp add: BUCKET_type SIZE_MAX_def)
  obtain st1 t1 m1 h1 ch1 where r: "reserve_buckets t (mlen t + 1) m h = Some (st1, (t1, m1), h1)" "hmap_moved m t ch m1 t1 ch1"
    "requests h (mal t) (hmap_blocks t) (hmap_blocks t1) True h1"
    "if st1 = TDA_STATUS_OK then mlen t + 1 \<le> mcount t1 else t1 = t \<and> m1 = m \<and> \<not> (generous h (mal t) \<and> one_fits t)"
    using reserve_buckets_ok [OF at ok own, of "mlen t + 1"] by (elim exE conjE)
  note mv = hmap_movedD [OF r(2)] and d1 = hmap_atD [OF hmap_movedD(1) [OF r(2)]]
  have kf: "mval t1 = mval t" "mnode t1 = mnode t" "mhasher t1 = mhasher t" "meq t1 = meq t"
    using mv(2) by (simp_all add: hmap_kind_fields)
  have one: "hmap_reserve_one t m h = Some (st1, (t1, m1), h1)" using r(1) small by (simp add: hmap_reserve_one_def)
  have ok1: "store_ok m1" using mv(6) ok by simp
  show ?thesis
  proof (cases "st1 = TDA_STATUS_OK")
    case False
    then have "add_node t key val (hfun t key) m h = Some (st1, 0, (t1, m1), h1)"
      using one by (simp add: add_node_def status_is_err_iff)
    then show ?thesis using False r mv(2,3) ok1 by auto
  next
    case grown: True
    then have room: "mlen t + 1 \<le> mcount t1" using r(4) by simp
    have own1: "hmap_blocks t1 \<subseteq># lives h1 (mal t)" using requests_lives [OF r(3)] .
    have val1: "0 < lsize (mval t1) \<longrightarrow> val \<noteq> None" using val kf(1) by simp
    let ?p = "pick m1 (places m1)"
    obtain b h2 where a: "requests h1 (mal t1) {#} {#mnode t1#} b h2" "generous h1 (mal t1) \<longrightarrow> b"
      and res: "if b then (\<exists>x. let p = ?p in hmap_alloc_node t1 key val (hfun t key) m1 h1 = Some (TDA_STATUS_OK, p,
          m1\<lparr>places := insert p (places m1), enx := (enx m1)(p := 0), ehash := (ehash m1)(p := hfun t key),
            ekey := (ekey m1)(p := key), evl := (evl m1)(p := x)\<rparr>, h2) \<and> (0 < lsize (mval t1) \<longrightarrow> val = Some x))
        else hmap_alloc_node t1 key val (hfun t key) m1 h1 = Some (TDA_STATUS_ERR_NO_MEM, 0, m1, h2)"
      using hmap_alloc_node_ok [OF d1(1) ok1 val1, of h1 key "hfun t key"] by (elim exE conjE)
    show ?thesis
    proof (cases b)
      case False
      then have "add_node t key val (hfun t key) m h = Some (TDA_STATUS_ERR_NO_MEM, 0, (t1, m1), h2)"
        using one grown res by (simp add: add_node_def status_is_err_iff)
      moreover have "requests h (mal t) (hmap_blocks t) (hmap_blocks t1) True h2"
        using requests_trans [OF r(3)] requests_refused [OF _ own1] a(1) False mv(3) by simp
      moreover have "\<not> generous h (mal t)" using a(2) False requests_generous [OF r(3)] mv(3) by auto
      ultimately show ?thesis using r(2) mv(2,3) ok1 by auto
    next
      case True
      then obtain x where an: "hmap_alloc_node t1 key val (hfun t key) m1 h1 = Some (TDA_STATUS_OK, ?p,
          m1\<lparr>places := insert ?p (places m1), enx := (enx m1)(?p := 0), ehash := (ehash m1)(?p := hfun t key),
            ekey := (ekey m1)(?p := key), evl := (evl m1)(?p := x)\<rparr>, h2)" "0 < lsize (mval t) \<longrightarrow> val = Some x"
        using res kf(1) by (auto simp: Let_def)
      define m2 where "m2 = m1\<lparr>places := insert ?p (places m1), enx := (enx m1)(?p := 0), ehash := (ehash m1)(?p := hfun t key),
            ekey := (ekey m1)(?p := key), evl := (evl m1)(?p := x)\<rparr>"
      note an = an [folded m2_def]
      have p: "?p \<noteq> 0" "?p \<notin> places m1" using store_pick [OF ok1] by simp_all
      have notin: "?p \<notin> set (concat ch1)" using p(2) d1(10) by blast
      have m2: "places m2 = insert ?p (places m1)" "ehash m2 = (ehash m1)(?p := hfun t key)" "ekey m2 = (ekey m1)(?p := key)"
        "evl m2 = (evl m1)(?p := x)" "\<And>q. q \<noteq> ?p \<Longrightarrow> enx m2 q = enx m1 q" "pick m2 = pick m1"
        by (simp_all add: m2_def)
      have t2: "table m2 (mbuckets t1) ch1"
        using table_agree [OF d1(2), of m2] notin m2(1,5) d1(10) by (metis insertCI subsetD)
      have nin: "q \<in> set (concat ch1) \<Longrightarrow> q \<noteq> ?p" for q using notin by blast
      have w2: "well_placed m2 (mcount t1) ch1"
        unfolding well_placed_def
      proof (intro allI impI ballI)
        fix i q assume i: "i < length ch1" "q \<in> set (ch1 ! i)"
        then have "q \<noteq> ?p" using nin tableD(6) [OF d1(2) i(1)] by blast
        then show "bucket_in (ehash m2 q) (mcount t1) = Some i" using d1(4) i m2(2) by (simp add: well_placed_def)
      qed
      have cok: "count_ok (mcount t1)" using d1(5) room by auto
      have pin: "?p \<in> places m2" using m2(1) by simp
      obtain bs3 ch3 q where l: "hmap_link_node (mbuckets t1) (mcount t1) ?p m2 = Some (bs3, m2\<lparr>enx := (enx m2)(?p := q)\<rparr>)"
        "table (m2\<lparr>enx := (enx m2)(?p := q)\<rparr>) bs3 ch3" "length ch3 = mcount t1"
        "mset (concat ch3) = add_mset ?p (mset (concat ch1))" "well_placed (m2\<lparr>enx := (enx m2)(?p := q)\<rparr>) (mcount t1) ch3"
        using link_node_put [OF t2 d1(3) cok pin notin w2] by blast
      let ?t = "t1\<lparr>mbuckets := bs3, mlen := mlen t + 1\<rparr>" and ?m = "m2\<lparr>enx := (enx m2)(?p := q)\<rparr>"
      have sets: "set (concat ch3) = insert ?p (set (concat ch1))" using arg_cong [OF l(4), of set_mset] by simp
      have len: "length (concat ch3) = Suc (length (concat ch1))" using arg_cong [OF l(4), of size] by simp
      have key_at: "ekey m2 r = (if r = ?p then key else ekey m r)" "ehash m2 r = (if r = ?p then hfun t key else ehash m1 r)" for r
        using m2(2,3) mv(9) by auto
      have sym: "heq t a b \<Longrightarrow> heq t b a" for a b using hasher.eq_sym [OF d(11)] .
      have at3: "hmap_at ?m ?t ch3"
        unfolding hmap_at_def
      proof (intro conjI ballI impI)
        fix r assume r: "r \<in> set (concat ch3)"
        have old: "x \<in> set (concat ch1)" if "x \<in> set (concat ch3)" "x \<noteq> ?p" for x using that sets by blast
        show "ehash ?m r = hfun ?t (ekey ?m r)"
          using d1(15) [OF old [OF r]] kf(3) mv(9) by (simp add: key_at del: set_concat)
        fix r' assume r': "r' \<in> set (concat ch3)" "r \<noteq> r'"
        have no: "\<not> heq t (ekey m x) key" "\<not> heq t key (ekey m x)" if "x \<in> set (concat ch1)" for x
          using new that sym mv(5) by blast+
        show "\<not> heq ?t (ekey ?m r) (ekey ?m r')"
          using d1(16) [OF old [OF r] old [OF r'(1)]] no [OF old [OF r]] no [OF old [OF r'(1)]] kf(4) mv(9) r'(2)
          by (auto simp: key_at simp del: set_concat)
      qed (use d1(1,5-7,17) l(2,3,5) room len mv(4) in \<open>auto simp: hmap_kind_ok_def\<close>)
      have run: "add_node t key val (hfun t key) m h = Some (TDA_STATUS_OK, ?p, (?t, ?m), h2)"
        using one grown an(1) l(1) mv(4) small hmap_assert [OF at3] by (simp add: add_node_def status_is_err_iff Let_def)
      have "requests h1 (mal t) {#} {#mnode t1#} True h2" using a(1) True mv(3) by simp
      from requests_trans [OF r(3) requests_more [OF this own1]]
      have "requests h (mal t) (hmap_blocks t) (hmap_blocks ?t) True h2"
        using hmap_blocks_more [of ?t t1] mv(4) by simp
      moreover have "image_mset (entry_at (mval t) ?m) (mset (concat ch3)) = add_mset (key, val_given t val) (image_mset (entry_at (mval t) m) (mset (concat ch)))"
      proof -
        have "image_mset (entry_at (mval t) ?m) (mset (concat ch1)) = image_mset (entry_at (mval t) m1) (mset (concat ch1))"
          using nin m2(3,4) by (intro image_mset_cong) (auto simp: entry_at_def)
        then show ?thesis using l(4) mv(11) m2(3,4) an(2) by (auto simp: entry_at_def)
      qed
      moreover have "mset (concat ch3) = add_mset ?p (mset (concat ch))" using l(4) r(2) by (simp add: hmap_moved_def)
      moreover have "eothers ?m (set (concat ch3)) = eothers m (set (concat ch))"
      proof -
        have "eothers ?m (set (concat ch3)) = eothers m1 (set (concat ch1))"
          unfolding sets using m2 p(2) by (auto simp: eothers_def fun_eq_iff)
        then show ?thesis using mv(12) [of "set (concat ch)"] mv(5) by simp
      qed
      moreover have "store_ok ?m" using ok1 m2(1,6) p(1) by (simp add: store_ok_def)
      moreover have "entry_at (mval t) ?m ?p = (key, val_given t val)" using m2(3,4) an(2) by (auto simp: entry_at_def)
      moreover have "hmap_kind ?t = hmap_kind t" "mal ?t = mal t" using mv(2,3) by (simp_all add: hmap_kind_def)
      ultimately show ?thesis using run at3 p mv(7) by auto
    qed
  qed
qed

end
