(* ===== verification/HMapCalls.thy ===== *)
theory HMapCalls
  imports HMapOps
begin

text \<open>
  The calls on one map of \<open>HMap\<close> that put entries in and take them out, against the multiset of its
  entries.
\<close>

section \<open>Looking up\<close>

text \<open>What the entries say of a key; the code compares an entry's key with the one asked for.\<close>

definition has_key :: "('k \<Rightarrow> 'k \<Rightarrow> bool) \<Rightarrow> 'k \<Rightarrow> ('k \<times> 'v) multiset \<Rightarrow> bool" where
  "has_key eq key E \<longleftrightarrow> (\<exists>e \<in># E. eq (fst e) key)"

definition put_entry :: "('k \<Rightarrow> 'k \<Rightarrow> bool) \<Rightarrow> 'k \<Rightarrow> 'v \<Rightarrow> ('k \<times> 'v) multiset \<Rightarrow> ('k \<times> 'v) multiset" where
  "put_entry eq key x E = (if has_key eq key E then image_mset (\<lambda>e. if eq (fst e) key then (fst e, x) else e) E
     else add_mset (key, x) E)"

definition cut_key :: "('k \<Rightarrow> 'k \<Rightarrow> bool) \<Rightarrow> 'k \<Rightarrow> ('k \<times> 'v) multiset \<Rightarrow> ('k \<times> 'v) multiset" where
  "cut_key eq key E = filter_mset (\<lambda>e. \<not> eq (fst e) key) E"

lemma has_key_nodes:
  "has_key eq key (image_mset (entry_at V m) (mset ps)) \<longleftrightarrow> (\<exists>p \<in> set ps. eq (ekey m p) key)"
  by (auto simp: has_key_def entry_at_def)

lemma hmap_node_in: "hmap_at m t ch \<Longrightarrow> store_ok m \<Longrightarrow> p \<in> set (concat ch) \<Longrightarrow> p \<in> places m"
  "hmap_at m t ch \<Longrightarrow> store_ok m \<Longrightarrow> p \<in> set (concat ch) \<Longrightarrow> p \<noteq> 0"
  using hmap_atD(10) [of m t ch] unfolding store_ok_def by (blast, metis subsetD)

lemma key_hash_at: "hmap_at m t ch \<Longrightarrow> key_hash t key = Some (hfun t key)"
  by (drule hmap_atD(14)) (cases "mhasher t"; simp add: key_hash_def)

lemma hmap_find_held:
  assumes held: "held_by hmap_view h (t, m)"
  shows "\<exists>p. tda_hmap_find t m key = Some p \<and> tda_hmap_get t m key = Some p \<and> tda_hmap_contains t m key = Some (p \<noteq> 0) \<and>
    (p \<noteq> 0 \<longleftrightarrow> has_key (heq t) key (hmap_entries (t, m))) \<and>
    (p \<noteq> 0 \<longrightarrow> heq t (ekey m p) key \<and> entry_at (mval t) m p \<in># hmap_entries (t, m) \<and> tda_hmap_node_key t m p = Some (ekey m p) \<and>
      tda_hmap_node_val t m p = Some (evl m p))"
proof -
  obtain ch where at: "hmap_at m t ch" and ok: "store_ok m" and as: "ASSERT_HMAP t = Some ()"
    and e: "hmap_entries (t, m) = image_mset (entry_at (mval t) m) (mset (concat ch))"
    using held by (rule held_hmapE)
  note d = hmap_atD [OF at]
  have run: "tda_hmap_find t m key = hmap_find_node t m key (hfun t key)" "tda_hmap_get t m key = hmap_find_node t m key (hfun t key)"
    "tda_hmap_contains t m key = map_option (\<lambda>p. p \<noteq> 0) (hmap_find_node t m key (hfun t key))"
    using as key_hash_at [OF at] by (simp_all add: tda_hmap_find_def tda_hmap_get_def tda_hmap_contains_def map_conv_bind_option comp_def)
  have nodes: "tda_hmap_node_key t m p = Some (ekey m p)" "tda_hmap_node_val t m p = Some (evl m p)"
    if "p \<in> set (concat ch)" "p \<noteq> 0" for p
    using that d(10) as
    by (auto simp: tda_hmap_node_key_def tda_hmap_node_val_def hmap_node_key_def hmap_node_val_def)
  show ?thesis unfolding run e has_key_nodes using hmap_find_ok [OF at ok, of key] nodes by (auto simp: image_iff)
qed

section \<open>Inserting\<close>

lemma hmap_at_agree:
  assumes "hmap_at m t ch"
    and "\<And>p. p \<in> set (concat ch) \<Longrightarrow> enx m' p = enx m p \<and> ehash m' p = ehash m p \<and> ekey m' p = ekey m p \<and> p \<in> places m'"
  shows "hmap_at m' t ch"
proof -
  note d = hmap_atD [OF assms(1)]
  have in_ch: "p \<in> set (ch ! i) \<Longrightarrow> i < length ch \<Longrightarrow> p \<in> set (concat ch)" for p i using tableD(6) [OF d(2)] by blast
  have "table m' (mbuckets t) ch" using table_agree [OF d(2)] assms(2) by blast
  moreover have "well_placed m' (mcount t) ch" using d(4) assms(2) in_ch by (simp add: well_placed_def)
  ultimately show ?thesis using assms unfolding hmap_at_def by simp
qed

lemma put_entry_nodes:
  assumes at: "hmap_at m t ch" and p: "p \<in> set (concat ch)" "heq t (ekey m p) key" and x: "0 < lsize V"
  shows "image_mset (entry_at V (m\<lparr>evl := (evl m)(p := x)\<rparr>)) (mset (concat ch)) =
    put_entry (heq t) key x (image_mset (entry_at V m) (mset (concat ch)))"
proof -
  note d = hmap_atD [OF at] and h = hasher.eq_trans [OF hmap_atD(11) [OF at]] hasher.eq_sym [OF hmap_atD(11) [OF at]]
  have "heq t (ekey m q) key \<longleftrightarrow> q = p" if "q \<in> set (concat ch)" for q
    using d(16) [OF that p(1)] p(2) h by blast
  then have "image_mset (entry_at V (m\<lparr>evl := (evl m)(p := x)\<rparr>)) (mset (concat ch)) =
      image_mset (\<lambda>e. if heq t (fst e) key then (fst e, x) else e) (image_mset (entry_at V m) (mset (concat ch)))"
    unfolding image_mset.compositionality
    by (intro image_mset_cong) (use x in \<open>auto simp: entry_at_def simp del: set_concat mset_concat\<close>)
  then show ?thesis using p by (auto simp: put_entry_def has_key_nodes simp del: set_concat)
qed

lemma hmap_add_ok:
  assumes at: "hmap_at m t ch" and ok: "store_ok m" and own: "hmap_blocks t \<subseteq># lives h (mal t)"
    and new: "\<forall>p \<in> set (concat ch). \<not> heq t (ekey m p) key" and val: "0 < lsize (mval t) \<longrightarrow> val \<noteq> None"
  shows "\<exists>st p t' m' h'. add_node t key val (hfun t key) m h = Some (st, p, (t', m'), h') \<and> ASSERT_HMAP t' = Some () \<and>
    call_does hmap_view h (t, m) (Some (st, (t', m'), h')) (one_fits t)
      (add_mset (key, val_given t val) (hmap_entries (t, m)), hmap_rest (t, m)) \<and>
    (st = TDA_STATUS_OK \<longrightarrow> p \<noteq> 0 \<and> p \<notin> places m \<and> entry_at (mval t) m' p = (key, val_given t val)) \<and>
    (st \<noteq> TDA_STATUS_OK \<longrightarrow> p = 0)"
proof -
  have e: "hmap_entries (t, m) = image_mset (entry_at (mval t) m) (mset (concat ch))" "hmap_rest (t, m) = eothers m (set (concat ch))"
    using hmap_at_chains [OF at ok] by (simp_all add: hmap_entries_def hmap_rest_def)
  obtain st p t' m' h' where r: "add_node t key val (hfun t key) m h = Some (st, p, (t', m'), h')" "store_ok m'"
    "hmap_kind t' = hmap_kind t" "mal t' = mal t" "requests h (mal t) (hmap_blocks t) (hmap_blocks t') True h'"
    and res: "if st = TDA_STATUS_OK
     then p \<noteq> 0 \<and> p \<notin> places m \<and> (\<exists>ch'. hmap_at m' t' ch' \<and> mset (concat ch') = add_mset p (mset (concat ch)) \<and>
       image_mset (entry_at (mval t) m') (mset (concat ch')) = add_mset (key, val_given t val) (image_mset (entry_at (mval t) m) (mset (concat ch))) \<and>
       entry_at (mval t) m' p = (key, val_given t val) \<and>
       eothers m' (set (concat ch')) = eothers m (set (concat ch)))
     else p = 0 \<and> (\<exists>ch'. hmap_moved m t ch m' t' ch') \<and> \<not> (generous h (mal t) \<and> one_fits t)"
    using add_node_ok [OF at ok own new val] by (elim exE conjE)
  show ?thesis
  proof (cases "st = TDA_STATUS_OK")
    case True
    then obtain ch' where c: "p \<noteq> 0" "p \<notin> places m" "hmap_at m' t' ch'"
       "image_mset (entry_at (mval t) m') (mset (concat ch')) = add_mset (key, val_given t val) (image_mset (entry_at (mval t) m) (mset (concat ch)))"
       "entry_at (mval t) m' p = (key, val_given t val)" "eothers m' (set (concat ch')) = eothers m (set (concat ch))"
      using res by auto
    have "mval t' = mval t" using r(3) by (simp add: hmap_kind_def)
    then have "hval (hmap_view (t', m')) = (add_mset (key, val_given t val) (hmap_entries (t, m)), hmap_rest (t, m))"
      unfolding hmap_at_view [OF c(3) r(2)] e using c(4,6) by simp
    moreover have "call_grows hmap_view h (t, m) (one_fits t) st (t', m') h'"
      using hmap_grows [OF at ok c(3) r(2-5)] True by blast
    ultimately show ?thesis using r(1) True c(1,2,5) hmap_assert [OF c(3)] by (auto simp: call_does_def)
  next
    case False
    then obtain ch' where c: "hmap_moved m t ch m' t' ch'" "\<not> (generous h (mal t) \<and> one_fits t)" and p: "p = 0" using res by auto
    note mv = hmap_movedD [OF c(1)]
    have "call_grows hmap_view h (t, m) (one_fits t) st (t', m') h'"
      using hmap_grows [OF at ok mv(1) r(2-5), of st "one_fits t"] mv(5) mv(11) [of "mval t"] mv(12) [of "set (concat ch)"] c(2) by simp
    then show ?thesis using r(1) p False hmap_assert [OF mv(1)] by (auto simp: call_does_def)
  qed
qed

lemma hmap_insert_ok:
  assumes held: "held_by hmap_view h (t, m)" and val: "val \<noteq> None \<or> lsize (mval t) = 0"
  shows "\<exists>st new c h'. tda_hmap_insert t key val m h = Some (st, new, c, h') \<and>
    call_does hmap_view h (t, m) (Some (st, c, h')) (one_fits t)
      (put_entry (heq t) key (val_given t val) (hmap_entries (t, m)), hmap_rest (t, m)) \<and>
    (st = TDA_STATUS_OK \<longrightarrow> new = Some (\<not> has_key (heq t) key (hmap_entries (t, m)))) \<and>
    (has_key (heq t) key (hmap_entries (t, m)) \<longrightarrow> st = TDA_STATUS_OK)"
proof -
  obtain ch where at: "hmap_at m t ch" and ok: "store_ok m" and own: "hmap_blocks t \<subseteq># lives h (mal t)" and as: "ASSERT_HMAP t = Some ()"
    and e: "hmap_entries (t, m) = image_mset (entry_at (mval t) m) (mset (concat ch))" "hmap_rest (t, m) = eothers m (set (concat ch))"
    using held by (rule held_hmapE)
  note d = hmap_atD [OF at] and kh = key_hash_at [OF at]
  from hmap_find_ok [OF at ok, of key] show ?thesis
  proof
    assume "\<exists>p \<in> set (concat ch). heq t (ekey m p) key \<and> p \<noteq> 0 \<and> hmap_find_node t m key (hfun t key) = Some p"
    then obtain p where p: "p \<in> set (concat ch)" "heq t (ekey m p) key" "p \<noteq> 0" "hmap_find_node t m key (hfun t key) = Some p" by blast
    have has: "has_key (heq t) key (hmap_entries (t, m))" using p unfolding e has_key_nodes by blast
    let ?m = "if 0 < lsize (mval t) then m\<lparr>evl := (evl m)(p := the val)\<rparr> else m"
    have "p \<in> places m" using d(10) p(1) by blast
    then have run: "tda_hmap_insert t key val m h = Some (TDA_STATUS_OK, Some False, (t, ?m), h)"
      using as val kh p(3,4) by (auto simp: tda_hmap_insert_def set_evl_def)
    have at': "hmap_at ?m t ch" using d(10) by (intro hmap_at_agree [OF at]) (auto simp del: set_concat)
    have ok': "store_ok ?m" using ok by (simp add: store_ok_def)
    have ent: "image_mset (entry_at (mval t) ?m) (mset (concat ch)) = put_entry (heq t) key (val_given t val) (hmap_entries (t, m))"
    proof (cases "0 < lsize (mval t)")
      case True
      then show ?thesis using put_entry_nodes [OF at p(1,2) True] e(1) by simp
    next
      case False
      then have "image_mset (\<lambda>e. if heq t (fst e) key then (fst e, None) else e) (hmap_entries (t, m)) = hmap_entries (t, m)"
        unfolding e image_mset.compositionality by (intro image_mset_cong) (simp add: entry_at_def)
      then show ?thesis using False has e(1) by (simp add: put_entry_def)
    qed
    have "eothers ?m (set (concat ch)) = hmap_rest (t, m)"
      unfolding e using p(1) by (auto simp: eothers_def fun_eq_iff simp del: set_concat)
    then have v: "hmap_view (t, ?m) = (hmap_view (t, m))\<lparr>hval := (put_entry (heq t) key (val_given t val) (hmap_entries (t, m)), hmap_rest (t, m))\<rparr>"
      unfolding hmap_at_view [OF at' ok'] hmap_at_view [OF at ok] ent by simp
    show ?thesis using run has does_edits [OF grows_refl [OF held] v] by blast
  next
    assume no: "(\<forall>p \<in> set (concat ch). \<not> heq t (ekey m p) key) \<and> hmap_find_node t m key (hfun t key) = Some 0"
    have v: "0 < lsize (mval t) \<longrightarrow> val \<noteq> None" using val by auto
    obtain st p t' m' h' where r: "add_node t key val (hfun t key) m h = Some (st, p, (t', m'), h')" "ASSERT_HMAP t' = Some ()"
      "call_does hmap_view h (t, m) (Some (st, (t', m'), h')) (one_fits t)
        (add_mset (key, val_given t val) (hmap_entries (t, m)), hmap_rest (t, m))"
      using hmap_add_ok [OF at ok own conjunct1 [OF no] v] by (elim exE conjE)
    have has: "\<not> has_key (heq t) key (hmap_entries (t, m))" using no unfolding e has_key_nodes by blast
    have "tda_hmap_insert t key val m h = Some (st, if st = TDA_STATUS_OK then Some True else None, (t', m'), h')"
      using as val kh no r(1,2) by (auto simp: tda_hmap_insert_def status_is_err_iff)
    then show ?thesis using r(3) has by (simp add: put_entry_def)
  qed
qed

lemma hmap_get_or_insert_ok:
  assumes held: "held_by hmap_view h (t, m)" and val: "val \<noteq> None \<or> lsize (mval t) = 0"
  shows "\<exists>st p t' m' h'. tda_hmap_get_or_insert t key val m h = Some (st, p, (t', m'), h') \<and>
    call_does hmap_view h (t, m) (Some (st, (t', m'), h')) (one_fits t)
      (if has_key (heq t) key (hmap_entries (t, m)) then hmap_entries (t, m)
       else add_mset (key, val_given t val) (hmap_entries (t, m)), hmap_rest (t, m)) \<and>
    (if st = TDA_STATUS_OK then p \<noteq> 0 \<and> heq t (ekey m' p) key \<and> entry_at (mval t) m' p \<in># hmap_entries (t', m')
     else p = 0)"
proof -
  obtain ch where at: "hmap_at m t ch" and ok: "store_ok m" and own: "hmap_blocks t \<subseteq># lives h (mal t)" and as: "ASSERT_HMAP t = Some ()"
    and e: "hmap_entries (t, m) = image_mset (entry_at (mval t) m) (mset (concat ch))" "hmap_rest (t, m) = eothers m (set (concat ch))"
    using held by (rule held_hmapE)
  note d = hmap_atD [OF at] and kh = key_hash_at [OF at]
  from hmap_find_ok [OF at ok, of key] show ?thesis
  proof
    assume "\<exists>p \<in> set (concat ch). heq t (ekey m p) key \<and> p \<noteq> 0 \<and> hmap_find_node t m key (hfun t key) = Some p"
    then obtain p where p: "p \<in> set (concat ch)" "heq t (ekey m p) key" "p \<noteq> 0" "hmap_find_node t m key (hfun t key) = Some p" by blast
    have has: "has_key (heq t) key (hmap_entries (t, m))" using p unfolding e has_key_nodes by blast
    have run: "tda_hmap_get_or_insert t key val m h = Some (TDA_STATUS_OK, p, (t, m), h)"
      using as val kh p(3,4) by (auto simp: tda_hmap_get_or_insert_def)
    have "call_does hmap_view h (t, m) (Some (TDA_STATUS_OK, (t, m), h)) (one_fits t) (hmap_entries (t, m), hmap_rest (t, m))"
      using grows_refl [OF held] hmap_at_view [OF at ok] e by (simp add: call_does_def)
    then show ?thesis using run has p(1-3) by (auto simp: e(1))
  next
    assume no: "(\<forall>p \<in> set (concat ch). \<not> heq t (ekey m p) key) \<and> hmap_find_node t m key (hfun t key) = Some 0"
    have v: "0 < lsize (mval t) \<longrightarrow> val \<noteq> None" using val by auto
    obtain st p t' m' h' where r: "add_node t key val (hfun t key) m h = Some (st, p, (t', m'), h')" "ASSERT_HMAP t' = Some ()"
      "call_does hmap_view h (t, m) (Some (st, (t', m'), h')) (one_fits t)
        (add_mset (key, val_given t val) (hmap_entries (t, m)), hmap_rest (t, m))"
      "st = TDA_STATUS_OK \<longrightarrow> p \<noteq> 0 \<and> p \<notin> places m \<and> entry_at (mval t) m' p = (key, val_given t val)" "st \<noteq> TDA_STATUS_OK \<longrightarrow> p = 0"
      using hmap_add_ok [OF at ok own conjunct1 [OF no] v] by (elim exE conjE)
    have has: "\<not> has_key (heq t) key (hmap_entries (t, m))" using no unfolding e has_key_nodes by blast
    have run: "tda_hmap_get_or_insert t key val m h = Some (st, p, (t', m'), h')"
      using as val kh no r(1,2) by (auto simp: tda_hmap_get_or_insert_def)
    have "heq t key key" using hasher.eq_refl [OF d(11)] .
    moreover have "hval (hmap_view (t', m')) = (hmap_entries (t', m'), hmap_rest (t', m'))" by (simp add: hmap_view_def)
    ultimately show ?thesis using run r(3-5) has by (auto simp: call_does_def entry_at_def)
  qed
qed

section \<open>Taking out\<close>

lemma requests_fewer_nodes:
  assumes "requests h (mal t) {#mnode t#} {#} True h'" "hmap_blocks t \<subseteq># lives h (mal t)" "mcount t' = mcount t" "mnode t' = mnode t"
    "mlen t = Suc (mlen t')"
  shows "requests h (mal t) (hmap_blocks t) (hmap_blocks t') True h'"
proof -
  have "hmap_blocks t - {#mnode t#} = hmap_blocks t'" using assms(3-5) by (simp add: hmap_blocks_def)
  moreover have "{#mnode t#} \<subseteq># hmap_blocks t" using assms(5) by (simp add: hmap_blocks_def)
  ultimately show ?thesis using requests_less [OF assms(1) _ assms(2)] by simp
qed

text \<open>The node behind a link goes; the link is good for what comes after it.\<close>

lemma remove_at_ok:
  assumes at: "hmap_at m t ch" and ok: "store_ok m" and own: "hmap_blocks t \<subseteq># lives h (mal t)"
    and i: "i < length ch" and c: "ch ! i = as @ p # cs"
  shows "\<exists>t' m' h'. remove_at t (link_at i as) m h = Some ((t', m'), h') \<and> hmap_at m' t' (ch[i := as @ cs]) \<and> store_ok m' \<and>
    hmap_kind t' = hmap_kind t \<and> mal t' = mal t \<and> mcount t' = mcount t \<and>
    requests h (mal t) (hmap_blocks t) (hmap_blocks t') True h' \<and> ekey m' = ekey m \<and> evl m' = evl m \<and>
    eothers m' (set (concat (ch[i := as @ cs]))) = eothers m (set (concat ch)) \<and>
    mset (concat ch) = add_mset p (mset (concat (ch[i := as @ cs])))"
proof -
  note d = hmap_atD [OF at]
  let ?ch = "ch[i := as @ cs]"
  define m1 where "m1 = (if as = [] then m else m\<lparr>enx := (enx m)(last as := enx m p)\<rparr>)"
  define bs where "bs = (if as = [] then (mbuckets t)[i := enx m p] else mbuckets t)"
  note cut = table_cut [OF d(2) i c, folded m1_def bs_def]
  have m1: "places m1 = places m" "ehash m1 = ehash m" "ekey m1 = ekey m" "evl m1 = evl m" "pick m1 = pick m"
    "q \<noteq> last as \<or> as = [] \<Longrightarrow> enx m1 q = enx m q" for q
    by (auto simp: m1_def)
  have ms: "mset (concat ch) = add_mset p (mset (concat ?ch))" using cut(2) by simp
  have sets: "set (concat ch) = insert p (set (concat ?ch))" using arg_cong [OF ms, of set_mset] by simp
  have "distinct (p # concat ?ch)" using distinct_mset_cong [of "p # concat ?ch" "concat ch"] ms d(9) by simp
  then have notin: "p \<notin> set (concat ?ch)" by simp
  have p: "p \<in> places m" using d(10) sets by blast
  have nz: "p \<noteq> 0" using p ok unfolding store_ok_def by metis
  have len: "mlen t = Suc (length (concat ?ch))" using arg_cong [OF ms, of size] d(6) by simp
  let ?m = "m1\<lparr>places := places m1 - {p}\<rparr>" and ?t = "t\<lparr>mbuckets := bs, mlen := wsub (mlen t) 1\<rparr>"
  have "mlen t \<le> SIZE_MAX" using d(7,17) by (simp add: BUCKET_type)
  then have wl: "wsub (mlen t) 1 = length (concat ?ch)" using len by (simp add: wsub_small)
  have get: "link_get t m (link_at i as) = Some p" using link_get_at [OF d(2) i c] by simp
  have nx: "enx_of m p = Some (enx m p)" using p by (simp add: enx_of_def)
  have set: "link_set t m (link_at i as) (enx m p) = Some (t\<lparr>mbuckets := bs\<rparr>, m1)"
  proof (cases as rule: rev_cases)
    case Nil
    then show ?thesis using i d(3,8) by (simp add: link_set_def bucket_set_def bs_def m1_def)
  next
    case (snoc as' a)
    have "a \<in> places m" using tableD(3,6) [OF d(2)] i c snoc by fastforce
    then show ?thesis using snoc by (simp add: link_set_def set_enx_def bs_def m1_def)
  qed
  have kind: "hmap_kind_ok t" using d(1) .
  have "mnode t \<in># lives h (mal t)"
    using own len by (auto simp: hmap_blocks_def dest: mset_subset_eqD)
  from node_free_spec [OF _ hmap_node_size [OF kind] d(12) this] p m1(1)
  obtain h' where f: "node_free (mal t) (mnode t) p m1 h = Some (?m, h')" "requests h (mal t) {#mnode t#} {#} True h'" by metis
  have run: "remove_at t (link_at i as) m h = Some ((?t, ?m), h')"
    using get nz nx set f(1) by (simp add: remove_at_def hmap_dealloc_node_def)
  have tb: "table ?m bs ?ch"
    using table_agree [OF cut(1), of ?m] tableD(3) [OF cut(1)] notin by (auto simp del: set_concat)
  have wp: "well_placed ?m (mcount t) ?ch"
    using d(4) i c m1(2) by (auto simp: well_placed_def nth_list_update)
  have old: "q \<in> set (concat ?ch) \<Longrightarrow> q \<in> set (concat ch)" for q using sets by blast
  have at': "hmap_at ?m ?t ?ch"
    unfolding hmap_at_def
  proof (intro conjI ballI impI)
    fix q assume q: "q \<in> set (concat ?ch)"
    show "ehash ?m q = hfun ?t (ekey ?m q)" using d(15) [OF old [OF q]] m1(2,3) by simp
    fix q' assume "q' \<in> set (concat ?ch)" "q \<noteq> q'"
    then show "\<not> heq ?t (ekey ?m q) (ekey ?m q')" using d(16) [OF old [OF q] old] m1(3) by auto
  qed (use kind tb wp d(3,5,7,17) wl len in \<open>simp_all add: hmap_kind_ok_def\<close>)
  have "requests h (mal t) (hmap_blocks t) (hmap_blocks ?t) True h'"
    using requests_fewer_nodes [OF f(2) own, of ?t] len wl by simp
  moreover have "eothers ?m (set (concat ?ch)) = eothers m (set (concat ch))"
  proof -
    have "set as \<subseteq> set (concat ch)" using tableD(6) [OF d(2) i] c by auto
    then have "as = [] \<or> last as \<in> set (concat ch)" using last_in_set [of as] by blast
    then have "enx m1 q = enx m q" if "q \<notin> set (concat ch)" for q using that m1(6) by metis
    then show ?thesis using m1(1-4) unfolding sets by (auto simp: eothers_def fun_eq_iff simp del: set_concat)
  qed
  moreover have "store_ok ?m" using ok m1(1,5) by (auto simp: store_ok_def)
  ultimately show ?thesis using run at' m1(3,4) ms by (auto simp: hmap_kind_def)
qed

lemma hmap_drops:
  assumes at: "hmap_at m t ch" "store_ok m" and to: "hmap_at m' t' ch'" "store_ok m'" "hmap_kind t' = hmap_kind t" "mal t' = mal t"
    and req: "requests h (mal t) (hmap_blocks t) (hmap_blocks t') True h'"
    and val: "image_mset (entry_at (mval t) m') (mset (concat ch')) = x" "eothers m' (set (concat ch')) = eothers m (set (concat ch))"
  shows "call_drops hmap_view h (t, m) (Some ((t', m'), h')) (x, hmap_rest (t, m))"
proof -
  have "mval t' = mval t" using to(3) by (simp add: hmap_kind_def)
  then show ?thesis using assms hmap_at_chains [OF at] by (simp add: call_drops_def hmap_at_view hmap_rest_def)
qed

text \<open>What is left when a node goes is every entry whose key is another.\<close>

lemma cut_key_nodes:
  assumes at: "hmap_at m t ch" and p: "p \<in> set (concat ch)" "heq t (ekey m p) key" and ms: "mset (concat ch) = add_mset p (mset ps)"
  shows "image_mset (entry_at V m) (mset ps) = cut_key (heq t) key (image_mset (entry_at V m) (mset (concat ch)))"
proof -
  note d = hmap_atD [OF at] and h = hasher.eq_trans [OF hmap_atD(11) [OF at]] hasher.eq_sym [OF hmap_atD(11) [OF at]]
  have "distinct (p # ps)" using distinct_mset_cong [of "p # ps" "concat ch"] ms d(9) by simp
  moreover have "set (concat ch) = insert p (set ps)" using arg_cong [OF ms, of set_mset] by simp
  moreover have "heq t (ekey m q) key \<longleftrightarrow> q = p" if "q \<in> set (concat ch)" for q
    using d(16) [OF that p(1)] p(2) h by blast
  ultimately have "\<forall>q \<in> set ps. \<not> heq t (ekey m q) key" by auto
  then have "filter_mset (\<lambda>q. \<not> heq t (ekey m q) key) (mset ps) = mset ps" by (auto simp: filter_mset_eq_conv)
  then show ?thesis using ms p(2) by (simp add: cut_key_def filter_mset_image_mset entry_at_def)
qed

lemma cut_key_none: "\<not> has_key eq key E \<Longrightarrow> cut_key eq key E = E"
  by (auto simp: cut_key_def has_key_def filter_mset_eq_conv)

lemma hmap_take_ok:
  assumes held: "held_by hmap_view h (t, m)"
  shows "\<exists>r c h'. tda_hmap_take t key m h = Some (r, c, h') \<and>
    tda_hmap_remove t key m h = Some (has_key (heq t) key (hmap_entries (t, m)), c, h') \<and>
    call_drops hmap_view h (t, m) (Some (c, h')) (cut_key (heq t) key (hmap_entries (t, m)), hmap_rest (t, m)) \<and>
    (case r of None \<Rightarrow> \<not> has_key (heq t) key (hmap_entries (t, m))
     | Some (k, x) \<Rightarrow> heq t k key \<and> (k, if 0 < lsize (mval t) then x else None) \<in># hmap_entries (t, m))"
proof -
  obtain ch where at: "hmap_at m t ch" and ok: "store_ok m" and own: "hmap_blocks t \<subseteq># lives h (mal t)" and ass: "ASSERT_HMAP t = Some ()"
    and e: "hmap_entries (t, m) = image_mset (entry_at (mval t) m) (mset (concat ch))" "hmap_rest (t, m) = eothers m (set (concat ch))"
    using held by (rule held_hmapE)
  note d = hmap_atD [OF at] and kh = key_hash_at [OF at]
  have z: "0 \<notin> places m" using ok by (simp add: store_ok_def)
  show ?thesis
  proof (cases "has_key (heq t) key (hmap_entries (t, m))")
    case True
    then obtain p where p: "p \<in> set (concat ch)" "heq t (ekey m p) key" unfolding e has_key_nodes by blast
    obtain i as cs where c: "bucket_of t (hfun t key) = Some i" "i < length ch" "ch ! i = as @ p # cs"
      "ehash m p = hfun t key" "\<forall>q \<in> set (as @ cs). \<not> heq t (ekey m q) key"
      using in_its_chain [OF at p] .
    let ?P = "\<lambda>q. \<not> (ehash m q = hfun t key \<and> heq t (ekey m q) key)"
    have "takeWhile ?P (ch ! i) = as" using c(3-5) p(2) by (simp add: takeWhile_append)
    then have link: "find_link t m key (hfun t key) = Some (link_at i as)"
      using find_link_loop_ok [OF d(2) c(2) z d(13), of "[]" "ch ! i" key "hfun t key"] c(1) by (simp add: find_link_def)
    have get: "link_get t m (link_at i as) = Some p" using link_get_at [OF d(2) c(2,3)] by simp
    note pm = hmap_node_in [OF at ok p(1)]
    obtain t' m' h' where r: "remove_at t (link_at i as) m h = Some ((t', m'), h')" "hmap_at m' t' (ch[i := as @ cs])" "store_ok m'"
      "hmap_kind t' = hmap_kind t" "mal t' = mal t" "requests h (mal t) (hmap_blocks t) (hmap_blocks t') True h'"
      "ekey m' = ekey m" "evl m' = evl m" "eothers m' (set (concat (ch[i := as @ cs]))) = eothers m (set (concat ch))"
      "mset (concat ch) = add_mset p (mset (concat (ch[i := as @ cs])))"
      using remove_at_ok [OF at ok own c(2,3)] by (elim exE conjE)
    have nz: "mcount t \<noteq> 0" using c(2) d(3) by simp
    have run: "tda_hmap_take t key m h = Some (Some (ekey m p, evl m p), (t', m'), h')"
      using ass nz kh link get pm r(1) hmap_assert [OF r(2)]
      by (simp add: tda_hmap_take_def hmap_node_key_def hmap_node_val_def)
    have "entry_at (mval t) m' = entry_at (mval t) m" using r(7,8) by (simp add: entry_at_def fun_eq_iff)
    then have "call_drops hmap_view h (t, m) (Some ((t', m'), h')) (cut_key (heq t) key (hmap_entries (t, m)), hmap_rest (t, m))"
      using hmap_drops [OF at ok r(2-6) _ r(9)] cut_key_nodes [OF at p r(10), of "mval t"] e(1) by simp
    moreover have "(ekey m p, if 0 < lsize (mval t) then evl m p else None) \<in># hmap_entries (t, m)"
      using p(1) unfolding e by (auto simp: entry_at_def image_iff simp del: set_concat mset_concat)
    ultimately show ?thesis using run True p(2) ass hmap_assert [OF r(2)] by (simp add: tda_hmap_remove_def)
  next
    case False
    then have none: "\<forall>p \<in> set (concat ch). \<not> heq t (ekey m p) key" unfolding e has_key_nodes by blast
    have run: "tda_hmap_take t key m h = Some (None, (t, m), h)"
    proof (cases "mcount t = 0")
      case True
      then show ?thesis using ass by (simp add: tda_hmap_take_def)
    next
      case some: False
      then have "count_ok (mcount t)" using d(5) by simp
      then obtain i where i: "bucket_in (hfun t key) (mcount t) = Some i" "i < mcount t" by (rule bucket_in_ok)
      then have b: "bucket_of t (hfun t key) = Some i" "i < length ch" using some d(3) by (simp_all add: bucket_of_def)
      let ?P = "\<lambda>q. ehash m q = hfun t key \<longrightarrow> \<not> heq t (ekey m q) key"
      have "takeWhile ?P (ch ! i) = ch ! i" using none tableD(6) [OF d(2) b(2)] by (simp add: takeWhile_eq_all_conv) blast
      then have "find_link t m key (hfun t key) = Some (link_at i (ch ! i))"
        using find_link_loop_ok [OF d(2) b(2) z d(13), of "[]" "ch ! i" key "hfun t key"] b(1)
        by (simp add: find_link_def del: takeWhile_eq_all_conv)
      moreover have "link_get t m (link_at i (ch ! i)) = Some 0" using link_get_at [OF d(2) b(2), of "ch ! i" "[]"] by simp
      ultimately show ?thesis using ass some kh by (simp add: tda_hmap_take_def)
    qed
    have "call_drops hmap_view h (t, m) (Some ((t, m), h)) (hmap_entries (t, m), hmap_rest (t, m))"
      using hmap_drops [OF at ok at ok refl refl requests_refl [OF own] refl refl] unfolding e .
    then show ?thesis using run False ass cut_key_none [OF False] by (simp add: tda_hmap_remove_def)
  qed
qed

lemma hmap_remove_node_ok:
  assumes held: "held_by hmap_view h (t, m)" and p: "p \<in> set (concat (hmap_chains (t, m)))"
  shows "call_drops hmap_view h (t, m) (tda_hmap_remove_node t p m h)
    (hmap_entries (t, m) - {#entry_at (mval t) m p#}, hmap_rest (t, m))"
proof -
  obtain ch where at: "hmap_at m t ch" and ok: "store_ok m" and own: "hmap_blocks t \<subseteq># lives h (mal t)" and ass: "ASSERT_HMAP t = Some ()"
    and e: "hmap_entries (t, m) = image_mset (entry_at (mval t) m) (mset (concat ch))" "hmap_rest (t, m) = eothers m (set (concat ch))"
    using held by (rule held_hmapE)
  note d = hmap_atD [OF at]
  have z: "0 \<notin> places m" using ok by (simp add: store_ok_def)
  have pc: "p \<in> set (concat ch)" using p hmap_at_chains [OF at ok] by simp
  then obtain i where i: "i < length ch" "p \<in> set (ch ! i)" by (rule in_concat_nth)
  then obtain as cs where c: "ch ! i = as @ p # cs" by (metis split_list)
  have "p \<notin> set as" using distinct_nth_chain [OF d(9) i(1)] c by simp
  then have link: "link_to_loop t m p (link_at i []) = Some (link_at i ([] @ as))"
    by (intro link_to_loop_ok [OF d(2) i(1) z, of "[]" as p cs]) (simp_all add: c)
  have b: "bucket_of t (ehash m p) = Some i" using d(3,4) i by (auto simp: well_placed_def bucket_of_def)
  note pm = hmap_node_in [OF at ok pc]
  have get: "link_get t m (link_at i as) = Some p" using link_get_at [OF d(2) i(1) c] by simp
  obtain t' m' h' where r: "remove_at t (link_at i as) m h = Some ((t', m'), h')" "hmap_at m' t' (ch[i := as @ cs])" "store_ok m'"
    "hmap_kind t' = hmap_kind t" "mal t' = mal t" "requests h (mal t) (hmap_blocks t) (hmap_blocks t') True h'"
    "ekey m' = ekey m" "evl m' = evl m" "eothers m' (set (concat (ch[i := as @ cs]))) = eothers m (set (concat ch))"
    "mset (concat ch) = add_mset p (mset (concat (ch[i := as @ cs])))"
    using remove_at_ok [OF at ok own i(1) c] by (elim exE conjE)
  have "0 < mlen t" using d(6) arg_cong [OF r(10), of size] by simp
  then have run: "tda_hmap_remove_node t p m h = Some ((t', m'), h')"
    using ass pm b link get r(1) hmap_assert [OF r(2)] by (simp add: tda_hmap_remove_node_def ehash_of_def)
  have "entry_at (mval t) m' = entry_at (mval t) m" using r(7,8) by (simp add: entry_at_def fun_eq_iff)
  then have "image_mset (entry_at (mval t) m') (mset (concat (ch[i := as @ cs]))) = hmap_entries (t, m) - {#entry_at (mval t) m p#}"
    unfolding e r(10) by simp
  then show ?thesis unfolding run using hmap_drops [OF at ok r(2-6) _ r(9)] by blast
qed

text \<open>
  The walk of \<open>retain\<close>. The predicate may read the memory: it is to give the same answer as long as
  the other nodes of the memory are as they were.
\<close>

definition map_left :: "('k, 'v) entries \<Rightarrow> 'k hmap \<Rightarrow> nat list list \<Rightarrow> heap \<Rightarrow> ('k, 'v) entries \<Rightarrow> 'k hmap \<Rightarrow> nat list list \<Rightarrow> heap \<Rightarrow> bool" where
  "map_left m t ch h m' t' ch' h' \<longleftrightarrow> hmap_at m' t' ch' \<and> store_ok m' \<and> hmap_kind t' = hmap_kind t \<and> mal t' = mal t \<and> mcount t' = mcount t \<and>
     requests h (mal t) (hmap_blocks t) (hmap_blocks t') True h' \<and> ekey m' = ekey m \<and> evl m' = evl m \<and>
     eothers m' (set (concat ch')) = eothers m (set (concat ch))"

lemma map_left_trans: "map_left m t ch h m1 t1 ch1 h1 \<Longrightarrow> map_left m1 t1 ch1 h1 m2 t2 ch2 h2 \<Longrightarrow> map_left m t ch h m2 t2 ch2 h2"
  by (auto simp: map_left_def intro: requests_trans)

definition steady :: "(('k, 'v) entries \<Rightarrow> 'k \<Rightarrow> 'v option \<Rightarrow> bool option) \<Rightarrow> ('k, 'v) entries \<Rightarrow> nat set \<Rightarrow> (nat \<Rightarrow> bool) \<Rightarrow> bool" where
  "steady pred m S Q \<longleftrightarrow> (\<forall>m' S'. store_ok m' \<and> eothers m' S' = eothers m S \<longrightarrow> (\<forall>p \<in> S. pred m' (ekey m p) (evl m p) = Some (Q p)))"

lemma steady_left:
  assumes "steady pred m (set (concat ch)) Q" "map_left m t ch h m' t' ch' h'" "set (concat ch') \<subseteq> set (concat ch)"
  shows "steady pred m' (set (concat ch')) Q"
proof -
  have "ekey m' = ekey m" "evl m' = evl m" "eothers m' (set (concat ch')) = eothers m (set (concat ch))"
    using assms(2) unfolding map_left_def by blast+
  then show ?thesis using assms(1,3) unfolding steady_def by (metis subsetD)
qed

lemma retain_chain_ok:
  "hmap_at m t ch \<Longrightarrow> store_ok m \<Longrightarrow> hmap_blocks t \<subseteq># lives h (mal t) \<Longrightarrow> i < length ch \<Longrightarrow> ch ! i = as @ cs \<Longrightarrow>
   steady pred m (set (concat ch)) Q \<Longrightarrow>
   \<exists>t' m' h'. retain_chain pred t (link_at i as) m h = Some ((t', m'), h') \<and> map_left m t ch h m' t' (ch[i := as @ filter Q cs]) h'"
proof (induction cs arbitrary: as t m h ch)
  case Nil
  have "link_get t m (link_at i as) = Some 0" using link_get_at [OF hmap_atD(2) [OF Nil(1)] Nil(4), of as "[]"] Nil(5) by simp
  then have "retain_chain pred t (link_at i as) m h = Some ((t, m), h)" by (subst retain_chain.simps) simp
  moreover have "ch[i := as @ filter Q []] = ch" using Nil(5) by (metis append_Nil2 filter.simps(1) list_update_id)
  ultimately show ?case using Nil(1-3) by (auto simp: map_left_def requests_refl simp del: set_concat)
next
  case (Cons p cs)
  note d = hmap_atD [OF Cons.prems(1)]
  have get: "link_get t m (link_at i as) = Some p" using link_get_at [OF d(2) Cons.prems(4,5)] by simp
  have pc: "p \<in> set (concat ch)" using tableD(6) [OF d(2) Cons.prems(4)] Cons.prems(5) by auto
  note pm = hmap_node_in [OF Cons.prems(1,2) pc]
  have pr: "pred m (ekey m p) (evl m p) = Some (Q p)" using Cons.prems(2,6) pc unfolding steady_def by blast
  have step: "retain_chain pred t (link_at i as) m h = (if Q p then retain_chain pred t (Next p) m h
      else do { ((self, m), h) \<leftarrow> remove_at t (link_at i as) m h; retain_chain pred self (link_at i as) m h })"
    using get pm pr by (subst retain_chain.simps) (simp add: hmap_node_key_def hmap_node_val_def)
  show ?case
  proof (cases "Q p")
    case True
    have "ch ! i = (as @ [p]) @ cs" using Cons.prems(5) by simp
    from Cons.IH [OF Cons.prems(1-4) this Cons.prems(6)] show ?thesis using True step by simp
  next
    case False
    obtain t1 m1 h1 where r: "remove_at t (link_at i as) m h = Some ((t1, m1), h1)" "hmap_at m1 t1 (ch[i := as @ cs])" "store_ok m1"
      "hmap_kind t1 = hmap_kind t" "mal t1 = mal t" "mcount t1 = mcount t" "requests h (mal t) (hmap_blocks t) (hmap_blocks t1) True h1"
      "ekey m1 = ekey m" "evl m1 = evl m" "eothers m1 (set (concat (ch[i := as @ cs]))) = eothers m (set (concat ch))"
      "mset (concat ch) = add_mset p (mset (concat (ch[i := as @ cs])))"
      using remove_at_ok [OF Cons.prems(1-5)] by (elim exE conjE)
    have left: "map_left m t ch h m1 t1 (ch[i := as @ cs]) h1" using r unfolding map_left_def by blast
    have "set (concat (ch[i := as @ cs])) \<subseteq> set (concat ch)" using arg_cong [OF r(11), of set_mset] by auto
    note st = steady_left [OF Cons.prems(6) left this]
    have own: "hmap_blocks t1 \<subseteq># lives h1 (mal t1)" using requests_lives [OF r(7)] r(5) by simp
    have i: "i < length (ch[i := as @ cs])" "(ch[i := as @ cs]) ! i = as @ cs" using Cons.prems(4) by simp_all
    obtain t2 m2 h2 where "retain_chain pred t1 (link_at i as) m1 h1 = Some ((t2, m2), h2)"
      "map_left m1 t1 (ch[i := as @ cs]) h1 m2 t2 ((ch[i := as @ cs])[i := as @ filter Q cs]) h2"
      using Cons.IH [OF r(2,3) own i st] by blast
    then show ?thesis using step r(1) False map_left_trans [OF left] by auto
  qed
qed

lemma map_retain_loop_ok:
  "hmap_at m t ch \<Longrightarrow> store_ok m \<Longrightarrow> hmap_blocks t \<subseteq># lives h (mal t) \<Longrightarrow> i + n = length ch \<Longrightarrow>
   steady pred m (set (concat ch)) Q \<Longrightarrow>
   \<exists>t' m' h'. retain_loop n pred t i m h = Some ((t', m'), h') \<and> map_left m t ch h m' t' (take i ch @ map (filter Q) (drop i ch)) h'"
proof (induction n arbitrary: i t m h ch)
  case 0
  then show ?case by (auto simp: map_left_def requests_refl simp del: set_concat)
next
  case (Suc n)
  have i: "i < length ch" "ch ! i = [] @ ch ! i" using Suc.prems(4) by simp_all
  let ?ch = "ch[i := filter Q (ch ! i)]"
  obtain t1 m1 h1 where r: "retain_chain pred t (Slot i) m h = Some ((t1, m1), h1)" "map_left m t ch h m1 t1 ?ch h1"
    using retain_chain_ok [OF Suc.prems(1-3) i Suc.prems(5)] by auto
  then have a1: "hmap_at m1 t1 ?ch" "store_ok m1" "hmap_blocks t1 \<subseteq># lives h1 (mal t1)"
    unfolding map_left_def by (auto dest: requests_lives)
  have "set (concat ?ch) \<subseteq> set (concat ch)"
    using arg_cong [OF concat_nth [OF i(1)], of set] unfolding concat_update [OF i(1)] by (auto simp del: set_concat)
  note st = steady_left [OF Suc.prems(5) r(2) this]
  have n: "i + 1 + n = length ?ch" using Suc.prems(4) by simp
  obtain t2 m2 h2 where q: "retain_loop n pred t1 (i + 1) m1 h1 = Some ((t2, m2), h2)"
    "map_left m1 t1 ?ch h1 m2 t2 (take (i + 1) ?ch @ map (filter Q) (drop (i + 1) ?ch)) h2"
    using Suc.IH [OF a1 n st] by blast
  have "take (i + 1) ?ch @ map (filter Q) (drop (i + 1) ?ch) = take i ch @ map (filter Q) (drop i ch)"
    using i(1) by (simp add: take_Suc_conv_app_nth flip: Cons_nth_drop_Suc)
  then show ?case using r(1) q map_left_trans [OF r(2)] by auto
qed

lemma hmap_retain_ok:
  assumes held: "held_by hmap_view h (t, m)"
    and pred: "\<forall>m' S k x. store_ok m' \<and> eothers m' S = hmap_rest (t, m) \<longrightarrow> pred m' k x = Some (P (k, if 0 < lsize (mval t) then x else None))"
  shows "call_drops hmap_view h (t, m) (tda_hmap_retain pred t m h) (filter_mset P (hmap_entries (t, m)), hmap_rest (t, m))"
proof -
  obtain ch where at: "hmap_at m t ch" and ok: "store_ok m" and own: "hmap_blocks t \<subseteq># lives h (mal t)" and ass: "ASSERT_HMAP t = Some ()"
    and e: "hmap_entries (t, m) = image_mset (entry_at (mval t) m) (mset (concat ch))" "hmap_rest (t, m) = eothers m (set (concat ch))"
    using held by (rule held_hmapE)
  let ?Q = "\<lambda>p. P (entry_at (mval t) m p)"
  have st: "steady pred m (set (concat ch)) ?Q" using pred unfolding e steady_def by (simp add: entry_at_def)
  have n: "0 + mcount t = length ch" using hmap_atD(3) [OF at] by simp
  obtain t' m' h' where r: "retain_loop (mcount t) pred t 0 m h = Some ((t', m'), h')" "map_left m t ch h m' t' (map (filter ?Q) ch) h'"
    using map_retain_loop_ok [OF at ok own n st] by auto
  note l = r(2) [unfolded map_left_def]
  have run: "tda_hmap_retain pred t m h = Some ((t', m'), h')"
    using ass r(1) hmap_assert [of m' t'] l by (auto simp: tda_hmap_retain_def)
  have "entry_at (mval t) m' = entry_at (mval t) m" using l by (simp add: entry_at_def fun_eq_iff)
  then have "image_mset (entry_at (mval t) m') (mset (concat (map (filter ?Q) ch))) = filter_mset P (hmap_entries (t, m))"
    unfolding e by (simp add: filter_mset_image_mset flip: filter_concat mset_concat)
  then show ?thesis unfolding run using hmap_drops [OF at ok, of m' t' "map (filter ?Q) ch" h h'] l by blast
qed

section \<open>Giving everything back\<close>

lemma replicate_more: "replicate_mset (a + b) x = replicate_mset a x + replicate_mset b x"
  by (induction a) auto

lemma free_chain_ok:
  assumes k: "hmap_kind_ok t"
  shows "links (enx m) ps 0 \<Longrightarrow> distinct ps \<Longrightarrow> set ps \<subseteq> places m \<Longrightarrow> 0 \<notin> places m \<Longrightarrow>
    replicate_mset (length ps) (mnode t) \<subseteq># lives h (mal t) \<Longrightarrow>
    \<exists>h'. free_chain t (hd (ps @ [0])) m h = Some (m\<lparr>places := places m - set ps\<rparr>, h') \<and>
      requests h (mal t) (replicate_mset (length ps) (mnode t)) {#} True h'"
proof (induction ps arbitrary: m h)
  case Nil
  then show ?case by (subst free_chain.simps) (auto intro!: exI [of _ h] requests_refl [of "{#}", simplified])
next
  case (Cons p ps)
  have p: "p \<in> places m" "enx m p = hd (ps @ [0])" using Cons.prems by auto
  have nz: "p \<noteq> 0" using p(1) Cons.prems(4) by metis
  have in_h: "mnode t \<in># lives h (mal t)" using Cons.prems(5) by (auto dest: mset_subset_eqD)
  have al: "mal t \<noteq> 0" using k by (simp add: hmap_kind_ok_def)
  obtain h1 where f: "node_free (mal t) (mnode t) p m h = Some (m\<lparr>places := places m - {p}\<rparr>, h1)"
    "requests h (mal t) {#mnode t#} {#} True h1"
    using node_free_spec [OF p(1) hmap_node_size [OF k] al in_h] by blast
  let ?m = "m\<lparr>places := places m - {p}\<rparr>"
  have ps: "links (enx ?m) ps 0" "distinct ps" "set ps \<subseteq> places ?m" "0 \<notin> places ?m" using Cons.prems by auto
  have "replicate_mset (length ps) (mnode t) \<subseteq># lives h (mal t) - {#mnode t#}"
    using Cons.prems(5) by (simp add: insert_subset_eq_iff)
  then have own: "replicate_mset (length ps) (mnode t) \<subseteq># lives h1 (mal t)" using f(2) by (simp add: requests_def)
  obtain h2 where g: "free_chain t (hd (ps @ [0])) ?m h1 = Some (?m\<lparr>places := places ?m - set ps\<rparr>, h2)"
    "requests h1 (mal t) (replicate_mset (length ps) (mnode t)) {#} True h2"
    using Cons.IH [OF ps own] by blast
  have "places m - {p} - set ps = places m - set (p # ps)" by auto
  then have e: "?m\<lparr>places := places ?m - set ps\<rparr> = m\<lparr>places := places m - set (p # ps)\<rparr>" by simp
  have "free_chain t p m h = Some (m\<lparr>places := places m - set (p # ps)\<rparr>, h2)"
    using p nz f(1) g(1) e by (subst free_chain.simps) (simp add: enx_of_def hmap_dealloc_node_def)
  moreover have "requests h (mal t) (replicate_mset (length (p # ps)) (mnode t)) {#} True h2"
    using f(2) g(2) by (auto simp: requests_def)
  ultimately show ?case by auto
qed

lemma free_loop_ok:
  assumes k: "hmap_kind_ok t" and n: "length ch = mcount t" "length (mbuckets t) = mcount t"
    and b: "\<And>i. i < length ch \<Longrightarrow> mbuckets t ! i = hd (ch ! i @ [0])"
  shows "i \<le> length ch \<Longrightarrow> (\<forall>j < length ch. links (enx m) (ch ! j) 0) \<Longrightarrow> distinct (concat (drop i ch)) \<Longrightarrow>
    set (concat (drop i ch)) \<subseteq> places m \<Longrightarrow> 0 \<notin> places m \<Longrightarrow>
    replicate_mset (length (concat (drop i ch))) (mnode t) \<subseteq># lives h (mal t) \<Longrightarrow>
    \<exists>h'. free_loop t i m h = Some (m\<lparr>places := places m - set (concat (drop i ch))\<rparr>, h') \<and>
      requests h (mal t) (replicate_mset (length (concat (drop i ch))) (mnode t)) {#} True h'"
proof (induction "length ch - i" arbitrary: i m h)
  case 0
  then have "drop i ch = []" "\<not> i < mcount t" using n by simp_all
  then show ?case by (subst free_loop.simps) (auto intro!: exI [of _ h] requests_refl [of "{#}", simplified])
next
  case (Suc k)
  then have i: "i < length ch" by simp
  have dr: "concat (drop i ch) = ch ! i @ concat (drop (i + 1) ch)" using i by (simp flip: Cons_nth_drop_Suc)
  let ?r = "replicate_mset (length (concat (drop (i + 1) ch))) (mnode t)"
  have pre: "links (enx m) (ch ! i) 0" "distinct (ch ! i)" "set (ch ! i) \<subseteq> places m"
    using Suc.prems(2-4) i unfolding dr by auto
  have all: "replicate_mset (length (ch ! i)) (mnode t) + ?r \<subseteq># lives h (mal t)"
    using Suc.prems(6) unfolding dr by (simp add: replicate_more)
  have own: "replicate_mset (length (ch ! i)) (mnode t) \<subseteq># lives h (mal t)"
    using subset_mset.order_trans [OF mset_subset_eq_add_left all] .
  obtain h1 where f: "free_chain t (hd (ch ! i @ [0])) m h = Some (m\<lparr>places := places m - set (ch ! i)\<rparr>, h1)"
    "requests h (mal t) (replicate_mset (length (ch ! i)) (mnode t)) {#} True h1"
    using free_chain_ok [OF \<open>hmap_kind_ok t\<close> pre Suc.prems(5) own] by blast
  let ?m = "m\<lparr>places := places m - set (ch ! i)\<rparr>"
  have "?r \<subseteq># lives h (mal t) - replicate_mset (length (ch ! i)) (mnode t)"
    using all by (metis add_diff_cancel_left' subset_mset.le_iff_add add.assoc mset_subset_eq_add_left)
  then have own1: "?r \<subseteq># lives h1 (mal t)" using f(2) by (simp add: requests_def)
  have k: "k = length ch - (i + 1)" "i + 1 \<le> length ch" using Suc.hyps(2) i by simp_all
  have rest: "\<forall>j < length ch. links (enx ?m) (ch ! j) 0" "distinct (concat (drop (i + 1) ch))"
    "set (concat (drop (i + 1) ch)) \<subseteq> places ?m" "0 \<notin> places ?m"
    using Suc.prems(2-5) unfolding dr by (auto simp del: set_concat)
  obtain h2 where g: "free_loop t (i + 1) ?m h1 = Some (?m\<lparr>places := places ?m - set (concat (drop (i + 1) ch))\<rparr>, h2)"
    "requests h1 (mal t) ?r {#} True h2"
    using Suc.hyps(1) [OF k rest own1] by blast
  have e: "?m\<lparr>places := places ?m - set (concat (drop (i + 1) ch))\<rparr> = m\<lparr>places := places m - set (concat (drop i ch))\<rparr>"
    unfolding dr by (simp add: Diff_eq Int_assoc del: set_concat)
  have "bucket_get (mbuckets t) i = Some (hd (ch ! i @ [0]))" using b [OF i] i n by (simp add: bucket_get_def)
  then have "free_loop t i m h = Some (m\<lparr>places := places m - set (concat (drop i ch))\<rparr>, h2)"
    using i n f(1) g(1) e by (subst free_loop.simps) simp
  moreover have "requests h (mal t) (replicate_mset (length (concat (drop i ch))) (mnode t)) {#} True h2"
    using f(2) g(2) unfolding dr by (auto simp: requests_def replicate_more)
  ultimately show ?case by blast
qed

lemma free_nodes_ok:
  assumes at: "hmap_at m t ch" and ok: "store_ok m" and own: "hmap_blocks t \<subseteq># lives h (mal t)"
  shows "\<exists>h'. free_nodes t m h = Some (m\<lparr>places := places m - set (concat ch)\<rparr>, h') \<and>
    requests h (mal t) (hmap_blocks t) (held BUCKET (mcount t)) True h'"
proof -
  note d = hmap_atD [OF at] and tb = tableD [OF hmap_atD(2) [OF at]]
  have z: "0 \<notin> places m" using ok by (simp add: store_ok_def)
  have sub: "replicate_mset (mlen t) (mnode t) \<subseteq># hmap_blocks t" by (simp add: hmap_blocks_def)
  obtain h' where f: "free_loop t 0 m h = Some (m\<lparr>places := places m - set (concat (drop 0 ch))\<rparr>, h')"
    "requests h (mal t) (replicate_mset (length (concat (drop 0 ch))) (mnode t)) {#} True h'"
    using free_loop_ok [OF d(1,3,8) tb(4) le0 _ _ _ z, of h] tb(2,3,5) subset_mset.order_trans [OF sub own] d(6) by auto
  have "requests h (mal t) (replicate_mset (mlen t) (mnode t)) {#} True h'" using f(2) d(6) by simp
  from requests_less [OF this sub own] show ?thesis using f(1) by (simp add: free_nodes_def hmap_blocks_def)
qed

lemma hmap_empty_at:
  assumes "hmap_kind_ok t" "mcount t = 0 \<or> count_ok (mcount t)" "lsize BUCKET * mcount t \<le> SIZE_MAX"
    and "mbuckets t = replicate (mcount t) 0" "mlen t = 0"
  shows "hmap_at m t (replicate (mcount t) [])"
  using assms by (simp add: hmap_at_def table_def well_placed_def list_all2_conv_all_nth)

lemma eothers_freed: "eothers (m\<lparr>places := places m - S\<rparr>) {} = eothers m S"
  by (auto simp: eothers_def fun_eq_iff)

lemma store_freed: "store_ok m \<Longrightarrow> store_ok (m\<lparr>places := places m - S\<rparr>)"
  by (auto simp: store_ok_def)

lemma hmap_clear_ok:
  assumes held: "held_by hmap_view h (t, m)"
  shows "call_drops hmap_view h (t, m) (tda_hmap_clear t m h) ({#}, hmap_rest (t, m))"
proof -
  obtain ch where at: "hmap_at m t ch" and ok: "store_ok m" and own: "hmap_blocks t \<subseteq># lives h (mal t)" and ass: "ASSERT_HMAP t = Some ()"
    and e: "hmap_rest (t, m) = eothers m (set (concat ch))"
    using held by (rule held_hmapE)
  note d = hmap_atD [OF at]
  let ?t = "t\<lparr>mbuckets := replicate (mcount t) 0, mlen := 0\<rparr>" and ?m = "m\<lparr>places := places m - set (concat ch)\<rparr>"
  obtain h' where f: "free_nodes t m h = Some (?m, h')" "requests h (mal t) (hmap_blocks t) (held BUCKET (mcount t)) True h'"
    using free_nodes_ok [OF at ok own] by blast
  have k: "hmap_kind_ok ?t" using d(1) by (simp add: hmap_kind_ok_def)
  have at': "hmap_at ?m ?t (replicate (mcount t) [])" using hmap_empty_at [OF k] d(5,17) by simp
  have run: "tda_hmap_clear t m h = Some ((?t, ?m), h')"
    using ass f(1) hmap_assert [OF at'] by (simp add: tda_hmap_clear_def Let_def)
  have "requests h (mal t) (hmap_blocks t) (hmap_blocks ?t) True h'" using f(2) by (simp add: hmap_blocks_def)
  then show ?thesis
    unfolding run using hmap_drops [OF at ok at' store_freed [OF ok], of h h' "{#}"] by (simp add: hmap_kind_def eothers_freed)
qed

lemma release_buckets_ok:
  assumes at: "hmap_at m t ch" and ok: "store_ok m" and own: "hmap_blocks t \<subseteq># lives h (mal t)"
  shows "\<exists>h'. release_buckets t m h = Some ((forget_buckets t, m\<lparr>places := places m - set (concat ch)\<rparr>), h') \<and>
    requests h (mal t) (hmap_blocks t) {#} True h'"
proof -
  note d = hmap_atD [OF at]
  let ?m = "m\<lparr>places := places m - set (concat ch)\<rparr>"
  obtain h1 where f: "free_nodes t m h = Some (?m, h1)" "requests h (mal t) (hmap_blocks t) (held BUCKET (mcount t)) True h1"
    using free_nodes_ok [OF at ok own] by blast
  obtain h2 where g: "al_dealloc (mal t) (mcount t \<noteq> 0) \<lparr>lsize = lsize BUCKET * mcount t, lalign = lalign BUCKET\<rparr> h1 = Some h2"
    "lives h2 = (lives h1)(mal t := lives h1 (mal t) - held BUCKET (mcount t))" "\<And>c. generous h1 c \<Longrightarrow> generous h2 c"
    using al_dealloc_held [OF d(12) BUCKET_type(1) requests_lives [OF f(2)]] by blast
  have "(mbuckets t \<noteq> []) = (mcount t \<noteq> 0)" using d(8) by (metis length_0_conv)
  then have "al_dealloc_n (mal t) (mbuckets t \<noteq> []) BUCKET (mcount t) h1 = Some h2"
    using g(1) d(17) BUCKET_type(1) by (simp add: al_dealloc_n_def ckd_array_type)
  moreover have "requests h1 (mal t) (held BUCKET (mcount t)) {#} True h2" using g(2,3) by (simp add: requests_def)
  ultimately show ?thesis using f(1) requests_trans [OF f(2)] by (auto simp: release_buckets_def)
qed

lemma forget_at: "hmap_kind_ok t \<Longrightarrow> hmap_at m (forget_buckets t) []"
  using hmap_empty_at [of "forget_buckets t" m] by (simp add: forget_buckets_def hmap_kind_ok_def)

lemma forget_fields:
  "hmap_kind (forget_buckets t) = hmap_kind t" "mal (forget_buckets t) = mal t" "hmap_blocks (forget_buckets t) = {#}"
  by (simp_all add: forget_buckets_def hmap_kind_def hmap_blocks_def)

lemma hmap_deinit_at:
  assumes "hmap_at m t ch" "store_ok m" "hmap_blocks t \<subseteq># lives h (mal t)"
  shows "\<exists>h'. tda_hmap_deinit t m h = Some ((hmap_null, m\<lparr>places := places m - set (concat ch)\<rparr>), h') \<and>
    requests h (mal t) (hmap_blocks t) {#} True h'"
  using release_buckets_ok [OF assms] hmap_assert [OF assms(1)] hmap_atD(12) [OF assms(1)]
  by (auto simp: tda_hmap_deinit_def)

lemma hmap_deinit_ok:
  assumes "held_by hmap_view h (t, m)"
  shows "call_ends hmap_view h (t, m) (tda_hmap_deinit t m h)"
proof -
  obtain ch where at: "hmap_at m t ch" "store_ok m" "hmap_blocks t \<subseteq># lives h (mal t)"
    using assms by (rule held_hmapE)
  then show ?thesis using hmap_deinit_at [OF at] by (auto simp: call_ends_def hmap_at_view)
qed

lemma buckets_for_some: "\<exists>r. buckets_for len = Some r \<and> (r \<noteq> 0 \<longrightarrow> count_ok r \<and> len \<le> r)"
  by (rule buckets_for_ok [of len]) auto

lemma hmap_shrink_ok:
  assumes held: "held_by hmap_view h (t, m)"
  shows "call_does hmap_view h (t, m) (tda_hmap_shrink_to_fit t m h) True (hval (hmap_view (t, m)))"
proof -
  obtain ch where at: "hmap_at m t ch" and ok: "store_ok m" and own: "hmap_blocks t \<subseteq># lives h (mal t)" and ass: "ASSERT_HMAP t = Some ()"
    using held by (rule held_hmapE)
  note d = hmap_atD [OF at]
  obtain want where w: "buckets_for (mlen t) = Some want" "want \<noteq> 0 \<longrightarrow> count_ok want \<and> mlen t \<le> want"
    using buckets_for_some [of "mlen t"] by blast
  consider (empty) "mlen t = 0" | (keep) "mlen t \<noteq> 0" "want = 0 \<or> want \<ge> mcount t" | (less) "mlen t \<noteq> 0" "want \<noteq> 0" "want < mcount t"
    by linarith
  then show ?thesis
  proof cases
    case empty
    then have none: "concat ch = []" using d(6) by (metis length_0_conv)
    obtain h' where r: "release_buckets t m h = Some ((forget_buckets t, m\<lparr>places := places m - set (concat ch)\<rparr>), h')"
      "requests h (mal t) (hmap_blocks t) {#} True h'"
      using release_buckets_ok [OF at ok own] by blast
    have at': "hmap_at m (forget_buckets t) []" using forget_at [OF d(1)] .
    have run: "tda_hmap_shrink_to_fit t m h = Some (TDA_STATUS_OK, (forget_buckets t, m), h')"
      using ass empty r(1) none hmap_assert [OF at'] by (simp add: tda_hmap_shrink_to_fit_def del: concat_eq_Nil_conv)
    have "requests h (mal t) (hmap_blocks t) (hmap_blocks (forget_buckets t)) True h'" using r(2) by (simp add: forget_fields)
    then have "call_grows hmap_view h (t, m) True TDA_STATUS_OK (forget_buckets t, m) h'"
      using hmap_grows [OF at ok at' ok forget_fields(1,2)] by blast
    then show ?thesis
      unfolding run using none by (simp add: call_does_def hmap_at_view [OF at ok] hmap_at_view [OF at' ok] del: concat_eq_Nil_conv set_concat mset_concat)
  next
    case keep
    then have run: "tda_hmap_shrink_to_fit t m h = Some (TDA_STATUS_OK, (t, m), h)"
      using ass w(1) by (simp add: tda_hmap_shrink_to_fit_def)
    show ?thesis unfolding run using grows_refl [OF held] by (simp add: call_does_def)
  next
    case less
    then have n: "count_ok want" "mlen t \<le> want" using w(2) by simp_all
    have fits: "8 * want \<le> SIZE_MAX" using less(3) d(17) by (simp add: BUCKET_type)
    obtain st t' m' h' where q: "rehash t want m h = Some (st, (t', m'), h')"
      and res: "if st = TDA_STATUS_OK
        then (\<exists>ch'. hmap_moved m t ch m' t' ch') \<and> mcount t' = want \<and> requests h (mal t) (hmap_blocks t) (hmap_blocks t') True h'
        else t' = t \<and> m' = m \<and> requests h (mal t) (hmap_blocks t) (hmap_blocks t) True h' \<and>
          \<not> (generous h (mal t) \<and> 8 * want \<le> SIZE_MAX)"
      using rehash_ok [OF at ok own n] by (elim exE conjE)
    obtain ch' where mv: "hmap_moved m t ch m' t' ch'" "requests h (mal t) (hmap_blocks t) (hmap_blocks t') True h'"
      "st \<noteq> TDA_STATUS_OK \<Longrightarrow> \<not> generous h (mal t)"
      using res hmap_moved_refl [OF at] fits by (cases "st = TDA_STATUS_OK") auto
    note dm = hmap_movedD [OF mv(1)]
    have run: "tda_hmap_shrink_to_fit t m h = Some (st, (t', m'), h')"
      using ass w(1) less q hmap_assert [OF dm(1)] by (simp add: tda_hmap_shrink_to_fit_def)
    have "call_grows hmap_view h (t, m) True st (t', m') h'"
      using hmap_grows [OF at ok dm(1) dm(6) [OF ok] dm(2,3) mv(2), of st True] dm(5) dm(11) [of "mval t"]
        dm(12) [of "set (concat ch)"] mv(3) by simp
    then show ?thesis unfolding run using hmap_moved_view [OF mv(1) at ok] by (simp add: call_does_def)
  qed
qed

end
