(* ===== verification/HMapMany.thy ===== *)
theory HMapMany
  imports HMapCalls
begin

text \<open>
  The calls of \<open>HMap\<close> that make a map, put many entries in, or are about two maps in one memory.
\<close>

section \<open>Putting many entries in\<close>

definition put_all :: "('k \<Rightarrow> 'k \<Rightarrow> bool) \<Rightarrow> ('k \<times> 'v) list \<Rightarrow> ('k \<times> 'v) multiset \<Rightarrow> ('k \<times> 'v) multiset" where
  "put_all eq kvs E = fold (\<lambda>(k, x). put_entry eq k x) kvs E"

lemma size_put_entry: "size (put_entry eq k x E) \<le> Suc (size E)"
  by (simp add: put_entry_def)

lemma held_hmap_size: "held_by hmap_view h (t, m) \<Longrightarrow> mlen t = size (hmap_entries (t, m))"
proof -
  assume "held_by hmap_view h (t, m)"
  then obtain ch where at: "hmap_at m t ch" "hmap_entries (t, m) = image_mset (entry_at (mval t) m) (mset (concat ch))"
    by (rule held_hmapE)
  then show ?thesis using hmap_atD(6) [OF at(1)] by (metis size_image_mset size_mset)
qed

lemma hmap_view_fields:
  "hgood (hmap_view c) = hmap_ok c" "hkind (hmap_view c) = hmap_kind (fst c)" "hal (hmap_view c) = mal (fst c)"
  "hblocks (hmap_view c) = hmap_blocks (fst c)" "hval (hmap_view c) = (hmap_entries c, hmap_rest c)"
  by (simp_all add: hmap_view_def)

lemma hmap_extend_loop_ok:
  "held_by hmap_view h (t, m) \<Longrightarrow> 0 < lsize (mval t) \<Longrightarrow>
   \<exists>st c h' n. hmap_extend_loop t kvs m h = Some (st, c, h') \<and> call_keeps hmap_view h (t, m) c h' \<and> n \<le> length kvs \<and>
     hval (hmap_view c) = (put_all (heq t) (take n kvs) (hmap_entries (t, m)), hmap_rest (t, m)) \<and>
     (if st = TDA_STATUS_OK then n = length kvs
      else \<not> (generous h (mal t) \<and> 16 * (size (hmap_entries (t, m)) + length kvs) \<le> SIZE_MAX))"
proof (induction kvs arbitrary: t m h)
  case Nil
  then show ?case using keeps_refl [OF Nil(1)] by (simp add: put_all_def hmap_view_fields)
next
  case (Cons kv kvs)
  obtain k x where kv: "kv = (k, x)" by (cases kv)
  let ?E = "hmap_entries (t, m)"
  obtain st new c h1 where r: "tda_hmap_insert t k (Some x) m h = Some (st, new, c, h1)"
    "call_does hmap_view h (t, m) (Some (st, c, h1)) (one_fits t) (put_entry (heq t) k (val_given t (Some x)) ?E, hmap_rest (t, m))"
    using hmap_insert_ok [OF Cons.prems(1), of "Some x"] by blast
  obtain t1 m1 where c: "c = (t1, m1)" by (cases c)
  have g: "call_grows hmap_view h (t, m) (one_fits t) st (t1, m1) h1"
    and v: "st = TDA_STATUS_OK \<longrightarrow> hval (hmap_view (t1, m1)) = (put_entry (heq t) k x ?E, hmap_rest (t, m))"
    using r(2) c Cons.prems(2) by (auto simp: call_does_def)
  note keeps = keeps_grows [OF g]
  have len: "mlen t = size ?E" using held_hmap_size [OF Cons.prems(1)] .
  show ?case
  proof (cases "st = TDA_STATUS_OK")
    case False
    then have run: "hmap_extend_loop t (kv # kvs) m h = Some (st, (t1, m1), h1)" using r(1) kv c by (simp add: status_is_err_iff)
    have "hval (hmap_view (t1, m1)) = (?E, hmap_rest (t, m))" "\<not> (generous h (mal t) \<and> one_fits t)"
      using g False by (auto simp: call_grows_def hmap_view_fields)
    then show ?thesis using run keeps False len by (intro exI [of _ st] exI [of _ "(t1, m1)"] exI [of _ h1] exI [of _ 0]) (auto simp: put_all_def)
  next
    case True
    have held1: "held_by hmap_view h1 (t1, m1)" by (rule grows_held [OF g])
    have k1: "mval t1 = mval t" "meq t1 = meq t" "mal t1 = mal t"
      using g by (auto simp: call_grows_def hmap_view_fields hmap_kind_def)
    have E1: "hmap_entries (t1, m1) = put_entry (heq t) k x ?E" "hmap_rest (t1, m1) = hmap_rest (t, m)"
      using v True by (simp_all add: hmap_view_fields)
    have "0 < lsize (mval t1)" using Cons.prems(2) k1 by simp
    then obtain st2 c2 h2 n where i: "hmap_extend_loop t1 kvs m1 h1 = Some (st2, c2, h2)" "call_keeps hmap_view h1 (t1, m1) c2 h2"
      "n \<le> length kvs" "hval (hmap_view c2) = (put_all (heq t1) (take n kvs) (hmap_entries (t1, m1)), hmap_rest (t1, m1))"
      "if st2 = TDA_STATUS_OK then n = length kvs
       else \<not> (generous h1 (mal t1) \<and> 16 * (size (hmap_entries (t1, m1)) + length kvs) \<le> SIZE_MAX)"
      using Cons.IH [OF held1] by blast
    have run: "hmap_extend_loop t (kv # kvs) m h = Some (st2, c2, h2)" using r(1) kv c True i(1) by (simp add: status_is_err_iff)
    have "hval (hmap_view c2) = (put_all (heq t) (take (Suc n) (kv # kvs)) ?E, hmap_rest (t, m))"
      using i(4) k1(2) E1 kv by (simp add: put_all_def)
    moreover have "generous h (mal t) \<Longrightarrow> generous h1 (mal t)" using g by (auto simp: call_grows_def dest: requests_generous)
    moreover have "size (hmap_entries (t1, m1)) + length kvs \<le> size ?E + length (kv # kvs)"
      using size_put_entry [of "heq t" k x ?E] E1(1) by simp
    ultimately show ?thesis
      using run keeps_trans [OF keeps i(2)] i(3,5) k1(3)
      by (intro exI [of _ st2] exI [of _ c2] exI [of _ h2] exI [of _ "Suc n"]) (auto split: if_splits)
  qed
qed

lemma hmap_extend_ok:
  assumes held: "held_by hmap_view h (t, m)" and "tda_layout_is_type (mval t)" "length ks = length xs"
  shows "\<exists>st c h' n. tda_hmap_extend t ks (mkey t) xs (mval t) m h = Some (st, c, h') \<and> call_keeps hmap_view h (t, m) c h' \<and>
     n \<le> length ks \<and> hval (hmap_view c) = (put_all (heq t) (take n (zip ks xs)) (hmap_entries (t, m)), hmap_rest (t, m)) \<and>
     (if st = TDA_STATUS_OK then n = length ks
      else \<not> (generous h (mal t) \<and> 16 * (size (hmap_entries (t, m)) + length ks) \<le> SIZE_MAX))"
proof -
  obtain ch where at: "hmap_at m t ch" and ass: "ASSERT_HMAP t = Some ()" using held by (rule held_hmapE)
  have key: "tda_layout_is_type (mkey t)" using hmap_atD(1) [OF at] by (simp add: hmap_kind_ok_def)
  have "0 < lsize (mval t)" using assms(2) by (rule is_type_size)
  then obtain st c h' n where r: "hmap_extend_loop t (zip ks xs) m h = Some (st, c, h')" "call_keeps hmap_view h (t, m) c h'"
     "n \<le> length (zip ks xs)" "hval (hmap_view c) = (put_all (heq t) (take n (zip ks xs)) (hmap_entries (t, m)), hmap_rest (t, m))"
     "if st = TDA_STATUS_OK then n = length (zip ks xs)
      else \<not> (generous h (mal t) \<and> 16 * (size (hmap_entries (t, m)) + length (zip ks xs)) \<le> SIZE_MAX)"
    using hmap_extend_loop_ok [OF held] by blast
  obtain t' m' where c: "c = (t', m')" by (cases c)
  have "ASSERT_HMAP t' = Some ()" using r(2) c hmap_assert by (auto simp: call_keeps_def hmap_view_fields hmap_ok_def)
  then have "tda_hmap_extend t ks (mkey t) xs (mval t) m h = Some (st, c, h')"
    using ass key assms(2,3) r(1) c by (simp add: tda_hmap_extend_def tda_layout_eq_def)
  then show ?thesis using r(2-5) assms(3) by (intro exI [of _ st] exI [of _ c] exI [of _ h'] exI [of _ n]) (auto split: if_splits)
qed

section \<open>Making a map\<close>

text \<open>
  A new map, on the nodes it makes itself: every other node of the memory is as it was. When it
  cannot be made, nothing is out that was not before.
\<close>

definition hmap_made ::
  "('k, 'v) entries \<Rightarrow> heap \<Rightarrow> al \<Rightarrow> layout \<Rightarrow> layout \<Rightarrow> ('k \<Rightarrow> 64 word) option \<Rightarrow> ('k \<Rightarrow> 'k \<Rightarrow> bool) option \<Rightarrow>
   (tda_status \<times> ('k, 'v) hobj \<times> heap) option \<Rightarrow> bool \<Rightarrow> ('k \<times> 'v option) multiset \<Rightarrow> bool" where
  "hmap_made m h al key val hf eq r fits E \<longleftrightarrow> (\<exists>st t' m' h'. r = Some (st, (t', m'), h') \<and> store_ok m' \<and>
     (if st = TDA_STATUS_OK
      then mkey t' = key \<and> mval t' = val \<and> mhasher t' = hf \<and> meq t' = eq \<and> mal t' = al \<and> hmap_ok (t', m') \<and>
        hval (hmap_view (t', m')) = (E, eothers m {}) \<and> requests h al {#} (hmap_blocks t') True h'
      else eothers m' {} = eothers m {} \<and> requests h al {#} {#} True h' \<and> \<not> (generous h al \<and> fits)))"

text \<open>What a map can be made of; the layout of a node must not overflow.\<close>

definition hmap_args_ok :: "layout \<Rightarrow> layout \<Rightarrow> ('k \<Rightarrow> 64 word) option \<Rightarrow> ('k \<Rightarrow> 'k \<Rightarrow> bool) option \<Rightarrow> al \<Rightarrow> bool" where
  "hmap_args_ok key val hf eq al \<longleftrightarrow> tda_layout_is_type key \<and>
     (tda_layout_is_type val \<or> (lsize val = 0 \<and> tda_layout_is_align (lalign val))) \<and> hf \<noteq> None \<and> eq \<noteq> None \<and>
     hasher (the eq) (the hf) \<and> al \<noteq> 0 \<and> (\<exists>r. hmap_layouts key val = Some (Some r))"

lemma kind_args: "hmap_kind_ok t \<Longrightarrow> al \<noteq> 0 \<Longrightarrow> hmap_args_ok (mkey t) (mval t) (mhasher t) (meq t) al"
  by (auto simp: hmap_kind_ok_def hmap_args_ok_def)

lemma hmap_at_ok: "hmap_at m t ch \<Longrightarrow> store_ok m \<Longrightarrow> hmap_ok (t, m)"
  using hmap_at_chains [of m t ch] by (simp add: hmap_ok_def)

lemma hmap_made_empty:
  assumes "hmap_at m t []" "store_ok m" "requests h (mal t) {#} (hmap_blocks t) True h'"
  shows "hmap_made m h (mal t) (mkey t) (mval t) (mhasher t) (meq t) (Some (TDA_STATUS_OK, (t, m), h')) fits {#}"
  using assms hmap_at_ok [OF assms(1,2)] hmap_at_view [OF assms(1,2)] by (simp add: hmap_made_def)

lemma hmap_init_raw_ok:
  assumes args: "hmap_args_ok key val hf eq al" and ok: "store_ok m"
  shows "hmap_made m h al key val hf eq (tda_hmap_init_raw cap key val hf eq al m h) (16 * cap \<le> SIZE_MAX) {#}"
proof -
  obtain node koff voff where l: "hmap_layouts key val = Some (Some (node, koff, voff))"
    using args by (auto simp: hmap_args_ok_def)
  let ?t = "\<lparr>mbuckets = [], mcount = 0, mlen = 0, mkey = key, mval = val, mkoff = koff, mvoff = voff,
       mnode = node, mhasher = hf, meq = eq, mal = al\<rparr>"
  have k: "hmap_kind_ok ?t" using args l by (simp add: hmap_kind_ok_def hmap_args_ok_def)
  have at: "hmap_at m ?t []" using hmap_empty_at [OF k] by simp
  have bl: "hmap_blocks ?t = {#}" by (simp add: hmap_blocks_def)
  have own: "hmap_blocks ?t \<subseteq># lives h (mal ?t)" using bl by simp
  have refl: "requests h al {#} {#} True h" by (rule requests_refl) simp
  have pre: "tda_hmap_init_raw cap key val hf eq al m h = do {
      (st, (obj, m), h) \<leftarrow> (if cap > 0 then tda_hmap_reserve ?t cap m h else Some (TDA_STATUS_OK, (?t, m), h));
      if status_is_err st then Some (st, (hmap_null, m), h)
      else do { ASSERT_HMAP obj; Some (TDA_STATUS_OK, (obj, m), h) } }"
    using args l by (auto simp: tda_hmap_init_raw_def hmap_args_ok_def Let_def)
  show ?thesis
  proof (cases "cap > 0")
    case False
    then have "tda_hmap_init_raw cap key val hf eq al m h = Some (TDA_STATUS_OK, (?t, m), h)"
      using pre hmap_assert [OF at] by (simp add: status_is_err_iff)
    then show ?thesis using hmap_made_empty [OF at ok] bl refl by simp
  next
    case True
    obtain st t1 m1 h1 ch1 where r: "reserve_buckets ?t cap m h = Some (st, (t1, m1), h1)" "hmap_moved m ?t [] m1 t1 ch1"
      "requests h (mal ?t) (hmap_blocks ?t) (hmap_blocks t1) True h1"
      "if st = TDA_STATUS_OK then cap \<le> mcount t1 else t1 = ?t \<and> m1 = m \<and> \<not> (generous h (mal ?t) \<and> 16 * cap \<le> SIZE_MAX)"
      using reserve_buckets_ok [OF at ok own, of cap] by (elim exE conjE)
    note mv = hmap_movedD [OF r(2)]
    have run: "tda_hmap_init_raw cap key val hf eq al m h = Some (st, (if st = TDA_STATUS_OK then t1 else hmap_null, m1), h1)"
      using pre True r(1) hmap_assert [OF at] hmap_assert [OF mv(1)] by (simp add: tda_hmap_reserve_def status_is_err_iff)
    have k1: "mkey t1 = key" "mval t1 = val" "mhasher t1 = hf" "meq t1 = eq" "mal t1 = al" using mv(2,3) by (simp_all add: hmap_kind_fields)
    have "eothers m1 {} = eothers m {}" using mv(12) [of "{}"] by simp
    moreover have "hmap_view (t1, m1) = (hmap_view (?t, m))\<lparr>hblocks := hmap_blocks t1\<rparr>" by (rule hmap_moved_view [OF r(2) at ok])
    ultimately show ?thesis
      unfolding run hmap_made_def
      using r(3,4) k1 bl refl mv(6) [OF ok] hmap_at_ok [OF mv(1)] hmap_at_view [OF at ok] by (auto split: if_splits)
  qed
qed

lemma hmap_init_ok:
  assumes args: "hmap_args_ok key val hf eq al" "tda_layout_is_type val" and ok: "store_ok m"
  shows "hmap_made m h al key val hf eq (tda_hmap_init_cap cap key val hf eq al m h) (16 * cap \<le> SIZE_MAX) {#}"
    "\<exists>c. tda_hmap_init key val hf eq al m h = Some (c, h) \<and> hmap_made m h al key val hf eq (Some (TDA_STATUS_OK, c, h)) True {#}"
proof -
  show "hmap_made m h al key val hf eq (tda_hmap_init_cap cap key val hf eq al m h) (16 * cap \<le> SIZE_MAX) {#}"
    using hmap_init_raw_ok [OF args(1) ok] args by (simp add: tda_hmap_init_cap_def hmap_args_ok_def)
  obtain node koff voff where l: "hmap_layouts key val = Some (Some (node, koff, voff))"
    using args by (auto simp: hmap_args_ok_def)
  let ?t = "\<lparr>mbuckets = [], mcount = 0, mlen = 0, mkey = key, mval = val, mkoff = koff, mvoff = voff,
       mnode = node, mhasher = hf, meq = eq, mal = al\<rparr>"
  have k: "hmap_kind_ok ?t" using args l by (simp add: hmap_kind_ok_def hmap_args_ok_def)
  have at: "hmap_at m ?t []" using hmap_empty_at [OF k] by simp
  have "tda_hmap_init key val hf eq al m h = Some ((?t, m), h)"
    using args l hmap_assert [OF at]
    by (auto simp: tda_hmap_init_def tda_hmap_init_raw_def hmap_args_ok_def Let_def status_is_ok_def status_is_err_iff)
  moreover have "requests h al {#} (hmap_blocks ?t) True h" using requests_refl [of "{#}" h al] by (simp add: hmap_blocks_def)
  ultimately show "\<exists>c. tda_hmap_init key val hf eq al m h = Some (c, h) \<and> hmap_made m h al key val hf eq (Some (TDA_STATUS_OK, c, h)) True {#}"
    using hmap_made_empty [OF at ok, of h h True] by auto
qed

text \<open>A map just made is held; and what has been made can be ended.\<close>

lemma made_held:
  assumes "hmap_made m h al key val hf eq (Some (TDA_STATUS_OK, (t', m'), h')) fits E"
  shows "held_by hmap_view h' (t', m')" "hmap_entries (t', m') = E" "hmap_rest (t', m') = eothers m {}"
    "mkey t' = key" "mval t' = val" "mhasher t' = hf" "meq t' = eq" "mal t' = al" "requests h al {#} (hmap_blocks t') True h'"
  using assms by (auto simp: hmap_made_def hmap_view_fields held_by_def dest: requests_lives)

lemma hmap_deinit_held:
  assumes held: "held_by hmap_view h (t, m)"
  shows "\<exists>m' h'. tda_hmap_deinit t m h = Some ((hmap_null, m'), h') \<and> store_ok m' \<and> eothers m' {} = hmap_rest (t, m) \<and>
    requests h (mal t) (hmap_blocks t) {#} True h'"
proof -
  obtain ch where at: "hmap_at m t ch" "store_ok m" "hmap_blocks t \<subseteq># lives h (mal t)" "hmap_rest (t, m) = eothers m (set (concat ch))"
    using held by (rule held_hmapE)
  show ?thesis using hmap_deinit_at [OF at(1-3)] at(4) store_freed [OF at(2)] by (auto simp: eothers_freed)
qed

lemma hmap_from_spans_ok:
  assumes args: "hmap_args_ok key val hf eq al" "tda_layout_is_type val" and ok: "store_ok m" and len: "length ks = length xs"
  shows "hmap_made m h al key val hf eq (tda_hmap_from_spans ks key xs val hf eq al m h) (16 * length ks \<le> SIZE_MAX)
    (put_all (the eq) (zip ks xs) {#})"
proof -
  have pre: "tda_hmap_from_spans ks key xs val hf eq al m h = do {
      (st, (obj, m), h) \<leftarrow> tda_hmap_init_cap (length ks) key val hf eq al m h;
      if status_is_err st then Some (st, (obj, m), h)
      else do {
        (st, (obj, m), h) \<leftarrow> tda_hmap_extend obj ks key xs val m h;
        if status_is_err st then do { ((obj, m), h) \<leftarrow> tda_hmap_deinit obj m h; Some (st, (obj, m), h) }
        else Some (TDA_STATUS_OK, (obj, m), h) } }"
    using args len by (auto simp: tda_hmap_from_spans_def hmap_args_ok_def)
  have made: "hmap_made m h al key val hf eq (tda_hmap_init_cap (length ks) key val hf eq al m h) (16 * length ks \<le> SIZE_MAX) {#}"
    using hmap_init_ok(1) [OF args ok] .
  then obtain st t1 m1 h1 where i: "tda_hmap_init_cap (length ks) key val hf eq al m h = Some (st, (t1, m1), h1)"
    by (auto simp: hmap_made_def)
  show ?thesis
  proof (cases "st = TDA_STATUS_OK")
    case False
    then have "tda_hmap_from_spans ks key xs val hf eq al m h = Some (st, (t1, m1), h1)" using pre i by (simp add: status_is_err_iff)
    then show ?thesis using made i False by (simp add: hmap_made_def)
  next
    case True
    note mh = made_held [OF made [unfolded i True]]
    have ty: "tda_layout_is_type (mval t1)" using args(2) mh(5) by simp
    obtain st2 c2 h2 n where x: "tda_hmap_extend t1 ks key xs val m1 h1 = Some (st2, c2, h2)"
      "call_keeps hmap_view h1 (t1, m1) c2 h2" "n \<le> length ks"
      "hval (hmap_view c2) = (put_all (the eq) (take n (zip ks xs)) {#}, eothers m {})"
      "if st2 = TDA_STATUS_OK then n = length ks else \<not> (generous h1 al \<and> 16 * length ks \<le> SIZE_MAX)"
      using hmap_extend_ok [OF mh(1) ty len] unfolding mh(2-8) size_empty add_0 by (elim exE conjE) (rule that)
    obtain t2 m2 where c2: "c2 = (t2, m2)" by (cases c2)
    note x = x [unfolded c2]
    have k2: "mkey t2 = key" "mval t2 = val" "mhasher t2 = hf" "meq t2 = eq" "mal t2 = al" and ok2: "hmap_ok (t2, m2)"
      and req: "requests h al {#} (hmap_blocks t2) True h2"
      using x(2) mh(4-9) by (auto simp: call_keeps_def hmap_view_fields hmap_kind_fields intro: requests_trans)
    have gen: "generous h al \<Longrightarrow> generous h1 al" using mh(9) by (rule requests_generous)
    show ?thesis
    proof (cases "st2 = TDA_STATUS_OK")
      case yes: True
      then have "take n (zip ks xs) = zip ks xs" using x(5) len by simp
      then have "hmap_made m h al key val hf eq (Some (TDA_STATUS_OK, (t2, m2), h2)) (16 * length ks \<le> SIZE_MAX) (put_all (the eq) (zip ks xs) {#})"
        using x(4) k2 ok2 req unfolding hmap_made_def by (simp add: hmap_ok_def)
      then show ?thesis using pre i True yes x(1) by (simp add: status_is_err_iff)
    next
      case no: False
      have held2: "held_by hmap_view h2 (t2, m2)" using ok2 req k2(5) by (auto simp: held_by_def hmap_view_fields dest: requests_lives)
      obtain m3 h3 where e: "tda_hmap_deinit t2 m2 h2 = Some ((hmap_null, m3), h3)" "store_ok m3" "eothers m3 {} = hmap_rest (t2, m2)"
        "requests h2 (mal t2) (hmap_blocks t2) {#} True h3"
        using hmap_deinit_held [OF held2] by blast
      have "requests h al {#} {#} True h3" using requests_trans [OF req] e(4) k2(5) by simp
      moreover have "eothers m3 {} = eothers m {}" using e(3) x(4) by (simp add: hmap_view_fields)
      moreover have "\<not> (generous h al \<and> 16 * length ks \<le> SIZE_MAX)" using x(5) no gen by auto
      ultimately have "hmap_made m h al key val hf eq (Some (st2, (hmap_null, m3), h3)) (16 * length ks \<le> SIZE_MAX) (put_all (the eq) (zip ks xs) {#})"
        using e(2) no by (simp add: hmap_made_def)
      then show ?thesis using pre i True no x(1) e(1) by (simp add: status_is_err_iff)
    qed
  qed
qed

section \<open>Copying\<close>

text \<open>A map is what it was as long as the memory outside some other nodes is.\<close>

lemma hmap_at_others:
  assumes "hmap_at m t ch" "set (concat ch) \<inter> S = {}" "eothers m' S' = eothers m S"
  shows "hmap_at m' t ch" "set (concat ch) \<inter> S' = {}" "p \<in> set (concat ch) \<Longrightarrow> entry_at V m' p = entry_at V m p"
    "p \<in> set (concat ch) \<Longrightarrow> ekey m' p = ekey m p \<and> evl m' p = evl m p \<and> ehash m' p = ehash m p \<and> p \<in> places m'"
proof -
  have q: "enx m' p = enx m p \<and> ehash m' p = ehash m p \<and> ekey m' p = ekey m p \<and> evl m' p = evl m p \<and> p \<in> places m' \<and> p \<notin> S'"
    if "p \<in> set (concat ch)" for p
  proof -
    have "eothers m S p = Some (enx m p, ehash m p, ekey m p, evl m p)"
      using that assms(2) hmap_atD(10) [OF assms(1)] by (auto simp: eothers_def simp del: set_concat)
    then have "eothers m' S' p = Some (enx m p, ehash m p, ekey m p, evl m p)" using assms(3) by simp
    then show ?thesis by (auto simp: eothers_def split: if_splits)
  qed
  show "hmap_at m' t ch" using hmap_at_agree [OF assms(1), of m'] q by blast
  show "set (concat ch) \<inter> S' = {}" using q by blast
  show "p \<in> set (concat ch) \<Longrightarrow> entry_at V m' p = entry_at V m p"
    "p \<in> set (concat ch) \<Longrightarrow> ekey m' p = ekey m p \<and> evl m' p = evl m p \<and> ehash m' p = ehash m p \<and> p \<in> places m'"
    using q by (simp_all add: entry_at_def del: set_concat)
qed

lemma hmap_copy_loop_ok:
  assumes src: "hmap_at m0 t ch" and kind: "hmap_args_ok (mkey t) (mval t) (mhasher t) (meq t) al"
  shows "concat ch = xs @ ys \<Longrightarrow> hmap_ok (o1, m) \<Longrightarrow> mkey o1 = mkey t \<Longrightarrow> mval o1 = mval t \<Longrightarrow> mhasher o1 = mhasher t \<Longrightarrow>
    meq o1 = meq t \<Longrightarrow> mal o1 = al \<Longrightarrow> hmap_rest (o1, m) = eothers m0 {} \<Longrightarrow>
    hmap_entries (o1, m) = image_mset (entry_at (mval t) m0) (mset xs) \<Longrightarrow> requests h0 al {#} (hmap_blocks o1) True h \<Longrightarrow>
    hmap_made m0 h0 al (mkey t) (mval t) (mhasher t) (meq t) (hmap_copy_loop t o1 (hd (ys @ [0])) m h) (16 * mlen t \<le> SIZE_MAX)
      (image_mset (entry_at (mval t) m0) (mset (concat ch)))"
proof (induction ys arbitrary: xs o1 m h)
  case Nil
  have "hmap_copy_loop t o1 0 m h = Some (TDA_STATUS_OK, (o1, m), h)" by (subst hmap_copy_loop.simps) simp
  moreover have "store_ok m" using Nil.prems(2) by (simp add: hmap_ok_def)
  ultimately show ?case using Nil.prems by (simp add: hmap_made_def hmap_view_fields)
next
  case (Cons p ys)
  note d0 = hmap_atD [OF src]
  have p: "p \<in> set (concat ch)" using Cons.prems(1) by simp
  have ok: "store_ok m" using Cons.prems(2) by (simp add: hmap_ok_def)
  have own: "hmap_blocks o1 \<subseteq># lives h al" using requests_lives [OF Cons.prems(10)] .
  have held: "held_by hmap_view h (o1, m)" using Cons.prems(2,7) own by (simp add: held_by_def hmap_view_fields)
  then obtain ch1 where at1: "hmap_at m o1 ch1" and own1: "hmap_blocks o1 \<subseteq># lives h (mal o1)"
    and e1: "hmap_entries (o1, m) = image_mset (entry_at (mval o1) m) (mset (concat ch1))" "hmap_rest (o1, m) = eothers m (set (concat ch1))"
    by (rule held_hmapE)
  have same: "eothers m (set (concat ch1)) = eothers m0 {}" using e1(2) Cons.prems(8) by simp
  note now = hmap_at_others [OF src Int_empty_right same]
  note pn = hmap_node_in [OF now(1) ok p]
  have z: "0 \<notin> places m" using ok by (simp add: store_ok_def)
  note cell = now(4) [OF p]
  let ?val = "if lsize (mval t) > 0 then Some (evl m0 p) else None"
  have hf: "hfun o1 = hfun t" "heq o1 = heq t" using Cons.prems(5,6) by simp_all
  have hash: "ehash m p = hfun o1 (ekey m0 p)" using d0(15) [OF p] cell hf by simp
  have "\<not> has_key (heq t) (ekey m0 p) (hmap_entries (o1, m))"
  proof
    assume "has_key (heq t) (ekey m0 p) (hmap_entries (o1, m))"
    then obtain q where q: "q \<in> set xs" "heq t (ekey m0 q) (ekey m0 p)" unfolding Cons.prems(9) has_key_nodes by blast
    then have "q = p" using d0(16) [of q p] p Cons.prems(1) by simp
    then show False using q(1) d0(9) Cons.prems(1) by simp
  qed
  then have new: "\<forall>q \<in> set (concat ch1). \<not> heq o1 (ekey m q) (ekey m0 p)" unfolding e1 has_key_nodes hf by blast
  have val: "0 < lsize (mval o1) \<longrightarrow> ?val \<noteq> None" using Cons.prems(4) by simp
  obtain st q o2 m2 h2 where a: "add_node o1 (ekey m0 p) ?val (hfun o1 (ekey m0 p)) m h = Some (st, q, (o2, m2), h2)"
    "call_does hmap_view h (o1, m) (Some (st, (o2, m2), h2)) (one_fits o1)
      (add_mset (ekey m0 p, val_given o1 ?val) (hmap_entries (o1, m)), hmap_rest (o1, m))"
    using hmap_add_ok [OF at1 ok own1 new val] by (elim exE conjE)
  have g: "call_grows hmap_view h (o1, m) (one_fits o1) st (o2, m2) h2"
    and v: "st = TDA_STATUS_OK \<longrightarrow> hval (hmap_view (o2, m2)) = (add_mset (entry_at (mval t) m0 p) (hmap_entries (o1, m)), hmap_rest (o1, m))"
    using a(2) Cons.prems(4) by (auto simp: call_does_def entry_at_def)
  have k2: "hmap_ok (o2, m2)" "mkey o2 = mkey t" "mval o2 = mval t" "mhasher o2 = mhasher t" "meq o2 = meq t" "mal o2 = al"
    and req: "requests h al (hmap_blocks o1) (hmap_blocks o2) True h2"
    using g Cons.prems(3-7) by (auto simp: call_grows_def hmap_view_fields hmap_kind_fields)
  have req2: "requests h0 al {#} (hmap_blocks o2) True h2" using requests_trans [OF Cons.prems(10) req] .
  have step: "hmap_copy_loop t o1 p m h = (if status_is_err st then do { ((obj, m), h) \<leftarrow> tda_hmap_deinit o2 m2 h2; Some (st, (obj, m), h) }
      else do { node \<leftarrow> next_node t m2 p; hmap_copy_loop t o2 node m2 h2 })"
    using pn cell hash a(1)
    by (cases "0 < lsize (mval t)") (subst hmap_copy_loop.simps; simp add: hmap_node_val_def hmap_node_key_def ehash_of_def)+
  show ?case
  proof (cases "st = TDA_STATUS_OK")
    case False
    have held2: "held_by hmap_view h2 (o2, m2)" by (rule grows_held [OF g])
    obtain m3 h3 where e: "tda_hmap_deinit o2 m2 h2 = Some ((hmap_null, m3), h3)" "store_ok m3" "eothers m3 {} = hmap_rest (o2, m2)"
      "requests h2 (mal o2) (hmap_blocks o2) {#} True h3"
      using hmap_deinit_held [OF held2] by blast
    have "hmap_rest (o2, m2) = eothers m0 {}" and no: "\<not> (generous h al \<and> one_fits o1)"
      using g False Cons.prems(7,8) by (auto simp: call_grows_def hmap_view_fields)
    moreover have "requests h0 al {#} {#} True h3" using requests_trans [OF req2] e(4) k2(6) by simp
    moreover have "generous h0 al \<Longrightarrow> generous h al" using Cons.prems(10) by (rule requests_generous)
    moreover have "mlen o1 + 1 \<le> mlen t"
      using held_hmap_size [OF held] Cons.prems(1,9) d0(6) by simp
    then have "16 * mlen t \<le> SIZE_MAX \<Longrightarrow> one_fits o1" by simp
    ultimately show ?thesis using step e False by (auto simp: hmap_made_def status_is_err_iff)
  next
    case True
    have v2: "hmap_entries (o2, m2) = image_mset (entry_at (mval t) m0) (mset (xs @ [p]))" "hmap_rest (o2, m2) = eothers m0 {}"
      using v True Cons.prems(8,9) by (simp_all add: hmap_view_fields)
    have same2: "eothers m2 (set (concat (hmap_chains (o2, m2)))) = eothers m0 {}" using v2(2) by (simp add: hmap_rest_def)
    note now2 = hmap_at_others [OF src Int_empty_right same2]
    have z2: "0 \<notin> places m2" using k2(1) by (simp add: hmap_ok_def store_ok_def)
    note dn = hmap_atD [OF now2(1)]
    have nxt: "next_node t m2 p = Some (hd (ys @ [0]))"
      by (rule next_node_ok [OF dn(2,3) z2 dn(4) Cons.prems(1)])
    have c: "concat ch = (xs @ [p]) @ ys" using Cons.prems(1) by simp
    from Cons.IH [OF c k2 v2(2,1) req2] show ?thesis using step True nxt by (simp add: status_is_err_iff)
  qed
qed

lemma hmap_copy_ok:
  assumes held: "held_by hmap_view h (t, m)" and al: "al \<noteq> 0"
  shows "hmap_made m h al (mkey t) (mval t) (mhasher t) (meq t) (tda_hmap_copy_with t al m h) (16 * mlen t \<le> SIZE_MAX) (hmap_entries (t, m))"
proof -
  obtain ch where at: "hmap_at m t ch" and ok: "store_ok m" and ass: "ASSERT_HMAP t = Some ()"
    and e: "hmap_entries (t, m) = image_mset (entry_at (mval t) m) (mset (concat ch))"
    using held by (rule held_hmapE)
  note d = hmap_atD [OF at]
  note args = kind_args [OF d(1) al]
  have z: "0 \<notin> places m" using ok by (simp add: store_ok_def)
  have made: "hmap_made m h al (mkey t) (mval t) (mhasher t) (meq t)
    (tda_hmap_init_raw (mlen t) (mkey t) (mval t) (mhasher t) (meq t) al m h) (16 * mlen t \<le> SIZE_MAX) {#}"
    using hmap_init_raw_ok [OF args ok] .
  then obtain st o1 m1 h1 where i: "tda_hmap_init_raw (mlen t) (mkey t) (mval t) (mhasher t) (meq t) al m h = Some (st, (o1, m1), h1)"
    by (auto simp: hmap_made_def)
  have first: "first_from t 0 = Some (hd (concat ch @ [0]))" using first_from_ok [OF d(2,3) z, of 0] by simp
  show ?thesis
  proof (cases "st = TDA_STATUS_OK")
    case False
    then have "tda_hmap_copy_with t al m h = Some (st, (o1, m1), h1)" using ass al i by (simp add: tda_hmap_copy_with_def status_is_err_iff)
    then show ?thesis using made i False by (simp add: hmap_made_def)
  next
    case True
    note mh = made_held [OF made [unfolded i True]]
    have "hmap_ok (o1, m1)" using mh(1) by (simp add: held_by_def hmap_view_fields)
    from hmap_copy_loop_ok [OF at args append_Nil [symmetric] this mh(4-8) mh(3) _ mh(9)] mh(2)
    have "hmap_made m h al (mkey t) (mval t) (mhasher t) (meq t) (hmap_copy_loop t o1 (hd (concat ch @ [0])) m1 h1) (16 * mlen t \<le> SIZE_MAX)
        (hmap_entries (t, m))"
      unfolding e by simp
    moreover have "tda_hmap_copy_with t al m h = hmap_copy_loop t o1 (hd (concat ch @ [0])) m1 h1"
      using ass al i True first by (simp add: tda_hmap_copy_with_def status_is_err_iff)
    ultimately show ?thesis by simp
  qed
qed

section \<open>Two maps\<close>

definition hmap_set :: "('k, 'v) hobj \<Rightarrow> nat set" where
  "hmap_set c = set (concat (hmap_chains c))"

text \<open>Two maps of one shape in one memory, no node in both.\<close>

definition maps_at :: "('k, 'v) entries \<Rightarrow> heap \<Rightarrow> 'k hmap \<Rightarrow> 'k hmap \<Rightarrow> bool" where
  "maps_at m h a b \<longleftrightarrow> held_by hmap_view h (a, m) \<and> held_by hmap_view h (b, m) \<and> hmap_set (a, m) \<inter> hmap_set (b, m) = {} \<and>
     mkey b = mkey a \<and> mval b = mval a \<and> (mal b = mal a \<longrightarrow> hmap_blocks a + hmap_blocks b \<subseteq># lives h (mal a))"

lemma maps_same: "maps_at m h a b \<Longrightarrow> EXPECT_SAME_HMAP a b = Some ()"
  by (simp add: maps_at_def EXPECT_SAME_HMAP_def tda_layout_eq_def)

lemma eothers_more: "eothers m' S' = eothers m S \<Longrightarrow> eothers m' (S' \<union> T) = eothers m (S \<union> T)"
proof
  fix p assume "eothers m' S' = eothers m S"
  then have "eothers m' S' p = eothers m S p" by simp
  then show "eothers m' (S' \<union> T) p = eothers m (S \<union> T) p" by (auto simp: eothers_def split: if_splits)
qed

lemma kind_from_args:
  "hmap_kind_ok a \<Longrightarrow> hmap_kind_ok b \<Longrightarrow> mkey a = mkey b \<Longrightarrow> mval a = mval b \<Longrightarrow> mhasher a = mhasher b \<Longrightarrow> meq a = meq b \<Longrightarrow>
   hmap_kind a = hmap_kind b"
  by (simp add: hmap_kind_ok_def hmap_kind_def)

text \<open>A map that no one touched.\<close>

lemma hmap_untouched:
  assumes at: "hmap_at m t ch" "store_ok m" and m': "store_ok m'" "set (concat ch) \<inter> S = {}" "eothers m' S' = eothers m S"
  shows "hmap_at m' t ch" "hmap_entries (t, m') = hmap_entries (t, m)" "hmap_rest (t, m') = eothers m' (set (concat ch))"
proof -
  note now = hmap_at_others [OF at(1) m'(2,3)]
  show "hmap_at m' t ch" by (rule now(1))
  have "image_mset (entry_at (mval t) m') (mset (concat ch)) = image_mset (entry_at (mval t) m) (mset (concat ch))"
    using now(3) by (intro image_mset_cong) (simp del: set_concat mset_concat)
  then show "hmap_entries (t, m') = hmap_entries (t, m)"
    using hmap_at_chains [OF at] hmap_at_chains [OF now(1) m'(1)] by (simp add: hmap_entries_def)
  show "hmap_rest (t, m') = eothers m' (set (concat ch))" using hmap_at_chains [OF now(1) m'(1)] by (simp add: hmap_rest_def)
qed

lemma hmap_copy_assign_ok:
  assumes M: "maps_at m h a b"
  shows "\<exists>st c h'. tda_hmap_copy_assign False a b m h = Some (st, c, h') \<and> hgood (hmap_view c) \<and> hal (hmap_view c) = mal a \<and>
    requests h (mal a) (hmap_blocks a) (hblocks (hmap_view c)) True h' \<and>
    (if st = TDA_STATUS_OK then hkind (hmap_view c) = hmap_kind b \<and> hval (hmap_view c) = (hmap_entries (b, m), hmap_rest (a, m))
     else hkind (hmap_view c) = hmap_kind a \<and> hval (hmap_view c) = hval (hmap_view (a, m)) \<and>
       \<not> (generous h (mal a) \<and> 16 * mlen b \<le> SIZE_MAX))"
proof -
  have held: "held_by hmap_view h (a, m)" "held_by hmap_view h (b, m)" using M by (simp_all add: maps_at_def)
  obtain ch where at: "hmap_at m a ch" and ok: "store_ok m" and own: "hmap_blocks a \<subseteq># lives h (mal a)" and ass: "ASSERT_HMAP a = Some ()"
    and ra: "hmap_rest (a, m) = eothers m (set (concat ch))"
    using held(1) by (rule held_hmapE)
  obtain cb where bt: "hmap_at m b cb" and assb: "ASSERT_HMAP b = Some ()" using held(2) by (rule held_hmapE)
  note d = hmap_atD [OF at]
  have made: "hmap_made m h (mal a) (mkey b) (mval b) (mhasher b) (meq b) (tda_hmap_copy_with b (mal a) m h) (16 * mlen b \<le> SIZE_MAX)
      (hmap_entries (b, m))"
    using hmap_copy_ok [OF held(2) d(12)] .
  then obtain st c m1 h1 where i: "tda_hmap_copy_with b (mal a) m h = Some (st, (c, m1), h1)" by (auto simp: hmap_made_def)
  have pre: "tda_hmap_copy_assign False a b m h = (if status_is_err st then Some (st, (a, m1), h1)
      else do { ((_, m2), h2) \<leftarrow> tda_hmap_deinit a m1 h1; ASSERT_HMAP c; Some (TDA_STATUS_OK, (c, m2), h2) })"
    using ass assb maps_same [OF M] i by (simp add: tda_hmap_copy_assign_def Let_def)
  have ok1: "store_ok m1" using made i by (auto simp: hmap_made_def)
  show ?thesis
  proof (cases "st = TDA_STATUS_OK")
    case False
    have same: "eothers m1 {} = eothers m {}" "requests h (mal a) {#} {#} True h1" "\<not> (generous h (mal a) \<and> 16 * mlen b \<le> SIZE_MAX)"
      using made i False by (simp_all add: hmap_made_def)
    note un = hmap_untouched [OF at ok ok1 Int_empty_right same(1)]
    have "hmap_rest (a, m1) = hmap_rest (a, m)" using un(3) ra eothers_more [OF same(1), of "set (concat ch)"] by simp
    then have "hval (hmap_view (a, m1)) = hval (hmap_view (a, m))" using un(2) by (simp add: hmap_view_fields)
    moreover have "requests h (mal a) (hmap_blocks a) (hmap_blocks a) True h1"
      using requests_frame [OF same(2), of "hmap_blocks a"] own by simp
    ultimately show ?thesis
      using pre False same(3) hmap_at_ok [OF un(1) ok1] by (auto simp: hmap_view_fields status_is_err_iff)
  next
    case True
    note mh = made_held [OF made [unfolded i True]]
    obtain cc where ct: "hmap_at m1 c cc" and rc: "hmap_rest (c, m1) = eothers m1 (set (concat cc))" and assc: "ASSERT_HMAP c = Some ()"
      using mh(1) by (rule held_hmapE)
    have same: "eothers m1 (set (concat cc)) = eothers m {}" using rc mh(3) by simp
    note un = hmap_untouched [OF at ok ok1 Int_empty_right same]
    have apart: "set (concat ch) \<inter> set (concat cc) = {}" using hmap_at_others(2) [OF at Int_empty_right same] .
    have own1: "hmap_blocks a \<subseteq># lives h1 (mal a)" using mh(9) own by (simp add: requests_def subset_mset.add_increasing2)
    let ?m = "m1\<lparr>places := places m1 - set (concat ch)\<rparr>"
    obtain h2 where e: "tda_hmap_deinit a m1 h1 = Some ((hmap_null, ?m), h2)" "requests h1 (mal a) (hmap_blocks a) {#} True h2"
      using hmap_deinit_at [OF un(1) ok1 own1] by blast
    have okm: "store_ok ?m" by (rule store_freed [OF ok1])
    have free: "eothers ?m {} = eothers m1 (set (concat ch))" by (rule eothers_freed)
    have "set (concat cc) \<inter> set (concat ch) = {}" using apart by blast
    note uc = hmap_untouched [OF ct ok1 okm this free]
    have "hmap_rest (c, ?m) = hmap_rest (a, m)"
      using eothers_more [OF free, of "set (concat cc)"] eothers_more [OF same, of "set (concat ch)"] uc(3) ra
      by (simp add: Un_commute del: set_concat)
    then have "hval (hmap_view (c, ?m)) = (hmap_entries (b, m), hmap_rest (a, m))" using uc(2) mh(2) by (simp add: hmap_view_fields)
    moreover have "hmap_kind c = hmap_kind b"
      using kind_from_args [OF hmap_atD(1) [OF ct] hmap_atD(1) [OF bt]] mh(4-7) by simp
    moreover have "requests h (mal a) (hmap_blocks a) (hmap_blocks c) True h2" using requests_replace [OF mh(9) own e(2)] .
    moreover have "tda_hmap_copy_assign False a b m h = Some (TDA_STATUS_OK, (c, ?m), h2)" using pre True e(1) assc by (simp add: status_is_err_iff)
    ultimately show ?thesis using hmap_at_ok [OF uc(1) okm] mh(8) by (auto simp: hmap_view_fields)
  qed
qed

lemma hmap_move_assign_ok:
  assumes M: "maps_at m h a b"
  shows "\<exists>m' h'. tda_hmap_move_assign False a b m h = Some (b, forget_buckets b, m', h') \<and> hmap_ok (b, m') \<and>
    hmap_entries (b, m') = hmap_entries (b, m) \<and> hmap_rest (b, m') = eothers m (hmap_set (a, m) \<union> hmap_set (b, m)) \<and>
    hmap_ok (forget_buckets b, m') \<and> hmap_entries (forget_buckets b, m') = {#} \<and>
    requests h (mal a) (hmap_blocks a) {#} True h'"
proof -
  have held: "held_by hmap_view h (a, m)" "held_by hmap_view h (b, m)" using M by (simp_all add: maps_at_def)
  obtain ch where at: "hmap_at m a ch" and ok: "store_ok m" and own: "hmap_blocks a \<subseteq># lives h (mal a)" and ass: "ASSERT_HMAP a = Some ()"
    using held(1) by (rule held_hmapE)
  obtain cb where bt: "hmap_at m b cb" and assb: "ASSERT_HMAP b = Some ()" using held(2) by (rule held_hmapE)
  have sets: "hmap_set (a, m) = set (concat ch)" "hmap_set (b, m) = set (concat cb)"
    using hmap_at_chains [OF at ok] hmap_at_chains [OF bt ok] by (simp_all add: hmap_set_def)
  let ?m = "m\<lparr>places := places m - set (concat ch)\<rparr>"
  obtain h' where e: "tda_hmap_deinit a m h = Some ((hmap_null, ?m), h')" "requests h (mal a) (hmap_blocks a) {#} True h'"
    using hmap_deinit_at [OF at ok own] by blast
  have okm: "store_ok ?m" by (rule store_freed [OF ok])
  have "set (concat cb) \<inter> set (concat ch) = {}" using M sets unfolding maps_at_def by blast
  note ub = hmap_untouched [OF bt ok okm this eothers_freed]
  have fb: "hmap_at ?m (forget_buckets b) []" by (rule forget_at [OF hmap_atD(1) [OF bt]])
  have "tda_hmap_move_assign False a b m h = Some (b, forget_buckets b, ?m, h')"
    using ass assb maps_same [OF M] hmap_atD(12) [OF at] e(1) hmap_assert [OF fb]
    by (simp add: tda_hmap_move_assign_def Let_def)
  moreover have "eothers ?m ({} \<union> set (concat cb)) = eothers m (set (concat ch) \<union> set (concat cb))"
    by (rule eothers_more [OF eothers_freed])
  then have "hmap_rest (b, ?m) = eothers m (hmap_set (a, m) \<union> hmap_set (b, m))"
    using ub(3) unfolding sets by (simp del: set_concat)
  moreover have "hmap_entries (forget_buckets b, ?m) = {#}" using hmap_at_chains [OF fb okm] by (simp add: hmap_entries_def)
  ultimately show ?thesis using hmap_at_ok [OF ub(1) okm] hmap_at_ok [OF fb okm] ub(2) e(2) by blast
qed

lemma maps_assert: "maps_at m h a b \<Longrightarrow> ASSERT_HMAP a = Some () \<and> ASSERT_HMAP b = Some ()"
  unfolding maps_at_def by (meson held_hmapE)

lemma hmap_swap_ok: "maps_at m h a b \<Longrightarrow> tda_hmap_swap False a b = Some (b, a)"
  using maps_same [of m h a b] maps_assert [of m h a b] by (simp add: tda_hmap_swap_def)

text \<open>Whether every entry of \<open>E\<close> has one like it in \<open>F\<close>.\<close>

definition entries_in :: "('k \<Rightarrow> 'k \<Rightarrow> bool) \<Rightarrow> ('v \<Rightarrow> 'v \<Rightarrow> bool) \<Rightarrow> ('k \<times> 'v option) multiset \<Rightarrow> ('k \<times> 'v option) multiset \<Rightarrow> bool" where
  "entries_in eq veq E F \<longleftrightarrow> (\<forall>e \<in># E. \<exists>f \<in># F. eq (fst f) (fst e) \<and> veq (the (snd e)) (the (snd f)))"

lemma hmap_eq_chain_ok:
  assumes bt: "hmap_at m b cb" and ok: "store_ok m" and V: "0 < lsize V"
    and vb: "\<forall>q \<in> set (concat cb). evl m q \<noteq> None"
  shows "links (enx m) ps 0 \<Longrightarrow> set ps \<subseteq> places m \<Longrightarrow> (\<forall>p \<in> set ps. evl m p \<noteq> None) \<Longrightarrow>
    hmap_eq_chain veq b (hd (ps @ [0])) m =
      Some (entries_in (heq b) veq (image_mset (entry_at V m) (mset ps)) (image_mset (entry_at V m) (mset (concat cb))))"
proof (induction ps)
  case Nil
  show ?case by (subst hmap_eq_chain.simps) (simp add: entries_in_def)
next
  case (Cons p ps)
  note d = hmap_atD [OF bt] and h = hasher.eq_trans [OF hmap_atD(11) [OF bt]] hasher.eq_sym [OF hmap_atD(11) [OF bt]]
  let ?F = "image_mset (entry_at V m) (mset (concat cb))"
  have p: "p \<in> places m" "enx m p = hd (ps @ [0])" using Cons.prems by auto
  have nz: "p \<noteq> 0" using p(1) ok unfolding store_ok_def by metis
  obtain x where x: "evl m p = Some x" using Cons.prems(3) by auto
  have ih: "hmap_eq_chain veq b (hd (ps @ [0])) m = Some (entries_in (heq b) veq (image_mset (entry_at V m) (mset ps)) ?F)"
    using Cons by simp
  have split: "entries_in (heq b) veq (image_mset (entry_at V m) (mset (p # ps))) ?F \<longleftrightarrow>
      (\<exists>q \<in> set (concat cb). heq b (ekey m q) (ekey m p) \<and> veq x (the (evl m q))) \<and>
      entries_in (heq b) veq (image_mset (entry_at V m) (mset ps)) ?F"
    using V x by (simp add: entries_in_def entry_at_def del: set_concat mset_concat)
  from hmap_find_ok [OF bt ok, of "ekey m p"] show ?case
  proof
    assume "\<exists>q \<in> set (concat cb). heq b (ekey m q) (ekey m p) \<and> q \<noteq> 0 \<and> hmap_find_node b m (ekey m p) (hfun b (ekey m p)) = Some q"
    then obtain q where q: "q \<in> set (concat cb)" "heq b (ekey m q) (ekey m p)" "q \<noteq> 0"
      "hmap_find_node b m (ekey m p) (hfun b (ekey m p)) = Some q" by blast
    obtain y where y: "evl m q = Some y" using vb q(1) by auto
    have "r = q" if "r \<in> set (concat cb)" "heq b (ekey m r) (ekey m p)" for r
      using d(16) [OF that(1) q(1) h(1) [OF that(2) h(2) [OF q(2)]]] .
    then have "(\<exists>r \<in> set (concat cb). heq b (ekey m r) (ekey m p) \<and> veq x (the (evl m r))) \<longleftrightarrow> veq x y"
      using q(1,2) y by (metis option.sel)
    then have "entries_in (heq b) veq (image_mset (entry_at V m) (mset (p # ps))) ?F \<longleftrightarrow>
        veq x y \<and> entries_in (heq b) veq (image_mset (entry_at V m) (mset ps)) ?F"
      unfolding split by simp
    moreover have "q \<in> places m" using q(1) d(10) by blast
    then have "hmap_eq_chain veq b p m = (if veq x y then hmap_eq_chain veq b (hd (ps @ [0])) m else Some False)"
      using nz p x y q(3,4) key_hash_at [OF bt]
      by (subst hmap_eq_chain.simps) (simp add: hmap_node_key_def hmap_node_val_def enx_of_def)
    ultimately show ?thesis using ih by simp
  next
    assume no: "(\<forall>q \<in> set (concat cb). \<not> heq b (ekey m q) (ekey m p)) \<and> hmap_find_node b m (ekey m p) (hfun b (ekey m p)) = Some 0"
    then have "hmap_eq_chain veq b p m = Some False"
      using nz p x key_hash_at [OF bt] by (subst hmap_eq_chain.simps) (simp add: hmap_node_key_def)
    then show ?thesis using no unfolding split by (simp del: set_concat)
  qed
qed

lemma entries_in_more: "entries_in eq veq (E + E') F \<longleftrightarrow> entries_in eq veq E F \<and> entries_in eq veq E' F"
  by (auto simp: entries_in_def)

lemma hmap_eq_loop_ok:
  assumes at: "hmap_at m a ch" and bt: "hmap_at m b cb" and ok: "store_ok m" and V: "0 < lsize V"
    and v: "\<forall>p \<in> set (concat ch) \<union> set (concat cb). evl m p \<noteq> None"
  shows "i \<le> length ch \<Longrightarrow> hmap_eq_loop veq a b i m =
    Some (entries_in (heq b) veq (image_mset (entry_at V m) (mset (concat (drop i ch)))) (image_mset (entry_at V m) (mset (concat cb))))"
proof (induction "length ch - i" arbitrary: i)
  case 0
  then show ?case using hmap_atD(3) [OF at] by (subst hmap_eq_loop.simps) (simp add: entries_in_def)
next
  case (Suc k)
  note d = hmap_atD [OF at] and tb = tableD [OF hmap_atD(2) [OF at]]
  from Suc have i: "i < length ch" by simp
  have dr: "concat (drop i ch) = ch ! i @ concat (drop (i + 1) ch)" using i by (simp flip: Cons_nth_drop_Suc)
  have sub: "set (ch ! i) \<subseteq> set (concat ch)" using tb(6) [OF i] .
  have vb: "\<forall>q \<in> set (concat cb). evl m q \<noteq> None" using v by blast
  have pre: "set (ch ! i) \<subseteq> places m" "\<forall>p \<in> set (ch ! i). evl m p \<noteq> None" using sub d(10) v by blast+
  have "bucket_get (mbuckets a) i = Some (hd (ch ! i @ [0]))" using tb(1,4) i by (simp add: bucket_get_def)
  then have "hmap_eq_loop veq a b i m =
      (if entries_in (heq b) veq (image_mset (entry_at V m) (mset (ch ! i))) (image_mset (entry_at V m) (mset (concat cb)))
       then hmap_eq_loop veq a b (i + 1) m else Some False)"
    using i d(3) hmap_eq_chain_ok [OF bt ok V vb tb(5) [OF i] pre, of veq] by (subst hmap_eq_loop.simps) (simp del: mset_concat)
  moreover have "hmap_eq_loop veq a b (i + 1) m = Some (entries_in (heq b) veq (image_mset (entry_at V m) (mset (concat (drop (i + 1) ch))))
      (image_mset (entry_at V m) (mset (concat cb))))"
    using Suc.hyps(2) i by (intro Suc.hyps(1)) simp_all
  ultimately show ?case unfolding dr mset_append image_mset_union entries_in_more by simp
qed

lemma hmap_eq_ok:
  assumes M: "maps_at m h a b" and v: "0 < lsize (mval a)" "\<forall>e \<in># hmap_entries (a, m) + hmap_entries (b, m). snd e \<noteq> None"
  shows "tda_hmap_eq_by False True veq a b m =
    Some (size (hmap_entries (a, m)) = size (hmap_entries (b, m)) \<and> entries_in (heq b) veq (hmap_entries (a, m)) (hmap_entries (b, m)))"
proof -
  have held: "held_by hmap_view h (a, m)" "held_by hmap_view h (b, m)" and V: "mval b = mval a" using M by (simp_all add: maps_at_def)
  obtain ch where at: "hmap_at m a ch" and ok: "store_ok m" and ea: "hmap_entries (a, m) = image_mset (entry_at (mval a) m) (mset (concat ch))"
    using held(1) by (rule held_hmapE)
  obtain cb where bt: "hmap_at m b cb" and eb: "hmap_entries (b, m) = image_mset (entry_at (mval b) m) (mset (concat cb))"
    using held(2) by (rule held_hmapE)
  have "evl m p \<noteq> None" if "p \<in> set (concat ch) \<union> set (concat cb)" for p
    using v(2) that v(1) unfolding ea eb V by (force simp: entry_at_def simp del: set_concat mset_concat)
  then have all: "\<forall>p \<in> set (concat ch) \<union> set (concat cb). evl m p \<noteq> None" by blast
  have "tda_hmap_eq_by False True veq a b m = (if mlen a \<noteq> mlen b then Some False else hmap_eq_loop veq a b 0 m)"
    using maps_same [OF M] maps_assert [OF M] by (simp add: tda_hmap_eq_by_def hmap_eq_impl_def)
  then show ?thesis
    using hmap_eq_loop_ok [OF at bt ok v(1) all le0, of veq] held_hmap_size [OF held(1)] held_hmap_size [OF held(2)] unfolding ea eb V by simp
qed

end
