(* ===== verification/HSetLaws.thy ===== *)
theory HSetLaws
  imports HSet HMapMany
begin

text \<open>
  What the operations of \<open>HSet\<close> do, against the multiset of the keys.
\<close>

section \<open>Keys\<close>

abbreviation keys_of :: "('k \<times> 'v) multiset \<Rightarrow> 'k multiset" where "keys_of E \<equiv> image_mset fst E"

definition in_keys :: "('k \<Rightarrow> 'k \<Rightarrow> bool) \<Rightarrow> 'k \<Rightarrow> 'k multiset \<Rightarrow> bool" where
  "in_keys eq k K \<longleftrightarrow> (\<exists>k' \<in># K. eq k' k)"

definition key_in :: "('k \<Rightarrow> 'k \<Rightarrow> bool) \<Rightarrow> 'k \<Rightarrow> 'k multiset \<Rightarrow> 'k multiset" where
  "key_in eq k K = (if in_keys eq k K then K else add_mset k K)"

definition key_out :: "('k \<Rightarrow> 'k \<Rightarrow> bool) \<Rightarrow> 'k \<Rightarrow> 'k multiset \<Rightarrow> 'k multiset" where
  "key_out eq k K = filter_mset (\<lambda>k'. \<not> eq k' k) K"

definition key_flip :: "('k \<Rightarrow> 'k \<Rightarrow> bool) \<Rightarrow> 'k \<Rightarrow> 'k multiset \<Rightarrow> 'k multiset" where
  "key_flip eq k K = (if in_keys eq k K then key_out eq k K else add_mset k K)"

text \<open>The keys of \<open>K\<close> that are not in \<open>L\<close>, and those that are.\<close>

definition keys_minus :: "('k \<Rightarrow> 'k \<Rightarrow> bool) \<Rightarrow> 'k multiset \<Rightarrow> 'k multiset \<Rightarrow> 'k multiset" where
  "keys_minus eq K L = filter_mset (\<lambda>k. \<not> in_keys eq k L) K"

definition keys_both :: "('k \<Rightarrow> 'k \<Rightarrow> bool) \<Rightarrow> 'k multiset \<Rightarrow> 'k multiset \<Rightarrow> 'k multiset" where
  "keys_both eq K L = filter_mset (\<lambda>k. in_keys eq k L) K"

lemma has_key_keys: "has_key eq k E \<longleftrightarrow> in_keys eq k (keys_of E)"
  by (auto simp: has_key_def in_keys_def)

lemma keys_put: "keys_of (put_entry eq k x E) = key_in eq k (keys_of E)"
proof -
  have "image_mset (\<lambda>e. fst (if eq (fst e) k then (fst e, x) else e)) E = image_mset fst E"
    by (intro image_mset_cong) simp
  then show ?thesis by (simp add: put_entry_def key_in_def has_key_keys image_mset.compositionality comp_def)
qed

lemma keys_cut: "keys_of (cut_key eq k E) = key_out eq k (keys_of E)"
  by (simp add: cut_key_def key_out_def filter_mset_image_mset)

lemma size_key_in: "size (key_in eq k K) \<le> Suc (size K)"
  by (simp add: key_in_def)

lemma size_key_flip: "size (key_flip eq k K) \<le> Suc (size K)"
  using size_filter_mset_lesseq [of "\<lambda>k'. \<not> eq k' k" K] by (simp add: key_flip_def key_out_def le_SucI)

context hasher begin

text \<open>Walks over keys no two of which are equal.\<close>

lemma in_keys_other: "\<not> eq k k2 \<Longrightarrow> in_keys eq k2 (key_in eq k K) \<longleftrightarrow> in_keys eq k2 K"
  by (auto simp: in_keys_def key_in_def)

lemma fold_key_in:
  "sorted_wrt (\<lambda>a b. \<not> eq a b) ks \<Longrightarrow> fold (key_in eq) ks K = K + keys_minus eq (mset ks) K"
proof (induction ks arbitrary: K)
  case (Cons k ks)
  have "keys_minus eq (mset ks) (key_in eq k K) = keys_minus eq (mset ks) K"
    unfolding keys_minus_def using Cons.prems in_keys_other by (intro filter_mset_cong) auto
  then show ?case using Cons by (auto simp: keys_minus_def key_in_def)
qed (simp add: keys_minus_def)

lemma fold_key_out: "fold (key_out eq) ks K = keys_minus eq K (mset ks)"
proof (induction ks arbitrary: K)
  case (Cons k ks)
  show ?case unfolding fold_simps comp_def Cons
    by (auto simp: keys_minus_def key_out_def in_keys_def filter_filter_mset eq_sym intro!: filter_mset_cong dest: eq_sym)
qed (simp add: keys_minus_def in_keys_def)

lemma fold_key_flip:
  "sorted_wrt (\<lambda>a b. \<not> eq a b) ks \<Longrightarrow> fold (key_flip eq) ks K = keys_minus eq K (mset ks) + keys_minus eq (mset ks) K"
proof (induction ks arbitrary: K)
  case (Cons k ks)
  have ne: "\<forall>k2 \<in> set ks. \<not> eq k k2" using Cons.prems by simp
  have ih: "fold (key_flip eq) (k # ks) K = keys_minus eq (key_flip eq k K) (mset ks) + keys_minus eq (mset ks) (key_flip eq k K)"
    using Cons by simp
  show ?case
  proof (cases "in_keys eq k K")
    case True
    have "in_keys eq k2 (key_out eq k K) \<longleftrightarrow> in_keys eq k2 K" if "k2 \<in> set ks" for k2
      using ne that by (auto simp: in_keys_def key_out_def) (meson eq_sym eq_trans)
    then have "keys_minus eq (mset ks) (key_out eq k K) = keys_minus eq (mset ks) K"
      unfolding keys_minus_def by (intro filter_mset_cong) auto
    moreover have "keys_minus eq (key_out eq k K) (mset ks) = keys_minus eq K (mset (k # ks))"
      by (auto simp: keys_minus_def key_out_def in_keys_def filter_filter_mset intro!: filter_mset_cong dest: eq_sym)
    moreover have "key_flip eq k K = key_out eq k K" using True by (simp add: key_flip_def)
    ultimately show ?thesis unfolding ih using True by (simp add: keys_minus_def)
  next
    case False
    have "keys_minus eq K (mset ks) = keys_minus eq K (mset (k # ks))"
      using False by (auto simp: keys_minus_def in_keys_def intro!: filter_mset_cong dest: eq_sym)
    moreover have "keys_minus eq (mset ks) (add_mset k K) = keys_minus eq (mset ks) K"
      using ne unfolding keys_minus_def in_keys_def by (intro filter_mset_cong) auto
    moreover have "\<not> in_keys eq k (mset ks)" using ne by (auto simp: in_keys_def dest: eq_sym)
    moreover have "key_flip eq k K = add_mset k K" using False by (simp add: key_flip_def)
    ultimately show ?thesis unfolding ih using False by (simp add: keys_minus_def)
  qed
qed (simp add: keys_minus_def in_keys_def)

end

section \<open>Walks over a map\<close>

text \<open>The keys of the nodes of a map, in the order of a walk.\<close>

definition walk_keys :: "('k, 'v) hobj \<Rightarrow> 'k list" where
  "walk_keys c = map (ekey (snd c)) (concat (hmap_chains c))"

lemma walk_keys_mset: "mset (walk_keys c) = keys_of (hmap_entries c)"
  by (simp add: walk_keys_def hmap_entries_def image_mset.compositionality comp_def entry_at_def del: mset_concat)

lemma walk_keys_apart:
  assumes "hmap_at m t ch" "store_ok m"
  shows "sorted_wrt (\<lambda>a b. \<not> heq t a b) (walk_keys (t, m))"
proof -
  note d = hmap_atD [OF assms(1)]
  have "sorted_wrt (\<lambda>p q. \<not> heq t (ekey m p) (ekey m q)) (concat ch)"
    unfolding sorted_wrt_iff_nth_less
  proof (intro allI impI)
    fix i j assume ij: "i < j" "j < length (concat ch)"
    then have "concat ch ! i \<noteq> concat ch ! j" using nth_eq_iff_index_eq [OF d(9)] by simp
    moreover have "concat ch ! i \<in> set (concat ch)" "concat ch ! j \<in> set (concat ch)" using ij by (auto intro!: nth_mem simp del: set_concat)
    ultimately show "\<not> heq t (ekey m (concat ch ! i)) (ekey m (concat ch ! j))" using d(16) by blast
  qed
  then show ?thesis using hmap_at_chains [OF assms] by (simp add: walk_keys_def sorted_wrt_map)
qed

lemma first_node_at: "hmap_at m t ch \<Longrightarrow> store_ok m \<Longrightarrow> tda_hmap_first_node t = Some (hd (concat ch @ [0]))"
  using hmap_assert [of m t ch] first_from_ok [of m t ch 0] hmap_atD(2,3) [of m t ch]
  by (simp add: tda_hmap_first_node_def store_ok_def)

lemma walk_at:
  assumes "hmap_at m t ch" "store_ok m" "concat ch = xs @ p # ys"
  shows "p \<noteq> 0" "tda_hmap_node_key t m p = Some (ekey m p)" "tda_hmap_node_next t m p = Some (hd (ys @ [0]))"
proof -
  have p: "p \<in> set (concat ch)" using assms(3) by simp
  note pm = hmap_node_in [OF assms(1,2) p] and d = hmap_atD [OF assms(1)]
  have z: "0 \<notin> places m" using assms(2) by (simp add: store_ok_def)
  show "p \<noteq> 0" by (rule pm(2))
  show "tda_hmap_node_key t m p = Some (ekey m p)" "tda_hmap_node_next t m p = Some (hd (ys @ [0]))"
    using pm hmap_assert [OF assms(1)] next_node_ok [OF d(2,3) z d(4) assms(3)]
    by (simp_all add: tda_hmap_node_key_def tda_hmap_node_next_def hmap_node_key_def)
qed

lemma contains_at:
  assumes "hmap_at m t ch" "store_ok m"
  shows "tda_hmap_contains t m key = Some (in_keys (heq t) key (keys_of (hmap_entries (t, m))))"
proof -
  have "held_by hmap_view (\<lambda>_. \<lparr>answers = [], live = hmap_blocks t\<rparr>) (t, m)"
    using held_by_hmap [OF assms] by (simp add: lives_def)
  from hmap_find_held [OF this, of key] show ?thesis by (auto simp: has_key_keys)
qed

lemma keys_all_in_ok:
  assumes at: "hmap_at m a ch" and bt: "hmap_at m b cb" and ok: "store_ok m"
  shows "keys_all_in a b m = Some (\<forall>k \<in># keys_of (hmap_entries (a, m)). in_keys (heq b) k (keys_of (hmap_entries (b, m))))"
proof -
  let ?in = "\<lambda>k. in_keys (heq b) k (keys_of (hmap_entries (b, m)))"
  have loop: "concat ch = xs @ ys \<Longrightarrow> keys_all_in_loop a b (hd (ys @ [0])) m = Some (\<forall>p \<in> set ys. ?in (ekey m p))" for xs ys
  proof (induction ys arbitrary: xs)
    case Nil
    then show ?case by (subst keys_all_in_loop.simps) simp
  next
    case (Cons p ys)
    note w = walk_at [OF at ok Cons.prems]
    have "keys_all_in_loop a b (hd (ys @ [0])) m = Some (\<forall>p \<in> set ys. ?in (ekey m p))"
      using Cons.IH [of "xs @ [p]"] Cons.prems by simp
    then show ?case using w contains_at [OF bt ok] by (subst keys_all_in_loop.simps) simp
  qed
  have "set (walk_keys (a, m)) = ekey m ` set (concat ch)" using hmap_at_chains [OF at ok] by (simp add: walk_keys_def)
  then have "set_mset (keys_of (hmap_entries (a, m))) = ekey m ` set (concat ch)" using walk_keys_mset [of "(a, m)"] by (metis set_mset_mset)
  then show ?thesis using loop [of "[]" "concat ch"] first_node_at [OF at ok] by (simp add: keys_all_in_def)
qed

lemma intersects_loop_ok:
  assumes at: "hmap_at m a ch" and bt: "hmap_at m b cb" and ok: "store_ok m"
  shows "concat ch = xs @ ys \<Longrightarrow> intersects_loop a b (hd (ys @ [0])) m =
    Some (\<exists>p \<in> set ys. in_keys (heq b) (ekey m p) (keys_of (hmap_entries (b, m))))"
proof (induction ys arbitrary: xs)
  case Nil
  then show ?case by (subst intersects_loop.simps) simp
next
  case (Cons p ys)
  note w = walk_at [OF at ok Cons.prems]
  have "intersects_loop a b (hd (ys @ [0])) m = Some (\<exists>p \<in> set ys. in_keys (heq b) (ekey m p) (keys_of (hmap_entries (b, m))))"
    using Cons.IH [of "xs @ [p]"] Cons.prems by simp
  then show ?case using w contains_at [OF bt ok] by (subst intersects_loop.simps) simp
qed

text \<open>
  A walk over one map whose body changes another: the keys come in the order of the walk, and
  nothing but the other map changes.
\<close>

definition body_does ::
  "('k \<Rightarrow> 'k hmap \<Rightarrow> ('k, unit) entries \<Rightarrow> heap \<Rightarrow> (tda_status \<times> ('k, unit) hobj \<times> heap) option) \<Rightarrow>
   (('k \<Rightarrow> 'k \<Rightarrow> bool) \<Rightarrow> 'k \<Rightarrow> 'k multiset \<Rightarrow> 'k multiset) \<Rightarrow> bool" where
  "body_does body F \<longleftrightarrow> (\<forall>key t m h. held_by hmap_view h (t, m) \<and> lsize (mval t) = 0 \<longrightarrow>
     (\<exists>st c h'. body key t m h = Some (st, c, h') \<and> call_keeps hmap_view h (t, m) c h' \<and> hmap_rest c = hmap_rest (t, m) \<and>
       (if st = TDA_STATUS_OK then keys_of (hmap_entries c) = F (heq t) key (keys_of (hmap_entries (t, m)))
        else hmap_entries c = hmap_entries (t, m) \<and>
          \<not> (generous h (mal t) \<and> 16 * (size (hmap_entries (t, m)) + 1) \<le> SIZE_MAX))))"

definition never_fails ::
  "('k \<Rightarrow> 'k hmap \<Rightarrow> ('k, unit) entries \<Rightarrow> heap \<Rightarrow> (tda_status \<times> ('k, unit) hobj \<times> heap) option) \<Rightarrow> bool" where
  "never_fails body \<longleftrightarrow> (\<forall>key t m h st c h'. body key t m h = Some (st, c, h') \<longrightarrow> st = TDA_STATUS_OK)"

lemma for_each_node_ok:
  assumes body: "body_does body F" and size: "\<And>eq k K. size (F eq k K) \<le> Suc (size K)"
    and bt: "hmap_at m0 b cb" and apart: "set (concat cb) \<inter> S = {}"
  shows "concat cb = xs @ ys \<Longrightarrow> held_by hmap_view h (t, m) \<Longrightarrow> lsize (mval t) = 0 \<Longrightarrow> hmap_rest (t, m) = eothers m0 S \<Longrightarrow>
    \<exists>st c h' n. for_each_node body b (hd (ys @ [0])) t m h = Some (st, c, h') \<and> call_keeps hmap_view h (t, m) c h' \<and>
      hmap_rest c = hmap_rest (t, m) \<and> n \<le> length ys \<and>
      keys_of (hmap_entries c) = fold (F (heq t)) (map (ekey m0) (take n ys)) (keys_of (hmap_entries (t, m))) \<and>
      (if st = TDA_STATUS_OK then n = length ys
       else \<not> (generous h (mal t) \<and> 16 * (size (hmap_entries (t, m)) + length ys) \<le> SIZE_MAX)) \<and>
      (never_fails body \<longrightarrow> st = TDA_STATUS_OK)"
proof (induction ys arbitrary: xs t m h)
  case Nil
  have "for_each_node body b 0 t m h = Some (TDA_STATUS_OK, (t, m), h)" by (subst for_each_node.simps) simp
  then show ?case using keeps_refl [OF Nil(2)] by simp
next
  case (Cons p ys)
  have ok: "store_ok m" using Cons.prems(2) by (simp add: held_by_def hmap_view_fields hmap_ok_def)
  have rest: "eothers m (hmap_set (t, m)) = eothers m0 S" using Cons.prems(4) by (simp add: hmap_rest_def hmap_set_def)
  note now = hmap_at_others [OF bt apart rest]
  note w = walk_at [OF now(1) ok Cons.prems(1)]
  have key: "ekey m p = ekey m0 p" using now(4) [of p] Cons.prems(1) by simp
  obtain st c h1 where r: "body (ekey m0 p) t m h = Some (st, c, h1)" "call_keeps hmap_view h (t, m) c h1" "hmap_rest c = hmap_rest (t, m)"
    "if st = TDA_STATUS_OK then keys_of (hmap_entries c) = F (heq t) (ekey m0 p) (keys_of (hmap_entries (t, m)))
     else hmap_entries c = hmap_entries (t, m) \<and> \<not> (generous h (mal t) \<and> 16 * (size (hmap_entries (t, m)) + 1) \<le> SIZE_MAX)"
    using body Cons.prems(2,3) unfolding body_does_def by blast
  obtain t1 m1 where c: "c = (t1, m1)" by (cases c)
  have step: "for_each_node body b p t m h = (if st = TDA_STATUS_OK
      then do { node \<leftarrow> tda_hmap_node_next b m1 p; for_each_node body b node t1 m1 h1 } else Some (st, (t1, m1), h1))"
    using w(1,2) key r(1) c by (subst for_each_node.simps) (simp add: status_is_err_iff)
  show ?case
  proof (cases "st = TDA_STATUS_OK")
    case False
    then have "\<not> (generous h (mal t) \<and> 16 * (size (hmap_entries (t, m)) + length (p # ys)) \<le> SIZE_MAX)" using r(4) by auto
    moreover have "\<not> never_fails body" using r(1) False unfolding never_fails_def by blast
    ultimately show ?thesis using step r(2-4) False c
      by (intro exI [of _ st] exI [of _ c] exI [of _ h1] exI [of _ 0]) simp
  next
    case True
    have held1: "held_by hmap_view h1 (t1, m1)" using r(2) c by (auto simp: call_keeps_def held_by_def dest: requests_lives)
    have k1: "mval t1 = mval t" "meq t1 = meq t" "mal t1 = mal t"
      using r(2) c by (auto simp: call_keeps_def hmap_view_fields hmap_kind_def)
    have ok1: "store_ok m1" using held1 by (simp add: held_by_def hmap_view_fields hmap_ok_def)
    have rest1: "hmap_rest (t1, m1) = eothers m0 S" "eothers m1 (hmap_set (t1, m1)) = eothers m0 S"
      using r(3) c Cons.prems(4) by (simp_all add: hmap_rest_def hmap_set_def)
    note w1 = walk_at [OF hmap_at_others(1) [OF bt apart rest1(2)] ok1 Cons.prems(1)]
    have ys: "concat cb = (xs @ [p]) @ ys" using Cons.prems(1) by simp
    have l0: "lsize (mval t1) = 0" using Cons.prems(3) k1(1) by simp
    obtain st2 c2 h2 n where i: "for_each_node body b (hd (ys @ [0])) t1 m1 h1 = Some (st2, c2, h2)" "call_keeps hmap_view h1 (t1, m1) c2 h2"
      "hmap_rest c2 = hmap_rest (t1, m1)" "n \<le> length ys"
      "keys_of (hmap_entries c2) = fold (F (heq t1)) (map (ekey m0) (take n ys)) (keys_of (hmap_entries (t1, m1)))"
      "if st2 = TDA_STATUS_OK then n = length ys
       else \<not> (generous h1 (mal t1) \<and> 16 * (size (hmap_entries (t1, m1)) + length ys) \<le> SIZE_MAX)"
      "never_fails body \<longrightarrow> st2 = TDA_STATUS_OK"
      using Cons.IH [OF ys held1 l0 rest1(1)] by blast
    have E1: "keys_of (hmap_entries (t1, m1)) = F (heq t) (ekey m0 p) (keys_of (hmap_entries (t, m)))" using r(4) True c by simp
    then have "size (hmap_entries (t1, m1)) \<le> Suc (size (hmap_entries (t, m)))" using size by (metis size_image_mset)
    moreover have "generous h (mal t) \<Longrightarrow> generous h1 (mal t)" using r(2) by (auto simp: call_keeps_def hmap_view_fields dest: requests_generous)
    ultimately have ref: "if st2 = TDA_STATUS_OK then n = length ys
       else \<not> (generous h (mal t) \<and> 16 * (size (hmap_entries (t, m)) + length (p # ys)) \<le> SIZE_MAX)"
      using i(6) k1(3) by (auto split: if_splits)
    have "for_each_node body b p t m h = Some (st2, c2, h2)" using step True w1(3) i(1) by simp
    then show ?thesis
      using keeps_trans [OF r(2) [unfolded c] i(2)] i(3-5,7) ref E1 k1(2) r(3) c
      by (intro exI [of _ st2] exI [of _ c2] exI [of _ h2] exI [of _ "Suc n"]) auto
  qed
qed

lemma body_doesI:
  fixes body :: "'k \<Rightarrow> 'k hmap \<Rightarrow> ('k, unit) entries \<Rightarrow> heap \<Rightarrow> (tda_status \<times> ('k, unit) hobj \<times> heap) option"
  assumes "\<And>key t m h. held_by hmap_view h (t, m) \<Longrightarrow> lsize (mval t) = 0 \<Longrightarrow>
    \<exists>st c h'. body key t m h = Some (st, c, h') \<and>
      (\<exists>x. keys_of x = F (heq t) key (keys_of (hmap_entries (t, m))) \<and>
        call_does hmap_view h (t, m) (Some (st, c, h')) (16 * (size (hmap_entries (t, m)) + 1) \<le> SIZE_MAX) (x, hmap_rest (t, m)))"
  shows "body_does body F"
  unfolding body_does_def
proof (intro allI impI; elim conjE)
  fix key t and m :: "('k, unit) entries" and h assume h: "held_by hmap_view h (t, m)" "lsize (mval t) = 0"
  obtain st c h' x where r: "body key t m h = Some (st, c, h')" "keys_of x = F (heq t) key (keys_of (hmap_entries (t, m)))"
    "call_does hmap_view h (t, m) (Some (st, c, h')) (16 * (size (hmap_entries (t, m)) + 1) \<le> SIZE_MAX) (x, hmap_rest (t, m))"
    using assms [OF h, of key] by blast
  then have g: "call_grows hmap_view h (t, m) (16 * (size (hmap_entries (t, m)) + 1) \<le> SIZE_MAX) st c h'"
    and v: "st = TDA_STATUS_OK \<longrightarrow> hval (hmap_view c) = (x, hmap_rest (t, m))" by (auto simp: call_does_def)
  have "hmap_rest c = hmap_rest (t, m)"
    using g v by (cases "st = TDA_STATUS_OK") (auto simp: call_grows_def hmap_view_fields)
  moreover have "if st = TDA_STATUS_OK then keys_of (hmap_entries c) = F (heq t) key (keys_of (hmap_entries (t, m)))
      else hmap_entries c = hmap_entries (t, m) \<and> \<not> (generous h (mal t) \<and> 16 * (size (hmap_entries (t, m)) + 1) \<le> SIZE_MAX)"
    using g v r(2) by (auto simp: call_grows_def hmap_view_fields)
  ultimately show "\<exists>st c h'. body key t m h = Some (st, c, h') \<and> call_keeps hmap_view h (t, m) c h' \<and> hmap_rest c = hmap_rest (t, m) \<and>
      (if st = TDA_STATUS_OK then keys_of (hmap_entries c) = F (heq t) key (keys_of (hmap_entries (t, m)))
       else hmap_entries c = hmap_entries (t, m) \<and> \<not> (generous h (mal t) \<and> 16 * (size (hmap_entries (t, m)) + 1) \<le> SIZE_MAX))"
    using r(1) keeps_grows [OF g] by blast
qed

lemma drops_does:
  "call_drops view h c (Some (c', h')) x \<Longrightarrow> call_does view h c (Some (TDA_STATUS_OK, c', h')) fits x"
  by (auto simp: call_drops_def call_does_def call_grows_def)

lemma insert_key:
  assumes "held_by hmap_view h (t, m)" "lsize (mval t) = 0"
  shows "\<exists>st new c h'. tda_hmap_insert t key None m h = Some (st, new, c, h') \<and>
    (\<exists>x. keys_of x = key_in (heq t) key (keys_of (hmap_entries (t, m))) \<and>
      call_does hmap_view h (t, m) (Some (st, c, h')) (16 * (size (hmap_entries (t, m)) + 1) \<le> SIZE_MAX) (x, hmap_rest (t, m))) \<and>
    (st = TDA_STATUS_OK \<longrightarrow> new = Some (\<not> in_keys (heq t) key (keys_of (hmap_entries (t, m))))) \<and>
    (in_keys (heq t) key (keys_of (hmap_entries (t, m))) \<longrightarrow> st = TDA_STATUS_OK)"
proof -
  have v: "None \<noteq> None \<or> lsize (mval t) = 0" using assms(2) by simp
  obtain st new c h' where r: "tda_hmap_insert t key None m h = Some (st, new, c, h')"
    "call_does hmap_view h (t, m) (Some (st, c, h')) (16 * (size (hmap_entries (t, m)) + 1) \<le> SIZE_MAX)
      (put_entry (heq t) key (val_given t None) (hmap_entries (t, m)), hmap_rest (t, m))"
    "st = TDA_STATUS_OK \<longrightarrow> new = Some (\<not> in_keys (heq t) key (keys_of (hmap_entries (t, m))))"
    "in_keys (heq t) key (keys_of (hmap_entries (t, m))) \<longrightarrow> st = TDA_STATUS_OK"
    using hmap_insert_ok [OF assms(1) v, of key, unfolded has_key_keys held_hmap_size [OF assms(1)]] by (elim exE conjE)
  from keys_put r(2)
  have "\<exists>x. keys_of x = key_in (heq t) key (keys_of (hmap_entries (t, m))) \<and>
      call_does hmap_view h (t, m) (Some (st, c, h')) (16 * (size (hmap_entries (t, m)) + 1) \<le> SIZE_MAX) (x, hmap_rest (t, m))"
    by (intro exI conjI)
  with r(1,3,4) show ?thesis by (intro exI [of _ st] exI [of _ new] exI [of _ c] exI [of _ h'] conjI)
qed

lemma union_body_does: "body_does union_body key_in"
proof (rule body_doesI)
  fix key :: 'k and t and m :: "('k, unit) entries" and h assume h: "held_by hmap_view h (t, m)" "lsize (mval t) = 0"
  show "\<exists>st c h'. union_body key t m h = Some (st, c, h') \<and>
      (\<exists>x. keys_of x = key_in (heq t) key (keys_of (hmap_entries (t, m))) \<and>
        call_does hmap_view h (t, m) (Some (st, c, h')) (16 * (size (hmap_entries (t, m)) + 1) \<le> SIZE_MAX) (x, hmap_rest (t, m)))"
    using insert_key [OF h, of key] by (auto simp: union_body_def)
qed

lemma difference_body_does: "body_does difference_body key_out"
proof (rule body_doesI)
  fix key :: 'k and t and m :: "('k, unit) entries" and h assume h: "held_by hmap_view h (t, m)" "lsize (mval t) = 0"
  obtain r c h' where "tda_hmap_remove t key m h = Some (r, c, h')"
    and d: "call_drops hmap_view h (t, m) (Some (c, h')) (cut_key (heq t) key (hmap_entries (t, m)), hmap_rest (t, m))"
    using hmap_take_ok [OF h(1), of key] by blast
  then have "difference_body key t m h = Some (TDA_STATUS_OK, c, h')" by (simp add: difference_body_def)
  moreover from keys_cut drops_does [OF d]
  have "\<exists>x. keys_of x = key_out (heq t) key (keys_of (hmap_entries (t, m))) \<and>
      call_does hmap_view h (t, m) (Some (TDA_STATUS_OK, c, h')) (16 * (size (hmap_entries (t, m)) + 1) \<le> SIZE_MAX) (x, hmap_rest (t, m))"
    by (intro exI conjI)
  ultimately show "\<exists>st c h'. difference_body key t m h = Some (st, c, h') \<and>
      (\<exists>x. keys_of x = key_out (heq t) key (keys_of (hmap_entries (t, m))) \<and>
        call_does hmap_view h (t, m) (Some (st, c, h')) (16 * (size (hmap_entries (t, m)) + 1) \<le> SIZE_MAX) (x, hmap_rest (t, m)))"
    by (intro exI [of _ TDA_STATUS_OK] exI [of _ c] exI [of _ h'] conjI)
qed

lemma symmetric_body_does: "body_does symmetric_body key_flip"
proof (rule body_doesI)
  fix key :: 'k and t and m :: "('k, unit) entries" and h assume h: "held_by hmap_view h (t, m)" "lsize (mval t) = 0"
  let ?E = "hmap_entries (t, m)" and ?fits = "16 * (size (hmap_entries (t, m)) + 1) \<le> SIZE_MAX"
  obtain c h1 where rm: "tda_hmap_remove t key m h = Some (in_keys (heq t) key (keys_of ?E), c, h1)"
    and d: "call_drops hmap_view h (t, m) (Some (c, h1)) (cut_key (heq t) key ?E, hmap_rest (t, m))"
    using hmap_take_ok [OF h(1), of key, unfolded has_key_keys] by blast
  obtain t1 m1 where c: "c = (t1, m1)" by (cases c)
  show "\<exists>st c h'. symmetric_body key t m h = Some (st, c, h') \<and>
      (\<exists>x. keys_of x = key_flip (heq t) key (keys_of ?E) \<and> call_does hmap_view h (t, m) (Some (st, c, h')) ?fits (x, hmap_rest (t, m)))"
  proof (cases "in_keys (heq t) key (keys_of ?E)")
    case True
    then have "symmetric_body key t m h = Some (TDA_STATUS_OK, c, h1)" using rm c by (simp add: symmetric_body_def)
    moreover have "keys_of (cut_key (heq t) key ?E) = key_flip (heq t) key (keys_of ?E)" using True by (simp add: keys_cut key_flip_def)
    ultimately show ?thesis using drops_does [OF d] by blast
  next
    case False
    then have cut: "cut_key (heq t) key ?E = ?E" by (simp add: cut_key_none has_key_keys)
    have g: "call_grows hmap_view h (t, m) ?fits TDA_STATUS_OK (t1, m1) h1" and E1: "hmap_entries (t1, m1) = ?E" "hmap_rest (t1, m1) = hmap_rest (t, m)"
      using drops_does [OF d, of ?fits] cut c by (auto simp: call_does_def hmap_view_fields)
    have held1: "held_by hmap_view h1 (t1, m1)" by (rule grows_held [OF g])
    have k1: "mval t1 = mval t" "meq t1 = meq t" using g by (auto simp: call_grows_def hmap_view_fields hmap_kind_def)
    have l0: "lsize (mval t1) = 0" using h(2) k1(1) by simp
    obtain st new c2 h2 x where i: "tda_hmap_insert t1 key None m1 h1 = Some (st, new, c2, h2)"
      "keys_of x = key_in (heq t) key (keys_of ?E)" "call_does hmap_view h1 (t1, m1) (Some (st, c2, h2)) ?fits (x, hmap_rest (t, m))"
      using insert_key [OF held1 l0, of key, unfolded E1 k1(2)] by blast
    have run: "symmetric_body key t m h = Some (st, c2, h2)" using rm False c i(1) by (simp add: symmetric_body_def)
    have "call_grows hmap_view h1 (t1, m1) ?fits st c2 h2" using i(3) by (simp add: call_does_def)
    moreover have "hval (hmap_view (t1, m1)) = hval (hmap_view (t, m))" using E1 by (simp add: hmap_view_fields)
    ultimately have "call_grows hmap_view h (t, m) ?fits st c2 h2" using grows_trans [OF g] by blast
    then have "call_does hmap_view h (t, m) (Some (st, c2, h2)) ?fits (x, hmap_rest (t, m))" using i(3) by (simp add: call_does_def)
    then show ?thesis using run i(2) False by (auto simp: key_flip_def key_in_def)
  qed
qed

section \<open>The set\<close>

definition hset_view :: "'k sobj \<Rightarrow> (layout \<times> layout \<times> nat \<times> nat \<times> layout \<times> ('k \<Rightarrow> 64 word) option \<times>
    ('k \<Rightarrow> 'k \<Rightarrow> bool) option, 'k multiset \<times> (nat \<rightharpoonup> nat \<times> 64 word \<times> 'k \<times> unit option)) holder" where
  "hset_view c = \<lparr>hgood = hmap_ok (smap (fst c), snd c) \<and> lsize (mval (smap (fst c))) = 0, hkind = hmap_kind (smap (fst c)),
     hal = mal (smap (fst c)), hblocks = hmap_blocks (smap (fst c)),
     hval = (keys_of (hmap_entries (smap (fst c), snd c)), hmap_rest (smap (fst c), snd c))\<rparr>"

definition hset_keys :: "'k sobj \<Rightarrow> 'k multiset" where
  "hset_keys c = keys_of (hmap_entries (smap (fst c), snd c))"

definition hset_rest :: "'k sobj \<Rightarrow> nat \<rightharpoonup> nat \<times> 64 word \<times> 'k \<times> unit option" where
  "hset_rest c = hmap_rest (smap (fst c), snd c)"

lemma held_by_hset: "held_by hset_view h (s, m) \<longleftrightarrow> held_by hmap_view h (smap s, m) \<and> lsize (mval (smap s)) = 0"
  by (auto simp: held_by_def hset_view_def hmap_view_fields)

lemma hset_assert:
  assumes "hmap_ok (smap s, m)" "lsize (mval (smap s)) = 0"
  shows "ASSERT_HSET s = Some ()"
  using assms hmap_atD(12) [of m "smap s"] by (auto simp: ASSERT_HSET_def tda_hmap_val_layout_def hmap_ok_def)

lemma held_hset_assert: "held_by hset_view h (s, m) \<Longrightarrow> ASSERT_HSET s = Some ()"
  using hset_assert [of s m] by (simp add: held_by_def hset_view_def)

text \<open>A call on the map is the call on the set.\<close>

lemma set_keeps:
  assumes "call_keeps hmap_view h (smap s, m) (t, m') h'" "lsize (mval (smap s)) = 0"
  shows "call_keeps hset_view h (s, m) (s\<lparr>smap := t\<rparr>, m') h'" "ASSERT_HSET (s\<lparr>smap := t\<rparr>) = Some ()"
proof -
  have "hmap_ok (t, m')" "lsize (mval t) = 0"
    using assms by (auto simp: call_keeps_def hmap_view_fields hmap_kind_def)
  then show "call_keeps hset_view h (s, m) (s\<lparr>smap := t\<rparr>, m') h'" "ASSERT_HSET (s\<lparr>smap := t\<rparr>) = Some ()"
    using assms(1) hset_assert [of "s\<lparr>smap := t\<rparr>" m'] by (auto simp: call_keeps_def hset_view_def hmap_view_fields)
qed

lemma set_does:
  assumes "call_does hmap_view h (smap s, m) (Some (st, (t, m'), h')) fits (E, R)" "lsize (mval (smap s)) = 0"
  shows "call_does hset_view h (s, m) (Some (st, (s\<lparr>smap := t\<rparr>, m'), h')) fits (keys_of E, R)"
    "ASSERT_HSET (s\<lparr>smap := t\<rparr>) = Some ()"
proof -
  have g: "call_grows hmap_view h (smap s, m) fits st (t, m') h'" using assms(1) by (simp add: call_does_def)
  note k = set_keeps [OF keeps_grows [OF g] assms(2)]
  show "ASSERT_HSET (s\<lparr>smap := t\<rparr>) = Some ()" by (rule k(2))
  have "call_grows hset_view h (s, m) fits st (s\<lparr>smap := t\<rparr>, m') h'"
    using k(1) g by (auto simp: call_keeps_def call_grows_def hset_view_def hmap_view_fields)
  then show "call_does hset_view h (s, m) (Some (st, (s\<lparr>smap := t\<rparr>, m'), h')) fits (keys_of E, R)"
    using assms(1) by (auto simp: call_does_def hset_view_def hmap_view_fields)
qed

lemma set_drops:
  assumes "call_drops hmap_view h (smap s, m) (Some ((t, m'), h')) (E, R)" "lsize (mval (smap s)) = 0"
  shows "call_drops hset_view h (s, m) (Some ((s\<lparr>smap := t\<rparr>, m'), h')) (keys_of E, R)" "ASSERT_HSET (s\<lparr>smap := t\<rparr>) = Some ()"
proof -
  note d = set_does [OF drops_does [OF assms(1), of True] assms(2)]
  show "ASSERT_HSET (s\<lparr>smap := t\<rparr>) = Some ()" by (rule d(2))
  show "call_drops hset_view h (s, m) (Some ((s\<lparr>smap := t\<rparr>, m'), h')) (keys_of E, R)"
    using d(1) by (auto simp: call_drops_def call_does_def call_grows_def)
qed

lemma dropsE:
  assumes "call_drops view h c r x"
  obtains c' h' where "r = Some (c', h')" "call_drops view h c (Some (c', h')) x"
  using assms by (auto simp: call_drops_def)

lemma doesE:
  assumes "call_does view h c r fits x"
  obtains st a b h' where "r = Some (st, (a, b), h')" "call_does view h c (Some (st, (a, b), h')) fits x"
  using assms by (auto simp: call_does_def)

lemma hset_insert_ok:
  assumes "held_by hset_view h (s, m)"
  shows "\<exists>st new c h'. tda_hset_insert s key m h = Some (st, new, c, h') \<and>
    call_does hset_view h (s, m) (Some (st, c, h')) (16 * (size (hset_keys (s, m)) + 1) \<le> SIZE_MAX)
      (key_in (heq (smap s)) key (hset_keys (s, m)), hset_rest (s, m)) \<and>
    (st = TDA_STATUS_OK \<longrightarrow> new = Some (\<not> in_keys (heq (smap s)) key (hset_keys (s, m))))"
proof -
  have h: "held_by hmap_view h (smap s, m)" "lsize (mval (smap s)) = 0" using assms by (simp_all add: held_by_hset)
  obtain st new c h' x where r: "tda_hmap_insert (smap s) key None m h = Some (st, new, c, h')"
    "keys_of x = key_in (heq (smap s)) key (hset_keys (s, m))"
    "call_does hmap_view h (smap s, m) (Some (st, c, h')) (16 * (size (hmap_entries (smap s, m)) + 1) \<le> SIZE_MAX) (x, hmap_rest (smap s, m))"
    "st = TDA_STATUS_OK \<longrightarrow> new = Some (\<not> in_keys (heq (smap s)) key (hset_keys (s, m)))"
    using insert_key [OF h, of key] by (auto simp: hset_keys_def)
  obtain t m' where c: "c = (t, m')" by (cases c)
  note d = set_does [OF r(3) [unfolded c] h(2)]
  have "tda_hset_insert s key m h = Some (st, new, (s\<lparr>smap := t\<rparr>, m'), h')"
    using held_hset_assert [OF assms] r(1) c d(2) by (simp add: tda_hset_insert_def Let_def)
  then show ?thesis using d(1) r(2,4) by (auto simp: hset_keys_def hset_rest_def)
qed

lemma hset_extend_loop_ok:
  "held_by hset_view h (s, m) \<Longrightarrow>
   \<exists>st c h' n. hset_extend_loop s ks m h = Some (st, c, h') \<and> call_keeps hset_view h (s, m) c h' \<and> n \<le> length ks \<and>
     hset_keys c = fold (key_in (heq (smap s))) (take n ks) (hset_keys (s, m)) \<and> hset_rest c = hset_rest (s, m) \<and>
     (if st = TDA_STATUS_OK then n = length ks
      else \<not> (generous h (mal (smap s)) \<and> 16 * (size (hset_keys (s, m)) + length ks) \<le> SIZE_MAX))"
proof (induction ks arbitrary: s m h)
  case Nil
  then show ?case using keeps_refl [OF Nil] by simp
next
  case (Cons k ks)
  have h: "held_by hmap_view h (smap s, m)" "lsize (mval (smap s)) = 0" using Cons.prems by (simp_all add: held_by_hset)
  obtain st new c h1 x where r: "tda_hmap_insert (smap s) k None m h = Some (st, new, c, h1)"
    "keys_of x = key_in (heq (smap s)) k (hset_keys (s, m))"
    "call_does hmap_view h (smap s, m) (Some (st, c, h1)) (16 * (size (hmap_entries (smap s, m)) + 1) \<le> SIZE_MAX) (x, hmap_rest (smap s, m))"
    using insert_key [OF h, of k] by (auto simp: hset_keys_def)
  obtain t m1 where c: "c = (t, m1)" by (cases c)
  let ?s = "s\<lparr>smap := t\<rparr>"
  have sz: "size (hmap_entries (smap s, m)) = size (hset_keys (s, m))" by (simp add: hset_keys_def)
  note d = set_does(1) [OF r(3) [unfolded c] h(2), unfolded sz]
  then have g: "call_grows hset_view h (s, m) (16 * (size (hset_keys (s, m)) + 1) \<le> SIZE_MAX) st (?s, m1) h1"
    by (simp add: call_does_def)
  show ?case
  proof (cases "st = TDA_STATUS_OK")
    case False
    then have run: "hset_extend_loop s (k # ks) m h = Some (st, (?s, m1), h1)" using r(1) c by (simp add: status_is_err_iff)
    have "hset_keys (?s, m1) = hset_keys (s, m)" "hset_rest (?s, m1) = hset_rest (s, m)"
      "\<not> (generous h (mal (smap s)) \<and> 16 * (size (hset_keys (s, m)) + 1) \<le> SIZE_MAX)"
      using g False by (auto simp: call_grows_def hset_view_def hset_keys_def hset_rest_def)
    then show ?thesis using run keeps_grows [OF g] False
      by (intro exI [of _ st] exI [of _ "(?s, m1)"] exI [of _ h1] exI [of _ 0]) auto
  next
    case True
    have held1: "held_by hset_view h1 (?s, m1)" by (rule grows_held [OF g])
    have K1: "hset_keys (?s, m1) = key_in (heq (smap s)) k (hset_keys (s, m))" "hset_rest (?s, m1) = hset_rest (s, m)"
      using d True r(2) by (auto simp: call_does_def hset_view_def hset_keys_def hset_rest_def)
    have k1: "meq (smap ?s) = meq (smap s)" "mal (smap ?s) = mal (smap s)"
      using g by (auto simp: call_grows_def hset_view_def hmap_kind_def)
    obtain st2 c2 h2 n where i: "hset_extend_loop ?s ks m1 h1 = Some (st2, c2, h2)" "call_keeps hset_view h1 (?s, m1) c2 h2"
      "n \<le> length ks" "hset_keys c2 = fold (key_in (heq (smap ?s))) (take n ks) (hset_keys (?s, m1))" "hset_rest c2 = hset_rest (?s, m1)"
      "if st2 = TDA_STATUS_OK then n = length ks
       else \<not> (generous h1 (mal (smap ?s)) \<and> 16 * (size (hset_keys (?s, m1)) + length ks) \<le> SIZE_MAX)"
      using Cons.IH [OF held1] by blast
    have run: "hset_extend_loop s (k # ks) m h = Some (st2, c2, h2)" using r(1) c True i(1) by (simp add: status_is_err_iff)
    have gen: "generous h (mal (smap s)) \<Longrightarrow> generous h1 (mal (smap s))"
      using g by (auto simp: call_grows_def hset_view_def dest: requests_generous)
    have "size (hset_keys (?s, m1)) + length ks \<le> size (hset_keys (s, m)) + length (k # ks)"
      using size_key_in [of "heq (smap s)" k "hset_keys (s, m)"] K1(1) by simp
    then have "if st2 = TDA_STATUS_OK then n = length ks
       else \<not> (generous h (mal (smap s)) \<and> 16 * (size (hset_keys (s, m)) + length (k # ks)) \<le> SIZE_MAX)"
      using i(6) gen unfolding k1(2) by (auto split: if_splits)
    moreover have "hset_keys c2 = fold (key_in (heq (smap s))) (take (Suc n) (k # ks)) (hset_keys (s, m))"
      using i(4) K1(1) unfolding k1(1) by simp
    ultimately show ?thesis
      using run keeps_trans [OF keeps_grows [OF g] i(2)] i(3,5) K1(2)
      by (intro exI [of _ st2] exI [of _ c2] exI [of _ h2] exI [of _ "Suc n"]) auto
  qed
qed

end
