(* ===== verification/DebugTable.thy ===== *)
theory DebugTable
  imports Account Hash
begin

text \<open>
  The table of live blocks of \<open>alloc/debug.c\<close>: open addressing over the addresses, linear probing, at
  most half full, with deletion by backward shift. The slots are a list; they are taken from the
  default allocator, of which the model has the account. The last section shows that the table is a
  finite map from addresses to records.
\<close>

section \<open>State\<close>

record block_record =
  br_addr :: addr
  br_layout :: layout
  br_serial :: nat

record block_table =
  bt_slots :: "block_record list"
  bt_cap :: nat
  bt_len :: nat

definition no_record :: block_record where
  "no_record = \<lparr>br_addr = 0, br_layout = \<lparr>lsize = 0, lalign = 0\<rparr>, br_serial = 0\<rparr>"

definition no_table :: block_table where
  "no_table = \<lparr>bt_slots = [], bt_cap = 0, bt_len = 0\<rparr>"

definition TABLE_MIN_CAP :: nat where "TABLE_MIN_CAP = 64"

text \<open>An address, a layout and a serial, eight bytes each number; \<open>tda_al_default\<close> as an account.\<close>

definition record_layout :: layout where
  "record_layout = \<lparr>lsize = 32, lalign = 8\<rparr>"

definition tda_al_default :: al where "tda_al_default = 1"

section \<open>Operations\<close>

text \<open>Indexing past the end of the slots stops the model.\<close>

definition slot_at :: "block_table \<Rightarrow> nat \<Rightarrow> block_record option" where
  "slot_at tab i = (if i < length (bt_slots tab) then Some (bt_slots tab ! i) else None)"

definition slot_set :: "block_table \<Rightarrow> nat \<Rightarrow> block_record \<Rightarrow> block_table option" where
  "slot_set tab i r = (if i < length (bt_slots tab) then Some (tab\<lparr>bt_slots := (bt_slots tab)[i := r]\<rparr>) else None)"

definition table_home :: "block_table \<Rightarrow> addr \<Rightarrow> nat option" where
  "table_home tab addr = do {
     chk (bt_cap tab > 0);
     Some (unat (tda_hash_u64 (word_of_nat addr)) AND (bt_cap tab - 1))
   }"

partial_function (option) probe_loop :: "block_table \<Rightarrow> addr \<Rightarrow> nat \<Rightarrow> nat option" where
  "probe_loop tab addr i = do {
     r \<leftarrow> slot_at tab i;
     if br_addr r \<noteq> 0 \<and> br_addr r \<noteq> addr then probe_loop tab addr (wadd i 1 AND (bt_cap tab - 1))
     else Some i
   }"

definition table_probe :: "block_table \<Rightarrow> addr \<Rightarrow> nat option" where
  "table_probe tab addr = do { i \<leftarrow> table_home tab addr; probe_loop tab addr i }"

fun table_grow_loop :: "block_record list \<Rightarrow> block_table \<Rightarrow> block_table option" where
  "table_grow_loop [] tab = Some tab"
| "table_grow_loop (r # rest) tab = do {
     tab \<leftarrow> (if br_addr r \<noteq> 0 then do { i \<leftarrow> table_probe tab (br_addr r); slot_set tab i r } else Some tab);
     table_grow_loop rest tab
   }"

definition table_grow :: "block_table \<Rightarrow> heap \<Rightarrow> (bool \<times> block_table \<times> heap) option" where
  "table_grow tab h = (let new_cap = (if bt_cap tab \<noteq> 0 then wmul 2 (bt_cap tab) else TABLE_MIN_CAP) in do {
     (served, h) \<leftarrow> al_alloc_n tda_al_default record_layout new_cap h;
     if \<not> served then Some (False, tab, h)
     else do {
       new \<leftarrow> table_grow_loop (take (bt_cap tab) (bt_slots tab))
         \<lparr>bt_slots = replicate new_cap no_record, bt_cap = new_cap, bt_len = bt_len tab\<rparr>;
       h \<leftarrow> al_dealloc_n tda_al_default (bt_cap tab \<noteq> 0) record_layout (bt_cap tab) h;
       Some (True, new, h)
     }
   })"

definition table_insert :: "block_table \<Rightarrow> block_record \<Rightarrow> heap \<Rightarrow> (bool \<times> block_table \<times> heap) option" where
  "table_insert tab entry h = do {
     chk (br_addr entry \<noteq> 0);
     (room, tab, h) \<leftarrow> (if wmul 2 (wadd (bt_len tab) 1) > bt_cap tab then table_grow tab h else Some (True, tab, h));
     if \<not> room then Some (False, tab, h)
     else do {
       i \<leftarrow> table_probe tab (br_addr entry);
       r \<leftarrow> slot_at tab i;
       chk (br_addr r = 0);
       tab \<leftarrow> slot_set tab i entry;
       Some (True, tab\<lparr>bt_len := wadd (bt_len tab) 1\<rparr>, h)
     }
   }"

definition table_find :: "block_table \<Rightarrow> addr \<Rightarrow> block_record option option" where
  "table_find tab addr =
     (if bt_cap tab = 0 then Some None
      else do {
        i \<leftarrow> table_probe tab addr;
        r \<leftarrow> slot_at tab i;
        Some (if br_addr r = 0 then None else Some r)
      })"

text \<open>The loop of \<open>table_take\<close>, which pulls later entries of the run into the hole.\<close>

partial_function (option) shift_loop :: "block_table \<Rightarrow> nat \<Rightarrow> nat \<Rightarrow> block_table option" where
  "shift_loop tab hole i = do {
     r \<leftarrow> slot_at tab i;
     if br_addr r = 0 then Some tab
     else do {
       home \<leftarrow> table_home tab (br_addr r);
       let mask = bt_cap tab - 1;
       if (wsub i home AND mask) \<ge> (wsub i hole AND mask) then do {
         tab \<leftarrow> slot_set tab hole r;
         tab \<leftarrow> slot_set tab i no_record;
         shift_loop tab i (wadd i 1 AND mask)
       }
       else shift_loop tab hole (wadd i 1 AND mask)
     }
   }"

definition table_take :: "block_table \<Rightarrow> addr \<Rightarrow> (block_record option \<times> block_table) option" where
  "table_take tab addr =
     (if bt_cap tab = 0 then Some (None, tab)
      else do {
        hole \<leftarrow> table_probe tab addr;
        r \<leftarrow> slot_at tab hole;
        if br_addr r = 0 then Some (None, tab)
        else do {
          tab \<leftarrow> slot_set tab hole no_record;
          tab \<leftarrow> Some (tab\<lparr>bt_len := wsub (bt_len tab) 1\<rparr>);
          tab \<leftarrow> shift_loop tab hole (wadd hole 1 AND (bt_cap tab - 1));
          Some (Some r, tab)
        }
      })"

section \<open>Paths around the ring\<close>

text \<open>The slots from \<open>h\<close> up to but not including \<open>i\<close>, around a ring of \<open>C\<close>.\<close>

definition arc :: "nat \<Rightarrow> nat \<Rightarrow> nat \<Rightarrow> nat set" where
  "arc C h i = {x. x < C \<and> (if h \<le> i then h \<le> x \<and> x < i else h \<le> x \<or> x < i)}"

text \<open>A ring of addresses \<open>B\<close>, 0 where empty, in which each can be reached from its home.\<close>

definition reach :: "nat \<Rightarrow> (addr \<Rightarrow> nat) \<Rightarrow> (nat \<Rightarrow> addr) \<Rightarrow> bool" where
  "reach C hm B \<longleftrightarrow> (\<forall>s < C. B s \<noteq> 0 \<longrightarrow> (\<forall>x \<in> arc C (hm (B s)) s. B x \<noteq> 0))"

text \<open>
  While a hole at \<open>u\<close> moves, what lies at or after \<open>t\<close> may have lost its arc through the hole; nothing
  else has.
\<close>

definition reach_but :: "nat \<Rightarrow> (addr \<Rightarrow> nat) \<Rightarrow> nat \<Rightarrow> nat \<Rightarrow> (nat \<Rightarrow> addr) \<Rightarrow> bool" where
  "reach_but C hm u t B \<longleftrightarrow>
     (\<forall>s < C. B s \<noteq> 0 \<longrightarrow> (\<forall>x \<in> arc C (hm (B s)) s. B x \<noteq> 0 \<or> (x = u \<and> t \<le> s)))"

lemma reach_butD:
  "reach_but C hm u t B \<Longrightarrow> s < C \<Longrightarrow> B s \<noteq> 0 \<Longrightarrow> x \<in> arc C (hm (B s)) s \<Longrightarrow> B x \<noteq> 0 \<or> (x = u \<and> t \<le> s)"
  by (simp add: reach_but_def)

lemma hole_made:
  assumes "reach C hm B"
  shows "reach_but C hm 0 1 (B(0 := 0))"
proof -
  have "(B(0 := 0)) x \<noteq> 0 \<or> (x = 0 \<and> 1 \<le> s)"
    if s: "s < C" "(B(0 := 0)) s \<noteq> 0" and x: "x \<in> arc C (hm ((B(0 := 0)) s)) s" for s x
  proof -
    have s0: "s \<noteq> 0" using s(2) by (cases s) auto
    then have "B s \<noteq> 0" "x \<in> arc C (hm (B s)) s" using s(2) x by simp_all
    then have "B x \<noteq> 0" using assms s(1) by (simp add: reach_def)
    then show ?thesis using s0 by simp
  qed
  then show ?thesis unfolding reach_but_def by blast
qed

lemma hole_stays:
  assumes "reach_but C hm u t B" "u \<notin> arc C (hm (B t)) t"
  shows "reach_but C hm u (Suc t) B"
proof -
  have "B x \<noteq> 0 \<or> (x = u \<and> Suc t \<le> s)" if s: "s < C" "B s \<noteq> 0" and x: "x \<in> arc C (hm (B s)) s" for s x
    using reach_butD [OF assms(1) s x] assms(2) x by (cases "s = t") auto
  then show ?thesis unfolding reach_but_def by blast
qed

lemma hole_moves:
  assumes R: "reach_but C hm u t B" and u: "u < t" "u \<in> arc C (hm (B t)) t" and t: "t < C" "B t \<noteq> 0"
    and e: "t < e" "e < C" "B e = 0"
  shows "reach_but C hm t (Suc t) (B(u := B t, t := 0))"
proof -
  let ?B = "B(u := B t, t := 0)"
  have "?B x \<noteq> 0 \<or> (x = t \<and> Suc t \<le> s)" if s: "s < C" "?B s \<noteq> 0" and x: "x \<in> arc C (hm (?B s)) s" for s x
  proof (cases "s = u")
    case True
    then have x': "x \<in> arc C (hm (B t)) t" "x \<noteq> u" "x \<noteq> t"
      using x u by (auto simp: arc_def split: if_splits)
    then show ?thesis using reach_butD [OF R t x'(1)] by simp
  next
    case False
    have st: "s \<noteq> t" using s(2) by auto
    then have Bs: "B s \<noteq> 0" "x \<in> arc C (hm (B s)) s" using s(2) x False by simp_all
    have "e \<in> arc C (hm (B s)) s" if "x = t" "s < t" using Bs(2) that e by (auto simp: arc_def split: if_splits)
    then have "t < s" if "x = t" using reach_butD [OF R s(1) Bs(1), of e] e u(1) st that by force
    then show ?thesis using reach_butD [OF R s(1) Bs] t(2) by auto
  qed
  then show ?thesis unfolding reach_but_def by blast
qed

lemma hole_settles:
  assumes R: "reach_but C hm u t B" and u: "u < t" and t: "t < C" "B t = 0"
  shows "reach C hm B"
proof -
  have "B x \<noteq> 0" if s: "s < C" "B s \<noteq> 0" and x: "x \<in> arc C (hm (B s)) s" for s x
  proof (rule ccontr)
    assume "\<not> B x \<noteq> 0"
    then have "x = u" "t \<le> s" using reach_butD [OF R s x] by auto
    moreover then have "t < s" using s(2) t(2) by (cases "t = s") auto
    ultimately have "t \<in> arc C (hm (B s)) s" using x u t(1) by (auto simp: arc_def split: if_splits)
    then show False using reach_butD [OF R s, of t] t(2) u by auto
  qed
  then show ?thesis unfolding reach_def by blast
qed

text \<open>Turning the ring: positions counted from \<open>b\<close>.\<close>

definition turn :: "nat \<Rightarrow> nat \<Rightarrow> nat \<Rightarrow> nat" where
  "turn C b s = (b + s) mod C"

lemma turn_cases: "b < C \<Longrightarrow> s < C \<Longrightarrow> turn C b s = (if b + s < C then b + s else b + s - C)"
  by (simp add: turn_def mod_if)

lemma turn_lt: "0 < C \<Longrightarrow> turn C b s < C"
  by (simp add: turn_def)

lemma turn_inj: "b < C \<Longrightarrow> s < C \<Longrightarrow> t < C \<Longrightarrow> turn C b s = turn C b t \<longleftrightarrow> s = t"
  by (auto simp: turn_cases split: if_splits)

lemma turn_onto:
  assumes "b < C" "x < C"
  obtains s where "s < C" "turn C b s = x"
proof (cases "b \<le> x")
  case True
  then show ?thesis using that [of "x - b"] assms by (simp add: turn_cases)
next
  case False
  then show ?thesis using that [of "x + C - b"] assms by (simp add: turn_cases)
qed

lemma turn_path:
  assumes "b < C" "h < C" "s < C" "x < C"
  shows "turn C b x \<in> arc C (turn C b h) (turn C b s) \<longleftrightarrow> x \<in> arc C h s"
  using assms by (auto simp: turn_cases arc_def split: if_splits)

text \<open>The steps from one slot to another.\<close>

lemma turn_dist:
  assumes "b < C" "h < C" "s < C"
  shows "(turn C b s + C - turn C b h) mod C = (if h \<le> s then s - h else s + C - h)"
  using assms by (auto simp: turn_cases mod_if)

lemma dist_path:
  assumes "h < C" "u < t" "t < C"
  shows "(if h \<le> t then t - h else t + C - h) \<ge> t - u \<longleftrightarrow> u \<in> arc C h t"
  using assms by (auto simp: arc_def)

lemma turned_reach:
  assumes b: "b < C" and hm: "\<And>a. hm a < C"
  shows "reach C (\<lambda>a. (hm a + C - b) mod C) (\<lambda>s. B (turn C b s)) \<longleftrightarrow> reach C hm B"
proof -
  let ?h = "\<lambda>a. (hm a + C - b) mod C"
  have C: "0 < C" using b by simp
  have th: "turn C b (?h a) = hm a" "?h a < C" for a
    using b hm [of a] by (auto simp: turn_cases mod_if)
  have p: "turn C b x \<in> arc C (hm a) (turn C b s) \<longleftrightarrow> x \<in> arc C (?h a) s" if "s < C" "x < C" for a s x
    using turn_path [OF b th(2) that, of a] th(1) [of a] by simp
  have "B y \<noteq> 0" if R: "reach C ?h (\<lambda>s. B (turn C b s))" and i: "i < C" "B i \<noteq> 0" and y: "y \<in> arc C (hm (B i)) i" for i y
  proof -
    obtain s x where sx: "s < C" "turn C b s = i" "x < C" "turn C b x = y"
      using turn_onto [OF b i(1)] turn_onto [OF b, of y] y by (metis (no_types, lifting) mem_Collect_eq arc_def)
    then show ?thesis using R i(2) y p [OF sx(1,3), of "B i"] unfolding reach_def by metis
  qed
  moreover have "B (turn C b x) \<noteq> 0"
    if R: "reach C hm B" and s: "s < C" "B (turn C b s) \<noteq> 0" and x: "x \<in> arc C (?h (B (turn C b s))) s" for s x
  proof -
    have "x < C" using x by (simp add: arc_def)
    then show ?thesis using R s p [OF s(1), of x] x turn_lt [OF C] unfolding reach_def by blast
  qed
  ultimately show ?thesis unfolding reach_def by blast
qed

end
