(* ===== verification/DebugMap.thy ===== *)
theory DebugMap
  imports DebugTable
begin

text \<open>
  The table of \<open>alloc/debug.c\<close> is a finite map from addresses to records: probing finds the record of an
  address or the empty slot for it, inserting and growing keep every record, and the backward shift of
  \<open>table_take\<close> leaves every other record where a probe finds it.
\<close>

section \<open>The invariant\<close>

definition homes :: "nat \<Rightarrow> addr \<Rightarrow> nat" where
  "homes C a = unat (tda_hash_u64 (word_of_nat a)) mod C"

definition addrs :: "block_table \<Rightarrow> nat \<Rightarrow> addr" where
  "addrs tab i = br_addr (bt_slots tab ! i)"

definition recs :: "block_table \<Rightarrow> block_record list" where
  "recs tab = filter (\<lambda>r. br_addr r \<noteq> 0) (bt_slots tab)"

definition shaped :: "block_table \<Rightarrow> bool" where
  "shaped tab \<longleftrightarrow> length (bt_slots tab) = bt_cap tab \<and> (bt_cap tab = 0 \<or> tda_layout_is_align (bt_cap tab)) \<and>
     32 * bt_cap tab \<le> SIZE_MAX \<and> distinct (map br_addr (recs tab))"

definition table_ok :: "block_table \<Rightarrow> bool" where
  "table_ok tab \<longleftrightarrow> shaped tab \<and> reach (bt_cap tab) (homes (bt_cap tab)) (addrs tab) \<and>
     bt_len tab = length (recs tab) \<and> 2 * bt_len tab \<le> bt_cap tab"

text \<open>The map the table stands for.\<close>

definition table_map :: "block_table \<Rightarrow> addr \<rightharpoonup> block_record" where
  "table_map tab = map_of (map (\<lambda>r. (br_addr r, r)) (recs tab))"

section \<open>Arithmetic of the ring\<close>

lemma shaped_ring:
  assumes "shaped tab" "0 < bt_cap tab"
  shows "tda_layout_is_align (bt_cap tab)" "bt_cap tab dvd 2 ^ 64" "bt_cap tab < 2 ^ 59" "length (bt_slots tab) = bt_cap tab"
proof -
  show a: "tda_layout_is_align (bt_cap tab)" "length (bt_slots tab) = bt_cap tab" using assms by (simp_all add: shaped_def)
  have "32 * bt_cap tab \<le> SIZE_MAX" using assms(1) by (simp add: shaped_def)
  then show "bt_cap tab < 2 ^ 59" by (simp add: SIZE_MAX_def)
  then show "bt_cap tab dvd 2 ^ 64" using a(1) by (intro align_dvd_2_64) (simp_all add: SIZE_MAX_def)
qed

lemma home_eq:
  assumes "shaped tab" "0 < bt_cap tab"
  shows "table_home tab a = Some (homes (bt_cap tab) a)" "homes (bt_cap tab) a < bt_cap tab"
  using assms and_align_simp [OF shaped_ring(1) [OF assms]] by (simp_all add: table_home_def homes_def)

lemma next_slot:
  assumes "shaped tab" "i < bt_cap tab"
  shows "(wadd i 1 AND (bt_cap tab - 1)) = turn (bt_cap tab) i 1"
proof -
  have C: "0 < bt_cap tab" using assms(2) by simp
  note R = shaped_ring [OF assms(1) C]
  have "wadd i 1 = i + 1" using assms(2) R(3) by (intro wadd_small) (simp add: SIZE_MAX_def)
  then show ?thesis using and_align_pred [OF R(1)] by (simp add: turn_def)
qed

lemma slot_dist:
  assumes "shaped tab" "i < bt_cap tab" "j < bt_cap tab"
  shows "(wsub i j AND (bt_cap tab - 1)) = (i + bt_cap tab - j) mod bt_cap tab"
proof -
  let ?C = "bt_cap tab"
  have C: "0 < ?C" using assms(2) by simp
  note R = shaped_ring [OF assms(1) C]
  obtain q where q: "2 ^ 64 = ?C * q" using R(2) by blast
  have q0: "0 < q" using q by (cases q) auto
  have "wsub i j mod ?C = (i + wneg j) mod ?C"
    using R(2) by (simp add: wsub_def mod_mod_cancel)
  also have "\<dots> = (i + (2 ^ 64 - j)) mod ?C"
  proof (cases "j = 0")
    case True
    have "(i + ?C * q) mod ?C = i mod ?C" by simp
    then show ?thesis using True unfolding q [symmetric] by (simp add: wneg_def)
  next
    case False
    then show ?thesis using assms(3) R(3) by (simp add: wneg_def)
  qed
  also have "2 ^ 64 - j = (?C - j) + ?C * (q - 1)"
    using assms(3) q0 unfolding q by (cases q) auto
  also have "(i + ((?C - j) + ?C * (q - 1))) mod ?C = (i + (?C - j)) mod ?C"
    by (metis add.assoc mod_mult_self2)
  also have "i + (?C - j) = i + ?C - j" using assms(3) by simp
  finally show ?thesis using and_align_pred [OF R(1)] by simp
qed

lemma turn_0: "b < C \<Longrightarrow> turn C b 0 = b"
  by (simp add: turn_def)

lemma turn_Suc: "turn C (turn C b s) 1 = turn C b (Suc s)"
  by (simp add: turn_def mod_simps)

lemma turn_turn: "turn C (turn C b s) t = turn C b (s + t)"
  by (simp add: turn_def mod_simps add.assoc)

lemma path_turns:
  assumes "h < C" "n < C" "d < n"
  shows "turn C h d \<in> arc C h (turn C h n)"
proof -
  have "d \<in> arc C 0 n" using assms by (simp add: arc_def)
  then have "turn C h d \<in> arc C (turn C h 0) (turn C h n)" using turn_path [of h C 0 n d] assms by simp
  then show ?thesis using turn_0 [OF assms(1)] by simp
qed

lemma turns_path:
  assumes "h < C" "n < C" "x \<in> arc C h (turn C h n)"
  obtains d where "d < n" "x = turn C h d"
proof -
  have "x < C" using assms(3) by (simp add: arc_def)
  then obtain d where d: "d < C" "turn C h d = x" using turn_onto [OF assms(1)] by blast
  have "turn C h d \<in> arc C (turn C h 0) (turn C h n)" using assms(3) d(2) turn_0 [OF assms(1)] by simp
  then have "d \<in> arc C 0 n" using turn_path [of h C 0 n d] assms d(1) by simp
  then show thesis using that [of d] d by (simp add: arc_def)
qed

section \<open>Records and slots\<close>

lemma distinct_filter_nth:
  "distinct (filter P ys) \<Longrightarrow> i < length ys \<Longrightarrow> j < length ys \<Longrightarrow> P (ys ! i) \<Longrightarrow> ys ! i = ys ! j \<Longrightarrow> i = j"
proof (induction ys arbitrary: i j)
  case (Cons y ys)
  have d: "distinct (filter P ys)" using Cons.prems(1) by (auto split: if_splits)
  show ?case
  proof (cases i; cases j)
    fix k assume "i = 0" "j = Suc k"
    then show ?thesis using Cons.prems by (auto split: if_splits)
  next
    fix k assume "i = Suc k" "j = 0"
    then show ?thesis using Cons.prems by (auto split: if_splits)
  next
    fix k l assume "i = Suc k" "j = Suc l"
    then show ?thesis using Cons.IH [OF d, of k l] Cons.prems by simp
  qed simp
qed simp

lemma addrs_inj:
  assumes "shaped tab" "i < bt_cap tab" "j < bt_cap tab" "addrs tab i = addrs tab j" "addrs tab i \<noteq> 0"
  shows "i = j"
proof -
  have len: "length (bt_slots tab) = bt_cap tab" using assms(1) by (simp add: shaped_def)
  have "distinct (filter (\<lambda>a. a \<noteq> 0) (map br_addr (bt_slots tab)))"
    using assms(1) by (simp add: shaped_def recs_def filter_map o_def)
  from distinct_filter_nth [OF this, of i j] show ?thesis using assms(2-5) len by (simp add: addrs_def)
qed

lemma recs_slot:
  assumes "length (bt_slots tab) = bt_cap tab"
  shows "r \<in> set (recs tab) \<longleftrightarrow> (\<exists>i < bt_cap tab. bt_slots tab ! i = r \<and> addrs tab i \<noteq> 0)"
  using assms by (auto simp: recs_def addrs_def in_set_conv_nth)

lemma table_map_Some:
  assumes "shaped tab"
  shows "table_map tab a = Some r \<longleftrightarrow> r \<in> set (recs tab) \<and> br_addr r = a"
proof -
  have "distinct (map fst (map (\<lambda>r. (br_addr r, r)) (recs tab)))" using assms by (simp add: shaped_def o_def)
  then show ?thesis by (auto simp: table_map_def map_of_eq_Some_iff simp del: map_map)
qed

lemma table_map_None: "table_map tab a = None \<longleftrightarrow> (\<forall>r \<in> set (recs tab). br_addr r \<noteq> a)"
  by (force simp: table_map_def map_of_eq_None_iff)

lemma table_map_mset:
  assumes "shaped tab" "shaped tab'" "mset (recs tab') = mset (recs tab)"
  shows "table_map tab' = table_map tab"
proof (rule ext)
  fix a
  have "set (recs tab') = set (recs tab)" using assms(3) by (rule mset_eq_setD)
  then have "table_map tab' a = Some r \<longleftrightarrow> table_map tab a = Some r" for r
    using table_map_Some [OF assms(1)] table_map_Some [OF assms(2)] by simp
  then show "table_map tab' a = table_map tab a" by (metis not_Some_eq)
qed

lemma some_empty:
  assumes "length (bt_slots tab) = bt_cap tab" "length (recs tab) < bt_cap tab"
  shows "\<exists>e < bt_cap tab. addrs tab e = 0"
proof (rule ccontr)
  assume "\<not> ?thesis"
  then have "\<forall>r \<in> set (bt_slots tab). br_addr r \<noteq> 0" using assms(1) by (auto simp: addrs_def in_set_conv_nth)
  then have "recs tab = bt_slots tab" by (simp add: recs_def)
  then show False using assms by simp
qed

section \<open>Probing\<close>

lemma probe_steps:
  assumes sh: "shaped tab" and i: "i < bt_cap tab"
    and busy: "\<And>d. d < n \<Longrightarrow> addrs tab (turn (bt_cap tab) i d) \<notin> {0, a}"
    and stop: "addrs tab (turn (bt_cap tab) i n) \<in> {0, a}"
  shows "probe_loop tab a i = Some (turn (bt_cap tab) i n)"
  using i busy stop
proof (induction n arbitrary: i)
  case 0
  then show ?case using sh by (subst probe_loop.simps) (auto simp: turn_0 slot_at_def shaped_def addrs_def)
next
  case (Suc n)
  let ?C = "bt_cap tab" let ?j = "turn ?C i 1"
  have j: "?j < ?C" using Suc.prems(1) by (intro turn_lt) simp
  have t: "turn ?C ?j d = turn ?C i (Suc d)" for d by (simp add: turn_turn)
  note t' = t [unfolded One_nat_def]
  have "probe_loop tab a ?j = Some (turn ?C ?j n)"
    by (rule Suc.IH [OF j]) (use Suc.prems(2) [of "Suc d" for d] Suc.prems(3) in \<open>simp_all add: t'\<close>)
  moreover have "addrs tab i \<notin> {0, a}" using Suc.prems(2) [of 0] Suc.prems(1) by (simp add: turn_0)
  then have "probe_loop tab a i = probe_loop tab a ?j"
    using Suc.prems(1) sh next_slot [OF sh Suc.prems(1)]
    by (subst probe_loop.simps) (simp add: slot_at_def shaped_def addrs_def)
  ultimately show ?case by (simp add: t')
qed

lemma probe_present:
  assumes sh: "shaped tab" and R: "reach (bt_cap tab) (homes (bt_cap tab)) (addrs tab)"
    and i: "i < bt_cap tab" "addrs tab i = a" "a \<noteq> 0"
  shows "table_probe tab a = Some i"
proof -
  let ?C = "bt_cap tab" let ?h = "homes ?C a"
  have C: "0 < ?C" using i(1) by simp
  note H = home_eq [OF sh C, of a]
  obtain n where n: "n < ?C" "turn ?C ?h n = i" using turn_onto [OF H(2) i(1)] by blast
  have "addrs tab (turn ?C ?h d) \<notin> {0, a}" if d: "d < n" for d
  proof -
    have "turn ?C ?h d \<in> arc ?C ?h i" using path_turns [OF H(2) n(1) d] n(2) by simp
    then have nz: "addrs tab (turn ?C ?h d) \<noteq> 0" using R i unfolding reach_def by blast
    moreover have "turn ?C ?h d \<noteq> i" using turn_inj [OF H(2), of d n] n d by auto
    then have "addrs tab (turn ?C ?h d) \<noteq> a" using addrs_inj [OF sh turn_lt [OF C] i(1)] nz i(2) by metis
    ultimately show ?thesis by simp
  qed
  then have "probe_loop tab a ?h = Some (turn ?C ?h n)"
    using i n by (intro probe_steps [OF sh H(2)]) auto
  then show ?thesis using H(1) n(2) by (simp add: table_probe_def)
qed

lemma probe_absent:
  assumes sh: "shaped tab" and abs: "\<And>i. i < bt_cap tab \<Longrightarrow> addrs tab i \<noteq> a" and e: "e < bt_cap tab" "addrs tab e = 0"
  obtains i where "table_probe tab a = Some i" "i < bt_cap tab" "addrs tab i = 0"
    "\<And>x. x \<in> arc (bt_cap tab) (homes (bt_cap tab) a) i \<Longrightarrow> addrs tab x \<noteq> 0"
proof -
  let ?C = "bt_cap tab" let ?h = "homes ?C a"
  have C: "0 < ?C" using e(1) by simp
  note H = home_eq [OF sh C, of a]
  obtain k where k: "k < ?C" "turn ?C ?h k = e" using turn_onto [OF H(2) e(1)] by blast
  define n where "n = (LEAST n. addrs tab (turn ?C ?h n) = 0)"
  have n: "addrs tab (turn ?C ?h n) = 0" and le: "n \<le> k"
    using k e(2) unfolding n_def by (auto intro: LeastI Least_le)
  have before: "addrs tab (turn ?C ?h d) \<noteq> 0" if "d < n" for d using that not_less_Least unfolding n_def by blast
  have nC: "n < ?C" using le k(1) by simp
  have "probe_loop tab a ?h = Some (turn ?C ?h n)"
    using before n abs turn_lt [OF C] by (intro probe_steps [OF sh H(2)]) auto
  then have p: "table_probe tab a = Some (turn ?C ?h n)" using H(1) by (simp add: table_probe_def)
  have "addrs tab x \<noteq> 0" if x: "x \<in> arc ?C ?h (turn ?C ?h n)" for x
    using turns_path [OF H(2) nC x] before by metis
  then show thesis using that [OF p turn_lt [OF C] n] by blast
qed

section \<open>Placing records\<close>

lemma recs_update:
  assumes "i < length (bt_slots tab)"
  shows "mset (recs (tab\<lparr>bt_slots := (bt_slots tab)[i := r]\<rparr>)) =
    mset (recs tab) - (if addrs tab i \<noteq> 0 then {#bt_slots tab ! i#} else {#}) + (if br_addr r \<noteq> 0 then {#r#} else {#})"
proof -
  let ?nz = "\<lambda>r. br_addr r \<noteq> 0"
  have in_slots: "bt_slots tab ! i \<in># mset (bt_slots tab)" using assms by simp
  have "mset ((bt_slots tab)[i := r]) = add_mset r (mset (bt_slots tab) - {#bt_slots tab ! i#})"
    using assms by (simp add: mset_update)
  then have "filter_mset ?nz (mset ((bt_slots tab)[i := r])) =
      filter_mset ?nz (mset (bt_slots tab) - {#bt_slots tab ! i#}) + (if br_addr r \<noteq> 0 then {#r#} else {#})"
    by simp
  also have "filter_mset ?nz (mset (bt_slots tab) - {#bt_slots tab ! i#}) =
      filter_mset ?nz (mset (bt_slots tab)) - (if addrs tab i \<noteq> 0 then {#bt_slots tab ! i#} else {#})"
    by (simp add: addrs_def)
  finally show ?thesis by (simp add: recs_def)
qed

lemma distinct_addrs_mset:
  "mset xs = mset ys \<Longrightarrow> distinct (map br_addr xs) \<longleftrightarrow> distinct (map br_addr ys)"
  by (rule mset_eq_imp_distinct_iff) simp

lemma place_ok:
  assumes sh: "shaped tab" and R: "reach (bt_cap tab) (homes (bt_cap tab)) (addrs tab)"
    and r: "br_addr r \<noteq> 0" "\<And>r'. r' \<in> set (recs tab) \<Longrightarrow> br_addr r' \<noteq> br_addr r"
    and room: "length (recs tab) < bt_cap tab"
  shows "\<exists>i tab'. table_probe tab (br_addr r) = Some i \<and> slot_at tab i = Some (bt_slots tab ! i) \<and> addrs tab i = 0 \<and>
    slot_set tab i r = Some tab' \<and> bt_cap tab' = bt_cap tab \<and> bt_len tab' = bt_len tab \<and> shaped tab' \<and>
    reach (bt_cap tab') (homes (bt_cap tab')) (addrs tab') \<and> mset (recs tab') = add_mset r (mset (recs tab))"
proof -
  let ?C = "bt_cap tab"
  have len: "length (bt_slots tab) = ?C" using sh by (simp add: shaped_def)
  obtain e where e: "e < ?C" "addrs tab e = 0" using some_empty [OF len room] by blast
  have abs: "addrs tab i \<noteq> br_addr r" if "i < ?C" for i
    using r that recs_slot [OF len] by (cases "addrs tab i = 0") (auto simp: addrs_def)
  obtain i where p: "table_probe tab (br_addr r) = Some i" and i: "i < ?C" "addrs tab i = 0"
    and arc: "\<And>x. x \<in> arc ?C (homes ?C (br_addr r)) i \<Longrightarrow> addrs tab x \<noteq> 0"
    using probe_absent [OF sh abs e] by blast
  let ?t = "tab\<lparr>bt_slots := (bt_slots tab)[i := r]\<rparr>"
  have ms: "mset (recs ?t) = add_mset r (mset (recs tab))" using recs_update [of i tab r] i r(1) len by simp
  then have "mset (recs ?t) = mset (r # recs tab)" by simp
  then have "distinct (map br_addr (recs ?t)) \<longleftrightarrow> distinct (map br_addr (r # recs tab))" by (rule distinct_addrs_mset)
  then have sh': "shaped ?t" using sh r(2) by (auto simp: shaped_def)
  have ad: "addrs ?t x = (if x = i then br_addr r else addrs tab x)" if "x < ?C" for x
    using that len by (simp add: addrs_def nth_list_update)
  have "addrs ?t x \<noteq> 0" if s: "s < ?C" "addrs ?t s \<noteq> 0" and x: "x \<in> arc ?C (homes ?C (addrs ?t s)) s" for s x
  proof -
    have xC: "x < ?C" using x by (simp add: arc_def)
    show ?thesis
    proof (cases "s = i")
      case True
      then show ?thesis using arc x ad [OF s(1)] ad [OF xC] r(1) by auto
    next
      case False
      then have "addrs tab x \<noteq> 0" using R s x ad [OF s(1)] unfolding reach_def by auto
      then show ?thesis using ad [OF xC] r(1) by auto
    qed
  qed
  then have "reach (bt_cap ?t) (homes (bt_cap ?t)) (addrs ?t)" by (simp add: reach_def)
  then show ?thesis using p i sh' ms len by (simp add: slot_at_def slot_set_def)
qed

lemma table_grow_loop_ok:
  assumes "shaped tab" "reach (bt_cap tab) (homes (bt_cap tab)) (addrs tab)"
    and "distinct (map br_addr (filter (\<lambda>r. br_addr r \<noteq> 0) rs @ recs tab))"
    and "length (filter (\<lambda>r. br_addr r \<noteq> 0) rs) + length (recs tab) \<le> bt_cap tab"
  shows "\<exists>tab'. table_grow_loop rs tab = Some tab' \<and> bt_cap tab' = bt_cap tab \<and> bt_len tab' = bt_len tab \<and> shaped tab' \<and>
    reach (bt_cap tab') (homes (bt_cap tab')) (addrs tab') \<and>
    mset (recs tab') = mset (recs tab) + mset (filter (\<lambda>r. br_addr r \<noteq> 0) rs)"
  using assms
proof (induction rs arbitrary: tab)
  case Nil
  then show ?case by simp
next
  case (Cons r rs)
  show ?case
  proof (cases "br_addr r = 0")
    case True
    then show ?thesis using Cons.IH [OF Cons.prems(1,2)] Cons.prems(3,4) by simp
  next
    case False
    have fresh: "br_addr r' \<noteq> br_addr r" if "r' \<in> set (recs tab)" for r'
    proof
      assume "br_addr r' = br_addr r"
      then have "br_addr r \<in> br_addr ` set (recs tab)" using that by (metis imageI)
      then show False using Cons.prems(3) False by simp
    qed
    have room: "length (recs tab) < bt_cap tab" using Cons.prems(4) False by simp
    obtain i t where p: "table_probe tab (br_addr r) = Some i" "slot_set tab i r = Some t" and cap: "bt_cap t = bt_cap tab" "bt_len t = bt_len tab"
      and t: "shaped t" "reach (bt_cap t) (homes (bt_cap t)) (addrs t)" "mset (recs t) = add_mset r (mset (recs tab))"
      using place_ok [OF Cons.prems(1,2) False fresh room] by blast
    have len: "length (recs t) = Suc (length (recs tab))" using t(3) by (metis size_add_mset size_mset)
    have "mset (filter (\<lambda>r. br_addr r \<noteq> 0) rs @ recs t) = mset (filter (\<lambda>r. br_addr r \<noteq> 0) (r # rs) @ recs tab)"
      using t(3) False by simp
    then have d: "distinct (map br_addr (filter (\<lambda>r. br_addr r \<noteq> 0) rs @ recs t))"
      using distinct_addrs_mset Cons.prems(3) by blast
    obtain t' where "table_grow_loop rs t = Some t'" "bt_cap t' = bt_cap t" "bt_len t' = bt_len t" "shaped t'"
      "reach (bt_cap t') (homes (bt_cap t')) (addrs t')" "mset (recs t') = mset (recs t) + mset (filter (\<lambda>r. br_addr r \<noteq> 0) rs)"
      using Cons.IH [OF t(1,2) d] Cons.prems(4) False len cap by auto
    then show ?thesis using p(1,2) False t(3) cap by simp
  qed
qed

section \<open>The map's operations\<close>

lemma table_okD:
  assumes "table_ok tab"
  shows "shaped tab" "reach (bt_cap tab) (homes (bt_cap tab)) (addrs tab)" "bt_len tab = length (recs tab)"
    "2 * bt_len tab \<le> bt_cap tab" "length (bt_slots tab) = bt_cap tab"
  using assms by (simp_all add: table_ok_def shaped_def)

lemma no_table_ok: "table_ok no_table" "table_map no_table = Map.empty"
  by (auto simp: table_ok_def no_table_def shaped_def recs_def reach_def table_map_def)

lemma find_ok:
  assumes ok: "table_ok tab" and a: "a \<noteq> 0"
  shows "table_find tab a = Some (table_map tab a)"
proof (cases "bt_cap tab = 0")
  case True
  then show ?thesis using table_okD(5) [OF ok] by (simp add: table_find_def table_map_def recs_def)
next
  case False
  note T = table_okD [OF ok]
  show ?thesis
  proof (cases "table_map tab a")
    case None
    then have abs: "addrs tab i \<noteq> a" if "i < bt_cap tab" for i
      using a that recs_slot [OF T(5)] by (auto simp: table_map_None addrs_def)
    obtain e where "e < bt_cap tab" "addrs tab e = 0" using some_empty [OF T(5)] T(3,4) False by fastforce
    then obtain i where "table_probe tab a = Some i" "i < bt_cap tab" "addrs tab i = 0"
      using probe_absent [OF T(1) abs] by blast
    then show ?thesis using None False T(5) by (simp add: table_find_def slot_at_def addrs_def)
  next
    case (Some r)
    then have "r \<in> set (recs tab)" "br_addr r = a" using table_map_Some [OF T(1)] by simp_all
    then obtain i where i: "i < bt_cap tab" "bt_slots tab ! i = r" "addrs tab i \<noteq> 0" "addrs tab i = a"
      using recs_slot [OF T(5)] by (auto simp: addrs_def)
    then have "table_probe tab a = Some i" using probe_present [OF T(1,2)] a by blast
    then show ?thesis using Some False T(5) i by (simp add: table_find_def slot_at_def addrs_def)
  qed
qed

lemma replicate_shaped:
  assumes "tda_layout_is_align n" "32 * n \<le> SIZE_MAX"
  shows "shaped \<lparr>bt_slots = replicate n no_record, bt_cap = n, bt_len = k\<rparr>"
    "reach n hm (addrs \<lparr>bt_slots = replicate n no_record, bt_cap = n, bt_len = k\<rparr>)"
    "recs \<lparr>bt_slots = replicate n no_record, bt_cap = n, bt_len = k\<rparr> = []"
  using assms by (simp_all add: shaped_def recs_def reach_def addrs_def no_record_def)

lemma is_align_double: "tda_layout_is_align n \<Longrightarrow> tda_layout_is_align (2 * n)"
  unfolding is_align_iff by (metis power_Suc)

text \<open>The blocks the table has at the default allocator.\<close>

definition table_blocks :: "block_table \<Rightarrow> layout multiset" where
  "table_blocks tab = held record_layout (bt_cap tab)"

lemma record_type: "tda_layout_is_type record_layout"
  by (simp add: record_layout_def tda_layout_is_type_def)

lemma grow_ok:
  assumes ok: "table_ok tab" and own: "table_blocks tab \<subseteq># lives h tda_al_default"
  shows "\<exists>b tab' h'. table_grow tab h = Some (b, tab', h') \<and> table_ok tab' \<and> table_map tab' = table_map tab \<and>
    bt_len tab' = bt_len tab \<and> requests h tda_al_default (table_blocks tab) (table_blocks tab') True h' \<and>
    (b \<longrightarrow> 2 * (bt_len tab + 1) \<le> bt_cap tab') \<and> (\<not> b \<longrightarrow> tab' = tab) \<and> (b \<or> \<not> generous h tda_al_default \<or> SIZE_MAX < 64 * bt_cap tab)"
proof -
  note T = table_okD [OF ok]
  let ?C = "bt_cap tab"
  let ?n = "if ?C \<noteq> 0 then wmul 2 ?C else TABLE_MIN_CAP"
  have C32: "32 * ?C \<le> SIZE_MAX" using T(1) by (simp add: shaped_def)
  have n: "?n = (if ?C \<noteq> 0 then 2 * ?C else 64)"
    using C32 by (simp add: TABLE_MIN_CAP_def)
  have al: "tda_layout_is_align ?n"
    using T(1) is_align_double [of ?C] is_align_iff [of 64] unfolding n
    by (auto simp: shaped_def intro!: exI [of _ 6])
  obtain b h1 where a: "al_alloc_n tda_al_default record_layout ?n h = Some (b, h1)"
    and rq: "requests h tda_al_default {#} (held record_layout ?n) b h1"
    and g: "generous h tda_al_default \<Longrightarrow> 32 * ?n \<le> SIZE_MAX \<Longrightarrow> b"
    using al_alloc_n_spec [OF _ record_type, of tda_al_default ?n h] is_align_gt0 [OF al]
    by (metis record_layout_def layout.select_convs(1) tda_al_default_def zero_neq_one)
  show ?thesis
  proof (cases b)
    case False
    then have "table_grow tab h = Some (False, tab, h1)" using a by (simp add: table_grow_def Let_def)
    moreover have "requests h tda_al_default (table_blocks tab) (table_blocks tab) True h1"
      using requests_refused [OF _ own] rq False by simp
    moreover have "\<not> generous h tda_al_default \<or> SIZE_MAX < 64 * ?C"
      using g False n by (cases "?C = 0") (auto simp: SIZE_MAX_def not_less [symmetric])
    ultimately show ?thesis using ok by blast
  next
    case True
    have n32: "32 * ?n \<le> SIZE_MAX"
    proof (rule ccontr)
      assume "\<not> 32 * ?n \<le> SIZE_MAX"
      then have "al_alloc_n tda_al_default record_layout ?n h = Some (False, h)"
        using record_type by (simp add: al_alloc_n_def ckd_array_type record_layout_def)
      then show False using a True by simp
    qed
    let ?new = "\<lparr>bt_slots = replicate ?n no_record, bt_cap = ?n, bt_len = bt_len tab\<rparr>"
    note N = replicate_shaped [OF al n32, where k = "bt_len tab"]
    have all: "take ?C (bt_slots tab) = bt_slots tab" using T(5) by simp
    have d: "distinct (map br_addr (filter (\<lambda>r. br_addr r \<noteq> 0) (bt_slots tab) @ recs ?new))"
      using T(1) N(3) by (simp add: shaped_def recs_def)
    have room: "length (filter (\<lambda>r. br_addr r \<noteq> 0) (bt_slots tab)) + length (recs ?new) \<le> bt_cap ?new"
      using T(3,4) N(3) n by (simp add: recs_def)
    obtain t where t: "table_grow_loop (bt_slots tab) ?new = Some t" "bt_cap t = ?n" "bt_len t = bt_len tab" "shaped t"
      "reach (bt_cap t) (homes (bt_cap t)) (addrs t)" "mset (recs t) = mset (recs tab)"
      using table_grow_loop_ok [OF N(1) _ d room] N(2,3) by (auto simp: recs_def [of tab])
    have own1: "held record_layout ?C \<subseteq># lives h1 tda_al_default"
      using own rq True by (simp add: requests_def table_blocks_def subset_mset.add_increasing2)
    obtain h2 where f: "al_dealloc tda_al_default (?C \<noteq> 0) \<lparr>lsize = lsize record_layout * ?C, lalign = lalign record_layout\<rparr> h1 = Some h2"
      and l2: "lives h2 = (lives h1)(tda_al_default := lives h1 tda_al_default - held record_layout ?C)"
        "\<And>c. generous h1 c \<Longrightarrow> generous h2 c"
      using al_dealloc_held [OF _ record_type own1] by (auto simp: tda_al_default_def)
    then have "al_dealloc_n tda_al_default (?C \<noteq> 0) record_layout ?C h1 = Some h2"
      using C32 record_type by (simp add: al_dealloc_n_def ckd_array_type record_layout_def)
    then have run: "table_grow tab h = Some (True, t, h2)"
      using a True t(1) all by (simp add: table_grow_def Let_def)
    have "requests h1 tda_al_default (held record_layout ?C) {#} True h2" using l2 by (simp add: requests_def)
    then have "requests h tda_al_default (table_blocks tab) (held record_layout ?n) True h2"
      using requests_replace [of h tda_al_default "held record_layout ?n" h1 "table_blocks tab" h2] rq True own
      by (simp add: table_blocks_def)
    moreover have "length (recs t) = bt_len tab" using t(6) T(3) by (metis size_mset)
      moreover have "2 * (bt_len tab + 1) \<le> ?n"
      using T(4) n by (cases "?C = 0 \<or> ?C = 1") auto
    ultimately show ?thesis
      using run t table_map_mset [OF T(1) t(4,6)] by (auto simp: table_ok_def table_blocks_def)
  qed
qed

lemma insert_ok:
  assumes ok: "table_ok tab" and own: "table_blocks tab \<subseteq># lives h tda_al_default"
    and r: "br_addr r \<noteq> 0" "table_map tab (br_addr r) = None"
  shows "\<exists>b tab' h'. table_insert tab r h = Some (b, tab', h') \<and> table_ok tab' \<and>
    table_map tab' = (if b then (table_map tab)(br_addr r \<mapsto> r) else table_map tab) \<and>
    requests h tda_al_default (table_blocks tab) (table_blocks tab') True h' \<and>
    (b \<or> \<not> generous h tda_al_default \<or> SIZE_MAX < 64 * bt_cap tab)"
proof -
  note T = table_okD [OF ok]
  have small: "wmul 2 (wadd (bt_len tab) 1) = 2 * (bt_len tab + 1)"
    using T(1,4) by (simp add: shaped_def SIZE_MAX_def)
  obtain b t h1 where g: "(if wmul 2 (wadd (bt_len tab) 1) > bt_cap tab then table_grow tab h else Some (True, tab, h)) = Some (b, t, h1)"
    and t: "table_ok t" "table_map t = table_map tab" "bt_len t = bt_len tab"
      "requests h tda_al_default (table_blocks tab) (table_blocks t) True h1"
    and b: "b \<longrightarrow> 2 * (bt_len tab + 1) \<le> bt_cap t" "\<not> b \<longrightarrow> t = tab" "b \<or> \<not> generous h tda_al_default \<or> SIZE_MAX < 64 * bt_cap tab"
  proof (cases "wmul 2 (wadd (bt_len tab) 1) > bt_cap tab")
    case True
    obtain b t h1 where "table_grow tab h = Some (b, t, h1)" "table_ok t" "table_map t = table_map tab" "bt_len t = bt_len tab"
      "requests h tda_al_default (table_blocks tab) (table_blocks t) True h1" "b \<longrightarrow> 2 * (bt_len tab + 1) \<le> bt_cap t"
      "\<not> b \<longrightarrow> t = tab" "b \<or> \<not> generous h tda_al_default \<or> SIZE_MAX < 64 * bt_cap tab"
      using grow_ok [OF ok own] by (elim exE conjE)
    with True show thesis by (intro that [of b t h1]) auto
  next
    case False
    then show thesis using small ok requests_refl [OF own] by (intro that [of True tab h]) auto
  qed
  note U = table_okD [OF t(1)]
  show ?thesis
  proof (cases b)
    case False
    then have "table_insert tab r h = Some (False, t, h1)" using g r(1) by (simp add: table_insert_def)
    then show ?thesis using t b False by auto
  next
    case True
    have fresh: "br_addr r' \<noteq> br_addr r" if "r' \<in> set (recs t)" for r' using r(2) that t(2) table_map_None by metis
    have room: "length (recs t) < bt_cap t" using b(1) True U(3) t(3) by simp
    obtain i u where p: "table_probe t (br_addr r) = Some i" "slot_at t i = Some (bt_slots t ! i)" "addrs t i = 0"
      "slot_set t i r = Some u" "bt_cap u = bt_cap t" "bt_len u = bt_len t"
      and u: "shaped u" "reach (bt_cap u) (homes (bt_cap u)) (addrs u)" "mset (recs u) = add_mset r (mset (recs t))"
      using place_ok [OF U(1,2) r(1) fresh room] by blast
    let ?u = "u\<lparr>bt_len := wadd (bt_len u) 1\<rparr>"
    have run: "table_insert tab r h = Some (True, ?u, h1)"
      using g r(1) True p by (simp add: table_insert_def addrs_def)
    have same: "recs ?u = recs u" "addrs ?u = addrs u" by (simp_all add: recs_def addrs_def fun_eq_iff)
    have lenu: "length (recs u) = Suc (length (recs t))" using u(3) by (metis size_add_mset size_mset)
    have "wadd (bt_len u) 1 = bt_len t + 1" using p(6) U(1,4) by (simp add: shaped_def SIZE_MAX_def)
    then have oku: "table_ok ?u"
      using u lenu same p(5,6) b(1) True U(3) t(3) by (simp add: table_ok_def shaped_def)
    have "table_map ?u = (table_map tab)(br_addr r \<mapsto> r)"
    proof (rule ext)
      fix a
      have "set (recs ?u) = insert r (set (recs t))" using u(3) same by (metis set_mset_add_mset_insert set_mset_mset)
      then have "table_map ?u a = Some x \<longleftrightarrow> ((table_map t)(br_addr r \<mapsto> r)) a = Some x" for x
        using table_map_Some [OF table_okD(1) [OF oku]] table_map_Some [OF U(1)] fresh by auto
      then show "table_map ?u a = ((table_map tab)(br_addr r \<mapsto> r)) a" unfolding t(2) [symmetric] by (metis not_Some_eq)
    qed
    then show ?thesis using run oku t(4) p(5) True by (auto simp: table_blocks_def)
  qed
qed

section \<open>The backward shift\<close>

lemma reach_but_cong: "(\<And>s. s < C \<Longrightarrow> B s = B' s) \<Longrightarrow> reach_but C hm u t B \<Longrightarrow> reach_but C hm u t B'"
  unfolding reach_but_def arc_def by (metis (no_types, lifting) mem_Collect_eq)

lemma shift_ok:
  assumes "shaped tab" "b < bt_cap tab" "u < t" "t \<le> e" "e < bt_cap tab"
    and "bt_slots tab ! turn (bt_cap tab) b u = no_record" "addrs tab (turn (bt_cap tab) b e) = 0"
    and "reach_but (bt_cap tab) (\<lambda>a. (homes (bt_cap tab) a + bt_cap tab - b) mod bt_cap tab) u t
      (\<lambda>s. addrs tab (turn (bt_cap tab) b s))"
  shows "\<exists>tab'. shift_loop tab (turn (bt_cap tab) b u) (turn (bt_cap tab) b t) = Some tab' \<and>
    bt_cap tab' = bt_cap tab \<and> bt_len tab' = bt_len tab \<and> shaped tab' \<and> mset (bt_slots tab') = mset (bt_slots tab) \<and>
    reach (bt_cap tab') (homes (bt_cap tab')) (addrs tab')"
  using assms
proof (induction "e - t" arbitrary: tab u t rule: less_induct)
  case less
  let ?C = "bt_cap tab" and ?P = "turn (bt_cap tab) b"
  let ?H = "\<lambda>a. (homes ?C a + ?C - b) mod ?C" and ?B = "\<lambda>s. addrs tab (?P s)"
  note sh = less.prems(1) and b = less.prems(2) and ut = less.prems(3) and te = less.prems(4) and eC = less.prems(5)
  have C: "0 < ?C" using b by simp
  have len: "length (bt_slots tab) = ?C" using sh by (simp add: shaped_def)
  have tC: "t < ?C" and uC: "u < ?C" using te eC ut by simp_all
  have P: "?P s < ?C" for s by (rule turn_lt [OF C])
  have homes: "homes ?C a < ?C" for a using home_eq(2) [OF sh C] .
  let ?r = "bt_slots tab ! ?P t"
  have nxt: "(wadd (?P t) 1 AND (?C - 1)) = ?P (Suc t)" using next_slot [OF sh P] turn_Suc by simp
  show ?case
  proof (cases "?B t = 0")
    case True
    have "reach ?C ?H ?B" by (rule hole_settles [OF less.prems(8) ut tC True])
    then have "reach ?C (homes ?C) (addrs tab)" using turned_reach [OF b homes, where B = "addrs tab"] by simp
    moreover have "shift_loop tab (?P u) (?P t) = Some tab"
      using True P len by (subst shift_loop.simps) (simp add: slot_at_def addrs_def)
    ultimately show ?thesis using sh by simp
  next
    case False
    have te': "t < e" using te False less.prems(7) by (cases "t = e") auto
    let ?h = "homes ?C (?B t)" let ?s = "?H (?B t)"
    have H: "table_home tab (br_addr ?r) = Some ?h" using home_eq(1) [OF sh C] by (simp add: addrs_def)
    have th: "?P ?s = ?h" "?s < ?C" using b homes [of "?B t"] by (auto simp: turn_cases mod_if)
    have d1: "(wsub (?P t) ?h AND (?C - 1)) = (if ?s \<le> t then t - ?s else t + ?C - ?s)"
      using slot_dist [OF sh P homes, of t "?B t"] turn_dist [OF b th(2) tC] th(1) by simp
    have d2: "(wsub (?P t) (?P u) AND (?C - 1)) = t - u"
      using slot_dist [OF sh P P, of t u] turn_dist [OF b uC tC] ut by simp
    have move: "(wsub (?P t) ?h AND (?C - 1)) \<ge> (wsub (?P t) (?P u) AND (?C - 1)) \<longleftrightarrow> u \<in> arc ?C ?s t"
      unfolding d1 d2 by (rule dist_path [OF th(2) ut tC])
    show ?thesis
    proof (cases "u \<in> arc ?C ?s t")
      case mv: True
      let ?t1 = "tab\<lparr>bt_slots := (bt_slots tab)[?P u := ?r]\<rparr>"
      let ?t2 = "tab\<lparr>bt_slots := (bt_slots tab)[?P u := ?r, ?P t := no_record]\<rparr>"
      have ne: "?P u \<noteq> ?P t" using turn_inj [OF b uC tC] ut by simp
      have run: "shift_loop tab (?P u) (?P t) = shift_loop ?t2 (?P t) (?P (Suc t))"
        using False P len H mv move nxt
        by (subst shift_loop.simps) (simp add: slot_at_def slot_set_def addrs_def Let_def)
      have "bt_slots ?t2 = (bt_slots tab)[?P u := bt_slots tab ! ?P t, ?P t := bt_slots tab ! ?P u]"
        using less.prems(6) by simp
      then have ms: "mset (bt_slots ?t2) = mset (bt_slots tab)" using P len by (simp add: mset_swap)
      then have "mset (recs ?t2) = mset (recs tab)" by (simp add: recs_def)
      then have sh2: "shaped ?t2" using sh distinct_addrs_mset by (auto simp: shaped_def)
      have B2: "addrs ?t2 (?P s) = (?B(u := ?B t, t := 0)) s" if "s < ?C" for s
        using that P len ut turn_inj [OF b that uC] turn_inj [OF b that tC] ne
        by (auto simp: addrs_def nth_list_update no_record_def)
      have "reach_but ?C ?H t (Suc t) (?B(u := ?B t, t := 0))"
        by (rule hole_moves [OF less.prems(8) ut mv tC False te' eC less.prems(7)])
      then have R2: "reach_but (bt_cap ?t2) (\<lambda>a. (homes (bt_cap ?t2) a + bt_cap ?t2 - b) mod bt_cap ?t2) t (Suc t)
          (\<lambda>s. addrs ?t2 (turn (bt_cap ?t2) b s))"
        using reach_but_cong [of ?C "?B(u := ?B t, t := 0)" "\<lambda>s. addrs ?t2 (?P s)"] B2 by simp
      have e2: "addrs ?t2 (?P e) = 0" using B2 [OF eC] te' ut less.prems(7) by simp
      have "\<exists>tab'. shift_loop ?t2 (turn (bt_cap ?t2) b t) (turn (bt_cap ?t2) b (Suc t)) = Some tab' \<and>
          bt_cap tab' = bt_cap ?t2 \<and> bt_len tab' = bt_len ?t2 \<and> shaped tab' \<and> mset (bt_slots tab') = mset (bt_slots ?t2) \<and>
          reach (bt_cap tab') (homes (bt_cap tab')) (addrs tab')"
        by (rule less.hyps [OF _ sh2 _ _ _ _ _ _ R2]) (use te' b eC e2 P len in auto)
      then show ?thesis using run ms by simp
    next
      case stay: False
      have run: "shift_loop tab (?P u) (?P t) = shift_loop tab (?P u) (?P (Suc t))"
        using False P len H stay move nxt by (subst shift_loop.simps) (simp add: slot_at_def addrs_def Let_def)
      have "reach_but ?C ?H u (Suc t) ?B" by (rule hole_stays [OF less.prems(8) stay])
      then show ?thesis
        using less.hyps [of "Suc t" tab u] te' sh b ut eC less.prems(6,7) run by auto
    qed
  qed
qed

lemma take_ok:
  assumes ok: "table_ok tab" and a: "a \<noteq> 0"
  shows "\<exists>tab'. table_take tab a = Some (table_map tab a, tab') \<and> table_ok tab' \<and>
    table_map tab' = (table_map tab)(a := None) \<and> bt_cap tab' = bt_cap tab \<and>
    (table_map tab a = None \<longrightarrow> tab' = tab)"
proof (cases "table_map tab a")
  case None
  then have "(table_map tab)(a := None) = table_map tab" by (simp add: fun_upd_idem)
  moreover have "table_take tab a = Some (None, tab)"
    using find_ok [OF ok a] None
    by (auto simp: table_find_def table_take_def bind_Some_iff split: if_splits)
  ultimately show ?thesis using None ok by simp
next
  case (Some r)
  note T = table_okD [OF ok]
  let ?C = "bt_cap tab"
  have r: "r \<in> set (recs tab)" "br_addr r = a" using Some table_map_Some [OF T(1)] by simp_all
  then obtain i where i: "i < ?C" "bt_slots tab ! i = r" "addrs tab i = a"
    using recs_slot [OF T(5)] by (auto simp: addrs_def)
  have C: "0 < ?C" using i(1) by simp
  have p: "table_probe tab a = Some i" using probe_present [OF T(1,2) i(1,3) a] .
  let ?t = "tab\<lparr>bt_slots := (bt_slots tab)[i := no_record], bt_len := wsub (bt_len tab) 1\<rparr>"
  have z: "br_addr no_record = 0" by (simp add: no_record_def)
  have ms: "mset (recs ?t) = mset (recs tab) - {#r#}"
    using recs_update [of i tab no_record] i a T(5) z by (simp add: recs_def)
  have rin: "r \<in># mset (recs tab)" using r by simp
  then have ms': "mset (recs tab) = mset (r # recs ?t)" using ms by simp
  have d: "distinct (map br_addr (r # recs ?t))"
    using T(1) distinct_addrs_mset [OF ms'] by (simp add: shaped_def)
  have sh: "shaped ?t" using T(1) d by (simp add: shaped_def)
  have len: "length (recs tab) = Suc (length (recs ?t))" using ms' by (metis length_Cons size_mset)
  have wl: "wsub (bt_len tab) 1 = length (recs ?t)"
    using len T(3,4) T(1) by (subst wsub_small) (auto simp: shaped_def)
  have "length (recs tab) < ?C" using T(3,4) C by simp
  then obtain e0 where e0: "e0 < ?C" "addrs tab e0 = 0" using some_empty [OF T(5)] by blast
  obtain e where e: "e < ?C" "turn ?C i e = e0" using turn_onto [OF i(1) e0(1)] by blast
  have e1: "1 \<le> e" using e e0(2) i a turn_0 [OF i(1)] by (cases e) auto
  have homes: "homes ?C x < ?C" for x using home_eq(2) [OF T(1) C] .
  let ?H = "\<lambda>x. (homes ?C x + ?C - i) mod ?C" and ?B = "\<lambda>s. addrs tab (turn ?C i s)"
  have ad: "addrs ?t x = (if x = i then 0 else addrs tab x)" if "x < ?C" for x
    using that T(5) z by (simp add: addrs_def nth_list_update)
  have "reach ?C ?H ?B" using turned_reach [OF i(1) homes, where B = "addrs tab"] T(2) by simp
  then have "reach_but ?C ?H 0 1 (?B(0 := 0))" by (rule hole_made)
  moreover have "(?B(0 := 0)) s = addrs ?t (turn ?C i s)" if "s < ?C" for s
    using that ad [OF turn_lt [OF C]] turn_inj [OF i(1) that C] turn_0 [OF i(1)] by auto
  ultimately have R: "reach_but (bt_cap ?t) (\<lambda>a. (homes (bt_cap ?t) a + bt_cap ?t - i) mod bt_cap ?t) 0 1
      (\<lambda>s. addrs ?t (turn (bt_cap ?t) i s))"
    using reach_but_cong [of ?C "?B(0 := 0)" "\<lambda>s. addrs ?t (turn ?C i s)"] by simp
  have "\<exists>tab'. shift_loop ?t (turn (bt_cap ?t) i 0) (turn (bt_cap ?t) i 1) = Some tab' \<and>
      bt_cap tab' = bt_cap ?t \<and> bt_len tab' = bt_len ?t \<and> shaped tab' \<and> mset (bt_slots tab') = mset (bt_slots ?t) \<and>
      reach (bt_cap tab') (homes (bt_cap tab')) (addrs tab')"
  proof (rule shift_ok [OF sh _ _ e1 _ _ _ R])
    show "addrs ?t (turn (bt_cap ?t) i e) = 0" using ad [OF e0(1)] e(2) e0(2) by simp
  qed (use i T(5) e turn_0 [OF i(1)] in auto)
  then obtain t' where t': "shift_loop ?t i (turn ?C i 1) = Some t'" "bt_cap t' = ?C" "bt_len t' = length (recs ?t)" "shaped t'"
    "mset (bt_slots t') = mset (bt_slots ?t)" "reach (bt_cap t') (homes (bt_cap t')) (addrs t')"
    using turn_0 [OF i(1)] wl by auto
  have run: "table_take tab a = Some (Some r, t')"
    using p C i a T(5) t'(1) next_slot [OF T(1) i(1)]
    by (simp add: table_take_def slot_at_def slot_set_def addrs_def)
  have ms2: "mset (recs t') = mset (recs ?t)" using t'(5) by (simp add: recs_def)
  then have "length (recs t') = length (recs ?t)" by (rule mset_eq_length)
  moreover have "2 * length (recs ?t) \<le> ?C" using len T(3,4) by linarith
  ultimately have ok': "table_ok t'" using t'(2,3,4,6) unfolding table_ok_def by simp
  have "table_map t' = (table_map tab)(a := None)"
  proof (rule ext)
    fix x
    have st: "set (recs t') = set (recs ?t)" using ms2 by (rule mset_eq_setD)
    have s0: "set (recs tab) = insert r (set (recs ?t))" using ms' by (metis list.simps(15) mset_eq_setD)
    have na: "br_addr y \<noteq> a" if "y \<in> set (recs ?t)" for y using d r(2) imageI [OF that, of br_addr] by auto
    have "table_map t' x = Some y \<longleftrightarrow> ((table_map tab)(a := None)) x = Some y" for y
      using table_map_Some [OF t'(4)] table_map_Some [OF T(1)] st s0 na r(2) by auto
    then show "table_map t' x = ((table_map tab)(a := None)) x" by (metis not_Some_eq)
  qed
  then show ?thesis using run ok' t'(2) Some by simp
qed

end
