(* ===== verification/Debug.thy ===== *)
theory Debug
  imports DebugMap Alloc
begin

text \<open>
  \<open>alloc/debug.h\<close> and \<open>alloc/debug.c\<close>: an allocator that checks how another one is used. Each block gets
  a guard past its end and a record in the table of live blocks; a block given back is filled and waits
  in a quarantine, a ring of 64, before the parent has it. A misuse that is reported aborts the program:
  the model's value is \<^term>\<open>None\<close>. A world is the memory, the debug allocator, the account of the default
  allocator that has the table, and the parent's own state.
\<close>

section \<open>State\<close>

record freed_block =
  fr_ptr :: addr
  fr_layout :: layout
  fr_serial :: nat

record 'p debug =
  db_parent :: "'p vtable option"
  db_table :: block_table
  db_quarantine :: "freed_block list"
  db_head :: nat
  db_held :: nat
  db_live :: nat
  db_peak :: nat
  db_requests :: nat
  db_fail_after :: nat
  db_break_at :: nat

record debug_stats =
  ds_live_blocks :: nat
  ds_live_bytes :: nat
  ds_peak_bytes :: nat
  ds_requests :: nat

type_synonym 'p debug_world = "('p debug \<times> heap \<times> 'p) world"

definition FILL_NEW :: byte where "FILL_NEW = 0xCD"
definition FILL_FREED :: byte where "FILL_FREED = 0xDD"
definition FILL_GUARD :: byte where "FILL_GUARD = 0xFD"
definition GUARD_SIZE :: nat where "GUARD_SIZE = 16"
definition QUARANTINE_LEN :: nat where "QUARANTINE_LEN = 64"

definition no_freed :: freed_block where
  "no_freed = \<lparr>fr_ptr = 0, fr_layout = \<lparr>lsize = 0, lalign = 0\<rparr>, fr_serial = 0\<rparr>"

definition debug_null :: "'p debug" where
  "debug_null = \<lparr>db_parent = None, db_table = no_table, db_quarantine = replicate QUARANTINE_LEN no_freed,
     db_head = 0, db_held = 0, db_live = 0, db_peak = 0, db_requests = 0, db_fail_after = 0, db_break_at = 0\<rparr>"

definition assert_debug :: "'p debug \<Rightarrow> bool" where
  "assert_debug d \<longleftrightarrow> db_parent d \<noteq> None"

section \<open>Internals\<close>

definition next_serial :: "'p debug \<Rightarrow> (nat \<times> 'p debug) option" where
  "next_serial self = (let serial = wadd (db_requests self) 1; self = self\<lparr>db_requests := serial\<rparr> in do {
     chk (serial \<noteq> db_break_at self);
     if serial > db_fail_after self then Some (0, self) else Some (serial, self)
   })"

text \<open>The place of the i-th quarantined block in the ring.\<close>

definition quarantined :: "'p debug \<Rightarrow> nat \<Rightarrow> nat option" where
  "quarantined self i = do {
     chk (i < db_held self);
     Some (wadd (db_head self) i mod QUARANTINE_LEN)
   }"

fun all_equal_from :: "mem \<Rightarrow> addr \<Rightarrow> byte \<Rightarrow> nat \<Rightarrow> nat \<Rightarrow> bool" where
  "all_equal_from m ptr fill i 0 = True"
| "all_equal_from m ptr fill i (Suc k) =
     (if m (ptr + i) \<noteq> fill then False else all_equal_from m ptr fill (Suc i) k)"

definition all_equal :: "mem \<Rightarrow> addr \<Rightarrow> nat \<Rightarrow> byte \<Rightarrow> bool" where
  "all_equal m ptr n fill = all_equal_from m ptr fill 0 n"

text \<open>\<^term>\<open>None\<close> where the size does not fit; \<open>parent_layout\<close> asserts that it does.\<close>

definition ckd_parent_layout :: "layout \<Rightarrow> layout option" where
  "ckd_parent_layout layout =
     map_option (\<lambda>n. \<lparr>lsize = n, lalign = lalign layout\<rparr>) (ckd_add (lsize layout) GUARD_SIZE)"

definition parent_layout :: "layout \<Rightarrow> layout option" where
  "parent_layout layout = do { out \<leftarrow> Some (ckd_parent_layout layout); chk (out \<noteq> None); out }"

definition release_oldest :: "'p debug_world \<Rightarrow> 'p debug_world option" where
  "release_oldest w = (let (m, self, h, p) = w in do {
     chk (db_held self > 0);
     i \<leftarrow> quarantined self 0;
     let freed = db_quarantine self ! i;
     let self = self\<lparr>db_head := wadd (db_head self) 1 mod QUARANTINE_LEN, db_held := db_held self - 1\<rparr>;
     with_guard \<leftarrow> parent_layout (fr_layout freed);
     chk (all_equal m (fr_ptr freed) (lsize with_guard) FILL_FREED);
     vt \<leftarrow> db_parent self;
     (m, p) \<leftarrow> tda_dealloc vt (fr_ptr freed) with_guard (m, p);
     Some (m, self, h, p)
   })"

definition quarantine_push :: "freed_block \<Rightarrow> 'p debug_world \<Rightarrow> 'p debug_world option" where
  "quarantine_push freed w = do {
     (m, self, h, p) \<leftarrow> (if db_held (fst (snd w)) = QUARANTINE_LEN then release_oldest w else Some w);
     let self = self\<lparr>db_held := wadd (db_held self) 1\<rparr>;
     i \<leftarrow> quarantined self (wsub (db_held self) 1);
     Some (m, self\<lparr>db_quarantine := (db_quarantine self)[i := freed]\<rparr>, h, p)
   }"

fun quarantine_find_loop :: "'p debug \<Rightarrow> addr \<Rightarrow> nat list \<Rightarrow> freed_block option option" where
  "quarantine_find_loop self ptr [] = Some None"
| "quarantine_find_loop self ptr (i # rest) = do {
     j \<leftarrow> quarantined self i;
     let freed = db_quarantine self ! j;
     if fr_ptr freed = ptr then Some (Some freed) else quarantine_find_loop self ptr rest
   }"

definition quarantine_find :: "'p debug \<Rightarrow> addr \<Rightarrow> freed_block option option" where
  "quarantine_find self ptr = quarantine_find_loop self ptr [0..<db_held self]"

definition checked_entry :: "'p debug \<Rightarrow> addr \<Rightarrow> layout \<Rightarrow> bool \<Rightarrow> (block_record \<times> 'p debug) option" where
  "checked_entry self ptr layout taken = do {
     (found, table) \<leftarrow> (if taken then table_take (db_table self) ptr
       else map_option (\<lambda>r. (r, db_table self)) (table_find (db_table self) ptr));
     entry \<leftarrow> found;
     chk (tda_layout_eq (br_layout entry) layout);
     Some (entry, self\<lparr>db_table := table\<rparr>)
   }"

section \<open>Hooks\<close>

definition debug_alloc :: "layout \<Rightarrow> 'p debug_world \<Rightarrow> (addr \<times> 'p debug_world) option" where
  "debug_alloc layout w = (let (m, self, h, p) = w in do {
     chk (assert_debug self);
     chk (lsize layout > 0);
     (serial, self) \<leftarrow> next_serial self;
     if serial = 0 then Some (0, (m, self, h, p))
     else (case ckd_parent_layout layout of
         None \<Rightarrow> Some (0, (m, self, h, p))
       | Some with_guard \<Rightarrow> do {
           vt \<leftarrow> db_parent self;
           (block, m, p) \<leftarrow> tda_alloc vt with_guard (m, p);
           if block = 0 then Some (0, (m, self, h, p))
           else do {
             live \<leftarrow> table_find (db_table self) block;
             chk (live = None);
             freed \<leftarrow> quarantine_find self block;
             chk (freed = None);
             (room, table, h) \<leftarrow> table_insert (db_table self) \<lparr>br_addr = block, br_layout = layout, br_serial = serial\<rparr> h;
             let self = self\<lparr>db_table := table\<rparr>;
             if \<not> room then do {
               (m, p) \<leftarrow> tda_dealloc vt block with_guard (m, p);
               Some (0, (m, self, h, p))
             }
             else (let m = memset m block FILL_NEW (lsize layout);
                 m = memset m (block + lsize layout) FILL_GUARD GUARD_SIZE;
                 live = wadd (db_live self) (lsize layout);
                 self = self\<lparr>db_live := live, db_peak := (if live > db_peak self then live else db_peak self)\<rparr>
               in Some (block, (m, self, h, p)))
           }
         })
   })"

definition debug_remap :: "addr \<Rightarrow> layout \<Rightarrow> nat \<Rightarrow> 'p debug_world \<Rightarrow> (addr \<times> 'p debug_world) option" where
  "debug_remap ptr old new_size w = (let (m, self, h, p) = w in do {
     chk (assert_debug self);
     chk (ptr \<noteq> 0);
     chk (lsize old > 0);
     chk (new_size > 0);
     (entry, self) \<leftarrow> checked_entry self ptr old False;
     Some (0, (m, self, h, p))
   })"

definition debug_dealloc :: "addr \<Rightarrow> layout \<Rightarrow> 'p debug_world \<Rightarrow> 'p debug_world option" where
  "debug_dealloc ptr layout w = (let (m, self, h, p) = w in do {
     chk (assert_debug self);
     chk (ptr \<noteq> 0);
     (entry, self) \<leftarrow> checked_entry self ptr layout True;
     chk (all_equal m (ptr + lsize layout) GUARD_SIZE FILL_GUARD);
     let self = self\<lparr>db_live := wsub (db_live self) (lsize layout)\<rparr>;
     with_guard \<leftarrow> parent_layout layout;
     let m = memset m ptr FILL_FREED (lsize with_guard);
     quarantine_push \<lparr>fr_ptr = ptr, fr_layout = layout, fr_serial = br_serial entry\<rparr> (m, self, h, p)
   })"

definition debug_vtable :: "('p debug \<times> heap \<times> 'p) vtable" where
  "debug_vtable = \<lparr>vt_alloc = debug_alloc, vt_alloc_zeroed = None, vt_resize = None,
     vt_remap = Some debug_remap, vt_dealloc = debug_dealloc\<rparr>"

section \<open>Lifetime, view, quarantine, stats, fault injection\<close>

definition tda_debug_init :: "'p vtable option \<Rightarrow> 'p debug option" where
  "tda_debug_init parent = do {
     chk (parent \<noteq> None);
     Some (debug_null\<lparr>db_parent := parent, db_fail_after := SIZE_MAX\<rparr>)
   }"

partial_function (option) flush_loop :: "'p debug_world \<Rightarrow> 'p debug_world option" where
  "flush_loop w =
     (if db_held (fst (snd w)) > 0 then do { w \<leftarrow> release_oldest w; flush_loop w } else Some w)"

definition tda_debug_flush_quarantine :: "'p debug_world \<Rightarrow> 'p debug_world option" where
  "tda_debug_flush_quarantine w = do { chk (assert_debug (fst (snd w))); flush_loop w }"

definition tda_debug_deinit :: "'p debug_world \<Rightarrow> 'p debug_world option" where
  "tda_debug_deinit w =
     (if db_parent (fst (snd w)) = None then Some w
      else do {
        chk (assert_debug (fst (snd w)));
        (m, self, h, p) \<leftarrow> tda_debug_flush_quarantine w;
        h \<leftarrow> al_dealloc_n tda_al_default (bt_cap (db_table self) \<noteq> 0) record_layout (bt_cap (db_table self)) h;
        Some (m, debug_null, h, p)
      })"

definition tda_debug_to_al :: "'p debug \<Rightarrow> ('p debug \<times> heap \<times> 'p) vtable option" where
  "tda_debug_to_al self = do { chk (assert_debug self); Some debug_vtable }"

definition tda_debug_stats :: "'p debug \<Rightarrow> debug_stats option" where
  "tda_debug_stats self = do {
     chk (assert_debug self);
     Some \<lparr>ds_live_blocks = bt_len (db_table self), ds_live_bytes = db_live self, ds_peak_bytes = db_peak self,
       ds_requests = db_requests self\<rparr>
   }"

definition tda_debug_fail_after :: "'p debug \<Rightarrow> nat \<Rightarrow> 'p debug option" where
  "tda_debug_fail_after self cnt = do {
     chk (assert_debug self);
     Some (self\<lparr>db_fail_after := (case ckd_add (db_requests self) cnt of None \<Rightarrow> SIZE_MAX | Some at \<Rightarrow> at)\<rparr>)
   }"

definition tda_debug_break_at :: "'p debug \<Rightarrow> nat \<Rightarrow> 'p debug option" where
  "tda_debug_break_at self serial = do {
     chk (assert_debug self);
     Some (self\<lparr>db_break_at := serial\<rparr>)
   }"

end
