(* ===== verification/Printing.thy ===== *)
theory Printing
  imports Print Adaptors Arr Bitset LinkedOrder HSetLaws DebugMap Debug
begin

text \<open>
  The \<open>fprint\<close> and \<open>print\<close> of every container, and the leak report of the debug allocator: what each
  writes, for any printer of the elements and whichever writes fail. \<open>stdout\<close> is an argument.
\<close>

section \<open>Vec, array, stack, queue, priority queue\<close>

definition newline :: "int \<times> stream \<Rightarrow> int \<times> stream" where
  "newline r = joined (fputc (CHR 0x0A)) r"

definition tda_vec_fprint :: "'e vec \<Rightarrow> 'e fprint \<Rightarrow> stream \<Rightarrow> (int \<times> stream) option" where
  "tda_vec_fprint self fprint out = do {
     ASSERT_VEC self;
     s \<leftarrow> tda_vec_to_span self;
     tda_span_fprint s fprint out
   }"

definition tda_vec_print :: "'e vec \<Rightarrow> 'e fprint \<Rightarrow> stream \<Rightarrow> (int \<times> stream) option" where
  "tda_vec_print self fprint stdout = do {
     ASSERT_VEC self;
     r \<leftarrow> tda_vec_fprint self fprint stdout;
     Some (newline r)
   }"

definition tda_arr_fprint :: "'e arr \<Rightarrow> 'e fprint \<Rightarrow> stream \<Rightarrow> (int \<times> stream) option" where
  "tda_arr_fprint self fprint out = do {
     ASSERT_ARR self;
     s \<leftarrow> tda_arr_to_span self;
     tda_span_fprint s fprint out
   }"

definition tda_arr_print :: "'e arr \<Rightarrow> 'e fprint \<Rightarrow> stream \<Rightarrow> (int \<times> stream) option" where
  "tda_arr_print self fprint stdout = do {
     ASSERT_ARR self;
     r \<leftarrow> tda_arr_fprint self fprint stdout;
     Some (newline r)
   }"

definition tda_stack_fprint :: "'e stack \<Rightarrow> 'e fprint \<Rightarrow> stream \<Rightarrow> (int \<times> stream) option" where
  "tda_stack_fprint self fprint out = do { ASSERT_STACK self; tda_vec_fprint (stvec self) fprint out }"

definition tda_stack_print :: "'e stack \<Rightarrow> 'e fprint \<Rightarrow> stream \<Rightarrow> (int \<times> stream) option" where
  "tda_stack_print self fprint stdout = do { ASSERT_STACK self; tda_vec_print (stvec self) fprint stdout }"

definition tda_pqueue_fprint :: "'e pqueue \<Rightarrow> 'e fprint \<Rightarrow> stream \<Rightarrow> (int \<times> stream) option" where
  "tda_pqueue_fprint self fprint out = do { ASSERT_PQUEUE self; tda_vec_fprint (pqvec self) fprint out }"

definition tda_pqueue_print :: "'e pqueue \<Rightarrow> 'e fprint \<Rightarrow> stream \<Rightarrow> (int \<times> stream) option" where
  "tda_pqueue_print self fprint stdout = do { ASSERT_PQUEUE self; tda_vec_print (pqvec self) fprint stdout }"

function deque_fprint_loop :: "'e deque \<Rightarrow> 'e fprint \<Rightarrow> nat \<Rightarrow> int \<times> stream \<Rightarrow> (int \<times> stream) option" where
  "deque_fprint_loop self fprint i r =
     (if i < dqlen self then do {
        let r = (if i > 0 then joined (fputs '', '') r else r);
        x \<leftarrow> deque_elem_at self i;
        val \<leftarrow> x;
        deque_fprint_loop self fprint (i + 1) (joined (fprint val) r)
      }
      else Some r)"
  by pat_completeness auto
termination by (relation "measure (\<lambda>(self, fprint, i, r). dqlen self - i)") auto

declare deque_fprint_loop.simps [simp del]

definition tda_deque_fprint :: "'e deque \<Rightarrow> 'e fprint \<Rightarrow> stream \<Rightarrow> (int \<times> stream) option" where
  "tda_deque_fprint self fprint out = do {
     ASSERT_DEQUE self;
     r \<leftarrow> deque_fprint_loop self fprint 0 (fputc (CHR ''['') out);
     Some (joined (fputc (CHR '']'')) r)
   }"

definition tda_deque_print :: "'e deque \<Rightarrow> 'e fprint \<Rightarrow> stream \<Rightarrow> (int \<times> stream) option" where
  "tda_deque_print self fprint stdout = do {
     ASSERT_DEQUE self;
     r \<leftarrow> tda_deque_fprint self fprint stdout;
     Some (newline r)
   }"

definition tda_queue_fprint :: "'e queue \<Rightarrow> 'e fprint \<Rightarrow> stream \<Rightarrow> (int \<times> stream) option" where
  "tda_queue_fprint self fprint out = do { ASSERT_QUEUE self; tda_deque_fprint (qdeque self) fprint out }"

definition tda_queue_print :: "'e queue \<Rightarrow> 'e fprint \<Rightarrow> stream \<Rightarrow> (int \<times> stream) option" where
  "tda_queue_print self fprint stdout = do { ASSERT_QUEUE self; tda_deque_print (qdeque self) fprint stdout }"

section \<open>List, maps, sets\<close>

partial_function (option) list_fprint_loop ::
  "lst \<Rightarrow> 'e fprint \<Rightarrow> nat \<Rightarrow> 'e nodes \<Rightarrow> int \<times> stream \<Rightarrow> (int \<times> stream) option" where
  "list_fprint_loop self fprint node m r =
     (if node = 0 then Some r
      else do {
        let r = (if node \<noteq> lhead self then joined (fputs '', '') r else r);
        x \<leftarrow> list_elem_of m node;
        val \<leftarrow> x;
        node \<leftarrow> nx_of m node;
        list_fprint_loop self fprint node m (joined (fprint val) r)
      })"

definition tda_list_fprint :: "lst \<Rightarrow> 'e nodes \<Rightarrow> 'e fprint \<Rightarrow> stream \<Rightarrow> (int \<times> stream) option" where
  "tda_list_fprint self m fprint out = do {
     ASSERT_LIST self;
     r \<leftarrow> list_fprint_loop self fprint (lhead self) m (fputc (CHR ''['') out);
     Some (joined (fputc (CHR '']'')) r)
   }"

definition tda_list_print :: "lst \<Rightarrow> 'e nodes \<Rightarrow> 'e fprint \<Rightarrow> stream \<Rightarrow> (int \<times> stream) option" where
  "tda_list_print self m fprint stdout = do {
     ASSERT_LIST self;
     r \<leftarrow> tda_list_fprint self m fprint stdout;
     Some (newline r)
   }"

partial_function (option) hmap_fprint_loop ::
  "'k hmap \<Rightarrow> 'k fprint \<Rightarrow> 'v fprint \<Rightarrow> bool \<Rightarrow> nat \<Rightarrow> ('k, 'v) entries \<Rightarrow> int \<times> stream \<Rightarrow> (int \<times> stream) option" where
  "hmap_fprint_loop self key_fprint val_fprint fst_one node m r =
     (if node = 0 then Some r
      else do {
        let r = (if \<not> fst_one then joined (fputs '', '') r else r);
        key \<leftarrow> hmap_node_key m node;
        let r = joined (fputs '': '') (joined (key_fprint key) r);
        x \<leftarrow> hmap_node_val m node;
        val \<leftarrow> x;
        let r = joined (val_fprint val) r;
        node \<leftarrow> next_node self m node;
        hmap_fprint_loop self key_fprint val_fprint False node m r
      })"

definition tda_hmap_fprint ::
  "'k hmap \<Rightarrow> ('k, 'v) entries \<Rightarrow> 'k fprint \<Rightarrow> 'v fprint \<Rightarrow> stream \<Rightarrow> (int \<times> stream) option" where
  "tda_hmap_fprint self m key_fprint val_fprint out = do {
     ASSERT_HMAP self;
     node \<leftarrow> first_from self 0;
     r \<leftarrow> hmap_fprint_loop self key_fprint val_fprint True node m (fputc (CHR 0x7B) out);
     Some (joined (fputc (CHR 0x7D)) r)
   }"

definition tda_hmap_print ::
  "'k hmap \<Rightarrow> ('k, 'v) entries \<Rightarrow> 'k fprint \<Rightarrow> 'v fprint \<Rightarrow> stream \<Rightarrow> (int \<times> stream) option" where
  "tda_hmap_print self m key_fprint val_fprint stdout = do {
     ASSERT_HMAP self;
     r \<leftarrow> tda_hmap_fprint self m key_fprint val_fprint stdout;
     Some (newline r)
   }"

partial_function (option) hset_fprint_loop ::
  "'k hset \<Rightarrow> 'k fprint \<Rightarrow> bool \<Rightarrow> nat \<Rightarrow> ('k, unit) entries \<Rightarrow> int \<times> stream \<Rightarrow> (int \<times> stream) option" where
  "hset_fprint_loop self fprint fst_one node m r =
     (if node = 0 then Some r
      else do {
        let r = (if \<not> fst_one then joined (fputs '', '') r else r);
        key \<leftarrow> tda_hset_node_key self m node;
        let r = joined (fprint key) r;
        node \<leftarrow> tda_hset_node_next self m node;
        hset_fprint_loop self fprint False node m r
      })"

definition tda_hset_fprint :: "'k hset \<Rightarrow> ('k, unit) entries \<Rightarrow> 'k fprint \<Rightarrow> stream \<Rightarrow> (int \<times> stream) option" where
  "tda_hset_fprint self m fprint out = do {
     ASSERT_HSET self;
     node \<leftarrow> tda_hset_first_node self;
     r \<leftarrow> hset_fprint_loop self fprint True node m (fputc (CHR 0x7B) out);
     Some (joined (fputc (CHR 0x7D)) r)
   }"

definition tda_hset_print :: "'k hset \<Rightarrow> ('k, unit) entries \<Rightarrow> 'k fprint \<Rightarrow> stream \<Rightarrow> (int \<times> stream) option" where
  "tda_hset_print self m fprint stdout = do {
     ASSERT_HSET self;
     r \<leftarrow> tda_hset_fprint self m fprint stdout;
     Some (newline r)
   }"

partial_function (option) bitset_fprint_loop :: "bitset \<Rightarrow> bool \<Rightarrow> nat \<Rightarrow> int \<times> stream \<Rightarrow> (int \<times> stream) option" where
  "bitset_fprint_loop self fst_one i r = do {
     found \<leftarrow> tda_bitset_find_next self i;
     case found of
       None \<Rightarrow> Some r
     | Some idx \<Rightarrow> (let r = (if \<not> fst_one then joined (fputs '', '') r else r) in
         bitset_fprint_loop self False (wadd idx 1) (joined (fprintf (dec_nat idx)) r))
   }"

definition tda_bitset_fprint :: "bitset \<Rightarrow> stream \<Rightarrow> (int \<times> stream) option" where
  "tda_bitset_fprint self out = do {
     ASSERT_BITSET self;
     r \<leftarrow> bitset_fprint_loop self True 0 (fputc (CHR 0x7B) out);
     Some (joined (fputc (CHR 0x7D)) r)
   }"

definition tda_bitset_print :: "bitset \<Rightarrow> stream \<Rightarrow> (int \<times> stream) option" where
  "tda_bitset_print self stdout = do {
     ASSERT_BITSET self;
     r \<leftarrow> tda_bitset_fprint self stdout;
     Some (newline r)
   }"

section \<open>The leak report\<close>

text \<open>How \<open>%p\<close> shows an address is the C library's.\<close>

definition leak_line :: "(addr \<Rightarrow> string) \<Rightarrow> block_record \<Rightarrow> string" where
  "leak_line fmt_p entry = ''tda debug: leak: block #'' @ dec_nat (br_serial entry) @ '', '' @
     dec_nat (lsize (br_layout entry)) @ '' bytes at '' @ fmt_p (br_addr entry) @ [CHR 0x0A]"

definition leak_total :: "'p debug \<Rightarrow> string" where
  "leak_total self = ''tda debug: '' @ dec_nat (bt_len (db_table self)) @ '' leaked, '' @
     dec_nat (db_live self) @ '' bytes'' @ [CHR 0x0A]"

fun leaks_loop :: "(addr \<Rightarrow> string) \<Rightarrow> block_table \<Rightarrow> nat list \<Rightarrow> int \<times> stream \<Rightarrow> (int \<times> stream) option" where
  "leaks_loop fmt_p tab [] r = Some r"
| "leaks_loop fmt_p tab (i # rest) r = do {
     entry \<leftarrow> slot_at tab i;
     leaks_loop fmt_p tab rest (if br_addr entry \<noteq> 0 then joined (fprintf (leak_line fmt_p entry)) r else r)
   }"

definition tda_debug_fprint_leaks :: "(addr \<Rightarrow> string) \<Rightarrow> 'p debug \<Rightarrow> stream \<Rightarrow> (int \<times> stream) option" where
  "tda_debug_fprint_leaks fmt_p self out = do {
     chk (assert_debug self);
     r \<leftarrow> leaks_loop fmt_p (db_table self) [0..<bt_cap (db_table self)] (0, out);
     Some (joined (fprintf (leak_total self)) r)
   }"

section \<open>What is written\<close>

text \<open>
  A run that makes just the writes \<open>ws\<close>, in order and whichever of them fail, and the same with the
  end of a line.
\<close>

definition writes_as :: "writes \<Rightarrow> stream \<Rightarrow> (int \<times> stream) option \<Rightarrow> (int \<times> stream) option \<Rightarrow> bool" where
  "writes_as ws f plain line \<longleftrightarrow>
     plain = Some (writes_all ws f) \<and> line = Some (writes_all (ws @ [fputc (CHR 0x0A)]) f)"

lemma writes_asI:
  assumes "plain = Some (joined (fputc d) (fold joined (listing True its) (fputc c f)))" "line = map_option newline plain"
  shows "writes_as (bracketed c its d) f plain line"
  using assms by (simp add: writes_as_def bracketed_all newline_def joined_line)

lemma span_shows:
  "writes_as (bracketed (CHR ''['') (map (\<lambda>x. [fprint x]) xs) (CHR '']'')) f
    (tda_span_fprint (map Some xs) fprint f) (tda_span_print (map Some xs) fprint f)"
  by (simp add: writes_as_def span_writes span_line_writes)

lemma vec_shows:
  assumes "vec_ok v" "vec_cells v = map Some xs"
  shows "writes_as (bracketed (CHR ''['') (map (\<lambda>x. [fprint x]) xs) (CHR '']'')) f (tda_vec_fprint v fprint f) (tda_vec_print v fprint f)"
proof -
  have "tda_vec_to_span v = Some (map Some xs)" using assms by (simp add: tda_vec_to_span_def vec_ok_def vec_cells_def)
  then show ?thesis using assms(1)
    by (simp add: writes_as_def tda_vec_fprint_def tda_vec_print_def span_writes newline_def joined_line)
qed

lemma arr_shows:
  assumes "arr_ok a" "adata a = map Some xs"
  shows "writes_as (bracketed (CHR ''['') (map (\<lambda>x. [fprint x]) xs) (CHR '']'')) f (tda_arr_fprint a fprint f) (tda_arr_print a fprint f)"
proof -
  have "ASSERT_ARR a = Some ()" using assms(1) by (auto simp: ASSERT_ARR_def arr_ok_def chk_def)
  moreover have "tda_arr_to_span a = Some (map Some xs)" using assms by (auto simp: tda_arr_to_span_def arr_ok_def)
  ultimately show ?thesis
    by (simp add: writes_as_def tda_arr_fprint_def tda_arr_print_def span_writes newline_def joined_line)
qed

lemma deque_loop_writes:
  assumes d: "deque_ok d" "deque_cells d = map Some xs"
  shows "i \<le> length xs \<Longrightarrow> deque_fprint_loop d fprint i r =
    Some (fold joined (listing (i = 0) (map (\<lambda>x. [fprint x]) (drop i xs))) r)"
proof (induction "length xs - i" arbitrary: i r)
  case 0
  moreover have "dqlen d = length xs" using length_deque_cells [OF d(1)] d(2) by simp
  ultimately show ?case by (subst deque_fprint_loop.simps) simp
next
  case (Suc n)
  then have i: "i < length xs" by simp
  have n: "dqlen d = length xs" using length_deque_cells [OF d(1)] d(2) by simp
  have cap: "i < dqcap d" using d(1) i n by (simp add: deque_ok_def)
  have x: "deque_elem_at d i = Some (Some (xs ! i))"
    using arg_cong [OF d(2), of "\<lambda>l. l ! i"] i n cap d(1) by (simp add: deque_cells_def)
  have "drop i xs = xs ! i # drop (i + 1) xs" using i by (simp add: Cons_nth_drop_Suc)
  then show ?case using Suc.hyps(1) [of "i + 1"] Suc.hyps(2) i n x by (subst deque_fprint_loop.simps) simp
qed

lemma deque_shows:
  assumes "deque_ok d" "deque_cells d = map Some xs"
  shows "writes_as (bracketed (CHR ''['') (map (\<lambda>x. [fprint x]) xs) (CHR '']'')) f (tda_deque_fprint d fprint f) (tda_deque_print d fprint f)"
  using deque_loop_writes [OF assms, of 0 fprint] assms(1)
  by (intro writes_asI) (simp_all add: tda_deque_fprint_def tda_deque_print_def)

lemma list_loop_writes:
  assumes at: "links (nx m) ps 0" "set ps \<subseteq> places m" "0 \<notin> places m" "distinct ps" "lhead l = hd (ps @ [0])"
  shows "ps = as @ bs \<Longrightarrow> map (el m) bs = map Some vs \<Longrightarrow>
    list_fprint_loop l fprint (hd (bs @ [0])) m r = Some (fold joined (listing (as = []) (map (\<lambda>x. [fprint x]) vs)) r)"
proof (induction bs arbitrary: as vs r)
  case Nil
  then show ?case by (subst list_fprint_loop.simps) simp
next
  case (Cons p bs)
  have p: "p \<in> places m" using at(2) Cons.prems(1) by auto
  then have nz: "p \<noteq> 0" using at(3) by metis
  have nx: "nx m p = hd (bs @ [0])" using at(1) Cons.prems(1) by (auto simp: links_append)
  obtain v ws where vs: "vs = v # ws" "el m p = Some v" "map (el m) bs = map Some ws" using Cons.prems(2) by (cases vs) auto
  have first: "p \<noteq> lhead l \<longleftrightarrow> as \<noteq> []" using at(4,5) Cons.prems(1) by (cases as) auto
  have "list_fprint_loop l fprint (hd (bs @ [0])) m r = Some (fold joined (listing False (map (\<lambda>x. [fprint x]) ws)) r)" for r
    using Cons.IH [of "as @ [p]" ws r] Cons.prems(1) vs(3) by simp
  then show ?case using p nz nx vs first by (subst list_fprint_loop.simps) (simp add: list_elem_of_def nx_of_def)
qed

lemma list_shows:
  assumes held: "held_by list_view h (l, m)" and xs: "list_cells (l, m) = map Some xs"
  shows "writes_as (bracketed (CHR ''['') (map (\<lambda>x. [fprint x]) xs) (CHR '']'')) f (tda_list_fprint l m fprint f) (tda_list_print l m fprint f)"
proof -
  obtain ps where at: "list_at m l ps" and ok: "store_ok m" and c: "list_cells (l, m) = map (el m) ps" "ASSERT_LIST l = Some ()"
    using held by (rule held_listE)
  have "lhead l = hd (ps @ [0])" "links (nx m) ps 0" "set ps \<subseteq> places m" "distinct ps"
    using at by (auto simp: list_at_def)
  moreover have "0 \<notin> places m" using ok by (simp add: store_ok_def)
  ultimately have "list_fprint_loop l fprint (lhead l) m r = Some (fold joined (listing True (map (\<lambda>x. [fprint x]) xs)) r)" for r
    using list_loop_writes [of m ps l "[]" ps xs fprint r] c xs by simp
  then show ?thesis using c(2) by (intro writes_asI) (simp_all add: tda_list_fprint_def tda_list_print_def)
qed

lemma hset_loop_writes:
  assumes at: "hmap_at m (smap s) ch" "store_ok m" and as: "ASSERT_HSET s = Some ()"
  shows "concat ch = xs @ ys \<Longrightarrow> hset_fprint_loop s fprint (xs = []) (hd (ys @ [0])) m r =
    Some (fold joined (listing (xs = []) (map (\<lambda>p. [fprint (ekey m p)]) ys)) r)"
proof (induction ys arbitrary: xs r)
  case Nil
  then show ?case by (subst hset_fprint_loop.simps) simp
next
  case (Cons p ys)
  note w = walk_at [OF at Cons.prems(1)]
  have "hset_fprint_loop s fprint False (hd (ys @ [0])) m r = Some (fold joined (listing False (map (\<lambda>p. [fprint (ekey m p)]) ys)) r)" for r
    using Cons.IH [of "xs @ [p]" r] Cons.prems(1) by simp
  then show ?case using w as by (subst hset_fprint_loop.simps) (simp add: tda_hset_node_key_def tda_hset_node_next_def)
qed

lemma hset_shows:
  assumes held: "held_by hset_view h (s, m)"
  shows "writes_as (bracketed (CHR 0x7B) (map (\<lambda>k. [fprint k]) (walk_keys (smap s, m))) (CHR 0x7D)) f
    (tda_hset_fprint s m fprint f) (tda_hset_print s m fprint f)"
proof -
  have as: "ASSERT_HSET s = Some ()" by (rule held_hset_assert [OF held])
  have "hmap_ok (smap s, m)" using held by (simp add: held_by_def hset_view_def)
  then have at: "hmap_at m (smap s) (hmap_chains (smap s, m))" "store_ok m" by (simp_all add: hmap_ok_def)
  have "map (\<lambda>k. [fprint k]) (walk_keys (smap s, m)) = map (\<lambda>p. [fprint (ekey m p)]) (concat (hmap_chains (smap s, m)))"
    by (simp add: walk_keys_def comp_def del: map_concat)
  then show ?thesis using as first_node_at [OF at] hset_loop_writes [OF at as, of "[]", OF append_Nil [symmetric]]
    by (intro writes_asI) (simp_all add: tda_hset_fprint_def tda_hset_print_def tda_hset_first_node_def)
qed

text \<open>An entry of a map, and its text.\<close>

definition entry_writes :: "'k fprint \<Rightarrow> 'v fprint \<Rightarrow> 'k \<times> 'v \<Rightarrow> writes" where
  "entry_writes key_fprint val_fprint e = [key_fprint (fst e), fputs '': '', val_fprint (snd e)]"

definition entry_text :: "('k \<Rightarrow> string) \<Rightarrow> ('v \<Rightarrow> string) \<Rightarrow> 'k \<times> 'v \<Rightarrow> string" where
  "entry_text kf vf e = kf (fst e) @ '': '' @ vf (snd e)"

lemma entries_text:
  assumes K: "printer key_fprint kf" and V: "printer val_fprint vf"
  shows "list_all2 write_text (map (entry_text kf vf) es) (map (entry_writes key_fprint val_fprint) es)"
proof -
  have "write_text (entry_text kf vf e) (entry_writes key_fprint val_fprint e)" for e
    using write_text_append [OF write_text_one [of "kf (fst e)" "key_fprint (fst e)", OF printer.fprint_law [OF K]]
      write_text_append [OF write_text_emit [of "'': ''"] write_text_one [of "vf (snd e)" "val_fprint (snd e)", OF printer.fprint_law [OF V]]]]
    by (simp add: entry_text_def entry_writes_def)
  then show ?thesis by (simp add: list_all2_conv_all_nth)
qed

lemma hmap_loop_writes:
  assumes at: "hmap_at m t ch" "store_ok m"
  shows "concat ch = xs @ ys \<Longrightarrow> map (\<lambda>p. (ekey m p, evl m p)) ys = map (\<lambda>(k, v). (k, Some v)) es \<Longrightarrow>
    hmap_fprint_loop t key_fprint val_fprint (xs = []) (hd (ys @ [0])) m r =
      Some (fold joined (listing (xs = []) (map (entry_writes key_fprint val_fprint) es)) r)"
proof (induction ys arbitrary: xs es r)
  case Nil
  then show ?case by (subst hmap_fprint_loop.simps) simp
next
  case (Cons p ys)
  note d = hmap_atD [OF at(1)]
  have z: "0 \<notin> places m" using at(2) by (simp add: store_ok_def)
  note nxt = next_node_ok [OF d(2,3) z d(4) Cons.prems(1)]
  have p: "p \<in> places m" "p \<noteq> 0" using hmap_node_in [OF at, of p] Cons.prems(1) by simp_all
  obtain v fs where e: "es = (ekey m p, v) # fs" "evl m p = Some v" "map (\<lambda>p. (ekey m p, evl m p)) ys = map (\<lambda>(k, v). (k, Some v)) fs"
    using Cons.prems(2) by (cases es) auto
  have "hmap_fprint_loop t key_fprint val_fprint False (hd (ys @ [0])) m r =
      Some (fold joined (listing False (map (entry_writes key_fprint val_fprint) fs)) r)" for r
    using Cons.IH [of "xs @ [p]" fs r] Cons.prems(1) e(3) by simp
  then show ?case using p e nxt
    by (subst hmap_fprint_loop.simps) (simp add: hmap_node_key_def hmap_node_val_def entry_writes_def)
qed

lemma hmap_shows:
  assumes held: "held_by hmap_view h (t, m)"
    and es: "map (\<lambda>p. (ekey m p, evl m p)) (concat (hmap_chains (t, m))) = map (\<lambda>(k, v). (k, Some v)) es"
  shows "writes_as (bracketed (CHR 0x7B) (map (entry_writes key_fprint val_fprint) es) (CHR 0x7D)) f
    (tda_hmap_fprint t m key_fprint val_fprint f) (tda_hmap_print t m key_fprint val_fprint f)"
proof -
  have "hmap_ok (t, m)" using held by (simp add: held_by_def hmap_view_def)
  then have at: "hmap_at m t (hmap_chains (t, m))" "store_ok m" by (simp_all add: hmap_ok_def)
  have "0 \<notin> places m" using at(2) by (simp add: store_ok_def)
  from first_from_ok [OF hmap_atD(2,3) [OF at(1)] this, of 0] hmap_assert [OF at(1)]
    hmap_loop_writes [OF at, of "[]", OF append_Nil [symmetric] es]
  show ?thesis by (intro writes_asI) (simp_all add: tda_hmap_fprint_def tda_hmap_print_def)
qed

text \<open>A bit set, in order.\<close>

definition member_writes :: "nat list \<Rightarrow> writes list" where
  "member_writes is = map (\<lambda>i. [fprintf (dec_nat i)]) is"

lemma members_text: "list_all2 write_text (map dec_nat is) (member_writes is)"
  by (simp add: member_writes_def list_all2_conv_all_nth write_text_emit)

lemma sorted_list_of_set_first:
  fixes A :: "nat set"
  assumes "finite A" "x \<in> A" "\<And>a. a \<in> A \<Longrightarrow> x \<le> a"
  shows "sorted_list_of_set A = x # sorted_list_of_set {a \<in> A. x < a}"
proof -
  have "set (x # sorted_list_of_set {a \<in> A. x < a}) = A" using assms by force
  moreover have "sorted (x # sorted_list_of_set {a \<in> A. x < a})" "distinct (x # sorted_list_of_set {a \<in> A. x < a})"
    using assms(1) by auto
  ultimately show ?thesis using sorted_list_of_set.idem_if_sorted_distinct by metis
qed

lemma bitset_loop_writes:
  assumes b: "bitset_ok b"
  shows "i \<le> nbits b \<Longrightarrow> bitset_fprint_loop b fst_one i r =
    Some (fold joined (listing fst_one (member_writes (sorted_list_of_set {j \<in> members b. i \<le> j}))) r)"
proof (induction "nbits b - i" arbitrary: fst_one i r rule: less_induct)
  case less
  note B = bitset_okD [OF b]
  obtain n where n: "find_next_impl b False i = Some n" "Search.is_first (\<lambda>j. i \<le> j \<and> j \<in> members b) (nbits b) n"
    using find_next_impl_spec [OF b, of False i] unfolding seen_def by auto
  have found: "tda_bitset_find_next b i = Some n" using n(1) b by (simp add: tda_bitset_find_next_def)
  show ?case
  proof (cases n)
    case None
    then have e: "{j \<in> members b. i \<le> j} = {}" using n(2) B(4) by (force simp: is_first_def)
    show ?thesis unfolding e using found None by (subst bitset_fprint_loop.simps) (simp add: member_writes_def)
  next
    case (Some k)
    then have k: "k < nbits b" "i \<le> k" "k \<in> members b" "\<And>j. j < k \<Longrightarrow> i \<le> j \<Longrightarrow> j \<notin> members b" using n(2) by (auto simp: is_first_def)
    have "finite {j \<in> members b. i \<le> j}" by (rule finite_subset [OF _ finite_subset [OF B(4) finite_lessThan]]) blast
    moreover have "k \<in> {j \<in> members b. i \<le> j}" using k(2,3) by simp
    moreover have "k \<le> a" if "a \<in> {j \<in> members b. i \<le> j}" for a using that k(4) [of a] by (cases "a < k") auto
    ultimately have "sorted_list_of_set {j \<in> members b. i \<le> j} = k # sorted_list_of_set {a \<in> {j \<in> members b. i \<le> j}. k < a}"
      by (rule sorted_list_of_set_first)
    also have "{a \<in> {j \<in> members b. i \<le> j}. k < a} = {j \<in> members b. k + 1 \<le> j}" using k(2) by auto
    finally have A: "member_writes (sorted_list_of_set {j \<in> members b. i \<le> j}) =
        [fprintf (dec_nat k)] # member_writes (sorted_list_of_set {j \<in> members b. k + 1 \<le> j})" by (simp add: member_writes_def)
    have w: "wadd k 1 = k + 1" using k(1) B(5) by simp
    have "nbits b - (k + 1) < nbits b - i" "k + 1 \<le> nbits b" using k(1,2) by auto
    from less.hyps [OF this, of False] show ?thesis
      using found Some w unfolding A by (subst bitset_fprint_loop.simps) simp
  qed
qed

lemma bitset_shows:
  assumes "bitset_ok b"
  shows "writes_as (bracketed (CHR 0x7B) (member_writes (sorted_list_of_set (members b))) (CHR 0x7D)) f
    (tda_bitset_fprint b f) (tda_bitset_print b f)"
  using bitset_loop_writes [OF assms, of 0 True] assms
  by (intro writes_asI) (simp_all add: tda_bitset_fprint_def tda_bitset_print_def)

text \<open>The leak report: a line to each record, in the order of the slots, and the total.\<close>

lemma leaks_loop_prints:
  assumes "\<forall>i \<in> set is. i < length (bt_slots tab)"
  shows "prints t f r \<Longrightarrow> \<exists>r'. leaks_loop fmt_p tab is r = Some r' \<and>
    prints (t @ concat (map (leak_line fmt_p) (filter (\<lambda>e. br_addr e \<noteq> 0) (map ((!) (bt_slots tab)) is)))) f r'"
  using assms
proof (induction "is" arbitrary: t r)
  case (Cons i "is")
  show ?case
  proof (cases "br_addr (bt_slots tab ! i) = 0")
    case True
    then show ?thesis using Cons.IH [OF Cons.prems(1)] Cons.prems(2) by (simp add: slot_at_def)
  next
    case False
    from Cons.IH [OF prints_joined [OF Cons.prems(1) prints_text, of "leak_line fmt_p (bt_slots tab ! i)"]] Cons.prems(2) False
    show ?thesis by (simp add: slot_at_def)
  qed
qed simp

lemma leaks_shown:
  assumes "table_ok (db_table self)" "db_parent self \<noteq> None"
  shows "\<exists>r. tda_debug_fprint_leaks fmt_p self f = Some r \<and>
    prints (concat (map (leak_line fmt_p) (recs (db_table self))) @ leak_total self) f r"
proof -
  have len: "length (bt_slots (db_table self)) = bt_cap (db_table self)" using assms(1) by (simp add: table_ok_def shaped_def)
  then have all: "map ((!) (bt_slots (db_table self))) [0..<bt_cap (db_table self)] = bt_slots (db_table self)" using map_nth by metis
  have "prints [] f (0, f)" by (simp add: prints_def)
  from leaks_loop_prints [OF _ this, of "[0..<bt_cap (db_table self)]" "db_table self" fmt_p] len
  obtain r where "leaks_loop fmt_p (db_table self) [0..<bt_cap (db_table self)] (0, f) = Some r"
    "prints (concat (map (leak_line fmt_p) (recs (db_table self)))) f r" unfolding all by (auto simp: recs_def)
  then show ?thesis using prints_joined [OF _ prints_text] assms(2) by (simp add: tda_debug_fprint_leaks_def assert_debug_def)
qed

end
