(* ===== verification/LinkedAssign.thy ===== *)
theory LinkedAssign
  imports LinkedOrder
begin

text \<open>
  The calls of \<open>Linked\<close> on two lists that share the memory: comparing, assigning, moving one node.
  Then the list as a container, and its properties.
\<close>

section \<open>Comparing and finding\<close>

lemma list_eq_loop_ok:
  "links (nx m) ps 0 \<Longrightarrow> links (nx m) qs 0 \<Longrightarrow> set ps \<union> set qs \<subseteq> places m \<Longrightarrow> 0 \<notin> places m \<Longrightarrow> length ps = length qs \<Longrightarrow>
   \<forall>p \<in> set (ps @ qs). el m p \<noteq> None \<Longrightarrow>
   list_eq_loop eq (hd (ps @ [0])) (hd (qs @ [0])) m = Some (list_all2 eq (map (nval m) ps) (map (nval m) qs))"
proof (induction ps arbitrary: qs)
  case Nil
  then show ?case by (subst list_eq_loop.simps) simp
next
  case (Cons p ps)
  obtain q qs' where qs: "qs = q # qs'" using Cons.prems(5) by (cases qs) auto
  have p: "p \<in> places m" "nx m p = hd (ps @ [0])" "nx m q = hd (qs' @ [0])" "q \<in> places m" using Cons.prems qs by auto
  have nz: "p \<noteq> 0" using p(1) Cons.prems(4) by metis
  have v: "elem_val m p = Some (nval m p)" "elem_val m q = Some (nval m q)"
    using Cons.prems(6) p elem_val_ok [of p m] elem_val_ok [of q m] qs by auto
  have "list_eq_loop eq (hd (ps @ [0])) (hd (qs' @ [0])) m = Some (list_all2 eq (map (nval m) ps) (map (nval m) qs'))"
    using Cons.prems qs by (intro Cons.IH) auto
  then show ?case using p nz v qs by (subst list_eq_loop.simps) (simp add: nx_of_def)
qed

lemma list_eq_impl_ok:
  assumes at: "list_at m l ps" "list_at m s qs" and ok: "store_ok m"
    and xs: "map (el m) ps = map Some xs" "map (el m) qs = map Some ys" and same: "same \<Longrightarrow> list_all2 eq xs ys"
  shows "list_eq_impl same l s eq m = Some (list_all2 eq xs ys)"
proof -
  have v: "map (nval m) ps = xs" "map (nval m) qs = ys" "\<forall>p \<in> set (ps @ qs). el m p \<noteq> None"
    using map_el_nval [OF xs(1)] map_el_nval [OF xs(2)] by auto
  have z: "0 \<notin> places m" using ok by (simp add: store_ok_def)
  have len: "length ps = length xs" "length qs = length ys" using v(1,2) by auto
  show ?thesis
  proof (cases "same \<or> length xs \<noteq> length ys")
    case True
    then show ?thesis using same at len by (auto simp: list_eq_impl_def list_at_def dest: list_all2_lengthD)
  next
    case False
    then show ?thesis
      using list_eq_loop_ok [of m ps qs eq] at z v len by (simp add: list_eq_impl_def list_at_def)
  qed
qed

lemma find_node_loop_ok:
  "links (nx m) ps 0 \<Longrightarrow> set ps \<subseteq> places m \<Longrightarrow> 0 \<notin> places m \<Longrightarrow> \<forall>p \<in> set ps. el m p \<noteq> None \<Longrightarrow>
   find_node_loop test (hd (ps @ [0])) m = Some (hd (filter (\<lambda>p. test (nval m p)) ps @ [0]))"
proof (induction ps)
  case Nil
  then show ?case by (subst find_node_loop.simps) simp
next
  case (Cons p ps)
  have p: "p \<in> places m" "nx m p = hd (ps @ [0])" "elem_val m p = Some (nval m p)"
    using Cons.prems elem_val_ok [of p m] by auto
  have "p \<noteq> 0" using p(1) Cons.prems(3) by metis
  then show ?case using p Cons by (subst find_node_loop.simps) (auto simp: nx_of_def)
qed

lemma list_find_ok:
  assumes held: "held_by list_view h (l, m)" and xs: "list_cells (l, m) = map Some xs"
  shows "tda_list_find l key eq m = Some (hd (filter (\<lambda>p. eq (nval m p) key) (list_nodes (l, m)) @ [0]))"
proof -
  obtain ps where at: "list_at m l ps" and ok: "store_ok m" and c: "list_nodes (l, m) = ps" "list_cells (l, m) = map (el m) ps"
    "ASSERT_LIST l = Some ()"
    using held by (rule held_listE)
  have "\<forall>p \<in> set ps. el m p \<noteq> None" using map_el_nval [of m ps xs] xs c(2) by simp
  moreover have "0 \<notin> places m" using ok by (simp add: store_ok_def)
  ultimately show ?thesis
    using find_node_loop_ok [of m ps "\<lambda>e. eq e key"] at c by (simp add: tda_list_find_def list_find_node_def list_at_def)
qed

section \<open>Assignment\<close>

lemma list_skip_drop:
  "links (nx m) ps 0 \<Longrightarrow> set ps \<subseteq> places m \<Longrightarrow> 0 \<notin> places m \<Longrightarrow> list_skip m (hd (ps @ [0])) n = Some (hd (drop n ps @ [0]))"
proof (induction n arbitrary: ps)
  case (Suc n)
  show ?case
  proof (cases ps)
    case Nil
    then show ?thesis by simp
  next
    case (Cons p qs)
    then have p: "p \<in> places m" "nx m p = hd (qs @ [0])" using Suc.prems by auto
    have "p \<noteq> 0" using p(1) Suc.prems(3) by metis
    then show ?thesis using p Suc.IH [of qs] Suc.prems Cons by (simp add: nx_of_def)
  qed
qed simp

lemma copy_elems_loop_ok:
  "links (nx m) ps 0 \<Longrightarrow> links (nx m) qs 0 \<Longrightarrow> set ps \<union> set qs \<subseteq> places m \<Longrightarrow> 0 \<notin> places m \<Longrightarrow> distinct ps \<Longrightarrow>
   set ps \<inter> set qs = {} \<Longrightarrow>
   \<exists>f. copy_elems_loop (hd (ps @ [0])) (hd (qs @ [0])) m = Some (m\<lparr>el := f\<rparr>) \<and>
     map f ps = map (el m) (take (length ps) qs @ drop (length qs) ps) \<and> (\<forall>p. p \<notin> set ps \<longrightarrow> f p = el m p)"
proof (induction ps arbitrary: qs m)
  case Nil
  then show ?case by (subst copy_elems_loop.simps) (auto intro: exI [of _ "el m"])
next
  case (Cons p ps)
  show ?case
  proof (cases qs)
    case Nil
    then show ?thesis by (subst copy_elems_loop.simps) (auto intro: exI [of _ "el m"])
  next
    case (Cons q qs')
    have p: "p \<in> places m" "nx m p = hd (ps @ [0])" "p \<notin> set ps" "q \<in> places m" "nx m q = hd (qs' @ [0])" "p \<notin> set qs'" "p \<noteq> q"
      using Cons.prems Cons by auto
    have nz: "p \<noteq> 0" "q \<noteq> 0" using p(1,4) Cons.prems(4) by metis+
    let ?m = "m\<lparr>el := (el m)(p := el m q)\<rparr>"
    obtain f where f: "copy_elems_loop (hd (ps @ [0])) (hd (qs' @ [0])) ?m = Some (m\<lparr>el := f\<rparr>)"
      "map f ps = map (el ?m) (take (length ps) qs' @ drop (length qs') ps)" "\<forall>x. x \<notin> set ps \<longrightarrow> f x = el ?m x"
      using Cons.IH [of ?m qs'] Cons.prems Cons by auto
    have "map (el ?m) (take (length ps) qs' @ drop (length qs') ps) = map (el m) (take (length ps) qs' @ drop (length qs') ps)"
      using p(3,6) by (auto dest: in_set_takeD in_set_dropD)
    note f2 = f(2) [unfolded this]
    have "copy_elems_loop (hd ((p # ps) @ [0])) (hd (qs @ [0])) m = Some (m\<lparr>el := f\<rparr>)"
      using p nz f(1) Cons by (subst copy_elems_loop.simps) (simp add: list_elem_of_def set_el_def nx_of_def)
    moreover have "f p = el m q" using f(3) p(3) by simp
    ultimately show ?thesis using f2 f(3) Cons by (intro exI [of _ f]) auto
  qed
qed

lemma drop_tail_loop_ok:
  "list_at m l ps \<Longrightarrow> store_ok m \<Longrightarrow> node_blocks l ps \<subseteq># lives h (lal l) \<Longrightarrow>
   \<exists>l' m' h'. drop_tail_loop l n m h = Some ((l', m'), h') \<and> list_at m' l' (take n ps) \<and> store_ok m' \<and>
     lelem l' = lelem l \<and> lal l' = lal l \<and> el m' = el m \<and> others m' (set (take n ps)) = others m (set ps) \<and>
     requests h (lal l) (node_blocks l ps) (node_blocks l (take n ps)) True h'"
proof (induction ps arbitrary: l m h rule: rev_induct)
  case Nil
  then have "llen l = 0" by (simp add: list_at_def)
  then show ?case using Nil by (subst drop_tail_loop.simps) (simp add: requests_refl)
next
  case (snoc p ps)
  have len: "llen l = length ps + 1" "ltail l = p" using snoc.prems(1) by (simp_all add: list_at_def)
  show ?case
  proof (cases "length ps + 1 \<le> n")
    case True
    then show ?thesis using len snoc.prems by (subst drop_tail_loop.simps) (simp add: requests_refl)
  next
    case False
    obtain l1 m1 h1 where r: "list_remove_node l p m h = Some ((l1, m1), h1)" "list_at m1 l1 ps" "store_ok m1"
      "lelem l1 = lelem l" "lal l1 = lal l" "el m1 = el m" "others m1 (set ps) = others m (set (ps @ [p]))"
      "requests h (lal l) {#node_lay (lelem l)#} {#} True h1"
      using remove_node_ok [of m l ps p "[]" h] snoc.prems by auto
    have less: "requests h (lal l) (node_blocks l (ps @ [p])) (node_blocks l ps) True h1"
      using requests_less [OF r(8) _ snoc.prems(3)] by simp
    have own: "node_blocks l1 ps \<subseteq># lives h1 (lal l1)" using requests_lives [OF less] r(4,5) by simp
    obtain l' m' h' where i: "drop_tail_loop l1 n m1 h1 = Some ((l', m'), h')" "list_at m' l' (take n ps)" "store_ok m'"
      "lelem l' = lelem l" "lal l' = lal l" "el m' = el m" "others m' (set (take n ps)) = others m1 (set ps)"
      "requests h1 (lal l) (node_blocks l ps) (node_blocks l (take n ps)) True h'"
      using snoc.IH [OF r(2,3) own] r(4-6) by auto
    have "drop_tail_loop l n m h = Some ((l', m'), h')"
      using False len r(1) i(1) by (subst drop_tail_loop.simps) simp
    moreover have "requests h (lal l) (node_blocks l (ps @ [p])) (node_blocks l (take n ps)) True h'"
      by (rule requests_trans [OF less i(8)])
    ultimately show ?thesis using i(2-7) r(7) False by simp
  qed
qed

lemma list_copy_assign_ok:
  assumes L: "lists_at m h l ps s qs"
  shows "call_does list_view h (l, m) (tda_list_copy_assign False l s m h) True (map (el m) qs, others m (set ps))"
proof -
  have at: "list_at m l ps" "list_at m s qs" and apart: "set ps \<inter> set qs = {}" and ok: "store_ok m"
    and lay: "lelem s = lelem l" and own: "node_blocks l ps \<subseteq># lives h (lal l)"
    using L unfolding lists_at_def by blast+
  have z: "0 \<notin> places m" using ok by (simp add: store_ok_def)
  have as: "ASSERT_LIST l = Some ()" "ASSERT_LIST s = Some ()" "EXPECT_SAME_LIST l s = Some ()"
    using list_at_assert [OF at(1) ok] list_at_assert [OF at(2) ok] lay by (simp_all add: EXPECT_SAME_LIST_def tda_layout_eq_def)
  have k: "list_kind_ok (lelem l) (lal l)" and q: "links (nx m) qs 0" "set qs \<subseteq> places m" "lhead s = hd (qs @ [0])"
    "llen s = length qs" and p: "lhead l = hd (ps @ [0])" "llen l = length ps" "distinct ps"
    using at by (simp_all add: list_at_def)
  let ?n = "length ps"
  note new = list_new_at [OF k]
  have skip: "list_skip m (lhead s) (llen l) = Some (hd (drop ?n qs @ [0]))"
    using list_skip_drop [OF q(1,2) z] q(3) p(2) by simp
  have "links (nx m) (take ?n qs @ drop ?n qs) 0" using q(1) by simp
  then have dl: "links (nx m) (drop ?n qs) 0" unfolding links_append by simp
  have ds: "set (drop ?n qs) \<subseteq> places m - set []" using q(2) by (auto dest: in_set_dropD)
  have "list_makes m h (lal l) (lelem l) (push_copies (list_new (lelem l) (lal l)) (hd (drop ?n qs @ [0])) m h)
      (map (el m) (drop ?n qs))"
    unfolding list_makes_def by (rule push_copies_ok [OF new(1) ok new(3) dl ds])
  then obtain st sp m1 h1 where c: "push_copies (list_new (lelem l) (lal l)) (hd (drop ?n qs @ [0])) m h = Some (st, (sp, m1), h1)"
    and ok1: "store_ok m1"
    and res: "if st = TDA_STATUS_OK
      then lelem sp = lelem l \<and> lal sp = lal l \<and> (\<exists>rs. list_at m1 sp rs \<and> map (el m1) rs = map (el m) (drop ?n qs) \<and>
        others m1 (set rs) = others m {} \<and> requests h (lal l) {#} (node_blocks l rs) True h1)
      else others m1 {} = others m {} \<and> requests h (lal l) {#} {#} True h1 \<and> \<not> generous h (lal l)"
    using list_makesD by blast
  show ?thesis
  proof (cases "st = TDA_STATUS_OK")
    case False
    then have res: "others m1 {} = others m {}" "requests h (lal l) {#} {#} True h1" "\<not> generous h (lal l)" using res by simp_all
    have run: "tda_list_copy_assign False l s m h = Some (st, (l, m1), h1)"
      using as skip new(2) c False by (simp add: tda_list_copy_assign_def status_is_err_iff)
    note l1 = list_at_others [OF at(1) _ res(1)]
    have "others m1 (set ps) = others m (set ps)" using others_union [OF res(1), of "set ps"] by simp
    moreover have "requests h (lal l) (node_blocks l ps) (node_blocks l ps) True h1" using requests_more [OF res(2) own] by simp
    ultimately show ?thesis
      unfolding run using False res(3) l1 at(1) ok ok1 by (auto intro!: does_refused simp: call_grows_def list_at_view)
  next
    case True
    then obtain rs where sp: "lelem sp = lelem l" "lal sp = lal l" "list_at m1 sp rs" "map (el m1) rs = map (el m) (drop ?n qs)"
      "others m1 (set rs) = others m {}" "requests h (lal l) {#} (node_blocks l rs) True h1"
      using res by auto
    have l1: "list_at m1 l ps" "map (el m1) ps = map (el m) ps" "set ps \<inter> set rs = {}"
      "list_at m1 s qs" "map (el m1) qs = map (el m) qs" "set qs \<inter> set rs = {}"
      using list_at_others [OF at(1) _ sp(5)] list_at_others [OF at(2) _ sp(5)] by simp_all
    have z1: "0 \<notin> places m1" using ok1 by (simp add: store_ok_def)
    have lk1: "links (nx m1) ps 0" "links (nx m1) qs 0" "set ps \<union> set qs \<subseteq> places m1" using l1(1,4) by (simp_all add: list_at_def)
    obtain f where f: "copy_elems_loop (hd (ps @ [0])) (hd (qs @ [0])) m1 = Some (m1\<lparr>el := f\<rparr>)"
      "map f ps = map (el m1) (take ?n qs @ drop (length qs) ps)" "\<forall>x. x \<notin> set ps \<longrightarrow> f x = el m1 x"
      using copy_elems_loop_ok [OF lk1 z1 p(3) apart] by blast
    let ?m2 = "m1\<lparr>el := f\<rparr>"
    have ok2: "store_ok ?m2" and l2: "list_at ?m2 l ps" "list_at ?m2 sp rs" using ok1 l1(1) sp(3) by (simp_all add: store_ok_def list_at_def)
    have o2: "others ?m2 (set ps) = others m1 (set ps)" using f(3) by (auto simp: others_def fun_eq_iff)
    have own1: "node_blocks l ps + node_blocks l rs \<subseteq># lives h1 (lal l)"
      using requests_lives [OF requests_more [OF sp(6) own]] .
    then have own1': "node_blocks l ps \<subseteq># lives h1 (lal l)" by (rule subset_mset.order_trans [OF mset_subset_eq_add_left])
    obtain l3 m3 h3 where d: "drop_tail_loop l (length qs) ?m2 h1 = Some ((l3, m3), h3)" "list_at m3 l3 (take (length qs) ps)"
      "store_ok m3" "lelem l3 = lelem l" "lal l3 = lal l" "el m3 = f"
      "others m3 (set (take (length qs) ps)) = others ?m2 (set ps)"
      "requests h1 (lal l) (node_blocks l ps) (node_blocks l (take (length qs) ps)) True h3"
      using drop_tail_loop_ok [OF l2(1) ok2 own1', of "length qs"] by auto
    let ?as = "take (length qs) ps"
    have cells: "map f ?as = map (el m) (take ?n qs)"
    proof -
      have "map f ?as = take (length qs) (map f ps)" by (simp add: take_map)
      also have "\<dots> = map (el m1) (take ?n qs)" unfolding f(2) by (cases "length qs \<le> ?n") (simp_all add: take_map)
      also have "\<dots> = map (el m) (take ?n qs)" using arg_cong [OF l1(5), of "take ?n"] by (simp add: take_map)
      finally show ?thesis .
    qed
    have rsf: "map f rs = map (el m) (drop ?n qs)" using f(3) l1(3) sp(4) by (metis (no_types, lifting) disjoint_iff map_eq_conv)
    have s3: "list_at m3 sp rs" "set ?as \<inter> set rs = {}"
      using list_at_others [OF l2(2) _ d(7)] l1(3) by (auto dest: in_set_takeD)
    have req: "requests h (lal l) (node_blocks l ps) (node_blocks l (?as @ rs)) True h3"
      using requests_trans [OF requests_more [OF sp(6) own] requests_frame [OF d(8) own1]] by (simp only: node_blocks_append)
    have fin: "map f (?as @ rs) = map (el m) qs" using cells rsf by (metis append_take_drop_id map_append)
    have o3: "others m3 (set (?as @ rs)) = others m (set ps)"
    proof -
      have "others m3 (set ?as \<union> set rs) = others m1 (set rs \<union> set ps)"
        using others_union [OF d(7) [unfolded o2], of "set rs"] by (simp add: Un_commute)
      also have "\<dots> = others m (set ps)" using others_union [OF sp(5), of "set ps"] by simp
      finally show ?thesis by simp
    qed
    have pre: "tda_list_copy_assign False l s m h = do {
        (self, m) \<leftarrow> (if llen sp > 0 then do { (self, spare, m) \<leftarrow> splice_nodes l3 sp False m3; Some (self, m) } else Some (l3, m3));
        ASSERT_LIST self;
        Some (TDA_STATUS_OK, (self, m), h3)
      }"
      using as skip new(2) c True f(1) d(1) q(3,4) p(1)
      by (simp add: tda_list_copy_assign_def status_is_err_iff split del: if_split cong: if_cong)
    show ?thesis
    proof (cases "rs = []")
      case none: True
      then have "llen sp = 0" using sp(3) by (simp add: list_at_def)
      then have "tda_list_copy_assign False l s m h = Some (TDA_STATUS_OK, (l3, m3), h3)"
        unfolding pre using list_at_assert [OF d(2,3)] by simp
      then show ?thesis
        using list_does [OF at(1) ok d(2-5), of h h3 "map (el m) qs" "others m (set ps)" True] req fin o3 none d(6) by simp
    next
      case some: False
      then have "0 < llen sp" using sp(3) by (simp add: list_at_def)
      moreover obtain l' m' where sn: "splice_nodes l3 sp False m3 = Some (l', list_set_empty sp, m')" "list_at m' l' (?as @ rs)"
        "el m' = el m3" "store_ok m'" "lelem l' = lelem l3" "lal l' = lal l3"
        "others m' (set ?as \<union> set rs) = others m3 (set ?as \<union> set rs)"
        using splice_nodes_ok [OF d(2) s3(1,2) d(3) _ _ some, of False] sp(1,2) d(4,5) by auto
      ultimately have "tda_list_copy_assign False l s m h = Some (TDA_STATUS_OK, (l', m'), h3)"
        unfolding pre using list_at_assert [OF sn(2,4)] by simp
      then show ?thesis
        using list_does [OF at(1) ok sn(2,4), of h h3 "map (el m) qs" "others m (set ps)" True] req fin o3 sn(3,5-7) d(4-6) by simp
    qed
  qed
qed

lemma list_move_assign_ok:
  assumes L: "lists_at m h l ps s qs"
  shows "\<exists>s' m' h'. tda_list_move_assign False l s m h = Some (s, s', m', h') \<and> store_ok m' \<and>
    list_at m' s qs \<and> map (el m') qs = map (el m) qs \<and> list_at m' s' [] \<and> lelem s' = lelem s \<and> lal s' = lal s \<and>
    others m' (set qs) = others m (set ps \<union> set qs) \<and> requests h (lal l) (node_blocks l ps) {#} True h'"
proof -
  have at: "list_at m l ps" "list_at m s qs" and apart: "set ps \<inter> set qs = {}" and ok: "store_ok m"
    and lay: "lelem s = lelem l" and own: "node_blocks l ps \<subseteq># lives h (lal l)"
    using L unfolding lists_at_def by blast+
  have as: "ASSERT_LIST l = Some ()" "ASSERT_LIST s = Some ()" "EXPECT_SAME_LIST l s = Some ()" "lal l \<noteq> 0"
    and k: "list_kind_ok (lelem s) (lal s)"
    using list_at_assert [OF at(1) ok] list_at_assert [OF at(2) ok] lay at
    by (simp_all add: EXPECT_SAME_LIST_def tda_layout_eq_def list_at_def list_kind_ok_def)
  obtain m1 h1 where d: "tda_list_deinit l m h = Some ((list_null, m1), h1)" "store_ok m1" "others m1 {} = others m (set ps)"
    "requests h (lal l) (node_blocks l ps) {#} True h1"
    using list_deinit_at [OF at(1) ok own] by blast
  have s1: "list_at m1 s qs" "map (el m1) qs = map (el m) qs"
    using list_at_others [OF at(2) _ d(3)] apart by auto
  note new = list_new_at [OF k]
  have "tda_list_move_assign False l s m h = Some (s, list_new (lelem s) (lal s), m1, h1)"
    using as d(1) new(2) list_at_assert [OF s1(1) d(2)] list_at_assert [OF new(1) d(2)]
    by (simp add: tda_list_move_assign_def)
  moreover have "others m1 (set qs) = others m (set ps \<union> set qs)" using others_union [OF d(3), of "set qs"] by simp
  ultimately show ?thesis using d s1 new(1) by (simp add: list_new_def)
qed

lemma list_swap_ok:
  assumes "list_at m l ps" "list_at m s qs" "store_ok m" "lelem s = lelem l"
  shows "tda_list_swap False l s = Some (s, l)"
  using list_at_assert [OF assms(1,3)] list_at_assert [OF assms(2,3)] assms(4)
  by (simp add: tda_list_swap_def EXPECT_SAME_LIST_def tda_layout_eq_def)

section \<open>Moving one node\<close>

lemma prev_of_ok:
  assumes "list_at m l (as @ bs)" "store_ok m"
  shows "prev_of m l (hd (bs @ [0])) = Some (hd (rev as @ [0]))" "ASSERT_POS m (hd (bs @ [0])) = Some ()"
    "bs \<noteq> [] \<Longrightarrow> owns_node m l (hd bs) = Some True" "bs \<noteq> [] \<Longrightarrow> hd bs \<noteq> 0" "bs = [] \<Longrightarrow> hd (bs @ [0]) = 0"
proof -
  have "prev_of m l (hd (bs @ [0])) = Some (hd (rev as @ [0])) \<and> ASSERT_POS m (hd (bs @ [0])) = Some () \<and>
    (bs \<noteq> [] \<longrightarrow> owns_node m l (hd bs) = Some True \<and> hd bs \<noteq> 0)"
  proof (cases bs)
    case Nil
    then show ?thesis using assms by (simp add: prev_of_def ASSERT_POS_def list_at_def)
  next
    case (Cons b cs)
    note at = assms(1) [unfolded Cons]
    have "b \<noteq> 0" using list_at_links(3) [OF at] assms(2) unfolding store_ok_def by metis
    then show ?thesis
      using list_at_links [OF at] list_at_pos(1) [OF at assms(2)] owns_node_ok [OF at assms(2)] Cons
      by (simp add: prev_of_def pv_of_def)
  qed
  then show "prev_of m l (hd (bs @ [0])) = Some (hd (rev as @ [0]))" "ASSERT_POS m (hd (bs @ [0])) = Some ()"
    "bs \<noteq> [] \<Longrightarrow> owns_node m l (hd bs) = Some True" "bs \<noteq> [] \<Longrightarrow> hd bs \<noteq> 0" "bs = [] \<Longrightarrow> hd (bs @ [0]) = 0"
    by simp_all
qed

text \<open>A node that is in no list, and is then in one.\<close>

lemma link_node_ok:
  assumes at: "list_at m l (as @ bs)" and ok: "store_ok m" and p: "p \<in> places m" "p \<notin> set (as @ bs)"
  shows "\<exists>l' m'. link_node l p (hd (rev as @ [0])) (hd (bs @ [0])) m = Some (l', m') \<and>
    list_at m' l' (as @ p # bs) \<and> store_ok m' \<and> el m' = el m \<and> lelem l' = lelem l \<and> lal l' = lal l \<and>
    others m' (set (as @ p # bs)) = others m (set (as @ p # bs))"
proof -
  have "distinct (as @ bs)" using at by (simp add: list_at_def)
  then have d: "distinct (as @ [p] @ bs)" using p(2) by auto
  have cs: "links (nx m) [p] (nx m p)" "links (pv m) (rev [p]) (pv m p)" "set [p] \<subseteq> places m" "[p] \<noteq> []" using p(1) by simp_all
  obtain l' m' where r: "link_chain l p p 1 (hd (rev as @ [0])) (hd (bs @ [0])) m = Some (l', m')"
    "list_at m' l' (as @ [p] @ bs)" "el m' = el m" "places m' = places m" "pick m' = pick m" "lelem l' = lelem l" "lal l' = lal l"
    "\<forall>q. q \<notin> set (as @ [p] @ bs) \<longrightarrow> nx m' q = nx m q \<and> pv m' q = pv m q"
    using link_chain_ok [OF at ok cs(1,2) d cs(3,4)] by auto
  have "others m' (set (as @ p # bs)) = others m (set (as @ p # bs))" using r(8) by (intro others_same [OF r(4,3)]) auto
  then show ?thesis using r ok by (intro exI [of _ l'] exI [of _ m']) (simp add: link_node_def store_ok_def)
qed

lemma list_splice_node_ok:
  assumes L: "lists_at m h l (as @ bs) s (cs @ p # ds)"
  shows "\<exists>st l' s' m' h'. tda_list_splice_node False l (hd (bs @ [0])) s p m h = Some (st, l', s', m', h') \<and>
    (if st = TDA_STATUS_OK
     then (\<exists>q. lists_at m' h' l' (as @ q # bs) s' (cs @ ds) \<and>
         map (el m') (as @ q # bs) = map (el m) as @ el m p # map (el m) bs \<and> map (el m') (cs @ ds) = map (el m) (cs @ ds) \<and>
         others m' (set (as @ q # bs) \<union> set (cs @ ds)) = others m (set (as @ bs) \<union> set (cs @ p # ds)) \<and>
         (lal s = lal l \<longrightarrow> q = p)) \<and>
       lelem l' = lelem l \<and> lal l' = lal l \<and> lal s' = lal s \<and>
       (if lal s = lal l then h' = h
        else \<exists>h1. requests h (lal l) {#} {#node_lay (lelem l)#} True h1 \<and> requests h1 (lal s) {#node_lay (lelem s)#} {#} True h')
     else l' = l \<and> s' = s \<and> m' = m \<and> (\<forall>a. lives h' a = lives h a) \<and> lal s \<noteq> lal l \<and> \<not> generous h (lal l))"
proof -
  have at: "list_at m l (as @ bs)" "list_at m s (cs @ p # ds)" and apart: "set (as @ bs) \<inter> set (cs @ p # ds) = {}"
    and ok: "store_ok m" and lay: "lelem s = lelem l"
    and own: "node_blocks l (as @ bs) \<subseteq># lives h (lal l)" "node_blocks s (cs @ p # ds) \<subseteq># lives h (lal s)"
    and both: "lal s = lal l \<Longrightarrow> node_blocks l (as @ bs) + node_blocks s (cs @ p # ds) \<subseteq># lives h (lal l)"
    using L unfolding lists_at_def by blast+
  have ass: "ASSERT_LIST l = Some ()" "ASSERT_LIST s = Some ()" "EXPECT_SAME_LIST l s = Some ()"
    using list_at_assert [OF at(1) ok] list_at_assert [OF at(2) ok] lay by (simp_all add: EXPECT_SAME_LIST_def tda_layout_eq_def)
  note pos = prev_of_ok [OF at(1) ok]
  note node = list_at_pos(2) [OF at(2) ok] owns_node_ok [OF at(2) ok]
  have p: "p \<in> places m" "p \<notin> set (as @ bs)" "p \<notin> set (cs @ ds)" using list_at_links(3) [OF at(2)] apart at(2) by (auto simp: list_at_def)
  have nz: "p \<noteq> 0" using p(1) ok unfolding store_ok_def by metis
  have ne: "hd (bs @ [0]) \<noteq> p" using p(2) nz by (cases bs) auto
  have own': "(if hd (bs @ [0]) = 0 then Some () else do { b \<leftarrow> owns_node m l (hd (bs @ [0])); chk b }) = Some ()"
    using pos(3-5) by (cases bs) auto
  note start = ass pos(1,2) node ne own'
  show ?thesis
  proof (cases "lal s = lal l")
    case False
    obtain st l1 m1 h1 where r: "insert_between l (hd (rev as @ [0])) (hd (bs @ [0])) (Node p) m h = Some (st, (l1, m1), h1)"
      and k: "lelem l1 = lelem l" "lal l1 = lal l" "store_ok m1"
      and res: "if st = TDA_STATUS_OK
       then requests h (lal l) {#} {#node_lay (lelem l)#} True h1 \<and>
         (\<exists>q. q \<notin> places m \<and> list_at m1 l1 (as @ q # bs) \<and> el m1 = (el m)(q := larg_val m (Node p)) \<and>
            others m1 (set (as @ q # bs)) = others m (set (as @ bs)))
       else l1 = l \<and> m1 = m \<and> requests h (lal l) {#} {#node_lay (lelem l)#} False h1 \<and> \<not> generous h (lal l)"
      using insert_between_ok [OF at(1) ok, of "Node p" h] p(1) by (auto simp: larg_ok_def)
    show ?thesis
    proof (cases "st = TDA_STATUS_OK")
      case no: False
      then have res: "l1 = l" "m1 = m" "requests h (lal l) {#} {#node_lay (lelem l)#} False h1" "\<not> generous h (lal l)"
        using res by simp_all
      have "tda_list_splice_node False l (hd (bs @ [0])) s p m h = Some (st, l, s, m, h1)"
        using start r res(1,2) no False by (simp add: tda_list_splice_node_def status_is_err_iff)
      moreover have "\<forall>a. lives h1 a = lives h a" using res(3) by (simp add: requests_def)
      ultimately show ?thesis using no False res(4) by simp
    next
      case yes: True
      then obtain q where q: "q \<notin> places m" "list_at m1 l1 (as @ q # bs)" "el m1 = (el m)(q := el m p)"
        "others m1 (set (as @ q # bs)) = others m (set (as @ bs))" "requests h (lal l) {#} {#node_lay (lelem l)#} True h1"
        using res by (auto simp: larg_val_def)
      have s1: "list_at m1 s (cs @ p # ds)" "map (el m1) (cs @ p # ds) = map (el m) (cs @ p # ds)"
        "set (cs @ p # ds) \<inter> set (as @ q # bs) = {}"
        using list_at_others [OF at(2) _ q(4)] apart by (simp_all add: Int_commute)
      have lv: "lives h1 (lal s) = lives h (lal s)" using q(5) False by (simp add: requests_def)
      obtain s2 m2 h2 where d: "list_remove_node s p m1 h1 = Some ((s2, m2), h2)" "list_at m2 s2 (cs @ ds)" "store_ok m2"
        "lelem s2 = lelem s" "lal s2 = lal s" "el m2 = el m1" "others m2 (set (cs @ ds)) = others m1 (set (cs @ p # ds))"
        "requests h1 (lal s) {#node_lay (lelem s)#} {#} True h2"
        using remove_node_ok [OF s1(1) k(3) own(2) [folded lv]] by blast
      have l2: "list_at m2 l1 (as @ q # bs)" "map (el m2) (as @ q # bs) = map (el m1) (as @ q # bs)"
        "set (as @ q # bs) \<inter> set (cs @ ds) = {}"
        using list_at_others [OF q(2) _ d(7)] s1(3) by (simp_all add: Int_commute)
      have run: "tda_list_splice_node False l (hd (bs @ [0])) s p m h = Some (TDA_STATUS_OK, l1, s2, m2, h2)"
        using start r yes False d(1) list_at_assert [OF l2(1) d(3)] list_at_assert [OF d(2,3)]
        by (simp add: tda_list_splice_node_def status_is_err_iff)
      have "set (as @ bs) \<subseteq> places m" using at(1) by (simp add: list_at_def)
      then have cells: "map (el m2) (as @ q # bs) = map (el m) as @ el m p # map (el m) bs" using q(1,3) d(6) by auto
      have lo: "node_blocks l1 (as @ q # bs) \<subseteq># lives h2 (lal l1)"
        using requests_lives [OF requests_more [OF q(5) own(1)]] d(8) False k(1,2) by (simp add: requests_def)
      have so: "node_blocks s2 (cs @ ds) \<subseteq># lives h2 (lal s2)"
        using requests_lives [OF requests_less [OF d(8) _ own(2) [folded lv]]] d(4,5) by simp
      have "lists_at m2 h2 l1 (as @ q # bs) s2 (cs @ ds)"
        using l2 d(2-5) lo so k(1,2) lay False by (simp add: lists_at_def)
      moreover have "map (el m2) (cs @ ds) = map (el m) (cs @ ds)" using s1(2) d(6) by simp
      moreover have "others m2 (set (as @ q # bs) \<union> set (cs @ ds)) = others m (set (as @ bs) \<union> set (cs @ p # ds))"
        using others_union [OF d(7), of "set (as @ q # bs)"] others_union [OF q(4), of "set (cs @ p # ds)"]
        by (simp only: Un_commute)
      ultimately show ?thesis
        using run cells False k(1,2) d(5,8) q(5)
        by - (rule exI [of _ TDA_STATUS_OK], rule exI [of _ l1], rule exI [of _ s2], rule exI [of _ m2], rule exI [of _ h2],
          simp only: simp_thms if_True if_not_P, blast)
    qed
  next
    case True
    obtain s1 m1 where u: "unlink_node s p m = Some (s1, m1)" "list_at m1 s1 (cs @ ds)" "el m1 = el m" "places m1 = places m"
      "pick m1 = pick m" "lelem s1 = lelem s" "lal s1 = lal s" "\<forall>q. q \<notin> set (cs @ ds) \<longrightarrow> nx m1 q = nx m q \<and> pv m1 q = pv m q"
      using unlink_ok [OF at(2) ok] by blast
    have ok1: "store_ok m1" using ok u(4,5) by (simp add: store_ok_def)
    have o1: "others m1 (set (cs @ ds)) = others m (set (cs @ ds))" using u(8) by (intro others_same [OF u(4,3)]) auto
    have ap: "set (as @ bs) \<inter> set (cs @ ds) = {}" using apart by auto
    have l1: "list_at m1 l (as @ bs)" using list_at_others(1) [OF at(1) ap o1] .
    have p1: "p \<in> places m1" using p(1) u(4) by simp
    obtain l2 m2 where r: "link_node l p (hd (rev as @ [0])) (hd (bs @ [0])) m1 = Some (l2, m2)" "list_at m2 l2 (as @ p # bs)"
      "store_ok m2" "el m2 = el m1" "lelem l2 = lelem l" "lal l2 = lal l"
      "others m2 (set (as @ p # bs)) = others m1 (set (as @ p # bs))"
      using link_node_ok [OF l1 ok1 p1 p(2)] by blast
    have ap2: "set (cs @ ds) \<inter> set (as @ p # bs) = {}" using ap p(3) by auto
    have s2: "list_at m2 s1 (cs @ ds)" using list_at_others(1) [OF u(2) ap2 r(7)] .
    note pos1 = prev_of_ok(1) [OF l1 ok1]
    have run: "tda_list_splice_node False l (hd (bs @ [0])) s p m h = Some (TDA_STATUS_OK, l2, s1, m2, h)"
      using start u(1) pos1 r(1) True list_at_assert [OF r(2,3)] list_at_assert [OF s2 r(3)] list_at_pos(2) [OF r(2,3)]
      by (simp add: tda_list_splice_node_def)
    have sum: "node_blocks l2 (as @ p # bs) + node_blocks s1 (cs @ ds) \<subseteq># lives h (lal l)"
      using both [OF True] lay r(5) u(6) by simp
    have lo: "node_blocks l2 (as @ p # bs) \<subseteq># lives h (lal l)" "node_blocks s1 (cs @ ds) \<subseteq># lives h (lal l)"
      using subset_mset.order_trans [OF mset_subset_eq_add_left sum] subset_mset.order_trans [OF mset_subset_eq_add_right sum] .
    have "lists_at m2 h l2 (as @ p # bs) s1 (cs @ ds)"
      using r(2,3,5,6) s2 ap2 sum lo True u(6,7) lay unfolding lists_at_def by (simp add: Int_commute)
    moreover have "others m2 (set (as @ p # bs) \<union> set (cs @ ds)) = others m (set (as @ bs) \<union> set (cs @ p # ds))"
    proof -
      have "set (as @ p # bs) \<union> set (cs @ ds) = set (as @ bs) \<union> set (cs @ p # ds)" by auto
      then show ?thesis
        using others_union [OF r(7), of "set (cs @ ds)"] others_union [OF o1, of "set (as @ p # bs)"] by (simp only: Un_commute)
    qed
    ultimately show ?thesis using run u(3,7) r(4-6) True
      by - (rule exI [of _ TDA_STATUS_OK], rule exI [of _ l2], rule exI [of _ s1], rule exI [of _ m2], rule exI [of _ h], auto)
  qed
qed

text \<open>Within one list.\<close>

lemma list_splice_node_same:
  assumes at: "list_at m l ps" and ok: "store_ok m" and p: "ps = cs @ p # ds" and to: "cs @ ds = as @ bs" "p \<noteq> hd (bs @ [0])"
  shows "\<exists>l' m'. tda_list_splice_node True l (hd (bs @ [0])) l p m h = Some (TDA_STATUS_OK, l', l', m', h) \<and>
    list_at m' l' (as @ p # bs) \<and> store_ok m' \<and> el m' = el m \<and> lelem l' = lelem l \<and> lal l' = lal l \<and>
    others m' (set ps) = others m (set ps)"
proof -
  note atp = at [unfolded p]
  note node = list_at_pos(2) [OF atp ok] owns_node_ok [OF atp ok]
  have pin: "p \<in> places m" "p \<notin> set (cs @ ds)" using list_at_links(3) [OF atp] atp by (auto simp: list_at_def)
  have ass: "ASSERT_LIST l = Some ()" "EXPECT_SAME_LIST l l = Some ()"
    using list_at_assert [OF at ok] by (simp_all add: EXPECT_SAME_LIST_def tda_layout_eq_def)
  have target: "ASSERT_POS m (hd (bs @ [0])) = Some ()"
    "(if hd (bs @ [0]) = 0 then Some () else do { b \<leftarrow> owns_node m l (hd (bs @ [0])); chk b }) = Some ()"
  proof -
    have "ASSERT_POS m (hd (bs @ [0])) = Some () \<and>
      (if hd (bs @ [0]) = 0 then Some () else do { b \<leftarrow> owns_node m l (hd (bs @ [0])); chk b }) = Some ()"
    proof (cases bs)
      case Nil
      then show ?thesis by (simp add: ASSERT_POS_def)
    next
      case (Cons b bs')
      then have "b \<in> set (cs @ ds)" using to(1) by simp
      then have "b \<in> set ps" unfolding p by auto
      then obtain xs ys where "ps = xs @ b # ys" using split_list by metis
      then have "list_at m l (xs @ b # ys)" using at by simp
      then show ?thesis using list_at_pos(1) [OF _ ok] owns_node_ok [OF _ ok] Cons by simp
    qed
    then show "ASSERT_POS m (hd (bs @ [0])) = Some ()"
      "(if hd (bs @ [0]) = 0 then Some () else do { b \<leftarrow> owns_node m l (hd (bs @ [0])); chk b }) = Some ()"
      by blast+
  qed
  obtain l1 m1 where u: "unlink_node l p m = Some (l1, m1)" "list_at m1 l1 (as @ bs)" "el m1 = el m" "places m1 = places m"
    "pick m1 = pick m" "lelem l1 = lelem l" "lal l1 = lal l" "\<forall>q. q \<notin> set (cs @ ds) \<longrightarrow> nx m1 q = nx m q \<and> pv m1 q = pv m q"
    using unlink_ok [OF atp ok] unfolding to(1) by blast
  have ok1: "store_ok m1" using ok u(4,5) by (simp add: store_ok_def)
  have p1: "p \<in> places m1" "p \<notin> set (as @ bs)" using pin u(4) to(1) by simp_all
  obtain l2 m2 where r: "link_node l1 p (hd (rev as @ [0])) (hd (bs @ [0])) m1 = Some (l2, m2)" "list_at m2 l2 (as @ p # bs)"
    "store_ok m2" "el m2 = el m1" "lelem l2 = lelem l1" "lal l2 = lal l1"
    "others m2 (set (as @ p # bs)) = others m1 (set (as @ p # bs))"
    using link_node_ok [OF u(2) ok1 p1] by blast
  have "tda_list_splice_node True l (hd (bs @ [0])) l p m h = Some (TDA_STATUS_OK, l2, l2, m2, h)"
    using ass node target to(2) u(1) prev_of_ok(1) [OF u(2) ok1] r(1) list_at_assert [OF r(2,3)] list_at_pos(2) [OF r(2,3)]
    by (simp add: tda_list_splice_node_def)
  moreover have "others m2 (set ps) = others m (set ps)"
  proof -
    have e: "set (as @ p # bs) = set ps" using arg_cong [OF to(1), of set] unfolding p by auto
    have "others m1 (set ps) = others m (set ps)" using u(8) unfolding p by (intro others_same [OF u(4,3)]) auto
    then show ?thesis using r(7) unfolding e by simp
  qed
  ultimately show ?thesis using r u by auto
qed

section \<open>Comparing\<close>

lemma list_eq_by_ok:
  assumes L: "lists_at m h l ps s qs" and xs: "map (el m) ps = map Some xs" "map (el m) qs = map Some ys"
  shows "tda_list_eq_by False eq l s m = Some (list_all2 eq xs ys)"
proof -
  have at: "list_at m l ps" "list_at m s qs" "store_ok m" "lelem s = lelem l" using L by (simp_all add: lists_at_def)
  have "list_eq_impl False l s eq m = Some (list_all2 eq xs ys)" using list_eq_impl_ok [OF at(1-3) xs] by simp
  then show ?thesis
    using list_at_assert [OF at(1,3)] list_at_assert [OF at(2,3)] at(4)
    by (simp add: tda_list_eq_by_def EXPECT_SAME_LIST_def tda_layout_eq_def)
qed

end
