(* ===== verification/Family.thy ===== *)
theory Family
  imports Holder
begin

text \<open>
  Any number of containers of one kind at once, made, called, assigned, moved, swapped and ended in any
  order, on any allocators. Those whose nodes lie in a memory share it. A call is a step of the
  containers it is about; all others are alive beside it. The locale says of such a kind what the
  accounts list after any history.
\<close>

section \<open>What is out\<close>

definition out_at :: "('c \<Rightarrow> ('k, 'x) holder) \<Rightarrow> 'c \<Rightarrow> al \<Rightarrow> layout multiset" where
  "out_at view c a = (if hal (view c) = a then hblocks (view c) else {#})"

definition all_out :: "('o \<times> 'm \<Rightarrow> ('k, 'x) holder) \<Rightarrow> 'm \<Rightarrow> 'o multiset \<Rightarrow> al \<Rightarrow> layout multiset" where
  "all_out view m K a = (\<Sum>o1 \<in># K. out_at view (o1, m) a)"

text \<open>The nodes of the containers, and that no node is in two of them.\<close>

definition all_nodes :: "('o \<Rightarrow> nat set) \<Rightarrow> 'o multiset \<Rightarrow> nat set" where
  "all_nodes N K = (\<Union>o1 \<in> set_mset K. N o1)"

definition nodes_apart :: "('o \<Rightarrow> nat set) \<Rightarrow> 'o multiset \<Rightarrow> bool" where
  "nodes_apart N K \<longleftrightarrow> (\<forall>p. size (filter_mset (\<lambda>o1. p \<in> N o1) K) \<le> 1)"

lemma all_out_simps [simp]:
  "all_out view m {#} a = {#}"
  "all_out view m (add_mset o1 K) a = out_at view (o1, m) a + all_out view m K a"
  "all_out view m (K + M) a = all_out view m K a + all_out view m M a"
  by (simp_all add: all_out_def)

lemma all_nodes_simps [simp]:
  "all_nodes N {#} = {}" "all_nodes N (add_mset o1 K) = N o1 \<union> all_nodes N K"
  by (simp_all add: all_nodes_def)

lemma nodes_apart_few [simp]:
  "nodes_apart N {#}" "nodes_apart N {#o1#}" "nodes_apart N {#o1, o2#} \<longleftrightarrow> N o1 \<inter> N o2 = {}"
  by (auto simp: nodes_apart_def)

lemma none_in: "filter_mset (\<lambda>o1. p \<in> N o1) K = {#} \<longleftrightarrow> p \<notin> all_nodes N K"
  by (simp flip: set_mset_eq_empty_iff) (auto simp: all_nodes_def)

lemma nodes_apart_union:
  "nodes_apart N (K + M) \<longleftrightarrow> nodes_apart N K \<and> nodes_apart N M \<and> all_nodes N K \<inter> all_nodes N M = {}"
proof -
  have "size (filter_mset (\<lambda>o1. p \<in> N o1) (K + M)) \<le> 1 \<longleftrightarrow>
      size (filter_mset (\<lambda>o1. p \<in> N o1) K) \<le> 1 \<and> size (filter_mset (\<lambda>o1. p \<in> N o1) M) \<le> 1 \<and>
      (p \<notin> all_nodes N K \<or> p \<notin> all_nodes N M)" for p
    unfolding none_in [symmetric] by (auto simp: size_eq_0_iff_empty [symmetric] simp del: size_eq_0_iff_empty)
  then show ?thesis unfolding nodes_apart_def by blast
qed

section \<open>What a step does\<close>

text \<open>
  The containers \<open>K\<close> are there: each is well formed, no node is in two, the accounts list their blocks.
\<close>

definition stands ::
  "('o \<times> 'm \<Rightarrow> ('k, 'x) holder) \<Rightarrow> ('o \<times> 'm \<Rightarrow> nat set) \<Rightarrow> ('m \<Rightarrow> bool) \<Rightarrow> heap \<Rightarrow> 'm \<Rightarrow> 'o multiset \<Rightarrow> bool" where
  "stands view nodes sound h m K \<longleftrightarrow> sound m \<and> (\<forall>o1 \<in># K. hgood (view (o1, m))) \<and> nodes_apart (\<lambda>o1. nodes (o1, m)) K \<and>
     (\<forall>a. all_out view m K a \<subseteq># lives h a)"

lemma stands_part: "stands view nodes sound h m (K + M) \<Longrightarrow> stands view nodes sound h m K"
  by (auto simp: stands_def nodes_apart_union intro: subset_mset.order_trans [OF mset_subset_eq_add_left])

text \<open>
  In place of the containers \<open>K\<close> there are \<open>K'\<close>, and each account lists their blocks in place of the
  others'; outside their nodes the memory is as it was.
\<close>

definition trades ::
  "('o \<times> 'm \<Rightarrow> ('k, 'x) holder) \<Rightarrow> ('o \<times> 'm \<Rightarrow> nat set) \<Rightarrow> ('m \<Rightarrow> bool) \<Rightarrow> ('m \<Rightarrow> nat set \<Rightarrow> 'r) \<Rightarrow>
   heap \<times> 'm \<times> 'o multiset \<Rightarrow> heap \<times> 'm \<times> 'o multiset \<Rightarrow> bool" where
  "trades view nodes sound rest s t = (case s of (h, m, K) \<Rightarrow> case t of (h', m', K') \<Rightarrow>
     sound m' \<and> (\<forall>o1 \<in># K'. hgood (view (o1, m'))) \<and> nodes_apart (\<lambda>o1. nodes (o1, m')) K' \<and>
     rest m' (all_nodes (\<lambda>o1. nodes (o1, m')) K') = rest m (all_nodes (\<lambda>o1. nodes (o1, m)) K) \<and>
     (\<forall>a. lives h' a + all_out view m K a = lives h a + all_out view m' K' a))"

lemma trades_trans:
  assumes "trades view nodes sound rest s t" "trades view nodes sound rest t u"
  shows "trades view nodes sound rest s u"
proof -
  obtain h m K h' m' K' h'' m'' K'' where e: "s = (h, m, K)" "t = (h', m', K')" "u = (h'', m'', K'')" by (metis prod_cases3)
  have "lives h'' a + all_out view m K a = lives h a + all_out view m'' K'' a" for a
  proof -
    have "lives h' a + all_out view m K a = lives h a + all_out view m' K' a"
      "lives h'' a + all_out view m' K' a = lives h' a + all_out view m'' K'' a"
      using assms by (simp_all add: trades_def e)
    then have "lives h'' a + all_out view m K a + (all_out view m' K' a + lives h' a) =
        lives h a + all_out view m'' K'' a + (all_out view m' K' a + lives h' a)"
      by (metis (no_types, lifting) add.assoc add.commute)
    then show ?thesis by simp
  qed
  then show ?thesis using assms by (simp add: trades_def e)
qed

text \<open>A step with all other containers beside it.\<close>

inductive beside ::
  "(heap \<times> 'm \<times> 'o multiset \<Rightarrow> heap \<times> 'm \<times> 'o multiset \<Rightarrow> bool) \<Rightarrow>
   heap \<times> 'm \<times> 'o multiset \<Rightarrow> heap \<times> 'm \<times> 'o multiset \<Rightarrow> bool" for step where
  besideI: "step (h, m, K) (h', m', K') \<Longrightarrow> beside step (h, m, K + M) (h', m', K' + M)"

text \<open>
  What any history since \<open>h0\<close> promises: each account has what was out before and the blocks of the
  containers there are; each of these is well formed and can be ended, which gives back just its own
  blocks and leaves the others well formed; when none is left the accounts are as they were.
\<close>

definition accounted ::
  "('o \<times> 'm \<Rightarrow> ('k, 'x) holder) \<Rightarrow> ('o \<times> 'm \<Rightarrow> heap \<Rightarrow> (('o \<times> 'm) \<times> heap) option) \<Rightarrow> heap \<Rightarrow> heap \<Rightarrow> 'm \<Rightarrow> 'o multiset \<Rightarrow> bool" where
  "accounted view finish h0 h m K \<longleftrightarrow> (\<forall>a. lives h a = lives h0 a + all_out view m K a) \<and>
     (\<forall>o1 \<in># K. hgood (view (o1, m)) \<and> (\<exists>o' m' h'. finish (o1, m) h = Some ((o', m'), h') \<and>
        (\<forall>a. lives h' a = lives h0 a + all_out view m' (K - {#o1#}) a) \<and> (\<forall>o2 \<in># K - {#o1#}. hgood (view (o2, m'))))) \<and>
     (K = {#} \<longrightarrow> lives h = lives h0)"

section \<open>The interface\<close>

locale family =
  fixes view :: "'o \<times> 'm \<Rightarrow> ('k, 'x) holder"
    and nodes :: "'o \<times> 'm \<Rightarrow> nat set"
    and sound :: "'m \<Rightarrow> bool"
    and rest :: "'m \<Rightarrow> nat set \<Rightarrow> 'r"
    and step :: "heap \<times> 'm \<times> 'o multiset \<Rightarrow> heap \<times> 'm \<times> 'o multiset \<Rightarrow> bool"
    and finish :: "'o \<times> 'm \<Rightarrow> heap \<Rightarrow> (('o \<times> 'm) \<times> heap) option"
  assumes steady: "out_at view (o1, m') = out_at view (o1, m)"
    and untouched: "hgood (view (o1, m)) \<Longrightarrow> sound m' \<Longrightarrow> nodes (o1, m) \<inter> S = {} \<Longrightarrow> rest m' S' = rest m S \<Longrightarrow>
      hgood (view (o1, m')) \<and> nodes (o1, m') = nodes (o1, m) \<and> nodes (o1, m) \<inter> S' = {}"
    and step_trades: "stands view nodes sound h m K \<Longrightarrow> step (h, m, K) (h', m', K') \<Longrightarrow>
      trades view nodes sound rest (h, m, K) (h', m', K')"
    and finishes: "stands view nodes sound h m {#o1#} \<Longrightarrow> \<exists>o' m' h'. finish (o1, m) h = Some ((o', m'), h') \<and>
      trades view nodes sound rest (h, m, {#o1#}) (h', m', {#})"
begin

text \<open>What is beside a step stays as it is.\<close>

lemma trade_beside:
  assumes t: "trades view nodes sound rest (h, m, K) (h', m', K')" and s: "stands view nodes sound h m (K + M)"
  shows "stands view nodes sound h' m' (K' + M)"
    "lives h' a + all_out view m (K + M) a = lives h a + all_out view m' (K' + M) a"
proof -
  let ?N = "\<lambda>o1. nodes (o1, m)" and ?N' = "\<lambda>o1. nodes (o1, m')"
  have T: "sound m'" "\<forall>o1 \<in># K'. hgood (view (o1, m'))" "nodes_apart ?N' K'" "rest m' (all_nodes ?N' K') = rest m (all_nodes ?N K)"
    "\<And>a. lives h' a + all_out view m K a = lives h a + all_out view m' K' a" using t by (simp_all add: trades_def)
  have S: "\<forall>o1 \<in># M. hgood (view (o1, m))" "nodes_apart ?N M" "all_nodes ?N K \<inter> all_nodes ?N M = {}"
    "\<And>a. all_out view m (K + M) a \<subseteq># lives h a" using s by (simp_all add: stands_def nodes_apart_union)
  have M: "hgood (view (o1, m'))" "?N' o1 = ?N o1" "?N o1 \<inter> all_nodes ?N' K' = {}" if "o1 \<in># M" for o1
  proof -
    have "?N o1 \<inter> all_nodes ?N K = {}" using S(3) that by (auto simp: all_nodes_def)
    from untouched [OF _ T(1) this T(4)] show "hgood (view (o1, m'))" "?N' o1 = ?N o1" "?N o1 \<inter> all_nodes ?N' K' = {}"
      using S(1) that by blast+
  qed
  have "filter_mset (\<lambda>o1. p \<in> ?N' o1) M = filter_mset (\<lambda>o1. p \<in> ?N o1) M" for p
    using M(2) by (intro filter_mset_cong) simp_all
  then have ap: "nodes_apart ?N' M" using S(2) by (simp add: nodes_apart_def)
  have "all_nodes ?N' M = all_nodes ?N M" using M(2) by (simp add: all_nodes_def)
  moreover have "all_nodes ?N' K' \<inter> all_nodes ?N M = {}" using M(3) unfolding all_nodes_def [of ?N M] by blast
  ultimately have dis: "all_nodes ?N' K' \<inter> all_nodes ?N' M = {}" by simp
  have out: "all_out view m' M a = all_out view m M a" for a unfolding all_out_def steady [of _ m' m] ..
  have bal: "lives h' a + all_out view m (K + M) a = lives h a + all_out view m' (K' + M) a" for a
    using T(5) [of a] by (simp add: out add.assoc [symmetric])
  then show "lives h' a + all_out view m (K + M) a = lives h a + all_out view m' (K' + M) a" .
  have "all_out view m' (K' + M) a \<subseteq># lives h' a" for a
  proof -
    obtain R where "lives h a = all_out view m (K + M) a + R" using S(4) subset_mset.le_iff_add by metis
    then have "lives h' a + all_out view m (K + M) a = (all_out view m' (K' + M) a + R) + all_out view m (K + M) a"
      using bal [of a] by (simp only: ac_simps)
    then show ?thesis by simp
  qed
  then show "stands view nodes sound h' m' (K' + M)"
    using T(1-3) M(1) ap dis by (auto simp: stands_def nodes_apart_union)
qed

text \<open>The accounts after any history: what was out before, and the blocks of the containers there are.\<close>

lemma history_stands:
  assumes "(beside step)\<^sup>*\<^sup>* (h0, m0, {#}) (h, m, K)" "sound m0"
  shows "stands view nodes sound h m K \<and> (\<forall>a. lives h a = lives h0 a + all_out view m K a)"
  using assms(1)
proof (induction "(h, m, K)" arbitrary: h m K rule: rtranclp_induct)
  case base
  then show ?case using assms(2) by (simp add: stands_def)
next
  case (step t)
  from step(2) obtain h1 m1 K1 m2 K2 M where t: "t = (h1, m1, K1 + M)" and e: "K = K2 + M" and st: "step (h1, m1, K1) (h, m, K2)"
    by (cases rule: beside.cases) auto
  from step(3) [OF t] have s: "stands view nodes sound h1 m1 (K1 + M)" "\<And>a. lives h1 a = lives h0 a + all_out view m1 (K1 + M) a" by blast+
  note tr = trade_beside [OF step_trades [OF stands_part [OF s(1)] st] s(1)]
  have "lives h a = lives h0 a + all_out view m (K2 + M) a" for a
    using tr(2) [of a] s(2) [of a] by (simp add: ac_simps)
  then show ?case using tr(1) unfolding e by blast
qed

text \<open>No history loses a block or gives one back twice.\<close>

lemma history_leaks_nothing:
  assumes "(beside step)\<^sup>*\<^sup>* (h0, m0, {#}) (h, m, K)" "sound m0"
  shows "accounted view finish h0 h m K"
  unfolding accounted_def
proof (intro conjI allI ballI impI)
  note H = history_stands [OF assms]
  show "lives h a = lives h0 a + all_out view m K a" for a using H by blast
  show "lives h = lives h0" if "K = {#}" using H that by (simp add: fun_eq_iff)
  fix o1 assume o1: "o1 \<in># K"
  then have K: "K = {#o1#} + (K - {#o1#})" by simp
  show "hgood (view (o1, m))" using H o1 by (simp add: stands_def)
  have s: "stands view nodes sound h m ({#o1#} + (K - {#o1#}))" using H K by argo
  from finishes [OF stands_part [OF s]] obtain o' m' h' where f: "finish (o1, m) h = Some ((o', m'), h')"
    "trades view nodes sound rest (h, m, {#o1#}) (h', m', {#})" by blast
  note tr = trade_beside [OF f(2) s]
  have "lives h' a = lives h0 a + all_out view m' (K - {#o1#}) a" for a
  proof -
    have "lives h' a + all_out view m K a = lives h a + all_out view m' (K - {#o1#}) a" using tr(2) [of a] unfolding K [symmetric] by simp
    then show ?thesis using H by (simp add: ac_simps)
  qed
  moreover have "\<forall>o2 \<in># K - {#o1#}. hgood (view (o2, m'))" using tr(1) by (simp add: stands_def)
  ultimately show "\<exists>o' m' h'. finish (o1, m) h = Some ((o', m'), h') \<and>
      (\<forall>a. lives h' a = lives h0 a + all_out view m' (K - {#o1#}) a) \<and> (\<forall>o2 \<in># K - {#o1#}. hgood (view (o2, m')))"
    using f(1) by blast
qed

end

text \<open>Each container has its blocks out; of two, no node is in both.\<close>

lemma stands_held:
  assumes "stands view nodes sound h m K" "c \<in># K"
  shows "held_by view h (c, m)"
proof -
  obtain M where K: "K = add_mset c M" using multi_member_split [OF assms(2)] by blast
  have "out_at view (c, m) a + all_out view m M a \<subseteq># lives h a" for a
    using assms(1) unfolding K by (simp add: stands_def)
  then have "out_at view (c, m) a \<subseteq># lives h a" for a
    by (metis mset_subset_eq_add_left subset_mset.order_trans)
  from this [of "hal (view (c, m))"] have "hblocks (view (c, m)) \<subseteq># lives h (hal (view (c, m)))" by (simp add: out_at_def)
  then show ?thesis using assms by (simp add: held_by_def stands_def)
qed

lemma stands_two:
  assumes "stands view nodes sound h m {#c, d#}"
  shows "held_by view h (c, m)" "held_by view h (d, m)" "nodes (c, m) \<inter> nodes (d, m) = {}"
    "hal (view (d, m)) = hal (view (c, m)) \<Longrightarrow>
      hblocks (view (c, m)) + hblocks (view (d, m)) \<subseteq># lives h (hal (view (c, m)))"
proof -
  show "held_by view h (c, m)" "held_by view h (d, m)" using stands_held [OF assms] by simp_all
  show "nodes (c, m) \<inter> nodes (d, m) = {}" using assms by (simp add: stands_def)
  have "all_out view m {#c, d#} a \<subseteq># lives h a" for a using assms unfolding stands_def by blast
  from this [of "hal (view (c, m))"]
  show "hal (view (d, m)) = hal (view (c, m)) \<Longrightarrow>
      hblocks (view (c, m)) + hblocks (view (d, m)) \<subseteq># lives h (hal (view (c, m)))" by (simp add: out_at_def)
qed

lemma requests_balance:
  assumes "requests h a old new True h'" "old \<subseteq># lives h a"
  shows "lives h' b + (if a = b then old else {#}) = lives h b + (if a = b then new else {#})"
proof -
  obtain R where "lives h a = old + R" using assms(2) subset_mset.le_iff_add by metis
  then show ?thesis using assms(1) by (cases "a = b") (simp_all add: requests_def ac_simps)
qed

section \<open>Containers that keep no nodes\<close>

text \<open>A container whose elements lie in its own block: there is no memory to share.\<close>

definition pays ::
  "('c \<Rightarrow> ('k, 'x) holder) \<Rightarrow> heap \<Rightarrow> 'c multiset \<Rightarrow> heap \<Rightarrow> 'c multiset \<Rightarrow> bool" where
  "pays view h K h' K' \<longleftrightarrow> (\<forall>c \<in># K'. hgood (view c)) \<and>
     (\<forall>a. lives h' a + (\<Sum>c \<in># K. out_at view c a) = lives h a + (\<Sum>c \<in># K'. out_at view c a))"

text \<open>The container that a constructor makes, if it does.\<close>

definition made :: "tda_status + 'c \<Rightarrow> 'c multiset" where
  "made res = (case res of Inl _ \<Rightarrow> {#} | Inr c \<Rightarrow> {#c#})"

lemma pays_made: "r = Some (res, h') \<Longrightarrow> call_makes view h a k r fits x \<Longrightarrow> pays view h {#} h' (made res)"
  by (auto simp: pays_def made_def call_makes_def requests_def out_at_def split: sum.splits)

lemma pays_init: "hgood (view c) \<Longrightarrow> hblocks (view c) = {#} \<Longrightarrow> pays view h {#} h {#c#}"
  by (simp add: pays_def out_at_def)

text \<open>The account without the blocks of \<open>c\<close>.\<close>

lemma pays_holds:
  assumes held: "held_by view h c" and step: "\<And>h0. holds_since view h0 (h, c) \<Longrightarrow> holds_since view h0 (h', c')"
  shows "pays view h {#c#} h' {#c'#}"
proof -
  let ?a = "hal (view c)" and ?b = "hblocks (view c)"
  let ?h0 = "h(?a := (h ?a)\<lparr>live := live (h ?a) - ?b\<rparr>)"
  have b: "?b \<subseteq># lives h ?a" using held by (simp add: held_by_def)
  have h0: "lives ?h0 = (lives h)(?a := lives h ?a - ?b)" by (simp add: lives_def fun_eq_iff)
  have "generous ?h0 a \<Longrightarrow> generous h a" for a by (auto simp: generous_def split: if_splits)
  then have "requests ?h0 ?a {#} ?b True h" using b by (simp add: requests_def h0 fun_eq_iff)
  then have "holds_since view ?h0 (h, c)" using held by (simp add: holds_since_def held_by_def)
  from step [OF this] have c': "hgood (view c')" "lives h' = (lives ?h0)(hal (view c') := lives ?h0 (hal (view c')) + hblocks (view c'))"
    by (simp_all add: holds_since_def requests_def)
  have "lives h' a + out_at view c a = lives h a + out_at view c' a" for a
    using b unfolding c'(2) h0 by (auto simp: out_at_def)
  then show ?thesis using c'(1) by (simp add: pays_def)
qed

lemma pays_does: "r = Some (st, c', h') \<Longrightarrow> held_by view h c \<Longrightarrow> call_does view h c r fits x \<Longrightarrow> pays view h {#c#} h' {#c'#}"
  by (rule pays_holds) (auto intro: holds_does)

lemma pays_moved:
  assumes "held_by view h c" "hgood (view d)" "hgood (view d')" "hblocks (view d') = {#}"
    and "requests h (hal (view c)) (hblocks (view c)) {#} True h'"
  shows "pays view h {#c, d#} h' {#d, d'#}"
  using assms by (auto simp: pays_def out_at_def requests_def held_by_def)

lemma pays_swapped: "hgood (view c) \<Longrightarrow> hgood (view d) \<Longrightarrow> pays view h {#c, d#} h {#d, c#}"
  by (simp add: pays_def ac_simps)

lemma pays_ended: "r = Some (c', h') \<Longrightarrow> held_by view h c \<Longrightarrow> call_ends view h c r \<Longrightarrow> pays view h {#c#} h' {#}"
  by (auto simp: pays_def out_at_def call_ends_def requests_def held_by_def)

locale value_family = container view step deinit
  for view :: "'c \<Rightarrow> ('k, 'x) holder"
    and step :: "heap \<times> 'c \<Rightarrow> heap \<times> 'c \<Rightarrow> bool"
    and deinit :: "'c \<Rightarrow> heap \<Rightarrow> ('c \<times> heap) option" +
  fixes acts :: "heap \<times> unit \<times> 'c multiset \<Rightarrow> heap \<times> unit \<times> 'c multiset \<Rightarrow> bool"
  assumes acts_pay: "\<forall>c \<in># K. held_by view h c \<Longrightarrow> acts (h, u, K) (h', u', K') \<Longrightarrow> pays view h K h' K'"

abbreviation finish_value :: "('c \<Rightarrow> heap \<Rightarrow> ('c \<times> heap) option) \<Rightarrow> 'c \<times> unit \<Rightarrow> heap \<Rightarrow> (('c \<times> unit) \<times> heap) option" where
  "finish_value deinit c h \<equiv> map_option (\<lambda>(c', h'). ((c', ()), h')) (deinit (fst c) h)"

lemma out_at_fst [simp]: "out_at (\<lambda>c. view (fst c)) (c, u) = out_at view c"
  by (rule ext) (unfold out_at_def fst_conv, rule refl)

lemma stands_value:
  assumes "stands (\<lambda>c. view (fst c)) (\<lambda>_. {}) (\<lambda>_. True) h u K" "c \<in># K"
  shows "held_by view h c"
  using stands_held [OF assms] by (simp add: held_by_def)

lemma trades_value:
  "pays view h K h' K' \<Longrightarrow> trades (\<lambda>c. view (fst c)) (\<lambda>_. {}) (\<lambda>_. True) (\<lambda>_ _. ()) (h, u, K) (h', u', K')"
  by (simp add: trades_def pays_def nodes_apart_def all_out_def)

sublocale value_family \<subseteq> fam: family "\<lambda>c. view (fst c)" "\<lambda>_. {}" "\<lambda>_. True" "\<lambda>_ _. ()" acts "finish_value deinit"
proof
  show "trades (\<lambda>c. view (fst c)) (\<lambda>_. {}) (\<lambda>_. True) (\<lambda>_ _. ()) (h, m, K) (h', m', K')"
    if "stands (\<lambda>c. view (fst c)) (\<lambda>_. {}) (\<lambda>_. True) h m K" "acts (h, m, K) (h', m', K')" for h K h' K' and m m' :: unit
    using acts_pay [OF _ that(2)] stands_value [OF that(1)] by (intro trades_value) blast
  fix h c and m :: unit
  assume "stands (\<lambda>c. view (fst c)) (\<lambda>_. {}) (\<lambda>_. True) h m {#c#}"
  then have "held_by view h c" by (rule stands_value) simp
  note e = this deinit_ends [OF this]
  then obtain c' h' where d: "deinit c h = Some (c', h')" by (auto simp: call_ends_def)
  from trades_value [OF pays_ended [OF this e]]
  show "\<exists>o' m' h'. finish_value deinit (c, m) h = Some ((o', m'), h') \<and>
      trades (\<lambda>c. view (fst c)) (\<lambda>_. {}) (\<lambda>_. True) (\<lambda>_ _. ()) (h, m, {#c#}) (h', m', {#})"
    using d by auto
qed (simp_all add: out_at_def)

section \<open>Containers whose nodes lie in a memory\<close>

text \<open>
  A call on one container, the value of which is paired with the nodes that are not its own: it keeps
  them, and the account of its blocks.
\<close>

definition call_stays :: "('c \<Rightarrow> ('k, 'x \<times> 'r) holder) \<Rightarrow> heap \<Rightarrow> 'c \<Rightarrow> 'c \<Rightarrow> heap \<Rightarrow> bool" where
  "call_stays view h c c' h' \<longleftrightarrow> hgood (view c') \<and> hal (view c') = hal (view c) \<and>
     snd (hval (view c')) = snd (hval (view c)) \<and>
     requests h (hal (view c)) (hblocks (view c)) (hblocks (view c')) True h'"

lemma stays_does:
  "r = Some (st, c', h') \<Longrightarrow> snd (hval (view c)) = rest \<Longrightarrow> call_does view h c r fits (x, rest) \<Longrightarrow> call_stays view h c c' h'"
  by (cases "st = TDA_STATUS_OK") (auto simp: call_stays_def call_does_def call_grows_def)

lemma stays_drops:
  "r = Some (c', h') \<Longrightarrow> snd (hval (view c)) = rest \<Longrightarrow> call_drops view h c r (x, rest) \<Longrightarrow> call_stays view h c c' h'"
  by (auto simp: call_stays_def call_drops_def)

lemma stays_edits:
  "r = Some c' \<Longrightarrow> held_by view h c \<Longrightarrow> snd (hval (view c)) = rest \<Longrightarrow> call_edits view c r (x, rest) \<Longrightarrow> call_stays view h c c' h"
  by (auto simp: call_stays_def call_edits_def held_by_def intro: requests_refl)

lemma stays_keeps:
  "call_keeps view h c c' h' \<Longrightarrow> snd (hval (view c')) = snd (hval (view c)) \<Longrightarrow> call_stays view h c c' h'"
  by (simp add: call_stays_def call_keeps_def)

locale node_store =
  fixes view :: "'o \<times> 'm \<Rightarrow> ('k, 'x \<times> 'r) holder"
    and nodes :: "'o \<times> 'm \<Rightarrow> nat set"
    and sound :: "'m \<Rightarrow> bool"
    and rest :: "'m \<Rightarrow> nat set \<Rightarrow> 'r"
  assumes good_sound: "hgood (view (o1, m)) \<Longrightarrow> sound m"
    and good_rest: "snd (hval (view (o1, m))) = rest m (nodes (o1, m))"
    and steady: "out_at view (o1, m') = out_at view (o1, m)"
begin

lemma trades_made:
  assumes "hgood (view (c, m'))" "snd (hval (view (c, m'))) = rest m {}"
    and "requests h (hal (view (c, m'))) {#} (hblocks (view (c, m'))) True h'"
  shows "trades view nodes sound rest (h, m, {#}) (h', m', {#c#})"
  using assms good_sound [OF assms(1)] requests_balance [OF assms(3)]
  by (simp add: trades_def good_rest out_at_def)

lemma trades_unmade:
  "sound m' \<Longrightarrow> rest m' {} = rest m {} \<Longrightarrow> requests h a {#} {#} True h' \<Longrightarrow>
   trades view nodes sound rest (h, m, {#}) (h', m', {#})"
  by (simp add: trades_def requests_def)

lemma trades_stays:
  assumes "held_by view h (c, m)" "call_stays view h (c, m) (c', m') h'"
  shows "trades view nodes sound rest (h, m, {#c#}) (h', m', {#c'#})"
proof -
  have s: "hgood (view (c', m'))" "hal (view (c', m')) = hal (view (c, m))" "rest m' (nodes (c', m')) = rest m (nodes (c, m))"
    "requests h (hal (view (c, m))) (hblocks (view (c, m))) (hblocks (view (c', m'))) True h'"
    using assms(2) by (simp_all add: call_stays_def good_rest)
  have "hblocks (view (c, m)) \<subseteq># lives h (hal (view (c, m)))" using assms(1) by (simp add: held_by_def)
  from requests_balance [OF s(4) this] show ?thesis
    using s(1-3) good_sound [OF s(1)] by (simp add: trades_def out_at_def)
qed

lemma trades_ended:
  assumes "held_by view h (c, m)" "sound m'" "rest m' {} = snd (hval (view (c, m)))"
    and r: "requests h (hal (view (c, m))) (hblocks (view (c, m))) {#} True h'"
  shows "trades view nodes sound rest (h, m, {#c#}) (h', m', {#})"
proof -
  have "hblocks (view (c, m)) \<subseteq># lives h (hal (view (c, m)))" using assms(1) by (simp add: held_by_def)
  from requests_balance [OF r this] show ?thesis
    using assms(2,3) by (simp add: trades_def out_at_def good_rest)
qed

text \<open>What was in \<open>c\<close> is given back, \<open>c\<close> takes over what \<open>d\<close> has, which is then \<open>d'\<close>, empty.\<close>

lemma trades_moved:
  assumes "held_by view h (c, m)" "hgood (view (d, m'))" "hgood (view (d', m'))"
    and "hblocks (view (d', m')) = {#}" "nodes (d', m') = {}"
    and "snd (hval (view (d, m'))) = rest m (nodes (c, m) \<union> nodes (d, m))"
    and r: "requests h (hal (view (c, m))) (hblocks (view (c, m))) {#} True h'"
  shows "trades view nodes sound rest (h, m, {#c, d#}) (h', m', {#d, d'#})"
proof -
  have "hblocks (view (c, m)) \<subseteq># lives h (hal (view (c, m)))" using assms(1) by (simp add: held_by_def)
  note b = requests_balance [OF r this]
  have d': "out_at view (d', m') a = {#}" for a using assms(4) by (simp add: out_at_def)
  have "lives h' a + (out_at view (c, m) a + out_at view (d, m) a) = lives h a + (out_at view (d, m') a + out_at view (d', m') a)" for a
    using b [of a] unfolding d' steady [of d m' m] by (simp add: out_at_def [of _ "(c, m)"] ac_simps split: if_splits)
  then show ?thesis
    using assms(2,3,5,6) good_sound [OF assms(2)] by (simp add: trades_def good_rest)
qed

lemma trades_swapped:
  "stands view nodes sound h m {#c, d#} \<Longrightarrow> trades view nodes sound rest (h, m, {#c, d#}) (h, m, {#d, c#})"
  by (auto simp: trades_def stands_def Un_commute Int_commute ac_simps)

end

end
