(* ===== verification/LinkedProps.thy ===== *)
theory LinkedProps
  imports LinkedAssign Family
begin

text \<open>
  The list of \<open>Linked\<close> as a container, and its properties.
\<close>

section \<open>Histories\<close>

text \<open>One call on a list, or a write of the program into one of its elements.\<close>

inductive list_step :: "heap \<times> lst \<times> 'e nodes \<Rightarrow> heap \<times> lst \<times> 'e nodes \<Rightarrow> bool" where
  ls_push_front: "larg_ok m val \<Longrightarrow> tda_list_push_front l val m h = Some (st, c, h') \<Longrightarrow> list_step (h, l, m) (h', c)"
| ls_push_back: "larg_ok m val \<Longrightarrow> tda_list_push_back l val m h = Some (st, c, h') \<Longrightarrow> list_step (h, l, m) (h', c)"
| ls_insert_before: "larg_ok m val \<Longrightarrow> list_nodes (l, m) = as @ p # bs \<Longrightarrow>
    tda_list_insert_before l p val m h = Some (st, c, h') \<Longrightarrow> list_step (h, l, m) (h', c)"
| ls_insert_after: "larg_ok m val \<Longrightarrow> list_nodes (l, m) = as @ p # bs \<Longrightarrow>
    tda_list_insert_after l p val m h = Some (st, c, h') \<Longrightarrow> list_step (h, l, m) (h', c)"
| ls_extend: "tda_list_extend l xs (lelem l) m h = Some (st, c, h') \<Longrightarrow> list_step (h, l, m) (h', c)"
| ls_copy_assign: "lists_at m h l ps s qs \<Longrightarrow> tda_list_copy_assign False l s m h = Some (st, c, h') \<Longrightarrow>
    list_step (h, l, m) (h', c)"
| ls_pop_front: "list_cells (l, m) \<noteq> [] \<Longrightarrow> tda_list_pop_front l m h = Some (c, h') \<Longrightarrow> list_step (h, l, m) (h', c)"
| ls_pop_back: "list_cells (l, m) \<noteq> [] \<Longrightarrow> tda_list_pop_back l m h = Some (c, h') \<Longrightarrow> list_step (h, l, m) (h', c)"
| ls_remove: "list_nodes (l, m) = as @ p # bs \<Longrightarrow> tda_list_remove_node l p m h = Some (c, h') \<Longrightarrow>
    list_step (h, l, m) (h', c)"
| ls_retain: "list_cells (l, m) = map Some xs \<Longrightarrow> tda_list_retain P l m h = Some (c, h') \<Longrightarrow> list_step (h, l, m) (h', c)"
| ls_clear: "tda_list_clear l m h = Some (c, h') \<Longrightarrow> list_step (h, l, m) (h', c)"
| ls_reverse: "tda_list_reverse l m = Some c \<Longrightarrow> list_step (h, l, m) (h, c)"
| ls_sort: "list_cells (l, m) = map Some xs \<Longrightarrow> tda_list_sort cmp l m = Some c \<Longrightarrow> list_step (h, l, m) (h, c)"
| ls_copy_from_span: "length xs = llen l \<Longrightarrow> tda_list_copy_from_span l xs (lelem l) m = Some c \<Longrightarrow> list_step (h, l, m) (h, c)"
| ls_pop_front_to: "list_cells (l, m) \<noteq> [] \<Longrightarrow> tda_list_pop_front_to l m h = Some (x, c, h') \<Longrightarrow>
    list_step (h, l, m) (h', c)"
| ls_pop_back_to: "list_cells (l, m) \<noteq> [] \<Longrightarrow> tda_list_pop_back_to l m h = Some (x, c, h') \<Longrightarrow>
    list_step (h, l, m) (h', c)"
| ls_write: "p \<in> set (list_nodes (l, m)) \<Longrightarrow> list_step (h, l, m) (h, l, m\<lparr>el := (el m)(p := x)\<rparr>)"

text \<open>Each of them leaves the nodes that are not the list's alone, and the account has its blocks.\<close>

lemma list_view_rest [simp]: "snd (hval (list_view c)) = list_rest c"
  by (simp add: list_view_def)

lemma list_stays:
  "r = Some (st, c', h') \<Longrightarrow> held_by list_view h c \<Longrightarrow> call_does list_view h c r fits (x, list_rest c) \<Longrightarrow> call_stays list_view h c c' h'"
  "q = Some (c', h') \<Longrightarrow> held_by list_view h c \<Longrightarrow> call_drops list_view h c q (x, list_rest c) \<Longrightarrow> call_stays list_view h c c' h'"
  "e = Some c' \<Longrightarrow> held_by list_view h c \<Longrightarrow> call_edits list_view c e (x, list_rest c) \<Longrightarrow> call_stays list_view h c c' h"
  by (blast intro: stays_does [where view = list_view, OF _ list_view_rest] stays_drops [where view = list_view, OF _ list_view_rest]
      stays_edits [where view = list_view, OF _ _ list_view_rest])+

lemma list_step_stays:
  assumes "list_step s t"
  shows "held_by list_view (fst s) (snd s) \<Longrightarrow> call_stays list_view (fst s) (snd s) (snd t) (fst t)"
  using assms unfolding fst_conv snd_conv
proof (induction rule: list_step.induct)
  case (ls_sort l m xs cmp c h)
  then have held: "held_by list_view h (l, m)" by simp
  then obtain t where "call_edits list_view (l, m) (tda_list_sort cmp l m) (map Some t, list_rest (l, m))"
    using list_sort_ok [OF held ls_sort(1)] by blast
  then show ?case using list_stays(3) [OF ls_sort(2) held] by simp
next
  case (ls_copy_assign m h l ps s qs st c h')
  then have "list_at m l ps" by (simp add: lists_at_def)
  then have "list_rest (l, m) = others m (set ps)" by (simp add: list_rest_def list_at_nodes)
  then show ?case using list_stays(1) [OF ls_copy_assign(2,3)] list_copy_assign_ok [OF ls_copy_assign(1)] by simp
next
  case (ls_pop_front_to l m h x c h')
  then show ?case using list_pop_ok(3) [of h l m] by (auto intro: list_stays(2) [OF refl])
next
  case (ls_pop_back_to l m h x c h')
  then show ?case using list_pop_ok(4) [of h l m] by (auto intro: list_stays(2) [OF refl])
next
  case (ls_write p l m h x)
  obtain ps where at: "list_at m l ps" and ok: "store_ok m" and e: "list_nodes (l, m) = ps"
    using ls_write(2) by (auto elim: held_listE)
  let ?m = "m\<lparr>el := (el m)(p := x)\<rparr>"
  have at': "list_at ?m l ps" "store_ok ?m" using at ok by (simp_all add: list_at_def store_ok_def)
  have "others ?m (set ps) = others m (set ps)" using ls_write(1) unfolding e by (auto simp: others_def fun_eq_iff)
  then show ?case
    using list_at_view [OF at ok] list_at_view [OF at'] ls_write(2) by (simp add: call_stays_def held_by_def requests_refl)
qed (unfold fst_conv snd_conv, (erule (1) list_stays,
      rule list_push_ok list_insert_ok list_extend_ok list_pop_ok(1,2) list_remove_ok list_retain_ok list_clear_ok
        list_reverse_ok list_copy_from_span_ok; assumption)+)

abbreviation list_end :: "lst \<times> 'e nodes \<Rightarrow> heap \<Rightarrow> ((lst \<times> 'e nodes) \<times> heap) option" where
  "list_end c h \<equiv> tda_list_deinit (fst c) (snd c) h"

section \<open>The properties\<close>

lemma list_node_fits:
  assumes "tda_layout_is_type elem" "lsize elem \<le> SIZE_MAX" "tda_list_node_layout elem = Some block"
  shows "\<exists>off. list_elem_offset elem = Some off \<and> lsize ListNode_layout \<le> off \<and> lalign elem dvd off \<and>
    off + lsize elem \<le> lsize block \<and> tda_layout_is_type block \<and> lsize block \<le> SIZE_MAX \<and>
    lalign ListNode_layout dvd lalign block \<and> lalign elem dvd lalign block \<and>
    lsize block < lsize ListNode_layout + lalign elem + lsize elem + lalign block"
proof -
  have "tda_layout_is_align (lalign elem)" using assms(1) by (simp add: tda_layout_is_type_def)
  then have al: "tda_layout_is_align (lalign elem)" "lalign elem \<le> lsize elem" "0 < lalign elem" "lalign elem \<le> SIZE_MAX"
    using is_type_gt0 [OF assms(1)] is_type_align_le [OF assms(1)] assms(2) by simp_all
  have node: "tda_layout_is_align (lalign ListNode_layout)" "lsize ListNode_layout = 16" "lalign ListNode_layout = 8"
    by (simp_all add: ListNode_layout_def)
  let ?off = "round_up 16 (lalign elem)" and ?a = "max 8 (lalign elem)"
  have a: "tda_layout_is_align ?a" "?a \<le> SIZE_MAX" "0 < ?a" "8 dvd ?a" "lalign elem dvd ?a"
    using is_align_max [OF node(1) al(1)] is_align_dvd_max [OF node(1) al(1)] is_align_dvd_max [OF al(1) node(1)] al(4) node(3)
    by (simp_all add: SIZE_MAX_def max.commute)
  obtain fit: "?off + lsize elem \<le> SIZE_MAX" "round_up (?off + lsize elem) ?a \<le> SIZE_MAX"
    and block: "block = \<lparr>lsize = round_up (?off + lsize elem) ?a, lalign = ?a\<rparr>"
    using assms(3) ckd_extend_eq [OF node(1) al(1,4)] ckd_pad_eq [of "\<lparr>lsize = ?off + lsize elem, lalign = ?a\<rparr>"] a(1,2) node(2,3)
    by (auto simp: tda_list_node_layout_def list_ckd_node_layout_def bind_Some_iff split: if_splits)
  have off: "16 \<le> ?off" "?off < 16 + lalign elem" "lalign elem dvd ?off" using round_up_bounds [OF al(3)] by simp_all
  have up: "?off + lsize elem \<le> lsize block" "lsize block < ?off + lsize elem + ?a" "?a dvd lsize block"
    using round_up_bounds [OF a(3)] block by simp_all
  have "list_elem_offset elem = Some ?off"
    using align_up_eq [OF al(1,4), of 16] off(1) fit(1) al(2) node(2)
    by (simp add: list_elem_offset_def round_up_def)
  moreover have "tda_layout_is_type block"
    using a(1) up al(3) al(2) by (auto simp: tda_layout_is_type_def block)
  ultimately show ?thesis using off up fit(2) a(4,5) node(2,3) block by (intro exI [of _ ?off]) simp
qed

lemma node_8: "list_ckd_node_layout \<lparr>lsize = 8, lalign = 8\<rparr> = Some (Some \<lparr>lsize = 24, lalign = 8\<rparr>)"
  by (simp add: list_ckd_node_layout_def ckd_extend_eq ckd_pad_eq ListNode_layout_def round_up_def SIZE_MAX_def)

text \<open>
  C28: on a list whose nodes the allocator has out, the pushes, insert_before and insert_after,
  the pops, remove_node, extend, retain, clear and copy_from_span are the list operations on its
  elements, at the node given, and find returns the first node whose element matches; a call that
  needs memory and does not get it leaves the list as it was. Every other node in the memory keeps
  its links and its element.
\<close>

theorem list_operations:
  assumes held: "held_by list_view h (l, m)"
  shows "(\<forall>val. larg_ok m val \<longrightarrow>
      call_does list_view h (l, m) (tda_list_push_front l val m h) True (larg_val m val # list_cells (l, m), list_rest (l, m)) \<and>
      call_does list_view h (l, m) (tda_list_push_back l val m h) True (list_cells (l, m) @ [larg_val m val], list_rest (l, m))) \<and>
    (\<forall>as p bs. list_nodes (l, m) = as @ p # bs \<longrightarrow>
      (\<forall>val. larg_ok m val \<longrightarrow>
        call_does list_view h (l, m) (tda_list_insert_before l p val m h) True
          (map (el m) as @ larg_val m val # map (el m) (p # bs), list_rest (l, m)) \<and>
        call_does list_view h (l, m) (tda_list_insert_after l p val m h) True
          (map (el m) (as @ [p]) @ larg_val m val # map (el m) bs, list_rest (l, m))) \<and>
      call_drops list_view h (l, m) (tda_list_remove_node l p m h) (map (el m) (as @ bs), list_rest (l, m))) \<and>
    (list_cells (l, m) \<noteq> [] \<longrightarrow>
      (\<exists>r. tda_list_pop_front_to l m h = Some (hd (list_cells (l, m)), r) \<and>
        call_drops list_view h (l, m) (Some r) (tl (list_cells (l, m)), list_rest (l, m))) \<and>
      (\<exists>r. tda_list_pop_back_to l m h = Some (last (list_cells (l, m)), r) \<and>
        call_drops list_view h (l, m) (Some r) (butlast (list_cells (l, m)), list_rest (l, m)))) \<and>
    (\<forall>xs. call_does list_view h (l, m) (tda_list_extend l xs (lelem l) m h) True (list_cells (l, m) @ xs, list_rest (l, m))) \<and>
    (\<forall>P xs. list_cells (l, m) = map Some xs \<longrightarrow>
      call_drops list_view h (l, m) (tda_list_retain P l m h) (map Some (filter P xs), list_rest (l, m))) \<and>
    call_drops list_view h (l, m) (tda_list_clear l m h) ([], list_rest (l, m)) \<and>
    (\<forall>xs. length xs = llen l \<longrightarrow>
      call_edits list_view (l, m) (tda_list_copy_from_span l xs (lelem l) m) (xs, list_rest (l, m)) \<and>
      tda_list_copy_to_span l xs (lelem l) m = Some (list_cells (l, m))) \<and>
    (\<forall>xs key eq. list_cells (l, m) = map Some xs \<longrightarrow>
      tda_list_find l key eq m = Some (hd (filter (\<lambda>p. eq (nval m p) key) (list_nodes (l, m)) @ [0])))"
proof (intro conjI allI impI)
  fix val assume "larg_ok m val"
  then show "call_does list_view h (l, m) (tda_list_push_front l val m h) True (larg_val m val # list_cells (l, m), list_rest (l, m))"
    "call_does list_view h (l, m) (tda_list_push_back l val m h) True (list_cells (l, m) @ [larg_val m val], list_rest (l, m))"
    by (rule list_push_ok [OF held])+
next
  fix as p bs val assume "list_nodes (l, m) = as @ p # bs" "larg_ok m val"
  then show "call_does list_view h (l, m) (tda_list_insert_before l p val m h) True
      (map (el m) as @ larg_val m val # map (el m) (p # bs), list_rest (l, m))"
    "call_does list_view h (l, m) (tda_list_insert_after l p val m h) True
      (map (el m) (as @ [p]) @ larg_val m val # map (el m) bs, list_rest (l, m))"
    using list_insert_ok [OF held] by simp_all
next
  fix as p bs assume "list_nodes (l, m) = as @ p # bs"
  then show "call_drops list_view h (l, m) (tda_list_remove_node l p m h) (map (el m) (as @ bs), list_rest (l, m))"
    by (rule list_remove_ok [OF held])
next
  fix P xs assume "list_cells (l, m) = map Some xs"
  then show "call_drops list_view h (l, m) (tda_list_retain P l m h) (map Some (filter P xs), list_rest (l, m))"
    by (rule list_retain_ok [OF held])
next
  fix xs key eq assume "list_cells (l, m) = map Some xs"
  then show "tda_list_find l key eq m = Some (hd (filter (\<lambda>p. eq (nval m p) key) (list_nodes (l, m)) @ [0]))"
    by (rule list_find_ok [OF held])
qed (use list_pop_ok(3,4) [OF held] list_extend_ok [OF held] list_clear_ok [OF held] list_copy_from_span_ok [OF held]
    list_copy_to_span_ok [OF held] in blast)+

text \<open>A list of two nodes.\<close>

definition two_nodes :: "bool nodes" where
  "two_nodes = \<lparr>places = {1, 2}, pick = next_place, nx = (\<lambda>_. 0)(1 := 2), pv = (\<lambda>_. 0)(2 := 1),
     el = (\<lambda>_. None)(1 := Some True, 2 := Some False)\<rparr>"

definition two_list :: lst where
  "two_list = \<lparr>lhead = 1, ltail = 2, llen = 2, lelem = \<lparr>lsize = 8, lalign = 8\<rparr>, lal = 1\<rparr>"

lemma two_list_ok:
  "list_at two_nodes two_list [1, 2]" "store_ok two_nodes"
  "held_by list_view (\<lambda>_. \<lparr>answers = [], live = replicate_mset 2 \<lparr>lsize = 24, lalign = 8\<rparr>\<rparr>) (two_list, two_nodes)"
proof -
  note lay = node_8
  have "list_kind_ok \<lparr>lsize = 8, lalign = 8\<rparr> 1"
    by (simp add: list_kind_ok_def node_lay_def tda_layout_is_type_def node_8)
  then show at: "list_at two_nodes two_list [1, 2]" by (simp add: list_at_def two_nodes_def two_list_def)
  show ok: "store_ok two_nodes" by (simp add: store_ok_def two_nodes_def next_place_fresh)
  show "held_by list_view (\<lambda>_. \<lparr>answers = [], live = replicate_mset 2 \<lparr>lsize = 24, lalign = 8\<rparr>\<rparr>) (two_list, two_nodes)"
    using held_by_list [OF at ok] lay by (simp add: node_lay_def two_list_def lives_def numeral_2_eq_2)
qed

theorem list_operations_witness:
  "\<exists>r. tda_list_pop_front_to two_list two_nodes (\<lambda>_. \<lparr>answers = [], live = replicate_mset 2 \<lparr>lsize = 24, lalign = 8\<rparr>\<rparr>) =
    Some (Some True, r)"
proof -
  have "list_cells (two_list, two_nodes) = [Some True, Some False]"
    using list_at_nodes [OF two_list_ok(1)] by (simp add: list_cells_def two_nodes_def)
  then show ?thesis using list_operations [OF two_list_ok(3)] by auto
qed

text \<open>
  C29: reverse, sort and merge relink the nodes and allocate nothing on one allocator: reverse
  turns the order round, sort gives back every element, in the stable order when the comparator is
  a total preorder, and merge is the stable merge of two lists; splicing puts all of a list's
  elements at the front or the back of another. Merge and splice between two allocators copy, and
  a copy that fails leaves both lists as they were.
\<close>

theorem list_order:
  assumes held: "held_by list_view h (l, m)" and xs: "list_cells (l, m) = map Some xs"
    and L: "lists_at m h l ps s qs" and ys: "map (el m) qs = map Some ys"
  shows "call_edits list_view (l, m) (tda_list_reverse l m) (map Some (rev xs), list_rest (l, m)) \<and>
    (\<exists>t. call_edits list_view (l, m) (tda_list_sort cmp l m) (map Some t, list_rest (l, m)) \<and> mset t = mset xs \<and>
      (total_cmp cmp \<longrightarrow> sorted_by cmp t \<and> same_order cmp t xs)) \<and>
    list_takes m h l ps s qs (tda_list_merge cmp False l s m h) (map Some (smerge cmp xs ys)) \<and>
    (total_cmp cmp \<and> sorted_by cmp xs \<and> sorted_by cmp ys \<longrightarrow>
      sorted_by cmp (smerge cmp xs ys) \<and> same_order cmp (smerge cmp xs ys) (xs @ ys)) \<and>
    list_takes m h l ps s qs (tda_list_splice_back False l s m h) (map Some (xs @ ys)) \<and>
    list_takes m h l ps s qs (tda_list_splice_front False l s m h) (map Some (ys @ xs))"
proof -
  have at: "list_at m l ps" "list_at m s qs" "store_ok m" "lelem s = lelem l" using L by (simp_all add: lists_at_def)
  have ps: "map (el m) ps = map Some xs" using list_at_nodes [OF at(1)] xs by (simp add: list_cells_def)
  have ass: "ASSERT_LIST l = Some ()" "ASSERT_LIST s = Some ()" "EXPECT_SAME_LIST l s = Some ()"
    using list_at_assert [OF at(1,3)] list_at_assert [OF at(2,3)] at(4) by (simp_all add: EXPECT_SAME_LIST_def tda_layout_eq_def)
  have "list_takes m h l ps s qs (tda_list_splice_back False l s m h) (map Some (xs @ ys))"
    "list_takes m h l ps s qs (tda_list_splice_front False l s m h) (map Some (ys @ xs))"
    using splice_impl_ok [OF L, of False] splice_impl_ok [OF L, of True] ass ps ys
    by (simp_all add: tda_list_splice_back_def tda_list_splice_front_def)
  then show ?thesis
    using list_reverse_ok [OF held] list_sort_ok [OF held xs] list_merge_ok [OF L ps ys] xs total_cmp.smerge_sorted
      total_cmp.smerge_same_order by (simp add: rev_map) blast
qed

theorem list_order_witness:
  "call_edits list_view (two_list, two_nodes) (tda_list_reverse two_list two_nodes)
    ([Some False, Some True], list_rest (two_list, two_nodes))"
proof -
  let ?h = "\<lambda>_. \<lparr>answers = [], live = replicate_mset 2 \<lparr>lsize = 24, lalign = 8\<rparr>\<rparr>"
  let ?s = "list_new \<lparr>lsize = 8, lalign = 8\<rparr> 2"
  have kind: "list_kind_ok \<lparr>lsize = 8, lalign = 8\<rparr> 2"
    using two_list_ok(1) by (simp add: list_at_def list_kind_ok_def two_list_def)
  have own: "node_blocks two_list [1, 2] \<subseteq># lives ?h (lal two_list)"
    using two_list_ok held_by_list [OF two_list_ok(1,2)] by simp
  have "lists_at two_nodes ?h two_list [1, 2] ?s []"
    using two_list_ok(1,2) own list_new_at [OF kind] unfolding lists_at_def by (simp add: list_new_def two_list_def)
  moreover have "list_cells (two_list, two_nodes) = map Some [True, False]"
    using list_at_nodes [OF two_list_ok(1)] by (simp add: list_cells_def two_nodes_def)
  ultimately show ?thesis using list_order [OF two_list_ok(3), of "[True, False]" "[1, 2]" ?s "[]" "[]"] by simp
qed

end
