(* ===== verification/HMapProps.thy ===== *)
theory HMapProps
  imports HMapMany Family
begin

text \<open>
  The map of \<open>HMap\<close> as a container, and its properties.
\<close>

section \<open>Histories\<close>

text \<open>One call on a map, or a write of the program into one of its values.\<close>

inductive hmap_step :: "heap \<times> 'k hmap \<times> ('k, 'v) entries \<Rightarrow> heap \<times> 'k hmap \<times> ('k, 'v) entries \<Rightarrow> bool" where
  hs_insert: "val \<noteq> None \<or> lsize (mval t) = 0 \<Longrightarrow> tda_hmap_insert t key val m h = Some (st, new, c, h') \<Longrightarrow>
    hmap_step (h, t, m) (h', c)"
| hs_get_or_insert: "val \<noteq> None \<or> lsize (mval t) = 0 \<Longrightarrow> tda_hmap_get_or_insert t key val m h = Some (st, p, c, h') \<Longrightarrow>
    hmap_step (h, t, m) (h', c)"
| hs_extend: "tda_layout_is_type (mval t) \<Longrightarrow> length ks = length xs \<Longrightarrow>
    tda_hmap_extend t ks (mkey t) xs (mval t) m h = Some (st, c, h') \<Longrightarrow> hmap_step (h, t, m) (h', c)"
| hs_reserve: "tda_hmap_reserve t cap m h = Some (st, c, h') \<Longrightarrow> hmap_step (h, t, m) (h', c)"
| hs_shrink: "tda_hmap_shrink_to_fit t m h = Some (st, c, h') \<Longrightarrow> hmap_step (h, t, m) (h', c)"
| hs_copy_assign: "maps_at m h t b \<Longrightarrow> tda_hmap_copy_assign False t b m h = Some (st, c, h') \<Longrightarrow> hmap_step (h, t, m) (h', c)"
| hs_take: "tda_hmap_take t key m h = Some (r, c, h') \<Longrightarrow> hmap_step (h, t, m) (h', c)"
| hs_remove_node: "p \<in> hmap_set (t, m) \<Longrightarrow> tda_hmap_remove_node t p m h = Some (c, h') \<Longrightarrow> hmap_step (h, t, m) (h', c)"
| hs_retain: "0 < lsize (mval t) \<Longrightarrow> tda_hmap_retain (\<lambda>m k x. Some (P (k, x))) t m h = Some (c, h') \<Longrightarrow> hmap_step (h, t, m) (h', c)"
| hs_clear: "tda_hmap_clear t m h = Some (c, h') \<Longrightarrow> hmap_step (h, t, m) (h', c)"
| hs_remove: "tda_hmap_remove t key m h = Some (found, c, h') \<Longrightarrow> hmap_step (h, t, m) (h', c)"
| hs_write: "p \<in> hmap_set (t, m) \<Longrightarrow> hmap_step (h, t, m) (h, t, m\<lparr>evl := (evl m)(p := x)\<rparr>)"

lemma hmap_retain_pure:
  assumes "held_by hmap_view h (t, m)" "0 < lsize (mval t)"
  shows "call_drops hmap_view h (t, m) (tda_hmap_retain (\<lambda>m k x. Some (P (k, x))) t m h)
    (filter_mset P (hmap_entries (t, m)), hmap_rest (t, m))"
  using assms by (intro hmap_retain_ok) simp_all

text \<open>Each of them leaves the nodes that are not the map's alone, and the account has its blocks.\<close>

lemma hmap_view_rest [simp]: "snd (hval (hmap_view c)) = hmap_rest c"
  by (simp add: hmap_view_fields)

lemma hmap_stays:
  "r = Some (st, c', h') \<Longrightarrow> held_by hmap_view h c \<Longrightarrow> call_does hmap_view h c r fits (x, hmap_rest c) \<Longrightarrow> call_stays hmap_view h c c' h'"
  "q = Some (c', h') \<Longrightarrow> held_by hmap_view h c \<Longrightarrow> call_drops hmap_view h c q (x, hmap_rest c) \<Longrightarrow> call_stays hmap_view h c c' h'"
  by (blast intro: stays_does [where view = hmap_view, OF _ hmap_view_rest] stays_drops [where view = hmap_view, OF _ hmap_view_rest])+

lemma hmap_step_stays:
  assumes "hmap_step s u"
  shows "held_by hmap_view (fst s) (snd s) \<Longrightarrow> call_stays hmap_view (fst s) (snd s) (snd u) (fst u)"
  using assms
proof (induction rule: hmap_step.induct)
  case (hs_insert val t key m h st new c h')
  then show ?case using hmap_insert_ok [of h t m val key] by (auto intro: hmap_stays(1) [OF refl])
next
  case (hs_get_or_insert val t key m h st p c h')
  then show ?case using hmap_get_or_insert_ok [of h t m val key] by (auto intro: hmap_stays(1) [OF refl])
next
  case (hs_extend t ks xs m h st c h')
  then show ?case using hmap_extend_ok [of h t m ks xs] by (auto intro!: stays_keeps)
next
  case (hs_copy_assign m h t b st c h')
  then show ?case using hmap_copy_assign_ok [OF hs_copy_assign(1)]
    by (auto simp: call_stays_def hmap_view_fields split: if_splits)
next
  case (hs_take t key m h r c h')
  then show ?case using hmap_take_ok [of h t m key] by (auto intro: hmap_stays(2) [OF refl])
next
  case (hs_remove t key m h found c h')
  then show ?case using hmap_take_ok [of h t m key] by (auto intro: hmap_stays(2) [OF refl])
next
  case (hs_write p t m h x)
  then have "held_by hmap_view h (t, m)" by simp
  then obtain ch where at: "hmap_at m t ch" and ok: "store_ok m" and own: "hmap_blocks t \<subseteq># lives h (mal t)" by (rule held_hmapE)
  let ?m = "m\<lparr>evl := (evl m)(p := x)\<rparr>"
  have at': "hmap_at ?m t ch" using hmap_atD(10) [OF at] by (intro hmap_at_agree [OF at]) auto
  have ok': "store_ok ?m" using ok by (simp add: store_ok_def)
  have "p \<in> set (concat ch)" using hs_write(1) hmap_at_chains [OF at ok] by (simp add: hmap_set_def)
  then have "eothers ?m (set (concat ch)) = eothers m (set (concat ch))" by (auto simp: eothers_def fun_eq_iff simp del: set_concat)
  then show ?case
    using hmap_at_view [OF at ok] hmap_at_view [OF at' ok'] own by (simp add: call_stays_def requests_refl)
qed (unfold fst_conv snd_conv, (erule (1) hmap_stays, rule hmap_reserve_ok [unfolded hmap_view_fields(5)]
      hmap_shrink_ok [unfolded hmap_view_fields(5)] hmap_remove_node_ok [folded hmap_set_def] hmap_retain_pure hmap_clear_ok; assumption)+)

abbreviation hmap_end :: "('k, 'v) hobj \<Rightarrow> heap \<Rightarrow> (('k, 'v) hobj \<times> heap) option" where
  "hmap_end c h \<equiv> tda_hmap_deinit (fst c) (snd c) h"

section \<open>The properties\<close>

text \<open>
  C30: on a map whose buckets and nodes the allocator has out, find, get and contains answer for
  the key, insert puts an entry in or the value of the one there in its place, get_or_insert
  leaves the one there, take and remove take the one entry of the key out, remove_node the node's,
  retain those that fail the test, clear all of them; extend inserts in order up to a refusal;
  reserve and shrink_to_fit change no entry. A refused call changes no entry, and every other node
  of the memory is left as it was.
\<close>

theorem hmap_operations:
  assumes held: "held_by hmap_view h (t, m)" and val: "tda_layout_is_type (mval t)"
  shows "(\<forall>key. \<exists>p. tda_hmap_find t m key = Some p \<and> tda_hmap_get t m key = Some p \<and> tda_hmap_contains t m key = Some (p \<noteq> 0) \<and>
      (p \<noteq> 0 \<longleftrightarrow> has_key (heq t) key (hmap_entries (t, m))) \<and>
      (p \<noteq> 0 \<longrightarrow> heq t (ekey m p) key \<and> (ekey m p, evl m p) \<in># hmap_entries (t, m))) \<and>
    (\<forall>key x. \<exists>st new c h'. tda_hmap_insert t key (Some x) m h = Some (st, new, c, h') \<and>
      call_does hmap_view h (t, m) (Some (st, c, h')) (one_fits t) (put_entry (heq t) key x (hmap_entries (t, m)), hmap_rest (t, m)) \<and>
      (st = TDA_STATUS_OK \<longrightarrow> new = Some (\<not> has_key (heq t) key (hmap_entries (t, m)))) \<and>
      (has_key (heq t) key (hmap_entries (t, m)) \<longrightarrow> st = TDA_STATUS_OK)) \<and>
    (\<forall>key x. \<exists>st p t' m' h'. tda_hmap_get_or_insert t key (Some x) m h = Some (st, p, (t', m'), h') \<and>
      call_does hmap_view h (t, m) (Some (st, (t', m'), h')) (one_fits t)
        (if has_key (heq t) key (hmap_entries (t, m)) then hmap_entries (t, m) else add_mset (key, x) (hmap_entries (t, m)), hmap_rest (t, m)) \<and>
      (if st = TDA_STATUS_OK then p \<noteq> 0 \<and> heq t (ekey m' p) key \<and> (ekey m' p, evl m' p) \<in># hmap_entries (t', m') else p = 0)) \<and>
    (\<forall>key. \<exists>r c h'. tda_hmap_take t key m h = Some (r, c, h') \<and>
      tda_hmap_remove t key m h = Some (has_key (heq t) key (hmap_entries (t, m)), c, h') \<and>
      call_drops hmap_view h (t, m) (Some (c, h')) (cut_key (heq t) key (hmap_entries (t, m)), hmap_rest (t, m)) \<and>
      (case r of None \<Rightarrow> \<not> has_key (heq t) key (hmap_entries (t, m)) | Some (k, x) \<Rightarrow> heq t k key \<and> (k, x) \<in># hmap_entries (t, m))) \<and>
    (\<forall>p. p \<in> hmap_set (t, m) \<longrightarrow>
      call_drops hmap_view h (t, m) (tda_hmap_remove_node t p m h) (hmap_entries (t, m) - {#(ekey m p, evl m p)#}, hmap_rest (t, m))) \<and>
    (\<forall>P. call_drops hmap_view h (t, m) (tda_hmap_retain (\<lambda>m k x. Some (P (k, x))) t m h)
      (filter_mset P (hmap_entries (t, m)), hmap_rest (t, m))) \<and>
    call_drops hmap_view h (t, m) (tda_hmap_clear t m h) ({#}, hmap_rest (t, m)) \<and>
    (\<forall>ks xs. length ks = length xs \<longrightarrow> (\<exists>st c h' n. tda_hmap_extend t ks (mkey t) xs (mval t) m h = Some (st, c, h') \<and>
      call_keeps hmap_view h (t, m) c h' \<and> n \<le> length ks \<and>
      hval (hmap_view c) = (put_all (heq t) (take n (zip ks xs)) (hmap_entries (t, m)), hmap_rest (t, m)) \<and>
      (if st = TDA_STATUS_OK then n = length ks
       else \<not> (generous h (mal t) \<and> 16 * (size (hmap_entries (t, m)) + length ks) \<le> SIZE_MAX)))) \<and>
    (\<forall>cap. call_does hmap_view h (t, m) (tda_hmap_reserve t cap m h) (16 * cap \<le> SIZE_MAX) (hmap_entries (t, m), hmap_rest (t, m))) \<and>
    call_does hmap_view h (t, m) (tda_hmap_shrink_to_fit t m h) True (hmap_entries (t, m), hmap_rest (t, m))"
proof -
  have v: "0 < lsize (mval t)" using val by (rule is_type_size)
  then have e: "entry_at (mval t) m' p = (ekey m' p, evl m' p)" for m' p by (simp add: entry_at_def)
  have rv: "hval (hmap_view (t, m)) = (hmap_entries (t, m), hmap_rest (t, m))" by (simp add: hmap_view_fields)
  note reserve = hmap_reserve_ok [OF held, unfolded rv] and shrink = hmap_shrink_ok [OF held, unfolded rv]
  note find = hmap_find_held [OF held, unfolded e]
    and ins = hmap_insert_ok [OF held disjI1 [OF option.simps(3)], unfolded if_P [OF v] option.sel]
    and goi = hmap_get_or_insert_ok [OF held disjI1 [OF option.simps(3)], unfolded if_P [OF v] option.sel e]
    and take = hmap_take_ok [OF held, unfolded if_P [OF v]]
    and node = hmap_remove_node_ok [OF held, folded hmap_set_def, unfolded e]
    and retain = hmap_retain_pure [OF held v] and ext = hmap_extend_ok [OF held val]
  show ?thesis
    by (intro conjI allI impI; (rule ins goi take node retain reserve shrink ext hmap_clear_ok [OF held]; assumption)?)
      (use find in blast)+
qed

text \<open>A new map from words to truth values, keys hashed to themselves, and a memory with no node.\<close>

definition no_entries :: "(64 word, bool) entries" where
  "no_entries = \<lparr>places = {}, pick = next_place, enx = (\<lambda>_. 0), ehash = (\<lambda>_. 0), ekey = (\<lambda>_. 0), evl = (\<lambda>_. None)\<rparr>"

definition new_map :: "64 word hmap" where
  "new_map = \<lparr>mbuckets = [], mcount = 0, mlen = 0, mkey = \<lparr>lsize = 8, lalign = 8\<rparr>, mval = \<lparr>lsize = 1, lalign = 1\<rparr>,
     mkoff = 16, mvoff = 24, mnode = \<lparr>lsize = 32, lalign = 8\<rparr>, mhasher = Some id, meq = Some (=), mal = 1\<rparr>"

abbreviation ready :: heap where "ready \<equiv> \<lambda>_. \<lparr>answers = [], live = {#}\<rparr>"

lemma layouts_8: "hmap_layouts \<lparr>lsize = 8, lalign = 8\<rparr> \<lparr>lsize = 1, lalign = 1\<rparr> = Some (Some (\<lparr>lsize = 32, lalign = 8\<rparr>, 16, 24))"
  by (simp add: hmap_layouts_def ckd_extend_eq ckd_pad_eq HMapNode_layout_def round_up_def SIZE_MAX_def)

lemma new_map_held: "held_by hmap_view h (new_map, no_entries)" "hmap_entries (new_map, no_entries) = {#}"
  "hmap_rest (new_map, no_entries) = (\<lambda>_. None)" "store_ok no_entries"
proof -
  have "hasher ((=) :: 64 word \<Rightarrow> _) id" by (simp add: hasher_def identity_equivp)
  then have k: "hmap_kind_ok new_map"
    by (simp add: hmap_kind_ok_def new_map_def layouts_8 [simplified] tda_layout_is_type_def)
  have at: "hmap_at no_entries new_map []" using hmap_empty_at [OF k] by (simp add: new_map_def)
  show ok: "store_ok no_entries" by (simp add: store_ok_def no_entries_def next_place_fresh)
  show "held_by hmap_view h (new_map, no_entries)" using held_by_hmap [OF at ok] by (simp add: hmap_blocks_def new_map_def)
  show "hmap_entries (new_map, no_entries) = {#}" "hmap_rest (new_map, no_entries) = (\<lambda>_. None)"
    using hmap_at_chains [OF at ok] by (simp_all add: hmap_entries_def hmap_rest_def eothers_def no_entries_def)
qed

theorem hmap_operations_witness:
  "\<exists>c h'. tda_hmap_insert new_map 5 (Some (Some True)) no_entries ready = Some (TDA_STATUS_OK, Some True, c, h') \<and>
    hmap_entries c = {#(5, Some True)#}"
proof -
  have v: "tda_layout_is_type (mval new_map)" by (simp add: new_map_def tda_layout_is_type_def)
  note all = hmap_operations [OF new_map_held(1) [of ready] v, THEN conjunct2, THEN conjunct1, rule_format]
  have no: "\<not> has_key (heq new_map) 5 (hmap_entries (new_map, no_entries))" by (simp add: new_map_held(2) has_key_def)
  obtain st new c h' where r: "tda_hmap_insert new_map 5 (Some (Some True)) no_entries ready = Some (st, new, c, h')"
    "call_does hmap_view ready (new_map, no_entries) (Some (st, c, h')) (one_fits new_map)
      (put_entry (heq new_map) 5 (Some True) (hmap_entries (new_map, no_entries)), hmap_rest (new_map, no_entries))"
    "st = TDA_STATUS_OK \<longrightarrow> new = Some (\<not> has_key (heq new_map) 5 (hmap_entries (new_map, no_entries)))"
    using all by blast
  have "one_fits new_map" "generous ready (mal new_map)" by (simp_all add: new_map_def SIZE_MAX_def generous_def)
  then have "st = TDA_STATUS_OK" using r(2) by (auto simp: call_does_def call_grows_def hmap_view_fields)
  then show ?thesis using r no by (auto simp: call_does_def hmap_view_fields put_entry_def new_map_held(2))
qed

lemma hmap_copies:
  assumes M: "maps_at m h a b"
  shows "(\<forall>al. al \<noteq> 0 \<longrightarrow> hmap_made m h al (mkey b) (mval b) (mhasher b) (meq b) (tda_hmap_copy_with b al m h) (16 * mlen b \<le> SIZE_MAX)
      (hmap_entries (b, m))) \<and>
    (\<exists>st c h'. tda_hmap_copy_assign False a b m h = Some (st, c, h') \<and> hgood (hmap_view c) \<and> hal (hmap_view c) = mal a \<and>
      requests h (mal a) (hmap_blocks a) (hblocks (hmap_view c)) True h' \<and>
      (if st = TDA_STATUS_OK then hkind (hmap_view c) = hmap_kind b \<and> hval (hmap_view c) = (hmap_entries (b, m), hmap_rest (a, m))
       else hkind (hmap_view c) = hmap_kind a \<and> hval (hmap_view c) = hval (hmap_view (a, m)) \<and>
         \<not> (generous h (mal a) \<and> 16 * mlen b \<le> SIZE_MAX))) \<and>
    (\<exists>m' h'. tda_hmap_move_assign False a b m h = Some (b, forget_buckets b, m', h') \<and> hmap_ok (b, m') \<and>
      hmap_entries (b, m') = hmap_entries (b, m) \<and> hmap_rest (b, m') = eothers m (hmap_set (a, m) \<union> hmap_set (b, m)) \<and>
      hmap_ok (forget_buckets b, m') \<and> hmap_entries (forget_buckets b, m') = {#} \<and>
      requests h (mal a) (hmap_blocks a) {#} True h') \<and>
    tda_hmap_swap False a b = Some (b, a) \<and>
    (\<forall>veq. 0 < lsize (mval a) \<and> (\<forall>e \<in># hmap_entries (a, m) + hmap_entries (b, m). snd e \<noteq> None) \<longrightarrow>
      tda_hmap_eq_by False True veq a b m =
        Some (size (hmap_entries (a, m)) = size (hmap_entries (b, m)) \<and> entries_in (heq b) veq (hmap_entries (a, m)) (hmap_entries (b, m)))) \<and>
    (\<forall>key val hf eq al ks xs. hmap_args_ok key val hf eq al \<and> tda_layout_is_type val \<and> length ks = length xs \<longrightarrow>
      hmap_made m h al key val hf eq (tda_hmap_from_spans ks key xs val hf eq al m h) (16 * length ks \<le> SIZE_MAX)
        (put_all (the eq) (zip ks xs) {#}))"
proof (intro conjI allI impI)
  have held: "held_by hmap_view h (b, m)" using M by (simp add: maps_at_def)
  then have ok: "store_ok m" by (simp add: held_by_def hmap_view_fields hmap_ok_def)
  show "hmap_made m h al (mkey b) (mval b) (mhasher b) (meq b) (tda_hmap_copy_with b al m h) (16 * mlen b \<le> SIZE_MAX) (hmap_entries (b, m))"
    if "al \<noteq> 0" for al using hmap_copy_ok [OF held that] .
  show "hmap_made m h al key val hf eq (tda_hmap_from_spans ks key xs val hf eq al m h) (16 * length ks \<le> SIZE_MAX)
      (put_all (the eq) (zip ks xs) {#})"
    if "hmap_args_ok key val hf eq al \<and> tda_layout_is_type val \<and> length ks = length xs" for key val hf eq al ks xs
    using hmap_from_spans_ok [OF _ _ ok] that by blast
qed (use hmap_copy_assign_ok [OF M] hmap_move_assign_ok [OF M] hmap_swap_ok [OF M] hmap_eq_ok [OF M] in blast)+

lemma hmap_buckets:
  assumes held: "held_by hmap_view h (t, m)"
  shows "(mcount t = 0 \<or> tda_is_pow2 (mcount t) \<and> 1 < mcount t) \<and> size (hmap_entries (t, m)) \<le> mcount t \<and>
    (\<forall>i < mcount t. \<forall>p \<in> set (hmap_chains (t, m) ! i). bucket_of t (hfun t (ekey m p)) = Some i) \<and>
    (\<forall>cap st t' m' h'. tda_hmap_reserve t cap m h = Some (st, (t', m'), h') \<longrightarrow>
      hmap_set (t', m') = hmap_set (t, m) \<and> ekey m' = ekey m \<and> evl m' = evl m \<and> (st = TDA_STATUS_OK \<longrightarrow> cap \<le> mcount t')) \<and>
    (\<exists>p. tda_hmap_first_node t = Some p \<and> p = hd (concat (hmap_chains (t, m)) @ [0])) \<and>
    (\<forall>xs p ys. concat (hmap_chains (t, m)) = xs @ p # ys \<longrightarrow> tda_hmap_node_next t m p = Some (hd (ys @ [0])))"
proof -
  obtain ch where at: "hmap_at m t ch" and ok: "store_ok m" and own: "hmap_blocks t \<subseteq># lives h (mal t)" and as: "ASSERT_HMAP t = Some ()"
    using held by (rule held_hmapE)
  note d = hmap_atD [OF at] and chains = hmap_at_chains [OF at ok]
  have z: "0 \<notin> places m" using ok by (simp add: store_ok_def)
  have "mcount t = 0 \<or> tda_is_pow2 (mcount t) \<and> 1 < mcount t" using d(5) count_okD(1,2) by blast
  moreover have "size (hmap_entries (t, m)) \<le> mcount t" using held_hmap_size [OF held] d(7) by simp
  moreover have "bucket_of t (hfun t (ekey m p)) = Some i" if "i < mcount t" "p \<in> set (ch ! i)" for i p
  proof -
    have "p \<in> set (concat ch)" using tableD(6) [OF d(2)] that d(3) by (metis subsetD)
    then have "ehash m p = hfun t (ekey m p)" by (rule d(15))
    moreover have "bucket_in (ehash m p) (mcount t) = Some i" using d(3,4) that unfolding well_placed_def by simp
    ultimately show ?thesis using that by (simp add: bucket_of_def)
  qed
  moreover have "hmap_set (t', m') = hmap_set (t, m) \<and> ekey m' = ekey m \<and> evl m' = evl m \<and> (st = TDA_STATUS_OK \<longrightarrow> cap \<le> mcount t')"
    if run: "tda_hmap_reserve t cap m h = Some (st, (t', m'), h')" for cap st t' m' h'
  proof -
    obtain st1 t1 m1 h1 ch1 where r: "reserve_buckets t cap m h = Some (st1, (t1, m1), h1)" "hmap_moved m t ch m1 t1 ch1"
      "if st1 = TDA_STATUS_OK then cap \<le> mcount t1 else t1 = t \<and> m1 = m \<and> \<not> (generous h (mal t) \<and> 16 * cap \<le> SIZE_MAX)"
      using reserve_buckets_ok [OF at ok own, of cap] by (elim exE conjE)
    note mv = hmap_movedD [OF r(2)]
    have "st = st1" "t' = t1" "m' = m1" using run r(1) as hmap_assert [OF mv(1)] by (simp_all add: tda_hmap_reserve_def)
    then show ?thesis using mv(5,9,10) r(3) hmap_at_chains [OF mv(1) mv(6) [OF ok]] chains by (simp add: hmap_set_def split: if_splits)
  qed
  moreover have "tda_hmap_first_node t = Some (hd (concat ch @ [0]))"
    using as first_from_ok [OF d(2,3) z, of 0] by (simp add: tda_hmap_first_node_def)
  moreover have "tda_hmap_node_next t m p = Some (hd (ys @ [0]))" if c: "concat ch = xs @ p # ys" for xs p ys
  proof -
    have "p \<noteq> 0" using hmap_node_in(2) [OF at ok] c by simp
    then show ?thesis using as next_node_ok [OF d(2,3) z d(4) c] by (simp add: tda_hmap_node_next_def)
  qed
  ultimately show ?thesis unfolding chains by blast
qed

end
