(* ===== verification/HSetProps.thy ===== *)
theory HSetProps
  imports HSetLaws HMapProps
begin

text \<open>
  The rest of the operations of \<open>HSet\<close>, those on two sets among them, the set as a container, and its
  properties.
\<close>

section \<open>One set\<close>

lemma hset_extend_ok:
  assumes held: "held_by hset_view h (s, m)"
  shows "\<exists>st c h' n. tda_hset_extend s ks (mkey (smap s)) m h = Some (st, c, h') \<and> call_keeps hset_view h (s, m) c h' \<and> n \<le> length ks \<and>
     hset_keys c = fold (key_in (heq (smap s))) (take n ks) (hset_keys (s, m)) \<and> hset_rest c = hset_rest (s, m) \<and>
     (if st = TDA_STATUS_OK then n = length ks
      else \<not> (generous h (mal (smap s)) \<and> 16 * (size (hset_keys (s, m)) + length ks) \<le> SIZE_MAX))"
proof -
  obtain ch where at: "hmap_at m (smap s) ch" using held unfolding held_by_hset by (meson held_hmapE)
  have key: "tda_layout_is_type (mkey (smap s))" "mal (smap s) \<noteq> 0"
    using hmap_atD(1) [OF at] hmap_atD(12) [OF at] by (simp_all add: hmap_kind_ok_def)
  obtain st c h' n where r: "hset_extend_loop s ks m h = Some (st, c, h')" "call_keeps hset_view h (s, m) c h'" "n \<le> length ks"
     "hset_keys c = fold (key_in (heq (smap s))) (take n ks) (hset_keys (s, m))" "hset_rest c = hset_rest (s, m)"
     "if st = TDA_STATUS_OK then n = length ks
      else \<not> (generous h (mal (smap s)) \<and> 16 * (size (hset_keys (s, m)) + length ks) \<le> SIZE_MAX)"
    using hset_extend_loop_ok [OF held] by blast
  obtain s' m' where c: "c = (s', m')" by (cases c)
  have "ASSERT_HSET s' = Some ()" using r(2) c hset_assert [of s' m'] by (auto simp: call_keeps_def hset_view_def)
  then have "tda_hset_extend s ks (mkey (smap s)) m h = Some (st, c, h')"
    using held_hset_assert [OF held] key r(1) c
    by (simp add: tda_hset_extend_def tda_hmap_key_layout_def tda_layout_eq_def)
  then show ?thesis using r(2-6) by blast
qed

lemma hset_find_ok:
  assumes held: "held_by hset_view h (s, m)"
  shows "\<exists>p. tda_hset_find s m key = Some p \<and> tda_hset_contains s m key = Some (p \<noteq> 0) \<and>
    (p \<noteq> 0 \<longleftrightarrow> in_keys (heq (smap s)) key (hset_keys (s, m))) \<and>
    (p \<noteq> 0 \<longrightarrow> heq (smap s) (ekey m p) key \<and> tda_hset_node_key s m p = Some (ekey m p))"
  using hmap_find_held [of h "smap s" m key] held held_hset_assert [OF held]
  by (auto simp: held_by_hset tda_hset_find_def tda_hset_contains_def tda_hset_node_key_def has_key_keys hset_keys_def)

lemma hset_take_ok:
  assumes held: "held_by hset_view h (s, m)"
  shows "\<exists>r c h'. tda_hset_take s key m h = Some (r, c, h') \<and>
    tda_hset_remove s key m h = Some (in_keys (heq (smap s)) key (hset_keys (s, m)), c, h') \<and>
    call_drops hset_view h (s, m) (Some (c, h')) (key_out (heq (smap s)) key (hset_keys (s, m)), hset_rest (s, m)) \<and>
    (case r of None \<Rightarrow> \<not> in_keys (heq (smap s)) key (hset_keys (s, m)) | Some k \<Rightarrow> heq (smap s) k key \<and> k \<in># hset_keys (s, m))"
proof -
  have h: "held_by hmap_view h (smap s, m)" "lsize (mval (smap s)) = 0" using held by (simp_all add: held_by_hset)
  obtain r c h' where t: "tda_hmap_take (smap s) key m h = Some (r, c, h')"
    "tda_hmap_remove (smap s) key m h = Some (in_keys (heq (smap s)) key (hset_keys (s, m)), c, h')"
    "call_drops hmap_view h (smap s, m) (Some (c, h')) (cut_key (heq (smap s)) key (hmap_entries (smap s, m)), hmap_rest (smap s, m))"
    "case r of None \<Rightarrow> \<not> in_keys (heq (smap s)) key (hset_keys (s, m))
     | Some (k, x) \<Rightarrow> heq (smap s) k key \<and> (k, if 0 < lsize (mval (smap s)) then x else None) \<in># hmap_entries (smap s, m)"
    using hmap_take_ok [OF h(1), of key, unfolded has_key_keys, folded hset_keys_def [of "(s, m)", simplified]] by blast
  obtain t' m' where c: "c = (t', m')" by (cases c)
  note d = set_drops [OF t(3) [unfolded c] h(2)]
  let ?c = "(s\<lparr>smap := t'\<rparr>, m')"
  have "tda_hset_take s key m h = Some (map_option fst r, ?c, h')"
    "tda_hset_remove s key m h = Some (in_keys (heq (smap s)) key (hset_keys (s, m)), ?c, h')"
    using held_hset_assert [OF held] t(1,2) c d(2) by (simp_all add: tda_hset_take_def tda_hset_remove_def Let_def)
  moreover have "case map_option fst r of None \<Rightarrow> \<not> in_keys (heq (smap s)) key (hset_keys (s, m))
      | Some k \<Rightarrow> heq (smap s) k key \<and> k \<in># hset_keys (s, m)"
    using t(4) by (force simp: hset_keys_def split: option.splits)
  moreover have "call_drops hset_view h (s, m) (Some (?c, h')) (key_out (heq (smap s)) key (hset_keys (s, m)), hset_rest (s, m))"
    using d(1) by (simp add: keys_cut hset_keys_def hset_rest_def)
  ultimately show ?thesis by (intro exI conjI)
qed

lemma hset_clear_ok:
  assumes held: "held_by hset_view h (s, m)"
  shows "call_drops hset_view h (s, m) (tda_hset_clear s m h) ({#}, hset_rest (s, m))"
proof -
  have h: "held_by hmap_view h (smap s, m)" "lsize (mval (smap s)) = 0" using held by (simp_all add: held_by_hset)
  from hmap_clear_ok [OF h(1)] obtain t m' h' where r: "tda_hmap_clear (smap s) m h = Some ((t, m'), h')"
    "call_drops hmap_view h (smap s, m) (Some ((t, m'), h')) ({#}, hmap_rest (smap s, m))" by (auto elim: dropsE)
  note d = set_drops [OF r(2) h(2)]
  have "tda_hset_clear s m h = Some ((s\<lparr>smap := t\<rparr>, m'), h')"
    using held_hset_assert [OF held] r(1) d(2) by (simp add: tda_hset_clear_def Let_def)
  then show ?thesis using d(1) by (simp add: hset_rest_def)
qed

text \<open>A retain with any steady test.\<close>

lemma retain_keys:
  assumes held: "held_by hset_view h (s, m)"
    and pred: "\<forall>m' S k x. store_ok m' \<and> eothers m' S = hset_rest (s, m) \<longrightarrow> pred m' k x = Some (P k)"
  shows "\<exists>t m' h'. tda_hmap_retain pred (smap s) m h = Some ((t, m'), h') \<and> ASSERT_HSET (s\<lparr>smap := t\<rparr>) = Some () \<and>
    call_drops hset_view h (s, m) (Some ((s\<lparr>smap := t\<rparr>, m'), h')) (filter_mset P (hset_keys (s, m)), hset_rest (s, m))"
proof -
  have h: "held_by hmap_view h (smap s, m)" "lsize (mval (smap s)) = 0" using held by (simp_all add: held_by_hset)
  have "\<forall>m' S k x. store_ok m' \<and> eothers m' S = hmap_rest (smap s, m) \<longrightarrow>
      pred m' k x = Some ((\<lambda>e. P (fst e)) (k, if 0 < lsize (mval (smap s)) then x else None))"
    using pred by (simp add: hset_rest_def)
  from hmap_retain_ok [OF h(1) this] obtain t m' h' where r: "tda_hmap_retain pred (smap s) m h = Some ((t, m'), h')"
    "call_drops hmap_view h (smap s, m) (Some ((t, m'), h')) (filter_mset (\<lambda>e. P (fst e)) (hmap_entries (smap s, m)), hmap_rest (smap s, m))"
    by (auto elim: dropsE)
  note d = set_drops [OF r(2) h(2)]
  have "keys_of (filter_mset (\<lambda>e. P (fst e)) (hmap_entries (smap s, m))) = filter_mset P (hset_keys (s, m))"
    by (simp add: hset_keys_def filter_mset_image_mset)
  then show ?thesis using r(1) d by (auto simp: hset_rest_def)
qed

lemma hset_retain_ok:
  assumes held: "held_by hset_view h (s, m)"
  shows "call_drops hset_view h (s, m) (tda_hset_retain P s m h) (filter_mset P (hset_keys (s, m)), hset_rest (s, m))"
proof -
  have "\<forall>m' S k x. store_ok m' \<and> eothers m' S = hset_rest (s, m) \<longrightarrow> key_passes P m' k x = Some (P k)" by (simp add: key_passes_def)
  from retain_keys [OF held this] held_hset_assert [OF held] show ?thesis by (auto simp: tda_hset_retain_def Let_def)
qed

lemma hset_remove_node_ok:
  assumes held: "held_by hset_view h (s, m)" and p: "p \<in> hmap_set (smap s, m)"
  shows "call_drops hset_view h (s, m) (tda_hset_remove_node s p m h) (hset_keys (s, m) - {#ekey m p#}, hset_rest (s, m))"
proof -
  have h: "held_by hmap_view h (smap s, m)" "lsize (mval (smap s)) = 0" using held by (simp_all add: held_by_hset)
  obtain ch where at: "hmap_at m (smap s) ch" "store_ok m" "hmap_entries (smap s, m) = image_mset (entry_at (mval (smap s)) m) (mset (concat ch))"
    using h(1) by (rule held_hmapE)
  have pc: "p \<in> set (concat ch)" using p hmap_at_chains [OF at(1,2)] by (simp add: hmap_set_def)
  from hmap_remove_node_ok [OF h(1) p [unfolded hmap_set_def]] obtain t m' h' where r: "tda_hmap_remove_node (smap s) p m h = Some ((t, m'), h')"
    "call_drops hmap_view h (smap s, m) (Some ((t, m'), h')) (hmap_entries (smap s, m) - {#entry_at (mval (smap s)) m p#}, hmap_rest (smap s, m))"
    by (auto elim: dropsE)
  note d = set_drops [OF r(2) h(2)]
  have "tda_hset_remove_node s p m h = Some ((s\<lparr>smap := t\<rparr>, m'), h')"
    using held_hset_assert [OF held] r(1) d(2) hmap_node_in(2) [OF at(1,2) pc] by (simp add: tda_hset_remove_node_def Let_def)
  moreover have "entry_at (mval (smap s)) m p \<in># hmap_entries (smap s, m)" using pc unfolding at(3) by (simp del: mset_concat set_concat)
  then have "keys_of (hmap_entries (smap s, m) - {#entry_at (mval (smap s)) m p#}) = hset_keys (s, m) - {#ekey m p#}"
    by (simp add: image_mset_Diff hset_keys_def) (simp add: entry_at_def)
  ultimately show ?thesis using d(1) by (simp add: hset_rest_def)
qed

lemma hset_reserve_ok:
  assumes held: "held_by hset_view h (s, m)"
  shows "call_does hset_view h (s, m) (tda_hset_reserve s cap m h) (16 * cap \<le> SIZE_MAX) (hset_keys (s, m), hset_rest (s, m))"
    "call_does hset_view h (s, m) (tda_hset_shrink_to_fit s m h) True (hset_keys (s, m), hset_rest (s, m))"
proof -
  have h: "held_by hmap_view h (smap s, m)" "lsize (mval (smap s)) = 0" using held by (simp_all add: held_by_hset)
  have rv: "hval (hmap_view (smap s, m)) = (hmap_entries (smap s, m), hmap_rest (smap s, m))" by (simp add: hmap_view_fields)
  from hmap_reserve_ok [OF h(1), of cap, unfolded rv] obtain st t m' h' where r: "tda_hmap_reserve (smap s) cap m h = Some (st, (t, m'), h')"
    "call_does hmap_view h (smap s, m) (Some (st, (t, m'), h')) (16 * cap \<le> SIZE_MAX) (hmap_entries (smap s, m), hmap_rest (smap s, m))"
    by (rule doesE)
  from hmap_shrink_ok [OF h(1), unfolded rv] obtain st2 t2 m2 h2 where q: "tda_hmap_shrink_to_fit (smap s) m h = Some (st2, (t2, m2), h2)"
    "call_does hmap_view h (smap s, m) (Some (st2, (t2, m2), h2)) True (hmap_entries (smap s, m), hmap_rest (smap s, m))"
    by (rule doesE)
  note d = set_does [OF r(2) h(2)] set_does [OF q(2) h(2)]
  show "call_does hset_view h (s, m) (tda_hset_reserve s cap m h) (16 * cap \<le> SIZE_MAX) (hset_keys (s, m), hset_rest (s, m))"
    "call_does hset_view h (s, m) (tda_hset_shrink_to_fit s m h) True (hset_keys (s, m), hset_rest (s, m))"
    using held_hset_assert [OF held] r(1) q(1) d by (simp_all add: tda_hset_reserve_def tda_hset_shrink_to_fit_def Let_def hset_keys_def hset_rest_def)
qed

lemma hset_deinit_ok:
  assumes held: "held_by hset_view h (s, m)"
  shows "call_ends hset_view h (s, m) (tda_hset_deinit s m h)"
proof -
  have "held_by hmap_view h (smap s, m)" using held by (simp add: held_by_hset)
  from hmap_deinit_ok [OF this] show ?thesis by (auto simp: call_ends_def tda_hset_deinit_def hset_view_def hmap_view_fields)
qed

section \<open>Two sets\<close>

text \<open>Two sets in one memory, with one equality.\<close>

definition sets_at :: "('k, unit) entries \<Rightarrow> heap \<Rightarrow> 'k hset \<Rightarrow> 'k hset \<Rightarrow> bool" where
  "sets_at m h a b \<longleftrightarrow> maps_at m h (smap a) (smap b) \<and> lsize (mval (smap a)) = 0 \<and> heq (smap b) = heq (smap a)"

lemma sets_atD:
  assumes "sets_at m h a b"
  shows "held_by hset_view h (a, m)" "held_by hset_view h (b, m)" "held_by hmap_view h (smap a, m)" "held_by hmap_view h (smap b, m)"
    "heq (smap b) = heq (smap a)" "lsize (mval (smap a)) = 0" "hasher (heq (smap a)) (hfun (smap a))"
    "ASSERT_HSET a = Some ()" "ASSERT_HSET b = Some ()" "EXPECT_SAME_HSET a b = Some ()"
    "tda_hmap_len (smap a) = Some (size (hset_keys (a, m)))" "tda_hmap_len (smap b) = Some (size (hset_keys (b, m)))"
proof -
  show h: "held_by hmap_view h (smap a, m)" "held_by hmap_view h (smap b, m)" using assms by (simp_all add: sets_at_def maps_at_def)
  show v: "heq (smap b) = heq (smap a)" "lsize (mval (smap a)) = 0" using assms by (simp_all add: sets_at_def)
  show s: "held_by hset_view h (a, m)" "held_by hset_view h (b, m)"
    using assms h by (simp_all add: sets_at_def maps_at_def held_by_hset)
  show "ASSERT_HSET a = Some ()" "ASSERT_HSET b = Some ()" using s by (auto intro: held_hset_assert)
  obtain ca where at: "hmap_at m (smap a) ca" using h(1) by (rule held_hmapE)
  obtain cb where bt: "hmap_at m (smap b) cb" using h(2) by (rule held_hmapE)
  note al = hmap_atD(12) [OF at] hmap_atD(12) [OF bt]
  show "hasher (heq (smap a)) (hfun (smap a))" using hmap_atD(11) [OF at] .
  show "EXPECT_SAME_HSET a b = Some ()"
    using assms al by (simp add: sets_at_def maps_at_def EXPECT_SAME_HSET_def tda_hmap_key_layout_def tda_layout_eq_def)
  show "tda_hmap_len (smap a) = Some (size (hset_keys (a, m)))" "tda_hmap_len (smap b) = Some (size (hset_keys (b, m)))"
    using al held_hmap_size [OF h(1)] held_hmap_size [OF h(2)] by (simp_all add: tda_hmap_len_def hset_keys_def)
qed

text \<open>The other set stays what it is while this one changes.\<close>

lemma other_contains:
  assumes S: "sets_at m h a b" and m': "store_ok m'" "eothers m' S' = hset_rest (a, m)"
  shows "tda_hmap_contains (smap b) m' key = Some (in_keys (heq (smap a)) key (hset_keys (b, m)))"
proof -
  note d = sets_atD [OF S]
  obtain cb where bt: "hmap_at m (smap b) cb" and ok: "store_ok m" using d(4) by (rule held_hmapE)
  have "set (concat cb) \<inter> hmap_set (smap a, m) = {}"
    using S hmap_at_chains [OF bt ok] unfolding sets_at_def maps_at_def hmap_set_def by auto
  moreover have "eothers m' S' = eothers m (hmap_set (smap a, m))" using m'(2) by (simp add: hset_rest_def hmap_rest_def hmap_set_def)
  ultimately have u: "hmap_at m' (smap b) cb" "hmap_entries (smap b, m') = hmap_entries (smap b, m)"
    using hmap_untouched(1,2) [OF bt ok m'(1)] by blast+
  show ?thesis using contains_at [OF u(1) m'(1), of key] u(2) d(5) by (simp add: hset_keys_def)
qed

lemma for_each_ok:
  assumes S: "sets_at m h a b" and body: "body_does body F" and size: "\<And>eq k K. size (F eq k K) \<le> Suc (size K)"
  shows "\<exists>st t m' h' n. for_each body (smap b) (smap a) m h = Some (st, (t, m'), h') \<and> ASSERT_HSET (a\<lparr>smap := t\<rparr>) = Some () \<and>
    call_keeps hset_view h (a, m) (a\<lparr>smap := t\<rparr>, m') h' \<and> hset_rest (a\<lparr>smap := t\<rparr>, m') = hset_rest (a, m) \<and>
    n \<le> size (hset_keys (b, m)) \<and>
    hset_keys (a\<lparr>smap := t\<rparr>, m') = fold (F (heq (smap a))) (take n (walk_keys (smap b, m))) (hset_keys (a, m)) \<and>
    (if st = TDA_STATUS_OK then n = size (hset_keys (b, m))
     else \<not> (generous h (mal (smap a)) \<and> 16 * (size (hset_keys (a, m)) + size (hset_keys (b, m))) \<le> SIZE_MAX)) \<and>
    (never_fails body \<longrightarrow> st = TDA_STATUS_OK)"
proof -
  note d = sets_atD [OF S]
  obtain cb where bt: "hmap_at m (smap b) cb" and ok: "store_ok m" using d(4) by (rule held_hmapE)
  have apart: "set (concat cb) \<inter> hmap_set (smap a, m) = {}"
    using S hmap_at_chains [OF bt ok] unfolding sets_at_def maps_at_def hmap_set_def by auto
  have rest: "hmap_rest (smap a, m) = eothers m (hmap_set (smap a, m))" by (simp add: hmap_rest_def hmap_set_def)
  have len: "length (concat cb) = size (hset_keys (b, m))"
    using hmap_atD(6) [OF bt] held_hmap_size [OF d(4)] by (simp add: hset_keys_def)
  have wk: "walk_keys (smap b, m) = map (ekey m) (concat cb)" using hmap_at_chains [OF bt ok] by (simp add: walk_keys_def)
  obtain st c h' n where r: "for_each_node body (smap b) (hd (concat cb @ [0])) (smap a) m h = Some (st, c, h')"
    "call_keeps hmap_view h (smap a, m) c h'" "hmap_rest c = hmap_rest (smap a, m)" "n \<le> length (concat cb)"
    "keys_of (hmap_entries c) = fold (F (heq (smap a))) (map (ekey m) (take n (concat cb))) (keys_of (hmap_entries (smap a, m)))"
    "if st = TDA_STATUS_OK then n = length (concat cb)
     else \<not> (generous h (mal (smap a)) \<and> 16 * (size (hmap_entries (smap a, m)) + length (concat cb)) \<le> SIZE_MAX)"
    "never_fails body \<longrightarrow> st = TDA_STATUS_OK"
    using for_each_node_ok [OF body size bt apart append_Nil [symmetric] d(3,6) rest] by blast
  obtain t m' where c: "c = (t, m')" by (cases c)
  note k = set_keeps [OF r(2) [unfolded c] d(6)]
  have "for_each body (smap b) (smap a) m h = Some (st, (t, m'), h')"
    using first_node_at [OF bt ok] r(1) c by (simp add: for_each_def)
  then show ?thesis
    using k r(3-7) unfolding c len wk
    by (intro exI [of _ st] exI [of _ t] exI [of _ m'] exI [of _ h'] exI [of _ n])
      (auto simp: hset_keys_def hset_rest_def take_map split: if_splits)
qed

lemma take_walk_keys:
  assumes "sets_at m h a b"
  shows "mset (take n (walk_keys (smap b, m))) \<subseteq># hset_keys (b, m)"
    "n = size (hset_keys (b, m)) \<Longrightarrow> mset (take n (walk_keys (smap b, m))) = hset_keys (b, m)"
    "sorted_wrt (\<lambda>x y. \<not> heq (smap a) x y) (take n (walk_keys (smap b, m)))"
proof -
  note d = sets_atD [OF assms]
  have ms: "mset (walk_keys (smap b, m)) = hset_keys (b, m)" by (simp add: walk_keys_mset hset_keys_def)
  show "mset (take n (walk_keys (smap b, m))) \<subseteq># hset_keys (b, m)"
    unfolding ms [symmetric] by (metis append_take_drop_id mset_append mset_subset_eq_add_left)
  show "mset (take n (walk_keys (smap b, m))) = hset_keys (b, m)" if "n = size (hset_keys (b, m))"
    using ms that by (metis size_mset take_all order_refl)
  obtain cb where bt: "hmap_at m (smap b) cb" "store_ok m" using d(4) by (rule held_hmapE)
  show "sorted_wrt (\<lambda>x y. \<not> heq (smap a) x y) (take n (walk_keys (smap b, m)))"
    using sorted_wrt_take [OF walk_keys_apart [OF bt]] d(5) by simp
qed

text \<open>What a walk that puts keys of \<open>b\<close> in or out of \<open>a\<close> gives: \<open>G\<close> of the keys it got to.\<close>

definition set_walked ::
  "('k, unit) entries \<Rightarrow> heap \<Rightarrow> 'k hset \<Rightarrow> 'k hset \<Rightarrow> (tda_status \<times> 'k sobj \<times> heap) option \<Rightarrow> ('k multiset \<Rightarrow> 'k multiset) \<Rightarrow> bool" where
  "set_walked m h a b r G \<longleftrightarrow> (\<exists>st c h' L. r = Some (st, c, h') \<and> call_keeps hset_view h (a, m) c h' \<and> L \<subseteq># hset_keys (b, m) \<and>
     hval (hset_view c) = (G L, hset_rest (a, m)) \<and>
     (if st = TDA_STATUS_OK then L = hset_keys (b, m)
      else \<not> (generous h (mal (smap a)) \<and> 16 * (size (hset_keys (a, m)) + size (hset_keys (b, m))) \<le> SIZE_MAX)))"

lemma hset_union_ok:
  assumes S: "sets_at m h a b"
  shows "set_walked m h a b (tda_hset_union False True a b m h) (\<lambda>L. hset_keys (a, m) + keys_minus (heq (smap a)) L (hset_keys (a, m)))"
    "set_walked m h a b (tda_hset_symmetric_difference False True a b m h)
      (\<lambda>L. keys_minus (heq (smap a)) (hset_keys (a, m)) L + keys_minus (heq (smap a)) L (hset_keys (a, m)))"
proof -
  note d = sets_atD [OF S] and tw = take_walk_keys [OF S]
  obtain st t m' h' n where r: "for_each union_body (smap b) (smap a) m h = Some (st, (t, m'), h')" "ASSERT_HSET (a\<lparr>smap := t\<rparr>) = Some ()"
    "call_keeps hset_view h (a, m) (a\<lparr>smap := t\<rparr>, m') h'" "hset_rest (a\<lparr>smap := t\<rparr>, m') = hset_rest (a, m)"
    "hset_keys (a\<lparr>smap := t\<rparr>, m') = fold (key_in (heq (smap a))) (take n (walk_keys (smap b, m))) (hset_keys (a, m))"
    "if st = TDA_STATUS_OK then n = size (hset_keys (b, m))
     else \<not> (generous h (mal (smap a)) \<and> 16 * (size (hset_keys (a, m)) + size (hset_keys (b, m))) \<le> SIZE_MAX)"
    using for_each_ok [OF S union_body_does size_key_in] by (elim exE conjE)
  have "tda_hset_union False True a b m h = Some (st, (a\<lparr>smap := t\<rparr>, m'), h')"
    using d(8-10) r(1,2) by (simp add: tda_hset_union_def Let_def)
  then show "set_walked m h a b (tda_hset_union False True a b m h) (\<lambda>L. hset_keys (a, m) + keys_minus (heq (smap a)) L (hset_keys (a, m)))"
    unfolding set_walked_def
    using r(3-6) tw [of n] hasher.fold_key_in [OF d(7) tw(3)] hset_view_def [of "(a\<lparr>smap := t\<rparr>, m')"]
    by (intro exI [of _ st] exI [of _ "(a\<lparr>smap := t\<rparr>, m')"] exI [of _ h'] exI [of _ "mset (take n (walk_keys (smap b, m)))"])
      (auto simp: hset_keys_def hset_rest_def split: if_splits)
next
  note d = sets_atD [OF S] and tw = take_walk_keys [OF S]
  obtain st t m' h' n where r: "for_each symmetric_body (smap b) (smap a) m h = Some (st, (t, m'), h')" "ASSERT_HSET (a\<lparr>smap := t\<rparr>) = Some ()"
    "call_keeps hset_view h (a, m) (a\<lparr>smap := t\<rparr>, m') h'" "hset_rest (a\<lparr>smap := t\<rparr>, m') = hset_rest (a, m)"
    "hset_keys (a\<lparr>smap := t\<rparr>, m') = fold (key_flip (heq (smap a))) (take n (walk_keys (smap b, m))) (hset_keys (a, m))"
    "if st = TDA_STATUS_OK then n = size (hset_keys (b, m))
     else \<not> (generous h (mal (smap a)) \<and> 16 * (size (hset_keys (a, m)) + size (hset_keys (b, m))) \<le> SIZE_MAX)"
    using for_each_ok [OF S symmetric_body_does size_key_flip] by (elim exE conjE)
  have "tda_hset_symmetric_difference False True a b m h = Some (st, (a\<lparr>smap := t\<rparr>, m'), h')"
    using d(8-10) r(1,2) by (simp add: tda_hset_symmetric_difference_def Let_def)
  then show "set_walked m h a b (tda_hset_symmetric_difference False True a b m h)
      (\<lambda>L. keys_minus (heq (smap a)) (hset_keys (a, m)) L + keys_minus (heq (smap a)) L (hset_keys (a, m)))"
    unfolding set_walked_def
    using r(3-6) tw [of n] hasher.fold_key_flip [OF d(7) tw(3)] hset_view_def [of "(a\<lparr>smap := t\<rparr>, m')"]
    by (intro exI [of _ st] exI [of _ "(a\<lparr>smap := t\<rparr>, m')"] exI [of _ h'] exI [of _ "mset (take n (walk_keys (smap b, m)))"])
      (auto simp: hset_keys_def hset_rest_def split: if_splits)
qed

lemma hset_intersection_ok:
  assumes S: "sets_at m h a b"
  shows "call_drops hset_view h (a, m) (tda_hset_intersection False True a b m h)
    (keys_both (heq (smap a)) (hset_keys (a, m)) (hset_keys (b, m)), hset_rest (a, m))"
proof -
  note d = sets_atD [OF S]
  have "\<forall>m' S k x. store_ok m' \<and> eothers m' S = hset_rest (a, m) \<longrightarrow>
      hset_held_by (smap b) m' k x = Some (in_keys (heq (smap a)) k (hset_keys (b, m)))"
    using other_contains [OF S] unfolding hset_held_by_def by blast
  from retain_keys [OF d(1) this] show ?thesis using d(8-10) by (auto simp: tda_hset_intersection_def Let_def keys_both_def)
qed

lemma hset_difference_ok:
  assumes S: "sets_at m h a b"
  shows "call_drops hset_view h (a, m) (tda_hset_difference False True a b m h)
    (keys_minus (heq (smap a)) (hset_keys (a, m)) (hset_keys (b, m)), hset_rest (a, m))"
proof (cases "size (hset_keys (b, m)) < size (hset_keys (a, m))")
  case True
  note d = sets_atD [OF S] and tw = take_walk_keys [OF S]
  have sz: "size (key_out eq k K) \<le> Suc (size K)" for eq :: "'a \<Rightarrow> 'a \<Rightarrow> bool" and k K
    using size_filter_mset_lesseq [of "\<lambda>k'. \<not> eq k' k" K] by (simp add: key_out_def le_SucI)
  have nf: "never_fails difference_body" by (auto simp: never_fails_def difference_body_def bind_Some_iff)
  obtain st t m' h' n where r: "for_each difference_body (smap b) (smap a) m h = Some (st, (t, m'), h')" "ASSERT_HSET (a\<lparr>smap := t\<rparr>) = Some ()"
    "call_keeps hset_view h (a, m) (a\<lparr>smap := t\<rparr>, m') h'" "hset_rest (a\<lparr>smap := t\<rparr>, m') = hset_rest (a, m)"
    "hset_keys (a\<lparr>smap := t\<rparr>, m') = fold (key_out (heq (smap a))) (take n (walk_keys (smap b, m))) (hset_keys (a, m))"
    "n = size (hset_keys (b, m))"
    using for_each_ok [OF S difference_body_does sz] nf by auto
  have "tda_hset_difference False True a b m h = Some ((a\<lparr>smap := t\<rparr>, m'), h')"
    using d(8-12) r(1,2) True by (simp add: tda_hset_difference_def Let_def)
  moreover have "hset_keys (a\<lparr>smap := t\<rparr>, m') = keys_minus (heq (smap a)) (hset_keys (a, m)) (hset_keys (b, m))"
    using r(5) hasher.fold_key_out [OF d(7)] tw(2) [OF r(6)] by simp
  ultimately show ?thesis using r(3,4) by (auto simp: call_drops_def call_keeps_def hset_view_def hset_keys_def hset_rest_def)
next
  case False
  note d = sets_atD [OF S]
  have "\<forall>m' S k x. store_ok m' \<and> eothers m' S = hset_rest (a, m) \<longrightarrow>
      hset_not_held_by (smap b) m' k x = Some (\<not> in_keys (heq (smap a)) k (hset_keys (b, m)))"
    using other_contains [OF S] unfolding hset_not_held_by_def by fastforce
  from retain_keys [OF d(1) this] show ?thesis using d(8-12) False by (auto simp: tda_hset_difference_def Let_def keys_minus_def)
qed

text \<open>The comparisons.\<close>

lemma all_in_size:
  assumes "hasher eq hf"
  shows "sorted_wrt (\<lambda>a b. \<not> eq a b) ks \<Longrightarrow> \<forall>k \<in> set ks. in_keys eq k B \<Longrightarrow> length ks \<le> size B"
proof (induction ks arbitrary: B)
  case (Cons k ks)
  note q = hasher.eq_sym [OF assms] hasher.eq_trans [OF assms]
  obtain k' where k': "k' \<in># B" "eq k' k" using Cons.prems(2) by (auto simp: in_keys_def)
  have "in_keys eq k2 (B - {#k'#})" if k2: "k2 \<in> set ks" for k2
  proof -
    obtain x where x: "x \<in># B" "eq x k2" using Cons.prems(2) k2 by (auto simp: in_keys_def)
    have "\<not> eq k k2" using Cons.prems(1) k2 by simp
    then have "x \<noteq> k'" using k'(2) x(2) q by blast
    then show ?thesis using x by (auto simp: in_keys_def in_diff_count)
  qed
  then have "length ks \<le> size (B - {#k'#})" using Cons by simp
  then show ?case using k'(1) by (metis Suc_le_mono insert_DiffM length_Cons size_add_mset)
qed simp

lemma hset_compare_ok:
  assumes S: "sets_at m h a b"
  shows "tda_hset_is_subset False True a b m = Some (\<forall>k \<in># hset_keys (a, m). in_keys (heq (smap a)) k (hset_keys (b, m)))"
    "tda_hset_eq False True a b m = Some (size (hset_keys (a, m)) = size (hset_keys (b, m)) \<and>
      (\<forall>k \<in># hset_keys (a, m). in_keys (heq (smap a)) k (hset_keys (b, m))))"
    "tda_hset_intersects True a b m = Some (\<exists>k \<in># hset_keys (a, m). in_keys (heq (smap a)) k (hset_keys (b, m)))"
proof -
  note d = sets_atD [OF S]
  let ?eq = "heq (smap a)" and ?A = "hset_keys (a, m)" and ?B = "hset_keys (b, m)"
  obtain ca where at: "hmap_at m (smap a) ca" and ok: "store_ok m" using d(3) by (rule held_hmapE)
  obtain cb where bt: "hmap_at m (smap b) cb" using d(4) by (rule held_hmapE)
  have all: "keys_all_in (smap a) (smap b) m = Some (\<forall>k \<in># ?A. in_keys ?eq k ?B)"
    using keys_all_in_ok [OF at bt ok] d(5) by (simp add: hset_keys_def)
  have ms: "mset (walk_keys (smap a, m)) = ?A" by (simp add: walk_keys_mset hset_keys_def)
  have ka: "set (walk_keys (smap a, m)) = set_mset ?A" by (simp flip: ms)
  have "size ?A \<le> size ?B" if "\<forall>k \<in># ?A. in_keys ?eq k ?B"
    using all_in_size [OF d(7) walk_keys_apart [OF at ok], of ?B] that unfolding ka ms [symmetric] by simp
  then have "size ?B < size ?A \<Longrightarrow> \<not> (\<forall>k \<in># ?A. in_keys ?eq k ?B)" by (meson leD)
  then show "tda_hset_is_subset False True a b m = Some (\<forall>k \<in># ?A. in_keys ?eq k ?B)"
    using d(8-12) all by (cases "size ?B < size ?A") (simp_all add: tda_hset_is_subset_def)
  show "tda_hset_eq False True a b m = Some (size ?A = size ?B \<and> (\<forall>k \<in># ?A. in_keys ?eq k ?B))"
    using d(8-12) all by (simp add: tda_hset_eq_def)
  have sa: "ekey m ` set (concat ca) = set_mset ?A"
    using ka hmap_at_chains [OF at ok] by (simp add: walk_keys_def del: set_concat)
  have "mset (walk_keys (smap b, m)) = ?B" by (simp add: walk_keys_mset hset_keys_def)
  then have "set (walk_keys (smap b, m)) = set_mset ?B" by (metis set_mset_mset)
  then have sb: "ekey m ` set (concat cb) = set_mset ?B"
    using hmap_at_chains [OF bt ok] by (simp add: walk_keys_def del: set_concat)
  have la: "intersects_loop (smap a) (smap b) (hd (concat ca @ [0])) m = Some (\<exists>k \<in># ?A. in_keys ?eq k ?B)"
    using intersects_loop_ok [OF at bt ok append_Nil [symmetric]] d(5) unfolding sa [symmetric] by (simp add: hset_keys_def del: set_concat)
  have lb: "intersects_loop (smap b) (smap a) (hd (concat cb @ [0])) m = Some (\<exists>k \<in># ?B. in_keys ?eq k ?A)"
    using intersects_loop_ok [OF bt at ok append_Nil [symmetric]] unfolding sb [symmetric] by (simp add: hset_keys_def del: set_concat)
  have "(\<exists>k \<in># ?B. in_keys ?eq k ?A) \<longleftrightarrow> (\<exists>k \<in># ?A. in_keys ?eq k ?B)"
    using hasher.eq_sym [OF d(7)] unfolding in_keys_def by blast
  then show "tda_hset_intersects True a b m = Some (\<exists>k \<in># ?A. in_keys ?eq k ?B)"
    using d(8-12) la lb first_node_at [OF at ok] first_node_at [OF bt ok] by (simp add: tda_hset_intersects_def)
qed

lemma hset_copy_assign_ok:
  assumes S: "sets_at m h a b"
  shows "\<exists>st c h'. tda_hset_copy_assign False a b m h = Some (st, c, h') \<and> hgood (hset_view c) \<and> hal (hset_view c) = mal (smap a) \<and>
    requests h (mal (smap a)) (hmap_blocks (smap a)) (hblocks (hset_view c)) True h' \<and>
    (if st = TDA_STATUS_OK then hkind (hset_view c) = hmap_kind (smap b) \<and> hval (hset_view c) = (hset_keys (b, m), hset_rest (a, m))
     else hkind (hset_view c) = hmap_kind (smap a) \<and> hval (hset_view c) = hval (hset_view (a, m)) \<and>
       \<not> (generous h (mal (smap a)) \<and> 16 * size (hset_keys (b, m)) \<le> SIZE_MAX))"
proof -
  note d = sets_atD [OF S]
  have M: "maps_at m h (smap a) (smap b)" using S by (simp add: sets_at_def)
  obtain st c h' where r: "tda_hmap_copy_assign False (smap a) (smap b) m h = Some (st, c, h')" "hgood (hmap_view c)"
    "hal (hmap_view c) = mal (smap a)" "requests h (mal (smap a)) (hmap_blocks (smap a)) (hblocks (hmap_view c)) True h'"
    "if st = TDA_STATUS_OK then hkind (hmap_view c) = hmap_kind (smap b) \<and> hval (hmap_view c) = (hmap_entries (smap b, m), hmap_rest (smap a, m))
     else hkind (hmap_view c) = hmap_kind (smap a) \<and> hval (hmap_view c) = hval (hmap_view (smap a, m)) \<and>
       \<not> (generous h (mal (smap a)) \<and> 16 * mlen (smap b) \<le> SIZE_MAX)"
    using hmap_copy_assign_ok [OF M] by (elim exE conjE)
  obtain t m' where c: "c = (t, m')" by (cases c)
  have "mval (smap b) = mval (smap a)" using M by (simp add: maps_at_def)
  then have "mval t = mval (smap a)" using r(5) c by (auto simp: hmap_view_fields hmap_kind_def split: if_splits)
  then have l0: "lsize (mval t) = 0" using d(6) by simp
  then have as: "ASSERT_HSET (a\<lparr>smap := t\<rparr>) = Some ()"
    using hset_assert [of "a\<lparr>smap := t\<rparr>" m'] r(2) c by (simp add: hmap_view_fields)
  have run: "tda_hset_copy_assign False a b m h = Some (st, (a\<lparr>smap := t\<rparr>, m'), h')"
    using d(8-10) r(1) c as by (simp add: tda_hset_copy_assign_def Let_def)
  have "size (hset_keys (b, m)) = mlen (smap b)" using held_hmap_size [OF d(4)] by (simp add: hset_keys_def)
  then show ?thesis
    using run r(2-5) l0 unfolding c
    by (intro exI [of _ st] exI [of _ "(a\<lparr>smap := t\<rparr>, m')"] exI [of _ h'])
      (auto simp: hmap_view_fields hset_view_def hset_keys_def hset_rest_def split: if_splits)
qed

text \<open>Making, copying, moving and swapping sets are the map's calls.\<close>

lemma hset_init_cap_ok:
  assumes "hmap_args_ok key \<lparr>lsize = 0, lalign = 1\<rparr> hf eq al" "store_ok m"
  shows "\<exists>st c h'. tda_hset_init_cap cap key hf eq al m h = Some (st, c, h') \<and>
    hmap_made m h al key \<lparr>lsize = 0, lalign = 1\<rparr> hf eq (Some (st, (smap (fst c), snd c), h')) (16 * cap \<le> SIZE_MAX) {#}"
proof -
  note made = hmap_init_raw_ok [OF assms, of h cap]
  then obtain st t m' h' where r: "tda_hmap_init_raw cap key \<lparr>lsize = 0, lalign = 1\<rparr> hf eq al m h = Some (st, (t, m'), h')"
    by (auto simp: hmap_made_def)
  then have "tda_hset_init_cap cap key hf eq al m h = Some (st, (\<lparr>smap = t\<rparr>, m'), h')"
    using assms(1) by (auto simp: tda_hset_init_cap_def hmap_args_ok_def)
  then show ?thesis using made r by auto
qed

lemma hset_copy_ok:
  assumes held: "held_by hset_view h (s, m)" and al: "al \<noteq> 0"
  shows "\<exists>st c h'. tda_hset_copy_with s al m h = Some (st, c, h') \<and>
    hmap_made m h al (mkey (smap s)) (mval (smap s)) (mhasher (smap s)) (meq (smap s)) (Some (st, (smap (fst c), snd c), h'))
      (16 * mlen (smap s) \<le> SIZE_MAX) (hmap_entries (smap s, m))"
proof -
  have h: "held_by hmap_view h (smap s, m)" using held by (simp add: held_by_hset)
  note made = hmap_copy_ok [OF h al]
  then obtain st t m' h' where r: "tda_hmap_copy_with (smap s) al m h = Some (st, (t, m'), h')" by (auto simp: hmap_made_def)
  then have "tda_hset_copy_with s al m h = Some (st, (\<lparr>smap = t\<rparr>, m'), h')"
    using held_hset_assert [OF held] al by (simp add: tda_hset_copy_with_def)
  then show ?thesis using made r by auto
qed

lemma smap_upd: "a\<lparr>smap := smap b\<rparr> = (b :: 'k hset)"
  by (cases a; cases b) simp

lemma sets_pair:
  assumes "maps_at m h (smap a) (smap b)" "lsize (mval (smap a)) = 0"
  shows "held_by hset_view h (a, m)" "held_by hset_view h (b, m)" "ASSERT_HSET a = Some ()" "ASSERT_HSET b = Some ()"
    "EXPECT_SAME_HSET a b = Some ()" "mal (smap a) \<noteq> 0"
proof -
  have h: "held_by hmap_view h (smap a, m)" "held_by hmap_view h (smap b, m)" "mkey (smap b) = mkey (smap a)" "mval (smap b) = mval (smap a)"
    using assms(1) by (simp_all add: maps_at_def)
  show s: "held_by hset_view h (a, m)" "held_by hset_view h (b, m)" using h assms(2) by (simp_all add: held_by_hset)
  show "ASSERT_HSET a = Some ()" "ASSERT_HSET b = Some ()" using s by (auto intro: held_hset_assert)
  then show "mal (smap a) \<noteq> 0" "EXPECT_SAME_HSET a b = Some ()"
    using h(3) by (auto simp: ASSERT_HSET_def EXPECT_SAME_HSET_def tda_hmap_key_layout_def tda_hmap_val_layout_def tda_layout_eq_def bind_Some_iff)
qed

lemma hset_swap_ok:
  fixes m :: "('k, unit) entries"
  shows "maps_at m h (smap a) (smap b) \<Longrightarrow> lsize (mval (smap a)) = 0 \<Longrightarrow> tda_hset_swap False a b = Some (b, a)"
  using sets_pair(3-5) [of m h a b] hmap_swap_ok [of m h "smap a" "smap b"]
  by (simp add: tda_hset_swap_def Let_def smap_upd)

lemma hset_move_assign_ok:
  assumes M: "maps_at m h (smap a) (smap b)" and l0: "lsize (mval (smap a)) = 0"
  shows "\<exists>m' h'. tda_hset_move_assign False a b m h = Some (b, b\<lparr>smap := forget_buckets (smap b)\<rparr>, m', h') \<and>
    hmap_ok (smap b, m') \<and> hset_keys (b, m') = hset_keys (b, m) \<and>
    hset_rest (b, m') = eothers m (hmap_set (smap a, m) \<union> hmap_set (smap b, m)) \<and>
    hmap_ok (forget_buckets (smap b), m') \<and> hset_keys (b\<lparr>smap := forget_buckets (smap b)\<rparr>, m') = {#} \<and>
    requests h (mal (smap a)) (hmap_blocks (smap a)) {#} True h'"
proof -
  note d = sets_pair [OF M l0]
  obtain m' h' where r: "tda_hmap_move_assign False (smap a) (smap b) m h = Some (smap b, forget_buckets (smap b), m', h')"
    "hmap_ok (smap b, m')" "hmap_entries (smap b, m') = hmap_entries (smap b, m)"
    "hmap_rest (smap b, m') = eothers m (hmap_set (smap a, m) \<union> hmap_set (smap b, m))" "hmap_ok (forget_buckets (smap b), m')"
    "hmap_entries (forget_buckets (smap b), m') = {#}" "requests h (mal (smap a)) (hmap_blocks (smap a)) {#} True h'"
    using hmap_move_assign_ok [OF M] by blast
  let ?b = "b\<lparr>smap := forget_buckets (smap b)\<rparr>"
  have "lsize (mval (smap b)) = 0" using d(2) by (simp add: held_by_hset)
  then have "ASSERT_HSET ?b = Some ()" using hset_assert [of ?b m'] r(5) by (simp add: forget_buckets_def)
  then have "tda_hset_move_assign False a b m h = Some (b, ?b, m', h')"
    using d(3-6) r(1) by (simp add: tda_hset_move_assign_def Let_def smap_upd)
  then show ?thesis using r(2-7) by (auto simp: hset_keys_def hset_rest_def)
qed

section \<open>Histories\<close>

inductive hset_step :: "heap \<times> 'k hset \<times> ('k, unit) entries \<Rightarrow> heap \<times> 'k hset \<times> ('k, unit) entries \<Rightarrow> bool" where
  ss_insert: "tda_hset_insert s key m h = Some (st, new, c, h') \<Longrightarrow> hset_step (h, s, m) (h', c)"
| ss_extend: "tda_hset_extend s ks (mkey (smap s)) m h = Some (st, c, h') \<Longrightarrow> hset_step (h, s, m) (h', c)"
| ss_reserve: "tda_hset_reserve s cap m h = Some (st, c, h') \<Longrightarrow> hset_step (h, s, m) (h', c)"
| ss_shrink: "tda_hset_shrink_to_fit s m h = Some (st, c, h') \<Longrightarrow> hset_step (h, s, m) (h', c)"
| ss_take: "tda_hset_take s key m h = Some (r, c, h') \<Longrightarrow> hset_step (h, s, m) (h', c)"
| ss_remove_node: "p \<in> hmap_set (smap s, m) \<Longrightarrow> tda_hset_remove_node s p m h = Some (c, h') \<Longrightarrow> hset_step (h, s, m) (h', c)"
| ss_retain: "tda_hset_retain P s m h = Some (c, h') \<Longrightarrow> hset_step (h, s, m) (h', c)"
| ss_clear: "tda_hset_clear s m h = Some (c, h') \<Longrightarrow> hset_step (h, s, m) (h', c)"
| ss_union: "sets_at m h s b \<Longrightarrow> tda_hset_union False True s b m h = Some (st, c, h') \<Longrightarrow> hset_step (h, s, m) (h', c)"
| ss_symmetric: "sets_at m h s b \<Longrightarrow> tda_hset_symmetric_difference False True s b m h = Some (st, c, h') \<Longrightarrow> hset_step (h, s, m) (h', c)"
| ss_intersection: "sets_at m h s b \<Longrightarrow> tda_hset_intersection False True s b m h = Some (c, h') \<Longrightarrow> hset_step (h, s, m) (h', c)"
| ss_difference: "sets_at m h s b \<Longrightarrow> tda_hset_difference False True s b m h = Some (c, h') \<Longrightarrow> hset_step (h, s, m) (h', c)"
| ss_copy_assign: "sets_at m h s b \<Longrightarrow> tda_hset_copy_assign False s b m h = Some (st, c, h') \<Longrightarrow> hset_step (h, s, m) (h', c)"
| ss_remove: "tda_hset_remove s key m h = Some (found, c, h') \<Longrightarrow> hset_step (h, s, m) (h', c)"

text \<open>Each of them leaves the nodes that are not the set's alone, and the account has its blocks.\<close>

lemma hset_view_rest [simp]: "snd (hval (hset_view c)) = hset_rest c"
  by (simp add: hset_view_def hset_rest_def)

lemma hset_stays:
  "r = Some (st, c', h') \<Longrightarrow> held_by hset_view h c \<Longrightarrow> call_does hset_view h c r fits (x, hset_rest c) \<Longrightarrow> call_stays hset_view h c c' h'"
  "q = Some (c', h') \<Longrightarrow> held_by hset_view h c \<Longrightarrow> call_drops hset_view h c q (x, hset_rest c) \<Longrightarrow> call_stays hset_view h c c' h'"
  by (blast intro: stays_does [where view = hset_view, OF _ hset_view_rest] stays_drops [where view = hset_view, OF _ hset_view_rest])+

lemma set_walked_stays: "set_walked m h a b (Some (st, c, h')) G \<Longrightarrow> call_stays hset_view h (a, m) c h'"
  unfolding set_walked_def by (elim exE conjE) (auto intro!: stays_keeps)

lemma hset_step_stays:
  assumes "hset_step s u"
  shows "held_by hset_view (fst s) (snd s) \<Longrightarrow> call_stays hset_view (fst s) (snd s) (snd u) (fst u)"
  using assms
proof (induction rule: hset_step.induct)
  case (ss_insert s key m h st new c h')
  then show ?case using hset_insert_ok [of h s m key] by (auto intro: hset_stays(1) [OF refl])
next
  case (ss_extend s ks m h st c h')
  then show ?case using hset_extend_ok [of h s m ks] by (auto intro!: stays_keeps)
next
  case (ss_take s key m h r c h')
  then show ?case using hset_take_ok [of h s m key] by (auto intro: hset_stays(2) [OF refl])
next
  case (ss_remove s key m h found c h')
  then show ?case using hset_take_ok [of h s m key] by (auto intro: hset_stays(2) [OF refl])
next
  case (ss_union m h s b st c h')
  then show ?case using hset_union_ok(1) [OF ss_union(1)] by (auto intro: set_walked_stays)
next
  case (ss_symmetric m h s b st c h')
  then show ?case using hset_union_ok(2) [OF ss_symmetric(1)] by (auto intro: set_walked_stays)
next
  case (ss_intersection m h s b c h')
  then show ?case using hset_intersection_ok [OF ss_intersection(1)] by (auto intro: hset_stays(2) [OF refl])
next
  case (ss_difference m h s b c h')
  then show ?case using hset_difference_ok [OF ss_difference(1)] by (auto intro: hset_stays(2) [OF refl])
next
  case (ss_copy_assign m h s b st c h')
  then show ?case using hset_copy_assign_ok [OF ss_copy_assign(1)]
    by (auto simp: call_stays_def hset_view_def hset_rest_def split: if_splits)
qed (unfold fst_conv snd_conv, (erule (1) hset_stays, rule hset_reserve_ok hset_remove_node_ok hset_retain_ok hset_clear_ok; assumption)+)

abbreviation hset_end :: "'k sobj \<Rightarrow> heap \<Rightarrow> ('k sobj \<times> heap) option" where
  "hset_end c h \<equiv> tda_hset_deinit (fst c) (snd c) h"

section \<open>The properties\<close>

text \<open>
  C31: on a set whose map is held, find and contains answer for the key, insert and extend put
  keys in that are not there yet, take and remove take the one equal key out, remove_node the
  node's, retain those that fail the test, clear all; reserve and shrink_to_fit change no key. A
  refused call changes no key, and every node that is not the set's is left as it was.
\<close>

theorem hset_operations:
  assumes held: "held_by hset_view h (s, m)"
  shows "(\<forall>key. \<exists>p. tda_hset_find s m key = Some p \<and> tda_hset_contains s m key = Some (p \<noteq> 0) \<and>
      (p \<noteq> 0 \<longleftrightarrow> in_keys (heq (smap s)) key (hset_keys (s, m))) \<and>
      (p \<noteq> 0 \<longrightarrow> heq (smap s) (ekey m p) key \<and> tda_hset_node_key s m p = Some (ekey m p))) \<and>
    (\<forall>key. \<exists>st new c h'. tda_hset_insert s key m h = Some (st, new, c, h') \<and>
      call_does hset_view h (s, m) (Some (st, c, h')) (16 * (size (hset_keys (s, m)) + 1) \<le> SIZE_MAX)
        (key_in (heq (smap s)) key (hset_keys (s, m)), hset_rest (s, m)) \<and>
      (st = TDA_STATUS_OK \<longrightarrow> new = Some (\<not> in_keys (heq (smap s)) key (hset_keys (s, m))))) \<and>
    (\<forall>ks. \<exists>st c h' n. tda_hset_extend s ks (mkey (smap s)) m h = Some (st, c, h') \<and> call_keeps hset_view h (s, m) c h' \<and>
      n \<le> length ks \<and> hset_keys c = fold (key_in (heq (smap s))) (take n ks) (hset_keys (s, m)) \<and> hset_rest c = hset_rest (s, m) \<and>
      (if st = TDA_STATUS_OK then n = length ks
       else \<not> (generous h (mal (smap s)) \<and> 16 * (size (hset_keys (s, m)) + length ks) \<le> SIZE_MAX))) \<and>
    (\<forall>key. \<exists>r c h'. tda_hset_take s key m h = Some (r, c, h') \<and>
      tda_hset_remove s key m h = Some (in_keys (heq (smap s)) key (hset_keys (s, m)), c, h') \<and>
      call_drops hset_view h (s, m) (Some (c, h')) (key_out (heq (smap s)) key (hset_keys (s, m)), hset_rest (s, m)) \<and>
      (case r of None \<Rightarrow> \<not> in_keys (heq (smap s)) key (hset_keys (s, m)) | Some k \<Rightarrow> heq (smap s) k key \<and> k \<in># hset_keys (s, m))) \<and>
    (\<forall>p. p \<in> hmap_set (smap s, m) \<longrightarrow>
      call_drops hset_view h (s, m) (tda_hset_remove_node s p m h) (hset_keys (s, m) - {#ekey m p#}, hset_rest (s, m))) \<and>
    (\<forall>P. call_drops hset_view h (s, m) (tda_hset_retain P s m h) (filter_mset P (hset_keys (s, m)), hset_rest (s, m))) \<and>
    call_drops hset_view h (s, m) (tda_hset_clear s m h) ({#}, hset_rest (s, m)) \<and>
    (\<forall>cap. call_does hset_view h (s, m) (tda_hset_reserve s cap m h) (16 * cap \<le> SIZE_MAX) (hset_keys (s, m), hset_rest (s, m))) \<and>
    call_does hset_view h (s, m) (tda_hset_shrink_to_fit s m h) True (hset_keys (s, m), hset_rest (s, m))"
  by (intro conjI allI impI; rule hset_find_ok [OF held] hset_insert_ok [OF held] hset_extend_ok [OF held] hset_take_ok [OF held]
      hset_remove_node_ok [OF held] hset_retain_ok [OF held] hset_clear_ok [OF held] hset_reserve_ok [OF held]; assumption?)

text \<open>A new set of words, and another on a second allocator.\<close>

definition new_set :: "al \<Rightarrow> 64 word hset" where
  "new_set al = \<lparr>smap = \<lparr>mbuckets = [], mcount = 0, mlen = 0, mkey = \<lparr>lsize = 8, lalign = 8\<rparr>, mval = \<lparr>lsize = 0, lalign = 1\<rparr>,
     mkoff = 16, mvoff = 24, mnode = \<lparr>lsize = 24, lalign = 8\<rparr>, mhasher = Some id, meq = Some (=), mal = al\<rparr>\<rparr>"

definition no_keys :: "(64 word, unit) entries" where
  "no_keys = \<lparr>places = {}, pick = next_place, enx = (\<lambda>_. 0), ehash = (\<lambda>_. 0), ekey = (\<lambda>_. 0), evl = (\<lambda>_. None)\<rparr>"

lemma new_set_held:
  assumes "al \<noteq> 0"
  shows "held_by hset_view h (new_set al, no_keys)" "hset_keys (new_set al, no_keys) = {#}" "hmap_set (smap (new_set al), no_keys) = {}"
proof -
  have "hasher ((=) :: 64 word \<Rightarrow> _) id" by (simp add: hasher_def identity_equivp)
  moreover have "hmap_layouts \<lparr>lsize = 8, lalign = 8\<rparr> \<lparr>lsize = 0, lalign = 1\<rparr> = Some (Some (\<lparr>lsize = 24, lalign = 8\<rparr>, 16, 24))"
    by (simp add: hmap_layouts_def ckd_extend_eq ckd_pad_eq HMapNode_layout_def round_up_def SIZE_MAX_def wadd_def)
  ultimately have k: "hmap_kind_ok (smap (new_set al))"
    using assms by (simp add: hmap_kind_ok_def new_set_def tda_layout_is_type_def)
  have at: "hmap_at no_keys (smap (new_set al)) []" using hmap_empty_at [OF k] by (simp add: new_set_def)
  have ok: "store_ok no_keys" by (simp add: store_ok_def no_keys_def next_place_fresh)
  show "held_by hset_view h (new_set al, no_keys)"
    unfolding held_by_hset using held_by_hmap [OF at ok] by (simp add: hmap_blocks_def new_set_def)
  show "hset_keys (new_set al, no_keys) = {#}" "hmap_set (smap (new_set al), no_keys) = {}"
    using hmap_at_chains [OF at ok] by (simp_all add: hset_keys_def hmap_entries_def hmap_set_def)
qed

theorem hset_operations_witness:
  "\<exists>c h'. tda_hset_insert (new_set 1) 5 no_keys ready = Some (TDA_STATUS_OK, Some True, c, h') \<and> hset_keys c = {#5#}"
proof -
  have one: "(1 :: al) \<noteq> 0" by simp
  note all = hset_operations [OF new_set_held(1) [OF one, of ready], THEN conjunct2, THEN conjunct1, rule_format]
  have no: "\<not> in_keys (heq (smap (new_set 1))) 5 (hset_keys (new_set 1, no_keys))" by (simp add: new_set_held(2) in_keys_def)
  obtain st new c h' where r: "tda_hset_insert (new_set 1) 5 no_keys ready = Some (st, new, c, h')"
    "call_does hset_view ready (new_set 1, no_keys) (Some (st, c, h')) (16 * (size (hset_keys (new_set 1, no_keys)) + 1) \<le> SIZE_MAX)
      (key_in (heq (smap (new_set 1))) 5 (hset_keys (new_set 1, no_keys)), hset_rest (new_set 1, no_keys))"
    "st = TDA_STATUS_OK \<longrightarrow> new = Some (\<not> in_keys (heq (smap (new_set 1))) 5 (hset_keys (new_set 1, no_keys)))"
    using all by blast
  have "generous ready (hal (hset_view (new_set 1, no_keys)))" by (simp add: generous_def)
  then have st: "st = TDA_STATUS_OK" using r(2) by (auto simp: call_does_def call_grows_def new_set_held(2) SIZE_MAX_def)
  then have "hset_keys c = key_in (heq (smap (new_set 1))) 5 (hset_keys (new_set 1, no_keys))"
    using r(2) by (simp add: call_does_def hset_view_def hset_keys_def)
  then show ?thesis using r(1,3) st no by (simp add: key_in_def new_set_held(2))
qed

text \<open>
  C32: with two sets in one memory under one equality: union puts in the keys of the other that
  are not there, symmetric_difference those and takes out the ones in both, or does so for the
  keys of the other it got to before a refusal; intersection keeps the keys that are in the other
  and difference those that are not, whichever of the two it walks; is_subset, eq and intersects
  answer for the keys. Nothing but the first set changes.
\<close>

theorem hset_algebra:
  assumes S: "sets_at m h a b"
  shows "set_walked m h a b (tda_hset_union False True a b m h) (\<lambda>L. hset_keys (a, m) + keys_minus (heq (smap a)) L (hset_keys (a, m))) \<and>
    set_walked m h a b (tda_hset_symmetric_difference False True a b m h)
      (\<lambda>L. keys_minus (heq (smap a)) (hset_keys (a, m)) L + keys_minus (heq (smap a)) L (hset_keys (a, m))) \<and>
    call_drops hset_view h (a, m) (tda_hset_intersection False True a b m h)
      (keys_both (heq (smap a)) (hset_keys (a, m)) (hset_keys (b, m)), hset_rest (a, m)) \<and>
    call_drops hset_view h (a, m) (tda_hset_difference False True a b m h)
      (keys_minus (heq (smap a)) (hset_keys (a, m)) (hset_keys (b, m)), hset_rest (a, m)) \<and>
    tda_hset_is_subset False True a b m = Some (\<forall>k \<in># hset_keys (a, m). in_keys (heq (smap a)) k (hset_keys (b, m))) \<and>
    tda_hset_eq False True a b m = Some (size (hset_keys (a, m)) = size (hset_keys (b, m)) \<and>
      (\<forall>k \<in># hset_keys (a, m). in_keys (heq (smap a)) k (hset_keys (b, m)))) \<and>
    tda_hset_intersects True a b m = Some (\<exists>k \<in># hset_keys (a, m). in_keys (heq (smap a)) k (hset_keys (b, m)))"
  by (intro conjI; rule hset_union_ok [OF S] hset_intersection_ok [OF S] hset_difference_ok [OF S] hset_compare_ok [OF S])

theorem hset_algebra_witness: "tda_hset_intersects True (new_set 2) (new_set 3) no_keys = Some False"
proof -
  have al: "(2 :: al) \<noteq> 0" "(3 :: al) \<noteq> 0" by simp_all
  have "sets_at no_keys ready (new_set 2) (new_set 3)"
    using new_set_held(1,3) [OF al(1)] new_set_held(1,3) [OF al(2)] unfolding held_by_hset
    by (simp add: sets_at_def maps_at_def) (simp add: new_set_def)
  from hset_algebra [OF this] show ?thesis by (simp add: new_set_held(2) [OF al(1)])
qed

end
