(* ===== verification/DebugProps.thy ===== *)
theory DebugProps
  imports Debug
begin

text \<open>
  What the debug allocator keeps and what it reports: correct use is never reported and is served as by
  the parent, and a block given back twice, with another layout, or written past its end, and a write
  to a block that waits in the quarantine, stop the program.
\<close>

section \<open>Fills\<close>

lemma all_equal_from_iff: "all_equal_from m ptr fill i k \<longleftrightarrow> (\<forall>j < k. m (ptr + i + j) = fill)"
proof (induction k arbitrary: i)
  case (Suc k)
  then show ?case by (auto simp: less_Suc_eq_0_disj)
qed simp

lemma all_equal_iff: "all_equal m ptr n fill \<longleftrightarrow> bytes m ptr n = replicate n fill"
  by (simp add: all_equal_def all_equal_from_iff list_eq_iff_nth_eq)

section \<open>The quarantine\<close>

definition ring :: "'p debug \<Rightarrow> freed_block list" where
  "ring self = map (\<lambda>i. db_quarantine self ! turn QUARANTINE_LEN (db_head self) i) [0..<db_held self]"

definition ring_ok :: "'p debug \<Rightarrow> bool" where
  "ring_ok self \<longleftrightarrow> length (db_quarantine self) = QUARANTINE_LEN \<and> db_head self < QUARANTINE_LEN \<and> db_held self \<le> QUARANTINE_LEN"

lemma quarantined_eq:
  "ring_ok self \<Longrightarrow> i < db_held self \<Longrightarrow> quarantined self i = Some (turn QUARANTINE_LEN (db_head self) i)"
  by (simp add: quarantined_def ring_ok_def turn_def QUARANTINE_LEN_def SIZE_MAX_def)

lemma ring_nth:
  "i < db_held self \<Longrightarrow> ring self ! i = db_quarantine self ! turn QUARANTINE_LEN (db_head self) i"
  "length (ring self) = db_held self"
  by (simp_all add: ring_def)

lemma quarantine_find_eq:
  assumes "ring_ok self"
  shows "quarantine_find self ptr = Some (find (\<lambda>f. fr_ptr f = ptr) (ring self))"
proof -
  have "quarantine_find_loop self ptr is =
      Some (find (\<lambda>f. fr_ptr f = ptr) (map (\<lambda>i. db_quarantine self ! turn QUARANTINE_LEN (db_head self) i) is))"
    if "set is \<subseteq> {..<db_held self}" for "is"
    using that
  proof (induction "is")
    case (Cons i "is")
    then show ?case using quarantined_eq [OF assms, of i] by (simp add: Let_def)
  qed simp
  from this [of "[0..<db_held self]"] show ?thesis by (simp add: quarantine_find_def ring_def lessThan_atLeast0)
qed

lemma ring_drop:
  assumes "ring_ok self" "ring self = f # Q"
  shows "ring_ok (self\<lparr>db_head := wadd (db_head self) 1 mod QUARANTINE_LEN, db_held := db_held self - 1\<rparr>)"
    "ring (self\<lparr>db_head := wadd (db_head self) 1 mod QUARANTINE_LEN, db_held := db_held self - 1\<rparr>) = Q"
    "0 < db_held self" "db_quarantine self ! turn QUARANTINE_LEN (db_head self) 0 = f"
proof -
  have n: "db_held self = Suc (length Q)" using assms(2) ring_nth(2) [of self] by simp
  then show "0 < db_held self" by simp
  have h: "wadd (db_head self) 1 mod QUARANTINE_LEN = turn QUARANTINE_LEN (db_head self) 1"
    using assms(1) by (simp add: ring_ok_def turn_def QUARANTINE_LEN_def SIZE_MAX_def)
  show "ring_ok (self\<lparr>db_head := wadd (db_head self) 1 mod QUARANTINE_LEN, db_held := db_held self - 1\<rparr>)"
    using assms(1) by (auto simp: ring_ok_def QUARANTINE_LEN_def)
  show "db_quarantine self ! turn QUARANTINE_LEN (db_head self) 0 = f"
    using ring_nth(1) [of 0 self] n assms(2) by simp
  have "Q ! i = db_quarantine self ! turn QUARANTINE_LEN (db_head self) (Suc i)" if "i < length Q" for i
    using ring_nth(1) [of "Suc i" self] n assms(2) that by simp
  then show "ring (self\<lparr>db_head := wadd (db_head self) 1 mod QUARANTINE_LEN, db_held := db_held self - 1\<rparr>) = Q"
    unfolding h ring_def using n turn_turn [of QUARANTINE_LEN "db_head self" 1, unfolded plus_1_eq_Suc]
    by (intro nth_equalityI) (simp_all del: One_nat_def)
qed

lemma ring_add:
  assumes "ring_ok self" "db_held self < QUARANTINE_LEN"
  defines "i \<equiv> turn QUARANTINE_LEN (db_head self) (db_held self)"
  shows "ring_ok (self\<lparr>db_held := wadd (db_held self) 1, db_quarantine := (db_quarantine self)[i := f]\<rparr>)"
    "ring (self\<lparr>db_held := wadd (db_held self) 1, db_quarantine := (db_quarantine self)[i := f]\<rparr>) = ring self @ [f]"
    "quarantined (self\<lparr>db_held := wadd (db_held self) 1\<rparr>) (wsub (wadd (db_held self) 1) 1) = Some i"
proof -
  have w: "wadd (db_held self) 1 = Suc (db_held self)" "wsub (Suc (db_held self)) 1 = db_held self"
    using assms(2) by (simp_all add: QUARANTINE_LEN_def SIZE_MAX_def wsub_small)
  have h: "db_head self < QUARANTINE_LEN" "length (db_quarantine self) = QUARANTINE_LEN" using assms(1) by (simp_all add: ring_ok_def)
  show ok: "ring_ok (self\<lparr>db_held := wadd (db_held self) 1, db_quarantine := (db_quarantine self)[i := f]\<rparr>)"
    using assms(1,2) w by (simp add: ring_ok_def)
  have iL: "i < QUARANTINE_LEN" unfolding i_def by (rule turn_lt) (simp add: QUARANTINE_LEN_def)
  have ne: "(db_quarantine self)[i := f] ! turn QUARANTINE_LEN (db_head self) k =
      db_quarantine self ! turn QUARANTINE_LEN (db_head self) k" if "k < db_held self" for k
    using turn_inj [OF h(1), of k "db_held self"] that assms(2) unfolding i_def by (metis less_trans nat_neq_iff nth_list_update_neq)
  show "ring (self\<lparr>db_held := wadd (db_held self) 1, db_quarantine := (db_quarantine self)[i := f]\<rparr>) = ring self @ [f]"
    using ne iL h(2) unfolding w ring_def by (simp add: i_def [symmetric])
  show "quarantined (self\<lparr>db_held := wadd (db_held self) 1\<rparr>) (wsub (wadd (db_held self) 1) 1) = Some i"
    unfolding w using h(1) assms(2)
    by (simp add: quarantined_def i_def turn_def QUARANTINE_LEN_def SIZE_MAX_def)
qed

section \<open>The invariant\<close>

definition with_guard :: "layout \<Rightarrow> layout" where
  "with_guard l = l\<lparr>lsize := lsize l + GUARD_SIZE\<rparr>"

definition guarded :: "block set \<Rightarrow> block set" where
  "guarded L = (\<lambda>b. (fst b, with_guard (snd b))) ` L"

definition freed_of :: "freed_block list \<Rightarrow> block set" where
  "freed_of Q = (\<lambda>f. (fr_ptr f, with_guard (fr_layout f))) ` set Q"

text \<open>
  \<open>L\<close> is what is out, \<open>Q\<close> the quarantine from the oldest, \<open>K\<close> what other clients of the parent have, \<open>D\<close> what
  other clients of the default allocator have. The
  guards and the fills are apart from this, since a client can break them.
\<close>

definition debug_shape ::
  "'p vtable \<Rightarrow> ('p world \<Rightarrow> block set \<Rightarrow> bool) \<Rightarrow> addr set \<Rightarrow> nat \<Rightarrow> layout multiset \<Rightarrow> block set \<Rightarrow> 'p debug_world \<Rightarrow> block set \<Rightarrow>
   freed_block list \<Rightarrow> bool" where
  "debug_shape pvt pok pown pmax D K w L Q \<longleftrightarrow> (let (m, self, h, p) = w in
     db_parent self = Some pvt \<and> table_ok (db_table self) \<and>
     lives h tda_al_default = D + table_blocks (db_table self) \<and>
     (\<forall>x l. (x, l) \<in> L \<longleftrightarrow> (\<exists>r. table_map (db_table self) x = Some r \<and> br_layout r = l)) \<and>
     ring_ok self \<and> ring self = Q \<and> distinct (map fr_ptr Q) \<and> fr_ptr ` set Q \<inter> fst ` L = {} \<and>
     pok (m, p) (K \<union> guarded L \<union> freed_of Q) \<and> (guarded L \<union> freed_of Q) \<inter> K = {} \<and>
     wf_blocks (pown - blocks K) pmax L \<and>
     db_live self = (\<Sum>b \<in> L. lsize (snd b)) \<and> db_live self \<le> db_peak self)"

definition settings :: "'p debug \<Rightarrow> nat \<times> nat \<times> nat" where
  "settings self = (db_requests self, db_fail_after self, db_break_at self)"

definition intact :: "mem \<Rightarrow> block set \<Rightarrow> bool" where
  "intact m L \<longleftrightarrow> (\<forall>(x, l) \<in> L. bytes m (x + lsize l) GUARD_SIZE = replicate GUARD_SIZE FILL_GUARD)"

definition filled :: "mem \<Rightarrow> freed_block list \<Rightarrow> bool" where
  "filled m Q \<longleftrightarrow> (\<forall>f \<in> set Q. bytes m (fr_ptr f) (lsize (fr_layout f) + GUARD_SIZE) =
     replicate (lsize (fr_layout f) + GUARD_SIZE) FILL_FREED)"

lemma debug_shapeD:
  assumes "debug_shape pvt pok pown pmax D K (m, self, h, p) L Q"
  shows "db_parent self = Some pvt" "table_ok (db_table self)" "lives h tda_al_default = D + table_blocks (db_table self)"
    "(x, l) \<in> L \<longleftrightarrow> (\<exists>r. table_map (db_table self) x = Some r \<and> br_layout r = l)" "ring_ok self" "ring self = Q"
    "distinct (map fr_ptr Q)" "fr_ptr ` set Q \<inter> fst ` L = {}" "pok (m, p) (K \<union> guarded L \<union> freed_of Q)"
    "(guarded L \<union> freed_of Q) \<inter> K = {}" "wf_blocks (pown - blocks K) pmax L" "db_live self = (\<Sum>b \<in> L. lsize (snd b))"
    "db_live self \<le> db_peak self"
  using assms unfolding debug_shape_def by simp_all

lemma debug_shapeI:
  assumes "db_parent self = Some pvt" "table_ok (db_table self)" "lives h tda_al_default = D + table_blocks (db_table self)"
    "\<And>x l. (x, l) \<in> L \<longleftrightarrow> (\<exists>r. table_map (db_table self) x = Some r \<and> br_layout r = l)" "ring_ok self" "ring self = Q"
    "distinct (map fr_ptr Q)" "fr_ptr ` set Q \<inter> fst ` L = {}" "pok (m, p) (K \<union> guarded L \<union> freed_of Q)"
    "(guarded L \<union> freed_of Q) \<inter> K = {}" "wf_blocks (pown - blocks K) pmax L" "db_live self = (\<Sum>b \<in> L. lsize (snd b))"
    "db_live self \<le> db_peak self"
  shows "debug_shape pvt pok pown pmax D K (m, self, h, p) L Q"
  using assms unfolding debug_shape_def by simp

lemma with_guard_sels [simp]: "lsize (with_guard l) = lsize l + GUARD_SIZE" "lalign (with_guard l) = lalign l"
  by (simp_all add: with_guard_def)

lemma parent_layout_eq: "lsize l + GUARD_SIZE \<le> SIZE_MAX \<Longrightarrow> parent_layout l = Some (with_guard l)"
  by (cases l) (simp add: parent_layout_def ckd_parent_layout_def ckd_add_def with_guard_def)

lemma ckd_parent_layout_eq:
  "ckd_parent_layout l = (if lsize l + GUARD_SIZE \<le> SIZE_MAX then Some (with_guard l) else None)"
  by (cases l) (simp add: ckd_parent_layout_def ckd_add_def with_guard_def)

lemma guarded_insert [simp]: "guarded (insert (x, l) L) = insert (x, with_guard l) (guarded L)"
  by (simp add: guarded_def)

lemma freed_of_Cons [simp]: "freed_of (f # Q) = insert (fr_ptr f, with_guard (fr_layout f)) (freed_of Q)"
  by (simp add: freed_of_def)

lemma freed_of_append [simp]: "freed_of (Q @ [f]) = insert (fr_ptr f, with_guard (fr_layout f)) (freed_of Q)"
  by (auto simp: freed_of_def)

lemma guarded_remove:
  assumes "wf_blocks own amax L" "(x, l) \<in> L"
  shows "guarded (L - {(x, l)}) = guarded L - {(x, with_guard l)}"
proof -
  have "y \<noteq> x" if "(y, k) \<in> L" "(y, k) \<noteq> (x, l)" for y k
    using wf_blocks_same_addr [OF assms, of k] that by auto
  then show ?thesis by (force simp: guarded_def)
qed

text \<open>What a push needs: room, or that nobody wrote into the oldest block.\<close>

definition can_push :: "mem \<Rightarrow> freed_block list \<Rightarrow> bool" where
  "can_push m Q \<longleftrightarrow> length Q < QUARANTINE_LEN \<or> filled m [hd Q]"

lemma filled_Cons: "filled m (f # Q) \<longleftrightarrow> filled m [f] \<and> filled m Q"
  by (auto simp: filled_def)

text \<open>
  What a refusal can come from: the limit, a size that leaves no room for the guard, the parent, or the
  default allocator when the table must grow.
\<close>

definition refusable :: "'p vtable \<Rightarrow> layout \<Rightarrow> 'p debug_world \<Rightarrow> bool" where
  "refusable pvt l w \<longleftrightarrow> (let (m, self, h, p) = w in
     db_fail_after self \<le> db_requests self \<or> SIZE_MAX < lsize l + GUARD_SIZE \<or>
     (\<exists>w'. tda_alloc pvt (with_guard l) (m, p) = Some (0, w')) \<or> \<not> generous h tda_al_default \<or>
     SIZE_MAX < 64 * bt_cap (db_table self))"

text \<open>The sizes of what is out add up within a \<open>size_t\<close>, and the table counts it.\<close>

lemma wf_sizes:
  assumes "wf_blocks own amax L" "finite L"
  shows "(\<Sum>b \<in> L. lsize (snd b)) \<le> SIZE_MAX"
proof -
  have "(\<Sum>b \<in> L. lsize (snd b)) = (\<Sum>b \<in> L. card (block_region b))"
    by (intro sum.cong) (simp_all add: block_region_def region_def)
  also have "\<dots> = card (blocks L)"
    unfolding blocks_def using assms
    by (intro card_UN_disjoint [symmetric]) (auto simp: wf_blocks_def block_region_def region_def)
  also have "blocks L \<subseteq> {..<SIZE_MAX}" using assms(1) by (force simp: blocks_def block_region_def region_def wf_blocks_def)
  then have "card (blocks L) \<le> card {..<SIZE_MAX}" by (intro card_mono) simp_all
  finally show ?thesis by simp
qed

lemma shape_records:
  assumes "debug_shape pvt pok pown pmax D K (m, self, h, p) L Q"
  shows "L = (\<lambda>r. (br_addr r, br_layout r)) ` set (recs (db_table self))" "finite L" "card L = bt_len (db_table self)"
proof -
  note S = debug_shapeD [OF assms]
  have sh: "shaped (db_table self)" and n: "bt_len (db_table self) = length (recs (db_table self))"
    using S(2) by (simp_all add: table_ok_def)
  show img: "L = (\<lambda>r. (br_addr r, br_layout r)) ` set (recs (db_table self))"
    using S(4) by (auto simp: table_map_Some [OF sh])
  then show "finite L" by simp
  have "distinct (map br_addr (recs (db_table self)))" using sh by (simp add: shaped_def)
  then have "inj_on (\<lambda>r. (br_addr r, br_layout r)) (set (recs (db_table self)))" "distinct (recs (db_table self))"
    by (auto simp: distinct_map inj_on_def)
  then show "card L = bt_len (db_table self)" by (simp add: img n card_image distinct_card)
qed

lemma shape_live:
  assumes "debug_shape pvt pok pown pmax D K (m, self, h, p) L Q"
  shows "db_live self \<le> SIZE_MAX" "(x, l) \<in> L \<Longrightarrow> lsize l \<le> db_live self"
proof -
  note S = debug_shapeD [OF assms]
  note fin = shape_records(2) [OF assms]
  show "db_live self \<le> SIZE_MAX" unfolding S(12) by (rule wf_sizes [OF S(11) fin])
  show "(x, l) \<in> L \<Longrightarrow> lsize l \<le> db_live self" unfolding S(12) using member_le_sum [of "(x, l)" L "\<lambda>b. lsize (snd b)"] fin by simp
qed

text \<open>The guards and the fills lie in the parent's blocks.\<close>

lemma intact_agree:
  assumes "intact m L" "agree m m' (blocks (guarded L))"
  shows "intact m' L"
proof -
  have "bytes m' (x + lsize l) GUARD_SIZE = bytes m (x + lsize l) GUARD_SIZE" if "(x, l) \<in> L" for x l
  proof (rule bytes_agree, rule agree_subset [OF assms(2)])
    have "(x, with_guard l) \<in> guarded L" using that by (force simp: guarded_def)
    from block_in_blocks [OF this] show "region (x + lsize l) GUARD_SIZE \<subseteq> blocks (guarded L)" by (auto simp: region_def)
  qed
  then show ?thesis using assms(1) by (auto simp: intact_def)
qed

lemma filled_agree:
  assumes "filled m Q" "agree m m' (blocks (freed_of Q))"
  shows "filled m' Q"
proof -
  have "bytes m' (fr_ptr f) (lsize (fr_layout f) + GUARD_SIZE) = bytes m (fr_ptr f) (lsize (fr_layout f) + GUARD_SIZE)" if "f \<in> set Q" for f
  proof (rule bytes_agree, rule agree_subset [OF assms(2)])
    have "(fr_ptr f, with_guard (fr_layout f)) \<in> freed_of Q" using that by (simp add: freed_of_def)
    from block_in_blocks [OF this] show "region (fr_ptr f) (lsize (fr_layout f) + GUARD_SIZE) \<subseteq> blocks (freed_of Q)" by simp
  qed
  then show ?thesis using assms(1) by (auto simp: filled_def)
qed

context allocator begin

lemma shape_places:
  assumes sh: "debug_shape vt ok own amax D K (m, self, h, p) L Q"
  shows "f \<in> set Q \<Longrightarrow> lsize (fr_layout f) + GUARD_SIZE \<le> SIZE_MAX \<and> fr_ptr f \<noteq> 0 \<and> request amax (with_guard (fr_layout f)) \<and>
      region (fr_ptr f) (lsize (fr_layout f) + GUARD_SIZE) \<subseteq> blocks (freed_of Q)"
    "(x, l) \<in> L \<Longrightarrow> lsize l + GUARD_SIZE \<le> SIZE_MAX \<and> x \<noteq> 0 \<and> request amax (with_guard l) \<and>
      region x (lsize l + GUARD_SIZE) \<subseteq> blocks (guarded L)"
    "blocks L \<subseteq> blocks (guarded L)"
proof -
  note S = debug_shapeD [OF sh]
  note wf = ok_wf [OF S(9)]
  show "lsize (fr_layout f) + GUARD_SIZE \<le> SIZE_MAX \<and> fr_ptr f \<noteq> 0 \<and> request amax (with_guard (fr_layout f)) \<and>
      region (fr_ptr f) (lsize (fr_layout f) + GUARD_SIZE) \<subseteq> blocks (freed_of Q)" if "f \<in> set Q"
  proof -
    have in_q: "(fr_ptr f, with_guard (fr_layout f)) \<in> freed_of Q" using that by (simp add: freed_of_def)
    from wf_blockD [OF wf, of "fr_ptr f" "with_guard (fr_layout f)"] block_in_blocks [OF in_q] in_q
    show ?thesis by (auto dest: requestD(2))
  qed
  have L: "lsize l + GUARD_SIZE \<le> SIZE_MAX \<and> x \<noteq> 0 \<and> request amax (with_guard l) \<and>
      region x (lsize l + GUARD_SIZE) \<subseteq> blocks (guarded L)" if "(x, l) \<in> L" for x l
  proof -
    have in_l: "(x, with_guard l) \<in> guarded L" using that by (force simp: guarded_def)
    from wf_blockD [OF wf, of x "with_guard l"] block_in_blocks [OF in_l] in_l
    show ?thesis by (auto dest: requestD(2))
  qed
  then show "(x, l) \<in> L \<Longrightarrow> lsize l + GUARD_SIZE \<le> SIZE_MAX \<and> x \<noteq> 0 \<and> request amax (with_guard l) \<and>
      region x (lsize l + GUARD_SIZE) \<subseteq> blocks (guarded L)" .
  have "region x (lsize l) \<subseteq> blocks (guarded L)" if "(x, l) \<in> L" for x l
    using L [OF that] region_mono [of "lsize l" "lsize l + GUARD_SIZE" x] by auto
  then show "blocks L \<subseteq> blocks (guarded L)" unfolding blocks_def [of L] block_region_def by force
qed

text \<open>The blocks the parent has given are apart.\<close>

lemma shape_apart:
  assumes sh: "debug_shape vt ok own amax D K (m, self, h, p) L Q"
  shows "blocks K \<inter> blocks (guarded L) = {}" "blocks K \<inter> blocks (freed_of Q) = {}" "blocks (guarded L) \<inter> blocks (freed_of Q) = {}"
proof -
  note S = debug_shapeD [OF sh]
  note wf = ok_wf [OF S(9)]
  have apart: "block_region b \<inter> block_region c = {}"
    if "b \<in> K \<union> guarded L \<union> freed_of Q" "c \<in> K \<union> guarded L \<union> freed_of Q" "b \<noteq> c" for b c
    using wf that unfolding wf_blocks_def by blast
  have "b \<noteq> c" if "b \<in> guarded L" "c \<in> freed_of Q" for b c
    using S(8) that by (auto simp: guarded_def freed_of_def)
  then show "blocks (guarded L) \<inter> blocks (freed_of Q) = {}" using apart unfolding blocks_def by blast
  show "blocks K \<inter> blocks (guarded L) = {}" "blocks K \<inter> blocks (freed_of Q) = {}"
    using apart S(10) unfolding blocks_def by blast+
qed

lemma shape_world:
  assumes "debug_shape vt ok own amax D K (m, self, h, p) L Q" "ok (m', p') (K \<union> guarded L \<union> freed_of Q)"
  shows "debug_shape vt ok own amax D K (m', self, h, p') L Q"
  using assms by (simp add: debug_shape_def)

lemma shape_wider:
  assumes "wf_blocks (own - blocks (insert b K)) amax L"
  shows "wf_blocks (own - blocks K) amax L"
  using assms by (auto simp: wf_blocks_def)

lemma shape_new_addr:
  assumes "debug_shape vt ok own amax D (insert (x, l) K) (m, self, h, p) L Q"
  shows "x \<notin> fst ` L" "x \<notin> fr_ptr ` set Q" "x \<noteq> 0"
proof -
  note S = debug_shapeD [OF assms]
  note wf = ok_wf [OF S(9)]
  show "x \<noteq> 0" using wf_blockD(1) [OF wf, of x l] by simp
  have same: "k = l" if "(x, k) \<in> guarded L \<union> freed_of Q" for k
    using wf_blocks_same_addr [OF wf, of x k l] that by auto
  show "x \<notin> fst ` L"
  proof
    assume "x \<in> fst ` L"
    then obtain k where "(x, k) \<in> L" by auto
    then have "(x, with_guard k) \<in> guarded L" by (force simp: guarded_def)
    then show False using same S(10) by blast
  qed
  show "x \<notin> fr_ptr ` set Q"
  proof
    assume "x \<in> fr_ptr ` set Q"
    then obtain k where "(x, k) \<in> freed_of Q" by (auto simp: freed_of_def)
    then show False using same S(10) by blast
  qed
qed

text \<open>A block leaves the table: for the moment it is the parent's other client's.\<close>

lemma shape_take:
  assumes sh: "debug_shape vt ok own amax D K (m, self, h, p) L Q" and x: "(x, l) \<in> L"
    and tab: "table_ok tab" "table_map tab = (table_map (db_table self))(x := None)" "bt_cap tab = bt_cap (db_table self)"
  shows "debug_shape vt ok own amax D (insert (x, with_guard l) K)
      (m, self\<lparr>db_table := tab, db_live := wsub (db_live self) (lsize l)\<rparr>, h, p) (L - {(x, l)}) Q"
    "(x, with_guard l) \<notin> K"
proof -
  note S = debug_shapeD [OF sh]
  have in_g: "(x, with_guard l) \<in> guarded L" using x by (force simp: guarded_def)
  then show notK: "(x, with_guard l) \<notin> K" using S(10) by blast
  note g = guarded_remove [OF S(11) x]
  have all: "insert (x, with_guard l) K \<union> guarded (L - {(x, l)}) \<union> freed_of Q = K \<union> guarded L \<union> freed_of Q"
    using g in_g by blast
  have ne: "(x, with_guard l) \<notin> freed_of Q" using S(8) x by (force simp: freed_of_def)
  have apart: "block_region (x, with_guard l) \<inter> blocks (L - {(x, l)}) = {}"
  proof -
    have "blocks (L - {(x, l)}) \<subseteq> blocks (guarded (L - {(x, l)}))" by (auto simp: blocks_def guarded_def block_region_def)
    also have "\<dots> = blocks (guarded L - {(x, with_guard l)})" unfolding g ..
    also have "\<dots> \<subseteq> blocks (K \<union> guarded L \<union> freed_of Q - {(x, with_guard l)})" by (intro blocks_mono) blast
    finally show ?thesis using ok_disjoint [OF S(9), of "(x, with_guard l)"] in_g by blast
  qed
  have wf: "wf_blocks (own - blocks (insert (x, with_guard l) K)) amax (L - {(x, l)})"
  proof -
    have "block_region b \<inter> block_region (x, with_guard l) = {}" if "b \<in> L - {(x, l)}" for b
      using apart block_in_blocks [OF that] by blast
    then show ?thesis using S(11) unfolding wf_blocks_def by auto
  qed
  have sum: "wsub (db_live self) (lsize l) = (\<Sum>b \<in> L - {(x, l)}. lsize (snd b))"
    using wsub_small [OF shape_live(2) [OF sh x] shape_live(1) [OF sh]] S(12) sum.remove [OF shape_records(2) [OF sh] x, of "\<lambda>b. lsize (snd b)"]
    by simp
  have only: "k = l" if "(x, k) \<in> L" for k using wf_blocks_same_addr [OF S(11) that x] by simp
  have mem: "(y, k) \<in> L - {(x, l)} \<longleftrightarrow> (\<exists>r. table_map tab y = Some r \<and> br_layout r = k)" for y k
    using S(4) [of y k] tab(2) only by (cases "y = x") auto
  have apK: "(guarded (L - {(x, l)}) \<union> freed_of Q) \<inter> insert (x, with_guard l) K = {}" using S(10) ne g by blast
  have out: "fr_ptr ` set Q \<inter> fst ` (L - {(x, l)}) = {}" using S(8) by blast
  have own_tab: "table_blocks tab = table_blocks (db_table self)" using tab(3) by (simp add: table_blocks_def)
  show "debug_shape vt ok own amax D (insert (x, with_guard l) K)
      (m, self\<lparr>db_table := tab, db_live := wsub (db_live self) (lsize l)\<rparr>, h, p) (L - {(x, l)}) Q"
    using S(1,3,5,6,7,9,13) tab(1) mem wf sum apK out own_tab all wsub_small [OF shape_live(2) [OF sh x] shape_live(1) [OF sh]] by (intro debug_shapeI) (simp_all add: ring_ok_def ring_def)
qed

text \<open>It joins the quarantine.\<close>

lemma shape_push:
  assumes sh: "debug_shape vt ok own amax D (insert (x, with_guard l) K) (m, self, h, p) L Q" "(x, with_guard l) \<notin> K"
    and f: "fr_ptr f = x" "fr_layout f = l" and held: "db_held self < QUARANTINE_LEN"
  shows "debug_shape vt ok own amax D K (m, self\<lparr>db_held := wadd (db_held self) 1,
      db_quarantine := (db_quarantine self)[turn QUARANTINE_LEN (db_head self) (db_held self) := f]\<rparr>, h, p) L (Q @ [f])"
proof -
  note S = debug_shapeD [OF sh(1)]
  note new = shape_new_addr [OF sh(1)]
  note ring = ring_add(1,2) [OF S(5) held, of f]
  have all: "K \<union> guarded L \<union> freed_of (Q @ [f]) = insert (x, with_guard l) K \<union> guarded L \<union> freed_of Q" using f by auto
  have apK: "(guarded L \<union> freed_of (Q @ [f])) \<inter> K = {}" using S(10) sh(2) f by auto
  show ?thesis
    using S(1-4,6,7,8,9,12,13) ring new f all apK shape_wider [OF S(11)] by (intro debug_shapeI) simp_all
qed

text \<open>A block the parent has just given enters the table.\<close>

lemma shape_insert:
  assumes sh: "debug_shape vt ok own amax D (insert (x, with_guard l) K) (m, self, h, p) L Q" "(x, with_guard l) \<notin> K"
    and l: "0 < lsize l" and tab: "table_ok tab" "table_map tab = (table_map (db_table self))(x \<mapsto> r)" "br_layout r = l"
    and own: "lives h' tda_al_default = D + table_blocks tab" and k: "wadd (db_live self) (lsize l) \<le> k"
  shows "debug_shape vt ok own amax D K (m, self\<lparr>db_table := tab, db_live := wadd (db_live self) (lsize l), db_peak := k\<rparr>, h', p)
      (insert (x, l) L) Q" "(x, l) \<notin> L"
proof -
  note S = debug_shapeD [OF sh(1)]
  note new = shape_new_addr [OF sh(1)]
  show notL: "(x, l) \<notin> L" using new(1) by force
  note W = wf_blockD [OF ok_wf [OF S(9)], of x "with_guard l", simplified]
  have mem: "(y, k) \<in> insert (x, l) L \<longleftrightarrow> (\<exists>r. table_map tab y = Some r \<and> br_layout r = k)" for y k
    using S(4) [of y k] tab(2,3) new(1) by (cases "y = x") force+
  have all: "K \<union> guarded (insert (x, l) L) \<union> freed_of Q = insert (x, with_guard l) K \<union> guarded L \<union> freed_of Q" by auto
  have apK: "(guarded (insert (x, l) L) \<union> freed_of Q) \<inter> K = {}" using S(10) sh(2) by auto
  have dis: "region x (lsize l) \<inter> blocks K = {}"
  proof -
    have "K \<subseteq> insert (x, with_guard l) K \<union> guarded L \<union> freed_of Q - {(x, with_guard l)}" using sh(2) by blast
    then have "region x (lsize l + GUARD_SIZE) \<inter> blocks K = {}"
      using ok_disjoint [OF S(9), of "(x, with_guard l)"] blocks_mono by (fastforce dest: blocks_mono)
    then show ?thesis using region_mono [of "lsize l" "lsize l + GUARD_SIZE" x] by auto
  qed
  have disL: "region x (lsize l) \<inter> blocks L = {}"
    using wf_blocks_own [OF S(11)] region_mono [of "lsize l" "lsize l + GUARD_SIZE" x] by auto
  have "request amax l" using W(2) l by (simp add: request_def)
  then have wf: "wf_blocks (own - blocks K) amax (insert (x, l) L)"
    using shape_wider [OF S(11)] W dis disL region_mono [of "lsize l" "lsize l + GUARD_SIZE" x]
    by (intro wf_blocks_insert) auto
  have fin: "finite (insert (x, l) L)" using shape_records(2) [OF sh(1)] by simp
  have sum: "wadd (db_live self) (lsize l) = (\<Sum>b \<in> insert (x, l) L. lsize (snd b))"
    using wf_sizes [OF wf fin] S(12) notL shape_records(2) [OF sh(1)] by (simp add: add.commute)
  have out: "fr_ptr ` set Q \<inter> fst ` (insert (x, l) L) = {}" using S(8) new(2) by auto
  show "debug_shape vt ok own amax D K (m, self\<lparr>db_table := tab, db_live := wadd (db_live self) (lsize l), db_peak := k\<rparr>, h', p)
      (insert (x, l) L) Q"
    using S(1,5,6,7,9) tab(1) own mem all apK wf sum out k by (intro debug_shapeI) (simp_all add: ring_ok_def ring_def)
qed

section \<open>Giving back\<close>

lemma release_run:
  assumes sh: "debug_shape vt ok own amax D K (m, self, h, p) L (f # Q)"
  shows "\<exists>m' self' p'. release_oldest (m, self, h, p) =
      (if bytes m (fr_ptr f) (lsize (fr_layout f) + GUARD_SIZE) = replicate (lsize (fr_layout f) + GUARD_SIZE) FILL_FREED
       then Some (m', self', h, p') else None) \<and>
    settings self' = settings self \<and> db_table self' = db_table self \<and> db_held self' < QUARANTINE_LEN \<and>
    debug_shape vt ok own amax D K (m', self', h, p') L Q \<and>
    agree m m' (blocks K \<union> blocks (guarded L) \<union> blocks (freed_of Q) \<union> - own)"
proof -
  note S = debug_shapeD [OF sh]
  note R = ring_drop [OF S(5,6)]
  let ?b = "(fr_ptr f, with_guard (fr_layout f))" and ?B = "K \<union> guarded L \<union> freed_of (f # Q)"
  let ?self = "self\<lparr>db_head := wadd (db_head self) 1 mod QUARANTINE_LEN, db_held := db_held self - 1\<rparr>"
  have in_b: "?b \<in> ?B" by simp
  have "?b \<notin> freed_of Q" using S(7) by (auto simp: freed_of_def)
  moreover have "?b \<notin> guarded L" using S(8) by (force simp: guarded_def)
  moreover have "?b \<notin> K" using S(10) by auto
  ultimately have rest: "?B - {?b} = K \<union> guarded L \<union> freed_of Q" by auto
  obtain m' p' where d: "tda_dealloc vt (fr_ptr f) (with_guard (fr_layout f)) (m, p) = Some (m', p')"
    and ag: "agree m m' (blocks (?B - {?b}) \<union> - own)" and ok': "ok (m', p') (?B - {?b})"
    using tda_dealloc_spec [OF S(9) in_b] by auto
  have len: "lsize (fr_layout f) + GUARD_SIZE \<le> SIZE_MAX" using shape_places(1) [OF sh, of f] by simp
  have run: "release_oldest (m, self, h, p) =
      (if bytes m (fr_ptr f) (lsize (fr_layout f) + GUARD_SIZE) = replicate (lsize (fr_layout f) + GUARD_SIZE) FILL_FREED
       then Some (m', ?self, h, p') else None)"
    using R(3,4) d S(1) quarantined_eq [OF S(5) R(3)] parent_layout_eq [OF len]
    by (simp add: release_oldest_def all_equal_iff del: One_nat_def)
  have "debug_shape vt ok own amax D K (m', ?self, h, p') L Q"
    using S(1-4,7,8,10,11,12,13) R(1,2) ok' unfolding rest by (intro debug_shapeI) auto
  moreover have "db_held ?self < QUARANTINE_LEN" using S(5) R(3) by (auto simp: ring_ok_def)
  moreover have "agree m m' (blocks K \<union> blocks (guarded L) \<union> blocks (freed_of Q) \<union> - own)"
    using ag unfolding rest by (simp add: blocks_def)
  moreover have "settings ?self = settings self" by (simp add: settings_def)
  moreover have "db_table ?self = db_table self" by simp
  ultimately show ?thesis using run by blast
qed

lemma push_run:
  assumes sh: "debug_shape vt ok own amax D (insert (x, with_guard l) K) (m, self, h, p) L Q" "(x, with_guard l) \<notin> K"
    and f: "fr_ptr f = x" "fr_layout f = l"
  defines "Q' \<equiv> (if length Q < QUARANTINE_LEN then Q else tl Q) @ [f]"
  shows "\<exists>m' self' p'. quarantine_push f (m, self, h, p) = (if can_push m Q then Some (m', self', h, p') else None) \<and>
    settings self' = settings self \<and> debug_shape vt ok own amax D K (m', self', h, p') L Q' \<and>
    agree m m' (blocks K \<union> blocks (guarded L) \<union> blocks (freed_of Q') \<union> - own)"
proof -
  have n: "db_held self = length Q" "length Q \<le> QUARANTINE_LEN"
    using debug_shapeD(5,6) [OF sh(1)] ring_nth(2) [of self] by (auto simp: ring_ok_def)
  have push: "\<exists>self'. quarantine_push f (m, self, h, p) = (if c then Some (m', self', h, p') else None) \<and>
      settings self' = settings self \<and> debug_shape vt ok own amax D K (m', self', h, p') L (R @ [f])"
    if sh': "debug_shape vt ok own amax D (insert (x, with_guard l) K) (m', self1, h, p') L R" and held: "db_held self1 < QUARANTINE_LEN"
      and s1: "settings self1 = settings self"
      and first: "(if db_held self = QUARANTINE_LEN then release_oldest (m, self, h, p) else Some (m, self, h, p)) =
        (if c then Some (m', self1, h, p') else None)" for m' self1 p' R c
    using shape_push [OF sh' sh(2) f held] ring_add(3) [OF debug_shapeD(5) [OF sh'] held] s1 first
    by (intro exI [where x = "self1\<lparr>db_held := wadd (db_held self1) 1,
        db_quarantine := (db_quarantine self1)[turn QUARANTINE_LEN (db_head self1) (db_held self1) := f]\<rparr>"])
      (simp add: quarantine_push_def settings_def)
  show ?thesis
  proof (cases "length Q < QUARANTINE_LEN")
    case True
    then show ?thesis using push [OF sh(1), of True] n by (auto simp: can_push_def Q'_def)
  next
    case False
    then have full: "length Q = QUARANTINE_LEN" using n by simp
    then obtain g R where Q: "Q = g # R" by (cases Q) (auto simp: QUARANTINE_LEN_def)
    obtain m' self1 p' where r: "release_oldest (m, self, h, p) =
        (if bytes m (fr_ptr g) (lsize (fr_layout g) + GUARD_SIZE) = replicate (lsize (fr_layout g) + GUARD_SIZE) FILL_FREED
         then Some (m', self1, h, p') else None)"
      and s: "settings self1 = settings self" "db_held self1 < QUARANTINE_LEN"
      and sh1: "debug_shape vt ok own amax D (insert (x, with_guard l) K) (m', self1, h, p') L R"
      and ag: "agree m m' (blocks (insert (x, with_guard l) K) \<union> blocks (guarded L) \<union> blocks (freed_of R) \<union> - own)"
      using release_run [OF sh(1) [unfolded Q]] by blast
    have cp: "can_push m Q \<longleftrightarrow> bytes m (fr_ptr g) (lsize (fr_layout g) + GUARD_SIZE) = replicate (lsize (fr_layout g) + GUARD_SIZE) FILL_FREED"
      using False by (simp add: can_push_def filled_def Q)
    have Q': "Q' = R @ [f]" using False by (simp add: Q'_def Q)
    obtain self' where "quarantine_push f (m, self, h, p) = (if can_push m Q then Some (m', self', h, p') else None)"
      "settings self' = settings self" "debug_shape vt ok own amax D K (m', self', h, p') L Q'"
      using push [OF sh1 s(2,1), of "can_push m Q"] r full n(1) unfolding cp Q' by auto
    moreover have "agree m m' (blocks K \<union> blocks (guarded L) \<union> blocks (freed_of Q') \<union> - own)"
      using ag unfolding Q' by (rule agree_subset) (use f in auto)
    ultimately show ?thesis by blast
  qed
qed

lemma dealloc_live:
  assumes sh: "debug_shape vt ok own amax D K (m, self, h, p) L Q" and x: "(x, l) \<in> L"
  shows "\<exists>f m' self' p'. debug_dealloc x l (m, self, h, p) =
      (if intact m {(x, l)} \<and> can_push m Q then Some (m', self', h, p') else None) \<and>
    fr_ptr f = x \<and> fr_layout f = l \<and> settings self' = settings self \<and>
    debug_shape vt ok own amax D K (m', self', h, p') (L - {(x, l)}) ((if length Q < QUARANTINE_LEN then Q else tl Q) @ [f]) \<and>
    agree m m' (blocks K \<union> blocks (guarded (L - {(x, l)})) \<union> blocks (freed_of (if length Q < QUARANTINE_LEN then Q else tl Q)) \<union> - own) \<and>
    filled m' [f]"
proof -
  note S = debug_shapeD [OF sh]
  note P = shape_places(2) [OF sh x]
  let ?n = "lsize l + GUARD_SIZE" let ?R = "if length Q < QUARANTINE_LEN then Q else tl Q" let ?L = "L - {(x, l)}"
  let ?m = "memset m x FILL_FREED ?n"
  obtain tab where tk: "table_take (db_table self) x = Some (table_map (db_table self) x, tab)"
    and tab: "table_ok tab" "table_map tab = (table_map (db_table self))(x := None)" "bt_cap tab = bt_cap (db_table self)"
    using take_ok [OF S(2), of x] P by blast
  obtain r where r: "table_map (db_table self) x = Some r" "br_layout r = l" using S(4) x by blast
  define f where "f = \<lparr>fr_ptr = x, fr_layout = l, fr_serial = br_serial r\<rparr>"
  have f: "fr_ptr f = x" "fr_layout f = l" by (simp_all add: f_def)
  let ?self = "self\<lparr>db_table := tab, db_live := wsub (db_live self) (lsize l)\<rparr>"
  note T = shape_take [OF sh x tab]
  note D = debug_shapeD [OF T(1)]
  have "(x, with_guard l) \<in> insert (x, with_guard l) K \<union> guarded ?L \<union> freed_of Q" by simp
  from block_in_blocks [OF this] have reg: "region x ?n \<subseteq> blocks (insert (x, with_guard l) K \<union> guarded ?L \<union> freed_of Q)" by simp
  have "ok (?m, snd (m, p)) (insert (x, with_guard l) K \<union> guarded ?L \<union> freed_of Q)"
    unfolding snd_conv using reg by (intro write_block [OF D(9), unfolded fst_conv snd_conv] agree_memset) blast
  then have sh': "debug_shape vt ok own amax D (insert (x, with_guard l) K) (?m, ?self, h, p) ?L Q"
    using shape_world [OF T(1)] by simp
  note apart = shape_apart [OF T(1)]
  obtain m' self' p' where push: "quarantine_push f (?m, ?self, h, p) = (if can_push ?m Q then Some (m', self', h, p') else None)"
    and s': "settings self' = settings ?self" "debug_shape vt ok own amax D K (m', self', h, p') ?L (?R @ [f])"
    and ag: "agree ?m m' (blocks K \<union> blocks (guarded ?L) \<union> blocks (freed_of (?R @ [f])) \<union> - own)"
    using push_run [OF sh' T(2) f] by blast
  have disK: "region x ?n \<inter> blocks K = {}"
  proof -
    have "K \<subseteq> insert (x, with_guard l) K \<union> guarded ?L \<union> freed_of Q - {(x, with_guard l)}" using T(2) by blast
    from blocks_mono [OF this] show ?thesis using ok_disjoint [OF D(9), of "(x, with_guard l)"] by auto
  qed
  have reg': "region x ?n \<inter> blocks (guarded ?L) = {}" "region x ?n \<inter> blocks (freed_of Q) = {}" using apart by auto
  have RQ: "blocks (freed_of ?R) \<subseteq> blocks (freed_of Q)" by (cases Q) (auto simp: blocks_def)
  have x_own: "region x ?n \<subseteq> own" using reg ok_own [OF D(9)] by blast
  have ag1: "agree m ?m (blocks K \<union> blocks (guarded ?L) \<union> blocks (freed_of Q) \<union> - own)"
    using disK reg' x_own by (intro agree_memset) blast
  have cp: "can_push ?m Q = can_push m Q"
  proof (cases Q)
    case (Cons g R)
    have "agree m ?m (blocks (freed_of [g]))" using ag1 by (rule agree_subset) (auto simp: Cons freed_of_def)
    then have "filled ?m [g] \<longleftrightarrow> filled m [g]" using filled_agree agree_sym by blast
    then show ?thesis by (simp add: can_push_def Cons)
  qed (simp add: can_push_def QUARANTINE_LEN_def)
  have fm: "filled m' [f]"
  proof (rule filled_agree)
    show "filled ?m [f]" by (simp add: filled_def f bytes_memset)
    show "agree ?m m' (blocks (freed_of [f]))" using ag by (rule agree_subset) (auto simp: freed_of_def)
  qed
  have "debug_dealloc x l (m, self, h, p) = (if intact m {(x, l)} then quarantine_push f (?m, ?self, h, p) else None)"
    using S(1) P tk r parent_layout_eq [of l] unfolding f_def
    by (simp add: debug_dealloc_def checked_entry_def assert_debug_def tda_layout_eq_def all_equal_iff intact_def)
  then have "debug_dealloc x l (m, self, h, p) = (if intact m {(x, l)} \<and> can_push m Q then Some (m', self', h, p') else None)"
    unfolding push cp by simp
  moreover have "settings self' = settings self" using s'(1) by (simp add: settings_def)
  moreover have "agree m m' (blocks K \<union> blocks (guarded ?L) \<union> blocks (freed_of ?R) \<union> - own)"
    by (rule agree_trans [OF agree_subset [OF ag1] agree_subset [OF ag]]) (use RQ in auto)
  ultimately show ?thesis using f s'(2) fm by blast
qed

lemma entry_live:
  assumes sh: "debug_shape vt ok own amax D K (m, self, h, p) L Q" and x: "x \<noteq> 0"
  shows "checked_entry self x l taken \<noteq> None \<longleftrightarrow> (x, l) \<in> L"
    "checked_entry self x l False = Some (r, self') \<Longrightarrow> self' = self"
proof -
  note S = debug_shapeD [OF sh]
  obtain tab where tk: "table_take (db_table self) x = Some (table_map (db_table self) x, tab)"
    using take_ok [OF S(2) x] by blast
  note fd = find_ok [OF S(2) x]
  show "checked_entry self x l taken \<noteq> None \<longleftrightarrow> (x, l) \<in> L"
    using S(4) [of x l] by (cases "table_map (db_table self) x"; cases taken)
      (auto simp: checked_entry_def tk fd tda_layout_eq_def chk_def)
  show "checked_entry self x l False = Some (r, self') \<Longrightarrow> self' = self"
    by (cases "table_map (db_table self) x") (auto simp: checked_entry_def fd chk_def split: if_splits)
qed

lemma dealloc_other:
  assumes "debug_shape vt ok own amax D K (m, self, h, p) L Q" "x \<noteq> 0" "(x, l) \<notin> L"
  shows "debug_dealloc x l (m, self, h, p) = None"
  using entry_live(1) [OF assms(1,2), of l True] assms(3)
  by (cases "checked_entry self x l True") (simp_all add: debug_dealloc_def chk_def)

lemma remap_run:
  assumes sh: "debug_shape vt ok own amax D K (m, self, h, p) L Q" and x: "x \<noteq> 0" "0 < lsize l" "0 < n"
  shows "debug_remap x l n (m, self, h, p) = (if (x, l) \<in> L then Some (0, m, self, h, p) else None)"
  using entry_live(1) [OF sh x(1), of l False] entry_live(2) [OF sh x(1), of l] x debug_shapeD(1) [OF sh]
  by (cases "checked_entry self x l False") (auto simp: debug_remap_def assert_debug_def)

section \<open>Asking\<close>

text \<open>A block of the parent's that is not yet in the table: the parent's other client's, for the moment.\<close>

lemma shape_given:
  assumes sh: "debug_shape vt ok own amax D K (m, self, h, p) L Q"
    and b: "b \<notin> K \<union> guarded L \<union> freed_of Q" "block_region b \<inter> blocks (K \<union> guarded L \<union> freed_of Q) = {}"
    and ok': "ok (m', p') (insert b (K \<union> guarded L \<union> freed_of Q))"
  shows "debug_shape vt ok own amax D (insert b K) (m', self, h, p') L Q"
proof -
  note S = debug_shapeD [OF sh]
  have "blocks (guarded L) \<subseteq> blocks (K \<union> guarded L \<union> freed_of Q)" by (rule blocks_mono) blast
  then have "block_region b \<inter> blocks L = {}" using b(2) shape_places(3) [OF sh] by blast
  then have "block_region c \<inter> block_region b = {}" if "c \<in> L" for c using block_in_blocks [OF that] by blast
  then have wf: "wf_blocks (own - blocks (insert b K)) amax L" using S(11) unfolding wf_blocks_def by auto
  have apK: "(guarded L \<union> freed_of Q) \<inter> insert b K = {}" using S(10) b(1) by blast
  show ?thesis using S(1-8,12,13) ok' wf apK by (intro debug_shapeI) simp_all
qed

lemma shape_returned:
  assumes sh: "debug_shape vt ok own amax D (insert b K) (m, self, h, p) L Q" "b \<notin> K"
    and ok': "ok (m', p') (K \<union> guarded L \<union> freed_of Q)"
  shows "debug_shape vt ok own amax D K (m', self, h, p') L Q"
proof -
  note S = debug_shapeD [OF sh(1)]
  have "(guarded L \<union> freed_of Q) \<inter> K = {}" using S(10) by blast
  then show ?thesis using S(1-8,12,13) ok' shape_wider [OF S(11)] by (intro debug_shapeI) simp_all
qed

lemma shape_requests:
  "debug_shape vt ok own amax D K (m, self\<lparr>db_requests := n\<rparr>, h, p) L Q \<longleftrightarrow> debug_shape vt ok own amax D K (m, self, h, p) L Q"
  by (simp add: debug_shape_def ring_ok_def ring_def)

lemma serial_run:
  assumes "db_requests self < SIZE_MAX" "db_break_at self \<noteq> db_requests self + 1"
  shows "next_serial self = Some (if db_fail_after self < db_requests self + 1 then 0 else db_requests self + 1,
    self\<lparr>db_requests := db_requests self + 1\<rparr>)"
  using assms by (simp add: next_serial_def)

lemma alloc_run:
  assumes sh: "debug_shape vt ok own amax D K (m, self, h, p) L Q" and req: "request amax l"
    and n: "db_requests self < SIZE_MAX" "db_break_at self \<noteq> db_requests self + 1"
  shows "\<exists>q m' self' h' p'. debug_alloc l (m, self, h, p) = Some (q, (m', self', h', p')) \<and>
    settings self' = (db_requests self + 1, db_fail_after self, db_break_at self) \<and>
    agree m m' (blocks K \<union> blocks (guarded L) \<union> blocks (freed_of Q) \<union> - own) \<and>
    (db_fail_after self \<le> db_requests self \<longrightarrow> q = 0) \<and>
    (q = 0 \<longrightarrow> refusable vt l (m, self, h, p)) \<and>
    (if q = 0 then debug_shape vt ok own amax D K (m', self', h', p') L Q
     else (q, l) \<notin> L \<and> debug_shape vt ok own amax D K (m', self', h', p') (insert (q, l) L) Q \<and>
       bytes m' q (lsize l) = replicate (lsize l) FILL_NEW \<and> intact m' {(q, l)})"
proof -
  let ?n = "db_requests self + 1" let ?self = "self\<lparr>db_requests := ?n\<rparr>" let ?S = "blocks K \<union> blocks (guarded L) \<union> blocks (freed_of Q) \<union> - own"
  let ?B = "K \<union> guarded L \<union> freed_of Q"
  have sh1: "debug_shape vt ok own amax D K (m, ?self, h, p) L Q" using sh unfolding shape_requests .
  note S = debug_shapeD [OF sh1]
  have st: "settings ?self = (?n, db_fail_after self, db_break_at self)" by (simp add: settings_def)
  have l0: "0 < lsize l" using requestD [OF req] by simp
  show ?thesis
  proof (cases "db_fail_after self < ?n \<or> SIZE_MAX < lsize l + GUARD_SIZE")
    case True
    then have "debug_alloc l (m, self, h, p) = Some (0, (m, ?self, h, p))"
      using serial_run [OF n] S(1) l0
      by (cases "db_fail_after self < ?n") (simp_all add: debug_alloc_def assert_debug_def ckd_parent_layout_eq)
    moreover have "refusable vt l (m, self, h, p)" using True by (auto simp: refusable_def)
    ultimately show ?thesis using sh1 st by auto
  next
    case False
    have req': "request amax (with_guard l)" using req False by (simp add: request_def)
    obtain b w1 where a': "tda_alloc vt (with_guard l) (m, p) = Some (b, w1)"
      and ag1': "agree m (fst w1) (blocks ?B \<union> - own)"
      and ok1': "if b = 0 then ok w1 ?B else (b, with_guard l) \<notin> ?B \<and> region b (lsize l + GUARD_SIZE) \<inter> blocks ?B = {} \<and>
        ok w1 (insert (b, with_guard l) ?B)"
      using tda_alloc_spec [OF S(9) req', unfolded fst_conv with_guard_sels] by (elim exE conjE)
    obtain m1 p1 where w1: "w1 = (m1, p1)" by (cases w1)
    note a = a' [unfolded w1] and ag1 = ag1' [unfolded w1 fst_conv] and ok1 = ok1' [unfolded w1]
    have ag1': "agree m m1 ?S" using ag1 by (simp add: blocks_def)
    show ?thesis
    proof (cases "b = 0")
      case True
      then have "debug_alloc l (m, self, h, p) = Some (0, (m1, ?self, h, p1))"
        using serial_run [OF n] S(1) l0 False a by (simp add: debug_alloc_def assert_debug_def ckd_parent_layout_eq)
      moreover have "refusable vt l (m, self, h, p)" using a True by (auto simp: refusable_def)
      ultimately show ?thesis using shape_world [OF sh1, of m1 p1] ok1 True ag1' st by auto
    next
      case b: False
      have new: "(b, with_guard l) \<notin> ?B" "block_region (b, with_guard l) \<inter> blocks ?B = {}" using ok1 b by simp_all
      have okb: "ok (m1, p1) (insert (b, with_guard l) ?B)" using ok1 b by simp
      have bK: "(b, with_guard l) \<notin> K" using new(1) by blast
      note G = shape_given [OF sh1 new okb]
      note A = shape_new_addr [OF G]
      have tm: "table_map (db_table self) b = None" using A(1) S(4) [of b] by (cases "table_map (db_table self) b") force+
      have qf: "quarantine_find ?self b = Some None"
        using A(2) S(6) quarantine_find_eq [OF S(5), of b] by (simp add: find_None_iff image_iff) (metis)
      let ?r = "\<lparr>br_addr = b, br_layout = l, br_serial = ?n\<rparr>"
      obtain c tab h' where ins: "table_insert (db_table self) ?r h = Some (c, tab, h')" and tab: "table_ok tab"
        "table_map tab = (if c then (table_map (db_table self))(b \<mapsto> ?r) else table_map (db_table self))"
        "requests h tda_al_default (table_blocks (db_table self)) (table_blocks tab) True h'"
        and full: "c \<or> \<not> generous h tda_al_default \<or> SIZE_MAX < 64 * bt_cap (db_table self)"
        using insert_ok [of "db_table self" h ?r] S(2,3) b tm by auto
      have own_tab: "lives h' tda_al_default = D + table_blocks tab" using tab(3) S(3) by (simp add: requests_def)
      let ?self2 = "?self\<lparr>db_table := tab\<rparr>"
      show ?thesis
      proof (cases c)
        case False
        have c0: "\<not> c" by (rule False)
        have G2: "debug_shape vt ok own amax D (insert (b, with_guard l) K) (m1, ?self2, h', p1) L Q"
          using debug_shapeD [OF G] tab c0 own_tab by (intro debug_shapeI) (simp_all add: ring_ok_def ring_def)
        have in_b: "(b, with_guard l) \<in> insert (b, with_guard l) ?B" by simp
        have rest: "insert (b, with_guard l) ?B - {(b, with_guard l)} = ?B" using new(1) by blast
        obtain m2 p2 where d: "tda_dealloc vt b (with_guard l) (m1, p1) = Some (m2, p2)"
          and ag2: "agree m1 m2 (blocks ?B \<union> - own)" and ok2: "ok (m2, p2) ?B"
          using tda_dealloc_spec [OF okb in_b] unfolding rest by auto
        have "debug_alloc l (m, self, h, p) = Some (0, (m2, ?self2, h', p2))"
          using serial_run [OF n] S(1) l0 \<open>\<not> (db_fail_after self < ?n \<or> SIZE_MAX < lsize l + GUARD_SIZE)\<close> a b ins c0 d qf
            find_ok [OF S(2), of b] tm
          by (simp add: debug_alloc_def assert_debug_def ckd_parent_layout_eq)
        moreover have "debug_shape vt ok own amax D K (m2, ?self2, h', p2) L Q" by (rule shape_returned [OF G2 bK ok2])
        moreover have "agree m m2 ?S" using agree_trans [OF ag1 ag2] by (simp add: blocks_def)
        moreover have "settings ?self2 = settings ?self" by (simp add: settings_def)
        moreover have "refusable vt l (m, self, h, p)" using full c0 by (auto simp: refusable_def)
        ultimately show ?thesis using st by auto
      next
        case c: True
        let ?live = "wadd (db_live self) (lsize l)"
        let ?peak = "if ?live > db_peak self then ?live else db_peak self"
        let ?m = "memset (memset m1 b FILL_NEW (lsize l)) (b + lsize l) FILL_GUARD GUARD_SIZE"
        let ?self3 = "?self\<lparr>db_table := tab, db_live := ?live, db_peak := ?peak\<rparr>"
        have reg: "region b (lsize l) \<subseteq> region b (lsize l + GUARD_SIZE)" "region (b + lsize l) GUARD_SIZE \<subseteq> region b (lsize l + GUARD_SIZE)"
          by (auto simp: region_def)
        have bown: "region b (lsize l + GUARD_SIZE) \<subseteq> own" using wf_blockD(4) [OF ok_wf [OF okb], of b "with_guard l"] by simp
        have ag2: "agree m1 ?m T" if "T \<inter> region b (lsize l + GUARD_SIZE) = {}" for T
          using that reg by (intro agree_trans [OF agree_memset agree_memset]) blast+
        have "ok (?m, p1) (insert (b, with_guard l) ?B)"
          by (rule write_block [OF okb, unfolded fst_conv snd_conv], rule ag2) auto
        then have G2: "debug_shape vt ok own amax D (insert (b, with_guard l) K) (?m, ?self, h, p1) L Q"
          using shape_world [OF G, of ?m p1] by simp
        note I = shape_insert [OF G2 bK l0 tab(1), of ?r h' ?peak]
        have shL: "debug_shape vt ok own amax D K (?m, ?self3, h', p1) (insert (b, l) L) Q" and nL: "(b, l) \<notin> L"
          using I tab(2) c own_tab by simp_all
        have "debug_alloc l (m, self, h, p) = Some (b, (?m, ?self3, h', p1))"
          using serial_run [OF n] S(1) l0 \<open>\<not> (db_fail_after self < ?n \<or> SIZE_MAX < lsize l + GUARD_SIZE)\<close> a b ins c qf
            find_ok [OF S(2), of b] tm
          by (simp add: debug_alloc_def assert_debug_def ckd_parent_layout_eq Let_def cong: if_cong)
        moreover have "agree m ?m ?S"
        proof (rule agree_trans [OF ag1' ag2])
          show "?S \<inter> region b (lsize l + GUARD_SIZE) = {}" using new(2) bown by (auto simp: blocks_def)
        qed
        moreover have "bytes ?m b (lsize l) = replicate (lsize l) FILL_NEW"
          using bytes_agree [OF agree_memset [of "region b (lsize l)" "b + lsize l" GUARD_SIZE "memset m1 b FILL_NEW (lsize l)" FILL_GUARD]]
          by (simp add: bytes_memset region_def disjoint_iff)
        moreover have "intact ?m {(b, l)}" by (simp add: intact_def bytes_memset)
        moreover have "settings ?self3 = settings ?self" by (simp add: settings_def)
        moreover have "\<not> db_fail_after self \<le> db_requests self" using \<open>\<not> (db_fail_after self < ?n \<or> SIZE_MAX < lsize l + GUARD_SIZE)\<close> by simp
        ultimately show ?thesis using st shL nL b by auto
      qed
    qed
  qed
qed

section \<open>Emptying the quarantine\<close>

lemma flush_run:
  assumes "debug_shape vt ok own amax D K (m, self, h, p) L Q"
  shows "\<exists>m' self' p'. flush_loop (m, self, h, p) = (if filled m Q then Some (m', self', h, p') else None) \<and>
    settings self' = settings self \<and> db_table self' = db_table self \<and> debug_shape vt ok own amax D K (m', self', h, p') L [] \<and>
    agree m m' (blocks K \<union> blocks (guarded L) \<union> - own)"
  using assms
proof (induction Q arbitrary: m self p)
  case Nil
  have "db_held self = 0" using debug_shapeD(6) [OF Nil] ring_nth(2) [of self] by simp
  then have "flush_loop (m, self, h, p) = Some (m, self, h, p)" by (subst flush_loop.simps) simp
  then show ?case using Nil by (intro exI [where x = m] exI [where x = self] exI [where x = p]) (simp add: filled_def)
next
  case (Cons f Q)
  have held: "0 < db_held self" using debug_shapeD(6) [OF Cons.prems] ring_nth(2) [of self] by simp
  obtain m1 self1 p1 where r: "release_oldest (m, self, h, p) =
      (if bytes m (fr_ptr f) (lsize (fr_layout f) + GUARD_SIZE) = replicate (lsize (fr_layout f) + GUARD_SIZE) FILL_FREED
       then Some (m1, self1, h, p1) else None)"
    and s1: "settings self1 = settings self \<and> db_table self1 = db_table self" "debug_shape vt ok own amax D K (m1, self1, h, p1) L Q"
    and ag1: "agree m m1 (blocks K \<union> blocks (guarded L) \<union> blocks (freed_of Q) \<union> - own)"
    using release_run [OF Cons.prems] by blast
  obtain m' self' p' where f: "flush_loop (m1, self1, h, p1) = (if filled m1 Q then Some (m', self', h, p') else None)"
    and s': "settings self' = settings self1 \<and> db_table self' = db_table self1" "debug_shape vt ok own amax D K (m', self', h, p') L []"
    and ag': "agree m1 m' (blocks K \<union> blocks (guarded L) \<union> - own)"
    using Cons.IH [OF s1(2)] by blast
  have agQ: "agree m m1 (blocks (freed_of Q))" using ag1 by (rule agree_subset) blast
  have same: "filled m1 Q \<longleftrightarrow> filled m Q" using filled_agree agQ agree_sym [OF agQ] by blast
  have fl: "filled m [f] \<longleftrightarrow>
      bytes m (fr_ptr f) (lsize (fr_layout f) + GUARD_SIZE) = replicate (lsize (fr_layout f) + GUARD_SIZE) FILL_FREED"
    by (simp add: filled_def)
  have "flush_loop (m, self, h, p) = (if filled m (f # Q) then Some (m', self', h, p') else None)"
    using held r f unfolding filled_Cons [of m f Q] fl same by (subst flush_loop.simps) simp
  moreover have "agree m m' (blocks K \<union> blocks (guarded L) \<union> - own)"
    by (rule agree_trans [OF agree_subset [OF ag1] ag']) blast
  ultimately show ?case using s' s1(1) by auto
qed

lemma deinit_run:
  assumes sh: "debug_shape vt ok own amax D K (m, self, h, p) L Q" and fl: "filled m Q"
  shows "\<exists>m' h' p'. tda_debug_deinit (m, self, h, p) = Some (m', debug_null, h', p') \<and> ok (m', p') (K \<union> guarded L) \<and>
    lives h' = (lives h)(tda_al_default := D) \<and> agree m m' (blocks K \<union> blocks (guarded L) \<union> - own)"
proof -
  note S = debug_shapeD [OF sh]
  let ?C = "bt_cap (db_table self)"
  obtain m' self' p' where f: "flush_loop (m, self, h, p) = Some (m', self', h, p')" and tab: "db_table self' = db_table self"
    and sh': "debug_shape vt ok own amax D K (m', self', h, p') L []" and ag: "agree m m' (blocks K \<union> blocks (guarded L) \<union> - own)"
    using flush_run [OF sh] fl by auto
  have own1: "held record_layout ?C \<subseteq># lives h tda_al_default" using S(3) by (simp add: table_blocks_def)
  obtain h' where d: "al_dealloc tda_al_default (?C \<noteq> 0) \<lparr>lsize = lsize record_layout * ?C, lalign = lalign record_layout\<rparr> h = Some h'"
    and l': "lives h' = (lives h)(tda_al_default := lives h tda_al_default - held record_layout ?C)"
    using al_dealloc_held [OF _ record_type own1] by (auto simp: tda_al_default_def)
  have "32 * ?C \<le> SIZE_MAX" using S(2) by (simp add: table_ok_def shaped_def)
  then have "al_dealloc_n tda_al_default (?C \<noteq> 0) record_layout ?C h = Some h'"
    using d record_type by (simp add: al_dealloc_n_def ckd_array_type record_layout_def)
  then have "tda_debug_deinit (m, self, h, p) = Some (m', debug_null, h', p')"
    using S(1) f tab by (simp add: tda_debug_deinit_def tda_debug_flush_quarantine_def assert_debug_def)
  moreover have "ok (m', p') (K \<union> guarded L)" using debug_shapeD(9) [OF sh'] by (simp add: freed_of_def)
  moreover have "lives h tda_al_default - held record_layout ?C = D" using S(3) by (simp add: table_blocks_def)
  ultimately show ?thesis using ag l' by auto
qed

lemma init_run:
  assumes "ok (m, p) K" "lives h tda_al_default = D"
  shows "\<exists>self. tda_debug_init (Some vt) = Some self \<and> settings self = (0, SIZE_MAX, 0) \<and>
    debug_shape vt ok own amax D K (m, self, h, p) {} []"
proof -
  let ?self = "debug_null\<lparr>db_parent := Some vt, db_fail_after := SIZE_MAX\<rparr>"
  have tab: "table_ok no_table" "table_blocks no_table = {#}" "table_map no_table = (\<lambda>_. None)"
    by (simp_all add: no_table_ok) (simp add: table_blocks_def no_table_def)
  have ring: "ring_ok ?self" "ring ?self = []" by (simp_all add: ring_ok_def ring_def debug_null_def QUARANTINE_LEN_def)
  have "debug_shape vt ok own amax D K (m, ?self, h, p) {} []"
    using assms tab ring by (intro debug_shapeI) (simp_all add: debug_null_def guarded_def freed_of_def wf_blocks_def)
  then show ?thesis by (simp add: tda_debug_init_def settings_def debug_null_def)
qed

end

end
