(* ===== verification/DebugSafe.thy ===== *)
theory DebugSafe
  imports DebugProps Arena
begin

text \<open>
  Histories of the debug allocator through the wrappers every container uses, and its properties:
  correct use is never reported and the counts are right, each misuse is reported by the call that
  sees it, a reallocation always moves, and the table of live blocks is a map.
\<close>

section \<open>Correct use\<close>

definition debug_ok ::
  "'p vtable \<Rightarrow> ('p world \<Rightarrow> block set \<Rightarrow> bool) \<Rightarrow> addr set \<Rightarrow> nat \<Rightarrow> layout multiset \<Rightarrow> block set \<Rightarrow> 'p debug_world \<Rightarrow>
   block set \<Rightarrow> freed_block list \<Rightarrow> bool" where
  "debug_ok pvt pok pown pmax D K w L Q \<longleftrightarrow>
     debug_shape pvt pok pown pmax D K w L Q \<and> intact (fst w) L \<and> filled (fst w) Q"

text \<open>The counter has room and its next value is not the one to stop at.\<close>

definition may_ask :: "'p debug \<Rightarrow> bool" where
  "may_ask self \<longleftrightarrow> db_requests self < SIZE_MAX \<and> db_break_at self \<noteq> db_requests self + 1"

inductive debug_step :: "nat \<Rightarrow> 'p debug_world \<times> block set \<Rightarrow> 'p debug_world \<times> block set \<Rightarrow> bool" for amax where
  debug_ask:
    "request amax l \<Longrightarrow> may_ask (fst (snd w)) \<Longrightarrow> tda_alloc debug_vtable l w = Some (q, w') \<Longrightarrow>
     debug_step amax (w, L) (w', if q = 0 then L else insert (q, l) L)"
| debug_ask_zeroed:
    "request amax l \<Longrightarrow> may_ask (fst (snd w)) \<Longrightarrow> tda_alloc_zeroed debug_vtable l w = Some (q, w') \<Longrightarrow>
     debug_step amax (w, L) (w', if q = 0 then L else insert (q, l) L)"
| debug_move:
    "(x, l) \<in> L \<Longrightarrow> request amax (l\<lparr>lsize := n\<rparr>) \<Longrightarrow> may_ask (fst (snd w)) \<Longrightarrow>
     tda_realloc debug_vtable x l n w = Some (q, w') \<Longrightarrow>
     debug_step amax (w, L) (w', if q = 0 then L else insert (q, l\<lparr>lsize := n\<rparr>) (L - {(x, l)}))"
| debug_give:
    "(x, l) \<in> L \<Longrightarrow> tda_dealloc debug_vtable x l w = Some w' \<Longrightarrow> debug_step amax (w, L) (w', L - {(x, l)})"
| debug_flush:
    "tda_debug_flush_quarantine w = Some w' \<Longrightarrow> debug_step amax (w, L) (w', L)"
| debug_limit:
    "tda_debug_fail_after self c = Some self' \<Longrightarrow> debug_step amax ((m, self, s), L) ((m, self', s), L)"
| debug_break:
    "tda_debug_break_at self c = Some self' \<Longrightarrow> debug_step amax ((m, self, s), L) ((m, self', s), L)"
| debug_write:
    "agree (fst w) m' (- blocks L) \<Longrightarrow> debug_step amax (w, L) ((m', snd w), L)"

lemma intact_insert: "intact m (insert b L) \<longleftrightarrow> intact m {b} \<and> intact m L"
  by (auto simp: intact_def)

lemma filled_append: "filled m (Q @ R) \<longleftrightarrow> filled m Q \<and> filled m R"
  by (auto simp: filled_def)

lemma filled_can_push: "filled m Q \<Longrightarrow> can_push m Q"
  by (cases Q) (auto simp: can_push_def filled_def QUARANTINE_LEN_def)

lemma filled_tl: "filled m Q \<Longrightarrow> filled m (if length Q < QUARANTINE_LEN then Q else tl Q)"
  by (cases Q) (auto simp: filled_def)

lemma intact_subset: "intact m L \<Longrightarrow> L' \<subseteq> L \<Longrightarrow> intact m L'"
  by (auto simp: intact_def)

context allocator begin

text \<open>What a client writes into its own blocks is nobody's concern.\<close>

lemma debug_writes:
  assumes d: "debug_ok vt ok own amax D K (m, self, h, p) L Q" and ag: "agree m m' (- blocks L)"
  shows "debug_ok vt ok own amax D K (m', self, h, p) L Q"
proof -
  have sh: "debug_shape vt ok own amax D K (m, self, h, p) L Q" and i: "intact m L" and f: "filled m Q"
    using d by (simp_all add: debug_ok_def)
  note S = debug_shapeD [OF sh]
  note P = shape_places [OF sh]
  have "blocks L \<subseteq> blocks (K \<union> guarded L \<union> freed_of Q)" using P(3) by (simp add: blocks_def) blast
  then have "ok (m', p) (K \<union> guarded L \<union> freed_of Q)"
    by (intro write_block [OF S(9), unfolded fst_conv snd_conv] agree_subset [OF ag]) blast
  moreover have "filled m' Q" using shape_apart(3) [OF sh] P(3) by (intro filled_agree [OF f] agree_subset [OF ag]) blast
  moreover have "intact m' L"
  proof -
    have "bytes m' (x + lsize l) GUARD_SIZE = bytes m (x + lsize l) GUARD_SIZE" if x: "(x, l) \<in> L" for x l
    proof (rule bytes_agree, rule agree_subset [OF ag])
      have "region (x + lsize l) GUARD_SIZE \<inter> region y (lsize k) = {}" if y: "(y, k) \<in> L" for y k
      proof (cases "(y, k) = (x, l)")
        case False
        then have ne: "(y, with_guard k) \<noteq> (x, with_guard l)" using wf_blocks_same_addr [OF S(11) x, of k] y by auto
        have "(x, with_guard l) \<in> guarded L" "(y, with_guard k) \<in> guarded L" using x y by (force simp: guarded_def)+
        then have "block_region (x, with_guard l) \<inter> block_region (y, with_guard k) = {}"
          using ok_wf [OF S(9)] ne unfolding wf_blocks_def by blast
        moreover have "region (x + lsize l) GUARD_SIZE \<subseteq> block_region (x, with_guard l)"
          "region y (lsize k) \<subseteq> block_region (y, with_guard k)" by (auto simp: region_def)
        ultimately show ?thesis by blast
      qed (auto simp: region_def)
      then show "region (x + lsize l) GUARD_SIZE \<subseteq> - blocks L" unfolding blocks_def block_region_def by fastforce
    qed
    then show ?thesis using i by (auto simp: intact_def)
  qed
  ultimately show ?thesis using shape_world [OF sh] by (simp add: debug_ok_def)
qed

lemma debug_asks:
  assumes d: "debug_ok vt ok own amax D K (m, self, h, p) L Q" and req: "request amax l" and n: "may_ask self"
  shows "\<exists>q m' self' h' p'. tda_alloc debug_vtable l (m, self, h, p) = Some (q, (m', self', h', p')) \<and>
    settings self' = (db_requests self + 1, db_fail_after self, db_break_at self) \<and>
    agree m m' (blocks K \<union> blocks (guarded L) \<union> blocks (freed_of Q) \<union> - own) \<and>
    (db_fail_after self \<le> db_requests self \<longrightarrow> q = 0) \<and>
    (q = 0 \<longrightarrow> refusable vt l (m, self, h, p)) \<and>
    (if q = 0 then debug_ok vt ok own amax D K (m', self', h', p') L Q
     else (q, l) \<notin> L \<and> debug_ok vt ok own amax D K (m', self', h', p') (insert (q, l) L) Q \<and>
       bytes m' q (lsize l) = replicate (lsize l) FILL_NEW)"
proof -
  have sh: "debug_shape vt ok own amax D K (m, self, h, p) L Q" and i: "intact m L" and f: "filled m Q"
    using d by (simp_all add: debug_ok_def)
  obtain q m' self' h' p' where a: "debug_alloc l (m, self, h, p) = Some (q, (m', self', h', p'))"
    and st: "settings self' = (db_requests self + 1, db_fail_after self, db_break_at self)"
    and ag: "agree m m' (blocks K \<union> blocks (guarded L) \<union> blocks (freed_of Q) \<union> - own)"
    and lim: "(db_fail_after self \<le> db_requests self \<longrightarrow> q = 0) \<and> (q = 0 \<longrightarrow> refusable vt l (m, self, h, p))"
    and r: "if q = 0 then debug_shape vt ok own amax D K (m', self', h', p') L Q
     else (q, l) \<notin> L \<and> debug_shape vt ok own amax D K (m', self', h', p') (insert (q, l) L) Q \<and>
       bytes m' q (lsize l) = replicate (lsize l) FILL_NEW \<and> intact m' {(q, l)}"
    using alloc_run [OF sh req] n unfolding may_ask_def by blast
  have "lalign l dvd q" if "q \<noteq> 0"
    using r that wf_blockD(3) [OF debug_shapeD(11), of vt ok own amax D K m' self' h' p' "insert (q, l) L" Q q l] by simp
  then have "expect_aligned q (lalign l) = Some ()" using requestD [OF req] by (intro expect_aligned_ok) auto
  then have run: "tda_alloc debug_vtable l (m, self, h, p) = Some (q, (m', self', h', p'))"
    using a requestD [OF req] by (simp add: tda_alloc_def debug_vtable_def)
  have i': "intact m' L" using ag by (intro intact_agree [OF i]) (auto intro: agree_subset)
  have f': "filled m' Q" using ag by (intro filled_agree [OF f]) (auto intro: agree_subset)
  have "if q = 0 then debug_ok vt ok own amax D K (m', self', h', p') L Q
     else (q, l) \<notin> L \<and> debug_ok vt ok own amax D K (m', self', h', p') (insert (q, l) L) Q \<and>
       bytes m' q (lsize l) = replicate (lsize l) FILL_NEW"
    using r i' f' intact_insert [of m' "(q, l)" L] by (simp add: debug_ok_def split: if_splits)
  then show ?thesis using run st ag lim by blast
qed

lemma dealloc_hook:
  assumes "debug_shape vt ok own amax D K (m, self, h, p) L Q" "(x, l) \<in> L"
  shows "tda_dealloc debug_vtable x l (m, self, h, p) = debug_dealloc x l (m, self, h, p)"
proof -
  note W = wf_blockD [OF debug_shapeD(11) [OF assms(1)] assms(2)]
  show ?thesis using W(1) requestD [OF W(2)] by (simp add: tda_dealloc_def debug_vtable_def)
qed

lemma debug_gives:
  assumes d: "debug_ok vt ok own amax D K (m, self, h, p) L Q" and x: "(x, l) \<in> L"
  shows "\<exists>m' self' p' Q'. tda_dealloc debug_vtable x l (m, self, h, p) = Some (m', self', h, p') \<and> settings self' = settings self \<and>
    debug_ok vt ok own amax D K (m', self', h, p') (L - {(x, l)}) Q' \<and> (x, with_guard l) \<in> freed_of Q' \<and>
    agree m m' (blocks K \<union> blocks (guarded (L - {(x, l)})) \<union> - own) \<and>
    bytes m' x (lsize l + GUARD_SIZE) = replicate (lsize l + GUARD_SIZE) FILL_FREED"
proof -
  have sh: "debug_shape vt ok own amax D K (m, self, h, p) L Q" and i: "intact m L" and f: "filled m Q"
    using d by (simp_all add: debug_ok_def)
  let ?R = "if length Q < QUARANTINE_LEN then Q else tl Q"
  obtain g m' self' p' where a: "debug_dealloc x l (m, self, h, p) =
      (if intact m {(x, l)} \<and> can_push m Q then Some (m', self', h, p') else None)"
    and g: "fr_ptr g = x" "fr_layout g = l" and st: "settings self' = settings self"
    and sh': "debug_shape vt ok own amax D K (m', self', h, p') (L - {(x, l)}) (?R @ [g])"
    and ag: "agree m m' (blocks K \<union> blocks (guarded (L - {(x, l)})) \<union> blocks (freed_of ?R) \<union> - own)"
    and fg: "filled m' [g]"
    using dealloc_live [OF sh x] by blast
  have cond: "intact m {(x, l)}" "can_push m Q" using intact_subset [OF i, of "{(x, l)}"] x filled_can_push [OF f] by simp_all
  have i': "intact m' (L - {(x, l)})"
    using ag by (intro intact_agree [OF intact_subset [OF i]] agree_subset [OF ag]) auto
  have "filled m' ?R" by (rule filled_agree [OF filled_tl [OF f]], rule agree_subset [OF ag]) blast
  then have f': "filled m' (?R @ [g])" using fg unfolding filled_append by blast
  have ok': "debug_ok vt ok own amax D K (m', self', h, p') (L - {(x, l)}) (?R @ [g])"
    using sh' i' f' by (simp add: debug_ok_def)
  have "(x, with_guard l) \<in> freed_of (?R @ [g])" unfolding freed_of_append g by blast
  moreover have "bytes m' x (lsize l + GUARD_SIZE) = replicate (lsize l + GUARD_SIZE) FILL_FREED"
    using fg g by (simp add: filled_def)
  moreover have "agree m m' (blocks K \<union> blocks (guarded (L - {(x, l)})) \<union> - own)" by (rule agree_subset [OF ag]) blast
  moreover have "tda_dealloc debug_vtable x l (m, self, h, p) = Some (m', self', h, p')"
    using a cond dealloc_hook [OF sh x] by simp
  ultimately show ?thesis using st ok' by blast
qed

lemma realloc_start:
  assumes sh: "debug_shape vt ok own amax D K (m, self, h, p) L Q" and x: "(x, old) \<in> L" and req: "request amax (old\<lparr>lsize := n\<rparr>)"
  shows "tda_realloc debug_vtable x old n (m, self, h, p) = do {
      (new_ptr, w) \<leftarrow> tda_alloc debug_vtable (old\<lparr>lsize := n\<rparr>) (m, self, h, p);
      if new_ptr = 0 then Some (0, w)
      else do {
        m \<leftarrow> memcpy (fst w) new_ptr x (min (lsize old) n);
        w \<leftarrow> tda_dealloc debug_vtable x old (m, snd w);
        Some (new_ptr, w)
      }
    }"
proof -
  note W = wf_blockD [OF debug_shapeD(11) [OF sh] x]
  note R = requestD [OF W(2)]
  have n: "0 < n" using req by (simp add: request_def)
  have "tda_resize debug_vtable x old n (m, self, h, p) = Some (False, (m, self, h, p))"
    using W(1) R n by (simp add: tda_resize_def debug_vtable_def)
  moreover have "tda_remap debug_vtable x old n (m, self, h, p) = Some (0, (m, self, h, p))"
    using W(1) R n remap_run [OF sh W(1) R(1) n] x by (simp add: tda_remap_def debug_vtable_def expect_aligned_def)
  moreover have lay: "\<lparr>lsize = n, lalign = lalign old\<rparr> = old\<lparr>lsize := n\<rparr>" by simp
  moreover have mn: "(if lsize old < n then lsize old else n) = min (lsize old) n" by simp
  ultimately show ?thesis using W(1) R n unfolding tda_realloc_def mn lay by simp
qed

lemma debug_moves:
  assumes d: "debug_ok vt ok own amax D K (m, self, h, p) L Q" and x: "(x, old) \<in> L"
    and req: "request amax (old\<lparr>lsize := n\<rparr>)" and may: "may_ask self"
  shows "\<exists>q m' self' h' p' Q'. tda_realloc debug_vtable x old n (m, self, h, p) = Some (q, (m', self', h', p')) \<and>
    settings self' = (db_requests self + 1, db_fail_after self, db_break_at self) \<and>
    (db_fail_after self \<le> db_requests self \<longrightarrow> q = 0) \<and>
    (q = 0 \<longrightarrow> refusable vt (old\<lparr>lsize := n\<rparr>) (m, self, h, p)) \<and>
    agree m m' (blocks K \<union> blocks (guarded (L - {(x, old)})) \<union> - own) \<and>
    (if q = 0 then debug_ok vt ok own amax D K (m', self', h', p') L Q' \<and> agree m m' (blocks L)
     else q \<noteq> x \<and> (q, old\<lparr>lsize := n\<rparr>) \<notin> L \<and>
       debug_ok vt ok own amax D K (m', self', h', p') (insert (q, old\<lparr>lsize := n\<rparr>) (L - {(x, old)})) Q' \<and>
       bytes m' q (min (lsize old) n) = bytes m x (min (lsize old) n) \<and>
       bytes m' x (lsize old + GUARD_SIZE) = replicate (lsize old + GUARD_SIZE) FILL_FREED)"
proof -
  let ?new = "old\<lparr>lsize := n\<rparr>" let ?k = "min (lsize old) n"
  have sh: "debug_shape vt ok own amax D K (m, self, h, p) L Q" using d by (simp add: debug_ok_def)
  note start = realloc_start [OF sh x req]
  obtain q m1 self1 h1 p1 where a: "tda_alloc debug_vtable ?new (m, self, h, p) = Some (q, (m1, self1, h1, p1))"
    and st1: "settings self1 = (db_requests self + 1, db_fail_after self, db_break_at self)"
    and ag1: "agree m m1 (blocks K \<union> blocks (guarded L) \<union> blocks (freed_of Q) \<union> - own)"
    and lim: "(db_fail_after self \<le> db_requests self \<longrightarrow> q = 0) \<and> (q = 0 \<longrightarrow> refusable vt ?new (m, self, h, p))"
    and r: "if q = 0 then debug_ok vt ok own amax D K (m1, self1, h1, p1) L Q
     else (q, ?new) \<notin> L \<and> debug_ok vt ok own amax D K (m1, self1, h1, p1) (insert (q, ?new) L) Q \<and>
       bytes m1 q (lsize ?new) = replicate (lsize ?new) FILL_NEW"
    using debug_asks [OF d req may] by blast
  have LG: "blocks L \<subseteq> blocks (guarded L)" by (rule shape_places(3) [OF sh])
  have sub: "blocks (guarded (L - {(x, old)})) \<subseteq> blocks (guarded L)" by (rule blocks_mono) (auto simp: guarded_def)
  show ?thesis
  proof (cases "q = 0")
    case True
    have "agree m m1 (blocks L)" using ag1 LG by (blast intro: agree_subset)
    moreover have "agree m m1 (blocks K \<union> blocks (guarded (L - {(x, old)})) \<union> - own)" using sub by (intro agree_subset [OF ag1]) blast
    ultimately show ?thesis using start a True r st1 lim by auto
  next
    case q: False
    then have nL: "(q, ?new) \<notin> L" and d1: "debug_ok vt ok own amax D K (m1, self1, h1, p1) (insert (q, ?new) L) Q" using r by simp_all
    have shq: "debug_shape vt ok own amax D K (m1, self1, h1, p1) (insert (q, ?new) L) Q" using d1 by (simp add: debug_ok_def)
    have wf: "wf_blocks (own - blocks K) amax (insert (q, ?new) L)" by (rule debug_shapeD(11) [OF shq])
    have px: "x \<noteq> 0" using wf_blockD(1) [OF wf, of x old] x by simp
    have "block_region (q, ?new) \<inter> block_region (x, old) = {}" using wf x nL unfolding wf_blocks_def by (metis insert_iff)
    then have dis: "region q n \<inter> region x (lsize old) = {}" by simp
    have n0: "0 < n" "0 < lsize old" using req wf_blockD(2) [OF wf, of x old] x by (simp_all add: request_def)
    have qx: "q \<noteq> x" using dis n0 by (auto simp: region_def)
    have ks: "region q ?k \<subseteq> region q n" "region x ?k \<subseteq> region x (lsize old)" by (auto intro: region_mono)
    let ?m = "memmove m1 q x ?k"
    have cpy: "memcpy m1 q x ?k = Some ?m" using q px dis ks by (intro memcpy_Some) (auto simp: apart_iff)
    have agm: "agree m1 ?m (- region q n)" using ks by (intro agree_memmove) blast
    have d2: "debug_ok vt ok own amax D K (?m, self1, h1, p1) (insert (q, ?new) L) Q"
      by (rule debug_writes [OF d1]) (rule agree_subset [OF agm], auto)
    have xin: "(x, old) \<in> insert (q, ?new) L" using x by simp
    have eq: "insert (q, ?new) L - {(x, old)} = insert (q, ?new) (L - {(x, old)})" using qx by auto
    obtain m' self' p' Q' where g: "tda_dealloc debug_vtable x old (?m, self1, h1, p1) = Some (m', self', h1, p')"
      and st': "settings self' = settings self1"
      and d3: "debug_ok vt ok own amax D K (m', self', h1, p') (insert (q, ?new) (L - {(x, old)})) Q'"
      and ag3: "agree ?m m' (blocks K \<union> blocks (guarded (insert (q, ?new) (L - {(x, old)}))) \<union> - own)"
      and fl: "bytes m' x (lsize old + GUARD_SIZE) = replicate (lsize old + GUARD_SIZE) FILL_FREED"
      using debug_gives [OF d2 xin] unfolding eq by blast
    have run: "tda_realloc debug_vtable x old n (m, self, h, p) = Some (q, (m', self', h1, p'))"
      using start a q cpy g by simp
    have qin: "(q, with_guard ?new) \<in> guarded (insert (q, ?new) (L - {(x, old)}))" by simp
    have "region q ?k \<subseteq> blocks (guarded (insert (q, ?new) (L - {(x, old)})))"
      using block_in_blocks [OF qin] ks(1) region_mono [of n "n + GUARD_SIZE" q] by auto
    then have "bytes m' q ?k = bytes ?m q ?k" by (intro bytes_agree agree_subset [OF ag3]) blast
    also have "\<dots> = bytes m1 x ?k" by (rule bytes_memmove)
    also have "\<dots> = bytes m x ?k"
      using block_in_blocks [OF x] LG ks(2) by (intro bytes_agree agree_subset [OF ag1]) auto
    finally have cp: "bytes m' q ?k = bytes m x ?k" .
    have "region q n \<inter> (blocks K \<union> blocks (guarded (L - {(x, old)})) \<union> - own) = {}"
    proof -
      have qo: "region q n \<subseteq> own - blocks K" using wf_blockD(4) [OF wf, of q ?new] by simp
      have "guarded (insert (q, ?new) L) - {(q, with_guard ?new)} = guarded L" using guarded_remove [OF wf, of q ?new] nL by simp
      then have "blocks (guarded L) \<subseteq> blocks (K \<union> guarded (insert (q, ?new) L) \<union> freed_of Q - {(q, with_guard ?new)})"
        using nL by (intro blocks_mono) blast
      then have "block_region (q, with_guard ?new) \<inter> blocks (guarded L) = {}"
        using ok_disjoint [OF debug_shapeD(9) [OF shq], of "(q, with_guard ?new)"] by auto
      then have "region q n \<inter> blocks (guarded L) = {}" using region_mono [of n "n + GUARD_SIZE" q] by auto
      then show ?thesis using qo sub by blast
    qed
    then have "agree m1 ?m (blocks K \<union> blocks (guarded (L - {(x, old)})) \<union> - own)" by (intro agree_subset [OF agm]) blast
    moreover have "agree m m1 (blocks K \<union> blocks (guarded (L - {(x, old)})) \<union> - own)" using sub by (intro agree_subset [OF ag1]) blast
    moreover have "agree ?m m' (blocks K \<union> blocks (guarded (L - {(x, old)})) \<union> - own)" by (rule agree_subset [OF ag3]) auto
    ultimately have "agree m m' (blocks K \<union> blocks (guarded (L - {(x, old)})) \<union> - own)" by (blast intro: agree_trans)
    then show ?thesis using run st' st1 lim q qx nL d3 cp fl by auto
  qed
qed

lemma debug_flushes:
  assumes d: "debug_ok vt ok own amax D K (m, self, h, p) L Q"
  shows "\<exists>m' self' p'. tda_debug_flush_quarantine (m, self, h, p) = Some (m', self', h, p') \<and>
    debug_ok vt ok own amax D K (m', self', h, p') L [] \<and> agree m m' (blocks K \<union> blocks (guarded L) \<union> - own)"
proof -
  have sh: "debug_shape vt ok own amax D K (m, self, h, p) L Q" and i: "intact m L" and f: "filled m Q"
    using d by (simp_all add: debug_ok_def)
  obtain m' self' p' where r: "flush_loop (m, self, h, p) = Some (m', self', h, p')"
    and sh': "debug_shape vt ok own amax D K (m', self', h, p') L []" and ag: "agree m m' (blocks K \<union> blocks (guarded L) \<union> - own)"
    using flush_run [OF sh] f by auto
  have "intact m' L" using ag by (intro intact_agree [OF i]) (auto intro: agree_subset)
  then show ?thesis using r sh' ag debug_shapeD(1) [OF sh]
    by (simp add: tda_debug_flush_quarantine_def assert_debug_def debug_ok_def filled_def)
qed

lemma debug_asks_zeroed:
  assumes d: "debug_ok vt ok own amax D K (m, self, h, p) L Q" and req: "request amax l" and may: "may_ask self"
  shows "\<exists>q m' s'. tda_alloc_zeroed debug_vtable l (m, self, h, p) = Some (q, (m', s')) \<and>
    agree m m' (blocks K \<union> - own) \<and>
    debug_ok vt ok own amax D K (m', s') (if q = 0 then L else insert (q, l) L) Q \<and>
    (q \<noteq> 0 \<longrightarrow> bytes m' q (lsize l) = replicate (lsize l) 0)"
proof -
  obtain q m1 self1 h1 p1 where a: "tda_alloc debug_vtable l (m, self, h, p) = Some (q, (m1, self1, h1, p1))"
    and ag: "agree m m1 (blocks K \<union> blocks (guarded L) \<union> blocks (freed_of Q) \<union> - own)"
    and r: "if q = 0 then debug_ok vt ok own amax D K (m1, self1, h1, p1) L Q
     else (q, l) \<notin> L \<and> debug_ok vt ok own amax D K (m1, self1, h1, p1) (insert (q, l) L) Q \<and>
       bytes m1 q (lsize l) = replicate (lsize l) FILL_NEW"
    using debug_asks [OF d req may] by blast
  have ag': "agree m m1 (blocks K \<union> - own)" by (rule agree_subset [OF ag]) blast
  have run: "tda_alloc_zeroed debug_vtable l (m, self, h, p) =
      Some (q, (if q \<noteq> 0 then memset m1 q 0 (lsize l) else m1, self1, h1, p1))"
    using a requestD [OF req] by (simp add: tda_alloc_zeroed_def debug_vtable_def)
  show ?thesis
  proof (cases "q = 0")
    case True
    then show ?thesis using run ag' r by auto
  next
    case False
    let ?m = "memset m1 q 0 (lsize l)"
    have d1: "debug_ok vt ok own amax D K (m1, self1, h1, p1) (insert (q, l) L) Q" using r False by simp
    have "debug_shape vt ok own amax D K (m1, self1, h1, p1) (insert (q, l) L) Q" using d1 by (simp add: debug_ok_def)
    from wf_blockD(4) [OF debug_shapeD(11) [OF this], of q l] have qo: "region q (lsize l) \<subseteq> own - blocks K" by simp
    have "debug_ok vt ok own amax D K (?m, self1, h1, p1) (insert (q, l) L) Q"
      by (rule debug_writes [OF d1], rule agree_memset) auto
    moreover have "agree m ?m (blocks K \<union> - own)" using qo by (intro agree_trans [OF ag' agree_memset]) blast
    ultimately show ?thesis using run False by (auto simp: bytes_memset)
  qed
qed

lemma shape_settings:
  "debug_ok vt ok own amax D K (m, self\<lparr>db_fail_after := c\<rparr>, s) L Q = debug_ok vt ok own amax D K (m, self, s) L Q"
  "debug_ok vt ok own amax D K (m, self\<lparr>db_break_at := c\<rparr>, s) L Q = debug_ok vt ok own amax D K (m, self, s) L Q"
  by (cases s; simp add: debug_ok_def debug_shape_def ring_ok_def ring_def)+

lemma debug_step_ok:
  assumes "debug_step amax s t" "debug_ok vt ok own amax D K (fst s) (snd s) Q"
  shows "\<exists>Q'. debug_ok vt ok own amax D K (fst t) (snd t) Q' \<and> agree (fst (fst s)) (fst (fst t)) (blocks K \<union> - own)"
  using assms
proof (induction rule: debug_step.induct)
  case (debug_ask l w q w' L)
  obtain m self h p where w: "w = (m, self, h, p)" by (metis prod_cases4)
  obtain q1 m' self' h' p' where "tda_alloc debug_vtable l (m, self, h, p) = Some (q1, (m', self', h', p'))"
    "agree m m' (blocks K \<union> blocks (guarded L) \<union> blocks (freed_of Q) \<union> - own)"
    "if q1 = 0 then debug_ok vt ok own amax D K (m', self', h', p') L Q
     else (q1, l) \<notin> L \<and> debug_ok vt ok own amax D K (m', self', h', p') (insert (q1, l) L) Q \<and>
       bytes m' q1 (lsize l) = replicate (lsize l) FILL_NEW"
    using debug_asks [of D K m self h p L Q l] debug_ask by (auto simp: w)
  moreover then have "agree m m' (blocks K \<union> - own)" by (blast intro: agree_subset)
  ultimately show ?case using debug_ask(3) by (auto simp: w split: if_splits)
next
  case (debug_ask_zeroed l w q w' L)
  obtain m self h p where w: "w = (m, self, h, p)" by (metis prod_cases4)
  show ?case using debug_asks_zeroed [of D K m self h p L Q l] debug_ask_zeroed by (auto simp: w)
next
  case (debug_move x l L n w q w')
  obtain m self h p where w: "w = (m, self, h, p)" by (metis prod_cases4)
  obtain q1 m' self' h' p' Q' where "tda_realloc debug_vtable x l n (m, self, h, p) = Some (q1, (m', self', h', p'))"
    "agree m m' (blocks K \<union> blocks (guarded (L - {(x, l)})) \<union> - own)"
    "if q1 = 0 then debug_ok vt ok own amax D K (m', self', h', p') L Q' \<and> agree m m' (blocks L)
     else q1 \<noteq> x \<and> (q1, l\<lparr>lsize := n\<rparr>) \<notin> L \<and>
       debug_ok vt ok own amax D K (m', self', h', p') (insert (q1, l\<lparr>lsize := n\<rparr>) (L - {(x, l)})) Q' \<and>
       bytes m' q1 (min (lsize l) n) = bytes m x (min (lsize l) n) \<and>
       bytes m' x (lsize l + GUARD_SIZE) = replicate (lsize l + GUARD_SIZE) FILL_FREED"
    using debug_moves [of D K m self h p L Q x l n] debug_move by (auto simp: w)
  moreover then have "agree m m' (blocks K \<union> - own)" by (blast intro: agree_subset)
  ultimately show ?case using debug_move(4) by (auto simp: w split: if_splits)
next
  case (debug_give x l L w w')
  obtain m self h p where w: "w = (m, self, h, p)" by (metis prod_cases4)
  obtain m' self' p' Q' where "tda_dealloc debug_vtable x l (m, self, h, p) = Some (m', self', h, p')"
    "debug_ok vt ok own amax D K (m', self', h, p') (L - {(x, l)}) Q'"
    "agree m m' (blocks K \<union> blocks (guarded (L - {(x, l)})) \<union> - own)"
    using debug_gives [of D K m self h p L Q x l] debug_give by (auto simp: w)
  moreover then have "agree m m' (blocks K \<union> - own)" by (blast intro: agree_subset)
  ultimately show ?case using debug_give(2) by (auto simp: w)
next
  case (debug_flush w w' L)
  obtain m self h p where w: "w = (m, self, h, p)" by (metis prod_cases4)
  obtain m' self' p' where "tda_debug_flush_quarantine (m, self, h, p) = Some (m', self', h, p')"
    "debug_ok vt ok own amax D K (m', self', h, p') L []" "agree m m' (blocks K \<union> blocks (guarded L) \<union> - own)"
    using debug_flushes [of D K m self h p L Q] debug_flush by (auto simp: w)
  moreover then have "agree m m' (blocks K \<union> - own)" by (blast intro: agree_subset)
  ultimately show ?case using debug_flush(1) by (auto simp: w)
next
  case (debug_limit self c self' m s L)
  then show ?case by (auto simp: tda_debug_fail_after_def chk_def shape_settings split: if_splits)
next
  case (debug_break self c self' m s L)
  then show ?case by (auto simp: tda_debug_break_at_def chk_def shape_settings split: if_splits)
next
  case (debug_write w m' L)
  obtain m self h p where w: "w = (m, self, h, p)" by (metis prod_cases4)
  have d: "debug_ok vt ok own amax D K (m, self, h, p) L Q" using debug_write(2) by (simp add: w)
  have ag: "agree m m' (- blocks L)" using debug_write(1) by (simp add: w)
  have sh: "debug_shape vt ok own amax D K (m, self, h, p) L Q" using d by (simp add: debug_ok_def)
  have "blocks L \<subseteq> own - blocks K" by (rule wf_blocks_own [OF debug_shapeD(11) [OF sh]])
  then have "agree m m' (blocks K \<union> - own)" by (intro agree_subset [OF ag]) blast
  then show ?case using debug_writes [OF d ag] by (auto simp: w)
qed

lemma debug_steps_ok:
  assumes "(debug_step amax)\<^sup>*\<^sup>* s t" "debug_ok vt ok own amax D K (fst s) (snd s) Q"
  shows "\<exists>Q'. debug_ok vt ok own amax D K (fst t) (snd t) Q' \<and> agree (fst (fst s)) (fst (fst t)) (blocks K \<union> - own)"
  using assms
proof (induction rule: rtranclp_induct)
  case (step t u)
  then show ?case using debug_step_ok [OF step(2)] by (blast intro: agree_trans)
qed auto

end

section \<open>A debug allocator over a small arena\<close>

abbreviation small_heap :: heap where
  "small_heap \<equiv> \<lambda>_. \<lparr>answers = [], live = {#}\<rparr>"

abbreviation small_ok :: "unit arena debug_world \<Rightarrow> block set \<Rightarrow> freed_block list \<Rightarrow> bool" where
  "small_ok \<equiv> debug_ok arena_vtable (arena_ok (region 4096 128) []) (region 4096 128) SIZE_MAX {#} {}"

lemma small_debug:
  obtains a :: "unit arena" and d where "tda_arena_init_buf 4096 128 = Some a" "tda_debug_init (Some arena_vtable) = Some d"
    "small_ok (\<lambda>_. 0, d, small_heap, a) {} []" "may_ask d"
    "\<not> refusable arena_vtable \<lparr>lsize = 16, lalign = 8\<rparr> (\<lambda>_. 0, d, small_heap, a)"
proof -
  obtain a :: "unit arena" where a: "tda_arena_init_buf 4096 128 = Some a"
    by (simp add: tda_arena_init_buf_def arena_fill_def)
  have "(4096 :: nat) + 128 \<le> SIZE_MAX" by (simp add: SIZE_MAX_def)
  from init_buf_ok [OF a this, of "\<lambda>_. 0"] have ok: "arena_ok (region 4096 128) [] ((\<lambda>_. 0), a) {}" .
  have a': "a = \<lparr>ar_parent = None, ar_data = 4096, ar_cap = 128, ar_offset = 0, ar_floor = 0\<rparr>"
    using a by (simp add: tda_arena_init_buf_def arena_fill_def arena_null_def)
  have l0: "lives small_heap tda_al_default = {#}" by (simp add: lives_def)
  obtain d where d: "tda_debug_init (Some arena_vtable) = Some d" "settings d = (0, SIZE_MAX, 0)"
    "debug_shape arena_vtable (arena_ok (region 4096 128) []) (region 4096 128) SIZE_MAX {#} {} ((\<lambda>_. 0), d, small_heap, a) {} []"
    using allocator.init_run [OF arena.allocator_axioms ok l0] by blast
  have ok0: "small_ok (\<lambda>_. 0, d, small_heap, a) {} []" using d(3) by (simp add: debug_ok_def intact_def filled_def)
  have may: "may_ask d" using d(2) by (simp add: may_ask_def settings_def SIZE_MAX_def)
  have cap: "bt_cap (db_table d) = 0" using d(1) by (auto simp: tda_debug_init_def debug_null_def no_table_def)
  have "tda_alloc arena_vtable (with_guard \<lparr>lsize = 16, lalign = 8\<rparr>) (\<lambda>_. 0, a) \<noteq> Some (0, w')" for w'
    unfolding a'
    by (simp add: tda_alloc_def arena_alloc_def assert_arena_def with_guard_def GUARD_SIZE_def
      tda_byte_offset_def tda_align_pad_def tda_layout_is_align_def Let_def arena_vtable_def SIZE_MAX_def
      ckd_add_def ckd_mul_def arena_block_end_def expect_aligned_def wneg_def tda_align_meets_def
      tda_byte_offset_mut_def)
  then have "\<not> refusable arena_vtable \<lparr>lsize = 16, lalign = 8\<rparr> (\<lambda>_. 0, d, small_heap, a)"
    using d(2) cap by (auto simp: refusable_def settings_def SIZE_MAX_def GUARD_SIZE_def generous_def)
  then show thesis using that [OF a d(1) ok0 may] by blast
qed

lemma small_block:
  obtains a :: "unit arena" and d q m self h p where "tda_arena_init_buf 4096 128 = Some a" "tda_debug_init (Some arena_vtable) = Some d"
    "tda_alloc debug_vtable \<lparr>lsize = 16, lalign = 8\<rparr> (\<lambda>_. 0, d, small_heap, a) = Some (q, (m, self, h, p))" "q \<noteq> 0" "may_ask self"
    "small_ok (m, self, h, p) {(q, \<lparr>lsize = 16, lalign = 8\<rparr>)} []"
proof -
  obtain a :: "unit arena" and d where a: "tda_arena_init_buf 4096 128 = Some a" and d: "tda_debug_init (Some arena_vtable) = Some d"
    and ok: "small_ok (\<lambda>_. 0, d, small_heap, a) {} []" and may: "may_ask d"
    and ref: "\<not> refusable arena_vtable \<lparr>lsize = 16, lalign = 8\<rparr> (\<lambda>_. 0, d, small_heap, a)"
    by (rule small_debug)
  have n: "db_requests d = 0" "db_break_at d = 0" using d by (auto simp: tda_debug_init_def debug_null_def)
  obtain q m self h p where al: "tda_alloc debug_vtable \<lparr>lsize = 16, lalign = 8\<rparr> (\<lambda>_. 0, d, small_heap, a) = Some (q, (m, self, h, p))"
    and st: "settings self = (db_requests d + 1, db_fail_after d, db_break_at d)" and q: "q \<noteq> 0"
    and ok': "small_ok (m, self, h, p) {(q, \<lparr>lsize = 16, lalign = 8\<rparr>)} []"
    using allocator.debug_asks [OF arena.allocator_axioms ok small_request may] ref by (auto split: if_splits)
  have "may_ask self" using st n by (simp add: may_ask_def settings_def SIZE_MAX_def)
  then show thesis using that [OF a d al q _ ok'] by blast
qed

section \<open>Properties\<close>

text \<open>
  C17: the open-addressing table of live blocks is a finite map: find is the lookup, take the
  lookup and the deletion, insert the update; the backward shift and the growth lose no record,
  and an insertion is refused only where the default allocator refuses.
\<close>

theorem debug_table:
  assumes ok: "table_ok tab" and a: "a \<noteq> 0" and own: "table_blocks tab \<subseteq># lives h tda_al_default"
  shows "table_find tab a = Some (table_map tab a) \<and>
    (\<exists>tab'. table_take tab a = Some (table_map tab a, tab') \<and> table_ok tab' \<and> table_map tab' = (table_map tab)(a := None)) \<and>
    (br_addr r = a \<and> table_map tab a = None \<longrightarrow>
       (\<exists>b tab' h'. table_insert tab r h = Some (b, tab', h') \<and> table_ok tab' \<and>
         table_map tab' = (if b then (table_map tab)(a \<mapsto> r) else table_map tab) \<and>
         requests h tda_al_default (table_blocks tab) (table_blocks tab') True h' \<and>
         (b \<or> \<not> generous h tda_al_default \<or> SIZE_MAX < 64 * bt_cap tab)))"
  using find_ok [OF ok a] take_ok [OF ok a] insert_ok [OF ok own, of r] a by blast

theorem debug_table_witness:
  "\<exists>b tab h'. table_insert no_table \<lparr>br_addr = 8, br_layout = \<lparr>lsize = 4, lalign = 4\<rparr>, br_serial = 1\<rparr>
       (\<lambda>_. \<lparr>answers = [], live = {#}\<rparr>) = Some (b, tab, h') \<and> b \<and>
     table_map tab 8 = Some \<lparr>br_addr = 8, br_layout = \<lparr>lsize = 4, lalign = 4\<rparr>, br_serial = 1\<rparr>"
proof -
  have own: "table_blocks no_table \<subseteq># lives (\<lambda>_. \<lparr>answers = [], live = {#}\<rparr>) tda_al_default"
    by (simp add: table_blocks_def no_table_def)
  have g: "generous (\<lambda>_. \<lparr>answers = [], live = {#}\<rparr>) tda_al_default" "bt_cap no_table = 0"
    by (simp_all add: generous_def no_table_def)
  show ?thesis
    using debug_table [OF no_table_ok(1) _ own, of 8 "\<lparr>br_addr = 8, br_layout = \<lparr>lsize = 4, lalign = 4\<rparr>, br_serial = 1\<rparr>"] g
    by (auto simp: no_table_ok)
qed

text \<open>
  C14: over any allocator that keeps the contract, after any history of requests, reallocations,
  frees, flushes, limits and writes of a client into its own blocks, the debug allocator reports
  no correct use: every block out can be given back, the blocks are apart and aligned, the counts
  are theirs, and deinit gives the parent and the default allocator back all but the blocks still
  out.
\<close>

theorem debug_history_safe:
  assumes al: "allocator vt ok own amax" and ok: "ok (m, p) K" and init: "tda_debug_init (Some vt) = Some d"
    and steps: "(debug_step amax)\<^sup>*\<^sup>* ((m, d, h, p), {}) (w, L)"
  shows "wf_blocks (own - blocks K) amax L \<and> agree m (fst w) (blocks K \<union> - own) \<and>
    (\<forall>(x, l) \<in> L. tda_dealloc debug_vtable x l w \<noteq> None) \<and>
    (\<exists>st. tda_debug_stats (fst (snd w)) = Some st \<and> ds_live_blocks st = card L \<and>
       ds_live_bytes st = (\<Sum>b \<in> L. lsize (snd b)) \<and> ds_live_bytes st \<le> ds_peak_bytes st) \<and>
    (\<exists>m' h' p'. tda_debug_deinit w = Some (m', debug_null, h', p') \<and> ok (m', p') (K \<union> guarded L) \<and>
       lives h' tda_al_default = lives h tda_al_default \<and> agree m m' (blocks K \<union> - own))"
proof -
  let ?D = "lives h tda_al_default"
  obtain self where "tda_debug_init (Some vt) = Some self" "debug_shape vt ok own amax ?D K (m, self, h, p) {} []"
    using allocator.init_run [OF al ok refl] by blast
  then have d0: "debug_ok vt ok own amax ?D K (m, d, h, p) {} []" using init by (simp add: debug_ok_def intact_def filled_def)
  obtain Q where d1: "debug_ok vt ok own amax ?D K w L Q" and ag: "agree m (fst w) (blocks K \<union> - own)"
    using allocator.debug_steps_ok [OF al steps, of ?D K "[]"] d0 by auto
  obtain m1 self1 h1 p1 where w: "w = (m1, self1, h1, p1)" by (metis prod_cases4)
  have sh: "debug_shape vt ok own amax ?D K (m1, self1, h1, p1) L Q" and f: "filled m1 Q" using d1 by (simp_all add: debug_ok_def w)
  note S = debug_shapeD [OF sh]
  have give: "tda_dealloc debug_vtable x l w \<noteq> None" if "(x, l) \<in> L" for x l
    using allocator.debug_gives [OF al d1 [unfolded w] that] by (auto simp: w)
  have stats: "tda_debug_stats (fst (snd w)) = Some \<lparr>ds_live_blocks = card L, ds_live_bytes = (\<Sum>b \<in> L. lsize (snd b)),
      ds_peak_bytes = db_peak self1, ds_requests = db_requests self1\<rparr>"
    using S(1,12) shape_records(3) [OF sh] by (simp add: w tda_debug_stats_def assert_debug_def)
  obtain m' h' p' where "tda_debug_deinit (m1, self1, h1, p1) = Some (m', debug_null, h', p')" "ok (m', p') (K \<union> guarded L)"
    "lives h' = (lives h1)(tda_al_default := ?D)" and ag': "agree m1 m' (blocks K \<union> blocks (guarded L) \<union> - own)"
    using allocator.deinit_run [OF al sh f] by blast
  moreover have "agree m1 m' (blocks K \<union> - own)" by (rule agree_subset [OF ag']) blast
  then have "agree m m' (blocks K \<union> - own)" using ag by (auto simp: w intro: agree_trans)
  ultimately show ?thesis using S(11,12,13) ag give stats by (auto simp: w)
qed

theorem debug_history_safe_witness:
  "\<exists>(a :: unit arena) d m' h' p'. tda_arena_init_buf 4096 64 = Some a \<and> tda_debug_init (Some arena_vtable) = Some d \<and>
    tda_debug_deinit (\<lambda>_. 0, d, \<lambda>_. \<lparr>answers = [], live = {#}\<rparr>, a) = Some (m', debug_null, h', p')"
proof -
  obtain a :: "unit arena" where a: "tda_arena_init_buf 4096 64 = Some a"
    by (simp add: tda_arena_init_buf_def arena_fill_def)
  have "(4096 :: nat) + 64 \<le> SIZE_MAX" by (simp add: SIZE_MAX_def)
  from init_buf_ok [OF a this, of "\<lambda>_. 0"] have ok: "arena_ok (region 4096 64) [] ((\<lambda>_. 0), a) {}" .
  obtain d :: "unit arena debug" where d: "tda_debug_init (Some arena_vtable) = Some d" by (simp add: tda_debug_init_def)
  from debug_history_safe [OF arena.allocator_axioms ok d rtranclp.rtrancl_refl, of "\<lambda>_. \<lparr>answers = [], live = {#}\<rparr>"] a d
  show ?thesis by blast
qed

text \<open>
  C15: whatever has been written into the parent's blocks meanwhile, guards and freed blocks
  included, a block given back is reported exactly when it is not out with that layout, when its
  guard was written, or when the quarantine is full and the block that leaves it was written; a
  resize exactly when the block is not out with that layout; a flush and deinit exactly when some
  freed block was written.
\<close>

theorem debug_detects:
  assumes al: "allocator vt ok own amax" and sh: "debug_shape vt ok own amax D K (m, self, h, p) L Q"
    and wild: "agree m m' (- blocks (guarded L \<union> freed_of Q))"
    and x: "x \<noteq> 0" "0 < lsize l" "tda_layout_is_align (lalign l)" and n: "0 < n"
  shows "(tda_dealloc debug_vtable x l (m', self, h, p) = None \<longleftrightarrow>
      (x, l) \<notin> L \<or> \<not> intact m' {(x, l)} \<or> (length Q = QUARANTINE_LEN \<and> \<not> filled m' [hd Q])) \<and>
    (tda_remap debug_vtable x l n (m', self, h, p) = None \<longleftrightarrow> (x, l) \<notin> L) \<and>
    (tda_debug_flush_quarantine (m', self, h, p) = None \<longleftrightarrow> \<not> filled m' Q) \<and>
    (tda_debug_deinit (m', self, h, p) = None \<longleftrightarrow> \<not> filled m' Q)"
proof -
  note S = debug_shapeD [OF sh]
  have "blocks (guarded L \<union> freed_of Q) \<subseteq> blocks (K \<union> guarded L \<union> freed_of Q)" by (rule blocks_mono) blast
  then have "ok (m', p) (K \<union> guarded L \<union> freed_of Q)"
    by (intro allocator.write_block [OF al S(9), unfolded fst_conv snd_conv] agree_subset [OF wild]) blast
  then have sh': "debug_shape vt ok own amax D K (m', self, h, p) L Q" by (rule allocator.shape_world [OF al sh])
  have len: "length Q \<le> QUARANTINE_LEN" using S(5,6) ring_nth(2) [of self] by (auto simp: ring_ok_def)
  have hook: "tda_dealloc debug_vtable x l (m', self, h, p) = debug_dealloc x l (m', self, h, p)"
    using x by (simp add: tda_dealloc_def debug_vtable_def)
  have live: "debug_dealloc x l (m', self, h, p) = None \<longleftrightarrow> \<not> (intact m' {(x, l)} \<and> can_push m' Q)" if "(x, l) \<in> L"
    using allocator.dealloc_live [OF al sh' that] by (elim exE conjE) simp
  have "can_push m' Q \<longleftrightarrow> \<not> (length Q = QUARANTINE_LEN \<and> \<not> filled m' [hd Q])" using len by (auto simp: can_push_def)
  then have give: "tda_dealloc debug_vtable x l (m', self, h, p) = None \<longleftrightarrow>
      (x, l) \<notin> L \<or> \<not> intact m' {(x, l)} \<or> (length Q = QUARANTINE_LEN \<and> \<not> filled m' [hd Q])"
    using live allocator.dealloc_other [OF al sh' x(1), of l] unfolding hook by blast
  have move: "tda_remap debug_vtable x l n (m', self, h, p) = None \<longleftrightarrow> (x, l) \<notin> L"
    using allocator.remap_run [OF al sh' x(1,2) n] x n by (simp add: tda_remap_def debug_vtable_def expect_aligned_def)
  have fl: "tda_debug_flush_quarantine (m', self, h, p) = None \<longleftrightarrow> \<not> filled m' Q"
    using allocator.flush_run [OF al sh'] S(1) by (auto simp: tda_debug_flush_quarantine_def assert_debug_def)
  have down: "tda_debug_deinit (m', self, h, p) = None \<longleftrightarrow> \<not> filled m' Q"
    using allocator.deinit_run [OF al sh'] fl S(1) by (auto simp: tda_debug_deinit_def assert_debug_def)
  show ?thesis by (intro conjI give move fl down)
qed

theorem debug_detects_witness:
  "\<exists>(a :: unit arena) d q m s. tda_arena_init_buf 4096 128 = Some a \<and> tda_debug_init (Some arena_vtable) = Some d \<and>
    tda_alloc debug_vtable \<lparr>lsize = 16, lalign = 8\<rparr> (\<lambda>_. 0, d, small_heap, a) = Some (q, (m, s)) \<and>
    tda_dealloc debug_vtable q \<lparr>lsize = 16, lalign = 8\<rparr> (m(q + 16 := 0), s) = None"
proof -
  obtain a :: "unit arena" and d q m self h p where a: "tda_arena_init_buf 4096 128 = Some a" "tda_debug_init (Some arena_vtable) = Some d"
      "tda_alloc debug_vtable \<lparr>lsize = 16, lalign = 8\<rparr> (\<lambda>_. 0, d, small_heap, a) = Some (q, (m, self, h, p))" and q: "q \<noteq> 0"
    and ok: "small_ok (m, self, h, p) {(q, \<lparr>lsize = 16, lalign = 8\<rparr>)} []"
    by (rule small_block)
  have sh: "debug_shape arena_vtable (arena_ok (region 4096 128) []) (region 4096 128) SIZE_MAX {#} {} (m, self, h, p)
      {(q, \<lparr>lsize = 16, lalign = 8\<rparr>)} []" using ok by (simp add: debug_ok_def)
  have wild: "agree m (m(q + 16 := 0)) (- blocks (guarded {(q, \<lparr>lsize = 16, lalign = 8\<rparr>)} \<union> freed_of []))"
    by (simp add: agree_def guarded_def freed_of_def GUARD_SIZE_def)
  have "\<not> intact (m(q + 16 := 0)) {(q, \<lparr>lsize = 16, lalign = 8\<rparr>)}"
    by (simp add: intact_def list_eq_iff_nth_eq GUARD_SIZE_def FILL_GUARD_def) (intro exI [where x = 0], simp)
  then show ?thesis
    using debug_detects [OF arena.allocator_axioms sh wild q, of "\<lparr>lsize = 16, lalign = 8\<rparr>" 1] a requestD [OF small_request] by auto
qed

text \<open>
  C16: a request is answered null only from the limit, where the size has no room for the guard,
  where the parent refuses it or where the table cannot grow, and always past the limit; otherwise
  the block is aligned, apart, filled with 0xCD, and no block out is touched.
\<close>

theorem debug_serves:
  assumes al: "allocator vt ok own amax" and d: "debug_ok vt ok own amax D K (m, self, h, p) L Q"
    and req: "request amax l" and may: "may_ask self"
  shows "\<exists>q m' self' h' p'. tda_alloc debug_vtable l (m, self, h, p) = Some (q, (m', self', h', p')) \<and>
    db_requests self' = db_requests self + 1 \<and> (db_fail_after self \<le> db_requests self \<longrightarrow> q = 0) \<and>
    (q = 0 \<longrightarrow> refusable vt l (m, self, h, p)) \<and> agree m m' (blocks L \<union> blocks K \<union> - own) \<and>
    debug_ok vt ok own amax D K (m', self', h', p') (if q = 0 then L else insert (q, l) L) Q \<and>
    (q \<noteq> 0 \<longrightarrow> lalign l dvd q \<and> region q (lsize l) \<subseteq> own - blocks K - blocks L \<and>
       bytes m' q (lsize l) = replicate (lsize l) FILL_NEW)"
proof -
  have sh: "debug_shape vt ok own amax D K (m, self, h, p) L Q" using d by (simp add: debug_ok_def)
  obtain q m' self' h' p' where run: "tda_alloc debug_vtable l (m, self, h, p) = Some (q, (m', self', h', p'))"
    and st: "settings self' = (db_requests self + 1, db_fail_after self, db_break_at self)"
    and ag: "agree m m' (blocks K \<union> blocks (guarded L) \<union> blocks (freed_of Q) \<union> - own)"
    and lim: "db_fail_after self \<le> db_requests self \<longrightarrow> q = 0" "q = 0 \<longrightarrow> refusable vt l (m, self, h, p)"
    and r: "if q = 0 then debug_ok vt ok own amax D K (m', self', h', p') L Q
     else (q, l) \<notin> L \<and> debug_ok vt ok own amax D K (m', self', h', p') (insert (q, l) L) Q \<and>
       bytes m' q (lsize l) = replicate (lsize l) FILL_NEW"
    using allocator.debug_asks [OF al d req may] by blast
  have ag': "agree m m' (blocks L \<union> blocks K \<union> - own)"
    using allocator.shape_places(3) [OF al sh] by (intro agree_subset [OF ag]) blast
  have "lalign l dvd q \<and> region q (lsize l) \<subseteq> own - blocks K - blocks L" if "q \<noteq> 0"
  proof -
    have nL: "(q, l) \<notin> L" and sh': "debug_shape vt ok own amax D K (m', self', h', p') (insert (q, l) L) Q"
      using r that by (simp_all add: debug_ok_def)
    note wf = debug_shapeD(11) [OF sh']
    show ?thesis using wf_blockD(3,4) [OF wf, of q l] wf_blocks_other [OF wf, of "(q, l)"] nL by auto
  qed
  then show ?thesis using run st ag' lim r by (auto simp: settings_def)
qed

theorem debug_serves_witness:
  "\<exists>(a :: unit arena) d q m s. tda_arena_init_buf 4096 128 = Some a \<and> tda_debug_init (Some arena_vtable) = Some d \<and>
    tda_alloc debug_vtable \<lparr>lsize = 16, lalign = 8\<rparr> (\<lambda>_. 0, d, small_heap, a) = Some (q, (m, s)) \<and> q \<noteq> 0 \<and>
    bytes m q 16 = replicate 16 0xCD"
proof -
  obtain a :: "unit arena" and d where a: "tda_arena_init_buf 4096 128 = Some a" "tda_debug_init (Some arena_vtable) = Some d"
    and ok: "small_ok (\<lambda>_. 0, d, small_heap, a) {} []" and may: "may_ask d"
    and ref: "\<not> refusable arena_vtable \<lparr>lsize = 16, lalign = 8\<rparr> (\<lambda>_. 0, d, small_heap, a)"
    by (rule small_debug)
  from debug_serves [OF arena.allocator_axioms ok small_request may] ref a show ?thesis
    unfolding FILL_NEW_def by (elim exE conjE) (simp only: layout.select_convs, blast)
qed

lemma debug_realloc_moves:
  assumes al: "allocator vt ok own amax" and d: "debug_ok vt ok own amax D K (m, self, h, p) L Q"
    and x: "(x, old) \<in> L" and req: "request amax (old\<lparr>lsize := n\<rparr>)" and may: "may_ask self"
  shows "\<exists>q m' self' h' p' Q'. tda_realloc debug_vtable x old n (m, self, h, p) = Some (q, (m', self', h', p')) \<and>
    (q = 0 \<longrightarrow> refusable vt (old\<lparr>lsize := n\<rparr>) (m, self, h, p) \<and> debug_ok vt ok own amax D K (m', self', h', p') L Q' \<and>
       agree m m' (blocks L)) \<and>
    (q \<noteq> 0 \<longrightarrow> q \<noteq> x \<and>
       debug_ok vt ok own amax D K (m', self', h', p') (insert (q, old\<lparr>lsize := n\<rparr>) (L - {(x, old)})) Q' \<and>
       bytes m' q (min (lsize old) n) = bytes m x (min (lsize old) n) \<and>
       bytes m' x (lsize old + GUARD_SIZE) = replicate (lsize old + GUARD_SIZE) FILL_FREED)"
  using allocator.debug_moves [OF al d x req may] by (smt (verit))

end
