(* ===== verification/PrintProps.thy ===== *)
theory PrintProps
  imports Printing LinkedProps HSetProps DebugSafe
begin

text \<open>
  Properties of the printing of the containers and of the leak report, stated for streams of which any
  write may fail.
\<close>

section \<open>Sequences\<close>

text \<open>
  C34: whatever the element printer is and whichever writes to the stream fail, a span, a vec, an
  array, a stack, a priority queue, a deque, a queue and a list that hold the same elements are
  written the same way, the elements in order in brackets with commas between; print adds the end
  of the line. The result is negative exactly when a write failed.
\<close>

theorem sequences_print:
  assumes v: "vec_ok v" "vec_cells v = map Some xs" and a: "arr_ok a" "adata a = map Some xs"
    and d: "deque_ok d" "deque_cells d = map Some xs" and l: "held_by list_view h (l, m)" "list_cells (l, m) = map Some xs"
  shows "let ws = bracketed (CHR ''['') (map (\<lambda>x. [fprint x]) xs) (CHR '']'') in
    writes_as ws f (tda_span_fprint (map Some xs) fprint f) (tda_span_print (map Some xs) fprint f) \<and>
    writes_as ws f (tda_vec_fprint v fprint f) (tda_vec_print v fprint f) \<and>
    writes_as ws f (tda_arr_fprint a fprint f) (tda_arr_print a fprint f) \<and>
    writes_as ws f (tda_stack_fprint \<lparr>stvec = v\<rparr> fprint f) (tda_stack_print \<lparr>stvec = v\<rparr> fprint f) \<and>
    writes_as ws f (tda_pqueue_fprint \<lparr>pqvec = v, pqcmp = Some cmp\<rparr> fprint f) (tda_pqueue_print \<lparr>pqvec = v, pqcmp = Some cmp\<rparr> fprint f) \<and>
    writes_as ws f (tda_deque_fprint d fprint f) (tda_deque_print d fprint f) \<and>
    writes_as ws f (tda_queue_fprint \<lparr>qdeque = d\<rparr> fprint f) (tda_queue_print \<lparr>qdeque = d\<rparr> fprint f) \<and>
    writes_as ws f (tda_list_fprint l m fprint f) (tda_list_print l m fprint f) \<and>
    (\<forall>fmt. printer fprint fmt \<longrightarrow> (let s = CHR ''['' # commas (map fmt xs) @ '']'' in
      prints s f (writes_all ws f) \<and> prints (s @ [CHR 0x0A]) f (writes_all (ws @ [fputc (CHR 0x0A)]) f)))"
proof -
  have V: "valloc v \<noteq> 0" "dqal d \<noteq> 0" using v(1) d(1) by (simp_all add: vec_ok_def deque_ok_def)
  show ?thesis unfolding Let_def
  proof (intro conjI allI impI)
    fix fmt assume fmt: "printer fprint fmt"
    show "prints (CHR ''['' # commas (map fmt xs) @ '']'') f (writes_all (bracketed (CHR ''['') (map (\<lambda>x. [fprint x]) xs) (CHR '']'')) f)"
      by (rule bracketed_text [OF printer.items_text [OF fmt]])
    from prints_line [OF this, of "CHR 0x0A"]
    show "prints ((CHR ''['' # commas (map fmt xs) @ '']'') @ [CHR 0x0A]) f
        (writes_all (bracketed (CHR ''['') (map (\<lambda>x. [fprint x]) xs) (CHR '']'') @ [fputc (CHR 0x0A)]) f)" .
  qed (use vec_shows [OF v, of fprint f] arr_shows [OF a, of fprint f] deque_shows [OF d, of fprint f]
      list_shows [OF l, of fprint f] span_shows [of fprint xs f] V in
      \<open>simp_all add: tda_stack_fprint_def tda_stack_print_def tda_pqueue_fprint_def tda_pqueue_print_def
        tda_queue_fprint_def tda_queue_print_def ASSERT_STACK_def ASSERT_PQUEUE_def ASSERT_QUEUE_def\<close>)
qed

theorem sequences_print_witness:
  "\<exists>r. tda_list_print two_list two_nodes tda_fprint_bool \<lparr>fl_text = ''> '', fl_faults = [Some 0, None, Some 1]\<rparr> = Some r \<and> fst r = - 1 \<and>
    fl_text (snd r) = ''> true,false]'' @ [CHR 0x0A]"
proof -
  let ?f = "\<lparr>fl_text = ''> '', fl_faults = [Some 0, None, Some 1]\<rparr>"
  let ?lay = "\<lparr>lsize = 8, lalign = 8\<rparr>"
  let ?xs = "[Some True, Some False] :: bool slots"
  have l: "list_cells (two_list, two_nodes) = map Some [True, False]"
    using list_at_nodes [OF two_list_ok(1)] by (simp add: list_cells_def two_nodes_def)
  let ?v = "\<lparr>vdata = ?xs, vlen = 2, vcap = 2, velem = ?lay, valloc = 1\<rparr>"
  have v: "vec_ok ?v" "vec_cells ?v = map Some [True, False]"
    by (simp_all add: vec_ok_def vec_cells_def tda_layout_is_type_def SIZE_MAX_def)
  let ?a = "\<lparr>adata = ?xs, alen = 2, aelem = ?lay, aal = 1\<rparr>"
  have a: "arr_ok ?a" "adata ?a = map Some [True, False]"
    by (simp_all add: arr_ok_def tda_layout_is_type_def SIZE_MAX_def)
  let ?d = "\<lparr>dqdata = ?xs, dqlen = 2, dqcap = 2, dqhead = 0, dqelem = ?lay, dqal = 1\<rparr>"
  have d: "deque_ok ?d" "deque_cells ?d = map Some [True, False]"
    by (simp_all add: deque_ok_def deque_cells_def deque_ring_def tda_layout_is_type_def SIZE_MAX_def)
  have "writes_as (bracketed (CHR ''['') (map (\<lambda>x. [tda_fprint_bool x]) [True, False]) (CHR '']'')) ?f
      (tda_list_fprint two_list two_nodes tda_fprint_bool ?f) (tda_list_print two_list two_nodes tda_fprint_bool ?f)"
    using sequences_print [OF v a d two_list_ok(3) l, of tda_fprint_bool ?f] unfolding Let_def by blast
  then show ?thesis
    by (simp add: writes_as_def bracketed_def writes_all_def tda_fprint_bool_def emit_text_def first_failure_def)
qed

section \<open>Maps and sets\<close>

text \<open>
  C35: whatever the printers are and whichever writes to the stream fail, a hash set is written
  with each of its keys once, a hash map with each of its entries once, key and value apart by a
  colon, and a bit set with its members in ascending order, in braces with commas between; the
  result is negative exactly when a write failed.
\<close>

theorem sets_print:
  assumes s: "held_by hset_view h (s, m)" and b: "bitset_ok b"
    and t: "held_by hmap_view h2 (t, m2)" "tda_layout_is_type (mval t)"
    and w: "\<forall>e \<in># hmap_entries (t, m2). snd e \<noteq> None"
  shows "(\<exists>ks. mset ks = hset_keys (s, m) \<and> (let ws = bracketed (CHR 0x7B) (map (\<lambda>k. [fprint k]) ks) (CHR 0x7D) in
      writes_as ws f (tda_hset_fprint s m fprint f) (tda_hset_print s m fprint f) \<and>
      (\<forall>fmt. printer fprint fmt \<longrightarrow> prints (CHR 0x7B # commas (map fmt ks) @ [CHR 0x7D]) f (writes_all ws f)))) \<and>
    (\<exists>es. image_mset (\<lambda>(k, x). (k, Some x)) (mset es) = hmap_entries (t, m2) \<and>
      (let ws = bracketed (CHR 0x7B) (map (entry_writes fprint val_fprint) es) (CHR 0x7D) in
      writes_as ws f (tda_hmap_fprint t m2 fprint val_fprint f) (tda_hmap_print t m2 fprint val_fprint f) \<and>
      (\<forall>fmt val_fmt. printer fprint fmt \<and> printer val_fprint val_fmt \<longrightarrow>
        prints (CHR 0x7B # commas (map (entry_text fmt val_fmt) es) @ [CHR 0x7D]) f (writes_all ws f)))) \<and>
    (let is = sorted_list_of_set (members b); ws = bracketed (CHR 0x7B) (member_writes is) (CHR 0x7D) in
      writes_as ws f (tda_bitset_fprint b f) (tda_bitset_print b f) \<and>
      prints (CHR 0x7B # commas (map dec_nat is) @ [CHR 0x7D]) f (writes_all ws f))"
proof (intro conjI)
  have "mset (walk_keys (smap s, m)) = hset_keys (s, m)" by (simp add: walk_keys_mset hset_keys_def)
  then show "\<exists>ks. mset ks = hset_keys (s, m) \<and> (let ws = bracketed (CHR 0x7B) (map (\<lambda>k. [fprint k]) ks) (CHR 0x7D) in
      writes_as ws f (tda_hset_fprint s m fprint f) (tda_hset_print s m fprint f) \<and>
      (\<forall>fmt. printer fprint fmt \<longrightarrow> prints (CHR 0x7B # commas (map fmt ks) @ [CHR 0x7D]) f (writes_all ws f)))"
    using hset_shows [OF s, of fprint f] bracketed_text [OF printer.items_text] unfolding Let_def by blast
  have sz: "lsize (mval t) \<noteq> 0" using t(2) by (auto simp: tda_layout_is_type_def)
  let ?ps = "concat (hmap_chains (t, m2))"
  let ?es = "map (\<lambda>p. (ekey m2 p, the (evl m2 p))) ?ps"
  have E: "hmap_entries (t, m2) = mset (map (\<lambda>p. (ekey m2 p, evl m2 p)) ?ps)"
    using sz by (simp add: hmap_entries_def entry_at_def [abs_def] del: mset_concat)
  then have "\<forall>p \<in> set ?ps. evl m2 p \<noteq> None" using w by (auto simp del: set_concat mset_concat)
  then have es: "map (\<lambda>p. (ekey m2 p, evl m2 p)) ?ps = map (\<lambda>(k, v). (k, Some v)) ?es" by (auto simp del: set_concat)
  have "image_mset (\<lambda>(k, x). (k, Some x)) (mset ?es) = hmap_entries (t, m2)" unfolding E es by (simp del: mset_map flip: mset_map)
  then show "\<exists>es. image_mset (\<lambda>(k, x). (k, Some x)) (mset es) = hmap_entries (t, m2) \<and>
      (let ws = bracketed (CHR 0x7B) (map (entry_writes fprint val_fprint) es) (CHR 0x7D) in
      writes_as ws f (tda_hmap_fprint t m2 fprint val_fprint f) (tda_hmap_print t m2 fprint val_fprint f) \<and>
      (\<forall>fmt val_fmt. printer fprint fmt \<and> printer val_fprint val_fmt \<longrightarrow>
        prints (CHR 0x7B # commas (map (entry_text fmt val_fmt) es) @ [CHR 0x7D]) f (writes_all ws f)))"
    using hmap_shows [OF t(1) es, of fprint val_fprint f] bracketed_text [OF entries_text] unfolding Let_def by blast
  show "let is = sorted_list_of_set (members b); ws = bracketed (CHR 0x7B) (member_writes is) (CHR 0x7D) in
      writes_as ws f (tda_bitset_fprint b f) (tda_bitset_print b f) \<and>
      prints (CHR 0x7B # commas (map dec_nat is) @ [CHR 0x7D]) f (writes_all ws f)"
    using bitset_shows [OF b] bracketed_text [OF members_text] unfolding Let_def by blast
qed

theorem sets_print_witness:
  "\<exists>t m h r. tda_hmap_insert new_map 5 (Some (Some True)) no_entries ready = Some (TDA_STATUS_OK, Some True, (t, m), h) \<and>
    tda_hmap_print t m tda_fprint_u64 tda_fprint_bool \<lparr>fl_text = [], fl_faults = [None, Some 0]\<rparr> = Some r \<and>
    fst r = - 1 \<and> fl_text (snd r) = ''{: true}'' @ [CHR 0x0A]"
proof -
  let ?f = "\<lparr>fl_text = [], fl_faults = [None, Some 0]\<rparr>"
  obtain st new c h where r: "tda_hmap_insert new_map 5 (Some (Some True)) no_entries ready = Some (st, new, c, h)"
    "call_does hmap_view ready (new_map, no_entries) (Some (st, c, h)) (one_fits new_map)
      (put_entry (heq new_map) 5 (val_given new_map (Some (Some True))) (hmap_entries (new_map, no_entries)), hmap_rest (new_map, no_entries))"
    "st = TDA_STATUS_OK \<longrightarrow> new = Some (\<not> has_key (heq new_map) 5 (hmap_entries (new_map, no_entries)))"
    using hmap_insert_ok [OF new_map_held(1) [of ready], of "Some (Some True)" 5] by auto
  obtain t m where c: "c = (t, m)" by (cases c)
  have "one_fits new_map" "generous ready (mal new_map)" by (simp_all add: new_map_def SIZE_MAX_def generous_def)
  then have st: "st = TDA_STATUS_OK" using r(2) by (auto simp: call_does_def call_grows_def hmap_view_fields)
  have new: "new = Some True" using r(3) st by (simp add: new_map_held(2) has_key_def)
  have "0 < lsize (mval new_map)" by (simp add: new_map_def)
  then have E: "hmap_entries (t, m) = {#(5, Some True)#}"
    using r(2) st by (simp add: c call_does_def hmap_view_fields put_entry_def new_map_held(2) has_key_def)
  have k: "hmap_kind t = hmap_kind new_map" using r(2) by (simp add: c call_does_def call_grows_def hmap_view_fields)
  then have V: "tda_layout_is_type (mval t)" by (simp add: hmap_kind_def new_map_def tda_layout_is_type_def)
  have held: "held_by hmap_view h (t, m)" using r(2) by (auto simp: c call_does_def intro: grows_held)
  have b: "bitset_ok \<lparr>bwords = [], nbits = 0, nwords = 0, balloc = 1\<rparr>" by (simp add: bitset_ok_def words_for_def members_def)
  have w: "\<forall>e \<in># hmap_entries (t, m). snd e \<noteq> None" using E by simp
  have one: "(1 :: al) \<noteq> 0" by simp
  obtain es :: "(64 word \<times> bool) list" where es: "image_mset (\<lambda>(k, x). (k, Some x)) (mset es) = {#(5, Some True)#}"
    "writes_as (bracketed (CHR 0x7B) (map (entry_writes tda_fprint_u64 tda_fprint_bool) es) (CHR 0x7D)) ?f
      (tda_hmap_fprint t m tda_fprint_u64 tda_fprint_bool ?f) (tda_hmap_print t m tda_fprint_u64 tda_fprint_bool ?f)"
    using sets_print [OF new_set_held(1) [OF one, of ready] b held V w, of tda_fprint_u64 ?f tda_fprint_bool,
      THEN conjunct2, THEN conjunct1] unfolding E Let_def by blast
  have e: "es = [(5, True)]" using es(1) by (cases es) (auto split: prod.splits)
  have n: "dec_nat 5 = ''5''" by code_simp
  from es(2) have "tda_hmap_print t m tda_fprint_u64 tda_fprint_bool ?f = Some (- 1, \<lparr>fl_text = ''{: true}'' @ [CHR 0x0A], fl_faults = []\<rparr>)"
    unfolding e by (simp add: writes_as_def bracketed_def entry_writes_def writes_all_def tda_fprint_bool_def tda_fprint_u64_def
        fprint_unsigned_def n emit_text_def first_failure_def)
  then show ?thesis using r(1) st new c by (cases c) auto
qed

section \<open>Leaks\<close>

text \<open>
  C18: the leak report writes one line for each block out, with its size and address, and the
  number and the bytes of them all; its result is negative exactly when a write failed.
\<close>

theorem leaks_printed:
  assumes d: "debug_ok vt ok own amax D K (m, self, h, p) L Q"
  shows "\<exists>es r. distinct es \<and> length es = card L \<and> (\<lambda>e. (br_addr e, br_layout e)) ` set es = L \<and>
    tda_debug_fprint_leaks fmt_p self f = Some r \<and>
    prints (concat (map (leak_line fmt_p) es) @ ''tda debug: '' @ dec_nat (card L) @ '' leaked, '' @
      dec_nat (\<Sum>b \<in> L. lsize (snd b)) @ '' bytes'' @ [CHR 0x0A]) f r"
proof -
  let ?es = "recs (db_table self)" and ?b = "\<lambda>e. (br_addr e, br_layout e)"
  have sh: "debug_shape vt ok own amax D K (m, self, h, p) L Q" using d by (simp add: debug_ok_def)
  note H = debug_shapeD [OF sh]
  have T: "shaped (db_table self)" "bt_len (db_table self) = length ?es" using H(2) by (simp_all add: table_ok_def)
  have dist: "distinct (map br_addr ?es)" using T(1) by (simp add: shaped_def)
  have "(x, l) \<in> L \<longleftrightarrow> (x, l) \<in> ?b ` set ?es" for x l
    using H(4) [of x l] table_map_Some [OF T(1)] by auto
  then have L: "?b ` set ?es = L" by (auto intro!: set_eqI)
  have "inj_on ?b (set ?es)" using dist by (auto simp: distinct_map inj_on_def)
  then have n: "length ?es = card L" using L card_image [of ?b "set ?es"] dist distinct_card [of ?es] by (simp add: distinct_map)
  obtain r where "tda_debug_fprint_leaks fmt_p self f = Some r"
    "prints (concat (map (leak_line fmt_p) ?es) @ leak_total self) f r"
    using leaks_shown [OF H(2)] H(1) by blast
  then show ?thesis using dist L n T(2) H(12)
    by (intro exI [where x = ?es] exI [where x = r]) (simp add: leak_total_def distinct_map)
qed

theorem leaks_printed_witness:
  "\<exists>(a :: unit arena) d q m self s r. tda_arena_init_buf 4096 128 = Some a \<and> tda_debug_init (Some arena_vtable) = Some d \<and>
    tda_alloc debug_vtable \<lparr>lsize = 16, lalign = 8\<rparr> (\<lambda>_. 0, d, small_heap, a) = Some (q, (m, self, s)) \<and>
    tda_debug_fprint_leaks (\<lambda>_. ''0x'') self \<lparr>fl_text = [], fl_faults = []\<rparr> = Some r \<and> 0 \<le> fst r"
proof -
  obtain a :: "unit arena" and d q m self h p where a: "tda_arena_init_buf 4096 128 = Some a" "tda_debug_init (Some arena_vtable) = Some d"
      "tda_alloc debug_vtable \<lparr>lsize = 16, lalign = 8\<rparr> (\<lambda>_. 0, d, small_heap, a) = Some (q, (m, self, h, p))"
    and ok: "small_ok (m, self, h, p) {(q, \<lparr>lsize = 16, lalign = 8\<rparr>)} []"
    by (rule small_block)
  obtain s r where r: "tda_debug_fprint_leaks (\<lambda>_. ''0x'') self \<lparr>fl_text = [], fl_faults = []\<rparr> = Some r"
    "prints s \<lparr>fl_text = [], fl_faults = []\<rparr> r"
    using leaks_printed [OF ok, of "\<lambda>_. ''0x''" "\<lparr>fl_text = [], fl_faults = []\<rparr>"] by blast
  have "0 \<le> fst r" using prints_no_faults(1) [OF r(2)] by simp
  then show ?thesis using a r(1) by blast
qed

end
