(* ===== verification/Sort.thy ===== *)
theory Sort
  imports Heap Merge
begin

text \<open>
  \<open>algo/sort.h\<close> and \<open>algo/sort.c\<close>. The code's \<open>s.elem.size\<close>, which picks the path of insertion
  sort, is the parameter \<open>esz\<close>; ranges of the code are inclusive.
\<close>

section \<open>insertion sort\<close>

definition INSERTION_THRESHOLD :: nat where "INSERTION_THRESHOLD = 16"

definition INSERTION_HELD_MAX :: nat where "INSERTION_HELD_MAX = 256"

fun insertion_slot_loop :: "('a \<Rightarrow> 'a \<Rightarrow> int) \<Rightarrow> 'a list \<Rightarrow> 'a \<Rightarrow> nat \<Rightarrow> nat option" where
  "insertion_slot_loop cmp s val 0 = Some 0"
| "insertion_slot_loop cmp s val (Suc slot) = do {
     prev \<leftarrow> span_get s slot;
     if tda_right_goes_first cmp prev val then insertion_slot_loop cmp s val slot else Some (Suc slot)
   }"

definition insertion_slot :: "('a \<Rightarrow> 'a \<Rightarrow> int) \<Rightarrow> 'a list \<Rightarrow> nat \<Rightarrow> nat option" where
  "insertion_slot cmp s idx = do { val \<leftarrow> span_get s idx; insertion_slot_loop cmp s val idx }"

text \<open>The path for big elements: swap the element down, from \<open>k\<close> to \<open>j\<close>.\<close>

function swap_down_loop :: "'a list \<Rightarrow> nat \<Rightarrow> nat \<Rightarrow> 'a list option" where
  "swap_down_loop s j k =
     (if k > j then do { s \<leftarrow> span_swap s (k - 1) k; swap_down_loop s j (k - 1) } else Some s)"
  by auto
termination by (relation "measure (\<lambda>(s, j, k). k)") auto

text \<open>The other path: set the element aside, and slide the run above its slot up.\<close>

definition held_insert :: "'a list \<Rightarrow> nat \<Rightarrow> nat \<Rightarrow> 'a list option" where
  "held_insert s j i =
     (if j = i then Some s
      else do {
        held \<leftarrow> span_get s i;
        run \<leftarrow> span_sub s j (i - j);
        chk (j + 1 < length s);
        span_set (take (j + 1) s @ run @ drop (i + 1) s) j held
      })"

function insertion_sort_loop :: "nat \<Rightarrow> ('a \<Rightarrow> 'a \<Rightarrow> int) \<Rightarrow> nat \<Rightarrow> 'a list \<Rightarrow> nat \<Rightarrow> 'a list option" where
  "insertion_sort_loop esz cmp len s i =
     (if i < len
      then do {
        j \<leftarrow> insertion_slot cmp s i;
        s \<leftarrow> (if esz > INSERTION_HELD_MAX then swap_down_loop s j i else held_insert s j i);
        insertion_sort_loop esz cmp len s (i + 1)
      }
      else Some s)"
  by auto
termination by (relation "measure (\<lambda>(esz, cmp, len, s, i). len - i)") auto

definition tda_span_insertion_sort :: "nat \<Rightarrow> ('a \<Rightarrow> 'a \<Rightarrow> int) \<Rightarrow> 'a list \<Rightarrow> 'a list option" where
  "tda_span_insertion_sort esz cmp s = insertion_sort_loop esz cmp (length s) s 1"

section \<open>The pivot and the three-way split\<close>

definition median3 :: "('a \<Rightarrow> 'a \<Rightarrow> int) \<Rightarrow> 'a list \<Rightarrow> nat \<Rightarrow> nat \<Rightarrow> nat \<Rightarrow> nat option" where
  "median3 cmp s a b c = do {
     ea \<leftarrow> span_get s a;
     eb \<leftarrow> span_get s b;
     ec \<leftarrow> span_get s c;
     let ab = cmp ea eb;
     let ac = cmp ea ec;
     let bc = cmp eb ec;
     if (ab \<le> 0 \<and> ac \<ge> 0) \<or> (ab \<ge> 0 \<and> ac \<le> 0) then Some a
     else if (ab \<le> 0 \<and> bc \<le> 0) \<or> (ab \<ge> 0 \<and> bc \<ge> 0) then Some b
     else Some c
   }"

definition ninther :: "('a \<Rightarrow> 'a \<Rightarrow> int) \<Rightarrow> 'a list \<Rightarrow> nat \<Rightarrow> nat \<Rightarrow> nat option" where
  "ninther cmp s left right = do {
     let len = right - left + 1;
     let mid = left + len div 2;
     let step = len div 8;
     lo \<leftarrow> median3 cmp s left (left + step) (left + 2 * step);
     md \<leftarrow> median3 cmp s (mid - step) mid (mid + step);
     hi \<leftarrow> median3 cmp s (right - 2 * step) (right - step) right;
     median3 cmp s lo md hi
   }"

text \<open>\<open>Split\<close>: the block of elements equal to the pivot, as the inclusive range \<open>[lt, gt]\<close>.\<close>

record split =
  lt :: nat
  gt :: nat

function partition3_loop ::
  "('a \<Rightarrow> 'a \<Rightarrow> int) \<Rightarrow> 'a list \<Rightarrow> nat \<Rightarrow> nat \<Rightarrow> nat \<Rightarrow> ('a list \<times> split) option" where
  "partition3_loop cmp s lo i hi =
     (if i \<le> hi
      then do {
        ei \<leftarrow> span_get s i;
        el \<leftarrow> span_get s lo;
        let c = cmp ei el;
        if c < 0 then do { s \<leftarrow> span_swap s i lo; partition3_loop cmp s (lo + 1) (i + 1) hi }
        else if c > 0
        then do {
          s \<leftarrow> span_swap s i hi;
          chk (hi > 0);
          partition3_loop cmp s lo i (hi - 1)
        }
        else partition3_loop cmp s lo (i + 1) hi
      }
      else Some (s, \<lparr>lt = lo, gt = hi\<rparr>))"
  by auto
termination by (relation "measure (\<lambda>(cmp, s, lo, i, hi). hi + 1 - i)") (auto split: if_splits)

definition partition3 ::
  "('a \<Rightarrow> 'a \<Rightarrow> int) \<Rightarrow> 'a list \<Rightarrow> nat \<Rightarrow> nat \<Rightarrow> nat \<Rightarrow> ('a list \<times> split) option" where
  "partition3 cmp s left right pivot_idx = do {
     chk (left \<le> pivot_idx \<and> pivot_idx \<le> right);
     s \<leftarrow> span_swap s left pivot_idx;
     partition3_loop cmp s left (left + 1) right
   }"

section \<open>sort\<close>

text \<open>\<open>stdc_bit_width(n) - 1\<close>\<close>

fun tda_bit_log2_floor :: "nat \<Rightarrow> nat" where
  "tda_bit_log2_floor n = (if n < 2 then 0 else Suc (tda_bit_log2_floor (n div 2)))"

definition depth_limit :: "nat \<Rightarrow> nat option" where
  "depth_limit len = do { chk (len > 1); Some (2 * tda_bit_log2_floor len) }"

text \<open>\<open>closed_range\<close> and an operation that runs on it.\<close>

definition closed_range :: "'a list \<Rightarrow> nat \<Rightarrow> nat \<Rightarrow> ('a list \<Rightarrow> 'a list option) \<Rightarrow> 'a list option" where
  "closed_range s left right = span_within s left (right - left + 1)"

text \<open>
  The loop of \<open>quicksort\<close> is the recursive call on the longer side, with the depth it has counted
  down.
\<close>

function quicksort :: "nat \<Rightarrow> ('a \<Rightarrow> 'a \<Rightarrow> int) \<Rightarrow> 'a list \<Rightarrow> nat \<Rightarrow> nat \<Rightarrow> nat \<Rightarrow> 'a list option" where
  "quicksort esz cmp s left right depth =
     (if \<not> left < right then Some s
      else if right - left + 1 \<le> INSERTION_THRESHOLD
      then closed_range s left right (tda_span_insertion_sort esz cmp)
      else if depth = 0
      then do {
        s \<leftarrow> closed_range s left right (tda_span_make_heap cmp);
        closed_range s left right (tda_span_sort_heap cmp)
      }
      else do {
        pivot_idx \<leftarrow> ninther cmp s left right;
        (s, split) \<leftarrow> partition3 cmp s left right pivot_idx;
        if lt split - left < right - gt split
        then do {
          s \<leftarrow> (if lt split > left then quicksort esz cmp s left (lt split - 1) (depth - 1) else Some s);
          quicksort esz cmp s (gt split + 1) right (depth - 1)
        }
        else do {
          s \<leftarrow> (if gt split < right then quicksort esz cmp s (gt split + 1) right (depth - 1) else Some s);
          if lt split = left then Some s else quicksort esz cmp s left (lt split - 1) (depth - 1)
        }
      })"
  by auto
termination by (relation "measure (\<lambda>(esz, cmp, s, left, right, depth). depth)") auto

definition tda_span_sort :: "nat \<Rightarrow> ('a \<Rightarrow> 'a \<Rightarrow> int) \<Rightarrow> 'a list \<Rightarrow> 'a list option" where
  "tda_span_sort esz cmp s =
     (if length s < 2 then Some s
      else do {
        depth \<leftarrow> depth_limit (length s);
        quicksort esz cmp s 0 (length s - 1) depth
      })"

section \<open>The stable sort\<close>

text \<open>
  A pass merges the runs of \<open>width\<close> of \<open>src\<close> into \<open>dst\<close>; the outer loop swaps the two. \<open>flip\<close>: the
  elements are in the buffer, that is \<open>src.data\<close> is not \<open>s.data\<close>. The width starts at 1 and
  doubles, so \<open>0 < width\<close> always holds; it is written here for the recursion to be well-founded. A
  span has fewer than \<open>2 ^ 63\<close> elements, so none of these sums wraps.
\<close>

function sort_pass ::
  "('a \<Rightarrow> 'a \<Rightarrow> int) \<Rightarrow> nat \<Rightarrow> 'a list \<Rightarrow> 'a list \<Rightarrow> nat \<Rightarrow> nat \<Rightarrow> 'a list option" where
  "sort_pass cmp len src dst width i =
     (if i < len \<and> 0 < width
      then do {
        let mid = (if i + width < len then i + width else len);
        let en = (if i + 2 * width < len then i + 2 * width else len);
        a \<leftarrow> span_sub src i (mid - i);
        b \<leftarrow> span_sub src mid (en - mid);
        dst \<leftarrow> span_within dst i (en - i) (\<lambda>d. tda_span_merge cmp d a b);
        sort_pass cmp len src dst width (i + 2 * width)
      }
      else Some dst)"
  by auto
termination by (relation "measure (\<lambda>(cmp, len, src, dst, width, i). len - i)") auto

function sort_stable_loop ::
  "('a \<Rightarrow> 'a \<Rightarrow> int) \<Rightarrow> nat \<Rightarrow> 'a list \<Rightarrow> 'a list \<Rightarrow> bool \<Rightarrow> nat \<Rightarrow> ('a list \<times> 'a list \<times> bool) option" where
  "sort_stable_loop cmp len src dst flip width =
     (if width < len \<and> 0 < width
      then do {
        dst \<leftarrow> sort_pass cmp len src dst width 0;
        sort_stable_loop cmp len dst src (\<not> flip) (width * 2)
      }
      else Some (src, dst, flip))"
  by auto
termination by (relation "measure (\<lambda>(cmp, len, src, dst, flip, width). len - width)") auto

text \<open>\<open>buf\<close>: what the allocator gave for the buffer, \<^term>\<open>None\<close> when it gave null.\<close>

definition tda_span_sort_stable ::
  "('a \<Rightarrow> 'a \<Rightarrow> int) \<Rightarrow> 'a list \<Rightarrow> 'a list option \<Rightarrow> ('a list \<times> tda_status) option" where
  "tda_span_sort_stable cmp s buf =
     (if length s < 2 then Some (s, TDA_STATUS_OK)
      else case buf of
        None \<Rightarrow> Some (s, TDA_STATUS_ERR_NO_MEM)
      | Some dst \<Rightarrow> do {
          (src, dst, flip) \<leftarrow> sort_stable_loop cmp (length s) s dst False 1;
          s \<leftarrow> (if flip then tda_span_copy dst src else Some src);
          Some (s, TDA_STATUS_OK)
        })"

section \<open>Selection\<close>

function nth_elem_loop ::
  "nat \<Rightarrow> ('a \<Rightarrow> 'a \<Rightarrow> int) \<Rightarrow> nat \<Rightarrow> 'a list \<Rightarrow> nat \<Rightarrow> nat \<Rightarrow> nat \<Rightarrow> 'a list option" where
  "nth_elem_loop esz cmp pos s left right depth =
     (if \<not> left < right then Some s
      else if depth = 0 then closed_range s left right (tda_span_sort esz cmp)
      else do {
        pivot_idx \<leftarrow> ninther cmp s left right;
        (s, split) \<leftarrow> partition3 cmp s left right pivot_idx;
        if pos < lt split then nth_elem_loop esz cmp pos s left (lt split - 1) (depth - 1)
        else if pos > gt split then nth_elem_loop esz cmp pos s (gt split + 1) right (depth - 1)
        else Some s
      })"
  by auto
termination by (relation "measure (\<lambda>(esz, cmp, pos, s, left, right, depth). depth)") auto

definition tda_span_nth_elem :: "nat \<Rightarrow> ('a \<Rightarrow> 'a \<Rightarrow> int) \<Rightarrow> 'a list \<Rightarrow> nat \<Rightarrow> 'a list option" where
  "tda_span_nth_elem esz cmp s pos = do {
     chk (pos < length s);
     if length s < 2 then Some s
     else do {
       depth \<leftarrow> depth_limit (length s);
       nth_elem_loop esz cmp pos s 0 (length s - 1) depth
     }
   }"

definition tda_span_partial_sort :: "nat \<Rightarrow> ('a \<Rightarrow> 'a \<Rightarrow> int) \<Rightarrow> 'a list \<Rightarrow> nat \<Rightarrow> 'a list option" where
  "tda_span_partial_sort esz cmp s cnt = do {
     chk (cnt \<le> length s);
     if cnt = 0 \<or> length s < 2 then Some s
     else if cnt \<ge> length s then tda_span_sort esz cmp s
     else do {
       s \<leftarrow> tda_span_nth_elem esz cmp s cnt;
       span_within s 0 cnt (tda_span_sort esz cmp)
     }
   }"

section \<open>Predicates\<close>

function is_sorted_until_loop :: "'a list \<Rightarrow> ('a \<Rightarrow> 'a \<Rightarrow> int) \<Rightarrow> nat \<Rightarrow> nat option" where
  "is_sorted_until_loop s cmp i =
     (if i < length s
      then do {
        prev \<leftarrow> span_get s (i - 1);
        cur \<leftarrow> span_get s i;
        if tda_right_goes_first cmp prev cur then Some i else is_sorted_until_loop s cmp (i + 1)
      }
      else Some (length s))"
  by auto
termination by (relation "measure (\<lambda>(s, cmp, i). length s - i)") auto

definition tda_span_is_sorted_until :: "'a list \<Rightarrow> ('a \<Rightarrow> 'a \<Rightarrow> int) \<Rightarrow> nat option" where
  "tda_span_is_sorted_until s cmp = is_sorted_until_loop s cmp 1"

definition tda_span_is_sorted :: "'a list \<Rightarrow> ('a \<Rightarrow> 'a \<Rightarrow> int) \<Rightarrow> bool option" where
  "tda_span_is_sorted s cmp = do { n \<leftarrow> tda_span_is_sorted_until s cmp; Some (n = length s) }"

declare swap_down_loop.simps [simp del] insertion_sort_loop.simps [simp del]
  partition3_loop.simps [simp del] tda_bit_log2_floor.simps [simp del] quicksort.simps [simp del]
  sort_pass.simps [simp del] sort_stable_loop.simps [simp del] nth_elem_loop.simps [simp del]
  is_sorted_until_loop.simps [simp del]

section \<open>Insertion sort is stable\<close>

lemma insertion_slot_loop_spec:
  "k \<le> length s \<Longrightarrow> \<exists>j. insertion_slot_loop cmp s val k = Some j \<and> j \<le> k \<and>
    (\<forall>i. j \<le> i \<and> i < k \<longrightarrow> cmp val (s ! i) < 0) \<and> (0 < j \<longrightarrow> \<not> cmp val (s ! (j - 1)) < 0)"
proof (induction k)
  case (Suc k)
  show ?case
  proof (cases "cmp val (s ! k) < 0")
    case True
    then show ?thesis using Suc by (auto simp: tda_right_goes_first_def less_Suc_eq)
  next
    case False
    then show ?thesis using Suc.prems by (auto simp: tda_right_goes_first_def)
  qed
qed simp

lemma swap_append:
  "(P @ a # Y @ b # Q)[length P := b, Suc (length P + length Y) := a] = P @ b # Y @ a # Q"
  by (simp add: list_update_append)

lemma swap_down_loop_eq:
  "swap_down_loop (P @ Y @ x # Q) (length P) (length P + length Y) = Some (P @ x # Y @ Q)"
proof (induction Y arbitrary: Q rule: rev_induct)
  case Nil
  then show ?case by (simp add: swap_down_loop.simps [of _ "length P" "length P"])
next
  case (snoc y Y)
  have "span_swap (P @ (Y @ [y]) @ x # Q) (length P + length Y) (Suc (length P + length Y)) =
      Some (P @ Y @ x # y # Q)"
    using swap_append [of "P @ Y" y "[]" x Q] by (simp add: nth_append)
  then show ?case
    using snoc [of "y # Q"]
    by (simp add: swap_down_loop.simps [of _ "length P" "Suc (length P + length Y)"])
qed

lemma held_insert_eq:
  "held_insert (P @ Y @ x # Q) (length P) (length P + length Y) = Some (P @ x # Y @ Q)"
proof (cases Y)
  case Nil
  then show ?thesis by (simp add: held_insert_def)
next
  case (Cons y Z)
  let ?s = "P @ Y @ x # Q"
  have "take (length P + 1) ?s = P @ [y]" "drop (length P + length Y + 1) ?s = Q"
    "take (length Y) (drop (length P) ?s) = Y" "?s ! (length P + length Y) = x"
    by (simp_all add: Cons nth_append)
  then show ?thesis by (simp add: held_insert_def Cons)
qed

definition insertion_step :: "nat \<Rightarrow> ('a \<Rightarrow> 'a \<Rightarrow> int) \<Rightarrow> 'a list \<Rightarrow> nat \<Rightarrow> 'a list option" where
  "insertion_step esz cmp s i = do {
     j \<leftarrow> insertion_slot cmp s i;
     if esz > INSERTION_HELD_MAX then swap_down_loop s j i else held_insert s j i
   }"

context total_cmp begin

lemma insert_sorted:
  assumes "sorted_by cmp (P @ Y)" "\<forall>y \<in> set Y. cmp x y < 0" "P \<noteq> [] \<longrightarrow> \<not> cmp x (last P) < 0"
  shows "sorted_by cmp (P @ x # Y)"
proof (cases P rule: rev_cases)
  case Nil
  then show ?thesis using assms by (auto simp: less_imp_le)
next
  case (snoc P' z)
  have zx: "cmp z x \<le> 0" using assms(3) by (simp add: snoc not_less_iff)
  have "\<forall>p \<in> set P'. cmp p z \<le> 0" using assms(1) by (simp add: snoc sorted_wrt_append)
  then have "\<forall>p \<in> set P'. cmp p x \<le> 0" using zx cmp_le_trans by blast
  then show ?thesis using assms(1,2) zx by (auto simp: snoc sorted_wrt_append less_imp_le)
qed

lemma insert_same_order:
  assumes "\<forall>y \<in> set Y. cmp x y < 0"
  shows "same_order cmp (P @ x # Y @ Q) (P @ Y @ x # Q)"
proof -
  have "same_order cmp ([x] @ Y) (Y @ [x])" using assms by (intro same_order_swap) auto
  then have "same_order cmp (P @ ([x] @ Y) @ Q) (P @ (Y @ [x]) @ Q)"
    using same_order_append [OF same_order_refl] same_order_append [OF _ same_order_refl] by blast
  then show ?thesis by simp
qed

end

lemma insertion_step_spec:
  assumes "i < length s"
  shows "\<exists>s'. insertion_step esz cmp s i = Some s' \<and> mset s' = mset s \<and>
    (total_cmp cmp \<longrightarrow> same_order cmp s' s \<and>
      (sorted_by cmp (take i s) \<longrightarrow> sorted_by cmp (take (Suc i) s')))"
proof -
  obtain j where j: "insertion_slot_loop cmp s (s ! i) i = Some j" "j \<le> i"
    and less: "\<And>k. j \<le> k \<Longrightarrow> k < i \<Longrightarrow> cmp (s ! i) (s ! k) < 0"
    and stop: "0 < j \<Longrightarrow> \<not> cmp (s ! i) (s ! (j - 1)) < 0"
    using insertion_slot_loop_spec [of i s cmp "s ! i"] assms by auto
  define P where "P = take j s"
  define Y where "Y = take (i - j) (drop j s)"
  define x where "x = s ! i"
  define Q where "Q = drop (Suc i) s"
  have PY: "take i s = P @ Y"
    using take_add [of j "i - j" s] j(2) by (simp add: P_def Y_def)
  have s: "s = P @ Y @ x # Q"
    using id_take_nth_drop [OF assms] PY by (simp add: x_def Q_def)
  have len: "length P = j" "length Y = i - j" using j(2) assms by (simp_all add: P_def Y_def)
  have y: "\<forall>y \<in> set Y. cmp x y < 0"
    using less j(2) assms by (auto simp: Y_def x_def in_set_conv_nth)
  have l: "P \<noteq> [] \<longrightarrow> \<not> cmp x (last P) < 0"
    using stop j(2) assms by (auto simp: P_def x_def last_conv_nth)
  have ij: "length P + length Y = i" using len j(2) by simp
  have "insertion_step esz cmp s i = Some (P @ x # Y @ Q)"
    using j(1) assms swap_down_loop_eq [of P Y x Q] held_insert_eq [of P Y x Q] ij
    by (simp add: insertion_step_def insertion_slot_def s [symmetric] len)
  moreover have "take (Suc i) (P @ x # Y @ Q) = P @ x # Y" unfolding ij [symmetric] by (simp add: Suc_diff_le)
  moreover have "total_cmp cmp \<Longrightarrow> same_order cmp (P @ x # Y @ Q) s"
    using total_cmp.insert_same_order [of cmp Y x P Q] y unfolding s by blast
  moreover have "total_cmp cmp \<Longrightarrow> sorted_by cmp (take i s) \<Longrightarrow> sorted_by cmp (P @ x # Y)"
    using total_cmp.insert_sorted [of cmp P Y x] y l unfolding PY by blast
  ultimately show ?thesis by (simp add: s)
qed

lemma insertion_sort_loop_spec:
  assumes "0 < i"
  shows "\<exists>s'. insertion_sort_loop esz cmp (length s) s i = Some s' \<and> mset s' = mset s \<and>
    (total_cmp cmp \<longrightarrow> same_order cmp s' s \<and> (sorted_by cmp (take i s) \<longrightarrow> sorted_by cmp s'))"
  using assms
proof (induction "length s - i" arbitrary: s i)
  case 0
  then show ?case by (simp add: insertion_sort_loop.simps [of esz cmp "length s" s i])
next
  case (Suc n)
  then have i: "i < length s" by linarith
  obtain t where t: "insertion_step esz cmp s i = Some t" "mset t = mset s"
    and tt: "total_cmp cmp \<Longrightarrow> same_order cmp t s"
      "total_cmp cmp \<Longrightarrow> sorted_by cmp (take i s) \<Longrightarrow> sorted_by cmp (take (Suc i) t)"
    using insertion_step_spec [OF i, of esz cmp] by blast
  have len: "length t = length s" using t(2) mset_eq_length by blast
  have n: "n = length s - Suc i" using Suc.hyps(2) by linarith
  have "insertion_sort_loop esz cmp (length s) s i = insertion_sort_loop esz cmp (length t) t (Suc i)"
    using i t(1) len
    by (auto simp: insertion_sort_loop.simps [of esz cmp "length s" s i] insertion_step_def bind_Some_iff)
  moreover obtain u where "insertion_sort_loop esz cmp (length t) t (Suc i) = Some u" "mset u = mset t"
    "total_cmp cmp \<longrightarrow> same_order cmp u t \<and> (sorted_by cmp (take (Suc i) t) \<longrightarrow> sorted_by cmp u)"
    using Suc.hyps(1) [of t "Suc i"] n len that by auto
  ultimately show ?case using t(2) tt same_order_trans [of cmp u t s] by auto
qed

lemma insertion_sort_spec:
  "\<exists>s'. tda_span_insertion_sort esz cmp s = Some s' \<and> mset s' = mset s \<and>
    (total_cmp cmp \<longrightarrow> same_order cmp s' s \<and> sorted_by cmp s')"
proof -
  have "sorted_by cmp (take 1 s)" by (cases s) simp_all
  then show ?thesis
    using insertion_sort_loop_spec [of 1 esz cmp s] by (auto simp: tda_span_insertion_sort_def)
qed

section \<open>The pivot and the split\<close>

lemma median3_in:
  "a < length s \<Longrightarrow> b < length s \<Longrightarrow> c < length s \<Longrightarrow> l \<le> a \<Longrightarrow> a \<le> r \<Longrightarrow> l \<le> b \<Longrightarrow> b \<le> r \<Longrightarrow> l \<le> c \<Longrightarrow> c \<le> r \<Longrightarrow>
   \<exists>m. median3 cmp s a b c = Some m \<and> l \<le> m \<and> m \<le> r"
  by (simp add: median3_def Let_def)

lemma ninther_in:
  assumes "left < right" "right < length s"
  shows "\<exists>m. ninther cmp s left right = Some m \<and> left \<le> m \<and> m \<le> right"
proof -
  define len where "len = right - left + 1"
  define step where "step = len div 8"
  define mid where "mid = left + len div 2"
  have two: "2 \<le> len" and rl: "right = left + (len - 1)" using assms by (auto simp: len_def)
  have st: "2 * step \<le> len - 1" "step \<le> len div 2" "len div 2 + step \<le> len - 1"
    using two unfolding step_def by linarith+
  have idx: "left + 2 * step \<le> right" "left \<le> mid - step" "mid + step \<le> right"
    "left \<le> right - 2 * step" "left \<le> mid" "mid \<le> right" "mid - step \<le> right"
    "left \<le> right - step"
    using st unfolding mid_def rl by linarith+
  obtain lo where lo: "median3 cmp s left (left + step) (left + 2 * step) = Some lo" "left \<le> lo" "lo \<le> right"
    using median3_in [of left s "left + step" "left + 2 * step" left right cmp] idx assms by auto
  obtain md where md: "median3 cmp s (mid - step) mid (mid + step) = Some md" "left \<le> md" "md \<le> right"
    using median3_in [of "mid - step" s mid "mid + step" left right cmp] idx assms by auto
  obtain hi where hi: "median3 cmp s (right - 2 * step) (right - step) right = Some hi" "left \<le> hi" "hi \<le> right"
    using median3_in [of "right - 2 * step" s "right - step" right left right cmp] idx assms by auto
  have "ninther cmp s left right = median3 cmp s lo md hi"
    unfolding ninther_def Let_def
    unfolding len_def [symmetric] step_def [symmetric] mid_def [symmetric] by (simp add: lo(1) md(1) hi(1))
  then show ?thesis using median3_in [of lo s md hi left right cmp] lo md hi assms by simp
qed

text \<open>
  The state of the split: \<open>ls\<close> is less than the pivot run \<open>es\<close>, \<open>us\<close> is untouched, \<open>gs\<close> is
  greater.
\<close>

definition split_by :: "('a \<Rightarrow> 'a \<Rightarrow> int) \<Rightarrow> 'a list \<Rightarrow> 'a list \<Rightarrow> 'a list \<Rightarrow> bool" where
  "split_by cmp ls es gs \<longleftrightarrow> (\<exists>p. (\<forall>x \<in> set ls. cmp x p < 0) \<and> (\<forall>x \<in> set es. cmp x p = 0) \<and>
     (\<forall>x \<in> set gs. cmp p x < 0))"

lemma swap_append':
  "(P @ a # Y @ b # Q)[Suc (length P + length Y) := a, length P := b] = P @ b # Y @ a # Q"
  by (simp add: list_update_append)

context total_cmp begin

lemma split_step:
  assumes "split_by cmp ls (e # es) gs"
  shows "cmp u e < 0 \<Longrightarrow> split_by cmp (ls @ [u]) (es @ [e]) gs"
    and "cmp u e > 0 \<Longrightarrow> split_by cmp ls (e # es) (u # gs)"
    and "cmp u e = 0 \<Longrightarrow> split_by cmp ls (e # es @ [u]) gs"
proof -
  obtain p where p: "\<forall>x \<in> set ls. cmp x p < 0" "cmp e p = 0" "\<forall>x \<in> set es. cmp x p = 0"
    "\<forall>x \<in> set gs. cmp p x < 0"
    using assms by (auto simp: split_by_def)
  have pe: "cmp p e = 0" using p(2) cmp_zero_iff by blast
  show "split_by cmp (ls @ [u]) (es @ [e]) gs" if "cmp u e < 0"
    unfolding split_by_def using p less_le_trans [OF that, of p] by (intro exI [of _ p]) auto
  show "split_by cmp ls (e # es) (u # gs)" if "cmp u e > 0"
  proof -
    have "cmp e u < 0" using that cmp_less_iff by blast
    then have "cmp p u < 0" using le_less_trans [of p e u] pe by simp
    then show ?thesis unfolding split_by_def using p by (intro exI [of _ p]) auto
  qed
  show "split_by cmp ls (e # es @ [u]) gs" if "cmp u e = 0"
    unfolding split_by_def using p zero_trans [OF that p(2)] by (intro exI [of _ p]) auto
qed

end

definition splits_to ::
  "('a \<Rightarrow> 'a \<Rightarrow> int) \<Rightarrow> 'a list \<Rightarrow> 'a list \<Rightarrow> 'a multiset \<Rightarrow> bool \<Rightarrow> ('a list \<times> split) option \<Rightarrow> bool" where
  "splits_to cmp P Q M given r \<longleftrightarrow> (\<exists>ls es gs.
    r = Some (P @ ls @ es @ gs @ Q, \<lparr>lt = length P + length ls, gt = length P + length ls + length es - 1\<rparr>) \<and>
    es \<noteq> [] \<and> mset (ls @ es @ gs) = M \<and> (total_cmp cmp \<longrightarrow> given \<longrightarrow> split_by cmp ls es gs))"

lemma splits_to_step:
  "splits_to cmp P Q M given r \<Longrightarrow> M = M' \<Longrightarrow> (total_cmp cmp \<Longrightarrow> given' \<Longrightarrow> given) \<Longrightarrow>
   splits_to cmp P Q M' given' r"
  unfolding splits_to_def by blast

lemma partition3_loop_spec:
  assumes "es \<noteq> []" "lo = length P + length ls" "i = lo + length es" "hi = i + length us - 1"
  shows "splits_to cmp P Q (mset (ls @ es @ us @ gs)) (split_by cmp ls es gs)
    (partition3_loop cmp (P @ ls @ es @ us @ gs @ Q) lo i hi)"
  using assms
proof (induction "length us" arbitrary: ls es us gs lo i hi)
  case 0
  have "0 < length es" using 0 by simp
  then have "\<not> i \<le> i - 1" using 0 by linarith
  then have n: "(i \<le> i - 1) = False" by simp
  have "partition3_loop cmp s lo i (i - 1) = Some (s, \<lparr>lt = lo, gt = i - 1\<rparr>)" for s
    by (simp only: partition3_loop.simps [of cmp s lo i "i - 1"] n if_False)
  then show ?case
    unfolding splits_to_def using 0 by (intro exI [of _ ls] exI [of _ es] exI [of _ gs]) simp
next
  case (Suc n)
  obtain u us' where us: "us = u # us'" "length us' = n" using Suc.hyps(2) by (cases us) auto
  obtain e es' where es: "es = e # es'" using Suc.prems by (cases es) auto
  let ?s = "P @ ls @ es @ us @ gs @ Q"
  note eqn = partition3_loop.simps [of cmp ?s lo i hi]
  note idx = Suc.prems(2-4)
  have rd: "?s ! i = u" "?s ! lo = e" by (simp_all add: idx us es nth_append)
  have len: "i < length ?s" "lo < length ?s" "hi < length ?s" "i \<le> hi" "0 < hi"
    by (simp_all add: idx us es)
  consider "cmp u e < 0" | "cmp u e > 0" | "cmp u e = 0" by linarith
  then show ?case
  proof cases
    case 1
    let ?t = "P @ (ls @ [u]) @ (es' @ [e]) @ us' @ gs @ Q"
    have "span_swap ?s i lo = Some ?t"
      using swap_append' [of "P @ ls" e es' u "us' @ gs @ Q"] len(1,2) rd by (simp add: idx us es)
    then have step: "partition3_loop cmp ?s lo i hi = partition3_loop cmp ?t (lo + 1) (i + 1) hi"
      unfolding eqn using len rd 1 by (simp add: Let_def del: append_assoc)
    show ?thesis
      unfolding step
    proof (rule splits_to_step)
      show "splits_to cmp P Q (mset ((ls @ [u]) @ (es' @ [e]) @ us' @ gs))
          (split_by cmp (ls @ [u]) (es' @ [e]) gs) (partition3_loop cmp ?t (lo + 1) (i + 1) hi)"
        by (rule Suc.hyps(1)) (simp_all add: us es idx)
    qed (simp_all add: us es total_cmp.split_step(1) 1)
  next
    case 2
    define vs where "vs = (if us' = [] then [] else last us' # butlast us')"
    have vs: "length vs = n" "mset vs = mset us'"
      using us(2) by (cases us' rule: rev_cases; simp add: vs_def)+
    let ?t = "P @ ls @ es @ vs @ (u # gs) @ Q"
    have "span_swap ?s i hi = Some ?t"
    proof (cases us' rule: rev_cases)
      case Nil
      then have hi: "hi = i" by (simp add: idx us(1))
      have "span_swap ?s i i = Some ?s" using len(1) by simp
      then show ?thesis unfolding hi using Nil by (simp add: us(1) vs_def)
    next
      case (snoc v w)
      then have hi: "hi = Suc (length (P @ ls @ es) + length v)" by (simp add: idx us(1))
      moreover have "?s ! hi = w" by (simp add: hi us(1) snoc nth_append)
      moreover have "i = length (P @ ls @ es)" by (simp add: idx)
      ultimately show ?thesis
        using swap_append [of "P @ ls @ es" u v w "gs @ Q"] len rd by (simp add: us(1) vs_def snoc)
    qed
    then have step: "partition3_loop cmp ?s lo i hi = partition3_loop cmp ?t lo i (hi - 1)"
      unfolding eqn using len rd 2 by (simp add: Let_def)
    show ?thesis
      unfolding step
    proof (rule splits_to_step)
      show "splits_to cmp P Q (mset (ls @ es @ vs @ (u # gs))) (split_by cmp ls es (u # gs))
          (partition3_loop cmp ?t lo i (hi - 1))"
        by (rule Suc.hyps(1)) (simp_all add: us es idx vs)
    qed (simp_all add: us vs es total_cmp.split_step(2) 2)
  next
    case 3
    let ?t = "P @ ls @ (es @ [u]) @ us' @ gs @ Q"
    have step: "partition3_loop cmp ?s lo i hi = partition3_loop cmp ?t lo (i + 1) hi"
      unfolding eqn using len rd 3 by (simp add: Let_def us)
    show ?thesis
      unfolding step
    proof (rule splits_to_step)
      show "splits_to cmp P Q (mset (ls @ (es @ [u]) @ us' @ gs)) (split_by cmp ls (es @ [u]) gs)
          (partition3_loop cmp ?t lo (i + 1) hi)"
        by (rule Suc.hyps(1)) (simp_all add: us es idx)
    qed (simp_all add: us es total_cmp.split_step(3) 3)
  qed
qed

lemma partition3_spec:
  assumes "xs \<noteq> []" "length P \<le> k" "k < length P + length xs"
  shows "splits_to cmp P Q (mset xs) True (partition3 cmp (P @ xs @ Q) (length P) (length P + length xs - 1) k)"
proof -
  define m where "m = k - length P"
  have m: "m < length xs" "k = length P + m" using assms by (auto simp: m_def)
  define ys where "ys = xs[0 := xs ! m, m := xs ! 0]"
  have ys: "mset ys = mset xs" "length ys = length xs" using m(1) by (auto simp: ys_def intro: mset_swap)
  have sw: "span_swap (P @ xs @ Q) (length P) k = Some (P @ ys @ Q)"
    using assms m by (simp add: ys_def nth_append list_update_append)
  obtain y us where yu: "ys = y # us" using ys(2) assms(1) by (cases ys) auto
  have hi: "length P + length xs - 1 = length P + length us" using ys(2) yu by simp
  have "total_cmp cmp \<Longrightarrow> split_by cmp [] [y] []"
    unfolding split_by_def by (intro exI [of _ y]) (simp add: total_cmp.cmp_refl)
  moreover have "partition3 cmp (P @ xs @ Q) (length P) (length P + length xs - 1) k =
      partition3_loop cmp (P @ [] @ [y] @ us @ [] @ Q) (length P) (length P + 1) (length P + length us)"
  proof -
    have k: "length P \<le> k \<and> k \<le> length P + length us" using assms(2,3) ys(2) yu by simp
    show ?thesis unfolding partition3_def hi using sw k yu by simp
  qed
  moreover have "splits_to cmp P Q (mset ([] @ [y] @ us @ [])) (split_by cmp [] [y] [])
      (partition3_loop cmp (P @ [] @ [y] @ us @ [] @ Q) (length P) (length P + 1) (length P + length us))"
    by (rule partition3_loop_spec) simp_all
  ultimately show ?thesis using ys(1) yu by (auto intro: splits_to_step)
qed

lemma log2_floor_eq: "0 < n \<Longrightarrow> 2 ^ tda_bit_log2_floor n \<le> n \<and> n < 2 ^ Suc (tda_bit_log2_floor n)"
proof (induction n rule: tda_bit_log2_floor.induct)
  case (1 n)
  show ?case
  proof (cases "n < 2")
    case True
    then show ?thesis using 1(2) by (simp add: tda_bit_log2_floor.simps [of n])
  next
    case False
    then have IH: "2 ^ tda_bit_log2_floor (n div 2) \<le> n div 2" "n div 2 < 2 ^ Suc (tda_bit_log2_floor (n div 2))"
      using 1(1) by simp_all
    have e: "tda_bit_log2_floor n = Suc (tda_bit_log2_floor (n div 2))"
      using False by (simp add: tda_bit_log2_floor.simps [of n])
    show ?thesis unfolding e using IH by simp linarith
  qed
qed

section \<open>Quicksort\<close>

definition sorts_as :: "('a \<Rightarrow> 'a \<Rightarrow> int) \<Rightarrow> 'a list \<Rightarrow> 'a list \<Rightarrow> bool" where
  "sorts_as cmp xs ys \<longleftrightarrow> mset ys = mset xs \<and> (total_cmp cmp \<longrightarrow> sorted_by cmp ys)"

lemma closed_range_eq:
  assumes "xs \<noteq> []" "f xs = Some ys"
  shows "closed_range (P @ xs @ Q) (length P) (length P + length xs - 1) f = Some (P @ ys @ Q)"
proof -
  have "length P + length xs - 1 - length P + 1 = length xs" using assms(1) by (cases xs) simp_all
  then show ?thesis
    unfolding closed_range_def using span_within_eq [of "length P" "length xs" "P @ xs @ Q" f ys] assms(2) by simp
qed

lemma split_sorts:
  assumes "sorts_as cmp ls ls'" "sorts_as cmp gs gs'" "total_cmp cmp \<longrightarrow> split_by cmp ls es gs"
    "mset (ls @ es @ gs) = mset xs"
  shows "sorts_as cmp xs (ls' @ es @ gs')"
proof -
  have "sorted_by cmp (ls' @ es @ gs')" if c: "total_cmp cmp"
  proof -
    obtain p where p: "\<forall>x \<in> set ls. cmp x p < 0" "\<forall>x \<in> set es. cmp x p = 0" "\<forall>x \<in> set gs. cmp p x < 0"
      using assms(3) c by (auto simp: split_by_def)
    have set: "set ls' = set ls" "set gs' = set gs"
      using assms(1,2) by (auto simp: sorts_as_def dest: mset_eq_setD)
    have "cmp x y \<le> 0" if "cmp x p \<le> 0" "cmp p y \<le> 0" for x y
      using total_cmp.cmp_le_trans [OF c that] .
    moreover have "\<forall>x \<in> set es. cmp p x \<le> 0 \<and> cmp x p \<le> 0"
      using p(2) total_cmp.cmp_zero_iff [OF c] by (metis order_refl)
    moreover have "\<forall>x \<in> set ls. cmp x p \<le> 0" "\<forall>x \<in> set gs. cmp p x \<le> 0" using p by force+
    moreover have "sorted_by cmp es"
      unfolding sorted_wrt_iff_nth_less using calculation(1,2) by force
    ultimately show ?thesis
      using assms(1,2) c by (auto simp: sorts_as_def sorted_wrt_append set)
  qed
  moreover have "mset (ls' @ es @ gs') = mset xs" using assms(1,2,4) by (simp add: sorts_as_def)
  ultimately show ?thesis by (simp add: sorts_as_def)
qed

lemma heap_sort_sorts_as:
  "\<exists>h ys. tda_span_make_heap cmp xs = Some h \<and> tda_span_sort_heap cmp h = Some ys \<and>
    mset h = mset xs \<and> sorts_as cmp xs ys"
proof (cases "total_cmp cmp")
  case True
  obtain h where h: "tda_span_make_heap cmp xs = Some h" "heap_on cmp h (length xs) 0" "mset h = mset xs"
    using total_cmp.make_heap_spec [OF True] by blast
  then have "length xs = length h" by (metis size_mset)
  then show ?thesis using total_cmp.sort_heap_spec [OF True, of h] h by (auto simp: sorts_as_def)
next
  case False
  then show ?thesis
    using make_heap_total [of cmp xs] sort_heap_total [of cmp] by (metis sorts_as_def)
qed

lemma sorts_as_refl_1: "length xs < 2 \<Longrightarrow> sorts_as cmp xs xs"
  by (cases xs) (auto simp: sorts_as_def)

lemma sorts_as_length: "sorts_as cmp xs ys \<Longrightarrow> length ys = length xs"
  by (metis sorts_as_def size_mset)

lemma insertion_sort_sorts_as: "\<exists>ys. tda_span_insertion_sort esz cmp xs = Some ys \<and> sorts_as cmp xs ys"
  using insertion_sort_spec [of esz cmp xs] by (auto simp: sorts_as_def)

lemma quicksort_spec:
  assumes "xs \<noteq> []" "left = length P" "right = length P + length xs - 1"
  shows "\<exists>ys. quicksort esz cmp (P @ xs @ Q) left right depth = Some (P @ ys @ Q) \<and> sorts_as cmp xs ys"
  using assms
proof (induction depth arbitrary: P xs Q left right rule: less_induct)
  case (less depth)
  let ?s = "P @ xs @ Q"
  note eqn = quicksort.simps [of esz cmp ?s left right depth]
  note idx = less.prems(2,3)
  consider (short) "\<not> left < right" | (insertion) "left < right" "right - left + 1 \<le> INSERTION_THRESHOLD"
    | (heap) "left < right" "\<not> right - left + 1 \<le> INSERTION_THRESHOLD" "depth = 0"
    | (split) "left < right" "\<not> right - left + 1 \<le> INSERTION_THRESHOLD" "0 < depth"
    by blast
  then show ?case
  proof cases
    case short
    then have "length xs < 2" using less.prems by simp
    then show ?thesis using short sorts_as_refl_1 unfolding eqn by auto
  next
    case insertion
    obtain ys where ys: "tda_span_insertion_sort esz cmp xs = Some ys" "sorts_as cmp xs ys"
      using insertion_sort_sorts_as by blast
    then have "closed_range ?s left right (tda_span_insertion_sort esz cmp) = Some (P @ ys @ Q)"
      unfolding idx by (intro closed_range_eq less.prems(1))
    then show ?thesis using insertion ys(2) unfolding eqn by simp
  next
    case heap
    obtain h ys where h: "tda_span_make_heap cmp xs = Some h" "tda_span_sort_heap cmp h = Some ys"
      "mset h = mset xs" and ys: "sorts_as cmp xs ys"
      using heap_sort_sorts_as by blast
    have len: "length h = length xs" using h(3) by (metis size_mset)
    have 1: "closed_range ?s left right (tda_span_make_heap cmp) = Some (P @ h @ Q)"
      unfolding idx using less.prems(1) h(1) by (rule closed_range_eq)
    have 2: "closed_range (P @ h @ Q) left right (tda_span_sort_heap cmp) = Some (P @ ys @ Q)"
      using closed_range_eq [of h "tda_span_sort_heap cmp" ys P Q] h(2) len less.prems by fastforce
    show ?thesis using heap 1 2 ys unfolding eqn by simp
  next
    case split
    have "right < length ?s" using less.prems(1) by (cases xs) (auto simp: idx)
    then obtain k where k: "ninther cmp ?s left right = Some k" "left \<le> k" "k \<le> right"
      using ninther_in split(1) by blast
    then have "length P \<le> k" "k < length P + length xs" using less.prems(1) split(1) idx by auto
    then have "splits_to cmp P Q (mset xs) True (partition3 cmp ?s left right k)"
      unfolding idx by (intro partition3_spec less.prems(1))
    then obtain ls es gs where
      part: "partition3 cmp ?s left right k = Some (P @ ls @ es @ gs @ Q,
        \<lparr>lt = length P + length ls, gt = length P + length ls + length es - 1\<rparr>)"
      and es: "es \<noteq> []" and ms: "mset (ls @ es @ gs) = mset xs"
      and spl: "total_cmp cmp \<longrightarrow> split_by cmp ls es gs"
      unfolding splits_to_def by blast
    have xl: "length xs = length ls + length es + length gs" using ms by (metis add.assoc length_append size_mset)
    have sub: "\<exists>ys. (if zs = [] then Some (A @ zs @ B) else quicksort esz cmp (A @ zs @ B) l r (depth - 1)) =
        Some (A @ ys @ B) \<and> sorts_as cmp zs ys" if "l = length A" "r = length A + length zs - 1" for A zs B l r
      using less.IH [of "depth - 1" zs l A r B] split(3) that by (cases "zs = []") (auto simp: sorts_as_def)
    let ?lt = "length P + length ls" and ?gt = "length P + length ls + length es - 1"
    have le: "?gt + 1 = ?lt + length es" "left = length P" "right = ?lt + length es + length gs - 1"
      using es by (cases es; simp add: idx xl)+
    have flags: "?lt > left \<longleftrightarrow> ls \<noteq> []" "?lt = left \<longleftrightarrow> ls = []" "?gt < right \<longleftrightarrow> gs \<noteq> []"
      "?lt - left < right - ?gt \<longleftrightarrow> length ls < length gs"
      using es by (cases es; cases gs; simp add: idx xl)+
    show ?thesis
    proof (cases "length ls < length gs")
      case True
      then have gs: "gs \<noteq> []" by auto
      obtain ls' where ls': "(if ls = [] then Some (P @ ls @ es @ gs @ Q)
          else quicksort esz cmp (P @ ls @ es @ gs @ Q) left (?lt - 1) (depth - 1)) = Some (P @ ls' @ es @ gs @ Q)"
        "sorts_as cmp ls ls'"
        using sub [of left P "?lt - 1" ls "es @ gs @ Q"] le(2) by auto
      have len: "length ls' = length ls" using ls'(2) by (rule sorts_as_length)
      obtain gs' where gs': "quicksort esz cmp (P @ ls' @ es @ gs @ Q) (?gt + 1) right (depth - 1) =
          Some (P @ ls' @ es @ gs' @ Q)" "sorts_as cmp gs gs'"
        using sub [of "?gt + 1" "P @ ls' @ es" right gs Q] le gs len by (auto simp: add_ac)
      have "quicksort esz cmp ?s left right depth = Some (P @ ls' @ es @ gs' @ Q)"
        unfolding eqn using split k(1) part ls'(1) gs'(1) True flags
        by (cases "ls = []") (simp_all del: One_nat_def)
      then show ?thesis using split_sorts [OF ls'(2) gs'(2) spl ms] by auto
    next
      case False
      have l: "?gt + 1 = length (P @ ls @ es)" "right = length (P @ ls @ es) + length gs - 1"
        using le by simp_all
      obtain gs' where gs': "(if gs = [] then Some (P @ ls @ es @ gs @ Q)
          else quicksort esz cmp (P @ ls @ es @ gs @ Q) (?gt + 1) right (depth - 1)) = Some (P @ ls @ es @ gs' @ Q)"
        "sorts_as cmp gs gs'"
        using sub [of "?gt + 1" "P @ ls @ es" right gs Q, OF l] unfolding append_assoc by blast
      obtain ls' where ls': "(if ls = [] then Some (P @ ls @ es @ gs' @ Q)
          else quicksort esz cmp (P @ ls @ es @ gs' @ Q) left (?lt - 1) (depth - 1)) = Some (P @ ls' @ es @ gs' @ Q)"
        "sorts_as cmp ls ls'"
        using sub [of left P "?lt - 1" ls "es @ gs' @ Q"] le(2) by auto
      have "quicksort esz cmp ?s left right depth = Some (P @ ls' @ es @ gs' @ Q)"
        unfolding eqn using split k(1) part ls'(1) gs'(1) False flags
        by (cases "ls = []"; cases "gs = []") (simp_all del: One_nat_def)
      then show ?thesis using split_sorts [OF ls'(2) gs'(2) spl ms] by auto
    qed
  qed
qed

lemma sort_spec: "\<exists>ys. tda_span_sort esz cmp s = Some ys \<and> sorts_as cmp s ys"
proof (cases "length s < 2")
  case True
  then show ?thesis by (simp add: tda_span_sort_def sorts_as_refl_1)
next
  case False
  then have "s \<noteq> []" by auto
  then obtain ys where "quicksort esz cmp s 0 (length s - 1) (2 * tda_bit_log2_floor (length s)) = Some ys"
    "sorts_as cmp s ys"
    using quicksort_spec [of s 0 "[]" "length s - 1" esz cmp "[]"] by auto
  then show ?thesis using False by (simp add: tda_span_sort_def depth_limit_def)
qed

section \<open>Selection\<close>

text \<open>
  \<open>placed cmp t k\<close>: nothing before position \<open>k\<close> is greater than the element there and nothing after
  it is less. \<open>between\<close> is the invariant of the loop: the range still in play lies between what is
  before it and what is after it.
\<close>

definition placed :: "('a \<Rightarrow> 'a \<Rightarrow> int) \<Rightarrow> 'a list \<Rightarrow> nat \<Rightarrow> bool" where
  "placed cmp t k \<longleftrightarrow> k < length t \<and> (\<forall>x \<in> set (take k t). cmp x (t ! k) \<le> 0) \<and>
     (\<forall>x \<in> set (drop (Suc k) t). cmp (t ! k) x \<le> 0)"

definition between :: "('a \<Rightarrow> 'a \<Rightarrow> int) \<Rightarrow> 'a list \<Rightarrow> 'a list \<Rightarrow> 'a list \<Rightarrow> bool" where
  "between cmp P xs Q \<longleftrightarrow> (\<forall>p \<in> set P. \<forall>y \<in> set xs \<union> set Q. cmp p y \<le> 0) \<and>
     (\<forall>x \<in> set xs. \<forall>q \<in> set Q. cmp x q \<le> 0)"

lemma placed_append:
  assumes "k = length P + length A" "between cmp P (A @ x # B) Q"
    "\<forall>a \<in> set A. cmp a x \<le> 0" "\<forall>b \<in> set B. cmp x b \<le> 0"
  shows "placed cmp (P @ (A @ x # B) @ Q) k"
  using assms by (auto simp: placed_def between_def nth_append)

lemma placed_sorted:
  assumes "length P \<le> k" "k < length P + length ys" "between cmp P ys Q" "sorted_by cmp ys"
  shows "placed cmp (P @ ys @ Q) k"
proof -
  let ?m = "k - length P"
  have m: "?m < length ys" using assms by linarith
  have ys: "ys = take ?m ys @ ys ! ?m # drop (Suc ?m) ys" using m by (rule id_take_nth_drop)
  have "\<forall>a \<in> set (take ?m ys). cmp a (ys ! ?m) \<le> 0" "\<forall>b \<in> set (drop (Suc ?m) ys). cmp (ys ! ?m) b \<le> 0"
    using assms(4) by (subst (asm) ys, simp add: sorted_wrt_append)+
  then show ?thesis
    using placed_append [of k P "take ?m ys" cmp "ys ! ?m" "drop (Suc ?m) ys" Q] assms m by (simp flip: ys)
qed

lemma between_mset: "mset ys = mset xs \<Longrightarrow> between cmp P xs Q \<Longrightarrow> between cmp P ys Q"
  unfolding between_def by (metis mset_eq_setD)

context total_cmp begin

lemma between_split:
  assumes "between cmp P (ls @ es @ gs) Q" "split_by cmp ls es gs"
  shows "between cmp P ls (es @ gs @ Q)" "between cmp (P @ ls @ es) gs Q"
    "e \<in> set es \<Longrightarrow> x \<in> set ls \<union> set es \<Longrightarrow> cmp x e \<le> 0"
    "e \<in> set es \<Longrightarrow> x \<in> set es \<union> set gs \<Longrightarrow> cmp e x \<le> 0"
proof -
  obtain p where p: "\<forall>x \<in> set ls. cmp x p < 0" "\<forall>x \<in> set es. cmp x p = 0" "\<forall>x \<in> set gs. cmp p x < 0"
    using assms(2) by (auto simp: split_by_def)
  have es: "\<forall>x \<in> set es. cmp p x = 0" using p(2) cmp_zero_iff by blast
  have lo: "cmp x p \<le> 0" if "x \<in> set ls \<union> set es" for x using that p by force
  have hi: "cmp p x \<le> 0" if "x \<in> set es \<union> set gs" for x using that p es by force
  have le: "cmp x y \<le> 0" if "x \<in> set ls \<union> set es" "y \<in> set es \<union> set gs" for x y
    using cmp_le_trans [OF lo [OF that(1)] hi [OF that(2)]] .
  show "between cmp P ls (es @ gs @ Q)" "between cmp (P @ ls @ es) gs Q"
    using assms(1) le by (auto simp: between_def)
  show "e \<in> set es \<Longrightarrow> x \<in> set ls \<union> set es \<Longrightarrow> cmp x e \<le> 0"
    "e \<in> set es \<Longrightarrow> x \<in> set es \<union> set gs \<Longrightarrow> cmp e x \<le> 0"
    using le by auto
qed

end

definition selects :: "('a \<Rightarrow> 'a \<Rightarrow> int) \<Rightarrow> 'a list \<Rightarrow> nat \<Rightarrow> bool \<Rightarrow> 'a list option \<Rightarrow> bool" where
  "selects cmp s k given r \<longleftrightarrow> (\<exists>t. r = Some t \<and> mset t = mset s \<and> (total_cmp cmp \<longrightarrow> given \<longrightarrow> placed cmp t k))"

lemma selects_step:
  "selects cmp s k given r \<Longrightarrow> mset s = mset s' \<Longrightarrow> (total_cmp cmp \<Longrightarrow> given' \<Longrightarrow> given) \<Longrightarrow>
   selects cmp s' k given' r"
  unfolding selects_def by (auto 0 3)

lemma nth_elem_loop_spec:
  assumes "left = length P" "right = length P + length xs - 1" "length P \<le> k" "k < length P + length xs"
  shows "selects cmp (P @ xs @ Q) k (between cmp P xs Q) (nth_elem_loop esz cmp k (P @ xs @ Q) left right depth)"
  using assms
proof (induction depth arbitrary: P xs Q left right rule: less_induct)
  case (less depth)
  let ?s = "P @ xs @ Q"
  note eqn = nth_elem_loop.simps [of esz cmp k ?s left right depth]
  note idx = less.prems(1,2)
  have ne: "xs \<noteq> []" using less.prems by auto
  consider (one) "\<not> left < right" | (deep) "left < right" "depth = 0" | (split) "left < right" "0 < depth"
    by blast
  then show ?case
  proof cases
    case one
    then obtain x where xs: "xs = [x]" using idx ne by (cases xs) auto
    have "k = length P" using less.prems by (simp add: xs)
    then have "placed cmp ?s k" if "between cmp P xs Q"
      using placed_append [of k P "[]" cmp x "[]" Q] that by (simp add: xs)
    then show ?thesis unfolding eqn using one by (simp add: selects_def)
  next
    case deep
    obtain ys where ys: "tda_span_sort esz cmp xs = Some ys" "sorts_as cmp xs ys" using sort_spec by blast
    then have "closed_range ?s left right (tda_span_sort esz cmp) = Some (P @ ys @ Q)"
      unfolding idx by (intro closed_range_eq ne)
    moreover have "placed cmp (P @ ys @ Q) k" if "total_cmp cmp" "between cmp P xs Q"
      using that ys(2) sorts_as_length [OF ys(2)] less.prems
      by (intro placed_sorted) (auto simp: sorts_as_def intro: between_mset)
    ultimately show ?thesis unfolding eqn using deep ys(2) by (simp add: selects_def sorts_as_def)
  next
    case split
    have "right < length ?s" using ne by (cases xs) (auto simp: idx)
    then obtain m where m: "ninther cmp ?s left right = Some m" "left \<le> m" "m \<le> right"
      using ninther_in split(1) by blast
    then have "length P \<le> m" "m < length P + length xs" using ne split(1) idx by auto
    then have "splits_to cmp P Q (mset xs) True (partition3 cmp ?s left right m)"
      unfolding idx by (intro partition3_spec ne)
    then obtain ls es gs where
      part: "partition3 cmp ?s left right m = Some (P @ ls @ es @ gs @ Q,
        \<lparr>lt = length P + length ls, gt = length P + length ls + length es - 1\<rparr>)"
      and es: "es \<noteq> []" and ms: "mset (ls @ es @ gs) = mset xs"
      and spl: "total_cmp cmp \<longrightarrow> split_by cmp ls es gs"
      unfolding splits_to_def by blast
    have xl: "length xs = length ls + length es + length gs" using ms by (metis add.assoc length_append size_mset)
    let ?t = "P @ ls @ es @ gs @ Q" and ?lt = "length P + length ls"
      and ?gt = "length P + length ls + length es - 1"
    have ge: "?gt + 1 = length (P @ ls @ es)" using es by (cases es) simp_all
    have eqt: "mset ?t = mset ?s" using ms by simp
    have bt: "between cmp P (ls @ es @ gs) Q" if "between cmp P xs Q"
      using between_mset [OF ms that] .
    have step: "nth_elem_loop esz cmp k ?s left right depth =
      (if k < ?lt then nth_elem_loop esz cmp k ?t left (?lt - 1) (depth - 1)
       else if k > ?gt then nth_elem_loop esz cmp k ?t (?gt + 1) right (depth - 1) else Some ?t)"
      unfolding eqn using split m(1) part by simp
    consider "k < ?lt" | "\<not> k < ?lt" "k > ?gt" | "\<not> k < ?lt" "\<not> k > ?gt" by blast
    then show ?thesis
    proof cases
      case 1
      have "selects cmp (P @ ls @ (es @ gs @ Q)) k (between cmp P ls (es @ gs @ Q))
          (nth_elem_loop esz cmp k (P @ ls @ (es @ gs @ Q)) left (?lt - 1) (depth - 1))"
        by (rule less.IH) (use split 1 less.prems in simp_all)
      then show ?thesis
        unfolding step using 1 eqt bt spl total_cmp.between_split(1) [of cmp P ls es gs Q]
        by (auto intro: selects_step)
    next
      case 2
      have "selects cmp ((P @ ls @ es) @ gs @ Q) k (between cmp (P @ ls @ es) gs Q)
          (nth_elem_loop esz cmp k ((P @ ls @ es) @ gs @ Q) (?gt + 1) right (depth - 1))"
        by (rule less.IH) (use split 2 less.prems ge xl in simp_all)
      then show ?thesis
        unfolding step using 2 eqt bt spl total_cmp.between_split(2) [of cmp P ls es gs Q]
        by (auto intro: selects_step)
    next
      case 3
      define n where "n = k - ?lt"
      have n: "n < length es" "k = ?lt + n" using 3 es by (cases es; auto simp: n_def)+
      define x where "x = es ! n"
      have x: "x \<in> set es" using n by (simp add: x_def)
      have et: "es = take n es @ x # drop (Suc n) es" unfolding x_def using n(1) by (rule id_take_nth_drop)
      have "placed cmp ?t k" if "total_cmp cmp" "between cmp P xs Q"
      proof -
        note b = total_cmp.between_split [OF that(1) bt [OF that(2)] spl [rule_format, OF that(1)]]
        have sub: "set (take n es) \<subseteq> set es" "set (drop (Suc n) es) \<subseteq> set es"
          by (simp_all add: set_take_subset set_drop_subset)
        have whole: "ls @ es @ gs = (ls @ take n es) @ x # (drop (Suc n) es @ gs)"
          by (subst et) simp
        have "placed cmp (P @ ((ls @ take n es) @ x # (drop (Suc n) es @ gs)) @ Q) k"
        proof (rule placed_append)
          show "between cmp P ((ls @ take n es) @ x # (drop (Suc n) es @ gs)) Q"
            using bt [OF that(2)] unfolding whole .
        qed (use n sub b(3,4) [OF x] in auto)
        then show ?thesis unfolding whole [symmetric] by simp
      qed
      then show ?thesis unfolding step using 3 eqt by (simp add: selects_def)
    qed
  qed
qed

lemma nth_elem_spec:
  assumes "k < length s"
  shows "\<exists>t. tda_span_nth_elem esz cmp s k = Some t \<and> mset t = mset s \<and> (total_cmp cmp \<longrightarrow> placed cmp t k)"
proof (cases "length s < 2")
  case True
  then show ?thesis using assms by (cases s) (auto simp: tda_span_nth_elem_def placed_def)
next
  case False
  have "selects cmp ([] @ s @ []) k (between cmp [] s [])
      (nth_elem_loop esz cmp k ([] @ s @ []) 0 (length s - 1) (2 * tda_bit_log2_floor (length s)))"
    by (rule nth_elem_loop_spec) (use assms in simp_all)
  moreover have "between cmp [] s []" by (simp add: between_def)
  ultimately show ?thesis
    using assms False by (simp add: tda_span_nth_elem_def depth_limit_def selects_def)
qed

text \<open>The first \<open>k\<close> elements, sorted, and none of them greater than one after them.\<close>

definition front_sorted :: "('a \<Rightarrow> 'a \<Rightarrow> int) \<Rightarrow> 'a list \<Rightarrow> nat \<Rightarrow> bool" where
  "front_sorted cmp t k \<longleftrightarrow> sorted_by cmp (take k t) \<and>
     (\<forall>x \<in> set (take k t). \<forall>y \<in> set (drop k t). cmp x y \<le> 0)"

lemma partial_sort_spec:
  assumes "k \<le> length s"
  shows "\<exists>t. tda_span_partial_sort esz cmp s k = Some t \<and> mset t = mset s \<and> (total_cmp cmp \<longrightarrow> front_sorted cmp t k)"
proof -
  consider "k = 0" | "length s < 2" "0 < k" | "2 \<le> length s" "k = length s" | "2 \<le> length s" "0 < k" "k < length s"
    using assms by linarith
  then show ?thesis
  proof cases
    case 1
    then show ?thesis by (simp add: tda_span_partial_sort_def front_sorted_def)
  next
    case 2
    then have "k = length s" "sorts_as cmp s s" using assms sorts_as_refl_1 by (force, blast)
    then show ?thesis using 2 by (simp add: tda_span_partial_sort_def front_sorted_def sorts_as_def)
  next
    case 3
    obtain t where t: "tda_span_sort esz cmp s = Some t" "sorts_as cmp s t" using sort_spec by blast
    then have "length t = k" using 3 sorts_as_length by blast
    then show ?thesis using 3 t by (auto simp: tda_span_partial_sort_def front_sorted_def sorts_as_def)
  next
    case 4
    obtain t where t: "tda_span_nth_elem esz cmp s k = Some t" "mset t = mset s" "total_cmp cmp \<longrightarrow> placed cmp t k"
      using nth_elem_spec [OF 4(3)] by blast
    have len: "length t = length s" using t(2) by (metis size_mset)
    obtain u where u: "tda_span_sort esz cmp (take k t) = Some u" "sorts_as cmp (take k t) u" using sort_spec by blast
    have lu: "length u = k" using sorts_as_length [OF u(2)] len 4 by simp
    have w: "span_within t 0 k (tda_span_sort esz cmp) = Some (u @ drop k t)"
      using span_within_eq [of 0 k t] u(1) len 4 by simp
    have m: "mset (u @ drop k t) = mset t"
      using u(2) by (metis append_take_drop_id mset_append sorts_as_def)
    have "front_sorted cmp (u @ drop k t) k" if c: "total_cmp cmp"
    proof -
      have "k < length t" using len 4 by simp
      then have dr: "drop k t = t ! k # drop (Suc k) t" by (rule Cons_nth_drop_Suc [symmetric])
      have pl: "\<forall>x \<in> set (take k t). cmp x (t ! k) \<le> 0" "\<forall>x \<in> set (drop (Suc k) t). cmp (t ! k) x \<le> 0"
        using t(3) c by (auto simp: placed_def)
      have "cmp x y \<le> 0" if "x \<in> set (take k t)" "y \<in> set (drop k t)" for x y
        using that pl total_cmp.cmp_le_trans [OF c, of x "t ! k" y] unfolding dr by auto
      moreover have "set u = set (take k t)" using u(2) by (auto simp: sorts_as_def dest: mset_eq_setD)
      ultimately show ?thesis using u(2) c lu by (simp add: front_sorted_def sorts_as_def)
    qed
    then show ?thesis using 4 t w m by (simp add: tda_span_partial_sort_def)
  qed
qed

section \<open>The stable sort\<close>

text \<open>What one pass leaves: the merges of the runs of \<open>w\<close>, two by two.\<close>

function merged_runs :: "('a \<Rightarrow> 'a \<Rightarrow> int) \<Rightarrow> nat \<Rightarrow> 'a list \<Rightarrow> 'a list" where
  "merged_runs cmp w xs =
     (if xs = [] \<or> w = 0 then xs
      else smerge cmp (take w xs) (take w (drop w xs)) @ merged_runs cmp w (drop (2 * w) xs))"
  by auto
termination by (relation "measure (\<lambda>(cmp, w, xs). length xs)") auto

function sorted_runs :: "('a \<Rightarrow> 'a \<Rightarrow> int) \<Rightarrow> nat \<Rightarrow> 'a list \<Rightarrow> bool" where
  "sorted_runs cmp w xs \<longleftrightarrow>
     (if xs = [] \<or> w = 0 then True else sorted_by cmp (take w xs) \<and> sorted_runs cmp w (drop w xs))"
  by auto
termination by (relation "measure (\<lambda>(cmp, w, xs). length xs)") auto

declare merged_runs.simps [simp del] sorted_runs.simps [simp del]

lemma take_take_drop2: "take w xs @ take w (drop w xs) @ drop (2 * w) xs = xs"
proof -
  have "take w (drop w xs) @ drop (2 * w) xs = drop w xs"
    using append_take_drop_id [of w "drop w xs"] by (simp add: mult_2)
  then show ?thesis by simp
qed

lemma mset_merged_runs [simp]: "mset (merged_runs cmp w xs) = mset xs"
proof (induction cmp w xs rule: merged_runs.induct)
  case (1 cmp w xs)
  show ?case
  proof (cases "xs = [] \<or> w = 0")
    case False
    have "mset (take w xs @ take w (drop w xs) @ drop (2 * w) xs) = mset xs" by (simp only: take_take_drop2)
    then show ?thesis using 1 False by (simp add: merged_runs.simps [of cmp w xs] add.assoc)
  qed (simp add: merged_runs.simps [of cmp w xs])
qed

lemma length_merged_runs [simp]: "length (merged_runs cmp w xs) = length xs"
  by (metis mset_merged_runs size_mset)

context total_cmp begin

lemma merged_runs_spec:
  "sorted_runs cmp w xs \<Longrightarrow> same_order cmp (merged_runs cmp w xs) xs \<and> sorted_runs cmp (2 * w) (merged_runs cmp w xs)"
proof (induction "length xs" arbitrary: xs rule: less_induct)
  case less
  show ?case
  proof (cases "xs = [] \<or> w = 0")
    case True
    then show ?thesis
      by (simp add: merged_runs.simps [of cmp w xs] sorted_runs.simps [of cmp "2 * w" xs])
  next
    case False
    let ?a = "take w xs" and ?b = "take w (drop w xs)" and ?r = "drop (2 * w) xs"
    have a: "sorted_by cmp ?a" and rest: "sorted_runs cmp w (drop w xs)"
      using less.prems False by (auto simp: sorted_runs.simps [of cmp w xs])
    have b: "sorted_by cmp ?b \<and> sorted_runs cmp w ?r"
    proof (cases "drop w xs = []")
      case True
      then show ?thesis by (simp add: sorted_runs.simps [of cmp w "[]"])
    next
      case ne: False
      then show ?thesis
        using rest False by (simp add: sorted_runs.simps [of cmp w "drop w xs"] mult_2)
    qed
    have IH: "same_order cmp (merged_runs cmp w ?r) ?r \<and> sorted_runs cmp (2 * w) (merged_runs cmp w ?r)"
      using less.hyps [of ?r] b False by simp
    have eq: "merged_runs cmp w xs = smerge cmp ?a ?b @ merged_runs cmp w ?r"
      using False by (simp add: merged_runs.simps [of cmp w xs])
    have "same_order cmp (smerge cmp ?a ?b @ merged_runs cmp w ?r) ((?a @ ?b) @ ?r)"
      using smerge_same_order [OF a] IH by (intro same_order_append) auto
    then have so: "same_order cmp (merged_runs cmp w xs) xs" unfolding eq by (simp add: take_take_drop2)
    have "take (2 * w) (merged_runs cmp w xs) = smerge cmp ?a ?b \<and>
        drop (2 * w) (merged_runs cmp w xs) = merged_runs cmp w ?r"
    proof (cases "2 * w \<le> length xs")
      case True
      then show ?thesis unfolding eq by simp
    next
      case short: False
      then have "merged_runs cmp w ?r = []" by (simp add: merged_runs.simps [of cmp w "[]"])
      then show ?thesis unfolding eq using short by simp
    qed
    then have "sorted_runs cmp (2 * w) (merged_runs cmp w xs)"
      using smerge_sorted [OF a] b IH by (simp add: sorted_runs.simps [of cmp "2 * w" "merged_runs cmp w xs"])
    then show ?thesis using so by simp
  qed
qed

end

lemma sort_pass_eq:
  assumes "0 < w" "length dst = length src"
  shows "sort_pass cmp (length src) src dst w i = Some (take i dst @ merged_runs cmp w (drop i src))"
  using assms(2)
proof (induction "length src - i" arbitrary: dst i rule: less_induct)
  case less
  show ?case
  proof (cases "i < length src")
    case False
    then show ?thesis
      using less.prems by (simp add: sort_pass.simps [of cmp _ src dst w i] merged_runs.simps [of cmp w "[]"])
  next
    case True
    let ?n = "length src" and ?xs = "drop i src"
    define mid where "mid = (if i + w < ?n then i + w else ?n)"
    define en where "en = (if i + 2 * w < ?n then i + 2 * w else ?n)"
    have le: "i \<le> mid" "mid \<le> en" "en \<le> ?n" using True by (auto simp: mid_def en_def)
    have a: "span_sub src i (mid - i) = Some (take w ?xs)"
      using le True by (auto simp: mid_def)
    have b: "span_sub src mid (en - mid) = Some (take w (drop w ?xs))"
      using le True by (auto simp: mid_def en_def add.commute)
    have lens: "length (take w ?xs) + length (take w (drop w ?xs)) = en - i"
      using le True by (auto simp: mid_def en_def)
    let ?m = "smerge cmp (take w ?xs) (take w (drop w ?xs))"
    have wi: "span_within dst i (en - i) (\<lambda>d. tda_span_merge cmp d (take w ?xs) (take w (drop w ?xs))) =
        Some (take i dst @ ?m @ drop en dst)"
      using span_within_eq [of i "en - i" dst "\<lambda>d. tda_span_merge cmp d (take w ?xs) (take w (drop w ?xs))" ?m]
        span_merge_eq [of "take (en - i) (drop i dst)" "take w ?xs" "take w (drop w ?xs)" cmp] le less.prems lens
      by simp
    let ?d = "take i dst @ ?m @ drop en dst"
    have ld: "length ?d = ?n" using le less.prems lens True by simp
    have "sort_pass cmp ?n src dst w i = sort_pass cmp ?n src ?d w (i + 2 * w)"
      unfolding sort_pass.simps [of cmp ?n src dst w i] using True assms(1) a b wi
      by (simp add: Let_def mid_def [symmetric] en_def [symmetric])
    also have "\<dots> = Some (take (i + 2 * w) ?d @ merged_runs cmp w (drop (i + 2 * w) src))"
      by (rule less.hyps) (use True assms(1) ld in auto)
    also have "take (i + 2 * w) ?d @ merged_runs cmp w (drop (i + 2 * w) src) =
        take i dst @ merged_runs cmp w ?xs"
    proof -
      have eq: "merged_runs cmp w ?xs = ?m @ merged_runs cmp w (drop (i + 2 * w) src)"
        using True assms(1) by (simp add: merged_runs.simps [of cmp w ?xs] add.commute)
      show ?thesis
      proof (cases "i + 2 * w < ?n")
        case t: True
        then show ?thesis unfolding eq using less.prems by simp
      next
        case t: False
        then have "en = ?n" "drop (i + 2 * w) src = []" by (auto simp: en_def)
        then show ?thesis unfolding eq using t less.prems ld by simp
      qed
    qed
    finally show ?thesis .
  qed
qed

lemma sort_stable_loop_spec:
  assumes "0 < w" "length dst = length src"
  shows "\<exists>src' dst' flip'. sort_stable_loop cmp (length src) src dst flip w = Some (src', dst', flip') \<and>
    length dst' = length src' \<and> mset src' = mset src \<and>
    (total_cmp cmp \<longrightarrow> sorted_runs cmp w src \<longrightarrow> sorted_by cmp src' \<and> same_order cmp src' src)"
  using assms
proof (induction "length src - w" arbitrary: src dst flip w rule: less_induct)
  case less
  note eqn = sort_stable_loop.simps [of cmp "length src" src dst flip w]
  show ?case
  proof (cases "w < length src")
    case False
    have "sorted_by cmp src" if "sorted_runs cmp w src"
      using that False less.prems(1) by (simp add: sorted_runs.simps [of cmp w src] split: if_splits)
    then show ?thesis using False less.prems by (simp add: eqn)
  next
    case True
    let ?m = "merged_runs cmp w src"
    have "sort_pass cmp (length src) src dst w 0 = Some ?m" using sort_pass_eq [OF less.prems, of cmp 0] by simp
    then have step: "sort_stable_loop cmp (length src) src dst flip w =
        sort_stable_loop cmp (length ?m) ?m src (\<not> flip) (w * 2)"
      using True less.prems(1) by (simp add: eqn)
    obtain src' dst' flip' where
      r: "sort_stable_loop cmp (length ?m) ?m src (\<not> flip) (w * 2) = Some (src', dst', flip')"
      "length dst' = length src'" "mset src' = mset ?m"
      and t: "total_cmp cmp \<Longrightarrow> sorted_runs cmp (w * 2) ?m \<Longrightarrow> sorted_by cmp src' \<and> same_order cmp src' ?m"
    proof -
      have lt: "length ?m - w * 2 < length src - w" "0 < w * 2" "length src = length ?m"
        using True less.prems(1) by simp_all
      show ?thesis using less.hyps [OF lt, of "\<not> flip"] that by blast
    qed
    have "sorted_by cmp src' \<and> same_order cmp src' src" if "total_cmp cmp" "sorted_runs cmp w src"
    proof -
      have q: "same_order cmp ?m src" "sorted_runs cmp (w * 2) ?m"
        using total_cmp.merged_runs_spec [OF that] unfolding mult.commute [of w 2] by blast+
      show ?thesis using t [OF that(1) q(2)] same_order_trans [of cmp src' ?m src] q(1) by blast
    qed
    then show ?thesis unfolding step using r by simp
  qed
qed

lemma sorted_runs_1: "sorted_runs cmp 1 xs"
  by (induction xs) (simp_all add: sorted_runs.simps [of cmp "Suc 0"])

lemma sort_stable_spec:
  assumes "length buf = length s"
  shows "\<exists>t. tda_span_sort_stable cmp s (Some buf) = Some (t, TDA_STATUS_OK) \<and> mset t = mset s \<and>
    (total_cmp cmp \<longrightarrow> sorted_by cmp t \<and> same_order cmp t s)"
proof (cases "length s < 2")
  case True
  then show ?thesis using sorts_as_refl_1 [OF True, of cmp] by (simp add: tda_span_sort_stable_def sorts_as_def)
next
  case False
  obtain src' dst' flip' where
    r: "sort_stable_loop cmp (length s) s buf False 1 = Some (src', dst', flip')" "length dst' = length src'"
    "mset src' = mset s" and t: "total_cmp cmp \<longrightarrow> sorted_by cmp src' \<and> same_order cmp src' s"
    using sort_stable_loop_spec [of 1 buf s cmp False] assms sorted_runs_1 [of cmp s] by auto
  have "src' \<noteq> []" using r(3) False by auto
  then have "tda_span_copy dst' src' = Some src'" using r(2) by (simp add: tda_span_copy_def)
  then show ?thesis using False r t by (cases flip') (auto simp: tda_span_sort_stable_def)
qed

lemma is_sorted_until_loop_spec:
  assumes "0 < i" "i \<le> length s \<or> s = []" "\<forall>j. 0 < j \<and> j < i \<longrightarrow> \<not> cmp (s ! j) (s ! (j - 1)) < 0"
  shows "\<exists>n. is_sorted_until_loop s cmp i = Some n \<and> n \<le> length s \<and>
    (\<forall>j. 0 < j \<and> j < n \<longrightarrow> \<not> cmp (s ! j) (s ! (j - 1)) < 0) \<and>
    (n < length s \<longrightarrow> 0 < n \<and> cmp (s ! n) (s ! (n - 1)) < 0)"
  using assms
proof (induction "length s - i" arbitrary: i rule: less_induct)
  case less
  note eqn = is_sorted_until_loop.simps [of s cmp i]
  show ?case
  proof (cases "i < length s")
    case False
    then show ?thesis using less.prems by (auto simp: eqn)
  next
    case True
    show ?thesis
    proof (cases "cmp (s ! i) (s ! (i - 1)) < 0")
      case t: True
      then show ?thesis using True less.prems by (auto simp: eqn tda_right_goes_first_def)
    next
      case f: False
      have "is_sorted_until_loop s cmp i = is_sorted_until_loop s cmp (i + 1)"
        using True f less.prems(1) by (simp add: eqn tda_right_goes_first_def)
      moreover have "\<forall>j. 0 < j \<and> j < i + 1 \<longrightarrow> \<not> cmp (s ! j) (s ! (j - 1)) < 0"
        using less.prems(3) f by (auto simp: less_Suc_eq)
      ultimately show ?thesis using less.hyps [of "i + 1"] True by auto
    qed
  qed
qed

lemma sorted_by_adjacent:
  assumes "total_cmp cmp" "n \<le> length s" "\<forall>j. 0 < j \<and> j < n \<longrightarrow> \<not> cmp (s ! j) (s ! (j - 1)) < 0"
  shows "sorted_by cmp (take n s)"
proof -
  have "cmp (take n s ! j) (take n s ! Suc j) \<le> 0" if "Suc j < length (take n s)" for j
    using assms(2,3) that total_cmp.not_less_iff [OF assms(1)] by force
  then show ?thesis
    by (subst sorted_wrt_iff_nth_Suc_transp) (auto intro: total_cmp.transp_le [OF assms(1)])
qed

section \<open>What the sorts promise\<close>

text \<open>
  C1: tda_span_sort, under any comparator that is a total preorder and for elements of any size,
  returns a sorted permutation of the span, whatever path of the introsort runs.
\<close>

theorem sort_sorts:
  assumes "total_cmp cmp"
  shows "\<exists>t. tda_span_sort esz cmp s = Some t \<and> mset t = mset s \<and> sorted_by cmp t"
  using sort_spec [of esz cmp s] assms by (auto simp: sorts_as_def)

theorem sort_sorts_witness:
  "\<exists>t. tda_span_sort 4 tda_cmp_i32 [3, 1, 2] = Some t \<and> mset t = mset [3, 1, 2] \<and> sorted_by tda_cmp_i32 t"
  by (rule sort_sorts) (rule i32.total_cmp_axioms)

text \<open>
  C2: the bottom-up merge sort and insertion sort agree: both return the one sorted permutation of
  the span that keeps equal elements in their original order.
\<close>

theorem stable_sorts:
  assumes "total_cmp cmp" "length buf = length s"
  shows "\<exists>t. tda_span_sort_stable cmp s (Some buf) = Some (t, TDA_STATUS_OK) \<and>
    tda_span_insertion_sort esz cmp s = Some t \<and> mset t = mset s \<and> sorted_by cmp t \<and> same_order cmp t s"
proof -
  obtain t where t: "tda_span_sort_stable cmp s (Some buf) = Some (t, TDA_STATUS_OK)" "mset t = mset s"
    "sorted_by cmp t" "same_order cmp t s"
    using sort_stable_spec [OF assms(2), of cmp] assms(1) by blast
  obtain u where u: "tda_span_insertion_sort esz cmp s = Some u" "sorted_by cmp u" "same_order cmp u s"
    using insertion_sort_spec [of esz cmp s] assms(1) by blast
  have "same_order cmp t u" using t(4) u(3) by (simp add: same_order_def)
  then have "t = u" by (rule total_cmp.sorted_same_order_unique [OF assms(1) t(3) u(2)])
  then show ?thesis using t u(1) by blast
qed

theorem stable_sorts_witness:
  "\<exists>t. tda_span_sort_stable tda_cmp_i32 [3, 1, 2] (Some [0, 0, 0]) = Some (t, TDA_STATUS_OK) \<and>
    tda_span_insertion_sort 4 tda_cmp_i32 [3, 1, 2] = Some t \<and> mset t = mset [3, 1, 2] \<and>
    sorted_by tda_cmp_i32 t \<and> same_order tda_cmp_i32 t [3, 1, 2]"
  by (rule stable_sorts) (simp_all add: i32.total_cmp_axioms)



text \<open>
  C4: tda_span_nth_elem puts at its position an element with nothing greater before it and nothing
  less after it; tda_span_partial_sort puts the smallest elements, sorted, at the front.
\<close>

theorem selections:
  assumes "total_cmp cmp" "k < length s" "n \<le> length s"
  shows "(\<exists>t. tda_span_nth_elem esz cmp s k = Some t \<and> mset t = mset s \<and> placed cmp t k) \<and>
    (\<exists>t. tda_span_partial_sort esz cmp s n = Some t \<and> mset t = mset s \<and> front_sorted cmp t n)"
  using nth_elem_spec [OF assms(2), of esz cmp] partial_sort_spec [OF assms(3), of esz cmp] assms(1) by blast

theorem selections_witness:
  "\<exists>t. tda_span_nth_elem 4 tda_cmp_i32 [3, 1, 2] 1 = Some t \<and> mset t = mset [3, 1, 2] \<and> placed tda_cmp_i32 t 1"
  using selections [OF i32.total_cmp_axioms, of 1 "[3, 1, 2]" 0 4] by simp

lemma sortedness:
  assumes "total_cmp cmp"
  shows "\<exists>n. tda_span_is_sorted_until s cmp = Some n \<and> n \<le> length s \<and> sorted_by cmp (take n s) \<and>
    (\<forall>m \<le> length s. sorted_by cmp (take m s) \<longrightarrow> m \<le> n) \<and>
    tda_span_is_sorted s cmp = Some (sorted_by cmp s)"
proof -
  obtain n where n: "is_sorted_until_loop s cmp 1 = Some n" "n \<le> length s"
    and ok: "\<forall>j. 0 < j \<and> j < n \<longrightarrow> \<not> cmp (s ! j) (s ! (j - 1)) < 0"
    and bad: "n < length s \<longrightarrow> 0 < n \<and> cmp (s ! n) (s ! (n - 1)) < 0"
    using is_sorted_until_loop_spec [of 1 s cmp] by (cases s) auto
  have srt: "sorted_by cmp (take n s)" by (rule sorted_by_adjacent [OF assms n(2) ok])
  have max: "m \<le> n" if m: "m \<le> length s" "sorted_by cmp (take m s)" for m
  proof (rule ccontr)
    assume "\<not> m \<le> n"
    then have "n < m" "n < length s" "0 < n" using m(1) bad by auto
    then have "cmp (s ! (n - 1)) (s ! n) \<le> 0"
      using sorted_wrt_nth_less [OF m(2), of "n - 1" n] m(1) by simp
    moreover have "cmp (s ! n) (s ! (n - 1)) < 0" using bad \<open>n < length s\<close> by blast
    ultimately show False using total_cmp.not_le_iff [OF assms] by blast
  qed
  have "(n = length s) = sorted_by cmp s"
    using srt max [of "length s"] n(2) by auto
  then show ?thesis
    using n srt max by (auto simp: tda_span_is_sorted_until_def tda_span_is_sorted_def)
qed

end
