(* ===== verification/SetOps.thy ===== *)
theory SetOps
  imports Merge
begin

text \<open>
  \<open>algo/set.h\<close> and \<open>algo/set.c\<close>: the set operations on two sorted spans, which are multisets of
  equal elements, and inclusion. The destination overlaps neither source.
\<close>

section \<open>The operations\<close>

function union_loop ::
  "('a \<Rightarrow> 'a \<Rightarrow> int) \<Rightarrow> 'a list \<Rightarrow> 'a list \<Rightarrow> 'a list \<Rightarrow> nat \<Rightarrow> nat \<Rightarrow> nat \<Rightarrow>
   ('a list \<times> nat \<times> nat \<times> nat) option" where
  "union_loop cmp a b dst i j wr =
     (if i < length a \<and> j < length b
      then do {
        lhs \<leftarrow> span_get a i;
        rhs \<leftarrow> span_get b j;
        let order = cmp lhs rhs;
        if order < 0 then do { (dst, wr) \<leftarrow> tda_emit dst wr lhs; union_loop cmp a b dst (i + 1) j wr }
        else if order > 0 then do { (dst, wr) \<leftarrow> tda_emit dst wr rhs; union_loop cmp a b dst i (j + 1) wr }
        else do { (dst, wr) \<leftarrow> tda_emit dst wr lhs; union_loop cmp a b dst (i + 1) (j + 1) wr }
      }
      else Some (dst, i, j, wr))"
  by auto
termination
  by (relation "measure (\<lambda>(cmp, a, b, dst, i, j, wr). (length a - i) + (length b - j))") auto

definition tda_span_set_union ::
  "('a \<Rightarrow> 'a \<Rightarrow> int) \<Rightarrow> 'a list \<Rightarrow> 'a list \<Rightarrow> 'a list \<Rightarrow> ('a list \<times> nat) option" where
  "tda_span_set_union cmp dst a b = do {
     chk (length dst \<ge> length a + length b);
     (dst, i, j, wr) \<leftarrow> union_loop cmp a b dst 0 0 0;
     (dst, wr) \<leftarrow> tda_emit_rest dst wr a i;
     tda_emit_rest dst wr b j
   }"

function intersection_loop ::
  "('a \<Rightarrow> 'a \<Rightarrow> int) \<Rightarrow> 'a list \<Rightarrow> 'a list \<Rightarrow> 'a list \<Rightarrow> nat \<Rightarrow> nat \<Rightarrow> nat \<Rightarrow>
   ('a list \<times> nat \<times> nat \<times> nat) option" where
  "intersection_loop cmp a b dst i j wr =
     (if i < length a \<and> j < length b
      then do {
        lhs \<leftarrow> span_get a i;
        rhs \<leftarrow> span_get b j;
        let order = cmp lhs rhs;
        if order < 0 then intersection_loop cmp a b dst (i + 1) j wr
        else if order > 0 then intersection_loop cmp a b dst i (j + 1) wr
        else do { (dst, wr) \<leftarrow> tda_emit dst wr lhs; intersection_loop cmp a b dst (i + 1) (j + 1) wr }
      }
      else Some (dst, i, j, wr))"
  by auto
termination
  by (relation "measure (\<lambda>(cmp, a, b, dst, i, j, wr). (length a - i) + (length b - j))") auto

definition tda_span_set_intersection ::
  "('a \<Rightarrow> 'a \<Rightarrow> int) \<Rightarrow> 'a list \<Rightarrow> 'a list \<Rightarrow> 'a list \<Rightarrow> ('a list \<times> nat) option" where
  "tda_span_set_intersection cmp dst a b = do {
     chk (length dst \<ge> (if length a < length b then length a else length b));
     (dst, i, j, wr) \<leftarrow> intersection_loop cmp a b dst 0 0 0;
     Some (dst, wr)
   }"

function difference_loop ::
  "('a \<Rightarrow> 'a \<Rightarrow> int) \<Rightarrow> 'a list \<Rightarrow> 'a list \<Rightarrow> 'a list \<Rightarrow> nat \<Rightarrow> nat \<Rightarrow> nat \<Rightarrow>
   ('a list \<times> nat \<times> nat \<times> nat) option" where
  "difference_loop cmp a b dst i j wr =
     (if i < length a \<and> j < length b
      then do {
        lhs \<leftarrow> span_get a i;
        rhs \<leftarrow> span_get b j;
        let order = cmp lhs rhs;
        if order < 0 then do { (dst, wr) \<leftarrow> tda_emit dst wr lhs; difference_loop cmp a b dst (i + 1) j wr }
        else if order > 0 then difference_loop cmp a b dst i (j + 1) wr
        else difference_loop cmp a b dst (i + 1) (j + 1) wr
      }
      else Some (dst, i, j, wr))"
  by auto
termination
  by (relation "measure (\<lambda>(cmp, a, b, dst, i, j, wr). (length a - i) + (length b - j))") auto

definition tda_span_set_difference ::
  "('a \<Rightarrow> 'a \<Rightarrow> int) \<Rightarrow> 'a list \<Rightarrow> 'a list \<Rightarrow> 'a list \<Rightarrow> ('a list \<times> nat) option" where
  "tda_span_set_difference cmp dst a b = do {
     chk (length dst \<ge> length a);
     (dst, i, j, wr) \<leftarrow> difference_loop cmp a b dst 0 0 0;
     tda_emit_rest dst wr a i
   }"

function symmetric_loop ::
  "('a \<Rightarrow> 'a \<Rightarrow> int) \<Rightarrow> 'a list \<Rightarrow> 'a list \<Rightarrow> 'a list \<Rightarrow> nat \<Rightarrow> nat \<Rightarrow> nat \<Rightarrow>
   ('a list \<times> nat \<times> nat \<times> nat) option" where
  "symmetric_loop cmp a b dst i j wr =
     (if i < length a \<and> j < length b
      then do {
        lhs \<leftarrow> span_get a i;
        rhs \<leftarrow> span_get b j;
        let order = cmp lhs rhs;
        if order < 0 then do { (dst, wr) \<leftarrow> tda_emit dst wr lhs; symmetric_loop cmp a b dst (i + 1) j wr }
        else if order > 0 then do { (dst, wr) \<leftarrow> tda_emit dst wr rhs; symmetric_loop cmp a b dst i (j + 1) wr }
        else symmetric_loop cmp a b dst (i + 1) (j + 1) wr
      }
      else Some (dst, i, j, wr))"
  by auto
termination
  by (relation "measure (\<lambda>(cmp, a, b, dst, i, j, wr). (length a - i) + (length b - j))") auto

definition tda_span_set_symmetric_difference ::
  "('a \<Rightarrow> 'a \<Rightarrow> int) \<Rightarrow> 'a list \<Rightarrow> 'a list \<Rightarrow> 'a list \<Rightarrow> ('a list \<times> nat) option" where
  "tda_span_set_symmetric_difference cmp dst a b = do {
     chk (length dst \<ge> length a + length b);
     (dst, i, j, wr) \<leftarrow> symmetric_loop cmp a b dst 0 0 0;
     (dst, wr) \<leftarrow> tda_emit_rest dst wr a i;
     tda_emit_rest dst wr b j
   }"

section \<open>Inclusion\<close>

function skip_less :: "('a \<Rightarrow> 'a \<Rightarrow> int) \<Rightarrow> 'a list \<Rightarrow> 'a \<Rightarrow> nat \<Rightarrow> nat option" where
  "skip_less cmp whole want i =
     (if i < length whole
      then do { e \<leftarrow> span_get whole i; if cmp e want < 0 then skip_less cmp whole want (i + 1) else Some i }
      else Some i)"
  by auto
termination by (relation "measure (\<lambda>(cmp, whole, want, i). length whole - i)") auto

function includes_loop :: "('a \<Rightarrow> 'a \<Rightarrow> int) \<Rightarrow> 'a list \<Rightarrow> 'a list \<Rightarrow> nat \<Rightarrow> nat \<Rightarrow> bool option" where
  "includes_loop cmp whole sub i j =
     (if j < length sub
      then do {
        want \<leftarrow> span_get sub j;
        i \<leftarrow> skip_less cmp whole want i;
        stop \<leftarrow> (if i = length whole then Some True
                 else do { e \<leftarrow> span_get whole i; Some (cmp e want > 0) });
        if stop then Some False else includes_loop cmp whole sub (i + 1) (j + 1)
      }
      else Some True)"
  by auto
termination by (relation "measure (\<lambda>(cmp, whole, sub, i, j). length sub - j)") auto

definition tda_span_includes :: "('a \<Rightarrow> 'a \<Rightarrow> int) \<Rightarrow> 'a list \<Rightarrow> 'a list \<Rightarrow> bool option" where
  "tda_span_includes cmp whole sub = includes_loop cmp whole sub 0 0"

declare union_loop.simps [simp del] intersection_loop.simps [simp del] difference_loop.simps [simp del]
  symmetric_loop.simps [simp del] skip_less.simps [simp del] includes_loop.simps [simp del]

section \<open>One walk for the four\<close>

text \<open>
  The four operations differ in what they keep: the elements only in \<open>a\<close> (\<open>kl\<close>), the elements only
  in \<open>b\<close> (\<open>kr\<close>) and the copy in \<open>a\<close> of a pair (\<open>ke\<close>).
\<close>

fun walk :: "('a \<Rightarrow> 'a \<Rightarrow> int) \<Rightarrow> bool \<Rightarrow> bool \<Rightarrow> bool \<Rightarrow> 'a list \<Rightarrow> 'a list \<Rightarrow> 'a list" where
  "walk cmp kl kr ke [] bs = (if kr then bs else [])"
| "walk cmp kl kr ke (a # as) [] = (if kl then a # as else [])"
| "walk cmp kl kr ke (a # as) (b # bs) =
     (if cmp a b < 0 then (if kl then [a] else []) @ walk cmp kl kr ke as (b # bs)
      else if cmp a b > 0 then (if kr then [b] else []) @ walk cmp kl kr ke (a # as) bs
      else (if ke then [a] else []) @ walk cmp kl kr ke as bs)"

function walk_loop ::
  "('a \<Rightarrow> 'a \<Rightarrow> int) \<Rightarrow> bool \<Rightarrow> bool \<Rightarrow> bool \<Rightarrow> 'a list \<Rightarrow> 'a list \<Rightarrow> 'a list \<Rightarrow> nat \<Rightarrow> nat \<Rightarrow> nat \<Rightarrow>
   ('a list \<times> nat \<times> nat \<times> nat) option" where
  "walk_loop cmp kl kr ke a b dst i j wr =
     (if i < length a \<and> j < length b
      then let lhs = a ! i; rhs = b ! j; order = cmp lhs rhs in
        if order < 0
        then do { (dst, wr) \<leftarrow> (if kl then tda_emit dst wr lhs else Some (dst, wr));
                  walk_loop cmp kl kr ke a b dst (i + 1) j wr }
        else if order > 0
        then do { (dst, wr) \<leftarrow> (if kr then tda_emit dst wr rhs else Some (dst, wr));
                  walk_loop cmp kl kr ke a b dst i (j + 1) wr }
        else do { (dst, wr) \<leftarrow> (if ke then tda_emit dst wr lhs else Some (dst, wr));
                  walk_loop cmp kl kr ke a b dst (i + 1) (j + 1) wr }
      else Some (dst, i, j, wr))"
  by auto
termination
  by (relation "measure (\<lambda>(cmp, kl, kr, ke, a, b, dst, i, j, wr). (length a - i) + (length b - j))") auto

declare walk_loop.simps [simp del]

lemma union_loop_walk: "union_loop cmp a b dst i j wr = walk_loop cmp True True True a b dst i j wr"
proof (induction cmp a b dst i j wr rule: union_loop.induct)
  case (1 cmp a b dst i j wr)
  show ?case
    unfolding union_loop.simps [of cmp a b dst i j wr] walk_loop.simps [of cmp _ _ _ a b dst i j wr]
    using 1 by (auto simp: Let_def intro!: Option.bind_cong)
qed

lemma intersection_loop_walk: "intersection_loop cmp a b dst i j wr = walk_loop cmp False False True a b dst i j wr"
proof (induction cmp a b dst i j wr rule: intersection_loop.induct)
  case (1 cmp a b dst i j wr)
  show ?case
    unfolding intersection_loop.simps [of cmp a b dst i j wr] walk_loop.simps [of cmp _ _ _ a b dst i j wr]
    using 1 by (auto simp: Let_def intro!: Option.bind_cong)
qed

lemma difference_loop_walk: "difference_loop cmp a b dst i j wr = walk_loop cmp True False False a b dst i j wr"
proof (induction cmp a b dst i j wr rule: difference_loop.induct)
  case (1 cmp a b dst i j wr)
  show ?case
    unfolding difference_loop.simps [of cmp a b dst i j wr] walk_loop.simps [of cmp _ _ _ a b dst i j wr]
    using 1 by (auto simp: Let_def intro!: Option.bind_cong)
qed

lemma symmetric_loop_walk: "symmetric_loop cmp a b dst i j wr = walk_loop cmp True True False a b dst i j wr"
proof (induction cmp a b dst i j wr rule: symmetric_loop.induct)
  case (1 cmp a b dst i j wr)
  show ?case
    unfolding symmetric_loop.simps [of cmp a b dst i j wr] walk_loop.simps [of cmp _ _ _ a b dst i j wr]
    using 1 by (auto simp: Let_def intro!: Option.bind_cong)
qed

lemma walk_Nil2 [simp]: "walk cmp kl kr ke as [] = (if kl then as else [])"
  by (cases as) simp_all

lemma walk_drop:
  assumes "i < length a" "j < length b"
  shows "walk cmp kl kr ke (drop i a) (drop j b) =
    (if cmp (a ! i) (b ! j) < 0 then (if kl then [a ! i] else []) @ walk cmp kl kr ke (drop (Suc i) a) (drop j b)
     else if cmp (a ! i) (b ! j) > 0 then (if kr then [b ! j] else []) @ walk cmp kl kr ke (drop i a) (drop (Suc j) b)
     else (if ke then [a ! i] else []) @ walk cmp kl kr ke (drop (Suc i) a) (drop (Suc j) b))"
  using assms by (simp add: Cons_nth_drop_Suc [symmetric])

lemma emit_opt_written:
  assumes "length out + (if k then 1 else 0) \<le> length dst"
  shows "(if k then tda_emit (written dst out) (length out) x else Some (written dst out, length out)) =
    Some (written dst (out @ (if k then [x] else [])), length (out @ (if k then [x] else [])))"
  using assms by (auto simp: written_update)

lemma walk_loop_spec:
  assumes "length out + length (walk cmp kl kr ke (drop i a) (drop j b)) \<le> length dst"
    "i \<le> length a" "j \<le> length b"
  shows "\<exists>out' i' j'. walk_loop cmp kl kr ke a b (written dst out) i j (length out) =
      Some (written dst out', i', j', length out') \<and> i' \<le> length a \<and> j' \<le> length b \<and>
    (i' = length a \<or> j' = length b) \<and>
    out' @ (if kl then drop i' a else []) @ (if kr then drop j' b else []) =
      out @ walk cmp kl kr ke (drop i a) (drop j b)"
  using assms
proof (induction "(length a - i) + (length b - j)" arbitrary: i j out rule: less_induct)
  case less
  note eqn = walk_loop.simps [of cmp kl kr ke a b "written dst out" i j "length out"]
  show ?case
  proof (cases "i < length a \<and> j < length b")
    case False
    then have "walk_loop cmp kl kr ke a b (written dst out) i j (length out) = Some (written dst out, i, j, length out)"
      by (simp only: eqn False if_False)
    then show ?thesis using False less.prems by (cases "i < length a") auto
  next
    case True
    then have ij: "i < length a" "j < length b" by simp_all
    note wd = walk_drop [OF ij, of cmp kl kr ke]
    consider "cmp (a ! i) (b ! j) < 0" | "cmp (a ! i) (b ! j) > 0" | "cmp (a ! i) (b ! j) = 0" by linarith
    then show ?thesis
    proof cases
      case 1
      let ?o = "out @ (if kl then [a ! i] else [])"
      have "length out + (if kl then 1 else 0) \<le> length dst" using less.prems(1) 1 wd by (auto split: if_splits)
      then have "walk_loop cmp kl kr ke a b (written dst out) i j (length out) =
          walk_loop cmp kl kr ke a b (written dst ?o) (i + 1) j (length ?o)"
        unfolding eqn using ij 1 by (simp add: emit_opt_written [simplified] Let_def)
      then show ?thesis using less.hyps [of "i + 1" j ?o] less.prems ij 1 wd by auto
    next
      case 2
      let ?o = "out @ (if kr then [b ! j] else [])"
      have "length out + (if kr then 1 else 0) \<le> length dst" using less.prems(1) 2 wd by (auto split: if_splits)
      then have "walk_loop cmp kl kr ke a b (written dst out) i j (length out) =
          walk_loop cmp kl kr ke a b (written dst ?o) i (j + 1) (length ?o)"
        unfolding eqn using ij 2 by (simp add: emit_opt_written [simplified] Let_def)
      then show ?thesis using less.hyps [of i "j + 1" ?o] less.prems ij 2 wd by auto
    next
      case 3
      let ?o = "out @ (if ke then [a ! i] else [])"
      have "length out + (if ke then 1 else 0) \<le> length dst" using less.prems(1) 3 wd by (auto split: if_splits)
      then have "walk_loop cmp kl kr ke a b (written dst out) i j (length out) =
          walk_loop cmp kl kr ke a b (written dst ?o) (i + 1) (j + 1) (length ?o)"
        unfolding eqn using ij 3 by (simp add: emit_opt_written [simplified] Let_def)
      then show ?thesis using less.hyps [of "i + 1" "j + 1" ?o] less.prems ij 3 wd by auto
    qed
  qed
qed

section \<open>What the walk keeps\<close>

lemma set_walk: "set (walk cmp kl kr ke as bs) \<subseteq> set as \<union> set bs"
  by (induction cmp kl kr ke as bs rule: walk.induct) auto

lemma length_walk:
  "length (walk cmp kl kr ke as bs) \<le> (if kl \<or> ke then length as else 0) + (if kr then length bs else 0)"
  by (induction cmp kl kr ke as bs rule: walk.induct) (auto split: if_splits)

lemma length_walk_inter: "length (walk cmp False False True as bs) \<le> min (length as) (length bs)"
  by (induction cmp False False True as bs rule: walk.induct) auto

context total_cmp begin

lemma alike_less:
  assumes "sorted_by cmp (b # bs)" "cmp a b < 0" "cmp x a = 0"
  shows "alike cmp x (b # bs) = []"
proof -
  have "cmp a y < 0" if "y \<in> set (b # bs)" for y
    using assms(1,2) that less_le_trans [of a b y] by auto
  then have "cmp x y < 0" if "y \<in> set (b # bs)" for y
    using assms(3) that le_less_trans [of x a y] by simp
  then show ?thesis by (force simp: filter_empty_conv)
qed

lemma alike_greater:
  "sorted_by cmp (a # as) \<Longrightarrow> cmp a b > 0 \<Longrightarrow> cmp x b = 0 \<Longrightarrow> alike cmp x (a # as) = []"
  using alike_less [of a as b x] cmp_less_iff [of b a] by blast

lemma zero_cong: "cmp a b = 0 \<Longrightarrow> cmp x a = 0 \<longleftrightarrow> cmp x b = 0"
  using zero_trans [of x a b] zero_trans [of x b a] cmp_zero_iff [of a b] by blast

lemma walk_sorted:
  "sorted_by cmp as \<Longrightarrow> sorted_by cmp bs \<Longrightarrow> sorted_by cmp (walk cmp kl kr ke as bs)"
proof (induction c \<equiv> cmp kl kr ke as bs rule: walk.induct)
  case (3 kl kr ke a as b bs)
  consider "cmp a b < 0" | "cmp a b > 0" | "cmp a b = 0" by linarith
  then show ?case
  proof cases
    case 1
    have "\<forall>y \<in> set as \<union> set (b # bs). cmp a y \<le> 0"
      using 3(4,5) 1 cmp_le_trans [of a b] by auto
    then have "\<forall>y \<in> set (walk cmp kl kr ke as (b # bs)). cmp a y \<le> 0"
      using set_walk [of cmp kl kr ke as "b # bs"] by blast
    then show ?thesis using 1 3 by (cases kl) simp_all
  next
    case 2
    then have "cmp b a \<le> 0" using cmp_less_iff [of b a] by simp
    then have "\<forall>y \<in> set (a # as) \<union> set bs. cmp b y \<le> 0"
      using 3(4,5) cmp_le_trans [of b a] by auto
    then have "\<forall>y \<in> set (walk cmp kl kr ke (a # as) bs). cmp b y \<le> 0"
      using set_walk [of cmp kl kr ke "a # as" bs] by blast
    then show ?thesis using 2 3 by (cases kr) simp_all
  next
    case z: 3
    have "\<forall>y \<in> set as \<union> set bs. cmp a y \<le> 0" using 3(4,5) z cmp_le_trans [of a b] by auto
    then have "\<forall>y \<in> set (walk cmp kl kr ke as bs). cmp a y \<le> 0"
      using set_walk [of cmp kl kr ke as bs] by blast
    then show ?thesis using z 3 by (cases ke) simp_all
  qed
qed simp_all

text \<open>
  The class of \<open>x\<close> in the result: the copies paired off, from \<open>a\<close>, then what either side has in
  excess.
\<close>

lemma walk_alike:
  assumes "sorted_by cmp as" "sorted_by cmp bs"
  shows "alike cmp x (walk cmp kl kr ke as bs) =
    (if ke then take (length (alike cmp x bs)) (alike cmp x as) else []) @
    (if kl then drop (length (alike cmp x bs)) (alike cmp x as) else []) @
    (if kr then drop (length (alike cmp x as)) (alike cmp x bs) else [])"
  using assms
proof (induction c \<equiv> cmp kl kr ke as bs rule: walk.induct)
  case (3 kl kr ke a as b bs)
  consider "cmp a b < 0" | "cmp a b > 0" | "cmp a b = 0" by linarith
  then show ?case
  proof cases
    case 1
    show ?thesis
    proof (cases "cmp x a = 0")
      case True
      have "alike cmp x (b # bs) = []" using 3(5) 1 True by (rule alike_less)
      then show ?thesis using 3 1 True by (simp split: if_splits)
    next
      case False
      then show ?thesis using 3 1 by simp
    qed
  next
    case 2
    show ?thesis
    proof (cases "cmp x b = 0")
      case True
      have "alike cmp x (a # as) = []" using 3(4) 2 True by (rule alike_greater)
      then show ?thesis using 3 2 True by (simp split: if_splits)
    next
      case False
      then show ?thesis using 3 2 by simp
    qed
  next
    case z: 3
    have IH: "alike cmp x (walk cmp kl kr ke as bs) =
      (if ke then take (length (alike cmp x bs)) (alike cmp x as) else []) @
      (if kl then drop (length (alike cmp x bs)) (alike cmp x as) else []) @
      (if kr then drop (length (alike cmp x as)) (alike cmp x bs) else [])"
      using 3 z by simp
    have w: "walk cmp kl kr ke (a # as) (b # bs) = (if ke then [a] else []) @ walk cmp kl kr ke as bs"
      using z by simp
    show ?thesis
    proof (cases "cmp x a = 0")
      case True
      then have "cmp x b = 0" using zero_cong [OF z] by simp
      then show ?thesis unfolding w filter_append IH using True by simp
    next
      case False
      then have "cmp x b \<noteq> 0" using zero_cong [OF z] by simp
      then show ?thesis unfolding w filter_append IH using False by simp
    qed
  qed
qed simp_all

end

section \<open>Inclusion walks the same way\<close>

fun covers :: "('a \<Rightarrow> 'a \<Rightarrow> int) \<Rightarrow> 'a list \<Rightarrow> 'a list \<Rightarrow> bool" where
  "covers cmp as [] \<longleftrightarrow> True"
| "covers cmp [] (b # bs) \<longleftrightarrow> False"
| "covers cmp (a # as) (b # bs) \<longleftrightarrow>
     (if cmp a b < 0 then covers cmp as (b # bs) else if cmp a b > 0 then False else covers cmp as bs)"

lemma skip_less_spec:
  "i \<le> length w \<Longrightarrow> \<exists>i'. skip_less cmp w want i = Some i' \<and> i \<le> i' \<and> i' \<le> length w \<and>
    (i' < length w \<longrightarrow> \<not> cmp (w ! i') want < 0) \<and>
    covers cmp (drop i w) (want # bs) = covers cmp (drop i' w) (want # bs)"
proof (induction "length w - i" arbitrary: i rule: less_induct)
  case less
  note eqn = skip_less.simps [of cmp w want i]
  show ?case
  proof (cases "i < length w \<and> cmp (w ! i) want < 0")
    case True
    have "skip_less cmp w want i = skip_less cmp w want (i + 1)" using True by (simp add: eqn)
    moreover have "covers cmp (drop i w) (want # bs) = covers cmp (drop (i + 1) w) (want # bs)"
      using True by (simp add: Cons_nth_drop_Suc [symmetric])
    moreover have lt: "length w - (i + 1) < length w - i" "i + 1 \<le> length w" using True by auto
    moreover obtain i' where "skip_less cmp w want (i + 1) = Some i'" "i + 1 \<le> i'" "i' \<le> length w"
      "i' < length w \<longrightarrow> \<not> cmp (w ! i') want < 0"
      "covers cmp (drop (i + 1) w) (want # bs) = covers cmp (drop i' w) (want # bs)"
      using less.hyps [OF lt] by blast
    ultimately show ?thesis by auto
  next
    case False
    then have "skip_less cmp w want i = Some i" by (auto simp: eqn)
    then show ?thesis using False less.prems by auto
  qed
qed

lemma includes_loop_eq:
  "i \<le> length w \<Longrightarrow> j \<le> length sub \<Longrightarrow>
   includes_loop cmp w sub i j = Some (covers cmp (drop i w) (drop j sub))"
proof (induction "length sub - j" arbitrary: i j)
  case 0
  then show ?case by (simp add: includes_loop.simps [of cmp w sub i j])
next
  case (Suc n)
  have j: "j < length sub" using Suc.hyps(2) by linarith
  let ?want = "sub ! j" and ?bs = "drop (Suc j) sub"
  have dr: "drop j sub = ?want # ?bs" using j by (simp add: Cons_nth_drop_Suc)
  obtain i' where i': "skip_less cmp w ?want i = Some i'" "i' \<le> length w"
    "i' < length w \<longrightarrow> \<not> cmp (w ! i') ?want < 0"
    and cv: "covers cmp (drop i w) (?want # ?bs) = covers cmp (drop i' w) (?want # ?bs)"
    using skip_less_spec [OF Suc.prems(1), of cmp ?want ?bs] by blast
  note eqn = includes_loop.simps [of cmp w sub i j]
  show ?case
  proof (cases "i' = length w")
    case True
    then show ?thesis using j i' cv by (simp add: eqn dr)
  next
    case False
    then have lt: "i' < length w" using i'(2) by simp
    have dw: "drop i' w = w ! i' # drop (Suc i') w" using lt by (simp add: Cons_nth_drop_Suc)
    have "n = length sub - (j + 1)" using Suc.hyps(2) by linarith
    then have "includes_loop cmp w sub (i' + 1) (j + 1) = Some (covers cmp (drop (i' + 1) w) (drop (j + 1) sub))"
      using lt j by (intro Suc.hyps(1)) auto
    then show ?thesis using j i' lt cv by (auto simp: eqn dr dw)
  qed
qed

context total_cmp begin

lemma covers_alike:
  "sorted_by cmp as \<Longrightarrow> sorted_by cmp bs \<Longrightarrow>
   covers cmp as bs \<longleftrightarrow> (\<forall>x. length (alike cmp x bs) \<le> length (alike cmp x as))"
proof (induction c \<equiv> cmp as bs rule: covers.induct)
  case (1 as)
  then show ?case by simp
next
  case (2 b bs)
  have "\<not> length (alike cmp b (b # bs)) \<le> length (alike cmp b [])" by simp
  then show ?case by (metis covers.simps(2))
next
  case (3 a as b bs)
  consider "cmp a b < 0" | "cmp a b > 0" | "cmp a b = 0" by linarith
  then show ?case
  proof cases
    case 1
    have "length (alike cmp x (b # bs)) \<le> length (alike cmp x as) \<longleftrightarrow>
        length (alike cmp x (b # bs)) \<le> length (alike cmp x (a # as))" for x
    proof (cases "cmp x a = 0")
      case True
      have "alike cmp x (b # bs) = []" using 3(4) 1 True by (rule alike_less)
      then show ?thesis by (metis le0 list.size(3))
    next
      case False
      then show ?thesis by simp
    qed
    then show ?thesis using 3 1 by simp
  next
    case 2
    have "alike cmp b (a # as) = []" using 3(3) 2 cmp_refl by (rule alike_greater)
    moreover have "alike cmp b (b # bs) \<noteq> []" by simp
    ultimately have "\<not> length (alike cmp b (b # bs)) \<le> length (alike cmp b (a # as))"
      by (metis le_zero_eq length_0_conv)
    moreover have "\<not> covers cmp (a # as) (b # bs)" using 2 by simp
    ultimately show ?thesis by blast
  next
    case z: 3
    have "length (alike cmp x (b # bs)) \<le> length (alike cmp x (a # as)) \<longleftrightarrow>
        length (alike cmp x bs) \<le> length (alike cmp x as)" for x
      using zero_cong [OF z, of x] by simp
    then show ?thesis using 3 z by simp
  qed
qed

end

section \<open>The operations are walks\<close>

lemma walk_from_start:
  assumes "length (walk cmp kl kr ke a b) \<le> length dst"
  shows "\<exists>out i j. walk_loop cmp kl kr ke a b dst 0 0 0 = Some (written dst out, i, j, length out) \<and>
    i \<le> length a \<and> j \<le> length b \<and> out @ (if kl then drop i a else []) @ (if kr then drop j b else []) = walk cmp kl kr ke a b"
  using walk_loop_spec [of "[]" cmp kl kr ke 0 a 0 b dst, simplified, OF assms] by blast

lemma emit_rests:
  assumes "length (out @ drop i a @ drop j b) \<le> length dst"
  shows "do { (d, wr) \<leftarrow> tda_emit_rest (written dst out) (length out) a i; tda_emit_rest d wr b j } =
    Some (written dst (out @ drop i a @ drop j b), length (out @ drop i a @ drop j b))"
  using emit_rest_written [of out a i dst] emit_rest_written [of "out @ drop i a" b j dst] assms by simp

lemma union_eq:
  assumes "length a + length b \<le> length dst"
  shows "tda_span_set_union cmp dst a b =
    Some (written dst (walk cmp True True True a b), length (walk cmp True True True a b))"
proof -
  have le: "length (walk cmp True True True a b) \<le> length dst"
    using length_walk [of cmp True True True a b] assms by simp
  obtain out i j where w: "walk_loop cmp True True True a b dst 0 0 0 = Some (written dst out, i, j, length out)"
    and r: "out @ drop i a @ drop j b = walk cmp True True True a b"
    using walk_from_start [OF le] by auto
  show ?thesis
    using emit_rests [of out i a j b dst] le assms w unfolding r by (simp add: tda_span_set_union_def union_loop_walk)
qed

lemma symmetric_eq:
  assumes "length a + length b \<le> length dst"
  shows "tda_span_set_symmetric_difference cmp dst a b =
    Some (written dst (walk cmp True True False a b), length (walk cmp True True False a b))"
proof -
  have le: "length (walk cmp True True False a b) \<le> length dst"
    using length_walk [of cmp True True False a b] assms by simp
  obtain out i j where w: "walk_loop cmp True True False a b dst 0 0 0 = Some (written dst out, i, j, length out)"
    and r: "out @ drop i a @ drop j b = walk cmp True True False a b"
    using walk_from_start [OF le] by auto
  show ?thesis
    using emit_rests [of out i a j b dst] le assms w unfolding r
    by (simp add: tda_span_set_symmetric_difference_def symmetric_loop_walk)
qed

lemma intersection_eq:
  assumes "min (length a) (length b) \<le> length dst"
  shows "tda_span_set_intersection cmp dst a b =
    Some (written dst (walk cmp False False True a b), length (walk cmp False False True a b))"
proof -
  have le: "length (walk cmp False False True a b) \<le> length dst"
    using length_walk_inter [of cmp a b] assms by linarith
  obtain out i j where w: "walk_loop cmp False False True a b dst 0 0 0 = Some (written dst out, i, j, length out)"
    and r: "out = walk cmp False False True a b"
    using walk_from_start [OF le] by auto
  have "(if length a < length b then length a else length b) \<le> length dst" using assms by (simp add: min_def split: if_splits)
  then show ?thesis using w r by (simp add: tda_span_set_intersection_def intersection_loop_walk)
qed

lemma difference_eq:
  assumes "length a \<le> length dst"
  shows "tda_span_set_difference cmp dst a b =
    Some (written dst (walk cmp True False False a b), length (walk cmp True False False a b))"
proof -
  have le: "length (walk cmp True False False a b) \<le> length dst"
    using length_walk [of cmp True False False a b] assms by simp
  obtain out i j where w: "walk_loop cmp True False False a b dst 0 0 0 = Some (written dst out, i, j, length out)"
    and r: "out @ drop i a = walk cmp True False False a b"
    using walk_from_start [OF le] by auto
  have "length out + (length a - i) \<le> length dst" using le unfolding r [symmetric] by simp
  then show ?thesis
    using emit_rest_written [of out a i dst] assms w unfolding r by (simp add: tda_span_set_difference_def difference_loop_walk)
qed

text \<open>
  C37: on sorted spans, union, intersection, difference and symmetric difference return the sorted
  list that holds each run of equal elements as often as the header says, the first span's
  elements before the second's.
\<close>

theorem set_operations:
  assumes "total_cmp cmp" "sorted_by cmp a" "sorted_by cmp b" "length a + length b \<le> length dst"
  shows "\<exists>un int df sy. tda_span_set_union cmp dst a b = Some (written dst un, length un) \<and>
    tda_span_set_intersection cmp dst a b = Some (written dst int, length int) \<and>
    tda_span_set_difference cmp dst a b = Some (written dst df, length df) \<and>
    tda_span_set_symmetric_difference cmp dst a b = Some (written dst sy, length sy) \<and>
    (\<forall>r \<in> {un, int, df, sy}. sorted_by cmp r) \<and>
    (\<forall>x. let as = alike cmp x a; bs = alike cmp x b; m = length as; n = length bs in
       alike cmp x un = as @ drop m bs \<and> alike cmp x int = take n as \<and>
       alike cmp x df = drop n as \<and> alike cmp x sy = drop n as @ drop m bs)"
proof -
  note srt = total_cmp.walk_sorted [OF assms(1-3)] and al = total_cmp.walk_alike [OF assms(1-3)]
  have "tda_span_set_intersection cmp dst a b =
      Some (written dst (walk cmp False False True a b), length (walk cmp False False True a b))"
    using assms(4) by (intro intersection_eq) simp
  moreover have "tda_span_set_difference cmp dst a b =
      Some (written dst (walk cmp True False False a b), length (walk cmp True False False a b))"
    using assms(4) by (intro difference_eq) simp
  ultimately show ?thesis
    using union_eq [OF assms(4), of cmp] symmetric_eq [OF assms(4), of cmp] srt
    by (intro exI conjI) (assumption | simp add: al Let_def)+
qed

theorem set_operations_witness:
  "\<exists>un. tda_span_set_union tda_cmp_i32 [0, 0, 0, 0] [1, 3] [2, 3] = Some (written [0, 0, 0, 0] un, length un) \<and>
    sorted_by tda_cmp_i32 un"
proof -
  have "sorted_by tda_cmp_i32 [1, 3]" "sorted_by tda_cmp_i32 [2, 3]"
    by (simp_all add: tda_cmp_i32_def tda_cmp_signed_def cmp_int_def)
  from set_operations [OF i32.total_cmp_axioms this, of "[0, 0, 0, 0]"] show ?thesis by auto
qed

lemma inclusion:
  assumes "total_cmp cmp" "sorted_by cmp a" "sorted_by cmp b"
  shows "tda_span_includes cmp a b = Some (\<forall>x. length (alike cmp x b) \<le> length (alike cmp x a))"
  using includes_loop_eq [of 0 a 0 b cmp] total_cmp.covers_alike [OF assms]
  by (simp add: tda_span_includes_def)

end
