(* ===== verification/Floats.thy ===== *)
theory Floats
  imports Rng
begin

text \<open>
  The float draws of \<open>core/rng.c\<close>, over \<open>float\<close> and \<open>double\<close> of IEEE 754 rounded to nearest. A float is an
  integer, its value in units of the least subnormal number of its format: \<open>p\<close> bits are significant, and
  \<open>1\<close> is \<open>2 ^ s\<close> units. The sign of zero is not kept. A result too large for the format, where the code
  would have an infinity, is kept as the large number it is: neither is below a float. Whether the
  compiler contracts a multiply and an add into one rounding is a parameter.
\<close>

section \<open>Floats\<close>

fun bit_len :: "nat \<Rightarrow> nat" where
  "bit_len n = (if n = 0 then 0 else Suc (bit_len (n div 2)))"

declare bit_len.simps [simp del]

text \<open>The floats near \<open>v\<close> are the multiples of two to this power.\<close>

definition flt_quantum :: "nat \<Rightarrow> int \<Rightarrow> nat" where
  "flt_quantum p v = bit_len (nat \<bar>v\<bar>) - p"

definition flt_ok :: "nat \<Rightarrow> int \<Rightarrow> bool" where
  "flt_ok p v \<longleftrightarrow> v mod 2 ^ flt_quantum p v = 0"

text \<open>\<open>v / 2 ^ q\<close> rounded to an integer, and the float nearest to \<open>v / 2 ^ s\<close>; of two as near, the even one.\<close>

definition half_even :: "int \<Rightarrow> nat \<Rightarrow> int" where
  "half_even v q = (let d = v div 2 ^ q; r = v mod 2 ^ q in
     if 2 * r > 2 ^ q \<or> 2 * r = 2 ^ q \<and> odd d then d + 1 else d)"

definition flt_round :: "nat \<Rightarrow> nat \<Rightarrow> int \<Rightarrow> int" where
  "flt_round p s v = (let q = max s (flt_quantum p v) in half_even v q * 2 ^ (q - s))"

definition flt_of :: "nat \<Rightarrow> nat \<Rightarrow> int \<Rightarrow> int" where
  "flt_of p s n = flt_round p 0 (n * 2 ^ s)"

definition flt_sub :: "nat \<Rightarrow> int \<Rightarrow> int \<Rightarrow> int" where
  "flt_sub p a b = flt_round p 0 (a - b)"

definition flt_mul :: "nat \<Rightarrow> nat \<Rightarrow> int \<Rightarrow> int \<Rightarrow> int" where
  "flt_mul p s a b = flt_round p s (a * b)"

text \<open>\<open>c + a * b\<close>\<close>

definition flt_mul_add :: "bool \<Rightarrow> nat \<Rightarrow> nat \<Rightarrow> int \<Rightarrow> int \<Rightarrow> int \<Rightarrow> int" where
  "flt_mul_add fused p s c a b =
     (if fused then flt_round p s (c * 2 ^ s + a * b) else flt_round p 0 (c + flt_mul p s a b))"

definition flt_down :: "nat \<Rightarrow> int \<Rightarrow> int" where
  "flt_down p v = v div 2 ^ flt_quantum p v * 2 ^ flt_quantum p v"

definition nextafter :: "nat \<Rightarrow> int \<Rightarrow> int \<Rightarrow> int" where
  "nextafter p x to = (if to < x then flt_down p (x - 1) else if to = x then to else - flt_down p (- x - 1))"

definition FLT_MAX :: int where "FLT_MAX = (2 ^ 24 - 1) * 2 ^ 253"
definition DBL_MAX :: int where "DBL_MAX = (2 ^ 53 - 1) * 2 ^ 2045"

section \<open>Draws\<close>

definition tda_rng_f32 :: "rng \<Rightarrow> int \<times> rng" where
  "tda_rng_f32 self = (let (v, self) = next_u32 self in
     (flt_mul 24 149 (flt_of 24 149 (uint (drop_bit 8 v))) (2 ^ (149 - 24)), self))"

definition tda_rng_f64 :: "rng \<Rightarrow> int \<times> rng" where
  "tda_rng_f64 self = (let (v, self) = next_u64 self in
     (flt_mul 53 1074 (flt_of 53 1074 (uint (drop_bit 11 v))) (2 ^ (1074 - 53)), self))"

definition tda_rng_f32_range :: "bool \<Rightarrow> rng \<Rightarrow> int \<Rightarrow> int \<Rightarrow> (int \<times> rng) option" where
  "tda_rng_f32_range fused self lo hi = do {
     chk (\<bar>lo\<bar> \<le> FLT_MAX);
     chk (\<bar>hi\<bar> \<le> FLT_MAX);
     chk (lo \<le> hi);
     chk (\<bar>flt_sub 24 hi lo\<bar> \<le> FLT_MAX);
     let (u, self) = tda_rng_f32 self;
     let val = flt_mul_add fused 24 149 lo (flt_sub 24 hi lo) u;
     Some (if val < hi then val else nextafter 24 hi lo, self)
   }"

definition tda_rng_f64_range :: "bool \<Rightarrow> rng \<Rightarrow> int \<Rightarrow> int \<Rightarrow> (int \<times> rng) option" where
  "tda_rng_f64_range fused self lo hi = do {
     chk (\<bar>lo\<bar> \<le> DBL_MAX);
     chk (\<bar>hi\<bar> \<le> DBL_MAX);
     chk (lo \<le> hi);
     chk (\<bar>flt_sub 53 hi lo\<bar> \<le> DBL_MAX);
     let (u, self) = tda_rng_f64 self;
     let val = flt_mul_add fused 53 1074 lo (flt_sub 53 hi lo) u;
     Some (if val < hi then val else nextafter 53 hi lo, self)
   }"

section \<open>Rounding\<close>

lemma le_div_pow: "(c :: int) \<le> v div 2 ^ q \<longleftrightarrow> c * 2 ^ q \<le> v"
proof
  assume "c \<le> v div 2 ^ q"
  then have "c * 2 ^ q \<le> v div 2 ^ q * 2 ^ q" by simp
  also have "\<dots> \<le> v" using div_mult_mod_eq [of v "2 ^ q"] pos_mod_sign [of "2 ^ q" v, OF zero_less_power] by linarith
  finally show "c * 2 ^ q \<le> v" .
next
  assume "c * 2 ^ q \<le> v"
  then have "c * 2 ^ q div 2 ^ q \<le> v div 2 ^ q" by (rule zdiv_mono1) simp
  then show "c \<le> v div 2 ^ q" by simp
qed

lemma div_pow_less: "v div 2 ^ q < (c :: int) \<longleftrightarrow> v < c * 2 ^ q"
  using le_div_pow [of c v q] by linarith

lemma bit_len_bounds: "n < 2 ^ bit_len n \<and> (0 < n \<longrightarrow> 2 ^ (bit_len n - 1) \<le> n)"
proof (induction n rule: bit_len.induct)
  case (1 n)
  show ?case
  proof (cases "n = 0")
    case False
    then have I: "n div 2 < 2 ^ bit_len (n div 2)" "0 < n div 2 \<longrightarrow> 2 ^ (bit_len (n div 2) - 1) \<le> n div 2" using 1 by simp_all
    have e: "bit_len n = Suc (bit_len (n div 2))" using False by (subst bit_len.simps) simp
    have "2 ^ bit_len (n div 2) \<le> n"
    proof (cases "n div 2 = 0")
      case True
      then show ?thesis using False by (simp add: bit_len.simps [of 0])
    next
      case nz: False
      then have "bit_len (n div 2) \<noteq> 0" by (subst bit_len.simps) simp
      then have "2 ^ bit_len (n div 2) = 2 * (2 :: nat) ^ (bit_len (n div 2) - 1)" by (simp flip: power_Suc)
      then show ?thesis using I(2) nz by simp
    qed
    then show ?thesis using I(1) e by simp
  qed (simp add: bit_len.simps [of 0])
qed

lemma bit_len_int:
  fixes v :: int
  shows "\<bar>v\<bar> < 2 ^ bit_len (nat \<bar>v\<bar>)" "v \<noteq> 0 \<Longrightarrow> 2 ^ (bit_len (nat \<bar>v\<bar>) - 1) \<le> \<bar>v\<bar>"
proof -
  note b = bit_len_bounds [of "nat \<bar>v\<bar>"]
  have "int (nat \<bar>v\<bar>) < int (2 ^ bit_len (nat \<bar>v\<bar>))" using b by (simp only: of_nat_less_iff)
  then show "\<bar>v\<bar> < 2 ^ bit_len (nat \<bar>v\<bar>)" by simp
  assume "v \<noteq> 0"
  then have "int (2 ^ (bit_len (nat \<bar>v\<bar>) - 1)) \<le> int (nat \<bar>v\<bar>)" using b by (simp only: of_nat_le_iff)
  then show "2 ^ (bit_len (nat \<bar>v\<bar>) - 1) \<le> \<bar>v\<bar>" by simp
qed

lemma half_even_ge: "c * 2 ^ q \<le> v \<Longrightarrow> c \<le> half_even v q"
  using le_div_pow [of c v q] by (auto simp: half_even_def Let_def)

lemma half_even_le:
  assumes "v \<le> c * 2 ^ q"
  shows "half_even v q \<le> c"
proof (cases "v = c * 2 ^ q")
  case False
  then have "v div 2 ^ q < c" using assms by (simp add: div_pow_less)
  then show ?thesis by (auto simp: half_even_def Let_def)
qed (simp add: half_even_def Let_def)

text \<open>A float is few significant bits and a power of two.\<close>

lemma flt_okD:
  assumes "flt_ok p v"
  shows "\<exists>m k. v = m * 2 ^ k \<and> \<bar>m\<bar> < 2 ^ p"
proof -
  let ?q = "flt_quantum p v"
  have v: "v = v div 2 ^ ?q * 2 ^ ?q" using assms by (simp add: flt_ok_def) (metis dvd_div_mult_self mod_0_imp_dvd)
  have "\<bar>v\<bar> < 2 ^ bit_len (nat \<bar>v\<bar>)" by (rule bit_len_int)
  also have "\<dots> \<le> 2 ^ (p + ?q)" by (intro power_increasing) (simp_all add: flt_quantum_def)
  finally have "\<bar>v\<bar> < 2 ^ p * 2 ^ ?q" by (simp add: power_add)
  moreover have "\<bar>v\<bar> = \<bar>v div 2 ^ ?q\<bar> * 2 ^ ?q" using arg_cong [OF v, of abs] by (simp add: abs_mult)
  ultimately have "\<bar>v div 2 ^ ?q\<bar> < 2 ^ p" by simp
  then show ?thesis using v by blast
qed

lemma flt_okI:
  assumes "v = m * 2 ^ k" "\<bar>m\<bar> < 2 ^ p"
  shows "flt_ok p v"
proof (cases "v = 0")
  case False
  have "(2 :: int) ^ (bit_len (nat \<bar>v\<bar>) - 1) \<le> \<bar>v\<bar>" using False by (rule bit_len_int)
  also have "\<bar>v\<bar> < 2 ^ (p + k)" using assms by (simp add: abs_mult power_add)
  finally have "bit_len (nat \<bar>v\<bar>) - 1 < p + k" by (rule power_less_imp_less_exp [rotated]) simp
  then have "flt_quantum p v \<le> k" by (simp add: flt_quantum_def)
  then show ?thesis unfolding flt_ok_def assms(1) by (simp add: le_imp_power_dvd)
qed (simp add: flt_ok_def)

text \<open>Between a float and a number there is a multiple of the number's quantum.\<close>

lemma grid_between:
  assumes f: "flt_ok p f" and p: "0 < p" and q: "q = max s (flt_quantum p v)"
  shows "\<exists>c. (f * 2 ^ s \<le> v \<longrightarrow> f * 2 ^ s \<le> c * 2 ^ q \<and> c * 2 ^ q \<le> v) \<and> (v \<le> f * 2 ^ s \<longrightarrow> v \<le> c * 2 ^ q \<and> c * 2 ^ q \<le> f * 2 ^ s)"
proof -
  obtain m k where f': "f = m * 2 ^ k" "\<bar>m\<bar> < 2 ^ p" using flt_okD [OF f] by blast
  let ?g = "f * 2 ^ s"
  show ?thesis
  proof (cases "q \<le> k + s")
    case True
    then have "?g = (m * 2 ^ (k + s - q)) * 2 ^ q" unfolding f'(1) by (simp add: mult.assoc flip: power_add)
    then show ?thesis by (metis order_refl)
  next
    case False
    let ?b = "bit_len (nat \<bar>v\<bar>) - 1"
    have b: "q = Suc ?b - p" "k + s < q" "p \<le> ?b" using False q by (auto simp: flt_quantum_def split: if_splits)
    have v0: "v \<noteq> 0" using b(3) p by (auto simp: bit_len.simps [of 0])
    have big: "2 ^ ?b \<le> \<bar>v\<bar>" by (rule bit_len_int(2) [OF v0])
    have "\<bar>?g\<bar> < 2 ^ (p + (k + s))" using f' by (simp add: abs_mult power_add)
    also have "\<dots> \<le> 2 ^ ?b"
    proof (rule power_increasing)
      show "p + (k + s) \<le> ?b" using b by arith
    qed simp
    finally have g: "\<bar>?g\<bar> < 2 ^ ?b" .
    have "q \<le> ?b" using b p by arith
    then have two: "(2 :: int) ^ ?b = 2 ^ (?b - q) * 2 ^ q" by (simp flip: power_add)
    show ?thesis
    proof (cases "0 < v")
      case True
      then have "?g \<le> 2 ^ (?b - q) * 2 ^ q \<and> 2 ^ (?b - q) * 2 ^ q \<le> v \<and> \<not> v \<le> ?g" using big g unfolding two by linarith
      then show ?thesis by blast
    next
      case False
      then have "v \<le> - (2 ^ (?b - q)) * 2 ^ q \<and> - (2 ^ (?b - q)) * 2 ^ q \<le> ?g \<and> \<not> ?g \<le> v"
        using big g v0 unfolding two mult_minus_left by linarith
      then show ?thesis by blast
    qed
  qed
qed

lemma flt_round_ge:
  assumes "flt_ok p f" "0 < p" "f * 2 ^ s \<le> v"
  shows "f \<le> flt_round p s v"
proof -
  let ?q = "max s (flt_quantum p v)"
  obtain c where c: "f * 2 ^ s \<le> c * 2 ^ ?q" "c * 2 ^ ?q \<le> v" using grid_between [OF assms(1,2) refl] assms(3) by blast
  have "c * 2 ^ (?q - s) \<le> half_even v ?q * 2 ^ (?q - s)" by (intro mult_right_mono half_even_ge [OF c(2)]) simp
  moreover have "f * 2 ^ s \<le> (c * 2 ^ (?q - s)) * 2 ^ s" using c(1) by (simp add: mult.assoc flip: power_add)
  then have "f \<le> c * 2 ^ (?q - s)" by simp
  ultimately show ?thesis unfolding flt_round_def Let_def by linarith
qed

lemma flt_round_le:
  assumes "flt_ok p f" "0 < p" "v \<le> f * 2 ^ s"
  shows "flt_round p s v \<le> f"
proof -
  let ?q = "max s (flt_quantum p v)"
  obtain c where c: "v \<le> c * 2 ^ ?q" "c * 2 ^ ?q \<le> f * 2 ^ s" using grid_between [OF assms(1,2) refl] assms(3) by blast
  have "half_even v ?q * 2 ^ (?q - s) \<le> c * 2 ^ (?q - s)" by (intro mult_right_mono half_even_le [OF c(1)]) simp
  moreover have "(c * 2 ^ (?q - s)) * 2 ^ s \<le> f * 2 ^ s" using c(2) by (simp add: mult.assoc flip: power_add)
  then have "c * 2 ^ (?q - s) \<le> f" by simp
  ultimately show ?thesis unfolding flt_round_def Let_def by linarith
qed

lemma flt_round_exact: "flt_ok p f \<Longrightarrow> 0 < p \<Longrightarrow> flt_round p s (f * 2 ^ s) = f"
  by (intro order_antisym flt_round_le flt_round_ge) simp_all

lemma flt_grid_ok:
  assumes "\<bar>d\<bar> \<le> 2 ^ p" "0 < p"
  shows "flt_ok p (d * 2 ^ k)"
proof (cases "\<bar>d\<bar> = 2 ^ p")
  case True
  moreover have "(2 :: int) ^ p = 2 ^ (p - 1) * 2" using assms(2) by (simp flip: power_Suc2)
  ultimately have "d * 2 ^ k = (sgn d * 2 ^ (p - 1)) * 2 ^ Suc k" by (metis mult.assoc mult_sgn_abs power_Suc)
  moreover have "\<bar>sgn d * (2 :: int) ^ (p - 1)\<bar> < 2 ^ p" using assms(2) by (simp add: abs_mult abs_sgn_eq)
  ultimately show ?thesis by (rule flt_okI)
qed (use assms in \<open>auto intro: flt_okI\<close>)

lemma quantum_div:
  assumes "flt_quantum p v \<le> q"
  shows "- (2 ^ p) \<le> v div 2 ^ q" "v div 2 ^ q < 2 ^ p"
proof -
  have "\<bar>v\<bar> < 2 ^ bit_len (nat \<bar>v\<bar>)" by (rule bit_len_int)
  also have "\<dots> \<le> 2 ^ (p + q)" using assms by (intro power_increasing) (simp_all add: flt_quantum_def)
  finally have "- (2 ^ p) * 2 ^ q \<le> v" "v < 2 ^ p * 2 ^ q" by (simp_all add: power_add)
  then show "- (2 ^ p) \<le> v div 2 ^ q" "v div 2 ^ q < 2 ^ p" by (simp_all add: le_div_pow div_pow_less)
qed

lemma flt_round_ok: "0 < p \<Longrightarrow> flt_ok p (flt_round p s v)"
  using quantum_div [of p v "max s (flt_quantum p v)"]
  by (auto simp: flt_round_def half_even_def Let_def intro!: flt_grid_ok)

lemma flt_down_ok: "0 < p \<Longrightarrow> flt_ok p (flt_down p v)"
  using quantum_div [of p v "flt_quantum p v"] by (auto simp: flt_down_def intro!: flt_grid_ok)

lemma flt_down_le: "flt_down p v \<le> v"
  using le_div_pow [of "v div 2 ^ flt_quantum p v" v "flt_quantum p v"] by (simp add: flt_down_def)

lemma flt_down_ge:
  assumes "flt_ok p f" "0 < p" "f \<le> v"
  shows "f \<le> flt_down p v"
proof -
  obtain c where c: "f \<le> c * 2 ^ flt_quantum p v" "c * 2 ^ flt_quantum p v \<le> v"
    using grid_between [OF assms(1,2) refl, of 0 v] assms(3) by auto
  then have "c \<le> v div 2 ^ flt_quantum p v" by (simp add: le_div_pow)
  then have "c * 2 ^ flt_quantum p v \<le> flt_down p v" by (simp add: flt_down_def)
  then show ?thesis using c(1) by simp
qed

section \<open>Draws in a range\<close>

lemma flt_zero [simp]: "flt_ok p 0"
  by (simp add: flt_ok_def)

lemma flt_sub_nonneg: "lo \<le> hi \<Longrightarrow> 0 < p \<Longrightarrow> 0 \<le> flt_sub p hi lo"
  unfolding flt_sub_def by (intro flt_round_ge) simp_all

lemma mul_add_ge:
  assumes lo: "flt_ok p lo" "0 < p" and nn: "0 \<le> w" "0 \<le> u"
  shows "lo \<le> flt_mul_add fused p s lo w u"
proof -
  have "0 \<le> w * u" using nn by simp
  moreover have "0 \<le> flt_mul p s w u" unfolding flt_mul_def using nn lo(2) by (intro flt_round_ge) simp_all
  ultimately show ?thesis unfolding flt_mul_add_def using lo by (auto intro!: flt_round_ge)
qed

lemma mul_add_ok: "0 < p \<Longrightarrow> flt_ok p (flt_mul_add fused p s lo w u)"
  by (simp add: flt_mul_add_def flt_round_ok)

lemma mul_add_zero:
  assumes "flt_ok p lo" "0 < p"
  shows "flt_mul_add fused p s lo 0 u = lo"
proof -
  have "flt_mul p s 0 u = 0" unfolding flt_mul_def using flt_round_exact [OF flt_zero assms(2), of s] by simp
  then show ?thesis using flt_round_exact [OF assms, of s] flt_round_exact [OF assms, of 0] by (simp add: flt_mul_add_def)
qed

lemma pick_in_range:
  assumes f: "flt_ok p lo" "flt_ok p hi" "0 < p" and le: "lo \<le> hi" and u: "0 \<le> u"
    and val: "val = flt_mul_add fused p s lo (flt_sub p hi lo) u"
  shows "let r = (if val < hi then val else nextafter p hi lo) in flt_ok p r \<and> lo \<le> r \<and> (if lo = hi then r = lo else r < hi)"
proof (cases "lo = hi")
  case True
  have "flt_sub p hi lo = 0" using True flt_round_exact [OF flt_zero f(3), of 0] by (simp add: flt_sub_def)
  then have "val = lo" using mul_add_zero [OF f(1,3)] by (simp add: val)
  then show ?thesis using True f by (simp add: nextafter_def)
next
  case False
  then have lt: "lo < hi" using le by simp
  have "lo \<le> val" unfolding val by (intro mul_add_ge f flt_sub_nonneg le u)
  moreover have "flt_ok p val" unfolding val by (rule mul_add_ok [OF f(3)])
  moreover have "flt_ok p (flt_down p (hi - 1))" by (rule flt_down_ok [OF f(3)])
  moreover have "lo \<le> flt_down p (hi - 1)" using lt by (intro flt_down_ge f) simp
  moreover have "flt_down p (hi - 1) < hi" using flt_down_le [of p "hi - 1"] by simp
  ultimately show ?thesis using False lt by (simp add: nextafter_def)
qed

text \<open>The scaling of a draw is exact.\<close>

lemma draw_exact:
  assumes "0 \<le> j" "j < 2 ^ p" "0 < p" "p \<le> s"
  shows "flt_mul p s (flt_of p s j) (2 ^ (s - p)) = j * 2 ^ (s - p)" "0 \<le> j * 2 ^ (s - p)" "j * 2 ^ (s - p) < 2 ^ s"
proof -
  have k: "flt_ok p (j * 2 ^ k)" for k using assms(1,2) by (intro flt_okI [OF refl]) simp
  have "flt_of p s j = j * 2 ^ s" using flt_round_exact [OF k assms(3), of 0 s] by (simp add: flt_of_def)
  then show "flt_mul p s (flt_of p s j) (2 ^ (s - p)) = j * 2 ^ (s - p)"
    using flt_round_exact [OF k assms(3), of s "s - p"] by (simp add: flt_mul_def ac_simps)
  have "j * 2 ^ (s - p) < 2 ^ p * 2 ^ (s - p)" using assms(2) by simp
  then show "j * 2 ^ (s - p) < 2 ^ s" using assms(4) by (simp flip: power_add)
qed (use assms in simp)

lemma drop_bit_div:
  fixes v :: "'a::len word"
  shows "unat (drop_bit n v) = unat v div 2 ^ n" "uint (drop_bit n v) = uint v div 2 ^ n"
proof -
  show n: "unat (drop_bit n v) = unat v div 2 ^ n" unfolding unat_drop_bit_eq by (rule drop_bit_eq_div)
  show "uint (drop_bit n v) = uint v div 2 ^ n" using arg_cong [OF n, of int] by (simp only: of_nat_unat zdiv_int of_nat_power of_nat_numeral)
qed

lemma drop_bit_below:
  fixes v :: "'a::len word"
  shows "uint (drop_bit n v) < 2 ^ (LENGTH('a) - n)"
proof (cases "n \<le> LENGTH('a)")
  case True
  have "uint v < 2 ^ (LENGTH('a) - n) * 2 ^ n" using uint_lt2p [of v] True by (simp flip: power_add)
  then show ?thesis by (simp only: drop_bit_div div_pow_less)
next
  case False
  then have "drop_bit n v = 0" by (intro bit_word_eqI) (auto simp: bit_drop_bit_eq dest: bit_imp_le_length)
  then show ?thesis by simp
qed

lemma card_drop_bit:
  assumes "n \<le> LENGTH('a)" "j < 2 ^ (LENGTH('a) - n)"
  shows "card {r :: 'a::len word. unat (drop_bit n r) = j} = 2 ^ n"
proof -
  let ?S = "{r :: 'a word. unat (drop_bit n r) = j}"
  note eq = drop_bit_div(1) [where 'a = 'a]
  have "unat ` ?S = {j * 2 ^ n..<(j + 1) * 2 ^ n}"
  proof (intro equalityI subsetI)
    fix x assume "x \<in> unat ` ?S"
    then show "x \<in> {j * 2 ^ n..<(j + 1) * 2 ^ n}" by (auto simp: eq dividend_less_times_div intro: div_times_less_eq_dividend dividend_less_div_times)
  next
    fix x assume x: "x \<in> {j * 2 ^ n..<(j + 1) * 2 ^ n}"
    have "(j + 1) * 2 ^ n \<le> 2 ^ (LENGTH('a) - n) * 2 ^ n" using assms(2) by (intro mult_right_mono) simp_all
    also have "\<dots> = 2 ^ LENGTH('a)" using assms(1) by (simp flip: power_add)
    finally have u: "unat (word_of_nat x :: 'a word) = x" using x by (simp add: unat_of_nat)
    have "x div 2 ^ n = j" using x by (intro div_nat_eqI) (simp_all add: ac_simps)
    then have "(word_of_nat x :: 'a word) \<in> ?S" using u by (simp add: eq)
    then show "x \<in> unat ` ?S" using u by (metis imageI)
  qed
  moreover have "inj_on unat ?S" by (rule inj_onI) (rule word_unat_eq_iff [THEN iffD2])
  ultimately show ?thesis using card_image [of unat ?S] by simp
qed

lemma f32_draw:
  "fst (tda_rng_f32 self) = uint (drop_bit 8 (fst (next_u32 self))) * 2 ^ (149 - 24)"
  "0 \<le> fst (tda_rng_f32 self)" "fst (tda_rng_f32 self) < 2 ^ 149"
  using draw_exact [of "uint (drop_bit 8 (fst (next_u32 self)))" 24 149] drop_bit_below [of 8 "fst (next_u32 self)"]
  by (simp_all add: tda_rng_f32_def case_prod_beta)

lemma f64_draw:
  "fst (tda_rng_f64 self) = uint (drop_bit 11 (fst (next_u64 self))) * 2 ^ (1074 - 53)"
  "0 \<le> fst (tda_rng_f64 self)" "fst (tda_rng_f64 self) < 2 ^ 1074"
  using draw_exact [of "uint (drop_bit 11 (fst (next_u64 self)))" 53 1074] drop_bit_below [of 11 "fst (next_u64 self)"]
  by (simp_all add: tda_rng_f64_def case_prod_beta)

lemma f32_range_ok:
  assumes f: "flt_ok 24 lo" "flt_ok 24 hi" "lo \<le> hi" and fin: "\<bar>lo\<bar> \<le> FLT_MAX" "\<bar>hi\<bar> \<le> FLT_MAX" "\<bar>flt_sub 24 hi lo\<bar> \<le> FLT_MAX"
  shows "\<exists>v. tda_rng_f32_range fused self lo hi = Some (v, snd (tda_rng_f32 self)) \<and> flt_ok 24 v \<and> lo \<le> v \<and>
    (if lo = hi then v = lo else v < hi)"
proof -
  let ?val = "flt_mul_add fused 24 149 lo (flt_sub 24 hi lo) (fst (tda_rng_f32 self))"
  have "tda_rng_f32_range fused self lo hi = Some (if ?val < hi then ?val else nextafter 24 hi lo, snd (tda_rng_f32 self))"
    using f(3) fin unfolding tda_rng_f32_range_def case_prod_beta Let_def by simp
  moreover have "(0 :: nat) < 24" by simp
  note pick_in_range [OF f(1,2) this f(3) f32_draw(2) refl, of fused 149 self, unfolded Let_def]
  ultimately show ?thesis by blast
qed

lemma f64_range_ok:
  assumes f: "flt_ok 53 lo" "flt_ok 53 hi" "lo \<le> hi" and fin: "\<bar>lo\<bar> \<le> DBL_MAX" "\<bar>hi\<bar> \<le> DBL_MAX" "\<bar>flt_sub 53 hi lo\<bar> \<le> DBL_MAX"
  shows "\<exists>v. tda_rng_f64_range fused self lo hi = Some (v, snd (tda_rng_f64 self)) \<and> flt_ok 53 v \<and> lo \<le> v \<and>
    (if lo = hi then v = lo else v < hi)"
proof -
  let ?val = "flt_mul_add fused 53 1074 lo (flt_sub 53 hi lo) (fst (tda_rng_f64 self))"
  have "tda_rng_f64_range fused self lo hi = Some (if ?val < hi then ?val else nextafter 53 hi lo, snd (tda_rng_f64 self))"
    using f(3) fin unfolding tda_rng_f64_range_def case_prod_beta Let_def by simp
  moreover have "(0 :: nat) < 53" by simp
  note pick_in_range [OF f(1,2) this f(3) f64_draw(2) refl, of fused 1074 self, unfolded Let_def]
  ultimately show ?thesis by blast
qed

section \<open>Property\<close>

text \<open>
  C40: a float draw is the raw draw's top bits times a power of two, exactly, so every multiple of
  it below 1 comes from equally many raw draws; a draw in a range returns a float not below lo and
  below hi, or lo when the two are one, whether or not the compiler rounds the multiply and the
  add together.
\<close>

theorem float_draws:
  assumes f: "flt_ok 24 flo" "flt_ok 24 fhi" "flo \<le> fhi" "\<bar>flo\<bar> \<le> FLT_MAX" "\<bar>fhi\<bar> \<le> FLT_MAX" "\<bar>flt_sub 24 fhi flo\<bar> \<le> FLT_MAX"
    and d: "flt_ok 53 lo" "flt_ok 53 hi" "lo \<le> hi" "\<bar>lo\<bar> \<le> DBL_MAX" "\<bar>hi\<bar> \<le> DBL_MAX" "\<bar>flt_sub 53 hi lo\<bar> \<le> DBL_MAX"
  shows "(fst (tda_rng_f32 self) = uint (drop_bit 8 (fst (next_u32 self))) * 2 ^ (149 - 24) \<and>
      fst (tda_rng_f32 self) < 2 ^ 149 \<and> (\<forall>j < 2 ^ 24. card {r :: 32 word. unat (drop_bit 8 r) = j} = 2 ^ 8)) \<and>
    (fst (tda_rng_f64 self) = uint (drop_bit 11 (fst (next_u64 self))) * 2 ^ (1074 - 53) \<and>
      fst (tda_rng_f64 self) < 2 ^ 1074 \<and> (\<forall>j < 2 ^ 53. card {r :: 64 word. unat (drop_bit 11 r) = j} = 2 ^ 11)) \<and>
    (\<exists>v. tda_rng_f32_range fused self flo fhi = Some (v, snd (tda_rng_f32 self)) \<and> flt_ok 24 v \<and> flo \<le> v \<and>
      (if flo = fhi then v = flo else v < fhi)) \<and>
    (\<exists>v. tda_rng_f64_range fused self lo hi = Some (v, snd (tda_rng_f64 self)) \<and> flt_ok 53 v \<and> lo \<le> v \<and>
      (if lo = hi then v = lo else v < hi))"
proof -
  have c32: "\<forall>j < 2 ^ 24. card {r :: 32 word. unat (drop_bit 8 r) = j} = 2 ^ 8"
    using card_drop_bit [where 'a = 32, of 8] by simp
  have c64: "\<forall>j < 2 ^ 53. card {r :: 64 word. unat (drop_bit 11 r) = j} = 2 ^ 11"
    using card_drop_bit [where 'a = 64, of 11] by simp
  show ?thesis using f32_range_ok [OF f, of fused self] f64_range_ok [OF d, of fused self] f32_draw(1,3) [of self] f64_draw(1,3) [of self] c32 c64 by blast
qed

theorem float_draws_witness:
  "\<exists>v. tda_rng_f64_range False (tda_rng_from_seed 7) 0 (2 ^ 1074) = Some v \<and> fst v < 2 ^ 1074"
proof -
  have one: "flt_ok 24 (2 ^ 149)" "flt_ok 53 (2 ^ 1074)" by (rule flt_okI [OF mult_1 [symmetric]], simp)+
  have sub: "flt_sub 24 (2 ^ 149) 0 = 2 ^ 149" "flt_sub 53 (2 ^ 1074) 0 = 2 ^ 1074"
    using flt_round_exact [OF one(1), of 0] flt_round_exact [OF one(2), of 0] unfolding flt_sub_def diff_0_right power_0 mult_1_right by simp_all
  have 32: "(0 :: int) \<le> 2 ^ 149" "\<bar>0\<bar> \<le> FLT_MAX" "\<bar>2 ^ 149\<bar> \<le> FLT_MAX" "\<bar>flt_sub 24 (2 ^ 149) 0\<bar> \<le> FLT_MAX"
    unfolding sub by (simp_all add: FLT_MAX_def)
  have 64: "(0 :: int) \<le> 2 ^ 1074" "\<bar>0\<bar> \<le> DBL_MAX" "\<bar>2 ^ 1074\<bar> \<le> DBL_MAX" "\<bar>flt_sub 53 (2 ^ 1074) 0\<bar> \<le> DBL_MAX"
    unfolding sub by (simp_all add: DBL_MAX_def)
  have ne: "\<not> 0 = (2 ^ 1074 :: int)" by simp
  obtain v where "tda_rng_f64_range False (tda_rng_from_seed 7) 0 (2 ^ 1074) = Some (v, snd (tda_rng_f64 (tda_rng_from_seed 7)))"
    "if 0 = (2 ^ 1074 :: int) then v = 0 else v < 2 ^ 1074"
    using float_draws [OF flt_zero one(1) 32 flt_zero one(2) 64, of "tda_rng_from_seed 7" False, THEN conjunct2, THEN conjunct2, THEN conjunct2]
    by (elim exE conjE)
  then show ?thesis unfolding if_not_P [OF ne] by (intro exI [where x = "(v, snd (tda_rng_f64 (tda_rng_from_seed 7)))"] conjI) (simp_all only: fst_conv)
qed

end
