(* ===== verification/Families.thy ===== *)
theory Families
  imports Family Vec Deque Arr Stack Queue Pqueue Bitset
begin

text \<open>
  Families of the containers that keep their elements in a block of their own: every constructor, every
  call of their histories, the assignments and swaps of two of them, and deinit. The handing over of a
  block (\<open>init_raw\<close>, \<open>into_raw\<close>, \<open>into_vec\<close>, \<open>into_deque\<close>) is left out: the block is then the
  program's. What is copied or assigned from may be in the family or not.
\<close>

section \<open>Vecs\<close>

inductive vec_acts :: "heap \<times> unit \<times> 'e vec multiset \<Rightarrow> heap \<times> unit \<times> 'e vec multiset \<Rightarrow> bool" where
  va_init: "tda_vec_init elem al = Some v \<Longrightarrow> vec_acts (h, u, {#}) (h, u, {#v#})"
| va_init_len: "tda_vec_init_len zero n elem al h = Some (res, h') \<Longrightarrow> vec_acts (h, u, {#}) (h', u, made res)"
| va_init_cap: "tda_vec_init_cap n elem al h = Some (res, h') \<Longrightarrow> vec_acts (h, u, {#}) (h', u, made res)"
| va_from_data: "tda_vec_from_data xs elem al h = Some (res, h') \<Longrightarrow> vec_acts (h, u, {#}) (h', u, made res)"
| va_from_span: "tda_vec_from_span xs elem al h = Some (res, h') \<Longrightarrow> vec_acts (h, u, {#}) (h', u, made res)"
| va_copy: "vec_ok w \<Longrightarrow> tda_vec_copy w h = Some (res, h') \<Longrightarrow> vec_acts (h, u, {#}) (h', u, made res)"
| va_copy_with: "vec_ok w \<Longrightarrow> tda_vec_copy_with w al h = Some (res, h') \<Longrightarrow> vec_acts (h, u, {#}) (h', u, made res)"
| va_call: "vec_step (h, v) (h', v') \<Longrightarrow> vec_acts (h, u, {#v#}) (h', u, {#v'#})"
| va_move_assign: "velem w = velem v \<Longrightarrow> tda_vec_move_assign False v w h = Some (v', w', h') \<Longrightarrow>
    vec_acts (h, u, {#v, w#}) (h', u, {#v', w'#})"
| va_swap: "velem w = velem v \<Longrightarrow> tda_vec_swap False v w = Some (v', w') \<Longrightarrow> vec_acts (h, u, {#v, w#}) (h, u, {#v', w'#})"
| va_deinit: "tda_vec_deinit v h = Some (v', h') \<Longrightarrow> vec_acts (h, u, {#v#}) (h', u, {#})"

lemma vec_pays_made: "r = Some (res, h') \<Longrightarrow> vec_makes h al elem n r xs \<Longrightarrow> pays vec_view h {#} h' (made res)"
  by (rule pays_made [OF _ vec_makes_call])

lemma vec_acts_pay:
  assumes "vec_acts s t"
  shows "(\<forall>v \<in># snd (snd s). held_by vec_view (fst s) v) \<Longrightarrow> pays vec_view (fst s) (snd (snd s)) (fst t) (snd (snd t))"
  using assms
proof (induction rule: vec_acts.induct)
  case (va_init elem al v h u)
  then have "vec_ok v" "vec_block v = {#}" by (auto simp: tda_vec_init_def vec_ok_def vec_block_def)
  then show ?case by (simp add: pays_init)
next
  case (va_init_len zero n elem al h res h' u)
  then have "tda_layout_is_type elem" "al \<noteq> 0" "vec_init_impl (Some zero) n n elem al h = Some (res, h')"
    by (auto simp: tda_vec_init_len_def bind_Some_iff)
  then show ?case using vec_pays_made [OF _ vec_init_impl_spec [OF _ _ order_refl]] by simp
next
  case (va_init_cap n elem al h res h' u)
  then have "tda_layout_is_type elem" "al \<noteq> 0" "vec_init_impl None 0 n elem al h = Some (res, h')"
    by (auto simp: tda_vec_init_cap_def bind_Some_iff)
  then show ?case using vec_pays_made [OF _ vec_init_impl_spec [OF _ _ le0]] by simp
next
  case (va_from_data xs elem al h res h' u)
  then have "tda_layout_is_type elem" "al \<noteq> 0" by (auto simp: tda_vec_from_data_def bind_Some_iff)
  then show ?case using vec_pays_made [OF va_from_data(1) vec_from_data_spec] by simp
next
  case (va_from_span xs elem al h res h' u)
  then have "tda_layout_is_type elem" "al \<noteq> 0" "tda_vec_from_data xs elem al h = Some (res, h')"
    by (auto simp: tda_vec_from_span_def bind_Some_iff)
  then show ?case using vec_pays_made [OF _ vec_from_data_spec] by simp
next
  case (va_copy w h res h' u)
  then have "tda_vec_copy_with w (valloc w) h = Some (res, h')" by (simp add: tda_vec_copy_def)
  then show ?case using vec_pays_made [OF _ vec_copy_with_spec [OF va_copy(1) vec_okD(5) [OF va_copy(1)]]] by simp
next
  case (va_copy_with w al h res h' u)
  then have "al \<noteq> 0" by (auto simp: tda_vec_copy_with_def bind_Some_iff)
  then show ?case using vec_pays_made [OF va_copy_with(2) vec_copy_with_spec [OF va_copy_with(1)]] by simp
next
  case (va_call h v h' v' u)
  then show ?case using pays_holds [of vec_view h v h' v'] vec.step_holds [OF va_call(1)] by simp
next
  case (va_move_assign w v h v' w' h' u)
  then have v: "held_by vec_view h v" "vec_ok w" by (simp_all add: held_by_vec)
  then obtain w1 h1 where "tda_vec_move_assign False v w h = Some (w, w1, h1)" "vec_ok w1" "vec_block w1 = {#}"
    "requests h (valloc v) (vec_block v) {#} True h1"
    using vec_move_assign_spec [of v h w] va_move_assign(1) by (auto simp: held_by_vec)
  then show ?case using pays_moved [of vec_view h v w w1 h1] va_move_assign(2) v by simp
next
  case (va_swap w v v' w' h u)
  then have "v' = w" "w' = v" by (auto simp: tda_vec_swap_def bind_Some_iff)
  then show ?case using pays_swapped [of vec_view v w h] va_swap(3) by (simp add: held_by_vec)
next
  case (va_deinit v h v' h' u)
  then show ?case using pays_ended [OF va_deinit(1) _ vec_deinit_call] by simp
qed

interpretation vecs: value_family vec_view vec_step tda_vec_deinit vec_acts
  using vec_acts_pay by unfold_locales force+

section \<open>Deques\<close>

inductive deque_acts :: "heap \<times> unit \<times> 'e deque multiset \<Rightarrow> heap \<times> unit \<times> 'e deque multiset \<Rightarrow> bool" where
  da_init: "tda_deque_init elem al = Some d \<Longrightarrow> deque_acts (h, u, {#}) (h, u, {#d#})"
| da_init_len: "tda_deque_init_len zero n elem al h = Some (res, h') \<Longrightarrow> deque_acts (h, u, {#}) (h', u, made res)"
| da_init_cap: "tda_deque_init_cap n elem al h = Some (res, h') \<Longrightarrow> deque_acts (h, u, {#}) (h', u, made res)"
| da_from_data: "tda_deque_from_data xs elem al h = Some (res, h') \<Longrightarrow> deque_acts (h, u, {#}) (h', u, made res)"
| da_from_span: "tda_deque_from_span xs elem al h = Some (res, h') \<Longrightarrow> deque_acts (h, u, {#}) (h', u, made res)"
| da_copy: "deque_ok w \<Longrightarrow> tda_deque_copy w h = Some (res, h') \<Longrightarrow> deque_acts (h, u, {#}) (h', u, made res)"
| da_copy_with: "deque_ok w \<Longrightarrow> tda_deque_copy_with w al h = Some (res, h') \<Longrightarrow> deque_acts (h, u, {#}) (h', u, made res)"
| da_call: "deque_step (h, d) (h', d') \<Longrightarrow> deque_acts (h, u, {#d#}) (h', u, {#d'#})"
| da_move_assign: "dqelem w = dqelem d \<Longrightarrow> tda_deque_move_assign False d w h = Some (d', w', h') \<Longrightarrow>
    deque_acts (h, u, {#d, w#}) (h', u, {#d', w'#})"
| da_swap: "dqelem w = dqelem d \<Longrightarrow> tda_deque_swap False d w = Some (d', w') \<Longrightarrow>
    deque_acts (h, u, {#d, w#}) (h, u, {#d', w'#})"
| da_deinit: "tda_deque_deinit d h = Some (d', h') \<Longrightarrow> deque_acts (h, u, {#d#}) (h', u, {#})"

lemma deque_acts_pay:
  assumes "deque_acts s t"
  shows "(\<forall>d \<in># snd (snd s). held_by deque_view (fst s) d) \<Longrightarrow> pays deque_view (fst s) (snd (snd s)) (fst t) (snd (snd t))"
  using assms
proof (induction rule: deque_acts.induct)
  case (da_init elem al d h u)
  then have "deque_ok d" "dqcap d = 0" by (auto simp: tda_deque_init_def deque_ok_def)
  then show ?case by (simp add: pays_init)
next
  case (da_init_len zero n elem al h res h' u)
  then have "tda_layout_is_type elem" "al \<noteq> 0" "deque_init_impl (Some zero) n n elem al h = Some (res, h')"
    by (auto simp: tda_deque_init_len_def bind_Some_iff)
  then show ?case using pays_made [OF _ init_impl_makes [OF _ _ order_refl]] by simp
next
  case (da_init_cap n elem al h res h' u)
  then have "tda_layout_is_type elem" "al \<noteq> 0" "deque_init_impl None 0 n elem al h = Some (res, h')"
    by (auto simp: tda_deque_init_cap_def bind_Some_iff)
  then show ?case using pays_made [OF _ init_impl_makes [OF _ _ le0]] by simp
next
  case (da_from_data xs elem al h res h' u)
  then have "tda_layout_is_type elem" "al \<noteq> 0" by (auto simp: tda_deque_from_data_def bind_Some_iff)
  then show ?case using pays_made [OF da_from_data(1) deque_from_data_ok] by simp
next
  case (da_from_span xs elem al h res h' u)
  then have "tda_layout_is_type elem" "al \<noteq> 0" "tda_deque_from_data xs elem al h = Some (res, h')"
    by (auto simp: tda_deque_from_span_def bind_Some_iff)
  then show ?case using pays_made [OF _ deque_from_data_ok] by simp
next
  case (da_copy w h res h' u)
  then have "tda_deque_copy_with w (dqal w) h = Some (res, h')" by (simp add: tda_deque_copy_def)
  then show ?case using pays_made [OF _ deque_copy_with_ok [OF da_copy(1) deque_okD(5) [OF da_copy(1)]]] by simp
next
  case (da_copy_with w al h res h' u)
  then have "al \<noteq> 0" by (auto simp: tda_deque_copy_with_def bind_Some_iff)
  then show ?case using pays_made [OF da_copy_with(2) deque_copy_with_ok [OF da_copy_with(1)]] by simp
next
  case (da_call h d h' d' u)
  then show ?case using pays_holds [of deque_view h d h' d'] deque.step_holds [OF da_call(1)] by simp
next
  case (da_move_assign w d h d' w' h' u)
  then have d: "held_by deque_view h d" "deque_ok w" by (simp_all add: held_by_deque)
  then obtain w1 h1 where "tda_deque_move_assign False d w h = Some (w, w1, h1)" "deque_ok w1" "dqcap w1 = 0"
    "requests h (dqal d) (held (dqelem d) (dqcap d)) {#} True h1"
    using deque_move_assign_ok [OF d da_move_assign(1)] by blast
  then show ?case using pays_moved [of deque_view h d w w1 h1] da_move_assign(2) d by simp
next
  case (da_swap w d d' w' h u)
  then have "d' = w" "w' = d" by (auto simp: tda_deque_swap_def bind_Some_iff)
  then show ?case using pays_swapped [of deque_view d w h] da_swap(3) by (simp add: held_by_deque)
next
  case (da_deinit d h d' h' u)
  then show ?case using pays_ended [OF da_deinit(1) _ deque_deinit_ok] by simp
qed

interpretation deques: value_family deque_view deque_step tda_deque_deinit deque_acts
  using deque_acts_pay by unfold_locales force+

section \<open>Arrays\<close>

inductive arr_acts :: "heap \<times> unit \<times> 'e arr multiset \<Rightarrow> heap \<times> unit \<times> 'e arr multiset \<Rightarrow> bool" where
  aa_init_len: "tda_arr_init_len zero n elem al h = Some (res, h') \<Longrightarrow> arr_acts (h, u, {#}) (h', u, made res)"
| aa_from_data: "tda_arr_from_data xs elem al h = Some (res, h') \<Longrightarrow> arr_acts (h, u, {#}) (h', u, made res)"
| aa_from_span: "tda_arr_from_span xs elem al h = Some (res, h') \<Longrightarrow> arr_acts (h, u, {#}) (h', u, made res)"
| aa_copy: "arr_ok w \<Longrightarrow> tda_arr_copy w h = Some (res, h') \<Longrightarrow> arr_acts (h, u, {#}) (h', u, made res)"
| aa_copy_with: "arr_ok w \<Longrightarrow> tda_arr_copy_with w al h = Some (res, h') \<Longrightarrow> arr_acts (h, u, {#}) (h', u, made res)"
| aa_call: "arr_step (h, a) (h', a') \<Longrightarrow> arr_acts (h, u, {#a#}) (h', u, {#a'#})"
| aa_move_assign: "aelem w = aelem a \<Longrightarrow> tda_arr_move_assign False a w h = Some (a', w', h') \<Longrightarrow>
    arr_acts (h, u, {#a, w#}) (h', u, {#a', w'#})"
| aa_swap: "aelem w = aelem a \<Longrightarrow> tda_arr_swap False a w = Some (a', w') \<Longrightarrow> arr_acts (h, u, {#a, w#}) (h, u, {#a', w'#})"
| aa_deinit: "tda_arr_deinit a h = Some (a', h') \<Longrightarrow> arr_acts (h, u, {#a#}) (h', u, {#})"

lemma arr_acts_pay:
  assumes "arr_acts s t"
  shows "(\<forall>a \<in># snd (snd s). held_by arr_view (fst s) a) \<Longrightarrow> pays arr_view (fst s) (snd (snd s)) (fst t) (snd (snd t))"
  using assms
proof (induction rule: arr_acts.induct)
  case (aa_init_len zero n elem al h res h' u)
  then have "tda_layout_is_type elem" "al \<noteq> 0" "arr_init_impl (Some zero) n elem al h = Some (res, h')"
    by (auto simp: tda_arr_init_len_def bind_Some_iff)
  then show ?case using pays_made [OF _ arr_init_impl_ok] by simp
next
  case (aa_from_data xs elem al h res h' u)
  then have "tda_layout_is_type elem" "al \<noteq> 0" by (auto simp: tda_arr_from_data_def bind_Some_iff)
  then show ?case using pays_made [OF aa_from_data(1) arr_from_data_ok] by simp
next
  case (aa_from_span xs elem al h res h' u)
  then have "tda_layout_is_type elem" "al \<noteq> 0" "tda_arr_from_data xs elem al h = Some (res, h')"
    by (auto simp: tda_arr_from_span_def bind_Some_iff)
  then show ?case using pays_made [OF _ arr_from_data_ok] by simp
next
  case (aa_copy w h res h' u)
  then have "tda_arr_copy_with w (aal w) h = Some (res, h')" using arr_okD(5) [OF aa_copy(1)] by (simp add: tda_arr_copy_def)
  then show ?case using pays_made [OF _ arr_copy_with_ok [OF aa_copy(1) arr_okD(4) [OF aa_copy(1)]]] by simp
next
  case (aa_copy_with w al h res h' u)
  then have "al \<noteq> 0" by (auto simp: tda_arr_copy_with_def bind_Some_iff)
  then show ?case using pays_made [OF aa_copy_with(2) arr_copy_with_ok [OF aa_copy_with(1)]] by simp
next
  case (aa_call h a h' a' u)
  then show ?case using pays_holds [of arr_view h a h' a'] arr.step_holds [OF aa_call(1)] by simp
next
  case (aa_move_assign w a h a' w' h' u)
  then have a: "held_by arr_view h a" "arr_ok w" "arr_ok a" by (simp_all add: held_by_arr)
  obtain c h1 where d: "tda_arr_deinit a h = Some (c, h1)" "requests h (aal a) (held (aelem a) (alen a)) {#} True h1"
    using arr_deinit_ok [OF a(1)] by (auto simp: call_ends_def)
  let ?w = "\<lparr>adata = [], alen = 0, aelem = aelem w, aal = aal w\<rparr>"
  have "tda_arr_move_assign False a w h = Some (a', w', h')" by (rule aa_move_assign(2))
  then have r: "a' = w" "w' = ?w" "h' = h1" using d(1) by (auto simp: tda_arr_move_assign_def bind_Some_iff Let_def)
  have "arr_ok ?w" using arr_okD(1,4) [OF a(2)] by (simp add: arr_ok_def)
  then show ?case using pays_moved [of arr_view h a w ?w h1] a(1,2) d(2) by (simp add: r)
next
  case (aa_swap w a a' w' h u)
  then have "a' = w" "w' = a" by (auto simp: tda_arr_swap_def bind_Some_iff)
  then show ?case using pays_swapped [of arr_view a w h] aa_swap(3) by (simp add: held_by_arr)
next
  case (aa_deinit a h a' h' u)
  then show ?case using pays_ended [OF aa_deinit(1) _ arr_deinit_ok] by simp
qed

interpretation arrs: value_family arr_view arr_step tda_arr_deinit arr_acts
  using arr_acts_pay by unfold_locales force+

section \<open>Stacks\<close>

inductive stack_acts :: "heap \<times> unit \<times> 'e stack multiset \<Rightarrow> heap \<times> unit \<times> 'e stack multiset \<Rightarrow> bool" where
  sa_init: "tda_stack_init elem al = Some s \<Longrightarrow> stack_acts (h, u, {#}) (h, u, {#s#})"
| sa_init_cap: "tda_stack_init_cap n elem al h = Some (res, h') \<Longrightarrow> stack_acts (h, u, {#}) (h', u, made res)"
| sa_from_data: "tda_stack_from_data xs elem al h = Some (res, h') \<Longrightarrow> stack_acts (h, u, {#}) (h', u, made res)"
| sa_from_span: "tda_stack_from_span xs elem al h = Some (res, h') \<Longrightarrow> stack_acts (h, u, {#}) (h', u, made res)"
| sa_copy: "vec_ok (stvec r) \<Longrightarrow> tda_stack_copy r h = Some (res, h') \<Longrightarrow> stack_acts (h, u, {#}) (h', u, made res)"
| sa_copy_with: "vec_ok (stvec r) \<Longrightarrow> tda_stack_copy_with r al h = Some (res, h') \<Longrightarrow> stack_acts (h, u, {#}) (h', u, made res)"
| sa_call: "stack_step (h, s) (h', s') \<Longrightarrow> stack_acts (h, u, {#s#}) (h', u, {#s'#})"
| sa_move_assign: "velem (stvec r) = velem (stvec s) \<Longrightarrow> tda_stack_move_assign False s r h = Some (s', r', h') \<Longrightarrow>
    stack_acts (h, u, {#s, r#}) (h', u, {#s', r'#})"
| sa_swap: "velem (stvec r) = velem (stvec s) \<Longrightarrow> tda_stack_swap False s r = Some (s', r') \<Longrightarrow>
    stack_acts (h, u, {#s, r#}) (h, u, {#s', r'#})"
| sa_deinit: "tda_stack_deinit s h = Some (s', h') \<Longrightarrow> stack_acts (h, u, {#s#}) (h', u, {#})"

lemma stack_pays_made:
  "stack_of r = Some (res, h') \<Longrightarrow> vec_makes h al elem n r xs \<Longrightarrow> pays stack_view h {#} h' (made res)"
  by (rule pays_made [OF _ stack_makes [OF vec_makes_call]])

lemma stack_acts_pay:
  assumes "stack_acts s t"
  shows "(\<forall>c \<in># snd (snd s). held_by stack_view (fst s) c) \<Longrightarrow> pays stack_view (fst s) (snd (snd s)) (fst t) (snd (snd t))"
  using assms
proof (induction rule: stack_acts.induct)
  case (sa_init elem al s h u)
  then have "vec_ok (stvec s)" "vec_block (stvec s) = {#}"
    by (auto simp: tda_stack_init_def tda_vec_init_def vec_ok_def vec_block_def bind_Some_iff)
  then show ?case by (simp add: pays_init stack_view_def)
next
  case (sa_init_cap n elem al h res h' u)
  then have "tda_layout_is_type elem" "al \<noteq> 0" "stack_of (vec_init_impl None 0 n elem al h) = Some (res, h')"
    by (auto simp: tda_stack_init_cap_def tda_vec_init_cap_def bind_Some_iff stack_of_def)
  then show ?case using stack_pays_made [OF _ vec_init_impl_spec [OF _ _ le0]] by simp
next
  case (sa_from_data xs elem al h res h' u)
  then have "tda_layout_is_type elem" "al \<noteq> 0" "stack_of (tda_vec_from_data xs elem al h) = Some (res, h')"
    by (auto simp: tda_stack_from_data_def bind_Some_iff)
  then show ?case using stack_pays_made [OF _ vec_from_data_spec] by simp
next
  case (sa_from_span xs elem al h res h' u)
  then have "tda_layout_is_type elem" "al \<noteq> 0" "stack_of (tda_vec_from_data xs elem al h) = Some (res, h')"
    by (auto simp: tda_stack_from_span_def tda_stack_from_data_def bind_Some_iff)
  then show ?case using stack_pays_made [OF _ vec_from_data_spec] by simp
next
  case (sa_copy r h res h' u)
  then have "valloc (stvec r) \<noteq> 0" "stack_of (tda_vec_copy_with (stvec r) (valloc (stvec r)) h) = Some (res, h')"
    using vec_okD(5) [OF sa_copy(1)]
    by (auto simp: tda_stack_copy_def tda_stack_copy_with_def tda_vec_al_def bind_Some_iff ASSERT_STACK_def split: if_splits)
  then show ?case using stack_pays_made [OF _ vec_copy_with_spec [OF sa_copy(1)]] by simp
next
  case (sa_copy_with r al h res h' u)
  then have "al \<noteq> 0" "stack_of (tda_vec_copy_with (stvec r) al h) = Some (res, h')"
    by (auto simp: tda_stack_copy_with_def bind_Some_iff)
  then show ?case using stack_pays_made [OF _ vec_copy_with_spec [OF sa_copy_with(1)]] by simp
next
  case (sa_call h s h' s' u)
  then show ?case using pays_holds [of stack_view h s h' s'] stack.step_holds [OF sa_call(1)] by simp
next
  case (sa_move_assign r s h s' r' h' u)
  then have s: "held_by stack_view h s" "vec_ok (stvec r)" "vec_ok (stvec s)" "vec_owns h (stvec s)"
    by (simp_all add: held_by_stack held_by_vec)
  then obtain w h1 where m: "tda_vec_move_assign False (stvec s) (stvec r) h = Some (stvec r, w, h1)" "vec_ok w" "vec_block w = {#}"
    "requests h (valloc (stvec s)) (vec_block (stvec s)) {#} True h1"
    using vec_move_assign_spec [of "stvec s" h "stvec r"] sa_move_assign(1) by auto
  have "s' = r" "r' = r\<lparr>stvec := w\<rparr>" "h' = h1"
    using sa_move_assign(2) m(1) by (auto simp: tda_stack_move_assign_def bind_Some_iff Let_def)
  moreover have "hgood (stack_view r)" "hgood (stack_view (r\<lparr>stvec := w\<rparr>))" "hblocks (stack_view (r\<lparr>stvec := w\<rparr>)) = {#}"
    "requests h (hal (stack_view s)) (hblocks (stack_view s)) {#} True h1"
    using m s(2) by (simp_all add: stack_view_def)
  ultimately show ?case using pays_moved [OF s(1), of r "r\<lparr>stvec := w\<rparr>" h1] by simp
next
  case (sa_swap r s s' r' h u)
  then have "s' = r" "r' = s" by (auto simp: tda_stack_swap_def tda_vec_swap_def bind_Some_iff Let_def)
  then show ?case using pays_swapped [of stack_view s r h] sa_swap(3) by (simp add: held_by_def)
next
  case (sa_deinit s h s' h' u)
  then show ?case using pays_ended [OF sa_deinit(1) _ stack_deinit_ok] by simp
qed

interpretation stacks: value_family stack_view stack_step tda_stack_deinit stack_acts
  using stack_acts_pay by unfold_locales force+

section \<open>Queues\<close>

inductive queue_acts :: "heap \<times> unit \<times> 'e queue multiset \<Rightarrow> heap \<times> unit \<times> 'e queue multiset \<Rightarrow> bool" where
  qa_init: "tda_queue_init elem al = Some q \<Longrightarrow> queue_acts (h, u, {#}) (h, u, {#q#})"
| qa_init_cap: "tda_queue_init_cap n elem al h = Some (res, h') \<Longrightarrow> queue_acts (h, u, {#}) (h', u, made res)"
| qa_from_data: "tda_queue_from_data xs elem al h = Some (res, h') \<Longrightarrow> queue_acts (h, u, {#}) (h', u, made res)"
| qa_from_span: "tda_queue_from_span xs elem al h = Some (res, h') \<Longrightarrow> queue_acts (h, u, {#}) (h', u, made res)"
| qa_copy: "deque_ok (qdeque r) \<Longrightarrow> tda_queue_copy r h = Some (res, h') \<Longrightarrow> queue_acts (h, u, {#}) (h', u, made res)"
| qa_copy_with: "deque_ok (qdeque r) \<Longrightarrow> tda_queue_copy_with r al h = Some (res, h') \<Longrightarrow> queue_acts (h, u, {#}) (h', u, made res)"
| qa_call: "queue_step (h, q) (h', q') \<Longrightarrow> queue_acts (h, u, {#q#}) (h', u, {#q'#})"
| qa_move_assign: "dqelem (qdeque r) = dqelem (qdeque q) \<Longrightarrow> tda_queue_move_assign False q r h = Some (q', r', h') \<Longrightarrow>
    queue_acts (h, u, {#q, r#}) (h', u, {#q', r'#})"
| qa_swap: "dqelem (qdeque r) = dqelem (qdeque q) \<Longrightarrow> tda_queue_swap False q r = Some (q', r') \<Longrightarrow>
    queue_acts (h, u, {#q, r#}) (h, u, {#q', r'#})"
| qa_deinit: "tda_queue_deinit q h = Some (q', h') \<Longrightarrow> queue_acts (h, u, {#q#}) (h', u, {#})"

lemma queue_pays_made:
  "queue_of r = Some (res, h') \<Longrightarrow> call_makes deque_view h al elem r fits xs \<Longrightarrow> pays queue_view h {#} h' (made res)"
  by (rule pays_made [OF _ queue_makes])

lemma queue_acts_pay:
  assumes "queue_acts s t"
  shows "(\<forall>c \<in># snd (snd s). held_by queue_view (fst s) c) \<Longrightarrow> pays queue_view (fst s) (snd (snd s)) (fst t) (snd (snd t))"
  using assms
proof (induction rule: queue_acts.induct)
  case (qa_init elem al q h u)
  then have "deque_ok (qdeque q)" "dqcap (qdeque q) = 0"
    by (auto simp: tda_queue_init_def tda_deque_init_def deque_ok_def bind_Some_iff)
  then show ?case by (simp add: pays_init queue_view_def)
next
  case (qa_init_cap n elem al h res h' u)
  then have "tda_layout_is_type elem" "al \<noteq> 0" "queue_of (deque_init_impl None 0 n elem al h) = Some (res, h')"
    by (auto simp: tda_queue_init_cap_def tda_deque_init_cap_def bind_Some_iff queue_of_def)
  then show ?case using queue_pays_made [OF _ init_impl_makes [OF _ _ le0]] by simp
next
  case (qa_from_data xs elem al h res h' u)
  then have "tda_layout_is_type elem" "al \<noteq> 0" "queue_of (tda_deque_from_data xs elem al h) = Some (res, h')"
    by (auto simp: tda_queue_from_data_def bind_Some_iff)
  then show ?case using queue_pays_made [OF _ deque_from_data_ok] by simp
next
  case (qa_from_span xs elem al h res h' u)
  then have "tda_layout_is_type elem" "al \<noteq> 0" "queue_of (tda_deque_from_data xs elem al h) = Some (res, h')"
    by (auto simp: tda_queue_from_span_def tda_queue_from_data_def bind_Some_iff)
  then show ?case using queue_pays_made [OF _ deque_from_data_ok] by simp
next
  case (qa_copy r h res h' u)
  then have "dqal (qdeque r) \<noteq> 0" "queue_of (tda_deque_copy_with (qdeque r) (dqal (qdeque r)) h) = Some (res, h')"
    using deque_okD(5) [OF qa_copy(1)]
    by (auto simp: tda_queue_copy_def tda_queue_copy_with_def tda_deque_al_def bind_Some_iff ASSERT_QUEUE_def split: if_splits)
  then show ?case using queue_pays_made [OF _ deque_copy_with_ok [OF qa_copy(1)]] by simp
next
  case (qa_copy_with r al h res h' u)
  then have "al \<noteq> 0" "queue_of (tda_deque_copy_with (qdeque r) al h) = Some (res, h')"
    by (auto simp: tda_queue_copy_with_def bind_Some_iff)
  then show ?case using queue_pays_made [OF _ deque_copy_with_ok [OF qa_copy_with(1)]] by simp
next
  case (qa_call h q h' q' u)
  then show ?case using pays_holds [of queue_view h q h' q'] queue.step_holds [OF qa_call(1)] by simp
next
  case (qa_move_assign r q h q' r' h' u)
  then have q: "held_by queue_view h q" "deque_ok (qdeque r)" "held_by deque_view h (qdeque q)"
    by (simp_all add: held_by_queue held_by_deque)
  then obtain w h1 where m: "tda_deque_move_assign False (qdeque q) (qdeque r) h = Some (qdeque r, w, h1)" "deque_ok w" "dqcap w = 0"
    "requests h (dqal (qdeque q)) (held (dqelem (qdeque q)) (dqcap (qdeque q))) {#} True h1"
    using deque_move_assign_ok [of h "qdeque q" "qdeque r"] qa_move_assign(1) by blast
  have "q' = r" "r' = r\<lparr>qdeque := w\<rparr>" "h' = h1"
    using qa_move_assign(2) m(1) by (auto simp: tda_queue_move_assign_def bind_Some_iff Let_def)
  moreover have "hgood (queue_view r)" "hgood (queue_view (r\<lparr>qdeque := w\<rparr>))" "hblocks (queue_view (r\<lparr>qdeque := w\<rparr>)) = {#}"
    "requests h (hal (queue_view q)) (hblocks (queue_view q)) {#} True h1"
    using m q(2) by (simp_all add: queue_view_def)
  ultimately show ?case using pays_moved [OF q(1), of r "r\<lparr>qdeque := w\<rparr>" h1] by simp
next
  case (qa_swap r q q' r' h u)
  then have "q' = r" "r' = q" by (auto simp: tda_queue_swap_def tda_deque_swap_def bind_Some_iff Let_def)
  then show ?case using pays_swapped [of queue_view q r h] qa_swap(3) by (simp add: held_by_def)
next
  case (qa_deinit q h q' h' u)
  then show ?case using pays_ended [OF qa_deinit(1) _ queue_deinit_ok] by simp
qed

interpretation queues: value_family queue_view queue_step tda_queue_deinit queue_acts
  using queue_acts_pay by unfold_locales force+

section \<open>Priority queues\<close>

text \<open>The comparator is total, and what a queue is made of has been written.\<close>

inductive pqueue_acts :: "heap \<times> unit \<times> 'e pqueue multiset \<Rightarrow> heap \<times> unit \<times> 'e pqueue multiset \<Rightarrow> bool" where
  pa_init: "total_cmp cmp \<Longrightarrow> tda_pqueue_init elem (Some cmp) al = Some q \<Longrightarrow> pqueue_acts (h, u, {#}) (h, u, {#q#})"
| pa_init_cap: "total_cmp cmp \<Longrightarrow> tda_pqueue_init_cap n elem (Some cmp) al h = Some (res, h') \<Longrightarrow>
    pqueue_acts (h, u, {#}) (h', u, made res)"
| pa_from_data: "total_cmp cmp \<Longrightarrow> tda_pqueue_from_data (map Some xs) elem (Some cmp) al h = Some (res, h') \<Longrightarrow>
    pqueue_acts (h, u, {#}) (h', u, made res)"
| pa_from_span: "total_cmp cmp \<Longrightarrow> tda_pqueue_from_span (map Some xs) elem (Some cmp) al h = Some (res, h') \<Longrightarrow>
    pqueue_acts (h, u, {#}) (h', u, made res)"
| pa_copy: "pqueue_ok r \<Longrightarrow> tda_pqueue_copy r h = Some (res, h') \<Longrightarrow> pqueue_acts (h, u, {#}) (h', u, made res)"
| pa_copy_with: "pqueue_ok r \<Longrightarrow> tda_pqueue_copy_with r al h = Some (res, h') \<Longrightarrow> pqueue_acts (h, u, {#}) (h', u, made res)"
| pa_call: "pqueue_step (h, q) (h', q') \<Longrightarrow> pqueue_acts (h, u, {#q#}) (h', u, {#q'#})"
| pa_move_assign: "velem (pqvec r) = velem (pqvec q) \<Longrightarrow> tda_pqueue_move_assign False q r h = Some (q', r', h') \<Longrightarrow>
    pqueue_acts (h, u, {#q, r#}) (h', u, {#q', r'#})"
| pa_swap: "velem (pqvec r) = velem (pqvec q) \<Longrightarrow> tda_pqueue_swap False q r = Some (q', r') \<Longrightarrow>
    pqueue_acts (h, u, {#q, r#}) (h, u, {#q', r'#})"
| pa_deinit: "tda_pqueue_deinit q h = Some (q', h') \<Longrightarrow> pqueue_acts (h, u, {#q#}) (h', u, {#})"

text \<open>A queue without elements.\<close>

lemma empty_pqueue:
  assumes "vec_ok v" "vec_cells v = []" "total_cmp cmp"
  shows "pqueue_ok \<lparr>pqvec = v, pqcmp = Some cmp\<rparr>"
  using pqueue_okI(1) [of v "[]" cmp] assms by simp

lemma pqueue_acts_pay:
  fixes s t :: "heap \<times> unit \<times> 'e pqueue multiset"
  assumes "pqueue_acts s t"
  shows "(\<forall>c \<in># snd (snd s). held_by pqueue_view (fst s) c) \<Longrightarrow> pays pqueue_view (fst s) (snd (snd s)) (fst t) (snd (snd t))"
  using assms
proof (induction rule: pqueue_acts.induct)
  case (pa_init cmp elem al q h u)
  then obtain v where v: "tda_vec_init elem al = Some v" "q = \<lparr>pqvec = v, pqcmp = Some cmp\<rparr>"
    by (auto simp: tda_pqueue_init_def bind_Some_iff)
  then have "vec_ok v" "vec_block v = {#}" "vec_cells v = []" by (auto simp: tda_vec_init_def vec_ok_def vec_block_def vec_cells_def)
  then show ?case using v(2) empty_pqueue [of v cmp] pa_init(1) by (simp add: pays_init)
next
  case (pa_init_cap cmp n elem al h res h' u)
  then have a: "tda_layout_is_type elem" "al \<noteq> 0" by (auto simp: tda_pqueue_init_cap_def bind_Some_iff)
  have mk: "call_makes vec_view h al elem (tda_vec_init_cap n elem al h :: ((tda_status + 'e vec) \<times> heap) option)
      (lsize elem * n \<le> SIZE_MAX) []"
    using vec_makes_call [OF vec_init_impl_spec [OF a le0]] a by (simp add: tda_vec_init_cap_def)
  then obtain r1 :: "tda_status + 'e vec" and h1 where v: "tda_vec_init_cap n elem al h = Some (r1, h1)" by (auto simp: call_makes_def)
  then have "h1 = h'" "res = (case r1 of Inl st \<Rightarrow> Inl st | Inr v \<Rightarrow> Inr \<lparr>pqvec = v, pqcmp = Some cmp\<rparr>)"
    using pa_init_cap(2) a by (simp_all add: tda_pqueue_init_cap_def split: sum.splits)
  note r1 = v [unfolded this(1)] this(2)
  show ?case
  proof (cases r1)
    case (Inl st)
    then show ?thesis using mk r1 by (auto simp: call_makes_def pays_def made_def requests_def)
  next
    case (Inr v)
    then have "vec_ok v" "vec_cells v = []" "requests h (valloc v) {#} (vec_block v) True h'"
      using mk r1 by (auto simp: call_makes_def)
    then show ?thesis using empty_pqueue [of v cmp] pa_init_cap(1) r1 Inr
      by (auto simp: pays_def made_def out_at_def requests_def)
  qed
next
  case (pa_from_data cmp xs elem al h res h' u)
  then have "tda_layout_is_type elem" "al \<noteq> 0" by (auto simp: tda_pqueue_from_data_def bind_Some_iff)
  then show ?case using pays_made [OF pa_from_data(2) pqueue_from_data_ok [OF _ _ pa_from_data(1) refl]] by simp
next
  case (pa_from_span cmp xs elem al h res h' u)
  then have "tda_layout_is_type elem" "al \<noteq> 0" "tda_pqueue_from_data (map Some xs) elem (Some cmp) al h = Some (res, h')"
    by (auto simp: tda_pqueue_from_span_def bind_Some_iff)
  then show ?case using pays_made [OF _ pqueue_from_data_ok [OF _ _ pa_from_span(1) refl]] by simp
next
  case (pa_copy r h res h' u)
  then have "valloc (pqvec r) \<noteq> 0" "tda_pqueue_copy_with r (valloc (pqvec r)) h = Some (res, h')"
    by (auto simp: tda_pqueue_copy_def tda_vec_al_def bind_Some_iff ASSERT_PQUEUE_def split: if_splits)
  then show ?case using pays_made [OF _ pqueue_copy_ok [OF pa_copy(1)]] by simp
next
  case (pa_copy_with r al h res h' u)
  then have "al \<noteq> 0" by (auto simp: tda_pqueue_copy_with_def bind_Some_iff)
  then show ?case using pays_made [OF pa_copy_with(2) pqueue_copy_ok [OF pa_copy_with(1)]] by simp
next
  case (pa_call h q h' q' u)
  then show ?case using pays_holds [of pqueue_view h q h' q'] pqueue.step_holds [OF pa_call(1)] by simp
next
  case (pa_move_assign r q h q' r' h' u)
  then have q: "held_by pqueue_view h q" "pqueue_ok r" "pqueue_ok q" "vec_owns h (pqvec q)"
    by (simp_all add: held_by_pqueue)
  obtain cmp where c: "pqcmp r = Some cmp" "total_cmp cmp" "vec_ok (pqvec r)" using q(2) by (rule pqueue_okE) blast
  obtain w h1 where m: "tda_vec_move_assign False (pqvec q) (pqvec r) h = Some (pqvec r, w, h1)" "vec_ok w"
    "vec_cells w = []" "vec_block w = {#}" "requests h (valloc (pqvec q)) (vec_block (pqvec q)) {#} True h1"
    using vec_move_assign_spec [of "pqvec q" h "pqvec r"] pa_move_assign(1) c(3) q(3,4) by (auto simp: pqueue_ok_def)
  have r: "q' = r" "r' = r\<lparr>pqvec := w\<rparr>" "h' = h1"
    using pa_move_assign(2) m(1) by (auto simp: tda_pqueue_move_assign_def bind_Some_iff Let_def)
  have "r\<lparr>pqvec := w\<rparr> = \<lparr>pqvec = w, pqcmp = Some cmp\<rparr>" using c(1) by simp
  then have "pqueue_ok (r\<lparr>pqvec := w\<rparr>)" using empty_pqueue [OF m(2,3) c(2)] by metis
  then show ?case using pays_moved [OF q(1), of r "r\<lparr>pqvec := w\<rparr>" h1] m q(2) unfolding r by simp
next
  case (pa_swap r q q' r' h u)
  then have "q' = r" "r' = q" by (auto simp: tda_pqueue_swap_def bind_Some_iff)
  then show ?case using pays_swapped [of pqueue_view q r h] pa_swap(3) by (simp add: held_by_pqueue)
next
  case (pa_deinit q h q' h' u)
  then show ?case using pays_ended [OF pa_deinit(1) _ pqueue_deinit_ok] by simp
qed

interpretation pqueues: value_family pqueue_view pqueue_step tda_pqueue_deinit pqueue_acts
  using pqueue_acts_pay by unfold_locales force+

section \<open>Bit sets\<close>

text \<open>A bit set stands for its length and its members.\<close>

definition bitset_view :: "bitset \<Rightarrow> (unit, nat \<times> nat set) holder" where
  "bitset_view b = \<lparr>hgood = bitset_ok b, hkind = (), hal = balloc b, hblocks = bitset_block b, hval = (nbits b, members b)\<rparr>"

lemma bitset_view_simps [simp]:
  "hgood (bitset_view b) = bitset_ok b" "hal (bitset_view b) = balloc b" "hblocks (bitset_view b) = bitset_block b"
  "hval (bitset_view b) = (nbits b, members b)"
  by (simp_all add: bitset_view_def)

inductive bitset_step :: "heap \<times> bitset \<Rightarrow> heap \<times> bitset \<Rightarrow> bool" where
  bs_set: "i < nbits b \<Longrightarrow> tda_bitset_set b i = Some b' \<Longrightarrow> bitset_step (h, b) (h, b')"
| bs_reset: "i < nbits b \<Longrightarrow> tda_bitset_reset b i = Some b' \<Longrightarrow> bitset_step (h, b) (h, b')"
| bs_flip: "i < nbits b \<Longrightarrow> tda_bitset_flip b i = Some b' \<Longrightarrow> bitset_step (h, b) (h, b')"
| bs_set_all: "tda_bitset_set_all b = Some b' \<Longrightarrow> bitset_step (h, b) (h, b')"
| bs_reset_all: "tda_bitset_reset_all b = Some b' \<Longrightarrow> bitset_step (h, b) (h, b')"
| bs_flip_all: "tda_bitset_flip_all b = Some b' \<Longrightarrow> bitset_step (h, b) (h, b')"
| bs_union: "bitset_ok c \<Longrightarrow> nbits c = nbits b \<Longrightarrow> tda_bitset_union b c = Some b' \<Longrightarrow> bitset_step (h, b) (h, b')"
| bs_intersection: "bitset_ok c \<Longrightarrow> nbits c = nbits b \<Longrightarrow> tda_bitset_intersection b c = Some b' \<Longrightarrow> bitset_step (h, b) (h, b')"
| bs_difference: "bitset_ok c \<Longrightarrow> nbits c = nbits b \<Longrightarrow> tda_bitset_difference b c = Some b' \<Longrightarrow> bitset_step (h, b) (h, b')"
| bs_symmetric: "bitset_ok c \<Longrightarrow> nbits c = nbits b \<Longrightarrow> tda_bitset_symmetric_difference b c = Some b' \<Longrightarrow> bitset_step (h, b) (h, b')"
| bs_assign: "bitset_ok c \<Longrightarrow> tda_bitset_copy_assign junk False b c h = Some (st, b', h') \<Longrightarrow> bitset_step (h, b) (h', b')"

lemma bitset_edits_holds:
  "r = Some b' \<Longrightarrow> holds_since bitset_view h0 (h, b) \<Longrightarrow> (bitset_ok b \<Longrightarrow> bitset_edits b r S) \<Longrightarrow>
   holds_since bitset_view h0 (h, b')"
  by (auto simp: holds_since_def bitset_edits_def bitset_block_def)

lemma bitset_step_holds: "bitset_step s t \<Longrightarrow> holds_since bitset_view h0 s \<Longrightarrow> holds_since bitset_view h0 t"
proof (induction rule: bitset_step.induct)
  case (bs_assign c junk b h st b' h')
  then have b: "bitset_ok b" "bitset_block b \<subseteq># lives h (balloc b)"
    using holds_held [OF bs_assign(3)] by (simp_all add: held_by_def)
  show ?case
    using copy_assign_spec [OF b(1) bs_assign(1) b(2), of junk] bs_assign(2,3)
    by (auto simp: bitset_assigned_def holds_since_def intro: requests_trans)
qed ((erule (1) bitset_edits_holds, rule bit_op_spec(1-3) set_all_spec reset_all_spec flip_all_spec union_spec; assumption)+)

lemma bitset_deinit_ends: "held_by bitset_view h b \<Longrightarrow> call_ends bitset_view h b (tda_bitset_deinit b h)"
  using bitset_deinit_spec [of b h] by (auto simp: held_by_def call_ends_def)

interpretation bitset: container bitset_view bitset_step tda_bitset_deinit
  by unfold_locales (fact bitset_step_holds bitset_deinit_ends)+

inductive bitset_acts :: "heap \<times> unit \<times> bitset multiset \<Rightarrow> heap \<times> unit \<times> bitset multiset \<Rightarrow> bool" where
  ba_init_len: "n \<le> SIZE_MAX \<Longrightarrow> tda_bitset_init_len n al h = Some (res, h') \<Longrightarrow> bitset_acts (h, u, {#}) (h', u, made res)"
| ba_from_span: "n \<le> SIZE_MAX \<Longrightarrow> set s \<subseteq> {..<n} \<Longrightarrow> tda_bitset_from_span n s U64 al h = Some (res, h') \<Longrightarrow>
    bitset_acts (h, u, {#}) (h', u, made res)"
| ba_copy: "bitset_ok c \<Longrightarrow> tda_bitset_copy c h = Some (res, h') \<Longrightarrow> bitset_acts (h, u, {#}) (h', u, made res)"
| ba_copy_with: "bitset_ok c \<Longrightarrow> tda_bitset_copy_with c al h = Some (res, h') \<Longrightarrow> bitset_acts (h, u, {#}) (h', u, made res)"
| ba_call: "bitset_step (h, b) (h', b') \<Longrightarrow> bitset_acts (h, u, {#b#}) (h', u, {#b'#})"
| ba_move_assign: "tda_bitset_move_assign False b c h = Some (b', c', h') \<Longrightarrow> bitset_acts (h, u, {#b, c#}) (h', u, {#b', c'#})"
| ba_swap: "tda_bitset_swap False b c = Some (b', c') \<Longrightarrow> bitset_acts (h, u, {#b, c#}) (h, u, {#b', c'#})"
| ba_deinit: "tda_bitset_deinit b h = Some (b', h') \<Longrightarrow> bitset_acts (h, u, {#b#}) (h', u, {#})"

lemma bitset_pays_made: "r = Some (res, h') \<Longrightarrow> bitset_makes h al n r S \<Longrightarrow> pays bitset_view h {#} h' (made res)"
  by (auto simp: bitset_makes_def pays_def made_def out_at_def requests_def split: sum.splits)

lemma bitset_acts_pay:
  assumes "bitset_acts s t"
  shows "(\<forall>b \<in># snd (snd s). held_by bitset_view (fst s) b) \<Longrightarrow> pays bitset_view (fst s) (snd (snd s)) (fst t) (snd (snd t))"
  using assms
proof (induction rule: bitset_acts.induct)
  case (ba_init_len n al h res h' u)
  then have "al \<noteq> 0" by (auto simp: tda_bitset_init_len_def tda_bitset_init_nbits_def bind_Some_iff)
  then show ?case using bitset_pays_made [OF _ init_nbits_spec] ba_init_len by (simp add: tda_bitset_init_len_def)
next
  case (ba_from_span n s al h res h' u)
  then have "al \<noteq> 0" by (auto simp: tda_bitset_from_span_def bind_Some_iff)
  then show ?case using bitset_pays_made [OF ba_from_span(3) from_span_spec] ba_from_span(1,2) by simp
next
  case (ba_copy c h res h' u)
  then have "tda_bitset_copy_with c (balloc c) h = Some (res, h')" by (simp add: tda_bitset_copy_def)
  then show ?case using bitset_pays_made [OF _ copy_with_spec [OF ba_copy(1) bitset_okD(3) [OF ba_copy(1)]]] by simp
next
  case (ba_copy_with c al h res h' u)
  then have "al \<noteq> 0" by (auto simp: tda_bitset_copy_with_def bind_Some_iff)
  then show ?case using bitset_pays_made [OF ba_copy_with(2) copy_with_spec [OF ba_copy_with(1)]] by simp
next
  case (ba_call h b h' b' u)
  then show ?case using pays_holds [of bitset_view h b h' b'] bitset.step_holds [OF ba_call(1)] by simp
next
  case (ba_move_assign b c h b' c' h' u)
  then have b: "held_by bitset_view h b" "bitset_ok b" "bitset_ok c" "bitset_block b \<subseteq># lives h (balloc b)" by (simp_all add: held_by_def)
  let ?c = "bitset_null\<lparr>balloc := balloc c\<rparr>"
  obtain h1 where d: "tda_bitset_deinit b h = Some (bitset_null, h1)" "requests h (balloc b) (bitset_block b) {#} True h1"
    using bitset_deinit_spec [OF b(2,4)] by blast
  have c: "bitset_ok ?c" "bitset_block ?c = {#}"
    using bitset_okD(3) [OF b(3)] by (simp_all add: bitset_ok_def bitset_null_def members_def bitset_block_def)
  have "b' = c" "c' = ?c" "h' = h1"
    using ba_move_assign(1) d(1) b(2,3) by (auto simp: tda_bitset_move_assign_def bind_Some_iff Let_def)
  then show ?case using pays_moved [of bitset_view h b c ?c h1] b(1,3) c d(2) by simp
next
  case (ba_swap b c b' c' h u)
  then have "b' = c" "c' = b" by (auto simp: tda_bitset_swap_def bind_Some_iff Let_def)
  then show ?case using pays_swapped [of bitset_view b c h] ba_swap(2) by (simp add: held_by_def)
next
  case (ba_deinit b h b' h' u)
  then show ?case using pays_ended [OF ba_deinit(1) _ bitset_deinit_ends] by simp
qed

interpretation bitsets: value_family bitset_view bitset_step tda_bitset_deinit bitset_acts
  using bitset_acts_pay by unfold_locales force+

end
