(* ===== verification/NodeFamilies.thy ===== *)
theory NodeFamilies
  imports LinkedProps HMapProps HSetProps
begin

text \<open>
  Families of the containers whose nodes lie in a memory of their kind: every constructor, every call of
  their histories, merging, splicing, assigning, moving, swapping and ending, any number of them sharing
  the memory and the allocators. What is copied from may be in the family or not.
\<close>

section \<open>Lists\<close>

abbreviation list_set :: "lst \<times> 'e nodes \<Rightarrow> nat set" where
  "list_set c \<equiv> set (list_nodes c)"

inductive list_acts :: "heap \<times> 'e nodes \<times> lst multiset \<Rightarrow> heap \<times> 'e nodes \<times> lst multiset \<Rightarrow> bool" where
  la_init: "tda_list_init elem al = Some l \<Longrightarrow> list_acts (h, m, {#}) (h, m, {#l#})"
| la_from_data: "tda_list_from_data xs elem al m h = Some (st, (l, m'), h') \<Longrightarrow>
    list_acts (h, m, {#}) (h', m', if st = TDA_STATUS_OK then {#l#} else {#})"
| la_from_span: "tda_list_from_span xs elem al m h = Some (st, (l, m'), h') \<Longrightarrow>
    list_acts (h, m, {#}) (h', m', if st = TDA_STATUS_OK then {#l#} else {#})"
| la_copy: "list_ok (s, m) \<Longrightarrow> tda_list_copy s m h = Some (st, (l, m'), h') \<Longrightarrow>
    list_acts (h, m, {#}) (h', m', if st = TDA_STATUS_OK then {#l#} else {#})"
| la_copy_with: "list_ok (s, m) \<Longrightarrow> tda_list_copy_with s al m h = Some (st, (l, m'), h') \<Longrightarrow>
    list_acts (h, m, {#}) (h', m', if st = TDA_STATUS_OK then {#l#} else {#})"
| la_call: "list_step (h, l, m) (h', l', m') \<Longrightarrow> list_acts (h, m, {#l#}) (h', m', {#l'#})"
| la_merge: "lelem s = lelem l \<Longrightarrow> list_cells (l, m) = map Some xs \<Longrightarrow> list_cells (s, m) = map Some ys \<Longrightarrow>
    tda_list_merge cmp False l s m h = Some (st, l', s', m', h') \<Longrightarrow> list_acts (h, m, {#l, s#}) (h', m', {#l', s'#})"
| la_splice_front: "lelem s = lelem l \<Longrightarrow> tda_list_splice_front False l s m h = Some (st, l', s', m', h') \<Longrightarrow>
    list_acts (h, m, {#l, s#}) (h', m', {#l', s'#})"
| la_splice_back: "lelem s = lelem l \<Longrightarrow> tda_list_splice_back False l s m h = Some (st, l', s', m', h') \<Longrightarrow>
    list_acts (h, m, {#l, s#}) (h', m', {#l', s'#})"
| la_splice_node: "lelem s = lelem l \<Longrightarrow> list_nodes (l, m) = as @ bs \<Longrightarrow> list_nodes (s, m) = cs @ p # ds \<Longrightarrow>
    tda_list_splice_node False l (hd (bs @ [0])) s p m h = Some (st, l', s', m', h') \<Longrightarrow>
    list_acts (h, m, {#l, s#}) (h', m', {#l', s'#})"
| la_splice_within: "list_nodes (l, m) = cs @ p # ds \<Longrightarrow> cs @ ds = as @ bs \<Longrightarrow> p \<noteq> hd (bs @ [0]) \<Longrightarrow>
    tda_list_splice_node True l (hd (bs @ [0])) l p m h = Some (st, l', s', m', h') \<Longrightarrow>
    list_acts (h, m, {#l#}) (h', m', {#l'#})"
| la_move_assign: "lelem s = lelem l \<Longrightarrow> tda_list_move_assign False l s m h = Some (l', s', m', h') \<Longrightarrow>
    list_acts (h, m, {#l, s#}) (h', m', {#l', s'#})"
| la_swap: "lelem s = lelem l \<Longrightarrow> tda_list_swap False l s = Some (l', s') \<Longrightarrow> list_acts (h, m, {#l, s#}) (h, m, {#l', s'#})"
| la_deinit: "tda_list_deinit l m h = Some ((l', m'), h') \<Longrightarrow> list_acts (h, m, {#l#}) (h', m', {#})"

lemma list_view_good: "hgood (list_view c) = list_ok c" "hal (list_view c) = lal (fst c)"
  "hblocks (list_view c) = replicate_mset (llen (fst c)) (node_lay (lelem (fst c)))"
  by (simp_all add: list_view_def)

interpretation list_store: node_store list_view list_set store_ok others
  by unfold_locales (simp_all add: list_view_good list_ok_def list_rest_def out_at_def fun_eq_iff)

lemma stands_lists:
  assumes "stands list_view list_set store_ok h m {#l, s#}" "lelem s = lelem l"
  shows "lists_at m h l (list_nodes (l, m)) s (list_nodes (s, m))"
proof -
  note two = stands_two [OF assms(1)]
  have at: "list_at m l (list_nodes (l, m))" "list_at m s (list_nodes (s, m))" "store_ok m"
    using two(1,2) by (simp_all add: held_by_def list_view_good list_ok_def)
  then have n: "length (list_nodes (l, m)) = llen l" "length (list_nodes (s, m)) = llen s" by (simp_all add: list_at_def)
  show ?thesis
    using at two assms(2) by (simp add: lists_at_def held_by_def list_view_good n)
qed

text \<open>A list that is made, or not.\<close>

lemma list_made_trades:
  assumes "r = Some (st, (l, m'), h')" "list_makes m h al elem r xs"
  shows "trades list_view list_set store_ok others (h, m, {#}) (h', m', if st = TDA_STATUS_OK then {#l#} else {#})"
proof (cases "st = TDA_STATUS_OK")
  case True
  then obtain qs where q: "store_ok m'" "lelem l = elem" "lal l = al" "list_at m' l qs" "others m' (set qs) = others m {}"
    "requests h al {#} (replicate_mset (length qs) (node_lay elem)) True h'"
    using list_makesD [OF assms(2)] assms(1) by auto
  show ?thesis
    using list_store.trades_made [of l m' m h h'] list_at_view [OF q(4,1)] q True by simp
next
  case False
  then show ?thesis using list_makesD [OF assms(2)] assms(1) list_store.trades_unmade [of m' m h al h'] by simp
qed

lemma out_at_list: "list_at m l ps \<Longrightarrow> store_ok m \<Longrightarrow> out_at list_view (l, m) a = (if lal l = a then node_blocks l ps else {#})"
  by (simp add: out_at_def list_at_view)

lemma list_takes_trades:
  assumes L: "lists_at m h l ps s qs" and r: "r = Some (st, l', s', m', h')" and t: "list_takes m h l ps s qs r xs"
    and len: "length xs = length ps + length qs"
  shows "trades list_view list_set store_ok others (h, m, {#l, s#}) (h', m', {#l', s'#})"
proof -
  have at: "list_at m l ps" "list_at m s qs" "store_ok m" "lelem s = lelem l" "node_blocks s qs \<subseteq># lives h (lal s)"
    "set ps \<inter> set qs = {}"
    using L unfolding lists_at_def by blast+
  have k: "store_ok m'" "lelem l' = lelem l" "lal l' = lal l" "lelem s' = lelem s" "lal s' = lal s"
    using t r by (simp_all add: list_takes_def)
  note here = list_at_nodes [OF at(1)] list_at_nodes [OF at(2)] out_at_list [OF at(1,3)] out_at_list [OF at(2,3)]
  show ?thesis
  proof (cases "st = TDA_STATUS_OK")
    case True
    then obtain ts where ts: "list_at m' l' ts" "list_at m' s' []" "others m' (set ts) = others m (set ps \<union> set qs)"
      "map (el m') ts = xs" and acc: "if lal s = lal l then h' = h
        else \<exists>h1. requests h (lal l) {#} (node_blocks l qs) True h1 \<and> requests h1 (lal s) (node_blocks s qs) {#} True h'"
      using t r by (auto simp: list_takes_def)
    have n: "node_blocks l' ts = node_blocks l ps + node_blocks l qs"
      using arg_cong [OF ts(4), of length] len k(2) by simp (metis length_append node_blocks_append)
    note there = list_at_view [OF ts(1) k(1)] list_at_view [OF ts(2) k(1)] list_at_nodes [OF ts(1)] list_at_nodes [OF ts(2)]
      out_at_list [OF ts(1) k(1)] out_at_list [OF ts(2) k(1)]
    have "lives h' a + (out_at list_view (l, m) a + out_at list_view (s, m) a) =
        lives h a + (out_at list_view (l', m') a + out_at list_view (s', m') a)" for a
    proof (cases "lal s = lal l")
      case True
      then show ?thesis using acc k at(4) unfolding here there n by simp
    next
      case False
      then obtain h1 where q: "requests h (lal l) {#} (node_blocks l qs) True h1" "requests h1 (lal s) (node_blocks s qs) {#} True h'"
        using acc by auto
      have "node_blocks s qs \<subseteq># lives h1 (lal s)" using q(1) at(5) False by (simp add: requests_def)
      from requests_balance [OF q(2) this, of a] requests_balance [OF q(1), of a] show ?thesis
        using False k unfolding here there n by (simp add: ac_simps split: if_splits)
    qed
    then show ?thesis using ts(3) k(1) there by (simp add: trades_def here)
  next
    case False
    then have e: "l' = l" "s' = s" "list_at m' l ps" "list_at m' s qs" "lives h' = lives h"
      "others m' (set ps \<union> set qs) = others m (set ps \<union> set qs)"
      using t r by (auto simp: list_takes_def)
    show ?thesis
      using at(6) e k(1) list_at_view [OF e(3) k(1)] list_at_view [OF e(4) k(1)]
      by (simp add: trades_def here list_at_nodes [OF e(3)] list_at_nodes [OF e(4)] out_at_list [OF e(3) k(1)] out_at_list [OF e(4) k(1)])
  qed
qed

lemma list_node_trades:
  assumes L: "lists_at m h l (as @ bs) s (cs @ p # ds)"
    and r: "tda_list_splice_node False l (hd (bs @ [0])) s p m h = Some (st, l', s', m', h')"
  shows "trades list_view list_set store_ok others (h, m, {#l, s#}) (h', m', {#l', s'#})"
proof -
  have at: "list_at m l (as @ bs)" "list_at m s (cs @ p # ds)" "store_ok m" "lelem s = lelem l"
    "node_blocks s (cs @ p # ds) \<subseteq># lives h (lal s)" "set (as @ bs) \<inter> set (cs @ p # ds) = {}"
    using L unfolding lists_at_def by blast+
  note here = list_at_nodes [OF at(1)] list_at_nodes [OF at(2)] out_at_list [OF at(1,3)] out_at_list [OF at(2,3)]
  note spec = list_splice_node_ok [OF L, unfolded r option.inject prod.inject]
  show ?thesis
  proof (cases "st = TDA_STATUS_OK")
    case True
    then obtain q where q: "lists_at m' h' l' (as @ q # bs) s' (cs @ ds)"
      "others m' (set (as @ q # bs) \<union> set (cs @ ds)) = others m (set (as @ bs) \<union> set (cs @ p # ds))"
      and k: "lelem l' = lelem l" "lal l' = lal l" "lal s' = lal s"
      and acc: "if lal s = lal l then h' = h
        else \<exists>h1. requests h (lal l) {#} {#node_lay (lelem l)#} True h1 \<and> requests h1 (lal s) {#node_lay (lelem s)#} {#} True h'"
      using spec by auto
    have at': "list_at m' l' (as @ q # bs)" "list_at m' s' (cs @ ds)" "store_ok m'" "lelem s' = lelem l'"
      "set (as @ q # bs) \<inter> set (cs @ ds) = {}"
      using q(1) unfolding lists_at_def by blast+
    note there = list_at_nodes [OF at'(1)] list_at_nodes [OF at'(2)] out_at_list [OF at'(1,3)] out_at_list [OF at'(2,3)]
    have "lives h' a + (out_at list_view (l, m) a + out_at list_view (s, m) a) =
        lives h a + (out_at list_view (l', m') a + out_at list_view (s', m') a)" for a
    proof (cases "lal s = lal l")
      case True
      then show ?thesis using acc k at(4) at'(4) unfolding here there by simp
    next
      case False
      then obtain h1 where n: "requests h (lal l) {#} {#node_lay (lelem l)#} True h1" "requests h1 (lal s) {#node_lay (lelem s)#} {#} True h'"
        using acc by auto
      have "{#node_lay (lelem s)#} \<subseteq># lives h1 (lal s)"
        using n(1) at(5) False by (simp add: requests_def insert_subset_eq_iff)
      from requests_balance [OF n(2) this, of a] requests_balance [OF n(1), of a] show ?thesis
        using False k at(4) at'(4) unfolding here there by (simp add: ac_simps split: if_splits)
    qed
    then show ?thesis
      using q(2) at'(3,5) list_at_view [OF at'(1,3)] list_at_view [OF at'(2,3)] by (simp add: trades_def here there)
  next
    case False
    then have "l' = l" "s' = s" "m' = m" "lives h' = lives h" using spec by auto
    then show ?thesis
      using at(6,3) list_at_view [OF at(1,3)] list_at_view [OF at(2,3)] by (simp add: trades_def here)
  qed
qed

lemma list_copy_made:
  assumes "list_ok (s, m)" "tda_list_copy_with s al m h = Some (st, (l, m'), h')"
  shows "trades list_view list_set store_ok others (h, m, {#}) (h', m', if st = TDA_STATUS_OK then {#l#} else {#})"
proof -
  obtain qs where "list_at m s qs" "store_ok m" using assms(1) by (rule list_okE)
  moreover from this have "al \<noteq> 0" using assms(2) by (auto simp: tda_list_copy_with_def bind_Some_iff)
  ultimately show ?thesis using list_made_trades [OF assms(2) list_copy_ok] by blast
qed

lemma list_acts_trade:
  assumes "list_acts s t"
  shows "stands list_view list_set store_ok (fst s) (fst (snd s)) (snd (snd s)) \<Longrightarrow>
    trades list_view list_set store_ok others s t"
  using assms
proof (induction rule: list_acts.induct)
  case (la_init elem al l h m)
  then have "list_kind_ok elem al" "l = list_new elem al"
    by (auto simp: tda_list_init_def list_new_def list_kind_ok_def node_lay_def bind_Some_iff)
  moreover have "store_ok m" using la_init(2) by (simp add: stands_def)
  ultimately show ?case
    using list_new_at(1) [of elem al m] list_at_view [of m l "[]"] list_store.trades_made [of l m m h h]
    by (simp add: requests_refl)
next
  case (la_from_data xs elem al m h st l m' h')
  then have "list_kind_ok elem al"
    by (auto simp: tda_list_from_data_def tda_list_init_def list_kind_ok_def node_lay_def bind_Some_iff)
  moreover have "store_ok m" using la_from_data(2) by (simp add: stands_def)
  ultimately show ?case using list_made_trades [OF la_from_data(1) list_from_data_ok(1)] by blast
next
  case (la_from_span xs elem al m h st l m' h')
  then have "list_kind_ok elem al"
    by (auto simp: tda_list_from_span_def tda_list_from_data_def tda_list_init_def list_kind_ok_def node_lay_def bind_Some_iff)
  moreover have "store_ok m" using la_from_span(2) by (simp add: stands_def)
  ultimately show ?case using list_made_trades [OF la_from_span(1) list_from_data_ok(2)] by blast
next
  case (la_copy s m h st l m' h')
  then have "tda_list_copy_with s (lal s) m h = Some (st, (l, m'), h')" by (auto simp: tda_list_copy_def bind_Some_iff)
  then show ?case by (rule list_copy_made [OF la_copy(1)])
next
  case (la_copy_with s m al h st l m' h')
  show ?case by (rule list_copy_made [OF la_copy_with(1,2)])
next
  case (la_call h l m h' l' m')
  then show ?case
    using list_step_stays [OF la_call(1)] stands_held [of list_view list_set store_ok h m "{#l#}" l] list_store.trades_stays by simp
next
  case (la_merge s l m xs ys cmp h st l' s' m' h')
  then have L: "lists_at m h l (list_nodes (l, m)) s (list_nodes (s, m))" by (intro stands_lists) simp_all
  have c: "map (el m) (list_nodes (l, m)) = map Some xs" "map (el m) (list_nodes (s, m)) = map Some ys"
    using la_merge(2,3) by (simp_all add: list_cells_def)
  have "length (map Some (smerge cmp xs ys)) = length (list_nodes (l, m)) + length (list_nodes (s, m))"
    using arg_cong [OF c(1), of length] arg_cong [OF c(2), of length] mset_smerge [of cmp xs ys] size_mset [of "smerge cmp xs ys"]
    by simp
  then show ?case by (rule list_takes_trades [OF L la_merge(4) list_merge_ok [OF L c]])
next
  case (la_splice_front s l m h st l' s' m' h')
  then have L: "lists_at m h l (list_nodes (l, m)) s (list_nodes (s, m))" by (intro stands_lists) simp_all
  have "splice_impl l s True m h = Some (st, l', s', m', h')"
    using la_splice_front(2) by (auto simp: tda_list_splice_front_def bind_Some_iff)
  then show ?case by (rule list_takes_trades [OF L _ splice_impl_ok [OF L, of True]]) simp
next
  case (la_splice_back s l m h st l' s' m' h')
  then have L: "lists_at m h l (list_nodes (l, m)) s (list_nodes (s, m))" by (intro stands_lists) simp_all
  have "splice_impl l s False m h = Some (st, l', s', m', h')"
    using la_splice_back(2) by (auto simp: tda_list_splice_back_def bind_Some_iff)
  then show ?case by (rule list_takes_trades [OF L _ splice_impl_ok [OF L, of False]]) simp
next
  case (la_splice_node s l m as bs cs p ds h st l' s' m' h')
  then have "lists_at m h l (list_nodes (l, m)) s (list_nodes (s, m))" by (intro stands_lists) simp_all
  then show ?case using list_node_trades [OF _ la_splice_node(4)] la_splice_node(2,3) by simp
next
  case (la_splice_within l m cs p ds as bs h st l' s' m' h')
  then have held: "held_by list_view h (l, m)" using stands_held [of list_view list_set store_ok h m "{#l#}" l] by simp
  then have at: "list_at m l (list_nodes (l, m))" "store_ok m" by (simp_all add: held_by_def list_view_good list_ok_def)
  have r: "list_at m' l' (as @ p # bs)" "store_ok m'" "lelem l' = lelem l" "lal l' = lal l"
    "others m' (set (list_nodes (l, m))) = others m (set (list_nodes (l, m)))" "h' = h"
    using list_splice_node_same [OF at la_splice_within(1-3), of h] la_splice_within(4) by auto
  have e: "set (as @ p # bs) = set (list_nodes (l, m))" "length (as @ p # bs) = length (list_nodes (l, m))"
    using arg_cong [OF la_splice_within(2), of set] arg_cong [OF la_splice_within(2), of length]
    unfolding la_splice_within(1) by auto
  have "call_stays list_view h (l, m) (l', m') h'"
    using held list_at_view [OF at] list_at_view [OF r(1,2)] r(3-6) e
    by (simp add: call_stays_def held_by_def requests_refl del: set_append set_simps length_append)
  then show ?case by (rule list_store.trades_stays [OF held])
next
  case (la_move_assign s l m h l' s' m' h')
  then have st: "stands list_view list_set store_ok h m {#l, s#}" by simp
  note L = stands_lists [OF st la_move_assign(1)]
  obtain s1 m1 h1 where r: "tda_list_move_assign False l s m h = Some (s, s1, m1, h1)" "store_ok m1"
    "list_at m1 s (list_nodes (s, m))" "list_at m1 s1 []"
    "others m1 (list_set (s, m)) = others m (list_set (l, m) \<union> list_set (s, m))"
    "requests h (lal l) (node_blocks l (list_nodes (l, m))) {#} True h1"
    using list_move_assign_ok [OF L] by blast
  have "list_at m l (list_nodes (l, m))" using L by (simp add: lists_at_def)
  then have "length (list_nodes (l, m)) = llen l" by (simp add: list_at_def)
  then have "trades list_view list_set store_ok others (h, m, {#l, s#}) (h1, m1, {#s, s1#})"
    using list_store.trades_moved [OF stands_two(1) [OF st], of s m1 s1 h1] list_at_view [OF r(3,2)] list_at_view [OF r(4,2)]
      list_at_nodes [OF r(4)] r(5,6)
    by (simp add: list_view_good(2,3) [of "(l, m)"])
  then show ?case using la_move_assign(2) r(1) by simp
next
  case (la_swap s l l' s' h m)
  then have "lists_at m h l (list_nodes (l, m)) s (list_nodes (s, m))" by (intro stands_lists) simp_all
  then have at: "list_at m l (list_nodes (l, m))" "list_at m s (list_nodes (s, m))" "store_ok m" unfolding lists_at_def by blast+
  note list_swap_ok [OF at la_swap(1)]
  with la_swap show ?case using list_store.trades_swapped [OF la_swap(3) [unfolded fst_conv snd_conv]] by simp
next
  case (la_deinit l m h l' m' h')
  then have held: "held_by list_view h (l, m)" using stands_held [of list_view list_set store_ok h m "{#l#}" l] by simp
  then obtain ps where ps: "list_at m l ps" "store_ok m" "node_blocks l ps \<subseteq># lives h (lal l)" by (rule held_listE)
  then show ?case
    using list_deinit_at [OF ps] la_deinit(1) list_store.trades_ended [OF held, of m' h'] list_at_view [OF ps(1,2)] by auto
qed

interpretation lists: family list_view list_set store_ok others list_acts list_end
proof
  fix o1 :: lst and m m' :: "'e nodes" and S S'
  show "out_at list_view (o1, m') = out_at list_view (o1, m)" by (rule list_store.steady)
  assume a: "hgood (list_view (o1, m))" "store_ok m'" "list_set (o1, m) \<inter> S = {}" "others m' S' = others m S"
  then obtain ps where ps: "list_at m o1 ps" "list_nodes (o1, m) = ps" by (auto simp: list_view_good elim: list_okE)
  note at = list_at_others [OF ps(1) _ a(4)]
  show "hgood (list_view (o1, m')) \<and> list_set (o1, m') = list_set (o1, m) \<and> list_set (o1, m) \<inter> S' = {}"
    using at a(2,3) ps(2) list_at_view [OF at(1) a(2)] list_at_nodes [OF at(1)] by simp
next
  fix h h' and m m' :: "'e nodes" and K K'
  show "stands list_view list_set store_ok h m K \<Longrightarrow> list_acts (h, m, K) (h', m', K') \<Longrightarrow>
      trades list_view list_set store_ok others (h, m, K) (h', m', K')"
    using list_acts_trade [of "(h, m, K)" "(h', m', K')"] by simp
next
  fix h and m :: "'e nodes" and l
  assume st: "stands list_view list_set store_ok h m {#l#}"
  then have held: "held_by list_view h (l, m)" using stands_held [of list_view list_set store_ok h m "{#l#}" l] by simp
  then obtain ps where "list_at m l ps" "store_ok m" "node_blocks l ps \<subseteq># lives h (lal l)" by (rule held_listE)
  from list_deinit_at [OF this] obtain m' h' where d: "tda_list_deinit l m h = Some ((list_null, m'), h')" by blast
  then show "\<exists>l' m' h'. list_end (l, m) h = Some ((l', m'), h') \<and>
      trades list_view list_set store_ok others (h, m, {#l#}) (h', m', {#})"
    using list_acts_trade [OF la_deinit [OF d]] st by auto
qed

section \<open>Maps\<close>

inductive hmap_acts :: "heap \<times> ('k, 'v) entries \<times> 'k hmap multiset \<Rightarrow> heap \<times> ('k, 'v) entries \<times> 'k hmap multiset \<Rightarrow> bool" where
  ha_init: "hmap_args_ok key val hf eq al \<Longrightarrow> tda_hmap_init key val hf eq al m h = Some ((t, m'), h') \<Longrightarrow>
    hmap_acts (h, m, {#}) (h', m', {#t#})"
| ha_init_cap: "hmap_args_ok key val hf eq al \<Longrightarrow> tda_hmap_init_cap cap key val hf eq al m h = Some (st, (t, m'), h') \<Longrightarrow>
    hmap_acts (h, m, {#}) (h', m', if st = TDA_STATUS_OK then {#t#} else {#})"
| ha_from_spans: "hmap_args_ok key val hf eq al \<Longrightarrow> length ks = length xs \<Longrightarrow>
    tda_hmap_from_spans ks key xs val hf eq al m h = Some (st, (t, m'), h') \<Longrightarrow>
    hmap_acts (h, m, {#}) (h', m', if st = TDA_STATUS_OK then {#t#} else {#})"
| ha_copy: "held_by hmap_view h (b, m) \<Longrightarrow> tda_hmap_copy b m h = Some (st, (t, m'), h') \<Longrightarrow>
    hmap_acts (h, m, {#}) (h', m', if st = TDA_STATUS_OK then {#t#} else {#})"
| ha_copy_with: "held_by hmap_view h (b, m) \<Longrightarrow> tda_hmap_copy_with b al m h = Some (st, (t, m'), h') \<Longrightarrow>
    hmap_acts (h, m, {#}) (h', m', if st = TDA_STATUS_OK then {#t#} else {#})"
| ha_call: "hmap_step (h, t, m) (h', t', m') \<Longrightarrow> hmap_acts (h, m, {#t#}) (h', m', {#t'#})"
| ha_move_assign: "mkey b = mkey t \<Longrightarrow> mval b = mval t \<Longrightarrow> tda_hmap_move_assign False t b m h = Some (t', b', m', h') \<Longrightarrow>
    hmap_acts (h, m, {#t, b#}) (h', m', {#t', b'#})"
| ha_swap: "mkey b = mkey t \<Longrightarrow> mval b = mval t \<Longrightarrow> tda_hmap_swap False t b = Some (t', b') \<Longrightarrow>
    hmap_acts (h, m, {#t, b#}) (h, m, {#t', b'#})"
| ha_deinit: "tda_hmap_deinit t m h = Some ((t', m'), h') \<Longrightarrow> hmap_acts (h, m, {#t#}) (h', m', {#})"

interpretation hmap_store: node_store hmap_view hmap_set store_ok eothers
  by unfold_locales (simp_all add: hmap_view_fields hmap_ok_def hmap_rest_def hmap_set_def out_at_def fun_eq_iff)

lemma stands_maps:
  assumes "stands hmap_view hmap_set store_ok h m {#t, b#}" "mkey b = mkey t" "mval b = mval t"
  shows "maps_at m h t b"
  using stands_two [OF assms(1)] assms(2,3) by (simp add: maps_at_def hmap_view_fields)

lemma hmap_made_trades:
  assumes "r = Some (st, (t, m'), h')" "hmap_made m h al key val hf eq r fits E"
  shows "trades hmap_view hmap_set store_ok eothers (h, m, {#}) (h', m', if st = TDA_STATUS_OK then {#t#} else {#})"
proof (cases "st = TDA_STATUS_OK")
  case True
  then show ?thesis
    using assms hmap_store.trades_made [of t m' m h h'] by (simp add: hmap_made_def hmap_view_fields)
next
  case False
  then show ?thesis using assms hmap_store.trades_unmade [of m' m h al h'] by (simp add: hmap_made_def)
qed

lemma hmap_copy_made:
  assumes "held_by hmap_view h (b, m)" "tda_hmap_copy_with b al m h = Some (st, (t, m'), h')"
  shows "trades hmap_view hmap_set store_ok eothers (h, m, {#}) (h', m', if st = TDA_STATUS_OK then {#t#} else {#})"
proof -
  have "al \<noteq> 0" using assms(2) by (auto simp: tda_hmap_copy_with_def bind_Some_iff)
  from hmap_made_trades [OF assms(2) hmap_copy_ok [OF assms(1) this]] show ?thesis .
qed

text \<open>A map without entries has no nodes.\<close>

lemma hmap_set_none: "hmap_entries c = {#} \<Longrightarrow> hmap_set c = {}"
  by (simp add: hmap_entries_def hmap_set_def)

lemma forget_buckets_none: "hmap_blocks (forget_buckets t) = {#}"
  by (simp add: hmap_blocks_def forget_buckets_def)

lemma hmap_acts_trade:
  assumes "hmap_acts s u"
  shows "stands hmap_view hmap_set store_ok (fst s) (fst (snd s)) (snd (snd s)) \<Longrightarrow>
    trades hmap_view hmap_set store_ok eothers s u"
  using assms
proof (induction rule: hmap_acts.induct)
  case (ha_init key val hf eq al m h t m' h')
  then have "tda_layout_is_type val" "store_ok m" by (auto simp: tda_hmap_init_def bind_Some_iff stands_def)
  then obtain c where "tda_hmap_init key val hf eq al m h = Some (c, h)"
    "hmap_made m h al key val hf eq (Some (TDA_STATUS_OK, c, h)) True {#}"
    using hmap_init_ok(2) [OF ha_init(1)] by blast
  then show ?case using hmap_made_trades [OF refl, of m h al key val hf eq TDA_STATUS_OK t m' h'] ha_init(2) by simp
next
  case (ha_init_cap key val hf eq al cap m h st t m' h')
  then have "tda_layout_is_type val" "store_ok m" by (auto simp: tda_hmap_init_cap_def bind_Some_iff stands_def)
  then show ?case using hmap_made_trades [OF ha_init_cap(2) hmap_init_ok(1) [OF ha_init_cap(1)]] by blast
next
  case (ha_from_spans key val hf eq al ks xs m h st t m' h')
  then have "tda_layout_is_type val" "store_ok m" by (auto simp: tda_hmap_from_spans_def bind_Some_iff stands_def)
  then show ?case using hmap_made_trades [OF ha_from_spans(3) hmap_from_spans_ok [OF ha_from_spans(1) _ _ ha_from_spans(2)]] by blast
next
  case (ha_copy h b m st t m' h')
  then have "tda_hmap_copy_with b (mal b) m h = Some (st, (t, m'), h')" by (auto simp: tda_hmap_copy_def bind_Some_iff)
  then show ?case by (rule hmap_copy_made [OF ha_copy(1)])
next
  case (ha_copy_with h b m al st t m' h')
  show ?case by (rule hmap_copy_made [OF ha_copy_with(1,2)])
next
  case (ha_call h t m h' t' m')
  then show ?case
    using hmap_step_stays [OF ha_call(1)] stands_held [of hmap_view hmap_set store_ok h m "{#t#}" t] hmap_store.trades_stays by simp
next
  case (ha_move_assign b t m h t' b' m' h')
  then have st: "stands hmap_view hmap_set store_ok h m {#t, b#}" by simp
  obtain m1 h1 where r: "tda_hmap_move_assign False t b m h = Some (b, forget_buckets b, m1, h1)" "hmap_ok (b, m1)"
    "hmap_rest (b, m1) = eothers m (hmap_set (t, m) \<union> hmap_set (b, m))" "hmap_ok (forget_buckets b, m1)"
    "hmap_entries (forget_buckets b, m1) = {#}" "requests h (mal t) (hmap_blocks t) {#} True h1"
    using hmap_move_assign_ok [OF stands_maps [OF st ha_move_assign(1,2)]] by blast
  have "trades hmap_view hmap_set store_ok eothers (h, m, {#t, b#}) (h1, m1, {#b, forget_buckets b#})"
    using hmap_store.trades_moved [OF stands_two(1) [OF st], of b m1 "forget_buckets b" h1] r(2-4,6) hmap_set_none [OF r(5)]
    by (simp add: hmap_view_fields forget_buckets_none)
  then show ?case using ha_move_assign(3) r(1) by auto
next
  case (ha_swap b t t' b' h m)
  then have "maps_at m h t b" by (intro stands_maps) simp_all
  note hmap_swap_ok [OF this]
  with ha_swap show ?case using hmap_store.trades_swapped [OF ha_swap(4) [unfolded fst_conv snd_conv]] by simp
next
  case (ha_deinit t m h t' m' h')
  then have held: "held_by hmap_view h (t, m)" using stands_held [of hmap_view hmap_set store_ok h m "{#t#}" t] by simp
  then show ?case
    using hmap_deinit_held [OF held] ha_deinit(1) hmap_store.trades_ended [OF held, of m' h'] by (auto simp: hmap_view_fields)
qed

interpretation maps: family hmap_view hmap_set store_ok eothers hmap_acts hmap_end
proof
  fix o1 :: "'k hmap" and m m' :: "('k, 'v) entries" and S S'
  show "out_at hmap_view (o1, m') = out_at hmap_view (o1, m)" by (rule hmap_store.steady)
  assume a: "hgood (hmap_view (o1, m))" "store_ok m'" "hmap_set (o1, m) \<inter> S = {}" "eothers m' S' = eothers m S"
  then have at: "hmap_at m o1 (hmap_chains (o1, m))" by (simp add: hmap_view_fields hmap_ok_def)
  note now = hmap_at_others(1,2) [OF at a(3) [unfolded hmap_set_def] a(4)]
  show "hgood (hmap_view (o1, m')) \<and> hmap_set (o1, m') = hmap_set (o1, m) \<and> hmap_set (o1, m) \<inter> S' = {}"
    using now a(2) hmap_at_chains [OF now(1) a(2)] hmap_at_ok [OF now(1) a(2)] unfolding hmap_set_def hmap_view_fields by simp
next
  fix h h' and m m' :: "('k, 'v) entries" and K K' :: "'k hmap multiset"
  show "stands hmap_view hmap_set store_ok h m K \<Longrightarrow> hmap_acts (h, m, K) (h', m', K') \<Longrightarrow>
      trades hmap_view hmap_set store_ok eothers (h, m, K) (h', m', K')"
    using hmap_acts_trade [of "(h, m, K)" "(h', m', K')"] by simp
next
  fix h and m :: "('k, 'v) entries" and t :: "'k hmap"
  assume st: "stands hmap_view hmap_set store_ok h m {#t#}"
  then have held: "held_by hmap_view h (t, m)" using stands_held [of hmap_view hmap_set store_ok h m "{#t#}" t] by simp
  from hmap_deinit_held [OF this] obtain m' h' where d: "tda_hmap_deinit t m h = Some ((hmap_null, m'), h')" by blast
  then show "\<exists>t' m' h'. hmap_end (t, m) h = Some ((t', m'), h') \<and>
      trades hmap_view hmap_set store_ok eothers (h, m, {#t#}) (h', m', {#})"
    using hmap_acts_trade [OF ha_deinit [OF d]] st by auto
qed

section \<open>Sets\<close>

inductive hset_acts :: "heap \<times> ('k, unit) entries \<times> 'k hset multiset \<Rightarrow> heap \<times> ('k, unit) entries \<times> 'k hset multiset \<Rightarrow> bool" where
  sh_init: "hmap_args_ok key \<lparr>lsize = 0, lalign = 1\<rparr> hf eq al \<Longrightarrow> tda_hset_init key hf eq al m h = Some ((s, m'), h') \<Longrightarrow>
    hset_acts (h, m, {#}) (h', m', {#s#})"
| sh_init_cap: "hmap_args_ok key \<lparr>lsize = 0, lalign = 1\<rparr> hf eq al \<Longrightarrow>
    tda_hset_init_cap cap key hf eq al m h = Some (st, (s, m'), h') \<Longrightarrow>
    hset_acts (h, m, {#}) (h', m', if st = TDA_STATUS_OK then {#s#} else {#})"
| sh_from_span: "hmap_args_ok key \<lparr>lsize = 0, lalign = 1\<rparr> hf eq al \<Longrightarrow>
    tda_hset_from_span ks key hf eq al m h = Some (st, (s, m'), h') \<Longrightarrow>
    hset_acts (h, m, {#}) (h', m', if st = TDA_STATUS_OK then {#s#} else {#})"
| sh_copy: "held_by hset_view h (b, m) \<Longrightarrow> tda_hset_copy b m h = Some (st, (s, m'), h') \<Longrightarrow>
    hset_acts (h, m, {#}) (h', m', if st = TDA_STATUS_OK then {#s#} else {#})"
| sh_copy_with: "held_by hset_view h (b, m) \<Longrightarrow> tda_hset_copy_with b al m h = Some (st, (s, m'), h') \<Longrightarrow>
    hset_acts (h, m, {#}) (h', m', if st = TDA_STATUS_OK then {#s#} else {#})"
| sh_call: "hset_step (h, s, m) (h', s', m') \<Longrightarrow> hset_acts (h, m, {#s#}) (h', m', {#s'#})"
| sh_move_assign: "mkey (smap b) = mkey (smap s) \<Longrightarrow> mval (smap b) = mval (smap s) \<Longrightarrow>
    tda_hset_move_assign False s b m h = Some (s', b', m', h') \<Longrightarrow> hset_acts (h, m, {#s, b#}) (h', m', {#s', b'#})"
| sh_swap: "mkey (smap b) = mkey (smap s) \<Longrightarrow> mval (smap b) = mval (smap s) \<Longrightarrow>
    tda_hset_swap False s b = Some (s', b') \<Longrightarrow> hset_acts (h, m, {#s, b#}) (h, m, {#s', b'#})"
| sh_deinit: "tda_hset_deinit s m h = Some ((s', m'), h') \<Longrightarrow> hset_acts (h, m, {#s#}) (h', m', {#})"

abbreviation hset_set :: "'k sobj \<Rightarrow> nat set" where
  "hset_set c \<equiv> hmap_set (smap (fst c), snd c)"

lemma hset_view_fields:
  "hgood (hset_view c) \<longleftrightarrow> hmap_ok (smap (fst c), snd c) \<and> lsize (mval (smap (fst c))) = 0"
  "hal (hset_view c) = mal (smap (fst c))" "hblocks (hset_view c) = hmap_blocks (smap (fst c))"
  "hval (hset_view c) = (hset_keys c, hset_rest c)"
  by (simp_all add: hset_view_def hset_keys_def hset_rest_def)

lemma hset_rest_others: "hset_rest c = eothers (snd c) (hset_set c)"
  by (simp add: hset_rest_def hmap_rest_def hmap_set_def)

interpretation hset_store: node_store hset_view hset_set store_ok eothers
  by unfold_locales (simp_all add: hset_view_fields hmap_ok_def hset_rest_others out_at_def fun_eq_iff)

lemma stands_sets:
  assumes "stands hset_view hset_set store_ok h m {#s, b#}" "mkey (smap b) = mkey (smap s)" "mval (smap b) = mval (smap s)"
  shows "maps_at m h (smap s) (smap b)" "lsize (mval (smap s)) = 0"
  using stands_two [OF assms(1)] assms(2,3) by (simp_all add: maps_at_def hset_view_fields held_by_hset)

lemma hset_made_trades:
  assumes "hmap_made m h al key \<lparr>lsize = 0, lalign = 1\<rparr> hf eq (Some (st, (smap s, m'), h')) fits E"
  shows "trades hset_view hset_set store_ok eothers (h, m, {#}) (h', m', if st = TDA_STATUS_OK then {#s#} else {#})"
proof (cases "st = TDA_STATUS_OK")
  case True
  then show ?thesis
    using assms hset_store.trades_made [of s m' m h h'] by (simp add: hmap_made_def hset_view_fields hset_rest_def hmap_view_fields)
next
  case False
  then show ?thesis using assms hset_store.trades_unmade [of m' m h al h'] by (simp add: hmap_made_def)
qed

lemma hset_cap_made:
  assumes "hmap_args_ok key \<lparr>lsize = 0, lalign = 1\<rparr> hf eq al" "store_ok m"
    and "tda_hset_init_cap cap key hf eq al m h = Some (st, (s, m'), h')"
  shows "hmap_made m h al key \<lparr>lsize = 0, lalign = 1\<rparr> hf eq (Some (st, (smap s, m'), h')) (16 * cap \<le> SIZE_MAX) {#}"
  using hset_init_cap_ok [OF assms(1,2), of cap h] assms(3) by auto

lemma hset_copy_made:
  assumes "held_by hset_view h (b, m)" "tda_hset_copy_with b al m h = Some (st, (s, m'), h')"
  shows "trades hset_view hset_set store_ok eothers (h, m, {#}) (h', m', if st = TDA_STATUS_OK then {#s#} else {#})"
proof -
  have "al \<noteq> 0" using assms(2) by (auto simp: tda_hset_copy_with_def bind_Some_iff)
  have l0: "lsize (mval (smap b)) = 0" using assms(1) by (simp add: held_by_hset)
  have made: "hmap_made m h al (mkey (smap b)) (mval (smap b)) (mhasher (smap b)) (meq (smap b)) (Some (st, (smap s, m'), h'))
      (16 * mlen (smap b) \<le> SIZE_MAX) (hmap_entries (smap b, m))"
    using hset_copy_ok [OF assms(1) \<open>al \<noteq> 0\<close>] assms(2) by auto
  show ?thesis
  proof (cases "st = TDA_STATUS_OK")
    case True
    then show ?thesis
      using made l0 hset_store.trades_made [of s m' m h h'] by (simp add: hmap_made_def hset_view_fields hset_rest_def hmap_view_fields)
  next
    case False
    then show ?thesis using made hset_store.trades_unmade [of m' m h al h'] by (simp add: hmap_made_def)
  qed
qed

lemma hset_deinit_trades:
  assumes "held_by hset_view h (s, m)"
  shows "\<exists>s' m' h'. tda_hset_deinit s m h = Some ((s', m'), h') \<and>
    trades hset_view hset_set store_ok eothers (h, m, {#s#}) (h', m', {#})"
proof -
  have "held_by hmap_view h (smap s, m)" using assms by (simp add: held_by_hset)
  from hmap_deinit_held [OF this] obtain m' h' where d: "tda_hmap_deinit (smap s) m h = Some ((hmap_null, m'), h')" "store_ok m'"
    "eothers m' {} = hmap_rest (smap s, m)" "requests h (mal (smap s)) (hmap_blocks (smap s)) {#} True h'" by blast
  then show ?thesis
    using hset_store.trades_ended [OF assms, of m' h'] by (simp add: tda_hset_deinit_def hset_view_fields hset_rest_def)
qed

text \<open>Made, then the keys put in; a refusal ends it again.\<close>

lemma hset_span_made:
  assumes args: "hmap_args_ok key \<lparr>lsize = 0, lalign = 1\<rparr> hf eq al" and ok: "store_ok m"
    and run: "tda_hset_from_span ks key hf eq al m h = Some (st, (s, m'), h')"
  shows "trades hset_view hset_set store_ok eothers (h, m, {#}) (h', m', if st = TDA_STATUS_OK then {#s#} else {#})"
proof -
  obtain st1 s1 m1 h1 where i: "tda_hset_init_cap (length ks) key hf eq al m h = Some (st1, (s1, m1), h1)"
    and fin: "(if status_is_err st1 then Some (st1, (s1, m1), h1)
      else do {
        (st, (obj, m), h) \<leftarrow> tda_hset_extend s1 ks key m1 h1;
        if status_is_err st then do { ((obj, m), h) \<leftarrow> tda_hset_deinit obj m h; Some (st, (obj, m), h) }
        else Some (TDA_STATUS_OK, (obj, m), h) }) = Some (st, (s, m'), h')"
    using run by (auto simp: tda_hset_from_span_def bind_Some_iff)
  note made = hset_cap_made [OF args ok i]
  note t1 = hset_made_trades [OF made]
  show ?thesis
  proof (cases "st1 = TDA_STATUS_OK")
    case False
    then show ?thesis using t1 fin by (simp add: status_is_err_iff)
  next
    case True
    note mh = made_held [OF made [unfolded True]]
    have held1: "held_by hset_view h1 (s1, m1)" using mh(1,5) by (simp add: held_by_hset)
    obtain st2 s2 m2 h2 where x: "tda_hset_extend s1 ks key m1 h1 = Some (st2, (s2, m2), h2)"
      "call_keeps hset_view h1 (s1, m1) (s2, m2) h2" "hset_rest (s2, m2) = hset_rest (s1, m1)"
      using hset_extend_ok [OF held1, of ks] unfolding mh(4) by (metis prod.collapse)
    have "call_stays hset_view h1 (s1, m1) (s2, m2) h2" using stays_keeps [OF x(2)] x(3) by simp
    then have t2: "trades hset_view hset_set store_ok eothers (h, m, {#}) (h2, m2, {#s2#})"
      using trades_trans [OF t1 [unfolded if_P [OF True]] hset_store.trades_stays [OF held1]] by blast
    show ?thesis
    proof (cases "st2 = TDA_STATUS_OK")
      case yes: True
      then show ?thesis using t2 fin True x(1) by (simp add: status_is_err_iff)
    next
      case no: False
      have "held_by hset_view h2 (s2, m2)"
        using x(2) by (auto simp: call_keeps_def held_by_def dest: requests_lives)
      from hset_deinit_trades [OF this] obtain s3 m3 h3 where d: "tda_hset_deinit s2 m2 h2 = Some ((s3, m3), h3)"
        "trades hset_view hset_set store_ok eothers (h2, m2, {#s2#}) (h3, m3, {#})" by blast
      then show ?thesis using trades_trans [OF t2 d(2)] fin True no x(1) by (simp add: status_is_err_iff) 
    qed
  qed
qed

lemma hset_acts_trade:
  assumes "hset_acts s u"
  shows "stands hset_view hset_set store_ok (fst s) (fst (snd s)) (snd (snd s)) \<Longrightarrow>
    trades hset_view hset_set store_ok eothers s u"
  using assms
proof (induction rule: hset_acts.induct)
  case (sh_init key hf eq al m h s m' h')
  then obtain st where "tda_hset_init_cap 0 key hf eq al m h = Some (st, (s, m'), h')" "st = TDA_STATUS_OK"
    by (auto simp: tda_hset_init_def bind_Some_iff status_is_ok_def)
  then show ?case using hset_made_trades [OF hset_cap_made [OF sh_init(1)]] sh_init(3) by (fastforce simp: stands_def)
next
  case (sh_init_cap key hf eq al cap m h st s m' h')
  then have "store_ok m" by (simp add: stands_def)
  then show ?case by (rule hset_made_trades [OF hset_cap_made [OF sh_init_cap(1) _ sh_init_cap(2)]])
next
  case (sh_from_span key hf eq al ks m h st s m' h')
  then have "store_ok m" by (simp add: stands_def)
  then show ?case by (rule hset_span_made [OF sh_from_span(1) _ sh_from_span(2)])
next
  case (sh_copy h b m st s m' h')
  then have "tda_hset_copy_with b (mal (smap b)) m h = Some (st, (s, m'), h')"
    by (auto simp: tda_hset_copy_def tda_hmap_al_def bind_Some_iff)
  then show ?case by (rule hset_copy_made [OF sh_copy(1)])
next
  case (sh_copy_with h b m al st s m' h')
  show ?case by (rule hset_copy_made [OF sh_copy_with(1,2)])
next
  case (sh_call h s m h' s' m')
  then show ?case
    using hset_step_stays [OF sh_call(1)] stands_held [of hset_view hset_set store_ok h m "{#s#}" s] hset_store.trades_stays by simp
next
  case (sh_move_assign b s m h s' b' m' h')
  then have st: "stands hset_view hset_set store_ok h m {#s, b#}" by simp
  note two = stands_sets [OF st sh_move_assign(1,2)]
  let ?b = "b\<lparr>smap := forget_buckets (smap b)\<rparr>"
  obtain m1 h1 where r: "tda_hset_move_assign False s b m h = Some (b, ?b, m1, h1)" "hmap_ok (smap b, m1)"
    "hset_rest (b, m1) = eothers m (hmap_set (smap s, m) \<union> hmap_set (smap b, m))" "hmap_ok (forget_buckets (smap b), m1)"
    "hset_keys (?b, m1) = {#}" "requests h (mal (smap s)) (hmap_blocks (smap s)) {#} True h1"
    using hset_move_assign_ok [OF two] by blast
  have "hmap_set (forget_buckets (smap b), m1) = {}" using r(5) by (intro hmap_set_none) (simp add: hset_keys_def)
  moreover have "lsize (mval (forget_buckets (smap b))) = 0" "lsize (mval (smap b)) = 0"
    using two(2) sh_move_assign(2) by (simp_all add: forget_buckets_def)
  ultimately have "trades hset_view hset_set store_ok eothers (h, m, {#s, b#}) (h1, m1, {#b, ?b#})"
    using hset_store.trades_moved [OF stands_two(1) [OF st], of b m1 ?b h1] r(2-4,6) 
    by (simp add: hset_view_fields forget_buckets_none)
  then show ?case using sh_move_assign(3) r(1) by auto
next
  case (sh_swap b s s' b' h m)
  then have "maps_at m h (smap s) (smap b)" "lsize (mval (smap s)) = 0"
    using stands_sets [OF sh_swap(4) [unfolded fst_conv snd_conv]] by simp_all
  note hset_swap_ok [OF this]
  with sh_swap show ?case using hset_store.trades_swapped [OF sh_swap(4) [unfolded fst_conv snd_conv]] by simp
next
  case (sh_deinit s m h s' m' h')
  then have held: "held_by hset_view h (s, m)" using stands_held [of hset_view hset_set store_ok h m "{#s#}" s] by simp
  then show ?case using hset_deinit_trades [OF held] sh_deinit(1) by auto
qed

interpretation sets: family hset_view hset_set store_ok eothers hset_acts hset_end
proof
  fix o1 :: "'k hset" and m m' :: "('k, unit) entries" and S S'
  show "out_at hset_view (o1, m') = out_at hset_view (o1, m)" by (rule hset_store.steady)
  assume a: "hgood (hset_view (o1, m))" "store_ok m'" "hset_set (o1, m) \<inter> S = {}" "eothers m' S' = eothers m S"
  then have "hgood (hmap_view (smap o1, m))" "hmap_set (smap o1, m) \<inter> S = {}" by (simp_all add: hset_view_fields hmap_view_fields)
  from maps.untouched [OF this(1) a(2) this(2) a(4)] a(1)
  show "hgood (hset_view (o1, m')) \<and> hset_set (o1, m') = hset_set (o1, m) \<and> hset_set (o1, m) \<inter> S' = {}"
    by (simp add: hset_view_fields hmap_view_fields)
next
  fix h h' and m m' :: "('k, unit) entries" and K K' :: "'k hset multiset"
  show "stands hset_view hset_set store_ok h m K \<Longrightarrow> hset_acts (h, m, K) (h', m', K') \<Longrightarrow>
      trades hset_view hset_set store_ok eothers (h, m, K) (h', m', K')"
    using hset_acts_trade [of "(h, m, K)" "(h', m', K')"] by simp
next
  fix h and m :: "('k, unit) entries" and s :: "'k hset"
  assume "stands hset_view hset_set store_ok h m {#s#}"
  then have "held_by hset_view h (s, m)" using stands_held [of hset_view hset_set store_ok h m "{#s#}" s] by simp
  from hset_deinit_trades [OF this]
  show "\<exists>s' m' h'. hset_end (s, m) h = Some ((s', m'), h') \<and>
      trades hset_view hset_set store_ok eothers (h, m, {#s#}) (h', m', {#})" by simp
qed

end
