(* ===== verification/Spec2Isabelle.thy ===== *)
theory Spec2Isabelle
  imports Pool SlabProps Default Log PrintProps Sort SetOps Hash Floats Families NodeFamilies
begin

text \<open>
  A verification development for terse-dsa, a C23 library of allocators, algorithms over spans and
  containers. Paths are under \<open>src/\<close>; \<open>x.h\<close>, \<open>x.c\<close> means \<open>include/tda/<part>/x.h\<close> and
  \<open>src/<part>/x.c\<close>.

  \<^bold>\<open>The program.\<close> Everything rests on three things: a \<open>tda_Layout\<close> (the size and alignment of a
  block), a \<open>tda_Span\<close> (a view: address, length, element layout) and a \<open>tda_Al\<close> (an allocator as a
  table of hooks with their context). The allocators \<open>arena\<close> and \<open>pool\<close> are such tables over one block
  they were given or took from a parent, \<open>slab\<close> one over chunks it takes from a parent, \<open>debug\<close> one that
  checks how its parent is used, \<open>log\<close> one that writes down what its parent is asked, and \<open>default\<close> one
  over the C library. The algorithms work on the elements a span views, through comparators,
  predicates and functions passed to them, and never allocate, the stable sort's and the in-place
  merge's buffer apart. The containers own blocks taken through a \<open>tda_Al\<close>.

  \<^bold>\<open>How it is modelled.\<close> A failing \<open>assert\<close> or \<open>TDA_EXPECT\<close> stops the program: the model's value is
  \<^term>\<open>None\<close>, so that a theorem \<open>f x = Some y\<close> says that no check fails on the way. \<open>tda_Status\<close> is a
  value like others. \<open>size_t\<close> is a natural below \<open>2 ^ 64\<close> with the wrap-around written out where the
  code relies on it or checks for it; words that are mixed, hashed or used as bits are 64-bit words.
  A loop over a range is a recursive function with a termination proof. A loop that follows links or
  probes a table, or rejects draws, is a \<open>partial_function (option)\<close>, whose value is \<^term>\<open>None\<close> when it
  does not return: the properties say that the calls return \<^term>\<open>Some\<close> on every well-formed container
  and table, and \<open>bounded_draw\<close> that a draw returns as soon as the stream has a value it accepts. No
  definition takes fuel.

  \<^item> \<open>TdaPrelude\<close>: the checks, the arithmetic of \<open>size_t\<close>, the steps of a mixer.
  \<^item> \<open>Layout\<close> (\<open>layout.h\<close>, \<open>align.h\<close>, \<open>internal/bits.h\<close>), \<open>Memory\<close> (\<open>internal/ptr.h\<close>, the memory as
    bytes at addresses), \<open>Status\<close> (\<open>status.h\<close>, \<open>status.c\<close>).
  \<^item> \<open>Alloc\<close> (\<open>alloc.h\<close>, \<open>alloc.c\<close>): the hook table, each wrapper, and the locale \<open>allocator\<close>, the
    contract of an allocator with its clients; what a client may do in any history. \<open>Arena\<close> and \<open>Pool\<close>
    (\<open>arena.h\<close>, \<open>arena.c\<close>; \<open>pool.h\<close>, \<open>pool.c\<close>) model each hook and call over the byte memory and interpret
    the locale: blocks lie apart, aligned and inside, whatever the history.
  \<^item> \<open>Slab\<close> (\<open>slab.h\<close>, \<open>slab.c\<close>): each hook and call, the chunks and free blocks linked in memory;
    \<open>SlabLaws\<close> has the invariant, what has been carved and whose it is, in the locale \<open>slab_parent\<close> of an
    allocator that serves chunks; \<open>SlabProps\<close> shows that a slab over such a parent keeps the contract
    itself (a \<open>sublocale\<close>), beside other clients of the parent, and interprets the locale on the arena.
  \<^item> \<open>DebugTable\<close> and \<open>Debug\<close> (\<open>debug.h\<close>, \<open>debug.c\<close>): the table of live blocks, and every hook and call over
    any parent; \<open>DebugMap\<close> shows that the table, with its backward shift, is a map, \<open>DebugProps\<close> what each
    call does to the blocks, guards and fills (\<open>debug_shape\<close>), \<open>DebugSafe\<close> that no history of correct use
    is reported and that each misuse is. The counter of requests is a number below \<open>2 ^ 64\<close>, and a
    request is made while it has room: past that the code would report a break at serial 0.
  \<^item> \<open>Default\<close> (\<open>default.h\<close>, \<open>default.c\<close>): each hook, over a heap that stands for the C library's and is
    owed only what C23 promises: it may refuse any request, and aligns a block only for types that fit
    in it. \<open>Log\<close> (\<open>log.h\<close>, \<open>log.c\<close>): each hook over any parent. Both interpret the contract.
  \<^item> \<open>Account\<close>: an allocator as a container sees it, the answers it gives and the layouts of the blocks
    that are out; \<open>account_simulates\<close> below shows that every allocator of the contract does just that.
    \<open>Slots\<close>: the slots of a block of elements.
  \<^item> \<open>Span\<close> (\<open>span.h\<close>, \<open>internal/overlap.h\<close>): spans over the byte memory, and the element lists that the
    algorithms are modelled on, with the refinement between the two.
  \<^item> \<open>Cmp\<close> (\<open>cmp.h\<close>, \<open>cmp.c\<close>) with the locale \<open>total_cmp\<close>, what an ordering algorithm asks of its
    comparator, interpreted on every comparator of the code; \<open>Hash\<close> (\<open>hash.h\<close>, \<open>hash.c\<close>) with the
    locale \<open>hasher\<close>, interpreted on every hasher; \<open>Rng\<close> and, for the float draws, \<open>Floats\<close> (\<open>rng.h\<close>, \<open>rng.c\<close>).
  \<^item> The algorithms, one theory to a file or two: \<open>Emit\<close> (\<open>copy.c\<close>, \<open>modify.c\<close>, \<open>internal/emit.h\<close>),
    \<open>Search\<close> (\<open>search.c\<close>, \<open>internal/order.h\<close>), \<open>Heap\<close> (\<open>heap.c\<close>, \<open>internal/heap.h\<close>), \<open>Permute\<close>
    (\<open>permute.c\<close>), \<open>Merge\<close> (\<open>merge.c\<close>), \<open>Sort\<close> (\<open>sort.c\<close>), \<open>SetOps\<close> (\<open>set.c\<close>), \<open>Bulk\<close> (\<open>fill.c\<close>,
    \<open>fold.c\<close>, \<open>transform.c\<close>, \<open>compare.c\<close>). Lemmas that need an order are in \<open>context total_cmp\<close>.
  \<^item> The containers. \<open>Holder\<close> says what each promises: what a call does to its value, its blocks and the
    accounts, and the locale \<open>container\<close>, that no history of such calls loses a block; each container
    interprets it. \<open>Vec\<close>, \<open>Deque\<close> and \<open>Arr\<close> (\<open>vec.h\<close>, \<open>vec.c\<close> and so on), an operation at a time against
    the list of the elements; \<open>Stack\<close> over \<open>Vec\<close>, \<open>Queue\<close> over \<open>Deque\<close>, and \<open>Pqueue\<close> over \<open>Vec\<close> and \<open>Heap\<close>,
    against the multiset of the elements; \<open>Adaptors\<close>, the order in which the three give elements back;
    \<open>Bitset\<close> (\<open>bitset.h\<close>, \<open>bitset.c\<close>), against the set of its members.
  \<^item> The containers of nodes. \<open>Nodes\<close> is the memory nodes lie in, a record that each container extends
    with the fields of its nodes; a node is an address the allocator picked. \<open>Linked\<close> (\<open>list.h\<close>,
    \<open>list.c\<close>) is every operation of the list on that memory; \<open>LinkedLaws\<close> relates a list to the chain
    of its nodes (\<open>list_at\<close>) and shows linking, unlinking, building and moving, \<open>LinkedOrder\<close> the calls
    that relink, \<open>LinkedAssign\<close> those on two lists, and \<open>LinkedProps\<close> has the properties. What a list
    stands for includes every node that is not its own, which its calls leave alone.
    \<open>HMap\<close> (\<open>hmap.h\<close>, \<open>hmap.c\<close>, over \<open>Bits\<close> and \<open>Hash\<close>) is every operation of the hash map; \<open>HMapLaws\<close>
    relates the bucket array to the chains of nodes (\<open>table\<close>) and shows linking, cutting, walking and
    rehashing, \<open>HMapOps\<close> has the invariant (\<open>hmap_at\<close>), lookup, growth and adding a node, \<open>HMapCalls\<close> the
    calls on one map against the multiset of its entries, \<open>HMapMany\<close> making, copying and comparing maps,
    \<open>HMapProps\<close> the properties. \<open>HSet\<close> (\<open>hset.h\<close>, \<open>hset.c\<close>) is the hash set, a map whose values take no
    bytes; \<open>HSetLaws\<close> and \<open>HSetProps\<close> are against the multiset of the keys.

  \<^item> \<open>Print\<close> (\<open>print.h\<close>, \<open>print.c\<close>): the printers and the span's \<open>fprint\<close>, over a stream that is what has
    been written to it and which of the next writes fail; the locale \<open>printer\<close> says what a container
    asks of an element's printer, and each printer of the code interprets it. \<open>Printing\<close> has the \<open>fprint\<close>
    and \<open>print\<close> of every container and the leak report of the debug allocator, \<open>PrintProps\<close> the properties.

  \<^bold>\<open>Abstractions to know of.\<close> The algorithms' spans are lists of elements, so the checks that two spans
  do not overlap, and that layouts agree, are what makes the lists separate; they are made in \<open>Span\<close> and
  not repeated. Whether two pointer arguments are one is a parameter where the code asks, and whether an
  algorithm reads the span it writes is one where it may. Whether the allocator had memory for a buffer
  is a parameter of the sorts and merges. A container's elements are values and its block a list of
  slots; a value argument that points into the block is modelled as such, a span argument is apart from
  the block, as the calls demand.

  \<^bold>\<open>Not modelled.\<close> Of floating-point arithmetic \<open>Floats\<close> has what the draws
  need, on exact values, without the sign of zero. How the C library
  formats a double with \<open>%g\<close> and a pointer with \<open>%p\<close> is a parameter, as is a C string's text. The typed
  macros only insert casts and layouts, and a function whose name ends in \<open>_mut\<close> is its namesake without
  the \<open>const\<close>. \<open>check.h\<close> and the report of the debug allocator end the program, which is \<^term>\<open>None\<close>.
\<close>

section \<open>Containers over any allocator\<close>

text \<open>
  C21: whatever any allocator that keeps the contract answers to alloc, realloc and dealloc of a
  block that is out, the account the containers are modelled over does the same with that answer,
  and keeps listing the layouts of the blocks that are out; a block moved keeps its bytes.
\<close>

theorem account_simulates:
  assumes "allocator vt ok own amax" "ok w L" "accounts h a L" "a \<noteq> 0"
    and "request amax l" "(p, old) \<in> L" "request amax (old\<lparr>lsize := n\<rparr>)"
  shows "(\<exists>q w' h' L'. tda_alloc vt l w = Some (q, w') \<and> ok w' L' \<and>
      al_alloc a l (answering h a (q \<noteq> 0)) = Some (q \<noteq> 0, h') \<and> accounts h' a L' \<and>
      L' = (if q = 0 then L else insert (q, l) L)) \<and>
    (\<exists>q w' h' L'. tda_realloc vt p old n w = Some (q, w') \<and> ok w' L' \<and>
      al_realloc a True old n (answering h a (q \<noteq> 0)) = Some (q \<noteq> 0, h') \<and> accounts h' a L' \<and>
      L' = (if q = 0 then L else insert (q, old\<lparr>lsize := n\<rparr>) (L - {(p, old)})) \<and>
      (q \<noteq> 0 \<longrightarrow> bytes (fst w') q (min (lsize old) n) = bytes (fst w) p (min (lsize old) n))) \<and>
    (\<exists>w' h'. tda_dealloc vt p old w = Some w' \<and> ok w' (L - {(p, old)}) \<and>
      al_dealloc a True old h = Some h' \<and> accounts h' a (L - {(p, old)}))"
  using allocator.alloc_accounts [OF assms(1,2,5,3,4)] allocator.realloc_accounts [OF assms(1,2,6,7,3,4)]
    allocator.dealloc_accounts [OF assms(1,2,6,3,4)] by (intro conjI)

text \<open>An arena with one block out.\<close>

theorem account_simulates_witness:
  "\<exists>w' h'. tda_dealloc arena_vtable 4096 \<lparr>lsize = 8, lalign = 8\<rparr>
      (\<lambda>_. 0, \<lparr>ar_parent = (None :: unit vtable option), ar_data = 4096, ar_cap = 64, ar_offset = 8, ar_floor = 0\<rparr>) = Some w' \<and>
    al_dealloc 1 True \<lparr>lsize = 8, lalign = 8\<rparr> (\<lambda>_. \<lparr>answers = [], live = {#\<lparr>lsize = 8, lalign = 8\<rparr>#}\<rparr>) = Some h' \<and>
    accounts h' 1 {}"
proof -
  let ?l = "\<lparr>lsize = 8, lalign = 8\<rparr>"
  let ?w = "(\<lambda>_. 0, \<lparr>ar_parent = (None :: unit vtable option), ar_data = 4096, ar_cap = 64, ar_offset = 8, ar_floor = 0\<rparr>) :: unit arena world"
  let ?h = "(\<lambda>_. \<lparr>answers = [], live = {#?l#}\<rparr>) :: heap"
  have r: "request SIZE_MAX ?l" by (simp add: request_def SIZE_MAX_def)
  have ok: "arena_ok (region 4096 64) [] ?w {(4096, ?l)}"
    using r by (auto simp: arena_ok_def assert_arena_def wf_blocks_def SIZE_MAX_def region_def)
  have acc: "accounts ?h 1 {(4096, ?l)}" by (simp add: accounts_def lives_def)
  have r8: "request SIZE_MAX (?l\<lparr>lsize := 8\<rparr>)" using r by simp
  note sim = account_simulates [OF arena.allocator_axioms ok acc one_neq_zero r insertI1 r8]
  then show ?thesis by fastforce
qed

section \<open>Histories of the containers\<close>

text \<open>
  C24: any number of vecs, deques, arrays, stacks, queues, priority queues and bit sets, and any
  number of lists, hash maps and hash sets sharing a memory of nodes, over any allocators, made by
  init, init_len, init_cap, from_data, from_span(s), copy or copy_with and put through any history
  of their calls, refused ones included, with copy_assign, move_assign, swap, the set algebra, and
  a list's merge, splice_front, splice_back and splice_node between any two of a kind, and with
  deinit: each account has what was out before the history and just the blocks of the containers
  there are; each of these is well formed and its deinit succeeds, gives back its own blocks and
  leaves the others well formed; when all have ended the accounts are as they were. The calls that
  hand a block over between a container and the program (init_raw, into_raw, into_vec, into_deque)
  are left out.
\<close>

theorem containers_leak_nothing:
  "((beside vec_acts)\<^sup>*\<^sup>* (h0, (), {#}) (h, u, V) \<longrightarrow> accounted (\<lambda>c. vec_view (fst c)) (finish_value tda_vec_deinit) h0 h u V) \<and>
   ((beside deque_acts)\<^sup>*\<^sup>* (h0, (), {#}) (h, u, D) \<longrightarrow> accounted (\<lambda>c. deque_view (fst c)) (finish_value tda_deque_deinit) h0 h u D) \<and>
   ((beside arr_acts)\<^sup>*\<^sup>* (h0, (), {#}) (h, u, A) \<longrightarrow> accounted (\<lambda>c. arr_view (fst c)) (finish_value tda_arr_deinit) h0 h u A) \<and>
   ((beside stack_acts)\<^sup>*\<^sup>* (h0, (), {#}) (h, u, S) \<longrightarrow> accounted (\<lambda>c. stack_view (fst c)) (finish_value tda_stack_deinit) h0 h u S) \<and>
   ((beside queue_acts)\<^sup>*\<^sup>* (h0, (), {#}) (h, u, Q) \<longrightarrow> accounted (\<lambda>c. queue_view (fst c)) (finish_value tda_queue_deinit) h0 h u Q) \<and>
   ((beside pqueue_acts)\<^sup>*\<^sup>* (h0, (), {#}) (h, u, P) \<longrightarrow> accounted (\<lambda>c. pqueue_view (fst c)) (finish_value tda_pqueue_deinit) h0 h u P) \<and>
   ((beside bitset_acts)\<^sup>*\<^sup>* (h0, (), {#}) (h, u, B) \<longrightarrow> accounted (\<lambda>c. bitset_view (fst c)) (finish_value tda_bitset_deinit) h0 h u B) \<and>
   ((beside list_acts)\<^sup>*\<^sup>* (h0, l0, {#}) (h, l, L) \<and> store_ok l0 \<longrightarrow> accounted list_view list_end h0 h l L) \<and>
   ((beside hmap_acts)\<^sup>*\<^sup>* (h0, e0, {#}) (h, e, M) \<and> store_ok e0 \<longrightarrow> accounted hmap_view hmap_end h0 h e M) \<and>
   ((beside hset_acts)\<^sup>*\<^sup>* (h0, s0, {#}) (h, s, T) \<and> store_ok s0 \<longrightarrow> accounted hset_view hset_end h0 h s T)"
  by (intro conjI impI; (elim conjE)?;
    rule vecs.fam.history_leaks_nothing deques.fam.history_leaks_nothing arrs.fam.history_leaks_nothing
      stacks.fam.history_leaks_nothing queues.fam.history_leaks_nothing pqueues.fam.history_leaks_nothing bitsets.fam.history_leaks_nothing
      lists.history_leaks_nothing maps.history_leaks_nothing sets.history_leaks_nothing; (assumption | rule TrueI))

text \<open>A push on a new vec takes a block; assigning another new one to it by move gives the block back.\<close>

theorem containers_leak_nothing_witness:
  "\<exists>v w h w' h'. tda_vec_init \<lparr>lsize = 1, lalign = 1\<rparr> 1 = Some v \<and>
    tda_vec_push v (Apart (Some True)) (\<lambda>_. \<lparr>answers = [True], live = {#}\<rparr>) = Some (TDA_STATUS_OK, w, h) \<and>
    lives h 1 = {#\<lparr>lsize = 1, lalign = 1\<rparr>#} \<and>
    tda_vec_move_assign False w v h = Some (v, w', h') \<and> lives h' = (\<lambda>_. {#})"
proof -
  let ?e = "\<lparr>lsize = 1, lalign = 1\<rparr>"
  let ?v = "\<lparr>vdata = [], vlen = 0, vcap = 0, velem = ?e, valloc = 1\<rparr> :: bool vec"
  let ?w = "\<lparr>vdata = [Some True], vlen = 1, vcap = 1, velem = ?e, valloc = 1\<rparr>"
  let ?h = "(\<lambda>_. \<lparr>answers = [True], live = {#}\<rparr>) :: heap"
  let ?h1 = "al_take 1 ?e (?h(1 := \<lparr>answers = [], live = {#}\<rparr>))"
  have t: "tda_layout_is_type ?e" by (simp add: tda_layout_is_type_def)
  have i: "tda_vec_init ?e 1 = Some ?v" using t by (simp add: tda_vec_init_def)
  have p: "tda_vec_push ?v (Apart (Some True)) ?h = Some (TDA_STATUS_OK, ?w, ?h1)"
    using t
    by (simp add: tda_vec_push_def ASSERT_VEC_def vec_alias_idx_def vec_block_layout_def tda_elems_layout_def
        vec_reserve_one_def vec_reserve_for_def vec_next_cap_def VEC_GROWTH_BASE_def vec_set_cap_def ckd_array_type
        al_realloc_def al_alloc_def al_answer_def al_take_def vec_arg_cell_def slots_put_def slots_resize_def
        slots_new_def SIZE_MAX_def wmul_def Let_def)
  have l1: "lives ?h1 1 = {#?e#}" by (simp add: al_take_def lives_def)
  have ok: "vec_ok ?w" "vec_ok ?v" "vec_owns ?h1 ?w"
    using t l1 by (simp_all add: vec_ok_def vec_owns_def vec_block_def held_def SIZE_MAX_def)
  obtain w' h' where m: "tda_vec_move_assign False ?w ?v ?h1 = Some (?v, w', h')" "vec_block w' = {#}"
    using vec_move_assign_spec [OF ok(1,3,2)] by auto
  have "beside vec_acts (?h, (), {#}) (?h, (), {#?v#})" using besideI [where step = vec_acts, OF va_init [OF i], where M = "{#}"] by simp
  moreover have "beside vec_acts (?h, (), {#?v#}) (?h, (), {#?v, ?v#})" using besideI [where step = vec_acts, OF va_init [OF i], where M = "{#?v#}"] by simp
  moreover have "beside vec_acts (?h, (), {#?v, ?v#}) (?h1, (), {#?w, ?v#})"
    using besideI [where step = vec_acts, OF va_call [OF step_push [OF _ p]], where M = "{#?v#}"] by (simp add: vec_arg_ok_def add_mset_commute)
  moreover have "beside vec_acts (?h1, (), {#?w, ?v#}) (h', (), {#?v, w'#})"
    using besideI [where step = vec_acts, OF va_move_assign [OF _ m(1)], where M = "{#}"] by simp
  ultimately have "(beside vec_acts)\<^sup>*\<^sup>* (?h, (), {#}) (h', (), {#?v, w'#})" by (meson rtranclp.rtrancl_refl rtranclp.rtrancl_into_rtrancl)
  then have "accounted (\<lambda>c. vec_view (fst c)) (finish_value tda_vec_deinit) ?h h' () {#?v, w'#}"
    by (rule containers_leak_nothing [THEN conjunct1, rule_format])
  then have "lives h' a = lives ?h a + all_out (\<lambda>c. vec_view (fst c)) () {#?v, w'#} a" for a unfolding accounted_def by blast
  then have "lives h' = (\<lambda>_. {#})" using m(2) by (simp add: fun_eq_iff out_at_def vec_block_def lives_def)
  then show ?thesis using i p m(1) l1 by blast
qed

end
